(* ===== verification/Prelude.thy ===== *)
theory Prelude
  imports Main "HOL-Library.Word"
begin

unbundle bit_operations_syntax

text \<open>
  Shared vocabulary of the development.

  \<^item> The machine integer types of \<^verbatim>\<open>core/include/vmm_types.h\<close> as words of their width.
  \<^item> The return codes of \<^verbatim>\<open>core/include/vmm_error.h\<close> as a datatype; the source tests them
    only against zero and against each other, so no arithmetic is needed on them.
  \<^item> \<open>'a result\<close>: the outcome of a routine that may stop the machine.  A
    \<^verbatim>\<open>vmm_panic\<close> or a failed \<^verbatim>\<open>BUG_ON\<close> is \<open>Panic\<close>, an access outside an
    allocated object is \<open>Fault\<close>; both end the run, and no later operation sees the state.
  \<^item> Generic lemmas on lists and words that several components use.
\<close>

section \<open>Machine integers\<close>

type_synonym u8 = "8 word"
type_synonym u16 = "16 word"
type_synonym u32 = "32 word"
type_synonym u64 = "64 word"

section \<open>Return codes\<close>

datatype vmm_rc =
    VMM_OK | VMM_EFAIL | VMM_EUNKNOWN | VMM_ENOTAVAIL | VMM_EALREADY | VMM_EINVALID
  | VMM_EOVERFLOW | VMM_ENOMEM | VMM_ENODEV | VMM_EBUSY | VMM_EEXIST | VMM_ETIMEDOUT
  | VMM_EACCESS | VMM_ENOEXEC | VMM_ENOENT | VMM_ENOSYS | VMM_EIO | VMM_ETIME
  | VMM_ERANGE | VMM_EILSEQ | VMM_EOPNOTSUPP | VMM_ENOSPC | VMM_ENODATA | VMM_EFAULT
  | VMM_ENXIO | VMM_EPROTONOSUPPORT | VMM_EPROBE_DEFER | VMM_ESHUTDOWN | VMM_EREMOTEIO
  | VMM_EINPROGRESS | VMM_EROFS | VMM_EBADMSG | VMM_EUCLEAN | VMM_ENOTSUPP | VMM_EAGAIN
  | VMM_EPROTO

section \<open>Outcomes\<close>

datatype 'a result = Done 'a | Panic | Fault

fun bind_result :: "'a result \<Rightarrow> ('a \<Rightarrow> 'b result) \<Rightarrow> 'b result" where
  "bind_result (Done x) f = f x"
| "bind_result Panic f = Panic"
| "bind_result Fault f = Fault"

lemma bind_result_eq_Done [simp]:
  "bind_result m f = Done y \<longleftrightarrow> (\<exists>x. m = Done x \<and> f x = Done y)"
  by (cases m) auto

lemma bind_result_cong [fundef_cong]:
  "m = m' \<Longrightarrow> (\<And>x. m' = Done x \<Longrightarrow> f x = f' x) \<Longrightarrow> bind_result m f = bind_result m' f'"
  by (cases m') auto

lemma bind_result_assoc:
  "bind_result (bind_result m f) g = bind_result m (\<lambda>x. bind_result (f x) g)"
  by (cases m) auto

text \<open>\<open>P\<close> holds of the result, if there is one.\<close>

fun result_all :: "('a \<Rightarrow> bool) \<Rightarrow> 'a result \<Rightarrow> bool" where
  "result_all P (Done x) = P x"
| "result_all P Panic = True"
| "result_all P Fault = True"

lemma result_allD: "result_all P m \<Longrightarrow> m = Done x \<Longrightarrow> P x"
  by simp

lemma result_all_bind [simp]: "result_all P (bind_result m f) = result_all (\<lambda>x. result_all P (f x)) m"
  by (cases m) simp_all

lemma result_all_True [simp]: "result_all (\<lambda>x. True) m"
  by (cases m) simp_all

lemma result_all_mono: "result_all P m \<Longrightarrow> (\<And>x. m = Done x \<Longrightarrow> P x \<Longrightarrow> Q x) \<Longrightarrow> result_all Q m"
  by (cases m) simp_all

lemma result_allI: "(\<And>x. m = Done x \<Longrightarrow> P x) \<Longrightarrow> result_all P m"
  by (cases m) simp_all

section \<open>Collections of facts\<close>

named_theorems rc_defs \<open>definitions of small reading operations, unfolded together\<close>

section \<open>Lists\<close>

text \<open>Removing the single occurrence of an element from a list without repetitions.\<close>

lemma set_remove1_distinct [simp]: "distinct xs \<Longrightarrow> set (remove1 x xs) = set xs - {x}"
  by (induction xs) auto

lemma hd_tl_notin: "distinct xs \<Longrightarrow> xs \<noteq> [] \<Longrightarrow> hd xs \<notin> set (tl xs)"
  by (cases xs) auto

lemma set_tl_distinct: "distinct xs \<Longrightarrow> xs \<noteq> [] \<Longrightarrow> set (tl xs) = set xs - {hd xs}"
  by (cases xs) auto

section \<open>Ring positions\<close>

lemma mod_ring_neq:
  fixes r i j c :: nat
  assumes "i < j" and "j < c"
  shows "(r + i) mod c \<noteq> (r + j) mod c"
proof
  assume "(r + i) mod c = (r + j) mod c"
  then have "c dvd (r + j) - (r + i)" using mod_eq_dvd_iff_nat [of "r + i" "r + j" c] assms by simp
  then have "c dvd j - i" by simp
  then show False using assms by (meson dvd_imp_le less_imp_diff_less not_le zero_less_diff)
qed

section \<open>Words\<close>

lemma unat_bound: "unat w < 2 ^ LENGTH('n)" for w :: "'n::len word"
  by (rule unsigned_less)

lemma unat_add_no_wrap:
  "unat a + unat b < 2 ^ LENGTH('n) \<Longrightarrow> unat (a + b) = unat a + unat b" for a b :: "'n::len word"
  by (simp add: unat_word_ariths)

lemma unat_mult_no_wrap:
  "unat a * unat b < 2 ^ LENGTH('n) \<Longrightarrow> unat (a * b) = unat a * unat b" for a b :: "'n::len word"
  by (simp add: unat_word_ariths)

lemma unat_sub_one: "a \<noteq> 0 \<Longrightarrow> unat (a - 1) = unat a - 1" for a :: "'n::len word"
  by (simp add: unat_minus_one)

lemma unat_add_one:
  "unat a + 1 < 2 ^ LENGTH('n) \<Longrightarrow> unat (a + 1) = unat a + 1" for a :: "'n::len word"
  using unat_add_no_wrap [of a 1] by simp

lemma unat_and_mask: "unat (w AND mask k) = unat w mod 2 ^ k" for w :: "'n::len word"
  by (metis take_bit_eq_mask take_bit_eq_mod unsigned_take_bit_eq)

lemma unat_drop_bit: "unat (drop_bit k w) = unat w div 2 ^ k" for w :: "'n::len word"
  unfolding unat_drop_bit_eq by (rule drop_bit_eq_div)

lemma and_not_mask: "w AND NOT (mask k) = w - take_bit k w" for w :: "'n::len word"
proof -
  have "w AND NOT (mask k) = push_bit k (drop_bit k w)"
    by (rule bit_eqI) (auto simp: bit_simps)
  then show ?thesis using bits_ident [of k w] by (metis add_diff_cancel_right')
qed

lemma unat_and_not_mask: "unat (w AND NOT (mask k)) = unat w div 2 ^ k * 2 ^ k" for w :: "'n::len word"
proof -
  have t: "unat (take_bit k w) = unat w mod 2 ^ k"
    unfolding unsigned_take_bit_eq by (rule take_bit_eq_mod)
  then have "take_bit k w \<le> w" by (simp add: word_le_nat_alt)
  then have "unat (w AND NOT (mask k)) = unat w - unat w mod 2 ^ k"
    by (simp add: and_not_mask unat_sub t)
  then show ?thesis by (simp add: minus_mod_eq_div_mult)
qed

lemma exp_minus_1: "2 ^ k - 1 = (mask k :: 'n::len word)" by (simp add: mask_eq_exp_minus_1)

lemma unat_pos: "w \<noteq> 0 \<Longrightarrow> 1 \<le> unat w" for w :: "'n::len word"
  using unat_eq_0 [of w] by linarith

lemma unat_pred: "w \<noteq> 0 \<Longrightarrow> unat (w - 1) + 1 = unat w" for w :: "'n::len word"
  using unat_sub_one [of w] unat_pos [of w] by simp

lemma unat_exp: "k < LENGTH('n) \<Longrightarrow> unat (2 ^ k :: 'n::len word) = 2 ^ k"
  using unat_of_nat [of "2 ^ k", where ?'a = 'n] by simp

lemma unat_mask: "k < LENGTH('n) \<Longrightarrow> unat (mask k :: 'n::len word) = 2 ^ k - 1"
  by (metis exp_minus_1 unat_exp unat_minus_one unat_0 power_not_zero zero_neq_numeral)

lemma unat_ucast_mod: "unat (ucast x :: 'b::len word) = unat x mod 2 ^ LENGTH('b)" for x :: "'a::len word"
  unfolding unsigned_ucast_eq by (rule take_bit_eq_mod)

lemma unat_ucast_up: "LENGTH('a) \<le> LENGTH('b) \<Longrightarrow> unat (ucast x :: 'b::len word) = unat x" for x :: "'a::len word"
proof -
  assume "LENGTH('a) \<le> LENGTH('b)"
  then have "unat x < 2 ^ LENGTH('b)"
    using unat_bound [of x] by (meson less_le_trans one_le_numeral power_increasing)
  then show ?thesis by (simp add: unat_ucast_mod)
qed

end
