(* ===== verification/Fifo.thy ===== *)
theory Fifo
  imports Prelude
begin

text \<open>
  The byte FIFO of \<^verbatim>\<open>libs/common/fifo.c\<close>: a ring buffer of \<open>element_count\<close> slots of
  \<open>element_size\<close> bytes each, with wrapping read and write positions.

  The buffer is the list of bytes that \<^verbatim>\<open>vmm_zalloc\<close> returned, so a slot is reached by the
  same 32-bit multiplication as in the code and an access outside the buffer is a \<open>Fault\<close>.
  Pointers the code tests against \<^verbatim>\<open>NULL\<close> are options.  The spin lock makes each operation
  atomic and leaves no trace in the state.
\<close>

section \<open>State\<close>

record fifo =
  elements :: "u8 list"
  element_size :: u32
  element_count :: u32
  read_pos :: u32
  write_pos :: u32
  avail_count :: u32

section \<open>Operations\<close>

text \<open>The heap answers the two allocations; \<open>heap_f\<close> and \<open>heap_e\<close> say whether they succeed.\<close>

definition fifo_alloc :: "bool \<Rightarrow> bool \<Rightarrow> u32 \<Rightarrow> u32 \<Rightarrow> fifo option" where
  "fifo_alloc heap_f heap_e esize ecount =
     (if esize = 0 \<or> ecount = 0 then None
      else if \<not> heap_f then None
      else if \<not> heap_e then None
      else Some \<lparr>elements = replicate (unat (esize * ecount)) 0,
                 element_size = esize, element_count = ecount,
                 read_pos = 0, write_pos = 0, avail_count = 0\<rparr>)"

definition fifo_is_empty_unlocked :: "fifo \<Rightarrow> bool" where
  "fifo_is_empty_unlocked f = (if avail_count f \<noteq> 0 then False else True)"

definition fifo_is_full_unlocked :: "fifo \<Rightarrow> bool" where
  "fifo_is_full_unlocked f = (if element_count f \<le> avail_count f then True else False)"

definition fifo_isempty :: "fifo option \<Rightarrow> bool" where
  "fifo_isempty fp = (case fp of None \<Rightarrow> True | Some f \<Rightarrow> fifo_is_empty_unlocked f)"

definition fifo_isfull :: "fifo option \<Rightarrow> bool" where
  "fifo_isfull fp = (case fp of None \<Rightarrow> False | Some f \<Rightarrow> fifo_is_full_unlocked f)"

text \<open>
  The \<^verbatim>\<open>switch (f->element_size)\<close> that computes the byte offset of a slot.  Every arm moves
  exactly \<open>element_size\<close> bytes.
\<close>

definition slot_offset :: "u32 \<Rightarrow> u32 \<Rightarrow> u32" where
  "slot_offset esize pos =
     (if esize = 1 then pos
      else if esize = 2 then pos * 2
      else if esize = 4 then pos * 4
      else if esize = 8 then pos * 8
      else pos * esize)"

definition slot_read :: "fifo \<Rightarrow> u32 \<Rightarrow> u8 list result" where
  "slot_read f pos =
     (let off = unat (slot_offset (element_size f) pos); n = unat (element_size f)
      in if off + n \<le> length (elements f) then Done (take n (drop off (elements f))) else Fault)"

definition slot_write :: "fifo \<Rightarrow> u32 \<Rightarrow> u8 list \<Rightarrow> fifo result" where
  "slot_write f pos src =
     (let off = unat (slot_offset (element_size f) pos); n = unat (element_size f)
      in if n \<le> length src \<and> off + n \<le> length (elements f)
         then Done (f\<lparr>elements := take off (elements f) @ take n src @ drop (off + n) (elements f)\<rparr>)
         else Fault)"

text \<open>Advance a position by one slot, back to 0 past the last.\<close>

definition fifo_advance :: "fifo \<Rightarrow> u32 \<Rightarrow> u32" where
  "fifo_advance f pos = (let p = pos + 1 in if element_count f \<le> p then 0 else p)"

definition fifo_drop_oldest :: "fifo \<Rightarrow> fifo" where
  "fifo_drop_oldest f =
     f\<lparr>read_pos := fifo_advance f (read_pos f), avail_count := avail_count f - 1\<rparr>"

definition fifo_enqueue ::
  "fifo option \<Rightarrow> u8 list option \<Rightarrow> bool \<Rightarrow> (fifo option \<times> bool) result" where
  "fifo_enqueue fp srcp overwrite =
     (case (fp, srcp) of
        (Some f, Some src) \<Rightarrow>
          (let f1 = (if overwrite \<and> fifo_is_full_unlocked f then fifo_drop_oldest f else f)
           in if \<not> fifo_is_full_unlocked f1
              then bind_result (slot_write f1 (write_pos f1) src)
                     (\<lambda>f2. Done (Some (f2\<lparr>write_pos := fifo_advance f2 (write_pos f2),
                                          avail_count := avail_count f2 + 1\<rparr>), True))
              else Done (Some f1, False))
      | _ \<Rightarrow> Done (fp, False))"

text \<open>\<open>dst\<close> says whether the caller passed a destination; the bytes read are returned.\<close>

definition fifo_dequeue :: "fifo option \<Rightarrow> bool \<Rightarrow> (fifo option \<times> u8 list option) result" where
  "fifo_dequeue fp dst =
     (case fp of
        Some f \<Rightarrow>
          (if \<not> dst then Done (fp, None)
           else if \<not> fifo_is_empty_unlocked f
           then bind_result (slot_read f (read_pos f))
                  (\<lambda>bytes. Done (Some (fifo_drop_oldest f), Some bytes))
           else Done (fp, None))
      | None \<Rightarrow> Done (fp, None))"

definition fifo_clear :: "fifo option \<Rightarrow> fifo option \<times> bool" where
  "fifo_clear fp =
     (case fp of None \<Rightarrow> (None, False)
      | Some f \<Rightarrow> (Some (f\<lparr>read_pos := 0, write_pos := 0, avail_count := 0\<rparr>), True))"

definition fifo_getelement :: "fifo option \<Rightarrow> u32 \<Rightarrow> bool \<Rightarrow> u8 list option result" where
  "fifo_getelement fp index dst =
     (case fp of
        Some f \<Rightarrow>
          (if \<not> dst then Done None
           else if element_count f \<le> index then Done None
           else let i = read_pos f + index;
                    j = (if element_count f \<le> i then i - element_count f else i)
                in bind_result (slot_read f j) (\<lambda>bytes. Done (Some bytes)))
      | None \<Rightarrow> Done None)"

definition fifo_avail :: "fifo option \<Rightarrow> u32" where
  "fifo_avail fp = (case fp of None \<Rightarrow> 0 | Some f \<Rightarrow> avail_count f)"

section \<open>Invariant and abstraction\<close>

definition fifo_inv :: "fifo \<Rightarrow> bool" where
  "fifo_inv f \<longleftrightarrow>
     0 < element_size f \<and> 0 < element_count f
   \<and> unat (element_size f) * unat (element_count f) = length (elements f)
   \<and> length (elements f) < 2 ^ 32
   \<and> read_pos f < element_count f \<and> write_pos f < element_count f
   \<and> avail_count f \<le> element_count f
   \<and> unat (write_pos f) = (unat (read_pos f) + unat (avail_count f)) mod unat (element_count f)"

definition slot :: "fifo \<Rightarrow> nat \<Rightarrow> u8 list" where
  "slot f i = take (unat (element_size f)) (drop (i * unat (element_size f)) (elements f))"

definition fifo_abs :: "fifo \<Rightarrow> u8 list list" where
  "fifo_abs f =
     map (\<lambda>i. slot f ((unat (read_pos f) + i) mod unat (element_count f))) [0..<unat (avail_count f)]"

section \<open>Slots\<close>

lemma slot_offset_mult: "slot_offset esize pos = pos * esize"
  by (simp add: slot_offset_def)

lemma slot_bounds:
  assumes "fifo_inv f" and "i < unat (element_count f)"
  shows "i * unat (element_size f) + unat (element_size f) \<le> length (elements f)"
proof -
  from assms(2) have "Suc i * unat (element_size f) \<le> unat (element_count f) * unat (element_size f)"
    by (intro mult_le_mono1) simp
  then show ?thesis using assms(1) by (simp add: fifo_inv_def mult.commute add.commute)
qed

lemma unat_slot_offset:
  assumes "fifo_inv f" and "pos < element_count f"
  shows "unat (slot_offset (element_size f) pos) = unat pos * unat (element_size f)"
proof -
  from assms(2) have "unat pos < unat (element_count f)" by (simp add: word_less_nat_alt)
  from slot_bounds [OF assms(1) this] assms(1)
  have "unat pos * unat (element_size f) < 2 ^ 32" by (simp add: fifo_inv_def)
  then show ?thesis by (simp add: slot_offset_mult unat_mult_no_wrap)
qed

lemma slot_read_ok:
  assumes "fifo_inv f" and "pos < element_count f"
  shows "slot_read f pos = Done (slot f (unat pos))"
proof -
  from assms(2) have "unat pos < unat (element_count f)" by (simp add: word_less_nat_alt)
  from slot_bounds [OF assms(1) this] show ?thesis
    by (simp add: slot_read_def slot_def Let_def unat_slot_offset [OF assms])
qed

text \<open>Overwriting one block of a list of equal blocks.\<close>

lemma block_update:
  fixes xs :: "'a list"
  assumes "length s = n" and "p * n + n \<le> length xs"
  shows "take n (drop (i * n) (take (p * n) xs @ s @ drop (p * n + n) xs))
       = (if i = p then s else take n (drop (i * n) xs))"
proof (rule linorder_cases [of i p])
  assume "i < p"
  then have "Suc i * n \<le> p * n" by (intro mult_le_mono1) simp
  then have "i * n + n \<le> p * n" by (simp add: add.commute)
  moreover have "length (take (p * n) xs) = p * n" using assms by simp
  ultimately have "take n (drop (i * n) (take (p * n) xs @ s @ drop (p * n + n) xs))
      = take n (drop (i * n) (take (p * n) xs))"
    by (simp del: length_take)
  also have "\<dots> = take (min n (p * n - i * n)) (drop (i * n) xs)"
    by (simp only: drop_take take_take)
  also have "min n (p * n - i * n) = n" using \<open>i * n + n \<le> p * n\<close> by simp
  finally show ?thesis using \<open>i < p\<close> by simp
next
  assume "i = p"
  with assms show ?thesis by simp
next
  assume "p < i"
  then have "Suc p * n \<le> i * n" by (intro mult_le_mono1) simp
  then have le: "p * n + n \<le> i * n" by (simp add: add.commute)
  then have "drop (i * n) (take (p * n) xs @ s @ drop (p * n + n) xs) = drop (i * n) xs"
    using assms \<open>p < i\<close> by (simp add: drop_append add.commute)
  with \<open>p < i\<close> show ?thesis by simp
qed

lemma slot_write_ok:
  assumes "fifo_inv f" and "pos < element_count f" and "length src = unat (element_size f)"
  shows "\<exists>es. slot_write f pos src = Done (f\<lparr>elements := es\<rparr>)
            \<and> length es = length (elements f)
            \<and> (\<forall>i. slot (f\<lparr>elements := es\<rparr>) i = (if i = unat pos then src else slot f i))"
proof -
  let ?n = "unat (element_size f)" and ?p = "unat pos"
  let ?es = "take (?p * ?n) (elements f) @ src @ drop (?p * ?n + ?n) (elements f)"
  from assms(2) have "?p < unat (element_count f)" by (simp add: word_less_nat_alt)
  note b = slot_bounds [OF assms(1) this]
  have "slot_write f pos src = Done (f\<lparr>elements := ?es\<rparr>)"
    using b assms(3) by (simp add: slot_write_def Let_def unat_slot_offset [OF assms(1,2)])
  moreover have "length ?es = length (elements f)" using b assms(3) by simp
  moreover have "\<forall>i. slot (f\<lparr>elements := ?es\<rparr>) i = (if i = ?p then src else slot f i)"
    using block_update [OF assms(3) b] by (simp add: slot_def)
  ultimately show ?thesis by blast
qed

section \<open>Positions\<close>

lemma unat_fifo_advance:
  assumes "pos < element_count f"
  shows "unat (fifo_advance f pos) = (unat pos + 1) mod unat (element_count f)"
proof -
  let ?c = "element_count f"
  have lt: "unat pos < unat ?c" using assms by (simp add: word_less_nat_alt)
  have "unat pos + 1 < 2 ^ 32" using lt unat_bound [of ?c] by simp
  then have s: "unat (pos + 1) = unat pos + 1" by (simp add: unat_add_one)
  show ?thesis
  proof (cases "?c \<le> pos + 1")
    case True
    then have "unat ?c \<le> unat pos + 1" by (simp add: word_le_nat_alt s)
    with lt have "unat pos + 1 = unat ?c" by simp
    with True show ?thesis by (simp add: fifo_advance_def)
  next
    case False
    then have "unat pos + 1 < unat ?c" by (simp add: word_le_nat_alt s)
    with False show ?thesis by (simp add: fifo_advance_def s)
  qed
qed

lemma fifo_advance_less: "pos < element_count f \<Longrightarrow> fifo_advance f pos < element_count f"
  by (simp add: word_less_nat_alt unat_fifo_advance)

section \<open>One step of the ring\<close>

lemma fifo_abs_length [simp]: "length (fifo_abs f) = unat (avail_count f)"
  by (simp add: fifo_abs_def)

lemma fifo_abs_Nil_iff: "fifo_abs f = [] \<longleftrightarrow> avail_count f = 0"
  using fifo_abs_length [of f] by (metis length_0_conv unat_eq_0)

lemma fifo_empty_iff: "fifo_is_empty_unlocked f \<longleftrightarrow> fifo_abs f = []"
  by (simp add: fifo_is_empty_unlocked_def fifo_abs_Nil_iff)

lemma fifo_full_iff:
  "fifo_is_full_unlocked f \<longleftrightarrow> unat (element_count f) \<le> length (fifo_abs f)"
  by (simp add: fifo_is_full_unlocked_def word_le_nat_alt)

lemma fifo_drop_oldest_ok:
  assumes inv: "fifo_inv f" and ne: "fifo_abs f \<noteq> []"
  shows "fifo_inv (fifo_drop_oldest f)" and "fifo_abs (fifo_drop_oldest f) = tl (fifo_abs f)"
proof -
  let ?c = "unat (element_count f)" and ?r = "unat (read_pos f)" and ?a = "unat (avail_count f)"
  let ?g = "\<lambda>i. slot f ((?r + i) mod ?c)"
  have a: "?a \<noteq> 0" "avail_count f \<noteq> 0" using ne by (auto simp: fifo_abs_Nil_iff unat_eq_0)
  then have a': "unat (avail_count f - 1) = ?a - 1" by (simp add: unat_sub_one)
  have r: "read_pos f < element_count f" using inv by (simp add: fifo_inv_def)
  have adv: "unat (fifo_advance f (read_pos f)) = (?r + 1) mod ?c" by (rule unat_fifo_advance [OF r])
  have shift: "(Suc ?r mod ?c + (?a - Suc 0)) mod ?c = (?r + ?a) mod ?c"
    using a mod_add_left_eq [of "Suc ?r" ?c "?a - Suc 0"] by simp
  have "?a \<le> ?c" using inv by (simp add: fifo_inv_def word_le_nat_alt)
  then have "avail_count f - 1 \<le> element_count f" using a' unfolding word_le_nat_alt by linarith
  then show "fifo_inv (fifo_drop_oldest f)"
    using inv adv a' fifo_advance_less [OF r]
    by (simp add: fifo_inv_def fifo_drop_oldest_def shift)
  have "fifo_abs (fifo_drop_oldest f) = map ?g (map Suc [0..<?a - 1])"
    by (simp add: fifo_abs_def fifo_drop_oldest_def slot_def adv a' mod_simps)
  also have "map Suc [0..<?a - 1] = tl [0..<?a]"
    using a by (simp add: map_Suc_upt tl_upt)
  finally show "fifo_abs (fifo_drop_oldest f) = tl (fifo_abs f)"
    by (metis fifo_abs_def map_tl)
qed

definition fifo_push :: "fifo \<Rightarrow> u8 list \<Rightarrow> fifo result" where
  "fifo_push f src = bind_result (slot_write f (write_pos f) src)
     (\<lambda>f2. Done (f2\<lparr>write_pos := fifo_advance f2 (write_pos f2), avail_count := avail_count f2 + 1\<rparr>))"

lemma fifo_push_ok:
  assumes inv: "fifo_inv f" and room: "length (fifo_abs f) < unat (element_count f)"
    and len: "length src = unat (element_size f)"
  shows "\<exists>f'. fifo_push f src = Done f' \<and> fifo_inv f' \<and> fifo_abs f' = fifo_abs f @ [src]
            \<and> element_size f' = element_size f \<and> element_count f' = element_count f"
proof -
  let ?c = "unat (element_count f)" and ?r = "unat (read_pos f)" and ?a = "unat (avail_count f)"
  have w: "write_pos f < element_count f" and wp: "unat (write_pos f) = (?r + ?a) mod ?c"
    using inv by (auto simp: fifo_inv_def)
  have ac: "?a < ?c" using room by simp
  have a1: "unat (avail_count f + 1) = ?a + 1"
    using ac unat_bound [of "element_count f"] by (intro unat_add_one) simp
  obtain es where wr: "slot_write f (write_pos f) src = Done (f\<lparr>elements := es\<rparr>)"
    and les: "length es = length (elements f)"
    and sl: "\<And>i. slot (f\<lparr>elements := es\<rparr>) i = (if i = unat (write_pos f) then src else slot f i)"
    using slot_write_ok [OF inv w len] by blast
  let ?f' = "f\<lparr>elements := es, write_pos := fifo_advance f (write_pos f), avail_count := avail_count f + 1\<rparr>"
  have adv: "unat (fifo_advance f (write_pos f)) = Suc (?r + ?a) mod ?c"
    using unat_fifo_advance [OF w] by (simp add: wp mod_Suc_eq)
  have push: "fifo_push f src = Done ?f'" by (simp add: fifo_push_def wr fifo_advance_def)
  have sl': "slot ?f' i = (if i = unat (write_pos f) then src else slot f i)" for i
    using sl [of i] by (simp add: slot_def)
  have "fifo_inv ?f'"
    using inv les adv fifo_advance_less [OF w] a1 ac by (simp add: fifo_inv_def word_le_nat_alt)
  moreover have "fifo_abs ?f' = fifo_abs f @ [src]"
    using ac mod_ring_neq [of _ ?a ?c ?r] by (auto simp: fifo_abs_def a1 sl' wp)
  ultimately show ?thesis using push by auto
qed

lemma fifo_enqueue_push:
  "fifo_enqueue (Some f) (Some src) ow =
     (let f1 = (if ow \<and> fifo_is_full_unlocked f then fifo_drop_oldest f else f)
      in if fifo_is_full_unlocked f1 then Done (Some f1, False)
         else bind_result (fifo_push f1 src) (\<lambda>f'. Done (Some f', True)))"
  by (simp add: fifo_enqueue_def fifo_push_def bind_result_assoc Let_def)

section \<open>Bounded queues\<close>

text \<open>Put a list of items one after the other; take up to \<open>n\<close> items out.\<close>

fun put_all :: "('q \<Rightarrow> 'a \<Rightarrow> ('q \<times> bool) result) \<Rightarrow> 'q \<Rightarrow> 'a list \<Rightarrow> 'q result" where
  "put_all put q [] = Done q"
| "put_all put q (x # xs) = bind_result (put q x) (\<lambda>(q', _). put_all put q' xs)"

fun get_n :: "('q \<Rightarrow> ('q \<times> 'a option) result) \<Rightarrow> 'q \<Rightarrow> nat \<Rightarrow> ('q \<times> 'a list) result" where
  "get_n get q 0 = Done (q, [])"
| "get_n get q (Suc n) = bind_result (get q) (\<lambda>(q', r). case r of None \<Rightarrow> Done (q', [])
     | Some x \<Rightarrow> bind_result (get_n get q' n) (\<lambda>(q'', xs). Done (q'', x # xs)))"

text \<open>
  What a client of a bounded queue relies on.  \<open>content q\<close> is the list of queued items, oldest
  first; \<open>fits q x\<close> says that \<open>x\<close> is an item of the queue's size.
\<close>

locale bounded_queue =
  fixes invar :: "'q \<Rightarrow> bool"
    and content :: "'q \<Rightarrow> 'a list"
    and capacity :: "'q \<Rightarrow> nat"
    and fits :: "'q \<Rightarrow> 'a \<Rightarrow> bool"
    and put :: "'q \<Rightarrow> 'a \<Rightarrow> ('q \<times> bool) result"
    and get :: "'q \<Rightarrow> ('q \<times> 'a option) result"
  assumes put_room: "invar q \<Longrightarrow> fits q x \<Longrightarrow> length (content q) < capacity q \<Longrightarrow>
      \<exists>q'. put q x = Done (q', True) \<and> invar q' \<and> content q' = content q @ [x]
         \<and> capacity q' = capacity q \<and> (\<forall>y. fits q' y = fits q y)"
    and put_full: "invar q \<Longrightarrow> fits q x \<Longrightarrow> capacity q \<le> length (content q) \<Longrightarrow>
      put q x = Done (q, False)"
    and get_some: "invar q \<Longrightarrow> content q = x # xs \<Longrightarrow>
      \<exists>q'. get q = Done (q', Some x) \<and> invar q' \<and> content q' = xs
         \<and> capacity q' = capacity q \<and> (\<forall>y. fits q' y = fits q y)"
    and get_none: "invar q \<Longrightarrow> content q = [] \<Longrightarrow> get q = Done (q, None)"
    and bounded: "invar q \<Longrightarrow> length (content q) \<le> capacity q"
begin

lemma put_all_content:
  assumes "invar q" and "\<forall>x \<in> set xs. fits q x" and "length (content q) + length xs \<le> capacity q"
  shows "\<exists>q'. put_all put q xs = Done q' \<and> invar q' \<and> content q' = content q @ xs"
  using assms
proof (induction xs arbitrary: q)
  case (Cons x xs)
  then have "length (content q) < capacity q" "fits q x" by auto
  with put_room [OF Cons.prems(1)] obtain q' where q': "put q x = Done (q', True)" "invar q'"
    "content q' = content q @ [x]" "capacity q' = capacity q" "\<forall>y. fits q' y = fits q y" by blast
  with Cons.IH [of q'] Cons.prems show ?case by auto
qed simp

lemma get_n_content:
  assumes "invar q"
  shows "\<exists>q'. get_n get q n = Done (q', take n (content q)) \<and> invar q' \<and> content q' = drop n (content q)"
  using assms
proof (induction n arbitrary: q)
  case (Suc n)
  show ?case
  proof (cases "content q")
    case Nil
    then show ?thesis using get_none [OF Suc.prems] Suc.prems by simp
  next
    case (Cons x xs)
    with get_some [OF Suc.prems] obtain q' where q': "get q = Done (q', Some x)" "invar q'"
      "content q' = xs" by blast
    with Suc.IH [OF q'(2)] Cons show ?thesis by auto
  qed
qed simp

lemma put_all_get_n:
  assumes "invar q" and "content q = []" and "\<forall>x \<in> set xs. fits q x" and "length xs \<le> capacity q"
  shows "\<exists>q' q''. put_all put q xs = Done q' \<and> get_n get q' (length xs) = Done (q'', xs) \<and> content q'' = []"
proof -
  from put_all_content [of q xs] assms obtain q' where
    q': "put_all put q xs = Done q'" "invar q'" "content q' = xs" by auto
  from get_n_content [OF q'(2), of "length xs"] q'(3) obtain q'' where
    "get_n get q' (length xs) = Done (q'', xs)" "content q'' = []" by auto
  with q'(1) show ?thesis by blast
qed

end

text \<open>The FIFO without overwriting, as the client of a non-null FIFO calls it.\<close>

definition fifo_put :: "fifo \<Rightarrow> u8 list \<Rightarrow> (fifo \<times> bool) result" where
  "fifo_put f src = bind_result (fifo_enqueue (Some f) (Some src) False) (\<lambda>(fp, ok). Done (the fp, ok))"

definition fifo_get :: "fifo \<Rightarrow> (fifo \<times> u8 list option) result" where
  "fifo_get f = bind_result (fifo_dequeue (Some f) True) (\<lambda>(fp, r). Done (the fp, r))"

definition fifo_fits :: "fifo \<Rightarrow> u8 list \<Rightarrow> bool" where
  "fifo_fits f src \<longleftrightarrow> length src = unat (element_size f)"

lemma fifo_inv_bounded: "fifo_inv f \<Longrightarrow> length (fifo_abs f) \<le> unat (element_count f)"
  by (simp add: fifo_inv_def word_le_nat_alt)

lemma fifo_dequeue_some:
  assumes "fifo_inv f" and "fifo_abs f = x # xs"
  shows "fifo_dequeue (Some f) True = Done (Some (fifo_drop_oldest f), Some x)"
proof -
  have a: "unat (avail_count f) \<noteq> 0" using arg_cong [OF assms(2), of length] by simp
  have "read_pos f < element_count f" using assms(1) by (simp add: fifo_inv_def)
  moreover have "slot f (unat (read_pos f)) = x"
  proof -
    have "fifo_abs f ! 0 = slot f (unat (read_pos f) mod unat (element_count f))"
      using a by (simp add: fifo_abs_def)
    then show ?thesis using assms \<open>read_pos f < element_count f\<close> by (simp add: word_less_nat_alt)
  qed
  ultimately show ?thesis
    using assms by (simp add: fifo_dequeue_def fifo_empty_iff slot_read_ok)
qed

interpretation ffq: bounded_queue fifo_inv fifo_abs "\<lambda>f. unat (element_count f)" fifo_fits fifo_put fifo_get
proof (unfold_locales, goal_cases)
  case (1 q x)
  then obtain f' where "fifo_push q x = Done f'" "fifo_inv f'" "fifo_abs f' = fifo_abs q @ [x]"
    "element_size f' = element_size q" "element_count f' = element_count q"
    using fifo_push_ok [of q x] by (auto simp: fifo_fits_def)
  with 1 show ?case
    by (intro exI [of _ f']) (simp add: fifo_put_def fifo_enqueue_push fifo_full_iff fifo_fits_def)
next
  case (2 q x)
  then show ?case by (simp add: fifo_put_def fifo_enqueue_push fifo_full_iff)
next
  case (3 q x xs)
  then have "fifo_get q = Done (fifo_drop_oldest q, Some x)"
    by (simp add: fifo_get_def fifo_dequeue_some)
  moreover from 3 have "fifo_inv (fifo_drop_oldest q)" "fifo_abs (fifo_drop_oldest q) = xs"
    by (simp_all add: fifo_drop_oldest_ok)
  ultimately show ?case by (simp add: fifo_drop_oldest_def fifo_fits_def)
next
  case (4 q)
  then show ?case by (simp add: fifo_get_def fifo_dequeue_def fifo_empty_iff)
next
  case (5 q)
  then show ?case by (rule fifo_inv_bounded)
qed

section \<open>Properties\<close>

lemma fifo_alloc_inv:
  assumes "unat esize * unat ecount < 2 ^ 32" and "fifo_alloc hf he esize ecount = Some f"
  shows "fifo_inv f" and "fifo_abs f = []"
  using assms by (auto simp: fifo_alloc_def fifo_inv_def fifo_abs_def unat_mult_no_wrap word_gt_0 split: if_splits)

text \<open>
  \<open>fifo_enqueue\<close> refines the bounded queue on every branch.  On a well-formed FIFO it never
  touches memory outside the buffer; a free slot is filled at the end of the queue; a full FIFO
  refuses the item, unless \<open>overwrite\<close> is set, in which case exactly the oldest item is dropped.
\<close>

theorem fifo_enqueue_refines:
  assumes "fifo_inv f" and "length src = unat (element_size f)"
  shows "\<exists>f'. fifo_enqueue (Some f) (Some src) ow
        = Done (Some f', ow \<or> length (fifo_abs f) < unat (element_count f))
     \<and> fifo_inv f'
     \<and> fifo_abs f' = (if length (fifo_abs f) < unat (element_count f) then fifo_abs f @ [src]
                      else if ow then tl (fifo_abs f) @ [src] else fifo_abs f)"
proof (cases "length (fifo_abs f) < unat (element_count f)")
  case True
  then show ?thesis
    using fifo_push_ok [OF assms(1) _ assms(2)] by (auto simp: fifo_enqueue_push fifo_full_iff)
next
  case False
  let ?g = "fifo_drop_oldest f"
  have c: "0 < unat (element_count f)" using assms(1) by (simp add: fifo_inv_def word_less_nat_alt)
  with False have ne: "fifo_abs f \<noteq> []" by (auto simp: fifo_abs_Nil_iff)
  note g = fifo_drop_oldest_ok [OF assms(1) ne]
  have sz: "element_size ?g = element_size f" "element_count ?g = element_count f"
    by (simp_all add: fifo_drop_oldest_def)
  have "length (tl (fifo_abs f)) < unat (element_count f)"
    using fifo_inv_bounded [OF assms(1)] ne c by (cases "fifo_abs f") auto
  then have room: "length (fifo_abs ?g) < unat (element_count ?g)" by (simp only: g sz)
  obtain f' where "fifo_push ?g src = Done f'" "fifo_inv f'" "fifo_abs f' = tl (fifo_abs f) @ [src]"
    using fifo_push_ok [OF g(1) room] assms(2) sz g(2) by auto
  moreover have "\<not> fifo_is_full_unlocked ?g" using room by (simp only: fifo_full_iff not_le)
  moreover have "fifo_is_full_unlocked f" using False by (simp only: fifo_full_iff not_less)
  ultimately show ?thesis
    using False assms(1) by (cases ow) (simp_all add: fifo_enqueue_push)
qed

definition sample_fifo :: fifo where
  "sample_fifo = \<lparr>elements = [7, 8, 0, 0], element_size = 2, element_count = 2,
     read_pos = 0, write_pos = 1, avail_count = 1\<rparr>"

lemma sample_fifo_inv: "fifo_inv sample_fifo" "length [1, 2 :: u8] = unat (element_size sample_fifo)"
  by (simp_all add: fifo_inv_def sample_fifo_def)

theorem fifo_enqueue_refines_witness:
  "\<exists>f'. fifo_enqueue (Some sample_fifo) (Some [1, 2]) True = Done (Some f', True)
      \<and> fifo_inv f' \<and> fifo_abs f' = [[7, 8], [1, 2]]"
proof -
  have "fifo_abs sample_fifo = [[7, 8]]" "unat (element_count sample_fifo) = 2"
    by (simp_all add: sample_fifo_def fifo_abs_def slot_def)
  with fifo_enqueue_refines [OF sample_fifo_inv, of True] show ?thesis by simp
qed

text \<open>
  First in, first out: whatever items are enqueued into an empty FIFO, up to its capacity,
  the same number of dequeues returns exactly those items in the same order and leaves it empty.
\<close>

theorem fifo_round_trip:
  assumes "fifo_inv f" and "fifo_abs f = []" and "\<forall>x \<in> set xs. fifo_fits f x"
    and "length xs \<le> unat (element_count f)"
  shows "\<exists>f' f''. put_all fifo_put f xs = Done f' \<and> get_n fifo_get f' (length xs) = Done (f'', xs) \<and> fifo_abs f'' = []"
  using assms by (rule ffq.put_all_get_n)

definition empty_fifo :: fifo where
  "empty_fifo = \<lparr>elements = [0, 0, 0, 0], element_size = 2, element_count = 2,
     read_pos = 1, write_pos = 1, avail_count = 0\<rparr>"

theorem fifo_round_trip_witness:
  "\<exists>f' f''. put_all fifo_put empty_fifo [[1, 2], [3, 4]] = Done f'
     \<and> get_n fifo_get f' 2 = Done (f'', [[1, 2], [3, 4]]) \<and> fifo_abs f'' = []"
proof -
  have "fifo_inv empty_fifo" "fifo_abs empty_fifo = []"
    "\<forall>x \<in> set [[1, 2], [3, 4 :: u8]]. fifo_fits empty_fifo x"
    "length [[1, 2], [3, 4 :: u8]] \<le> unat (element_count empty_fifo)"
    by (simp_all add: fifo_inv_def fifo_abs_def empty_fifo_def fifo_fits_def)
  from fifo_round_trip [OF this] show ?thesis by (simp add: numeral_2_eq_2)
qed

text \<open>
  \<open>fifo_getelement\<close> reads the queued item at a logical index without removing it, on every
  FIFO with fewer than \<open>2 ^ 31\<close> slots; above that the 32-bit sum of position and index may wrap.
\<close>

theorem fifo_getelement_nth:
  assumes "fifo_inv f" and "unat (element_count f) \<le> 2 ^ 31" and "unat i < length (fifo_abs f)"
  shows "fifo_getelement (Some f) i True = Done (Some (fifo_abs f ! unat i))"
proof -
  let ?c = "unat (element_count f)" and ?r = "unat (read_pos f)"
  have r: "?r < ?c" and ia: "unat i < ?c"
    using assms(1,3) fifo_inv_bounded [OF assms(1)] by (auto simp: fifo_inv_def word_less_nat_alt)
  have s: "unat (read_pos f + i) = ?r + unat i"
    using r ia assms(2) by (intro unat_add_no_wrap) simp
  let ?j = "if element_count f \<le> read_pos f + i then read_pos f + i - element_count f else read_pos f + i"
  have j: "unat ?j = (?r + unat i) mod ?c"
  proof (cases "element_count f \<le> read_pos f + i")
    case True
    then have "unat (read_pos f + i - element_count f) = ?r + unat i - ?c"
      by (simp add: unat_sub s)
    moreover have "?c \<le> ?r + unat i" using True by (simp add: word_le_nat_alt s)
    ultimately show ?thesis using True r ia by (simp add: mod_if)
  next
    case False
    then show ?thesis by (simp add: word_le_nat_alt s)
  qed
  then have "?j < element_count f" using r by (simp add: word_less_nat_alt)
  then have "slot_read f ?j = Done (slot f (unat ?j))" by (rule slot_read_ok [OF assms(1)])
  moreover have "fifo_abs f ! unat i = slot f ((?r + unat i) mod ?c)"
    using assms(3) by (simp add: fifo_abs_def)
  moreover have "\<not> element_count f \<le> i" using ia by (simp add: word_le_nat_alt)
  ultimately show ?thesis using j by (simp add: fifo_getelement_def Let_def)
qed

theorem fifo_getelement_nth_witness:
  "fifo_getelement (Some sample_fifo) 0 True = Done (Some [7, 8])"
  using fifo_getelement_nth [OF sample_fifo_inv(1), of 0]
  by (simp add: sample_fifo_def fifo_abs_def slot_def)

end
