(* ===== verification/Dlist.thy ===== *)
theory Dlist
  imports Prelude
begin

text \<open>
  The circular doubly linked list of \<^verbatim>\<open>libs/include/libs/list.h\<close>, on which every queue of
  the hypervisor rests (ready queues, wait queues, timer events, VCPU and guest lists).

  A node is an address; the two link fields of all nodes form the heap.  The operations are the
  source's pointer assignments in the source's order.  \<open>dl h q xs\<close> says that the list with head
  \<open>q\<close> holds the entries \<open>xs\<close>; the lemmas show that each operation acts on \<open>xs\<close> as the plain
  list operation of the same name, which is how the other theories use it.
\<close>

section \<open>Heap and operations\<close>

type_synonym addr = nat

record dheap =
  nxt :: "addr \<Rightarrow> addr"
  prv :: "addr \<Rightarrow> addr"

definition LIST_POISON_PREV :: addr where "LIST_POISON_PREV = 0xDEADBEEF"

definition LIST_POISON_NEXT :: addr where "LIST_POISON_NEXT = 0xFADEBABE"

definition set_nxt :: "addr \<Rightarrow> addr \<Rightarrow> dheap \<Rightarrow> dheap" where
  "set_nxt a v h = h\<lparr>nxt := (nxt h)(a := v)\<rparr>"

definition set_prv :: "addr \<Rightarrow> addr \<Rightarrow> dheap \<Rightarrow> dheap" where
  "set_prv a v h = h\<lparr>prv := (prv h)(a := v)\<rparr>"

definition INIT_LIST_HEAD :: "addr \<Rightarrow> dheap \<Rightarrow> dheap" where
  "INIT_LIST_HEAD ptr h = set_prv ptr ptr (set_nxt ptr ptr h)"

definition list_add_between :: "addr \<Rightarrow> addr \<Rightarrow> addr \<Rightarrow> dheap \<Rightarrow> dheap" where
  "list_add_between new p n h = set_prv n new (set_nxt p new (set_nxt new n (set_prv new p h)))"

definition list_add :: "addr \<Rightarrow> addr \<Rightarrow> dheap \<Rightarrow> dheap" where
  "list_add new head h = list_add_between new head (nxt h head) h"

definition list_add_tail :: "addr \<Rightarrow> addr \<Rightarrow> dheap \<Rightarrow> dheap" where
  "list_add_tail new tnode h = list_add_between new (prv h tnode) tnode h"

definition list_del_between :: "addr \<Rightarrow> addr \<Rightarrow> dheap \<Rightarrow> dheap" where
  "list_del_between p n h = set_prv n p (set_nxt p n h)"

definition list_del_entry :: "addr \<Rightarrow> dheap \<Rightarrow> dheap" where
  "list_del_entry entry h = list_del_between (prv h entry) (nxt h entry) h"

definition list_del :: "addr \<Rightarrow> dheap \<Rightarrow> dheap" where
  "list_del entry h =
     set_prv entry LIST_POISON_PREV (set_nxt entry LIST_POISON_NEXT
       (list_del_between (prv h entry) (nxt h entry) h))"

definition list_pop_tail :: "addr \<Rightarrow> dheap \<Rightarrow> addr \<times> dheap" where
  "list_pop_tail head h = (let dnode = prv h head in (dnode, list_del (prv h head) h))"

definition list_pop :: "addr \<Rightarrow> dheap \<Rightarrow> addr \<times> dheap" where
  "list_pop head h = (let dnode = nxt h head in (dnode, list_del (nxt h head) h))"

definition list_first :: "addr \<Rightarrow> dheap \<Rightarrow> addr" where
  "list_first head h = nxt h head"

definition list_replace :: "addr \<Rightarrow> addr \<Rightarrow> dheap \<Rightarrow> dheap" where
  "list_replace old new h =
     (let h1 = set_nxt new (nxt h old) h;
          h2 = set_prv (nxt h1 new) new h1;
          h3 = set_prv new (prv h2 old) h2
      in set_nxt (prv h3 new) new h3)"

definition list_replace_init :: "addr \<Rightarrow> addr \<Rightarrow> dheap \<Rightarrow> dheap" where
  "list_replace_init old new h = INIT_LIST_HEAD old (list_replace old new h)"

definition list_del_init :: "addr \<Rightarrow> dheap \<Rightarrow> dheap" where
  "list_del_init entry h = INIT_LIST_HEAD entry (list_del_entry entry h)"

definition list_move :: "addr \<Rightarrow> addr \<Rightarrow> dheap \<Rightarrow> dheap" where
  "list_move entry head h = list_add entry head (list_del_entry entry h)"

definition list_move_tail :: "addr \<Rightarrow> addr \<Rightarrow> dheap \<Rightarrow> dheap" where
  "list_move_tail entry head h = list_add_tail entry head (list_del_entry entry h)"

definition list_is_first :: "addr \<Rightarrow> addr \<Rightarrow> dheap \<Rightarrow> bool" where
  "list_is_first entry head h \<longleftrightarrow> prv h entry = head"

definition list_is_last :: "addr \<Rightarrow> addr \<Rightarrow> dheap \<Rightarrow> bool" where
  "list_is_last entry head h \<longleftrightarrow> nxt h entry = head"

definition list_empty :: "addr \<Rightarrow> dheap \<Rightarrow> bool" where
  "list_empty head h \<longleftrightarrow> nxt h head = head"

definition list_empty_careful :: "addr \<Rightarrow> dheap \<Rightarrow> bool" where
  "list_empty_careful head h \<longleftrightarrow> (let n = nxt h head in n = head \<and> n = prv h head)"

definition list_rotate_left :: "addr \<Rightarrow> dheap \<Rightarrow> dheap" where
  "list_rotate_left head h =
     (if \<not> list_empty head h then let first = nxt h head in list_move_tail first head h else h)"

definition list_is_singular :: "addr \<Rightarrow> dheap \<Rightarrow> bool" where
  "list_is_singular head h \<longleftrightarrow> \<not> list_empty head h \<and> nxt h head = prv h head"

definition list_cut_position_unchecked :: "addr \<Rightarrow> addr \<Rightarrow> addr \<Rightarrow> dheap \<Rightarrow> dheap" where
  "list_cut_position_unchecked lst head entry h =
     (let new_first = nxt h entry;
          h1 = set_nxt lst (nxt h head) h;
          h2 = set_prv (nxt h1 lst) lst h1;
          h3 = set_prv lst entry h2;
          h4 = set_nxt entry lst h3;
          h5 = set_nxt head new_first h4
      in set_prv new_first head h5)"

definition list_cut_position :: "addr \<Rightarrow> addr \<Rightarrow> addr \<Rightarrow> dheap \<Rightarrow> dheap" where
  "list_cut_position lst head entry h =
     (if list_empty head h then h
      else if list_is_singular head h \<and> (nxt h head \<noteq> entry \<and> head \<noteq> entry) then h
      else if entry = head then INIT_LIST_HEAD lst h
      else list_cut_position_unchecked lst head entry h)"

definition list_splice_between :: "addr \<Rightarrow> addr \<Rightarrow> addr \<Rightarrow> dheap \<Rightarrow> dheap" where
  "list_splice_between lst p n h =
     (let first = nxt h lst; last = prv h lst;
          h1 = set_prv first p h;
          h2 = set_nxt p first h1;
          h3 = set_nxt last n h2
      in set_prv n last h3)"

definition list_splice :: "addr \<Rightarrow> addr \<Rightarrow> dheap \<Rightarrow> dheap" where
  "list_splice lst head h =
     (if \<not> list_empty lst h then list_splice_between lst head (nxt h head) h else h)"

definition list_splice_tail :: "addr \<Rightarrow> addr \<Rightarrow> dheap \<Rightarrow> dheap" where
  "list_splice_tail lst head h =
     (if \<not> list_empty lst h then list_splice_between lst (prv h head) head h else h)"

definition list_splice_init :: "addr \<Rightarrow> addr \<Rightarrow> dheap \<Rightarrow> dheap" where
  "list_splice_init lst head h =
     (if \<not> list_empty lst h
      then INIT_LIST_HEAD lst (list_splice_between lst head (nxt h head) h) else h)"

definition list_splice_tail_init :: "addr \<Rightarrow> addr \<Rightarrow> dheap \<Rightarrow> dheap" where
  "list_splice_tail_init lst head h =
     (if \<not> list_empty lst h
      then INIT_LIST_HEAD lst (list_splice_between lst (prv h head) head h) else h)"

text \<open>
  The loops \<^verbatim>\<open>list_for_each\<close> and \<^verbatim>\<open>list_for_each_prev\<close>: the entries the cursor visits, in
  order.  \<open>fuel\<close> bounds the number of iterations; \<open>None\<close> is a loop that has not reached the head.
\<close>

fun list_for_each :: "nat \<Rightarrow> addr \<Rightarrow> addr \<Rightarrow> dheap \<Rightarrow> addr list option" where
  "list_for_each 0 pos head h = (if pos = head then Some [] else None)"
| "list_for_each (Suc fuel) pos head h =
     (if pos = head then Some []
      else map_option (\<lambda>xs. pos # xs) (list_for_each fuel (nxt h pos) head h))"

fun list_for_each_prev :: "nat \<Rightarrow> addr \<Rightarrow> addr \<Rightarrow> dheap \<Rightarrow> addr list option" where
  "list_for_each_prev 0 pos head h = (if pos = head then Some [] else None)"
| "list_for_each_prev (Suc fuel) pos head h =
     (if pos = head then Some []
      else map_option (\<lambda>xs. pos # xs) (list_for_each_prev fuel (prv h pos) head h))"

section \<open>The list a head represents\<close>

definition link :: "dheap \<Rightarrow> addr \<Rightarrow> addr \<Rightarrow> bool" where
  "link h a b \<longleftrightarrow> nxt h a = b \<and> prv h b = a"

fun chain :: "dheap \<Rightarrow> addr list \<Rightarrow> bool" where
  "chain h (x # y # zs) \<longleftrightarrow> link h x y \<and> chain h (y # zs)"
| "chain h _ \<longleftrightarrow> True"

definition dl :: "dheap \<Rightarrow> addr \<Rightarrow> addr list \<Rightarrow> bool" where
  "dl h q xs \<longleftrightarrow> distinct (q # xs) \<and> chain h (q # xs @ [q])"

lemma chain_Cons: "zs \<noteq> [] \<Longrightarrow> chain h (a # zs) \<longleftrightarrow> link h a (hd zs) \<and> chain h zs"
  by (cases zs) auto

lemma chain_append:
  "xs \<noteq> [] \<Longrightarrow> ys \<noteq> [] \<Longrightarrow> chain h (xs @ ys) \<longleftrightarrow> chain h xs \<and> link h (last xs) (hd ys) \<and> chain h ys"
  by (induction xs) (auto simp: chain_Cons)

text \<open>Cutting the circle open between \<open>xs\<close> and \<open>ys\<close>.\<close>

lemma dl_split:
  "dl h q (xs @ ys) \<longleftrightarrow> distinct (q # xs @ ys) \<and> chain h (q # xs)
     \<and> link h (last (q # xs)) (hd (ys @ [q])) \<and> chain h (ys @ [q])"
  using chain_append [of "q # xs" "ys @ [q]" h] by (auto simp: dl_def)

subsection \<open>Updates of one field\<close>

lemma nxt_set [simp]: "nxt (set_nxt a v h) x = (if x = a then v else nxt h x)" "nxt (set_prv a v h) = nxt h"
  by (simp_all add: set_nxt_def set_prv_def)

lemma prv_set [simp]: "prv (set_prv a v h) x = (if x = a then v else prv h x)" "prv (set_nxt a v h) = prv h"
  by (simp_all add: set_nxt_def set_prv_def)

lemma chain_set_nxt [simp]: "a \<notin> set (butlast zs) \<Longrightarrow> chain (set_nxt a v h) zs = chain h zs"
  by (induction h zs rule: chain.induct) (auto simp: link_def split: if_splits)

lemma chain_set_prv [simp]: "a \<notin> set (tl zs) \<Longrightarrow> chain (set_prv a v h) zs = chain h zs"
  by (induction h zs rule: chain.induct) (auto simp: link_def split: if_splits)

lemma last_butlast_distinct: "distinct zs \<Longrightarrow> zs \<noteq> [] \<Longrightarrow> last zs \<notin> set (butlast zs)"
  by (metis append_butlast_last_id distinct_append disjoint_iff list.set_intros(1))

lemma in_butlast: "x \<notin> set zs \<Longrightarrow> x \<notin> set (butlast zs)" by (meson in_set_butlastD)

lemma in_tl: "x \<notin> set zs \<Longrightarrow> x \<notin> set (tl zs)" by (metis list.set_sel(2) tl_Nil)

text \<open>
  The two ends of a cut.  Redirecting the forward link of the left end and the backward link of
  the right end leaves the inside of both halves alone.
\<close>

lemma cut_ends:
  assumes "distinct (q # xs @ ys)"
  shows "last (q # xs) \<notin> set (butlast (q # xs))" and "last (q # xs) \<notin> set (butlast (ys @ [q]))"
    and "hd (ys @ [q]) \<notin> set (tl (q # xs))" and "hd (ys @ [q]) \<notin> set (tl (ys @ [q]))"
    and "last (q # xs) \<in> insert q (set xs)" and "hd (ys @ [q]) \<in> insert q (set ys)"
proof -
  show l: "last (q # xs) \<in> insert q (set xs)" by simp
  show r: "hd (ys @ [q]) \<in> insert q (set ys)" by (cases ys) auto
  show "last (q # xs) \<notin> set (butlast (q # xs))" using assms by (intro last_butlast_distinct) auto
  show "last (q # xs) \<notin> set (butlast (ys @ [q]))" using assms l by auto
  show "hd (ys @ [q]) \<notin> set (tl (q # xs))" using assms r by auto
  show "hd (ys @ [q]) \<notin> set (tl (ys @ [q]))" using assms by (cases ys) auto
qed

lemma dl_ends:
  assumes "dl h q (xs @ ys)"
  shows "nxt h (last (q # xs)) = hd (ys @ [q])" and "prv h (hd (ys @ [q])) = last (q # xs)"
  using assms by (auto simp: dl_split link_def)

lemma last_Cons_snoc: "last (q # xs @ [e]) = e" by simp

subsection \<open>Frame\<close>

text \<open>An update of a node outside a list does not change the list.\<close>

lemma dl_set_nxt [simp]: "a \<noteq> q \<Longrightarrow> a \<notin> set xs \<Longrightarrow> dl (set_nxt a v h) q xs = dl h q xs"
  by (simp add: dl_def)

lemma dl_set_prv [simp]: "a \<noteq> q \<Longrightarrow> a \<notin> set xs \<Longrightarrow> dl (set_prv a v h) q xs = dl h q xs"
  by (simp add: dl_def)

section \<open>Adding\<close>

lemma dl_add_between:
  assumes "dl h q (xs @ ys)" and "new \<noteq> q" and "new \<notin> set (xs @ ys)"
  shows "dl (list_add_between new (last (q # xs)) (hd (ys @ [q])) h) q (xs @ new # ys)"
proof -
  let ?a = "last (q # xs)" and ?b = "hd (ys @ [q])"
  let ?h = "list_add_between new ?a ?b h"
  from assms(1) have d: "distinct (q # xs @ ys)" and A: "chain h (q # xs)" and B: "chain h (ys @ [q])"
    by (auto simp: dl_split)
  note c = cut_ends [OF d]
  have nb: "new \<noteq> ?a" "new \<noteq> ?b" using assms(2,3) c(5,6) by auto
  have "chain ?h (q # xs)"
    using A assms(2,3) c unfolding list_add_between_def by (simp add: in_butlast del: last.simps)
  moreover have "chain ?h (ys @ [q])"
    using B assms(2,3) c unfolding list_add_between_def by (simp add: in_tl del: last.simps)
  moreover have "link ?h ?a new" "link ?h new ?b"
    using nb unfolding list_add_between_def link_def by (simp_all del: last.simps)
  ultimately show ?thesis
    using d assms(2,3) chain_Cons [of "ys @ [q]" ?h new] by (simp add: dl_split)
qed

lemma dl_list_add:
  assumes "dl h q xs" and "new \<noteq> q" and "new \<notin> set xs"
  shows "dl (list_add new q h) q (new # xs)"
  using dl_add_between [of h q "[]" xs new] dl_ends [of h q "[]" xs] assms by (simp add: list_add_def)

lemma dl_list_add_tail:
  assumes "dl h q xs" and "new \<noteq> q" and "new \<notin> set xs"
  shows "dl (list_add_tail new q h) q (xs @ [new])"
  using dl_add_between [of h q xs "[]" new] dl_ends [of h q xs "[]"] assms
  by (simp add: list_add_tail_def del: last.simps)

text \<open>With an entry instead of the head as position, \<open>list_add_tail\<close> inserts before that entry.\<close>

lemma dl_list_add_before:
  assumes "dl h q (xs @ e # ys)" and "new \<noteq> q" and "new \<notin> set (xs @ e # ys)"
  shows "dl (list_add_tail new e h) q (xs @ new # e # ys)"
  using dl_add_between [of h q xs "e # ys" new] dl_ends [of h q xs "e # ys"] assms
  by (simp add: list_add_tail_def del: last.simps)

section \<open>Deleting\<close>

lemma dl_del_between:
  assumes "dl h q (xs @ zs @ ys)"
  shows "dl (list_del_between (last (q # xs)) (hd (ys @ [q])) h) q (xs @ ys)"
proof -
  let ?h = "list_del_between (last (q # xs)) (hd (ys @ [q])) h"
  from assms have A: "chain h (q # xs)" by (simp add: dl_split)
  from assms have B: "chain h (ys @ [q])" using dl_split [of h q "xs @ zs" ys] by simp
  from assms have d: "distinct (q # xs @ ys)" by (auto simp: dl_def)
  note c = cut_ends [OF d]
  have "chain ?h (q # xs)" "chain ?h (ys @ [q])" "link ?h (last (q # xs)) (hd (ys @ [q]))"
    using A B c unfolding list_del_between_def link_def by (simp_all del: last.simps)
  with d show ?thesis by (simp add: dl_split del: last.simps)
qed

lemma dl_del_entry:
  assumes "dl h q (xs @ e # ys)"
  shows "dl (list_del_entry e h) q (xs @ ys)"
  using dl_del_between [of h q xs "[e]" ys] dl_ends [of h q xs "e # ys"] dl_ends [of h q "xs @ [e]" ys] assms
  by (simp add: list_del_entry_def last_Cons_snoc del: last.simps)

lemma dl_list_del:
  assumes "dl h q (xs @ e # ys)"
  shows "dl (list_del e h) q (xs @ ys)"
    and "nxt (list_del e h) e = LIST_POISON_NEXT" and "prv (list_del e h) e = LIST_POISON_PREV"
proof -
  have "e \<noteq> q" "e \<notin> set (xs @ ys)" using assms by (auto simp: dl_def)
  then show "dl (list_del e h) q (xs @ ys)"
    using dl_del_entry [OF assms] by (simp add: list_del_def list_del_entry_def)
qed (simp_all add: list_del_def)

lemma dl_list_del_init:
  assumes "dl h q (xs @ e # ys)"
  shows "dl (list_del_init e h) q (xs @ ys)" and "dl (list_del_init e h) e []"
proof -
  have "e \<noteq> q" "e \<notin> set (xs @ ys)" using assms by (auto simp: dl_def)
  then show "dl (list_del_init e h) q (xs @ ys)"
    using dl_del_entry [OF assms] by (simp add: list_del_init_def INIT_LIST_HEAD_def)
  show "dl (list_del_init e h) e []"
    by (simp add: list_del_init_def INIT_LIST_HEAD_def dl_def link_def)
qed

lemma dl_INIT: "dl (INIT_LIST_HEAD q h) q []"
  by (simp add: INIT_LIST_HEAD_def dl_def link_def)

lemma dl_INIT_other: "a \<noteq> q \<Longrightarrow> a \<notin> set xs \<Longrightarrow> dl (INIT_LIST_HEAD a h) q xs = dl h q xs"
  by (simp add: INIT_LIST_HEAD_def)

section \<open>Reading\<close>

lemma dl_empty: "dl h q xs \<Longrightarrow> list_empty q h \<longleftrightarrow> xs = []"
  using dl_ends [of h q "[]" xs] by (cases xs) (auto simp: list_empty_def dl_def)

lemma dl_empty_careful: "dl h q xs \<Longrightarrow> list_empty_careful q h \<longleftrightarrow> xs = []"
  using dl_ends [of h q "[]" xs] dl_ends [of h q xs "[]"]
  by (cases xs) (auto simp: list_empty_careful_def dl_def Let_def)

lemma dl_first: "dl h q (x # xs) \<Longrightarrow> list_first q h = x"
  using dl_ends [of h q "[]" "x # xs"] by (simp add: list_first_def)

lemma dl_last: "dl h q (xs @ [x]) \<Longrightarrow> prv h q = x"
  using dl_ends [of h q "xs @ [x]" "[]"] by simp

lemma dl_is_first: "dl h q (xs @ e # ys) \<Longrightarrow> list_is_first e q h \<longleftrightarrow> xs = []"
  using dl_ends [of h q xs "e # ys"] by (cases xs rule: rev_cases) (auto simp: list_is_first_def dl_def)

lemma dl_is_last: "dl h q (xs @ e # ys) \<Longrightarrow> list_is_last e q h \<longleftrightarrow> ys = []"
  using dl_ends [of h q "xs @ [e]" ys] by (cases ys) (auto simp: list_is_last_def dl_def)

lemma dl_is_singular: "dl h q xs \<Longrightarrow> list_is_singular q h \<longleftrightarrow> length xs = 1"
proof -
  assume d: "dl h q xs"
  show ?thesis
  proof (cases "xs = []")
    case False
    then have "nxt h q = hd xs" "prv h q = last xs"
      using dl_ends [of h q "[]" xs] dl_ends [of h q xs "[]"] d by auto
    moreover have "hd xs = last xs \<longleftrightarrow> length xs = 1"
      using d False by (cases xs) (auto simp: dl_def split: if_splits)
    ultimately show ?thesis using dl_empty [OF d] False by (simp add: list_is_singular_def)
  qed (use dl_empty [OF d] in \<open>simp add: list_is_singular_def\<close>)
qed

lemma dl_pop:
  assumes "dl h q (x # xs)"
  shows "fst (list_pop q h) = x" and "dl (snd (list_pop q h)) q xs"
  using dl_first [OF assms] dl_list_del(1) [of h q "[]" x xs] assms
  by (simp_all add: list_pop_def list_first_def)

lemma dl_pop_tail:
  assumes "dl h q (xs @ [x])"
  shows "fst (list_pop_tail q h) = x" and "dl (snd (list_pop_tail q h)) q xs"
  using dl_last [OF assms] dl_list_del(1) [of h q xs x "[]"] assms
  by (simp_all add: list_pop_tail_def)

section \<open>Moving, replacing, rotating\<close>

lemma dl_move:
  assumes "dl h q (xs @ e # ys)"
  shows "dl (list_move e q h) q (e # xs @ ys)" and "dl (list_move_tail e q h) q (xs @ ys @ [e])"
proof -
  have e: "e \<noteq> q" "e \<notin> set (xs @ ys)" using assms by (auto simp: dl_def)
  show "dl (list_move e q h) q (e # xs @ ys)"
    using dl_list_add [OF dl_del_entry [OF assms] e] by (simp add: list_move_def)
  show "dl (list_move_tail e q h) q (xs @ ys @ [e])"
    using dl_list_add_tail [OF dl_del_entry [OF assms] e] by (simp add: list_move_tail_def)
qed

lemma dl_rotate_left:
  assumes "dl h q xs"
  shows "dl (list_rotate_left q h) q (rotate1 xs)"
proof (cases xs)
  case Nil
  then show ?thesis using assms dl_empty [OF assms] by (simp add: list_rotate_left_def)
next
  case (Cons x ys)
  then have "nxt h q = x" using dl_first assms by (auto simp: list_first_def)
  then show ?thesis
    using Cons dl_empty [OF assms] dl_move(2) [of h q "[]" x ys] assms
    by (simp add: list_rotate_left_def Let_def)
qed

lemma dl_replace:
  assumes "dl h q (xs @ old # ys)" and "new \<noteq> q" and "new \<notin> set (xs @ old # ys)"
  shows "dl (list_replace old new h) q (xs @ new # ys)"
proof -
  let ?a = "last (q # xs)" and ?b = "hd (ys @ [q])" and ?h = "list_replace old new h"
  from assms(1) have d: "distinct (q # xs @ ys)" and o: "old \<noteq> q" "old \<notin> set (xs @ ys)"
    by (auto simp: dl_def)
  note c = cut_ends [OF d]
  have no: "new \<noteq> ?a" "new \<noteq> ?b" "new \<noteq> old" "old \<noteq> ?b" using assms(2,3) c(5,6) o by auto
  have ends: "nxt h old = ?b" "prv h old = ?a"
    using dl_ends [of h q xs "old # ys"] dl_ends [of h q "xs @ [old]" ys] assms(1)
    by (simp_all add: last_Cons_snoc del: last.simps)
  have eq: "?h = set_nxt ?a new (set_prv new ?a (set_prv ?b new (set_nxt new ?b h)))"
    using no by (simp add: list_replace_def Let_def ends del: last.simps)
  from assms(1) have A: "chain h (q # xs)" and B: "chain h (ys @ [q])"
    using dl_split [of h q "xs @ [old]" ys] dl_split [of h q xs "old # ys"] by simp_all
  have "chain ?h (q # xs)"
    using A assms(2,3) c unfolding eq by (simp add: in_butlast del: last.simps)
  moreover have "chain ?h (ys @ [q])"
    using B assms(2,3) c unfolding eq by (simp add: in_tl del: last.simps)
  moreover have "link ?h ?a new" "link ?h new ?b"
    using no unfolding eq link_def by (simp_all del: last.simps)
  ultimately show ?thesis
    using d assms(2,3) chain_Cons [of "ys @ [q]" ?h new] by (simp add: dl_split)
qed

section \<open>Splicing and cutting\<close>

lemma dl_splice_between:
  assumes "dl h q (xs @ ys)" and "dl h l zs" and "zs \<noteq> []"
    and "set (l # zs) \<inter> set (q # xs @ ys) = {}"
  shows "dl (list_splice_between l (last (q # xs)) (hd (ys @ [q])) h) q (xs @ zs @ ys)"
proof -
  let ?a = "last (q # xs)" and ?b = "hd (ys @ [q])"
  let ?h = "list_splice_between l ?a ?b h"
  from assms(1) have d: "distinct (q # xs @ ys)" and A: "chain h (q # xs)" and B: "chain h (ys @ [q])"
    by (auto simp: dl_split)
  note c = cut_ends [OF d]
  have Z: "chain h zs" using assms(2,3) by (auto simp: dl_def chain_append chain_Cons)
  have ends: "nxt h l = hd zs" "prv h l = last zs"
    using dl_ends [of h l "[]" zs] dl_ends [of h l zs "[]"] assms(2,3) by auto
  have fz: "hd zs \<in> set zs" "last zs \<in> set zs" using assms(3) by auto
  have dz: "hd zs \<notin> set (tl zs)" "last zs \<notin> set (butlast zs)"
    using assms(2,3) hd_tl_notin last_butlast_distinct by (auto simp: dl_def)
  have disj: "hd zs \<notin> insert q (set xs \<union> set ys)" "last zs \<notin> insert q (set xs \<union> set ys)"
    "?a \<notin> set zs" "?b \<notin> set zs" using assms(4) fz c(5,6) by auto
  have eq: "?h = set_prv ?b (last zs) (set_nxt (last zs) ?b (set_nxt ?a (hd zs) (set_prv (hd zs) ?a h)))"
    by (simp add: list_splice_between_def Let_def ends)
  have "chain ?h (q # xs)"
    using A disj c unfolding eq by (simp add: in_butlast del: last.simps)
  moreover have "chain ?h (ys @ [q])"
    using B disj c unfolding eq by (simp add: in_tl del: last.simps)
  moreover have "chain ?h zs"
    using Z disj dz unfolding eq by (simp add: in_butlast in_tl del: last.simps)
  moreover have "link ?h ?a (hd zs)" "link ?h (last zs) ?b"
    using disj fz unfolding eq link_def by (auto simp del: last.simps)
  moreover have "distinct (q # xs @ zs @ ys)" using d assms(2,4) by (auto simp: dl_def)
  ultimately show ?thesis
    using assms(3) chain_append [of zs "ys @ [q]" ?h] by (simp add: dl_split)
qed

lemma dl_splice:
  assumes "dl h q xs" and "dl h l zs" and "set (l # zs) \<inter> set (q # xs) = {}"
  shows "dl (list_splice l q h) q (zs @ xs)" and "dl (list_splice_tail l q h) q (xs @ zs)"
proof -
  note e = dl_empty [OF assms(2)]
  show "dl (list_splice l q h) q (zs @ xs)"
    using e dl_splice_between [of h q "[]" xs l zs] dl_ends [of h q "[]" xs] assms
    by (cases "zs = []") (simp_all add: list_splice_def)
  show "dl (list_splice_tail l q h) q (xs @ zs)"
    using e dl_splice_between [of h q xs "[]" l zs] dl_ends [of h q xs "[]"] assms
    by (cases "zs = []") (simp_all add: list_splice_tail_def del: last.simps)
qed

lemma dl_splice_init:
  assumes "dl h q xs" and "dl h l zs" and "set (l # zs) \<inter> set (q # xs) = {}"
  shows "dl (list_splice_init l q h) q (zs @ xs) \<and> dl (list_splice_init l q h) l []"
    and "dl (list_splice_tail_init l q h) q (xs @ zs) \<and> dl (list_splice_tail_init l q h) l []"
proof -
  have l: "l \<noteq> q" "l \<notin> set xs" "l \<notin> set zs" using assms(2,3) by (auto simp: dl_def)
  note e = dl_empty [OF assms(2)]
  show "dl (list_splice_init l q h) q (zs @ xs) \<and> dl (list_splice_init l q h) l []"
    using e l assms(1,2) dl_splice(1) [OF assms]
    by (cases "zs = []") (simp_all add: list_splice_init_def list_splice_def dl_INIT dl_INIT_other)
  show "dl (list_splice_tail_init l q h) q (xs @ zs) \<and> dl (list_splice_tail_init l q h) l []"
    using e l assms(1,2) dl_splice(2) [OF assms]
    by (cases "zs = []") (simp_all add: list_splice_tail_init_def list_splice_tail_def dl_INIT dl_INIT_other)
qed

lemma dl_cut_unchecked:
  assumes "dl h q (xs @ ys)" and "xs \<noteq> []" and "l \<noteq> q" and "l \<notin> set (xs @ ys)"
  shows "dl (list_cut_position_unchecked l q (last xs) h) l xs"
    and "dl (list_cut_position_unchecked l q (last xs) h) q ys"
proof -
  let ?e = "last xs" and ?b = "hd (ys @ [q])" and ?f = "hd xs"
  let ?h = "list_cut_position_unchecked l q ?e h"
  from assms(1) have d: "distinct (q # xs @ ys)" and X: "chain h (q # xs)" and B: "chain h (ys @ [q])"
    by (auto simp: dl_split)
  note c = cut_ends [OF d]
  have ends: "nxt h q = ?f" "nxt h ?e = ?b"
    using dl_ends [of h q "[]" "xs @ ys"] dl_ends [of h q xs ys] assms(1,2) by auto
  have in_xs: "?e \<in> set xs" "?f \<in> set xs" using assms(2) by auto
  have dx: "?f \<notin> set (tl xs)" "?e \<notin> set (butlast xs)"
    using d assms(2) hd_tl_notin last_butlast_distinct by auto
  have ne: "?b \<notin> set xs" "?b \<noteq> l" "?f \<noteq> l" "?e \<noteq> l" "?e \<noteq> q" "?f \<noteq> q" "?e \<notin> set ys"
    "l \<notin> set xs" "l \<notin> set ys" "q \<notin> set xs" "q \<notin> set ys" "?f \<notin> set ys" "l \<noteq> q"
    using c(6) in_xs assms(3,4) d by auto
  have eq: "?h = set_prv ?b q (set_nxt q ?b (set_nxt ?e l (set_prv l ?e (set_prv ?f l (set_nxt l ?f h)))))"
    using assms(3) by (simp add: list_cut_position_unchecked_def Let_def ends)
  have "chain h xs" using X assms(2) by (simp add: chain_Cons)
  then have cx: "chain ?h xs"
    using ne dx in_xs unfolding eq by (simp add: in_butlast in_tl)
  have "chain ?h (ys @ [q])"
    using B ne c(4) in_xs d unfolding eq by (cases ys) (auto simp: in_tl)
  moreover have "link ?h q ?b" "link ?h l ?f" "link ?h ?e l"
    using ne assms(3) in_xs unfolding eq link_def by auto
  ultimately show "dl ?h q ys" and "dl ?h l xs"
    using d ne cx assms(2) by (auto simp: dl_def chain_append chain_Cons)
qed

lemma dl_cut_position:
  assumes "dl h q (xs @ ys)" and "l \<noteq> q" and "l \<notin> set (xs @ ys)" and "xs @ ys \<noteq> []"
  shows "dl (list_cut_position l q (last (q # xs)) h) l xs" and "dl (list_cut_position l q (last (q # xs)) h) q ys"
proof -
  have e: "\<not> list_empty q h" using dl_empty [OF assms(1)] assms(4) by simp
  have "dl (list_cut_position l q (last (q # xs)) h) l xs \<and> dl (list_cut_position l q (last (q # xs)) h) q ys"
  proof (cases "xs = []")
    case True
    then show ?thesis
      using e assms by (simp add: list_cut_position_def dl_INIT dl_INIT_other)
  next
    case False
    have "last xs \<noteq> q" using assms(1) False by (auto simp: dl_def)
    moreover have "nxt h q = last xs" if "list_is_singular q h"
    proof -
      have "length (xs @ ys) = 1" using that dl_is_singular [OF assms(1)] by simp
      with False have "xs = [last xs]" "ys = []" by (cases xs; auto)+
      then show ?thesis using dl_ends [of h q "[]" "xs @ ys"] assms(1) by (metis append_Nil hd_append2 last.simps list.sel(1) list.distinct(1) self_append_conv)
    qed
    ultimately show ?thesis
      using e False dl_cut_unchecked [OF assms(1) False assms(2,3)] by (auto simp: list_cut_position_def)
  qed
  then show "dl (list_cut_position l q (last (q # xs)) h) l xs"
    and "dl (list_cut_position l q (last (q # xs)) h) q ys" by auto
qed

section \<open>Iterating\<close>

lemma list_for_each_suffix:
  assumes "dl h q (xs @ ys)" and "length ys \<le> fuel"
  shows "list_for_each fuel (hd (ys @ [q])) q h = Some ys"
  using assms
proof (induction ys arbitrary: xs fuel)
  case Nil
  then show ?case by (cases fuel) auto
next
  case (Cons y ys)
  then have "y \<noteq> q" by (auto simp: dl_def)
  moreover have "nxt h y = hd (ys @ [q])"
    using dl_ends [of h q "xs @ [y]" ys] Cons.prems(1) by simp
  moreover obtain n where "fuel = Suc n" "length ys \<le> n" using Cons.prems(2) by (cases fuel) auto
  ultimately show ?case using Cons.IH [of "xs @ [y]" n] Cons.prems(1) by simp
qed

lemma list_for_each_prev_prefix:
  assumes "dl h q (xs @ ys)" and "length xs \<le> fuel"
  shows "list_for_each_prev fuel (last (q # xs)) q h = Some (rev xs)"
  using assms
proof (induction xs arbitrary: ys fuel rule: rev_induct)
  case Nil
  then show ?case by (cases fuel) auto
next
  case (snoc x xs)
  then have "x \<noteq> q" by (auto simp: dl_def)
  moreover have "prv h x = last (q # xs)"
    using dl_ends(2) [of h q xs "x # ys"] snoc.prems(1) by simp
  moreover obtain n where "fuel = Suc n" "length xs \<le> n" using snoc.prems(2) by (cases fuel) auto
  ultimately show ?case
    using snoc.IH [of "x # ys" n] snoc.prems(1) by (simp add: last_Cons_snoc del: last.simps)
qed

section \<open>Queues of nodes\<close>

text \<open>
  What the users of a linked list rely on: \<open>rep h q xs\<close> relates a heap, a list head and the
  entries.  \<open>outside\<close> is the frame: an operation on one list leaves disjoint lists as they are.
\<close>

locale node_list =
  fixes rep :: "'h \<Rightarrow> 'n \<Rightarrow> 'n list \<Rightarrow> bool"
    and push :: "'n \<Rightarrow> 'n \<Rightarrow> 'h \<Rightarrow> 'h"
    and del :: "'n \<Rightarrow> 'h \<Rightarrow> 'h"
    and first :: "'n \<Rightarrow> 'h \<Rightarrow> 'n"
    and is_empty :: "'n \<Rightarrow> 'h \<Rightarrow> bool"
  assumes rep_distinct: "rep h q xs \<Longrightarrow> distinct (q # xs)"
    and rep_push: "rep h q xs \<Longrightarrow> n \<noteq> q \<Longrightarrow> n \<notin> set xs \<Longrightarrow> rep (push n q h) q (xs @ [n])"
    and rep_del: "rep h q (xs @ e # ys) \<Longrightarrow> rep (del e h) q (xs @ ys)"
    and rep_first: "rep h q (x # xs) \<Longrightarrow> first q h = x"
    and rep_is_empty: "rep h q xs \<Longrightarrow> is_empty q h \<longleftrightarrow> xs = []"
    and push_outside: "rep h q xs \<Longrightarrow> n \<noteq> q \<Longrightarrow> n \<notin> set xs \<Longrightarrow> rep h q' ys \<Longrightarrow>
          set (n # q # xs) \<inter> set (q' # ys) = {} \<Longrightarrow> rep (push n q h) q' ys"
    and del_outside: "rep h q (xs @ e # ys) \<Longrightarrow> rep h q' zs \<Longrightarrow>
          set (q # xs @ e # ys) \<inter> set (q' # zs) = {} \<Longrightarrow> rep (del e h) q' zs"
begin

lemma push_list:
  assumes "rep h q xs" and "distinct ns" and "set ns \<inter> set (q # xs) = {}"
  shows "rep (fold (\<lambda>n. push n q) ns h) q (xs @ ns)"
  using assms
proof (induction ns arbitrary: h xs)
  case (Cons n ns)
  then have "rep (push n q h) q (xs @ [n])" by (auto intro: rep_push)
  with Cons.IH [of "push n q h" "xs @ [n]"] Cons.prems show ?case by auto
qed simp

lemma del_rep_remove1: "rep h q xs \<Longrightarrow> e \<in> set xs \<Longrightarrow> rep (del e h) q (remove1 e xs)"
proof -
  assume r: "rep h q xs" and e: "e \<in> set xs"
  from e obtain ys zs where xs: "xs = ys @ e # zs" "e \<notin> set ys" by (meson split_list_first)
  with rep_del [of h q ys e zs] r show ?thesis by (simp add: remove1_append)
qed

lemma dequeue_first:
  "rep h q (x # xs) \<Longrightarrow> first q h = x \<and> rep (del (first q h) h) q xs"
  using rep_first rep_del [of h q "[]" x xs] by auto

end

lemma dl_del_outside:
  assumes "dl h q (xs @ e # ys)" and "dl h q' zs" and "set (q # xs @ e # ys) \<inter> set (q' # zs) = {}"
  shows "dl (list_del e h) q' zs"
proof -
  have "prv h e = last (q # xs)" "nxt h e = hd (ys @ [q])"
    using dl_ends [of h q xs "e # ys"] dl_ends [of h q "xs @ [e]" ys] assms(1)
    by (simp_all add: last_Cons_snoc del: last.simps)
  moreover have "last (q # xs) \<in> set (q # xs)" "hd (ys @ [q]) \<in> set (q # ys)" by (simp, cases ys, auto)
  then have "prv h e \<notin> set (q' # zs)" "nxt h e \<notin> set (q' # zs)" "e \<notin> set (q' # zs)"
    using assms(3) calculation by auto
  ultimately show ?thesis using assms(2) unfolding list_del_def list_del_between_def by simp
qed

lemma dl_add_tail_outside:
  assumes "dl h q xs" and "dl h q' ys" and "set (n # q # xs) \<inter> set (q' # ys) = {}"
  shows "dl (list_add_tail n q h) q' ys"
proof -
  have "prv h q = last (q # xs)" using dl_ends(2) [of h q xs "[]"] assms(1) by simp
  moreover have "last (q # xs) \<in> set (q # xs)" by simp
  ultimately have "prv h q \<notin> set (q' # ys)" using assms(3) by auto
  then show ?thesis
    using assms(2,3) unfolding list_add_tail_def list_add_between_def by simp
qed

interpretation dlq: node_list dl list_add_tail list_del list_first list_empty
proof (unfold_locales, goal_cases)
  case 1 then show ?case by (simp add: dl_def)
next
  case 2 then show ?case by (rule dl_list_add_tail)
next
  case 3 then show ?case by (rule dl_list_del)
next
  case 4 then show ?case by (rule dl_first)
next
  case 5 then show ?case by (rule dl_empty)
next
  case 6 then show ?case by (intro dl_add_tail_outside)
next
  case 7 then show ?case by (rule dl_del_outside)
qed

section \<open>Properties\<close>

definition sample_heap :: dheap where
  "sample_heap = list_add_tail 21 20 (INIT_LIST_HEAD 20 (list_add_tail 12 10 (list_add_tail 11 10
     (INIT_LIST_HEAD 10 \<lparr>nxt = \<lambda>_. 0, prv = \<lambda>_. 0\<rparr>))))"

lemmas heap_eval = list_add_tail_def list_add_between_def INIT_LIST_HEAD_def dl_def link_def

lemma sample_heap_lists: "dl sample_heap 10 [11, 12]" "dl sample_heap 20 [21]"
  by (simp_all add: sample_heap_def heap_eval)

text \<open>
  \<open>list_del\<close> unlinks exactly the given entry: the entries before and after it stay in order,
  the entry's own links are poisoned, and any other list of the heap is untouched.
\<close>

theorem list_del_exact:
  assumes "dl h q (xs @ e # ys)" and "dl h q' zs" and "set (q # xs @ e # ys) \<inter> set (q' # zs) = {}"
  shows "dl (list_del e h) q (xs @ ys) \<and> dl (list_del e h) q' zs
       \<and> nxt (list_del e h) e = LIST_POISON_NEXT \<and> prv (list_del e h) e = LIST_POISON_PREV"
  using dlq.rep_del [OF assms(1)] dlq.del_outside [OF assms] dl_list_del(2,3) [OF assms(1)] by simp

theorem list_del_exact_witness:
  "dl (list_del 11 sample_heap) 10 [12] \<and> dl (list_del 11 sample_heap) 20 [21]
     \<and> nxt (list_del 11 sample_heap) 11 = LIST_POISON_NEXT \<and> prv (list_del 11 sample_heap) 11 = LIST_POISON_PREV"
  using list_del_exact [of sample_heap 10 "[]" 11 "[12]" 20 "[21]"] sample_heap_lists by simp

text \<open>
  Cutting a list after any of its entries and splicing the cut part back gives the original
  list, and leaves the temporary head an empty list.
\<close>

theorem list_cut_splice_init:
  assumes "dl h q (xs @ ys)" and "xs @ ys \<noteq> []" and "l \<noteq> q" and "l \<notin> set (xs @ ys)"
  defines "h1 \<equiv> list_cut_position l q (last (q # xs)) h"
  shows "dl h1 l xs \<and> dl h1 q ys \<and> dl (list_splice_init l q h1) q (xs @ ys) \<and> dl (list_splice_init l q h1) l []"
proof -
  have c: "dl h1 l xs" "dl h1 q ys"
    using dl_cut_position [OF assms(1,3,4,2)] by (simp_all add: h1_def)
  moreover have "set (l # xs) \<inter> set (q # ys) = {}" using assms(1,3,4) by (auto simp: dl_def)
  ultimately show ?thesis using dl_splice_init(1) [OF c(2,1)] by simp
qed

theorem list_cut_splice_init_witness:
  "dl (list_cut_position 30 10 11 sample_heap) 30 [11] \<and> dl (list_cut_position 30 10 11 sample_heap) 10 [12]
     \<and> dl (list_splice_init 30 10 (list_cut_position 30 10 11 sample_heap)) 10 [11, 12]"
  using list_cut_splice_init [of sample_heap 10 "[11]" "[12]" 30] sample_heap_lists by simp

text \<open>
  The iteration macros terminate on every well-formed list after as many steps as the list
  has entries, and visit exactly the entries: forwards in order, backwards in reverse order.
\<close>

theorem list_for_each_visits:
  assumes "dl h q xs" and "length xs \<le> fuel"
  shows "list_for_each fuel (nxt h q) q h = Some xs \<and> list_for_each_prev fuel (prv h q) q h = Some (rev xs)"
  using list_for_each_suffix [of h q "[]" xs fuel] list_for_each_prev_prefix [of h q xs "[]" fuel]
    dl_ends [of h q "[]" xs] dl_ends [of h q xs "[]"] assms by (simp del: last.simps) (simp add: last.simps)

theorem list_for_each_visits_witness:
  "list_for_each 2 (nxt sample_heap 10) 10 sample_heap = Some [11, 12]
     \<and> list_for_each_prev 2 (prv sample_heap 10) 10 sample_heap = Some [12, 11]"
  using list_for_each_visits [OF sample_heap_lists(1), of 2] by simp

end
