(* ===== verification/Bitmap.thy ===== *)
theory Bitmap
  imports Prelude
begin

text \<open>
  The bitmap library of \<^verbatim>\<open>libs/common/bitmap.c\<close> and \<^verbatim>\<open>libs/include/libs/bitmap.h\<close>: bit
  arrays of \<open>unsigned long\<close> words, used for host RAM frames and CPU masks.

  A bitmap is the list of its words; the word length \<open>LENGTH('w)\<close> is \<^verbatim>\<open>BITS_PER_LONG\<close>, 32 or
  64 in the source.  Bit numbers and sizes, \<open>int\<close> in the source and never negative there, are
  natural numbers.  A destination bitmap is passed with its old content and returned with the
  words the loops write replaced, so the words past the written ones are kept as in memory.
  Single-bit accesses outside the array are a \<open>Fault\<close>; the routines that scan a bitmap of
  \<open>nbits\<close> bits read the words \<open>0 ..< BITS_TO_LONGS nbits\<close> and their lemmas require the array to
  have them.
\<close>

section \<open>Words and masks\<close>

abbreviation bits_per_long :: "'w::len itself \<Rightarrow> nat" where
  "bits_per_long w \<equiv> LENGTH('w)"

definition BITS_TO_LONGS :: "'w::len itself \<Rightarrow> nat \<Rightarrow> nat" where
  "BITS_TO_LONGS w nbits = (nbits + LENGTH('w) - 1) div LENGTH('w)"

definition BIT_WORD :: "'w::len itself \<Rightarrow> nat \<Rightarrow> nat" where
  "BIT_WORD w n = n div LENGTH('w)"

text \<open>The source masks with \<^verbatim>\<open>BITS_PER_LONG - 1\<close>, a power of two minus one.\<close>

definition BIT_WORD_OFFSET :: "'w::len itself \<Rightarrow> nat \<Rightarrow> nat" where
  "BIT_WORD_OFFSET w n = n AND (LENGTH('w) - 1)"

definition BITMAP_LAST_WORD_MASK :: "nat \<Rightarrow> 'w::len word" where
  "BITMAP_LAST_WORD_MASK nbits =
     (if nbits mod LENGTH('w) \<noteq> 0 then push_bit (nbits mod LENGTH('w)) 1 - 1 else NOT 0)"

section \<open>Single bits and ranges\<close>

definition bitmap_isset :: "'w::len word list \<Rightarrow> nat \<Rightarrow> bool result" where
  "bitmap_isset bmap n =
     (let k = BIT_WORD TYPE('w) n
      in if k < length bmap
         then Done ((bmap ! k AND push_bit (BIT_WORD_OFFSET TYPE('w) n) 1) \<noteq> 0) else Fault)"

definition bitmap_setbit :: "'w::len word list \<Rightarrow> nat \<Rightarrow> 'w word list result" where
  "bitmap_setbit bmap n =
     (let k = BIT_WORD TYPE('w) n
      in if k < length bmap
         then Done (bmap[k := bmap ! k OR push_bit (BIT_WORD_OFFSET TYPE('w) n) 1]) else Fault)"

definition bitmap_clearbit :: "'w::len word list \<Rightarrow> nat \<Rightarrow> 'w word list result" where
  "bitmap_clearbit bmap n =
     (let k = BIT_WORD TYPE('w) n
      in if k < length bmap
         then Done (bmap[k := bmap ! k AND NOT (push_bit (BIT_WORD_OFFSET TYPE('w) n) 1)]) else Fault)"

text \<open>The loops \<^verbatim>\<open>for (bit = start; bit < start + len; bit++)\<close>.\<close>

fun bitmap_set :: "'w::len word list \<Rightarrow> nat \<Rightarrow> nat \<Rightarrow> 'w word list result" where
  "bitmap_set bmap start 0 = Done bmap"
| "bitmap_set bmap start (Suc n) =
     bind_result (bitmap_setbit bmap start) (\<lambda>bm. bitmap_set bm (Suc start) n)"

fun bitmap_clear :: "'w::len word list \<Rightarrow> nat \<Rightarrow> nat \<Rightarrow> 'w word list result" where
  "bitmap_clear bmap start 0 = Done bmap"
| "bitmap_clear bmap start (Suc n) =
     bind_result (bitmap_clearbit bmap start) (\<lambda>bm. bitmap_clear bm (Suc start) n)"

definition bitmap_zero :: "'w::len word list \<Rightarrow> nat \<Rightarrow> 'w word list" where
  "bitmap_zero dst nbits =
     (let n = BITS_TO_LONGS TYPE('w) nbits in replicate n 0 @ drop n dst)"

definition bitmap_fill :: "'w::len word list \<Rightarrow> nat \<Rightarrow> 'w word list" where
  "bitmap_fill dst nbits =
     (let n = BITS_TO_LONGS TYPE('w) nbits
      in replicate (n - 1) (NOT 0) @ [BITMAP_LAST_WORD_MASK nbits] @ drop n dst)"

definition bitmap_copy :: "'w::len word list \<Rightarrow> 'w word list \<Rightarrow> nat \<Rightarrow> 'w word list" where
  "bitmap_copy dst src nbits =
     (let n = BITS_TO_LONGS TYPE('w) nbits in take n src @ drop n dst)"

section \<open>Whole bitmaps\<close>

text \<open>
  \<open>scan_words p q nbits\<close>: every full word satisfies \<open>p\<close> and, when the size is not a multiple of
  the word size, the last word satisfies \<open>q\<close>.  It is the common shape of the scanning loops.
\<close>

definition scan_words :: "'w::len itself \<Rightarrow> (nat \<Rightarrow> bool) \<Rightarrow> (nat \<Rightarrow> bool) \<Rightarrow> nat \<Rightarrow> bool" where
  "scan_words w p q nbits =
     (let lim = nbits div LENGTH('w)
      in list_all p [0..<lim] \<and> (nbits mod LENGTH('w) \<noteq> 0 \<longrightarrow> q lim))"

definition bitmap_empty :: "'w::len word list \<Rightarrow> nat \<Rightarrow> bool" where
  "bitmap_empty bm nbits =
     scan_words TYPE('w) (\<lambda>k. bm ! k = 0) (\<lambda>k. bm ! k AND BITMAP_LAST_WORD_MASK nbits = 0) nbits"

definition bitmap_full :: "'w::len word list \<Rightarrow> nat \<Rightarrow> bool" where
  "bitmap_full bm nbits =
     scan_words TYPE('w) (\<lambda>k. NOT (bm ! k) = 0)
       (\<lambda>k. NOT (bm ! k) AND BITMAP_LAST_WORD_MASK nbits = 0) nbits"

definition bitmap_equal :: "'w::len word list \<Rightarrow> 'w word list \<Rightarrow> nat \<Rightarrow> bool" where
  "bitmap_equal b1 b2 nbits =
     scan_words TYPE('w) (\<lambda>k. b1 ! k = b2 ! k)
       (\<lambda>k. (b1 ! k XOR b2 ! k) AND BITMAP_LAST_WORD_MASK nbits = 0) nbits"

definition bitmap_intersects :: "'w::len word list \<Rightarrow> 'w word list \<Rightarrow> nat \<Rightarrow> bool" where
  "bitmap_intersects b1 b2 nbits =
     (\<not> scan_words TYPE('w) (\<lambda>k. b1 ! k AND b2 ! k = 0)
        (\<lambda>k. (b1 ! k AND b2 ! k) AND BITMAP_LAST_WORD_MASK nbits = 0) nbits)"

definition bitmap_subset :: "'w::len word list \<Rightarrow> 'w word list \<Rightarrow> nat \<Rightarrow> bool" where
  "bitmap_subset b1 b2 nbits =
     scan_words TYPE('w) (\<lambda>k. b1 ! k AND NOT (b2 ! k) = 0)
       (\<lambda>k. (b1 ! k AND NOT (b2 ! k)) AND BITMAP_LAST_WORD_MASK nbits = 0) nbits"

text \<open>Loops that write word \<open>k\<close> of the destination for every \<open>k < n\<close>.\<close>

definition write_words :: "(nat \<Rightarrow> 'w word) \<Rightarrow> nat \<Rightarrow> 'w::len word list \<Rightarrow> 'w word list" where
  "write_words g n dst = fold (\<lambda>k d. d[k := g k]) [0..<n] dst"

definition bitmap_complement :: "'w::len word list \<Rightarrow> 'w word list \<Rightarrow> nat \<Rightarrow> 'w word list" where
  "bitmap_complement dst src nbits =
     (let lim = nbits div LENGTH('w);
          d = write_words (\<lambda>k. NOT (src ! k)) lim dst
      in if nbits mod LENGTH('w) \<noteq> 0
         then d[lim := NOT (src ! lim) AND BITMAP_LAST_WORD_MASK nbits] else d)"

definition bitmap_and ::
  "'w::len word list \<Rightarrow> 'w word list \<Rightarrow> 'w word list \<Rightarrow> nat \<Rightarrow> 'w word list \<times> bool" where
  "bitmap_and dst b1 b2 nbits =
     (let nr = BITS_TO_LONGS TYPE('w) nbits; g = (\<lambda>k. b1 ! k AND b2 ! k)
      in (write_words g nr dst, fold (\<lambda>k r. r OR g k) [0..<nr] 0 \<noteq> 0))"

definition bitmap_or :: "'w::len word list \<Rightarrow> 'w word list \<Rightarrow> 'w word list \<Rightarrow> nat \<Rightarrow> 'w word list" where
  "bitmap_or dst b1 b2 nbits =
     write_words (\<lambda>k. b1 ! k OR b2 ! k) (BITS_TO_LONGS TYPE('w) nbits) dst"

definition bitmap_xor :: "'w::len word list \<Rightarrow> 'w word list \<Rightarrow> 'w word list \<Rightarrow> nat \<Rightarrow> 'w word list" where
  "bitmap_xor dst b1 b2 nbits =
     write_words (\<lambda>k. b1 ! k XOR b2 ! k) (BITS_TO_LONGS TYPE('w) nbits) dst"

definition bitmap_andnot ::
  "'w::len word list \<Rightarrow> 'w word list \<Rightarrow> 'w word list \<Rightarrow> nat \<Rightarrow> 'w word list \<times> bool" where
  "bitmap_andnot dst b1 b2 nbits =
     (let nr = BITS_TO_LONGS TYPE('w) nbits; g = (\<lambda>k. b1 ! k AND NOT (b2 ! k))
      in (write_words g nr dst, fold (\<lambda>k r. r OR g k) [0..<nr] 0 \<noteq> 0))"

text \<open>
  The population count works on 32 bits: its argument is a \<open>u32\<close>, so on a host with 64-bit words
  \<^verbatim>\<open>__bitmap_weight\<close> passes only the low half of each word.
\<close>

definition bitmap_sw_hweight32 :: "u32 \<Rightarrow> u32" where
  "bitmap_sw_hweight32 w =
     (let r1 = w - (drop_bit 1 w AND 0x55555555);
          r2 = (r1 AND 0x33333333) + (drop_bit 2 r1 AND 0x33333333);
          r3 = (r2 + drop_bit 4 r2) AND 0x0F0F0F0F;
          r4 = r3 + drop_bit 8 r3
      in (r4 + drop_bit 16 r4) AND 0x000000FF)"

definition bitmap_weight :: "'w::len word list \<Rightarrow> nat \<Rightarrow> nat" where
  "bitmap_weight bm nbits =
     (let lim = nbits div LENGTH('w);
          w = fold (\<lambda>k s. s + unat (bitmap_sw_hweight32 (ucast (bm ! k)))) [0..<lim] 0
      in if nbits mod LENGTH('w) \<noteq> 0
         then w + unat (bitmap_sw_hweight32 (ucast (bm ! lim AND BITMAP_LAST_WORD_MASK nbits))) else w)"

section \<open>Aligned regions\<close>

datatype reg_op = REG_OP_ISFREE | REG_OP_ALLOC | REG_OP_RELEASE

definition reg_mask :: "nat \<Rightarrow> nat \<Rightarrow> 'w::len word" where
  "reg_mask nbitsinlong offset =
     (let m = push_bit (nbitsinlong - 1) 1; m' = m + (m - 1) in push_bit offset m')"

text \<open>The loops \<^verbatim>\<open>for (i = 0; i < nlongs_reg; i++)\<close> that rewrite word \<open>index + i\<close>.\<close>

definition upd_words :: "nat \<Rightarrow> nat \<Rightarrow> ('w word \<Rightarrow> 'w word) \<Rightarrow> 'w::len word list \<Rightarrow> 'w word list" where
  "upd_words index n f bm = fold (\<lambda>i b. b[index + i := f (b ! (index + i))]) [0..<n] bm"

definition reg_operation :: "'w::len word list \<Rightarrow> nat \<Rightarrow> nat \<Rightarrow> reg_op \<Rightarrow> 'w word list \<times> bool" where
  "reg_operation bm pos order op =
     (let nbits_reg = 2 ^ order;
          index = pos div LENGTH('w);
          offset = pos - index * LENGTH('w);
          nlongs_reg = BITS_TO_LONGS TYPE('w) nbits_reg;
          nbitsinlong = min nbits_reg LENGTH('w);
          mask = reg_mask nbitsinlong offset
      in case op of
           REG_OP_ISFREE \<Rightarrow> (bm, list_all (\<lambda>i. bm ! (index + i) AND mask = 0) [0..<nlongs_reg])
         | REG_OP_ALLOC \<Rightarrow>
             (upd_words index nlongs_reg (\<lambda>v. v OR mask) bm, False)
         | REG_OP_RELEASE \<Rightarrow>
             (upd_words index nlongs_reg (\<lambda>v. v AND NOT mask) bm, False))"

text \<open>
  The search visits the aligned positions in increasing order; it ends because the position grows
  by at least one.  \<open>Inr pos\<close> is the non-negative return value, \<open>Inl e\<close> the negative error.
\<close>

function find_region_from ::
  "'w::len word list \<Rightarrow> nat \<Rightarrow> nat \<Rightarrow> nat \<Rightarrow> 'w word list \<times> (vmm_rc + nat)" where
  "find_region_from bm nbits order pos =
     (let e = pos + 2 ^ order
      in if e \<le> nbits
         then if \<not> snd (reg_operation bm pos order REG_OP_ISFREE)
              then find_region_from bm nbits order e
              else (fst (reg_operation bm pos order REG_OP_ALLOC), Inr pos)
         else (bm, Inl VMM_ENOMEM))"
  by pat_completeness auto
termination
  by (relation "measure (\<lambda>(bm, nbits, order, pos). nbits - pos)") (auto simp: less_diff_conv2)

declare find_region_from.simps [simp del]

definition bitmap_find_free_region ::
  "'w::len word list \<Rightarrow> nat \<Rightarrow> nat \<Rightarrow> 'w word list \<times> (vmm_rc + nat)" where
  "bitmap_find_free_region bm nbits order = find_region_from bm nbits order 0"

definition bitmap_release_region :: "'w::len word list \<Rightarrow> nat \<Rightarrow> nat \<Rightarrow> 'w word list" where
  "bitmap_release_region bm pos order = fst (reg_operation bm pos order REG_OP_RELEASE)"

definition bitmap_allocate_region :: "'w::len word list \<Rightarrow> nat \<Rightarrow> nat \<Rightarrow> 'w word list \<times> vmm_rc" where
  "bitmap_allocate_region bm pos order =
     (if \<not> snd (reg_operation bm pos order REG_OP_ISFREE) then (bm, VMM_ENOTAVAIL)
      else (fst (reg_operation bm pos order REG_OP_ALLOC), VMM_OK))"

section \<open>Bits of a bitmap\<close>

definition bbit :: "'w::len word list \<Rightarrow> nat \<Rightarrow> bool" where
  "bbit bm i = bit (bm ! (i div LENGTH('w))) (i mod LENGTH('w))"

definition covers :: "'w::len word list \<Rightarrow> nat \<Rightarrow> bool" where
  "covers bm nbits \<longleftrightarrow> nbits \<le> length bm * LENGTH('w)"

definition pow2_long :: "'w::len itself \<Rightarrow> bool" where
  "pow2_long w \<longleftrightarrow> (\<exists>k. LENGTH('w) = 2 ^ k)"

lemma pow2_long_32 [simp]: "pow2_long TYPE(32)" and pow2_long_64 [simp]: "pow2_long TYPE(64)"
  by (simp_all add: pow2_long_def) (rule exI [of _ 5], simp, rule exI [of _ 6], simp)

lemma covers_word: "covers bm n \<Longrightarrow> i < n \<Longrightarrow> i div LENGTH('w) < length bm" for bm :: "'w::len word list"
  by (metis covers_def div_less_iff_less_mult len_gt_0 order_less_le_trans)

lemma covers_mono: "covers bm n \<Longrightarrow> m \<le> n \<Longrightarrow> covers bm m" by (simp add: covers_def)

lemma offset_mod: "pow2_long TYPE('w) \<Longrightarrow> BIT_WORD_OFFSET TYPE('w::len) n = n mod LENGTH('w)"
  unfolding pow2_long_def BIT_WORD_OFFSET_def
  by (metis mask_eq_exp_minus_1 take_bit_eq_mask take_bit_eq_mod)

lemma bit_shifted_one: "bit (2 ^ n :: 'w::len word) j \<longleftrightarrow> j = n \<and> j < LENGTH('w)"
  by (auto simp: bit_simps)

lemma word_and_bit: "((w AND 2 ^ n) \<noteq> 0) = bit w n" for w :: "'w::len word"
proof -
  have "bit (w AND 2 ^ n) j \<longleftrightarrow> bit w n \<and> j = n" for j
    using bit_imp_le_length [of w n] by (auto simp: bit_and_iff bit_shifted_one)
  then show ?thesis by (metis bit_0_eq bot_apply bot_bool_def bit_eqI)
qed

lemma bitmap_isset_eq:
  "pow2_long TYPE('w) \<Longrightarrow> bitmap_isset bm n = (if n div LENGTH('w) < length bm then Done (bbit bm n) else Fault)"
  for bm :: "'w::len word list"
  by (simp add: bitmap_isset_def Let_def BIT_WORD_def offset_mod word_and_bit bbit_def)

lemma div_mod_eqI: "i div w = n div w \<Longrightarrow> i mod w = n mod w \<Longrightarrow> i = n" for i n w :: nat
  by (metis div_mult_mod_eq)

lemma bitmap_setbit_ok:
  fixes bm :: "'w::len word list"
  assumes "pow2_long TYPE('w)" and "n div LENGTH('w) < length bm"
  shows "\<exists>bm'. bitmap_setbit bm n = Done bm' \<and> length bm' = length bm
            \<and> (\<forall>i. i div LENGTH('w) < length bm \<longrightarrow> bbit bm' i = (i = n \<or> bbit bm i))"
  using assms
  by (auto simp: bitmap_setbit_def Let_def BIT_WORD_def offset_mod bbit_def nth_list_update bit_or_iff
        bit_shifted_one dest: div_mod_eqI)

lemma bitmap_clearbit_ok:
  fixes bm :: "'w::len word list"
  assumes "pow2_long TYPE('w)" and "n div LENGTH('w) < length bm"
  shows "\<exists>bm'. bitmap_clearbit bm n = Done bm' \<and> length bm' = length bm
            \<and> (\<forall>i. i div LENGTH('w) < length bm \<longrightarrow> bbit bm' i = (i \<noteq> n \<and> bbit bm i))"
  using assms
  by (auto simp: bitmap_clearbit_def Let_def BIT_WORD_def offset_mod bbit_def nth_list_update bit_and_iff
        bit_not_iff bit_shifted_one dest: div_mod_eqI)

lemma bitmap_set_ok:
  fixes bm :: "'w::len word list"
  assumes "pow2_long TYPE('w)" and "covers bm (start + n)"
  shows "\<exists>bm'. bitmap_set bm start n = Done bm' \<and> length bm' = length bm
            \<and> (\<forall>i. i div LENGTH('w) < length bm \<longrightarrow> bbit bm' i = (i \<in> {start..<start + n} \<or> bbit bm i))"
  using assms(2)
proof (induction n arbitrary: bm start)
  case (Suc n)
  have "start div LENGTH('w) < length bm" using covers_word [OF Suc.prems] by simp
  with bitmap_setbit_ok [OF assms(1)] obtain b1 where b1: "bitmap_setbit bm start = Done b1"
    "length b1 = length bm" "\<forall>i. i div LENGTH('w) < length bm \<longrightarrow> bbit b1 i = (i = start \<or> bbit bm i)" by blast
  have "covers b1 (Suc start + n)" using Suc.prems b1(2) by (simp add: covers_def)
  from Suc.IH [OF this] b1 show ?case by fastforce
qed simp

lemma bitmap_clear_ok:
  fixes bm :: "'w::len word list"
  assumes "pow2_long TYPE('w)" and "covers bm (start + n)"
  shows "\<exists>bm'. bitmap_clear bm start n = Done bm' \<and> length bm' = length bm
            \<and> (\<forall>i. i div LENGTH('w) < length bm \<longrightarrow> bbit bm' i = (i \<notin> {start..<start + n} \<and> bbit bm i))"
  using assms(2)
proof (induction n arbitrary: bm start)
  case (Suc n)
  have "start div LENGTH('w) < length bm" using covers_word [OF Suc.prems] by simp
  with bitmap_clearbit_ok [OF assms(1)] obtain b1 where b1: "bitmap_clearbit bm start = Done b1"
    "length b1 = length bm" "\<forall>i. i div LENGTH('w) < length bm \<longrightarrow> bbit b1 i = (i \<noteq> start \<and> bbit bm i)" by blast
  have "covers b1 (Suc start + n)" using Suc.prems b1(2) by (simp add: covers_def)
  from Suc.IH [OF this] b1 show ?case by fastforce
qed simp

subsection \<open>Scanning\<close>

lemma bit_last_mask:
  assumes "nbits mod LENGTH('w) \<noteq> 0" and "j < LENGTH('w::len)"
  shows "bit (BITMAP_LAST_WORD_MASK nbits :: 'w word) j \<longleftrightarrow> j < nbits mod LENGTH('w)"
proof -
  have "(push_bit (nbits mod LENGTH('w)) 1 - 1 :: 'w word) = mask (nbits mod LENGTH('w))"
    by (simp add: mask_eq_exp_minus_1 push_bit_of_1)
  then show ?thesis using assms by (simp add: BITMAP_LAST_WORD_MASK_def bit_mask_iff)
qed

lemma word_zero_iff: "w = 0 \<longleftrightarrow> (\<forall>j < LENGTH('w). \<not> bit w j)" for w :: "'w::len word"
  by (auto simp: bit_eq_iff dest: bit_imp_le_length)

lemma all_bits_split:
  "(\<forall>i < n. P i) \<longleftrightarrow> (\<forall>k < n div w. \<forall>j < w. P (k * w + j)) \<and> (\<forall>j < n mod w. P (n div w * w + j))"
  if "0 < w" for n w :: nat
proof (intro iffI conjI allI impI)
  assume a: "\<forall>i < n. P i"
  fix k j assume "k < n div w" "j < w"
  have "Suc k * w \<le> n div w * w" using \<open>k < n div w\<close> by (intro mult_le_mono1) simp
  moreover have "k * w + j < Suc k * w" using \<open>j < w\<close> by simp
  ultimately have "k * w + j < n" using div_times_less_eq_dividend [of n w] by linarith
  then show "P (k * w + j)" using a by blast
next
  assume a: "\<forall>i < n. P i"
  fix j assume "j < n mod w"
  then have "n div w * w + j < n" using div_mult_mod_eq [of n w] by linarith
  then show "P (n div w * w + j)" using a by blast
next
  assume a: "(\<forall>k < n div w. \<forall>j < w. P (k * w + j)) \<and> (\<forall>j < n mod w. P (n div w * w + j))"
  fix i assume "i < n"
  have e: "i = i div w * w + i mod w" by simp
  show "P i"
  proof (cases "i div w < n div w")
    case True
    have "i mod w < w" using that by simp
    with a True have "P (i div w * w + i mod w)" by blast
    then show ?thesis by simp
  next
    case False
    with \<open>i < n\<close> have "i div w = n div w" by (meson div_le_mono le_neq_implies_less less_imp_le)
    moreover from this \<open>i < n\<close> have "i mod w < n mod w" by (metis div_mult_mod_eq nat_add_left_cancel_less)
    ultimately have "P (n div w * w + i mod w)" using a by blast
    then show ?thesis using e \<open>i div w = n div w\<close> by metis
  qed
qed

lemma scan_words_iff:
  assumes p: "\<And>k. p k \<longleftrightarrow> (\<forall>j < LENGTH('w::len). P (k * LENGTH('w) + j))"
    and q: "\<And>k. nbits mod LENGTH('w) \<noteq> 0 \<Longrightarrow> q k \<longleftrightarrow> (\<forall>j < nbits mod LENGTH('w). P (k * LENGTH('w) + j))"
  shows "scan_words TYPE('w) p q nbits \<longleftrightarrow> (\<forall>i < nbits. P i)"
  using all_bits_split [of "LENGTH('w)" nbits P] q [of "nbits div LENGTH('w)"]
  by (auto simp: scan_words_def Let_def list_all_iff p)

lemma masked_zero_iff:
  "nbits mod LENGTH('w) \<noteq> 0 \<Longrightarrow>
     w AND BITMAP_LAST_WORD_MASK nbits = 0 \<longleftrightarrow> (\<forall>j < nbits mod LENGTH('w). \<not> bit w j)"
  for w :: "'w::len word"
proof -
  assume "nbits mod LENGTH('w) \<noteq> 0"
  moreover have "j < LENGTH('w)" if "j < nbits mod LENGTH('w)" for j
    using that by (meson len_gt_0 less_trans mod_less_divisor)
  ultimately show ?thesis
    by (auto simp: word_zero_iff bit_and_iff bit_last_mask)
qed

lemma bbit_at: "j < LENGTH('w) \<Longrightarrow> bbit bm (k * LENGTH('w) + j) = bit (bm ! k) j" for bm :: "'w::len word list"
  by (simp add: bbit_def)

lemma bbit_at_mod: "j < nbits mod LENGTH('w) \<Longrightarrow> bbit bm (k * LENGTH('w) + j) = bit (bm ! k) j" for bm :: "'w::len word list"
  by (rule bbit_at) (meson len_gt_0 less_trans mod_less_divisor)

lemma bbit_len: "k < nbits mod LENGTH('w::len) \<Longrightarrow> k < LENGTH('w)"
  by (meson len_gt_0 less_trans mod_less_divisor)

lemmas full_simps = word_zero_iff bit_and_iff bit_not_iff bit_xor_iff bbit_at

lemmas last_simps = masked_zero_iff bit_and_iff bit_not_iff bit_xor_iff bbit_at_mod bbit_len

lemma bitmap_empty_iff: "bitmap_empty bm nbits \<longleftrightarrow> (\<forall>i < nbits. \<not> bbit bm i)"
  unfolding bitmap_empty_def by (rule scan_words_iff, simp add: full_simps, simp add: last_simps)

lemma bitmap_full_iff: "bitmap_full bm nbits \<longleftrightarrow> (\<forall>i < nbits. bbit bm i)"
  unfolding bitmap_full_def by (rule scan_words_iff, simp add: full_simps, simp add: last_simps)

lemma bitmap_equal_iff: "bitmap_equal b1 b2 nbits \<longleftrightarrow> (\<forall>i < nbits. bbit b1 i = bbit b2 i)"
  for b1 b2 :: "'a::len word list"
proof -
  have "b1 ! k = b2 ! k \<longleftrightarrow> (\<forall>j < LENGTH('a). bit (b1 ! k) j = bit (b2 ! k) j)" for k
    by (auto simp: bit_eq_iff dest: bit_imp_le_length)
  then show ?thesis
    unfolding bitmap_equal_def by (intro scan_words_iff) (simp add: bbit_at, simp add: last_simps)
qed

lemma bitmap_intersects_iff: "bitmap_intersects b1 b2 nbits \<longleftrightarrow> (\<exists>i < nbits. bbit b1 i \<and> bbit b2 i)"
proof -
  have "\<not> bitmap_intersects b1 b2 nbits \<longleftrightarrow> (\<forall>i < nbits. \<not> (bbit b1 i \<and> bbit b2 i))"
    unfolding bitmap_intersects_def not_not
    by (rule scan_words_iff, simp add: full_simps, simp add: last_simps)
  then show ?thesis by blast
qed

lemma bitmap_subset_iff: "bitmap_subset b1 b2 nbits \<longleftrightarrow> (\<forall>i < nbits. bbit b1 i \<longrightarrow> bbit b2 i)"
  unfolding bitmap_subset_def by (rule scan_words_iff, simp add: full_simps, simp add: last_simps)

subsection \<open>Writing\<close>

lemma length_write_words [simp]: "length (write_words g n dst) = length dst"
  unfolding write_words_def by (induction n) auto

lemma nth_write_words: "k < length dst \<Longrightarrow> write_words g n dst ! k = (if k < n then g k else dst ! k)"
proof (induction n)
  case (Suc n)
  have "write_words g (Suc n) dst = (write_words g n dst)[n := g n]" by (simp add: write_words_def)
  then show ?case using Suc by (auto simp: nth_list_update less_Suc_eq)
qed (simp add: write_words_def)

lemma longs_word: "i < nbits \<Longrightarrow> i div LENGTH('w::len) < BITS_TO_LONGS TYPE('w) nbits"
proof -
  assume "i < nbits"
  then have "i + LENGTH('w) \<le> nbits + LENGTH('w) - 1" by simp
  then have "(i + LENGTH('w)) div LENGTH('w) \<le> BITS_TO_LONGS TYPE('w) nbits"
    unfolding BITS_TO_LONGS_def by (rule div_le_mono)
  moreover have "(i + LENGTH('w)) div LENGTH('w) = Suc (i div LENGTH('w))" by (simp add: div_add_self2)
  ultimately show ?thesis by simp
qed

lemma bbit_write:
  fixes dst :: "'w::len word list"
  assumes "covers dst nbits" and "i < nbits"
  shows "bbit (write_words g (BITS_TO_LONGS TYPE('w) nbits) dst) i = bit (g (i div LENGTH('w))) (i mod LENGTH('w))"
  using covers_word [OF assms] longs_word [OF assms(2), where ?'w = 'w] by (simp add: bbit_def nth_write_words)

lemma bitmap_and_bits:
  "covers dst nbits \<Longrightarrow> i < nbits \<Longrightarrow> bbit (fst (bitmap_and dst b1 b2 nbits)) i = (bbit b1 i \<and> bbit b2 i)"
  by (simp add: bitmap_and_def Let_def bbit_write bit_and_iff) (simp add: bbit_def)

lemma bitmap_or_bits:
  "covers dst nbits \<Longrightarrow> i < nbits \<Longrightarrow> bbit (bitmap_or dst b1 b2 nbits) i = (bbit b1 i \<or> bbit b2 i)"
  by (simp add: bitmap_or_def bbit_write bit_or_iff) (simp add: bbit_def)

lemma bitmap_xor_bits:
  "covers dst nbits \<Longrightarrow> i < nbits \<Longrightarrow> bbit (bitmap_xor dst b1 b2 nbits) i = (bbit b1 i \<noteq> bbit b2 i)"
  by (simp add: bitmap_xor_def bbit_write bit_xor_iff) (simp add: bbit_def)

lemma bitmap_andnot_bits:
  "covers dst nbits \<Longrightarrow> i < nbits \<Longrightarrow> bbit (fst (bitmap_andnot dst b1 b2 nbits)) i = (bbit b1 i \<and> \<not> bbit b2 i)"
  by (simp add: bitmap_andnot_def Let_def bbit_write bit_and_iff bit_not_iff) (simp add: bbit_def)

lemma bitmap_complement_bits:
  fixes dst :: "'w::len word list"
  assumes c: "covers dst nbits" and i: "i < nbits"
  shows "bbit (bitmap_complement dst src nbits) i = (\<not> bbit src i)"
proof (cases "i div LENGTH('w) < nbits div LENGTH('w)")
  case True
  then show ?thesis
    using covers_word [OF c i] by (auto simp: bitmap_complement_def Let_def bbit_def nth_write_words nth_list_update bit_not_iff)
next
  case False
  have e: "i div LENGTH('w) = nbits div LENGTH('w)"
    using False i by (meson div_le_mono le_neq_implies_less less_imp_le)
  moreover have m: "i mod LENGTH('w) < nbits mod LENGTH('w)"
    using e i by (metis div_mult_mod_eq nat_add_left_cancel_less)
  ultimately show ?thesis
    using covers_word [OF c i] by (simp add: bitmap_complement_def Let_def bbit_def nth_list_update bit_not_iff
        bit_and_iff bit_last_mask)
qed

lemma bitmap_zero_bits: "covers dst nbits \<Longrightarrow> i < nbits \<Longrightarrow> \<not> bbit (bitmap_zero dst nbits) i"
  for dst :: "'w::len word list"
  using longs_word [of i nbits, where ?'w = 'w] by (simp add: bitmap_zero_def Let_def bbit_def nth_append)

subsection \<open>Regions\<close>

lemma bit_reg_mask:
  assumes "0 < n" and "n + off \<le> LENGTH('w::len)"
  shows "bit (reg_mask n off :: 'w word) j \<longleftrightarrow> off \<le> j \<and> j < off + n"
proof -
  have "(2 ^ (n - 1) + (2 ^ (n - 1) - 1) :: 'w word) = 2 * 2 ^ (n - 1) - 1" by simp
  also have "\<dots> = mask n" using assms(1) by (simp add: mask_eq_exp_minus_1 power_eq_if)
  finally have "reg_mask n off = push_bit off (mask n :: 'w word)" by (simp add: reg_mask_def Let_def)
  then show ?thesis using assms by (auto simp: bit_push_bit_iff bit_mask_iff)
qed

lemma upd_words_Suc: "upd_words a (Suc n) f bm = (upd_words a n f bm)[a + n := f (upd_words a n f bm ! (a + n))]"
  by (simp add: upd_words_def)

lemma length_upd_words [simp]: "length (upd_words a n f bm) = length bm"
proof (induction n)
  case (Suc n)
  then show ?case by (simp add: upd_words_Suc)
qed (simp add: upd_words_def)

lemma nth_upd_words:
  "j < length bm \<Longrightarrow> upd_words a n f bm ! j = (if a \<le> j \<and> j < a + n then f (bm ! j) else bm ! j)"
proof (induction n)
  case (Suc n)
  then show ?case by (cases "j = a + n") (auto simp: upd_words_Suc)
qed (auto simp: upd_words_def)

lemma region_small:
  fixes m w pos i :: nat
  assumes "m dvd w" and "m dvd pos" and "0 < m" and "0 < w"
  shows region_small_fits: "pos mod w + m \<le> w"
    and region_small_iff:
      "(i div w = pos div w \<and> pos mod w \<le> i mod w \<and> i mod w < pos mod w + m) \<longleftrightarrow> pos \<le> i \<and> i < pos + m"
proof -
  obtain a where a: "pos mod w = m * a" using assms(1,2) by (meson dvd_def dvd_mod)
  obtain c where c: "w = m * c" using assms(1) by (meson dvd_def)
  have "m * a < m * c" using a c assms(4) mod_less_divisor [of w pos] by simp
  then have "m * Suc a \<le> m * c" by (intro mult_le_mono2) (simp add: Suc_le_eq)
  then show f: "pos mod w + m \<le> w" using a c by simp
  show "(i div w = pos div w \<and> pos mod w \<le> i mod w \<and> i mod w < pos mod w + m) \<longleftrightarrow> pos \<le> i \<and> i < pos + m"
    (is "?l \<longleftrightarrow> ?r")
  proof
    assume ?l
    then show ?r using div_mult_mod_eq [of i w] div_mult_mod_eq [of pos w] by (metis add_le_cancel_left
          add.assoc nat_add_left_cancel_less)
  next
    assume ?r
    then obtain d where d: "i = pos + d" "d < m" using le_Suc_ex by force
    have s: "pos mod w + d < w" using d f by simp
    have "i = pos mod w + d + pos div w * w" using d(1) div_mult_mod_eq [of pos w] by simp
    then have "i div w = pos div w" "i mod w = pos mod w + d" using s assms(4)
      by (metis div_mult_self3 div_less add.commute add_0 less_nat_zero_code, metis mod_mult_self1 mod_less)
    then show ?l using d by simp
  qed
qed

lemma region_large:
  fixes m w pos i :: nat
  assumes "w dvd m" and "m dvd pos" and "0 < w"
  shows "(pos div w \<le> i div w \<and> i div w < pos div w + m div w) \<longleftrightarrow> pos \<le> i \<and> i < pos + m"
proof -
  obtain c where c: "m = w * c" using assms(1) by (meson dvd_def)
  obtain q where q: "pos = w * q" using assms(1,2) by (meson dvd_def dvd_trans)
  have "(q \<le> i div w) = (w * q \<le> i)" using assms(3) by (simp add: less_eq_div_iff_mult_less_eq mult.commute)
  moreover have "(i div w < q + c) = (i < w * q + w * c)"
    using assms(3) by (simp add: div_less_iff_less_mult distrib_left distrib_right mult.commute)
  ultimately show ?thesis using assms(3) c q by simp
qed

text \<open>The words and the mask of \<^verbatim>\<open>__reg_op\<close> are exactly the bits of an aligned region.\<close>

definition reg_words :: "'w::len itself \<Rightarrow> nat \<Rightarrow> nat" where
  "reg_words w order = BITS_TO_LONGS w (2 ^ order)"

definition reg_bits :: "'w::len itself \<Rightarrow> nat \<Rightarrow> nat \<Rightarrow> 'w word" where
  "reg_bits w pos order = reg_mask (min (2 ^ order) LENGTH('w)) (pos - pos div LENGTH('w) * LENGTH('w))"

lemma reg_operation_eq:
  "reg_operation bm pos order REG_OP_ISFREE
     = (bm, \<forall>i < reg_words TYPE('w) order. bm ! (pos div LENGTH('w) + i) AND reg_bits TYPE('w) pos order = 0)"
  "reg_operation bm pos order REG_OP_ALLOC
     = (upd_words (pos div LENGTH('w)) (reg_words TYPE('w) order) (\<lambda>v. v OR reg_bits TYPE('w) pos order) bm, False)"
  "reg_operation bm pos order REG_OP_RELEASE
     = (upd_words (pos div LENGTH('w)) (reg_words TYPE('w) order) (\<lambda>v. v AND NOT (reg_bits TYPE('w) pos order)) bm, False)"
  for bm :: "'w::len word list"
  by (simp_all add: reg_operation_def Let_def reg_bits_def reg_words_def list_all_iff Ball_def)

lemma div_round_one:
  fixes m w :: nat
  assumes "0 < m" and "m \<le> w"
  shows "(m + w - 1) div w = 1"
proof -
  obtain k where k: "m = Suc k" using assms(1) by (cases m) auto
  then have "m + w - 1 = k + w" by simp
  moreover have "(k + w) div w = k div w + 1" using assms k by (intro div_add_self2) simp
  ultimately show ?thesis using assms(2) k by simp
qed

lemma div_round_mult:
  fixes c w :: nat
  assumes "0 < w"
  shows "(w * c + w - 1) div w = c"
proof -
  have "w * c + w - 1 = (w - 1) + w * c" using assms by simp
  moreover have "((w - 1) + w * c) div w = c + (w - 1) div w" using assms by (intro div_mult_self2) simp
  ultimately show ?thesis using assms by simp
qed

lemma bit_reg_bits:
  assumes "pow2_long TYPE('w::len)" and "2 ^ order dvd pos"
  shows "(pos div LENGTH('w) \<le> i div LENGTH('w) \<and> i div LENGTH('w) < pos div LENGTH('w) + reg_words TYPE('w) order
            \<and> bit (reg_bits TYPE('w) pos order) (i mod LENGTH('w))) \<longleftrightarrow> pos \<le> i \<and> i < pos + 2 ^ order"
proof -
  let ?w = "LENGTH('w)"
  obtain k where k: "?w = 2 ^ k" using assms(1) by (auto simp: pow2_long_def)
  have off: "pos - pos div ?w * ?w = pos mod ?w" by (rule minus_div_mult_eq_mod)
  show ?thesis
  proof (cases "order \<le> k")
    case True
    then have d: "(2::nat) ^ order dvd ?w" unfolding k by (rule le_imp_power_dvd)
    have le: "(2::nat) ^ order \<le> ?w" using d by (meson dvd_imp_le len_gt_0)
    have "reg_words TYPE('w) order = 1"
      unfolding reg_words_def BITS_TO_LONGS_def using le by (intro div_round_one) simp_all
    moreover have "bit (reg_bits TYPE('w) pos order) (i mod ?w)
        \<longleftrightarrow> pos mod ?w \<le> i mod ?w \<and> i mod ?w < pos mod ?w + 2 ^ order"
      unfolding reg_bits_def off using le region_small_fits [OF d assms(2)]
      by (subst bit_reg_mask) (auto simp: min_def add.commute)
    ultimately show ?thesis using region_small_iff [OF d assms(2), of i] by auto
  next
    case False
    then have d: "?w dvd 2 ^ order" unfolding k by (intro le_imp_power_dvd) simp
    then have le: "?w \<le> 2 ^ order" by (intro dvd_imp_le) simp_all
    obtain c where c: "2 ^ order = ?w * c" using d by (meson dvd_def)
    have "reg_words TYPE('w) order = 2 ^ order div ?w"
      unfolding reg_words_def BITS_TO_LONGS_def c by (subst div_round_mult) simp_all
    moreover have "pos mod ?w = 0" using d assms(2) by (meson dvd_imp_mod_0 dvd_trans)
    then have "bit (reg_bits TYPE('w) pos order) (i mod ?w)"
      unfolding reg_bits_def off using le by (subst bit_reg_mask) (simp_all add: min_def)
    ultimately show ?thesis using region_large [OF d assms(2), of i] by simp
  qed
qed

lemma reg_isfree_iff:
  fixes bm :: "'w::len word list"
  assumes "pow2_long TYPE('w)" and "2 ^ order dvd pos"
  shows "snd (reg_operation bm pos order REG_OP_ISFREE) \<longleftrightarrow> (\<forall>i. pos \<le> i \<and> i < pos + 2 ^ order \<longrightarrow> \<not> bbit bm i)"
    (is "?l \<longleftrightarrow> ?r")
proof
  assume ?l
  then have z: "bm ! (pos div LENGTH('w) + n) AND reg_bits TYPE('w) pos order = 0"
    if "n < reg_words TYPE('w) order" for n using that by (simp add: reg_operation_eq)
  show ?r
  proof (intro allI impI)
    fix i assume "pos \<le> i \<and> i < pos + 2 ^ order"
    then have b: "pos div LENGTH('w) \<le> i div LENGTH('w)"
      "i div LENGTH('w) - pos div LENGTH('w) < reg_words TYPE('w) order"
      "bit (reg_bits TYPE('w) pos order) (i mod LENGTH('w))" using bit_reg_bits [OF assms, of i] by auto
    then show "\<not> bbit bm i" using arg_cong [OF z [OF b(2)], of "\<lambda>v. bit v (i mod LENGTH('w))"]
      by (simp add: bbit_def bit_and_iff)
  qed
next
  assume r: ?r
  have "\<not> (bit (bm ! (pos div LENGTH('w) + n)) j \<and> bit (reg_bits TYPE('w) pos order) j)"
    if "n < reg_words TYPE('w) order" "j < LENGTH('w)" for n j
    using r bit_reg_bits [OF assms, of "(pos div LENGTH('w) + n) * LENGTH('w) + j"]
      bbit_at [OF that(2), of bm "pos div LENGTH('w) + n"] that by auto
  then show ?l by (simp add: reg_operation_eq word_zero_iff bit_and_iff)
qed

lemma length_reg_operation [simp]: "length (fst (reg_operation bm pos order op)) = length bm"
  by (cases op) (simp_all add: reg_operation_eq)

lemma reg_alloc_bits:
  fixes bm :: "'w::len word list"
  assumes "pow2_long TYPE('w)" and "2 ^ order dvd pos" and "i div LENGTH('w) < length bm"
  shows "bbit (fst (reg_operation bm pos order REG_OP_ALLOC)) i \<longleftrightarrow> pos \<le> i \<and> i < pos + 2 ^ order \<or> bbit bm i"
  using assms(3) bit_reg_bits [OF assms(1,2), of i]
  by (auto simp: reg_operation_eq bbit_def nth_upd_words bit_or_iff)

lemma reg_release_bits:
  fixes bm :: "'w::len word list"
  assumes "pow2_long TYPE('w)" and "2 ^ order dvd pos" and "i div LENGTH('w) < length bm"
  shows "bbit (bitmap_release_region bm pos order) i \<longleftrightarrow> \<not> (pos \<le> i \<and> i < pos + 2 ^ order) \<and> bbit bm i"
  using assms(3) bit_reg_bits [OF assms(1,2), of i]
  by (auto simp: bitmap_release_region_def reg_operation_eq bbit_def nth_upd_words bit_and_iff bit_not_iff)

lemma bbit_eqI:
  fixes b1 b2 :: "'w::len word list"
  assumes "length b1 = length b2" and "\<And>i. i div LENGTH('w) < length b1 \<Longrightarrow> bbit b1 i = bbit b2 i"
  shows "b1 = b2"
proof (rule nth_equalityI)
  fix k assume k: "k < length b1"
  show "b1 ! k = b2 ! k"
  proof (rule bit_eqI)
    fix j assume "possible_bit TYPE('w word) j"
    then have "j < LENGTH('w)" by simp
    then show "bit (b1 ! k) j = bit (b2 ! k) j"
      using assms(2) [of "k * LENGTH('w) + j"] k by (simp add: bbit_at)
  qed
qed (rule assms(1))

definition region_free :: "'w::len word list \<Rightarrow> nat \<Rightarrow> nat \<Rightarrow> bool" where
  "region_free bm pos order \<longleftrightarrow> list_all (\<lambda>i. \<not> bbit bm i) [pos..<pos + 2 ^ order]"

lemma reg_isfree: "pow2_long TYPE('w) \<Longrightarrow> 2 ^ order dvd pos \<Longrightarrow>
    snd (reg_operation bm pos order REG_OP_ISFREE) = region_free bm pos order" for bm :: "'w::len word list"
  by (auto simp: reg_isfree_iff region_free_def list_all_iff)

lemma find_region_from_spec:
  fixes bm :: "'w::len word list"
  assumes "pow2_long TYPE('w)" and "2 ^ order dvd pos"
  shows "case find_region_from bm nbits order pos of
      (bm', Inr p) \<Rightarrow> pos \<le> p \<and> 2 ^ order dvd p \<and> p + 2 ^ order \<le> nbits \<and> region_free bm p order
        \<and> (\<forall>q. pos \<le> q \<and> q < p \<and> 2 ^ order dvd q \<longrightarrow> \<not> region_free bm q order)
        \<and> bm' = fst (reg_operation bm p order REG_OP_ALLOC)
    | (bm', Inl e) \<Rightarrow> e = VMM_ENOMEM \<and> bm' = bm
        \<and> (\<forall>q. pos \<le> q \<and> q + 2 ^ order \<le> nbits \<and> 2 ^ order dvd q \<longrightarrow> \<not> region_free bm q order)"
  using assms(2)
proof (induction bm nbits order pos rule: find_region_from.induct)
  case (1 bm nbits order pos)
  let ?m = "2 ^ order :: nat"
  have step: "q = pos \<or> pos + ?m \<le> q" if "pos \<le> q" "?m dvd q" for q
  proof (rule ccontr)
    assume n: "\<not> (q = pos \<or> pos + ?m \<le> q)"
    have "?m dvd q - pos" using that(2) "1.prems" by (rule dvd_diff_nat)
    then show False using that(1) n by (auto dest: dvd_imp_le)
  qed
  note fr = reg_isfree [OF assms(1) "1.prems"]
  show ?case
  proof (cases "pos + ?m \<le> nbits \<and> \<not> region_free bm pos order")
    case True
    have d: "?m dvd pos + ?m" using "1.prems" by simp
    have e: "find_region_from bm nbits order pos = find_region_from bm nbits order (pos + ?m)"
      using True fr by (simp add: find_region_from.simps [of _ _ _ pos])
    have skip: "pos + ?m \<le> q" if "region_free bm q order" "pos \<le> q" "?m dvd q" for q
      using step [OF that(2,3)] that(1) True by blast
    have ih: "\<And>b e. find_region_from bm nbits order (pos + ?m) = (b, Inl e) \<Longrightarrow> e = VMM_ENOMEM \<and> b = bm
        \<and> (\<forall>q. pos + ?m \<le> q \<and> q + ?m \<le> nbits \<and> ?m dvd q \<longrightarrow> \<not> region_free bm q order)"
      "\<And>b p. find_region_from bm nbits order (pos + ?m) = (b, Inr p) \<Longrightarrow>
         pos + ?m \<le> p \<and> ?m dvd p \<and> p + ?m \<le> nbits \<and> region_free bm p order
        \<and> (\<forall>q. pos + ?m \<le> q \<and> q < p \<and> ?m dvd q \<longrightarrow> \<not> region_free bm q order)
        \<and> b = fst (reg_operation bm p order REG_OP_ALLOC)"
      using "1.IH" [OF refl _ _ d] True fr by auto
    show ?thesis
      unfolding e by (auto split: prod.splits sum.splits dest!: ih dest: skip)
  next
    case False
    then show ?thesis
      using fr "1.prems" by (cases "pos + ?m \<le> nbits") (auto simp: find_region_from.simps [of _ _ _ pos])
  qed
qed

text \<open>
  \<^verbatim>\<open>bitmap_find_free_region\<close>, on a bitmap whose words hold \<open>nbits\<close> bits, returns the lowest
  position that is a multiple of \<open>2\<^sup>order\<close>, lies with its region inside the bitmap and whose bits are
  all clear, and sets exactly the bits of that region; it returns \<^verbatim>\<open>VMM_ENOMEM\<close> and leaves the bitmap
  alone exactly when every aligned region has a bit set.
\<close>

theorem bitmap_find_free_region_spec:
  fixes bm :: "'w::len word list"
  assumes "pow2_long TYPE('w)" and "covers bm nbits"
  shows "case bitmap_find_free_region bm nbits order of
      (bm', Inr p) \<Rightarrow> 2 ^ order dvd p \<and> p + 2 ^ order \<le> nbits \<and> region_free bm p order
        \<and> (\<forall>q. q < p \<and> 2 ^ order dvd q \<longrightarrow> \<not> region_free bm q order)
        \<and> length bm' = length bm
        \<and> (\<forall>i < nbits. bbit bm' i = (p \<le> i \<and> i < p + 2 ^ order \<or> bbit bm i))
    | (bm', Inl e) \<Rightarrow> e = VMM_ENOMEM \<and> bm' = bm
        \<and> (\<forall>q. q + 2 ^ order \<le> nbits \<and> 2 ^ order dvd q \<longrightarrow> \<not> region_free bm q order)"
  using find_region_from_spec [OF assms(1), of order 0 bm nbits] covers_word [OF assms(2)]
  by (auto simp: bitmap_find_free_region_def reg_alloc_bits [OF assms(1)] split: prod.splits sum.splits)

theorem bitmap_find_free_region_spec_witness:
  "bitmap_find_free_region [0x0103 :: 32 word, 0] 64 2 = ([0x01F3, 0], Inr 4) \<and>
   bbit [0x01F3 :: 32 word, 0] 5"
proof -
  have e: "bitmap_find_free_region [0x0103 :: 32 word, 0] 64 2 = ([0x01F3, 0], Inr 4)" by code_simp
  have "\<forall>i < 64. bbit [0x01F3 :: 32 word, 0] i = (4 \<le> i \<and> i < 4 + 2 ^ 2 \<or> bbit [0x0103 :: 32 word, 0] i)"
    using bitmap_find_free_region_spec [of "[0x0103 :: 32 word, 0]" 64 2] unfolding e
    by (simp add: covers_def)
  then show ?thesis using e by simp
qed

text \<open>
  Releasing the region that \<^verbatim>\<open>bitmap_find_free_region\<close> allocated gives back the bitmap as it was.
\<close>

theorem bitmap_release_undoes_find:
  fixes bm :: "'w::len word list"
  assumes "pow2_long TYPE('w)" and "covers bm nbits"
    and "bitmap_find_free_region bm nbits order = (bm', Inr p)"
  shows "bitmap_release_region bm' p order = bm"
proof -
  have p: "2 ^ order dvd p" "region_free bm p order" "bm' = fst (reg_operation bm p order REG_OP_ALLOC)"
    using find_region_from_spec [OF assms(1), of order 0 bm nbits] assms(3)
    by (simp_all add: bitmap_find_free_region_def)
  have free: "\<not> bbit bm i" if "p \<le> i" "i < p + 2 ^ order" for i
    using p(2) that by (auto simp: region_free_def list_all_iff)
  have l: "length (bitmap_release_region bm' p order) = length bm"
    by (simp add: bitmap_release_region_def p(3))
  have "bbit (bitmap_release_region bm' p order) i = bbit bm i" if "i div LENGTH('w) < length bm" for i
  proof -
    have "i div LENGTH('w) < length bm'" using that p(3) by simp
    from reg_release_bits [OF assms(1) p(1) this] reg_alloc_bits [OF assms(1) p(1) that] free [of i]
    show ?thesis unfolding p(3) by blast
  qed
  with l show ?thesis by (intro bbit_eqI) simp_all
qed

theorem bitmap_release_undoes_find_witness:
  "bitmap_release_region [0x01F3 :: 32 word, 0] 4 2 = [0x0103, 0]"
  by (rule bitmap_release_undoes_find [where nbits = 64]) (simp, simp add: covers_def, code_simp)

text \<open>
  On a host with 64-bit words the population count does not see the upper half of a word: a bitmap
  whose 32 upper bits are all set has weight 0.
\<close>

lemma bitmap_weight_ignores_upper_half: "bitmap_weight [0xFFFFFFFF00000000 :: 64 word] 64 = 0"
  by code_simp

end
