(* ===== verification/Resource.thy ===== *)
theory Resource
  imports Prelude
begin

text \<open>
  The resource tree of \<^verbatim>\<open>core/vmm_resource.c\<close>: ranges of host I/O and memory space with a name,
  flags and a list of child ranges.

  The source links a resource to its first child and to its next sibling; here the children are the
  list that those links spell.  The address \<open>rid\<close> of a resource stands for the pointer comparisons of
  the source.  Ranges are 64-bit and the \<open>end\<close> is inclusive, as in \<^verbatim>\<open>struct vmm_resource\<close>.  The
  write lock is held by every operation for its whole length and is not part of the state.
\<close>

datatype resource =
  Resource (rid: nat) (rstart: u64) (rend: u64) (rname: string) (rflags: u64) (rchild: "resource list")

abbreviation set_child :: "resource \<Rightarrow> resource list \<Rightarrow> resource" where
  "set_child r cs \<equiv> Resource (rid r) (rstart r) (rend r) (rname r) (rflags r) cs"

abbreviation set_range :: "resource \<Rightarrow> u64 \<Rightarrow> u64 \<Rightarrow> resource" where
  "set_range r s e \<equiv> Resource (rid r) s e (rname r) (rflags r) (rchild r)"

definition VMM_IORESOURCE_TYPE_BITS :: u64 where "VMM_IORESOURCE_TYPE_BITS = 0x00001f00"
definition VMM_IORESOURCE_MEM :: u64 where "VMM_IORESOURCE_MEM = 0x00000200"
definition VMM_IORESOURCE_UNSET :: u64 where "VMM_IORESOURCE_UNSET = 0x20000000"
definition VMM_IORESOURCE_BUSY :: u64 where "VMM_IORESOURCE_BUSY = 0x80000000"

definition vmm_resource_size :: "resource \<Rightarrow> u64" where
  "vmm_resource_size res = rend res - rstart res + 1"

definition vmm_resource_type :: "resource \<Rightarrow> u64" where
  "vmm_resource_type res = rflags res AND VMM_IORESOURCE_TYPE_BITS"

definition vmm_resource_contains :: "resource \<Rightarrow> resource \<Rightarrow> bool" where
  "vmm_resource_contains r1 r2 \<longleftrightarrow>
     \<not> vmm_resource_type r1 \<noteq> vmm_resource_type r2
     \<and> \<not> (rflags r1 AND VMM_IORESOURCE_UNSET \<noteq> 0 \<or> rflags r2 AND VMM_IORESOURCE_UNSET \<noteq> 0)
     \<and> rstart r1 \<le> rstart r2 \<and> rend r1 \<ge> rend r2"

section \<open>Request and release\<close>

text \<open>
  The walk over the siblings: \<open>Inr\<close> is the new sibling list, \<open>Inl\<close> the conflicting sibling.
\<close>

fun link_sibling :: "resource \<Rightarrow> resource list \<Rightarrow> resource + resource list" where
  "link_sibling new [] = Inr [new]"
| "link_sibling new (tmp # rest) =
     (if rstart tmp > rend new then Inr (new # tmp # rest)
      else if rend tmp < rstart new
      then (case link_sibling new rest of Inl c \<Rightarrow> Inl c | Inr cs \<Rightarrow> Inr (tmp # cs))
      else Inl tmp)"

definition request_resource_unlocked :: "resource \<Rightarrow> resource \<Rightarrow> resource \<times> resource option" where
  "request_resource_unlocked root new =
     (if rend new < rstart new then (root, Some root)
      else if rstart new < rstart root then (root, Some root)
      else if rend new > rend root then (root, Some root)
      else case link_sibling new (rchild root) of
             Inl c \<Rightarrow> (root, Some c)
           | Inr cs \<Rightarrow> (set_child root cs, None))"

definition vmm_request_resource_conflict :: "resource \<Rightarrow> resource \<Rightarrow> resource \<times> resource option" where
  "vmm_request_resource_conflict root new = request_resource_unlocked root new"

definition vmm_request_resource :: "resource \<Rightarrow> resource \<Rightarrow> resource \<times> vmm_rc" where
  "vmm_request_resource root new =
     (case vmm_request_resource_conflict root new of
        (root', Some conflict) \<Rightarrow> (root', VMM_EBUSY)
      | (root', None) \<Rightarrow> (root', VMM_OK))"

text \<open>\<open>parent\<close> is the resource that \<^verbatim>\<open>old->parent\<close> points to.\<close>

fun unlink_sibling :: "nat \<Rightarrow> resource list \<Rightarrow> resource list option" where
  "unlink_sibling old [] = None"
| "unlink_sibling old (tmp # rest) =
     (if rid tmp = old then Some rest else map_option ((#) tmp) (unlink_sibling old rest))"

definition release_resource_unlocked :: "resource \<Rightarrow> nat \<Rightarrow> resource \<times> vmm_rc" where
  "release_resource_unlocked parent old =
     (case unlink_sibling old (rchild parent) of
        None \<Rightarrow> (parent, VMM_EINVALID)
      | Some cs \<Rightarrow> (set_child parent cs, VMM_OK))"

definition vmm_release_resource :: "resource \<Rightarrow> nat \<Rightarrow> resource \<times> vmm_rc" where
  "vmm_release_resource parent old = release_resource_unlocked parent old"

definition vmm_lookup_resource :: "resource \<Rightarrow> u64 \<Rightarrow> resource option" where
  "vmm_lookup_resource root start = List.find (\<lambda>res. rstart res = start) (rchild root)"

section \<open>Allocation\<close>

type_synonym alignf = "resource \<Rightarrow> u64 \<Rightarrow> u64 \<Rightarrow> u64"

record resource_constraint =
  cmin :: u64
  cmax :: u64
  calign :: u64
  calignf :: alignf

definition simple_align_resource :: alignf where
  "simple_align_resource avail sz algn = rstart avail"

definition resource_clip :: "u64 \<Rightarrow> u64 \<Rightarrow> u64 \<Rightarrow> u64 \<Rightarrow> u64 \<times> u64" where
  "resource_clip s e mn mx = ((if s < mn then mn else s), (if e > mx then mx else e))"

definition align_up :: "u64 \<Rightarrow> u64 \<Rightarrow> u64" where
  "align_up x a = (x + (a - 1)) AND NOT (a - 1)"

text \<open>
  One pass of the loop of \<^verbatim>\<open>__find_resource\<close> on the gap \<open>[s, e]\<close>: the clipped start that the next
  pass sees, and the slot found.  The weak default of \<^verbatim>\<open>arch_remove_reservations\<close>, which no
  architecture overrides, does nothing.
\<close>

definition try_gap :: "resource \<Rightarrow> u64 \<Rightarrow> resource_constraint \<Rightarrow> u64 \<Rightarrow> u64 \<Rightarrow> u64 \<times> (u64 \<times> u64) option" where
  "try_gap new sz c s e =
     (if e < s then (s, None)
      else let (ts, te) = resource_clip s e (cmin c) (cmax c);
               as = align_up ts (calign c);
               fl = rflags new AND NOT VMM_IORESOURCE_UNSET;
               avail = Resource 0 as te (rname new) fl []
           in if as \<ge> ts
              then let st = calignf c avail sz (calign c);
                       en = st + sz - 1;
                       alloc = Resource 0 st en (rname new) fl []
                   in if vmm_resource_contains avail alloc then (ts, Some (st, en)) else (ts, None)
              else (ts, None))"

text \<open>\<open>old\<close> is the address of the resource that is being moved, if any.\<close>

fun find_gap ::
  "resource \<Rightarrow> nat option \<Rightarrow> resource \<Rightarrow> u64 \<Rightarrow> resource_constraint \<Rightarrow> u64 \<Rightarrow> resource list \<Rightarrow> (u64 \<times> u64) option" where
  "find_gap root old new sz c s [] = snd (try_gap new sz c s (rend root))"
| "find_gap root old new sz c s (this # rest) =
     (case try_gap new sz c s (if Some (rid this) = old then rend this else rstart this - 1) of
        (ts, Some slot) \<Rightarrow> Some slot
      | (ts, None) \<Rightarrow>
          if rend this = rend root then None
          else find_gap root old new sz c (if Some (rid this) \<noteq> old then rend this + 1 else ts) rest)"

definition find_resource_unlocked ::
  "resource \<Rightarrow> nat option \<Rightarrow> resource \<Rightarrow> u64 \<Rightarrow> resource_constraint \<Rightarrow> (u64 \<times> u64) option" where
  "find_resource_unlocked root old new sz c =
     (case rchild root of
        this # rest \<Rightarrow>
          if rstart this = rstart root
          then find_gap root old new sz c (if Some (rid this) = old then rstart this else rend this + 1) rest
          else find_gap root old new sz c (rstart root) (this # rest)
      | [] \<Rightarrow> find_gap root old new sz c (rstart root) [])"

definition find_resource ::
  "resource \<Rightarrow> resource \<Rightarrow> u64 \<Rightarrow> resource_constraint \<Rightarrow> (u64 \<times> u64) option" where
  "find_resource root new sz c = find_resource_unlocked root None new sz c"

text \<open>The path of \<^verbatim>\<open>vmm_allocate_resource\<close> for a resource that has no parent yet.\<close>

definition vmm_allocate_resource ::
  "resource \<Rightarrow> resource \<Rightarrow> u64 \<Rightarrow> u64 \<Rightarrow> u64 \<Rightarrow> u64 \<Rightarrow> alignf option \<Rightarrow> resource \<times> resource \<times> vmm_rc" where
  "vmm_allocate_resource root new sz mn mx algn alignf =
     (let c = \<lparr>cmin = mn, cmax = mx, calign = algn,
               calignf = (case alignf of None \<Rightarrow> simple_align_resource | Some g \<Rightarrow> g)\<rparr>
      in case find_resource root new sz c of
           None \<Rightarrow> (root, new, VMM_EBUSY)
         | Some (s, e) \<Rightarrow>
             let new' = set_range new s e
             in case request_resource_unlocked root new' of
                  (root', Some _) \<Rightarrow> (root', new', VMM_EBUSY)
                | (root', None) \<Rightarrow> (root', new', VMM_OK))"

section \<open>Well-formed sibling lists\<close>

definition children_ok :: "resource \<Rightarrow> bool" where
  "children_ok root \<longleftrightarrow>
     list_all (\<lambda>c. rstart root \<le> rstart c \<and> rstart c \<le> rend c \<and> rend c \<le> rend root) (rchild root)
     \<and> sorted_wrt (\<lambda>a b. rend a < rstart b) (rchild root)"

definition overlaps :: "resource \<Rightarrow> resource \<Rightarrow> bool" where
  "overlaps a b \<longleftrightarrow> rstart a \<le> rend b \<and> rstart b \<le> rend a"

lemma link_sibling_Inr:
  assumes "link_sibling new cs = Inr cs'" and "sorted_wrt (\<lambda>a b. rend a < rstart b) cs"
    and "list_all (\<lambda>c. rstart c \<le> rend c) cs" and "rstart new \<le> rend new"
  shows "sorted_wrt (\<lambda>a b. rend a < rstart b) cs' \<and> set cs' = insert new (set cs)
     \<and> length cs' = Suc (length cs) \<and> list_all (\<lambda>c. \<not> overlaps c new) cs"
  using assms
proof (induction cs arbitrary: cs')
  case (Cons tmp rest)
  show ?case
  proof (cases "rstart tmp > rend new")
    case True
    have "rend new < rstart x" if "x \<in> set rest" for x
      using that True Cons.prems(2,3) by (fastforce simp: list_all_iff)
    then show ?thesis using True Cons.prems by (auto simp: overlaps_def list_all_iff)
  next
    case False
    then have lt: "rend tmp < rstart new" using Cons.prems(1) by (auto split: if_splits)
    then obtain c2 where c2: "link_sibling new rest = Inr c2" "cs' = tmp # c2"
      using Cons.prems(1) False by (auto split: sum.splits)
    have "sorted_wrt (\<lambda>a b. rend a < rstart b) c2 \<and> set c2 = insert new (set rest)
       \<and> length c2 = Suc (length rest) \<and> list_all (\<lambda>c. \<not> overlaps c new) rest"
      using Cons.IH [OF c2(1)] Cons.prems by simp
    then show ?thesis using c2(2) lt Cons.prems by (auto simp: overlaps_def)
  qed
qed simp

lemma link_sibling_Inl: "link_sibling new cs = Inl c \<Longrightarrow> c \<in> set cs \<and> overlaps c new"
  by (induction cs) (auto simp: overlaps_def split: if_splits sum.splits)

text \<open>The conflicting sibling is the first one that overlaps.\<close>

lemma link_sibling_first: "link_sibling new cs = Inl c \<Longrightarrow> List.find (\<lambda>c. overlaps c new) cs = Some c"
  by (induction cs) (auto simp: overlaps_def not_le split: if_splits sum.splits)

definition in_range :: "resource \<Rightarrow> resource \<Rightarrow> bool" where
  "in_range root new \<longleftrightarrow> rstart new \<le> rend new \<and> rstart root \<le> rstart new \<and> rend new \<le> rend root"

lemma request_cases:
  obtains (range) "\<not> in_range root new" "request_resource_unlocked root new = (root, Some root)"
  | (conflict) c where "in_range root new" "c \<in> set (rchild root)" "overlaps c new" "List.find (\<lambda>c. overlaps c new) (rchild root) = Some c"
      "request_resource_unlocked root new = (root, Some c)"
  | (linked) cs where "in_range root new" "link_sibling new (rchild root) = Inr cs"
      "request_resource_unlocked root new = (set_child root cs, None)"
proof (cases "in_range root new")
  case True
  then have e: "request_resource_unlocked root new = (case link_sibling new (rchild root) of
      Inl c \<Rightarrow> (root, Some c) | Inr cs \<Rightarrow> (set_child root cs, None))"
    by (auto simp: request_resource_unlocked_def in_range_def)
  show ?thesis
    using True e by (cases "link_sibling new (rchild root)") (auto dest: link_sibling_Inl link_sibling_first intro: conflict linked)
next
  case False
  then show ?thesis by (intro range) (auto simp: request_resource_unlocked_def in_range_def)
qed

text \<open>
  C39. A request for a range under a root whose children are ordered and disjoint.  \<^verbatim>\<open>vmm_request_resource_conflict\<close> returns
  no conflict exactly when the range is not empty, lies inside the root and overlaps no child; then the range
  becomes a child and the children are again ordered and disjoint.  Otherwise the tree is unchanged and the conflict is
  the root, if the range is empty or not inside it, and else the first child that overlaps.  \<^verbatim>\<open>vmm_request_resource\<close>
  does the same to the tree and returns \<^verbatim>\<open>VMM_OK\<close> without and \<^verbatim>\<open>VMM_EBUSY\<close> with a conflict.
\<close>

theorem request_resource_spec:
  assumes "children_ok root"
  shows "case vmm_request_resource_conflict root new of (root', conflict) \<Rightarrow>
      (conflict = None \<longleftrightarrow> in_range root new \<and> (\<forall>c \<in> set (rchild root). \<not> overlaps c new))
    \<and> conflict = (if in_range root new then List.find (\<lambda>c. overlaps c new) (rchild root) else Some root)
    \<and> (conflict = None \<longrightarrow> children_ok root' \<and> set (rchild root') = insert new (set (rchild root)))
    \<and> (conflict \<noteq> None \<longrightarrow> root' = root)
    \<and> vmm_request_resource root new = (root', if conflict = None then VMM_OK else VMM_EBUSY)"
  using request_cases [of root new]
proof cases
  case (linked cs)
  have "list_all (\<lambda>c. rstart c \<le> rend c) (rchild root)" using assms by (simp add: children_ok_def list_all_iff)
  with link_sibling_Inr [OF linked(2)] assms linked(1)
  have l: "sorted_wrt (\<lambda>a b. rend a < rstart b) cs" "set cs = insert new (set (rchild root))"
    "list_all (\<lambda>c. \<not> overlaps c new) (rchild root)" by (auto simp: children_ok_def in_range_def)
  then have "List.find (\<lambda>c. overlaps c new) (rchild root) = None" by (simp add: find_None_iff list_all_iff)
  then show ?thesis using assms linked l
    by (auto simp: vmm_request_resource_def vmm_request_resource_conflict_def children_ok_def in_range_def list_all_iff)
qed (auto simp: vmm_request_resource_def vmm_request_resource_conflict_def)

theorem request_resource_spec_witness:
  "vmm_request_resource (Resource 0 0 0xFFFF ''mem'' 0x200 [Resource 1 0x1000 0x1FFF ''a'' 0 []])
     (Resource 2 0x2000 0x2FFF ''b'' 0 [])
   = (Resource 0 0 0xFFFF ''mem'' 0x200 [Resource 1 0x1000 0x1FFF ''a'' 0 [], Resource 2 0x2000 0x2FFF ''b'' 0 []], VMM_OK)
   \<and> vmm_request_resource_conflict (Resource 0 0 0xFFFF ''mem'' 0x200 [Resource 1 0x1000 0x1FFF ''a'' 0 []])
     (Resource 2 0x1800 0x2FFF ''b'' 0 []) = (Resource 0 0 0xFFFF ''mem'' 0x200 [Resource 1 0x1000 0x1FFF ''a'' 0 []], Some (Resource 1 0x1000 0x1FFF ''a'' 0 []))
   \<and> children_ok (Resource 0 0 0xFFFF ''mem'' 0x200 [Resource 1 0x1000 0x1FFF ''a'' 0 [], Resource 2 0x2000 0x2FFF ''b'' 0 []])"
proof -
  let ?r = "Resource 0 0 0xFFFF ''mem'' 0x200 [Resource 1 0x1000 0x1FFF ''a'' 0 []]"
  let ?m = "Resource 2 0x1800 0x2FFF ''b'' 0 []" let ?n = "Resource 2 0x2000 0x2FFF ''b'' 0 []"
  have e: "vmm_request_resource ?r ?n
      = (Resource 0 0 0xFFFF ''mem'' 0x200 [Resource 1 0x1000 0x1FFF ''a'' 0 [], ?n], VMM_OK)" by code_simp
  have "children_ok ?r" by code_simp
  moreover have "in_range ?r ?m" "List.find (\<lambda>c. overlaps c ?m) (rchild ?r) = Some (Resource 1 0x1000 0x1FFF ''a'' 0 [])" by code_simp+
  ultimately show ?thesis using request_resource_spec [of ?r ?n] request_resource_spec [of ?r ?m] e
    by (auto split: prod.splits)
qed

lemma unlink_link:
  "link_sibling new cs = Inr cs' \<Longrightarrow> rid new \<notin> rid ` set cs \<Longrightarrow> unlink_sibling (rid new) cs' = Some cs"
  by (induction cs arbitrary: cs') (auto split: if_splits sum.splits)

lemma release_undoes_request:
  assumes "vmm_request_resource root new = (root', VMM_OK)" and "rid new \<notin> rid ` set (rchild root)"
  shows "vmm_release_resource root' (rid new) = (root, VMM_OK)"
  using request_cases [of root new]
proof cases
  case (linked cs)
  then show ?thesis using assms unlink_link [OF linked(2)]
    by (auto simp: vmm_request_resource_def vmm_request_resource_conflict_def vmm_release_resource_def
        release_resource_unlocked_def)
qed (use assms in \<open>auto simp: vmm_request_resource_def vmm_request_resource_conflict_def\<close>)

section \<open>Allocation finds a slot exactly when there is one\<close>

lemma align_up_spec:
  fixes x s :: u64
  assumes a: "a = 2 ^ k" "k < 64" and x: "x AND (a - 1) = 0" and le: "s \<le> x"
  shows "s \<le> align_up s a \<and> align_up s a \<le> x \<and> align_up s a AND (a - 1) = 0"
proof -
  let ?m = "2 ^ k :: nat"
  have m: "a - 1 = mask k" unfolding a by (rule exp_minus_1)
  have um: "unat (mask k :: u64) = ?m - 1" using a(2) by (intro unat_mask) simp
  have p: "0 < ?m" by simp
  have xm: "unat x mod ?m = 0" using x unfolding m by (metis unat_and_mask unat_0)
  then obtain q where q: "unat x = ?m * q" by auto
  have dv: "?m dvd 2 ^ 64" using a(2) by (intro le_imp_power_dvd) simp
  then obtain n where n: "(2::nat) ^ 64 = ?m * n" by (meson dvd_def)
  have "?m * q < ?m * n" using unat_bound [of x] q n by simp
  then have "?m * Suc q \<le> ?m * n" by (intro mult_le_mono2) (simp add: Suc_le_eq)
  then have xb: "unat x + ?m \<le> 2 ^ 64" using q n by simp
  have sx: "unat s \<le> unat x" using le by (simp add: word_le_nat_alt)
  have "unat (s + mask k) = unat s + (?m - 1)" using sx xb p
    by (subst unat_add_no_wrap) (simp_all add: um)
  then have al: "unat (align_up s a) = (unat s + (?m - 1)) div ?m * ?m"
    unfolding align_up_def m by (simp add: unat_and_not_mask)
  have up: "unat s \<le> unat (align_up s a)" unfolding al
    using div_mult_mod_eq [of "unat s + (?m - 1)" ?m] mod_less_divisor [OF p, of "unat s + (?m - 1)"] by linarith
  have "unat s + (?m - 1) < ?m * Suc q" using sx p unfolding q mult_Suc_right by linarith
  then have "(unat s + (?m - 1)) div ?m \<le> q" by (simp add: div_less_iff_less_mult mult.commute less_Suc_eq_le [symmetric])
  then have dn: "unat (align_up s a) \<le> unat x" unfolding al q by (simp add: mult.commute)
  have "unat (align_up s a AND mask k) = 0" unfolding unat_and_mask al by simp
  then show ?thesis using up dn unfolding m by (simp add: word_le_nat_alt unat_eq_0)
qed

definition fits :: "resource \<Rightarrow> u64 \<Rightarrow> u64 \<Rightarrow> u64 \<Rightarrow> u64 \<Rightarrow> u64 \<Rightarrow> bool" where
  "fits root sz mn mx algn x \<longleftrightarrow>
     rstart root \<le> x \<and> unat x + unat sz \<le> 2 ^ 64 \<and> x + sz - 1 \<le> rend root
     \<and> mn \<le> x \<and> x + sz - 1 \<le> mx \<and> x AND (algn - 1) = 0"

lemma unat_last: "0 < sz \<Longrightarrow> unat x + unat sz \<le> 2 ^ 64 \<Longrightarrow> unat (x + sz - 1) = unat x + unat sz - 1" for x sz :: u64
proof -
  assume a: "0 < sz" "unat x + unat sz \<le> 2 ^ 64"
  have "sz \<noteq> 0" using a(1) by auto
  then have "unat (sz - 1) = unat sz - 1" "1 \<le> unat sz" by (simp_all add: unat_minus_one unat_pos [simplified])
  then have "unat (x + (sz - 1)) = unat x + (unat sz - 1)" using a(2) by (subst unat_add_no_wrap) simp_all
  then show ?thesis using \<open>1 \<le> unat sz\<close> by (simp add: add_diff_eq)
qed

lemma contains_same_flags:
  "vmm_resource_contains (Resource i s e n (f AND NOT VMM_IORESOURCE_UNSET) []) (Resource i' s' e' n' (f AND NOT VMM_IORESOURCE_UNSET) [])
     \<longleftrightarrow> s \<le> s' \<and> e' \<le> e"
  by (simp add: vmm_resource_contains_def vmm_resource_type_def and.assoc)

text \<open>A gap that holds a fitting slot at \<open>x\<close> gives a slot at or below \<open>x\<close>.\<close>

lemma try_gap_some:
  assumes "a = 2 ^ k" "k < 64" "0 < sz" and f: "fits root sz mn mx a x" and "s \<le> x" and "x + sz - 1 \<le> e"
    and c: "c = \<lparr>cmin = mn, cmax = mx, calign = a, calignf = simple_align_resource\<rparr>"
  shows "\<exists>ts st. try_gap new sz c s e = (ts, Some (st, st + sz - 1)) \<and> s \<le> st \<and> st \<le> x"
proof -
  let ?y = "x + sz - 1"
  have "1 \<le> unat sz" using assms(3) by (intro unat_pos) auto
  then have xy: "x \<le> ?y" using f unat_last [OF assms(3), of x]
    by (simp add: fits_def word_le_nat_alt)
  define ts where "ts = (if s < mn then mn else s)"
  define te where "te = (if e > mx then mx else e)"
  have tx: "ts \<le> x" "s \<le> ts" using f assms(5) by (auto simp: ts_def fits_def)
  have ye: "?y \<le> te" using f assms(6) by (auto simp: te_def fits_def)
  have al: "ts \<le> align_up ts a" "align_up ts a \<le> x"
    using align_up_spec [OF assms(1,2) _ tx(1)] f by (auto simp: fits_def)
  let ?st = "align_up ts a"
  have "unat ?st + unat sz \<le> 2 ^ 64" using al(2) f by (simp add: fits_def word_le_nat_alt)
  then have "?st + sz - 1 \<le> ?y"
    using unat_last [OF assms(3), of ?st] unat_last [OF assms(3), of x] f al(2) by (simp add: fits_def word_le_nat_alt)
  then have "?st + sz - 1 \<le> te" using ye by simp
  moreover have "\<not> e < s" using xy assms(5,6) by simp
  ultimately have "try_gap new sz c s e = (ts, Some (?st, ?st + sz - 1))"
    using al(1) by (simp add: try_gap_def Let_def resource_clip_def c simple_align_resource_def contains_same_flags
        flip: ts_def te_def)
  then show ?thesis using al tx by auto
qed

lemma try_gap_slot:
  assumes "a = 2 ^ k" "k < 64" and f: "fits root sz mn mx a x" and "s \<le> x"
    and c: "c = \<lparr>cmin = mn, cmax = mx, calign = a, calignf = simple_align_resource\<rparr>"
    and t: "try_gap new sz c s e = (ts, Some (st, en))"
  shows "en = st + sz - 1 \<and> s \<le> st \<and> st \<le> x \<and> en \<le> e"
proof -
  define ts' where "ts' = (if s < mn then mn else s)"
  have tx: "ts' \<le> x" "s \<le> ts'" using f assms(4) by (auto simp: ts'_def fits_def)
  have al: "ts' \<le> align_up ts' a" "align_up ts' a \<le> x"
    using align_up_spec [OF assms(1,2) _ tx(1)] f by (auto simp: fits_def)
  show ?thesis using t al tx
    by (auto simp: try_gap_def Let_def resource_clip_def c simple_align_resource_def contains_same_flags
        simp flip: ts'_def split: if_splits)
qed

lemma last_mono:
  assumes "0 < sz" and "fits root sz mn mx a x" and "st \<le> x"
  shows "st + sz - 1 \<le> x + sz - 1" and "st \<le> st + sz - 1"
proof -
  have n: "unat st + unat sz \<le> 2 ^ 64" using assms(2,3) by (simp add: fits_def word_le_nat_alt)
  have "1 \<le> unat sz" using assms(1) by (intro unat_pos) auto
  then show "st + sz - 1 \<le> x + sz - 1" "st \<le> st + sz - 1"
    using unat_last [OF assms(1) n] unat_last [OF assms(1), of x] assms(2,3)
    by (simp_all add: fits_def word_le_nat_alt)
qed

lemma pred_word: "r \<noteq> 0 \<Longrightarrow> (y \<le> r - 1) = (y < r)" for r y :: "'n::len word"
  by (simp add: word_le_nat_alt word_less_nat_alt unat_minus_one) (use unat_pos [of r] in linarith)

lemma succ_word: "(e::'n::len word) < x \<Longrightarrow> e + 1 \<le> x \<and> (\<forall>r. e < r \<longrightarrow> e + 1 \<le> r)"
  by (simp add: inc_le)

lemma succ_le_less: "(e::'n::len word) < x \<Longrightarrow> e + 1 \<le> st \<Longrightarrow> e < st"
  using unat_bound [of x] by (simp add: word_le_nat_alt word_less_nat_alt unat_add_one)

lemma no_wrap_last: "0 < sz \<Longrightarrow> st \<le> st + sz - 1 \<Longrightarrow> unat st + unat sz \<le> 2 ^ 64" for st sz :: u64
proof (rule ccontr)
  assume a: "0 < sz" "st \<le> st + sz - 1" "\<not> unat st + unat sz \<le> 2 ^ 64"
  have s: "unat (sz - 1) = unat sz - 1" "1 \<le> unat sz" using a(1) unat_pos [of sz] by (auto simp: unat_minus_one)
  have "unat (st + (sz - 1)) = (unat st + (unat sz - 1)) mod 2 ^ 64" by (simp add: unat_word_ariths s)
  also have "\<dots> = unat st + (unat sz - 1) - 2 ^ 64"
  proof -
    have "unat st + (unat sz - 1) - 2 ^ 64 < 2 ^ 64" "2 ^ 64 \<le> unat st + (unat sz - 1)"
      using a(3) unat_bound [of st] unat_bound [of sz] s(2) by simp_all
    then show ?thesis by (simp add: le_mod_geq)
  qed
  finally have "unat (st + sz - 1) < unat st" using unat_bound [of sz] a(3) s(2) by (simp add: add_diff_eq)
  then show False using a(2) by (simp add: word_le_nat_alt)
qed

lemma find_gap_some:
  assumes "a = 2 ^ k" "k < 64" "0 < sz" and f: "fits root sz mn mx a x"
    and c: "c = \<lparr>cmin = mn, cmax = mx, calign = a, calignf = simple_align_resource\<rparr>"
    and "s \<le> x" and "sorted_wrt (\<lambda>p q. rend p < rstart q) cs"
    and "list_all (\<lambda>p. s \<le> rstart p \<and> rstart p \<noteq> 0 \<and> rstart p \<le> rend p) cs"
    and "list_all (\<lambda>p. \<not> (rstart p \<le> x + sz - 1 \<and> x \<le> rend p)) cs"
  shows "\<exists>st. find_gap root None new sz c s cs = Some (st, st + sz - 1) \<and> st \<le> x \<and> s \<le> st
     \<and> list_all (\<lambda>p. \<not> (rstart p \<le> st + sz - 1 \<and> st \<le> rend p)) cs"
  using assms(6-9)
proof (induction cs arbitrary: s)
  case Nil
  have "x + sz - 1 \<le> rend root" using f by (simp add: fits_def)
  then show ?case using try_gap_some [OF assms(1-4) Nil.prems(1) _ c, of "rend root" new] by auto
next
  case (Cons p cs)
  obtain ts r where t: "try_gap new sz c s (rstart p - 1) = (ts, r)" by fastforce
  have p: "rstart p \<noteq> 0" "rstart p \<le> rend p" using Cons.prems(3) by simp_all
  show ?case
  proof (cases r)
    case (Some slot)
    obtain st en where s: "slot = (st, en)" by fastforce
    have g: "en = st + sz - 1" "s \<le> st" "st \<le> x" "st + sz - 1 < rstart p"
      using try_gap_slot [OF assms(1,2) f Cons.prems(1) c, of new "rstart p - 1" ts st en] t Some s p(1)
      by (auto simp: pred_word)
    have "st + sz - 1 < rstart q" if "q \<in> set cs" for q
      using that Cons.prems(2,3) g(4) by (fastforce simp: list_all_iff)
    then have "list_all (\<lambda>p. \<not> (rstart p \<le> st + sz - 1 \<and> st \<le> rend p)) (p # cs)"
      using g(4) by (fastforce simp: list_all_iff)
    then show ?thesis using g t Some s by auto
  next
    case None
    have "\<not> x + sz - 1 < rstart p"
    proof
      assume "x + sz - 1 < rstart p"
      then have "x + sz - 1 \<le> rstart p - 1" using p(1) by (simp add: pred_word)
      from try_gap_some [OF assms(1-4) Cons.prems(1) this c, of new] t None show False by auto
    qed
    then have lt: "rend p < x" using Cons.prems(4) by auto
    moreover have "x \<le> rend root" using f last_mono(2) [OF assms(3) f, of x] by (auto simp: fits_def)
    ultimately have ne: "rend p \<noteq> rend root" by auto
    have s1: "rend p + 1 \<le> x" using lt by (simp add: succ_word)
    have next_start: "rend p + 1 \<le> rstart q" if "q \<in> set cs" for q
      using that Cons.prems(2) by (simp add: succ_word)
    obtain st where st: "find_gap root None new sz c (rend p + 1) cs = Some (st, st + sz - 1)" "st \<le> x"
      "rend p + 1 \<le> st" "list_all (\<lambda>p. \<not> (rstart p \<le> st + sz - 1 \<and> st \<le> rend p)) cs"
      using Cons.IH [OF s1] Cons.prems next_start by (auto simp: list_all_iff)
    have "rend p < st" using st(3) lt by (rule succ_le_less [rotated])
    moreover have "s \<le> st" using \<open>rend p < st\<close> Cons.prems(3) by auto
    ultimately show ?thesis using st t None ne by auto
  qed
qed

lemma find_resource_some:
  assumes "children_ok root" "a = 2 ^ k" "k < 64" "0 < sz" and f: "fits root sz mn mx a x"
    and c: "c = \<lparr>cmin = mn, cmax = mx, calign = a, calignf = simple_align_resource\<rparr>"
    and o: "list_all (\<lambda>p. \<not> (rstart p \<le> x + sz - 1 \<and> x \<le> rend p)) (rchild root)"
  shows "\<exists>st. find_resource root new sz c = Some (st, st + sz - 1) \<and> st \<le> x \<and> rstart root \<le> st
     \<and> list_all (\<lambda>p. \<not> (rstart p \<le> st + sz - 1 \<and> st \<le> rend p)) (rchild root)"
proof -
  have srt: "sorted_wrt (\<lambda>p q. rend p < rstart q) (rchild root)" using assms(1) by (simp add: children_ok_def)
  have rng: "rstart root \<le> rstart p \<and> rstart p \<le> rend p \<and> rend p \<le> rend root" if "p \<in> set (rchild root)" for p
    using assms(1) that by (simp add: children_ok_def list_all_iff)
  have rx: "rstart root \<le> x" using f by (simp add: fits_def)
  note fg = find_gap_some [OF assms(2-4) f c]
  show ?thesis
  proof (cases "rchild root")
    case Nil
    then show ?thesis using fg [OF rx, of "[]"] by (simp add: find_resource_def find_resource_unlocked_def)
  next
    case (Cons p cs)
    have pos: "rstart q \<noteq> 0" if "q \<in> set cs" for q
      using srt that unfolding Cons by auto
    show ?thesis
    proof (cases "rstart p = rstart root")
      case False
      have "rstart p \<noteq> 0" using False rng [of p] by (auto simp: Cons)
      then have "list_all (\<lambda>p. rstart root \<le> rstart p \<and> rstart p \<noteq> 0 \<and> rstart p \<le> rend p) (rchild root)"
        using pos rng by (auto simp: list_all_iff Cons)
      from fg [OF rx srt this o, of new] False show ?thesis
        by (auto simp: find_resource_def find_resource_unlocked_def Cons)
    next
      case True
      have "\<not> (rstart p \<le> x + sz - 1 \<and> x \<le> rend p)" using o by (simp add: Cons)
      moreover have "rstart p \<le> x + sz - 1" using True rx last_mono(2) [OF assms(4) f, of x] by auto
      ultimately have lt: "rend p < x" by auto
      have s1: "rend p + 1 \<le> x" using lt by (simp add: succ_word)
      have nx: "list_all (\<lambda>q. rend p + 1 \<le> rstart q \<and> rstart q \<noteq> 0 \<and> rstart q \<le> rend q) cs"
        using srt pos rng unfolding Cons by (auto simp: list_all_iff succ_word)
      obtain st where st: "find_gap root None new sz c (rend p + 1) cs = Some (st, st + sz - 1)" "st \<le> x"
        "rend p + 1 \<le> st" "list_all (\<lambda>p. \<not> (rstart p \<le> st + sz - 1 \<and> st \<le> rend p)) cs"
        using fg [OF s1 _ nx, of new] srt o unfolding Cons by auto
      have "rend p < st" using st(3) lt by (rule succ_le_less [rotated])
      then show ?thesis using st True rng [of p]
        by (auto simp: find_resource_def find_resource_unlocked_def Cons)
    qed
  qed
qed

lemma find_gap_bounds:
  assumes "find_gap root old new sz c s cs = Some (st, en)"
  shows "en = st + sz - 1 \<and> (calignf c = simple_align_resource \<longrightarrow> st AND (calign c - 1) = 0)
     \<and> cmin c \<le> st \<and> en \<le> cmax c"
proof -
  have tg: "en' = st' + sz - 1 \<and> (calignf c = simple_align_resource \<longrightarrow> st' AND (calign c - 1) = 0)
     \<and> cmin c \<le> st' \<and> en' \<le> cmax c" if "try_gap new sz c s e = (ts, Some (st', en'))" for s e ts st' en'
    using that by (auto simp: try_gap_def Let_def resource_clip_def contains_same_flags simple_align_resource_def
        align_up_def and.assoc split: if_splits)
  show ?thesis using assms
  proof (induction cs arbitrary: s)
    case Nil
    then have "try_gap new sz c s (rend root) = (fst (try_gap new sz c s (rend root)), Some (st, en))"
      by (simp add: prod_eq_iff)
    then show ?case by (rule tg)
  qed (auto dest: tg split: prod.splits option.splits if_splits)
qed

lemma find_resource_bounds:
  "find_resource root new sz c = Some (st, en) \<Longrightarrow> en = st + sz - 1
     \<and> (calignf c = simple_align_resource \<longrightarrow> st AND (calign c - 1) = 0) \<and> cmin c \<le> st \<and> en \<le> cmax c"
  unfolding find_resource_def find_resource_unlocked_def
  by (split list.split_asm, rule find_gap_bounds, simp only:)
    (split if_split_asm; rule find_gap_bounds; simp only:)

definition free_slot :: "resource \<Rightarrow> u64 \<Rightarrow> u64 \<Rightarrow> u64 \<Rightarrow> u64 \<Rightarrow> u64 \<Rightarrow> bool" where
  "free_slot root sz mn mx algn x \<longleftrightarrow> fits root sz mn mx algn x
     \<and> list_all (\<lambda>p. \<not> (rstart p \<le> x + sz - 1 \<and> x \<le> rend p)) (rchild root)"

text \<open>
  C40. \<^verbatim>\<open>vmm_allocate_resource\<close> for a resource without a parent, a non-zero size, a power-of-two alignment
  and the default alignment function: it succeeds exactly when the root has a free slot of that size and
  alignment between \<open>min\<close> and \<open>max\<close>.  Then the resource is placed on such a slot, becomes a child, and the
  children stay ordered and disjoint; otherwise the tree is unchanged and the result is
  \<^verbatim>\<open>VMM_EBUSY\<close>.
\<close>

theorem vmm_allocate_resource_spec:
  assumes "children_ok root" and "algn = 2 ^ k" and "k < 64" and "0 < sz"
  shows "case vmm_allocate_resource root new sz mn mx algn None of (root', new', rc) \<Rightarrow>
      (rc = VMM_OK \<longleftrightarrow> (\<exists>x. free_slot root sz mn mx algn x))
    \<and> (rc = VMM_OK \<longrightarrow> free_slot root sz mn mx algn (rstart new') \<and> rend new' = rstart new' + sz - 1
          \<and> children_ok root' \<and> set (rchild root') = insert new' (set (rchild root)))
    \<and> (rc \<noteq> VMM_OK \<longrightarrow> rc = VMM_EBUSY \<and> root' = root)"
proof -
  define c where "c = \<lparr>cmin = mn, cmax = mx, calign = algn, calignf = simple_align_resource\<rparr>"
  show ?thesis
  proof (cases "find_resource root new sz c")
    case None
    then have "\<not> free_slot root sz mn mx algn x" for x
      using find_resource_some [OF assms _ c_def, where x = x and new = new] by (auto simp: free_slot_def)
    then show ?thesis using None by (simp add: vmm_allocate_resource_def flip: c_def)
  next
    case (Some slot)
    obtain st en where s: "slot = (st, en)" by fastforce
    let ?new = "set_range new st en"
    have b: "en = st + sz - 1" "st AND (algn - 1) = 0" "mn \<le> st" "en \<le> mx"
      using find_resource_bounds [OF Some [unfolded s]] by (auto simp: c_def)
    have rq: "vmm_allocate_resource root new sz mn mx algn None
        = (fst (request_resource_unlocked root ?new), ?new, snd (vmm_request_resource root ?new))"
      using Some s by (simp add: vmm_allocate_resource_def vmm_request_resource_def
          vmm_request_resource_conflict_def flip: c_def split: prod.splits option.splits)
    have e1: "fst (vmm_request_resource root ?new) = fst (request_resource_unlocked root ?new)"
      by (simp add: vmm_request_resource_def vmm_request_resource_conflict_def split: prod.splits option.splits)
    have ok: "in_range root ?new \<and> (\<forall>p \<in> set (rchild root). \<not> overlaps p ?new) \<longleftrightarrow> free_slot root sz mn mx algn st"
      using b no_wrap_last [OF assms(4), of st] last_mono(2) [OF assms(4), of root mn mx algn st st]
      by (auto simp: in_range_def free_slot_def fits_def overlaps_def list_all_iff)
    have "free_slot root sz mn mx algn st" if "free_slot root sz mn mx algn x" for x
      using find_resource_some [OF assms _ c_def, where x = x and new = new] that Some s b
        last_mono(1) [OF assms(4), of root mn mx algn x st]
      by (auto simp: free_slot_def fits_def word_le_nat_alt)
    then show ?thesis
      using request_resource_spec [OF assms(1), of ?new] ok rq e1 b(1) by (auto simp: case_prod_beta)
  qed
qed

theorem vmm_allocate_resource_spec_witness:
  "vmm_allocate_resource (Resource 0 0 0xFFFF ''mem'' 0x200 [Resource 1 0 0x11FF ''a'' 0 []])
     (Resource 2 0 0 ''b'' 0 []) 0x800 0 0xFFFFFFFF 0x1000 None
   = (Resource 0 0 0xFFFF ''mem'' 0x200 [Resource 1 0 0x11FF ''a'' 0 [], Resource 2 0x2000 0x27FF ''b'' 0 []],
      Resource 2 0x2000 0x27FF ''b'' 0 [], VMM_OK)
   \<and> free_slot (Resource 0 0 0xFFFF ''mem'' 0x200 [Resource 1 0 0x11FF ''a'' 0 []]) 0x800 0 0xFFFFFFFF 0x1000 0x2000"
proof -
  let ?r = "Resource 0 0 0xFFFF ''mem'' 0x200 [Resource 1 0 0x11FF ''a'' 0 []]"
  let ?n = "Resource 2 0 0 ''b'' 0 []"
  have e: "vmm_allocate_resource ?r ?n 0x800 0 0xFFFFFFFF 0x1000 None
      = (Resource 0 0 0xFFFF ''mem'' 0x200 [Resource 1 0 0x11FF ''a'' 0 [], Resource 2 0x2000 0x27FF ''b'' 0 []],
         Resource 2 0x2000 0x27FF ''b'' 0 [], VMM_OK)" by code_simp
  have "children_ok ?r" by code_simp
  from vmm_allocate_resource_spec [OF this, where algn = "0x1000" and k = 12 and sz = "0x800" and new = ?n and mn = 0 and mx = "0xFFFFFFFF"] e
  show ?thesis by simp
qed

end
