(* ===== verification/HostRam.thy ===== *)
theory HostRam
  imports Bitmap Resource "HOL-Library.Monad_Syntax"
begin

text \<open>
  The host RAM manager of \<^verbatim>\<open>core/vmm_host_ram.c\<close>: banks of page frames with one bitmap each, allocation
  by size and alignment, cache-coloured allocation, reservation and release of address ranges.

  The host is a 64-bit one: \<^verbatim>\<open>physical_addr_t\<close>, \<^verbatim>\<open>physical_size_t\<close> and \<open>unsigned long\<close> are \<open>u64\<close>.  Frame
  counters and positions are \<open>u32\<close> as in the source, with the truncations of its assignments written
  out.  The bitmap operations take an \<open>int\<close>, so a frame number from \<open>2\<^sup>3\<^sup>1\<close> on would be negative there:
  this and every access outside the words of a bitmap is a \<open>Fault\<close>.  The search loop may not end (its
  step is zero for an alignment order of 44 or more); it is a partial function and \<open>None\<close> means that the
  search never returns.  The bank locks are held around each bank's work and are not part of the state.
\<close>

section \<open>Size arithmetic\<close>

definition VMM_PAGE_SHIFT :: u32 where "VMM_PAGE_SHIFT = 12"

definition order_size :: "u32 \<Rightarrow> u64" where "order_size order = push_bit (unat order) 1"

definition order_mask :: "u32 \<Rightarrow> u64" where "order_mask order = order_size order - 1"

definition order_align :: "u64 \<Rightarrow> u32 \<Rightarrow> u64" where "order_align x order = x AND NOT (order_mask order)"

definition roundup2_order_size :: "u64 \<Rightarrow> u32 \<Rightarrow> u64" where
  "roundup2_order_size x order =
     (if x AND order_mask order \<noteq> 0 then order_align x order + order_size order else x)"

definition size_to_order :: "u64 \<Rightarrow> u32 \<Rightarrow> u64" where
  "size_to_order x order = drop_bit (unat order) x + (if x AND order_mask order \<noteq> 0 then 1 else 0)"

definition VMM_SIZE_TO_PAGE :: "u64 \<Rightarrow> u64" where "VMM_SIZE_TO_PAGE x = size_to_order x VMM_PAGE_SHIFT"

definition VMM_PAGE_SIZE :: u64 where "VMM_PAGE_SIZE = order_size VMM_PAGE_SHIFT"

definition VMM_PAGE_MASK :: u64 where "VMM_PAGE_MASK = order_mask VMM_PAGE_SHIFT"

section \<open>State\<close>

record vmm_host_ram_bank =
  bank_start :: u64
  bank_size :: u64
  frame_count :: u32
  bmap :: "u64 list"
  bmap_sz :: u32
  bmap_free :: u32

text \<open>Operations are pointers that may be null; \<open>'p option\<close> is the private pointer.\<close>

record 'p vmm_host_ram_color_ops =
  ops_name :: string
  num_colors :: "('p option \<Rightarrow> u32) option"
  color_order :: "('p option \<Rightarrow> u32) option"
  color_match :: "(u64 \<Rightarrow> u64 \<Rightarrow> u32 \<Rightarrow> 'p option \<Rightarrow> bool) option"

record 'p vmm_host_ram_ctrl =
  ops :: "'p vmm_host_ram_color_ops option"
  ops_priv :: "'p option"
  bank_count :: u32
  banks :: "vmm_host_ram_bank list"

definition used_banks :: "'p vmm_host_ram_ctrl \<Rightarrow> vmm_host_ram_bank list" where
  "used_banks c = take (unat (bank_count c)) (banks c)"

section \<open>Allocation\<close>

definition frame_isset :: "u64 list \<Rightarrow> u32 \<Rightarrow> bool result" where
  "frame_isset bm i = (if i < 0x80000000 then bitmap_isset bm (unat i) else Fault)"

text \<open>The inner loop: the number of clear bits from \<open>i\<close> on, up to the first set bit or to \<open>e\<close>.\<close>

function count_free :: "u64 list \<Rightarrow> u32 \<Rightarrow> u32 \<Rightarrow> u32 result" where
  "count_free bm i e =
     (if i < e
      then bind_result (frame_isset bm i) (\<lambda>b.
             if b then Done 0 else bind_result (count_free bm (i + 1) e) (\<lambda>n. Done (n + 1)))
      else Done 0)"
  by pat_completeness auto
termination
proof (relation "measure (\<lambda>(bm, i, e). unat e - unat i)")
  fix bm :: "u64 list" and i e :: u32 and x
  assume "i < e"
  then have "unat i < unat e" "unat (i + 1) = unat i + 1"
    using unat_bound [of e] by (simp_all add: word_less_nat_alt unat_add_one)
  then show "((bm, i + 1, e), bm, i, e) \<in> measure (\<lambda>(bm, i, e). unat e - unat i)" by simp
qed simp

declare count_free.simps [simp del]

definition frame_addr :: "u64 \<Rightarrow> u32 \<Rightarrow> u64" where
  "frame_addr st bpos = st + ucast bpos * VMM_PAGE_SIZE"

text \<open>
  The search in one bank.  \<open>accept p\<close> is the colour test on the address, true without colour
  operations.
\<close>

partial_function (option) find_frames ::
  "u64 list \<Rightarrow> u64 \<Rightarrow> u64 \<Rightarrow> u32 \<Rightarrow> u32 \<Rightarrow> (u64 \<Rightarrow> bool) \<Rightarrow> u32 \<Rightarrow> u32 option result option" where
  "find_frames bm st sz binc bcnt accept bpos =
     (if (ucast bpos :: u64) < drop_bit (unat VMM_PAGE_SHIFT) sz
      then (case count_free bm bpos (bpos + bcnt) of
              Done bfree \<Rightarrow>
                if bfree \<noteq> bcnt then find_frames bm st sz binc bcnt accept (bpos + binc)
                else if \<not> accept (frame_addr st bpos)
                then find_frames bm st sz binc bcnt accept (bpos + binc)
                else Some (Done (Some bpos))
            | Panic \<Rightarrow> Some Panic
            | Fault \<Rightarrow> Some Fault)
      else Some (Done None))"

declare find_frames.simps [code]

definition first_frame :: "u64 \<Rightarrow> u32 \<Rightarrow> u32" where
  "first_frame st align_order =
     (let bpos = ucast (st AND order_mask align_order) :: u32
      in if bpos \<noteq> 0 then ucast (VMM_SIZE_TO_PAGE (order_size align_order - ucast bpos)) else bpos)"

definition take_frames :: "vmm_host_ram_bank \<Rightarrow> u32 \<Rightarrow> u32 \<Rightarrow> vmm_host_ram_bank result" where
  "take_frames b bpos bcnt =
     bind_result (bitmap_set (bmap b) (unat bpos) (unat bcnt))
       (\<lambda>bm. Done (b\<lparr>bmap := bm, bmap_free := bmap_free b - bcnt\<rparr>))"

text \<open>The loop over the banks: the new banks and the address, or \<open>Done None\<close> when no bank has room.\<close>

fun alloc_banks ::
  "(u64 \<Rightarrow> bool) \<Rightarrow> u32 \<Rightarrow> u32 \<Rightarrow> vmm_host_ram_bank list \<Rightarrow> (vmm_host_ram_bank list \<times> u64) option result option" where
  "alloc_banks accept align_order bcnt [] = Some (Done None)"
| "alloc_banks accept align_order bcnt (b # bs) =
     (let rest = map_option (\<lambda>r. bind_result r (\<lambda>x. Done (map_option (\<lambda>(bs', p). (b # bs', p)) x)))
                   (alloc_banks accept align_order bcnt bs)
      in if bmap_free b < bcnt then rest
         else let binc = ucast (drop_bit (unat VMM_PAGE_SHIFT) (order_size align_order)) :: u32
              in case find_frames (bmap b) (bank_start b) (bank_size b) binc bcnt accept
                        (first_frame (bank_start b) align_order) of
                   None \<Rightarrow> None
                 | Some (Done (Some bpos)) \<Rightarrow>
                     Some (bind_result (take_frames b bpos bcnt)
                             (\<lambda>b'. Done (Some (b' # bs, frame_addr (bank_start b) bpos))))
                 | Some (Done None) \<Rightarrow> rest
                 | Some Panic \<Rightarrow> Some Panic
                 | Some Fault \<Rightarrow> Some Fault)"

text \<open>
  \<^verbatim>\<open>__host_ram_alloc\<close>: the new state, the address stored through \<open>pa\<close> and the returned size.  Without
  success the size is 0 and nothing is stored.
\<close>

definition host_ram_alloc_with ::
  "'p vmm_host_ram_ctrl \<Rightarrow> u64 \<Rightarrow> u32 \<Rightarrow> (u64 \<Rightarrow> u64 \<Rightarrow> bool) \<Rightarrow> ('p vmm_host_ram_ctrl \<times> u64 option \<times> u64) result option" where
  "host_ram_alloc_with c sz align_order cmatch =
     (if sz = 0 \<or> align_order < VMM_PAGE_SHIFT \<or> 64 \<le> align_order then Some (Done (c, None, 0))
      else let sz' = roundup2_order_size sz align_order;
               bcnt = ucast (VMM_SIZE_TO_PAGE sz') :: u32
           in map_option (\<lambda>r. bind_result r (\<lambda>x. case x of
                  None \<Rightarrow> Done (c, None, 0)
                | Some (bs, p) \<Rightarrow> Done (c\<lparr>banks := bs @ drop (unat (bank_count c)) (banks c)\<rparr>, Some p, sz')))
                (alloc_banks (\<lambda>p. cmatch p sz') align_order bcnt (used_banks c)))"

definition default_ops :: "'p vmm_host_ram_color_ops" where
  "default_ops = \<lparr>ops_name = ''default'', num_colors = Some (\<lambda>_. 0xFFFFFFFF), color_order = Some (\<lambda>_. 16),
                  color_match = Some (\<lambda>_ _ _ _. True)\<rparr>"

definition vmm_host_ram_set_color_ops ::
  "'p vmm_host_ram_ctrl \<Rightarrow> 'p vmm_host_ram_color_ops option \<Rightarrow> 'p option \<Rightarrow> 'p vmm_host_ram_ctrl" where
  "vmm_host_ram_set_color_ops c o' priv =
     (case o' of
        None \<Rightarrow> c\<lparr>ops := Some default_ops, ops_priv := None\<rparr>
      | Some op \<Rightarrow>
          (case (num_colors op, color_order op, color_match op) of
             (Some nc, Some co, Some cm) \<Rightarrow>
               if nc priv = 0 \<or> co priv < VMM_PAGE_SHIFT \<or> 64 \<le> co priv then c
               else c\<lparr>ops := Some op, ops_priv := priv\<rparr>
           | _ \<Rightarrow> c))"

text \<open>A call through an operation pointer that is null is a \<open>Fault\<close>.\<close>

definition call_ops ::
  "'p vmm_host_ram_ctrl \<Rightarrow> ('p vmm_host_ram_color_ops \<Rightarrow> 'f option) \<Rightarrow> 'f result" where
  "call_ops c sel = (case ops c of None \<Rightarrow> Fault | Some op \<Rightarrow> (case sel op of None \<Rightarrow> Fault | Some f \<Rightarrow> Done f))"

definition vmm_host_ram_color_ops_name :: "'p vmm_host_ram_ctrl \<Rightarrow> string result" where
  "vmm_host_ram_color_ops_name c = call_ops c (\<lambda>op. Some (ops_name op))"

definition vmm_host_ram_color_count :: "'p vmm_host_ram_ctrl \<Rightarrow> u32 result" where
  "vmm_host_ram_color_count c = bind_result (call_ops c num_colors) (\<lambda>f. Done (f (ops_priv c)))"

definition vmm_host_ram_color_order :: "'p vmm_host_ram_ctrl \<Rightarrow> u32 result" where
  "vmm_host_ram_color_order c = bind_result (call_ops c color_order) (\<lambda>f. Done (f (ops_priv c)))"

definition vmm_host_ram_color_alloc ::
  "'p vmm_host_ram_ctrl \<Rightarrow> u32 \<Rightarrow> ('p vmm_host_ram_ctrl \<times> u64 option \<times> u64) result option" where
  "vmm_host_ram_color_alloc c color =
     (case (vmm_host_ram_color_order c, vmm_host_ram_color_count c) of
        (Done order, Done count) \<Rightarrow>
          if count \<le> color then Some (Done (c, None, 0))
          else (case call_ops c color_match of
                  Done cm \<Rightarrow> host_ram_alloc_with c (push_bit (unat order) 1) order (\<lambda>p sz. cm p sz color (ops_priv c))
                | _ \<Rightarrow> Some Fault)
      | _ \<Rightarrow> Some Fault)"

definition vmm_host_ram_alloc ::
  "'p vmm_host_ram_ctrl \<Rightarrow> u64 \<Rightarrow> u32 \<Rightarrow> ('p vmm_host_ram_ctrl \<times> u64 option \<times> u64) result option" where
  "vmm_host_ram_alloc c sz align_order = host_ram_alloc_with c sz align_order (\<lambda>p s. True)"

section \<open>Reserving and freeing\<close>

fun reserve_banks :: "u64 \<Rightarrow> u64 \<Rightarrow> vmm_host_ram_bank list \<Rightarrow> (vmm_host_ram_bank list \<times> vmm_rc) result" where
  "reserve_banks pa sz [] = Done ([], VMM_EINVALID)"
| "reserve_banks pa sz (b # bs) =
     (if pa < bank_start b \<or> bank_start b + bank_size b < pa + sz
      then bind_result (reserve_banks pa sz bs) (\<lambda>(bs', rc). Done (b # bs', rc))
      else let bpos = ucast (drop_bit (unat VMM_PAGE_SHIFT) (pa - bank_start b)) :: u32;
               bcnt = ucast (VMM_SIZE_TO_PAGE sz) :: u32
           in if bmap_free b < bcnt then Done (b # bs, VMM_ENOSPC)
              else bind_result (count_free (bmap b) bpos (bpos + bcnt)) (\<lambda>bfree.
                     if bfree \<noteq> bcnt then Done (b # bs, VMM_ENOSPC)
                     else bind_result (take_frames b bpos bcnt) (\<lambda>b'. Done (b' # bs, VMM_OK))))"

definition vmm_host_ram_reserve ::
  "'p vmm_host_ram_ctrl \<Rightarrow> u64 \<Rightarrow> u64 \<Rightarrow> ('p vmm_host_ram_ctrl \<times> vmm_rc) result" where
  "vmm_host_ram_reserve c pa sz =
     bind_result (reserve_banks pa sz (used_banks c))
       (\<lambda>(bs, rc). Done (c\<lparr>banks := bs @ drop (unat (bank_count c)) (banks c)\<rparr>, rc))"

definition release_frames :: "vmm_host_ram_bank \<Rightarrow> u32 \<Rightarrow> u32 \<Rightarrow> vmm_host_ram_bank result" where
  "release_frames b bpos bcnt =
     bind_result (bitmap_clear (bmap b) (unat bpos) (unat bcnt))
       (\<lambda>bm. Done (b\<lparr>bmap := bm, bmap_free := bmap_free b + bcnt\<rparr>))"

fun free_banks :: "u64 \<Rightarrow> u64 \<Rightarrow> vmm_host_ram_bank list \<Rightarrow> (vmm_host_ram_bank list \<times> vmm_rc) result" where
  "free_banks pa sz [] = Done ([], VMM_EINVALID)"
| "free_banks pa sz (b # bs) =
     (if pa < bank_start b \<or> bank_start b + bank_size b < pa + sz
      then bind_result (free_banks pa sz bs) (\<lambda>(bs', rc). Done (b # bs', rc))
      else let bpos = ucast (drop_bit (unat VMM_PAGE_SHIFT) (pa - bank_start b)) :: u32;
               bcnt = ucast (VMM_SIZE_TO_PAGE sz) :: u32
           in bind_result (release_frames b bpos bcnt) (\<lambda>b'. Done (b' # bs, VMM_OK)))"

definition vmm_host_ram_free ::
  "'p vmm_host_ram_ctrl \<Rightarrow> u64 \<Rightarrow> u64 \<Rightarrow> ('p vmm_host_ram_ctrl \<times> vmm_rc) result" where
  "vmm_host_ram_free c pa sz =
     bind_result (free_banks pa sz (used_banks c))
       (\<lambda>(bs, rc). Done (c\<lparr>banks := bs @ drop (unat (bank_count c)) (banks c)\<rparr>, rc))"

fun isfree_banks :: "u64 \<Rightarrow> vmm_host_ram_bank list \<Rightarrow> bool result" where
  "isfree_banks pa [] = Done False"
| "isfree_banks pa (b # bs) =
     (if pa < bank_start b \<or> bank_start b + bank_size b \<le> pa then isfree_banks pa bs
      else bind_result (frame_isset (bmap b) (ucast (drop_bit (unat VMM_PAGE_SHIFT) (pa - bank_start b))))
             (\<lambda>s. Done (\<not> s)))"

definition vmm_host_ram_frame_isfree :: "'p vmm_host_ram_ctrl \<Rightarrow> u64 \<Rightarrow> bool result" where
  "vmm_host_ram_frame_isfree c pa = isfree_banks pa (used_banks c)"

section \<open>Totals\<close>

definition vmm_host_ram_total_free_frames :: "'p vmm_host_ram_ctrl \<Rightarrow> u32" where
  "vmm_host_ram_total_free_frames c = fold (\<lambda>b ret. ret + bmap_free b) (used_banks c) 0"

definition vmm_host_ram_total_frame_count :: "'p vmm_host_ram_ctrl \<Rightarrow> u32" where
  "vmm_host_ram_total_frame_count c = fold (\<lambda>b ret. ret + frame_count b) (used_banks c) 0"

definition vmm_host_ram_total_size :: "'p vmm_host_ram_ctrl \<Rightarrow> u64" where
  "vmm_host_ram_total_size c = fold (\<lambda>b ret. ret + bank_size b) (used_banks c) 0"

definition vmm_host_ram_bank_start :: "'p vmm_host_ram_ctrl \<Rightarrow> u32 \<Rightarrow> u64" where
  "vmm_host_ram_bank_start c bank = (if bank < bank_count c then bank_start (banks c ! unat bank) else 0)"

definition vmm_host_ram_bank_size :: "'p vmm_host_ram_ctrl \<Rightarrow> u32 \<Rightarrow> u64" where
  "vmm_host_ram_bank_size c bank = (if bank < bank_count c then bank_size (banks c ! unat bank) else 0)"

definition vmm_host_ram_bank_frame_count :: "'p vmm_host_ram_ctrl \<Rightarrow> u32 \<Rightarrow> u32" where
  "vmm_host_ram_bank_frame_count c bank = (if bank < bank_count c then frame_count (banks c ! unat bank) else 0)"

definition vmm_host_ram_bank_free_frames :: "'p vmm_host_ram_ctrl \<Rightarrow> u32 \<Rightarrow> u32" where
  "vmm_host_ram_bank_free_frames c bank = (if bank \<ge> bank_count c then 0 else bmap_free (banks c ! unat bank))"

section \<open>Start-up\<close>

text \<open>
  The device tree of the board is not under \<^verbatim>\<open>src/core\<close>: \<open>dt_count\<close>, \<open>dt_start n\<close> and \<open>dt_size n\<close> are what the
  architecture reports, an error code or a value.  \<open>maxb\<close> is \<^verbatim>\<open>CONFIG_MAX_RAM_BANK_COUNT\<close>.
\<close>

text \<open>The argument is an \<open>int\<close> in the source, so the model is for sizes below \<open>2\<^sup>3\<^sup>1\<close> frames.\<close>

definition bitmap_estimate_size :: "nat \<Rightarrow> nat" where
  "bitmap_estimate_size nbits = BITS_TO_LONGS TYPE(64) nbits * 8"

fun estimate_from :: "(u32 \<Rightarrow> vmm_rc + u64) \<Rightarrow> nat \<Rightarrow> u32 \<Rightarrow> u64 \<Rightarrow> u64" where
  "estimate_from dt_size 0 bn ret = ret"
| "estimate_from dt_size (Suc n) bn ret =
     (case dt_size bn of
        Inl rc \<Rightarrow> ret
      | Inr sz \<Rightarrow> estimate_from dt_size n (bn + 1)
          (ret + of_nat (bitmap_estimate_size (unat (drop_bit (unat VMM_PAGE_SHIFT) sz)))))"

definition vmm_host_ram_estimate_hksize :: "u32 \<Rightarrow> vmm_rc + u32 \<Rightarrow> (u32 \<Rightarrow> vmm_rc + u64) \<Rightarrow> u64" where
  "vmm_host_ram_estimate_hksize maxb dt_count dt_size =
     (case dt_count of
        Inl rc \<Rightarrow> 0
      | Inr count \<Rightarrow> if count = 0 \<or> count > maxb then 0 else estimate_from dt_size (unat count) 0 0)"

text \<open>
  The loop of the initialisation over the banks: the banks set up so far, the host memory resource and
  the return code.  \<open>old bn\<close> is the content of the memory where the bitmap of bank \<open>bn\<close> is placed.
\<close>

fun init_banks ::
  "(u32 \<Rightarrow> vmm_rc + u64) \<Rightarrow> (u32 \<Rightarrow> vmm_rc + u64) \<Rightarrow> (u32 \<Rightarrow> u64 list) \<Rightarrow> nat \<Rightarrow> u32 \<Rightarrow> resource
     \<Rightarrow> vmm_host_ram_bank list \<times> resource \<times> vmm_rc" where
  "init_banks dt_start dt_size old 0 bn hostmem = ([], hostmem, VMM_OK)"
| "init_banks dt_start dt_size old (Suc n) bn hostmem =
     (case dt_start bn of
        Inl rc \<Rightarrow> ([], hostmem, rc)
      | Inr st \<Rightarrow>
          if st AND VMM_PAGE_MASK \<noteq> 0 then ([], hostmem, VMM_EINVALID)
          else case dt_size bn of
            Inl rc \<Rightarrow> ([], hostmem, rc)
          | Inr sz \<Rightarrow>
              if sz AND VMM_PAGE_MASK \<noteq> 0 then ([], hostmem, VMM_EINVALID)
              else
                let fc = ucast (drop_bit (unat VMM_PAGE_SHIFT) sz) :: u32;
                    b = \<lparr>bank_start = st, bank_size = sz, frame_count = fc,
                         bmap = bitmap_zero (old bn) (unat fc),
                         bmap_sz = of_nat (bitmap_estimate_size (unat fc)), bmap_free = fc\<rparr>;
                    res = Resource (unat bn + 1) st (st + sz - 1) ''System RAM''
                            (VMM_IORESOURCE_MEM OR VMM_IORESOURCE_BUSY) []
                in case vmm_request_resource hostmem res of
                     (hostmem', rc) \<Rightarrow>
                       if rc \<noteq> VMM_OK then ([b], hostmem', rc)
                       else case init_banks dt_start dt_size old n (bn + 1) hostmem' of
                              (bs, hm, rc') \<Rightarrow> (b # bs, hm, rc'))"

definition zero_bank :: vmm_host_ram_bank where
  "zero_bank = \<lparr>bank_start = 0, bank_size = 0, frame_count = 0, bmap = [], bmap_sz = 0, bmap_free = 0\<rparr>"

definition vmm_host_ram_init ::
  "u32 \<Rightarrow> vmm_rc + u32 \<Rightarrow> (u32 \<Rightarrow> vmm_rc + u64) \<Rightarrow> (u32 \<Rightarrow> vmm_rc + u64) \<Rightarrow> (u32 \<Rightarrow> u64 list) \<Rightarrow> resource
     \<Rightarrow> 'p vmm_host_ram_ctrl \<times> resource \<times> vmm_rc" where
  "vmm_host_ram_init maxb dt_count dt_start dt_size old hostmem =
     (let c = \<lparr>ops = Some default_ops, ops_priv = None, bank_count = 0, banks = replicate (unat maxb) zero_bank\<rparr>
      in case dt_count of
           Inl rc \<Rightarrow> (c, hostmem, rc)
         | Inr n \<Rightarrow>
             let c1 = c\<lparr>bank_count := n\<rparr>
             in if n = 0 then (c1, hostmem, VMM_ENODEV)
                else if n > maxb then (c1, hostmem, VMM_EINVALID)
                else case init_banks dt_start dt_size old (unat n) 0 hostmem of
                       (bs, hm, rc) \<Rightarrow> (c1\<lparr>banks := bs @ drop (length bs) (banks c1)\<rparr>, hm, rc))"

section \<open>Lemmas: counting and taking frames\<close>

definition bits_free :: "u64 list \<Rightarrow> nat \<Rightarrow> nat \<Rightarrow> bool" where
  "bits_free bm p n \<longleftrightarrow> list_all (\<lambda>i. \<not> bbit bm i) [p..<p + n]"

lemma bits_free_iff: "bits_free bm p n \<longleftrightarrow> (\<forall>i. p \<le> i \<and> i < p + n \<longrightarrow> \<not> bbit bm i)"
  by (auto simp: bits_free_def list_all_iff)

lemma frame_isset_Done:
  "frame_isset bm i = Done b \<longleftrightarrow> unat i < 2 ^ 31 \<and> unat i div 64 < length bm \<and> b = bbit bm (unat i)"
  by (auto simp: frame_isset_def bitmap_isset_eq word_less_nat_alt)

lemma less_succ: "i < e \<Longrightarrow> unat (i + 1) = unat i + 1 \<and> i + 1 \<le> e" for i e :: u32
  using unat_bound [of e] by (simp add: word_less_nat_alt word_le_nat_alt unat_add_one)

lemma count_free_Done:
  "count_free bm i e = Done n \<Longrightarrow> i \<le> e \<Longrightarrow>
     unat i + unat n \<le> unat e \<and> (\<forall>j. unat i \<le> j \<and> j < unat i + unat n \<longrightarrow> j div 64 < length bm \<and> \<not> bbit bm j)
     \<and> (unat i + unat n < unat e \<longrightarrow> bbit bm (unat i + unat n))"
proof (induction bm i e arbitrary: n rule: count_free.induct)
  case (1 bm i e)
  show ?case
  proof (cases "i < e")
    case False
    then have "count_free bm i e = Done 0" by (subst count_free.simps) (simp only: if_False)
    then show ?thesis using "1.prems" False by (auto simp: word_le_nat_alt word_less_nat_alt)
  next
    case True
    note l = less_succ [OF True]
    from "1.prems"(1) True obtain b where b: "frame_isset bm i = Done b"
      "(if b then Done 0 else bind_result (count_free bm (i + 1) e) (\<lambda>n. Done (n + 1))) = Done n"
      by (subst (asm) count_free.simps) auto
    show ?thesis
    proof (cases b)
      case True
      then show ?thesis using b \<open>i < e\<close> by (auto simp: frame_isset_Done word_less_nat_alt)
    next
      case False
      then obtain m where m: "count_free bm (i + 1) e = Done m" "n = m + 1" using b(2) by auto
      have ih: "unat i + 1 + unat m \<le> unat e"
        "\<And>j. unat i + 1 \<le> j \<Longrightarrow> j < unat i + 1 + unat m \<Longrightarrow> j div 64 < length bm \<and> \<not> bbit bm j"
        "unat i + 1 + unat m < unat e \<Longrightarrow> bbit bm (unat i + 1 + unat m)"
        using "1.IH" [OF True b(1) False m(1)] l by (auto simp: add.commute)
      have "unat n = unat m + 1"
        unfolding m(2) using ih(1) unat_bound [of e] by (intro unat_add_one) simp
      moreover have "unat i div 64 < length bm" "\<not> bbit bm (unat i)"
        using b(1) False by (simp_all add: frame_isset_Done)
      moreover have "j = unat i \<or> unat i + 1 \<le> j \<and> j < unat i + 1 + unat m"
        if "unat i \<le> j \<and> j < unat i + (unat m + 1)" for j using that by linarith
      ultimately show ?thesis using ih by auto
    qed
  qed
qed

lemma count_free_all:
  assumes "count_free bm i (i + n) = Done n"
  shows "unat i + unat n < 2 ^ 32 \<and> bits_free bm (unat i) (unat n) \<and> (n \<noteq> 0 \<longrightarrow> covers bm (unat i + unat n))"
proof (cases "n = 0")
  case True
  then show ?thesis using unat_bound [of i] by (simp add: bits_free_def)
next
  case False
  have le: "i \<le> i + n"
  proof (rule ccontr)
    assume "\<not> i \<le> i + n"
    then have "\<not> i < i + n" by (meson less_imp_le)
    then have "count_free bm i (i + n) = Done 0" by (subst count_free.simps) (simp only: if_False)
    then show False using assms False by simp
  qed
  have d: "unat i + unat n \<le> unat (i + n)"
    "\<And>j. unat i \<le> j \<Longrightarrow> j < unat i + unat n \<Longrightarrow> j div 64 < length bm \<and> \<not> bbit bm j"
    using count_free_Done [OF assms le] by blast+
  have "1 \<le> unat n" using False by (rule unat_pos)
  then have "(unat i + unat n - 1) div 64 < length bm" using d(2) [of "unat i + unat n - 1"] by simp
  then have "unat i + unat n - 1 < length bm * 64" by (simp add: div_less_iff_less_mult)
  then show ?thesis using d unat_bound [of "i + n"] by (auto simp: bits_free_iff covers_def)
qed

definition bits_set_to :: "u64 list \<Rightarrow> u64 list \<Rightarrow> nat \<Rightarrow> nat \<Rightarrow> bool" where
  "bits_set_to bm bm' p n \<longleftrightarrow> length bm' = length bm
     \<and> list_all (\<lambda>j. bbit bm' j = (p \<le> j \<and> j < p + n \<or> bbit bm j)) [0..<length bm * 64]"

lemma bits_set_to_iff: "bits_set_to bm bm' p n \<longleftrightarrow> length bm' = length bm
    \<and> (\<forall>j. j div 64 < length bm \<longrightarrow> bbit bm' j = (p \<le> j \<and> j < p + n \<or> bbit bm j))"
  by (auto simp: bits_set_to_def list_all_iff div_less_iff_less_mult)

lemma take_frames_Done:
  assumes "n \<noteq> 0 \<longrightarrow> covers (bmap b) (unat p + unat n)"
  shows "\<exists>bm'. take_frames b p n = Done (b\<lparr>bmap := bm', bmap_free := bmap_free b - n\<rparr>)
     \<and> bits_set_to (bmap b) bm' (unat p) (unat n)"
proof (cases "n = 0")
  case True
  then show ?thesis by (intro exI [of _ "bmap b"]) (auto simp: take_frames_def bits_set_to_iff)
next
  case False
  then obtain bm' where "bitmap_set (bmap b) (unat p) (unat n) = Done bm'" "length bm' = length (bmap b)"
    "\<forall>i. i div 64 < length (bmap b) \<longrightarrow> bbit bm' i = (i \<in> {unat p..<unat p + unat n} \<or> bbit (bmap b) i)"
    using bitmap_set_ok [of "bmap b" "unat p" "unat n"] assms by auto
  then show ?thesis by (auto simp: take_frames_def bits_set_to_iff)
qed

definition stepped :: "u32 \<Rightarrow> u32 \<Rightarrow> u32 \<Rightarrow> bool" where
  "stepped bpos binc p \<longleftrightarrow> (\<exists>k. p = bpos + of_nat k * binc)"

lemma stepped_refl [simp]: "stepped bpos binc bpos"
  unfolding stepped_def by (rule exI [of _ 0]) simp

lemma stepped_step:
  assumes "stepped (bpos + binc) binc p"
  shows "stepped bpos binc p"
proof -
  obtain k where "p = bpos + binc + of_nat k * binc" using assms by (auto simp: stepped_def)
  then have "p = bpos + of_nat (Suc k) * binc" by (simp add: distrib_right)
  then show ?thesis unfolding stepped_def by blast
qed

lemma find_frames_Some:
  assumes "find_frames bm st sz binc bcnt accept bpos = Some (Done (Some p))"
  shows "count_free bm p (p + bcnt) = Done bcnt \<and> accept (frame_addr st p)
     \<and> (ucast p :: u64) < drop_bit (unat VMM_PAGE_SHIFT) sz \<and> stepped bpos binc p"
proof -
  have "r = Done (Some p) \<longrightarrow> count_free bm p (p + bcnt) = Done bcnt \<and> accept (frame_addr st p)
     \<and> (ucast p :: u64) < drop_bit (unat VMM_PAGE_SHIFT) sz \<and> stepped bpos binc p"
    if "find_frames bm st sz binc bcnt accept bpos = Some r" for r
  proof (rule find_frames.raw_induct [OF _ that], goal_cases)
    case (1 rec bm st sz binc bcnt accept bpos r)
    show ?case using 1(2) by (auto split: if_splits result.splits dest!: 1(1) intro: stepped_step)
  qed
  then show ?thesis using assms by blast
qed

definition frames :: "vmm_host_ram_bank \<Rightarrow> nat" where
  "frames b = unat (bank_size b) div 4096"

lemma frames_update [simp]: "frames (b\<lparr>bmap := bm\<rparr>) = frames b" "frames (b\<lparr>bmap_free := f\<rparr>) = frames b"
  by (simp_all add: frames_def)

lemma page_shift [simp]: "unat VMM_PAGE_SHIFT = 12" by (simp add: VMM_PAGE_SHIFT_def)

lemma order_size_exp: "order_size k = 2 ^ unat k" by (simp add: order_size_def push_bit_of_1)

lemma order_mask_mask: "order_mask k = mask (unat k)"
  by (simp add: order_mask_def order_size_exp exp_minus_1)

lemma page_size_eq: "VMM_PAGE_SIZE = 4096"
  by (simp add: VMM_PAGE_SIZE_def order_size_exp)

text \<open>What a successful search and update does to the one bank that is chosen.\<close>

definition frames_taken :: "vmm_host_ram_bank \<Rightarrow> u32 \<Rightarrow> u32 \<Rightarrow> vmm_host_ram_bank \<Rightarrow> bool" where
  "frames_taken b p n b' \<longleftrightarrow>
     b' = b\<lparr>bmap := bmap b', bmap_free := bmap_free b - n\<rparr> \<and> n \<le> bmap_free b
     \<and> unat p + unat n < 2 ^ 32 \<and> bits_free (bmap b) (unat p) (unat n)
     \<and> bits_set_to (bmap b) (bmap b') (unat p) (unat n) \<and> (n \<noteq> 0 \<longrightarrow> covers (bmap b) (unat p + unat n))"

lemma take_frames_taken:
  assumes "count_free (bmap b) p (p + n) = Done n" and "n \<le> bmap_free b"
  shows "\<exists>b'. take_frames b p n = Done b' \<and> frames_taken b p n b'"
  using take_frames_Done [of n b p] count_free_all [OF assms(1)] assms(2) by (auto simp: frames_taken_def)

lemma alloc_banks_Some:
  assumes "alloc_banks accept ao n bs = Some (Done (Some (bs', pa)))"
  shows "\<exists>i p b'. i < length bs \<and> bs' = bs[i := b'] \<and> frames_taken (bs ! i) p n b'
     \<and> pa = frame_addr (bank_start (bs ! i)) p \<and> accept pa \<and> unat p < frames (bs ! i)
     \<and> stepped (first_frame (bank_start (bs ! i)) ao) (ucast (drop_bit 12 (order_size ao))) p"
  using assms
proof (induction bs arbitrary: bs')
  case (Cons b bs)
  let ?binc = "ucast (drop_bit 12 (order_size ao)) :: u32"
  let ?ff = "find_frames (bmap b) (bank_start b) (bank_size b) ?binc n accept (first_frame (bank_start b) ao)"
  let ?rest = "map_option (\<lambda>r. bind_result r (\<lambda>x. Done (map_option (\<lambda>(bs', p). (b # bs', p)) x))) (alloc_banks accept ao n bs)"
  consider (here) p where "\<not> bmap_free b < n" "?ff = Some (Done (Some p))" | (rest) "?rest = Some (Done (Some (bs', pa)))"
    using Cons.prems by (auto simp: Let_def split: if_splits option.splits result.splits)
  then show ?case
  proof cases
    case here
    note f = find_frames_Some [OF here(2)]
    obtain b' where b': "take_frames b p n = Done b'" "frames_taken b p n b'"
      using take_frames_taken [of b p n] f here(1) not_less by blast
    have "unat p < frames b" using f
      by (simp add: frames_def word_less_nat_alt unat_drop_bit unat_ucast_up)
    moreover have "bs' = b' # bs" "pa = frame_addr (bank_start b) p"
      using Cons.prems here b'(1) by (simp_all add: Let_def)
    ultimately show ?thesis
      using b' f by (intro exI [of _ 0] exI [of _ p] exI [of _ b']) auto
  next
    case rest
    then obtain bs2 where b2: "alloc_banks accept ao n bs = Some (Done (Some (bs2, pa)))" "bs' = b # bs2"
      by (auto simp: map_option_eq_Some)
    from Cons.IH [OF b2(1)] obtain i p b' where "i < length bs \<and> bs2 = bs[i := b'] \<and> frames_taken (bs ! i) p n b'
     \<and> pa = frame_addr (bank_start (bs ! i)) p \<and> accept pa \<and> unat p < frames (bs ! i) \<and> stepped (first_frame (bank_start (bs ! i)) ao) (ucast (drop_bit 12 (order_size ao))) p"
      by blast
    then show ?thesis using b2(2) by (intro exI [of _ "Suc i"] exI [of _ p] exI [of _ b']) auto
  qed
qed simp

section \<open>Well-formed banks\<close>

definition free_cnt :: "vmm_host_ram_bank \<Rightarrow> nat" where
  "free_cnt b = length (filter (\<lambda>i. \<not> bbit (bmap b) i) [0..<frames b])"

definition bank_wf :: "vmm_host_ram_bank \<Rightarrow> bool" where
  "bank_wf b \<longleftrightarrow> 4096 dvd unat (bank_start b) \<and> 4096 dvd unat (bank_size b)
     \<and> unat (bank_start b) + unat (bank_size b) \<le> 2 ^ 64 \<and> frames b < 2 ^ 31
     \<and> unat (frame_count b) = frames b \<and> length (bmap b) = BITS_TO_LONGS TYPE(64) (frames b)
     \<and> unat (bmap_free b) = free_cnt b"

text \<open>The bitmap has no clear bit past the last frame, as when the number of frames is a multiple of the word size.\<close>

definition bank_tight :: "vmm_host_ram_bank \<Rightarrow> bool" where
  "bank_tight b \<longleftrightarrow> list_all (bbit (bmap b)) [frames b..<64 * length (bmap b)]"

lemma bank_tight_mult: "bank_wf b \<Longrightarrow> 64 dvd frames b \<Longrightarrow> bank_tight b"
  by (auto simp: bank_tight_def bank_wf_def BITS_TO_LONGS_def elim!: dvdE)

lemma frames_taken_end:
  assumes wf: "bank_wf b" and t: "frames_taken b p n b'" and p: "unat p < frames b"
  shows "unat p + unat n < frames b + 64" "bank_tight b \<Longrightarrow> unat p + unat n \<le> frames b"
proof -
  have l: "64 * length (bmap b) < frames b + 64" using wf by (simp add: bank_wf_def BITS_TO_LONGS_def)
  have c: "unat p + unat n \<le> 64 * length (bmap b)" if "n \<noteq> 0" using t that by (simp add: frames_taken_def covers_def mult.commute)
  show "unat p + unat n < frames b + 64" using c l p by (cases "n = 0") auto
  show "unat p + unat n \<le> frames b" if "bank_tight b"
  proof (rule ccontr)
    assume a: "\<not> unat p + unat n \<le> frames b"
    then have "n \<noteq> 0" using p by auto
    from c [OF this] a have "unat p + unat n - 1 \<in> {frames b..<64 * length (bmap b)}" by auto
    then have "bbit (bmap b) (unat p + unat n - 1)" using that by (simp add: bank_tight_def list_all_iff)
    moreover have "\<not> bbit (bmap b) (unat p + unat n - 1)" using t a p by (auto simp: frames_taken_def bits_free_iff)
    ultimately show False by blast
  qed
qed

definition ram_wf :: "'p vmm_host_ram_ctrl \<Rightarrow> bool" where
  "ram_wf c \<longleftrightarrow> unat (bank_count c) \<le> length (banks c) \<and> list_all bank_wf (used_banks c)"

lemma ram_wf_nth: "ram_wf c \<Longrightarrow> i < unat (bank_count c) \<Longrightarrow> bank_wf (banks c ! i)"
  by (simp add: ram_wf_def used_banks_def list_all_length)

lemma free_cnt_card: "free_cnt b = card {i. i < frames b \<and> \<not> bbit (bmap b) i}"
proof -
  have "free_cnt b = card (set (filter (\<lambda>i. \<not> bbit (bmap b) i) [0..<frames b]))"
    unfolding free_cnt_def by (subst distinct_card) simp_all
  also have "set (filter (\<lambda>i. \<not> bbit (bmap b) i) [0..<frames b]) = {i. i < frames b \<and> \<not> bbit (bmap b) i}" by auto
  finally show ?thesis .
qed

lemma longs_cover: "n \<le> BITS_TO_LONGS TYPE(64) n * 64"
proof -
  have "n + 63 < (n + 63) div 64 * 64 + 64" using div_mult_mod_eq [of "n + 63" 64] mod_less_divisor [of 64 "n + 63"] by linarith
  then show ?thesis by (simp add: BITS_TO_LONGS_def)
qed

lemma wf_covers: "bank_wf b \<Longrightarrow> covers (bmap b) (frames b)"
  using longs_cover [of "frames b"] by (simp add: bank_wf_def covers_def)

lemma wf_word: "bank_wf b \<Longrightarrow> i < frames b \<Longrightarrow> i div 64 < length (bmap b)"
  using covers_word [OF wf_covers, of b i] by simp

lemma free_cnt_taken:
  assumes "bank_wf b" and "bits_free (bmap b) p n" and "p + n \<le> frames b"
    and "bits_set_to (bmap b) bm' p n" and "b' = b\<lparr>bmap := bm', bmap_free := f\<rparr>"
  shows "free_cnt b' = free_cnt b - n \<and> n \<le> free_cnt b"
proof -
  let ?F = "{i. i < frames b \<and> \<not> bbit (bmap b) i}"
  have sub: "{p..<p + n} \<subseteq> ?F" using assms(2,3) by (auto simp: bits_free_iff)
  have fr: "frames b' = frames b" using assms(5) by (simp add: frames_def)
  have "{i. i < frames b' \<and> \<not> bbit (bmap b') i} = ?F - {p..<p + n}"
    using assms(4,5) wf_word [OF assms(1)] by (auto simp: fr bits_set_to_iff)
  then have "free_cnt b' = card (?F - {p..<p + n})" by (simp only: free_cnt_card)
  also have "\<dots> = free_cnt b - n" using sub by (simp add: card_Diff_subset free_cnt_card)
  finally show ?thesis using card_mono [OF _ sub] by (simp add: free_cnt_card)
qed

lemma frames_taken_wf:
  assumes "bank_wf b" and "frames_taken b p n b'" and "unat p + unat n \<le> frames b"
  shows "bank_wf b'"
proof -
  have b': "b' = b\<lparr>bmap := bmap b', bmap_free := bmap_free b - n\<rparr>" "n \<le> bmap_free b"
    and s: "bits_free (bmap b) (unat p) (unat n)" "bits_set_to (bmap b) (bmap b') (unat p) (unat n)"
    using assms(2) by (simp_all add: frames_taken_def)
  have "unat (bmap_free b') = unat (bmap_free b) - unat n"
    by (subst b'(1)) (simp add: unat_sub b'(2))
  moreover have "free_cnt b' = free_cnt b - unat n" using free_cnt_taken [OF assms(1) s(1) assms(3) s(2) b'(1)] by simp
  moreover have "bank_start b' = bank_start b" "bank_size b' = bank_size b" "frame_count b' = frame_count b"
    by (subst b'(1), simp)+
  moreover have "length (bmap b') = length (bmap b)" using s(2) by (simp add: bits_set_to_iff)
  ultimately show ?thesis using assms(1) by (simp add: bank_wf_def frames_def)
qed

section \<open>Sizes and alignment\<close>

lemma roundup_spec:
  assumes "unat ao < 64" and "unat sz + 2 ^ unat ao \<le> 2 ^ 64"
  shows "2 ^ unat ao dvd unat (roundup2_order_size sz ao)" "unat sz \<le> unat (roundup2_order_size sz ao)"
    "unat (roundup2_order_size sz ao) < unat sz + 2 ^ unat ao"
proof -
  let ?m = "2 ^ unat ao :: nat"
  have z: "(sz AND order_mask ao = 0) = (unat sz mod ?m = 0)"
    by (metis order_mask_mask unat_and_mask unat_eq_0)
  have p: "0 < ?m" by simp
  show "?m dvd unat (roundup2_order_size sz ao)" "unat sz \<le> unat (roundup2_order_size sz ao)"
    "unat (roundup2_order_size sz ao) < unat sz + ?m"
  proof -
    have al: "unat (order_align sz ao) = unat sz div ?m * ?m"
      by (simp add: order_align_def order_mask_mask unat_and_not_mask)
    have os: "unat (order_size ao) = ?m" using assms(1) by (simp add: order_size_exp unat_exp)
    have d: "unat sz = unat sz div ?m * ?m + unat sz mod ?m" by (rule div_mult_mod_eq [symmetric])
    have lt: "unat sz mod ?m < ?m" using p by (rule mod_less_divisor)
    have up: "unat (roundup2_order_size sz ao) = unat sz div ?m * ?m + ?m" if "unat sz mod ?m \<noteq> 0"
    proof -
      have "unat sz div ?m * ?m + ?m < 2 ^ 64" using that d assms(2) by linarith
      then show ?thesis using that z by (simp add: roundup2_order_size_def unat_add_no_wrap al os)
    qed
    have eq: "unat (roundup2_order_size sz ao) = unat sz" if "unat sz mod ?m = 0"
      using that z by (simp add: roundup2_order_size_def)
    show "?m dvd unat (roundup2_order_size sz ao)" using up eq by (cases "unat sz mod ?m = 0") auto
    show "unat sz \<le> unat (roundup2_order_size sz ao)" using up eq d lt by (cases "unat sz mod ?m = 0") linarith+
    show "unat (roundup2_order_size sz ao) < unat sz + ?m"
      using up eq d lt p by (cases "unat sz mod ?m = 0") linarith+
  qed
qed

lemma size_to_page_exact:
  assumes "4096 dvd unat x"
  shows "unat (VMM_SIZE_TO_PAGE x) = unat x div 4096"
proof -
  have "unat (x AND mask 12) = 0" using assms by (simp add: unat_and_mask)
  then have "x AND order_mask VMM_PAGE_SHIFT = 0" by (simp add: order_mask_mask unat_eq_0)
  then show ?thesis by (simp add: VMM_SIZE_TO_PAGE_def size_to_order_def unat_drop_bit)
qed

lemma first_frame_aligned:
  assumes "12 \<le> unat ao" and "unat ao \<le> 32" and "4096 dvd unat st"
  shows "2 ^ unat ao dvd unat st + 4096 * unat (first_frame st ao)"
proof -
  let ?m = "2 ^ unat ao :: nat"
  have r: "unat (st AND order_mask ao) = unat st mod ?m" by (simp add: order_mask_mask unat_and_mask)
  have mle: "?m \<le> 2 ^ 32" using assms(2) by (intro power_increasing) simp_all
  have rl: "unat st mod ?m < ?m" by simp
  have c: "unat (ucast (st AND order_mask ao) :: u32) = unat st mod ?m"
    unfolding unat_ucast_mod r using less_le_trans [OF rl mle] by simp
  have pd: "4096 dvd ?m" using assms(1) le_imp_power_dvd [of 12 "unat ao" "2::nat"] by simp
  have os: "unat (order_size ao) = ?m" using assms(2) by (simp add: order_size_exp unat_exp)
  show ?thesis
  proof (cases "unat st mod ?m = 0")
    case True
    then have "first_frame st ao = 0" using c by (simp add: first_frame_def Let_def unat_eq_0)
    then show ?thesis using True by (simp add: mod_eq_0_iff_dvd)
  next
    case False
    let ?r = "unat st mod ?m"
    let ?d = "order_size ao - ucast (ucast (st AND order_mask ao) :: u32)"
    have uc: "unat (ucast (ucast (st AND order_mask ao) :: u32) :: u64) = ?r" by (simp add: unat_ucast_up c)
    have "unat ?d = ?m - ?r" using rl by (subst unat_sub) (simp_all add: word_le_nat_alt uc os)
    moreover have "4096 dvd ?r" using assms(3) pd by (rule dvd_mod)
    moreover from this have "4096 dvd ?m - ?r" using pd by (rule dvd_diff_nat [rotated])
    ultimately have "unat (VMM_SIZE_TO_PAGE ?d) = (?m - ?r) div 4096" "4096 dvd ?m - ?r"
      using size_to_page_exact [of ?d] by simp_all
    moreover have "(?m - ?r) div 4096 < 2 ^ 32" using mle by (intro le_less_trans [OF div_le_dividend]) (use False rl in linarith)
    moreover have "ucast (st AND order_mask ao) \<noteq> (0::u32)" using False c by (metis unat_0)
    ultimately have "4096 * unat (first_frame st ao) = ?m - ?r"
      by (simp add: first_frame_def Let_def unat_ucast_mod)
    then have "unat st + 4096 * unat (first_frame st ao) = unat st div ?m * ?m + ?m"
      using rl div_mult_mod_eq [of "unat st" ?m] by linarith
    then show ?thesis by simp
  qed
qed

lemma stepped_mod:
  assumes "stepped a binc p" and "unat binc = q" and "q dvd 2 ^ 32"
  shows "unat p mod q = unat a mod q"
proof -
  obtain k where k: "p = a + of_nat k * binc" using assms(1) by (auto simp: stepped_def)
  have "unat p = (unat a + unat (of_nat k * binc :: u32)) mod 2 ^ 32" unfolding k by (simp add: unat_word_ariths)
  moreover have "unat (of_nat k * binc :: u32) = (unat (of_nat k :: u32) * q) mod 2 ^ 32"
    using assms(2) by (simp add: unat_word_ariths)
  ultimately have "unat p mod q = (unat a + (unat (of_nat k :: u32) * q) mod 2 ^ 32) mod q"
    using assms(3) by (simp only: mod_mod_cancel)
  also have "\<dots> = (unat a + unat (of_nat k :: u32) * q) mod q"
    by (metis assms(3) mod_add_right_eq mod_mod_cancel)
  finally show ?thesis by simp
qed

lemma frame_addr_unat:
  assumes "bank_wf b" and "unat p < frames b"
  shows "unat (frame_addr (bank_start b) p) = unat (bank_start b) + 4096 * unat p"
proof -
  have "4096 * unat p < unat (bank_size b)"
    using assms(2) by (simp add: frames_def less_eq_div_iff_mult_less_eq [symmetric] div_less_iff_less_mult)
  then have "unat (bank_start b) + 4096 * unat p < 2 ^ 64" using assms(1) by (simp add: bank_wf_def)
  moreover from this have "unat (ucast p * 4096 :: u64) = 4096 * unat p"
    by (subst unat_mult_no_wrap) (simp_all add: unat_ucast_up)
  ultimately show ?thesis by (simp add: frame_addr_def page_size_eq unat_add_no_wrap)
qed

lemma addr_aligned:
  assumes "bank_wf b" "unat p < frames b" "12 \<le> unat ao" "unat ao \<le> 32"
    and "stepped (first_frame (bank_start b) ao) (ucast (drop_bit 12 (order_size ao))) p"
  shows "2 ^ unat ao dvd unat (frame_addr (bank_start b) p)"
proof -
  let ?q = "2 ^ (unat ao - 12) :: nat" let ?f = "first_frame (bank_start b) ao"
  have "unat (order_size ao) = 2 ^ unat ao" using assms(4) by (simp add: order_size_exp unat_exp)
  then have "unat (drop_bit 12 (order_size ao)) = ?q"
    using assms(3) by (simp add: unat_drop_bit power_diff)
  moreover have "?q < 2 ^ 32" using assms(4) by (intro power_strict_increasing) simp_all
  ultimately have bi: "unat (ucast (drop_bit 12 (order_size ao)) :: u32) = ?q" by (simp add: unat_ucast_mod)
  have "?q dvd 2 ^ 32" using assms(4) by (intro le_imp_power_dvd) simp
  from stepped_mod [OF assms(5) bi this] have "unat p mod ?q = unat ?f mod ?q" .
  then have "(4096 * unat p) mod (4096 * ?q) = (4096 * unat ?f) mod (4096 * ?q)" by (simp add: mult_mod_right [symmetric])
  moreover have "4096 * ?q = 2 ^ unat ao" using assms(3) power_add [of "2::nat" 12 "unat ao - 12"] by simp
  ultimately have "(4096 * unat p) mod 2 ^ unat ao = (4096 * unat ?f) mod 2 ^ unat ao" by simp
  then have "(unat (bank_start b) + 4096 * unat p) mod 2 ^ unat ao = (unat (bank_start b) + 4096 * unat ?f) mod 2 ^ unat ao"
    by (metis mod_add_right_eq)
  then show ?thesis using first_frame_aligned [OF assms(3,4), of "bank_start b"] assms(1)
    by (simp add: frame_addr_unat [OF assms(1,2)] bank_wf_def mod_eq_0_iff_dvd [symmetric])
qed

section \<open>What an allocation returns\<close>

lemma host_ram_alloc_Some:
  assumes "host_ram_alloc_with c sz ao cmatch = Some (Done (c', Some pa, sz'))"
    and "unat (bank_count c) \<le> length (banks c)"
  shows "12 \<le> unat ao \<and> unat ao < 64 \<and> sz' = roundup2_order_size sz ao
    \<and> (\<exists>i p b'. i < unat (bank_count c) \<and> c' = c\<lparr>banks := (banks c)[i := b']\<rparr>
        \<and> frames_taken (banks c ! i) p (ucast (VMM_SIZE_TO_PAGE sz')) b'
        \<and> pa = frame_addr (bank_start (banks c ! i)) p \<and> cmatch pa sz' \<and> unat p < frames (banks c ! i)
        \<and> stepped (first_frame (bank_start (banks c ! i)) ao) (ucast (drop_bit 12 (order_size ao))) p)"
proof -
  let ?sz = "roundup2_order_size sz ao"
  have g: "\<not> (sz = 0 \<or> ao < VMM_PAGE_SHIFT \<or> 64 \<le> ao)"
    using assms(1) by (auto simp: host_ram_alloc_with_def)
  then have ao: "12 \<le> unat ao" "unat ao < 64"
    by (auto simp: VMM_PAGE_SHIFT_def word_less_nat_alt word_le_nat_alt)
  obtain bs where bs: "alloc_banks (\<lambda>p. cmatch p ?sz) ao (ucast (VMM_SIZE_TO_PAGE ?sz)) (used_banks c)
      = Some (Done (Some (bs, pa)))"
    "c' = c\<lparr>banks := bs @ drop (unat (bank_count c)) (banks c)\<rparr>" "sz' = ?sz"
    using assms(1) g by (auto simp: host_ram_alloc_with_def Let_def split: option.splits)
  obtain i p b' where i: "i < length (used_banks c)" "bs = (used_banks c)[i := b']"
    "frames_taken (used_banks c ! i) p (ucast (VMM_SIZE_TO_PAGE ?sz)) b'"
    "pa = frame_addr (bank_start (used_banks c ! i)) p" "cmatch pa ?sz" "unat p < frames (used_banks c ! i)"
    "stepped (first_frame (bank_start (used_banks c ! i)) ao) (ucast (drop_bit 12 (order_size ao))) p"
    using alloc_banks_Some [OF bs(1)] by auto
  have n: "i < unat (bank_count c)" "used_banks c ! i = banks c ! i"
    using i(1) assms(2) by (auto simp: used_banks_def)
  have "bs @ drop (unat (bank_count c)) (banks c) = (banks c)[i := b']"
    unfolding i(2) used_banks_def using n(1) by (metis append_take_drop_id list_update_append1 i(1) used_banks_def)
  then show ?thesis using ao bs(2,3) i n by auto
qed

text \<open>What a successful allocation does to the banks.\<close>

lemma ram_alloc_exact:
  assumes "vmm_host_ram_alloc c sz ao = Some (Done (c', Some pa, sz'))" and "ram_wf c"
    and "unat ao \<le> 32" and "unat sz + 2 ^ unat ao \<le> 2 ^ 43"
  shows "2 ^ unat ao dvd unat pa \<and> 2 ^ unat ao dvd unat sz' \<and> unat sz \<le> unat sz' \<and> unat sz' < unat sz + 2 ^ unat ao
    \<and> (\<exists>i p b'. i < unat (bank_count c) \<and> p < frames (banks c ! i) \<and> c' = c\<lparr>banks := (banks c)[i := b']\<rparr>
        \<and> unat pa = unat (bank_start (banks c ! i)) + 4096 * p
        \<and> bits_free (bmap (banks c ! i)) p (unat sz' div 4096)
        \<and> bits_set_to (bmap (banks c ! i)) (bmap b') p (unat sz' div 4096)
        \<and> unat (bmap_free b') + unat sz' div 4096 = unat (bmap_free (banks c ! i))
        \<and> p + unat sz' div 4096 < frames (banks c ! i) + 64
        \<and> (bank_tight (banks c ! i) \<longrightarrow> p + unat sz' div 4096 \<le> frames (banks c ! i))
        \<and> (p + unat sz' div 4096 \<le> frames (banks c ! i) \<longrightarrow> ram_wf c'))"
proof -
  have len: "unat (bank_count c) \<le> length (banks c)" using assms(2) by (simp add: ram_wf_def)
  obtain i p b' where ao: "12 \<le> unat ao" "sz' = roundup2_order_size sz ao"
    and i: "i < unat (bank_count c)" "c' = c\<lparr>banks := (banks c)[i := b']\<rparr>"
      "frames_taken (banks c ! i) p (ucast (VMM_SIZE_TO_PAGE sz')) b'"
      "pa = frame_addr (bank_start (banks c ! i)) p" "unat p < frames (banks c ! i)"
      "stepped (first_frame (bank_start (banks c ! i)) ao) (ucast (drop_bit 12 (order_size ao))) p"
    using host_ram_alloc_Some [OF assms(1) [unfolded vmm_host_ram_alloc_def] len] by auto
  let ?b = "banks c ! i"
  have wf: "bank_wf ?b" by (rule ram_wf_nth [OF assms(2) i(1)])
  have al: "2 ^ unat ao dvd unat pa" unfolding i(4) using addr_aligned [OF wf i(5) ao(1) assms(3) i(6)] .
  have rs: "2 ^ unat ao dvd unat sz'" "unat sz \<le> unat sz'" "unat sz' < unat sz + 2 ^ unat ao"
    unfolding ao(2) using roundup_spec [of ao sz] assms(3,4) by simp_all
  have "4096 dvd unat sz'" using rs(1) le_imp_power_dvd [OF ao(1), of "2::nat"] by (simp add: dvd_trans)
  from size_to_page_exact [OF this] have n: "unat (ucast (VMM_SIZE_TO_PAGE sz') :: u32) = unat sz' div 4096"
    using rs(3) assms(4) by (simp add: unat_ucast_mod)
  have pa: "unat pa = unat (bank_start ?b) + 4096 * unat p" unfolding i(4) by (rule frame_addr_unat [OF wf i(5)])
  have b': "b' = ?b\<lparr>bmap := bmap b', bmap_free := bmap_free ?b - ucast (VMM_SIZE_TO_PAGE sz')\<rparr>"
    "ucast (VMM_SIZE_TO_PAGE sz') \<le> bmap_free ?b" using i(3) by (simp_all add: frames_taken_def)
  have fr: "unat (bmap_free b') + unat sz' div 4096 = unat (bmap_free ?b)"
    by (subst b'(1)) (use b'(2) n in \<open>simp add: unat_sub word_le_nat_alt\<close>)
  have "ram_wf c'" if "unat p + unat sz' div 4096 \<le> frames ?b"
  proof -
    have "bank_wf b'" using frames_taken_wf [OF wf i(3)] that n by simp
    then show ?thesis using assms(2) i(1,2)
      by (auto simp: ram_wf_def used_banks_def list_all_iff take_update_swap dest!: set_update_subset_insert [THEN subsetD])
  qed
  moreover have "bits_free (bmap ?b) (unat p) (unat sz' div 4096)"
    "bits_set_to (bmap ?b) (bmap b') (unat p) (unat sz' div 4096)"
    using i(3) n by (simp_all add: frames_taken_def)
  ultimately show ?thesis using al rs pa fr i(1,2,5) frames_taken_end [OF wf i(3,5)] unfolding n by blast
qed


text \<open>
  Evaluation of the model on concrete banks: the words are numerals, so the simplifier computes with
  them.
\<close>

lemmas ram_eval =
  used_banks_def Let_def frame_isset_def bitmap_isset_def bitmap_setbit_def bitmap_clearbit_def BIT_WORD_def
  BIT_WORD_OFFSET_def take_frames_def release_frames_def frame_addr_def VMM_PAGE_SIZE_def VMM_PAGE_MASK_def
  VMM_PAGE_SHIFT_def order_mask_def order_size_def order_align_def roundup2_order_size_def VMM_SIZE_TO_PAGE_def
  size_to_order_def first_frame_def bitmap_zero_def BITS_TO_LONGS_def zero_bank_def default_ops_def
  bitmap_estimate_size_def vmm_request_resource_def vmm_request_resource_conflict_def
  request_resource_unlocked_def numeral_2_eq_2 [symmetric]

text \<open>One bank of 5 frames at 2 GB, as the start-up leaves it.\<close>

definition sample_ram :: "unit vmm_host_ram_ctrl" where
  "sample_ram = fst (vmm_host_ram_init 1 (Inr 1) (\<lambda>_. Inr 0x80000000) (\<lambda>_. Inr 0x5000) (\<lambda>_. [0])
                       (Resource 0 0 (-1) ''mem'' 0x200 []))"

lemma sample_ram_eq:
  "sample_ram = \<lparr>ops = Some default_ops, ops_priv = None, bank_count = 1,
     banks = [\<lparr>bank_start = 0x80000000, bank_size = 0x5000, frame_count = 5, bmap = [0], bmap_sz = 8, bmap_free = 5\<rparr>]\<rparr>"
  unfolding sample_ram_def vmm_host_ram_init_def by (simp add: ram_eval)

lemma bitmap_set_numeral [simp]:
  "bitmap_set bm s (numeral k) = bind_result (bitmap_setbit bm s) (\<lambda>bm. bitmap_set bm (s + 1) (pred_numeral k))"
  by (simp add: numeral_eq_Suc)

lemma bitmap_clear_numeral [simp]:
  "bitmap_clear bm s (numeral k) = bind_result (bitmap_clearbit bm s) (\<lambda>bm. bitmap_clear bm (s + 1) (pred_numeral k))"
  by (simp add: numeral_eq_Suc)

lemma count_free_step:
  "i < e \<Longrightarrow> count_free bm i e = bind_result (frame_isset bm i) (\<lambda>b.
             if b then Done 0 else bind_result (count_free bm (i + 1) e) (\<lambda>n. Done (n + 1)))"
  "\<not> i < e \<Longrightarrow> count_free bm i e = Done 0"
  by (subst count_free.simps, simp)+

lemma find_frames_step:
  "(ucast bpos :: u64) < drop_bit 12 sz \<Longrightarrow> count_free bm bpos (bpos + bcnt) = Done n \<Longrightarrow> n \<noteq> bcnt \<Longrightarrow>
     find_frames bm st sz binc bcnt accept bpos = find_frames bm st sz binc bcnt accept (bpos + binc)"
  "(ucast bpos :: u64) < drop_bit 12 sz \<Longrightarrow> count_free bm bpos (bpos + bcnt) = Done bcnt \<Longrightarrow> accept (frame_addr st bpos) \<Longrightarrow>
     find_frames bm st sz binc bcnt accept bpos = Some (Done (Some bpos))"
  by (subst find_frames.simps, simp)+

lemma sample_wf: "ram_wf sample_ram"
  by (simp add: ram_wf_def sample_ram_eq bank_wf_def used_banks_def frames_def BITS_TO_LONGS_def free_cnt_def
      bbit_def upt_conv_Cons)

lemma sample_alloc:
  "vmm_host_ram_alloc sample_ram 0x2800 13
     = Some (Done (sample_ram\<lparr>banks := [(banks sample_ram ! 0)\<lparr>bmap := [0xF], bmap_free := 1\<rparr>]\<rparr>, Some 0x80000000, 0x4000))"
proof -
  have "count_free [0] 0 4 = Done 4" by (simp add: ram_eval count_free_step)
  then have "find_frames [0] 0x80000000 0x5000 2 4 (\<lambda>_. True) 0 = Some (Done (Some 0))"
    by (intro find_frames_step(2)) simp_all
  then show ?thesis unfolding sample_ram_eq vmm_host_ram_alloc_def host_ram_alloc_with_def
    by (simp add: ram_eval)
qed


text \<open>
  The search does not test whether the range ends inside the bank, and the bitmap has clear bits past
  the last frame.  After frames 1 to 3 of the bank of five frames have been reserved, a request for two
  frames gets frames 4 and 5, and frame 5 does not exist.
\<close>

lemma vmm_host_ram_alloc_past_end:
  "\<exists>c1 c2. vmm_host_ram_reserve sample_ram 0x80001000 0x3000 = Done (c1, VMM_OK)
     \<and> vmm_host_ram_alloc c1 0x2000 12 = Some (Done (c2, Some 0x80004000, 0x2000))
     \<and> (0x80004000 :: u64) + 0x2000 > bank_start (banks c1 ! 0) + bank_size (banks c1 ! 0)"
proof -
  let ?c1 = "sample_ram\<lparr>banks := [(banks sample_ram ! 0)\<lparr>bmap := [0xE], bmap_free := 2\<rparr>]\<rparr>"
  have r: "vmm_host_ram_reserve sample_ram 0x80001000 0x3000 = Done (?c1, VMM_OK)"
    unfolding sample_ram_eq vmm_host_ram_reserve_def by (simp add: ram_eval count_free_step)
  have c: "count_free [0xE] 0 2 = Done 1" "count_free [0xE] 1 3 = Done 0" "count_free [0xE] 2 4 = Done 0"
    "count_free [0xE] 3 5 = Done 0" "count_free [0xE] 4 6 = Done 2"
    by (simp_all add: ram_eval count_free_step)
  have "find_frames [0xE] 0x80000000 0x5000 1 2 (\<lambda>_. True) 0 = Some (Done (Some 4))"
    by (simp add: find_frames_step c)
  then have "vmm_host_ram_alloc ?c1 0x2000 12 = Some (Done (?c1\<lparr>banks := [(banks ?c1 ! 0)\<lparr>bmap := [0x3E], bmap_free := 0\<rparr>]\<rparr>,
      Some 0x80004000, 0x2000))"
    unfolding sample_ram_eq vmm_host_ram_alloc_def host_ram_alloc_with_def by (simp add: ram_eval)
  then show ?thesis using r by (fastforce simp: sample_ram_eq)
qed

section \<open>Coloured allocation is complete\<close>

lemma count_free_total:
  "(\<And>j. unat i \<le> j \<Longrightarrow> j < unat e \<Longrightarrow> j < 2 ^ 31 \<and> j div 64 < length bm) \<Longrightarrow> \<exists>n. count_free bm i e = Done n"
proof (induction bm i e rule: count_free.induct)
  case (1 bm i e)
  show ?case
  proof (cases "i < e")
    case True
    note l = less_succ [OF True]
    have f: "frame_isset bm i = Done (bbit bm (unat i))"
      using "1.prems" [of "unat i"] True by (simp add: frame_isset_Done word_less_nat_alt)
    show ?thesis
    proof (cases "bbit bm (unat i)")
      case True
      then show ?thesis using f \<open>i < e\<close> by (simp add: count_free_step(1))
    next
      case False
      have "\<exists>n. count_free bm (i + 1) e = Done n"
        using "1.IH" [OF True f False] "1.prems" l by simp
      then show ?thesis using f False True by (auto simp: count_free_step(1))
    qed
  qed (simp add: count_free_step(2))
qed

lemma dvd_step: "q dvd a \<Longrightarrow> q dvd b \<Longrightarrow> a < b \<Longrightarrow> a + q \<le> b" for q a b :: nat
proof -
  assume a: "q dvd a" "q dvd b" "a < b"
  then have "q dvd b - a" by simp
  then have "q \<le> b - a" using a(3) by (intro dvd_imp_le) simp_all
  then show ?thesis using a(3) by linarith
qed

definition free_chunk :: "(u64 \<Rightarrow> bool) \<Rightarrow> vmm_host_ram_bank \<Rightarrow> nat \<Rightarrow> nat \<Rightarrow> bool" where
  "free_chunk accept b q m \<longleftrightarrow> q dvd m \<and> m < frames b \<and> bits_free (bmap b) m q
     \<and> accept (frame_addr (bank_start b) (of_nat m))"

lemma find_frames_chunks:
  assumes wf: "bank_wf b" and q: "unat binc = q" "0 < q" "q \<le> 2 ^ 20" "q dvd frames b"
  shows "q dvd unat bpos \<Longrightarrow> unat bpos \<le> frames b \<Longrightarrow>
    \<exists>r. find_frames (bmap b) (bank_start b) (bank_size b) binc binc accept bpos = Some (Done r)
      \<and> (r = None \<longrightarrow> (\<forall>m. unat bpos \<le> m \<longrightarrow> \<not> free_chunk accept b q m))"
proof (induction "frames b - unat bpos" arbitrary: bpos rule: less_induct)
  case less
  let ?ff = "find_frames (bmap b) (bank_start b) (bank_size b) binc binc accept"
  have cond: "((ucast bpos :: u64) < drop_bit 12 (bank_size b)) = (unat bpos < frames b)"
    by (simp add: word_less_nat_alt unat_ucast_up unat_drop_bit frames_def)
  show ?case
  proof (cases "unat bpos < frames b")
    case False
    then have "?ff bpos = Some (Done None)" by (subst find_frames.simps) (simp add: cond)
    then show ?thesis using False by (auto simp: free_chunk_def)
  next
    case True
    have fits: "unat bpos + q \<le> frames b" using dvd_step [OF less.prems(1) q(4) True] .
    have fb: "frames b < 2 ^ 31" using wf by (simp add: bank_wf_def)
    have e: "unat (bpos + binc) = unat bpos + q" using fits fb q(1) by (subst unat_add_no_wrap) simp_all
    obtain n where n: "count_free (bmap b) bpos (bpos + binc) = Done n"
      using count_free_total [of bpos "bpos + binc" "bmap b"] wf_word [OF wf] fits fb e by force
    have ih: "\<exists>r. ?ff (bpos + binc) = Some (Done r) \<and> (r = None \<longrightarrow> (\<forall>m. unat bpos + q \<le> m \<longrightarrow> \<not> free_chunk accept b q m))"
      using less.hyps [of "bpos + binc"] less.prems True fits q(2) e by simp
    have only: "m = unat bpos \<or> unat bpos + q \<le> m" if "unat bpos \<le> m" "free_chunk accept b q m" for m
      using that dvd_step [OF less.prems(1), of m] by (metis free_chunk_def le_neq_implies_less)
    have cont: ?thesis if "?ff bpos = ?ff (bpos + binc)" "\<not> free_chunk accept b q (unat bpos)"
      using ih that only by (metis (no_types, lifting))
    show ?thesis
    proof (cases "n = binc \<and> accept (frame_addr (bank_start b) bpos)")
      case True
      then have "?ff bpos = Some (Done (Some bpos))"
        using n cond \<open>unat bpos < frames b\<close> by (subst find_frames.simps) simp
      then show ?thesis by auto
    next
      case False
      have "?ff bpos = ?ff (bpos + binc)"
        using False n cond True by (subst find_frames.simps) auto
      moreover have "\<not> free_chunk accept b q (unat bpos)"
      proof
        assume fc: "free_chunk accept b q (unat bpos)"
        have "bpos \<le> bpos + binc" using e by (simp add: word_le_nat_alt)
        from count_free_Done [OF n this] e have c: "unat bpos + unat n \<le> unat bpos + q"
          "unat n < q \<longrightarrow> bbit (bmap b) (unat bpos + unat n)" by auto
        have "\<not> bbit (bmap b) (unat bpos + unat n)" if "unat n < q"
          using fc that by (auto simp: free_chunk_def bits_free_iff)
        then have "n = binc" using c q(1) by (metis add_le_cancel_left le_neq_implies_less word_unat_eq_iff)
        then show False using False fc by (simp add: free_chunk_def)
      qed
      ultimately show ?thesis by (rule cont)
    qed
  qed
qed

lemma free_chunk_count:
  assumes "bank_wf b" and "q dvd frames b" and "free_chunk accept b q m"
  shows "q \<le> unat (bmap_free b)"
proof -
  have "m + q \<le> frames b" using assms(2,3) dvd_step [of q m "frames b"] by (simp add: free_chunk_def)
  then have sub: "{m..<m + q} \<subseteq> {i. i < frames b \<and> \<not> bbit (bmap b) i}"
    using assms(3) by (auto simp: free_chunk_def bits_free_iff)
  have "card {m..<m + q} \<le> free_cnt b" unfolding free_cnt_card by (rule card_mono [OF _ sub]) simp
  then show ?thesis using assms(1) by (simp add: bank_wf_def)
qed

lemma chunk_word:
  assumes "12 \<le> unat ao" and "unat ao \<le> 32"
  shows "unat (ucast (drop_bit 12 (order_size ao)) :: u32) = 2 ^ (unat ao - 12)"
    and "(2::nat) ^ unat ao = 4096 * 2 ^ (unat ao - 12)" and "(2::nat) ^ (unat ao - 12) \<le> 2 ^ 20"
proof -
  show s: "(2::nat) ^ unat ao = 4096 * 2 ^ (unat ao - 12)"
    using assms(1) power_add [of "2::nat" 12 "unat ao - 12"] by simp
  show l: "(2::nat) ^ (unat ao - 12) \<le> 2 ^ 20" using assms(2) by (intro power_increasing) simp_all
  have "unat (order_size ao) = 2 ^ unat ao" using assms(2) by (simp add: order_size_exp unat_exp)
  then have "unat (drop_bit 12 (order_size ao)) = 2 ^ (unat ao - 12)" by (simp add: unat_drop_bit s)
  then show "unat (ucast (drop_bit 12 (order_size ao)) :: u32) = 2 ^ (unat ao - 12)"
    using l by (simp add: unat_ucast_mod)
qed

definition chunked :: "u32 \<Rightarrow> vmm_host_ram_bank \<Rightarrow> bool" where
  "chunked ao b \<longleftrightarrow> 2 ^ unat ao dvd unat (bank_start b) \<and> 2 ^ unat ao dvd unat (bank_size b)"

lemma chunked_frames:
  assumes "12 \<le> unat ao" and "unat ao \<le> 32" and "chunked ao b"
  shows "2 ^ (unat ao - 12) dvd frames b" and "first_frame (bank_start b) ao = 0"
proof -
  obtain k where "unat (bank_size b) = 4096 * 2 ^ (unat ao - 12) * k"
    using assms(3) chunk_word(2) [OF assms(1,2)] by (auto simp: chunked_def dvd_def)
  then have "frames b = 2 ^ (unat ao - 12) * k" by (simp add: frames_def mult.assoc)
  then show "2 ^ (unat ao - 12) dvd frames b" by simp
  have "unat (bank_start b AND order_mask ao) = 0"
    using assms(3) by (simp add: chunked_def order_mask_mask unat_and_mask mod_eq_0_iff_dvd)
  then have "bank_start b AND order_mask ao = 0" by (simp add: unat_eq_0)
  then show "first_frame (bank_start b) ao = 0" by (simp add: first_frame_def)
qed

lemma alloc_banks_chunks:
  assumes ao: "12 \<le> unat ao" "unat ao \<le> 32"
    and n: "n = (ucast (drop_bit 12 (order_size ao)) :: u32)"
  shows "list_all (\<lambda>b. bank_wf b \<and> chunked ao b) bs \<Longrightarrow>
    \<exists>r. alloc_banks accept ao n bs = Some (Done r)
      \<and> (r = None \<longrightarrow> (\<forall>b \<in> set bs. \<forall>m. \<not> free_chunk accept b (2 ^ (unat ao - 12)) m))"
proof (induction bs)
  case (Cons b bs)
  let ?q = "2 ^ (unat ao - 12) :: nat"
  have b: "bank_wf b" "chunked ao b" using Cons.prems by simp_all
  note cf = chunked_frames [OF ao b(2)] and cw = chunk_word [OF ao]
  obtain r where r: "alloc_banks accept ao n bs = Some (Done r)"
    "r = None \<Longrightarrow> \<forall>b \<in> set bs. \<forall>m. \<not> free_chunk accept b ?q m" using Cons by auto
  obtain f where f: "find_frames (bmap b) (bank_start b) (bank_size b) n n accept 0 = Some (Done f)"
    "f = None \<Longrightarrow> \<forall>m. \<not> free_chunk accept b ?q m"
    using find_frames_chunks [OF b(1), of n ?q 0 accept] cf(1) cw n by auto
  consider (skip) "bmap_free b < n" | (none) "\<not> bmap_free b < n" "f = None"
    | (some) p where "\<not> bmap_free b < n" "f = Some p" by (cases f) auto
  then show ?case
  proof cases
    case skip
    then have "unat (bmap_free b) < ?q" using cw(1) n by (simp add: word_less_nat_alt)
    then have "\<not> free_chunk accept b ?q m" for m using free_chunk_count [OF b(1) cf(1)] by (metis not_less)
    then show ?thesis using skip r by (auto simp: Let_def)
  next
    case none
    then show ?thesis using r f by (auto simp: Let_def cf(2) n [symmetric])
  next
    case some
    have "count_free (bmap b) p (p + n) = Done n" using find_frames_Some [OF f(1) [unfolded some(2)]] by simp
    then obtain b' where "take_frames b p n = Done b'"
      using take_frames_taken [of b p n] some(1) by (auto simp: not_less)
    then show ?thesis using some f(1) by (auto simp: Let_def cf(2) n [symmetric])
  qed
qed simp

lemma single_chunk_size:
  assumes "12 \<le> unat ao" and "unat ao \<le> 32"
  shows "roundup2_order_size (push_bit (unat ao) 1) ao = 2 ^ unat ao"
    and "VMM_SIZE_TO_PAGE (2 ^ unat ao) = drop_bit 12 (order_size ao)"
proof -
  have u: "unat (2 ^ unat ao :: u64) = 2 ^ unat ao" using assms(2) by (simp add: unat_exp)
  have "unat ((2 ^ unat ao :: u64) AND order_mask ao) = 0" by (simp add: order_mask_mask unat_and_mask u)
  then show "roundup2_order_size (push_bit (unat ao) 1) ao = 2 ^ unat ao"
    by (simp add: roundup2_order_size_def unat_eq_0)
  have "unat ((2 ^ unat ao :: u64) AND order_mask VMM_PAGE_SHIFT) = 0"
    using chunk_word(2) [OF assms] by (simp add: order_mask_mask unat_and_mask u)
  then show "VMM_SIZE_TO_PAGE (2 ^ unat ao) = drop_bit 12 (order_size ao)"
    by (simp add: VMM_SIZE_TO_PAGE_def size_to_order_def unat_eq_0 order_size_exp)
qed

definition chunk_taken ::
  "'p vmm_host_ram_ctrl \<Rightarrow> 'p vmm_host_ram_ctrl \<Rightarrow> u32 \<Rightarrow> u64 \<Rightarrow> bool" where
  "chunk_taken c c' ao pa \<longleftrightarrow>
     (\<exists>i p. i < unat (bank_count c) \<and> unat pa = unat (bank_start (banks c ! i)) + 4096 * p
        \<and> p + 2 ^ (unat ao - 12) \<le> frames (banks c ! i)
        \<and> bits_free (bmap (banks c ! i)) p (2 ^ (unat ao - 12))
        \<and> bits_set_to (bmap (banks c ! i)) (bmap (banks c' ! i)) p (2 ^ (unat ao - 12))
        \<and> (\<forall>j. j \<noteq> i \<longrightarrow> banks c' ! j = banks c ! j))"

text \<open>
  \<^verbatim>\<open>vmm_host_ram_color_alloc\<close>, when every bank begins and ends on a multiple of the colour size: the
  search always returns and never leaves the bitmaps.  It returns size 0, with nothing changed, exactly
  when no bank has a free chunk whose address has the wanted colour; otherwise it returns an aligned chunk
  of that colour which lies inside one bank, was free and is marked used, and the banks stay well-formed.
\<close>

theorem vmm_host_ram_color_alloc_complete:
  assumes wf: "ram_wf c" and op: "ops c = Some op" "num_colors op = Some nc" "color_order op = Some co" "color_match op = Some cm"
    and col: "color < nc (ops_priv c)" and ao: "ao = co (ops_priv c)" "12 \<le> unat ao" "unat ao \<le> 32"
    and ch: "list_all (chunked ao) (used_banks c)"
  shows "\<exists>c' r sz. vmm_host_ram_color_alloc c color = Some (Done (c', r, sz))
    \<and> (case r of
         None \<Rightarrow> sz = 0 \<and> c' = c
           \<and> (\<forall>b \<in> set (used_banks c). \<forall>m. \<not> free_chunk (\<lambda>p. cm p (2 ^ unat ao) color (ops_priv c)) b (2 ^ (unat ao - 12)) m)
       | Some pa \<Rightarrow> sz = 2 ^ unat ao \<and> cm pa sz color (ops_priv c) \<and> 2 ^ unat ao dvd unat pa
           \<and> ram_wf c' \<and> chunk_taken c c' ao pa)"
proof -
  let ?acc = "\<lambda>p. cm p (2 ^ unat ao) color (ops_priv c)"
  let ?n = "ucast (drop_bit 12 (order_size ao)) :: u32"
  have len: "unat (bank_count c) \<le> length (banks c)" using wf by (simp add: ram_wf_def)
  have g: "\<not> (push_bit (unat ao) 1 = (0::u64) \<or> ao < VMM_PAGE_SHIFT \<or> 64 \<le> ao)"
    using ao(2,3) unat_exp [of "unat ao", where ?'n = 64]
    by (auto simp: VMM_PAGE_SHIFT_def word_less_nat_alt word_le_nat_alt)
  have e: "vmm_host_ram_color_alloc c color
      = host_ram_alloc_with c (push_bit (unat ao) 1) ao (\<lambda>p s. cm p s color (ops_priv c))"
    using op col ao(1) by (simp add: vmm_host_ram_color_alloc_def vmm_host_ram_color_order_def
        vmm_host_ram_color_count_def call_ops_def not_le [symmetric])
  have wfs: "list_all (\<lambda>b. bank_wf b \<and> chunked ao b) (used_banks c)"
    using wf ch by (simp add: ram_wf_def list_all_iff)
  obtain r where r: "alloc_banks ?acc ao ?n (used_banks c) = Some (Done r)"
    "r = None \<Longrightarrow> \<forall>b \<in> set (used_banks c). \<forall>m. \<not> free_chunk ?acc b (2 ^ (unat ao - 12)) m"
    using alloc_banks_chunks [OF ao(2,3) refl wfs, of ?acc] by auto
  have h: "host_ram_alloc_with c (push_bit (unat ao) 1) ao (\<lambda>p s. cm p s color (ops_priv c))
      = Some (case r of None \<Rightarrow> Done (c, None, 0)
          | Some (bs, p) \<Rightarrow> Done (c\<lparr>banks := bs @ drop (unat (bank_count c)) (banks c)\<rparr>, Some p, 2 ^ unat ao))"
    unfolding host_ram_alloc_with_def using g r(1) single_chunk_size [OF ao(2,3)] by (auto simp: Let_def)
  show ?thesis
  proof (cases r)
    case None
    then show ?thesis using e h r(2) by simp
  next
    case (Some x)
    obtain bs pa where x: "x = (bs, pa)" by fastforce
    let ?c' = "c\<lparr>banks := bs @ drop (unat (bank_count c)) (banks c)\<rparr>"
    have res: "host_ram_alloc_with c (push_bit (unat ao) 1) ao (\<lambda>p s. cm p s color (ops_priv c))
        = Some (Done (?c', Some pa, 2 ^ unat ao))" using h Some x by simp
    from host_ram_alloc_Some [OF res len] obtain i p b' where
      i: "i < unat (bank_count c)" "?c' = c\<lparr>banks := (banks c)[i := b']\<rparr>"
        "frames_taken (banks c ! i) p (ucast (VMM_SIZE_TO_PAGE (2 ^ unat ao))) b'"
        "pa = frame_addr (bank_start (banks c ! i)) p" "?acc pa" "unat p < frames (banks c ! i)"
        "stepped (first_frame (bank_start (banks c ! i)) ao) ?n p" by blast
    let ?b = "banks c ! i" let ?q = "2 ^ (unat ao - 12) :: nat"
    have b: "bank_wf ?b" "chunked ao ?b"
      using wf ch i(1) len by (auto simp: ram_wf_nth used_banks_def list_all_length)
    note cf = chunked_frames [OF ao(2,3) b(2)] and cw = chunk_word [OF ao(2,3)]
    have t: "frames_taken ?b p ?n b'" using i(3) single_chunk_size(2) [OF ao(2,3)] by simp
    have "?q dvd 2 ^ 32" using ao(3) by (intro le_imp_power_dvd) simp
    then have "?q dvd unat p" using stepped_mod [OF i(7) cw(1)] by (simp add: cf(2) mod_eq_0_iff_dvd)
    then have inb: "unat p + ?q \<le> frames ?b" using dvd_step [OF _ cf(1) i(6)] by simp
    have "bank_wf b'" using frames_taken_wf [OF b(1) t] inb cw(1) by simp
    then have "ram_wf ?c'" unfolding i(2) using wf i(1)
      by (auto simp: ram_wf_def used_banks_def list_all_iff take_update_swap dest!: set_update_subset_insert [THEN subsetD])
    moreover have "2 ^ unat ao dvd unat pa" unfolding i(4) by (rule addr_aligned [OF b(1) i(6) ao(2,3) i(7)])
    moreover have "chunk_taken c ?c' ao pa"
      unfolding chunk_taken_def i(2)
      using i(1,4) len inb t cw(1) frame_addr_unat [OF b(1) i(6)]
      by (intro exI [of _ i] exI [of _ "unat p"]) (simp add: frames_taken_def)
    ultimately show ?thesis using e res i(5) by auto
  qed
qed

theorem vmm_host_ram_color_alloc_complete_witness:
  "\<exists>c' r sz. vmm_host_ram_color_alloc (sample_ram\<lparr>ops := Some (default_ops\<lparr>color_order := Some (\<lambda>_. 12)\<rparr>)\<rparr>) 3
      = Some (Done (c', r, sz))"
proof -
  let ?c = "sample_ram\<lparr>ops := Some (default_ops\<lparr>color_order := Some (\<lambda>_. 12)\<rparr>)\<rparr>"
  have "ram_wf ?c" using sample_wf by (simp add: ram_wf_def used_banks_def)
  moreover have "list_all (chunked 12) (used_banks ?c)"
    by (simp add: sample_ram_eq used_banks_def chunked_def)
  ultimately show ?thesis
    using vmm_host_ram_color_alloc_complete [of ?c "default_ops\<lparr>color_order := Some (\<lambda>_. 12)\<rparr>" "\<lambda>_. 0xFFFFFFFF"
        "\<lambda>_. 12" "\<lambda>_ _ _ _. True" 3 12]
    by (auto simp: default_ops_def)
qed

section \<open>Freeing undoes reserving\<close>

lemma release_take:
  assumes "count_free (bmap b) p (p + n) = Done n" and "take_frames b p n = Done b'"
  shows "release_frames b' p n = Done b"
proof -
  note a = count_free_all [OF assms(1)]
  obtain bm' where b': "b' = b\<lparr>bmap := bm', bmap_free := bmap_free b - n\<rparr>" "bits_set_to (bmap b) bm' (unat p) (unat n)"
    using take_frames_Done [of n b p] a assms(2) by auto
  have "\<exists>bm. bitmap_clear bm' (unat p) (unat n) = Done bm \<and> length bm = length bm'
      \<and> (\<forall>i. i div 64 < length bm' \<longrightarrow> bbit bm i = (i \<notin> {unat p..<unat p + unat n} \<and> bbit bm' i))"
  proof (cases "n = 0")
    case False
    then have "covers bm' (unat p + unat n)" using a b'(2) by (simp add: covers_def bits_set_to_iff)
    then show ?thesis using bitmap_clear_ok [of bm' "unat p" "unat n"] by simp
  qed simp
  then obtain bm where bm: "bitmap_clear bm' (unat p) (unat n) = Done bm" "length bm = length bm'"
    "\<And>i. i div 64 < length bm' \<Longrightarrow> bbit bm i = (i \<notin> {unat p..<unat p + unat n} \<and> bbit bm' i)" by blast
  have "bm = bmap b"
  proof (rule bbit_eqI)
    show "length bm = length (bmap b)" using bm(2) b'(2) by (simp add: bits_set_to_iff)
    show "bbit bm i = bbit (bmap b) i" if "i div LENGTH(64) < length bm" for i
      using that bm(2,3) b'(2) a by (auto simp: bits_set_to_iff bits_free_iff)
  qed
  then show ?thesis using bm(1) b'(1) by (simp add: release_frames_def)
qed

lemma take_frames_fields: "take_frames b p n = Done b' \<Longrightarrow> bank_start b' = bank_start b \<and> bank_size b' = bank_size b"
  by (auto simp: take_frames_def)

lemma free_undoes_reserve_banks:
  "reserve_banks pa sz bs = Done (bs', VMM_OK) \<Longrightarrow> free_banks pa sz bs' = Done (bs, VMM_OK)"
proof (induction bs arbitrary: bs')
  case (Cons b bs)
  show ?case
  proof (cases "pa < bank_start b \<or> bank_start b + bank_size b < pa + sz")
    case True
    then show ?thesis using Cons by auto
  next
    case False
    let ?p = "ucast (drop_bit 12 (pa - bank_start b)) :: u32" let ?n = "ucast (VMM_SIZE_TO_PAGE sz) :: u32"
    obtain b' where "count_free (bmap b) ?p (?p + ?n) = Done ?n" "take_frames b ?p ?n = Done b'" "bs' = b' # bs"
      using Cons.prems False by (auto simp: Let_def split: if_splits)
    then show ?thesis
      using release_take [of b ?p ?n b'] take_frames_fields [of b ?p ?n b'] False by (simp add: Let_def)
  qed
qed simp

text \<open>
  Whatever the address and size, when \<^verbatim>\<open>vmm_host_ram_reserve\<close> succeeds, \<^verbatim>\<open>vmm_host_ram_free\<close> of the
  same range succeeds and gives back the state before the reservation: bitmaps, free counters and all.
\<close>

theorem vmm_host_ram_free_undoes_reserve:
  assumes "vmm_host_ram_reserve c pa sz = Done (c', VMM_OK)" and "unat (bank_count c) \<le> length (banks c)"
  shows "vmm_host_ram_free c' pa sz = Done (c, VMM_OK)"
proof -
  obtain bs where bs: "reserve_banks pa sz (used_banks c) = Done (bs, VMM_OK)"
    "c' = c\<lparr>banks := bs @ drop (unat (bank_count c)) (banks c)\<rparr>"
    using assms(1) by (auto simp: vmm_host_ram_reserve_def)
  have l: "length bs' = length cs" if "reserve_banks pa sz cs = Done (bs', rc)" for cs bs' rc
    using that by (induction cs arbitrary: bs') (auto simp: Let_def split: if_splits)
  have "length bs = unat (bank_count c)" using l [OF bs(1)] assms(2) by (simp add: used_banks_def)
  then have "used_banks c' = bs" "drop (unat (bank_count c)) (banks c') = drop (unat (bank_count c)) (banks c)"
    using bs(2) by (simp_all add: used_banks_def)
  then show ?thesis using free_undoes_reserve_banks [OF bs(1)] bs(2)
    by (simp add: vmm_host_ram_free_def) (simp add: used_banks_def)
qed

theorem vmm_host_ram_free_undoes_reserve_witness:
  "\<exists>c'. vmm_host_ram_reserve sample_ram 0x80001000 0x3000 = Done (c', VMM_OK)
     \<and> vmm_host_ram_free c' 0x80001000 0x3000 = Done (sample_ram, VMM_OK)"
proof -
  have "\<exists>c'. vmm_host_ram_reserve sample_ram 0x80001000 0x3000 = Done (c', VMM_OK)"
    using vmm_host_ram_alloc_past_end by blast
  moreover have "unat (bank_count sample_ram) \<le> length (banks sample_ram)" by (simp add: sample_ram_eq)
  ultimately show ?thesis using vmm_host_ram_free_undoes_reserve by blast
qed

end
