(* ===== verification/Timer.thy ===== *)
theory Timer
  imports Prelude "HOL-Library.Sublist"
begin

text \<open>
  The timer subsystem, \<^verbatim>\<open>core/vmm_timer.c\<close>: per host CPU a list of active events in the order of their expiry,
  and a one-shot clock chip that is programmed for the first of them.

  Events are named by their address.  The linked list of a host CPU is the list of its events.  The clock
  source is a parameter: every operation gets the times that its calls of \<^verbatim>\<open>vmm_timer_timestamp\<close> return.  The
  calls of the clock chip are recorded, newest first.  Handlers are a parameter too: \<open>H e\<close> is the effect of
  the handler of event \<open>e\<close> on the timers, and every call is recorded in \<open>fired\<close>.  Locks are held as in the
  source, and deleting an event that is not in the list is a \<open>Fault\<close>.
\<close>

section \<open>State\<close>

record vmm_timer_event =
  expiry_tstamp :: u64
  duration_nsecs :: u64
  active_state :: bool
  active_hcpu :: nat

datatype clockchip_call = Set_mode_oneshot | Set_mode_shutdown | Program_event u64 u64

record vmm_timer_local_ctrl =
  started :: bool
  inprocess :: bool
  next_event :: u64
  curr :: "nat option"
  event_list :: "nat list"
  cc :: "clockchip_call list"

record timers =
  events :: "nat \<Rightarrow> vmm_timer_event"
  tlc :: "nat \<Rightarrow> vmm_timer_local_ctrl"
  fired :: "nat list"

type_synonym handlers = "nat \<Rightarrow> timers \<Rightarrow> timers result"

definition upd_event :: "nat \<Rightarrow> (vmm_timer_event \<Rightarrow> vmm_timer_event) \<Rightarrow> timers \<Rightarrow> timers" where
  "upd_event e f s = s\<lparr>events := (events s)(e := f (events s e))\<rparr>"

definition upd_tlc :: "nat \<Rightarrow> (vmm_timer_local_ctrl \<Rightarrow> vmm_timer_local_ctrl) \<Rightarrow> timers \<Rightarrow> timers" where
  "upd_tlc h f s = s\<lparr>tlc := (tlc s)(h := f (tlc s h))\<rparr>"

definition INIT_TIMER_EVENT :: "nat \<Rightarrow> timers \<Rightarrow> timers" where
  "INIT_TIMER_EVENT e = upd_event e (\<lambda>_. \<lparr>expiry_tstamp = 0, duration_nsecs = 0, active_state = False, active_hcpu = 0\<rparr>)"

section \<open>Operations\<close>

definition timer_schedule_next_event :: "u64 \<Rightarrow> nat \<Rightarrow> timers \<Rightarrow> timers" where
  "timer_schedule_next_event t h s =
     (let c = tlc s h
      in if \<not> started c \<or> inprocess c then s
         else case event_list c of
                [] \<Rightarrow> s
              | e # _ \<Rightarrow>
                  let nxt_t = (if t < expiry_tstamp (events s e) then expiry_tstamp (events s e) else t)
                  in upd_tlc h (\<lambda>c. c\<lparr>curr := Some e, next_event := nxt_t, cc := Program_event t nxt_t # cc c\<rparr>) s)"

text \<open>\<^verbatim>\<open>__timer_event_stop\<close>\<close>

definition timer_event_stop :: "nat \<Rightarrow> timers \<Rightarrow> timers result" where
  "timer_event_stop e s =
     (let ev = events s e
      in if \<not> active_state ev then Done s
         else if e \<notin> set (event_list (tlc s (active_hcpu ev))) then Fault
         else Done (upd_event e (\<lambda>v. v\<lparr>active_state := False, expiry_tstamp := 0\<rparr>)
                     (upd_tlc (active_hcpu ev) (\<lambda>c. c\<lparr>event_list := remove1 e (event_list c)\<rparr>) s)))"

text \<open>The new event goes before the first one that expires later.\<close>

fun insert_event :: "(nat \<Rightarrow> u64) \<Rightarrow> nat \<Rightarrow> nat list \<Rightarrow> nat list" where
  "insert_event xp ev [] = [ev]"
| "insert_event xp ev (e # es) = (if xp ev < xp e then ev # e # es else e # insert_event xp ev es)"

text \<open>\<open>t\<close> is the time at the start of the operation, \<open>t'\<close> the one at which the clock chip is programmed.\<close>

definition vmm_timer_event_start :: "nat \<Rightarrow> u64 \<Rightarrow> u64 \<Rightarrow> nat option \<Rightarrow> u64 \<Rightarrow> timers \<Rightarrow> (timers \<times> vmm_rc) result" where
  "vmm_timer_event_start h t t' ev' duration s =
     (case ev' of
        None \<Rightarrow> Done (s, VMM_EFAIL)
      | Some ev \<Rightarrow>
          bind_result (timer_event_stop ev s) (\<lambda>s1.
            let s2 = upd_event ev (\<lambda>v. v\<lparr>expiry_tstamp := t + duration, duration_nsecs := duration,
                                          active_state := True, active_hcpu := h\<rparr>) s1;
                s3 = upd_tlc h (\<lambda>c. c\<lparr>event_list := insert_event (\<lambda>e. expiry_tstamp (events s2 e)) ev (event_list c)\<rparr>) s2
            in Done (timer_schedule_next_event t' h s3, VMM_OK)))"

definition vmm_timer_event_restart :: "nat \<Rightarrow> u64 \<Rightarrow> u64 \<Rightarrow> nat option \<Rightarrow> timers \<Rightarrow> (timers \<times> vmm_rc) result" where
  "vmm_timer_event_restart h t t' ev' s =
     (case ev' of
        None \<Rightarrow> Done (s, VMM_EFAIL)
      | Some ev \<Rightarrow> vmm_timer_event_start h t t' (Some ev) (duration_nsecs (events s ev)) s)"

definition vmm_timer_event_stop :: "nat option \<Rightarrow> timers \<Rightarrow> (timers \<times> vmm_rc) result" where
  "vmm_timer_event_stop ev' s =
     (case ev' of
        None \<Rightarrow> Done (s, VMM_EFAIL)
      | Some ev \<Rightarrow> bind_result (timer_event_stop ev s) (\<lambda>s1. Done (s1, VMM_OK)))"

definition vmm_timer_event_pending :: "nat option \<Rightarrow> timers \<Rightarrow> bool" where
  "vmm_timer_event_pending ev' s = (case ev' of None \<Rightarrow> False | Some ev \<Rightarrow> active_state (events s ev))"

definition vmm_timer_event_expiry_time :: "nat option \<Rightarrow> timers \<Rightarrow> u64" where
  "vmm_timer_event_expiry_time ev' s = (case ev' of None \<Rightarrow> 0 | Some ev \<Rightarrow> expiry_tstamp (events s ev))"

text \<open>
  The loop of the clock chip handler.  \<open>clk i\<close> is the time that its \<open>i\<close>-th round reads.  Handlers may start
  events again, so the loop need not end; it is given fuel, and running out of it is \<open>None\<close>.
\<close>

fun process_events :: "nat \<Rightarrow> handlers \<Rightarrow> (nat \<Rightarrow> u64) \<Rightarrow> nat \<Rightarrow> timers \<Rightarrow> (timers \<times> nat) result option" where
  "process_events 0 H clk h s = None"
| "process_events (Suc f) H clk h s =
     (case event_list (tlc s h) of
        [] \<Rightarrow> Some (Done (s, 0))
      | e # _ \<Rightarrow>
          if expiry_tstamp (events s e) \<le> clk 0
          then (case bind_result (timer_event_stop e (upd_tlc h (\<lambda>c. c\<lparr>curr := None\<rparr>) s))
                       (\<lambda>s1. H e (s1\<lparr>fired := e # fired s1\<rparr>)) of
                  Done s2 \<Rightarrow> map_option (\<lambda>r. bind_result r (\<lambda>(s3, n). Done (s3, Suc n)))
                               (process_events f H (\<lambda>i. clk (Suc i)) h s2)
                | Panic \<Rightarrow> Some Panic
                | Fault \<Rightarrow> Some Fault)
          else Some (Done (s, 0)))"

text \<open>The second component counts the rounds; \<open>t'\<close> is the time at which the clock chip is programmed.\<close>

definition timer_clockchip_event_handler ::
  "nat \<Rightarrow> handlers \<Rightarrow> (nat \<Rightarrow> u64) \<Rightarrow> u64 \<Rightarrow> nat \<Rightarrow> timers \<Rightarrow> timers result option" where
  "timer_clockchip_event_handler f H clk t' h s =
     map_option (\<lambda>r. bind_result r (\<lambda>(s1, _).
         Done (timer_schedule_next_event t' h (upd_tlc h (\<lambda>c. c\<lparr>inprocess := False\<rparr>) s1))))
       (process_events f H clk h (upd_tlc h (\<lambda>c. c\<lparr>inprocess := True\<rparr>) s))"

definition vmm_timer_started :: "nat \<Rightarrow> timers \<Rightarrow> bool" where
  "vmm_timer_started h s = started (tlc s h)"

definition vmm_timer_start :: "u64 \<Rightarrow> u64 \<Rightarrow> nat \<Rightarrow> timers \<Rightarrow> timers" where
  "vmm_timer_start min_delta_ns t h =
     upd_tlc h (\<lambda>c. c\<lparr>next_event := t + min_delta_ns, started := True,
                      cc := Program_event t (t + min_delta_ns) # Set_mode_oneshot # cc c\<rparr>)"

definition vmm_timer_stop :: "nat \<Rightarrow> timers \<Rightarrow> timers" where
  "vmm_timer_stop h = upd_tlc h (\<lambda>c. c\<lparr>started := False, cc := Set_mode_shutdown # cc c\<rparr>)"

text \<open>
  \<open>bound\<close> tells whether a clock chip could be bound, \<open>src\<close> is the outcome of setting up the time counter.
\<close>

definition vmm_timer_init :: "bool \<Rightarrow> vmm_rc \<Rightarrow> nat \<Rightarrow> timers \<Rightarrow> timers \<times> vmm_rc" where
  "vmm_timer_init bound src h s =
     (let s1 = upd_tlc h (\<lambda>_. \<lparr>started = False, inprocess = False, next_event = 0, curr = None, event_list = [], cc = []\<rparr>) s
      in if \<not> bound then (s1, VMM_ENODEV) else (s1, src))"

section \<open>Invariant\<close>

definition timer_inv :: "timers \<Rightarrow> bool" where
  "timer_inv s \<longleftrightarrow>
     (\<forall>h. distinct (event_list (tlc s h)) \<and> sorted (map (\<lambda>e. expiry_tstamp (events s e)) (event_list (tlc s h))))
   \<and> (\<forall>h e. e \<in> set (event_list (tlc s h)) \<longleftrightarrow> active_state (events s e) \<and> active_hcpu (events s e) = h)"

lemma timer_invD:
  assumes "timer_inv s"
  shows "distinct (event_list (tlc s h))" "sorted (map (\<lambda>e. expiry_tstamp (events s e)) (event_list (tlc s h)))"
    "e \<in> set (event_list (tlc s h)) \<longleftrightarrow> active_state (events s e) \<and> active_hcpu (events s e) = h"
  using assms unfolding timer_inv_def by blast+

lemma upd_event_simps [simp]:
  "events (upd_event e f s) = (events s)(e := f (events s e))" "tlc (upd_event e f s) = tlc s" "fired (upd_event e f s) = fired s"
  by (simp_all add: upd_event_def)

lemma upd_tlc_simps [simp]:
  "events (upd_tlc h g s) = events s" "tlc (upd_tlc h g s) = (tlc s)(h := g (tlc s h))" "fired (upd_tlc h g s) = fired s"
  by (simp_all add: upd_tlc_def)

lemma schedule_simps [simp]:
  "events (timer_schedule_next_event t h s) = events s" "event_list (tlc (timer_schedule_next_event t h s) g) = event_list (tlc s g)"
  "started (tlc (timer_schedule_next_event t h s) g) = started (tlc s g)"
  "inprocess (tlc (timer_schedule_next_event t h s) g) = inprocess (tlc s g)"
  "fired (timer_schedule_next_event t h s) = fired s"
  by (auto simp: timer_schedule_next_event_def Let_def split: list.split)

lemma schedule_programs:
  assumes "event_list (tlc s h) \<noteq> []" and "started (tlc s h)" and "\<not> inprocess (tlc s h)"
  shows "let nx = max t (expiry_tstamp (events s (hd (event_list (tlc s h)))))
    in next_event (tlc (timer_schedule_next_event t h s) h) = nx \<and> hd (cc (tlc (timer_schedule_next_event t h s) h)) = Program_event t nx"
  using assms by (cases "event_list (tlc s h)") (auto simp: timer_schedule_next_event_def Let_def max_def)

lemma timer_inv_cong:
  "events s' = events s \<Longrightarrow> (\<And>h. event_list (tlc s' h) = event_list (tlc s h)) \<Longrightarrow> timer_inv s' = timer_inv s"
  by (simp add: timer_inv_def)

lemma insert_event_set [simp]: "set (insert_event xp ev es) = insert ev (set es)"
  by (induction es) auto

lemma insert_event_distinct: "distinct es \<Longrightarrow> ev \<notin> set es \<Longrightarrow> distinct (insert_event xp ev es)"
  by (induction es) auto

lemma insert_event_sorted: "sorted (map xp es) \<Longrightarrow> sorted (map xp (insert_event xp ev es))"
  by (induction es) (auto intro: order.trans)

text \<open>Events that expire at the same time stay in the order in which they were started.\<close>

lemma insert_event_pos:
  "sorted (map xp es) \<Longrightarrow> insert_event xp ev es = takeWhile (\<lambda>e. xp e \<le> xp ev) es @ ev # dropWhile (\<lambda>e. xp e \<le> xp ev) es"
  by (induction es) auto

lemma timer_event_stop_ok:
  assumes i: "timer_inv s"
  shows "\<exists>s'. timer_event_stop e s = Done s' \<and> timer_inv s' \<and> \<not> active_state (events s' e) \<and> fired s' = fired s
    \<and> (\<forall>x. x \<noteq> e \<longrightarrow> events s' x = events s x) \<and> (\<forall>h. event_list (tlc s' h) = remove1 e (event_list (tlc s h)))"
proof (cases "active_state (events s e)")
  case True
  let ?h = "active_hcpu (events s e)"
  let ?s' = "upd_event e (\<lambda>v. v\<lparr>active_state := False, expiry_tstamp := 0\<rparr>)
      (upd_tlc ?h (\<lambda>c. c\<lparr>event_list := remove1 e (event_list c)\<rparr>) s)"
  have m: "e \<in> set (event_list (tlc s ?h))" using timer_invD(3) [OF i, of e ?h] True by simp
  have l: "event_list (tlc ?s' h) = remove1 e (event_list (tlc s h))" for h
    using timer_invD(3) [OF i, of e h] by (cases "h = ?h") (auto simp: remove1_idem)
  have "sorted (map (\<lambda>x. expiry_tstamp (events ?s' x)) (remove1 e (event_list (tlc s h))))" for h
  proof -
    have "map (\<lambda>x. expiry_tstamp (events ?s' x)) (remove1 e (event_list (tlc s h)))
        = map (\<lambda>x. expiry_tstamp (events s x)) (remove1 e (event_list (tlc s h)))"
      using timer_invD(1) [OF i, of h] by (intro map_cong) auto
    then show ?thesis using sorted_map_remove1 [OF timer_invD(2) [OF i, of h]] by metis
  qed
  then have "timer_inv ?s'" unfolding timer_inv_def l using timer_invD(1,3) [OF i] by auto
  then show ?thesis using True m l by (auto simp: timer_event_stop_def Let_def)
next
  case False
  then have "e \<notin> set (event_list (tlc s h))" for h using timer_invD(3) [OF i, of e h] by simp
  then show ?thesis using False i by (auto simp: timer_event_stop_def remove1_idem)
qed


section \<open>Start and stop\<close>

lemma vmm_timer_event_start_frame:
  assumes i: "timer_inv s"
  shows "\<exists>s'. vmm_timer_event_start h t t' (Some ev) d s = Done (s', VMM_OK) \<and> timer_inv s'
    \<and> events s' ev = (events s ev)\<lparr>expiry_tstamp := t + d, duration_nsecs := d, active_state := True, active_hcpu := h\<rparr>
    \<and> (\<forall>x. x \<noteq> ev \<longrightarrow> events s' x = events s x)
    \<and> (\<forall>g. g \<noteq> h \<longrightarrow> event_list (tlc s' g) = remove1 ev (event_list (tlc s g)))
    \<and> (let old = remove1 ev (event_list (tlc s h)); le = (\<lambda>e. expiry_tstamp (events s e) \<le> t + d)
       in event_list (tlc s' h) = takeWhile le old @ ev # dropWhile le old)
    \<and> event_list (tlc s' h) = insert_event (\<lambda>e. expiry_tstamp (events s' e)) ev (remove1 ev (event_list (tlc s h)))
    \<and> started (tlc s' h) = started (tlc s h) \<and> inprocess (tlc s' h) = inprocess (tlc s h)
    \<and> (started (tlc s h) \<and> \<not> inprocess (tlc s h) \<longrightarrow>
         (let nx = max t' (expiry_tstamp (events s' (hd (event_list (tlc s' h)))))
          in next_event (tlc s' h) = nx \<and> hd (cc (tlc s' h)) = Program_event t' nx))"
proof -
  obtain s1 where s1: "timer_event_stop ev s = Done s1" "timer_inv s1" "\<not> active_state (events s1 ev)"
    "\<forall>x. x \<noteq> ev \<longrightarrow> events s1 x = events s x" "\<forall>h. event_list (tlc s1 h) = remove1 ev (event_list (tlc s h))"
    "\<forall>h. started (tlc s1 h) = started (tlc s h) \<and> inprocess (tlc s1 h) = inprocess (tlc s h)"
    "(events s1 ev)\<lparr>expiry_tstamp := t + d, duration_nsecs := d, active_state := True, active_hcpu := h\<rparr>
       = (events s ev)\<lparr>expiry_tstamp := t + d, duration_nsecs := d, active_state := True, active_hcpu := h\<rparr>"
    using timer_event_stop_ok [OF i, of ev] by (auto simp: timer_event_stop_def Let_def split: if_splits)
  let ?v = "(events s ev)\<lparr>expiry_tstamp := t + d, duration_nsecs := d, active_state := True, active_hcpu := h\<rparr>"
  define s2 where "s2 = upd_event ev (\<lambda>v. v\<lparr>expiry_tstamp := t + d, duration_nsecs := d, active_state := True, active_hcpu := h\<rparr>) s1"
  let ?xp = "\<lambda>e. expiry_tstamp (events s2 e)" let ?old = "remove1 ev (event_list (tlc s h))"
  define s3 where "s3 = upd_tlc h (\<lambda>c. c\<lparr>event_list := insert_event ?xp ev (event_list c)\<rparr>) s2"
  let ?s4 = "timer_schedule_next_event t' h s3"
  have ev: "events s3 ev = ?v" "\<And>x. x \<noteq> ev \<Longrightarrow> events s3 x = events s x" using s1 by (simp_all add: s2_def s3_def)
  have nin: "ev \<notin> set ?old" using timer_invD(1) [OF i, of h] by simp
  have xp: "map ?xp (remove1 ev (event_list (tlc s g))) = map (\<lambda>e. expiry_tstamp (events s1 e)) (remove1 ev (event_list (tlc s g)))" for g
    using timer_invD(1) [OF i, of g] by (intro map_cong) (auto simp: s2_def)
  have so: "sorted (map ?xp (remove1 ev (event_list (tlc s g))))" for g
    using timer_invD(2) [OF s1(2), of g] s1(5) unfolding xp by simp
  have le: "?xp x \<le> ?xp ev \<longleftrightarrow> expiry_tstamp (events s x) \<le> t + d" if "x \<in> set ?old" for x
    using that nin s1 by (auto simp: s2_def)
  have li: "event_list (tlc s3 h) = insert_event ?xp ev ?old" using s1(5) by (simp add: s3_def s2_def)
  also have "\<dots> = takeWhile (\<lambda>e. ?xp e \<le> ?xp ev) ?old @ ev # dropWhile (\<lambda>e. ?xp e \<le> ?xp ev) ?old"
    by (rule insert_event_pos [OF so])
  also have "takeWhile (\<lambda>e. ?xp e \<le> ?xp ev) ?old = takeWhile (\<lambda>e. expiry_tstamp (events s e) \<le> t + d) ?old"
    by (rule takeWhile_cong [OF refl]) (rule le)
  also have "dropWhile (\<lambda>e. ?xp e \<le> ?xp ev) ?old = dropWhile (\<lambda>e. expiry_tstamp (events s e) \<le> t + d) ?old"
    by (rule dropWhile_cong [OF refl]) (rule le)
  finally have lst: "event_list (tlc s3 h) = takeWhile (\<lambda>e. expiry_tstamp (events s e) \<le> t + d) ?old
      @ ev # dropWhile (\<lambda>e. expiry_tstamp (events s e) \<le> t + d) ?old" .
  have ot: "g \<noteq> h \<Longrightarrow> event_list (tlc s3 g) = remove1 ev (event_list (tlc s g))" for g using s1(5) by (simp add: s3_def s2_def)
  have "timer_inv s3" unfolding timer_inv_def
  proof (intro conjI allI)
    fix g
    have e: "events s3 = events s2" by (simp add: s3_def)
    have l: "event_list (tlc s3 g) = (if g = h then insert_event ?xp ev (remove1 ev (event_list (tlc s g))) else remove1 ev (event_list (tlc s g)))"
      using s1(5) by (simp add: s3_def s2_def)
    show "distinct (event_list (tlc s3 g))" unfolding l using timer_invD(1) [OF i, of g] by (auto intro: insert_event_distinct)
    show "sorted (map (\<lambda>e. expiry_tstamp (events s3 e)) (event_list (tlc s3 g)))"
      unfolding l e using so [of g] by (auto intro: insert_event_sorted)
    show "e \<in> set (event_list (tlc s3 g)) \<longleftrightarrow> active_state (events s3 e) \<and> active_hcpu (events s3 e) = g" for e
      unfolding l using timer_invD(1,3) [OF i] ev by (cases "e = ev") auto
  qed
  moreover have r: "vmm_timer_event_start h t t' (Some ev) d s = Done (timer_schedule_next_event t' h s3, VMM_OK)"
    using s1(1) by (simp add: vmm_timer_event_start_def Let_def s2_def s3_def)
  moreover have st: "started (tlc s3 h) = started (tlc s h)" "inprocess (tlc s3 h) = inprocess (tlc s h)" using s1(6) by (simp_all add: s3_def s2_def)
  have "event_list (tlc s3 h) \<noteq> []" using lst by simp
  from schedule_programs [OF this, of t']
  have "started (tlc s h) \<and> \<not> inprocess (tlc s h) \<longrightarrow>
      (let nx = max t' (expiry_tstamp (events s3 (hd (event_list (tlc s3 h)))))
       in next_event (tlc (timer_schedule_next_event t' h s3) h) = nx
          \<and> hd (cc (tlc (timer_schedule_next_event t' h s3) h)) = Program_event t' nx)"
    unfolding st by blast
  moreover have "event_list (tlc s3 h) = insert_event (\<lambda>e. expiry_tstamp (events s3 e)) ev ?old" using li by (simp add: s3_def)
  ultimately have "vmm_timer_event_start h t t' (Some ev) d s = Done (?s4, VMM_OK) \<and> timer_inv ?s4"
    "events ?s4 ev = ?v" "\<forall>x. x \<noteq> ev \<longrightarrow> events ?s4 x = events s x"
    "\<forall>g. g \<noteq> h \<longrightarrow> event_list (tlc ?s4 g) = remove1 ev (event_list (tlc s g))"
    "event_list (tlc ?s4 h) = takeWhile (\<lambda>e. expiry_tstamp (events s e) \<le> t + d) ?old @ ev # dropWhile (\<lambda>e. expiry_tstamp (events s e) \<le> t + d) ?old"
    "event_list (tlc ?s4 h) = insert_event (\<lambda>e. expiry_tstamp (events ?s4 e)) ev ?old"
    "started (tlc ?s4 h) = started (tlc s h) \<and> inprocess (tlc ?s4 h) = inprocess (tlc s h)"
    "started (tlc s h) \<and> \<not> inprocess (tlc s h) \<longrightarrow> (let nx = max t' (expiry_tstamp (events ?s4 (hd (event_list (tlc ?s4 h)))))
       in next_event (tlc ?s4 h) = nx \<and> hd (cc (tlc ?s4 h)) = Program_event t' nx)"
    using ev lst ot st timer_inv_cong [of ?s4 s3] by simp_all
  then show ?thesis unfolding Let_def by blast
qed

text \<open>Starting several events one after the other: the event, the two times and the duration of each.\<close>

fun start_all :: "nat \<Rightarrow> (nat \<times> u64 \<times> u64 \<times> u64) list \<Rightarrow> timers \<Rightarrow> timers result" where
  "start_all h [] s = Done s"
| "start_all h ((ev, t, t', d) # xs) s = bind_result (vmm_timer_event_start h t t' (Some ev) d s) (\<lambda>(s1, _). start_all h xs s1)"

lemma insert_event_insort:
  "insort_key xp x (insert_event xp ev ys) = insert_event xp ev (insort_key xp x ys)"
  by (induction ys) auto

lemma insert_event_sort: "insert_event xp ev (sort_key xp xs) = sort_key xp (xs @ [ev])"
  by (induction xs) (simp_all add: insert_event_insort [symmetric])

lemma start_all_snoc:
  "start_all h (xs @ [(ev, t, t', d)]) s = bind_result (start_all h xs s) (\<lambda>s1. bind_result (vmm_timer_event_start h t t' (Some ev) d s1) (\<lambda>(s2, _). Done s2))"
proof (induction xs arbitrary: s)
  case (Cons x xs)
  then show ?case by (cases x) (auto simp: bind_result_assoc intro!: bind_result_cong split: prod.split)
qed simp

lemma insort_key_eq: "f x = g x \<Longrightarrow> (\<And>y. y \<in> set ys \<Longrightarrow> f y = g y) \<Longrightarrow> insort_key f x ys = insort_key g x ys"
  by (induction ys) auto

lemma sort_key_eq: "(\<And>x. x \<in> set xs \<Longrightarrow> f x = g x) \<Longrightarrow> sort_key f xs = sort_key g xs"
  by (induction xs) (auto intro: insort_key_eq)

definition demo_event :: "bool \<Rightarrow> u64 \<Rightarrow> vmm_timer_event" where
  "demo_event a t = \<lparr>expiry_tstamp = t, duration_nsecs = 0, active_state = a, active_hcpu = 0\<rparr>"

definition demo_timers :: timers where
  "demo_timers = \<lparr>events = (\<lambda>e. if e = 1 then demo_event True 10 else if e = 2 then demo_event True 20 else demo_event False 0),
     tlc = (\<lambda>h. \<lparr>started = True, inprocess = False, next_event = 0, curr = None, event_list = (if h = 0 then [1, 2] else []), cc = []\<rparr>),
     fired = []\<rparr>"

lemma demo_timers_inv: "timer_inv demo_timers"
  by (auto simp: timer_inv_def demo_timers_def demo_event_def)

text \<open>
  C37. Starting distinct events one after the other on a host CPU with no active event, whatever they did
  before: afterwards the list of the host CPU is the stable sort of the events by their expiry times, each its
  start time plus its duration, so that events with equal expiry keep the order in which they were started.
  If the timer of the host CPU runs and is not being processed, and there is an event, the clock chip was
  programmed last for the first event of that list, or for the present if that event is overdue.
\<close>

theorem timer_start_stable_sort:
  assumes i: "timer_inv s" and "event_list (tlc s h) = []" and "distinct (map fst xs)"
  shows "\<exists>s'. start_all h xs s = Done s' \<and> timer_inv s' \<and> event_list (tlc s' h) = sort_key (\<lambda>e. expiry_tstamp (events s' e)) (map fst xs)
    \<and> (\<forall>(ev, t, t', d) \<in> set xs. expiry_tstamp (events s' ev) = t + d \<and> active_state (events s' ev) \<and> active_hcpu (events s' ev) = h)
    \<and> (started (tlc s h) \<and> \<not> inprocess (tlc s h) \<and> xs \<noteq> [] \<longrightarrow>
         (let t' = fst (snd (snd (last xs))); nx = max t' (expiry_tstamp (events s' (hd (event_list (tlc s' h)))))
          in next_event (tlc s' h) = nx \<and> hd (cc (tlc s' h)) = Program_event t' nx))"
proof -
  have "\<exists>s'. start_all h xs s = Done s' \<and> timer_inv s' \<and> event_list (tlc s' h) = sort_key (\<lambda>e. expiry_tstamp (events s' e)) (map fst xs)
    \<and> (\<forall>(ev, t, t', d) \<in> set xs. expiry_tstamp (events s' ev) = t + d \<and> active_state (events s' ev) \<and> active_hcpu (events s' ev) = h)
    \<and> started (tlc s' h) = started (tlc s h) \<and> inprocess (tlc s' h) = inprocess (tlc s h)
    \<and> (started (tlc s h) \<and> \<not> inprocess (tlc s h) \<and> xs \<noteq> [] \<longrightarrow>
         (let t' = fst (snd (snd (last xs))); nx = max t' (expiry_tstamp (events s' (hd (event_list (tlc s' h)))))
          in next_event (tlc s' h) = nx \<and> hd (cc (tlc s' h)) = Program_event t' nx))"
    using assms(3)
  proof (induction xs rule: rev_induct)
    case Nil
    then show ?case using i assms(2) by simp
  next
    case (snoc x xs)
    obtain ev t t' d where x: "x = (ev, t, t', d)" by (cases x)
    have d: "ev \<notin> fst ` set xs" "distinct (map fst xs)" using snoc.prems x by auto
    obtain s1 where s1: "start_all h xs s = Done s1" "timer_inv s1" "event_list (tlc s1 h) = sort_key (\<lambda>e. expiry_tstamp (events s1 e)) (map fst xs)"
      "\<forall>(ev, t, t', d) \<in> set xs. expiry_tstamp (events s1 ev) = t + d \<and> active_state (events s1 ev) \<and> active_hcpu (events s1 ev) = h"
      "started (tlc s1 h) = started (tlc s h)" "inprocess (tlc s1 h) = inprocess (tlc s h)"
      using snoc.IH [OF d(2)] by blast
    obtain s2 where s2: "vmm_timer_event_start h t t' (Some ev) d s1 = Done (s2, VMM_OK)" "timer_inv s2"
      "events s2 ev = (events s1 ev)\<lparr>expiry_tstamp := t + d, duration_nsecs := d, active_state := True, active_hcpu := h\<rparr>"
      "\<forall>x. x \<noteq> ev \<longrightarrow> events s2 x = events s1 x"
      "event_list (tlc s2 h) = insert_event (\<lambda>e. expiry_tstamp (events s2 e)) ev (remove1 ev (event_list (tlc s1 h)))"
      "started (tlc s2 h) = started (tlc s1 h)" "inprocess (tlc s2 h) = inprocess (tlc s1 h)"
      "started (tlc s1 h) \<and> \<not> inprocess (tlc s1 h) \<longrightarrow> (let nx = max t' (expiry_tstamp (events s2 (hd (event_list (tlc s2 h)))))
          in next_event (tlc s2 h) = nx \<and> hd (cc (tlc s2 h)) = Program_event t' nx)"
      using vmm_timer_event_start_frame [OF s1(2), of h t t' ev d] by blast
    have same: "expiry_tstamp (events s2 e) = expiry_tstamp (events s1 e)" if "e \<in> set (map fst xs)" for e
      using that d(1) s2(4) by (cases "e = ev") auto
    have "ev \<notin> set (event_list (tlc s1 h))" using d(1) s1(3) by simp
    then have "event_list (tlc s2 h) = insert_event (\<lambda>e. expiry_tstamp (events s2 e)) ev (sort_key (\<lambda>e. expiry_tstamp (events s1 e)) (map fst xs))"
      using s2(5) s1(3) by (simp add: remove1_idem)
    also have "sort_key (\<lambda>e. expiry_tstamp (events s1 e)) (map fst xs) = sort_key (\<lambda>e. expiry_tstamp (events s2 e)) (map fst xs)"
      using same by (intro sort_key_eq) simp_all
    finally have "event_list (tlc s2 h) = sort_key (\<lambda>e. expiry_tstamp (events s2 e)) (map fst (xs @ [x]))"
      unfolding insert_event_sort by (simp add: x)
    moreover have "\<forall>(e, t, t', d) \<in> set (xs @ [x]). expiry_tstamp (events s2 e) = t + d \<and> active_state (events s2 e) \<and> active_hcpu (events s2 e) = h"
      using s1(4) s2(3,4) x d(1) by (fastforce simp: image_iff)
    moreover have "start_all h (xs @ [x]) s = Done s2" using s1(1) s2(1) by (simp add: start_all_snoc x)
    ultimately show ?case using s2 s1(5,6) x by (simp add: Let_def)
  qed
  then show ?thesis by blast
qed

theorem timer_start_stable_sort_witness:
  "\<exists>s'. start_all 1 [(3, 5, 6, 10), (4, 7, 8, 1)] demo_timers = Done s' \<and> timer_inv s'
     \<and> event_list (tlc s' 1) = sort_key (\<lambda>e. expiry_tstamp (events s' e)) [3, 4]"
  using timer_start_stable_sort [OF demo_timers_inv, of 1 "[(3, 5, 6, 10), (4, 7, 8, 1)]"] by (auto simp: demo_timers_def)

text \<open>
  Stopping an active event deactivates it and takes it, and no other event, out of the lists; stopping an
  event that was just started brings back the lists that there were before, if it was not active then.
\<close>

theorem vmm_timer_event_stop_spec:
  assumes i: "timer_inv s" and "\<not> active_state (events s ev)"
    and "vmm_timer_event_start h t t' (Some ev) d s = Done (s1, VMM_OK)"
  shows "\<exists>s2. vmm_timer_event_stop (Some ev) s1 = Done (s2, VMM_OK) \<and> timer_inv s2 \<and> \<not> vmm_timer_event_pending (Some ev) s2
    \<and> (\<forall>g. event_list (tlc s2 g) = event_list (tlc s g)) \<and> (\<forall>x. x \<noteq> ev \<longrightarrow> events s2 x = events s x)"
proof -
  have nin: "ev \<notin> set (event_list (tlc s g))" for g using timer_invD(3) [OF i] assms(2) by simp
  have s1: "timer_inv s1" "\<forall>x. x \<noteq> ev \<longrightarrow> events s1 x = events s x"
    "\<forall>g. g \<noteq> h \<longrightarrow> event_list (tlc s1 g) = event_list (tlc s g)"
    "let le = (\<lambda>e. expiry_tstamp (events s e) \<le> t + d) in event_list (tlc s1 h)
       = takeWhile le (event_list (tlc s h)) @ ev # dropWhile le (event_list (tlc s h))"
    using vmm_timer_event_start_frame [OF i, of h t t' ev d] assms(3) nin by (auto simp: Let_def remove1_idem)
  obtain s2 where s2: "timer_event_stop ev s1 = Done s2" "timer_inv s2" "\<not> active_state (events s2 ev)"
    "\<forall>x. x \<noteq> ev \<longrightarrow> events s2 x = events s1 x" "\<forall>h. event_list (tlc s2 h) = remove1 ev (event_list (tlc s1 h))"
    using timer_event_stop_ok [OF s1(1)] by blast
  have "remove1 ev (takeWhile le (event_list (tlc s h)) @ ev # dropWhile le (event_list (tlc s h))) = event_list (tlc s h)" for le
    using nin [of h] set_takeWhileD [of ev le "event_list (tlc s h)"] by (auto simp: remove1_append)
  then have "event_list (tlc s2 g) = event_list (tlc s g)" for g
    using s2(5) s1(3,4) nin [of g] by (cases "g = h") (auto simp: Let_def remove1_idem)
  then show ?thesis using s2 s1(2) by (simp add: vmm_timer_event_stop_def vmm_timer_event_pending_def)
qed

theorem vmm_timer_event_stop_spec_witness:
  "\<exists>s1 s2. vmm_timer_event_start 0 5 6 (Some 3) 10 demo_timers = Done (s1, VMM_OK)
     \<and> vmm_timer_event_stop (Some 3) s1 = Done (s2, VMM_OK) \<and> (\<forall>g. event_list (tlc s2 g) = event_list (tlc demo_timers g))"
proof -
  obtain s1 where s1: "vmm_timer_event_start 0 5 6 (Some 3) 10 demo_timers = Done (s1, VMM_OK)"
    using vmm_timer_event_start_frame [OF demo_timers_inv, of 0 5 6 3 10] by blast
  have "\<not> active_state (events demo_timers 3)" by (simp add: demo_timers_def demo_event_def)
  then show ?thesis using vmm_timer_event_stop_spec [OF demo_timers_inv _ s1] s1 by blast
qed

section \<open>Processing\<close>

text \<open>
  The contract of the handlers: given timers in order, and the event inactive, a handler returns with the
  timers in order.  It may start and stop any event.
\<close>

locale timer_handlers =
  fixes H :: handlers
  assumes keeps: "timer_inv s \<Longrightarrow> \<not> active_state (events s e) \<Longrightarrow> \<exists>s'. H e s = Done s' \<and> timer_inv s'"
begin

lemma process_keeps:
  "process_events f H clk h s = Some r \<Longrightarrow> timer_inv s \<Longrightarrow>
     \<exists>s' n. r = Done (s', n) \<and> timer_inv s' \<and> (\<forall>e \<in> set (event_list (tlc s' h)). clk n < expiry_tstamp (events s' e))"
proof (induction f arbitrary: clk s r)
  case (Suc f)
  show ?case
  proof (cases "event_list (tlc s h)")
    case Nil
    then show ?thesis using Suc.prems by auto
  next
    case (Cons e es)
    show ?thesis
    proof (cases "expiry_tstamp (events s e) \<le> clk 0")
      case True
      let ?s0 = "upd_tlc h (\<lambda>c. c\<lparr>curr := None\<rparr>) s"
      have "timer_inv ?s0" using Suc.prems(2) timer_inv_cong [of ?s0 s] by simp
      then obtain s1 where s1: "timer_event_stop e ?s0 = Done s1" "timer_inv s1" "\<not> active_state (events s1 e)"
        using timer_event_stop_ok by blast
      have "timer_inv (s1\<lparr>fired := e # fired s1\<rparr>)" using s1(2) timer_inv_cong [of "s1\<lparr>fired := e # fired s1\<rparr>" s1] by simp
      then obtain s2 where s2: "H e (s1\<lparr>fired := e # fired s1\<rparr>) = Done s2" "timer_inv s2" using keeps [of _ e] s1(3) by force
      then obtain r' where "process_events f H (\<lambda>i. clk (Suc i)) h s2 = Some r'" "r = bind_result r' (\<lambda>(s3, n). Done (s3, Suc n))"
        using Suc.prems(1) Cons True s1(1) by auto
      then show ?thesis using Suc.IH [of "\<lambda>i. clk (Suc i)" s2 r'] s2(2) by auto
    next
      case False
      have "\<forall>x \<in> set (event_list (tlc s h)). expiry_tstamp (events s e) \<le> expiry_tstamp (events s x)"
        using timer_invD(2) [OF Suc.prems(2), of h] Cons by auto
      then show ?thesis using Suc.prems Cons False by fastforce
    qed
  qed
qed simp

end

text \<open>
  Handlers during one interrupt of host CPU \<open>h\<close>.  \<open>T\<close> bounds the times the interrupt reads; an event is due when it
  is active on \<open>h\<close> and expires by \<open>T\<close>.  A handler may stop events and start events, its own or others, but none that
  is due again: what it starts expires after \<open>T\<close>.  \<open>R e\<close> are the events that the handler of \<open>e\<close> stops or restarts.
\<close>

definition due :: "u64 \<Rightarrow> nat \<Rightarrow> timers \<Rightarrow> nat list" where
  "due T h s = filter (\<lambda>e. expiry_tstamp (events s e) \<le> T) (event_list (tlc s h))"

lemma subseq_setD: "subseq xs ys \<Longrightarrow> x \<in> set xs \<Longrightarrow> x \<in> set ys"
  by (auto elim: list_emb_set)

lemma subseq_remove1: "subseq (remove1 x xs) xs"
  by (induction xs) auto

locale later_handlers = timer_handlers H for H :: handlers +
  fixes R :: "nat \<Rightarrow> nat set" and T :: u64 and h :: nat
  assumes later: "timer_inv s \<Longrightarrow> \<not> active_state (events s e) \<Longrightarrow> H e s = Done s' \<Longrightarrow>
      fired s' = fired s \<and> started (tlc s' h) = started (tlc s h) \<and> subseq (due T h s') (due T h s)
      \<and> (\<forall>x \<in> set (due T h s'). events s' x = events s x) \<and> set (due T h s) - R e \<subseteq> set (due T h s')"
begin

text \<open>
  The loop ends: each round takes an event out of those that are due and no handler adds one.  The events \<open>fs\<close> that
  fire are among them, in their order.
\<close>

lemma process_later:
  "timer_inv s \<Longrightarrow> length (due T h s) < f \<Longrightarrow> \<forall>i. clk i \<le> T \<Longrightarrow> \<forall>i j. i \<le> j \<longrightarrow> clk i \<le> clk j \<Longrightarrow>
    \<exists>s' fs. process_events f H clk h s = Some (Done (s', length fs)) \<and> timer_inv s' \<and> subseq fs (due T h s)
      \<and> fired s' = rev fs @ fired s \<and> (\<forall>i < length fs. expiry_tstamp (events s (fs ! i)) \<le> clk i)
      \<and> (\<forall>x \<in> set (due T h s). expiry_tstamp (events s x) \<le> clk 0 \<longrightarrow> x \<in> set fs \<or> (\<exists>y \<in> set fs. x \<in> R y))
      \<and> (\<forall>x \<in> set (event_list (tlc s' h)). clk (length fs) < expiry_tstamp (events s' x)) \<and> started (tlc s' h) = started (tlc s h)"
proof (induction f arbitrary: clk s)
  case (Suc f)
  note i = Suc.prems(1) and T = Suc.prems(3) and mono = Suc.prems(4)
  show ?case
  proof (cases "event_list (tlc s h)")
    case Nil
    then show ?thesis using i by (intro exI [of _ s] exI [of _ "[]"]) (simp add: due_def)
  next
    case (Cons e es)
    have le: "expiry_tstamp (events s e) \<le> expiry_tstamp (events s x)" if "x \<in> set (event_list (tlc s h))" for x
      using timer_invD(2) [OF i, of h] Cons that by auto
    show ?thesis
    proof (cases "expiry_tstamp (events s e) \<le> clk 0")
      case True
      let ?s0 = "upd_tlc h (\<lambda>c. c\<lparr>curr := None\<rparr>) s"
      have "timer_inv ?s0" using i timer_inv_cong [of ?s0 s] by simp
      then obtain s1 where s1: "timer_event_stop e ?s0 = Done s1" "timer_inv s1" "\<not> active_state (events s1 e)" "fired s1 = fired s"
        "\<forall>x. x \<noteq> e \<longrightarrow> events s1 x = events s x" "event_list (tlc s1 h) = es" "started (tlc s1 h) = started (tlc s h)"
        using timer_event_stop_ok [of ?s0 e] Cons by (auto simp: timer_event_stop_def Let_def split: if_splits)
      let ?s1 = "s1\<lparr>fired := e # fired s1\<rparr>"
      have i1: "timer_inv ?s1" using s1(2) timer_inv_cong [of ?s1 s1] by simp
      obtain s2 where s2: "H e ?s1 = Done s2" "timer_inv s2" using keeps [OF i1, of e] s1(3) by auto
      have l: "fired s2 = e # fired s" "started (tlc s2 h) = started (tlc s h)" "subseq (due T h s2) (due T h ?s1)"
        "\<forall>x \<in> set (due T h s2). events s2 x = events s1 x" "set (due T h ?s1) - R e \<subseteq> set (due T h s2)"
        using later [OF i1, of e s2] s1 s2(1) by auto
      have ne: "e \<notin> set es" using timer_invD(1) [OF i, of h] Cons by simp
      have d: "due T h s = e # due T h ?s1"
        using Cons True T [rule_format, of 0] s1(5,6) ne by (auto simp: due_def intro!: filter_cong)
      have eq: "events s2 x = events s x" "x \<noteq> e" if "x \<in> set (due T h s2)" for x
      proof -
        have "x \<in> set es" using subseq_setD [OF l(3) that] s1(6) by (simp add: due_def)
        then show "x \<noteq> e" using ne by blast
        then show "events s2 x = events s x" using that l(4) s1(5) by simp
      qed
      have "length (due T h s2) < f" using Suc.prems(2) list_emb_length [OF l(3)] d by simp
      then obtain s' fs where r: "process_events f H (\<lambda>i. clk (Suc i)) h s2 = Some (Done (s', length fs))" "timer_inv s'"
        "subseq fs (due T h s2)" "fired s' = rev fs @ fired s2" "\<forall>i < length fs. expiry_tstamp (events s2 (fs ! i)) \<le> clk (Suc i)"
        "\<forall>x \<in> set (due T h s2). expiry_tstamp (events s2 x) \<le> clk (Suc 0) \<longrightarrow> x \<in> set fs \<or> (\<exists>y \<in> set fs. x \<in> R y)"
        "\<forall>x \<in> set (event_list (tlc s' h)). clk (Suc (length fs)) < expiry_tstamp (events s' x)" "started (tlc s' h) = started (tlc s2 h)"
        using Suc.IH [OF s2(2), of "\<lambda>i. clk (Suc i)"] T mono by auto
      have fs: "set fs \<subseteq> set (due T h s2)" using subseq_setD [OF r(3)] by blast
      have "process_events (Suc f) H clk h s = Some (Done (s', length (e # fs)))" using Cons True s1(1) s2(1) r(1) by simp
      moreover have "subseq (e # fs) (due T h s)" using d subseq_order.trans [OF r(3) l(3)] by simp
      moreover have "expiry_tstamp (events s (fs ! j)) \<le> clk (Suc j)" if "j < length fs" for j
        using that r(5) eq(1) [of "fs ! j"] fs nth_mem [OF that] by (metis subsetD)
      then have "expiry_tstamp (events s ((e # fs) ! i)) \<le> clk i" if "i < length (e # fs)" for i
        using that True by (cases i) auto
      moreover have "x \<in> set (e # fs) \<or> (\<exists>y \<in> set (e # fs). x \<in> R y)" if x: "x \<in> set (due T h s)" "expiry_tstamp (events s x) \<le> clk 0" for x
      proof (cases "x = e \<or> x \<in> R e")
        case False
        then have "x \<in> set (due T h s2)" using x(1) d l(5) by auto
        moreover have "clk 0 \<le> clk (Suc 0)" using mono by blast
        ultimately show ?thesis using r(6) x(2) eq(1) by fastforce
      qed auto
      ultimately show ?thesis using r(2,4,7,8) l(1,2) by (intro exI [of _ s'] exI [of _ "e # fs"]) simp
    next
      case False
      then have "clk 0 < expiry_tstamp (events s x)" if "x \<in> set (event_list (tlc s h))" for x using le [OF that] by simp
      moreover from this have "\<not> expiry_tstamp (events s x) \<le> clk 0" if "x \<in> set (due T h s)" for x
        using that by (auto simp: due_def not_le)
      moreover have "process_events (Suc f) H clk h s = Some (Done (s, 0))" using Cons False by simp
      ultimately show ?thesis using i by (intro exI [of _ s] exI [of _ "[]"]) auto
    qed
  qed
qed simp

lemma interrupt_later:
  assumes i: "timer_inv s" and clk: "\<forall>i. clk i \<le> T" "\<forall>i j. i \<le> j \<longrightarrow> clk i \<le> clk j" and f: "length (event_list (tlc s h)) < f"
  shows "\<exists>s' fs. timer_clockchip_event_handler f H clk t' h s = Some (Done s') \<and> timer_inv s' \<and> fired s' = rev fs @ fired s
    \<and> subseq fs (event_list (tlc s h)) \<and> (\<forall>i < length fs. expiry_tstamp (events s (fs ! i)) \<le> clk i)
    \<and> (\<forall>e \<in> set (event_list (tlc s h)). expiry_tstamp (events s e) \<le> clk 0 \<longrightarrow> e \<in> set fs \<or> (\<exists>y \<in> set fs. e \<in> R y))
    \<and> (\<forall>e \<in> set (event_list (tlc s' h)). clk (length fs) < expiry_tstamp (events s' e))
    \<and> (started (tlc s h) \<and> event_list (tlc s' h) \<noteq> [] \<longrightarrow>
         hd (cc (tlc s' h)) = Program_event t' (max t' (expiry_tstamp (events s' (hd (event_list (tlc s' h)))))))"
proof -
  let ?s0 = "upd_tlc h (\<lambda>c. c\<lparr>inprocess := True\<rparr>) s"
  have i0: "timer_inv ?s0" using i timer_inv_cong [of ?s0 s] by simp
  have d: "due T h ?s0 = due T h s" by (simp add: due_def)
  have "length (due T h s) < f" using f by (simp add: due_def le_less_trans [OF length_filter_le])
  then obtain s1 fs where r: "process_events f H clk h ?s0 = Some (Done (s1, length fs))" "timer_inv s1" "subseq fs (due T h s)"
    "fired s1 = rev fs @ fired s" "\<forall>i < length fs. expiry_tstamp (events s (fs ! i)) \<le> clk i"
    "\<forall>x \<in> set (due T h s). expiry_tstamp (events s x) \<le> clk 0 \<longrightarrow> x \<in> set fs \<or> (\<exists>y \<in> set fs. x \<in> R y)"
    "\<forall>x \<in> set (event_list (tlc s1 h)). clk (length fs) < expiry_tstamp (events s1 x)" "started (tlc s1 h) = started (tlc s h)"
    using process_later [OF i0 _ clk, of f] unfolding d by auto
  let ?s2 = "upd_tlc h (\<lambda>c. c\<lparr>inprocess := False\<rparr>) s1" let ?s' = "timer_schedule_next_event t' h ?s2"
  have "timer_clockchip_event_handler f H clk t' h s = Some (Done ?s')" using r(1) by (simp add: timer_clockchip_event_handler_def)
  moreover have "timer_inv ?s'" using r(2) timer_inv_cong [of ?s' ?s2] timer_inv_cong [of ?s2 s1] by simp
  moreover have "subseq fs (event_list (tlc s h))" using r(3) unfolding due_def by (rule subseq_order.trans) (rule subseq_filter_left)
  moreover have "x \<in> set (due T h s)" if "x \<in> set (event_list (tlc s h))" "expiry_tstamp (events s x) \<le> clk 0" for x
    using that clk(1) [rule_format, of 0] by (auto simp: due_def)
  moreover have "hd (cc (tlc ?s' h)) = Program_event t' (max t' (expiry_tstamp (events ?s' (hd (event_list (tlc ?s' h))))))"
    if "started (tlc s h)" "event_list (tlc ?s' h) \<noteq> []"
    using schedule_programs [of ?s2 h t'] that r(8) by (simp add: Let_def)
  ultimately show ?thesis using r(4-7) by (intro exI [of _ ?s'] exI [of _ fs]) simp
qed

end

text \<open>
  Two kinds of handlers of the source: one that does not touch the timers, and one that starts an event again, as the
  event of the scheduler does for the next time slice and its sampling event for the next sample.  \<open>r e\<close> is the event
  that the handler of \<open>e\<close> starts, at the time \<open>tm e\<close> and with the duration \<open>d e\<close>.
\<close>

definition quiet_handler :: handlers where
  "quiet_handler e s = Done s"

definition rearm_handler :: "nat \<Rightarrow> (nat \<Rightarrow> u64) \<Rightarrow> (nat \<Rightarrow> nat) \<Rightarrow> (nat \<Rightarrow> u64) \<Rightarrow> handlers" where
  "rearm_handler h tm r d e s = bind_result (vmm_timer_event_start h (tm e) (tm e) (Some (r e)) (d e) s) (\<lambda>(s1, _). Done s1)"

interpretation quiet: later_handlers quiet_handler "\<lambda>_. {}" T h for T h
  by unfold_locales (auto simp: quiet_handler_def)

interpretation rearm: timer_handlers "rearm_handler h tm r d" for h tm r d
proof
  fix s e assume "timer_inv s"
  then obtain s' where "vmm_timer_event_start h (tm e) (tm e) (Some (r e)) (d e) s = Done (s', VMM_OK)" "timer_inv s'"
    using vmm_timer_event_start_frame by blast
  then show "\<exists>s'. rearm_handler h tm r d e s = Done s' \<and> timer_inv s'" by (simp add: rearm_handler_def)
qed

lemma start_fired: "vmm_timer_event_start h t t' (Some ev) d s = Done (s', rc) \<Longrightarrow> fired s' = fired s"
  by (auto simp: vmm_timer_event_start_def timer_event_stop_def Let_def split: if_splits)

lemma start_due:
  assumes i: "timer_inv s" and r: "vmm_timer_event_start h t t' (Some ev) d s = Done (s', rc)" and T: "T < t + d"
  shows "due T h s' = remove1 ev (due T h s)" "\<forall>x \<in> set (due T h s'). events s' x = events s x"
proof -
  let ?old = "remove1 ev (event_list (tlc s h))" let ?le = "\<lambda>e. expiry_tstamp (events s e) \<le> t + d"
  have s': "events s' ev = (events s ev)\<lparr>expiry_tstamp := t + d, duration_nsecs := d, active_state := True, active_hcpu := h\<rparr>"
    "\<forall>x. x \<noteq> ev \<longrightarrow> events s' x = events s x" "event_list (tlc s' h) = takeWhile ?le ?old @ ev # dropWhile ?le ?old"
    using vmm_timer_event_start_frame [OF i, of h t t' ev d] r by (auto simp: Let_def)
  have ne: "ev \<notin> set ?old" using timer_invD(1) [OF i, of h] by simp
  have "due T h s' = filter (\<lambda>e. expiry_tstamp (events s' e) \<le> T) (takeWhile ?le ?old) @ filter (\<lambda>e. expiry_tstamp (events s' e) \<le> T) (dropWhile ?le ?old)"
    using s'(1) T by (simp add: due_def s'(3))
  also have "\<dots> = filter (\<lambda>e. expiry_tstamp (events s' e) \<le> T) ?old" by (metis filter_append takeWhile_dropWhile_id)
  also have "\<dots> = filter (\<lambda>e. expiry_tstamp (events s e) \<le> T) ?old" using ne s'(2) by (intro filter_cong) auto
  also have "\<dots> = remove1 ev (due T h s)" by (simp add: due_def filter_remove1)
  finally show "due T h s' = remove1 ev (due T h s)" .
  then have "ev \<notin> set (due T h s')" using timer_invD(1) [OF i, of h] by (simp add: due_def)
  then show "\<forall>x \<in> set (due T h s'). events s' x = events s x" using s'(2) by metis
qed

lemma rearm_later:
  assumes "\<forall>e. T < tm e + d e"
  shows "later_handlers (rearm_handler h tm r d) (\<lambda>e. {r e}) T h"
proof (intro later_handlers.intro later_handlers_axioms.intro rearm.timer_handlers_axioms)
  fix s s' e assume i: "timer_inv s" and "rearm_handler h tm r d e s = Done s'"
  then obtain rc where st: "vmm_timer_event_start h (tm e) (tm e) (Some (r e)) (d e) s = Done (s', rc)"
    by (auto simp: rearm_handler_def)
  note sd = start_due [OF i st, of T]
  have "started (tlc s' h) = started (tlc s h)" using vmm_timer_event_start_frame [OF i, of h "tm e" "tm e" "r e" "d e"] st by auto
  moreover have "set (due T h s) - {r e} \<subseteq> set (remove1 (r e) (due T h s))" using in_set_remove1 by fastforce
  ultimately show "fired s' = fired s \<and> started (tlc s' h) = started (tlc s h) \<and> subseq (due T h s') (due T h s)
      \<and> (\<forall>x \<in> set (due T h s'). events s' x = events s x) \<and> set (due T h s) - {r e} \<subseteq> set (due T h s')"
    using start_fired [OF st] sd assms by (simp add: subseq_remove1)
qed

text \<open>
  C36. The interrupt of the clock chip.  The clock does not go back and reads at most \<open>T\<close> while the interrupt is
  handled; the handlers keep the timers in order, and what they start expires after \<open>T\<close>.  Then the interrupt ends,
  after at most as many rounds as there are active events.  The events that fire are taken from the list in its order,
  which is that of expiry, each at most once and none before its time; every event that had expired when the interrupt
  began fires, unless the handler of an event that fired has stopped or restarted it; what remains active expires later
  than the last time that was read; and the clock chip is programmed for the first event that remains.  Without the
  bound on what the handlers start the loop need not end.
\<close>

theorem timer_interrupt_fires_expired:
  assumes "later_handlers H R T h" and "timer_inv s" and "\<forall>i. clk i \<le> T" and "\<forall>i j. i \<le> j \<longrightarrow> clk i \<le> clk j"
    and "length (event_list (tlc s h)) < f"
  shows "\<exists>s' fs. timer_clockchip_event_handler f H clk t' h s = Some (Done s') \<and> timer_inv s' \<and> fired s' = rev fs @ fired s
    \<and> subseq fs (event_list (tlc s h)) \<and> (\<forall>i < length fs. expiry_tstamp (events s (fs ! i)) \<le> clk i)
    \<and> (\<forall>e \<in> set (event_list (tlc s h)). expiry_tstamp (events s e) \<le> clk 0 \<longrightarrow> e \<in> set fs \<or> (\<exists>y \<in> set fs. e \<in> R y))
    \<and> (\<forall>e \<in> set (event_list (tlc s' h)). clk (length fs) < expiry_tstamp (events s' e))
    \<and> (started (tlc s h) \<and> event_list (tlc s' h) \<noteq> [] \<longrightarrow>
         hd (cc (tlc s' h)) = Program_event t' (max t' (expiry_tstamp (events s' (hd (event_list (tlc s' h)))))))"
  using assms by (rule later_handlers.interrupt_later)

text \<open>Event 1 has expired and starts itself again 100 ticks later.\<close>

theorem timer_interrupt_fires_expired_witness:
  "\<exists>s' fs. timer_clockchip_event_handler 3 (rearm_handler 0 (\<lambda>_. 15) id (\<lambda>_. 100)) (\<lambda>i. 15) 16 0 demo_timers = Some (Done s') \<and> timer_inv s'
     \<and> fired s' = rev fs \<and> subseq fs [1, 2] \<and> (1 \<in> set fs \<or> (\<exists>y \<in> set fs. y = 1))"
proof -
  have "later_handlers (rearm_handler 0 (\<lambda>_. 15) id (\<lambda>_. 100)) (\<lambda>e. {id e}) 15 0" by (rule rearm_later) simp
  moreover have "length (event_list (tlc demo_timers 0)) < 3" by (simp add: demo_timers_def)
  ultimately show ?thesis
    using timer_interrupt_fires_expired [OF _ demo_timers_inv, of _ _ 15 0 "\<lambda>i. 15" 3 16] by (fastforce simp: demo_timers_def demo_event_def)
qed

end
