(* ===== verification/Vcpu.thy ===== *)
theory Vcpu
  imports Prelude
begin

text \<open>
  The VCPU structure of \<^verbatim>\<open>core/include/vmm_manager.h\<close> and its state constants.

  VCPUs are named by their address, a natural number; pointers to a VCPU are \<open>nat option\<close> where they may
  be null.  The fields are those of \<^verbatim>\<open>struct vmm_vcpu\<close> that the scheduler, the wait queues and the
  virtual interrupts use.  Locks that are held only inside one operation are not part of the state; the
  pointer \<^verbatim>\<open>wq_lock\<close> to the lock of the wait queue a VCPU sleeps on is, because the context switch releases
  it.  The list link \<^verbatim>\<open>wq_head\<close> is the membership in the list of a wait queue.
\<close>

section \<open>States\<close>

datatype vcpu_state =
    VMM_VCPU_STATE_UNKNOWN | VMM_VCPU_STATE_RESET | VMM_VCPU_STATE_READY
  | VMM_VCPU_STATE_RUNNING | VMM_VCPU_STATE_PAUSED | VMM_VCPU_STATE_HALTED

text \<open>The masks that the source tests with a bitwise and.\<close>

definition STATE_SAVEABLE :: "vcpu_state \<Rightarrow> bool" where
  "STATE_SAVEABLE s \<longleftrightarrow> s \<in> {VMM_VCPU_STATE_RUNNING, VMM_VCPU_STATE_PAUSED, VMM_VCPU_STATE_HALTED}"

definition STATE_INTERRUPTIBLE :: "vcpu_state \<Rightarrow> bool" where
  "STATE_INTERRUPTIBLE s \<longleftrightarrow> s \<in> {VMM_VCPU_STATE_RUNNING, VMM_VCPU_STATE_READY, VMM_VCPU_STATE_PAUSED}"

definition VMM_VCPU_MIN_PRIORITY :: nat where "VMM_VCPU_MIN_PRIORITY = 0"
definition VMM_VCPU_MAX_PRIORITY :: nat where "VMM_VCPU_MAX_PRIORITY = 7"

section \<open>Structures\<close>

datatype irq_assert = DEASSERTED | ASSERTED | PENDING

record vmm_vcpu_irq =
  assertion :: irq_assert
  reason :: u64

text \<open>
  \<open>irq\<close> is the array that \<^verbatim>\<open>irq\<close> points to, \<open>None\<close> for the null pointer.  \<open>wfi_timer\<close> is the state of the
  timeout event: the time it was started with, or \<open>None\<close> when it is stopped.
\<close>

record vmm_vcpu_irqs =
  irq_count :: u32
  irq :: "vmm_vcpu_irq list option"
  execute_pending :: int
  assert_count :: u64
  execute_count :: u64
  deassert_count :: u64
  wfi_state :: bool
  wfi_timer :: "u64 option"

text \<open>
  The private data that the scheduling algorithm attaches to a VCPU: whether the entry is allocated, and
  the copy of the periodicity that the rate-monotonic algorithm keeps in it.
\<close>

record vmm_vcpu =
  vid :: u32
  is_normal :: bool
  is_poweroff :: bool
  guest :: "nat option"
  hcpu :: nat
  cpu_affinity :: "nat \<Rightarrow> bool"
  state :: vcpu_state
  state_tstamp :: u64
  state_ready_nsecs :: u64
  state_running_nsecs :: u64
  state_paused_nsecs :: u64
  state_halted_nsecs :: u64
  reset_count :: u32
  reset_tstamp :: u64
  preempt_count :: u32
  resumed :: bool
  sched_priv :: bool
  priority :: nat
  time_slice :: u64
  deadline :: u64
  periodicity :: u64
  irqs :: vmm_vcpu_irqs
  wq_lock :: "nat option"
  wq_priv :: "nat option"

end
