(* ===== verification/SchedAlgo.thy ===== *)
theory SchedAlgo
  imports Vcpu Dlist
begin

text \<open>
  The ready queues of the scheduler: the priority round-robin algorithm of
  \<^verbatim>\<open>core/schedalgo/vmm_schedalgo_prr.c\<close>, which the default configuration selects, and the priority
  rate-monotonic one of \<^verbatim>\<open>core/schedalgo/vmm_schedalgo_prm.c\<close>.

  Both implement the interface of \<^verbatim>\<open>core/include/vmm_schedalgo.h\<close>; the build links one of them.  Here the
  interface is a record of operations, so that the scheduler can be given either.  A queue maps each
  priority to the sequence of the VCPUs in it.  For the round-robin algorithm this is the doubly linked
  list, and the last section relates the operations to the pointer operations of \<open>Dlist\<close>; for the
  rate-monotonic one it is the in-order sequence of the red-black tree, which rebalancing does not
  change, with the counters beside it.

  The links of an entry are part of the entry, so adding an entry that is in a queue, or removing one that
  is not, corrupts memory: these are a \<open>Fault\<close>.  (Removing an entry whose links were initialised and never
  used is harmless in the source; the scheduler removes only entries of READY VCPUs.)
\<close>

section \<open>The interface\<close>

text \<open>
  \<open>rq_dequeue\<close> gets the time slices of the VCPUs, which the source reads through the entry.  Error codes of
  the dequeue operation are \<open>Inl\<close>.
\<close>

record 'rq schedalgo =
  algo_create :: 'rq
  algo_length :: "'rq \<Rightarrow> nat \<Rightarrow> nat"
  algo_enqueue :: "'rq \<Rightarrow> nat \<Rightarrow> vmm_vcpu \<Rightarrow> ('rq \<times> vmm_rc) result"
  algo_dequeue :: "'rq \<Rightarrow> (nat \<Rightarrow> u64) \<Rightarrow> ('rq \<times> (vmm_rc + nat \<times> u64)) result"
  algo_detach :: "'rq \<Rightarrow> nat \<Rightarrow> vmm_vcpu \<Rightarrow> ('rq \<times> vmm_rc) result"
  algo_prempt_needed :: "'rq \<Rightarrow> nat \<Rightarrow> bool"

text \<open>
  Both algorithms allocate and free the entry of a VCPU in the same way.  \<open>ok\<close> tells whether the
  allocation succeeds.
\<close>

definition vmm_schedalgo_vcpu_setup :: "bool \<Rightarrow> vmm_vcpu \<Rightarrow> vmm_vcpu \<times> vmm_rc" where
  "vmm_schedalgo_vcpu_setup ok v = (if \<not> ok then (v, VMM_EFAIL) else (v\<lparr>sched_priv := True\<rparr>, VMM_OK))"

definition vmm_schedalgo_vcpu_cleanup :: "vmm_vcpu \<Rightarrow> vmm_vcpu \<times> vmm_rc" where
  "vmm_schedalgo_vcpu_cleanup v = (if sched_priv v then (v\<lparr>sched_priv := False\<rparr>, VMM_OK) else (v, VMM_OK))"

section \<open>Priority round-robin\<close>

type_synonym prr_rq = "nat \<Rightarrow> nat list"

definition prr_rq_create :: prr_rq where
  "prr_rq_create = (\<lambda>p. [])"

definition prr_rq_length :: "prr_rq \<Rightarrow> nat \<Rightarrow> nat" where
  "prr_rq_length q p = length (q p)"

definition prr_linked :: "prr_rq \<Rightarrow> nat \<Rightarrow> bool" where
  "prr_linked q n \<longleftrightarrow> list_ex (\<lambda>p. n \<in> set (q p)) [0..<Suc VMM_VCPU_MAX_PRIORITY]"

definition prr_rq_enqueue :: "prr_rq \<Rightarrow> nat \<Rightarrow> vmm_vcpu \<Rightarrow> (prr_rq \<times> vmm_rc) result" where
  "prr_rq_enqueue q n v =
     (if \<not> sched_priv v then Done (q, VMM_EFAIL)
      else if prr_linked q n \<or> VMM_VCPU_MAX_PRIORITY < priority v then Fault
      else Done (q(priority v := q (priority v) @ [n]), VMM_OK))"

text \<open>The loop that looks for the highest priority with a queued VCPU; \<open>p\<close> counts down from above it.\<close>

fun prr_highest :: "(nat \<Rightarrow> bool) \<Rightarrow> nat \<Rightarrow> nat option" where
  "prr_highest ne 0 = None"
| "prr_highest ne (Suc p) = (if ne p then Some p else prr_highest ne p)"

definition prr_rq_dequeue :: "prr_rq \<Rightarrow> (nat \<Rightarrow> u64) \<Rightarrow> (prr_rq \<times> (vmm_rc + nat \<times> u64)) result" where
  "prr_rq_dequeue q tslice =
     (case prr_highest (\<lambda>p. q p \<noteq> []) (VMM_VCPU_MAX_PRIORITY + 1) of
        None \<Rightarrow> Done (q, Inl VMM_ENOTAVAIL)
      | Some p \<Rightarrow> Done (q(p := tl (q p)), Inr (hd (q p), tslice (hd (q p)))))"

definition prr_rq_detach :: "prr_rq \<Rightarrow> nat \<Rightarrow> vmm_vcpu \<Rightarrow> (prr_rq \<times> vmm_rc) result" where
  "prr_rq_detach q n v =
     (if \<not> sched_priv v then Done (q, VMM_EFAIL)
      else if \<not> prr_linked q n then Fault
      else Done (\<lambda>p. remove1 n (q p), VMM_OK))"

text \<open>The loop of \<^verbatim>\<open>vmm_schedalgo_rq_prempt_needed\<close>; \<open>d\<close> is the distance to the priority of the current VCPU.\<close>

fun prr_above :: "(nat \<Rightarrow> bool) \<Rightarrow> nat \<Rightarrow> nat \<Rightarrow> bool" where
  "prr_above ne cur 0 = False"
| "prr_above ne cur (Suc d) = (if ne (cur + Suc d) then True else prr_above ne cur d)"

definition prr_rq_prempt_needed :: "prr_rq \<Rightarrow> nat \<Rightarrow> bool" where
  "prr_rq_prempt_needed q cur = prr_above (\<lambda>p. q p \<noteq> []) cur (VMM_VCPU_MAX_PRIORITY - cur)"

definition prr_algo :: "prr_rq schedalgo" where
  "prr_algo = \<lparr>algo_create = prr_rq_create, algo_length = prr_rq_length, algo_enqueue = prr_rq_enqueue,
               algo_dequeue = prr_rq_dequeue, algo_detach = prr_rq_detach, algo_prempt_needed = prr_rq_prempt_needed\<rparr>"

section \<open>Priority rate-monotonic\<close>

text \<open>The sequence of \<open>(periodicity, VCPU)\<close> pairs of each tree, and the counters.\<close>

record prm_rq =
  prm_count :: "nat \<Rightarrow> u32"
  prm_root :: "nat \<Rightarrow> (u64 \<times> nat) list"

definition prm_rq_create :: prm_rq where
  "prm_rq_create = \<lparr>prm_count = (\<lambda>p. 0), prm_root = (\<lambda>p. [])\<rparr>"

definition prm_rq_length :: "prm_rq \<Rightarrow> nat \<Rightarrow> nat" where
  "prm_rq_length q p = unat (prm_count q p)"

definition prm_linked :: "prm_rq \<Rightarrow> nat \<Rightarrow> bool" where
  "prm_linked q n \<longleftrightarrow> list_ex (\<lambda>p. n \<in> snd ` set (prm_root q p)) [0..<Suc VMM_VCPU_MAX_PRIORITY]"

text \<open>The descent goes left below a larger periodicity and right otherwise.\<close>

fun prm_insert :: "u64 \<Rightarrow> nat \<Rightarrow> (u64 \<times> nat) list \<Rightarrow> (u64 \<times> nat) list" where
  "prm_insert per n [] = [(per, n)]"
| "prm_insert per n (e # es) = (if per < fst e then (per, n) # e # es else e # prm_insert per n es)"

definition prm_rq_enqueue :: "prm_rq \<Rightarrow> nat \<Rightarrow> vmm_vcpu \<Rightarrow> (prm_rq \<times> vmm_rc) result" where
  "prm_rq_enqueue q n v =
     (if \<not> sched_priv v then Done (q, VMM_EFAIL)
      else if prm_linked q n \<or> VMM_VCPU_MAX_PRIORITY < priority v then Fault
      else let p = priority v
           in Done (q\<lparr>prm_count := (prm_count q)(p := prm_count q p + 1),
                      prm_root := (prm_root q)(p := prm_insert (periodicity v) n (prm_root q p))\<rparr>, VMM_OK))"

definition prm_rq_dequeue :: "prm_rq \<Rightarrow> (nat \<Rightarrow> u64) \<Rightarrow> (prm_rq \<times> (vmm_rc + nat \<times> u64)) result" where
  "prm_rq_dequeue q tslice =
     (case prr_highest (\<lambda>p. prm_count q p \<noteq> 0) (VMM_VCPU_MAX_PRIORITY + 1) of
        None \<Rightarrow> Done (q, Inl VMM_ENOTAVAIL)
      | Some p \<Rightarrow>
          (case prm_root q p of
             [] \<Rightarrow> Done (q, Inl VMM_ENOTAVAIL)
           | e # es \<Rightarrow>
               Done (q\<lparr>prm_count := (prm_count q)(p := prm_count q p - 1), prm_root := (prm_root q)(p := es)\<rparr>,
                     Inr (snd e, tslice (snd e)))))"

definition prm_rq_detach :: "prm_rq \<Rightarrow> nat \<Rightarrow> vmm_vcpu \<Rightarrow> (prm_rq \<times> vmm_rc) result" where
  "prm_rq_detach q n v =
     (if \<not> sched_priv v then Done (q, VMM_EFAIL)
      else let p = priority v
           in if n \<notin> snd ` set (prm_root q p) then Fault
              else Done (q\<lparr>prm_count := (prm_count q)(p := prm_count q p - 1),
                           prm_root := (prm_root q)(p := filter (\<lambda>e. snd e \<noteq> n) (prm_root q p))\<rparr>, VMM_OK))"

definition prm_rq_prempt_needed :: "prm_rq \<Rightarrow> nat \<Rightarrow> bool" where
  "prm_rq_prempt_needed q cur = prr_above (\<lambda>p. prm_count q p \<noteq> 0) cur (VMM_VCPU_MAX_PRIORITY - cur)"

definition prm_algo :: "prm_rq schedalgo" where
  "prm_algo = \<lparr>algo_create = prm_rq_create, algo_length = prm_rq_length, algo_enqueue = prm_rq_enqueue,
               algo_dequeue = prm_rq_dequeue, algo_detach = prm_rq_detach, algo_prempt_needed = prm_rq_prempt_needed\<rparr>"

section \<open>The contract of a ready queue\<close>

text \<open>
  \<open>members q\<close> is the set of queued VCPUs, \<open>inv prio q\<close> says that the queue is well-formed when each queued VCPU
  has the priority that \<open>prio\<close> gives it.  The bound on the number of VCPUs is for the 32-bit counters.
\<close>

locale ready_queue =
  fixes A :: "'rq schedalgo"
    and inv :: "(nat \<Rightarrow> nat) \<Rightarrow> 'rq \<Rightarrow> bool"
    and members :: "'rq \<Rightarrow> nat set"
  assumes create: "inv prio (algo_create A)" "members (algo_create A) = {}"
    and finite_members: "inv prio q \<Longrightarrow> finite (members q)"
    and member_prio: "inv prio q \<Longrightarrow> n \<in> members q \<Longrightarrow> prio n \<le> VMM_VCPU_MAX_PRIORITY"
    and enqueue: "inv prio q \<Longrightarrow> n \<notin> members q \<Longrightarrow> sched_priv v \<Longrightarrow> priority v = prio n \<Longrightarrow>
        prio n \<le> VMM_VCPU_MAX_PRIORITY \<Longrightarrow> card (insert n (members q)) < 2 ^ 32 \<Longrightarrow>
        \<exists>q'. algo_enqueue A q n v = Done (q', VMM_OK) \<and> inv prio q' \<and> members q' = insert n (members q)"
    and dequeue_empty: "inv prio q \<Longrightarrow> members q = {} \<Longrightarrow> algo_dequeue A q ts = Done (q, Inl VMM_ENOTAVAIL)"
    and dequeue: "inv prio q \<Longrightarrow> members q \<noteq> {} \<Longrightarrow>
        \<exists>q' n. algo_dequeue A q ts = Done (q', Inr (n, ts n)) \<and> n \<in> members q
          \<and> (\<forall>m \<in> members q. prio m \<le> prio n) \<and> inv prio q' \<and> members q' = members q - {n}"
    and detach: "inv prio q \<Longrightarrow> n \<in> members q \<Longrightarrow> sched_priv v \<Longrightarrow> priority v = prio n \<Longrightarrow>
        \<exists>q'. algo_detach A q n v = Done (q', VMM_OK) \<and> inv prio q' \<and> members q' = members q - {n}"
    and prempt_needed: "inv prio q \<Longrightarrow> algo_prempt_needed A q p \<longleftrightarrow> (\<exists>m \<in> members q. p < prio m)"
    and rq_length: "inv prio q \<Longrightarrow> algo_length A q p = card {m \<in> members q. prio m = p}"

text \<open>Dequeuing until the queue is empty.\<close>

fun drain :: "'rq schedalgo \<Rightarrow> nat \<Rightarrow> 'rq \<Rightarrow> (nat \<Rightarrow> u64) \<Rightarrow> nat list option" where
  "drain A 0 q ts = None"
| "drain A (Suc f) q ts =
     (case algo_dequeue A q ts of
        Done (q', Inr (n, _)) \<Rightarrow> map_option ((#) n) (drain A f q' ts)
      | Done (q', Inl _) \<Rightarrow> Some []
      | _ \<Rightarrow> None)"

context ready_queue
begin

lemma dequeue_cases:
  assumes "inv prio q"
  obtains (empty) "members q = {}" "algo_dequeue A q ts = Done (q, Inl VMM_ENOTAVAIL)"
  | (picked) q' n where "algo_dequeue A q ts = Done (q', Inr (n, ts n))" "n \<in> members q"
      "\<And>m. m \<in> members q \<Longrightarrow> prio m \<le> prio n" "inv prio q'" "members q' = members q - {n}"
  using dequeue_empty [OF assms, of ts] dequeue [OF assms, of ts] by blast

lemma drain_order:
  "inv prio q \<Longrightarrow> card (members q) < f \<Longrightarrow>
     \<exists>xs. drain A f q ts = Some xs \<and> distinct xs \<and> set xs = members q \<and> sorted_wrt (\<lambda>a b. prio b \<le> prio a) xs"
proof (induction f arbitrary: q)
  case (Suc f)
  from Suc.prems(1) show ?case
  proof (cases rule: dequeue_cases [where ts = ts])
    case empty
    then show ?thesis by simp
  next
    case (picked q' n)
    have "card (members q') < f"
      using Suc.prems(2) picked(2,5) finite_members [OF Suc.prems(1)] card_Diff1_less [of "members q" n] by simp
    then obtain xs where "drain A f q' ts = Some xs" "distinct xs" "set xs = members q'"
      "sorted_wrt (\<lambda>a b. prio b \<le> prio a) xs" using Suc.IH [OF picked(4)] by blast
    then show ?thesis using picked by auto
  qed
qed simp

lemma length_total:
  assumes "inv prio q"
  shows "(\<Sum>p \<leftarrow> [0..<Suc VMM_VCPU_MAX_PRIORITY]. algo_length A q p) = card (members q)"
proof -
  have "card (members q) = card (\<Union>p \<in> {0..<Suc VMM_VCPU_MAX_PRIORITY}. {m \<in> members q. prio m = p})"
    using member_prio [OF assms] by (intro arg_cong [where f = card]) (auto simp: less_Suc_eq_le)
  also have "\<dots> = (\<Sum>p \<in> {0..<Suc VMM_VCPU_MAX_PRIORITY}. card {m \<in> members q. prio m = p})"
    using finite_members [OF assms] by (intro card_UN_disjoint) auto
  finally show ?thesis by (simp add: rq_length [OF assms] interv_sum_list_conv_sum_set_nat)
qed

end

section \<open>Both algorithms keep the contract\<close>

lemma prr_highest_Some: "prr_highest ne k = Some p \<longleftrightarrow> p < k \<and> ne p \<and> (\<forall>r < k. p < r \<longrightarrow> \<not> ne r)"
  by (induction k) (auto simp: less_Suc_eq)

lemma prr_highest_None: "prr_highest ne k = None \<longleftrightarrow> (\<forall>r < k. \<not> ne r)"
  by (induction k) (auto simp: less_Suc_eq)

lemma prr_above_iff: "prr_above ne cur d \<longleftrightarrow> (\<exists>p. cur < p \<and> p \<le> cur + d \<and> ne p)"
proof (induction d)
  case (Suc d)
  have "(\<exists>p. cur < p \<and> p \<le> cur + Suc d \<and> ne p) \<longleftrightarrow> ne (cur + Suc d) \<or> (\<exists>p. cur < p \<and> p \<le> cur + d \<and> ne p)"
    by (metis add_Suc_right le_Suc_eq less_Suc_eq_le le_add1)
  then show ?case using Suc by simp
qed auto

definition prr_members :: "prr_rq \<Rightarrow> nat set" where
  "prr_members q = (\<Union>p. set (q p))"

definition prr_inv :: "(nat \<Rightarrow> nat) \<Rightarrow> prr_rq \<Rightarrow> bool" where
  "prr_inv prio q \<longleftrightarrow> (\<forall>p. distinct (q p)) \<and> (\<forall>p. \<forall>n \<in> set (q p). prio n = p \<and> p \<le> VMM_VCPU_MAX_PRIORITY)"

lemma prr_members_iff: "prr_inv prio q \<Longrightarrow> n \<in> prr_members q \<longleftrightarrow> n \<in> set (q (prio n))"
  by (auto simp: prr_inv_def prr_members_def)

lemma prr_invD: "prr_inv prio q \<Longrightarrow> n \<in> set (q p) \<Longrightarrow> prio n = p"
  by (simp add: prr_inv_def)

lemma prr_invD2: "prr_inv prio q \<Longrightarrow> n \<in> set (q p) \<Longrightarrow> p \<le> VMM_VCPU_MAX_PRIORITY"
  by (simp add: prr_inv_def)

lemma prr_linked_iff: "prr_inv prio q \<Longrightarrow> prr_linked q n \<longleftrightarrow> n \<in> prr_members q"
proof -
  assume i: "prr_inv prio q"
  have "prr_linked q n \<longleftrightarrow> (\<exists>p \<le> VMM_VCPU_MAX_PRIORITY. n \<in> set (q p))"
    by (auto simp: prr_linked_def list_ex_iff Bex_def less_Suc_eq_le simp del: upt_Suc)
  then show ?thesis using i by (auto simp: prr_inv_def prr_members_def)
qed

interpretation prr: ready_queue prr_algo prr_inv prr_members
proof
  fix prio :: "nat \<Rightarrow> nat" and q :: prr_rq and v :: vmm_vcpu and n ts p
  show "prr_inv prio (algo_create prr_algo)" "prr_members (algo_create prr_algo) = {}"
    by (simp_all add: prr_algo_def prr_rq_create_def prr_inv_def prr_members_def)
  assume i: "prr_inv prio q"
  have "prr_members q = (\<Union>p \<in> {..VMM_VCPU_MAX_PRIORITY}. set (q p))"
    using i by (auto simp: prr_members_def prr_inv_def)
  then show "finite (prr_members q)" by simp
  show "n \<in> prr_members q \<Longrightarrow> prio n \<le> VMM_VCPU_MAX_PRIORITY" using i by (auto simp: prr_inv_def prr_members_def)
  { assume "n \<notin> prr_members q" "sched_priv v" "priority v = prio n" "prio n \<le> VMM_VCPU_MAX_PRIORITY"
    then show "\<exists>q'. algo_enqueue prr_algo q n v = Done (q', VMM_OK) \<and> prr_inv prio q'
        \<and> prr_members q' = insert n (prr_members q)"
      using i prr_linked_iff [OF i]
      by (auto simp: prr_algo_def prr_rq_enqueue_def prr_inv_def prr_members_def split: if_splits) }
  { assume "prr_members q = {}"
    then have "prr_highest (\<lambda>p. q p \<noteq> []) (VMM_VCPU_MAX_PRIORITY + 1) = None"
      unfolding prr_highest_None by (simp add: prr_members_def)
    then show "algo_dequeue prr_algo q ts = Done (q, Inl VMM_ENOTAVAIL)"
      by (simp add: prr_algo_def prr_rq_dequeue_def) }
  { assume ne: "prr_members q \<noteq> {}"
    have "prr_highest (\<lambda>p. q p \<noteq> []) (VMM_VCPU_MAX_PRIORITY + 1) \<noteq> None"
      using ne i unfolding prr_highest_None by (fastforce simp: prr_members_def prr_inv_def less_Suc_eq_le)
    then obtain r where r: "prr_highest (\<lambda>p. q p \<noteq> []) (VMM_VCPU_MAX_PRIORITY + 1) = Some r" by auto
    then have h: "q r \<noteq> []" "\<And>s. r < s \<Longrightarrow> s \<le> VMM_VCPU_MAX_PRIORITY \<Longrightarrow> q s = []"
      unfolding prr_highest_Some by auto
    let ?n = "hd (q r)" let ?q = "q(r := tl (q r))"
    have "prio ?n = r" using i h(1) by (simp add: prr_inv_def)
    moreover have "\<forall>m \<in> prr_members q. prio m \<le> r"
      using i h(2) by (auto simp: prr_members_def prr_inv_def) (metis empty_iff list.set(1) not_less)
    moreover have "prr_inv prio ?q"
      using i list.set_sel(2) [OF h(1)] by (auto simp: prr_inv_def distinct_tl)
    moreover have same: "p = r" if "?n \<in> set (q p)" for p
      using prr_invD [OF i that] prr_invD [OF i hd_in_set [OF h(1)]] by simp
    then have "x \<in> set (?q p) \<longleftrightarrow> x \<in> set (q p) \<and> x \<noteq> ?n" for x p
      using i h(1) set_tl_distinct [of "q r"] by (cases "p = r") (auto simp: prr_inv_def)
    then have "prr_members ?q = prr_members q - {?n}"
      by (auto simp: prr_members_def simp del: fun_upd_apply)
    moreover have "?n \<in> prr_members q" using hd_in_set [OF h(1)] unfolding prr_members_def by blast
    ultimately show "\<exists>q' n. algo_dequeue prr_algo q ts = Done (q', Inr (n, ts n)) \<and> n \<in> prr_members q
        \<and> (\<forall>m \<in> prr_members q. prio m \<le> prio n) \<and> prr_inv prio q' \<and> prr_members q' = prr_members q - {n}"
      using r by (auto simp: prr_algo_def prr_rq_dequeue_def) }
  { assume "n \<in> prr_members q" "sched_priv v" "priority v = prio n"
    then show "\<exists>q'. algo_detach prr_algo q n v = Done (q', VMM_OK) \<and> prr_inv prio q'
        \<and> prr_members q' = prr_members q - {n}"
      using i prr_linked_iff [OF i]
      by (auto simp: prr_algo_def prr_rq_detach_def prr_inv_def prr_members_def) }
  show "algo_prempt_needed prr_algo q p \<longleftrightarrow> (\<exists>m \<in> prr_members q. p < prio m)"
  proof
    assume "algo_prempt_needed prr_algo q p"
    then obtain r where "p < r" "q r \<noteq> []" by (auto simp: prr_algo_def prr_rq_prempt_needed_def prr_above_iff)
    then have "hd (q r) \<in> prr_members q" "p < prio (hd (q r))"
      using prr_invD [OF i, of "hd (q r)" r] by (auto simp: prr_members_def intro!: exI [of _ r])
    then show "\<exists>m \<in> prr_members q. p < prio m" by blast
  next
    assume "\<exists>m \<in> prr_members q. p < prio m"
    then obtain m where m: "p < prio m" "m \<in> set (q (prio m))" by (auto simp: prr_members_iff [OF i])
    then have "q (prio m) \<noteq> []" "prio m \<le> VMM_VCPU_MAX_PRIORITY" using prr_invD2 [OF i m(2)] by auto
    then show "algo_prempt_needed prr_algo q p" using m(1)
      by (auto simp: prr_algo_def prr_rq_prempt_needed_def prr_above_iff intro!: exI [of _ "prio m"])
  qed
  show "algo_length prr_algo q p = card {m \<in> prr_members q. prio m = p}"
  proof -
    have "{m \<in> prr_members q. prio m = p} = set (q p)" using i by (auto simp: prr_inv_def prr_members_def)
    then show ?thesis using i by (simp add: prr_algo_def prr_rq_length_def prr_inv_def distinct_card)
  qed
qed

definition prm_members :: "prm_rq \<Rightarrow> nat set" where
  "prm_members q = (\<Union>p. snd ` set (prm_root q p))"

definition prm_inv :: "(nat \<Rightarrow> nat) \<Rightarrow> prm_rq \<Rightarrow> bool" where
  "prm_inv prio q \<longleftrightarrow> (\<forall>p. distinct (map snd (prm_root q p))) \<and> (\<forall>p. sorted (map fst (prm_root q p)))
     \<and> (\<forall>p. unat (prm_count q p) = length (prm_root q p))
     \<and> (\<forall>p. \<forall>e \<in> set (prm_root q p). prio (snd e) = p \<and> p \<le> VMM_VCPU_MAX_PRIORITY)"

lemma set_prm_insert: "set (prm_insert per n es) = insert (per, n) (set es)"
  by (induction es) auto

lemma length_prm_insert: "length (prm_insert per n es) = Suc (length es)"
  by (induction es) auto

lemma sorted_prm_insert: "sorted (map fst es) \<Longrightarrow> sorted (map fst (prm_insert per n es))"
proof (induction es)
  case (Cons e es)
  then show ?case by (auto simp: set_prm_insert)
qed simp

lemma distinct_prm_insert:
  "distinct (map snd es) \<Longrightarrow> n \<notin> snd ` set es \<Longrightarrow> distinct (map snd (prm_insert per n es))"
  by (induction es) (auto simp: set_prm_insert)

lemma prm_invD: "prm_inv prio q \<Longrightarrow> (per, n) \<in> set (prm_root q p) \<Longrightarrow> p = prio n \<and> prio n \<le> VMM_VCPU_MAX_PRIORITY"
  by (fastforce simp: prm_inv_def)

lemma prm_members_iff: "n \<in> prm_members q \<longleftrightarrow> (\<exists>p per. (per, n) \<in> set (prm_root q p))"
  by (force simp: prm_members_def)

lemma prm_linked_iff: "prm_inv prio q \<Longrightarrow> prm_linked q n \<longleftrightarrow> n \<in> prm_members q"
proof -
  assume i: "prm_inv prio q"
  have "prm_linked q n \<longleftrightarrow> (\<exists>p per. p \<le> VMM_VCPU_MAX_PRIORITY \<and> (per, n) \<in> set (prm_root q p))"
    by (force simp: prm_linked_def list_ex_iff Bex_def less_Suc_eq_le simp del: upt_Suc)
  then show ?thesis using prm_invD [OF i] by (metis prm_members_iff)
qed

lemma prm_count_zero: "prm_inv prio q \<Longrightarrow> prm_count q p = 0 \<longleftrightarrow> prm_root q p = []"
  unfolding prm_inv_def by (metis length_0_conv unat_eq_0)

lemma prm_at: "prm_inv prio q \<Longrightarrow> {m \<in> prm_members q. prio m = p} = snd ` set (prm_root q p)"
  by (force simp: prm_members_iff dest: prm_invD)

lemma prm_finite: "prm_inv prio q \<Longrightarrow> finite (prm_members q)"
proof -
  assume i: "prm_inv prio q"
  have "prm_members q \<subseteq> (\<Union>p \<in> {..VMM_VCPU_MAX_PRIORITY}. snd ` set (prm_root q p))"
    by (force simp: prm_members_iff dest: prm_invD [OF i])
  then show ?thesis by (rule finite_subset) simp
qed

lemma prm_enqueue_ok:
  assumes i: "prm_inv prio q" and n: "n \<notin> prm_members q" and v: "sched_priv v" "priority v = prio n"
    and p: "prio n \<le> VMM_VCPU_MAX_PRIORITY" and c: "card (insert n (prm_members q)) < 2 ^ 32"
  shows "\<exists>q'. prm_rq_enqueue q n v = Done (q', VMM_OK) \<and> prm_inv prio q' \<and> prm_members q' = insert n (prm_members q)"
proof -
  let ?es = "prm_root q (prio n)"
  let ?q = "q\<lparr>prm_count := (prm_count q)(prio n := prm_count q (prio n) + 1),
              prm_root := (prm_root q)(prio n := prm_insert (periodicity v) n ?es)\<rparr>"
  have "length ?es = card (snd ` set ?es)" using i distinct_card [of "map snd ?es"] by (simp add: prm_inv_def)
  also have "\<dots> \<le> card (prm_members q)" by (intro card_mono prm_finite [OF i]) (auto simp: prm_members_def)
  finally have "unat (prm_count q (prio n)) + 1 < 2 ^ 32"
    using c n i prm_finite [OF i] by (simp add: prm_inv_def)
  then have "unat (prm_count q (prio n) + 1) = Suc (length ?es)" using i by (simp add: unat_add_one prm_inv_def)
  then have "prm_inv prio ?q" using i n p
    by (auto simp: prm_inv_def length_prm_insert set_prm_insert sorted_prm_insert prm_members_def
        intro!: distinct_prm_insert)
  moreover have "(per, x) \<in> set (prm_root ?q p)
      \<longleftrightarrow> (per, x) \<in> set (prm_root q p) \<or> p = prio n \<and> per = periodicity v \<and> x = n" for per x p
    by (auto simp: set_prm_insert)
  then have "prm_members ?q = insert n (prm_members q)"
    unfolding set_eq_iff insert_iff prm_members_iff by metis
  moreover have "prm_rq_enqueue q n v = Done (?q, VMM_OK)"
    using v p n prm_linked_iff [OF i] by (simp add: prm_rq_enqueue_def Let_def)
  ultimately show ?thesis by blast
qed

lemma prm_remove:
  assumes i: "prm_inv prio q" and e: "e \<in> set (prm_root q p)" "snd e = n"
    and es: "set es = set (prm_root q p) - {e}" "Suc (length es) = length (prm_root q p)"
      "distinct (map snd es)" "sorted (map fst es)"
    and q': "q' = q\<lparr>prm_count := (prm_count q)(p := prm_count q p - 1), prm_root := (prm_root q)(p := es)\<rparr>"
  shows "prm_inv prio q' \<and> prm_members q' = prm_members q - {n}"
proof
  have "unat (prm_count q p) = Suc (length es)" using i es(2) by (simp add: prm_inv_def)
  then have "unat (prm_count q p - 1) = length es" by (subst unat_sub_one) auto
  then show "prm_inv prio q'" using i es unfolding q' by (auto simp: prm_inv_def)
  have a: "n \<notin> snd ` set es"
  proof
    assume "n \<in> snd ` set es"
    then obtain f where f: "f \<in> set es" "snd f = n" by auto
    then have "f \<in> set (prm_root q p)" "f \<noteq> e" using es(1) by auto
    then show False using i e f(2) by (auto simp: prm_inv_def distinct_map inj_on_def)
  qed
  have b: "n \<notin> snd ` set (prm_root q r)" if "r \<noteq> p" for r
    using that i e by (metis (no_types, opaque_lifting) imageE prm_inv_def)
  have "(per, x) \<in> set (prm_root q' r) \<longleftrightarrow> (per, x) \<in> set (prm_root q r) \<and> x \<noteq> n" for per x r
  proof (cases "r = p")
    case True
    have "x \<noteq> n" if "(per, x) \<in> set es" using a that by force
    moreover have "(per, x) \<noteq> e" if "x \<noteq> n" using e(2) that by auto
    ultimately show ?thesis using es(1) True unfolding q' by auto
  next
    case False
    have "x \<noteq> n" if "(per, x) \<in> set (prm_root q r)" using b [OF False] that by force
    then show ?thesis using False unfolding q' by auto
  qed
  then show "prm_members q' = prm_members q - {n}"
    unfolding set_eq_iff Diff_iff prm_members_iff by blast
qed

interpretation prm: ready_queue prm_algo prm_inv prm_members
proof
  fix prio :: "nat \<Rightarrow> nat" and q :: prm_rq and v :: vmm_vcpu and n ts p
  show "prm_inv prio (algo_create prm_algo)" "prm_members (algo_create prm_algo) = {}"
    by (simp_all add: prm_algo_def prm_rq_create_def prm_inv_def prm_members_def)
  assume i: "prm_inv prio q"
  show "finite (prm_members q)" by (rule prm_finite [OF i])
  show "n \<in> prm_members q \<Longrightarrow> prio n \<le> VMM_VCPU_MAX_PRIORITY" using prm_invD [OF i] by (auto simp: prm_members_iff)
  show "n \<notin> prm_members q \<Longrightarrow> sched_priv v \<Longrightarrow> priority v = prio n \<Longrightarrow> prio n \<le> VMM_VCPU_MAX_PRIORITY \<Longrightarrow>
      card (insert n (prm_members q)) < 2 ^ 32 \<Longrightarrow>
      \<exists>q'. algo_enqueue prm_algo q n v = Done (q', VMM_OK) \<and> prm_inv prio q' \<and> prm_members q' = insert n (prm_members q)"
    using prm_enqueue_ok [OF i] by (simp add: prm_algo_def)
  { assume "prm_members q = {}"
    then have "prr_highest (\<lambda>p. prm_count q p \<noteq> 0) (VMM_VCPU_MAX_PRIORITY + 1) = None"
      unfolding prr_highest_None by (simp add: prm_members_def prm_count_zero [OF i])
    then show "algo_dequeue prm_algo q ts = Done (q, Inl VMM_ENOTAVAIL)"
      by (simp add: prm_algo_def prm_rq_dequeue_def) }
  { assume "prm_members q \<noteq> {}"
    then obtain m where "m \<in> prm_members q" by blast
    then obtain per where m: "(per, m) \<in> set (prm_root q (prio m))" "prio m \<le> VMM_VCPU_MAX_PRIORITY"
      using prm_invD [OF i] by (metis prm_members_iff)
    then have "prr_highest (\<lambda>p. prm_count q p \<noteq> 0) (VMM_VCPU_MAX_PRIORITY + 1) \<noteq> None"
      unfolding prr_highest_None using prm_count_zero [OF i, of "prio m"]
      by (metis empty_iff le_imp_less_Suc list.set(1) Suc_eq_plus1)
    then obtain r where r: "prr_highest (\<lambda>p. prm_count q p \<noteq> 0) (VMM_VCPU_MAX_PRIORITY + 1) = Some r" by auto
    then have h: "prm_root q r \<noteq> []" "\<And>s. r < s \<Longrightarrow> s \<le> VMM_VCPU_MAX_PRIORITY \<Longrightarrow> prm_root q s = []"
      unfolding prr_highest_Some prm_count_zero [OF i] by auto
    obtain e es where e: "prm_root q r = e # es" using h(1) by (cases "prm_root q r") auto
    let ?q = "q\<lparr>prm_count := (prm_count q)(r := prm_count q r - 1), prm_root := (prm_root q)(r := es)\<rparr>"
    have d: "distinct (map snd (e # es))" "sorted (map fst (e # es))" using i e unfolding prm_inv_def by metis+
    then have "prm_inv prio ?q \<and> prm_members ?q = prm_members q - {snd e}"
      using e by (intro prm_remove [OF i, where e = e and es = es and p = r]) auto
    moreover have "prio (snd e) = r" using i e by (simp add: prm_inv_def)
    moreover have "\<forall>m \<in> prm_members q. prio m \<le> r"
      using h(2) prm_invD [OF i] by (metis empty_iff list.set(1) not_less prm_members_iff)
    moreover have "snd e \<in> prm_members q" using e by (auto simp: prm_members_def intro!: exI [of _ r])
    ultimately show "\<exists>q' n. algo_dequeue prm_algo q ts = Done (q', Inr (n, ts n)) \<and> n \<in> prm_members q
        \<and> (\<forall>m \<in> prm_members q. prio m \<le> prio n) \<and> prm_inv prio q' \<and> prm_members q' = prm_members q - {n}"
      using r e by (auto simp: prm_algo_def prm_rq_dequeue_def) }
  { assume n: "n \<in> prm_members q" and v: "sched_priv v" "priority v = prio n"
    then obtain e where e: "e \<in> set (prm_root q (prio n))" "snd e = n"
      using prm_invD [OF i] by (metis prm_members_iff snd_conv)
    let ?es = "filter (\<lambda>e. snd e \<noteq> n) (prm_root q (prio n))"
    have d: "distinct (map snd (prm_root q (prio n)))" "sorted (map fst (prm_root q (prio n)))"
      using i by (simp_all add: prm_inv_def)
    have f: "f = e" if "f \<in> set (prm_root q (prio n))" "snd f = n" for f
      using d(1) e that unfolding distinct_map by (metis inj_onD)
    have s: "set ?es = set (prm_root q (prio n)) - {e}" using e(2) f by (auto simp only: set_filter)
    have dd: "distinct (prm_root q (prio n))" using d(1) by (simp add: distinct_map)
    have "length ?es = card (set ?es)" using dd by (intro distinct_card [symmetric]) simp
    also have "\<dots> = length (prm_root q (prio n)) - 1" using e(1) dd unfolding s by (simp add: distinct_card)
    finally have l: "Suc (length ?es) = length (prm_root q (prio n))" using e(1) by (cases "prm_root q (prio n)") auto
    have "distinct (map snd ?es)" "sorted (map fst ?es)" using d by (simp_all add: distinct_map_filter sorted_filter)
    from prm_remove [OF i e s l this refl]
    show "\<exists>q'. algo_detach prm_algo q n v = Done (q', VMM_OK) \<and> prm_inv prio q' \<and> prm_members q' = prm_members q - {n}"
      using v e by (auto simp: prm_algo_def prm_rq_detach_def Let_def) }
  show "algo_prempt_needed prm_algo q p \<longleftrightarrow> (\<exists>m \<in> prm_members q. p < prio m)"
  proof
    assume "algo_prempt_needed prm_algo q p"
    then obtain r where "p < r" "prm_root q r \<noteq> []"
      by (auto simp: prm_algo_def prm_rq_prempt_needed_def prr_above_iff prm_count_zero [OF i])
    then show "\<exists>m \<in> prm_members q. p < prio m"
      using prm_invD [OF i] by (metis list.set_intros(1) neq_Nil_conv prm_members_iff surj_pair)
  next
    assume "\<exists>m \<in> prm_members q. p < prio m"
    then obtain m per where "p < prio m" "(per, m) \<in> set (prm_root q (prio m))" "prio m \<le> VMM_VCPU_MAX_PRIORITY"
      using prm_invD [OF i] by (metis prm_members_iff)
    then show "algo_prempt_needed prm_algo q p"
      by (auto simp: prm_algo_def prm_rq_prempt_needed_def prr_above_iff prm_count_zero [OF i] intro!: exI [of _ "prio m"])
  qed
  show "algo_length prm_algo q p = card {m \<in> prm_members q. prio m = p}"
    using i distinct_card [of "map snd (prm_root q p)"] unfolding prm_at [OF i]
    by (simp add: prm_algo_def prm_rq_length_def prm_inv_def)
qed

section \<open>Properties of the two algorithms\<close>

definition enqueue_all :: "'rq schedalgo \<Rightarrow> 'rq \<Rightarrow> (nat \<Rightarrow> vmm_vcpu) \<Rightarrow> nat list \<Rightarrow> 'rq result" where
  "enqueue_all A q vs ns = foldl (\<lambda>r n. bind_result r (\<lambda>q. bind_result (algo_enqueue A q n (vs n)) (\<lambda>(q', _). Done q')))
     (Done q) ns"

context ready_queue
begin

lemma enqueue_all_ok:
  assumes "inv prio q" and "distinct ns" and "set ns \<inter> members q = {}" and "card (members q \<union> set ns) < 2 ^ 32"
    and "\<And>n. n \<in> set ns \<Longrightarrow> sched_priv (vs n) \<and> priority (vs n) = prio n \<and> prio n \<le> VMM_VCPU_MAX_PRIORITY"
  shows "\<exists>q'. enqueue_all A q vs ns = Done q' \<and> inv prio q' \<and> members q' = members q \<union> set ns"
  using assms
proof (induction ns arbitrary: q)
  case (Cons n ns)
  have "card (insert n (members q)) \<le> card (members q \<union> set (n # ns))"
    using finite_members [OF Cons.prems(1)] by (intro card_mono) auto
  then obtain q' where q': "algo_enqueue A q n (vs n) = Done (q', VMM_OK)" "inv prio q'" "members q' = insert n (members q)"
    using enqueue [OF Cons.prems(1), of n "vs n"] Cons.prems by auto
  have "set ns \<inter> members q' = {}" "card (members q' \<union> set ns) < 2 ^ 32" "members q' \<union> set ns = members q \<union> set (n # ns)"
    using Cons.prems(2,3,4) q'(3) by auto
  then show ?case using Cons.IH [OF q'(2)] Cons.prems q' by (simp add: enqueue_all_def)
qed (simp add: enqueue_all_def)

lemma enqueue_drain:
  assumes "distinct ns" and "length ns < 2 ^ 32"
    and "\<And>n. n \<in> set ns \<Longrightarrow> sched_priv (vs n) \<and> priority (vs n) = prio n \<and> prio n \<le> VMM_VCPU_MAX_PRIORITY"
  shows "\<exists>q xs. enqueue_all A (algo_create A) vs ns = Done q \<and> drain A (Suc (length ns)) q ts = Some xs
     \<and> distinct xs \<and> set xs = set ns \<and> sorted_wrt (\<lambda>a b. prio b \<le> prio a) xs"
proof -
  obtain q where q: "enqueue_all A (algo_create A) vs ns = Done q" "inv prio q" "members q = set ns"
    using enqueue_all_ok [OF create(1) assms(1), of vs prio] assms(2,3) distinct_card [OF assms(1)] create(2) by auto
  have "card (members q) < Suc (length ns)" using q(3) distinct_card [OF assms(1)] by simp
  then show ?thesis using drain_order [OF q(2)] q by blast
qed

end

text \<open>
  C33. Both ready queues hand out every VCPU that was queued exactly once, and in the order of decreasing
  priority: enqueueing any distinct VCPUs with valid priorities succeeds, and dequeuing until the queue is
  empty returns a permutation of them sorted by priority.
\<close>

theorem ready_queues_by_priority:
  assumes "distinct ns" and "length ns < 2 ^ 32"
    and "\<forall>n \<in> set ns. sched_priv (vs n) \<and> priority (vs n) \<le> VMM_VCPU_MAX_PRIORITY"
  shows "(\<exists>q xs. enqueue_all prr_algo prr_rq_create vs ns = Done q \<and> drain prr_algo (Suc (length ns)) q ts = Some xs
       \<and> distinct xs \<and> set xs = set ns \<and> sorted_wrt (\<lambda>a b. priority (vs b) \<le> priority (vs a)) xs)
    \<and> (\<exists>q xs. enqueue_all prm_algo prm_rq_create vs ns = Done q \<and> drain prm_algo (Suc (length ns)) q ts = Some xs
       \<and> distinct xs \<and> set xs = set ns \<and> sorted_wrt (\<lambda>a b. priority (vs b) \<le> priority (vs a)) xs)"
proof -
  have "prr_rq_create = algo_create prr_algo" "prm_rq_create = algo_create prm_algo"
    by (simp_all add: prr_algo_def prm_algo_def)
  then show ?thesis
    using prr.enqueue_drain [OF assms(1,2), of vs "\<lambda>n. priority (vs n)" ts]
      prm.enqueue_drain [OF assms(1,2), of vs "\<lambda>n. priority (vs n)" ts] assms(3) by simp
qed

definition sample_vcpu :: vmm_vcpu where
  "sample_vcpu = \<lparr>vid = 0, is_normal = True, is_poweroff = False, guest = None, hcpu = 0, cpu_affinity = (\<lambda>_. True),
     state = VMM_VCPU_STATE_READY, state_tstamp = 0, state_ready_nsecs = 0, state_running_nsecs = 0,
     state_paused_nsecs = 0, state_halted_nsecs = 0, reset_count = 0, reset_tstamp = 0, preempt_count = 0,
     resumed = False, sched_priv = True, priority = 3, time_slice = 10, deadline = 100, periodicity = 1000,
     irqs = \<lparr>irq_count = 0, irq = None, execute_pending = 0, assert_count = 0, execute_count = 0, deassert_count = 0,
             wfi_state = False, wfi_timer = None\<rparr>, wq_lock = None, wq_priv = None\<rparr>"

theorem ready_queues_by_priority_witness:
  "\<exists>q xs. enqueue_all prr_algo prr_rq_create (\<lambda>n. sample_vcpu\<lparr>priority := n\<rparr>) [2, 5, 1] = Done q
     \<and> drain prr_algo (Suc (length [2, 5, 1 :: nat])) q (\<lambda>_. 10) = Some xs \<and> set xs = set [2, 5, 1]"
proof -
  have "\<forall>n \<in> set [2, 5, 1]. sched_priv (sample_vcpu\<lparr>priority := n\<rparr>) \<and> priority (sample_vcpu\<lparr>priority := n\<rparr>) \<le> VMM_VCPU_MAX_PRIORITY"
    by (simp add: VMM_VCPU_MAX_PRIORITY_def sample_vcpu_def)
  from ready_queues_by_priority [OF _ _ this, of "\<lambda>_. 10"] show ?thesis by force
qed

section \<open>Round-robin order\<close>

fun dequeue_n :: "'rq schedalgo \<Rightarrow> nat \<Rightarrow> 'rq \<Rightarrow> (nat \<Rightarrow> u64) \<Rightarrow> nat list option" where
  "dequeue_n A 0 q ts = Some []"
| "dequeue_n A (Suc k) q ts =
     (case algo_dequeue A q ts of
        Done (q', Inr (n, _)) \<Rightarrow> map_option ((#) n) (dequeue_n A k q' ts)
      | _ \<Rightarrow> None)"

lemma prr_dequeue_hd:
  assumes "p \<le> VMM_VCPU_MAX_PRIORITY" and "q p = x # xs" and "\<forall>r. p < r \<longrightarrow> q r = []"
  shows "prr_rq_dequeue q ts = Done (q(p := xs), Inr (x, ts x))"
proof -
  have "prr_highest (\<lambda>p. q p \<noteq> []) (VMM_VCPU_MAX_PRIORITY + 1) = Some p"
    unfolding prr_highest_Some using assms by auto
  then show ?thesis using assms(2) by (simp add: prr_rq_dequeue_def)
qed

lemma prr_dequeue_n:
  "p \<le> VMM_VCPU_MAX_PRIORITY \<Longrightarrow> q p = xs \<Longrightarrow> \<forall>r. p < r \<longrightarrow> q r = [] \<Longrightarrow> dequeue_n prr_algo (length xs) q ts = Some xs"
proof (induction xs arbitrary: q)
  case (Cons x xs)
  have "prr_rq_dequeue q ts = Done (q(p := xs), Inr (x, ts x))" using Cons.prems by (rule prr_dequeue_hd)
  moreover have "dequeue_n prr_algo (length xs) (q(p := xs)) ts = Some xs" using Cons.prems by (intro Cons.IH) auto
  ultimately show ?case by (simp add: prr_algo_def)
qed simp

text \<open>
  Within one priority the default algorithm is round-robin: a VCPU that is put back is served after
  all VCPUs that already wait at its priority.  When nothing waits at a higher priority, the next dequeues
  return the waiting VCPUs in their order and then the one that was put back.
\<close>

theorem prr_round_robin:
  assumes "prr_inv prio q" and "n \<notin> prr_members q" and "sched_priv v" and "priority v \<le> VMM_VCPU_MAX_PRIORITY"
    and "\<forall>r. priority v < r \<longrightarrow> q r = []"
  shows "\<exists>q'. prr_rq_enqueue q n v = Done (q', VMM_OK)
     \<and> dequeue_n prr_algo (Suc (length (q (priority v)))) q' ts = Some (q (priority v) @ [n])"
proof -
  let ?q = "q(priority v := q (priority v) @ [n])"
  have "prr_rq_enqueue q n v = Done (?q, VMM_OK)"
    using assms prr_linked_iff [OF assms(1)] by (simp add: prr_rq_enqueue_def)
  moreover have "dequeue_n prr_algo (length (q (priority v) @ [n])) ?q ts = Some (q (priority v) @ [n])"
    using assms(4,5) by (intro prr_dequeue_n) auto
  ultimately show ?thesis by (simp del: dequeue_n.simps)
qed

theorem prr_round_robin_witness:
  "\<exists>q'. prr_rq_enqueue (prr_rq_create(3 := [7, 4])) 9 sample_vcpu = Done (q', VMM_OK)
     \<and> dequeue_n prr_algo (Suc (length [7, 4 :: nat])) q' (\<lambda>_. 10) = Some ([7, 4] @ [9])"
proof -
  have p: "priority sample_vcpu = 3" "sched_priv sample_vcpu" by (simp_all add: sample_vcpu_def)
  have "prr_inv (\<lambda>_. 3) (prr_rq_create(3 := [7, 4]))" "9 \<notin> prr_members (prr_rq_create(3 := [7, 4]))"
    by (auto simp: prr_inv_def prr_rq_create_def prr_members_def VMM_VCPU_MAX_PRIORITY_def)
  from prr_round_robin [OF this p(2), of "\<lambda>_. 10"] p(1) show ?thesis
    by (simp add: prr_rq_create_def VMM_VCPU_MAX_PRIORITY_def del: dequeue_n.simps)
qed

section \<open>The round-robin queue as linked lists\<close>

text \<open>
  The operations on the pointers: \<open>heads p\<close> is the address of \<^verbatim>\<open>rqi->list[p]\<close> and \<open>ent n\<close> the address of the
  entry of VCPU \<open>n\<close>.
\<close>

definition prr_links_enqueue :: "(nat \<Rightarrow> addr) \<Rightarrow> (nat \<Rightarrow> addr) \<Rightarrow> nat \<Rightarrow> nat \<Rightarrow> dheap \<Rightarrow> dheap" where
  "prr_links_enqueue heads ent n p h = list_add_tail (ent n) (heads p) h"

definition prr_links_dequeue :: "(nat \<Rightarrow> addr) \<Rightarrow> dheap \<Rightarrow> (addr \<times> dheap) option" where
  "prr_links_dequeue heads h =
     map_option (\<lambda>p. let e = list_first (heads p) h in (e, list_del e h))
       (prr_highest (\<lambda>p. \<not> list_empty (heads p) h) (VMM_VCPU_MAX_PRIORITY + 1))"

definition prr_links_detach :: "(nat \<Rightarrow> addr) \<Rightarrow> nat \<Rightarrow> dheap \<Rightarrow> dheap" where
  "prr_links_detach ent n h = list_del (ent n) h"

definition prr_rep :: "(nat \<Rightarrow> addr) \<Rightarrow> (nat \<Rightarrow> addr) \<Rightarrow> dheap \<Rightarrow> prr_rq \<Rightarrow> bool" where
  "prr_rep heads ent h q \<longleftrightarrow>
     (\<forall>p \<le> VMM_VCPU_MAX_PRIORITY. dl h (heads p) (map ent (q p)))
     \<and> (\<forall>p \<le> VMM_VCPU_MAX_PRIORITY. \<forall>r \<le> VMM_VCPU_MAX_PRIORITY. p \<noteq> r \<longrightarrow>
          set (heads p # map ent (q p)) \<inter> set (heads r # map ent (q r)) = {})"

lemma prr_highest_cong: "(\<And>p. p < k \<Longrightarrow> f p = g p) \<Longrightarrow> prr_highest f k = prr_highest g k"
  by (induction k) auto

lemma prr_rep_dl: "prr_rep heads ent h q \<Longrightarrow> p \<le> VMM_VCPU_MAX_PRIORITY \<Longrightarrow> dl h (heads p) (map ent (q p))"
  by (simp add: prr_rep_def)

lemma prr_rep_disjoint:
  "prr_rep heads ent h q \<Longrightarrow> p \<le> VMM_VCPU_MAX_PRIORITY \<Longrightarrow> s \<le> VMM_VCPU_MAX_PRIORITY \<Longrightarrow> p \<noteq> s \<Longrightarrow>
     set (heads p # map ent (q p)) \<inter> set (heads s # map ent (q s)) = {}"
  unfolding prr_rep_def by blast

lemma prr_repI:
  assumes "\<And>p. p \<le> VMM_VCPU_MAX_PRIORITY \<Longrightarrow> dl h (heads p) (map ent (q p))"
    and "\<And>p s. p \<le> VMM_VCPU_MAX_PRIORITY \<Longrightarrow> s \<le> VMM_VCPU_MAX_PRIORITY \<Longrightarrow> p \<noteq> s \<Longrightarrow>
      set (heads p # map ent (q p)) \<inter> set (heads s # map ent (q s)) = {}"
  shows "prr_rep heads ent h q"
  using assms unfolding prr_rep_def by blast

lemma prr_rep_del:
  assumes r: "prr_rep heads ent h q" and p: "p \<le> VMM_VCPU_MAX_PRIORITY" and q: "q p = xs @ n # ys"
  shows "prr_rep heads ent (list_del (ent n) h) (q(p := xs @ ys))"
proof -
  have d: "dl h (heads p) (map ent xs @ ent n # map ent ys)" using r p q by (auto simp: prr_rep_def)
  have o: "dl (list_del (ent n) h) (heads s) (map ent (q s))" if "s \<le> VMM_VCPU_MAX_PRIORITY" "s \<noteq> p" for s
  proof (rule dl_del_outside [OF d])
    show "dl h (heads s) (map ent (q s))" by (rule prr_rep_dl [OF r that(1)])
    show "set (heads p # map ent xs @ ent n # map ent ys) \<inter> set (heads s # map ent (q s)) = {}"
      using prr_rep_disjoint [OF r p that(1)] that(2) q by simp
  qed
  have "dl (list_del (ent n) h) (heads p) (map ent (xs @ ys))" using dl_list_del(1) [OF d] by simp
  moreover have sub: "set ((q(p := xs @ ys)) s) \<subseteq> set (q s)" for s using q by auto
  ultimately show ?thesis
  proof (intro prr_repI)
    fix s u assume "s \<le> VMM_VCPU_MAX_PRIORITY" "u \<le> VMM_VCPU_MAX_PRIORITY" "s \<noteq> u"
    from prr_rep_disjoint [OF r this]
    show "set (heads s # map ent ((q(p := xs @ ys)) s)) \<inter> set (heads u # map ent ((q(p := xs @ ys)) u)) = {}"
      using sub [of s] sub [of u] by (simp only: list.simps(15) set_map) blast
  qed (use o in \<open>auto split: if_splits\<close>)
qed

text \<open>
  C34. The pointer operations implement the sequence operations.  When the heap holds one doubly linked
  list per priority, with the entries of the queued VCPUs in order: adding an entry of a VCPU that is not
  queued gives the lists of the enlarged queue; taking the first entry finds the entry of the VCPU that the
  queue would dequeue and leaves the lists of the reduced queue; unlinking the entry of a queued VCPU gives
  the lists of the queue without it.
\<close>

theorem prr_links_refine:
  assumes r: "prr_rep heads ent h q" and i: "prr_inv prio q" and inj: "inj ent"
  shows "(\<forall>n v. prio n \<le> VMM_VCPU_MAX_PRIORITY \<and> n \<notin> prr_members q \<and> sched_priv v \<and> priority v = prio n
              \<and> ent n \<notin> heads ` {..VMM_VCPU_MAX_PRIORITY} \<longrightarrow>
           (\<exists>q'. prr_rq_enqueue q n v = Done (q', VMM_OK) \<and> prr_rep heads ent (prr_links_enqueue heads ent n (priority v) h) q'))
       \<and> (case prr_links_dequeue heads h of
            None \<Rightarrow> prr_rq_dequeue q ts = Done (q, Inl VMM_ENOTAVAIL)
          | Some (e, h') \<Rightarrow> (\<exists>q' n. e = ent n \<and> prr_rq_dequeue q ts = Done (q', Inr (n, ts n)) \<and> prr_rep heads ent h' q'))
       \<and> (\<forall>n v. n \<in> prr_members q \<and> sched_priv v \<longrightarrow>
           (\<exists>q'. prr_rq_detach q n v = Done (q', VMM_OK) \<and> prr_rep heads ent (prr_links_detach ent n h) q'))"
    (is "?enq \<and> ?deq \<and> ?det")
proof (intro conjI)
  have dls: "dl h (heads p) (map ent (q p))" if "p \<le> VMM_VCPU_MAX_PRIORITY" for p using r that by (simp add: prr_rep_def)
  show ?enq
  proof (intro allI impI, elim conjE)
    fix n and v :: vmm_vcpu
    assume a: "prio n \<le> VMM_VCPU_MAX_PRIORITY" "n \<notin> prr_members q" "sched_priv v" "priority v = prio n"
      "ent n \<notin> heads ` {..VMM_VCPU_MAX_PRIORITY}"
    let ?p = "prio n"
    let ?q = "q(?p := q ?p @ [n])" let ?h = "list_add_tail (ent n) (heads ?p) h"
    have fresh: "ent n \<noteq> heads s" "ent n \<notin> set (map ent (q s))" if "s \<le> VMM_VCPU_MAX_PRIORITY" for s
      using a(2,5) that inj by (auto simp: prr_members_def inj_def)
    have "dl ?h (heads s) (map ent (?q s))" if "s \<le> VMM_VCPU_MAX_PRIORITY" for s
    proof (cases "s = ?p")
      case True
      then show ?thesis using dl_list_add_tail [OF dls [OF a(1)]] fresh [OF a(1)] by simp
    next
      case False
      have "set (ent n # heads ?p # map ent (q ?p)) \<inter> set (heads s # map ent (q s)) = {}"
        using prr_rep_disjoint [OF r a(1) that] False fresh [OF that] by auto
      from dl_add_tail_outside [OF dls [OF a(1)] dls [OF that] this] False show ?thesis by simp
    qed
    moreover have "set (heads s # map ent (?q s)) \<inter> set (heads u # map ent (?q u)) = {}"
      if "s \<le> VMM_VCPU_MAX_PRIORITY" "u \<le> VMM_VCPU_MAX_PRIORITY" "s \<noteq> u" for s u
      using prr_rep_disjoint [OF r that] fresh [OF that(1)] fresh [OF that(2)] that(3) by auto
    ultimately have "prr_rep heads ent ?h ?q" by (intro prr_repI)
    then show "\<exists>q'. prr_rq_enqueue q n v = Done (q', VMM_OK) \<and> prr_rep heads ent (prr_links_enqueue heads ent n (priority v) h) q'"
      using a prr_linked_iff [OF i] by (simp add: prr_rq_enqueue_def prr_links_enqueue_def)
  qed
  have hi: "prr_highest (\<lambda>p. \<not> list_empty (heads p) h) (VMM_VCPU_MAX_PRIORITY + 1)
      = prr_highest (\<lambda>p. q p \<noteq> []) (VMM_VCPU_MAX_PRIORITY + 1)"
    by (rule prr_highest_cong) (simp add: dl_empty [OF dls])
  show ?deq
  proof (cases "prr_highest (\<lambda>p. q p \<noteq> []) (VMM_VCPU_MAX_PRIORITY + 1)")
    case None
    then show ?thesis unfolding prr_links_dequeue_def hi by (simp add: prr_rq_dequeue_def)
  next
    case (Some p)
    then have p: "p \<le> VMM_VCPU_MAX_PRIORITY" "q p \<noteq> []" unfolding prr_highest_Some by auto
    then obtain n ys where n: "q p = n # ys" by (cases "q p") auto
    have "list_first (heads p) h = ent n" using dl_first [of h "heads p" "ent n" "map ent ys"] dls [OF p(1)] n by simp
    then show ?thesis using Some prr_rep_del [OF r p(1), of "[]" n ys] n
      unfolding prr_links_dequeue_def hi by (simp add: prr_rq_dequeue_def Let_def)
  qed
  show ?det
  proof (intro allI impI, elim conjE)
    fix n and v :: vmm_vcpu assume a: "n \<in> prr_members q" "sched_priv v"
    let ?p = "prio n"
    have m: "n \<in> set (q ?p)" "?p \<le> VMM_VCPU_MAX_PRIORITY"
      using a(1) prr_members_iff [OF i] prr_invD2 [OF i, of n ?p] by auto
    obtain xs ys where q: "q ?p = xs @ n # ys" "n \<notin> set xs" using split_list_first [OF m(1)] by blast
    have "n \<notin> set (q s)" if "s \<noteq> ?p" for s using prr_invD [OF i, of n s] that by auto
    then have "(\<lambda>s. remove1 n (q s)) = q(?p := xs @ ys)" using q by (auto simp: fun_eq_iff remove1_append remove1_idem)
    then show "\<exists>q'. prr_rq_detach q n v = Done (q', VMM_OK) \<and> prr_rep heads ent (prr_links_detach ent n h) q'"
      using prr_rep_del [OF r m(2) q(1)] a prr_linked_iff [OF i] by (simp add: prr_rq_detach_def prr_links_detach_def)
  qed
qed

theorem prr_links_refine_witness:
  "\<exists>q' n. prr_links_dequeue (\<lambda>p. p) (INIT_LIST_HEAD 0 (INIT_LIST_HEAD 1 (INIT_LIST_HEAD 2 (INIT_LIST_HEAD 3
     (INIT_LIST_HEAD 4 (INIT_LIST_HEAD 5 (INIT_LIST_HEAD 6 (list_add_tail 107 7 (INIT_LIST_HEAD 7 \<lparr>nxt = \<lambda>_. 0, prv = \<lambda>_. 0\<rparr>)))))))))
     \<noteq> None \<and> prr_rq_dequeue (prr_rq_create(7 := [7])) (\<lambda>_. 1) = Done (q', Inr (n, 1))"
proof -
  let ?h = "INIT_LIST_HEAD 0 (INIT_LIST_HEAD 1 (INIT_LIST_HEAD 2 (INIT_LIST_HEAD 3 (INIT_LIST_HEAD 4 (INIT_LIST_HEAD 5
    (INIT_LIST_HEAD 6 (list_add_tail 107 7 (INIT_LIST_HEAD 7 \<lparr>nxt = \<lambda>_. 0, prv = \<lambda>_. 0\<rparr>))))))))"
  let ?q = "prr_rq_create(7 := [7])"
  have m: "p \<le> VMM_VCPU_MAX_PRIORITY \<longleftrightarrow> p = 0 \<or> p = 1 \<or> p = 2 \<or> p = 3 \<or> p = 4 \<or> p = 5 \<or> p = 6 \<or> p = 7" for p
    by (auto simp: VMM_VCPU_MAX_PRIORITY_def)
  have "prr_rep (\<lambda>p. p) (\<lambda>n. 100 + n) ?h ?q"
    unfolding prr_rep_def by (auto simp: m prr_rq_create_def heap_eval)
  moreover have "prr_inv (\<lambda>_. 7) ?q" by (simp add: prr_inv_def prr_rq_create_def VMM_VCPU_MAX_PRIORITY_def)
  moreover have "inj (\<lambda>n. 100 + n :: nat)" by (simp add: inj_def)
  moreover have "prr_links_dequeue (\<lambda>p. p) ?h \<noteq> None"
    by (simp add: prr_links_dequeue_def VMM_VCPU_MAX_PRIORITY_def list_empty_def heap_eval)
      (simp add: eval_nat_numeral)
  ultimately show ?thesis
    using prr_links_refine [of "\<lambda>p. p" "\<lambda>n. 100 + n" ?h ?q "\<lambda>_. 7" "\<lambda>_. 1"] by (auto split: option.splits)
qed

end
