(* ===== verification/VcpuIrq.thy ===== *)
theory VcpuIrq
  imports Vcpu
begin

text \<open>
  Virtual interrupts of a VCPU, \<^verbatim>\<open>core/vmm_vcpu_irq.c\<close>: the table of asserted interrupts, the choice of the
  interrupt to deliver, and the set-up of the table.  The operations here touch only the VCPU itself; those
  that wake or pause the VCPU are in the theory \<open>VcpuWfi\<close>.

  The architecture gives the number of interrupts of a VCPU, their priorities, and whether asserting,
  delivering and deasserting one succeeds; these answers are the record \<open>irq_arch\<close>, a parameter.  The
  atomic operations of the source are single steps.  Reading or writing an entry outside the table, or
  through a null table pointer, is a \<open>Fault\<close>.
\<close>

record irq_arch =
  arch_irq_count :: "nat \<Rightarrow> u32"
  arch_irq_priority :: "nat \<Rightarrow> u32 \<Rightarrow> u32"
  arch_irq_execute :: "nat \<Rightarrow> u32 \<Rightarrow> u64 \<Rightarrow> vmm_rc"
  arch_irq_assert :: "nat \<Rightarrow> u32 \<Rightarrow> u64 \<Rightarrow> vmm_rc"
  arch_irq_deassert :: "nat \<Rightarrow> u32 \<Rightarrow> u64 \<Rightarrow> vmm_rc"
  arch_irq_pending :: "nat \<Rightarrow> bool"

section \<open>The table\<close>

definition get_irq :: "vmm_vcpu_irqs \<Rightarrow> u32 \<Rightarrow> vmm_vcpu_irq result" where
  "get_irq s n = (case irq s of None \<Rightarrow> Fault | Some t \<Rightarrow> if unat n < length t then Done (t ! unat n) else Fault)"

definition set_irq :: "vmm_vcpu_irqs \<Rightarrow> u32 \<Rightarrow> vmm_vcpu_irq \<Rightarrow> vmm_vcpu_irqs" where
  "set_irq s n e = s\<lparr>irq := map_option (\<lambda>t. t[unat n := e]) (irq s)\<rparr>"

definition set_assertion :: "vmm_vcpu_irqs \<Rightarrow> u32 \<Rightarrow> irq_assert \<Rightarrow> vmm_vcpu_irqs" where
  "set_assertion s n a = s\<lparr>irq := map_option (\<lambda>t. t[unat n := (t ! unat n)\<lparr>assertion := a\<rparr>]) (irq s)\<rparr>"

definition set_reason :: "vmm_vcpu_irqs \<Rightarrow> u32 \<Rightarrow> u64 \<Rightarrow> vmm_vcpu_irqs" where
  "set_reason s n r = s\<lparr>irq := map_option (\<lambda>t. t[unat n := (t ! unat n)\<lparr>reason := r\<rparr>]) (irq s)\<rparr>"

section \<open>Delivery\<close>

text \<open>The loop that looks for the asserted interrupt of highest priority; \<open>best\<close> is the pair \<^verbatim>\<open>irq_no, irq_prio\<close>.\<close>

fun find_irq :: "(u32 \<Rightarrow> u32) \<Rightarrow> vmm_vcpu_irqs \<Rightarrow> nat list \<Rightarrow> u32 option \<times> u32 \<Rightarrow> (u32 option \<times> u32) result" where
  "find_irq prio s [] best = Done best"
| "find_irq prio s (i # is) best =
     bind_result (get_irq s (of_nat i)) (\<lambda>e.
       find_irq prio s is
         (if assertion e = ASSERTED \<and> prio (of_nat i) > snd best then (Some (of_nat i), prio (of_nat i)) else best))"

definition vmm_vcpu_irq_process :: "irq_arch \<Rightarrow> nat \<Rightarrow> vmm_vcpu \<Rightarrow> vmm_vcpu result" where
  "vmm_vcpu_irq_process arch n v =
     (if \<not> is_normal v then Done v
      else if \<not> STATE_INTERRUPTIBLE (state v) then Done v
      else let s = irqs v
           in if execute_pending s - 1 < 0 then Done v
              else let s1 = s\<lparr>execute_pending := execute_pending s - 1\<rparr>
                   in bind_result (find_irq (arch_irq_priority arch n) s1 [0..<unat (irq_count s1)] (None, 0)) (\<lambda>(no, _).
                        case no of
                          None \<Rightarrow> Done (v\<lparr>irqs := s1\<rparr>)
                        | Some i \<Rightarrow>
                            bind_result (get_irq s1 i) (\<lambda>e.
                              if assertion e = ASSERTED
                              then let s2 = set_assertion s1 i PENDING
                                   in if arch_irq_execute arch n i (reason e) = VMM_OK
                                      then Done (v\<lparr>irqs := (set_assertion s2 i DEASSERTED)\<lparr>execute_count := execute_count s2 + 1\<rparr>\<rparr>)
                                      else Done (v\<lparr>irqs := set_assertion (s2\<lparr>execute_pending := execute_pending s2 + 1\<rparr>) i ASSERTED\<rparr>)
                              else Done (v\<lparr>irqs := s1\<rparr>))))"

section \<open>Assert and deassert\<close>

text \<open>
  The compare-and-exchange block of \<^verbatim>\<open>vmm_vcpu_irq_assert\<close>, as the three steps between which other host CPUs may act:
  the exchange itself, with whether this call won it; the call of the architecture, which either records the reason
  or takes the mark back; and the counters of an accepted interrupt.
\<close>

definition irq_assert_mark :: "u32 \<Rightarrow> vmm_vcpu \<Rightarrow> (vmm_vcpu \<times> bool) result" where
  "irq_assert_mark no v =
     bind_result (get_irq (irqs v) no) (\<lambda>e.
       if assertion e = DEASSERTED then Done (v\<lparr>irqs := set_assertion (irqs v) no ASSERTED\<rparr>, True) else Done (v, False))"

definition irq_assert_arch :: "irq_arch \<Rightarrow> nat \<Rightarrow> u32 \<Rightarrow> u64 \<Rightarrow> vmm_vcpu \<Rightarrow> vmm_vcpu \<times> bool" where
  "irq_assert_arch arch n no rsn v =
     (if arch_irq_assert arch n no rsn = VMM_OK then (v\<lparr>irqs := set_reason (irqs v) no rsn\<rparr>, True)
      else (v\<lparr>irqs := set_assertion (irqs v) no DEASSERTED\<rparr>, False))"

definition irq_assert_count :: "vmm_vcpu \<Rightarrow> vmm_vcpu" where
  "irq_assert_count v =
     v\<lparr>irqs := (irqs v)\<lparr>execute_pending := execute_pending (irqs v) + 1, assert_count := assert_count (irqs v) + 1\<rparr>\<rparr>"

definition vmm_vcpu_irq_deassert :: "irq_arch \<Rightarrow> nat \<Rightarrow> vmm_vcpu \<Rightarrow> u32 \<Rightarrow> vmm_vcpu result" where
  "vmm_vcpu_irq_deassert arch n v no =
     (if \<not> is_normal v then Done v
      else if no > irq_count (irqs v) then Done v
      else bind_result (get_irq (irqs v) no) (\<lambda>e.
             let s1 = (if arch_irq_deassert arch n no (reason e) = VMM_OK
                       then (irqs v)\<lparr>deassert_count := deassert_count (irqs v) + 1\<rparr> else irqs v)
             in Done (v\<lparr>irqs := set_irq s1 no \<lparr>assertion = DEASSERTED, reason = 0\<rparr>\<rparr>)))"

section \<open>Set-up\<close>

text \<open>
  \<open>mem\<close> tells whether the two allocations succeed.  Stopping the timeout event always succeeds in the
  source's timer, so the clean-up after a failed stop is not reached.
\<close>

definition vmm_vcpu_irq_init :: "irq_arch \<Rightarrow> bool \<times> bool \<Rightarrow> nat \<Rightarrow> vmm_vcpu \<Rightarrow> (vmm_vcpu \<times> vmm_rc) result" where
  "vmm_vcpu_irq_init arch mem n v =
     (if \<not> is_normal v then Done (v, VMM_OK)
      else let cnt = arch_irq_count arch n;
               zero = \<lparr>irq_count = 0, irq = None, execute_pending = 0, assert_count = 0, execute_count = 0,
                       deassert_count = 0, wfi_state = False, wfi_timer = None\<rparr>;
               fresh = replicate (unat cnt) \<lparr>assertion = DEASSERTED, reason = 0\<rparr>
           in if reset_count v = 0 \<and> \<not> fst mem then Done (v\<lparr>irqs := zero\<rparr>, VMM_ENOMEM)
              else if reset_count v = 0 \<and> \<not> snd mem then Done (v\<lparr>irqs := zero\<rparr>, VMM_ENOMEM)
              else let s = (if reset_count v = 0 then zero\<lparr>irq := Some fresh\<rparr> else irqs v)
                   in case irq s of
                        None \<Rightarrow> if cnt = 0 then Done (v\<lparr>irqs := s\<lparr>irq_count := cnt, execute_pending := 0, assert_count := 0,
                                       execute_count := 0, deassert_count := 0, wfi_state := False, wfi_timer := None\<rparr>\<rparr>, VMM_OK)
                                else Fault
                      | Some t \<Rightarrow>
                          if length t < unat cnt then Fault
                          else Done (v\<lparr>irqs := s\<lparr>irq_count := cnt, irq := Some (fresh @ drop (unat cnt) t), execute_pending := 0,
                                       assert_count := 0, execute_count := 0, deassert_count := 0,
                                       wfi_state := False, wfi_timer := None\<rparr>\<rparr>, VMM_OK))"

definition vmm_vcpu_irq_deinit :: "vmm_vcpu \<Rightarrow> vmm_vcpu \<times> vmm_rc" where
  "vmm_vcpu_irq_deinit v =
     (if \<not> is_normal v then (v, VMM_OK) else (v\<lparr>irqs := (irqs v)\<lparr>wfi_timer := None, irq := None\<rparr>\<rparr>, VMM_OK))"

section \<open>The pending counter covers the asserted interrupts\<close>

definition is_asserted :: "vmm_vcpu_irq list \<Rightarrow> nat \<Rightarrow> bool" where
  "is_asserted t i \<longleftrightarrow> i < length t \<and> assertion (t ! i) = ASSERTED"

definition irqs_ok :: "vmm_vcpu_irqs \<Rightarrow> bool" where
  "irqs_ok s \<longleftrightarrow> (case irq s of None \<Rightarrow> False
     | Some t \<Rightarrow> length t = unat (irq_count s)
         \<and> int (length (filter (\<lambda>e. assertion e = ASSERTED) t)) \<le> execute_pending s)"

definition best_irq :: "(u32 \<Rightarrow> u32) \<Rightarrow> vmm_vcpu_irq list \<Rightarrow> nat \<Rightarrow> u32 option \<times> u32" where
  "best_irq prio t n = foldl (\<lambda>b i. if is_asserted t i \<and> prio (of_nat i) > snd b then (Some (of_nat i), prio (of_nat i)) else b)
     (None, 0) [0..<n]"

lemma get_irq_Done: "irq s = Some t \<Longrightarrow> unat n < length t \<Longrightarrow> get_irq s n = Done (t ! unat n)"
  by (simp add: get_irq_def)

lemma unat_small: "i < unat (c :: u32) \<Longrightarrow> unat (of_nat i :: u32) = i"
  by (metis less_trans mod_less unat_bound unat_of_nat)

lemma find_irq_eq:
  assumes "irq s = Some t" and "length t = unat (c :: u32)"
  shows "\<forall>i \<in> set is. i < length t \<Longrightarrow> find_irq prio s is best = Done (foldl (\<lambda>b i. if is_asserted t i \<and> prio (of_nat i) > snd b
     then (Some (of_nat i), prio (of_nat i)) else b) best is)"
proof (induction "is" arbitrary: best)
  case (Cons i "is")
  have "unat (of_nat i :: u32) = i" using Cons.prems assms(2) by (intro unat_small [of i c]) simp
  then have "get_irq s (of_nat i) = Done (t ! i)" using get_irq_Done [OF assms(1), of "of_nat i"] Cons.prems by simp
  moreover have "is_asserted t i \<longleftrightarrow> assertion (t ! i) = ASSERTED" using Cons.prems by (simp add: is_asserted_def)
  ultimately show ?case using Cons by simp
qed simp

lemma find_irq_best:
  "irq s = Some t \<Longrightarrow> length t = unat (c :: u32) \<Longrightarrow> find_irq prio s [0..<unat c] (None, 0) = Done (best_irq prio t (unat c))"
  unfolding best_irq_def by (rule find_irq_eq) simp_all

lemma best_irq_spec:
  "case best_irq prio t n of
     (None, p) \<Rightarrow> p = 0 \<and> (\<forall>j < n. is_asserted t j \<longrightarrow> prio (of_nat j) = 0)
   | (Some i, p) \<Rightarrow> (\<exists>k < n. i = of_nat k \<and> is_asserted t k \<and> p = prio i \<and> 0 < p
        \<and> (\<forall>j < n. is_asserted t j \<longrightarrow> prio (of_nat j) \<le> p) \<and> (\<forall>j < k. is_asserted t j \<longrightarrow> prio (of_nat j) < p))"
proof (induction n)
  case (Suc n)
  let ?b = "best_irq prio t n"
  have e: "best_irq prio t (Suc n)
      = (if is_asserted t n \<and> prio (of_nat n) > snd ?b then (Some (of_nat n), prio (of_nat n)) else ?b)"
    by (simp add: best_irq_def)
  show ?case
  proof (cases "is_asserted t n \<and> prio (of_nat n) > snd ?b")
    case True
    have "\<forall>j < n. is_asserted t j \<longrightarrow> prio (of_nat j) < prio (of_nat n)"
      using Suc True by (auto split: prod.splits option.splits)
    moreover have "0 < prio (of_nat n)" using True by (metis word_not_simps(1) word_gt_0 word_neq_0_conv)
    ultimately show ?thesis using True unfolding e by (auto simp: less_Suc_eq intro!: exI [of _ n])
  next
    case False
    then have "\<not> is_asserted t n \<or> prio (of_nat n) \<le> snd ?b" by auto
    then show ?thesis using Suc False unfolding e
      by (auto simp: less_Suc_eq split: prod.splits option.splits)
  qed
qed (simp add: best_irq_def)

lemma filter_update:
  assumes "i < length t"
  shows "length (filter P (t[i := e])) + (if P (t ! i) then 1 else 0) = length (filter P t) + (if P e then 1 else 0)"
proof -
  have "t = take i t @ t ! i # drop (Suc i) t" using assms by (rule id_take_nth_drop)
  moreover have "t[i := e] = take i t @ e # drop (Suc i) t" using assms by (rule upd_conv_take_nth_drop)
  ultimately have "length (filter P t) = length (filter P (take i t)) + length (filter P (t ! i # drop (Suc i) t))"
    "length (filter P (t[i := e])) = length (filter P (take i t)) + length (filter P (e # drop (Suc i) t))"
    by (metis filter_append length_append)+
  then show ?thesis by simp
qed

lemma irqs_okD:
  "irqs_ok s \<Longrightarrow> \<exists>t. irq s = Some t \<and> length t = unat (irq_count s)
     \<and> int (length (filter (\<lambda>e. assertion e = ASSERTED) t)) \<le> execute_pending s"
  by (auto simp: irqs_ok_def split: option.splits)

lemma asserted_pending: "irqs_ok s \<Longrightarrow> irq s = Some t \<Longrightarrow> is_asserted t k \<Longrightarrow> 1 \<le> execute_pending s"
proof -
  assume a: "irqs_ok s" "irq s = Some t" "is_asserted t k"
  then have "t ! k \<in> set (filter (\<lambda>e. assertion e = ASSERTED) t)" by (auto simp: is_asserted_def)
  then have "1 \<le> length (filter (\<lambda>e. assertion e = ASSERTED) t)" by (metis length_pos_if_in_set Suc_leI One_nat_def)
  then show ?thesis using irqs_okD [OF a(1)] a(2) by auto
qed

text \<open>
  An asserted interrupt can be delivered when its priority is positive: the search starts from priority zero.  The
  pending counter covers the interrupts that can be delivered.
\<close>

definition deliverable :: "irq_arch \<Rightarrow> nat \<Rightarrow> vmm_vcpu_irq list \<Rightarrow> nat \<Rightarrow> bool" where
  "deliverable arch n t k \<longleftrightarrow> is_asserted t k \<and> 0 < arch_irq_priority arch n (of_nat k)"

definition irqs_covered :: "irq_arch \<Rightarrow> nat \<Rightarrow> vmm_vcpu_irqs \<Rightarrow> bool" where
  "irqs_covered arch n s \<longleftrightarrow> (case irq s of None \<Rightarrow> False
     | Some t \<Rightarrow> length t = unat (irq_count s) \<and> int (card {k. deliverable arch n t k}) \<le> execute_pending s)"

lemma deliverable_finite [simp]: "finite {k. deliverable arch n t k}"
  by (rule finite_subset [of _ "{..<length t}"]) (auto simp: deliverable_def is_asserted_def)

lemma irqs_ok_covered: "irqs_ok s \<Longrightarrow> irqs_covered arch n s"
proof -
  assume "irqs_ok s"
  then obtain t where t: "irq s = Some t" "length t = unat (irq_count s)"
    "int (length (filter (\<lambda>e. assertion e = ASSERTED) t)) \<le> execute_pending s" using irqs_okD by blast
  have "card {k. deliverable arch n t k} \<le> card {k. k < length t \<and> assertion (t ! k) = ASSERTED}"
    by (rule card_mono) (auto simp: deliverable_def is_asserted_def)
  also have "\<dots> = length (filter (\<lambda>e. assertion e = ASSERTED) t)" by (simp add: length_filter_conv_card)
  finally show ?thesis using t by (simp add: irqs_covered_def)
qed

lemma covered_pending:
  "irqs_covered arch n s \<Longrightarrow> irq s = Some t \<Longrightarrow> deliverable arch n t k \<Longrightarrow> 1 \<le> execute_pending s"
proof -
  assume a: "irqs_covered arch n s" "irq s = Some t" "deliverable arch n t k"
  have "card {k} \<le> card {k. deliverable arch n t k}" using a(3) by (intro card_mono) simp_all
  then show ?thesis using a(1,2) by (simp add: irqs_covered_def)
qed

lemma deliverable_update:
  "k < length t \<Longrightarrow> assertion e \<noteq> ASSERTED \<Longrightarrow> {j. deliverable arch n (t[k := e]) j} = {j. deliverable arch n t j} - {k}"
  by (auto simp: deliverable_def is_asserted_def nth_list_update split: if_splits)

text \<open>What one pass of the delivery does; \<open>pick\<close> is the interrupt the search finds.\<close>

lemma irq_process_spec:
  assumes v: "is_normal v" "STATE_INTERRUPTIBLE (state v)" and ok: "irqs_covered arch n (irqs v)" "irq (irqs v) = Some t"
  shows "\<exists>v'. vmm_vcpu_irq_process arch n v = Done v' \<and> irqs_covered arch n (irqs v') \<and>
    (if \<forall>k. \<not> deliverable arch n t k
     then v' = v\<lparr>irqs := (irqs v)\<lparr>execute_pending := if 0 < execute_pending (irqs v) then execute_pending (irqs v) - 1
                else execute_pending (irqs v)\<rparr>\<rparr>
     else \<exists>k. deliverable arch n t k
       \<and> (\<forall>j. is_asserted t j \<longrightarrow> arch_irq_priority arch n (of_nat j) \<le> arch_irq_priority arch n (of_nat k))
       \<and> (\<forall>j < k. is_asserted t j \<longrightarrow> arch_irq_priority arch n (of_nat j) < arch_irq_priority arch n (of_nat k))
       \<and> v' = (if arch_irq_execute arch n (of_nat k) (reason (t ! k)) = VMM_OK
          then v\<lparr>irqs := (irqs v)\<lparr>irq := Some (t[k := (t ! k)\<lparr>assertion := DEASSERTED\<rparr>]),
              execute_pending := execute_pending (irqs v) - 1, execute_count := execute_count (irqs v) + 1\<rparr>\<rparr>
          else v))"
proof -
  let ?s = "irqs v" let ?s1 = "?s\<lparr>execute_pending := execute_pending ?s - 1\<rparr>" let ?p = "arch_irq_priority arch n"
  have cov: "length t = unat (irq_count ?s)" "int (card {k. deliverable arch n t k}) \<le> execute_pending ?s"
    using ok by (simp_all add: irqs_covered_def)
  have fb: "find_irq ?p ?s1 [0..<unat (irq_count ?s)] (None, 0) = Done (best_irq ?p t (length t))"
    using find_irq_best [of ?s1 t "irq_count ?s" ?p] ok(2) cov(1) by simp
  show ?thesis
  proof (cases "\<exists>k. deliverable arch n t k")
    case False
    then have "deliverable arch n t = (\<lambda>_. False)" by blast
    moreover obtain pr where "best_irq ?p t (length t) = (None, pr)"
      using best_irq_spec [where prio = ?p and t = t and n = "length t"] False
      by (auto simp: deliverable_def split: prod.splits option.splits)
    ultimately show ?thesis using v ok cov fb False
      by (auto simp: vmm_vcpu_irq_process_def Let_def irqs_covered_def)
  next
    case True
    then have pend: "\<not> execute_pending ?s - 1 < 0" using covered_pending [OF ok] by fastforce
    obtain i pr where b: "best_irq ?p t (length t) = (Some i, pr)"
      using best_irq_spec [where prio = ?p and t = t and n = "length t"] True
      by (auto simp: deliverable_def is_asserted_def split: prod.splits option.splits)
    obtain k where k: "k < length t" "i = of_nat k" "is_asserted t k" "pr = ?p i" "0 < pr"
      "\<forall>j < length t. is_asserted t j \<longrightarrow> ?p (of_nat j) \<le> pr" "\<forall>j < k. is_asserted t j \<longrightarrow> ?p (of_nat j) < pr"
      using best_irq_spec [where prio = ?p and t = t and n = "length t"] unfolding b by auto
    have u: "unat i = k" using k(1,2) cov(1) by (simp add: unat_small)
    have g: "get_irq ?s1 i = Done (t ! k)" using get_irq_Done [of ?s1 t i] ok(2) k(1) u by simp
    have asd: "assertion (t ! k) = ASSERTED" using k(3) by (simp add: is_asserted_def)
    have same: "t[k := (t ! k)\<lparr>assertion := ASSERTED\<rparr>] = t" using asd by (metis list_update_id vmm_vcpu_irq.surjective vmm_vcpu_irq.update_convs(1))
    have all: "\<forall>j. is_asserted t j \<longrightarrow> ?p (of_nat j) \<le> ?p (of_nat k)" using k by (auto simp: is_asserted_def)
    have d: "deliverable arch n t k" using k by (simp add: deliverable_def)
    have lt: "\<forall>j < k. is_asserted t j \<longrightarrow> ?p (of_nat j) < ?p (of_nat k)" using k(2,4,7) by simp
    have nd: "\<not> (\<forall>k. \<not> deliverable arch n t k)" using True by blast
    show ?thesis
    proof (cases "arch_irq_execute arch n i (reason (t ! k)) = VMM_OK")
      case ex: True
      let ?e = "(t ! k)\<lparr>assertion := DEASSERTED\<rparr>"
      let ?v = "v\<lparr>irqs := ?s1\<lparr>irq := Some (t[k := ?e]), execute_count := execute_count ?s + 1\<rparr>\<rparr>"
      have "vmm_vcpu_irq_process arch n v = Done ?v"
        using v pend fb b g asd ex ok(2) u k(1) by (simp add: vmm_vcpu_irq_process_def Let_def set_assertion_def)
      moreover have "card {j. deliverable arch n (t[k := ?e]) j} = card {j. deliverable arch n t j} - 1"
        using d k(1) by (simp add: deliverable_update)
      then have "irqs_covered arch n (irqs ?v)" using cov pend by (simp add: irqs_covered_def)
      ultimately show ?thesis unfolding if_not_P [OF nd]
        by (intro exI [of _ ?v] conjI exI [of _ k] d all lt) (use ex k(2) in simp_all)
    next
      case ex: False
      have "vmm_vcpu_irq_process arch n v = Done v"
        using v pend fb b g asd ex ok(2) u k(1) same by (simp add: vmm_vcpu_irq_process_def Let_def set_assertion_def)
      then show ?thesis unfolding if_not_P [OF nd]
        by (intro exI [of _ v] conjI exI [of _ k] d all lt) (use ex k(2) ok(1) in simp_all)
    qed
  qed
qed

text \<open>
  C35. Interrupt delivery to a normal VCPU in an interruptible state whose pending counter covers the asserted
  interrupts of positive priority.  If there is none, nothing is delivered: only the pending counter goes down by
  one, and an interrupt of priority zero stays asserted.  Otherwise the asserted interrupt of highest priority, and of
  lowest number among equals, is chosen.  When the architecture delivers it, exactly that entry becomes deasserted,
  the pending counter goes down and the counter of delivered interrupts goes up; when it refuses, nothing changes and
  the interrupt stays asserted for the next attempt.  In all cases the pending counter still covers the asserted
  interrupts of positive priority.
\<close>

theorem vmm_vcpu_irq_process_delivers:
  assumes "is_normal v" and "STATE_INTERRUPTIBLE (state v)" and "irqs_covered arch n (irqs v)" and "irq (irqs v) = Some t"
  shows "\<exists>v'. vmm_vcpu_irq_process arch n v = Done v' \<and> irqs_covered arch n (irqs v') \<and>
    (if \<forall>k. \<not> deliverable arch n t k
     then v' = v\<lparr>irqs := (irqs v)\<lparr>execute_pending := if 0 < execute_pending (irqs v) then execute_pending (irqs v) - 1
                else execute_pending (irqs v)\<rparr>\<rparr>
     else \<exists>k. deliverable arch n t k
       \<and> (\<forall>j. is_asserted t j \<longrightarrow> arch_irq_priority arch n (of_nat j) \<le> arch_irq_priority arch n (of_nat k))
       \<and> (\<forall>j < k. is_asserted t j \<longrightarrow> arch_irq_priority arch n (of_nat j) < arch_irq_priority arch n (of_nat k))
       \<and> v' = (if arch_irq_execute arch n (of_nat k) (reason (t ! k)) = VMM_OK
          then v\<lparr>irqs := (irqs v)\<lparr>irq := Some (t[k := (t ! k)\<lparr>assertion := DEASSERTED\<rparr>]),
              execute_pending := execute_pending (irqs v) - 1, execute_count := execute_count (irqs v) + 1\<rparr>\<rparr>
          else v))"
  using assms by (rule irq_process_spec)

text \<open>An asserted interrupt of priority zero, as the reset interrupt of the ARM ports, stays asserted for ever.\<close>

lemma priority_zero_never_delivered:
  assumes v: "is_normal v" "STATE_INTERRUPTIBLE (state v)" "irqs_covered arch n (irqs v)" "irq (irqs v) = Some t"
    and k: "is_asserted t k" "arch_irq_priority arch n (of_nat k) = 0" and r: "vmm_vcpu_irq_process arch n v = Done v'"
  shows "\<exists>t'. irq (irqs v') = Some t' \<and> is_asserted t' k"
proof -
  have "\<not> deliverable arch n t k" using k(2) by (simp add: deliverable_def)
  then have "is_asserted (t[j := e]) k" if "deliverable arch n t j" for j e
    using k(1) that by (cases "j = k") (auto simp: is_asserted_def)
  then show ?thesis using irq_process_spec [OF v] r k(1) v(4) by (auto split: if_splits)
qed

definition irq_demo_arch :: irq_arch where
  "irq_demo_arch = \<lparr>arch_irq_count = (\<lambda>_. 3), arch_irq_priority = (\<lambda>_ i. if i < 2 then 7 else 3), arch_irq_execute = (\<lambda>_ _ _. VMM_OK),
     arch_irq_assert = (\<lambda>_ _ _. VMM_OK), arch_irq_deassert = (\<lambda>_ _ _. VMM_OK), arch_irq_pending = (\<lambda>_. False)\<rparr>"

definition irq_demo_table :: "vmm_vcpu_irq list" where
  "irq_demo_table = [\<lparr>assertion = ASSERTED, reason = 5\<rparr>, \<lparr>assertion = ASSERTED, reason = 6\<rparr>, \<lparr>assertion = DEASSERTED, reason = 0\<rparr>]"

definition irq_demo_irqs :: vmm_vcpu_irqs where
  "irq_demo_irqs = \<lparr>irq_count = 3, irq = Some irq_demo_table, execute_pending = 2, assert_count = 2, execute_count = 0,
     deassert_count = 0, wfi_state = False, wfi_timer = None\<rparr>"

definition irq_demo_vcpu :: vmm_vcpu where
  "irq_demo_vcpu = \<lparr>vid = 0, is_normal = True, is_poweroff = False, guest = None, hcpu = 0, cpu_affinity = (\<lambda>_. True),
     state = VMM_VCPU_STATE_RUNNING, state_tstamp = 0, state_ready_nsecs = 0, state_running_nsecs = 0, state_paused_nsecs = 0,
     state_halted_nsecs = 0, reset_count = 1, reset_tstamp = 0, preempt_count = 0, resumed = False, sched_priv = True,
     priority = 3, time_slice = 1, deadline = 1, periodicity = 1, irqs = irq_demo_irqs, wq_lock = None, wq_priv = None\<rparr>"

lemmas irq_demo_defs = irq_demo_vcpu_def irq_demo_irqs_def irq_demo_table_def irq_demo_arch_def

theorem vmm_vcpu_irq_process_delivers_witness:
  "\<exists>v'. vmm_vcpu_irq_process irq_demo_arch 0 irq_demo_vcpu = Done v' \<and> irqs_covered irq_demo_arch 0 (irqs v') \<and>
    (if \<forall>k. \<not> deliverable irq_demo_arch 0 irq_demo_table k
     then v' = irq_demo_vcpu\<lparr>irqs := (irqs irq_demo_vcpu)\<lparr>execute_pending := if 0 < execute_pending (irqs irq_demo_vcpu)
                then execute_pending (irqs irq_demo_vcpu) - 1 else execute_pending (irqs irq_demo_vcpu)\<rparr>\<rparr>
     else \<exists>k. deliverable irq_demo_arch 0 irq_demo_table k
       \<and> (\<forall>j. is_asserted irq_demo_table j \<longrightarrow> arch_irq_priority irq_demo_arch 0 (of_nat j) \<le> arch_irq_priority irq_demo_arch 0 (of_nat k))
       \<and> (\<forall>j < k. is_asserted irq_demo_table j \<longrightarrow> arch_irq_priority irq_demo_arch 0 (of_nat j) < arch_irq_priority irq_demo_arch 0 (of_nat k))
       \<and> v' = (if arch_irq_execute irq_demo_arch 0 (of_nat k) (reason (irq_demo_table ! k)) = VMM_OK
          then irq_demo_vcpu\<lparr>irqs := (irqs irq_demo_vcpu)\<lparr>irq := Some (irq_demo_table[k := (irq_demo_table ! k)\<lparr>assertion := DEASSERTED\<rparr>]),
              execute_pending := execute_pending (irqs irq_demo_vcpu) - 1, execute_count := execute_count (irqs irq_demo_vcpu) + 1\<rparr>\<rparr>
          else irq_demo_vcpu))"
  by (rule vmm_vcpu_irq_process_delivers, simp_all add: irqs_ok_covered irq_demo_defs STATE_INTERRUPTIBLE_def irqs_ok_def)

section \<open>What the operations keep\<close>

text \<open>
  The shape that the scheduler relies on: the table is allocated and has the size the architecture gives.
  Operations on the table change nothing but the field \<^verbatim>\<open>irqs\<close> of the VCPU.
\<close>

definition irqs_tbl :: "irq_arch \<Rightarrow> nat \<Rightarrow> vmm_vcpu_irqs \<Rightarrow> bool" where
  "irqs_tbl arch n s \<longleftrightarrow> irq_count s = arch_irq_count arch n
     \<and> (case irq s of None \<Rightarrow> False | Some t \<Rightarrow> length t = unat (irq_count s))"

lemma irqs_tblD: "irqs_tbl arch n s \<Longrightarrow> \<exists>t. irq s = Some t \<and> length t = unat (irq_count s) \<and> irq_count s = arch_irq_count arch n"
  by (auto simp: irqs_tbl_def split: option.splits)

lemma irqs_tbl_set [simp]: "irqs_tbl arch n s \<Longrightarrow> irqs_tbl arch n (set_assertion s i a)"
  by (auto simp: irqs_tbl_def set_assertion_def split: option.splits)

lemma irqs_tbl_upd [simp]:
  "irqs_tbl arch n (s\<lparr>execute_pending := x\<rparr>) = irqs_tbl arch n s" "irqs_tbl arch n (s\<lparr>execute_count := y\<rparr>) = irqs_tbl arch n s"
  by (auto simp: irqs_tbl_def split: option.splits)

lemma vmm_vcpu_irq_process_keeps:
  assumes "is_normal v \<longrightarrow> irqs_tbl arch n (irqs v)"
  shows "\<exists>s. vmm_vcpu_irq_process arch n v = Done (v\<lparr>irqs := s\<rparr>) \<and> (is_normal v \<longrightarrow> irqs_tbl arch n s)"
proof (cases "is_normal v \<and> STATE_INTERRUPTIBLE (state v) \<and> \<not> execute_pending (irqs v) - 1 < 0")
  case True
  let ?s1 = "(irqs v)\<lparr>execute_pending := execute_pending (irqs v) - 1\<rparr>" let ?p = "arch_irq_priority arch n"
  obtain t where t: "irq (irqs v) = Some t" "length t = unat (irq_count (irqs v))"
    using assms True irqs_tblD by blast
  have fb: "find_irq ?p ?s1 [0..<unat (irq_count (irqs v))] (None, 0) = Done (best_irq ?p t (length t))"
    using find_irq_best [of ?s1 t "irq_count (irqs v)" ?p] t by simp
  have ok: "irqs_tbl arch n ?s1" using assms True by simp
  show ?thesis
  proof (cases "fst (best_irq ?p t (length t))")
    case None
    then obtain pr where "best_irq ?p t (length t) = (None, pr)" by (metis prod.collapse)
    then have "vmm_vcpu_irq_process arch n v = Done (v\<lparr>irqs := ?s1\<rparr>)"
      using True fb by (simp add: vmm_vcpu_irq_process_def Let_def)
    then show ?thesis using ok by blast
  next
    case (Some i)
    then obtain pr where b: "best_irq ?p t (length t) = (Some i, pr)" by (metis prod.collapse)
    then obtain k where k: "k < length t" "i = of_nat k"
      using best_irq_spec [where prio = ?p and t = t and n = "length t"] by auto
    have u: "unat i = k" using k t(2) by (simp add: unat_small)
    have g: "get_irq ?s1 i = Done (t ! k)" using get_irq_Done [of ?s1 t i] t k(1) u by simp
    have "vmm_vcpu_irq_process arch n v \<in> (\<lambda>s. Done (v\<lparr>irqs := s\<rparr>)) ` {s. irqs_tbl arch n s}"
      using True fb b g ok by (simp add: vmm_vcpu_irq_process_def Let_def)
    then show ?thesis by blast
  qed
next
  case False
  then have "vmm_vcpu_irq_process arch n v = Done (v\<lparr>irqs := irqs v\<rparr>)" by (auto simp: vmm_vcpu_irq_process_def Let_def)
  then show ?thesis using assms by blast
qed

lemma vmm_vcpu_irq_init_keeps:
  assumes "is_normal v \<longrightarrow> irqs_tbl arch n (irqs v)"
  shows "\<exists>s. vmm_vcpu_irq_init arch (True, True) n v = Done (v\<lparr>irqs := s\<rparr>, VMM_OK) \<and> (is_normal v \<longrightarrow> irqs_tbl arch n s)"
proof (cases "is_normal v")
  case True
  obtain t where t: "irq (irqs v) = Some t" "length t = unat (irq_count (irqs v))" "irq_count (irqs v) = arch_irq_count arch n"
    using assms True irqs_tblD by blast
  let ?z = "\<lparr>irq_count = 0, irq = None, execute_pending = 0, assert_count = 0, execute_count = 0, deassert_count = 0,
    wfi_state = False, wfi_timer = None\<rparr>"
  let ?s = "(if reset_count v = 0 then ?z else irqs v)\<lparr>irq_count := arch_irq_count arch n,
    irq := Some (replicate (unat (arch_irq_count arch n)) \<lparr>assertion = DEASSERTED, reason = 0\<rparr>), execute_pending := 0,
    assert_count := 0, execute_count := 0, deassert_count := 0, wfi_state := False, wfi_timer := None\<rparr>"
  have "vmm_vcpu_irq_init arch (True, True) n v = Done (v\<lparr>irqs := ?s\<rparr>, VMM_OK)"
    using True t by (auto simp add: vmm_vcpu_irq_init_def Let_def)
  moreover have "irqs_tbl arch n ?s" by (simp add: irqs_tbl_def)
  ultimately show ?thesis by blast
next
  case False
  then have "vmm_vcpu_irq_init arch (True, True) n v = Done (v\<lparr>irqs := irqs v\<rparr>, VMM_OK)" by (simp add: vmm_vcpu_irq_init_def)
  then show ?thesis using False by blast
qed

text \<open>
  The steps of an assert.  An entry that is marked and not yet counted is the one by which the asserted entries may
  exceed the pending counter.
\<close>

definition irqs_marked :: "bool \<Rightarrow> u32 \<Rightarrow> vmm_vcpu_irqs \<Rightarrow> bool" where
  "irqs_marked m no s \<longleftrightarrow> (case irq s of None \<Rightarrow> False
     | Some t \<Rightarrow> length t = unat (irq_count s) \<and> is_asserted t (unat no)
         \<and> int (length (filter (\<lambda>e. assertion e = ASSERTED) t)) \<le> execute_pending s + (if m then 1 else 0))"

lemma irqs_markedD:
  "irqs_marked m no s \<Longrightarrow> \<exists>t. irq s = Some t \<and> length t = unat (irq_count s) \<and> is_asserted t (unat no)
     \<and> int (length (filter (\<lambda>e. assertion e = ASSERTED) t)) \<le> execute_pending s + (if m then 1 else 0)"
  by (auto simp: irqs_marked_def split: option.splits)

lemma irq_assert_mark_ok:
  assumes "irqs_ok (irqs v)" and "no < irq_count (irqs v)" and "\<And>t. irq (irqs v) = Some t \<Longrightarrow> assertion (t ! unat no) \<noteq> PENDING"
  shows "\<exists>q w. irq_assert_mark no v = Done (v\<lparr>irqs := q\<rparr>, w) \<and> irqs_marked w no q \<and> wfi_state q = wfi_state (irqs v)
    \<and> irq_count q = irq_count (irqs v)"
proof -
  obtain t where t: "irq (irqs v) = Some t" "length t = unat (irq_count (irqs v))"
    "int (length (filter (\<lambda>e. assertion e = ASSERTED) t)) \<le> execute_pending (irqs v)"
    using irqs_okD [OF assms(1)] by blast
  have l: "unat no < length t" using assms(2) t(2) by (simp add: word_less_nat_alt)
  have g: "get_irq (irqs v) no = Done (t ! unat no)" using get_irq_Done t(1) l by blast
  show ?thesis
  proof (cases "assertion (t ! unat no)")
    case DEASSERTED
    then have "irqs_marked True no (set_assertion (irqs v) no ASSERTED)"
      using t l filter_update [OF l, of "\<lambda>e. assertion e = ASSERTED" "(t ! unat no)\<lparr>assertion := ASSERTED\<rparr>"]
      by (simp add: irqs_marked_def set_assertion_def is_asserted_def)
    then show ?thesis using g DEASSERTED
      by (intro exI [of _ "set_assertion (irqs v) no ASSERTED"] exI [of _ True]) (simp add: irq_assert_mark_def set_assertion_def)
  next
    case ASSERTED
    then show ?thesis using g t l
      by (intro exI [of _ "irqs v"] exI [of _ False]) (simp add: irq_assert_mark_def irqs_marked_def is_asserted_def)
  qed (use assms(3) t(1) in simp)
qed

lemma irq_assert_arch_ok:
  assumes "arch_irq_assert arch n no rsn = VMM_OK" and m: "irqs_marked m no (irqs v)"
  shows "irq_assert_arch arch n no rsn v = (v\<lparr>irqs := set_reason (irqs v) no rsn\<rparr>, True)" "irqs_marked m no (set_reason (irqs v) no rsn)"
proof -
  obtain t where t: "irq (irqs v) = Some t" "is_asserted t (unat no)"
    using irqs_markedD [OF m] by blast
  then have "length (filter (\<lambda>e. assertion e = ASSERTED) (t[unat no := (t ! unat no)\<lparr>reason := rsn\<rparr>]))
      = length (filter (\<lambda>e. assertion e = ASSERTED) t)"
    using filter_update [of "unat no" t "\<lambda>e. assertion e = ASSERTED" "(t ! unat no)\<lparr>reason := rsn\<rparr>"] by (auto simp: is_asserted_def)
  then show "irqs_marked m no (set_reason (irqs v) no rsn)" using m t by (simp add: irqs_marked_def set_reason_def is_asserted_def)
qed (use assms in \<open>simp add: irq_assert_arch_def\<close>)

lemma irq_assert_count_ok: "irqs_marked True no (irqs v) \<Longrightarrow> irqs_marked False no (irqs (irq_assert_count v))"
  by (auto simp: irqs_marked_def irq_assert_count_def split: option.splits)

lemma irqs_marked_ok: "irqs_marked False no s \<Longrightarrow> irqs_ok s"
  by (auto simp: irqs_marked_def irqs_ok_def split: option.splits)

text \<open>Deasserting keeps the pending counter above the number of asserted entries.\<close>

lemma vmm_vcpu_irq_deassert_ok:
  assumes "irqs_ok (irqs v)" and "no < irq_count (irqs v)"
  shows "\<exists>v'. vmm_vcpu_irq_deassert arch n v no = Done v' \<and> irqs_ok (irqs v')"
proof -
  obtain t where t: "irq (irqs v) = Some t" "length t = unat (irq_count (irqs v))"
    "int (length (filter (\<lambda>e. assertion e = ASSERTED) t)) \<le> execute_pending (irqs v)"
    using irqs_okD [OF assms(1)] by blast
  have l: "unat no < length t" using assms(2) t(2) by (simp add: word_less_nat_alt)
  have g: "get_irq (irqs v) no = Done (t ! unat no)" using get_irq_Done t(1) l by blast
  have "length (filter (\<lambda>e. assertion e = ASSERTED) (t[unat no := \<lparr>assertion = DEASSERTED, reason = 0\<rparr>]))
      \<le> length (filter (\<lambda>e. assertion e = ASSERTED) t)"
    using filter_update [OF l, of "\<lambda>e. assertion e = ASSERTED" "\<lparr>assertion = DEASSERTED, reason = 0\<rparr>"] by (auto split: if_splits)
  then show ?thesis using assms t l g
    by (auto simp: vmm_vcpu_irq_deassert_def Let_def irqs_ok_def set_irq_def)
qed

text \<open>
  The guard of \<^verbatim>\<open>vmm_vcpu_irq_deassert\<close> compares with \<^verbatim>\<open>>\<close>, so the number one past the table passes it and the
  operation leaves the table.
\<close>

lemma vmm_vcpu_irq_deassert_past_table:
  assumes "is_normal v" and "irqs_tbl arch n (irqs v)"
  shows "vmm_vcpu_irq_deassert arch n v (irq_count (irqs v)) = Fault"
proof -
  obtain t where "irq (irqs v) = Some t" "length t = unat (irq_count (irqs v))" using irqs_tblD [OF assms(2)] by blast
  then show ?thesis using assms(1) by (simp add: vmm_vcpu_irq_deassert_def get_irq_def)
qed

end
