(* ===== verification/Scheduler.thy ===== *)
theory Scheduler
  imports SchedAlgo VcpuIrq
begin

text \<open>
  The hypervisor scheduler, \<^verbatim>\<open>core/vmm_scheduler.c\<close>: per host CPU a ready queue and the current VCPU, context
  switches, the VCPU state machine, host CPU migration, and the accounting of interrupts and idle time.

  \<open>'rq system\<close> is the state: all VCPUs, the control structure of each host CPU, the host CPUs that are online,
  the asynchronous inter-processor calls that wait for delivery, and a trace of what the scheduler asked the
  architecture to do.  Every operation runs on one host CPU and is one step, from its call to its return: the
  sequences of operations of several host CPUs that the theorems quantify over are those in which no operation
  starts before the one in front of it has returned.  The source holds locks for parts of an operation only.  The
  one window in which that matters for the ready queues, between the dequeue of the next VCPU and the acquisition of
  its lock in \<^verbatim>\<open>__vmm_scheduler_next2\<close>, is modelled by \<open>switch_dequeue\<close> and \<open>switch_commit\<close>; \<open>SchedProps\<close> shows
  what goes wrong in it.  \<open>sched_env\<close> collects what an operation reads from outside: the linked scheduling
  algorithm, the configured number of host CPUs, the time (the timer is read once per operation), whether
  allocations succeed, and the answers of the architecture.

  \<open>vmm_panic\<close> is \<open>Panic\<close>.  Saving and loading registers is recorded as \<open>ArchSwitch\<close>; a register frame is
  named by an address, and \<open>None\<close> is the null pointer.
\<close>

section \<open>State\<close>

record 'rq vmm_scheduler_ctrl =
  rq :: 'rq
  current_vcpu_irq_ns :: u64
  current_vcpu :: "nat option"
  idle_vcpu :: "nat option"
  irq_context :: bool
  irq_regs :: "nat option"
  irq_enter_tstamp :: u64
  irq_process_ns :: u64
  yield_on_irq_exit :: bool
  ev :: "u64 option"
  sample_ev :: "u64 option"
  sample_period_ns :: u64
  sample_idle_ns :: u64
  sample_idle_last_ns :: u64
  sample_irq_ns :: u64
  sample_irq_last_ns :: u64

text \<open>\<open>ev\<close> and \<open>sample_ev\<close> are the durations the two timer events were last started with.\<close>

datatype ipi = IPI_RESCHED | IPI_MIGRATE nat nat

datatype arch_event =
    ArchSwitch nat "nat option" nat nat   \<comment> \<open>host CPU, VCPU to save, VCPU to load, register frame\<close>
  | ArchPostSwitch nat nat nat            \<comment> \<open>host CPU, VCPU, register frame\<close>
  | WqUnlock nat nat                      \<comment> \<open>host CPU, lock\<close>
  | WqLock nat nat
  | IrqProcess nat nat nat                \<comment> \<open>host CPU, VCPU, register frame\<close>
  | WaitForIrq nat

record 'rq system =
  vcpus :: "nat \<Rightarrow> vmm_vcpu"
  scheds :: "nat \<Rightarrow> 'rq vmm_scheduler_ctrl"
  online :: "nat \<Rightarrow> bool"
  ipis :: "(nat \<times> ipi) list"
  trace :: "arch_event list"

record 'rq sched_env =
  algo :: "'rq schedalgo"
  cpu_count :: nat
  now :: u64
  entry_mem :: bool
  arch_init :: "nat \<Rightarrow> vmm_rc"
  irq_hw :: irq_arch
  irq_mem :: "bool \<times> bool"

definition upd_vcpu :: "nat \<Rightarrow> (vmm_vcpu \<Rightarrow> vmm_vcpu) \<Rightarrow> 'rq system \<Rightarrow> 'rq system" where
  "upd_vcpu n f s = s\<lparr>vcpus := (vcpus s)(n := f (vcpus s n))\<rparr>"

definition upd_sched ::
  "nat \<Rightarrow> ('rq vmm_scheduler_ctrl \<Rightarrow> 'rq vmm_scheduler_ctrl) \<Rightarrow> 'rq system \<Rightarrow> 'rq system" where
  "upd_sched h f s = s\<lparr>scheds := (scheds s)(h := f (scheds s h))\<rparr>"

definition log_event :: "arch_event \<Rightarrow> 'rq system \<Rightarrow> 'rq system" where
  "log_event e s = s\<lparr>trace := e # trace s\<rparr>"

section \<open>Ready queue of a host CPU\<close>

definition rq_dequeue :: "'rq sched_env \<Rightarrow> nat \<Rightarrow> 'rq system \<Rightarrow> ('rq system \<times> (vmm_rc + nat \<times> u64)) result" where
  "rq_dequeue E h s =
     bind_result (algo_dequeue (algo E) (rq (scheds s h)) (\<lambda>n. time_slice (vcpus s n)))
       (\<lambda>(q, r). Done (upd_sched h (\<lambda>c. c\<lparr>rq := q\<rparr>) s, r))"

definition rq_enqueue :: "'rq sched_env \<Rightarrow> nat \<Rightarrow> nat \<Rightarrow> 'rq system \<Rightarrow> ('rq system \<times> vmm_rc) result" where
  "rq_enqueue E h n s =
     bind_result (algo_enqueue (algo E) (rq (scheds s h)) n (vcpus s n))
       (\<lambda>(q, rc). Done (upd_sched h (\<lambda>c. c\<lparr>rq := q\<rparr>) s, rc))"

definition rq_detach :: "'rq sched_env \<Rightarrow> nat \<Rightarrow> nat \<Rightarrow> 'rq system \<Rightarrow> ('rq system \<times> vmm_rc) result" where
  "rq_detach E h n s =
     bind_result (algo_detach (algo E) (rq (scheds s h)) n (vcpus s n))
       (\<lambda>(q, rc). Done (upd_sched h (\<lambda>c. c\<lparr>rq := q\<rparr>) s, rc))"

definition rq_prempt_needed :: "'rq sched_env \<Rightarrow> nat \<Rightarrow> 'rq system \<Rightarrow> bool" where
  "rq_prempt_needed E h s =
     (case current_vcpu (scheds s h) of
        None \<Rightarrow> False
      | Some c \<Rightarrow> algo_prempt_needed (algo E) (rq (scheds s h)) (priority (vcpus s c)))"

definition rq_length :: "'rq sched_env \<Rightarrow> nat \<Rightarrow> nat \<Rightarrow> 'rq system \<Rightarrow> nat" where
  "rq_length E h p s = algo_length (algo E) (rq (scheds s h)) p"

section \<open>Context switch\<close>

text \<open>The end of both \<^verbatim>\<open>__vmm_scheduler_next1\<close> and \<^verbatim>\<open>__vmm_scheduler_next2\<close>: \<open>next\<close> becomes the running VCPU.\<close>

definition make_running :: "'rq sched_env \<Rightarrow> nat \<Rightarrow> nat \<Rightarrow> u64 \<Rightarrow> 'rq system \<Rightarrow> 'rq system" where
  "make_running E h nx ts s =
     upd_sched h (\<lambda>c. c\<lparr>current_vcpu := Some nx, current_vcpu_irq_ns := irq_process_ns c, ev := Some ts\<rparr>)
       (upd_vcpu nx (\<lambda>v. v\<lparr>state_ready_nsecs := state_ready_nsecs v + (now E - state_tstamp v),
          state := VMM_VCPU_STATE_RUNNING, resumed := False, state_tstamp := now E\<rparr>) s)"

definition scheduler_next1 :: "'rq sched_env \<Rightarrow> nat \<Rightarrow> nat \<Rightarrow> 'rq system \<Rightarrow> ('rq system \<times> nat) result" where
  "scheduler_next1 E h regs s =
     bind_result (rq_dequeue E h s) (\<lambda>(s1, r). case r of
         Inl rc \<Rightarrow> Panic
       | Inr (nx, ts) \<Rightarrow> Done (make_running E h nx ts (log_event (ArchSwitch h None nx regs) s1), nx))"

text \<open>
  The loop \<^verbatim>\<open>dequeue_again\<close>.  Each round takes one VCPU out of the ready queue, and an empty queue is a
  panic, so one round more than there are queued VCPUs is enough.
\<close>

fun dequeue_again :: "nat \<Rightarrow> 'rq sched_env \<Rightarrow> nat \<Rightarrow> nat \<Rightarrow> 'rq system \<Rightarrow> ('rq system \<times> nat \<times> u64) result" where
  "dequeue_again 0 E h cur s = Fault"
| "dequeue_again (Suc k) E h cur s =
     bind_result (rq_dequeue E h s) (\<lambda>(s1, r). case r of
         Inl rc \<Rightarrow> Panic
       | Inr (nx, ts) \<Rightarrow>
           if nx \<noteq> cur \<and> state (vcpus s1 nx) \<noteq> VMM_VCPU_STATE_READY then dequeue_again k E h cur s1
           else Done (s1, nx, ts))"

definition queued :: "'rq sched_env \<Rightarrow> nat \<Rightarrow> 'rq system \<Rightarrow> nat" where
  "queued E h s = sum_list (map (\<lambda>p. rq_length E h p s) [0..<Suc VMM_VCPU_MAX_PRIORITY])"

definition preempt_current :: "'rq sched_env \<Rightarrow> nat \<Rightarrow> nat \<Rightarrow> 'rq system \<Rightarrow> 'rq system result" where
  "preempt_current E h cur s =
     (if state (vcpus s cur) = VMM_VCPU_STATE_RUNNING
      then let c = scheds s h;
               s1 = upd_vcpu cur (\<lambda>v. v\<lparr>state_running_nsecs := state_running_nsecs v + (now E - state_tstamp v)
                                          - (irq_process_ns c - current_vcpu_irq_ns c),
                      state := VMM_VCPU_STATE_READY, state_tstamp := now E\<rparr>) s;
               s2 = upd_sched h (\<lambda>c. c\<lparr>current_vcpu_irq_ns := irq_process_ns c\<rparr>) s1
           in bind_result (rq_enqueue E h cur s2) (\<lambda>(s3, _). Done s3)
      else Done s)"

definition scheduler_next2 ::
  "'rq sched_env \<Rightarrow> nat \<Rightarrow> nat \<Rightarrow> nat \<Rightarrow> 'rq system \<Rightarrow> ('rq system \<times> nat option) result" where
  "scheduler_next2 E h cur regs s =
     bind_result (preempt_current E h cur s) (\<lambda>s1.
       let tcurrent = (if STATE_SAVEABLE (state (vcpus s cur)) then Some cur else None)
       in bind_result (dequeue_again (Suc (queued E h s1)) E h cur s1) (\<lambda>(s2, nx, ts).
            let s3 = (if nx \<noteq> cur then log_event (ArchSwitch h tcurrent nx regs) s2 else s2)
            in Done (make_running E h nx ts s3, if nx \<noteq> cur then Some nx else None)))"

text \<open>
  The two parts of \<^verbatim>\<open>__vmm_scheduler_next2\<close> between which neither the lock of the ready queue nor that of the next
  VCPU is held: up to the first dequeue, and from the acquisition of \<^verbatim>\<open>next->sched_lock\<close> with a VCPU that is still
  READY.
\<close>

definition switch_dequeue ::
  "'rq sched_env \<Rightarrow> nat \<Rightarrow> nat \<Rightarrow> 'rq system \<Rightarrow> ('rq system \<times> (vmm_rc + nat \<times> u64)) result" where
  "switch_dequeue E h cur s = bind_result (preempt_current E h cur s) (rq_dequeue E h)"

definition switch_commit ::
  "'rq sched_env \<Rightarrow> nat \<Rightarrow> nat \<Rightarrow> nat option \<Rightarrow> nat \<Rightarrow> nat \<Rightarrow> u64 \<Rightarrow> 'rq system \<Rightarrow> 'rq system \<times> nat option" where
  "switch_commit E h cur tcurrent regs nx ts s =
     (make_running E h nx ts (if nx \<noteq> cur then log_event (ArchSwitch h tcurrent nx regs) s else s), if nx \<noteq> cur then Some nx else None)"

text \<open>
  \<^verbatim>\<open>vmm_scheduler_switch\<close>.  \<^verbatim>\<open>__vmm_scheduler_next2\<close> returns a VCPU other than \<open>current\<close> or null, so its test
  \<^verbatim>\<open>next != current\<close> always holds and the lock of the wait queue is released in both cases.
\<close>

definition release_wq_lock :: "nat \<Rightarrow> nat \<Rightarrow> 'rq system \<Rightarrow> 'rq system" where
  "release_wq_lock h cur s =
     (case wq_lock (vcpus s cur) of
        None \<Rightarrow> s
      | Some l \<Rightarrow> upd_vcpu cur (\<lambda>v. if preempt_count v \<noteq> 0 then v\<lparr>preempt_count := preempt_count v - 1\<rparr> else v)
                    (log_event (WqUnlock h l) s))"

definition post_switch :: "nat \<Rightarrow> nat \<Rightarrow> nat option \<Rightarrow> 'rq system \<Rightarrow> 'rq system" where
  "post_switch h regs nx s = (case nx of None \<Rightarrow> s | Some n \<Rightarrow> log_event (ArchPostSwitch h n regs) s)"

definition vmm_scheduler_switch :: "'rq sched_env \<Rightarrow> nat \<Rightarrow> nat option \<Rightarrow> 'rq system \<Rightarrow> 'rq system result" where
  "vmm_scheduler_switch E h regs s =
     (case regs of
        None \<Rightarrow> Panic
      | Some r \<Rightarrow>
          (case current_vcpu (scheds s h) of
             Some cur \<Rightarrow>
               let preempt_min = (if wq_lock (vcpus s cur) \<noteq> None then 1 else 0)
               in if preempt_count (vcpus s cur) = preempt_min
                  then bind_result (scheduler_next2 E h cur r s) (\<lambda>(s1, nx).
                         Done (post_switch h r nx (release_wq_lock h cur s1)))
                  else Done s
           | None \<Rightarrow>
               bind_result (scheduler_next1 E h r s) (\<lambda>(s1, nx). Done (post_switch h r (Some nx) s1))))"

text \<open>When preemption is off, \<^verbatim>\<open>vmm_timer_event_restart\<close> starts the slice event again with its own duration.\<close>

definition scheduler_timer_event :: "'rq sched_env \<Rightarrow> nat \<Rightarrow> 'rq system \<Rightarrow> 'rq system result" where
  "scheduler_timer_event E h s =
     (if irq_regs (scheds s h) \<noteq> None then vmm_scheduler_switch E h (irq_regs (scheds s h)) s else Done s)"

definition vmm_scheduler_preempt_disable :: "nat \<Rightarrow> 'rq system \<Rightarrow> 'rq system" where
  "vmm_scheduler_preempt_disable h s =
     (if \<not> irq_context (scheds s h)
      then case current_vcpu (scheds s h) of
             None \<Rightarrow> s
           | Some n \<Rightarrow> upd_vcpu n (\<lambda>v. v\<lparr>preempt_count := preempt_count v + 1\<rparr>) s
      else s)"

definition vmm_scheduler_preempt_enable :: "nat \<Rightarrow> 'rq system \<Rightarrow> 'rq system" where
  "vmm_scheduler_preempt_enable h s =
     (if \<not> irq_context (scheds s h)
      then case current_vcpu (scheds s h) of
             None \<Rightarrow> s
           | Some n \<Rightarrow> if preempt_count (vcpus s n) \<noteq> 0
                       then upd_vcpu n (\<lambda>v. v\<lparr>preempt_count := preempt_count v - 1\<rparr>) s else s
      else s)"

definition vmm_scheduler_preempt_orphan :: "'rq sched_env \<Rightarrow> nat \<Rightarrow> nat \<Rightarrow> 'rq system \<Rightarrow> 'rq system result" where
  "vmm_scheduler_preempt_orphan E h regs s = vmm_scheduler_switch E h (Some regs) s"

section \<open>State changes\<close>

definition vmm_scheduler_force_resched :: "'rq sched_env \<Rightarrow> nat \<Rightarrow> 'rq system \<Rightarrow> 'rq system \<times> vmm_rc" where
  "vmm_scheduler_force_resched E h s =
     (if cpu_count E \<le> h then (s, VMM_EINVALID)
      else if \<not> online s h then (s, VMM_ENOTAVAIL)
      else (s\<lparr>ipis := ipis s @ [(h, IPI_RESCHED)]\<rparr>, VMM_OK))"

text \<open>
  The switch over the new state: the return code, whether the current VCPU has to be preempted, and whether
  the change is skipped (the jumps to \<^verbatim>\<open>skip_state_change\<close>).
\<close>

definition reset_vcpu :: "'rq sched_env \<Rightarrow> nat \<Rightarrow> 'rq system \<Rightarrow> ('rq system \<times> vmm_rc) result" where
  "reset_vcpu E n s =
     (let s1 = upd_vcpu n (\<lambda>v. v\<lparr>reset_count := reset_count v + 1\<rparr>) s
      in if arch_init E n \<noteq> VMM_OK then Done (s1, arch_init E n)
         else bind_result (vmm_vcpu_irq_init (irq_hw E) (irq_mem E) n (vcpus s1 n))
                (\<lambda>(v, rc). Done (upd_vcpu n (\<lambda>_. v) s1, rc)))"

definition change_action ::
  "'rq sched_env \<Rightarrow> nat \<Rightarrow> vcpu_state \<Rightarrow> 'rq system \<Rightarrow> ('rq system \<times> vmm_rc \<times> bool \<times> bool) result" where
  "change_action E n new s =
     (let h = hcpu (vcpus s n); cur = state (vcpus s n); c = scheds s h
      in case new of
           VMM_VCPU_STATE_UNKNOWN \<Rightarrow>
             (case vmm_schedalgo_vcpu_cleanup (vcpus s n) of (v, rc) \<Rightarrow> Done (upd_vcpu n (\<lambda>_. v) s, rc, False, False))
         | VMM_VCPU_STATE_RESET \<Rightarrow>
             if cur = VMM_VCPU_STATE_UNKNOWN
             then (case vmm_schedalgo_vcpu_setup (entry_mem E) (vcpus s n) of
                     (v, rc) \<Rightarrow> Done (upd_vcpu n (\<lambda>_. v) s, rc, False, False))
             else if cur \<noteq> VMM_VCPU_STATE_RESET
             then let s1 = upd_vcpu n (\<lambda>v. v\<lparr>resumed := False\<rparr>) s
                  in bind_result
                       (if current_vcpu c \<noteq> Some n \<and> cur = VMM_VCPU_STATE_READY then rq_detach E h n s1 else Done (s1, VMM_OK))
                       (\<lambda>(s2, rc).
                          if rc \<noteq> VMM_OK then Done (s2, rc, False, False)
                          else bind_result (reset_vcpu E n s2) (\<lambda>(s3, rc').
                                 Done (s3, rc', current_vcpu c = Some n \<and> cur = VMM_VCPU_STATE_RUNNING, False)))
             else Done (s, VMM_OK, False, True)
         | VMM_VCPU_STATE_READY \<Rightarrow>
             if cur = VMM_VCPU_STATE_RESET \<or> cur = VMM_VCPU_STATE_PAUSED
             then bind_result (rq_enqueue E h n s) (\<lambda>(s1, rc).
                    Done (s1, rc, rc = VMM_OK \<and> current_vcpu c \<noteq> Some n \<and> rq_prempt_needed E h s1, False))
             else if cur = VMM_VCPU_STATE_RUNNING
             then Done (upd_vcpu n (\<lambda>v. v\<lparr>resumed := True\<rparr>) s, VMM_OK, True, True)
             else if cur = VMM_VCPU_STATE_READY then Done (s, VMM_OK, False, True)
             else Done (s, VMM_EINVALID, False, False)
         | VMM_VCPU_STATE_RUNNING \<Rightarrow> Done (s, VMM_EINVALID, False, False)
         | _ \<Rightarrow>
             if new = VMM_VCPU_STATE_PAUSED \<and> cur = VMM_VCPU_STATE_PAUSED then Done (s, VMM_OK, False, True)
             else if cur = VMM_VCPU_STATE_READY \<or> cur = VMM_VCPU_STATE_RUNNING
             then let s1 = upd_vcpu n (\<lambda>v. v\<lparr>resumed := False\<rparr>) s
                  in if resumed (vcpus s n) \<and> new = VMM_VCPU_STATE_PAUSED then Done (s1, VMM_OK, False, True)
                     else if current_vcpu c = Some n then Done (s1, VMM_OK, True, False)
                     else if cur = VMM_VCPU_STATE_READY
                     then bind_result (rq_detach E h n s1) (\<lambda>(s2, rc). Done (s2, rc, False, False))
                     else Done (s1, VMM_OK, False, False)
             else Done (s, VMM_EINVALID, False, False))"

definition account_time :: "u64 \<Rightarrow> vcpu_state \<Rightarrow> vmm_vcpu \<Rightarrow> vmm_vcpu" where
  "account_time t cur v =
     (case cur of
        VMM_VCPU_STATE_READY \<Rightarrow> v\<lparr>state_ready_nsecs := state_ready_nsecs v + (t - state_tstamp v)\<rparr>
      | VMM_VCPU_STATE_RUNNING \<Rightarrow> v\<lparr>state_running_nsecs := state_running_nsecs v + (t - state_tstamp v)\<rparr>
      | VMM_VCPU_STATE_PAUSED \<Rightarrow> v\<lparr>state_paused_nsecs := state_paused_nsecs v + (t - state_tstamp v)\<rparr>
      | VMM_VCPU_STATE_HALTED \<Rightarrow> v\<lparr>state_halted_nsecs := state_halted_nsecs v + (t - state_tstamp v)\<rparr>
      | _ \<Rightarrow> v)"

definition commit_state :: "u64 \<Rightarrow> vcpu_state \<Rightarrow> vcpu_state \<Rightarrow> vmm_vcpu \<Rightarrow> vmm_vcpu" where
  "commit_state t cur new v =
     (let v1 = account_time t cur v;
          v2 = (if new = VMM_VCPU_STATE_RESET
                then v1\<lparr>state_ready_nsecs := 0, state_running_nsecs := 0, state_paused_nsecs := 0,
                        state_halted_nsecs := 0, reset_tstamp := t\<rparr> else v1)
      in v2\<lparr>state := new, state_tstamp := t\<rparr>)"

text \<open>The part under the scheduling lock of the VCPU.\<close>

definition change_locked ::
  "'rq sched_env \<Rightarrow> nat \<Rightarrow> vcpu_state \<Rightarrow> 'rq system \<Rightarrow> ('rq system \<times> vmm_rc \<times> bool) result" where
  "change_locked E n new s =
     bind_result (change_action E n new s) (\<lambda>(s1, rc, preempt, skip).
       Done (if skip \<or> rc \<noteq> VMM_OK then s1
             else upd_vcpu n (commit_state (now E) (state (vcpus s n)) new) s1, rc, preempt))"

text \<open>
  \<^verbatim>\<open>vmm_scheduler_state_change\<close>, called on host CPU \<open>ch\<close>.  The last component tells that the current VCPU, an
  orphan, was preempted inside the call through a trap with register frame \<open>frame\<close>; when it runs again it
  goes on with \<open>state_change_resume\<close>.
\<close>

definition vmm_scheduler_state_change ::
  "'rq sched_env \<Rightarrow> nat \<Rightarrow> nat \<Rightarrow> nat option \<Rightarrow> vcpu_state \<Rightarrow> 'rq system \<Rightarrow> ('rq system \<times> vmm_rc \<times> bool) result" where
  "vmm_scheduler_state_change E ch frame n' new s =
     (case n' of
        None \<Rightarrow> Done (s, VMM_EFAIL, False)
      | Some n \<Rightarrow>
          let vh = hcpu (vcpus s n)
          in bind_result (change_locked E n new s) (\<lambda>(s1, rc, preempt).
               case current_vcpu (scheds s1 vh) of
                 None \<Rightarrow> Done (s1, rc, False)
               | Some cur \<Rightarrow>
                   if \<not> preempt then Done (s1, rc, False)
                   else if ch = vh
                   then if is_normal (vcpus s1 cur)
                        then Done (upd_sched vh (\<lambda>c. c\<lparr>yield_on_irq_exit := True\<rparr>) s1, rc, False)
                        else if irq_context (scheds s1 vh)
                        then bind_result (vmm_scheduler_switch E vh (irq_regs (scheds s1 vh)) s1) (\<lambda>s2. Done (s2, rc, False))
                        else bind_result (vmm_scheduler_preempt_orphan E vh frame s1) (\<lambda>s2. Done (s2, rc, True))
                   else (case vmm_scheduler_force_resched E vh s1 of (s2, rc') \<Rightarrow> Done (s2, rc', False))))"

definition state_change_resume :: "nat \<Rightarrow> nat \<Rightarrow> 'rq system \<Rightarrow> 'rq system" where
  "state_change_resume h n s =
     (case wq_lock (vcpus s n) of
        None \<Rightarrow> s
      | Some l \<Rightarrow> log_event (WqLock h l) (vmm_scheduler_preempt_disable h s))"


section \<open>Host CPU of a VCPU\<close>

definition vmm_scheduler_get_hcpu :: "nat option \<Rightarrow> 'rq system \<Rightarrow> vmm_rc + nat" where
  "vmm_scheduler_get_hcpu n' s = (case n' of None \<Rightarrow> Inl VMM_EFAIL | Some n \<Rightarrow> Inr (hcpu (vcpus s n)))"

definition vmm_scheduler_check_current_hcpu :: "nat \<Rightarrow> nat option \<Rightarrow> 'rq system \<Rightarrow> bool" where
  "vmm_scheduler_check_current_hcpu ch n' s = (case n' of None \<Rightarrow> False | Some n \<Rightarrow> hcpu (vcpus s n) = ch)"

text \<open>The handler of the migration call, on host CPU \<open>h\<close>.  The return codes of its three calls are ignored.\<close>

definition scheduler_ipi_migrate_vcpu :: "'rq sched_env \<Rightarrow> nat \<Rightarrow> nat \<Rightarrow> nat \<Rightarrow> 'rq system \<Rightarrow> 'rq system result" where
  "scheduler_ipi_migrate_vcpu E h n new_hcpu s =
     (if state (vcpus s n) \<noteq> VMM_VCPU_STATE_READY \<or> hcpu (vcpus s n) \<noteq> h \<or> hcpu (vcpus s n) = new_hcpu then Done s
      else bind_result (rq_detach E h n s) (\<lambda>(s1, _).
             bind_result (rq_enqueue E new_hcpu n (upd_vcpu n (\<lambda>v. v\<lparr>hcpu := new_hcpu\<rparr>) s1)) (\<lambda>(s2, _).
               Done (fst (vmm_scheduler_force_resched E new_hcpu s2)))))"

text \<open>
  The asynchronous call to the old host CPU runs at once when that is the calling one, \<open>ch\<close>; it is dropped when
  the host CPU is not online.
\<close>

definition vmm_scheduler_set_hcpu ::
  "'rq sched_env \<Rightarrow> nat \<Rightarrow> nat option \<Rightarrow> nat \<Rightarrow> 'rq system \<Rightarrow> ('rq system \<times> vmm_rc) result" where
  "vmm_scheduler_set_hcpu E ch n' new s =
     (case n' of
        None \<Rightarrow> Done (s, VMM_EFAIL)
      | Some n \<Rightarrow>
          let v = vcpus s n
          in if hcpu v = new then Done (s, VMM_OK)
             else if \<not> cpu_affinity v new then Done (s, VMM_EINVALID)
             else if state v = VMM_VCPU_STATE_READY \<or> state v = VMM_VCPU_STATE_RUNNING
             then if hcpu v = ch then bind_result (scheduler_ipi_migrate_vcpu E ch n new s) (\<lambda>s1. Done (s1, VMM_OK))
                  else if online s (hcpu v) then Done (s\<lparr>ipis := ipis s @ [(hcpu v, IPI_MIGRATE n new)]\<rparr>, VMM_OK)
                  else Done (s, VMM_OK)
             else Done (upd_vcpu n (\<lambda>v. v\<lparr>hcpu := new\<rparr>) s, VMM_OK))"

text \<open>
  Delivery of the oldest asynchronous call that waits for host CPU \<open>h\<close>; \<^verbatim>\<open>scheduler_ipi_resched\<close> has an empty
  body.
\<close>

fun take_ipi :: "nat \<Rightarrow> (nat \<times> ipi) list \<Rightarrow> (ipi \<times> (nat \<times> ipi) list) option" where
  "take_ipi h [] = None"
| "take_ipi h ((g, i) # is) =
     (if g = h then Some (i, is) else map_option (\<lambda>(j, js). (j, (g, i) # js)) (take_ipi h is))"

definition deliver_ipi :: "'rq sched_env \<Rightarrow> nat \<Rightarrow> 'rq system \<Rightarrow> 'rq system result" where
  "deliver_ipi E h s =
     (case take_ipi h (ipis s) of
        None \<Rightarrow> Done s
      | Some (IPI_RESCHED, is) \<Rightarrow> Done (s\<lparr>ipis := is\<rparr>)
      | Some (IPI_MIGRATE n new, is) \<Rightarrow> scheduler_ipi_migrate_vcpu E h n new (s\<lparr>ipis := is\<rparr>))"

section \<open>Interrupt entry and exit\<close>

definition vmm_scheduler_irq_enter :: "'rq sched_env \<Rightarrow> nat \<Rightarrow> nat option \<Rightarrow> bool \<Rightarrow> 'rq system \<Rightarrow> 'rq system" where
  "vmm_scheduler_irq_enter E h regs vcpu_context s =
     upd_sched h (\<lambda>c. (if vcpu_context then c\<lparr>irq_context := False\<rparr>
                        else c\<lparr>irq_context := True, irq_enter_tstamp := now E\<rparr>)
                      \<lparr>irq_regs := regs, yield_on_irq_exit := False\<rparr>) s"

text \<open>\<open>t\<close> is the time at the end of the interrupt.\<close>

definition vmm_scheduler_irq_exit :: "'rq sched_env \<Rightarrow> nat \<Rightarrow> nat \<Rightarrow> u64 \<Rightarrow> 'rq system \<Rightarrow> 'rq system result" where
  "vmm_scheduler_irq_exit E h regs t s =
     (case current_vcpu (scheds s h) of
        None \<Rightarrow> Done s
      | Some n \<Rightarrow>
          bind_result
            (if state (vcpus s n) \<noteq> VMM_VCPU_STATE_RUNNING \<or> yield_on_irq_exit (scheds s h)
             then bind_result (vmm_scheduler_switch E h (irq_regs (scheds s h)) s) (\<lambda>s1.
                    Done (upd_sched h (\<lambda>c. c\<lparr>yield_on_irq_exit := False\<rparr>) s1))
             else Done s)
            (\<lambda>s2. bind_result (vmm_vcpu_irq_process (irq_hw E) n (vcpus s2 n)) (\<lambda>v.
               Done (upd_sched h (\<lambda>c. (if irq_context c
                         then c\<lparr>irq_process_ns := irq_process_ns c + (t - irq_enter_tstamp c)\<rparr> else c)
                         \<lparr>irq_context := False, irq_regs := None\<rparr>)
                       (log_event (IrqProcess h n regs) (upd_vcpu n (\<lambda>_. v) s2))))))"

definition vmm_scheduler_irq_context :: "nat \<Rightarrow> 'rq system \<Rightarrow> bool" where
  "vmm_scheduler_irq_context h s = irq_context (scheds s h)"

definition vmm_scheduler_orphan_context :: "nat \<Rightarrow> 'rq system \<Rightarrow> bool" where
  "vmm_scheduler_orphan_context h s =
     (case current_vcpu (scheds s h) of
        None \<Rightarrow> False | Some n \<Rightarrow> \<not> irq_context (scheds s h) \<and> \<not> is_normal (vcpus s n))"

definition vmm_scheduler_normal_context :: "nat \<Rightarrow> 'rq system \<Rightarrow> bool" where
  "vmm_scheduler_normal_context h s =
     (case current_vcpu (scheds s h) of
        None \<Rightarrow> False | Some n \<Rightarrow> \<not> irq_context (scheds s h) \<and> is_normal (vcpus s n))"

section \<open>Statistics\<close>

definition vmm_scheduler_ready_count :: "'rq sched_env \<Rightarrow> nat \<Rightarrow> nat \<Rightarrow> 'rq system \<Rightarrow> nat" where
  "vmm_scheduler_ready_count E h p s =
     (if cpu_count E \<le> h \<or> \<not> online s h \<or> p < VMM_VCPU_MIN_PRIORITY \<or> VMM_VCPU_MAX_PRIORITY < p then 0
      else rq_length E h p s)"

text \<open>
  \<^verbatim>\<open>vmm_manager_vcpu_stats\<close> of \<^verbatim>\<open>core/vmm_manager.c\<close>: brings the counter of the present state up to date; the
  values it stores through its out parameters are the fields of the VCPU afterwards.
\<close>

definition vmm_manager_vcpu_stats :: "u64 \<Rightarrow> nat option \<Rightarrow> 'rq system \<Rightarrow> 'rq system \<times> vmm_rc" where
  "vmm_manager_vcpu_stats t n' s =
     (case n' of
        None \<Rightarrow> (s, VMM_EFAIL)
      | Some n \<Rightarrow>
          (upd_vcpu n (\<lambda>v. case state v of
               VMM_VCPU_STATE_READY \<Rightarrow> v\<lparr>state_ready_nsecs := state_ready_nsecs v + (t - state_tstamp v), state_tstamp := t\<rparr>
             | VMM_VCPU_STATE_RUNNING \<Rightarrow> v\<lparr>state_running_nsecs := state_running_nsecs v + (t - state_tstamp v), state_tstamp := t\<rparr>
             | VMM_VCPU_STATE_PAUSED \<Rightarrow> v\<lparr>state_paused_nsecs := state_paused_nsecs v + (t - state_tstamp v), state_tstamp := t\<rparr>
             | VMM_VCPU_STATE_HALTED \<Rightarrow> v\<lparr>state_halted_nsecs := state_halted_nsecs v + (t - state_tstamp v), state_tstamp := t\<rparr>
             | _ \<Rightarrow> v) s, VMM_OK))"

definition scheduler_sample_event :: "'rq sched_env \<Rightarrow> nat \<Rightarrow> 'rq system \<Rightarrow> 'rq system" where
  "scheduler_sample_event E h s =
     (let s1 = fst (vmm_manager_vcpu_stats (now E) (idle_vcpu (scheds s h)) s);
          idle_ns = (case idle_vcpu (scheds s h) of None \<Rightarrow> 0 | Some n \<Rightarrow> state_running_nsecs (vcpus s1 n));
          irq_ns = irq_process_ns (scheds s1 h)
      in upd_sched h (\<lambda>c. c\<lparr>sample_idle_ns := idle_ns - sample_idle_last_ns c, sample_idle_last_ns := idle_ns,
             sample_irq_ns := irq_ns - sample_irq_last_ns c, sample_irq_last_ns := irq_ns,
             sample_ev := Some (sample_period_ns c)\<rparr>) s1)"

definition SAMPLE_EVENT_PERIOD :: "u64 \<Rightarrow> u64" where
  "SAMPLE_EVENT_PERIOD idle_period_secs = idle_period_secs * 1000000000"

definition vmm_scheduler_get_sample_period :: "'rq sched_env \<Rightarrow> u64 \<Rightarrow> nat \<Rightarrow> 'rq system \<Rightarrow> u64" where
  "vmm_scheduler_get_sample_period E secs h s =
     (if cpu_count E \<le> h \<or> \<not> online s h then SAMPLE_EVENT_PERIOD secs else sample_period_ns (scheds s h))"

definition vmm_scheduler_set_sample_period :: "'rq sched_env \<Rightarrow> nat \<Rightarrow> u64 \<Rightarrow> 'rq system \<Rightarrow> 'rq system" where
  "vmm_scheduler_set_sample_period E h period s =
     (if cpu_count E \<le> h \<or> \<not> online s h then s else upd_sched h (\<lambda>c. c\<lparr>sample_period_ns := period\<rparr>) s)"

definition vmm_scheduler_irq_time :: "'rq sched_env \<Rightarrow> nat \<Rightarrow> 'rq system \<Rightarrow> u64" where
  "vmm_scheduler_irq_time E h s = (if cpu_count E \<le> h \<or> \<not> online s h then 0 else sample_irq_ns (scheds s h))"

definition vmm_scheduler_idle_time :: "'rq sched_env \<Rightarrow> nat \<Rightarrow> 'rq system \<Rightarrow> u64" where
  "vmm_scheduler_idle_time E h s = (if cpu_count E \<le> h \<or> \<not> online s h then 0 else sample_idle_ns (scheds s h))"

definition vmm_scheduler_idle_vcpu :: "'rq sched_env \<Rightarrow> nat \<Rightarrow> 'rq system \<Rightarrow> nat option" where
  "vmm_scheduler_idle_vcpu E h s = (if cpu_count E \<le> h \<or> \<not> online s h then None else idle_vcpu (scheds s h))"

definition vmm_scheduler_current_vcpu :: "nat \<Rightarrow> 'rq system \<Rightarrow> nat option" where
  "vmm_scheduler_current_vcpu h s = current_vcpu (scheds s h)"

definition vmm_scheduler_current_priority :: "nat \<Rightarrow> 'rq system \<Rightarrow> nat" where
  "vmm_scheduler_current_priority h s =
     (case vmm_scheduler_current_vcpu h s of None \<Rightarrow> VMM_VCPU_MAX_PRIORITY | Some n \<Rightarrow> priority (vcpus s n))"

definition vmm_scheduler_current_guest :: "nat \<Rightarrow> 'rq system \<Rightarrow> nat option" where
  "vmm_scheduler_current_guest h s =
     (case current_vcpu (scheds s h) of None \<Rightarrow> None | Some n \<Rightarrow> guest (vcpus s n))"

section \<open>Yield\<close>

definition vmm_scheduler_yield :: "'rq sched_env \<Rightarrow> nat \<Rightarrow> nat \<Rightarrow> 'rq system \<Rightarrow> ('rq system \<times> bool) result" where
  "vmm_scheduler_yield E h frame s =
     (if irq_context (scheds s h) then Panic
      else case current_vcpu (scheds s h) of
             None \<Rightarrow> Panic
           | Some n \<Rightarrow>
               if state (vcpus s n) = VMM_VCPU_STATE_RUNNING
               then bind_result (vmm_scheduler_state_change E h frame (Some n) VMM_VCPU_STATE_READY s)
                      (\<lambda>(s1, _, trapped). Done (s1, trapped))
               else Done (s, False))"

text \<open>One round of the endless loop of \<^verbatim>\<open>idle_orphan\<close>; the idle VCPUs have the lowest priority.\<close>

definition IDLE_VCPU_PRIORITY :: nat where "IDLE_VCPU_PRIORITY = VMM_VCPU_MIN_PRIORITY"

definition idle_orphan :: "'rq sched_env \<Rightarrow> nat \<Rightarrow> nat \<Rightarrow> 'rq system \<Rightarrow> ('rq system \<times> bool) result" where
  "idle_orphan E h frame s =
     vmm_scheduler_yield E h frame (if rq_length E h IDLE_VCPU_PRIORITY s = 0 then log_event (WaitForIrq h) s else s)"

end
