(* ===== verification/SchedInv.thy ===== *)
theory SchedInv
  imports Scheduler
begin

text \<open>
  Correctness of the scheduler: the invariant that links the states of the VCPUs, the ready queues and the
  current VCPUs of all host CPUs, that every operation keeps it and neither panics nor faults, and the choice
  of the next VCPU.

  The proofs use the ready queue only through the contract \<open>ready_queue\<close>, so they hold for both algorithms,
  on which the contract is interpreted.
\<close>

section \<open>Updates of the state\<close>

lemma upd_vcpu_simps [simp]:
  "vcpus (upd_vcpu n f s) = (vcpus s)(n := f (vcpus s n))" "scheds (upd_vcpu n f s) = scheds s"
  "online (upd_vcpu n f s) = online s" "ipis (upd_vcpu n f s) = ipis s" "trace (upd_vcpu n f s) = trace s"
  by (simp_all add: upd_vcpu_def)

lemma upd_sched_simps [simp]:
  "vcpus (upd_sched h g s) = vcpus s" "scheds (upd_sched h g s) = (scheds s)(h := g (scheds s h))"
  "online (upd_sched h g s) = online s" "ipis (upd_sched h g s) = ipis s" "trace (upd_sched h g s) = trace s"
  by (simp_all add: upd_sched_def)

lemma log_event_simps [simp]:
  "vcpus (log_event e s) = vcpus s" "scheds (log_event e s) = scheds s"
  "online (log_event e s) = online s" "ipis (log_event e s) = ipis s" "trace (log_event e s) = e # trace s"
  by (simp_all add: log_event_def)

lemma force_resched_simps [simp]:
  "vcpus (fst (vmm_scheduler_force_resched E h s)) = vcpus s" "scheds (fst (vmm_scheduler_force_resched E h s)) = scheds s"
  by (simp_all add: vmm_scheduler_force_resched_def)

section \<open>The invariant\<close>

text \<open>
  \<open>N\<close> is the size of the table of VCPUs, \<open>hosts\<close> the host CPUs whose scheduler is initialised.

  \<^item> The ready queue of a host CPU holds exactly the READY VCPUs assigned to it.
  \<^item> A RUNNING VCPU is the current one of its host CPU, and the current VCPU of a host CPU is assigned to it.
  \<^item> A VCPU the scheduler knows has its scheduling entry, a valid priority and, if it runs a guest, its
    interrupt table; there are less than \<open>2 ^ 32\<close> of them, as the ready queues count in 32 bits.
  \<^item> In interrupt context the register frame is known.
  \<^item> The idle VCPU of every initialised host CPU is READY or RUNNING there.
\<close>

definition prio_of :: "'rq system \<Rightarrow> nat \<Rightarrow> nat" where
  "prio_of s n = priority (vcpus s n)"

definition ready_on :: "'rq system \<Rightarrow> nat \<Rightarrow> nat set" where
  "ready_on s h = {n. state (vcpus s n) = VMM_VCPU_STATE_READY \<and> hcpu (vcpus s n) = h}"

definition vcpu_ok :: "irq_arch \<Rightarrow> nat \<Rightarrow> nat \<Rightarrow> vmm_vcpu \<Rightarrow> bool" where
  "vcpu_ok hw N n v \<longleftrightarrow> priority v \<le> VMM_VCPU_MAX_PRIORITY \<and>
     (state v \<noteq> VMM_VCPU_STATE_UNKNOWN \<longrightarrow> n < N \<and> sched_priv v \<and> (is_normal v \<longrightarrow> irqs_tbl hw n (irqs v)))"

definition is_live :: "vmm_vcpu \<Rightarrow> bool" where
  "is_live v \<longleftrightarrow> state v = VMM_VCPU_STATE_READY \<or> state v = VMM_VCPU_STATE_RUNNING"

definition idle_ok :: "nat set \<Rightarrow> 'rq system \<Rightarrow> bool" where
  "idle_ok hosts s \<longleftrightarrow> (\<forall>h \<in> hosts. \<exists>i. idle_vcpu (scheds s h) = Some i \<and> hcpu (vcpus s i) = h \<and> is_live (vcpus s i))"

definition sched_inv ::
  "((nat \<Rightarrow> nat) \<Rightarrow> 'rq \<Rightarrow> bool) \<Rightarrow> ('rq \<Rightarrow> nat set) \<Rightarrow> irq_arch \<Rightarrow> nat \<Rightarrow> nat set \<Rightarrow> 'rq system \<Rightarrow> bool" where
  "sched_inv qinv members hw N hosts s \<longleftrightarrow>
     (\<forall>h. qinv (prio_of s) (rq (scheds s h)) \<and> members (rq (scheds s h)) = ready_on s h)
   \<and> (\<forall>n. state (vcpus s n) = VMM_VCPU_STATE_RUNNING \<longrightarrow> current_vcpu (scheds s (hcpu (vcpus s n))) = Some n)
   \<and> (\<forall>h c. current_vcpu (scheds s h) = Some c \<longrightarrow> hcpu (vcpus s c) = h)
   \<and> (\<forall>n. vcpu_ok hw N n (vcpus s n))
   \<and> (\<forall>h. irq_context (scheds s h) \<longrightarrow> irq_regs (scheds s h) \<noteq> None)
   \<and> idle_ok hosts s \<and> N < 2 ^ 32"

lemma sched_invD:
  assumes "sched_inv qinv members hw N hosts s"
  shows "qinv (prio_of s) (rq (scheds s h))" "members (rq (scheds s h)) = ready_on s h"
    "state (vcpus s n) = VMM_VCPU_STATE_RUNNING \<Longrightarrow> current_vcpu (scheds s (hcpu (vcpus s n))) = Some n"
    "current_vcpu (scheds s h) = Some c \<Longrightarrow> hcpu (vcpus s c) = h"
    "vcpu_ok hw N n (vcpus s n)"
    "irq_context (scheds s h) \<Longrightarrow> irq_regs (scheds s h) \<noteq> None"
    "idle_ok hosts s" "N < 2 ^ 32"
  using assms unfolding sched_inv_def by blast+

lemma vcpu_okD:
  "vcpu_ok hw N n v \<Longrightarrow> priority v \<le> VMM_VCPU_MAX_PRIORITY"
  "vcpu_ok hw N n v \<Longrightarrow> state v \<noteq> VMM_VCPU_STATE_UNKNOWN \<Longrightarrow> n < N \<and> sched_priv v \<and> (is_normal v \<longrightarrow> irqs_tbl hw n (irqs v))"
  by (simp_all add: vcpu_ok_def)

lemma vcpu_okI:
  "vcpu_ok hw N n v \<Longrightarrow> state v \<noteq> VMM_VCPU_STATE_UNKNOWN \<Longrightarrow> priority v' = priority v \<Longrightarrow> sched_priv v' = sched_priv v \<Longrightarrow>
   is_normal v' = is_normal v \<Longrightarrow> irqs v' = irqs v \<Longrightarrow> vcpu_ok hw N n v'"
  by (simp add: vcpu_ok_def)

lemma sched_inv_cong:
  "vcpus s' = vcpus s \<Longrightarrow> scheds s' = scheds s \<Longrightarrow>
     sched_inv qinv members hw N hosts s' = sched_inv qinv members hw N hosts s"
  unfolding sched_inv_def prio_of_def ready_on_def idle_ok_def by simp

text \<open>
  One VCPU \<open>n\<close> and the control structure of its host CPU change.  All operations but the migration go through
  this lemma.
\<close>

lemma sched_inv_update:
  assumes i: "sched_inv qinv members hw N hosts s"
    and eqs: "vcpus s' = (vcpus s)(n := v')" "scheds s' = (scheds s)(h := c')"
    and h: "hcpu (vcpus s n) = h" "hcpu v' = h" "priority v' = priority (vcpus s n)"
    and ok: "vcpu_ok hw N n v'"
    and q: "qinv (prio_of s) (rq c')"
      "members (rq c') = (if state v' = VMM_VCPU_STATE_READY then insert n (ready_on s h) else ready_on s h - {n})"
    and run: "state v' = VMM_VCPU_STATE_RUNNING \<Longrightarrow> current_vcpu c' = Some n"
    and others: "\<And>m. m \<noteq> n \<Longrightarrow> state (vcpus s m) = VMM_VCPU_STATE_RUNNING \<Longrightarrow> hcpu (vcpus s m) = h \<Longrightarrow> current_vcpu c' = Some m"
    and cur: "\<And>c. current_vcpu c' = Some c \<Longrightarrow> hcpu (vcpus s c) = h"
    and irq: "irq_context c' \<Longrightarrow> irq_regs c' \<noteq> None"
    and idle: "idle_vcpu c' = idle_vcpu (scheds s h)" "h \<in> hosts \<Longrightarrow> idle_vcpu (scheds s h) = Some n \<Longrightarrow> is_live v'"
  shows "sched_inv qinv members hw N hosts s'"
proof -
  have prio: "prio_of s' = prio_of s" using eqs h by (auto simp: prio_of_def)
  have rdy: "ready_on s' g = (if g = h then if state v' = VMM_VCPU_STATE_READY then insert n (ready_on s h) else ready_on s h - {n}
      else ready_on s g)" for g
    using eqs h by (auto simp: ready_on_def)
  have 1: "qinv (prio_of s') (rq (scheds s' g)) \<and> members (rq (scheds s' g)) = ready_on s' g" for g
    using sched_invD(1,2) [OF i] q eqs unfolding prio rdy by simp
  have 2: "current_vcpu (scheds s' (hcpu (vcpus s' m))) = Some m" if "state (vcpus s' m) = VMM_VCPU_STATE_RUNNING" for m
    using that sched_invD(3) [OF i, of m] others [of m] run eqs h by (auto split: if_splits)
  have 3: "hcpu (vcpus s' c) = g" if "current_vcpu (scheds s' g) = Some c" for g c
    using that sched_invD(4) [OF i, of g c] cur [of c] eqs h by (auto split: if_splits)
  have 4: "vcpu_ok hw N m (vcpus s' m)" for m using sched_invD(5) [OF i] ok eqs by simp
  have 5: "irq_context (scheds s' g) \<Longrightarrow> irq_regs (scheds s' g) \<noteq> None" for g
    using sched_invD(6) [OF i, of g] irq eqs by (simp split: if_splits)
  have 6: "\<exists>j. idle_vcpu (scheds s' g) = Some j \<and> hcpu (vcpus s' j) = g \<and> is_live (vcpus s' j)" if "g \<in> hosts" for g
  proof -
    obtain j where "idle_vcpu (scheds s g) = Some j" "hcpu (vcpus s j) = g" "is_live (vcpus s j)"
      using sched_invD(7) [OF i] \<open>g \<in> hosts\<close> unfolding idle_ok_def by blast
    then show ?thesis using eqs h idle \<open>g \<in> hosts\<close> by (cases "g = h"; cases "j = n") auto
  qed
  show ?thesis unfolding sched_inv_def idle_ok_def using 1 2 3 4 5 6 sched_invD(8) [OF i] by blast
qed

text \<open>A change of a control structure that leaves the queue, the current and the idle VCPU alone.\<close>

lemma sched_inv_ctrl:
  assumes i: "sched_inv qinv members hw N hosts s" and eqs: "vcpus s' = vcpus s" "scheds s' = (scheds s)(h := c')"
    and c: "rq c' = rq (scheds s h)" "current_vcpu c' = current_vcpu (scheds s h)" "idle_vcpu c' = idle_vcpu (scheds s h)"
    and irq: "irq_context c' \<Longrightarrow> irq_regs c' \<noteq> None"
  shows "sched_inv qinv members hw N hosts s'"
proof -
  have "prio_of s' = prio_of s" "ready_on s' = ready_on s" using eqs by (auto simp: prio_of_def ready_on_def)
  then show ?thesis using i eqs c irq unfolding sched_inv_def idle_ok_def by auto
qed

text \<open>A change of a VCPU that leaves its scheduling state alone.\<close>

lemma sched_inv_vcpu:
  assumes i: "sched_inv qinv members hw N hosts s" and eqs: "vcpus s' = (vcpus s)(n := v')" "scheds s' = scheds s"
    and v: "state v' = state (vcpus s n)" "hcpu v' = hcpu (vcpus s n)" "priority v' = priority (vcpus s n)"
    and ok: "vcpu_ok hw N n v'"
  shows "sched_inv qinv members hw N hosts s'"
proof -
  have "prio_of s' = prio_of s" "ready_on s' = ready_on s" using eqs v by (auto simp: prio_of_def ready_on_def fun_eq_iff)
  moreover have "state (vcpus s' m) = state (vcpus s m)" "hcpu (vcpus s' m) = hcpu (vcpus s m)"
    "is_live (vcpus s' m) = is_live (vcpus s m)" for m
    using eqs v by (auto simp: is_live_def)
  moreover have "vcpu_ok hw N m (vcpus s' m)" for m using sched_invD(5) [OF i] ok eqs by simp
  ultimately show ?thesis using i eqs unfolding sched_inv_def idle_ok_def by auto
qed

section \<open>Operations of a scheduler\<close>

text \<open>
  What runs on a host CPU, as one step each.  \<open>frame\<close> is the register frame of the trap by which an orphan
  VCPU gives up the host CPU.
\<close>

datatype sched_op =
    Op_irq_enter nat bool | Op_irq_exit nat u64 | Op_timer | Op_sample | Op_preempt_disable | Op_preempt_enable
  | Op_state_change nat nat vcpu_state | Op_set_hcpu nat nat | Op_ipi | Op_yield nat | Op_set_period nat u64

fun run_op :: "'rq sched_env \<Rightarrow> nat \<Rightarrow> sched_op \<Rightarrow> 'rq system \<Rightarrow> 'rq system result" where
  "run_op E h (Op_irq_enter regs ctx) s = Done (vmm_scheduler_irq_enter E h (Some regs) ctx s)"
| "run_op E h (Op_irq_exit regs t) s = vmm_scheduler_irq_exit E h regs t s"
| "run_op E h Op_timer s = scheduler_timer_event E h s"
| "run_op E h Op_sample s = Done (scheduler_sample_event E h s)"
| "run_op E h Op_preempt_disable s = Done (vmm_scheduler_preempt_disable h s)"
| "run_op E h Op_preempt_enable s = Done (vmm_scheduler_preempt_enable h s)"
| "run_op E h (Op_state_change frame n new) s =
     bind_result (vmm_scheduler_state_change E h frame (Some n) new s) (\<lambda>(s1, _). Done s1)"
| "run_op E h (Op_set_hcpu n new) s = bind_result (vmm_scheduler_set_hcpu E h (Some n) new s) (\<lambda>(s1, _). Done s1)"
| "run_op E h Op_ipi s = deliver_ipi E h s"
| "run_op E h (Op_yield frame) s = bind_result (vmm_scheduler_yield E h frame s) (\<lambda>(s1, _). Done s1)"
| "run_op E h (Op_set_period g p) s = Done (vmm_scheduler_set_sample_period E g p s)"

text \<open>
  What the callers of the source respect, and what it needs to be safe.

  \<^item> An interrupt exit follows an entry; a VCPU yields outside interrupts.
  \<^item> A VCPU is destroyed (made UNKNOWN) from RESET only, and a VCPU that is made RESET for the first time has
    its interrupt table.
  \<^item> The idle VCPUs are neither stopped nor migrated.
  \<^item> A VCPU that is READY but still the current one of its host CPU (it was paused and resumed before the
    host CPU switched away) is not paused, halted or reset, and a stopped VCPU that is still the current one
    of its host CPU is not moved to another one.  The source has no check for these two situations, nor for a
    READY VCPU that is still current when it is migrated on its own host CPU.
  \<^item> The handler of a migration runs in a bottom-half VCPU, so the migrated VCPU is not the current one.
\<close>

definition is_idle :: "nat set \<Rightarrow> 'rq system \<Rightarrow> nat \<Rightarrow> bool" where
  "is_idle hosts s n \<longleftrightarrow> (\<exists>h \<in> hosts. idle_vcpu (scheds s h) = Some n)"

definition still_current :: "'rq system \<Rightarrow> nat \<Rightarrow> bool" where
  "still_current s n \<longleftrightarrow> current_vcpu (scheds s (hcpu (vcpus s n))) = Some n"

definition change_ok :: "irq_arch \<Rightarrow> nat \<Rightarrow> nat set \<Rightarrow> 'rq system \<Rightarrow> nat \<Rightarrow> vcpu_state \<Rightarrow> bool" where
  "change_ok hw N hosts s n new \<longleftrightarrow>
     (new = VMM_VCPU_STATE_UNKNOWN \<longrightarrow> state (vcpus s n) = VMM_VCPU_STATE_RESET)
   \<and> (new = VMM_VCPU_STATE_RESET \<and> state (vcpus s n) = VMM_VCPU_STATE_UNKNOWN \<longrightarrow>
        n < N \<and> (is_normal (vcpus s n) \<longrightarrow> irqs_tbl hw n (irqs (vcpus s n))))
   \<and> (is_idle hosts s n \<longrightarrow> new = VMM_VCPU_STATE_READY \<or> new = VMM_VCPU_STATE_RUNNING)
   \<and> (state (vcpus s n) = VMM_VCPU_STATE_READY \<and> still_current s n \<longrightarrow> new = VMM_VCPU_STATE_READY \<or> new = VMM_VCPU_STATE_RUNNING)"

fun op_ok :: "irq_arch \<Rightarrow> nat \<Rightarrow> nat set \<Rightarrow> nat \<Rightarrow> sched_op \<Rightarrow> 'rq system \<Rightarrow> bool" where
  "op_ok hw N hosts h (Op_irq_exit regs t) s = (irq_regs (scheds s h) \<noteq> None)"
| "op_ok hw N hosts h (Op_yield frame) s = (\<not> irq_context (scheds s h) \<and> current_vcpu (scheds s h) \<noteq> None)"
| "op_ok hw N hosts h (Op_state_change frame n new) s = change_ok hw N hosts s n new"
| "op_ok hw N hosts h (Op_set_hcpu n new) s = ((is_live (vcpus s n) \<or> hcpu (vcpus s n) = new \<or> \<not> still_current s n)
       \<and> (hcpu (vcpus s n) = h \<and> state (vcpus s n) = VMM_VCPU_STATE_READY \<longrightarrow> \<not> is_idle hosts s n \<and> \<not> still_current s n))"
| "op_ok hw N hosts h Op_ipi s =
     (case take_ipi h (ipis s) of
        Some (IPI_MIGRATE n new, _) \<Rightarrow> \<not> is_idle hosts s n \<and> current_vcpu (scheds s h) \<noteq> Some n
      | _ \<Rightarrow> True)"
| "op_ok hw N hosts h _ s = True"


definition env_ok :: "'rq schedalgo \<Rightarrow> irq_arch \<Rightarrow> 'rq sched_env \<Rightarrow> bool" where
  "env_ok A hw E \<longleftrightarrow> algo E = A \<and> irq_hw E = hw \<and> (\<forall>n. arch_init E n = VMM_OK) \<and> irq_mem E = (True, True)"

section \<open>Switching\<close>

lemma ready_on_bound:
  assumes "sched_inv qinv members hw N hosts s" and "n < N"
  shows "card (insert n (ready_on s h)) < 2 ^ 32"
proof -
  have "m < N" if "m \<in> ready_on s h" for m
    using sched_invD(5) [OF assms(1), of m] that by (auto simp: ready_on_def vcpu_ok_def)
  then have "insert n (ready_on s h) \<subseteq> {..<N}" using assms(2) by auto
  then have "card (insert n (ready_on s h)) \<le> N" using card_mono [of "{..<N}"] by fastforce
  then show ?thesis using sched_invD(8) [OF assms(1)] by simp
qed

context ready_queue
begin

lemma rq_enqueue_ok:
  assumes "algo E = A" "inv (prio_of s) (rq (scheds s h))" "n \<notin> members (rq (scheds s h))" "sched_priv (vcpus s n)"
    "priority (vcpus s n) \<le> VMM_VCPU_MAX_PRIORITY" "card (insert n (members (rq (scheds s h)))) < 2 ^ 32"
  shows "\<exists>q. rq_enqueue E h n s = Done (upd_sched h (\<lambda>c. c\<lparr>rq := q\<rparr>) s, VMM_OK) \<and> inv (prio_of s) q
    \<and> members q = insert n (members (rq (scheds s h)))"
  using enqueue [OF assms(2,3,4), of] assms by (auto simp: rq_enqueue_def prio_of_def)

lemma rq_detach_ok:
  assumes "algo E = A" "inv (prio_of s) (rq (scheds s h))" "n \<in> members (rq (scheds s h))" "sched_priv (vcpus s n)"
  shows "\<exists>q. rq_detach E h n s = Done (upd_sched h (\<lambda>c. c\<lparr>rq := q\<rparr>) s, VMM_OK) \<and> inv (prio_of s) q
    \<and> members q = members (rq (scheds s h)) - {n}"
  using detach [OF assms(2,3,4)] assms(1) by (auto simp: rq_detach_def prio_of_def)

lemma rq_dequeue_ok:
  assumes "algo E = A" "inv (prio_of s) (rq (scheds s h))" "members (rq (scheds s h)) \<noteq> {}"
  shows "\<exists>q n. rq_dequeue E h s = Done (upd_sched h (\<lambda>c. c\<lparr>rq := q\<rparr>) s, Inr (n, time_slice (vcpus s n)))
    \<and> n \<in> members (rq (scheds s h)) \<and> (\<forall>m \<in> members (rq (scheds s h)). prio_of s m \<le> prio_of s n)
    \<and> inv (prio_of s) q \<and> members q = members (rq (scheds s h)) - {n}"
  using dequeue [OF assms(2,3), of "\<lambda>n. time_slice (vcpus s n)"] assms(1) by (auto simp: rq_dequeue_def)

lemma rq_dequeue_none:
  assumes "algo E = A" "inv (prio_of s) (rq (scheds s h))" "members (rq (scheds s h)) = {}"
  shows "rq_dequeue E h s = Done (upd_sched h (\<lambda>c. c\<lparr>rq := rq c\<rparr>) s, Inl VMM_ENOTAVAIL)"
  using dequeue_empty [OF assms(2,3)] assms(1) by (auto simp: rq_dequeue_def upd_sched_def)

text \<open>Taking the next VCPU, when the current one does not run any more.\<close>

lemma make_running_inv:
  assumes i: "sched_inv inv members hw N hosts s"
    and stopped: "\<And>c. current_vcpu (scheds s h) = Some c \<Longrightarrow> state (vcpus s c) \<noteq> VMM_VCPU_STATE_RUNNING"
    and n: "n \<in> ready_on s h" and q: "inv (prio_of s) q" "members q = ready_on s h - {n}"
    and s1: "vcpus s1 = vcpus s" "scheds s1 = (scheds s)(h := (scheds s h)\<lparr>rq := q\<rparr>)"
  shows "sched_inv inv members hw N hosts (make_running E h n ts s1)"
proof (rule sched_inv_update [OF i, where n = n and h = h])
  show "vcpus (make_running E h n ts s1) = (vcpus s)(n := (vcpus s n)\<lparr>state_ready_nsecs := state_ready_nsecs (vcpus s n)
      + (now E - state_tstamp (vcpus s n)), state := VMM_VCPU_STATE_RUNNING, resumed := False, state_tstamp := now E\<rparr>)"
    using s1 by (simp add: make_running_def)
  show "scheds (make_running E h n ts s1) = (scheds s)(h := (scheds s h)\<lparr>rq := q, current_vcpu := Some n,
      current_vcpu_irq_ns := irq_process_ns (scheds s h), ev := Some ts\<rparr>)"
    using s1 by (simp add: make_running_def)
  show "vcpu_ok hw N n ((vcpus s n)\<lparr>state_ready_nsecs := state_ready_nsecs (vcpus s n)
      + (now E - state_tstamp (vcpus s n)), state := VMM_VCPU_STATE_RUNNING, resumed := False, state_tstamp := now E\<rparr>)"
    using sched_invD(5) [OF i, of n] n by (auto simp: vcpu_ok_def ready_on_def)
  show "\<And>m. state (vcpus s m) = VMM_VCPU_STATE_RUNNING \<Longrightarrow> hcpu (vcpus s m) = h \<Longrightarrow>
    current_vcpu ((scheds s h)\<lparr>rq := q, current_vcpu := Some n, current_vcpu_irq_ns := irq_process_ns (scheds s h), ev := Some ts\<rparr>) = Some m"
    using sched_invD(3) [OF i] stopped by blast
qed (use n q sched_invD(6) [OF i, of h] in \<open>auto simp: ready_on_def is_live_def\<close>)

lemma preempt_current_inv:
  assumes i: "sched_inv inv members hw N hosts s" and E: "algo E = A" and c: "current_vcpu (scheds s h) = Some cur"
  shows "\<exists>s1. preempt_current E h cur s = Done s1 \<and> sched_inv inv members hw N hosts s1
    \<and> state (vcpus s1 cur) = (if state (vcpus s cur) = VMM_VCPU_STATE_RUNNING then VMM_VCPU_STATE_READY else state (vcpus s cur))
    \<and> (\<forall>m. m \<noteq> cur \<longrightarrow> vcpus s1 m = vcpus s m) \<and> prio_of s1 = prio_of s
    \<and> (\<forall>g. current_vcpu (scheds s1 g) = current_vcpu (scheds s g)) \<and> hcpu (vcpus s1 cur) = h
    \<and> wq_lock (vcpus s1 cur) = wq_lock (vcpus s cur) \<and> preempt_count (vcpus s1 cur) = preempt_count (vcpus s cur)"
proof (cases "state (vcpus s cur) = VMM_VCPU_STATE_RUNNING")
  case True
  let ?f = "\<lambda>v. v\<lparr>state_running_nsecs := state_running_nsecs v + (now E - state_tstamp v)
      - (irq_process_ns (scheds s h) - current_vcpu_irq_ns (scheds s h)), state := VMM_VCPU_STATE_READY, state_tstamp := now E\<rparr>"
  let ?s2 = "upd_sched h (\<lambda>c. c\<lparr>current_vcpu_irq_ns := irq_process_ns c\<rparr>) (upd_vcpu cur ?f s)"
  have hc: "hcpu (vcpus s cur) = h" using sched_invD(4) [OF i c] .
  note ok = vcpu_okD(2) [OF sched_invD(5) [OF i, of cur]] vcpu_okD(1) [OF sched_invD(5) [OF i, of cur]]
  have p: "prio_of ?s2 = prio_of s" by (auto simp: prio_of_def)
  have "\<exists>q. rq_enqueue E h cur ?s2 = Done (upd_sched h (\<lambda>c. c\<lparr>rq := q\<rparr>) ?s2, VMM_OK) \<and> inv (prio_of ?s2) q
    \<and> members q = insert cur (members (rq (scheds ?s2 h)))"
    using True ok E sched_invD(1,2) [OF i, of h] ready_on_bound [OF i, of cur h]
    by (intro rq_enqueue_ok) (auto simp: p ready_on_def)
  then obtain q where q: "rq_enqueue E h cur ?s2 = Done (upd_sched h (\<lambda>c. c\<lparr>rq := q\<rparr>) ?s2, VMM_OK)" "inv (prio_of s) q"
    "members q = insert cur (ready_on s h)" using sched_invD(2) [OF i, of h] by (auto simp: p)
  let ?s3 = "upd_sched h (\<lambda>c. c\<lparr>rq := q\<rparr>) ?s2"
  have r: "preempt_current E h cur s = Done ?s3" using True q(1) by (simp add: preempt_current_def Let_def)
  have "sched_inv inv members hw N hosts ?s3"
  proof (rule sched_inv_update [OF i, where n = cur and h = h])
    show "vcpus ?s3 = (vcpus s)(cur := ?f (vcpus s cur))" by simp
    show "scheds ?s3 = (scheds s)(h := (scheds s h)\<lparr>current_vcpu_irq_ns := irq_process_ns (scheds s h), rq := q\<rparr>)" by simp
    show "vcpu_ok hw N cur (?f (vcpus s cur))" using ok True by (simp add: vcpu_ok_def)
    show "\<And>m. m \<noteq> cur \<Longrightarrow> state (vcpus s m) = VMM_VCPU_STATE_RUNNING \<Longrightarrow> hcpu (vcpus s m) = h \<Longrightarrow>
      current_vcpu ((scheds s h)\<lparr>current_vcpu_irq_ns := irq_process_ns (scheds s h), rq := q\<rparr>) = Some m"
      using sched_invD(3) [OF i] by auto
  qed (use c hc q sched_invD(6) [OF i, of h] in \<open>auto simp: is_live_def\<close>)
  then show ?thesis using r True p hc by (auto simp: prio_of_def fun_eq_iff)
next
  case False
  then show ?thesis using i sched_invD(4) [OF i c] by (auto simp: preempt_current_def)
qed


lemma dequeue_again_first:
  assumes i: "sched_inv inv members hw N hosts s" and E: "algo E = A" and ne: "ready_on s h \<noteq> {}"
  shows "\<exists>q n. dequeue_again (Suc k) E h cur s = Done (upd_sched h (\<lambda>c. c\<lparr>rq := q\<rparr>) s, n, time_slice (vcpus s n))
    \<and> n \<in> ready_on s h \<and> (\<forall>m \<in> ready_on s h. prio_of s m \<le> prio_of s n) \<and> inv (prio_of s) q \<and> members q = ready_on s h - {n}"
proof -
  obtain q n where d: "rq_dequeue E h s = Done (upd_sched h (\<lambda>c. c\<lparr>rq := q\<rparr>) s, Inr (n, time_slice (vcpus s n)))"
    "n \<in> ready_on s h" "\<forall>m \<in> ready_on s h. prio_of s m \<le> prio_of s n" "inv (prio_of s) q" "members q = ready_on s h - {n}"
    using rq_dequeue_ok [OF E sched_invD(1) [OF i], of h] ne unfolding sched_invD(2) [OF i] by blast
  have "state (vcpus s n) = VMM_VCPU_STATE_READY" using d(2) by (simp add: ready_on_def)
  then have "dequeue_again (Suc k) E h cur s = Done (upd_sched h (\<lambda>c. c\<lparr>rq := q\<rparr>) s, n, time_slice (vcpus s n))"
    using d(1) by simp
  then show ?thesis using d(2-5) by blast
qed

lemma ready_nonempty:
  assumes i: "sched_inv inv members hw N hosts s" and "h \<in> hosts"
    and stopped: "\<And>c. current_vcpu (scheds s h) = Some c \<Longrightarrow> state (vcpus s c) \<noteq> VMM_VCPU_STATE_RUNNING"
  shows "ready_on s h \<noteq> {}"
proof -
  obtain j where j: "hcpu (vcpus s j) = h" "is_live (vcpus s j)"
    using sched_invD(7) [OF i] \<open>h \<in> hosts\<close> unfolding idle_ok_def by blast
  then have "state (vcpus s j) \<noteq> VMM_VCPU_STATE_RUNNING" using sched_invD(3) [OF i, of j] stopped by auto
  then show ?thesis using j by (auto simp: ready_on_def is_live_def)
qed

end

text \<open>The VCPUs that may run next, and whether the current VCPU lets itself be switched away.\<close>

definition candidates :: "'rq system \<Rightarrow> nat \<Rightarrow> nat set" where
  "candidates s h = ready_on s h \<union> {c. current_vcpu (scheds s h) = Some c \<and> state (vcpus s c) = VMM_VCPU_STATE_RUNNING}"

definition preemptible :: "'rq system \<Rightarrow> nat \<Rightarrow> bool" where
  "preemptible s h \<longleftrightarrow> (case current_vcpu (scheds s h) of
     None \<Rightarrow> True | Some c \<Rightarrow> preempt_count (vcpus s c) = (if wq_lock (vcpus s c) \<noteq> None then 1 else 0))"

text \<open>What a context switch does: \<open>s'\<close> is the state after switching from \<open>s\<close> to \<open>n\<close> on host CPU \<open>h\<close>.\<close>

definition switched :: "nat \<Rightarrow> nat \<Rightarrow> 'rq system \<Rightarrow> 'rq system \<Rightarrow> bool" where
  "switched h n s s' \<longleftrightarrow> n \<in> candidates s h \<and> (\<forall>m \<in> candidates s h. prio_of s m \<le> prio_of s n)
     \<and> current_vcpu (scheds s' h) = Some n \<and> state (vcpus s' n) = VMM_VCPU_STATE_RUNNING \<and> ready_on s' h = candidates s h - {n}
     \<and> (\<forall>g. g \<noteq> h \<longrightarrow> scheds s' g = scheds s g)
     \<and> (\<forall>m. m \<noteq> n \<longrightarrow> current_vcpu (scheds s h) \<noteq> Some m \<longrightarrow> vcpus s' m = vcpus s m)
     \<and> (\<forall>m. m \<noteq> n \<longrightarrow> state (vcpus s' m) = (if current_vcpu (scheds s h) = Some m \<and> state (vcpus s m) = VMM_VCPU_STATE_RUNNING
           then VMM_VCPU_STATE_READY else state (vcpus s m)))
     \<and> (\<forall>m. hcpu (vcpus s' m) = hcpu (vcpus s m)) \<and> online s' = online s"

lemma release_wq_lock_simps [simp]: "scheds (release_wq_lock h cur s) = scheds s" "online (release_wq_lock h cur s) = online s"
  "prio_of (release_wq_lock h cur s) = prio_of s"
  by (auto simp: release_wq_lock_def prio_of_def fun_eq_iff split: option.split)

lemma release_wq_lock_vcpu [simp]:
  "state (vcpus (release_wq_lock h cur s) m) = state (vcpus s m)" "hcpu (vcpus (release_wq_lock h cur s) m) = hcpu (vcpus s m)"
  "vcpu_ok hw N k (vcpus (release_wq_lock h cur s) m) = vcpu_ok hw N k (vcpus s m)"
  "m \<noteq> cur \<Longrightarrow> vcpus (release_wq_lock h cur s) m = vcpus s m"
  by (auto simp: release_wq_lock_def vcpu_ok_def split: option.split)

lemma release_wq_lock_inv:
  "sched_inv qinv members hw N hosts s \<Longrightarrow> sched_inv qinv members hw N hosts (release_wq_lock h cur s)"
proof -
  assume i: "sched_inv qinv members hw N hosts s"
  have "ready_on (release_wq_lock h cur s) = ready_on s" by (auto simp: ready_on_def fun_eq_iff)
  moreover have "is_live (vcpus (release_wq_lock h cur s) m) = is_live (vcpus s m)" for m by (simp add: is_live_def)
  ultimately show ?thesis using i unfolding sched_inv_def idle_ok_def by simp
qed

lemma post_switch_simps [simp]:
  "vcpus (post_switch h r nx s) = vcpus s" "scheds (post_switch h r nx s) = scheds s" "online (post_switch h r nx s) = online s"
  by (simp_all add: post_switch_def split: option.split)

lemma preempt_current_other:
  "preempt_current E h cur s = Done s1 \<Longrightarrow> g \<noteq> h \<Longrightarrow> scheds s1 g = scheds s g"
  "preempt_current E h cur s = Done s1 \<Longrightarrow> online s1 = online s"
  by (auto simp: preempt_current_def rq_enqueue_def Let_def split: if_splits)

lemma make_running_simps [simp]:
  "current_vcpu (scheds (make_running E h n ts s) h) = Some n" "g \<noteq> h \<Longrightarrow> scheds (make_running E h n ts s) g = scheds s g"
  "state (vcpus (make_running E h n ts s) n) = VMM_VCPU_STATE_RUNNING" "m \<noteq> n \<Longrightarrow> vcpus (make_running E h n ts s) m = vcpus s m"
  "rq (scheds (make_running E h n ts s) h) = rq (scheds s h)" "prio_of (make_running E h n ts s) = prio_of s"
  "hcpu (vcpus (make_running E h n ts s) m) = hcpu (vcpus s m)" "online (make_running E h n ts s) = online s"
  by (auto simp: make_running_def prio_of_def fun_eq_iff)

context ready_queue
begin

lemma scheduler_next1_ok:
  assumes i: "sched_inv inv members hw N hosts s" and E: "algo E = A" and h: "h \<in> hosts"
    and c: "current_vcpu (scheds s h) = None"
  shows "\<exists>s' n. scheduler_next1 E h r s = Done (s', n) \<and> sched_inv inv members hw N hosts s' \<and> switched h n s s'"
proof -
  have ne: "ready_on s h \<noteq> {}" using ready_nonempty [OF i h] c by simp
  obtain q n where d: "rq_dequeue E h s = Done (upd_sched h (\<lambda>c. c\<lparr>rq := q\<rparr>) s, Inr (n, time_slice (vcpus s n)))"
    "n \<in> ready_on s h" "\<forall>m \<in> ready_on s h. prio_of s m \<le> prio_of s n" "inv (prio_of s) q" "members q = ready_on s h - {n}"
    using rq_dequeue_ok [OF E sched_invD(1) [OF i], of h] ne unfolding sched_invD(2) [OF i] by blast
  let ?s1 = "log_event (ArchSwitch h None n r) (upd_sched h (\<lambda>c. c\<lparr>rq := q\<rparr>) s)"
  let ?s' = "make_running E h n (time_slice (vcpus s n)) ?s1"
  have j: "sched_inv inv members hw N hosts ?s'"
    using make_running_inv [OF i _ d(2,4,5), of ?s1] c by simp
  have "ready_on ?s' h = ready_on s h - {n}" using sched_invD(2) [OF j, of h] d(5) by simp
  moreover have "candidates s h = ready_on s h" using c by (simp add: candidates_def)
  ultimately have "switched h n s ?s'" using d(2,3) c by (simp add: switched_def)
  then show ?thesis using d(1) j by (simp add: scheduler_next1_def)
qed

lemma scheduler_next2_ok:
  assumes i: "sched_inv inv members hw N hosts s" and E: "algo E = A" and h: "h \<in> hosts"
    and c: "current_vcpu (scheds s h) = Some cur"
  shows "\<exists>s' n. scheduler_next2 E h cur r s = Done (s', if n \<noteq> cur then Some n else None)
    \<and> sched_inv inv members hw N hosts s' \<and> switched h n s s'"
proof -
  obtain s1 where p: "preempt_current E h cur s = Done s1" "sched_inv inv members hw N hosts s1"
    "state (vcpus s1 cur) = (if state (vcpus s cur) = VMM_VCPU_STATE_RUNNING then VMM_VCPU_STATE_READY else state (vcpus s cur))"
    "\<forall>m. m \<noteq> cur \<longrightarrow> vcpus s1 m = vcpus s m" "prio_of s1 = prio_of s" "\<forall>g. current_vcpu (scheds s1 g) = current_vcpu (scheds s g)"
    "hcpu (vcpus s1 cur) = h" "\<forall>g. g \<noteq> h \<longrightarrow> scheds s1 g = scheds s g" "online s1 = online s"
    using preempt_current_inv [OF i E c] preempt_current_other [of E h cur s] by fastforce
  have hc: "hcpu (vcpus s cur) = h" using sched_invD(4) [OF i c] .
  have st: "current_vcpu (scheds s1 h) = Some x \<Longrightarrow> state (vcpus s1 x) \<noteq> VMM_VCPU_STATE_RUNNING" for x
    using p(3,6) c by auto
  have cand: "candidates s h = ready_on s1 h"
  proof -
    have "m \<in> candidates s h \<longleftrightarrow> m \<in> ready_on s1 h" for m
      using p(3,4,7) c hc by (cases "m = cur") (auto simp: candidates_def ready_on_def)
    then show ?thesis by blast
  qed
  obtain q n where d: "dequeue_again (Suc (queued E h s1)) E h cur s1 = Done (upd_sched h (\<lambda>c. c\<lparr>rq := q\<rparr>) s1, n, time_slice (vcpus s1 n))"
    "n \<in> ready_on s1 h" "\<forall>m \<in> ready_on s1 h. prio_of s1 m \<le> prio_of s1 n" "inv (prio_of s1) q" "members q = ready_on s1 h - {n}"
    using dequeue_again_first [OF p(2) E ready_nonempty [OF p(2) h st]] by blast
  let ?t = "if STATE_SAVEABLE (state (vcpus s cur)) then Some cur else None"
  let ?s2 = "upd_sched h (\<lambda>c. c\<lparr>rq := q\<rparr>) s1"
  define s3 where "s3 = (if n \<noteq> cur then log_event (ArchSwitch h ?t n r) ?s2 else ?s2)"
  have s3: "vcpus s3 = vcpus s1" "scheds s3 = (scheds s1)(h := (scheds s1 h)\<lparr>rq := q\<rparr>)" by (simp_all add: s3_def)
  have on: "online s3 = online s" using p(9) by (simp add: s3_def)
  have hs: "hcpu (vcpus s1 m) = hcpu (vcpus s m)" for m using p(4,7) hc by (cases "m = cur") auto
  let ?s' = "make_running E h n (time_slice (vcpus s1 n)) s3"
  have j: "sched_inv inv members hw N hosts ?s'"
    by (rule make_running_inv [OF p(2) st d(2,4,5) s3])
  have "ready_on ?s' h = ready_on s1 h - {n}" using sched_invD(2) [OF j, of h] d(5) s3 by simp
  moreover have "prio_of s3 = prio_of s1" using s3 by (simp add: prio_of_def fun_eq_iff)
  moreover have "state (vcpus s1 m) = (if current_vcpu (scheds s h) = Some m \<and> state (vcpus s m) = VMM_VCPU_STATE_RUNNING
      then VMM_VCPU_STATE_READY else state (vcpus s m))" for m using p(3,4) c by (cases "m = cur") auto
  ultimately have "switched h n s ?s'" using d(2,3) p(4,5,8) c s3 on hs by (simp add: switched_def cand)
  moreover have "scheduler_next2 E h cur r s = Done (?s', if n \<noteq> cur then Some n else None)"
    using p(1) d(1) by (simp add: scheduler_next2_def Let_def s3_def del: dequeue_again.simps bind_result_eq_Done)
  ultimately show ?thesis using j by blast
qed

lemma switch_ok:
  assumes i: "sched_inv inv members hw N hosts s" and E: "algo E = A" and h: "h \<in> hosts"
  shows "\<exists>s'. vmm_scheduler_switch E h (Some r) s = Done s' \<and> sched_inv inv members hw N hosts s'
    \<and> (if preemptible s h then \<exists>n. switched h n s s' else s' = s)"
proof (cases "current_vcpu (scheds s h)")
  case None
  then obtain s1 n where "scheduler_next1 E h r s = Done (s1, n)" "sched_inv inv members hw N hosts s1" "switched h n s s1"
    using scheduler_next1_ok [OF i E h] by blast
  moreover have "switched h n s (post_switch h r (Some n) s1) = switched h n s s1" by (simp add: switched_def ready_on_def)
  moreover have "preemptible s h" using None by (simp add: preemptible_def)
  ultimately show ?thesis
    using None sched_inv_cong [of "post_switch h r (Some n) s1" s1] by (auto simp: vmm_scheduler_switch_def)
next
  case (Some cur)
  show ?thesis
  proof (cases "preemptible s h")
    case True
    obtain s1 n where n: "scheduler_next2 E h cur r s = Done (s1, if n \<noteq> cur then Some n else None)"
      "sched_inv inv members hw N hosts s1" "switched h n s s1"
      using scheduler_next2_ok [OF i E h Some] by blast
    let ?s2 = "release_wq_lock h cur s1" let ?s3 = "post_switch h r (if n \<noteq> cur then Some n else None) ?s2"
    have "vmm_scheduler_switch E h (Some r) s = Done ?s3"
      using Some True n(1) by (simp add: vmm_scheduler_switch_def preemptible_def Let_def)
    moreover have "sched_inv inv members hw N hosts ?s3"
      using release_wq_lock_inv [OF n(2), of h cur] sched_inv_cong [of ?s3 ?s2] by simp
    moreover have "switched h n s ?s3" using n(3) Some by (auto simp: switched_def ready_on_def)
    ultimately show ?thesis using True by auto
  next
    case False
    then have "vmm_scheduler_switch E h (Some r) s = Done s"
      using Some by (simp add: vmm_scheduler_switch_def preemptible_def Let_def)
    then show ?thesis using False i by simp
  qed
qed

end

end
