(* ===== verification/SchedSafe.thy ===== *)
theory SchedSafe
  imports SchedInv
begin

text \<open>
  Every operation of the scheduler keeps the invariant and neither panics nor faults, for any interleaving of
  operations on several host CPUs; the transition table of the VCPU states; and the situations that the
  hypotheses exclude.
\<close>

section \<open>State changes\<close>

lemma commit_state_simps [simp]:
  "state (commit_state t cur new v) = new" "hcpu (commit_state t cur new v) = hcpu v"
  "priority (commit_state t cur new v) = priority v" "sched_priv (commit_state t cur new v) = sched_priv v"
  "is_normal (commit_state t cur new v) = is_normal v" "irqs (commit_state t cur new v) = irqs v"
  by (cases cur; simp add: commit_state_def account_time_def Let_def)+

lemma rq_same: "scheds s = (scheds s)(h := (scheds s h)\<lparr>rq := rq (scheds s h)\<rparr>)"
  by (rule fun_upd_idem [symmetric]) simp

text \<open>The transitions that succeed, and the state after them.\<close>

fun transition :: "vcpu_state \<Rightarrow> bool \<Rightarrow> vcpu_state \<Rightarrow> vcpu_state option" where
  "transition cur res VMM_VCPU_STATE_UNKNOWN = Some VMM_VCPU_STATE_UNKNOWN"
| "transition cur res VMM_VCPU_STATE_RESET = Some VMM_VCPU_STATE_RESET"
| "transition cur res VMM_VCPU_STATE_READY =
     (if cur = VMM_VCPU_STATE_RESET \<or> cur = VMM_VCPU_STATE_PAUSED \<or> cur = VMM_VCPU_STATE_READY then Some VMM_VCPU_STATE_READY
      else if cur = VMM_VCPU_STATE_RUNNING then Some VMM_VCPU_STATE_RUNNING else None)"
| "transition cur res VMM_VCPU_STATE_RUNNING = None"
| "transition cur res VMM_VCPU_STATE_PAUSED =
     (if cur = VMM_VCPU_STATE_PAUSED then Some VMM_VCPU_STATE_PAUSED
      else if cur = VMM_VCPU_STATE_READY \<or> cur = VMM_VCPU_STATE_RUNNING
      then Some (if res then cur else VMM_VCPU_STATE_PAUSED) else None)"
| "transition cur res VMM_VCPU_STATE_HALTED =
     (if cur = VMM_VCPU_STATE_READY \<or> cur = VMM_VCPU_STATE_RUNNING then Some VMM_VCPU_STATE_HALTED else None)"

context ready_queue
begin

text \<open>Going to a stopped state: out of the queue if the VCPU was READY.\<close>

lemma stop_inv:
  assumes i: "sched_inv inv members hw N hosts s" and h: "h = hcpu (vcpus s n)"
    and q: "inv (prio_of s) q" "members q = ready_on s h - {n}"
    and v: "state v' \<noteq> VMM_VCPU_STATE_READY" "state v' \<noteq> VMM_VCPU_STATE_RUNNING" "hcpu v' = h"
      "priority v' = priority (vcpus s n)" "vcpu_ok hw N n v'" "\<not> is_idle hosts s n"
    and eqs: "vcpus s' = (vcpus s)(n := v')" "scheds s' = (scheds s)(h := (scheds s h)\<lparr>rq := q\<rparr>)"
  shows "sched_inv inv members hw N hosts s'"
proof (rule sched_inv_update [OF i eqs])
  show "\<And>m. m \<noteq> n \<Longrightarrow> state (vcpus s m) = VMM_VCPU_STATE_RUNNING \<Longrightarrow> hcpu (vcpus s m) = h \<Longrightarrow>
      current_vcpu ((scheds s h)\<lparr>rq := q\<rparr>) = Some m"
    using sched_invD(3) [OF i] by auto
qed (use h q v sched_invD(4,6) [OF i] in \<open>auto simp: is_idle_def\<close>)

lemma stop_inv_same:
  assumes i: "sched_inv inv members hw N hosts s" and n: "state (vcpus s n) \<noteq> VMM_VCPU_STATE_READY"
    and v: "state v' \<noteq> VMM_VCPU_STATE_READY" "state v' \<noteq> VMM_VCPU_STATE_RUNNING" "hcpu v' = hcpu (vcpus s n)"
      "priority v' = priority (vcpus s n)" "vcpu_ok hw N n v'" "\<not> is_idle hosts s n"
    and eqs: "vcpus s' = (vcpus s)(n := v')" "scheds s' = scheds s"
  shows "sched_inv inv members hw N hosts s'"
proof (rule stop_inv [OF i refl sched_invD(1) [OF i] _ v eqs(1) trans [OF eqs(2) rq_same]])
  show "members (rq (scheds s (hcpu (vcpus s n)))) = ready_on s (hcpu (vcpus s n)) - {n}"
    using n sched_invD(2) [OF i] by (auto simp: ready_on_def)
qed

lemma start_inv:
  assumes i: "sched_inv inv members hw N hosts s" and h: "h = hcpu (vcpus s n)"
    and q: "inv (prio_of s) q" "members q = insert n (ready_on s h)"
    and v: "state v' = VMM_VCPU_STATE_READY" "hcpu v' = h" "priority v' = priority (vcpus s n)" "vcpu_ok hw N n v'"
    and eqs: "vcpus s' = (vcpus s)(n := v')" "scheds s' = (scheds s)(h := (scheds s h)\<lparr>rq := q\<rparr>)"
  shows "sched_inv inv members hw N hosts s'"
proof (rule sched_inv_update [OF i eqs])
  show "\<And>m. m \<noteq> n \<Longrightarrow> state (vcpus s m) = VMM_VCPU_STATE_RUNNING \<Longrightarrow> hcpu (vcpus s m) = h \<Longrightarrow>
      current_vcpu ((scheds s h)\<lparr>rq := q\<rparr>) = Some m"
    using sched_invD(3) [OF i] by auto
qed (use h q v sched_invD(4,6) [OF i] in \<open>auto simp: is_live_def\<close>)

text \<open>The step that takes a READY VCPU, or one that is not queued, out of the queue; shared by RESET, PAUSED and HALTED.\<close>

lemma leave_queue:
  assumes i: "sched_inv inv members hw N hosts s" and E: "algo E = A" and h: "h = hcpu (vcpus s n)"
    and nc: "state (vcpus s n) = VMM_VCPU_STATE_READY \<Longrightarrow> \<not> still_current s n"
    and s1: "vcpus s1 = (vcpus s)(n := v1)" "scheds s1 = scheds s" "sched_priv v1 = sched_priv (vcpus s n)"
      "priority v1 = priority (vcpus s n)"
  shows "\<exists>q. (if current_vcpu (scheds s h) \<noteq> Some n \<and> state (vcpus s n) = VMM_VCPU_STATE_READY
       then rq_detach E h n s1 else Done (s1, VMM_OK)) = Done (upd_sched h (\<lambda>c. c\<lparr>rq := q\<rparr>) s1, VMM_OK)
    \<and> inv (prio_of s) q \<and> members q = ready_on s h - {n}"
proof (cases "state (vcpus s n) = VMM_VCPU_STATE_READY")
  case True
  have p: "prio_of s1 = prio_of s" using s1 by (auto simp: prio_of_def)
  have "current_vcpu (scheds s h) \<noteq> Some n" using nc True h by (simp add: still_current_def)
  moreover have "n \<in> ready_on s h" using True h by (simp add: ready_on_def)
  moreover have "sched_priv v1" using vcpu_okD(2) [OF sched_invD(5) [OF i, of n]] True s1 by simp
  ultimately show ?thesis
    using rq_detach_ok [of E s1 h n] E sched_invD(1,2) [OF i, of h] s1 True by (simp add: p)
next
  case False
  then have "n \<notin> ready_on s h" by (simp add: ready_on_def)
  moreover have "upd_sched h (\<lambda>c. c\<lparr>rq := rq (scheds s h)\<rparr>) s1 = s1" using s1(2) by (simp add: upd_sched_def fun_upd_idem)
  ultimately show ?thesis using False sched_invD(1,2) [OF i, of h] by (auto intro!: exI [of _ "rq (scheds s h)"])
qed

end


definition changed :: "nat \<Rightarrow> 'rq system \<Rightarrow> 'rq system \<Rightarrow> bool" where
  "changed n s s' \<longleftrightarrow> (\<forall>m. m \<noteq> n \<longrightarrow> vcpus s' m = vcpus s m) \<and> hcpu (vcpus s' n) = hcpu (vcpus s n)
     \<and> is_normal (vcpus s' n) = is_normal (vcpus s n)
     \<and> (\<exists>q. scheds s' = (scheds s)(hcpu (vcpus s n) := (scheds s (hcpu (vcpus s n)))\<lparr>rq := q\<rparr>))"

lemma changedI:
  "vcpus s' = (vcpus s)(n := v') \<Longrightarrow> hcpu v' = hcpu (vcpus s n) \<Longrightarrow> is_normal v' = is_normal (vcpus s n) \<Longrightarrow>
   scheds s' = (scheds s)(hcpu (vcpus s n) := (scheds s (hcpu (vcpus s n)))\<lparr>rq := q\<rparr>) \<Longrightarrow> changed n s s'"
  unfolding changed_def by auto

lemma changedI2:
  "vcpus s' = (vcpus s)(n := v') \<Longrightarrow> hcpu v' = hcpu (vcpus s n) \<Longrightarrow> is_normal v' = is_normal (vcpus s n) \<Longrightarrow>
   scheds s' = scheds s \<Longrightarrow> changed n s s'"
  by (rule changedI [OF _ _ _ trans [OF _ rq_same]])

lemma changed_sched:
  "changed n s s' \<Longrightarrow> current_vcpu (scheds s' g) = current_vcpu (scheds s g) \<and> irq_context (scheds s' g) = irq_context (scheds s g)
     \<and> irq_regs (scheds s' g) = irq_regs (scheds s g) \<and> idle_vcpu (scheds s' g) = idle_vcpu (scheds s g)"
  unfolding changed_def by (auto split: if_splits)

text \<open>Outcome of the part of a state change under the lock, for a good transition and a refused one.\<close>

definition lock_result ::
  "('rq system \<Rightarrow> bool) \<Rightarrow> 'rq sched_env \<Rightarrow> nat \<Rightarrow> vcpu_state \<Rightarrow> 'rq system \<Rightarrow> bool" where
  "lock_result P E n new s \<longleftrightarrow> (\<exists>s' rc p. change_locked E n new s = Done (s', rc, p) \<and> P s' \<and> changed n s s' \<and>
     (case transition (state (vcpus s n)) (resumed (vcpus s n)) new of
        None \<Rightarrow> rc = VMM_EINVALID \<and> s' = s
      | Some st \<Rightarrow>
          if \<not> entry_mem E \<and> state (vcpus s n) = VMM_VCPU_STATE_UNKNOWN \<and> new = VMM_VCPU_STATE_RESET
          then rc = VMM_EFAIL \<and> s' = s else rc = VMM_OK \<and> state (vcpus s' n) = st))"

lemma change_locked_commit:
  "change_action E n new s = Done (s1, VMM_OK, p, False) \<Longrightarrow>
     change_locked E n new s = Done (upd_vcpu n (commit_state (now E) (state (vcpus s n)) new) s1, VMM_OK, p)"
  by (simp add: change_locked_def del: bind_result_eq_Done)

lemma change_locked_skip:
  "change_action E n new s = Done (s1, rc, p, True) \<Longrightarrow> change_locked E n new s = Done (s1, rc, p)"
  by (simp add: change_locked_def del: bind_result_eq_Done)

lemma upd_vcpu_twice: "upd_vcpu n f (upd_vcpu n (\<lambda>_. v) s) = upd_vcpu n (\<lambda>_. f v) s"
  by (simp add: upd_vcpu_def)

lemma upd_vcpu_same [simp]: "upd_vcpu n (\<lambda>_. vcpus s n) s = s"
  by (simp add: upd_vcpu_def)

lemma changed_refl [simp]: "changed n s s"
  unfolding changed_def by (auto intro!: exI [of _ "rq (scheds s (hcpu (vcpus s n)))"])

context ready_queue
begin

lemma lock_unknown:
  assumes i: "sched_inv inv members hw N hosts s" and g: "change_ok hw N hosts s n VMM_VCPU_STATE_UNKNOWN"
  shows "lock_result (sched_inv inv members hw N hosts) E n VMM_VCPU_STATE_UNKNOWN s"
proof -
  let ?v = "commit_state (now E) VMM_VCPU_STATE_RESET VMM_VCPU_STATE_UNKNOWN ((vcpus s n)\<lparr>sched_priv := False\<rparr>)"
  let ?s' = "upd_vcpu n (\<lambda>_. ?v) s"
  have st: "state (vcpus s n) = VMM_VCPU_STATE_RESET" using g by (simp add: change_ok_def)
  have ok: "sched_priv (vcpus s n)" "priority (vcpus s n) \<le> VMM_VCPU_MAX_PRIORITY"
    using vcpu_okD [OF sched_invD(5) [OF i, of n]] st by simp_all
  have r: "change_locked E n VMM_VCPU_STATE_UNKNOWN s = Done (?s', VMM_OK, False)"
    using st ok by (simp add: change_locked_def change_action_def vmm_schedalgo_vcpu_cleanup_def Let_def upd_vcpu_def)
  have "\<not> is_idle hosts s n" using g by (auto simp: change_ok_def)
  then have "sched_inv inv members hw N hosts ?s'"
    using st ok by (intro stop_inv_same [OF i, where v' = ?v]) (simp_all add: vcpu_ok_def)
  moreover have "changed n s ?s'" by (rule changedI2 [where v' = ?v]) simp_all
  ultimately show ?thesis using r by (auto simp: lock_result_def)
qed

lemma lock_ready:
  assumes i: "sched_inv inv members hw N hosts s" and E: "algo E = A"
  shows "lock_result (sched_inv inv members hw N hosts) E n VMM_VCPU_STATE_READY s"
proof (cases "state (vcpus s n) = VMM_VCPU_STATE_RESET \<or> state (vcpus s n) = VMM_VCPU_STATE_PAUSED")
  case True
  let ?h = "hcpu (vcpus s n)" let ?v = "commit_state (now E) (state (vcpus s n)) VMM_VCPU_STATE_READY (vcpus s n)"
  note ok = vcpu_okD [OF sched_invD(5) [OF i, of n]]
  have "n \<notin> ready_on s ?h" using True by (auto simp: ready_on_def)
  then obtain q where q: "rq_enqueue E ?h n s = Done (upd_sched ?h (\<lambda>c. c\<lparr>rq := q\<rparr>) s, VMM_OK)" "inv (prio_of s) q"
    "members q = insert n (ready_on s ?h)"
    using rq_enqueue_ok [OF E sched_invD(1) [OF i], of n ?h] sched_invD(2) [OF i, of ?h] ok True ready_on_bound [OF i, of n ?h] by auto
  let ?s' = "upd_vcpu n (\<lambda>_. ?v) (upd_sched ?h (\<lambda>c. c\<lparr>rq := q\<rparr>) s)"
  have "\<exists>p. change_locked E n VMM_VCPU_STATE_READY s = Done (?s', VMM_OK, p)"
    using True q(1) by (simp add: change_locked_def change_action_def Let_def upd_vcpu_def)
  moreover have "sched_inv inv members hw N hosts ?s'"
    using ok True by (intro start_inv [OF i refl q(2,3), where v' = ?v]) (auto simp: vcpu_ok_def)
  moreover have "changed n s ?s'" by (rule changedI [where v' = ?v]) simp_all
  ultimately show ?thesis using True by (auto simp: lock_result_def)
next
  case False
  show ?thesis
  proof (cases "state (vcpus s n) = VMM_VCPU_STATE_RUNNING")
    case True
    let ?s' = "upd_vcpu n (\<lambda>v. v\<lparr>resumed := True\<rparr>) s"
    have "change_locked E n VMM_VCPU_STATE_READY s = Done (?s', VMM_OK, True)"
      using True by (simp add: change_locked_def change_action_def Let_def)
    moreover have "sched_inv inv members hw N hosts ?s'"
      using sched_invD(5) [OF i, of n] by (intro sched_inv_vcpu [OF i, where v' = "(vcpus s n)\<lparr>resumed := True\<rparr>"]) (auto simp: vcpu_ok_def)
    moreover have "changed n s ?s'" by (rule changedI2 [where v' = "(vcpus s n)\<lparr>resumed := True\<rparr>"]) simp_all
    ultimately show ?thesis using True by (auto simp: lock_result_def)
  next
    case nr: False
    have "\<exists>rc. change_locked E n VMM_VCPU_STATE_READY s = Done (s, rc, False) \<and>
        rc = (if state (vcpus s n) = VMM_VCPU_STATE_READY then VMM_OK else VMM_EINVALID)"
      using False nr by (auto simp: change_locked_def change_action_def Let_def)
    then show ?thesis using i False nr by (auto simp: lock_result_def)
  qed
qed

lemma lock_running:
  assumes "sched_inv inv members hw N hosts s"
  shows "lock_result (sched_inv inv members hw N hosts) E n VMM_VCPU_STATE_RUNNING s"
  using assms by (auto simp: lock_result_def change_locked_def change_action_def Let_def)

lemma lock_reset:
  assumes i: "sched_inv inv members hw N hosts s" and E: "env_ok A hw E" and g: "change_ok hw N hosts s n VMM_VCPU_STATE_RESET"
  shows "lock_result (sched_inv inv members hw N hosts) E n VMM_VCPU_STATE_RESET s"
proof -
  let ?h = "hcpu (vcpus s n)" let ?cur = "state (vcpus s n)"
  have idle: "\<not> is_idle hosts s n" using g by (auto simp: change_ok_def)
  have E': "algo E = A" "irq_hw E = hw" "arch_init E n = VMM_OK" "irq_mem E = (True, True)" using E by (simp_all add: env_ok_def)
  consider (unk) "?cur = VMM_VCPU_STATE_UNKNOWN" | (same) "?cur = VMM_VCPU_STATE_RESET"
    | (old) "?cur \<noteq> VMM_VCPU_STATE_UNKNOWN" "?cur \<noteq> VMM_VCPU_STATE_RESET" by blast
  then show ?thesis
  proof cases
    case unk
    let ?v = "commit_state (now E) ?cur VMM_VCPU_STATE_RESET ((vcpus s n)\<lparr>sched_priv := True\<rparr>)"
    let ?s' = "upd_vcpu n (\<lambda>_. ?v) s"
    have r: "change_locked E n VMM_VCPU_STATE_RESET s = (if entry_mem E then Done (?s', VMM_OK, False) else Done (s, VMM_EFAIL, False))"
      using unk by (simp add: change_locked_def change_action_def vmm_schedalgo_vcpu_setup_def Let_def upd_vcpu_def)
    have "sched_inv inv members hw N hosts ?s'"
      using vcpu_okD(1) [OF sched_invD(5) [OF i, of n]] g unk idle
      by (intro stop_inv_same [OF i, where v' = ?v]) (simp_all add: vcpu_ok_def change_ok_def)
    moreover have "changed n s ?s'" by (rule changedI2 [where v' = ?v]) simp_all
    ultimately show ?thesis using r unk i by (auto simp: lock_result_def)
  next
    case same
    then show ?thesis using i by (auto simp: lock_result_def change_locked_def change_action_def Let_def)
  next
    case old
    let ?s1 = "upd_vcpu n (\<lambda>v. v\<lparr>resumed := False\<rparr>) s" let ?v1 = "(vcpus s n)\<lparr>resumed := False\<rparr>"
    have nc: "?cur = VMM_VCPU_STATE_READY \<Longrightarrow> \<not> still_current s n" using g by (auto simp: change_ok_def)
    obtain q where q: "(if current_vcpu (scheds s ?h) \<noteq> Some n \<and> ?cur = VMM_VCPU_STATE_READY
       then rq_detach E ?h n ?s1 else Done (?s1, VMM_OK)) = Done (upd_sched ?h (\<lambda>c. c\<lparr>rq := q\<rparr>) ?s1, VMM_OK)"
      "inv (prio_of s) q" "members q = ready_on s ?h - {n}"
      using leave_queue [OF i E'(1) refl nc, of ?s1 ?v1] by auto
    note ok = vcpu_okD [OF sched_invD(5) [OF i, of n]]
    let ?v2 = "?v1\<lparr>reset_count := reset_count (vcpus s n) + 1\<rparr>"
    obtain t where t: "vmm_vcpu_irq_init hw (True, True) n ?v2 = Done (?v2\<lparr>irqs := t\<rparr>, VMM_OK)"
      "is_normal (vcpus s n) \<longrightarrow> irqs_tbl hw n t"
      using vmm_vcpu_irq_init_keeps [of ?v2 hw n] ok old by auto
    let ?v3 = "commit_state (now E) ?cur VMM_VCPU_STATE_RESET (?v2\<lparr>irqs := t\<rparr>)"
    let ?s' = "upd_vcpu n (\<lambda>_. ?v3) (upd_sched ?h (\<lambda>c. c\<lparr>rq := q\<rparr>) s)"
    have rv: "reset_vcpu E n (upd_sched ?h (\<lambda>c. c\<lparr>rq := q\<rparr>) ?s1) = Done (upd_vcpu n (\<lambda>_. ?v2\<lparr>irqs := t\<rparr>) (upd_sched ?h (\<lambda>c. c\<lparr>rq := q\<rparr>) s), VMM_OK)"
      using E' t(1) by (simp add: reset_vcpu_def Let_def upd_vcpu_def upd_sched_def)
    have "change_action E n VMM_VCPU_STATE_RESET s = bind_result (if current_vcpu (scheds s ?h) \<noteq> Some n \<and> ?cur = VMM_VCPU_STATE_READY
       then rq_detach E ?h n ?s1 else Done (?s1, VMM_OK)) (\<lambda>(s2, rc). if rc \<noteq> VMM_OK then Done (s2, rc, False, False)
         else bind_result (reset_vcpu E n s2) (\<lambda>(s3, rc').
                Done (s3, rc', current_vcpu (scheds s ?h) = Some n \<and> ?cur = VMM_VCPU_STATE_RUNNING, False)))"
      using old by (simp add: change_action_def Let_def)
    then have "\<exists>p. change_action E n VMM_VCPU_STATE_RESET s
        = Done (upd_vcpu n (\<lambda>_. ?v2\<lparr>irqs := t\<rparr>) (upd_sched ?h (\<lambda>c. c\<lparr>rq := q\<rparr>) s), VMM_OK, p, False)"
      unfolding q(1) by (simp add: rv)
    then have "\<exists>p. change_locked E n VMM_VCPU_STATE_RESET s = Done (?s', VMM_OK, p)"
      using change_locked_commit by (fastforce simp: upd_vcpu_twice)
    moreover have "sched_inv inv members hw N hosts ?s'"
      using ok old t idle by (intro stop_inv [OF i refl q(2,3), where v' = ?v3]) (auto simp: vcpu_ok_def)
    moreover have "changed n s ?s'" by (rule changedI [where v' = ?v3]) simp_all
    ultimately show ?thesis using old by (auto simp: lock_result_def)
  qed
qed


lemma lock_stop:
  assumes i: "sched_inv inv members hw N hosts s" and E: "algo E = A" and g: "change_ok hw N hosts s n new"
    and new: "new = VMM_VCPU_STATE_PAUSED \<or> new = VMM_VCPU_STATE_HALTED"
  shows "lock_result (sched_inv inv members hw N hosts) E n new s"
proof (cases "state (vcpus s n) = VMM_VCPU_STATE_READY \<or> state (vcpus s n) = VMM_VCPU_STATE_RUNNING")
  case live: True
  let ?h = "hcpu (vcpus s n)" let ?cur = "state (vcpus s n)"
  let ?s1 = "upd_vcpu n (\<lambda>v. v\<lparr>resumed := False\<rparr>) s" let ?v1 = "(vcpus s n)\<lparr>resumed := False\<rparr>"
  show ?thesis
  proof (cases "resumed (vcpus s n) \<and> new = VMM_VCPU_STATE_PAUSED")
    case True
    then have "change_action E n new s = Done (?s1, VMM_OK, False, True)"
      using live by (elim conjE disjE) (simp_all add: change_action_def Let_def)
    then have "change_locked E n new s = Done (?s1, VMM_OK, False)" by (rule change_locked_skip)
    moreover have "sched_inv inv members hw N hosts ?s1"
      using sched_invD(5) [OF i, of n] by (intro sched_inv_vcpu [OF i, where v' = ?v1]) (auto simp: vcpu_ok_def)
    moreover have "changed n s ?s1" by (rule changedI2 [where v' = ?v1]) simp_all
    ultimately show ?thesis using True live by (auto simp: lock_result_def)
  next
    case False
    have idle: "\<not> is_idle hosts s n" and nc: "?cur = VMM_VCPU_STATE_READY \<Longrightarrow> \<not> still_current s n"
      using g new by (auto simp: change_ok_def)
    obtain q where q: "(if current_vcpu (scheds s ?h) \<noteq> Some n \<and> ?cur = VMM_VCPU_STATE_READY
       then rq_detach E ?h n ?s1 else Done (?s1, VMM_OK)) = Done (upd_sched ?h (\<lambda>c. c\<lparr>rq := q\<rparr>) ?s1, VMM_OK)"
      "inv (prio_of s) q" "members q = ready_on s ?h - {n}"
      using leave_queue [OF i E refl nc, of ?s1 ?v1] by auto
    let ?s2 = "upd_sched ?h (\<lambda>c. c\<lparr>rq := q\<rparr>) ?s1"
    have act: "\<exists>p. change_action E n new s = Done (?s2, VMM_OK, p, False)"
    proof (cases "current_vcpu (scheds s ?h) = Some n")
      case True
      then have "?s1 = ?s2" using q(1) by simp
      then show ?thesis using True live False new by (auto simp: change_action_def Let_def)
    next
      case nc': False
      show ?thesis
      proof (cases "?cur = VMM_VCPU_STATE_READY")
        case True
        then show ?thesis using q(1) nc' False new by (auto simp: change_action_def Let_def)
      next
        case nr: False
        then have "?s1 = ?s2" using q(1) by simp
        then show ?thesis using nr nc' live False new by (auto simp: change_action_def Let_def)
      qed
    qed
    let ?v3 = "commit_state (now E) ?cur new ?v1"
    let ?s' = "upd_vcpu n (\<lambda>_. ?v3) (upd_sched ?h (\<lambda>c. c\<lparr>rq := q\<rparr>) s)"
    have "upd_vcpu n (commit_state (now E) ?cur new) ?s2 = ?s'" by (simp add: upd_vcpu_def upd_sched_def)
    then have "\<exists>p. change_locked E n new s = Done (?s', VMM_OK, p)"
      using act change_locked_commit by fastforce
    moreover have "sched_inv inv members hw N hosts ?s'"
      using vcpu_okD [OF sched_invD(5) [OF i, of n]] live new idle
      by (intro stop_inv [OF i refl q(2,3), where v' = ?v3]) (auto simp: vcpu_ok_def)
    moreover have "changed n s ?s'" by (rule changedI [where v' = ?v3]) simp_all
    ultimately show ?thesis using live new False by (auto simp: lock_result_def)
  qed
next
  case False
  then have "change_locked E n new s = Done (s, if new = state (vcpus s n) \<and> new = VMM_VCPU_STATE_PAUSED then VMM_OK else VMM_EINVALID, False)"
    using new by (auto simp: change_locked_def change_action_def Let_def simp del: bind_result_eq_Done)
  then show ?thesis using i False new by (auto simp: lock_result_def)
qed

lemma change_locked_ok:
  assumes "sched_inv inv members hw N hosts s" and "env_ok A hw E" and "change_ok hw N hosts s n new"
  shows "lock_result (sched_inv inv members hw N hosts) E n new s"
proof -
  have "algo E = A" using assms(2) by (simp add: env_ok_def)
  then show ?thesis
    using lock_unknown [of hw N hosts s n E] lock_reset [OF assms(1,2), of n] lock_ready [OF assms(1)] lock_running [OF assms(1)]
      lock_stop [OF assms(1) _ assms(3)] assms by (cases new) auto
qed

text \<open>The whole state change, with what follows the release of the lock.\<close>

lemma state_change_ok:
  assumes i: "sched_inv inv members hw N hosts s" and E: "env_ok A hw E" and g: "change_ok hw N hosts s n new" and ch: "ch \<in> hosts"
  shows "\<exists>s' rc t. vmm_scheduler_state_change E ch frame (Some n) new s = Done (s', rc, t) \<and> sched_inv inv members hw N hosts s'"
proof -
  have A: "algo E = A" using E by (simp add: env_ok_def)
  let ?vh = "hcpu (vcpus s n)"
  obtain s1 rc p where l: "change_locked E n new s = Done (s1, rc, p)" "sched_inv inv members hw N hosts s1"
    using change_locked_ok [OF i E g] unfolding lock_result_def by blast
  show ?thesis
  proof (cases "current_vcpu (scheds s1 ?vh) = None \<or> \<not> p")
    case True
    then show ?thesis using l by (auto simp: vmm_scheduler_state_change_def Let_def split: option.split)
  next
    case False
    then obtain cur where cur: "current_vcpu (scheds s1 ?vh) = Some cur" and p: "p" by auto
    show ?thesis
    proof (cases "ch = ?vh")
      case local: True
      then have hs: "?vh \<in> hosts" using ch by simp
      let ?sw = "\<lambda>r. vmm_scheduler_switch E ?vh r s1"
      have "\<exists>s'. ?sw (Some r) = Done s' \<and> sched_inv inv members hw N hosts s'" for r
        using switch_ok [OF l(2) A hs] by blast
      moreover have "irq_context (scheds s1 ?vh) \<Longrightarrow> \<exists>r. irq_regs (scheds s1 ?vh) = Some r" using sched_invD(6) [OF l(2)] by auto
      moreover have "sched_inv inv members hw N hosts (upd_sched ?vh (\<lambda>c. c\<lparr>yield_on_irq_exit := True\<rparr>) s1)"
        by (rule sched_inv_ctrl [OF l(2), where h = ?vh and c' = "(scheds s1 ?vh)\<lparr>yield_on_irq_exit := True\<rparr>"])
          (use sched_invD(6) [OF l(2), of ?vh] in auto)
      ultimately show ?thesis using l(1) cur p local
        by (fastforce simp: vmm_scheduler_state_change_def vmm_scheduler_preempt_orphan_def Let_def)
    next
      case False
      let ?r = "vmm_scheduler_force_resched E ?vh s1"
      have "vmm_scheduler_state_change E ch frame (Some n) new s = Done (fst ?r, snd ?r, False)"
        using False l(1) cur p by (simp add: vmm_scheduler_state_change_def Let_def split: prod.split)
      then show ?thesis using l(2) sched_inv_cong [of "fst ?r" s1] by auto
    qed
  qed
qed

end


section \<open>Migration\<close>

lemma sched_inv_move:
  assumes i: "sched_inv qinv members hw N hosts s" and n: "\<not> is_live (vcpus s n)" "\<not> still_current s n"
    and eqs: "vcpus s' = (vcpus s)(n := (vcpus s n)\<lparr>hcpu := g\<rparr>)" "scheds s' = scheds s"
  shows "sched_inv qinv members hw N hosts s'"
proof -
  have "current_vcpu (scheds s h) \<noteq> Some n" for h using sched_invD(4) [OF i, of h n] n(2) by (auto simp: still_current_def)
  moreover have "prio_of s' = prio_of s" "ready_on s' = ready_on s" using eqs n(1) by (auto simp: prio_of_def ready_on_def is_live_def fun_eq_iff)
  moreover have "vcpu_ok hw N m (vcpus s' m)" for m using sched_invD(5) [OF i, of m] eqs by (auto simp: vcpu_ok_def)
  moreover have "idle_ok hosts s'" using sched_invD(7) [OF i] n(1) eqs by (fastforce simp: idle_ok_def)
  ultimately show ?thesis using i eqs n(1) unfolding sched_inv_def by (auto simp: is_live_def)
qed

context ready_queue
begin

lemma migrate_ok:
  assumes i: "sched_inv inv members hw N hosts s" and E: "algo E = A"
    and n: "\<not> is_idle hosts s n" "current_vcpu (scheds s h) \<noteq> Some n"
  shows "\<exists>s'. scheduler_ipi_migrate_vcpu E h n g s = Done s' \<and> sched_inv inv members hw N hosts s'"
proof (cases "state (vcpus s n) \<noteq> VMM_VCPU_STATE_READY \<or> hcpu (vcpus s n) \<noteq> h \<or> hcpu (vcpus s n) = g")
  case False
  let ?v = "vcpus s n"
  have st: "state ?v = VMM_VCPU_STATE_READY" "hcpu ?v = h" "g \<noteq> h" using False by auto
  note ok = vcpu_okD(2) [OF sched_invD(5) [OF i, of n]] vcpu_okD(1) [OF sched_invD(5) [OF i, of n]]
  obtain q where q: "rq_detach E h n s = Done (upd_sched h (\<lambda>c. c\<lparr>rq := q\<rparr>) s, VMM_OK)" "inv (prio_of s) q"
    "members q = ready_on s h - {n}"
    using rq_detach_ok [OF E sched_invD(1) [OF i], of n h] sched_invD(2) [OF i, of h] st ok by (auto simp: ready_on_def)
  let ?s1 = "upd_sched h (\<lambda>c. c\<lparr>rq := q\<rparr>) s"
  let ?s2 = "upd_vcpu n (\<lambda>v. v\<lparr>hcpu := g\<rparr>) ?s1"
  have p: "prio_of ?s2 = prio_of s" by (auto simp: prio_of_def)
  have g: "scheds ?s2 g = scheds s g" using st by simp
  have "n \<notin> ready_on s g" using st by (simp add: ready_on_def)
  then obtain q2 where q2: "rq_enqueue E g n ?s2 = Done (upd_sched g (\<lambda>c. c\<lparr>rq := q2\<rparr>) ?s2, VMM_OK)" "inv (prio_of s) q2"
    "members q2 = insert n (ready_on s g)"
    using rq_enqueue_ok [of E ?s2 g n] E sched_invD(1,2) [OF i, of g] st ok ready_on_bound [OF i, of n g] unfolding p g by auto
  let ?s3 = "upd_sched g (\<lambda>c. c\<lparr>rq := q2\<rparr>) ?s2"
  let ?a = "upd_vcpu n (\<lambda>v. v\<lparr>state := VMM_VCPU_STATE_PAUSED\<rparr>) ?s1"
  let ?b = "upd_vcpu n (\<lambda>v. v\<lparr>hcpu := g\<rparr>) ?a"
  have a: "sched_inv inv members hw N hosts ?a"
    using st n ok by (intro stop_inv [OF i st(2) [symmetric] q(2,3), where v' = "?v\<lparr>state := VMM_VCPU_STATE_PAUSED\<rparr>"])
      (auto simp: vcpu_ok_def)
  have b: "sched_inv inv members hw N hosts ?b"
    using st n by (intro sched_inv_move [OF a, where n = n and g = g]) (auto simp: is_live_def still_current_def)
  have r: "ready_on ?b g = ready_on s g" using st by (auto simp: ready_on_def)
  have pb: "prio_of ?b = prio_of s" by (auto simp: prio_of_def)
  have "sched_inv inv members hw N hosts ?s3"
    using st ok q2 by (intro start_inv [OF b, where n = n and h = g and q = q2 and v' = "?v\<lparr>hcpu := g\<rparr>"])
      (auto simp: r pb vcpu_ok_def)
  moreover have "scheduler_ipi_migrate_vcpu E h n g s = Done (fst (vmm_scheduler_force_resched E g ?s3))"
    using False q(1) q2(1) by (simp add: scheduler_ipi_migrate_vcpu_def)
  ultimately show ?thesis using sched_inv_cong [of "fst (vmm_scheduler_force_resched E g ?s3)" ?s3] by auto
qed (use i in \<open>auto simp: scheduler_ipi_migrate_vcpu_def\<close>)

end

section \<open>All operations\<close>

lemma keep_vcpu_inv:
  assumes i: "sched_inv qinv members hw N hosts s"
    and f: "state (f (vcpus s n)) = state (vcpus s n)" "hcpu (f (vcpus s n)) = hcpu (vcpus s n)"
      "priority (f (vcpus s n)) = priority (vcpus s n)" "sched_priv (f (vcpus s n)) = sched_priv (vcpus s n)"
      "is_normal (f (vcpus s n)) = is_normal (vcpus s n)" "irqs (f (vcpus s n)) = irqs (vcpus s n)"
  shows "sched_inv qinv members hw N hosts (upd_vcpu n f s)"
  using sched_invD(5) [OF i, of n] f
  by (intro sched_inv_vcpu [OF i, where n = n and v' = "f (vcpus s n)"]) (simp_all add: vcpu_ok_def)

lemma keep_ctrl_inv:
  assumes i: "sched_inv qinv members hw N hosts s"
    and g: "rq (g (scheds s h)) = rq (scheds s h)" "current_vcpu (g (scheds s h)) = current_vcpu (scheds s h)"
      "idle_vcpu (g (scheds s h)) = idle_vcpu (scheds s h)" "irq_context (g (scheds s h)) \<Longrightarrow> irq_regs (g (scheds s h)) \<noteq> None"
  shows "sched_inv qinv members hw N hosts (upd_sched h g s)"
  by (rule sched_inv_ctrl [OF i, where h = h and c' = "g (scheds s h)"]) (use g in simp_all)

lemma preempt_count_inv:
  assumes i: "sched_inv qinv members hw N hosts s"
  shows "sched_inv qinv members hw N hosts (vmm_scheduler_preempt_disable h s)"
    "sched_inv qinv members hw N hosts (vmm_scheduler_preempt_enable h s)"
  unfolding vmm_scheduler_preempt_disable_def vmm_scheduler_preempt_enable_def
  using i by (auto split: option.split intro!: keep_vcpu_inv)

lemma stats_inv:
  assumes i: "sched_inv qinv members hw N hosts s"
  shows "sched_inv qinv members hw N hosts (fst (vmm_manager_vcpu_stats t n' s))"
proof (cases n')
  case (Some n)
  show ?thesis unfolding vmm_manager_vcpu_stats_def Some
    by (simp, rule keep_vcpu_inv [OF i]) (simp_all split: vcpu_state.split)
qed (use i in \<open>simp add: vmm_manager_vcpu_stats_def\<close>)

lemma sample_inv:
  "sched_inv qinv members hw N hosts s \<Longrightarrow> sched_inv qinv members hw N hosts (scheduler_sample_event E h s)"
  unfolding scheduler_sample_event_def Let_def
  by (rule keep_ctrl_inv [OF stats_inv]) (auto dest: sched_invD(6) [OF stats_inv])

lemma irq_enter_inv:
  "sched_inv qinv members hw N hosts s \<Longrightarrow> sched_inv qinv members hw N hosts (vmm_scheduler_irq_enter E h (Some r) ctx s)"
  unfolding vmm_scheduler_irq_enter_def by (rule keep_ctrl_inv) auto

lemma set_period_inv:
  "sched_inv qinv members hw N hosts s \<Longrightarrow> sched_inv qinv members hw N hosts (vmm_scheduler_set_sample_period E g p s)"
  unfolding vmm_scheduler_set_sample_period_def by (auto intro!: keep_ctrl_inv dest: sched_invD(6))

lemma irq_process_inv:
  assumes i: "sched_inv qinv members hw N hosts s" and E: "irq_hw E = hw"
  shows "\<exists>v. vmm_vcpu_irq_process (irq_hw E) n (vcpus s n) = Done v
    \<and> sched_inv qinv members hw N hosts (log_event e (upd_vcpu n (\<lambda>_. v) s))
    \<and> state v = state (vcpus s n)"
proof (cases "state (vcpus s n) = VMM_VCPU_STATE_UNKNOWN")
  case True
  then have "vmm_vcpu_irq_process (irq_hw E) n (vcpus s n) = Done (vcpus s n)"
    by (simp add: vmm_vcpu_irq_process_def STATE_INTERRUPTIBLE_def)
  then show ?thesis using i sched_inv_cong [of "log_event e s" s] by simp
next
  case False
  note ok = vcpu_okD [OF sched_invD(5) [OF i, of n]]
  obtain t where t: "vmm_vcpu_irq_process hw n (vcpus s n) = Done ((vcpus s n)\<lparr>irqs := t\<rparr>)" "is_normal (vcpus s n) \<longrightarrow> irqs_tbl hw n t"
    using vmm_vcpu_irq_process_keeps [of "vcpus s n" hw n] ok False by blast
  have "sched_inv qinv members hw N hosts (log_event e (upd_vcpu n (\<lambda>_. (vcpus s n)\<lparr>irqs := t\<rparr>) s))"
    using ok t by (intro sched_inv_vcpu [OF i, where n = n and v' = "(vcpus s n)\<lparr>irqs := t\<rparr>"]) (auto simp: vcpu_ok_def)
  then show ?thesis using t E by simp
qed

context ready_queue
begin

lemma switch_inv:
  assumes "sched_inv inv members hw N hosts s" and "algo E = A" and "h \<in> hosts" and "irq_regs (scheds s h) \<noteq> None"
  obtains s' where "vmm_scheduler_switch E h (irq_regs (scheds s h)) s = Done s'" "sched_inv inv members hw N hosts s'"
  using switch_ok [OF assms(1-3)] assms(4) by (metis option.exhaust)

lemma irq_exit_ok:
  assumes i: "sched_inv inv members hw N hosts s" and E: "env_ok A hw E" and h: "h \<in> hosts" and r: "irq_regs (scheds s h) \<noteq> None"
  shows "\<exists>s'. vmm_scheduler_irq_exit E h regs t s = Done s' \<and> sched_inv inv members hw N hosts s'"
proof (cases "current_vcpu (scheds s h)")
  case None
  then show ?thesis using i by (simp add: vmm_scheduler_irq_exit_def)
next
  case (Some n)
  have E': "algo E = A" "irq_hw E = hw" using E by (simp_all add: env_ok_def)
  let ?b = "state (vcpus s n) \<noteq> VMM_VCPU_STATE_RUNNING \<or> yield_on_irq_exit (scheds s h)"
  let ?m = "if ?b then bind_result (vmm_scheduler_switch E h (irq_regs (scheds s h)) s) (\<lambda>s1.
                    Done (upd_sched h (\<lambda>c. c\<lparr>yield_on_irq_exit := False\<rparr>) s1))
             else Done s"
  have "\<exists>s2. ?m = Done s2 \<and> sched_inv inv members hw N hosts s2"
  proof (cases ?b)
    case True
    obtain s1 where "vmm_scheduler_switch E h (irq_regs (scheds s h)) s = Done s1" "sched_inv inv members hw N hosts s1"
      using switch_inv [OF i E'(1) h r] .
    moreover from this have "sched_inv inv members hw N hosts (upd_sched h (\<lambda>c. c\<lparr>yield_on_irq_exit := False\<rparr>) s1)"
      by (intro keep_ctrl_inv) (auto dest: sched_invD(6))
    ultimately show ?thesis using True by auto
  qed (use i in auto)
  then obtain s2 where s2: "?m = Done s2" "sched_inv inv members hw N hosts s2" by blast
  obtain v where v: "vmm_vcpu_irq_process (irq_hw E) n (vcpus s2 n) = Done v"
    "sched_inv inv members hw N hosts (log_event (IrqProcess h n regs) (upd_vcpu n (\<lambda>_. v) s2))"
    using irq_process_inv [OF s2(2) E'(2)] by blast
  let ?g = "\<lambda>c. (if irq_context c then c\<lparr>irq_process_ns := irq_process_ns c + (t - irq_enter_tstamp c)\<rparr> else c)
      \<lparr>irq_context := False, irq_regs := None\<rparr>"
  have "vmm_scheduler_irq_exit E h regs t s = bind_result ?m (\<lambda>s2. bind_result (vmm_vcpu_irq_process (irq_hw E) n (vcpus s2 n)) (\<lambda>v.
      Done (upd_sched h ?g (log_event (IrqProcess h n regs) (upd_vcpu n (\<lambda>_. v) s2)))))"
    using Some by (simp add: vmm_scheduler_irq_exit_def)
  also have "\<dots> = Done (upd_sched h ?g (log_event (IrqProcess h n regs) (upd_vcpu n (\<lambda>_. v) s2)))" unfolding s2(1) by (simp add: v(1))
  finally show ?thesis using keep_ctrl_inv [OF v(2), of ?g h] by auto
qed

lemma set_hcpu_inv:
  assumes i: "sched_inv inv members hw N hosts s" and E: "algo E = A" and g: "op_ok hw N hosts h (Op_set_hcpu n g) s"
  shows "\<exists>s' rc. vmm_scheduler_set_hcpu E h (Some n) g s = Done (s', rc) \<and> sched_inv inv members hw N hosts s'"
proof -
  let ?s' = "upd_vcpu n (\<lambda>v. v\<lparr>hcpu := g\<rparr>) s"
  have "\<not> is_live (vcpus s n) \<Longrightarrow> hcpu (vcpus s n) \<noteq> g \<Longrightarrow> sched_inv inv members hw N hosts ?s'"
    using g by (intro sched_inv_move [OF i, where n = n and g = g]) auto
  moreover have "sched_inv inv members hw N hosts (s\<lparr>ipis := is\<rparr>)" for "is"
    using i sched_inv_cong [of "s\<lparr>ipis := is\<rparr>" s] by simp
  moreover have "\<exists>s'. scheduler_ipi_migrate_vcpu E h n g s = Done s' \<and> sched_inv inv members hw N hosts s'"
    if "hcpu (vcpus s n) = h"
  proof (cases "state (vcpus s n) = VMM_VCPU_STATE_READY")
    case True
    then show ?thesis using migrate_ok [OF i E, of n h g] g that by (simp add: still_current_def)
  qed (use i in \<open>simp add: scheduler_ipi_migrate_vcpu_def\<close>)
  ultimately show ?thesis using i
    by (cases "hcpu (vcpus s n) = g"; cases "cpu_affinity (vcpus s n) g"; cases "is_live (vcpus s n)"; cases "hcpu (vcpus s n) = h")
      (auto simp: vmm_scheduler_set_hcpu_def Let_def is_live_def)
qed

text \<open>Every operation, when its guard holds, completes and keeps the invariant.\<close>

lemma run_op_ok:
  assumes i: "sched_inv inv members hw N hosts s" and E: "env_ok A hw E" and h: "h \<in> hosts" and g: "op_ok hw N hosts h op s"
  shows "\<exists>s'. run_op E h op s = Done s' \<and> sched_inv inv members hw N hosts s'"
proof -
  have A: "algo E = A" using E by (simp add: env_ok_def)
  show ?thesis
  proof (cases op)
    case (Op_irq_exit regs t)
    then show ?thesis using irq_exit_ok [OF i E h] g by simp
  next
    case Op_timer
    show ?thesis
    proof (cases "irq_regs (scheds s h)")
      case (Some r)
      then show ?thesis using switch_ok [OF i A h, of r] Op_timer by (auto simp: scheduler_timer_event_def)
    qed (use Op_timer i in \<open>simp add: scheduler_timer_event_def\<close>)
  next
    case (Op_state_change frame n new)
    then show ?thesis using state_change_ok [OF i E _ h, of n new frame] g by auto
  next
    case Op_ipi
    have "sched_inv inv members hw N hosts (s\<lparr>ipis := is\<rparr>)" for "is" using i sched_inv_cong [of "s\<lparr>ipis := is\<rparr>" s] by simp
    then show ?thesis using Op_ipi i g migrate_ok [OF _ A, of hw N hosts "s\<lparr>ipis := is\<rparr>" for "is"]
      by (auto simp: deliver_ipi_def is_idle_def split: option.splits prod.splits ipi.splits)
  next
    case (Op_set_hcpu n k)
    then show ?thesis using set_hcpu_inv [OF i A, of h n k] g by fastforce
  next
    case (Op_yield frame)
    then obtain n where "current_vcpu (scheds s h) = Some n" "\<not> irq_context (scheds s h)" using g by auto
    moreover have "change_ok hw N hosts s n VMM_VCPU_STATE_READY" by (simp add: change_ok_def)
    ultimately show ?thesis using state_change_ok [OF i E _ h, of n VMM_VCPU_STATE_READY frame] Op_yield i
      by (auto simp: vmm_scheduler_yield_def)
  qed (use i irq_enter_inv sample_inv preempt_count_inv set_period_inv in auto)
qed

end

end
