(* ===== verification/Waitqueue.thy ===== *)
theory Waitqueue
  imports SchedSafe
begin

text \<open>
  Wait queues, \<^verbatim>\<open>core/vmm_waitqueue.c\<close>: lists of orphan VCPUs that sleep until they are woken or a timeout fires.

  The state \<open>'rq wsys\<close> puts the wait queues and the timeout events beside the state of the scheduler.  A wait
  queue, and the lock in it, is named by an address.  A lock is held when the last event of the trace about
  it is \<open>WqLock\<close>, so the release by the context switch needs no further state.  \<open>smp\<close> tells whether the
  hypervisor is built with \<^verbatim>\<open>CONFIG_SMP\<close>: then taking a lock that is held never ends (a \<open>Fault\<close>, as operations
  are atomic and the holder is the host CPU itself); in a uniprocessor build it only counts.

  A call that sleeps is cut at the point where the VCPU is switched away: it returns \<open>Suspended\<close>, and when the
  VCPU runs again it goes on with \<open>waitqueue_sleep_resume\<close>.

  \<^verbatim>\<open>wake_event\<close> is a timer event on the stack of the sleeping VCPU; of it the expiry time and whether it is active
  are kept.  The link \<^verbatim>\<open>wq_head\<close> of a VCPU is in a list exactly while \<^verbatim>\<open>wq_priv\<close> is set; adding a linked entry or
  deleting an unlinked one corrupts memory, a \<open>Fault\<close>.
\<close>

section \<open>Spin locks of wait queues\<close>

fun lock_held :: "nat \<Rightarrow> arch_event list \<Rightarrow> bool" where
  "lock_held l [] = False"
| "lock_held l (e # es) =
     (case e of
        WqLock h m \<Rightarrow> if m = l then True else lock_held l es
      | WqUnlock h m \<Rightarrow> if m = l then False else lock_held l es
      | _ \<Rightarrow> lock_held l es)"

definition vmm_spin_lock :: "bool \<Rightarrow> nat \<Rightarrow> nat \<Rightarrow> 'rq system \<Rightarrow> 'rq system result" where
  "vmm_spin_lock smp h l s =
     (if smp \<and> lock_held l (trace s) then Fault
      else Done (log_event (WqLock h l) (vmm_scheduler_preempt_disable h s)))"

definition vmm_spin_unlock :: "nat \<Rightarrow> nat \<Rightarrow> 'rq system \<Rightarrow> 'rq system" where
  "vmm_spin_unlock h l s = vmm_scheduler_preempt_enable h (log_event (WqUnlock h l) s)"

text \<open>The end of \<^verbatim>\<open>vmm_scheduler_state_change\<close> after the trap: \<open>n\<close> is the VCPU whose state was changed.\<close>

definition state_change_relock :: "bool \<Rightarrow> nat \<Rightarrow> nat \<Rightarrow> 'rq system \<Rightarrow> 'rq system result" where
  "state_change_relock smp h n s =
     (case wq_lock (vcpus s n) of None \<Rightarrow> Done s | Some l \<Rightarrow> vmm_spin_lock smp h l s)"

section \<open>State\<close>

record vmm_waitqueue =
  vcpu_list :: "nat list"
  vcpu_count :: u32

record 'rq wsys =
  ksys :: "'rq system"
  wqs :: "nat \<Rightarrow> vmm_waitqueue"
  wake_event :: "nat \<Rightarrow> (u64 \<times> bool) option"

definition INIT_WAITQUEUE :: vmm_waitqueue where
  "INIT_WAITQUEUE = \<lparr>vcpu_list = [], vcpu_count = 0\<rparr>"

definition vmm_waitqueue_count :: "nat \<Rightarrow> 'rq wsys \<Rightarrow> u32" where
  "vmm_waitqueue_count wq w = vcpu_count (wqs w wq)"

text \<open>What the lines after a wake-up and those of \<^verbatim>\<open>vmm_waitqueue_forced_remove\<close> have in common.\<close>

definition waitqueue_unlink :: "nat \<Rightarrow> nat \<Rightarrow> 'rq wsys \<Rightarrow> 'rq wsys result" where
  "waitqueue_unlink wq n w =
     (let q = wqs w wq
      in if n \<notin> set (vcpu_list q) then Fault
         else Done (w\<lparr>ksys := upd_vcpu n (\<lambda>v. v\<lparr>wq_lock := None, wq_priv := None\<rparr>) (ksys w),
                wqs := (wqs w)(wq := q\<lparr>vcpu_list := remove1 n (vcpu_list q),
                                       vcpu_count := (if vcpu_count q \<noteq> 0 then vcpu_count q - 1 else vcpu_count q)\<rparr>)\<rparr>))"

section \<open>Sleeping\<close>

datatype progress = Returned vmm_rc "u64 option" | Suspended nat vmm_rc

definition waitqueue_link :: "u64 \<Rightarrow> nat \<Rightarrow> nat \<Rightarrow> u64 option \<Rightarrow> 'rq wsys \<Rightarrow> 'rq wsys" where
  "waitqueue_link t wq n timeout w =
     (let q = wqs w wq
      in w\<lparr>ksys := upd_vcpu n (\<lambda>v. v\<lparr>wq_lock := Some wq, wq_priv := Some wq\<rparr>) (ksys w),
           wqs := (wqs w)(wq := q\<lparr>vcpu_list := vcpu_list q @ [n], vcpu_count := vcpu_count q + 1\<rparr>),
           wake_event := (wake_event w)(n := map_option (\<lambda>d. (t + d, True)) timeout)\<rparr>)"

definition waitqueue_sleep_end ::
  "'rq sched_env \<Rightarrow> nat \<Rightarrow> nat \<Rightarrow> u64 option \<Rightarrow> vmm_rc \<Rightarrow> 'rq wsys \<Rightarrow> ('rq wsys \<times> vmm_rc \<times> u64 option) result" where
  "waitqueue_sleep_end E wq n timeout rc w =
     bind_result (waitqueue_unlink wq n w) (\<lambda>w1.
       case timeout of
         None \<Rightarrow> Done (w1, rc, None)
       | Some d \<Rightarrow>
           let w2 = w1\<lparr>wake_event := (wake_event w1)(n := None)\<rparr>
           in if rc \<noteq> VMM_OK then Done (w2, rc, Some d)
              else (case wake_event w1 n of
                      None \<Rightarrow> Fault
                    | Some (expiry, active) \<Rightarrow>
                        let left = (if now E > expiry then 0 else expiry - now E)
                        in Done (w2, if left = 0 then VMM_ETIMEDOUT else rc, Some left)))"

text \<open>When the VCPU runs again after the trap: the lock is taken again, then the VCPU leaves the queue.\<close>

definition waitqueue_sleep_resume ::
  "bool \<Rightarrow> 'rq sched_env \<Rightarrow> nat \<Rightarrow> nat \<Rightarrow> nat \<Rightarrow> u64 option \<Rightarrow> vmm_rc \<Rightarrow> 'rq wsys \<Rightarrow> ('rq wsys \<times> vmm_rc \<times> u64 option) result" where
  "waitqueue_sleep_resume smp E h wq n timeout rc w =
     bind_result (state_change_relock smp h n (ksys w)) (\<lambda>s. waitqueue_sleep_end E wq n timeout rc (w\<lparr>ksys := s\<rparr>))"

definition waitqueue_sleep_locked ::
  "bool \<Rightarrow> 'rq sched_env \<Rightarrow> nat \<Rightarrow> nat \<Rightarrow> nat \<Rightarrow> u64 option \<Rightarrow> 'rq wsys \<Rightarrow> ('rq wsys \<times> progress) result" where
  "waitqueue_sleep_locked smp E h frame wq timeout w =
     (if \<not> vmm_scheduler_orphan_context h (ksys w) then Panic
      else if timeout = Some 0 then Done (w, Returned VMM_ETIMEDOUT timeout)
      else case current_vcpu (scheds (ksys w) h) of
             None \<Rightarrow> Fault
           | Some n \<Rightarrow>
               if wq_priv (vcpus (ksys w) n) \<noteq> None then Fault
               else let w1 = waitqueue_link (now E) wq n timeout w
                    in bind_result (vmm_scheduler_state_change E h frame (Some n) VMM_VCPU_STATE_PAUSED (ksys w1))
                         (\<lambda>(s, rc, trapped).
                            let w2 = w1\<lparr>ksys := s\<rparr>
                            in if trapped \<and> current_vcpu (scheds s h) \<noteq> Some n then Done (w2, Suspended n rc)
                               else bind_result (if trapped then waitqueue_sleep_resume smp E h wq n timeout rc w2
                                                 else waitqueue_sleep_end E wq n timeout rc w2)
                                      (\<lambda>(w3, rc', timeout'). Done (w3, Returned rc' timeout'))))"

text \<open>
  \<^verbatim>\<open>vmm_waitqueue_sleep\<close> and \<^verbatim>\<open>vmm_waitqueue_sleep_timeout\<close>, up to the point where the VCPU is suspended, and from
  there on.
\<close>

definition vmm_waitqueue_sleep_timeout ::
  "bool \<Rightarrow> 'rq sched_env \<Rightarrow> nat \<Rightarrow> nat \<Rightarrow> nat \<Rightarrow> u64 option \<Rightarrow> 'rq wsys \<Rightarrow> ('rq wsys \<times> progress) result" where
  "vmm_waitqueue_sleep_timeout smp E h frame wq timeout w =
     bind_result (vmm_spin_lock smp h wq (ksys w)) (\<lambda>s.
       bind_result (waitqueue_sleep_locked smp E h frame wq timeout (w\<lparr>ksys := s\<rparr>)) (\<lambda>(w1, p).
         Done (case p of Returned rc t \<Rightarrow> w1\<lparr>ksys := vmm_spin_unlock h wq (ksys w1)\<rparr> | Suspended n rc \<Rightarrow> w1, p)))"

definition vmm_waitqueue_sleep ::
  "bool \<Rightarrow> 'rq sched_env \<Rightarrow> nat \<Rightarrow> nat \<Rightarrow> nat \<Rightarrow> 'rq wsys \<Rightarrow> ('rq wsys \<times> progress) result" where
  "vmm_waitqueue_sleep smp E h frame wq w = vmm_waitqueue_sleep_timeout smp E h frame wq None w"

definition vmm_waitqueue_sleep_resume ::
  "bool \<Rightarrow> 'rq sched_env \<Rightarrow> nat \<Rightarrow> nat \<Rightarrow> nat \<Rightarrow> u64 option \<Rightarrow> vmm_rc \<Rightarrow> 'rq wsys \<Rightarrow> ('rq wsys \<times> vmm_rc \<times> u64 option) result" where
  "vmm_waitqueue_sleep_resume smp E h wq n timeout rc w =
     bind_result (waitqueue_sleep_resume smp E h wq n timeout rc w) (\<lambda>(w1, r).
       Done (w1\<lparr>ksys := vmm_spin_unlock h wq (ksys w1)\<rparr>, r))"

section \<open>Leaving a wait queue by force\<close>

definition vmm_waitqueue_forced_remove :: "bool \<Rightarrow> nat \<Rightarrow> nat \<Rightarrow> 'rq wsys \<Rightarrow> ('rq wsys \<times> vmm_rc) result" where
  "vmm_waitqueue_forced_remove smp h n w =
     (case wq_priv (vcpus (ksys w) n) of
        None \<Rightarrow> Done (w, VMM_EFAIL)
      | Some wq \<Rightarrow>
          bind_result (vmm_spin_lock smp h wq (ksys w)) (\<lambda>s.
            bind_result (waitqueue_unlink wq n (w\<lparr>ksys := s,
                wake_event := (wake_event w)(n := map_option (\<lambda>(e, a). (e, False)) (wake_event w n))\<rparr>)) (\<lambda>w1.
              Done (w1\<lparr>ksys := vmm_spin_unlock h wq (ksys w1)\<rparr>, VMM_OK))))"

section \<open>Waking\<close>

text \<open>
  The caller of the wake operations holds the lock of the wait queue, which keeps it from being switched away
  in the trap of the state change; it goes on at once.
\<close>

definition waitqueue_wake ::
  "bool \<Rightarrow> 'rq sched_env \<Rightarrow> nat \<Rightarrow> nat \<Rightarrow> nat \<Rightarrow> 'rq system \<Rightarrow> ('rq system \<times> vmm_rc) result" where
  "waitqueue_wake smp E h frame n s =
     bind_result (vmm_scheduler_state_change E h frame (Some n) VMM_VCPU_STATE_READY s) (\<lambda>(s1, rc, trapped).
       if trapped then bind_result (state_change_relock smp h n s1) (\<lambda>s2. Done (s2, rc)) else Done (s1, rc))"

definition vmm_waitqueue_wake ::
  "bool \<Rightarrow> 'rq sched_env \<Rightarrow> nat \<Rightarrow> nat \<Rightarrow> nat option \<Rightarrow> 'rq system \<Rightarrow> ('rq system \<times> vmm_rc) result" where
  "vmm_waitqueue_wake smp E h frame n' s =
     (case n' of
        None \<Rightarrow> Fault
      | Some n \<Rightarrow>
          if is_normal (vcpus s n) then Done (s, VMM_EFAIL)
          else (case wq_priv (vcpus s n) of
                  None \<Rightarrow> Done (s, VMM_EFAIL)
                | Some wq \<Rightarrow>
                    bind_result (vmm_spin_lock smp h wq s) (\<lambda>s1.
                      bind_result (waitqueue_wake smp E h frame n s1) (\<lambda>(s2, rc). Done (vmm_spin_unlock h wq s2, rc)))))"

definition waitqueue_timeout ::
  "bool \<Rightarrow> 'rq sched_env \<Rightarrow> nat \<Rightarrow> nat \<Rightarrow> nat \<Rightarrow> 'rq system \<Rightarrow> 'rq system result" where
  "waitqueue_timeout smp E h frame n s = bind_result (vmm_waitqueue_wake smp E h frame (Some n) s) (\<lambda>(s1, _). Done s1)"

definition waitqueue_wakefirst ::
  "bool \<Rightarrow> 'rq sched_env \<Rightarrow> nat \<Rightarrow> nat \<Rightarrow> nat \<Rightarrow> 'rq wsys \<Rightarrow> ('rq wsys \<times> vmm_rc) result" where
  "waitqueue_wakefirst smp E h frame wq w =
     (if vcpu_count (wqs w wq) = 0 then Done (w, VMM_ENOENT)
      else case vcpu_list (wqs w wq) of
             [] \<Rightarrow> Fault
           | n # _ \<Rightarrow> bind_result (waitqueue_wake smp E h frame n (ksys w)) (\<lambda>(s, rc). Done (w\<lparr>ksys := s\<rparr>, rc)))"

text \<open>The loop of \<^verbatim>\<open>__vmm_waitqueue_wakeall\<close>; waking a VCPU does not change the list.\<close>

fun wake_each ::
  "bool \<Rightarrow> 'rq sched_env \<Rightarrow> nat \<Rightarrow> nat \<Rightarrow> nat list \<Rightarrow> 'rq system \<Rightarrow> ('rq system \<times> vmm_rc) result" where
  "wake_each smp E h frame [] s = Done (s, VMM_OK)"
| "wake_each smp E h frame (n # ns) s =
     bind_result (waitqueue_wake smp E h frame n s) (\<lambda>(s1, rc).
       if rc \<noteq> VMM_OK then Done (s1, rc) else wake_each smp E h frame ns s1)"

definition waitqueue_wakeall ::
  "bool \<Rightarrow> 'rq sched_env \<Rightarrow> nat \<Rightarrow> nat \<Rightarrow> nat \<Rightarrow> 'rq wsys \<Rightarrow> ('rq wsys \<times> vmm_rc) result" where
  "waitqueue_wakeall smp E h frame wq w =
     (if vcpu_count (wqs w wq) = 0 then Done (w, VMM_ENOENT)
      else bind_result (wake_each smp E h frame (vcpu_list (wqs w wq)) (ksys w)) (\<lambda>(s, rc). Done (w\<lparr>ksys := s\<rparr>, rc)))"

text \<open>The locked variants run an operation \<open>f\<close> between taking and releasing the lock.\<close>

definition with_wq_lock ::
  "bool \<Rightarrow> nat \<Rightarrow> nat \<Rightarrow> ('rq wsys \<Rightarrow> ('rq wsys \<times> 'a) result) \<Rightarrow> 'rq wsys \<Rightarrow> ('rq wsys \<times> 'a) result" where
  "with_wq_lock smp h wq f w =
     bind_result (vmm_spin_lock smp h wq (ksys w)) (\<lambda>s.
       bind_result (f (w\<lparr>ksys := s\<rparr>)) (\<lambda>(w1, r). Done (w1\<lparr>ksys := vmm_spin_unlock h wq (ksys w1)\<rparr>, r)))"

definition vmm_waitqueue_wakefirst ::
  "bool \<Rightarrow> 'rq sched_env \<Rightarrow> nat \<Rightarrow> nat \<Rightarrow> nat \<Rightarrow> 'rq wsys \<Rightarrow> ('rq wsys \<times> vmm_rc) result" where
  "vmm_waitqueue_wakefirst smp E h frame wq = with_wq_lock smp h wq (waitqueue_wakefirst smp E h frame wq)"

definition vmm_waitqueue_wakeall ::
  "bool \<Rightarrow> 'rq sched_env \<Rightarrow> nat \<Rightarrow> nat \<Rightarrow> nat \<Rightarrow> 'rq wsys \<Rightarrow> ('rq wsys \<times> vmm_rc) result" where
  "vmm_waitqueue_wakeall smp E h frame wq = with_wq_lock smp h wq (waitqueue_wakeall smp E h frame wq)"


section \<open>Waking keeps the scheduler sound\<close>

definition can_wake :: "vcpu_state \<Rightarrow> bool" where
  "can_wake st \<longleftrightarrow> st = VMM_VCPU_STATE_PAUSED \<or> st = VMM_VCPU_STATE_READY \<or> st = VMM_VCPU_STATE_RUNNING"

text \<open>
  What a caller on host CPU \<open>h\<close> that wakes the VCPUs \<open>ns\<close> has to respect: they sleep or are awake already, their
  host CPUs are up, and, when the caller is an orphan VCPU outside interrupts, neither they nor other READY
  VCPUs of the host CPU have a higher priority than it.
\<close>

definition wake_pre :: "'rq sched_env \<Rightarrow> nat \<Rightarrow> nat list \<Rightarrow> 'rq system \<Rightarrow> bool" where
  "wake_pre E h ns s \<longleftrightarrow>
     (\<forall>n \<in> set ns. can_wake (state (vcpus s n)) \<and> hcpu (vcpus s n) < cpu_count E \<and> online s (hcpu (vcpus s n)))
   \<and> (vmm_scheduler_orphan_context h s \<longrightarrow> (\<forall>c. current_vcpu (scheds s h) = Some c \<longrightarrow> c \<notin> set ns
        \<and> (\<forall>m. m \<in> ready_on s h \<or> m \<in> set ns \<and> hcpu (vcpus s m) = h \<longrightarrow> priority (vcpus s m) \<le> priority (vcpus s c))))"

definition woken :: "nat \<Rightarrow> 'rq system \<Rightarrow> 'rq system \<Rightarrow> bool" where
  "woken n s s' \<longleftrightarrow> is_live (vcpus s' n) \<and> (\<forall>m. is_live (vcpus s m) \<longrightarrow> is_live (vcpus s' m))"

lemma commit_state_wq [simp]:
  "wq_lock (commit_state t cur new v) = wq_lock v" "wq_priv (commit_state t cur new v) = wq_priv v"
  "guest (commit_state t cur new v) = guest v"
  by (cases cur; simp add: commit_state_def account_time_def Let_def)+

lemma force_resched_online [simp]: "online (fst (vmm_scheduler_force_resched E h s)) = online s"
  by (simp add: vmm_scheduler_force_resched_def)

lemma force_resched_ok: "h < cpu_count E \<Longrightarrow> online s h \<Longrightarrow> snd (vmm_scheduler_force_resched E h s) = VMM_OK"
  by (simp add: vmm_scheduler_force_resched_def)

lemma orphan_context_cong:
  "scheds s' h = scheds s h \<or> current_vcpu (scheds s' h) = current_vcpu (scheds s h) \<and> irq_context (scheds s' h) = irq_context (scheds s h) \<Longrightarrow>
   (\<And>c. is_normal (vcpus s' c) = is_normal (vcpus s c)) \<Longrightarrow>
   vmm_scheduler_orphan_context h s' = vmm_scheduler_orphan_context h s"
  by (auto simp: vmm_scheduler_orphan_context_def split: option.split)

text \<open>What the scheduler leaves alone in the VCPUs and, outside interrupt entry and exit, in the host CPUs.\<close>

definition vkeep :: "vmm_vcpu \<Rightarrow> vmm_vcpu \<Rightarrow> bool" where
  "vkeep v v' \<longleftrightarrow> wq_lock v' = wq_lock v \<and> wq_priv v' = wq_priv v \<and> is_normal v' = is_normal v \<and> priority v' = priority v
     \<and> irqs v' = irqs v \<and> guest v' = guest v"

definition ckeep :: "'rq vmm_scheduler_ctrl \<Rightarrow> 'rq vmm_scheduler_ctrl \<Rightarrow> bool" where
  "ckeep c c' \<longleftrightarrow> irq_context c' = irq_context c \<and> irq_regs c' = irq_regs c \<and> idle_vcpu c' = idle_vcpu c"

definition framed :: "'rq system \<Rightarrow> 'rq system \<Rightarrow> bool" where
  "framed s s' \<longleftrightarrow> (\<forall>m. vkeep (vcpus s m) (vcpus s' m)) \<and> (\<forall>g. ckeep (scheds s g) (scheds s' g)) \<and> online s' = online s"

lemma framedD:
  assumes "framed s s'"
  shows "wq_lock (vcpus s' m) = wq_lock (vcpus s m)" "wq_priv (vcpus s' m) = wq_priv (vcpus s m)"
    "is_normal (vcpus s' m) = is_normal (vcpus s m)" "priority (vcpus s' m) = priority (vcpus s m)"
    "irq_context (scheds s' g) = irq_context (scheds s g)" "irq_regs (scheds s' g) = irq_regs (scheds s g)"
    "idle_vcpu (scheds s' g) = idle_vcpu (scheds s g)" "online s' = online s" "irqs (vcpus s' m) = irqs (vcpus s m)"
    "guest (vcpus s' m) = guest (vcpus s m)"
  using assms unfolding framed_def vkeep_def ckeep_def by blast+

lemma framed_refl [simp]: "framed s s"
  by (simp add: framed_def vkeep_def ckeep_def)

lemma framed_trans [trans]: "framed s s1 \<Longrightarrow> framed s1 s2 \<Longrightarrow> framed s s2"
  by (simp add: framed_def vkeep_def ckeep_def)

lemma framed_step [intro]:
  "framed s s1 \<Longrightarrow> vkeep (vcpus s1 n) (f (vcpus s1 n)) \<Longrightarrow> framed s (upd_vcpu n f s1)"
  "framed s s1 \<Longrightarrow> ckeep (scheds s1 h) (g (scheds s1 h)) \<Longrightarrow> framed s (upd_sched h g s1)"
  "framed s s1 \<Longrightarrow> framed s (log_event e s1)"
  by (auto simp: framed_def vkeep_def ckeep_def)

lemma framed_ipis: "framed s (s1\<lparr>ipis := x\<rparr>) = framed s s1"
  by (simp add: framed_def)

lemma rq_ops_framed:
  "rq_dequeue E h s = Done (s', r) \<Longrightarrow> framed s s'"
  "rq_enqueue E h n s = Done (s', rc) \<Longrightarrow> framed s s'"
  "rq_detach E h n s = Done (s', rc) \<Longrightarrow> framed s s'"
  by (auto simp: rq_dequeue_def rq_enqueue_def rq_detach_def ckeep_def)

lemma dequeue_again_framed: "dequeue_again k E h cur s = Done (s', n, ts) \<Longrightarrow> framed s s'"
proof (induction k arbitrary: s)
  case (Suc k)
  then obtain s2 r where "rq_dequeue E h s = Done (s2, r)" "(case r of Inl rc \<Rightarrow> Panic | Inr (nx, ts) \<Rightarrow>
      if nx \<noteq> cur \<and> state (vcpus s2 nx) \<noteq> VMM_VCPU_STATE_READY then dequeue_again k E h cur s2 else Done (s2, nx, ts)) = Done (s', n, ts)"
    by auto
  then show ?case using framed_trans [OF rq_ops_framed(1) [of E h s s2]] Suc.IH [of s2]
    by (auto dest: rq_ops_framed split: sum.splits prod.splits if_splits)
qed simp

lemma make_running_framed: "framed s s1 \<Longrightarrow> framed s (make_running E h n ts s1)"
  unfolding make_running_def by (intro framed_step) (simp_all add: vkeep_def ckeep_def)

lemma preempt_current_framed:
  assumes "preempt_current E h cur s = Done s1"
  shows "framed s s1"
proof (cases "state (vcpus s cur) = VMM_VCPU_STATE_RUNNING")
  case True
  let ?f = "\<lambda>v. v\<lparr>state_running_nsecs := state_running_nsecs v + (now E - state_tstamp v)
      - (irq_process_ns (scheds s h) - current_vcpu_irq_ns (scheds s h)), state := VMM_VCPU_STATE_READY, state_tstamp := now E\<rparr>"
  let ?s2 = "upd_sched h (\<lambda>c. c\<lparr>current_vcpu_irq_ns := irq_process_ns c\<rparr>) (upd_vcpu cur ?f s)"
  have "framed s ?s2" by (intro framed_step) (simp_all add: vkeep_def ckeep_def)
  then show ?thesis using assms True framed_trans [OF _ rq_ops_framed(2)] by (fastforce simp: preempt_current_def Let_def)
qed (use assms in \<open>simp add: preempt_current_def\<close>)

lemma scheduler_next2_framed:
  assumes "scheduler_next2 E h cur r s = Done (s1, nx)"
  shows "framed s s1"
proof -
  obtain sp sd n ts e where "preempt_current E h cur s = Done sp" "dequeue_again (Suc (queued E h sp)) E h cur sp = Done (sd, n, ts)"
    "s1 = make_running E h n ts (if n \<noteq> cur then log_event e sd else sd)"
    using assms by (auto simp: scheduler_next2_def Let_def simp del: dequeue_again.simps)
  then show ?thesis
    using framed_trans [OF preempt_current_framed dequeue_again_framed, of E h cur s sp "Suc (queued E h sp)" E h cur sd n ts]
    by (auto intro!: make_running_framed)
qed

lemma switch_framed:
  assumes "vmm_scheduler_switch E h r s = Done s'"
  shows "framed s s'"
proof -
  obtain r' where r: "r = Some r'" using assms by (auto simp: vmm_scheduler_switch_def split: option.splits)
  have post: "framed s s1 \<Longrightarrow> framed s (post_switch h r' nx s1)" for s1 nx
    by (auto simp: post_switch_def split: option.split)
  have rel: "framed s s1 \<Longrightarrow> framed s (release_wq_lock h cur s1)" for s1 cur
    by (auto simp: release_wq_lock_def vkeep_def split: option.split)
  show ?thesis
  proof (cases "current_vcpu (scheds s h)")
    case None
    then obtain s1 n where 1: "scheduler_next1 E h r' s = Done (s1, n)" "s' = post_switch h r' (Some n) s1"
      using assms r by (auto simp: vmm_scheduler_switch_def)
    then obtain s2 b where "rq_dequeue E h s = Done (s2, b)" "(case b of Inl rc \<Rightarrow> Panic
       | Inr (nx, ts) \<Rightarrow> Done (make_running E h nx ts (log_event (ArchSwitch h None nx r') s2), nx)) = Done (s1, n)"
      by (auto simp: scheduler_next1_def)
    then show ?thesis using 1(2) by (cases b) (auto dest!: rq_ops_framed(1) intro!: post make_running_framed)
  next
    case (Some cur)
    show ?thesis
    proof (cases "s' = s")
      case False
      then obtain s1 nx where 2: "scheduler_next2 E h cur r' s = Done (s1, nx)" "s' = post_switch h r' nx (release_wq_lock h cur s1)"
        using assms Some r by (auto simp: vmm_scheduler_switch_def Let_def split: if_splits)
      then have "framed s s1" using scheduler_next2_framed by blast
      then show ?thesis using 2(2) by (auto intro!: post rel)
    qed simp
  qed
qed

lemma wake_pre_cong:
  "vcpus s' = vcpus s \<Longrightarrow> current_vcpu (scheds s' h) = current_vcpu (scheds s h) \<Longrightarrow> irq_context (scheds s' h) = irq_context (scheds s h) \<Longrightarrow>
   online s' = online s \<Longrightarrow> wake_pre E h ns s' = wake_pre E h ns s"
  by (simp add: wake_pre_def ready_on_def vmm_scheduler_orphan_context_def split: option.split)

lemma switched_state:
  "switched h n s s' \<Longrightarrow> state (vcpus s' m) = (if m = n then VMM_VCPU_STATE_RUNNING
     else if current_vcpu (scheds s h) = Some m \<and> state (vcpus s m) = VMM_VCPU_STATE_RUNNING then VMM_VCPU_STATE_READY else state (vcpus s m))
   \<and> hcpu (vcpus s' m) = hcpu (vcpus s m) \<and> current_vcpu (scheds s' h) = Some n"
  unfolding switched_def by auto

context ready_queue
begin

text \<open>The part of a wake-up under the scheduling lock.\<close>

lemma wake_paused:
  assumes i: "sched_inv inv members hw N hosts s" and E: "algo E = A" and st: "state (vcpus s n) = VMM_VCPU_STATE_PAUSED"
  shows "\<exists>q. change_locked E n VMM_VCPU_STATE_READY s
        = Done (upd_vcpu n (commit_state (now E) VMM_VCPU_STATE_PAUSED VMM_VCPU_STATE_READY) (upd_sched (hcpu (vcpus s n)) (\<lambda>c. c\<lparr>rq := q\<rparr>) s),
            VMM_OK, current_vcpu (scheds s (hcpu (vcpus s n))) \<noteq> Some n
              \<and> rq_prempt_needed E (hcpu (vcpus s n)) (upd_sched (hcpu (vcpus s n)) (\<lambda>c. c\<lparr>rq := q\<rparr>) s))
    \<and> inv (prio_of s) q \<and> members q = insert n (ready_on s (hcpu (vcpus s n)))"
proof -
  let ?h = "hcpu (vcpus s n)"
  note ok = vcpu_okD [OF sched_invD(5) [OF i, of n]]
  have "n \<notin> ready_on s ?h" using st by (auto simp: ready_on_def)
  then obtain q where q: "rq_enqueue E ?h n s = Done (upd_sched ?h (\<lambda>c. c\<lparr>rq := q\<rparr>) s, VMM_OK)" "inv (prio_of s) q"
    "members q = insert n (ready_on s ?h)"
    using rq_enqueue_ok [OF E sched_invD(1) [OF i], of n ?h] sched_invD(2) [OF i, of ?h] ok st ready_on_bound [OF i, of n ?h] by auto
  then show ?thesis using st
    by (intro exI [of _ q]) (simp add: change_locked_def change_action_def Let_def del: bind_result_eq_Done)
qed

lemma wake_locked:
  assumes i: "sched_inv inv members hw N hosts s" and E: "algo E = A" and st: "can_wake (state (vcpus s n))"
  shows "\<exists>s1 p v' q. change_locked E n VMM_VCPU_STATE_READY s = Done (s1, VMM_OK, p) \<and> sched_inv inv members hw N hosts s1
    \<and> vcpus s1 = (vcpus s)(n := v') \<and> scheds s1 = (scheds s)(hcpu (vcpus s n) := (scheds s (hcpu (vcpus s n)))\<lparr>rq := q\<rparr>) \<and> framed s s1
    \<and> hcpu v' = hcpu (vcpus s n) \<and> is_normal v' = is_normal (vcpus s n) \<and> priority v' = priority (vcpus s n) \<and> is_live v'
    \<and> (is_live (vcpus s n) \<longrightarrow> state v' = state (vcpus s n))
    \<and> (p \<longrightarrow> state (vcpus s n) = VMM_VCPU_STATE_RUNNING
        \<or> (\<forall>c. current_vcpu (scheds s (hcpu (vcpus s n))) = Some c \<longrightarrow>
             (\<exists>m. (m = n \<or> m \<in> ready_on s (hcpu (vcpus s n))) \<and> priority (vcpus s c) < priority (vcpus s m))))"
proof -
  let ?h = "hcpu (vcpus s n)"
  have inv: "sched_inv inv members hw N hosts s1" if "change_locked E n VMM_VCPU_STATE_READY s = Done (s1, VMM_OK, p)" for s1 p
    using lock_ready [OF i E, of n] that unfolding lock_result_def by auto
  consider (pa) "state (vcpus s n) = VMM_VCPU_STATE_PAUSED" | (rd) "state (vcpus s n) = VMM_VCPU_STATE_READY"
    | (ru) "state (vcpus s n) = VMM_VCPU_STATE_RUNNING" using st by (auto simp: can_wake_def)
  then show ?thesis
  proof cases
    case pa
    obtain q where q: "inv (prio_of s) q" "members q = insert n (ready_on s ?h)"
      and r': "change_locked E n VMM_VCPU_STATE_READY s
        = Done (upd_vcpu n (commit_state (now E) VMM_VCPU_STATE_PAUSED VMM_VCPU_STATE_READY) (upd_sched ?h (\<lambda>c. c\<lparr>rq := q\<rparr>) s),
            VMM_OK, current_vcpu (scheds s ?h) \<noteq> Some n \<and> rq_prempt_needed E ?h (upd_sched ?h (\<lambda>c. c\<lparr>rq := q\<rparr>) s))"
      using wake_paused [OF i E pa] by blast
    let ?s0 = "upd_sched ?h (\<lambda>c. c\<lparr>rq := q\<rparr>) s"
    let ?v = "commit_state (now E) VMM_VCPU_STATE_PAUSED VMM_VCPU_STATE_READY (vcpus s n)"
    let ?s1 = "upd_vcpu n (commit_state (now E) VMM_VCPU_STATE_PAUSED VMM_VCPU_STATE_READY) ?s0"
    let ?p = "current_vcpu (scheds s ?h) \<noteq> Some n \<and> rq_prempt_needed E ?h ?s0"
    note r = r'
    have "\<exists>m. (m = n \<or> m \<in> ready_on s ?h) \<and> priority (vcpus s c) < priority (vcpus s m)"
      if ?p "current_vcpu (scheds s ?h) = Some c" for c
      using that prempt_needed [OF q(1), of "priority (vcpus s c)"] E q(2) by (auto simp: rq_prempt_needed_def prio_of_def)
    moreover have "framed s ?s1" by (intro framed_step) (simp_all add: vkeep_def ckeep_def)
    ultimately show ?thesis using r inv [OF r] pa by (intro exI [of _ ?s1] exI [of _ ?p] exI [of _ ?v] exI [of _ q]) (auto simp: is_live_def)
  next
    case rd
    then have r: "change_locked E n VMM_VCPU_STATE_READY s = Done (s, VMM_OK, False)"
      by (simp add: change_locked_def change_action_def Let_def)
    have "(scheds s)(?h := (scheds s ?h)\<lparr>rq := rq (scheds s ?h)\<rparr>) = scheds s" using rq_same [of s ?h] by simp
    then show ?thesis using r i rd
      by (intro exI [of _ s] exI [of _ False] exI [of _ "vcpus s n"] exI [of _ "rq (scheds s ?h)"]) (simp add: is_live_def)
  next
    case ru
    let ?s1 = "upd_vcpu n (\<lambda>v. v\<lparr>resumed := True\<rparr>) s"
    have r: "change_locked E n VMM_VCPU_STATE_READY s = Done (?s1, VMM_OK, True)"
      using ru by (simp add: change_locked_def change_action_def Let_def)
    have "(scheds s)(?h := (scheds s ?h)\<lparr>rq := rq (scheds s ?h)\<rparr>) = scheds s" using rq_same [of s ?h] by simp
    moreover have "framed s ?s1" by (intro framed_step) (simp_all add: vkeep_def)
    ultimately show ?thesis using r inv [OF r] ru
      by (intro exI [of _ ?s1] exI [of _ True] exI [of _ "(vcpus s n)\<lparr>resumed := True\<rparr>"] exI [of _ "rq (scheds s ?h)"])
        (simp add: is_live_def)
  qed
qed

lemma wake_pre_tl:
  assumes pre: "wake_pre E h (n # ns) s"
    and st: "\<And>m. can_wake (state (vcpus s m)) \<Longrightarrow> can_wake (state (vcpus s' m))" and hc: "\<And>m. hcpu (vcpus s' m) = hcpu (vcpus s m)"
    and f: "framed s s'"
    and quiet: "vmm_scheduler_orphan_context h s' \<Longrightarrow> current_vcpu (scheds s' h) = current_vcpu (scheds s h)
      \<and> ready_on s' h \<subseteq> ready_on s h \<union> {m. m = n \<and> hcpu (vcpus s m) = h}"
  shows "wake_pre E h ns s'"
proof -
  have oc: "vmm_scheduler_orphan_context h s" if "vmm_scheduler_orphan_context h s'"
    using that quiet [OF that] framedD(3,5) [OF f] by (auto simp: vmm_scheduler_orphan_context_def split: option.splits)
  have "c \<notin> set ns \<and> (\<forall>m. m \<in> ready_on s' h \<or> m \<in> set ns \<and> hcpu (vcpus s' m) = h \<longrightarrow> priority (vcpus s' m) \<le> priority (vcpus s' c))"
    if o: "vmm_scheduler_orphan_context h s'" and c: "current_vcpu (scheds s' h) = Some c" for c
  proof -
    have c': "current_vcpu (scheds s h) = Some c" using quiet [OF o] c by simp
    have "c \<notin> set (n # ns)" and le: "\<And>m. m \<in> ready_on s h \<or> m \<in> set (n # ns) \<and> hcpu (vcpus s m) = h \<Longrightarrow>
        priority (vcpus s m) \<le> priority (vcpus s c)"
      using pre oc [OF o] c' unfolding wake_pre_def by blast+
    moreover have "m \<in> ready_on s h \<or> m \<in> set (n # ns) \<and> hcpu (vcpus s m) = h"
      if "m \<in> ready_on s' h \<or> m \<in> set ns \<and> hcpu (vcpus s' m) = h" for m
      using that quiet [OF o] hc [of m] by auto
    ultimately show ?thesis unfolding framedD(4) [OF f] by simp
  qed
  then show ?thesis using pre st hc framedD(8) [OF f] by (simp add: wake_pre_def)
qed

lemma wake_ok:
  assumes i: "sched_inv inv members hw N hosts s" and E: "env_ok A hw E" and h: "h \<in> hosts" and pre: "wake_pre E h (n # ns) s"
  shows "\<exists>s'. waitqueue_wake smp E h frame n s = Done (s', VMM_OK) \<and> sched_inv inv members hw N hosts s'
    \<and> wake_pre E h ns s' \<and> woken n s s' \<and> framed s s'"
proof -
  have A: "algo E = A" using E by (simp add: env_ok_def)
  let ?vh = "hcpu (vcpus s n)"
  have n: "can_wake (state (vcpus s n))" "?vh < cpu_count E" "online s ?vh" using pre by (simp_all add: wake_pre_def)
  obtain s1 p v' q where l: "change_locked E n VMM_VCPU_STATE_READY s = Done (s1, VMM_OK, p)" "sched_inv inv members hw N hosts s1"
    "vcpus s1 = (vcpus s)(n := v')" "scheds s1 = (scheds s)(?vh := (scheds s ?vh)\<lparr>rq := q\<rparr>)" "framed s s1"
    "hcpu v' = ?vh" "is_normal v' = is_normal (vcpus s n)" "priority v' = priority (vcpus s n)" "is_live v'"
    "is_live (vcpus s n) \<longrightarrow> state v' = state (vcpus s n)"
    and p: "p \<Longrightarrow> state (vcpus s n) = VMM_VCPU_STATE_RUNNING \<or> (\<forall>c. current_vcpu (scheds s ?vh) = Some c \<longrightarrow>
             (\<exists>m. (m = n \<or> m \<in> ready_on s ?vh) \<and> priority (vcpus s c) < priority (vcpus s m)))"
    using wake_locked [OF i A n(1)] by blast
  have frame: "framed s s1" by (rule l(5))
  have cur: "current_vcpu (scheds s1 g) = current_vcpu (scheds s g)" "yield_on_irq_exit (scheds s1 g) = yield_on_irq_exit (scheds s g)" for g
    using l(4) by simp_all
  have live: "woken n s s1" "can_wake (state (vcpus s m)) \<Longrightarrow> can_wake (state (vcpus s1 m))" for m
    using l(3,9,10) by (auto simp: woken_def is_live_def can_wake_def)
  have hc: "hcpu (vcpus s1 m) = hcpu (vcpus s m)" for m using l(3,6) by simp
  have "ready_on s1 h \<subseteq> ready_on s h \<union> {m. m = n \<and> hcpu (vcpus s m) = h}" using l(3,6) by (auto simp: ready_on_def)
  then have pre1: "wake_pre E h ns s1" using cur by (intro wake_pre_tl [OF pre live(2) hc frame]) simp_all
  have r: "vmm_scheduler_state_change E h frame (Some n) VMM_VCPU_STATE_READY s = (case current_vcpu (scheds s ?vh) of
                 None \<Rightarrow> Done (s1, VMM_OK, False)
               | Some cur \<Rightarrow>
                   if \<not> p then Done (s1, VMM_OK, False)
                   else if h = ?vh
                   then if is_normal (vcpus s cur)
                        then Done (upd_sched ?vh (\<lambda>c. c\<lparr>yield_on_irq_exit := True\<rparr>) s1, VMM_OK, False)
                        else if irq_context (scheds s ?vh)
                        then bind_result (vmm_scheduler_switch E ?vh (irq_regs (scheds s ?vh)) s1) (\<lambda>s2. Done (s2, VMM_OK, False))
                        else bind_result (vmm_scheduler_preempt_orphan E ?vh frame s1) (\<lambda>s2. Done (s2, VMM_OK, True))
                   else (case vmm_scheduler_force_resched E ?vh s1 of (s2, rc') \<Rightarrow> Done (s2, rc', False)))"
    unfolding vmm_scheduler_state_change_def Let_def
    by (simp add: l(1) cur framedD(3,5,6) [OF frame] del: bind_result_eq_Done split: option.split)
  show ?thesis
  proof (cases "current_vcpu (scheds s ?vh)")
    case None
    then show ?thesis using r l(2) pre1 live(1) frame by (simp add: waitqueue_wake_def)
  next
    case (Some c)
    consider (quiet) "\<not> p" | (remote) "p" "h \<noteq> ?vh" | (normal) "p" "h = ?vh" "is_normal (vcpus s c)"
      | (irq) "p" "h = ?vh" "\<not> is_normal (vcpus s c)" "irq_context (scheds s h)"
      | (orphan) "p" "h = ?vh" "\<not> is_normal (vcpus s c)" "\<not> irq_context (scheds s h)" by blast
    then show ?thesis
    proof cases
      case quiet
      then show ?thesis using r Some l(2) pre1 live(1) frame by (simp add: waitqueue_wake_def)
    next
      case remote
      let ?s2 = "fst (vmm_scheduler_force_resched E ?vh s1)"
      have rc: "snd (vmm_scheduler_force_resched E ?vh s1) = VMM_OK" using n framedD(8) [OF frame] by (simp add: force_resched_ok)
      have "waitqueue_wake smp E h frame n s = Done (?s2, VMM_OK)"
        using r Some remote rc by (cases "vmm_scheduler_force_resched E ?vh s1") (simp add: waitqueue_wake_def)
      moreover have "framed s ?s2" using frame by (simp add: framed_def)
      moreover have "wake_pre E h ns ?s2" using pre1 by (simp add: wake_pre_cong [of ?s2 s1])
      moreover have "woken n s ?s2" using live(1) by (simp add: woken_def)
      ultimately show ?thesis using l(2) sched_inv_cong [of ?s2 s1] by auto
    next
      case normal
      let ?s2 = "upd_sched ?vh (\<lambda>c. c\<lparr>yield_on_irq_exit := True\<rparr>) s1"
      have "waitqueue_wake smp E h frame n s = Done (?s2, VMM_OK)"
        using r Some normal by (simp add: waitqueue_wake_def)
      moreover have "framed s ?s2" using frame by (rule framed_step) (simp add: ckeep_def)
      moreover have "wake_pre E h ns ?s2" using pre1 by (simp add: wake_pre_cong [of ?s2 s1])
      moreover have "woken n s ?s2" using live(1) by (simp add: woken_def)
      moreover have "sched_inv inv members hw N hosts ?s2" by (rule keep_ctrl_inv [OF l(2)]) (use sched_invD(6) [OF l(2)] in auto)
      ultimately show ?thesis by blast
    next
      case irq
      obtain g where g: "irq_regs (scheds s h) = Some g" using sched_invD(6) [OF i irq(4)] by auto
      obtain s2 where s2: "vmm_scheduler_switch E h (Some g) s1 = Done s2" "sched_inv inv members hw N hosts s2"
        "if preemptible s1 h then \<exists>n. switched h n s1 s2 else s2 = s1"
        using switch_ok [OF l(2) A h] by blast
      have f2: "framed s s2" using framed_trans [OF frame switch_framed [OF s2(1)]] .
      have k: "is_live (vcpus s1 m) \<Longrightarrow> is_live (vcpus s2 m)" "can_wake (state (vcpus s1 m)) \<Longrightarrow> can_wake (state (vcpus s2 m))"
        "hcpu (vcpus s2 m) = hcpu (vcpus s1 m)" for m
        using s2(3) switched_state [of h _ s1 s2 m] by (auto simp: is_live_def can_wake_def split: if_splits)
      have "wake_pre E h ns s2"
      proof (rule wake_pre_tl [OF pre _ _ f2])
        show "vmm_scheduler_orphan_context h s2 \<Longrightarrow> current_vcpu (scheds s2 h) = current_vcpu (scheds s h)
          \<and> ready_on s2 h \<subseteq> ready_on s h \<union> {m. m = n \<and> hcpu (vcpus s m) = h}"
          using irq(4) framedD(5) [OF f2] by (simp add: vmm_scheduler_orphan_context_def split: option.splits)
      qed (use k live hc in auto)
      moreover have "woken n s s2" using live(1) k(1) by (auto simp: woken_def)
      moreover have "waitqueue_wake smp E h frame n s = Done (s2, VMM_OK)"
        using r Some irq s2(1) g by (simp add: waitqueue_wake_def)
      ultimately show ?thesis using s2(2) f2 by blast
    next
      case orphan
      have o: "vmm_scheduler_orphan_context h s" using orphan Some by (simp add: vmm_scheduler_orphan_context_def)
      have c: "c \<notin> set (n # ns)" "\<And>m. m \<in> ready_on s h \<or> m \<in> set (n # ns) \<and> hcpu (vcpus s m) = h \<Longrightarrow>
          priority (vcpus s m) \<le> priority (vcpus s c)"
        using pre o Some orphan(2) unfolding wake_pre_def by auto
      have "state (vcpus s n) = VMM_VCPU_STATE_RUNNING \<Longrightarrow> n = c" using sched_invD(3) [OF i, of n] Some by simp
      then obtain m where "m = n \<or> m \<in> ready_on s ?vh" "priority (vcpus s c) < priority (vcpus s m)"
        using p [OF orphan(1)] Some c(1) by auto
      then show ?thesis using c(2) [of m] orphan(2) by auto
    qed
  qed
qed

lemma wake_each_ok:
  assumes "sched_inv inv members hw N hosts s" and "env_ok A hw E" and "h \<in> hosts" and "wake_pre E h ns s"
  shows "\<exists>s'. wake_each smp E h frame ns s = Done (s', VMM_OK) \<and> sched_inv inv members hw N hosts s' \<and> framed s s'
    \<and> (\<forall>n \<in> set ns. is_live (vcpus s' n)) \<and> (\<forall>m. is_live (vcpus s m) \<longrightarrow> is_live (vcpus s' m))"
  using assms
proof (induction ns arbitrary: s)
  case (Cons n ns)
  obtain s1 where s1: "waitqueue_wake smp E h frame n s = Done (s1, VMM_OK)" "sched_inv inv members hw N hosts s1"
    "wake_pre E h ns s1" "woken n s s1" "framed s s1"
    using wake_ok [OF Cons.prems] by blast
  obtain s2 where "wake_each smp E h frame ns s1 = Done (s2, VMM_OK)" "sched_inv inv members hw N hosts s2" "framed s1 s2"
    "\<forall>n \<in> set ns. is_live (vcpus s2 n)" "\<forall>m. is_live (vcpus s1 m) \<longrightarrow> is_live (vcpus s2 m)"
    using Cons.IH [OF s1(2) Cons.prems(2,3) s1(3)] by blast
  then show ?case using s1 framed_trans [OF s1(5)] by (auto simp: woken_def)
qed simp

end

lemma preempt_toggle [simp]:
  "scheds (vmm_scheduler_preempt_disable h s) = scheds s" "scheds (vmm_scheduler_preempt_enable h s) = scheds s"
  "online (vmm_scheduler_preempt_disable h s) = online s" "online (vmm_scheduler_preempt_enable h s) = online s"
  "trace (vmm_scheduler_preempt_disable h s) = trace s" "trace (vmm_scheduler_preempt_enable h s) = trace s"
  "state (vcpus (vmm_scheduler_preempt_disable h s) m) = state (vcpus s m)"
  "state (vcpus (vmm_scheduler_preempt_enable h s) m) = state (vcpus s m)"
  "hcpu (vcpus (vmm_scheduler_preempt_disable h s) m) = hcpu (vcpus s m)"
  "priority (vcpus (vmm_scheduler_preempt_disable h s) m) = priority (vcpus s m)"
  "resumed (vcpus (vmm_scheduler_preempt_disable h s) m) = resumed (vcpus s m)"
  "is_normal (vcpus (vmm_scheduler_preempt_disable h s) m) = is_normal (vcpus s m)"
  "wq_lock (vcpus (vmm_scheduler_preempt_disable h s) m) = wq_lock (vcpus s m)"
  "wq_priv (vcpus (vmm_scheduler_preempt_disable h s) m) = wq_priv (vcpus s m)"
  by (auto simp: vmm_scheduler_preempt_disable_def vmm_scheduler_preempt_enable_def split: option.split)

lemma preempt_framed: "framed s (vmm_scheduler_preempt_disable h s)" "framed s (vmm_scheduler_preempt_enable h s)"
  by (auto simp: vmm_scheduler_preempt_disable_def vmm_scheduler_preempt_enable_def vkeep_def split: option.split)

lemma log_event_inv [simp]: "sched_inv qinv members hw N hosts (log_event e s) = sched_inv qinv members hw N hosts s"
  by (rule sched_inv_cong) simp_all

lemma spin_lock_inv:
  "sched_inv qinv members hw N hosts s \<Longrightarrow>
     sched_inv qinv members hw N hosts (log_event (WqLock h l) (vmm_scheduler_preempt_disable h s))"
  "sched_inv qinv members hw N hosts s \<Longrightarrow> sched_inv qinv members hw N hosts (vmm_spin_unlock h l s)"
  by (simp_all add: vmm_spin_unlock_def preempt_count_inv)

lemma spin_framed: "framed s (log_event (WqLock h l) (vmm_scheduler_preempt_disable h s))" "framed s (vmm_spin_unlock h l s)"
  unfolding vmm_spin_unlock_def
  by (rule framed_step(3) [OF preempt_framed(1)], rule framed_trans [OF framed_step(3) [OF framed_refl] preempt_framed(2)])

lemma spin_lock_wake_pre:
  "wake_pre E h ns s \<Longrightarrow> wake_pre E h ns (log_event (WqLock h' l) (vmm_scheduler_preempt_disable h' s))"
  by (simp add: wake_pre_def ready_on_def vmm_scheduler_orphan_context_def split: option.splits)

lemma spin_unlock_state [simp]: "state (vcpus (vmm_spin_unlock h l s) n) = state (vcpus s n)" "scheds (vmm_spin_unlock h l s) = scheds s"
  "trace (vmm_spin_unlock h l s) = WqUnlock h l # trace s"
  by (simp_all add: vmm_spin_unlock_def)

context ready_queue
begin

lemma wakeall_ok:
  assumes i: "sched_inv inv members hw N hosts (ksys w)" and E: "env_ok A hw E" and h: "h \<in> hosts"
    and pre: "wake_pre E h (vcpu_list (wqs w wq)) (ksys w)" and cnt: "vcpu_count (wqs w wq) \<noteq> 0"
  shows "\<exists>s'. waitqueue_wakeall smp E h frame wq w = Done (w\<lparr>ksys := s'\<rparr>, VMM_OK) \<and> sched_inv inv members hw N hosts s' \<and> framed (ksys w) s'
    \<and> (\<forall>n \<in> set (vcpu_list (wqs w wq)). is_live (vcpus s' n)) \<and> (\<forall>m. is_live (vcpus (ksys w) m) \<longrightarrow> is_live (vcpus s' m))"
  using wake_each_ok [OF i E h pre, of smp frame] cnt by (auto simp: waitqueue_wakeall_def)

lemma locked_wakeall_ok:
  assumes i: "sched_inv inv members hw N hosts (ksys w)" and E: "env_ok A hw E" and h: "h \<in> hosts"
    and pre: "wake_pre E h (vcpu_list (wqs w wq)) (ksys w)" and cnt: "vcpu_count (wqs w wq) \<noteq> 0"
    and free: "\<not> lock_held wq (trace (ksys w))"
  shows "\<exists>s'. vmm_waitqueue_wakeall smp E h frame wq w = Done (w\<lparr>ksys := s'\<rparr>, VMM_OK) \<and> sched_inv inv members hw N hosts s'
    \<and> \<not> lock_held wq (trace s') \<and> (\<forall>n \<in> set (vcpu_list (wqs w wq)). is_live (vcpus s' n))"
proof -
  let ?s1 = "log_event (WqLock h wq) (vmm_scheduler_preempt_disable h (ksys w))"
  obtain s2 where s2: "waitqueue_wakeall smp E h frame wq (w\<lparr>ksys := ?s1\<rparr>) = Done (w\<lparr>ksys := s2\<rparr>, VMM_OK)"
    "sched_inv inv members hw N hosts s2" "\<forall>n \<in> set (vcpu_list (wqs w wq)). is_live (vcpus s2 n)"
    using wakeall_ok [of hw N hosts "w\<lparr>ksys := ?s1\<rparr>" E h wq smp frame] spin_lock_inv(1) [OF i, of h wq] E h spin_lock_wake_pre [OF pre] cnt
    by auto
  have "vmm_waitqueue_wakeall smp E h frame wq w = Done (w\<lparr>ksys := vmm_spin_unlock h wq s2\<rparr>, VMM_OK)"
    using free s2(1) by (simp add: vmm_waitqueue_wakeall_def with_wq_lock_def vmm_spin_lock_def)
  then show ?thesis using s2 spin_lock_inv(2) [OF s2(2), of h wq]
    by (intro exI [of _ "vmm_spin_unlock h wq s2"]) (auto simp: is_live_def)
qed

end

section \<open>Sleeping gives up the host CPU and the lock\<close>

lemma switch_releases_lock:
  assumes "vmm_scheduler_switch E h (Some r) s = Done s'" and "current_vcpu (scheds s h) = Some cur" and "wq_lock (vcpus s cur) = Some l"
    and "preemptible s h"
  shows "\<not> lock_held l (trace s')"
proof -
  obtain s1 nx where 2: "scheduler_next2 E h cur r s = Done (s1, nx)" "s' = post_switch h r nx (release_wq_lock h cur s1)"
    using assms by (auto simp: vmm_scheduler_switch_def preemptible_def Let_def)
  have "wq_lock (vcpus s1 cur) = Some l" using framedD(1) [OF scheduler_next2_framed [OF 2(1)]] assms(3) by simp
  then show ?thesis using 2(2) by (simp add: release_wq_lock_def post_switch_def split: option.split)
qed

context ready_queue
begin

lemma pause_self:
  assumes i: "sched_inv inv members hw N hosts s" and E: "env_ok A hw E" and h: "h \<in> hosts"
    and c: "current_vcpu (scheds s h) = Some n" "state (vcpus s n) = VMM_VCPU_STATE_RUNNING" "\<not> resumed (vcpus s n)"
    and o: "vmm_scheduler_orphan_context h s" "\<not> is_idle hosts s n" and l: "wq_lock (vcpus s n) = Some l" "preempt_count (vcpus s n) = 1"
  shows "\<exists>s' nx. vmm_scheduler_state_change E h frame (Some n) VMM_VCPU_STATE_PAUSED s = Done (s', VMM_OK, True)
    \<and> sched_inv inv members hw N hosts s' \<and> framed s s' \<and> state (vcpus s' n) = VMM_VCPU_STATE_PAUSED
    \<and> current_vcpu (scheds s' h) = Some nx \<and> nx \<noteq> n \<and> state (vcpus s' nx) = VMM_VCPU_STATE_RUNNING \<and> \<not> lock_held l (trace s')"
proof -
  have A: "algo E = A" using E by (simp add: env_ok_def)
  have hc: "hcpu (vcpus s n) = h" using sched_invD(4) [OF i c(1)] .
  have nn: "\<not> is_normal (vcpus s n)" "\<not> irq_context (scheds s h)" using o(1) c(1) by (simp_all add: vmm_scheduler_orphan_context_def)
  let ?f = "commit_state (now E) VMM_VCPU_STATE_RUNNING VMM_VCPU_STATE_PAUSED"
  let ?s1 = "upd_vcpu n ?f (upd_vcpu n (\<lambda>v. v\<lparr>resumed := False\<rparr>) s)"
  have "change_action E n VMM_VCPU_STATE_PAUSED s = Done (upd_vcpu n (\<lambda>v. v\<lparr>resumed := False\<rparr>) s, VMM_OK, True, False)"
    using c hc by (simp add: change_action_def Let_def)
  from change_locked_commit [OF this] have cl: "change_locked E n VMM_VCPU_STATE_PAUSED s = Done (?s1, VMM_OK, True)" using c(2) by simp
  have "change_ok hw N hosts s n VMM_VCPU_STATE_PAUSED" using c(2) o(2) by (simp add: change_ok_def)
  then have i1: "sched_inv inv members hw N hosts ?s1" using change_locked_ok [OF i E] cl unfolding lock_result_def by fastforce
  have f1: "framed s ?s1" by (intro framed_step) (simp_all add: vkeep_def)
  have pc: "preempt_count (?f v) = preempt_count v" for v by (simp add: commit_state_def account_time_def Let_def)
  have pre: "preemptible ?s1 h" using c(1) l by (simp add: preemptible_def pc)
  obtain s2 nx where s2: "vmm_scheduler_switch E h (Some frame) ?s1 = Done s2" "sched_inv inv members hw N hosts s2" "switched h nx ?s1 s2"
    using switch_ok [OF i1 A h, of frame] pre by auto
  have st: "state (vcpus ?s1 n) = VMM_VCPU_STATE_PAUSED" by simp
  then have "nx \<noteq> n" using s2(3) by (auto simp: switched_def candidates_def ready_on_def)
  moreover have "\<not> lock_held l (trace s2)" by (rule switch_releases_lock [OF s2(1) _ _ pre, where cur = n]) (use c(1) l(1) in simp_all)
  moreover have "vmm_scheduler_state_change E h frame (Some n) VMM_VCPU_STATE_PAUSED s = Done (s2, VMM_OK, True)"
    using cl c(1) hc nn s2(1) by (simp add: vmm_scheduler_state_change_def Let_def vmm_scheduler_preempt_orphan_def)
  moreover have "state (vcpus s2 n) = VMM_VCPU_STATE_PAUSED \<and> state (vcpus s2 nx) = VMM_VCPU_STATE_RUNNING \<and> current_vcpu (scheds s2 h) = Some nx"
    using switched_state [OF s2(3), of n] switched_state [OF s2(3), of nx] \<open>nx \<noteq> n\<close> st by simp
  ultimately show ?thesis using s2(2) framed_trans [OF f1 switch_framed [OF s2(1)]] by blast
qed

lemma sleep_locked_ok:
  assumes i: "sched_inv inv members hw N hosts (ksys w)" and E: "env_ok A hw E" and h: "h \<in> hosts"
    and c: "current_vcpu (scheds (ksys w) h) = Some n" "state (vcpus (ksys w) n) = VMM_VCPU_STATE_RUNNING" "\<not> resumed (vcpus (ksys w) n)"
    and o: "vmm_scheduler_orphan_context h (ksys w)" "\<not> is_idle hosts (ksys w) n"
    and l: "wq_priv (vcpus (ksys w) n) = None" "preempt_count (vcpus (ksys w) n) = 1" and t: "timeout \<noteq> Some 0"
  shows "\<exists>s' nx. waitqueue_sleep_locked smp E h frame wq timeout w
      = Done ((waitqueue_link (now E) wq n timeout w)\<lparr>ksys := s'\<rparr>, Suspended n VMM_OK)
    \<and> sched_inv inv members hw N hosts s' \<and> state (vcpus s' n) = VMM_VCPU_STATE_PAUSED
    \<and> wq_priv (vcpus s' n) = Some wq \<and> wq_lock (vcpus s' n) = Some wq
    \<and> current_vcpu (scheds s' h) = Some nx \<and> nx \<noteq> n \<and> state (vcpus s' nx) = VMM_VCPU_STATE_RUNNING \<and> \<not> lock_held wq (trace s')"
proof -
  have nn: "\<not> is_normal (vcpus (ksys w) n)" "\<not> irq_context (scheds (ksys w) h)" using o(1) c(1) by (simp_all add: vmm_scheduler_orphan_context_def)
  let ?s1 = "upd_vcpu n (\<lambda>v. v\<lparr>wq_lock := Some wq, wq_priv := Some wq\<rparr>) (ksys w)"
  have i1: "sched_inv inv members hw N hosts ?s1" by (rule keep_vcpu_inv [OF i]) simp_all
  have "preempt_count (vcpus ?s1 n) = 1" using l(2) by simp
  then obtain s' nx where s': "vmm_scheduler_state_change E h frame (Some n) VMM_VCPU_STATE_PAUSED ?s1 = Done (s', VMM_OK, True)"
    "sched_inv inv members hw N hosts s'" "framed ?s1 s'" "state (vcpus s' n) = VMM_VCPU_STATE_PAUSED"
    "current_vcpu (scheds s' h) = Some nx" "nx \<noteq> n" "state (vcpus s' nx) = VMM_VCPU_STATE_RUNNING" "\<not> lock_held wq (trace s')"
    using pause_self [OF i1 E h, of n wq frame] c o(2) nn by (auto simp: vmm_scheduler_orphan_context_def is_idle_def)
  have ks: "ksys (waitqueue_link (now E) wq n timeout w) = ?s1" by (simp add: waitqueue_link_def Let_def)
  have "waitqueue_sleep_locked smp E h frame wq timeout w
      = Done ((waitqueue_link (now E) wq n timeout w)\<lparr>ksys := s'\<rparr>, Suspended n VMM_OK)"
    using t c(1) nn l(1) s'(1,5,6) unfolding waitqueue_sleep_locked_def Let_def
    by (simp add: vmm_scheduler_orphan_context_def ks del: bind_result_eq_Done)
  moreover have "wq_priv (vcpus s' n) = Some wq \<and> wq_lock (vcpus s' n) = Some wq" using framedD(1,2) [OF s'(3), of n] by simp
  ultimately show ?thesis using s'(2,4-8) by blast
qed

lemma sleep_ok:
  assumes i: "sched_inv inv members hw N hosts (ksys w)" and E: "env_ok A hw E" and h: "h \<in> hosts"
    and c: "current_vcpu (scheds (ksys w) h) = Some n" "state (vcpus (ksys w) n) = VMM_VCPU_STATE_RUNNING" "\<not> resumed (vcpus (ksys w) n)"
    and o: "vmm_scheduler_orphan_context h (ksys w)" "\<not> is_idle hosts (ksys w) n"
    and l: "wq_priv (vcpus (ksys w) n) = None" "preempt_count (vcpus (ksys w) n) = 0" "\<not> lock_held wq (trace (ksys w))"
    and t: "timeout \<noteq> Some 0"
  shows "\<exists>s' nx. vmm_waitqueue_sleep_timeout smp E h frame wq timeout w
      = Done ((waitqueue_link (now E) wq n timeout w)\<lparr>ksys := s'\<rparr>, Suspended n VMM_OK)
    \<and> sched_inv inv members hw N hosts s' \<and> state (vcpus s' n) = VMM_VCPU_STATE_PAUSED
    \<and> wq_priv (vcpus s' n) = Some wq \<and> wq_lock (vcpus s' n) = Some wq
    \<and> current_vcpu (scheds s' h) = Some nx \<and> nx \<noteq> n \<and> state (vcpus s' nx) = VMM_VCPU_STATE_RUNNING \<and> \<not> lock_held wq (trace s')"
proof -
  have nn: "\<not> is_normal (vcpus (ksys w) n)" "\<not> irq_context (scheds (ksys w) h)" using o(1) c(1) by (simp_all add: vmm_scheduler_orphan_context_def)
  let ?s0 = "log_event (WqLock h wq) (vmm_scheduler_preempt_disable h (ksys w))" let ?w0 = "w\<lparr>ksys := ?s0\<rparr>"
  have "preempt_count (vcpus ?s0 n) = 1" using c(1) nn(2) l(2) by (simp add: vmm_scheduler_preempt_disable_def)
  then obtain s' nx where s': "waitqueue_sleep_locked smp E h frame wq timeout ?w0
      = Done ((waitqueue_link (now E) wq n timeout ?w0)\<lparr>ksys := s'\<rparr>, Suspended n VMM_OK)"
    "sched_inv inv members hw N hosts s'" "state (vcpus s' n) = VMM_VCPU_STATE_PAUSED"
    "wq_priv (vcpus s' n) = Some wq \<and> wq_lock (vcpus s' n) = Some wq"
    "current_vcpu (scheds s' h) = Some nx" "nx \<noteq> n" "state (vcpus s' nx) = VMM_VCPU_STATE_RUNNING" "\<not> lock_held wq (trace s')"
    using sleep_locked_ok [of hw N hosts ?w0 E h n timeout smp frame wq] spin_lock_inv(1) [OF i] E h c nn o(2) l(1) t
    by (auto simp: vmm_scheduler_orphan_context_def is_idle_def)
  have "(waitqueue_link (now E) wq n timeout ?w0)\<lparr>ksys := s'\<rparr> = (waitqueue_link (now E) wq n timeout w)\<lparr>ksys := s'\<rparr>"
    by (simp add: waitqueue_link_def Let_def)
  then have "vmm_waitqueue_sleep_timeout smp E h frame wq timeout w
      = Done ((waitqueue_link (now E) wq n timeout w)\<lparr>ksys := s'\<rparr>, Suspended n VMM_OK)"
    using l(3) s'(1) by (simp add: vmm_waitqueue_sleep_timeout_def vmm_spin_lock_def del: bind_result_eq_Done)
  then show ?thesis using s'(2-8) by blast
qed

text \<open>A wake-up that came before the VCPU could sleep: the call returns at once, and forgets the wake-up.\<close>

lemma sleep_resumed:
  assumes i: "sched_inv inv members hw N hosts (ksys w)"
    and c: "current_vcpu (scheds (ksys w) h) = Some n" "state (vcpus (ksys w) n) = VMM_VCPU_STATE_RUNNING" "resumed (vcpus (ksys w) n)"
    and o: "vmm_scheduler_orphan_context h (ksys w)" and l: "wq_priv (vcpus (ksys w) n) = None" and t: "timeout \<noteq> Some 0"
  shows "\<exists>w' rc t'. waitqueue_sleep_locked smp E h frame wq timeout w = Done (w', Returned rc t') \<and> (rc = VMM_OK \<longrightarrow> t' \<noteq> Some 0)
    \<and> ksys w' = upd_vcpu n (\<lambda>v. v\<lparr>resumed := False, wq_lock := None, wq_priv := None\<rparr>) (ksys w)"
proof -
  let ?w1 = "waitqueue_link (now E) wq n timeout w"
  let ?s1 = "upd_vcpu n (\<lambda>v. v\<lparr>wq_lock := Some wq, wq_priv := Some wq\<rparr>) (ksys w)"
  have ks: "ksys ?w1 = ?s1" by (simp add: waitqueue_link_def Let_def)
  let ?s2 = "upd_vcpu n (\<lambda>v. v\<lparr>resumed := False\<rparr>) ?s1"
  have "change_action E n VMM_VCPU_STATE_PAUSED ?s1 = Done (?s2, VMM_OK, False, True)" using c by (simp add: change_action_def Let_def)
  from change_locked_skip [OF this]
  have sc: "vmm_scheduler_state_change E h frame (Some n) VMM_VCPU_STATE_PAUSED ?s1 = Done (?s2, VMM_OK, False)"
    by (simp add: vmm_scheduler_state_change_def Let_def split: option.split)
  let ?w2 = "?w1\<lparr>ksys := ?s2\<rparr>"
  have m: "n \<in> set (vcpu_list (wqs ?w2 wq))" by (simp add: waitqueue_link_def Let_def)
  have ev: "wake_event ?w2 n = map_option (\<lambda>d. (now E + d, True)) timeout" by (simp add: waitqueue_link_def Let_def)
  obtain w3 where u: "waitqueue_unlink wq n ?w2 = Done w3" "wake_event w3 = wake_event ?w2"
    "ksys w3 = upd_vcpu n (\<lambda>v. v\<lparr>wq_lock := None, wq_priv := None\<rparr>) ?s2"
    using m by (simp add: waitqueue_unlink_def Let_def)
  have k: "ksys w3 = upd_vcpu n (\<lambda>v. v\<lparr>resumed := False, wq_lock := None, wq_priv := None\<rparr>) (ksys w)"
    unfolding u(3) by (simp add: upd_vcpu_def)
  have "\<exists>w' rc t'. waitqueue_sleep_end E wq n timeout VMM_OK ?w2 = Done (w', rc, t') \<and> (rc = VMM_OK \<longrightarrow> t' \<noteq> Some 0) \<and> ksys w' = ksys w3"
    using u(1,2) ev by (cases timeout) (auto simp: waitqueue_sleep_end_def Let_def)
  then obtain w' rc t' where e: "waitqueue_sleep_end E wq n timeout VMM_OK ?w2 = Done (w', rc, t')" "rc = VMM_OK \<longrightarrow> t' \<noteq> Some 0" "ksys w' = ksys w3"
    by blast
  have "waitqueue_sleep_locked smp E h frame wq timeout w = Done (w', Returned rc t')"
    using o t c(1) l sc e(1) unfolding waitqueue_sleep_locked_def Let_def by (simp add: ks del: bind_result_eq_Done)
  then show ?thesis using e trans [OF e(3) k] by blast
qed

end

end
