(* ===== verification/SchedProps.thy ===== *)
theory SchedProps
  imports SchedSafe
begin

text \<open>
  The properties of the scheduler: safety over all sequences of operations, each of them one step, for both
  scheduling algorithms, the choice of the next VCPU, the transition table, and the accounting of time; and the
  situations in which the source leaves the invariant.
\<close>

section \<open>Reachable states\<close>

inductive sched_reach ::
  "'rq schedalgo \<Rightarrow> irq_arch \<Rightarrow> nat \<Rightarrow> nat set \<Rightarrow> 'rq system \<Rightarrow> 'rq system \<Rightarrow> bool"
  for A hw N hosts s0 where
  start: "sched_reach A hw N hosts s0 s0"
| step: "sched_reach A hw N hosts s0 s \<Longrightarrow> env_ok A hw E \<Longrightarrow> h \<in> hosts \<Longrightarrow> op_ok hw N hosts h op s \<Longrightarrow>
    run_op E h op s = Done s' \<Longrightarrow> sched_reach A hw N hosts s0 s'"

section \<open>A concrete system\<close>

text \<open>
  One host CPU with two VCPUs, both orphans: the idle VCPU 0 of lowest priority and VCPU 1.  In \<open>demo_system\<close> both
  are READY and nothing runs; in \<open>demo_running\<close> VCPU 1 runs and an interrupt is being handled.
\<close>

definition demo_vcpu :: "vcpu_state \<Rightarrow> nat \<Rightarrow> vmm_vcpu" where
  "demo_vcpu st p = sample_vcpu\<lparr>is_normal := False, state := st, priority := p\<rparr>"

definition demo_ctrl :: "'rq \<Rightarrow> nat option \<Rightarrow> nat option \<Rightarrow> nat option \<Rightarrow> 'rq vmm_scheduler_ctrl" where
  "demo_ctrl q cur idle regs = \<lparr>rq = q, current_vcpu_irq_ns = 0, current_vcpu = cur, idle_vcpu = idle, irq_context = (regs \<noteq> None),
     irq_regs = regs, irq_enter_tstamp = 0, irq_process_ns = 0, yield_on_irq_exit = False, ev = None, sample_ev = None,
     sample_period_ns = 0, sample_idle_ns = 0, sample_idle_last_ns = 0, sample_irq_ns = 0, sample_irq_last_ns = 0\<rparr>"

definition demo_system :: "prr_rq system" where
  "demo_system = \<lparr>vcpus = (\<lambda>n. if n = 0 then demo_vcpu VMM_VCPU_STATE_READY 0 else if n = 1 then demo_vcpu VMM_VCPU_STATE_READY 3
       else demo_vcpu VMM_VCPU_STATE_UNKNOWN 0),
     scheds = (\<lambda>h. if h = 0 then demo_ctrl ((\<lambda>p. [])(0 := [0], 3 := [1])) None (Some 0) None else demo_ctrl (\<lambda>p. []) None None None),
     online = (\<lambda>h. h = 0), ipis = [], trace = []\<rparr>"

definition demo_running :: "prr_rq system" where
  "demo_running = \<lparr>vcpus = (\<lambda>n. if n = 0 then demo_vcpu VMM_VCPU_STATE_READY 0
       else if n = 1 then (demo_vcpu VMM_VCPU_STATE_RUNNING 3)\<lparr>preempt_count := 1\<rparr> else demo_vcpu VMM_VCPU_STATE_UNKNOWN 0),
     scheds = (\<lambda>h. if h = 0 then demo_ctrl ((\<lambda>p. [])(0 := [0])) (Some 1) (Some 0) (Some 7) else demo_ctrl (\<lambda>p. []) None None None),
     online = (\<lambda>h. h = 0), ipis = [], trace = []\<rparr>"

definition demo_prm :: "prm_rq system" where
  "demo_prm = \<lparr>vcpus = (\<lambda>n. if n = 0 then demo_vcpu VMM_VCPU_STATE_READY 0 else demo_vcpu VMM_VCPU_STATE_UNKNOWN 0),
     scheds = (\<lambda>h. if h = 0 then demo_ctrl \<lparr>prm_count = (\<lambda>p. 0)(0 := 1), prm_root = (\<lambda>p. [])(0 := [(1000, 0)])\<rparr> None (Some 0) None
       else demo_ctrl prm_rq_create None None None),
     online = (\<lambda>h. h = 0), ipis = [], trace = []\<rparr>"

definition demo_env :: "'rq schedalgo \<Rightarrow> 'rq sched_env" where
  "demo_env A = \<lparr>algo = A, cpu_count = 1, now = 100, entry_mem = True, arch_init = (\<lambda>_. VMM_OK), irq_hw = irq_demo_arch, irq_mem = (True, True)\<rparr>"

lemmas demo_defs = demo_vcpu_def demo_ctrl_def sample_vcpu_def

lemma demo_env_ok: "env_ok A irq_demo_arch (demo_env A)"
  by (simp add: env_ok_def demo_env_def)

lemma demo_system_inv: "sched_inv prr_inv prr_members irq_demo_arch 2 {0} demo_system"
  unfolding sched_inv_def prr_inv_def prr_members_def vcpu_ok_def idle_ok_def is_live_def
  by (auto simp: demo_system_def demo_defs prio_of_def ready_on_def VMM_VCPU_MAX_PRIORITY_def split: if_splits) (rule exI [of _ 0], simp)

lemma demo_running_inv: "sched_inv prr_inv prr_members irq_demo_arch 2 {0} demo_running"
  unfolding sched_inv_def prr_inv_def prr_members_def vcpu_ok_def idle_ok_def is_live_def
  by (auto simp: demo_running_def demo_defs prio_of_def ready_on_def VMM_VCPU_MAX_PRIORITY_def split: if_splits)

lemma demo_prm_inv: "sched_inv prm_inv prm_members irq_demo_arch 2 {0} demo_prm"
  unfolding sched_inv_def prm_inv_def prm_members_def vcpu_ok_def idle_ok_def is_live_def
  by (auto simp: demo_prm_def demo_defs prm_rq_create_def prio_of_def ready_on_def VMM_VCPU_MAX_PRIORITY_def split: if_splits)

text \<open>\<open>demo_system\<close> after an interrupt entry, as an example of a reachable state other than the start.\<close>

definition demo_entered :: "prr_rq system" where
  "demo_entered = vmm_scheduler_irq_enter (demo_env prr_algo) 0 (Some 7) False demo_system"

lemma demo_entered_reach: "sched_reach prr_algo irq_demo_arch 2 {0} demo_system demo_entered"
  by (rule sched_reach.step [OF sched_reach.start demo_env_ok, where h = 0 and op = "Op_irq_enter 7 False"])
    (simp_all add: demo_entered_def)

section \<open>Safety\<close>

context ready_queue
begin

lemma reach_inv:
  assumes "sched_reach A hw N hosts s0 s" and "sched_inv inv members hw N hosts s0"
  shows "sched_inv inv members hw N hosts s"
  using assms by induction (use run_op_ok in \<open>fastforce+\<close>)

lemma reach_safe:
  assumes "sched_reach A hw N hosts s0 s" and "sched_inv inv members hw N hosts s0"
    and "env_ok A hw E" and "h \<in> hosts" and "op_ok hw N hosts h op s"
  shows "\<exists>s'. run_op E h op s = Done s'"
  using run_op_ok [OF reach_inv [OF assms(1,2)] assms(3-5)] by blast

end





section \<open>Context switch\<close>

text \<open>
  C2. A context switch on an initialised host CPU whose current VCPU may be preempted, with round-robin
  queues.  The VCPU that runs afterwards is one of highest priority among the READY VCPUs of the host CPU and
  the preempted one, the others of these are exactly what is READY there afterwards, no other VCPU and no other
  host CPU changes, and the invariant is kept.
\<close>

theorem vmm_scheduler_switch_highest:
  assumes "sched_inv prr_inv prr_members hw N hosts s" and "algo E = prr_algo" and "h \<in> hosts" and "preemptible s h"
  shows "\<exists>s' n. vmm_scheduler_switch E h (Some r) s = Done s' \<and> sched_inv prr_inv prr_members hw N hosts s'
    \<and> n \<in> candidates s h \<and> (\<forall>m \<in> candidates s h. priority (vcpus s m) \<le> priority (vcpus s n))
    \<and> current_vcpu (scheds s' h) = Some n \<and> state (vcpus s' n) = VMM_VCPU_STATE_RUNNING \<and> ready_on s' h = candidates s h - {n}
    \<and> (\<forall>g. g \<noteq> h \<longrightarrow> scheds s' g = scheds s g)
    \<and> (\<forall>m. m \<noteq> n \<longrightarrow> current_vcpu (scheds s h) \<noteq> Some m \<longrightarrow> vcpus s' m = vcpus s m)"
proof -
  obtain s' n where "vmm_scheduler_switch E h (Some r) s = Done s'" "sched_inv prr_inv prr_members hw N hosts s'" "switched h n s s'"
    using prr.switch_ok [OF assms(1-3), of r] assms(4) by auto
  then show ?thesis unfolding switched_def prio_of_def by blast
qed

theorem vmm_scheduler_switch_highest_witness:
  "\<exists>s' n. vmm_scheduler_switch (demo_env prr_algo) 0 (Some 7) demo_system = Done s' \<and> current_vcpu (scheds s' 0) = Some n
     \<and> n \<in> candidates demo_system 0 \<and> (\<forall>m \<in> candidates demo_system 0. priority (vcpus demo_system m) \<le> priority (vcpus demo_system n))"
proof -
  have "preemptible demo_system 0" by (simp add: preemptible_def demo_system_def demo_ctrl_def)
  then show ?thesis
    using vmm_scheduler_switch_highest [OF demo_system_inv, of "demo_env prr_algo" 0 7] by (auto simp: demo_env_def)
qed

text \<open>
  C6. Disabling preemption protects the current VCPU: while its preemption count does not allow a switch, a
  timer interrupt or a yield request at interrupt exit leaves it the current VCPU, in its state.
\<close>

theorem preempt_disable_protects:
  assumes "sched_inv prr_inv prr_members hw N hosts s" and "env_ok prr_algo hw E" and "h \<in> hosts"
    and "current_vcpu (scheds s h) = Some n" and "\<not> preemptible s h" and "irq_regs (scheds s h) \<noteq> None"
  shows "\<exists>s1 s2. scheduler_timer_event E h s = Done s1 \<and> s1 = s
    \<and> vmm_scheduler_irq_exit E h regs t s = Done s2 \<and> current_vcpu (scheds s2 h) = Some n
    \<and> state (vcpus s2 n) = state (vcpus s n) \<and> rq (scheds s2 h) = rq (scheds s h)"
proof -
  obtain r where r: "irq_regs (scheds s h) = Some r" using assms(6) by auto
  have E': "irq_hw E = hw" "algo E = prr_algo" using assms(2) by (simp_all add: env_ok_def)
  have sw: "vmm_scheduler_switch E h (Some r) s = Done s"
    using prr.switch_ok [OF assms(1) E'(2) assms(3), of r] assms(5) by simp
  let ?f = "\<lambda>c. c\<lparr>yield_on_irq_exit := False\<rparr>"
  define s2 where "s2 = (if state (vcpus s n) \<noteq> VMM_VCPU_STATE_RUNNING \<or> yield_on_irq_exit (scheds s h) then upd_sched h ?f s else s)"
  have s2: "vcpus s2 = vcpus s" "current_vcpu (scheds s2 h) = Some n" "rq (scheds s2 h) = rq (scheds s h)"
    using assms(4) by (simp_all add: s2_def)
  obtain v where v: "vmm_vcpu_irq_process (irq_hw E) n (vcpus s n) = Done v" "state v = state (vcpus s n)"
    using irq_process_inv [OF assms(1) E'(1)] by blast
  have "(if state (vcpus s n) \<noteq> VMM_VCPU_STATE_RUNNING \<or> yield_on_irq_exit (scheds s h)
         then bind_result (vmm_scheduler_switch E h (irq_regs (scheds s h)) s) (\<lambda>s1. Done (upd_sched h ?f s1)) else Done s) = Done s2"
    using sw r by (simp add: s2_def)
  then have "\<exists>s3. vmm_scheduler_irq_exit E h regs t s = Done s3 \<and> current_vcpu (scheds s3 h) = Some n
    \<and> state (vcpus s3 n) = state (vcpus s n) \<and> rq (scheds s3 h) = rq (scheds s h)"
    using assms(4) v s2 by (simp add: vmm_scheduler_irq_exit_def del: bind_result_eq_Done)
  moreover have "scheduler_timer_event E h s = Done s" using sw r by (simp add: scheduler_timer_event_def)
  ultimately show ?thesis by blast
qed


theorem preempt_disable_protects_witness:
  "\<exists>s2. vmm_scheduler_irq_exit (demo_env prr_algo) 0 7 200 demo_running = Done s2 \<and> current_vcpu (scheds s2 0) = Some 1
     \<and> state (vcpus s2 1) = state (vcpus demo_running 1)"
proof -
  have "current_vcpu (scheds demo_running 0) = Some 1" "\<not> preemptible demo_running 0" "irq_regs (scheds demo_running 0) \<noteq> None"
    by (simp_all add: preemptible_def demo_running_def demo_defs)
  then show ?thesis
    using preempt_disable_protects [OF demo_running_inv demo_env_ok, of 0 1 7 200] by auto
qed

section \<open>Transitions\<close>



section \<open>Accounting of time\<close>

text \<open>
  The time spent in the four accounted states, minus the time of the last update.  As long as this value of a
  VCPU stays the same, each of its counters has grown by the time the VCPU spent in that state.
\<close>

definition time_balance :: "vmm_vcpu \<Rightarrow> u64" where
  "time_balance v = state_ready_nsecs v + state_running_nsecs v + state_paused_nsecs v + state_halted_nsecs v - state_tstamp v"

lemma rq_ops_vcpus:
  "rq_dequeue E h s = Done (s1, x) \<Longrightarrow> vcpus s1 = vcpus s" "rq_enqueue E h n s = Done (s2, y) \<Longrightarrow> vcpus s2 = vcpus s"
  "rq_detach E h n s = Done (s3, z) \<Longrightarrow> vcpus s3 = vcpus s"
  by (auto simp: rq_dequeue_def rq_enqueue_def rq_detach_def)

lemma dequeue_again_vcpus: "dequeue_again k E h cur s = Done (s1, n, ts) \<Longrightarrow> vcpus s1 = vcpus s"
proof (induction k arbitrary: s)
  case (Suc k)
  then obtain s2 r where "rq_dequeue E h s = Done (s2, r)" "(case r of Inl rc \<Rightarrow> Panic | Inr (nx, ts) \<Rightarrow>
      if nx \<noteq> cur \<and> state (vcpus s2 nx) \<noteq> VMM_VCPU_STATE_READY then dequeue_again k E h cur s2 else Done (s2, nx, ts)) = Done (s1, n, ts)"
    by auto
  then show ?case using Suc.IH [of s2] rq_ops_vcpus(1) by (auto split: sum.splits prod.splits if_splits)
qed simp

lemma make_running_balance: "time_balance (vcpus (make_running E h n ts s) m) = time_balance (vcpus s m)"
  by (simp add: make_running_def time_balance_def)

lemma preempt_current_balance:
  assumes "preempt_current E h cur s = Done s1"
  shows "time_balance (vcpus s1 m) = time_balance (vcpus s m) - (if m = cur \<and> state (vcpus s cur) = VMM_VCPU_STATE_RUNNING
    then irq_process_ns (scheds s h) - current_vcpu_irq_ns (scheds s h) else 0)"
  using assms by (auto simp: preempt_current_def Let_def time_balance_def dest!: rq_ops_vcpus(2) split: if_splits)

lemma release_balance [simp]: "time_balance (vcpus (release_wq_lock h cur s) m) = time_balance (vcpus s m)"
  by (simp add: release_wq_lock_def time_balance_def split: option.split)

text \<open>
  C5. A context switch loses no time: whatever the ready queue does, the balance of every VCPU stays the same,
  except that the time that interrupts took on the host CPU since the current VCPU was switched in is deducted
  from the VCPU that is preempted.
\<close>

theorem switch_accounts_time:
  assumes "vmm_scheduler_switch E h (Some r) s = Done s'"
  shows "time_balance (vcpus s' m) = time_balance (vcpus s m)
    - (if preemptible s h \<and> current_vcpu (scheds s h) = Some m \<and> state (vcpus s m) = VMM_VCPU_STATE_RUNNING
       then irq_process_ns (scheds s h) - current_vcpu_irq_ns (scheds s h) else 0)"
proof (cases "current_vcpu (scheds s h)")
  case None
  then obtain s1 n where "scheduler_next1 E h r s = Done (s1, n)" "s' = post_switch h r (Some n) s1"
    using assms by (auto simp: vmm_scheduler_switch_def)
  then obtain s2 b where d: "rq_dequeue E h s = Done (s2, b)" "(case b of Inl rc \<Rightarrow> Panic
       | Inr (nx, ts) \<Rightarrow> Done (make_running E h nx ts (log_event (ArchSwitch h None nx r) s2), nx)) = Done (s1, n)"
    by (auto simp: scheduler_next1_def)
  then obtain ts where "rq_dequeue E h s = Done (s2, Inr (n, ts))"
    "s1 = make_running E h n ts (log_event (ArchSwitch h None n r) s2)" by (cases b) auto
  then show ?thesis using None \<open>s' = _\<close> rq_ops_vcpus(1) [of E h s s2] by (simp add: make_running_balance)
next
  case (Some cur)
  show ?thesis
  proof (cases "preemptible s h")
    case False
    then have "s' = s" using assms Some by (simp add: vmm_scheduler_switch_def preemptible_def Let_def)
    then show ?thesis using False by simp
  next
    case True
    then obtain s1 nx where n2: "scheduler_next2 E h cur r s = Done (s1, nx)" "s' = post_switch h r nx (release_wq_lock h cur s1)"
      using assms Some by (auto simp: vmm_scheduler_switch_def preemptible_def Let_def)
    obtain sp where sp: "preempt_current E h cur s = Done sp" using n2(1) by (auto simp: scheduler_next2_def)
    obtain sd n ts where sd: "dequeue_again (Suc (queued E h sp)) E h cur sp = Done (sd, n, ts)"
      using n2(1) sp by (auto simp: scheduler_next2_def Let_def simp del: dequeue_again.simps)
    have "vcpus sd = vcpus sp" using dequeue_again_vcpus [OF sd] .
    moreover have "\<exists>e. s1 = make_running E h n ts (if n \<noteq> cur then log_event e sd else sd)"
      using n2(1) sp sd by (auto simp: scheduler_next2_def Let_def simp del: dequeue_again.simps)
    ultimately have "time_balance (vcpus s1 m) = time_balance (vcpus sp m)" by (auto simp: make_running_balance)
    then show ?thesis using n2(2) Some True preempt_current_balance [OF sp, of m] by simp
  qed
qed

theorem switch_accounts_time_witness:
  "\<exists>s'. vmm_scheduler_switch (demo_env prr_algo) 0 (Some 7) demo_system = Done s'
     \<and> time_balance (vcpus s' 1) = time_balance (vcpus demo_system 1)
         - (if preemptible demo_system 0 \<and> current_vcpu (scheds demo_system 0) = Some 1
              \<and> state (vcpus demo_system 1) = VMM_VCPU_STATE_RUNNING
            then irq_process_ns (scheds demo_system 0) - current_vcpu_irq_ns (scheds demo_system 0) else 0)"
proof -
  obtain s' where "vmm_scheduler_switch (demo_env prr_algo) 0 (Some 7) demo_system = Done s'"
    using prr.switch_ok [OF demo_system_inv, of "demo_env prr_algo" 0 7] by (auto simp: demo_env_def)
  then show ?thesis using switch_accounts_time by blast
qed

section \<open>Where the source leaves the invariant\<close>

text \<open>
  Moving a stopped VCPU that is still the current one of its host CPU: the host CPU keeps it as its current
  VCPU while it is assigned to another one, which may run it at the same time.
\<close>

lemma set_hcpu_current_breaks_invariant:
  assumes "current_vcpu (scheds s h) = Some n" and "hcpu (vcpus s n) = h" and "state (vcpus s n) = VMM_VCPU_STATE_PAUSED"
    and "g \<noteq> h" and "cpu_affinity (vcpus s n) g"
  shows "\<exists>s'. vmm_scheduler_set_hcpu E ch (Some n) g s = Done (s', VMM_OK) \<and> current_vcpu (scheds s' h) = Some n \<and> hcpu (vcpus s' n) = g
    \<and> \<not> sched_inv qinv members hw N hosts s'"
proof -
  let ?s' = "upd_vcpu n (\<lambda>v. v\<lparr>hcpu := g\<rparr>) s"
  have "vmm_scheduler_set_hcpu E ch (Some n) g s = Done (?s', VMM_OK)" using assms by (auto simp: vmm_scheduler_set_hcpu_def Let_def)
  moreover have "current_vcpu (scheds ?s' h) = Some n" "hcpu (vcpus ?s' n) = g" using assms by simp_all
  moreover from this have "\<not> sched_inv qinv members hw N hosts ?s'" using sched_invD(4) [of qinv members hw N hosts ?s' h n] assms(4) by auto
  ultimately show ?thesis by blast
qed

text \<open>Pausing a VCPU that is READY and still current: it stays in the ready queue.\<close>

lemma pause_ready_current_breaks_invariant:
  assumes "sched_inv qinv members hw N hosts s" and "current_vcpu (scheds s h) = Some n" and "state (vcpus s n) = VMM_VCPU_STATE_READY"
    and "\<not> resumed (vcpus s n)"
  shows "\<exists>s' p. change_locked E n VMM_VCPU_STATE_PAUSED s = Done (s', VMM_OK, p) \<and> state (vcpus s' n) = VMM_VCPU_STATE_PAUSED
    \<and> n \<in> members (rq (scheds s' h)) \<and> \<not> sched_inv qinv members hw N hosts s'"
proof -
  have h: "hcpu (vcpus s n) = h" using sched_invD(4) [OF assms(1,2)] .
  let ?s1 = "upd_vcpu n (\<lambda>v. v\<lparr>resumed := False\<rparr>) s"
  have "change_action E n VMM_VCPU_STATE_PAUSED s = Done (?s1, VMM_OK, True, False)"
    using assms(2-4) h by (simp add: change_action_def Let_def)
  note c = change_locked_commit [OF this]
  let ?s' = "upd_vcpu n (commit_state (now E) (state (vcpus s n)) VMM_VCPU_STATE_PAUSED) ?s1"
  have m: "n \<in> members (rq (scheds ?s' h))" using sched_invD(2) [OF assms(1), of h] assms(3) h by (simp add: ready_on_def)
  moreover have "\<not> sched_inv qinv members hw N hosts ?s'"
    using sched_invD(2) [of qinv members hw N hosts ?s' h] m by (auto simp: ready_on_def)
  ultimately show ?thesis using c by auto
qed

text \<open>A reset that the architecture refuses: the VCPU stays READY but is in no ready queue.\<close>

lemma failed_reset_loses_vcpu:
  assumes "sched_inv prr_inv prr_members hw N hosts s" and "algo E = prr_algo" and "state (vcpus s n) = VMM_VCPU_STATE_READY"
    and "\<not> still_current s n" and "arch_init E n \<noteq> VMM_OK"
  shows "\<exists>s' p. change_locked E n VMM_VCPU_STATE_RESET s = Done (s', arch_init E n, p) \<and> state (vcpus s' n) = VMM_VCPU_STATE_READY
    \<and> n \<notin> prr_members (rq (scheds s' (hcpu (vcpus s' n))))"
proof -
  let ?h = "hcpu (vcpus s n)" let ?s1 = "upd_vcpu n (\<lambda>v. v\<lparr>resumed := False\<rparr>) s" let ?v1 = "(vcpus s n)\<lparr>resumed := False\<rparr>"
  have nc: "current_vcpu (scheds s ?h) \<noteq> Some n" using assms(4) by (simp add: still_current_def)
  obtain q where q: "rq_detach E ?h n ?s1 = Done (upd_sched ?h (\<lambda>c. c\<lparr>rq := q\<rparr>) ?s1, VMM_OK)" "prr_members q = ready_on s ?h - {n}"
    using prr.leave_queue [OF assms(1,2) refl, of n ?s1 ?v1] assms(3,4) nc by auto
  let ?s' = "upd_vcpu n (\<lambda>v. v\<lparr>reset_count := reset_count v + 1\<rparr>) (upd_sched ?h (\<lambda>c. c\<lparr>rq := q\<rparr>) ?s1)"
  have "change_locked E n VMM_VCPU_STATE_RESET s = Done (?s', arch_init E n, False)"
    using q(1) nc assms(3,5) by (simp add: change_locked_def change_action_def reset_vcpu_def Let_def del: bind_result_eq_Done)
  then show ?thesis using assms(3) q(2) by auto
qed

text \<open>
  The window of a context switch.  When the VCPU at the head of the ready queue is dequeued and still READY at the
  time its lock is taken, the two parts are the whole.
\<close>

lemma switch_window_split:
  assumes "switch_dequeue E h cur s = Done (s1, Inr (nx, ts))" and "nx = cur \<or> state (vcpus s1 nx) = VMM_VCPU_STATE_READY"
  shows "scheduler_next2 E h cur regs s
    = Done (switch_commit E h cur (if STATE_SAVEABLE (state (vcpus s cur)) then Some cur else None) regs nx ts s1)"
proof -
  obtain s0 where s0: "preempt_current E h cur s = Done s0" "rq_dequeue E h s0 = Done (s1, Inr (nx, ts))"
    using assms(1) by (auto simp: switch_dequeue_def)
  then have "dequeue_again (Suc (queued E h s0)) E h cur s0 = Done (s1, nx, ts)" using assms(2) by auto
  then show ?thesis using s0(1) by (simp add: scheduler_next2_def switch_commit_def Let_def del: dequeue_again.simps bind_result_eq_Done)
qed

context ready_queue
begin

lemma dequeued_not_queued:
  assumes i: "sched_inv inv members hw N hosts s" and E: "algo E = A" and c: "current_vcpu (scheds s h) = Some cur"
    and d: "switch_dequeue E h cur s = Done (s1, Inr (nx, ts))"
  shows "nx \<notin> members (rq (scheds s1 h))" "inv (prio_of s1) (rq (scheds s1 h))" "state (vcpus s1 nx) = VMM_VCPU_STATE_READY"
    "hcpu (vcpus s1 nx) = h" "current_vcpu (scheds s1 h) = Some cur" "sched_priv (vcpus s1 nx)" "nx \<noteq> cur \<longrightarrow> vcpus s1 nx = vcpus s nx"
proof -
  obtain s0 where s0: "preempt_current E h cur s = Done s0" "rq_dequeue E h s0 = Done (s1, Inr (nx, ts))"
    using d by (auto simp: switch_dequeue_def)
  have p: "sched_inv inv members hw N hosts s0" "current_vcpu (scheds s0 h) = Some cur" "\<And>m. m \<noteq> cur \<Longrightarrow> vcpus s0 m = vcpus s m"
    using preempt_current_inv [OF i E c] s0(1) c by auto
  have "ready_on s0 h \<noteq> {}"
    using rq_dequeue_none [OF E sched_invD(1) [OF p(1)], of h] s0(2) unfolding sched_invD(2) [OF p(1)] by auto
  then obtain q n where q: "rq_dequeue E h s0 = Done (upd_sched h (\<lambda>c. c\<lparr>rq := q\<rparr>) s0, Inr (n, time_slice (vcpus s0 n)))"
    "n \<in> ready_on s0 h" "inv (prio_of s0) q" "members q = ready_on s0 h - {n}"
    using rq_dequeue_ok [OF E sched_invD(1) [OF p(1)], of h] unfolding sched_invD(2) [OF p(1)] by blast
  have s1: "s1 = upd_sched h (\<lambda>c. c\<lparr>rq := q\<rparr>) s0" "nx = n" using q(1) s0(2) by auto
  have p1: "prio_of s1 = prio_of s0" by (simp add: s1 prio_of_def fun_eq_iff)
  show "nx \<notin> members (rq (scheds s1 h))" "inv (prio_of s1) (rq (scheds s1 h))" using q(3,4) p1 by (simp_all add: s1)
  show "state (vcpus s1 nx) = VMM_VCPU_STATE_READY" "hcpu (vcpus s1 nx) = h" using q(2) by (simp_all add: s1 ready_on_def)
  then show "sched_priv (vcpus s1 nx)" using vcpu_okD(2) [OF sched_invD(5) [OF p(1), of nx]] by (simp add: s1)
  show "current_vcpu (scheds s1 h) = Some cur" "nx \<noteq> cur \<longrightarrow> vcpus s1 nx = vcpus s nx" using p(2,3) by (simp_all add: s1)
qed

lemma pause_in_window:
  assumes i: "sched_inv inv members hw N hosts s" and E: "algo E = A" and c: "current_vcpu (scheds s h) = Some cur"
    and d: "switch_dequeue E h cur s = Done (s1, Inr (nx, ts))" "nx \<noteq> cur" "\<not> resumed (vcpus s nx)"
    and dt: "\<And>prio q v. inv prio q \<Longrightarrow> nx \<notin> members q \<Longrightarrow> sched_priv v \<Longrightarrow> algo_detach A q nx v = Fault"
  shows "vmm_scheduler_state_change E ch frame (Some nx) VMM_VCPU_STATE_PAUSED s1 = Fault"
proof -
  note w = dequeued_not_queued [OF i E c d(1)]
  let ?s2 = "upd_vcpu nx (\<lambda>v. v\<lparr>resumed := False\<rparr>) s1"
  have "rq_detach E h nx ?s2 = Fault" using dt [OF w(2,1), of "vcpus ?s2 nx"] w(6) E by (simp add: rq_detach_def)
  moreover have "current_vcpu (scheds s1 h) \<noteq> Some nx" "\<not> resumed (vcpus s1 nx)" using w(5,7) d(2,3) by auto
  ultimately show ?thesis using w(3,4)
    by (simp add: vmm_scheduler_state_change_def change_locked_def change_action_def Let_def)
qed

end

text \<open>
  A VCPU that another host CPU pauses after its dequeue and before the lock is taken: it is still READY and no longer
  in a ready queue, and \<^verbatim>\<open>rq_detach\<close> removes it a second time, which for both scheduling algorithms follows the
  links of an entry that is in no list and no tree.
\<close>

lemma switch_window_faults:
  assumes "sched_inv prr_inv prr_members hw N hosts s" and "algo E = prr_algo" and "current_vcpu (scheds s h) = Some cur"
    and "switch_dequeue E h cur s = Done (s1, Inr (nx, ts))" "nx \<noteq> cur" "\<not> resumed (vcpus s nx)"
  shows "vmm_scheduler_state_change E ch frame (Some nx) VMM_VCPU_STATE_PAUSED s1 = Fault"
  using assms by (rule prr.pause_in_window) (simp add: prr_algo_def prr_rq_detach_def prr_linked_iff)

lemma switch_window_faults_prm:
  assumes "sched_inv prm_inv prm_members hw N hosts s" and "algo E = prm_algo" and "current_vcpu (scheds s h) = Some cur"
    and "switch_dequeue E h cur s = Done (s1, Inr (nx, ts))" "nx \<noteq> cur" "\<not> resumed (vcpus s nx)"
  shows "vmm_scheduler_state_change E ch frame (Some nx) VMM_VCPU_STATE_PAUSED s1 = Fault"
  using assms by (rule prm.pause_in_window) (auto simp: prm_algo_def prm_rq_detach_def prm_members_def Let_def)

text \<open>The window is reached: VCPU 1 is dequeued to follow the idle VCPU.\<close>

definition demo_window :: "prr_rq system" where
  "demo_window = demo_system\<lparr>vcpus := (vcpus demo_system)(0 := demo_vcpu VMM_VCPU_STATE_RUNNING 0),
     scheds := (scheds demo_system)(0 := demo_ctrl ((\<lambda>p. [])(3 := [1])) (Some 0) (Some 0) (Some 7))\<rparr>"

lemma demo_window_inv: "sched_inv prr_inv prr_members irq_demo_arch 2 {0} demo_window"
  unfolding sched_inv_def prr_inv_def prr_members_def vcpu_ok_def idle_ok_def is_live_def
  by (auto simp: demo_window_def demo_system_def demo_defs prio_of_def ready_on_def VMM_VCPU_MAX_PRIORITY_def split: if_splits)

lemma demo_window_faults:
  "\<exists>s1 ts. switch_dequeue (demo_env prr_algo) 0 0 demo_window = Done (s1, Inr (1, ts))
    \<and> vmm_scheduler_state_change (demo_env prr_algo) 1 7 (Some 1) VMM_VCPU_STATE_PAUSED s1 = Fault"
proof -
  have "\<exists>s1 ts. switch_dequeue (demo_env prr_algo) 0 0 demo_window = Done (s1, Inr (1, ts))"
    by (simp add: switch_dequeue_def preempt_current_def rq_enqueue_def rq_dequeue_def demo_window_def demo_system_def demo_defs demo_env_def
        prr_algo_def prr_rq_enqueue_def prr_rq_dequeue_def prr_linked_def VMM_VCPU_MAX_PRIORITY_def Let_def numeral_eq_Suc)
  then show ?thesis using switch_window_faults [OF demo_window_inv, of "demo_env prr_algo" 0 0]
    by (auto simp: demo_env_def demo_window_def demo_system_def demo_defs)
qed

end
