(* ===== verification/WaitProps.thy ===== *)
theory WaitProps
  imports Waitqueue SchedProps
begin

text \<open>
  Properties of the wait queues: their lists, counters and the links in the VCPUs stay consistent over every
  sequence of wait queue and scheduler operations; sleeping gives up the host CPU and the lock; waking makes
  every sleeper runnable; and what goes wrong in the situations that the hypotheses exclude.
\<close>

section \<open>The scheduler does not touch the links\<close>

text \<open>Nor does it change whether a VCPU is normal and to which guest it belongs.\<close>

definition vlinks :: "vmm_vcpu \<Rightarrow> vmm_vcpu \<Rightarrow> bool" where
  "vlinks v v' \<longleftrightarrow> wq_lock v' = wq_lock v \<and> wq_priv v' = wq_priv v \<and> is_normal v' = is_normal v \<and> guest v' = guest v"

lemma vlinks_refl [simp]: "vlinks v v"
  by (simp add: vlinks_def)

definition wlinks :: "'rq system \<Rightarrow> 'rq system \<Rightarrow> bool" where
  "wlinks s s' \<longleftrightarrow> (\<forall>m. vlinks (vcpus s m) (vcpus s' m))"

lemma wlinksD:
  assumes "wlinks s s'"
  shows "wq_lock (vcpus s' m) = wq_lock (vcpus s m)" "wq_priv (vcpus s' m) = wq_priv (vcpus s m)"
    "is_normal (vcpus s' m) = is_normal (vcpus s m)" "guest (vcpus s' m) = guest (vcpus s m)"
  using assms by (simp_all add: wlinks_def vlinks_def)

lemma wlinks_refl [simp]: "wlinks s s"
  by (simp add: wlinks_def)

lemma wlinks_trans: "wlinks s s1 \<Longrightarrow> wlinks s1 s2 \<Longrightarrow> wlinks s s2"
  by (simp add: wlinks_def vlinks_def)

lemma framed_wlinks: "framed s s' \<Longrightarrow> wlinks s s'"
  by (simp add: wlinks_def vlinks_def framedD)

lemma wlinks_upd [intro]:
  "wlinks s s1 \<Longrightarrow> wq_lock (f (vcpus s1 n)) = wq_lock (vcpus s1 n) \<and> wq_priv (f (vcpus s1 n)) = wq_priv (vcpus s1 n)
     \<and> is_normal (f (vcpus s1 n)) = is_normal (vcpus s1 n) \<and> guest (f (vcpus s1 n)) = guest (vcpus s1 n) \<Longrightarrow> wlinks s (upd_vcpu n f s1)"
  by (auto simp: wlinks_def vlinks_def)

lemma wlinks_other [simp]:
  "wlinks s (upd_sched h g s1) = wlinks s s1" "wlinks s (log_event e s1) = wlinks s s1" "wlinks s (s1\<lparr>ipis := x\<rparr>) = wlinks s s1"
  "wlinks (s1\<lparr>ipis := x\<rparr>) s = wlinks s1 s" "wlinks s (fst (vmm_scheduler_force_resched E h s1)) = wlinks s s1"
  by (simp_all add: wlinks_def)

lemma irq_process_links_all:
  "result_all (vlinks v) (vmm_vcpu_irq_process hw n v)"
  unfolding vmm_vcpu_irq_process_def Let_def vlinks_def
  by (simp del: bind_result_eq_Done, intro impI, rule result_allI, case_tac x, case_tac a) (simp_all del: bind_result_eq_Done)

lemmas irq_process_links = result_allD [OF irq_process_links_all, unfolded vlinks_def]

lemma irq_init_links:
  "vmm_vcpu_irq_init hw mem n v = Done (v', rc) \<Longrightarrow> vlinks v v'"
  by (auto simp: vmm_vcpu_irq_init_def vlinks_def Let_def split: if_splits option.splits)

lemma rq_ops_links:
  "rq_enqueue E h n s = Done (s', rc) \<Longrightarrow> wlinks s s'" "rq_detach E h n s = Done (s', rc) \<Longrightarrow> wlinks s s'"
  by (auto dest!: rq_ops_framed intro: framed_wlinks)

lemma reset_vcpu_links: "reset_vcpu E n s = Done (s', rc) \<Longrightarrow> wlinks s s'"
  by (auto simp: reset_vcpu_def Let_def wlinks_def vlinks_def dest!: irq_init_links split: if_splits)

lemma change_action_links:
  assumes "change_action E n new s = Done (s1, rc, p, skip)"
  shows "wlinks s s1"
proof (cases "new = VMM_VCPU_STATE_RESET \<and> state (vcpus s n) \<noteq> VMM_VCPU_STATE_UNKNOWN \<and> state (vcpus s n) \<noteq> VMM_VCPU_STATE_RESET")
  case True
  let ?s0 = "upd_vcpu n (\<lambda>v. v\<lparr>resumed := False\<rparr>) s"
  have 0: "wlinks s ?s0" by auto
  obtain s2 rc2 where s2: "(if current_vcpu (scheds s (hcpu (vcpus s n))) \<noteq> Some n \<and> state (vcpus s n) = VMM_VCPU_STATE_READY
      then rq_detach E (hcpu (vcpus s n)) n ?s0 else Done (?s0, VMM_OK)) = Done (s2, rc2)"
    "s1 = s2 \<or> (\<exists>rc'. reset_vcpu E n s2 = Done (s1, rc'))"
    using assms True by (auto simp: change_action_def Let_def split: if_splits)
  have "wlinks s s2" using s2(1) 0 rq_ops_links(2) wlinks_trans by (fastforce split: if_splits)
  then show ?thesis using s2(2) reset_vcpu_links wlinks_trans by blast
next
  case False
  have d: "wlinks s s2" if "rq_detach E h n (upd_vcpu n (\<lambda>v. v\<lparr>resumed := False\<rparr>) s) = Done (s2, rc)" for s2 rc h
    using wlinks_trans [OF wlinks_upd [OF wlinks_refl] rq_ops_links(2) [OF that]] by simp
  show ?thesis using assms False
    by (cases new) (auto simp: change_action_def Let_def vmm_schedalgo_vcpu_cleanup_def vmm_schedalgo_vcpu_setup_def
        dest: rq_ops_links d split: if_splits prod.splits)
qed

lemma state_change_links:
  assumes "vmm_scheduler_state_change E ch frame n' new s = Done (s', rc, t)"
  shows "wlinks s s'"
proof (cases n')
  case (Some n)
  obtain s1 rc1 p where l: "change_locked E n new s = Done (s1, rc1, p)"
    using assms Some by (auto simp: vmm_scheduler_state_change_def Let_def)
  then have 1: "wlinks s s1"
    using change_action_links by (fastforce simp: change_locked_def split: if_splits)
  have sw: "wlinks s s2" if "vmm_scheduler_switch E h r s1 = Done s2" for h r s2
    using wlinks_trans [OF 1 framed_wlinks [OF switch_framed [OF that]]] .
  let ?vh = "hcpu (vcpus s n)"
  have fr: "wlinks s (fst (vmm_scheduler_force_resched E ?vh s1))" using 1 by simp
  have "s' = s1 \<or> s' = upd_sched ?vh (\<lambda>c. c\<lparr>yield_on_irq_exit := True\<rparr>) s1 \<or> (\<exists>h r. vmm_scheduler_switch E h r s1 = Done s')
      \<or> s' = fst (vmm_scheduler_force_resched E ?vh s1)"
    using assms Some l by (auto simp: vmm_scheduler_state_change_def vmm_scheduler_preempt_orphan_def Let_def
        split: option.splits if_splits prod.splits)
  then show ?thesis using 1 fr sw by auto
qed (use assms in \<open>simp add: vmm_scheduler_state_change_def\<close>)

lemma irq_exit_links:
  assumes "vmm_scheduler_irq_exit E h regs t s = Done s'"
  shows "wlinks s s'"
proof (cases "current_vcpu (scheds s h)")
  case (Some n)
  let ?g = "\<lambda>c. (if irq_context c then c\<lparr>irq_process_ns := irq_process_ns c + (t - irq_enter_tstamp c)\<rparr> else c)
      \<lparr>irq_context := False, irq_regs := None\<rparr>"
  obtain s2 v where 2: "(if state (vcpus s n) \<noteq> VMM_VCPU_STATE_RUNNING \<or> yield_on_irq_exit (scheds s h)
             then bind_result (vmm_scheduler_switch E h (irq_regs (scheds s h)) s) (\<lambda>s1.
                    Done (upd_sched h (\<lambda>c. c\<lparr>yield_on_irq_exit := False\<rparr>) s1))
             else Done s) = Done s2"
    "vmm_vcpu_irq_process (irq_hw E) n (vcpus s2 n) = Done v"
    "s' = upd_sched h ?g (log_event (IrqProcess h n regs) (upd_vcpu n (\<lambda>_. v) s2))"
    using assms Some unfolding vmm_scheduler_irq_exit_def by auto
  have "wlinks s s2" using 2(1) by (auto split: if_splits dest!: switch_framed intro: framed_wlinks)
  then have "wlinks s (upd_vcpu n (\<lambda>_. v) s2)" using irq_process_links [OF 2(2)] by blast
  then show ?thesis using 2(3) by simp
qed (use assms in \<open>simp add: vmm_scheduler_irq_exit_def\<close>)

lemma migrate_links: "scheduler_ipi_migrate_vcpu E h n g s = Done s' \<Longrightarrow> wlinks s s'"
proof -
  assume a: "scheduler_ipi_migrate_vcpu E h n g s = Done s'"
  have "wlinks s s2" if "rq_detach E h n s = Done (s1, rc)" "rq_enqueue E g n (upd_vcpu n (\<lambda>v. v\<lparr>hcpu := g\<rparr>) s1) = Done (s2, rc')" for s1 s2 rc rc'
  proof -
    have "wlinks s (upd_vcpu n (\<lambda>v. v\<lparr>hcpu := g\<rparr>) s1)" using rq_ops_links(2) [OF that(1)] by auto
    then show ?thesis using rq_ops_links(1) [OF that(2)] wlinks_trans by blast
  qed
  then show ?thesis using a by (auto simp: scheduler_ipi_migrate_vcpu_def split: if_splits)
qed

lemma run_op_links: "run_op E h op s = Done s' \<Longrightarrow> wlinks s s'"
proof (cases op)
  case (Op_state_change frame n new)
  moreover assume "run_op E h op s = Done s'"
  ultimately show ?thesis using state_change_links by auto
next
  case (Op_yield frame)
  moreover assume "run_op E h op s = Done s'"
  ultimately show ?thesis using state_change_links by (auto simp: vmm_scheduler_yield_def split: if_splits option.splits)
next
  case (Op_set_hcpu n k)
  moreover assume "run_op E h op s = Done s'"
  ultimately show ?thesis by (auto simp: vmm_scheduler_set_hcpu_def Let_def split: if_splits dest: migrate_links)
next
  case Op_ipi
  moreover assume "run_op E h op s = Done s'"
  ultimately show ?thesis by (auto simp: deliver_ipi_def split: option.splits prod.splits ipi.splits dest: migrate_links)
next
  case (Op_irq_exit regs t)
  moreover assume "run_op E h op s = Done s'"
  ultimately show ?thesis using irq_exit_links by auto
next
  case Op_timer
  moreover assume "run_op E h op s = Done s'"
  ultimately show ?thesis by (auto simp: scheduler_timer_event_def split: if_splits dest: switch_framed intro: framed_wlinks)
next
  case Op_sample
  moreover assume "run_op E h op s = Done s'"
  moreover have "wlinks s (fst (vmm_manager_vcpu_stats (now E) n' s))" for n'
    by (simp add: vmm_manager_vcpu_stats_def wlinks_def vlinks_def split: option.split vcpu_state.split)
  ultimately show ?thesis by (auto simp: scheduler_sample_event_def Let_def)
qed (auto simp: vmm_scheduler_irq_enter_def vmm_scheduler_set_sample_period_def intro: framed_wlinks preempt_framed)

section \<open>Consistency of the wait queues\<close>

text \<open>
  Every list has no repetitions and its counter is its length; a VCPU is in the list of a wait queue exactly when
  its context names that queue, and both pointers of the context agree.
\<close>

definition wq_inv :: "'rq wsys \<Rightarrow> bool" where
  "wq_inv w \<longleftrightarrow> (\<forall>q. distinct (vcpu_list (wqs w q)) \<and> unat (vcpu_count (wqs w q)) = length (vcpu_list (wqs w q)))
     \<and> (\<forall>q n. n \<in> set (vcpu_list (wqs w q)) \<longleftrightarrow> wq_priv (vcpus (ksys w) n) = Some q)
     \<and> (\<forall>n. wq_lock (vcpus (ksys w) n) = wq_priv (vcpus (ksys w) n))"

lemma wq_invD:
  assumes "wq_inv w"
  shows "distinct (vcpu_list (wqs w q))" "unat (vcpu_count (wqs w q)) = length (vcpu_list (wqs w q))"
    "n \<in> set (vcpu_list (wqs w q)) \<longleftrightarrow> wq_priv (vcpus (ksys w) n) = Some q" "wq_lock (vcpus (ksys w) n) = wq_priv (vcpus (ksys w) n)"
  using assms unfolding wq_inv_def by blast+

lemma wq_inv_links: "wq_inv w \<Longrightarrow> wqs w' = wqs w \<Longrightarrow> wlinks (ksys w) (ksys w') \<Longrightarrow> wq_inv w'"
  by (simp add: wq_inv_def wlinksD)

lemma wq_inv_unlink:
  assumes i: "wq_inv w" and u: "waitqueue_unlink wq n w = Done w'"
  shows "wq_inv w'" "wake_event w' = wake_event w"
proof -
  let ?q = "wqs w wq"
  have n: "n \<in> set (vcpu_list ?q)" using u by (auto simp: waitqueue_unlink_def Let_def split: if_splits)
  then have c: "vcpu_count ?q \<noteq> 0" using wq_invD(2) [OF i, of wq] by (cases "vcpu_list ?q") auto
  then have cnt: "unat (vcpu_count ?q - 1) = length (remove1 n (vcpu_list ?q))"
    using wq_invD(2) [OF i, of wq] n by (simp add: unat_sub_one length_remove1)
  have w': "w' = w\<lparr>ksys := upd_vcpu n (\<lambda>v. v\<lparr>wq_lock := None, wq_priv := None\<rparr>) (ksys w),
      wqs := (wqs w)(wq := ?q\<lparr>vcpu_list := remove1 n (vcpu_list ?q), vcpu_count := vcpu_count ?q - 1\<rparr>)\<rparr>"
    using u n c by (simp add: waitqueue_unlink_def Let_def)
  have other: "n \<notin> set (vcpu_list (wqs w q))" if "q \<noteq> wq" for q using n that unfolding wq_invD(3) [OF i] by auto
  show "wq_inv w'"
    unfolding wq_inv_def w' using wq_invD [OF i] cnt other by (auto simp: distinct_remove1)
  show "wake_event w' = wake_event w" by (simp add: w')
qed

lemma wq_inv_link:
  assumes i: "wq_inv w" and n: "wq_priv (vcpus (ksys w) n) = None" and b: "length (vcpu_list (wqs w wq)) + 1 < 2 ^ 32"
  shows "wq_inv (waitqueue_link t wq n timeout w)"
proof -
  have "n \<notin> set (vcpu_list (wqs w q))" for q using n wq_invD(3) [OF i, of n q] by simp
  moreover have "unat (vcpu_count (wqs w wq) + 1) = Suc (length (vcpu_list (wqs w wq)))"
    using unat_add_one [of "vcpu_count (wqs w wq)"] b wq_invD(2) [OF i, of wq] by simp
  ultimately show ?thesis unfolding wq_inv_def waitqueue_link_def Let_def using wq_invD [OF i] by auto
qed

text \<open>The operations on wait queues, and those of the scheduler in between.\<close>

datatype wq_op =
    Wq_sleep nat nat "u64 option" | Wq_resume nat nat "u64 option" vmm_rc | Wq_forced_remove nat | Wq_wake nat nat
  | Wq_wakefirst nat nat | Wq_wakeall nat nat | Wq_sched sched_op

fun run_wq :: "bool \<Rightarrow> 'rq sched_env \<Rightarrow> nat \<Rightarrow> wq_op \<Rightarrow> 'rq wsys \<Rightarrow> 'rq wsys result" where
  "run_wq smp E h (Wq_sleep frame wq t) w = bind_result (vmm_waitqueue_sleep_timeout smp E h frame wq t w) (\<lambda>(w1, _). Done w1)"
| "run_wq smp E h (Wq_resume wq n t rc) w = bind_result (vmm_waitqueue_sleep_resume smp E h wq n t rc w) (\<lambda>(w1, _). Done w1)"
| "run_wq smp E h (Wq_forced_remove n) w = bind_result (vmm_waitqueue_forced_remove smp h n w) (\<lambda>(w1, _). Done w1)"
| "run_wq smp E h (Wq_wake frame n) w =
     bind_result (vmm_waitqueue_wake smp E h frame (Some n) (ksys w)) (\<lambda>(s, _). Done (w\<lparr>ksys := s\<rparr>))"
| "run_wq smp E h (Wq_wakefirst frame wq) w = bind_result (vmm_waitqueue_wakefirst smp E h frame wq w) (\<lambda>(w1, _). Done w1)"
| "run_wq smp E h (Wq_wakeall frame wq) w = bind_result (vmm_waitqueue_wakeall smp E h frame wq w) (\<lambda>(w1, _). Done w1)"
| "run_wq smp E h (Wq_sched op) w = bind_result (run_op E h op (ksys w)) (\<lambda>s. Done (w\<lparr>ksys := s\<rparr>))"

text \<open>The counter of a wait queue has 32 bits.\<close>

fun wq_op_ok :: "wq_op \<Rightarrow> 'rq wsys \<Rightarrow> bool" where
  "wq_op_ok (Wq_sleep frame wq t) w \<longleftrightarrow> length (vcpu_list (wqs w wq)) + 1 < 2 ^ 32"
| "wq_op_ok _ w = True"

inductive wq_reach :: "bool \<Rightarrow> 'rq wsys \<Rightarrow> 'rq wsys \<Rightarrow> bool" for smp w0 where
  start: "wq_reach smp w0 w0"
| step: "wq_reach smp w0 w \<Longrightarrow> wq_op_ok op w \<Longrightarrow> run_wq smp E h op w = Done w' \<Longrightarrow> wq_reach smp w0 w'"

lemma spin_links:
  "vmm_spin_lock smp h l s = Done s' \<Longrightarrow> wlinks s s'" "wlinks s (vmm_spin_unlock h l s1) = wlinks s s1"
  "state_change_relock smp h n s = Done s' \<Longrightarrow> wlinks s s'"
proof -
  have lock: "vmm_spin_lock smp h l s = Done s' \<Longrightarrow> wlinks s s'" for l
    by (auto simp: vmm_spin_lock_def split: if_splits intro: framed_wlinks preempt_framed)
  then show "vmm_spin_lock smp h l s = Done s' \<Longrightarrow> wlinks s s'" .
  show "wlinks s (vmm_spin_unlock h l s1) = wlinks s s1"
    using framedD(1-3,10) [OF spin_framed(2) [where s = s1 and h = h and l = l]] by (simp add: wlinks_def vlinks_def)
  show "state_change_relock smp h n s = Done s' \<Longrightarrow> wlinks s s'"
    by (auto simp: state_change_relock_def split: option.splits dest: lock)
qed

lemma wake_links: "waitqueue_wake smp E h frame n s = Done (s', rc) \<Longrightarrow> wlinks s s'"
  by (auto simp: waitqueue_wake_def split: if_splits dest!: state_change_links spin_links(3) intro: wlinks_trans)

lemma wake_each_links: "wake_each smp E h frame ns s = Done (s', rc) \<Longrightarrow> wlinks s s'"
  by (induction ns arbitrary: s) (auto split: if_splits dest!: wake_links intro: wlinks_trans)

lemma wake_ops_links:
  "waitqueue_wakefirst smp E h frame wq w = Done (w', rc) \<Longrightarrow> wqs w' = wqs w \<and> wlinks (ksys w) (ksys w')"
  "waitqueue_wakeall smp E h frame wq w = Done (w', rc) \<Longrightarrow> wqs w' = wqs w \<and> wlinks (ksys w) (ksys w')"
  by (auto simp: waitqueue_wakefirst_def waitqueue_wakeall_def split: if_splits list.splits dest: wake_links wake_each_links)

lemma wq_inv_spin:
  assumes "wq_inv w" and "vmm_spin_lock smp h l (ksys w) = Done s"
  shows "wq_inv (w\<lparr>ksys := s\<rparr>)"
  using wq_inv_links [OF assms(1)] spin_links(1) [OF assms(2)] by simp

lemma wq_inv_unlock: "wq_inv w \<Longrightarrow> wq_inv (w\<lparr>ksys := vmm_spin_unlock h l (ksys w)\<rparr>)"
  by (rule wq_inv_links [where w = w]) (simp_all add: spin_links(2))

lemma with_wq_lock_inv:
  assumes i: "wq_inv w" and r: "with_wq_lock smp h wq f w = Done (w', x)"
    and f: "\<And>v v' y. f v = Done (v', y) \<Longrightarrow> wqs v' = wqs v \<and> wlinks (ksys v) (ksys v')"
  shows "wq_inv w'"
proof -
  obtain s w1 where 1: "vmm_spin_lock smp h wq (ksys w) = Done s" "f (w\<lparr>ksys := s\<rparr>) = Done (w1, x)" "w' = w1\<lparr>ksys := vmm_spin_unlock h wq (ksys w1)\<rparr>"
    using r by (auto simp: with_wq_lock_def)
  then show ?thesis using wq_inv_links [OF wq_inv_spin [OF i 1(1)], of w1] f [OF 1(2)] by (auto intro: wq_inv_unlock)
qed

lemma sleep_end_inv:
  assumes "wq_inv w" and "waitqueue_sleep_end E wq n timeout rc w = Done (w', r)"
  shows "wq_inv w'"
proof -
  obtain w1 where u: "waitqueue_unlink wq n w = Done w1" using assms(2) by (auto simp: waitqueue_sleep_end_def)
  then have "wqs w' = wqs w1 \<and> ksys w' = ksys w1"
    using assms(2) by (auto simp: waitqueue_sleep_end_def Let_def split: option.splits if_splits)
  then show ?thesis using wq_inv_links [OF wq_inv_unlink(1) [OF assms(1) u], of w'] by simp
qed

lemma sleep_resume_inv:
  assumes "wq_inv w" and "waitqueue_sleep_resume smp E h wq n timeout rc w = Done (w', r)"
  shows "wq_inv w'"
proof -
  obtain s where s: "state_change_relock smp h n (ksys w) = Done s" "waitqueue_sleep_end E wq n timeout rc (w\<lparr>ksys := s\<rparr>) = Done (w', r)"
    using assms(2) by (auto simp: waitqueue_sleep_resume_def)
  show ?thesis using sleep_end_inv [OF _ s(2)] wq_inv_links [OF assms(1), of "w\<lparr>ksys := s\<rparr>"] spin_links(3) [OF s(1)] by simp
qed

lemma sleep_locked_inv:
  assumes i: "wq_inv w" and b: "length (vcpu_list (wqs w wq)) + 1 < 2 ^ 32"
    and r: "waitqueue_sleep_locked smp E h frame wq timeout w = Done (w', p)"
  shows "wq_inv w'"
proof (cases "w' = w")
  case False
  then obtain n s rc tr where n: "wq_priv (vcpus (ksys w) n) = None"
    and s: "vmm_scheduler_state_change E h frame (Some n) VMM_VCPU_STATE_PAUSED (ksys (waitqueue_link (now E) wq n timeout w)) = Done (s, rc, tr)"
    and d: "(let w2 = (waitqueue_link (now E) wq n timeout w)\<lparr>ksys := s\<rparr>
        in if tr \<and> current_vcpu (scheds s h) \<noteq> Some n then Done (w2, Suspended n rc)
           else bind_result (if tr then waitqueue_sleep_resume smp E h wq n timeout rc w2 else waitqueue_sleep_end E wq n timeout rc w2)
             (\<lambda>(w3, rc', timeout'). Done (w3, Returned rc' timeout'))) = Done (w', p)"
    using r unfolding waitqueue_sleep_locked_def by (auto simp: Let_def split: if_splits option.splits)
  let ?w2 = "(waitqueue_link (now E) wq n timeout w)\<lparr>ksys := s\<rparr>"
  have "wq_inv ?w2" using wq_inv_links [OF wq_inv_link [OF i n b], of ?w2] state_change_links [OF s] by simp
  then show ?thesis using d by (auto simp: Let_def split: if_splits dest: sleep_resume_inv sleep_end_inv)
qed (use i in simp)

lemma run_wq_inv:
  assumes i: "wq_inv w" and ok: "wq_op_ok op w" and r: "run_wq smp E h op w = Done w'"
  shows "wq_inv w'"
proof (cases op)
  case (Wq_sleep frame wq t)
  then obtain s w1 p where s: "vmm_spin_lock smp h wq (ksys w) = Done s" "waitqueue_sleep_locked smp E h frame wq t (w\<lparr>ksys := s\<rparr>) = Done (w1, p)"
    "w' = (case p of Returned rc t \<Rightarrow> w1\<lparr>ksys := vmm_spin_unlock h wq (ksys w1)\<rparr> | Suspended n rc \<Rightarrow> w1)"
    using r by (auto simp: vmm_waitqueue_sleep_timeout_def)
  then show ?thesis using sleep_locked_inv [OF wq_inv_spin [OF i s(1)] _ s(2)] ok Wq_sleep by (auto intro: wq_inv_unlock split: progress.split)
next
  case (Wq_resume wq n t rc)
  then show ?thesis using r i by (auto simp: vmm_waitqueue_sleep_resume_def intro!: wq_inv_unlock dest: sleep_resume_inv)
next
  case (Wq_forced_remove n)
  show ?thesis
  proof (cases "wq_priv (vcpus (ksys w) n)")
    case (Some wq)
    let ?e = "(wake_event w)(n := map_option (\<lambda>(e, a). (e, False)) (wake_event w n))"
    obtain s w1 where s: "vmm_spin_lock smp h wq (ksys w) = Done s" "waitqueue_unlink wq n (w\<lparr>ksys := s, wake_event := ?e\<rparr>) = Done w1"
      "w' = w1\<lparr>ksys := vmm_spin_unlock h wq (ksys w1)\<rparr>"
      using r Wq_forced_remove Some by (auto simp: vmm_waitqueue_forced_remove_def)
    have "wq_inv (w\<lparr>ksys := s, wake_event := ?e\<rparr>)" using wq_inv_links [OF wq_inv_spin [OF i s(1)]] by simp
    then show ?thesis using wq_inv_unlink(1) [OF _ s(2)] s(3) wq_inv_unlock by blast
  qed (use r Wq_forced_remove i in \<open>simp add: vmm_waitqueue_forced_remove_def\<close>)
next
  case (Wq_wake frame n)
  then obtain s rc where s: "vmm_waitqueue_wake smp E h frame (Some n) (ksys w) = Done (s, rc)" "w' = w\<lparr>ksys := s\<rparr>" using r by auto
  have "wlinks (ksys w) s" using s(1)
    by (auto simp: vmm_waitqueue_wake_def spin_links(2) split: if_splits option.splits dest!: spin_links(1) wake_links intro: wlinks_trans)
  then show ?thesis using wq_inv_links [OF i, of w'] s(2) by simp
next
  case (Wq_wakefirst frame wq)
  then show ?thesis using r with_wq_lock_inv [OF i _ wake_ops_links(1)] by (auto simp: vmm_waitqueue_wakefirst_def)
next
  case (Wq_wakeall frame wq)
  then show ?thesis using r with_wq_lock_inv [OF i _ wake_ops_links(2)] by (auto simp: vmm_waitqueue_wakeall_def)
next
  case (Wq_sched op')
  then obtain s where s: "run_op E h op' (ksys w) = Done s" "w' = w\<lparr>ksys := s\<rparr>" using r by auto
  then show ?thesis using wq_inv_links [OF i, of w'] run_op_links [OF s(1)] by simp
qed

lemma wq_reach_inv: "wq_reach smp w0 w \<Longrightarrow> wq_inv w0 \<Longrightarrow> wq_inv w"
  by (induction rule: wq_reach.induct) (auto dest: run_wq_inv)

section \<open>Properties\<close>

text \<open>A host CPU with the idle VCPU 0, and VCPU 1 which runs outside interrupts; wait queue 5 is empty.\<close>

definition demo_thread :: "prr_rq system" where
  "demo_thread = \<lparr>vcpus = (\<lambda>n. if n = 0 then demo_vcpu VMM_VCPU_STATE_READY 0
       else if n = 1 then demo_vcpu VMM_VCPU_STATE_RUNNING 3 else demo_vcpu VMM_VCPU_STATE_UNKNOWN 0),
     scheds = (\<lambda>h. if h = 0 then demo_ctrl ((\<lambda>p. [])(0 := [0])) (Some 1) (Some 0) None else demo_ctrl (\<lambda>p. []) None None None),
     online = (\<lambda>h. h = 0), ipis = [], trace = []\<rparr>"

definition demo_wsys :: "prr_rq wsys" where
  "demo_wsys = \<lparr>ksys = demo_thread, wqs = (\<lambda>q. INIT_WAITQUEUE), wake_event = (\<lambda>n. None)\<rparr>"

text \<open>In interrupt context on host CPU 0, where VCPU 0 runs, with VCPU 1 asleep in wait queue 5.\<close>

definition demo_asleep :: "prr_rq wsys" where
  "demo_asleep = \<lparr>ksys = \<lparr>vcpus = (\<lambda>n. if n = 0 then demo_vcpu VMM_VCPU_STATE_RUNNING 0
       else if n = 1 then (demo_vcpu VMM_VCPU_STATE_PAUSED 3)\<lparr>wq_lock := Some 5, wq_priv := Some 5\<rparr> else demo_vcpu VMM_VCPU_STATE_UNKNOWN 0),
     scheds = (\<lambda>h. if h = 0 then demo_ctrl (\<lambda>p. []) (Some 0) (Some 0) (Some 7) else demo_ctrl (\<lambda>p. []) None None None),
     online = (\<lambda>h. h = 0), ipis = [], trace = []\<rparr>,
     wqs = (\<lambda>q. INIT_WAITQUEUE)(5 := \<lparr>vcpu_list = [1], vcpu_count = 1\<rparr>), wake_event = (\<lambda>n. None)\<rparr>"

lemma demo_thread_inv: "sched_inv prr_inv prr_members irq_demo_arch 2 {0} demo_thread"
  unfolding sched_inv_def prr_inv_def prr_members_def vcpu_ok_def idle_ok_def is_live_def
  by (auto simp: demo_thread_def demo_defs prio_of_def ready_on_def VMM_VCPU_MAX_PRIORITY_def split: if_splits)

lemma demo_asleep_inv: "sched_inv prr_inv prr_members irq_demo_arch 2 {0} (ksys demo_asleep)"
  unfolding sched_inv_def prr_inv_def prr_members_def vcpu_ok_def idle_ok_def is_live_def
  by (auto simp: demo_asleep_def demo_defs prio_of_def ready_on_def VMM_VCPU_MAX_PRIORITY_def split: if_splits)

lemma demo_wsys_wq_inv: "wq_inv demo_wsys"
  by (simp add: wq_inv_def demo_wsys_def INIT_WAITQUEUE_def demo_thread_def demo_defs)

text \<open>
  C7. Consistency of the wait queues.  From a consistent state, after any sequence of sleep, resume, forced
  removal, wake and scheduler operations, on any host CPUs, a VCPU is in the list of at most one wait queue,
  once, namely of the one its context points to; the counter that \<^verbatim>\<open>vmm_waitqueue_count\<close> returns is the number of
  VCPUs in the list; and a VCPU that is in no list has no lock for the context switch to release.
\<close>

theorem waitqueues_consistent:
  assumes "wq_inv w0" and "wq_reach smp w0 w"
  shows "unat (vmm_waitqueue_count q w) = card (set (vcpu_list (wqs w q))) \<and> distinct (vcpu_list (wqs w q))
    \<and> (n \<in> set (vcpu_list (wqs w q)) \<longleftrightarrow> wq_priv (vcpus (ksys w) n) = Some q)
    \<and> (n \<in> set (vcpu_list (wqs w q)) \<longrightarrow> wq_lock (vcpus (ksys w) n) = Some q \<and> (\<forall>q'. q' \<noteq> q \<longrightarrow> n \<notin> set (vcpu_list (wqs w q'))))
    \<and> ((\<forall>q'. n \<notin> set (vcpu_list (wqs w q'))) \<longrightarrow> wq_lock (vcpus (ksys w) n) = None)"
proof -
  note i = wq_reach_inv [OF assms(2,1)]
  have "wq_lock (vcpus (ksys w) n) = None" if "\<forall>q'. wq_priv (vcpus (ksys w) n) \<noteq> Some q'"
    using that wq_invD(4) [OF i, of n] by (metis option.exhaust)
  then show ?thesis using wq_invD(1,2,4) [OF i] by (auto simp: vmm_waitqueue_count_def distinct_card wq_invD(3) [OF i])
qed

theorem waitqueues_consistent_witness:
  "unat (vmm_waitqueue_count 5 demo_wsys) = card (set (vcpu_list (wqs demo_wsys 5))) \<and> (1 \<in> set (vcpu_list (wqs demo_wsys 5))
     \<longleftrightarrow> wq_priv (vcpus (ksys demo_wsys) 1) = Some 5)"
  using waitqueues_consistent [OF demo_wsys_wq_inv wq_reach.start] by blast

text \<open>
  C8. Sleeping.  A running orphan VCPU that holds no lock and has no pending wake-up sleeps on a wait queue: it is
  PAUSED, last in the list, counted, and its timeout, if any, is armed; the context switch has released the lock
  of the queue; another VCPU runs on the host CPU; and the invariant of the scheduler is kept.
\<close>

theorem vmm_waitqueue_sleep_suspends:
  assumes "sched_inv prr_inv prr_members hw N hosts (ksys w)" and "env_ok prr_algo hw E" and "h \<in> hosts"
    and "current_vcpu (scheds (ksys w) h) = Some n" "state (vcpus (ksys w) n) = VMM_VCPU_STATE_RUNNING" "\<not> resumed (vcpus (ksys w) n)"
    and "vmm_scheduler_orphan_context h (ksys w)" "\<not> is_idle hosts (ksys w) n"
    and "wq_priv (vcpus (ksys w) n) = None" "preempt_count (vcpus (ksys w) n) = 0" "\<not> lock_held wq (trace (ksys w))"
    and "timeout \<noteq> Some 0"
  shows "\<exists>w' nx. vmm_waitqueue_sleep_timeout smp E h frame wq timeout w = Done (w', Suspended n VMM_OK)
    \<and> sched_inv prr_inv prr_members hw N hosts (ksys w') \<and> state (vcpus (ksys w') n) = VMM_VCPU_STATE_PAUSED
    \<and> vcpu_list (wqs w' wq) = vcpu_list (wqs w wq) @ [n] \<and> vcpu_count (wqs w' wq) = vcpu_count (wqs w wq) + 1
    \<and> wq_priv (vcpus (ksys w') n) = Some wq \<and> wake_event w' n = map_option (\<lambda>d. (now E + d, True)) timeout
    \<and> \<not> lock_held wq (trace (ksys w'))
    \<and> current_vcpu (scheds (ksys w') h) = Some nx \<and> nx \<noteq> n \<and> state (vcpus (ksys w') nx) = VMM_VCPU_STATE_RUNNING"
proof -
  obtain s' nx where "vmm_waitqueue_sleep_timeout smp E h frame wq timeout w
      = Done ((waitqueue_link (now E) wq n timeout w)\<lparr>ksys := s'\<rparr>, Suspended n VMM_OK)"
    "sched_inv prr_inv prr_members hw N hosts s'" "state (vcpus s' n) = VMM_VCPU_STATE_PAUSED" "wq_priv (vcpus s' n) = Some wq"
    "current_vcpu (scheds s' h) = Some nx" "nx \<noteq> n" "state (vcpus s' nx) = VMM_VCPU_STATE_RUNNING" "\<not> lock_held wq (trace s')"
    using prr.sleep_ok [OF assms] by blast
  then show ?thesis
    by (intro exI [of _ "(waitqueue_link (now E) wq n timeout w)\<lparr>ksys := s'\<rparr>"] exI [of _ nx]) (simp add: waitqueue_link_def Let_def)
qed

theorem vmm_waitqueue_sleep_suspends_witness:
  "\<exists>w' nx. vmm_waitqueue_sleep_timeout True (demo_env prr_algo) 0 9 5 (Some 50) demo_wsys = Done (w', Suspended 1 VMM_OK)
    \<and> vcpu_list (wqs w' 5) = [1] \<and> wake_event w' 1 = Some (150, True) \<and> current_vcpu (scheds (ksys w') 0) = Some nx \<and> nx \<noteq> 1"
proof -
  have "\<not> is_idle {0} (ksys demo_wsys) 1" by (simp add: is_idle_def demo_wsys_def demo_thread_def demo_ctrl_def)
  then show ?thesis
    using vmm_waitqueue_sleep_suspends [of irq_demo_arch 2 "{0}" demo_wsys "demo_env prr_algo" 0 1 5 "Some 50" True 9]
      demo_thread_inv demo_env_ok [of prr_algo]
    by (fastforce simp: demo_wsys_def demo_thread_def demo_defs vmm_scheduler_orphan_context_def INIT_WAITQUEUE_def demo_env_def)
qed

text \<open>
  C9. Waking loses nobody.  When the VCPUs of a non-empty wait queue sleep or are awake already on host CPUs that are
  up, and the caller is in an interrupt, or a VCPU of a guest, or an orphan VCPU to which no READY or waiting
  VCPU of the host CPU is superior, then \<^verbatim>\<open>vmm_waitqueue_wakeall\<close> returns without error, every VCPU of the queue is
  READY or RUNNING, the queue itself is unchanged (the VCPUs leave it themselves), the lock is free, and the
  invariant of the scheduler is kept.
\<close>

theorem vmm_waitqueue_wakeall_wakes:
  assumes "sched_inv prr_inv prr_members hw N hosts (ksys w)" and "env_ok prr_algo hw E" and "h \<in> hosts"
    and "wake_pre E h (vcpu_list (wqs w wq)) (ksys w)" and "vcpu_count (wqs w wq) \<noteq> 0" and "\<not> lock_held wq (trace (ksys w))"
  shows "\<exists>w'. vmm_waitqueue_wakeall smp E h frame wq w = Done (w', VMM_OK)
    \<and> (\<forall>n \<in> set (vcpu_list (wqs w wq)). is_live (vcpus (ksys w') n)) \<and> wqs w' = wqs w \<and> \<not> lock_held wq (trace (ksys w'))
    \<and> sched_inv prr_inv prr_members hw N hosts (ksys w')"
  using prr.locked_wakeall_ok [OF assms, of smp frame] by auto

theorem vmm_waitqueue_wakeall_wakes_witness:
  "\<exists>w'. vmm_waitqueue_wakeall True (demo_env prr_algo) 0 9 5 demo_asleep = Done (w', VMM_OK) \<and> is_live (vcpus (ksys w') 1)"
proof -
  have "wake_pre (demo_env prr_algo) 0 (vcpu_list (wqs demo_asleep 5)) (ksys demo_asleep)"
    by (simp add: wake_pre_def can_wake_def vmm_scheduler_orphan_context_def demo_asleep_def demo_defs demo_env_def)
  then show ?thesis
    using vmm_waitqueue_wakeall_wakes [OF demo_asleep_inv demo_env_ok, of 0 5] by (auto simp: demo_asleep_def)
qed

section \<open>Where waking goes wrong\<close>

context ready_queue
begin

lemma wake_superior:
  assumes i: "sched_inv inv members hw N hosts s" and A: "algo E = A" and c: "current_vcpu (scheds s h) = Some c"
    and o: "vmm_scheduler_orphan_context h s" and l: "wq_lock (vcpus s c) = None" "preempt_count (vcpus s c) \<noteq> 0"
    and n: "state (vcpus s n) = VMM_VCPU_STATE_PAUSED" "hcpu (vcpus s n) = h" "priority (vcpus s c) < priority (vcpus s n)" "n \<noteq> c"
  shows "\<exists>s1. vmm_scheduler_state_change E h frame (Some n) VMM_VCPU_STATE_READY s = Done (s1, VMM_OK, True)
    \<and> trace s1 = trace s \<and> framed s s1 \<and> vcpus s1 c = vcpus s c \<and> current_vcpu (scheds s1 h) = Some c"
proof -
  obtain q where q: "inv (prio_of s) q" "members q = insert n (ready_on s h)"
    and r: "change_locked E n VMM_VCPU_STATE_READY s
        = Done (upd_vcpu n (commit_state (now E) VMM_VCPU_STATE_PAUSED VMM_VCPU_STATE_READY) (upd_sched h (\<lambda>c. c\<lparr>rq := q\<rparr>) s),
            VMM_OK, current_vcpu (scheds s h) \<noteq> Some n \<and> rq_prempt_needed E h (upd_sched h (\<lambda>c. c\<lparr>rq := q\<rparr>) s))"
    using wake_paused [OF i A n(1)] n(2) by auto
  let ?s1 = "upd_vcpu n (commit_state (now E) VMM_VCPU_STATE_PAUSED VMM_VCPU_STATE_READY) (upd_sched h (\<lambda>c. c\<lparr>rq := q\<rparr>) s)"
  have p: "rq_prempt_needed E h (upd_sched h (\<lambda>c. c\<lparr>rq := q\<rparr>) s)"
    using prempt_needed [OF q(1), of "priority (vcpus s c)"] q(2) n(3) c A by (auto simp: rq_prempt_needed_def prio_of_def)
  have "vmm_scheduler_switch E h (Some frame) ?s1 = Done ?s1"
    using c l n(4) by (auto simp: vmm_scheduler_switch_def Let_def)
  then have "vmm_scheduler_state_change E h frame (Some n) VMM_VCPU_STATE_READY s = Done (?s1, VMM_OK, True)"
    using r p c n(2,4) o unfolding vmm_scheduler_state_change_def Let_def
    by (simp add: vmm_scheduler_orphan_context_def vmm_scheduler_preempt_orphan_def del: bind_result_eq_Done)
  moreover have "framed s ?s1" by (intro framed_step) (simp_all add: vkeep_def ckeep_def)
  ultimately show ?thesis using c n(4) by auto
qed

end

text \<open>
  An orphan VCPU \<open>c\<close> that holds the lock of a wait queue wakes a VCPU of higher priority that sleeps there on the same
  host CPU.  After the trap, in which \<open>c\<close> is not switched away because it holds the lock, the state change takes the
  lock that the context of the \<^emph>\<open>woken\<close> VCPU names.  With \<^verbatim>\<open>CONFIG_SMP\<close> the host CPU waits for itself forever; without,
  the preemption count of \<open>c\<close> is raised once too often and \<open>c\<close> can never be preempted again.
\<close>

lemma wake_superior_deadlocks:
  assumes "sched_inv prr_inv prr_members hw N hosts s" and "algo E = prr_algo" and "current_vcpu (scheds s h) = Some c"
    and "vmm_scheduler_orphan_context h s" and "wq_lock (vcpus s c) = None" "preempt_count (vcpus s c) \<noteq> 0" and "lock_held l (trace s)"
    and "state (vcpus s n) = VMM_VCPU_STATE_PAUSED" "hcpu (vcpus s n) = h" "priority (vcpus s c) < priority (vcpus s n)" "n \<noteq> c"
    and "wq_lock (vcpus s n) = Some l"
  shows "waitqueue_wake True E h frame n s = Fault
    \<and> (\<exists>s'. waitqueue_wake False E h frame n s = Done (s', VMM_OK) \<and> preempt_count (vcpus s' c) = preempt_count (vcpus s c) + 1)"
proof -
  obtain s1 where s1: "vmm_scheduler_state_change E h frame (Some n) VMM_VCPU_STATE_READY s = Done (s1, VMM_OK, True)"
    "trace s1 = trace s" "framed s s1" "vcpus s1 c = vcpus s c" "current_vcpu (scheds s1 h) = Some c"
    using prr.wake_superior [OF assms(1-6,8-11), of frame] by blast
  have l: "wq_lock (vcpus s1 n) = Some l" "\<not> irq_context (scheds s1 h)"
    using framedD(1,5) [OF s1(3)] assms(3,4,12) by (simp_all add: vmm_scheduler_orphan_context_def)
  let ?s2 = "log_event (WqLock h l) (vmm_scheduler_preempt_disable h s1)"
  have "preempt_count (vcpus ?s2 c) = preempt_count (vcpus s c) + 1"
    using s1(4,5) l(2) by (simp add: vmm_scheduler_preempt_disable_def)
  moreover have "waitqueue_wake True E h frame n s = Fault" "waitqueue_wake False E h frame n s = Done (?s2, VMM_OK)"
    using s1(1,2) l(1) assms(7) by (simp_all add: waitqueue_wake_def state_change_relock_def vmm_spin_lock_def del: bind_result_eq_Done)
  ultimately show ?thesis by blast
qed

text \<open>
  A VCPU that was woken stays at the head of the list until it runs.  A second wake-up before that wakes it again, to
  no effect, and the next sleeper stays asleep.
\<close>

lemma second_wakefirst_lost:
  assumes "vcpu_list (wqs w wq) = n # ns" and "vcpu_count (wqs w wq) \<noteq> 0" and "state (vcpus (ksys w) n) = VMM_VCPU_STATE_READY"
  shows "waitqueue_wakefirst smp E h frame wq w = Done (w, VMM_OK)"
proof -
  have "change_locked E n VMM_VCPU_STATE_READY (ksys w) = Done (ksys w, VMM_OK, False)"
    using assms(3) by (simp add: change_locked_def change_action_def Let_def)
  then have "vmm_scheduler_state_change E h frame (Some n) VMM_VCPU_STATE_READY (ksys w) = Done (ksys w, VMM_OK, False)"
    by (simp add: vmm_scheduler_state_change_def Let_def split: option.split)
  then show ?thesis using assms by (simp add: waitqueue_wakefirst_def waitqueue_wake_def)
qed

end
