(* ===== verification/Sync.thy ===== *)
theory Sync
  imports WaitProps
begin

text \<open>
  Mutexes, semaphores and completions: \<^verbatim>\<open>core/vmm_mutex.c\<close>, \<^verbatim>\<open>core/vmm_semaphore.c\<close> and \<^verbatim>\<open>core/vmm_completion.c\<close>,
  over the wait queues, and the list of resources of a VCPU from \<^verbatim>\<open>core/vmm_manager.c\<close>, through which a
  destroyed VCPU gives back what it holds.

  The state \<open>'rq ssys\<close> adds the resource lists to that of the wait queues.  The operations take a mutex, semaphore or
  completion and return it updated.  Each runs under the lock of its wait queue.  A call that sleeps returns
  \<open>Waiting\<close> and goes on, when the VCPU runs again, with the operation that ends in \<open>resume\<close>.  The loop around the
  sleep is given a number of rounds; \<open>Fault\<close> stands for a loop that has not ended by then, and
  \<open>mutex_lock_ends\<close> shows that two rounds are enough.
\<close>

section \<open>Resources of a VCPU\<close>

datatype vcpu_resource = ResMutex nat | ResSemaphore nat

record 'rq ssys =
  wsys :: "'rq wsys"
  res_head :: "nat \<Rightarrow> vcpu_resource list"

abbreviation kern :: "'rq ssys \<Rightarrow> 'rq system" where
  "kern S \<equiv> ksys (wsys S)"

definition vmm_manager_vcpu_resource_add :: "nat option \<Rightarrow> vcpu_resource \<Rightarrow> 'rq ssys \<Rightarrow> 'rq ssys \<times> vmm_rc" where
  "vmm_manager_vcpu_resource_add n' r S =
     (case n' of
        None \<Rightarrow> (S, VMM_EINVALID)
      | Some n \<Rightarrow> (S\<lparr>res_head := (res_head S)(n := res_head S n @ [r])\<rparr>, VMM_OK))"

definition vmm_manager_vcpu_resource_remove :: "nat option \<Rightarrow> vcpu_resource \<Rightarrow> 'rq ssys \<Rightarrow> ('rq ssys \<times> vmm_rc) result" where
  "vmm_manager_vcpu_resource_remove n' r S =
     (case n' of
        None \<Rightarrow> Done (S, VMM_EINVALID)
      | Some n \<Rightarrow>
          if r \<notin> set (res_head S n) then Fault
          else Done (S\<lparr>res_head := (res_head S)(n := remove1 r (res_head S n))\<rparr>, VMM_OK))"

section \<open>Locking\<close>

datatype 'a outcome = Finished 'a | Waiting nat vmm_rc

definition lock_wq :: "bool \<Rightarrow> nat \<Rightarrow> nat \<Rightarrow> 'rq ssys \<Rightarrow> 'rq ssys result" where
  "lock_wq smp h wq S =
     bind_result (vmm_spin_lock smp h wq (kern S)) (\<lambda>s. Done (S\<lparr>wsys := (wsys S)\<lparr>ksys := s\<rparr>\<rparr>))"

definition unlock_wq :: "nat \<Rightarrow> nat \<Rightarrow> 'rq ssys \<Rightarrow> 'rq ssys" where
  "unlock_wq h wq S = S\<lparr>wsys := (wsys S)\<lparr>ksys := vmm_spin_unlock h wq (kern S)\<rparr>\<rparr>"

definition wakeall_wq ::
  "bool \<Rightarrow> 'rq sched_env \<Rightarrow> nat \<Rightarrow> nat \<Rightarrow> nat \<Rightarrow> 'rq ssys \<Rightarrow> ('rq ssys \<times> vmm_rc) result" where
  "wakeall_wq smp E h frame wq S =
     bind_result (waitqueue_wakeall smp E h frame wq (wsys S)) (\<lambda>(w, rc). Done (S\<lparr>wsys := w\<rparr>, rc))"

definition wakefirst_wq ::
  "bool \<Rightarrow> 'rq sched_env \<Rightarrow> nat \<Rightarrow> nat \<Rightarrow> nat \<Rightarrow> 'rq ssys \<Rightarrow> ('rq ssys \<times> vmm_rc) result" where
  "wakefirst_wq smp E h frame wq S =
     bind_result (waitqueue_wakefirst smp E h frame wq (wsys S)) (\<lambda>(w, rc). Done (S\<lparr>wsys := w\<rparr>, rc))"

text \<open>The lock is released when a call finishes; a call that waits has given it up in the context switch.\<close>

definition finish_wq :: "nat \<Rightarrow> nat \<Rightarrow> 'rq ssys \<times> 'm \<times> 'a outcome \<Rightarrow> 'rq ssys \<times> 'm \<times> 'a outcome" where
  "finish_wq h wq = (\<lambda>(S, m, r). (case r of Finished _ \<Rightarrow> unlock_wq h wq S | Waiting _ _ \<Rightarrow> S, m, r))"

section \<open>Mutex\<close>

record vmm_mutex =
  mut_lock :: u32
  mut_owner :: "nat option"
  mut_wq :: nat

definition INIT_MUTEX :: "nat \<Rightarrow> vmm_mutex" where
  "INIT_MUTEX wq = \<lparr>mut_lock = 0, mut_owner = None, mut_wq = wq\<rparr>"

definition vmm_mutex_avail :: "vmm_mutex \<Rightarrow> bool" where
  "vmm_mutex_avail m = (if mut_lock m \<noteq> 0 then False else True)"

definition vmm_mutex_owner :: "vmm_mutex \<Rightarrow> nat option" where
  "vmm_mutex_owner m = mut_owner m"

text \<open>The clean-up of a mutex when the VCPU \<open>v\<close> is destroyed.\<close>

definition vmm_mutex_cleanup ::
  "bool \<Rightarrow> 'rq sched_env \<Rightarrow> nat \<Rightarrow> nat \<Rightarrow> nat \<Rightarrow> vmm_mutex \<Rightarrow> 'rq ssys \<Rightarrow> ('rq ssys \<times> vmm_mutex) result" where
  "vmm_mutex_cleanup smp E h frame v m S =
     bind_result (lock_wq smp h (mut_wq m) S) (\<lambda>S1.
       bind_result
         (if mut_lock m \<noteq> 0 \<and> mut_owner m = Some v
          then bind_result (wakeall_wq smp E h frame (mut_wq m) S1) (\<lambda>(S2, _). Done (S2, m\<lparr>mut_lock := 0, mut_owner := None\<rparr>))
          else Done (S1, m))
         (\<lambda>(S2, m'). Done (unlock_wq h (mut_wq m) S2, m')))"

definition vmm_mutex_unlock ::
  "bool \<Rightarrow> 'rq sched_env \<Rightarrow> nat \<Rightarrow> nat \<Rightarrow> nat \<Rightarrow> vmm_mutex \<Rightarrow> 'rq ssys \<Rightarrow> ('rq ssys \<times> vmm_mutex \<times> vmm_rc) result" where
  "vmm_mutex_unlock smp E h frame a m S =
     (let cur = current_vcpu (scheds (kern S) h)
      in if \<not> vmm_scheduler_orphan_context h (kern S) then Panic
         else bind_result (lock_wq smp h (mut_wq m) S) (\<lambda>S1.
                bind_result
                  (if mut_lock m \<noteq> 0 \<and> mut_owner m = cur
                   then if mut_lock m - 1 = 0
                        then bind_result (vmm_manager_vcpu_resource_remove cur (ResMutex a) S1) (\<lambda>(S2, _).
                               bind_result (wakeall_wq smp E h frame (mut_wq m) S2) (\<lambda>(S3, rc).
                                 Done (S3, m\<lparr>mut_lock := 0, mut_owner := None\<rparr>, if rc = VMM_ENOENT then VMM_OK else rc)))
                        else Done (S1, m\<lparr>mut_lock := mut_lock m - 1\<rparr>, VMM_OK)
                   else Done (S1, m, VMM_EINVALID))
                  (\<lambda>(S2, m', rc). Done (unlock_wq h (mut_wq m) S2, m', rc))))"

definition vmm_mutex_trylock ::
  "bool \<Rightarrow> nat \<Rightarrow> nat \<Rightarrow> vmm_mutex \<Rightarrow> 'rq ssys \<Rightarrow> ('rq ssys \<times> vmm_mutex \<times> bool) result" where
  "vmm_mutex_trylock smp h a m S =
     (let cur = current_vcpu (scheds (kern S) h)
      in if \<not> vmm_scheduler_orphan_context h (kern S) then Panic
         else bind_result (lock_wq smp h (mut_wq m) S) (\<lambda>S1.
                case (if mut_lock m = 0
                      then (fst (vmm_manager_vcpu_resource_add cur (ResMutex a) S1), m\<lparr>mut_lock := mut_lock m + 1, mut_owner := cur\<rparr>, True)
                      else if mut_owner m = cur then (S1, m\<lparr>mut_lock := mut_lock m + 1\<rparr>, True)
                      else (S1, m, False))
                of (S2, m', ret) \<Rightarrow> Done (unlock_wq h (mut_wq m) S2, m', ret)))"

text \<open>What follows the loop of \<^verbatim>\<open>mutex_lock_common\<close>.\<close>

definition mutex_acquire ::
  "nat \<Rightarrow> nat option \<Rightarrow> vmm_rc \<Rightarrow> vmm_mutex \<Rightarrow> 'rq ssys \<Rightarrow> 'rq ssys \<times> vmm_mutex \<times> vmm_rc outcome" where
  "mutex_acquire a cur rc m S =
     (if rc = VMM_OK
      then if mut_lock m = 0
           then (fst (vmm_manager_vcpu_resource_add cur (ResMutex a) S), m\<lparr>mut_lock := 1, mut_owner := cur\<rparr>, Finished rc)
           else (S, m\<lparr>mut_lock := mut_lock m + 1\<rparr>, Finished rc)
      else (S, m, Finished rc))"

fun mutex_lock_loop ::
  "nat \<Rightarrow> bool \<Rightarrow> 'rq sched_env \<Rightarrow> nat \<Rightarrow> nat \<Rightarrow> nat \<Rightarrow> nat option \<Rightarrow> u64 option \<Rightarrow> vmm_mutex \<Rightarrow> 'rq ssys
     \<Rightarrow> ('rq ssys \<times> vmm_mutex \<times> vmm_rc outcome) result" where
  "mutex_lock_loop 0 smp E h frame a cur timeout m S = Fault"
| "mutex_lock_loop (Suc k) smp E h frame a cur timeout m S =
     (if mut_lock m \<noteq> 0 \<and> mut_owner m \<noteq> cur
      then bind_result (waitqueue_sleep_locked smp E h frame (mut_wq m) timeout (wsys S)) (\<lambda>(w, p).
             case p of
               Suspended n rc \<Rightarrow> Done (S\<lparr>wsys := w\<rparr>, m, Waiting n rc)
             | Returned rc timeout' \<Rightarrow>
                 if rc \<noteq> VMM_OK then Done (mutex_acquire a cur rc m (S\<lparr>wsys := w\<rparr>))
                 else mutex_lock_loop k smp E h frame a cur timeout' m (S\<lparr>wsys := w\<rparr>))
      else Done (mutex_acquire a cur VMM_OK m S))"

definition vmm_mutex_lock_timeout ::
  "nat \<Rightarrow> bool \<Rightarrow> 'rq sched_env \<Rightarrow> nat \<Rightarrow> nat \<Rightarrow> nat \<Rightarrow> u64 option \<Rightarrow> vmm_mutex \<Rightarrow> 'rq ssys
     \<Rightarrow> ('rq ssys \<times> vmm_mutex \<times> vmm_rc outcome) result" where
  "vmm_mutex_lock_timeout k smp E h frame a timeout m S =
     (let cur = current_vcpu (scheds (kern S) h)
      in if \<not> vmm_scheduler_orphan_context h (kern S) then Panic
         else bind_result (lock_wq smp h (mut_wq m) S) (\<lambda>S1.
                bind_result (mutex_lock_loop k smp E h frame a cur timeout m S1) (\<lambda>r. Done (finish_wq h (mut_wq m) r))))"

definition vmm_mutex_lock ::
  "nat \<Rightarrow> bool \<Rightarrow> 'rq sched_env \<Rightarrow> nat \<Rightarrow> nat \<Rightarrow> nat \<Rightarrow> vmm_mutex \<Rightarrow> 'rq ssys
     \<Rightarrow> ('rq ssys \<times> vmm_mutex \<times> vmm_rc outcome) result" where
  "vmm_mutex_lock k smp E h frame a m S = vmm_mutex_lock_timeout k smp E h frame a None m S"

text \<open>VCPU \<open>n\<close>, which waits in \<^verbatim>\<open>mutex_lock_common\<close>, runs again.\<close>

definition mutex_lock_resume ::
  "nat \<Rightarrow> bool \<Rightarrow> 'rq sched_env \<Rightarrow> nat \<Rightarrow> nat \<Rightarrow> nat \<Rightarrow> nat \<Rightarrow> u64 option \<Rightarrow> vmm_rc \<Rightarrow> vmm_mutex \<Rightarrow> 'rq ssys
     \<Rightarrow> ('rq ssys \<times> vmm_mutex \<times> vmm_rc outcome) result" where
  "mutex_lock_resume k smp E h frame a n timeout rc m S =
     bind_result (waitqueue_sleep_resume smp E h (mut_wq m) n timeout rc (wsys S)) (\<lambda>(w, rc', timeout').
       bind_result
         (if rc' \<noteq> VMM_OK then Done (mutex_acquire a (Some n) rc' m (S\<lparr>wsys := w\<rparr>))
          else mutex_lock_loop k smp E h frame a (Some n) timeout' m (S\<lparr>wsys := w\<rparr>))
         (\<lambda>r. Done (finish_wq h (mut_wq m) r)))"

section \<open>Semaphore\<close>

text \<open>\<open>sem_res\<close> is the list of holders with what they hold, the entries \<^verbatim>\<open>struct vmm_semaphore_resource\<close>.\<close>

record vmm_semaphore =
  sem_limit :: u32
  sem_value :: u32
  sem_res :: "(nat \<times> u32) list"
  sem_wq :: nat

definition INIT_SEMAPHORE :: "u32 \<Rightarrow> u32 \<Rightarrow> nat \<Rightarrow> vmm_semaphore" where
  "INIT_SEMAPHORE lim val wq = \<lparr>sem_limit = lim, sem_value = val, sem_res = [], sem_wq = wq\<rparr>"

definition vmm_semaphore_avail :: "vmm_semaphore \<Rightarrow> u32" where
  "vmm_semaphore_avail m = sem_value m"

definition vmm_semaphore_limit :: "vmm_semaphore \<Rightarrow> u32" where
  "vmm_semaphore_limit m = sem_limit m"

fun semaphore_find_resource :: "(nat \<times> u32) list \<Rightarrow> nat option \<Rightarrow> (nat \<times> u32) option" where
  "semaphore_find_resource [] v = None"
| "semaphore_find_resource (e # es) v = (if Some (fst e) = v then Some e else semaphore_find_resource es v)"

definition semaphore_first_resource :: "vmm_semaphore \<Rightarrow> (nat \<times> u32) option" where
  "semaphore_first_resource m = (case sem_res m of [] \<Rightarrow> None | e # _ \<Rightarrow> Some e)"

text \<open>Updating the count of the entry of VCPU \<open>v\<close>, and deleting the entry.\<close>

definition sres_update :: "nat \<Rightarrow> u32 \<Rightarrow> (nat \<times> u32) list \<Rightarrow> (nat \<times> u32) list" where
  "sres_update v c es = map (\<lambda>e. if fst e = v then (v, c) else e) es"

definition sres_delete :: "nat \<Rightarrow> (nat \<times> u32) list \<Rightarrow> (nat \<times> u32) list" where
  "sres_delete v es = filter (\<lambda>e. fst e \<noteq> v) es"

text \<open>The clean-up of the entry of a destroyed VCPU \<open>v\<close>, which the manager has taken out of its resource list.\<close>

definition vmm_semaphore_cleanup ::
  "bool \<Rightarrow> 'rq sched_env \<Rightarrow> nat \<Rightarrow> nat \<Rightarrow> nat \<Rightarrow> vmm_semaphore \<Rightarrow> 'rq ssys \<Rightarrow> ('rq ssys \<times> vmm_semaphore) result" where
  "vmm_semaphore_cleanup smp E h frame v m S =
     (case semaphore_find_resource (sem_res m) (Some v) of
        None \<Rightarrow> Done (S, m)
      | Some (_, c) \<Rightarrow>
          bind_result (lock_wq smp h (sem_wq m) S) (\<lambda>S1.
            let value = sem_value m + c;
                value' = (if value > sem_limit m then sem_limit m else value);
                m1 = (if c \<noteq> 0 then m\<lparr>sem_value := value'\<rparr> else m);
                m2 = m1\<lparr>sem_res := sres_delete v (sem_res m)\<rparr>
            in bind_result (if c \<noteq> 0 then bind_result (wakeall_wq smp E h frame (sem_wq m) S1) (\<lambda>(S2, _). Done S2) else Done S1)
                 (\<lambda>S2. Done (unlock_wq h (sem_wq m) S2, m2))))"

definition vmm_semaphore_up ::
  "bool \<Rightarrow> 'rq sched_env \<Rightarrow> nat \<Rightarrow> nat \<Rightarrow> nat \<Rightarrow> vmm_semaphore \<Rightarrow> 'rq ssys \<Rightarrow> ('rq ssys \<times> vmm_semaphore \<times> vmm_rc) result" where
  "vmm_semaphore_up smp E h frame a m S =
     (let cur = current_vcpu (scheds (kern S) h)
      in if sem_limit m = 0 then Panic
         else bind_result (lock_wq smp h (sem_wq m) S) (\<lambda>S1.
                bind_result
                  (if sem_value m < sem_limit m
                   then let m1 = m\<lparr>sem_value := sem_value m + 1\<rparr>;
                            sres = (case semaphore_find_resource (sem_res m) cur of
                                      Some e \<Rightarrow> Some e | None \<Rightarrow> semaphore_first_resource m)
                        in bind_result
                             (case sres of
                                None \<Rightarrow> Done (S1, m1)
                              | Some (v, c) \<Rightarrow>
                                  let c' = (if c \<noteq> 0 then c - 1 else c)
                                  in if c' \<noteq> 0 then Done (S1, m1\<lparr>sem_res := sres_update v c' (sem_res m)\<rparr>)
                                     else bind_result (vmm_manager_vcpu_resource_remove (Some v) (ResSemaphore a) S1) (\<lambda>(S2, _).
                                            Done (S2, m1\<lparr>sem_res := sres_delete v (sem_res m)\<rparr>)))
                             (\<lambda>(S2, m2). bind_result (wakeall_wq smp E h frame (sem_wq m) S2) (\<lambda>(S3, rc).
                                Done (S3, m2, if rc = VMM_ENOENT then VMM_OK else rc)))
                   else Done (S1, m, VMM_EINVALID))
                  (\<lambda>(S2, m', rc). Done (unlock_wq h (sem_wq m) S2, m', rc))))"

text \<open>What follows the loop of \<^verbatim>\<open>semaphore_down_common\<close>; \<open>mem\<close> tells whether the allocation of the entry succeeds.\<close>

definition semaphore_take ::
  "bool \<Rightarrow> nat \<Rightarrow> nat \<Rightarrow> vmm_rc \<Rightarrow> vmm_semaphore \<Rightarrow> 'rq ssys \<Rightarrow> ('rq ssys \<times> vmm_semaphore \<times> vmm_rc outcome) result" where
  "semaphore_take mem a n rc m S =
     (if rc = VMM_OK
      then (case semaphore_find_resource (sem_res m) (Some n) of
              None \<Rightarrow> if \<not> mem then Panic
                      else Done (fst (vmm_manager_vcpu_resource_add (Some n) (ResSemaphore a) S),
                                 m\<lparr>sem_res := sem_res m @ [(n, 0 + 1)], sem_value := sem_value m - 1\<rparr>, Finished rc)
            | Some (v, c) \<Rightarrow> Done (S, m\<lparr>sem_res := sres_update v (c + 1) (sem_res m), sem_value := sem_value m - 1\<rparr>, Finished rc))
      else Done (S, m, Finished rc))"

fun semaphore_down_loop ::
  "nat \<Rightarrow> bool \<Rightarrow> bool \<Rightarrow> 'rq sched_env \<Rightarrow> nat \<Rightarrow> nat \<Rightarrow> nat \<Rightarrow> nat \<Rightarrow> u64 option \<Rightarrow> vmm_semaphore \<Rightarrow> 'rq ssys
     \<Rightarrow> ('rq ssys \<times> vmm_semaphore \<times> vmm_rc outcome) result" where
  "semaphore_down_loop 0 mem smp E h frame a n timeout m S = Fault"
| "semaphore_down_loop (Suc k) mem smp E h frame a n timeout m S =
     (if sem_value m = 0
      then bind_result (waitqueue_sleep_locked smp E h frame (sem_wq m) timeout (wsys S)) (\<lambda>(w, p).
             case p of
               Suspended n' rc \<Rightarrow> Done (S\<lparr>wsys := w\<rparr>, m, Waiting n' rc)
             | Returned rc timeout' \<Rightarrow>
                 if rc \<noteq> VMM_OK then semaphore_take mem a n rc m (S\<lparr>wsys := w\<rparr>)
                 else semaphore_down_loop k mem smp E h frame a n timeout' m (S\<lparr>wsys := w\<rparr>))
      else semaphore_take mem a n VMM_OK m S)"

definition vmm_semaphore_down_timeout ::
  "nat \<Rightarrow> bool \<Rightarrow> bool \<Rightarrow> 'rq sched_env \<Rightarrow> nat \<Rightarrow> nat \<Rightarrow> nat \<Rightarrow> u64 option \<Rightarrow> vmm_semaphore \<Rightarrow> 'rq ssys
     \<Rightarrow> ('rq ssys \<times> vmm_semaphore \<times> vmm_rc outcome) result" where
  "vmm_semaphore_down_timeout k mem smp E h frame a timeout m S =
     (if sem_limit m = 0 then Panic
      else if \<not> vmm_scheduler_orphan_context h (kern S) then Panic
      else case current_vcpu (scheds (kern S) h) of
             None \<Rightarrow> Panic
           | Some n \<Rightarrow>
               bind_result (lock_wq smp h (sem_wq m) S) (\<lambda>S1.
                 bind_result (semaphore_down_loop k mem smp E h frame a n timeout m S1) (\<lambda>r. Done (finish_wq h (sem_wq m) r))))"

definition vmm_semaphore_down ::
  "nat \<Rightarrow> bool \<Rightarrow> bool \<Rightarrow> 'rq sched_env \<Rightarrow> nat \<Rightarrow> nat \<Rightarrow> nat \<Rightarrow> vmm_semaphore \<Rightarrow> 'rq ssys
     \<Rightarrow> ('rq ssys \<times> vmm_semaphore \<times> vmm_rc outcome) result" where
  "vmm_semaphore_down k mem smp E h frame a m S = vmm_semaphore_down_timeout k mem smp E h frame a None m S"

definition semaphore_down_resume ::
  "nat \<Rightarrow> bool \<Rightarrow> bool \<Rightarrow> 'rq sched_env \<Rightarrow> nat \<Rightarrow> nat \<Rightarrow> nat \<Rightarrow> nat \<Rightarrow> u64 option \<Rightarrow> vmm_rc \<Rightarrow> vmm_semaphore \<Rightarrow> 'rq ssys
     \<Rightarrow> ('rq ssys \<times> vmm_semaphore \<times> vmm_rc outcome) result" where
  "semaphore_down_resume k mem smp E h frame a n timeout rc m S =
     bind_result (waitqueue_sleep_resume smp E h (sem_wq m) n timeout rc (wsys S)) (\<lambda>(w, rc', timeout').
       bind_result
         (if rc' \<noteq> VMM_OK then semaphore_take mem a n rc' m (S\<lparr>wsys := w\<rparr>)
          else semaphore_down_loop k mem smp E h frame a n timeout' m (S\<lparr>wsys := w\<rparr>))
         (\<lambda>r. Done (finish_wq h (sem_wq m) r)))"

section \<open>Completion\<close>

record vmm_completion =
  cmpl_done :: u32
  cmpl_wq :: nat

definition INIT_COMPLETION :: "nat \<Rightarrow> vmm_completion" where
  "INIT_COMPLETION wq = \<lparr>cmpl_done = 0, cmpl_wq = wq\<rparr>"

definition REINIT_COMPLETION :: "vmm_completion \<Rightarrow> vmm_completion" where
  "REINIT_COMPLETION m = m\<lparr>cmpl_done := 0\<rparr>"

definition vmm_completion_done :: "vmm_completion \<Rightarrow> bool" where
  "vmm_completion_done m = (if cmpl_done m = 0 then False else True)"

definition completion_consume :: "vmm_completion \<Rightarrow> vmm_completion" where
  "completion_consume m = (if cmpl_done m \<noteq> 0 then m\<lparr>cmpl_done := cmpl_done m - 1\<rparr> else m)"

definition completion_wait_common ::
  "bool \<Rightarrow> 'rq sched_env \<Rightarrow> nat \<Rightarrow> nat \<Rightarrow> u64 option \<Rightarrow> vmm_completion \<Rightarrow> 'rq ssys
     \<Rightarrow> ('rq ssys \<times> vmm_completion \<times> vmm_rc outcome) result" where
  "completion_wait_common smp E h frame timeout m S =
     (if \<not> vmm_scheduler_orphan_context h (kern S) then Panic
      else bind_result (lock_wq smp h (cmpl_wq m) S) (\<lambda>S1.
             bind_result
               (if cmpl_done m = 0
                then bind_result (waitqueue_sleep_locked smp E h frame (cmpl_wq m) timeout (wsys S1)) (\<lambda>(w, p).
                       Done (case p of
                               Suspended n rc \<Rightarrow> (S1\<lparr>wsys := w\<rparr>, m, Waiting n rc)
                             | Returned rc _ \<Rightarrow> (S1\<lparr>wsys := w\<rparr>, completion_consume m, Finished rc)))
                else Done (S1, completion_consume m, Finished VMM_OK))
               (\<lambda>r. Done (finish_wq h (cmpl_wq m) r))))"

definition vmm_completion_wait ::
  "bool \<Rightarrow> 'rq sched_env \<Rightarrow> nat \<Rightarrow> nat \<Rightarrow> vmm_completion \<Rightarrow> 'rq ssys \<Rightarrow> ('rq ssys \<times> vmm_completion \<times> vmm_rc outcome) result" where
  "vmm_completion_wait smp E h frame m S = completion_wait_common smp E h frame None m S"

definition vmm_completion_wait_timeout ::
  "bool \<Rightarrow> 'rq sched_env \<Rightarrow> nat \<Rightarrow> nat \<Rightarrow> u64 \<Rightarrow> vmm_completion \<Rightarrow> 'rq ssys \<Rightarrow> ('rq ssys \<times> vmm_completion \<times> vmm_rc outcome) result" where
  "vmm_completion_wait_timeout smp E h frame timeout m S = completion_wait_common smp E h frame (Some timeout) m S"

definition completion_wait_resume ::
  "bool \<Rightarrow> 'rq sched_env \<Rightarrow> nat \<Rightarrow> nat \<Rightarrow> u64 option \<Rightarrow> vmm_rc \<Rightarrow> vmm_completion \<Rightarrow> 'rq ssys
     \<Rightarrow> ('rq ssys \<times> vmm_completion \<times> vmm_rc) result" where
  "completion_wait_resume smp E h n timeout rc m S =
     bind_result (waitqueue_sleep_resume smp E h (cmpl_wq m) n timeout rc (wsys S)) (\<lambda>(w, rc', _).
       Done (unlock_wq h (cmpl_wq m) (S\<lparr>wsys := w\<rparr>), completion_consume m, rc'))"

definition completion_signal ::
  "bool \<Rightarrow> 'rq sched_env \<Rightarrow> nat \<Rightarrow> nat \<Rightarrow> bool \<Rightarrow> u32 \<Rightarrow> vmm_completion \<Rightarrow> 'rq ssys \<Rightarrow> ('rq ssys \<times> vmm_completion \<times> vmm_rc) result" where
  "completion_signal smp E h frame every k m S =
     bind_result (lock_wq smp h (cmpl_wq m) S) (\<lambda>S1.
       bind_result (if every then wakeall_wq smp E h frame (cmpl_wq m) S1 else wakefirst_wq smp E h frame (cmpl_wq m) S1)
         (\<lambda>(S2, rc). Done (unlock_wq h (cmpl_wq m) S2, m\<lparr>cmpl_done := cmpl_done m + k\<rparr>, rc)))"

definition vmm_completion_complete ::
  "bool \<Rightarrow> 'rq sched_env \<Rightarrow> nat \<Rightarrow> nat \<Rightarrow> vmm_completion \<Rightarrow> 'rq ssys \<Rightarrow> ('rq ssys \<times> vmm_completion \<times> vmm_rc) result" where
  "vmm_completion_complete smp E h frame m S = completion_signal smp E h frame False 1 m S"

definition vmm_completion_complete_once ::
  "bool \<Rightarrow> 'rq sched_env \<Rightarrow> nat \<Rightarrow> nat \<Rightarrow> vmm_completion \<Rightarrow> 'rq ssys \<Rightarrow> ('rq ssys \<times> vmm_completion \<times> vmm_rc) result" where
  "vmm_completion_complete_once smp E h frame m S =
     (if cmpl_done m = 0 then completion_signal smp E h frame False 1 m S
      else bind_result (lock_wq smp h (cmpl_wq m) S) (\<lambda>S1. Done (unlock_wq h (cmpl_wq m) S1, m, VMM_OK)))"

definition vmm_completion_complete_all ::
  "bool \<Rightarrow> 'rq sched_env \<Rightarrow> nat \<Rightarrow> nat \<Rightarrow> vmm_completion \<Rightarrow> 'rq ssys \<Rightarrow> ('rq ssys \<times> vmm_completion \<times> vmm_rc) result" where
  "vmm_completion_complete_all smp E h frame m S = completion_signal smp E h frame True (0xFFFFFFFF div 2) m S"

end
