(* ===== verification/SyncProps.thy ===== *)
theory SyncProps
  imports Sync
begin

text \<open>
  Properties of mutexes, semaphores and completions.  The data of such an object changes only in its own operations,
  so the statements on it quantify over all states of the rest of the system at every step.
\<close>

section \<open>Mutual exclusion\<close>

definition mutex_got :: "nat option \<Rightarrow> vmm_mutex \<Rightarrow> vmm_mutex" where
  "mutex_got cur m = (if mut_lock m = 0 then m\<lparr>mut_lock := 1, mut_owner := cur\<rparr> else m\<lparr>mut_lock := mut_lock m + 1\<rparr>)"

lemma mutex_acquire_data:
  "mutex_acquire a cur rc m S = (S', m', r) \<Longrightarrow> r = Finished rc \<and> m' = (if rc = VMM_OK then mutex_got cur m else m)"
  by (auto simp: mutex_acquire_def mutex_got_def split: if_splits)

lemma mutex_lock_loop_data:
  "mutex_lock_loop k smp E h frame a cur t m S = Done (S', m', r) \<Longrightarrow>
     (if r = Finished VMM_OK then (mut_lock m = 0 \<or> mut_owner m = cur) \<and> m' = mutex_got cur m else m' = m)"
proof (induction k arbitrary: t S)
  case (Suc k)
  show ?case
  proof (cases "mut_lock m \<noteq> 0 \<and> mut_owner m \<noteq> cur")
    case True
    then obtain w p where w: "waitqueue_sleep_locked smp E h frame (mut_wq m) t (wsys S) = Done (w, p)" using Suc.prems by auto
    show ?thesis
    proof (cases p)
      case (Returned rc t')
      then show ?thesis using Suc w True by (cases "rc = VMM_OK") (auto simp: mutex_acquire_def)
    next
      case (Suspended n rc)
      then show ?thesis using Suc.prems w True by auto
    qed
  next
    case False
    then show ?thesis using Suc.prems mutex_acquire_data [of a cur VMM_OK m S] by auto
  qed
qed simp

lemma finish_wq_data: "finish_wq h wq (S, m, r) = (S', m', r') \<longleftrightarrow> m' = m \<and> r' = r \<and> S' = fst (finish_wq h wq (S, m, r))"
  by (auto simp: finish_wq_def)

lemma mutex_lock_data:
  assumes "vmm_mutex_lock_timeout k smp E h frame a t m S = Done (S', m', r)"
  shows "if r = Finished VMM_OK then (mut_lock m = 0 \<or> mut_owner m = current_vcpu (scheds (kern S) h))
      \<and> m' = mutex_got (current_vcpu (scheds (kern S) h)) m else m' = m"
proof -
  obtain S1 x where x: "mutex_lock_loop k smp E h frame a (current_vcpu (scheds (kern S) h)) t m S1 = Done x" "finish_wq h (mut_wq m) x = (S', m', r)"
    using assms by (auto simp: vmm_mutex_lock_timeout_def Let_def split: if_splits)
  then show ?thesis using mutex_lock_loop_data by (cases x) (fastforce simp: finish_wq_data)
qed

lemma mutex_resume_data:
  assumes "mutex_lock_resume k smp E h frame a n t rc m S = Done (S', m', r)"
  shows "if r = Finished VMM_OK then (mut_lock m = 0 \<or> mut_owner m = Some n) \<and> m' = mutex_got (Some n) m else m' = m"
proof -
  obtain w rc' t' x where x: "finish_wq h (mut_wq m) x = (S', m', r)"
    "(if rc' \<noteq> VMM_OK then Done (mutex_acquire a (Some n) rc' m (S\<lparr>wsys := w\<rparr>))
      else mutex_lock_loop k smp E h frame a (Some n) t' m (S\<lparr>wsys := w\<rparr>)) = Done x"
    using assms by (auto simp: mutex_lock_resume_def)
  obtain S2 m2 r2 where x': "x = (S2, m2, r2)" by (cases x)
  show ?thesis
  proof (cases "rc' = VMM_OK")
    case True
    then show ?thesis using x x' mutex_lock_loop_data [of k smp E h frame a "Some n" t' m "S\<lparr>wsys := w\<rparr>" S2 m2 r2] by (simp add: finish_wq_data)
  next
    case False
    then show ?thesis using x x' mutex_acquire_data [of a "Some n" rc' m "S\<lparr>wsys := w\<rparr>" S2 m2 r2] by (simp add: finish_wq_data)
  qed
qed

lemma mutex_unlock_data:
  assumes "vmm_mutex_unlock smp E h frame a m S = Done (S', m', rc)"
  shows "m' = (if mut_lock m \<noteq> 0 \<and> mut_owner m = current_vcpu (scheds (kern S) h)
    then if mut_lock m - 1 = 0 then m\<lparr>mut_lock := 0, mut_owner := None\<rparr> else m\<lparr>mut_lock := mut_lock m - 1\<rparr> else m)"
  using assms by (auto simp: vmm_mutex_unlock_def Let_def split: if_splits)

lemma mutex_trylock_data:
  assumes "vmm_mutex_trylock smp h a m S = Done (S', m', b)"
  shows "if b then (mut_lock m = 0 \<or> mut_owner m = current_vcpu (scheds (kern S) h)) \<and> m' = mutex_got (current_vcpu (scheds (kern S) h)) m
    else m' = m"
  using assms by (auto simp: vmm_mutex_trylock_def mutex_got_def Let_def split: if_splits)

lemma mutex_cleanup_data:
  assumes "vmm_mutex_cleanup smp E h frame v m S = Done (S', m')"
  shows "m' = (if mut_lock m \<noteq> 0 \<and> mut_owner m = Some v then m\<lparr>mut_lock := 0, mut_owner := None\<rparr> else m)"
  using assms by (auto simp: vmm_mutex_cleanup_def split: if_splits)

text \<open>
  The states of a mutex after a sequence of calls on any host CPUs and in any state of the rest of the system.  \<open>f n\<close>
  counts the successful lock calls of VCPU \<open>n\<close> less its unlock calls.  No VCPU nests \<open>2 ^ 32\<close> locks.
\<close>

inductive mutex_reach :: "'rq schedalgo \<Rightarrow> nat \<Rightarrow> vmm_mutex \<Rightarrow> vmm_mutex \<Rightarrow> (nat \<Rightarrow> nat) \<Rightarrow> bool" for A a m0 where
  init: "mutex_reach A a m0 m0 (\<lambda>n. 0)"
| lock: "mutex_reach A a m0 m f \<Longrightarrow> algo E = A \<Longrightarrow> unat (mut_lock m) + 1 < 2 ^ 32 \<Longrightarrow>
    current_vcpu (scheds (kern S) h) = Some n \<Longrightarrow> vmm_mutex_lock_timeout k smp E h frame a t m S = Done (S', m', r) \<Longrightarrow>
    mutex_reach A a m0 m' (if r = Finished VMM_OK then f(n := f n + 1) else f)"
| resume: "mutex_reach A a m0 m f \<Longrightarrow> algo E = A \<Longrightarrow> unat (mut_lock m) + 1 < 2 ^ 32 \<Longrightarrow>
    mutex_lock_resume k smp E h frame a n t rc m S = Done (S', m', r) \<Longrightarrow>
    mutex_reach A a m0 m' (if r = Finished VMM_OK then f(n := f n + 1) else f)"
| trylock: "mutex_reach A a m0 m f \<Longrightarrow> unat (mut_lock m) + 1 < 2 ^ 32 \<Longrightarrow>
    current_vcpu (scheds (kern (S :: 'rq ssys)) h) = Some n \<Longrightarrow> vmm_mutex_trylock smp h a m S = Done (S', m', b) \<Longrightarrow>
    mutex_reach A a m0 m' (if b then f(n := f n + 1) else f)"
| unlock: "mutex_reach A a m0 m f \<Longrightarrow> algo E = A \<Longrightarrow>
    current_vcpu (scheds (kern S) h) = Some n \<Longrightarrow> vmm_mutex_unlock smp E h frame a m S = Done (S', m', rc) \<Longrightarrow>
    mutex_reach A a m0 m' (f(n := f n - 1))"
| cleanup: "mutex_reach A a m0 m f \<Longrightarrow> algo E = A \<Longrightarrow> vmm_mutex_cleanup smp E h frame v m S = Done (S', m') \<Longrightarrow>
    mutex_reach A a m0 m' (f(v := 0))"

definition mutex_inv :: "vmm_mutex \<Rightarrow> (nat \<Rightarrow> nat) \<Rightarrow> bool" where
  "mutex_inv m f \<longleftrightarrow> (mut_owner m = None \<longleftrightarrow> mut_lock m = 0) \<and> (\<forall>n. f n = (if mut_owner m = Some n then unat (mut_lock m) else 0))"

lemma mutex_inv_got:
  assumes i: "mutex_inv m f" and b: "unat (mut_lock m) + 1 < 2 ^ 32" and o: "mut_lock m = 0 \<or> mut_owner m = Some n"
  shows "mutex_inv (mutex_got (Some n) m) (f(n := f n + 1))"
proof -
  have "unat (mut_lock m + 1) = unat (mut_lock m) + 1" using unat_add_one [of "mut_lock m"] b by simp
  moreover from this have "mut_lock m + 1 \<noteq> 0" by (metis add_is_0 one_neq_zero unat_0)
  ultimately show ?thesis using i o by (auto simp: mutex_inv_def mutex_got_def)
qed

lemma mutex_inv_unlock:
  assumes i: "mutex_inv m f"
  shows "mutex_inv (if mut_lock m \<noteq> 0 \<and> mut_owner m = Some n
    then if mut_lock m - 1 = 0 then m\<lparr>mut_lock := 0, mut_owner := None\<rparr> else m\<lparr>mut_lock := mut_lock m - 1\<rparr> else m) (f(n := f n - 1))"
proof (cases "mut_lock m \<noteq> 0 \<and> mut_owner m = Some n")
  case True
  have u: "unat (mut_lock m - 1) = unat (mut_lock m) - 1" using True by (simp add: unat_sub_one)
  show ?thesis
  proof (cases "mut_lock m - 1 = 0")
    case one: True
    then have "unat (mut_lock m) = 1" using u True unat_pos [of "mut_lock m"] by simp
    then show ?thesis using i True one by (auto simp: mutex_inv_def)
  next
    case False
    then show ?thesis using i True u by (auto simp: mutex_inv_def)
  qed
next
  case False
  then have "f n = 0" using i by (auto simp: mutex_inv_def)
  then show ?thesis using i False by (auto simp: fun_upd_idem)
qed

lemma mutex_reach_inv: "mutex_reach A a m0 m f \<Longrightarrow> mutex_inv m0 (\<lambda>n. 0) \<Longrightarrow> mutex_inv m f"
proof (induction rule: mutex_reach.induct)
  case (lock m f E S h n k smp frame t S' m' r)
  then show ?case using mutex_lock_data [OF lock.hyps(5)] mutex_inv_got [of m f n] by (auto split: if_splits)
next
  case (resume m f E k smp h frame n t rc S S' m' r)
  then show ?case using mutex_resume_data [OF resume.hyps(4)] mutex_inv_got [of m f n] by (auto split: if_splits)
next
  case (trylock m f S h n smp S' m' b)
  then show ?case using mutex_trylock_data [OF trylock.hyps(4)] mutex_inv_got [of m f n] by (auto split: if_splits)
next
  case (unlock m f E S h n smp frame S' m' rc)
  have "m' = (if mut_lock m \<noteq> 0 \<and> mut_owner m = Some n
    then if mut_lock m - 1 = 0 then m\<lparr>mut_lock := 0, mut_owner := None\<rparr> else m\<lparr>mut_lock := mut_lock m - 1\<rparr> else m)"
    using mutex_unlock_data [OF unlock.hyps(4)] unlock.hyps(3) by simp
  then show ?case using mutex_inv_unlock [OF unlock.IH [OF unlock.prems], of n] by (simp only:)
next
  case (cleanup m f E smp h frame v S S' m')
  then show ?case using mutex_cleanup_data [OF cleanup.hyps(3)] by (auto simp: mutex_inv_def)
qed simp

text \<open>
  C10. Mutual exclusion.  After any sequence of lock, try-lock, unlock and clean-up calls, by any VCPUs and whatever the
  rest of the system does in between, at most one VCPU has locked the mutex more often than it has unlocked it;
  it is the owner that the mutex reports, the counter of the mutex is the depth of its nesting, and the mutex
  reports to be available exactly when there is no such VCPU.
\<close>

theorem mutex_mutual_exclusion:
  assumes "mutex_reach A a (INIT_MUTEX q) m f"
  shows "(0 < f n \<and> 0 < f n' \<longrightarrow> n = n') \<and> (vmm_mutex_owner m = Some n \<longleftrightarrow> 0 < f n)
    \<and> (0 < f n \<longrightarrow> unat (mut_lock m) = f n) \<and> (vmm_mutex_avail m \<longleftrightarrow> (\<forall>n. f n = 0))"
proof -
  have i: "mutex_inv m f" using mutex_reach_inv [OF assms] by (simp add: mutex_inv_def INIT_MUTEX_def)
  then have f: "f k = (if mut_owner m = Some k then unat (mut_lock m) else 0)" for k by (simp add: mutex_inv_def)
  have l: "mut_owner m = Some k \<Longrightarrow> 0 < unat (mut_lock m)" for k using i unat_pos [of "mut_lock m"] by (auto simp: mutex_inv_def)
  have av: "vmm_mutex_avail m \<longleftrightarrow> (\<forall>k. f k = 0)"
  proof (cases "mut_owner m")
    case None
    then show ?thesis using i f by (auto simp: vmm_mutex_avail_def mutex_inv_def)
  next
    case (Some k)
    then show ?thesis using f [of k] l [of k] by (auto simp: vmm_mutex_avail_def intro!: exI [of _ k])
  qed
  show ?thesis
  proof (intro conjI av)
    show "0 < f n \<and> 0 < f n' \<longrightarrow> n = n'" using f [of n] f [of n'] by (auto split: if_splits)
    show "vmm_mutex_owner m = Some n \<longleftrightarrow> 0 < f n" using f [of n] l [of n] by (auto simp: vmm_mutex_owner_def split: if_splits)
    show "0 < f n \<longrightarrow> unat (mut_lock m) = f n" using f [of n] by (auto split: if_splits)
  qed
qed

definition demo_ssys :: "prr_rq ssys" where
  "demo_ssys = \<lparr>wsys = demo_wsys, res_head = (\<lambda>n. [])\<rparr>"

lemma demo_trylock:
  "vmm_mutex_trylock True 0 8 (INIT_MUTEX 5) demo_ssys = Done (unlock_wq 0 5 (demo_ssys\<lparr>wsys := demo_wsys\<lparr>ksys :=
      log_event (WqLock 0 5) (vmm_scheduler_preempt_disable 0 demo_thread)\<rparr>, res_head := (\<lambda>n. [])(1 := [ResMutex 8])\<rparr>),
    \<lparr>mut_lock = 1, mut_owner = Some 1, mut_wq = 5\<rparr>, True)"
  by (simp add: vmm_mutex_trylock_def lock_wq_def vmm_spin_lock_def INIT_MUTEX_def demo_ssys_def demo_wsys_def demo_thread_def demo_defs
      vmm_scheduler_orphan_context_def vmm_manager_vcpu_resource_add_def del: bind_result_eq_Done)

theorem mutex_mutual_exclusion_witness:
  "\<exists>f. mutex_reach prr_algo 8 (INIT_MUTEX 5) \<lparr>mut_lock = 1, mut_owner = Some 1, mut_wq = 5\<rparr> f \<and> 0 < f 1
     \<and> (0 < f 2 \<longrightarrow> 1 = (2::nat))"
proof -
  have c: "current_vcpu (scheds (kern demo_ssys) 0) = Some 1" by (simp add: demo_ssys_def demo_wsys_def demo_thread_def demo_ctrl_def)
  have "mutex_reach prr_algo 8 (INIT_MUTEX 5) \<lparr>mut_lock = 1, mut_owner = Some 1, mut_wq = 5\<rparr> ((\<lambda>n. 0)(1 := 1))"
    using mutex_reach.trylock [OF mutex_reach.init _ c demo_trylock] by (simp add: INIT_MUTEX_def)
  then show ?thesis using mutex_mutual_exclusion by (metis One_nat_def fun_upd_same zero_less_one)
qed

section \<open>Locking ends\<close>

lemma ex_triple [simp]: "\<exists>a b c. x = (a, b, c)"
  by (cases x) auto

context ready_queue
begin

lemma mutex_lock_loop_ends:
  assumes i: "sched_inv inv members hw N hosts (kern S)" and E: "env_ok A hw E" and h: "h \<in> hosts"
    and c: "current_vcpu (scheds (kern S) h) = Some n" "state (vcpus (kern S) n) = VMM_VCPU_STATE_RUNNING"
    and o: "vmm_scheduler_orphan_context h (kern S)" "\<not> is_idle hosts (kern S) n"
    and l: "wq_priv (vcpus (kern S) n) = None" "preempt_count (vcpus (kern S) n) = 1"
  shows "\<exists>x. mutex_lock_loop (Suc (Suc k)) smp E h frame a (Some n) t m S = Done x"
proof -
  have once: "\<exists>x. mutex_lock_loop (Suc j) smp E h frame a (Some n) t m S = Done x"
    if "\<not> resumed (vcpus (kern S) n) \<or> t = Some 0" "sched_inv inv members hw N hosts (kern S)"
      "current_vcpu (scheds (kern S) h) = Some n" "state (vcpus (kern S) n) = VMM_VCPU_STATE_RUNNING"
      "vmm_scheduler_orphan_context h (kern S)" "\<not> is_idle hosts (kern S) n"
      "wq_priv (vcpus (kern S) n) = None" "preempt_count (vcpus (kern S) n) = 1" for S :: "'rq ssys" and t j
  proof -
  note pre = that
  show ?thesis
  proof (cases "t = Some 0")
    case True
    then show ?thesis using pre(5) by (simp add: waitqueue_sleep_locked_def)
  next
    case False
    then obtain s' nx where "waitqueue_sleep_locked smp E h frame (mut_wq m) t (wsys S)
        = Done ((waitqueue_link (now E) (mut_wq m) n t (wsys S))\<lparr>ksys := s'\<rparr>, Suspended n VMM_OK)"
      using sleep_locked_ok [OF pre(2) E h pre(3,4) _ pre(5-8) False] pre(1) by blast
    then show ?thesis by simp
  qed
  qed
  show ?thesis
  proof (cases "\<not> resumed (vcpus (kern S) n) \<or> t = Some 0")
    case True
    then show ?thesis using once [OF _ i c o l] by blast
  next
    case False
    then obtain w rc t' where r: "waitqueue_sleep_locked smp E h frame (mut_wq m) t (wsys S) = Done (w, Returned rc t')"
      "ksys w = upd_vcpu n (\<lambda>v. v\<lparr>resumed := False, wq_lock := None, wq_priv := None\<rparr>) (kern S)"
      using sleep_resumed [OF i c _ o(1) l(1), of t smp E frame "mut_wq m"] by auto
    have "sched_inv inv members hw N hosts (ksys w)" unfolding r(2) by (rule keep_vcpu_inv [OF i]) simp_all
    then have "\<exists>x. mutex_lock_loop (Suc k) smp E h frame a (Some n) t' m (S\<lparr>wsys := w\<rparr>) = Done x"
      using c o l r(2) by (intro once) (simp_all add: vmm_scheduler_orphan_context_def is_idle_def)
    then show ?thesis using r(1) by (simp del: mutex_lock_loop.simps(2) add: mutex_lock_loop.simps(2) [of "Suc k"])
  qed
qed

lemma mutex_lock_ends:
  assumes i: "sched_inv inv members hw N hosts (kern S)" and E: "env_ok A hw E" and h: "h \<in> hosts"
    and c: "current_vcpu (scheds (kern S) h) = Some n" "state (vcpus (kern S) n) = VMM_VCPU_STATE_RUNNING"
    and o: "vmm_scheduler_orphan_context h (kern S)" "\<not> is_idle hosts (kern S) n"
    and l: "wq_priv (vcpus (kern S) n) = None" "preempt_count (vcpus (kern S) n) = 0" "\<not> lock_held (mut_wq m) (trace (kern S))"
    and k: "2 \<le> k"
  shows "\<exists>x. vmm_mutex_lock_timeout k smp E h frame a t m S = Done x"
proof -
  have nn: "\<not> irq_context (scheds (kern S) h)" using o(1) c(1) by (simp add: vmm_scheduler_orphan_context_def)
  let ?s = "log_event (WqLock h (mut_wq m)) (vmm_scheduler_preempt_disable h (kern S))" let ?S = "S\<lparr>wsys := (wsys S)\<lparr>ksys := ?s\<rparr>\<rparr>"
  obtain k' where k': "k = Suc (Suc k')" using k by (metis add_2_eq_Suc le_Suc_ex)
  have "preempt_count (vcpus ?s n) = 1" using c(1) nn l(2) by (simp add: vmm_scheduler_preempt_disable_def)
  then have "\<exists>x. mutex_lock_loop k smp E h frame a (Some n) t m ?S = Done x"
    unfolding k' using spin_lock_inv(1) [OF i] E h c o l(1)
    by (intro mutex_lock_loop_ends) (auto simp: vmm_scheduler_orphan_context_def is_idle_def)
  then obtain x where "mutex_lock_loop k smp E h frame a (Some n) t m ?S = Done x" by blast
  then have "vmm_mutex_lock_timeout k smp E h frame a t m S = Done (finish_wq h (mut_wq m) x)"
    using o(1) c(1) l(3) by (simp add: vmm_mutex_lock_timeout_def lock_wq_def vmm_spin_lock_def del: bind_result_eq_Done)
  then show ?thesis by blast
qed

end

text \<open>
  C11. Locking a mutex ends.  An orphan VCPU that runs, holds no spin lock and is not the idle VCPU gets an answer from
  the lock call, or is suspended, after at most two rounds of its loop, whatever the mutex, the timeout and
  pending wake-ups are: it neither spins nor runs into a panic or a corruption of the queues.
\<close>

theorem vmm_mutex_lock_ends:
  assumes "sched_inv prr_inv prr_members hw N hosts (kern S)" and "env_ok prr_algo hw E" and "h \<in> hosts"
    and "current_vcpu (scheds (kern S) h) = Some n" "state (vcpus (kern S) n) = VMM_VCPU_STATE_RUNNING"
    and "vmm_scheduler_orphan_context h (kern S)" "\<not> is_idle hosts (kern S) n"
    and "wq_priv (vcpus (kern S) n) = None" "preempt_count (vcpus (kern S) n) = 0" "\<not> lock_held (mut_wq m) (trace (kern S))"
  shows "\<exists>S' m' r. vmm_mutex_lock_timeout 2 smp E h frame a t m S = Done (S', m', r)
    \<and> (r = Finished VMM_OK \<longrightarrow> vmm_mutex_owner m' = Some n)"
proof -
  obtain S' m' r where r: "vmm_mutex_lock_timeout 2 smp E h frame a t m S = Done (S', m', r)"
    using prr.mutex_lock_ends [OF assms, of 2 smp frame a t] by (metis order_refl prod_cases3)
  then show ?thesis using mutex_lock_data [OF r] assms(4) by (auto simp: vmm_mutex_owner_def mutex_got_def)
qed

theorem vmm_mutex_lock_ends_witness:
  "\<exists>S' m' r. vmm_mutex_lock_timeout 2 True (demo_env prr_algo) 0 9 8 (Some 50) \<lparr>mut_lock = 1, mut_owner = Some 3, mut_wq = 5\<rparr> demo_ssys
     = Done (S', m', r) \<and> (r = Finished VMM_OK \<longrightarrow> vmm_mutex_owner m' = Some 1)"
proof -
  let ?m = "\<lparr>mut_lock = 1, mut_owner = Some 3, mut_wq = 5\<rparr>"
  have k: "kern demo_ssys = demo_thread" by (simp add: demo_ssys_def demo_wsys_def)
  have "current_vcpu (scheds (kern demo_ssys) 0) = Some 1" "state (vcpus (kern demo_ssys) 1) = VMM_VCPU_STATE_RUNNING"
    "vmm_scheduler_orphan_context 0 (kern demo_ssys)" "\<not> is_idle {0} (kern demo_ssys) 1" "wq_priv (vcpus (kern demo_ssys) 1) = None"
    "preempt_count (vcpus (kern demo_ssys) 1) = 0" "\<not> lock_held (mut_wq ?m) (trace (kern demo_ssys))"
    by (simp_all add: k is_idle_def vmm_scheduler_orphan_context_def demo_thread_def demo_defs)
  moreover have "sched_inv prr_inv prr_members irq_demo_arch 2 {0} (kern demo_ssys)" using demo_thread_inv by (simp only: k)
  ultimately show ?thesis by (intro vmm_mutex_lock_ends [OF _ demo_env_ok [of prr_algo], where hosts = "{0}" and N = 2]) simp_all
qed

section \<open>Semaphores stay within their limit\<close>

definition sem_held :: "(nat \<times> u32) list \<Rightarrow> nat" where
  "sem_held es = sum_list (map (\<lambda>e. unat (snd e)) es)"

definition sem_inv :: "vmm_semaphore \<Rightarrow> bool" where
  "sem_inv m \<longleftrightarrow> unat (sem_value m) + sem_held (sem_res m) \<le> unat (sem_limit m) \<and> distinct (map fst (sem_res m))
     \<and> (\<forall>e \<in> set (sem_res m). snd e \<noteq> 0)"

lemma find_resource_Some: "semaphore_find_resource es v = Some e \<Longrightarrow> e \<in> set es \<and> v = Some (fst e)"
  by (induction es) (auto split: if_splits)

lemma find_resource_None: "semaphore_find_resource es (Some n) = None \<longleftrightarrow> n \<notin> fst ` set es"
  by (induction es) auto

lemma first_resource_Some: "semaphore_first_resource m = Some e \<Longrightarrow> e \<in> set (sem_res m)"
  by (auto simp: semaphore_first_resource_def split: list.splits)

lemma sres_update_fst [simp]: "map fst (sres_update v c es) = map fst es"
  by (auto simp: sres_update_def)

lemma sres_notin [simp]: "v \<notin> fst ` set es \<Longrightarrow> sres_update v c es = es" "v \<notin> fst ` set es \<Longrightarrow> sres_delete v es = es"
  by (force simp: sres_update_def sres_delete_def filter_id_conv intro!: map_idI)+

lemma sem_held_update:
  "(v, c0) \<in> set es \<Longrightarrow> distinct (map fst es) \<Longrightarrow> sem_held (sres_update v c es) + unat c0 = sem_held es + unat c"
proof (induction es)
  case (Cons e es)
  show ?case
  proof (cases "e = (v, c0)")
    case True
    then have "sres_update v c es = es" using Cons.prems by simp
    then show ?thesis using True by (simp add: sres_update_def sem_held_def)
  next
    case False
    then have "v \<in> fst ` set es" using Cons.prems(1) by (auto intro: rev_image_eqI)
    then have "fst e \<noteq> v" using Cons.prems(2) by auto
    then show ?thesis using Cons False by (simp add: sres_update_def sem_held_def)
  qed
qed simp

lemma sem_held_delete:
  "(v, c0) \<in> set es \<Longrightarrow> distinct (map fst es) \<Longrightarrow> sem_held (sres_delete v es) + unat c0 = sem_held es"
proof (induction es)
  case (Cons e es)
  show ?case
  proof (cases "e = (v, c0)")
    case True
    then have "sres_delete v es = es" using Cons.prems by simp
    then show ?thesis using True by (simp add: sres_delete_def sem_held_def)
  next
    case False
    then have "v \<in> fst ` set es" using Cons.prems(1) by (auto intro: rev_image_eqI)
    then have "fst e \<noteq> v" using Cons.prems(2) by auto
    then show ?thesis using Cons False by (simp add: sres_delete_def sem_held_def)
  qed
qed simp

lemma sres_update_set: "e \<in> set (sres_update v c es) \<Longrightarrow> e \<in> set es \<or> e = (v, c)"
  by (auto simp: sres_update_def)

lemma sres_delete_keeps: "distinct (map fst es) \<Longrightarrow> distinct (map fst (sres_delete v es))"
  "\<forall>e \<in> set es. snd e \<noteq> 0 \<Longrightarrow> \<forall>e \<in> set (sres_delete v es). snd e \<noteq> 0"
  by (auto simp: sres_delete_def distinct_map_filter)

text \<open>What the three kinds of change do to a semaphore.\<close>

definition sem_took :: "nat \<Rightarrow> vmm_semaphore \<Rightarrow> vmm_semaphore" where
  "sem_took n m = (case semaphore_find_resource (sem_res m) (Some n) of
      None \<Rightarrow> m\<lparr>sem_res := sem_res m @ [(n, 1)], sem_value := sem_value m - 1\<rparr>
    | Some (v, c) \<Rightarrow> m\<lparr>sem_res := sres_update v (c + 1) (sem_res m), sem_value := sem_value m - 1\<rparr>)"

lemma sem_inv_took:
  assumes i: "sem_inv m" and v: "sem_value m \<noteq> 0"
  shows "sem_inv (sem_took n m)" "sem_limit (sem_took n m) = sem_limit m"
proof -
  have u: "unat (sem_value m - 1) + 1 = unat (sem_value m)" using v by (rule unat_pred)
  show "sem_limit (sem_took n m) = sem_limit m" by (auto simp: sem_took_def split: option.split)
  show "sem_inv (sem_took n m)"
  proof (cases "semaphore_find_resource (sem_res m) (Some n)")
    case None
    then have "n \<notin> fst ` set (sem_res m)" by (simp add: find_resource_None)
    then show ?thesis using i None u by (auto simp: sem_took_def sem_inv_def sem_held_def)
  next
    case (Some e)
    obtain c where e: "e = (n, c)" "(n, c) \<in> set (sem_res m)" using find_resource_Some [OF Some] by (cases e) auto
    have d: "distinct (map fst (sem_res m))" using i by (simp add: sem_inv_def)
    have "unat c \<le> sem_held (sem_res m)" using sem_held_delete [OF e(2) d] by simp
    then have "unat c + 1 \<le> unat (sem_limit m)" using i u by (simp add: sem_inv_def)
    then have c: "unat (c + 1) = unat c + 1" using unat_bound [of "sem_limit m"] by (intro unat_add_one) simp
    then have "c + 1 \<noteq> 0" by (metis add_is_0 one_neq_zero unat_0)
    then show ?thesis using i Some e u c sem_held_update [OF e(2) d, of "c + 1"]
      by (auto simp: sem_took_def sem_inv_def dest!: sres_update_set)
  qed
qed

definition sem_gave :: "nat option \<Rightarrow> vmm_semaphore \<Rightarrow> vmm_semaphore" where
  "sem_gave cur m = (let m1 = m\<lparr>sem_value := sem_value m + 1\<rparr>
     in case (case semaphore_find_resource (sem_res m) cur of Some e \<Rightarrow> Some e | None \<Rightarrow> semaphore_first_resource m) of
          None \<Rightarrow> m1
        | Some (v, c) \<Rightarrow> if c - 1 \<noteq> 0 then m1\<lparr>sem_res := sres_update v (c - 1) (sem_res m)\<rparr>
                         else m1\<lparr>sem_res := sres_delete v (sem_res m)\<rparr>)"

lemma sem_inv_gave:
  assumes i: "sem_inv m" and v: "sem_value m < sem_limit m"
  shows "sem_inv (sem_gave cur m)" "sem_limit (sem_gave cur m) = sem_limit m"
proof -
  show "sem_limit (sem_gave cur m) = sem_limit m" by (auto simp: sem_gave_def Let_def split: option.split)
  have lt: "unat (sem_value m) < unat (sem_limit m)" using v by (simp add: word_less_nat_alt)
  then have u: "unat (sem_value m + 1) = unat (sem_value m) + 1" using unat_bound [of "sem_limit m"] by (intro unat_add_one) simp
  show "sem_inv (sem_gave cur m)"
  proof (cases "case semaphore_find_resource (sem_res m) cur of Some e \<Rightarrow> Some e | None \<Rightarrow> semaphore_first_resource m")
    case None
    then have "sem_res m = []" by (auto simp: semaphore_first_resource_def split: option.splits list.splits)
    then show ?thesis using None i u lt by (simp add: sem_gave_def Let_def sem_inv_def sem_held_def)
  next
    case (Some e)
    obtain w c where e: "e = (w, c)" by (cases e)
    then have m: "(w, c) \<in> set (sem_res m)" using Some by (auto split: option.splits dest: find_resource_Some first_resource_Some)
    then have c: "c \<noteq> 0" and d: "distinct (map fst (sem_res m))" using i by (auto simp: sem_inv_def)
    have uc: "unat (c - 1) + 1 = unat c" using c by (rule unat_pred)
    show ?thesis
    proof (cases "c - 1 = 0")
      case True
      then have "unat c = 1" using uc by simp
      moreover have "sem_gave cur m = m\<lparr>sem_value := sem_value m + 1, sem_res := sres_delete w (sem_res m)\<rparr>"
        using Some e True by (simp add: sem_gave_def)
      ultimately show ?thesis using i u sem_held_delete [OF m d] sres_delete_keeps [where es = "sem_res m" and v = w]
        unfolding sem_inv_def by simp
    next
      case False
      then have "sem_gave cur m = m\<lparr>sem_value := sem_value m + 1, sem_res := sres_update w (c - 1) (sem_res m)\<rparr>"
        using Some e by (simp add: sem_gave_def)
      then show ?thesis using i u uc False sem_held_update [OF m d, of "c - 1"]
        by (auto simp: sem_inv_def dest!: sres_update_set)
    qed
  qed
qed

lemma semaphore_take_data:
  "semaphore_take mem a n rc m S = Done (S', m', r) \<Longrightarrow> r = Finished rc \<and> m' = (if rc = VMM_OK then sem_took n m else m)"
  by (auto simp: semaphore_take_def sem_took_def split: if_splits option.splits)

lemma semaphore_down_loop_data:
  "semaphore_down_loop k mem smp E h frame a n t m S = Done (S', m', r) \<Longrightarrow> m' = m \<or> sem_value m \<noteq> 0 \<and> m' = sem_took n m"
proof (induction k arbitrary: t S)
  case (Suc k)
  show ?case
  proof (cases "sem_value m = 0")
    case True
    then obtain w p where w: "waitqueue_sleep_locked smp E h frame (sem_wq m) t (wsys S) = Done (w, p)" using Suc.prems by auto
    show ?thesis
    proof (cases p)
      case (Returned rc t')
      then show ?thesis using Suc w True by (cases "rc = VMM_OK") (auto dest: semaphore_take_data)
    next
      case (Suspended n rc)
      then show ?thesis using Suc.prems w True by auto
    qed
  next
    case False
    then show ?thesis using Suc.prems semaphore_take_data [of mem a n VMM_OK m S] by auto
  qed
qed simp

lemma semaphore_down_data:
  assumes "vmm_semaphore_down_timeout k mem smp E h frame a t m S = Done (S', m', r)"
  shows "m' = m \<or> (\<exists>n. sem_value m \<noteq> 0 \<and> m' = sem_took n m)"
proof -
  obtain S1 n x where x: "semaphore_down_loop k mem smp E h frame a n t m S1 = Done x" "finish_wq h (sem_wq m) x = (S', m', r)"
    using assms by (auto simp: vmm_semaphore_down_timeout_def split: if_splits option.splits)
  obtain S2 m2 r2 where "x = (S2, m2, r2)" by (cases x)
  then show ?thesis using x semaphore_down_loop_data [of k mem smp E h frame a n t m S1 S2 m2 r2] by (auto simp: finish_wq_data)
qed

lemma semaphore_resume_data:
  assumes "semaphore_down_resume k mem smp E h frame a n t rc m S = Done (S', m', r)"
  shows "m' = m \<or> (\<exists>n. sem_value m \<noteq> 0 \<and> m' = sem_took n m)"
proof -
  obtain w rc' t' x where x: "finish_wq h (sem_wq m) x = (S', m', r)"
    "(if rc' \<noteq> VMM_OK then semaphore_take mem a n rc' m (S\<lparr>wsys := w\<rparr>)
      else semaphore_down_loop k mem smp E h frame a n t' m (S\<lparr>wsys := w\<rparr>)) = Done x"
    using assms by (auto simp: semaphore_down_resume_def)
  obtain S2 m2 r2 where x': "x = (S2, m2, r2)" by (cases x)
  show ?thesis
  proof (cases "rc' = VMM_OK")
    case True
    then show ?thesis using x x' semaphore_down_loop_data [of k mem smp E h frame a n t' m "S\<lparr>wsys := w\<rparr>" S2 m2 r2] by (auto simp: finish_wq_data)
  next
    case False
    then show ?thesis using x x' semaphore_take_data [of mem a n rc' m "S\<lparr>wsys := w\<rparr>" S2 m2 r2] by (simp add: finish_wq_data)
  qed
qed

lemma semaphore_up_data:
  assumes i: "sem_inv m" and u: "vmm_semaphore_up smp E h frame a m S = Done (S', m', rc)"
  shows "m' = (if sem_value m < sem_limit m then sem_gave (current_vcpu (scheds (kern S) h)) m else m)"
proof (cases "sem_value m < sem_limit m")
  case True
  let ?cur = "current_vcpu (scheds (kern S) h)"
  let ?sres = "case semaphore_find_resource (sem_res m) ?cur of Some e \<Rightarrow> Some e | None \<Rightarrow> semaphore_first_resource m"
  show ?thesis
  proof (cases ?sres)
    case None
    then show ?thesis using u True by (auto simp: vmm_semaphore_up_def sem_gave_def Let_def split: if_splits)
  next
    case (Some e)
    obtain v c where e: "e = (v, c)" by (cases e)
    then have "(v, c) \<in> set (sem_res m)" using Some by (auto split: option.splits dest: find_resource_Some first_resource_Some)
    then have "c \<noteq> 0" using i by (auto simp: sem_inv_def)
    then show ?thesis using u True Some e by (auto simp: vmm_semaphore_up_def sem_gave_def Let_def split: if_splits)
  qed
next
  case False
  then show ?thesis using u by (auto simp: vmm_semaphore_up_def Let_def split: if_splits)
qed

lemma semaphore_cleanup_inv:
  assumes i: "sem_inv m" and c: "vmm_semaphore_cleanup smp E h frame v m S = Done (S', m')"
  shows "sem_inv m' \<and> sem_limit m' = sem_limit m"
proof (cases "semaphore_find_resource (sem_res m) (Some v)")
  case None
  then show ?thesis using i c by (simp add: vmm_semaphore_cleanup_def)
next
  case (Some e)
  obtain k where e: "e = (v, k)" "(v, k) \<in> set (sem_res m)" using find_resource_Some [OF Some] by (cases e) auto
  have d: "distinct (map fst (sem_res m))" and k: "k \<noteq> 0" using i e(2) by (auto simp: sem_inv_def)
  note del = sem_held_delete [OF e(2) d]
  have le: "unat (sem_value m) + unat k \<le> unat (sem_limit m)" using i del by (simp add: sem_inv_def)
  then have u: "unat (sem_value m + k) = unat (sem_value m) + unat k"
    using unat_bound [of "sem_limit m"] by (intro unat_add_no_wrap) simp
  then have "\<not> sem_value m + k > sem_limit m" using le by (simp add: word_less_nat_alt)
  then have "m' = m\<lparr>sem_value := sem_value m + k, sem_res := sres_delete v (sem_res m)\<rparr>"
    using c Some e(1) k by (auto simp: vmm_semaphore_cleanup_def Let_def)
  then show ?thesis using i u del sres_delete_keeps [where es = "sem_res m" and v = v] unfolding sem_inv_def by simp
qed

text \<open>The states of a semaphore after a sequence of calls, in any state of the rest of the system.\<close>

inductive sem_reach :: "'rq schedalgo \<Rightarrow> nat \<Rightarrow> vmm_semaphore \<Rightarrow> vmm_semaphore \<Rightarrow> bool" for A a m0 where
  init: "sem_reach A a m0 m0"
| down: "sem_reach A a m0 m \<Longrightarrow> algo E = A \<Longrightarrow> vmm_semaphore_down_timeout k mem smp E h frame a t m S = Done (S', m', r) \<Longrightarrow> sem_reach A a m0 m'"
| resume: "sem_reach A a m0 m \<Longrightarrow> algo E = A \<Longrightarrow> semaphore_down_resume k mem smp E h frame a n t rc m S = Done (S', m', r) \<Longrightarrow> sem_reach A a m0 m'"
| up: "sem_reach A a m0 m \<Longrightarrow> algo E = A \<Longrightarrow> vmm_semaphore_up smp E h frame a m S = Done (S', m', rc) \<Longrightarrow> sem_reach A a m0 m'"
| cleanup: "sem_reach A a m0 m \<Longrightarrow> algo E = A \<Longrightarrow> vmm_semaphore_cleanup smp E h frame v m S = Done (S', m') \<Longrightarrow> sem_reach A a m0 m'"

lemma sem_reach_inv: "sem_reach A a m0 m \<Longrightarrow> sem_inv m0 \<Longrightarrow> sem_inv m \<and> sem_limit m = sem_limit m0"
proof (induction rule: sem_reach.induct)
  case (down m E k mem smp h frame t S S' m' r)
  then show ?case using semaphore_down_data [OF down.hyps(3)] sem_inv_took [of m] by auto
next
  case (resume m E k mem smp h frame n t rc S S' m' r)
  then show ?case using semaphore_resume_data [OF resume.hyps(3)] sem_inv_took [of m] by auto
next
  case (up m E smp h frame S S' m' rc)
  then show ?case using semaphore_up_data [OF _ up.hyps(3)] sem_inv_gave [of m] by (auto split: if_splits)
next
  case (cleanup m E smp h frame v S S' m')
  then show ?case using semaphore_cleanup_inv [OF _ cleanup.hyps(3)] by auto
qed simp

text \<open>
  C13. A semaphore that starts with a value within its limit keeps to it: after any sequence of up, down and clean-up
  calls the value and what the VCPUs hold together do not exceed the limit, so neither the value nor a
  holder's count ever wraps, every VCPU has at most one entry, and no entry is empty.
\<close>

theorem semaphore_within_limit:
  assumes "val \<le> lim" and "sem_reach A a (INIT_SEMAPHORE lim val q) m"
  shows "unat (vmm_semaphore_avail m) + sum_list (map (\<lambda>e. unat (snd e)) (sem_res m)) \<le> unat (vmm_semaphore_limit m)
    \<and> vmm_semaphore_limit m = lim \<and> distinct (map fst (sem_res m)) \<and> (\<forall>e \<in> set (sem_res m). snd e \<noteq> 0)"
proof -
  have "sem_inv (INIT_SEMAPHORE lim val q)" using assms(1) by (simp add: sem_inv_def INIT_SEMAPHORE_def sem_held_def word_le_nat_alt)
  then have "sem_inv m \<and> sem_limit m = lim" using sem_reach_inv [OF assms(2)] by (simp add: INIT_SEMAPHORE_def)
  then show ?thesis by (auto simp: sem_inv_def sem_held_def vmm_semaphore_avail_def vmm_semaphore_limit_def)
qed

lemma demo_down:
  "\<exists>S'. vmm_semaphore_down_timeout (Suc 1) True True (demo_env prr_algo) 0 9 8 None (INIT_SEMAPHORE 3 2 5) demo_ssys
     = Done (S', \<lparr>sem_limit = 3, sem_value = 1, sem_res = [(1, 1)], sem_wq = 5\<rparr>, Finished VMM_OK)"
  by (simp add: vmm_semaphore_down_timeout_def lock_wq_def vmm_spin_lock_def INIT_SEMAPHORE_def demo_ssys_def demo_wsys_def demo_thread_def
      demo_defs vmm_scheduler_orphan_context_def semaphore_take_def finish_wq_def del: bind_result_eq_Done)

theorem semaphore_within_limit_witness:
  "\<exists>m. sem_reach prr_algo 8 (INIT_SEMAPHORE 3 2 5) m \<and> sem_res m = [(1, 1)]
     \<and> unat (vmm_semaphore_avail m) + sum_list (map (\<lambda>e. unat (snd e)) (sem_res m)) \<le> unat (vmm_semaphore_limit m)"
proof -
  let ?m = "\<lparr>sem_limit = 3, sem_value = 1, sem_res = [(1, 1)], sem_wq = 5\<rparr>"
  have "algo (demo_env prr_algo) = prr_algo" by (simp add: demo_env_def)
  then have r: "sem_reach prr_algo 8 (INIT_SEMAPHORE 3 2 5) ?m" using sem_reach.down [OF sem_reach.init] demo_down by blast
  have "sem_res ?m = [(1, 1)]" by simp
  moreover have le: "(2::u32) \<le> 3" by simp
  ultimately show ?thesis using conjunct1 [OF semaphore_within_limit [OF le r]] r by blast
qed

section \<open>Handing over a mutex\<close>

lemma lock_wq_free: "\<not> lock_held q (trace (kern S)) \<Longrightarrow>
    lock_wq smp h q S = Done (S\<lparr>wsys := (wsys S)\<lparr>ksys := log_event (WqLock h q) (vmm_scheduler_preempt_disable h (kern S))\<rparr>\<rparr>)"
  by (simp add: lock_wq_def vmm_spin_lock_def)

lemma wq_inv_empty: "wq_inv w \<Longrightarrow> vcpu_count (wqs w q) = 0 \<longleftrightarrow> vcpu_list (wqs w q) = []"
  using wq_invD(2) [of w q] by (metis length_0_conv unat_eq_0)

context ready_queue
begin

lemma wakeall_wq_ok:
  assumes i: "sched_inv inv members hw N hosts (kern S)" and E: "env_ok A hw E" and h: "h \<in> hosts" and q: "wq_inv (wsys S)"
    and pre: "wake_pre E h (vcpu_list (wqs (wsys S) wq)) (kern S)"
  shows "\<exists>s' rc. wakeall_wq smp E h frame wq S = Done (S\<lparr>wsys := (wsys S)\<lparr>ksys := s'\<rparr>\<rparr>, rc) \<and> (rc = VMM_OK \<or> rc = VMM_ENOENT)
    \<and> sched_inv inv members hw N hosts s' \<and> framed (kern S) s' \<and> (\<forall>n \<in> set (vcpu_list (wqs (wsys S) wq)). is_live (vcpus s' n))"
proof (cases "vcpu_count (wqs (wsys S) wq) = 0")
  case True
  then have "wakeall_wq smp E h frame wq S = Done (S\<lparr>wsys := (wsys S)\<lparr>ksys := kern S\<rparr>\<rparr>, VMM_ENOENT)"
    by (simp add: wakeall_wq_def waitqueue_wakeall_def)
  then show ?thesis using i True wq_inv_empty [OF q, of wq] by (intro exI [of _ "kern S"]) simp
next
  case False
  then obtain s' where "waitqueue_wakeall smp E h frame wq (wsys S) = Done ((wsys S)\<lparr>ksys := s'\<rparr>, VMM_OK)" "sched_inv inv members hw N hosts s'"
    "framed (kern S) s'" "\<forall>n \<in> set (vcpu_list (wqs (wsys S) wq)). is_live (vcpus s' n)"
    using wakeall_ok [OF i E h pre] by blast
  then show ?thesis by (intro exI [of _ s']) (simp add: wakeall_wq_def)
qed

end

text \<open>
  C12. Unlocking hands over.  The owner of a mutex, an orphan VCPU that has locked it once, unlocks it while the lock of
  the queue is free.  The conditions for waking hold: the host CPUs of the waiting VCPUs are online, and no VCPU that
  waits for the mutex, or that is READY on the host CPU of the owner, has a higher priority than the owner; with such a VCPU
  the owner would be preempted while it holds the lock of the queue, and the woken VCPU deadlocks on it
  (\<open>wake_superior_deadlocks\<close>).  Then the call returns \<^verbatim>\<open>VMM_OK\<close>, also when nobody waits, the mutex is available, every VCPU that waited for it is READY
  or RUNNING, and the lock of the queue is free.
\<close>

theorem vmm_mutex_unlock_hands_over:
  assumes "sched_inv prr_inv prr_members hw N hosts (kern S)" and "env_ok prr_algo hw E" and "h \<in> hosts"
    and "current_vcpu (scheds (kern S) h) = Some n" "vmm_scheduler_orphan_context h (kern S)"
    and "mut_owner m = Some n" "mut_lock m = 1" "ResMutex a \<in> set (res_head S n)"
    and "wq_inv (wsys S)" "wake_pre E h (vcpu_list (wqs (wsys S) (mut_wq m))) (kern S)" "\<not> lock_held (mut_wq m) (trace (kern S))"
  shows "\<exists>S' m'. vmm_mutex_unlock smp E h frame a m S = Done (S', m', VMM_OK) \<and> vmm_mutex_avail m' \<and> vmm_mutex_owner m' = None
    \<and> (\<forall>v \<in> set (vcpu_list (wqs (wsys S) (mut_wq m))). is_live (vcpus (kern S') v))
    \<and> sched_inv prr_inv prr_members hw N hosts (kern S') \<and> \<not> lock_held (mut_wq m) (trace (kern S'))"
proof -
  let ?s1 = "log_event (WqLock h (mut_wq m)) (vmm_scheduler_preempt_disable h (kern S))"
  let ?S1 = "S\<lparr>wsys := (wsys S)\<lparr>ksys := ?s1\<rparr>\<rparr>"
  let ?S2 = "?S1\<lparr>res_head := (res_head S)(n := remove1 (ResMutex a) (res_head S n))\<rparr>"
  have q: "wq_inv (wsys ?S2)" using wq_inv_links [OF assms(9), of "wsys ?S2"] spin_links(1) [of smp h "mut_wq m" "kern S" ?s1] assms(11)
    by (simp add: vmm_spin_lock_def)
  have pre: "wake_pre E h (vcpu_list (wqs (wsys ?S2) (mut_wq m))) (kern ?S2)" using spin_lock_wake_pre [OF assms(10)] by simp
  have i2: "sched_inv prr_inv prr_members hw N hosts (kern ?S2)" using spin_lock_inv(1) [OF assms(1)] by simp
  obtain s' rc where w: "wakeall_wq smp E h frame (mut_wq m) ?S2 = Done (?S2\<lparr>wsys := (wsys ?S2)\<lparr>ksys := s'\<rparr>\<rparr>, rc)"
    "rc = VMM_OK \<or> rc = VMM_ENOENT" "sched_inv prr_inv prr_members hw N hosts s'"
    "\<forall>v \<in> set (vcpu_list (wqs (wsys ?S2) (mut_wq m))). is_live (vcpus s' v)"
    using prr.wakeall_wq_ok [OF i2 assms(2,3) q pre] by blast
  let ?S' = "unlock_wq h (mut_wq m) (?S2\<lparr>wsys := (wsys ?S2)\<lparr>ksys := s'\<rparr>\<rparr>)" let ?m' = "m\<lparr>mut_lock := 0, mut_owner := None\<rparr>"
  have "vmm_manager_vcpu_resource_remove (Some n) (ResMutex a) ?S1 = Done (?S2, VMM_OK)"
    using assms(8) by (simp add: vmm_manager_vcpu_resource_remove_def)
  then have "vmm_mutex_unlock smp E h frame a m S = Done (?S', ?m', VMM_OK)"
    using assms(4-7) w(1,2) unfolding vmm_mutex_unlock_def Let_def lock_wq_free [OF assms(11)] by (auto simp del: bind_result_eq_Done)
  moreover have "\<forall>v \<in> set (vcpu_list (wqs (wsys S) (mut_wq m))). is_live (vcpus (kern ?S') v)" using w(4) by (simp add: unlock_wq_def is_live_def)
  moreover have "sched_inv prr_inv prr_members hw N hosts (kern ?S')" using spin_lock_inv(2) [OF w(3)] by (simp add: unlock_wq_def)
  moreover have "vmm_mutex_avail ?m' \<and> vmm_mutex_owner ?m' = None \<and> \<not> lock_held (mut_wq m) (trace (kern ?S'))"
    by (simp add: vmm_mutex_avail_def vmm_mutex_owner_def unlock_wq_def)
  ultimately show ?thesis by blast
qed

text \<open>VCPU 1, of priority 3, runs and owns the mutex at 8; VCPU 2, of priority 2, waits for it.\<close>

definition demo_handover :: "prr_rq ssys" where
  "demo_handover = \<lparr>wsys = \<lparr>ksys = \<lparr>vcpus = (\<lambda>n. if n = 0 then demo_vcpu VMM_VCPU_STATE_READY 0
       else if n = 1 then demo_vcpu VMM_VCPU_STATE_RUNNING 3
       else if n = 2 then (demo_vcpu VMM_VCPU_STATE_PAUSED 2)\<lparr>wq_lock := Some 5, wq_priv := Some 5\<rparr> else demo_vcpu VMM_VCPU_STATE_UNKNOWN 0),
     scheds = (\<lambda>h. if h = 0 then demo_ctrl ((\<lambda>p. [])(0 := [0])) (Some 1) (Some 0) None else demo_ctrl (\<lambda>p. []) None None None),
     online = (\<lambda>h. h = 0), ipis = [], trace = []\<rparr>,
     wqs = (\<lambda>q. INIT_WAITQUEUE)(5 := \<lparr>vcpu_list = [2], vcpu_count = 1\<rparr>), wake_event = (\<lambda>n. None)\<rparr>,
     res_head = (\<lambda>n. [])(1 := [ResMutex 8])\<rparr>"

lemma demo_handover_inv: "sched_inv prr_inv prr_members irq_demo_arch 3 {0} (kern demo_handover)"
  unfolding sched_inv_def prr_inv_def prr_members_def vcpu_ok_def idle_ok_def is_live_def
  by (auto simp: demo_handover_def demo_defs prio_of_def ready_on_def VMM_VCPU_MAX_PRIORITY_def split: if_splits)

lemma demo_handover_wq: "wq_inv (wsys demo_handover)"
  by (auto simp: wq_inv_def demo_handover_def INIT_WAITQUEUE_def demo_defs)

lemma demo_handover_pre: "wake_pre (demo_env prr_algo) 0 (vcpu_list (wqs (wsys demo_handover) 5)) (kern demo_handover)"
  by (auto simp: wake_pre_def can_wake_def ready_on_def vmm_scheduler_orphan_context_def demo_handover_def demo_defs demo_env_def split: if_splits)

theorem vmm_mutex_unlock_hands_over_witness:
  "\<exists>S' m'. vmm_mutex_unlock True (demo_env prr_algo) 0 9 8 \<lparr>mut_lock = 1, mut_owner = Some 1, mut_wq = 5\<rparr> demo_handover = Done (S', m', VMM_OK)
     \<and> vmm_mutex_avail m' \<and> is_live (vcpus (kern S') 2)"
proof -
  let ?m = "\<lparr>mut_lock = 1, mut_owner = Some 1, mut_wq = 5\<rparr>"
  have f: "current_vcpu (scheds (kern demo_handover) 0) = Some 1" "vmm_scheduler_orphan_context 0 (kern demo_handover)"
    "mut_owner ?m = Some 1" "mut_lock ?m = 1" "ResMutex 8 \<in> set (res_head demo_handover 1)"
    "\<not> lock_held (mut_wq ?m) (trace (kern demo_handover))"
    by (simp_all add: demo_handover_def demo_defs vmm_scheduler_orphan_context_def)
  have pre: "wake_pre (demo_env prr_algo) 0 (vcpu_list (wqs (wsys demo_handover) (mut_wq ?m))) (kern demo_handover)"
    using demo_handover_pre by simp
  have "2 \<in> set (vcpu_list (wqs (wsys demo_handover) (mut_wq ?m)))" by (simp add: demo_handover_def)
  then show ?thesis
    using vmm_mutex_unlock_hands_over [OF demo_handover_inv demo_env_ok _ f(1-5) demo_handover_wq pre f(6), of True 9] by blast
qed

text \<open>
  The first VCPU that runs gets the mutex: a VCPU that waits for a mutex and runs again when the mutex is available
  becomes its owner, leaves the queue, and the call returns \<^verbatim>\<open>VMM_OK\<close>.
\<close>

theorem mutex_lock_resume_acquires:
  assumes "wq_inv (wsys S)" and "wq_priv (vcpus (kern S) v) = Some (mut_wq m)" and "\<not> lock_held (mut_wq m) (trace (kern S))"
    and "vmm_mutex_avail m"
  shows "\<exists>S' m'. mutex_lock_resume (Suc k) smp E h frame a v None VMM_OK m S = Done (S', m', Finished VMM_OK)
    \<and> vmm_mutex_owner m' = Some v \<and> mut_lock m' = 1 \<and> v \<notin> set (vcpu_list (wqs (wsys S') (mut_wq m)))
    \<and> ResMutex a \<in> set (res_head S' v) \<and> \<not> lock_held (mut_wq m) (trace (kern S'))"
proof -
  let ?q = "mut_wq m"
  let ?s1 = "log_event (WqLock h ?q) (vmm_scheduler_preempt_disable h (kern S))" let ?w1 = "(wsys S)\<lparr>ksys := ?s1\<rparr>"
  have r: "state_change_relock smp h v (kern S) = Done ?s1"
    using wq_invD(4) [OF assms(1), of v] assms(2,3) by (simp add: state_change_relock_def vmm_spin_lock_def)
  have i1: "wq_inv ?w1" using wq_inv_links [OF assms(1), of ?w1] spin_links(3) [OF r] by simp
  have m: "v \<in> set (vcpu_list (wqs ?w1 ?q))" using wq_invD(3) [OF assms(1), of v ?q] assms(2) by simp
  then obtain w2 where u: "waitqueue_unlink ?q v ?w1 = Done w2" "vcpu_list (wqs w2 ?q) = remove1 v (vcpu_list (wqs ?w1 ?q))"
    by (auto simp: waitqueue_unlink_def Let_def)
  have e: "waitqueue_sleep_resume smp E h ?q v None VMM_OK (wsys S) = Done (w2, VMM_OK, None)"
    using r u(1) by (simp add: waitqueue_sleep_resume_def waitqueue_sleep_end_def)
  have v: "v \<notin> set (vcpu_list (wqs w2 ?q))" using u(2) wq_invD(1) [OF i1, of ?q] by simp
  have a0: "mut_lock m = 0" using assms(4) by (simp add: vmm_mutex_avail_def split: if_splits)
  let ?S3 = "S\<lparr>wsys := w2, res_head := (res_head S)(v := res_head S v @ [ResMutex a])\<rparr>"
  have "mutex_lock_resume (Suc k) smp E h frame a v None VMM_OK m S
      = Done (unlock_wq h ?q ?S3, m\<lparr>mut_lock := 1, mut_owner := Some v\<rparr>, Finished VMM_OK)"
    using e a0 unfolding mutex_lock_resume_def
    by (simp add: mutex_acquire_def vmm_manager_vcpu_resource_add_def finish_wq_def del: bind_result_eq_Done)
  then show ?thesis using v by (intro exI conjI) (auto simp: vmm_mutex_owner_def unlock_wq_def)
qed

theorem mutex_lock_resume_acquires_witness:
  "\<exists>S' m'. mutex_lock_resume 1 True (demo_env prr_algo) 0 9 8 2 None VMM_OK (INIT_MUTEX 5) demo_handover = Done (S', m', Finished VMM_OK)
     \<and> vmm_mutex_owner m' = Some 2"
proof -
  have "wq_priv (vcpus (kern demo_handover) 2) = Some (mut_wq (INIT_MUTEX 5))" "\<not> lock_held (mut_wq (INIT_MUTEX 5)) (trace (kern demo_handover))"
    "vmm_mutex_avail (INIT_MUTEX 5)"
    by (simp_all add: demo_handover_def INIT_MUTEX_def vmm_mutex_avail_def)
  from mutex_lock_resume_acquires [OF demo_handover_wq this, of 0 True "demo_env prr_algo" 0 9 8] show ?thesis by auto
qed

section \<open>Completions\<close>

text \<open>A completion that is done lets a waiter pass at once.\<close>

lemma completion_wait_done:
  assumes "cmpl_done m \<noteq> 0" and "vmm_scheduler_orphan_context h (kern S)" and "\<not> lock_held (cmpl_wq m) (trace (kern S))"
  shows "\<exists>S'. completion_wait_common smp E h frame t m S = Done (S', m\<lparr>cmpl_done := cmpl_done m - 1\<rparr>, Finished VMM_OK)
    \<and> wqs (wsys S') = wqs (wsys S) \<and> (\<forall>n. state (vcpus (kern S') n) = state (vcpus (kern S) n))"
  using assms(1,2) unfolding completion_wait_common_def lock_wq_free [OF assms(3)]
  by (simp add: completion_consume_def finish_wq_def unlock_wq_def del: bind_result_eq_Done)

text \<open>
  Two completions before the first waiter runs: the second one wakes the same VCPU again, to no effect, so the
  second waiter sleeps on although \<^verbatim>\<open>done\<close> is not zero.
\<close>

lemma second_complete_lost:
  assumes "vcpu_list (wqs (wsys S) (cmpl_wq m)) = v # u # vs" and "vcpu_count (wqs (wsys S) (cmpl_wq m)) \<noteq> 0"
    and "state (vcpus (kern S) v) = VMM_VCPU_STATE_READY" and "state (vcpus (kern S) u) = VMM_VCPU_STATE_PAUSED"
    and "\<not> lock_held (cmpl_wq m) (trace (kern S))"
  shows "\<exists>S' m'. vmm_completion_complete smp E h frame m S = Done (S', m', VMM_OK) \<and> cmpl_done m' = cmpl_done m + 1
    \<and> state (vcpus (kern S') u) = VMM_VCPU_STATE_PAUSED"
proof -
  let ?s1 = "log_event (WqLock h (cmpl_wq m)) (vmm_scheduler_preempt_disable h (kern S))" let ?w1 = "(wsys S)\<lparr>ksys := ?s1\<rparr>"
  have "waitqueue_wakefirst smp E h frame (cmpl_wq m) ?w1 = Done (?w1, VMM_OK)"
    by (rule second_wakefirst_lost) (use assms(1-3) in simp_all)
  then show ?thesis using assms(4)
    by (simp add: vmm_completion_complete_def completion_signal_def lock_wq_free [OF assms(5)] wakefirst_wq_def unlock_wq_def
        del: bind_result_eq_Done)
qed

text \<open>Without a waiter \<^verbatim>\<open>vmm_completion_complete\<close> reports an error although it has counted the completion.\<close>

lemma complete_without_waiter:
  assumes "vcpu_count (wqs (wsys S) (cmpl_wq m)) = 0" and "\<not> lock_held (cmpl_wq m) (trace (kern S))"
  shows "\<exists>S'. vmm_completion_complete smp E h frame m S = Done (S', m\<lparr>cmpl_done := cmpl_done m + 1\<rparr>, VMM_ENOENT)"
  using assms(1) by (simp add: vmm_completion_complete_def completion_signal_def lock_wq_free [OF assms(2)] wakefirst_wq_def
      waitqueue_wakefirst_def del: bind_result_eq_Done)

end
