(* ===== verification/VcpuWfi.thy ===== *)
theory VcpuWfi
  imports Waitqueue SchedProps
begin

text \<open>
  Waiting for interrupts, the part of \<^verbatim>\<open>core/vmm_vcpu_irq.c\<close> that pauses and resumes VCPUs, with the small
  operations of \<^verbatim>\<open>core/vmm_manager.c\<close> it uses.

  A guest that executes a wait-for-interrupt instruction has its VCPU paused by
  \<^verbatim>\<open>vmm_vcpu_irq_wait_timeout\<close>; an asserted interrupt, an explicit resume or a timeout makes it READY again.  The
  first part of the wait runs under \<^verbatim>\<open>wfi.lock\<close> and the pause follows after the lock is released, so the two are
  separate definitions, between which other host CPUs may act.

  \<open>'rq isys\<close> adds to the state of the scheduler the asynchronous calls of \<^verbatim>\<open>manager_vcpu_hcpu_func\<close> that wait for
  delivery: host CPU, VCPU and argument.  A state change that preempts an orphan caller returns to it later, and
  nothing follows it here, so the flag for that is dropped.
\<close>

section \<open>State of a VCPU\<close>

definition vmm_manager_vcpu_get_state :: "nat option \<Rightarrow> 'rq system \<Rightarrow> vcpu_state" where
  "vmm_manager_vcpu_get_state n' s = (case n' of None \<Rightarrow> VMM_VCPU_STATE_UNKNOWN | Some n \<Rightarrow> state (vcpus s n))"

text \<open>
  \<^verbatim>\<open>vmm_manager_vcpu_set_state\<close> for a state other than RESET, which the macros \<^verbatim>\<open>vmm_manager_vcpu_resume\<close> and
  \<^verbatim>\<open>vmm_manager_vcpu_pause\<close> call.
\<close>

definition set_state_direct ::
  "'rq sched_env \<Rightarrow> nat \<Rightarrow> nat \<Rightarrow> nat option \<Rightarrow> vcpu_state \<Rightarrow> 'rq system \<Rightarrow> ('rq system \<times> vmm_rc) result" where
  "set_state_direct E ch frame n' new s =
     (case n' of
        None \<Rightarrow> Done (s, VMM_EFAIL)
      | Some n \<Rightarrow> bind_result (vmm_scheduler_state_change E ch frame (Some n) new s) (\<lambda>(s1, rc, _). Done (s1, rc)))"

definition vmm_manager_vcpu_resume ::
  "'rq sched_env \<Rightarrow> nat \<Rightarrow> nat \<Rightarrow> nat option \<Rightarrow> 'rq system \<Rightarrow> ('rq system \<times> vmm_rc) result" where
  "vmm_manager_vcpu_resume E ch frame n' = set_state_direct E ch frame n' VMM_VCPU_STATE_READY"

definition vmm_manager_vcpu_pause ::
  "'rq sched_env \<Rightarrow> nat \<Rightarrow> nat \<Rightarrow> nat option \<Rightarrow> 'rq system \<Rightarrow> ('rq system \<times> vmm_rc) result" where
  "vmm_manager_vcpu_pause E ch frame n' = set_state_direct E ch frame n' VMM_VCPU_STATE_PAUSED"

definition vmm_manager_vcpu_hcpu_resched :: "'rq sched_env \<Rightarrow> nat option \<Rightarrow> 'rq system \<Rightarrow> 'rq system \<times> vmm_rc" where
  "vmm_manager_vcpu_hcpu_resched E n' s =
     (case n' of None \<Rightarrow> (s, VMM_EINVALID) | Some n \<Rightarrow> vmm_scheduler_force_resched E (hcpu (vcpus s n)) s)"

section \<open>Calls on the host CPU of a VCPU\<close>

record 'rq isys =
  irqsys :: "'rq system"
  func_calls :: "(nat \<times> nat \<times> bool) list"

text \<open>
  \<open>func\<close> is the callback; the call runs at once on the calling host CPU, waits in the queue of another one that is
  online, and is dropped otherwise.
\<close>

definition vmm_manager_vcpu_hcpu_func ::
  "nat \<Rightarrow> nat option \<Rightarrow> (vcpu_state \<Rightarrow> bool) \<Rightarrow> (nat \<Rightarrow> bool \<Rightarrow> 'rq system \<Rightarrow> 'rq system result) option \<Rightarrow> bool
     \<Rightarrow> 'rq isys \<Rightarrow> ('rq isys \<times> vmm_rc) result" where
  "vmm_manager_vcpu_hcpu_func ch n' state_mask func' data I =
     (case (n', func') of
        (Some n, Some func) \<Rightarrow>
          let v = vcpus (irqsys I) n
          in if state_mask (state v)
             then if hcpu v = ch
                  then bind_result (func n data (irqsys I)) (\<lambda>s. Done (I\<lparr>irqsys := s\<rparr>, VMM_OK))
                  else if online (irqsys I) (hcpu v) then Done (I\<lparr>func_calls := func_calls I @ [(hcpu v, n, data)]\<rparr>, VMM_OK)
                  else Done (I, VMM_OK)
             else Done (I, VMM_OK)
      | _ \<Rightarrow> Done (I, VMM_EINVALID))"

section \<open>Leaving the wait\<close>

definition vcpu_irq_wfi_try_resume ::
  "'rq sched_env \<Rightarrow> nat \<Rightarrow> nat \<Rightarrow> nat \<Rightarrow> bool \<Rightarrow> 'rq system \<Rightarrow> 'rq system result" where
  "vcpu_irq_wfi_try_resume E ch frame n data s =
     (if data then bind_result (vmm_manager_vcpu_resume E ch frame (Some n) s) (\<lambda>(s1, _). Done s1) else Done s)"

text \<open>The part under \<^verbatim>\<open>wfi.lock\<close>.\<close>

definition wfi_clear :: "nat \<Rightarrow> 'rq system \<Rightarrow> 'rq system" where
  "wfi_clear n s =
     (if wfi_state (irqs (vcpus s n)) then upd_vcpu n (\<lambda>v. v\<lparr>irqs := (irqs v)\<lparr>wfi_state := False, wfi_timer := None\<rparr>\<rparr>) s else s)"

definition vcpu_irq_wfi_resume ::
  "'rq sched_env \<Rightarrow> nat \<Rightarrow> nat \<Rightarrow> nat option \<Rightarrow> bool \<Rightarrow> 'rq isys \<Rightarrow> ('rq isys \<times> vmm_rc) result" where
  "vcpu_irq_wfi_resume E ch frame n' use_async_ipi I =
     (case n' of
        None \<Rightarrow> Done (I, VMM_EINVALID)
      | Some n \<Rightarrow>
          let try_vcpu_resume = wfi_state (irqs (vcpus (irqsys I) n));
              rc = (if try_vcpu_resume then VMM_OK else VMM_ENOTAVAIL);
              I1 = I\<lparr>irqsys := wfi_clear n (irqsys I)\<rparr>
          in if use_async_ipi
             then bind_result (vmm_manager_vcpu_hcpu_func ch (Some n) STATE_INTERRUPTIBLE
                      (Some (vcpu_irq_wfi_try_resume E ch frame)) try_vcpu_resume I1) (\<lambda>(I2, _). Done (I2, rc))
             else if try_vcpu_resume
             then bind_result (vmm_manager_vcpu_resume E ch frame (Some n) (irqsys I1)) (\<lambda>(s, _). Done (I1\<lparr>irqsys := s\<rparr>, rc))
             else Done (I1, rc))"

text \<open>Delivery of the oldest call that waits for host CPU \<open>h\<close>.\<close>

fun take_call :: "nat \<Rightarrow> (nat \<times> nat \<times> bool) list \<Rightarrow> ((nat \<times> bool) \<times> (nat \<times> nat \<times> bool) list) option" where
  "take_call h [] = None"
| "take_call h ((g, c) # cs) = (if g = h then Some (c, cs) else map_option (\<lambda>(d, ds). (d, (g, c) # ds)) (take_call h cs))"

definition manager_vcpu_hcpu_func :: "'rq sched_env \<Rightarrow> nat \<Rightarrow> nat \<Rightarrow> 'rq isys \<Rightarrow> 'rq isys result" where
  "manager_vcpu_hcpu_func E h frame I =
     (case take_call h (func_calls I) of
        None \<Rightarrow> Done I
      | Some ((n, data), cs) \<Rightarrow>
          bind_result (vcpu_irq_wfi_try_resume E h frame n data (irqsys I)) (\<lambda>s. Done \<lparr>irqsys = s, func_calls = cs\<rparr>))"

definition vcpu_irq_wfi_timeout :: "'rq sched_env \<Rightarrow> nat \<Rightarrow> nat \<Rightarrow> nat \<Rightarrow> 'rq isys \<Rightarrow> 'rq isys result" where
  "vcpu_irq_wfi_timeout E ch frame n I = bind_result (vcpu_irq_wfi_resume E ch frame (Some n) False I) (\<lambda>(I1, _). Done I1)"

definition vmm_vcpu_irq_wait_resume ::
  "'rq sched_env \<Rightarrow> nat \<Rightarrow> nat \<Rightarrow> nat option \<Rightarrow> bool \<Rightarrow> 'rq isys \<Rightarrow> ('rq isys \<times> vmm_rc) result" where
  "vmm_vcpu_irq_wait_resume E ch frame n' use_async_ipi I =
     (case n' of
        None \<Rightarrow> Done (I, VMM_EFAIL)
      | Some n \<Rightarrow> if \<not> is_normal (vcpus (irqsys I) n) then Done (I, VMM_EFAIL)
                  else vcpu_irq_wfi_resume E ch frame (Some n) use_async_ipi I)"

text \<open>
  \<^verbatim>\<open>vmm_vcpu_irq_assert\<close>: its checks, the three steps on the entry of the interrupt, and the resume of the VCPU, which
  is the section under \<^verbatim>\<open>wfi.lock\<close> followed by the state change.  The last section of this theory runs these steps
  one at a time, with those of a wait in between.
\<close>

definition irq_assert_guard :: "nat \<Rightarrow> u32 \<Rightarrow> 'rq system \<Rightarrow> bool" where
  "irq_assert_guard n irq_no s \<longleftrightarrow> is_normal (vcpus s n) \<and> STATE_INTERRUPTIBLE (vmm_manager_vcpu_get_state (Some n) s)
     \<and> \<not> irq_no > irq_count (irqs (vcpus s n))"

definition vmm_vcpu_irq_assert ::
  "'rq sched_env \<Rightarrow> nat \<Rightarrow> nat \<Rightarrow> nat option \<Rightarrow> u32 \<Rightarrow> u64 \<Rightarrow> 'rq isys \<Rightarrow> 'rq isys result" where
  "vmm_vcpu_irq_assert E ch frame n' irq_no rsn I =
     (case n' of
        None \<Rightarrow> Done I
      | Some n \<Rightarrow>
          if \<not> irq_assert_guard n irq_no (irqsys I) then Done I
          else bind_result (irq_assert_mark irq_no (vcpus (irqsys I) n)) (\<lambda>(v1, won).
                 let v2 = (if won
                           then case irq_assert_arch (irq_hw E) n irq_no rsn v1 of
                                  (v', accepted) \<Rightarrow> if accepted then irq_assert_count v' else v'
                           else v1)
                 in bind_result (vcpu_irq_wfi_resume E ch frame (Some n) False (I\<lparr>irqsys := upd_vcpu n (\<lambda>_. v2) (irqsys I)\<rparr>))
                      (\<lambda>(I1, _). Done I1)))"

section \<open>Waiting\<close>

text \<open>
  The part of \<^verbatim>\<open>vmm_vcpu_irq_wait_timeout\<close> under the lock: the new state and whether the VCPU is to be paused.
  \<open>wfi_secs\<close> is \<^verbatim>\<open>CONFIG_WFI_TIMEOUT_SECS\<close>.
\<close>

definition irq_wait_locked :: "u64 \<Rightarrow> irq_arch \<Rightarrow> nat \<Rightarrow> u64 \<Rightarrow> 'rq system \<Rightarrow> 'rq system \<times> bool" where
  "irq_wait_locked wfi_secs arch n nsecs s =
     (let q = irqs (vcpus s n)
      in if \<not> wfi_state q \<and> \<not> (execute_pending q \<noteq> 0 \<or> arch_irq_pending arch n)
         then (upd_vcpu n (\<lambda>v. v\<lparr>irqs := (irqs v)\<lparr>wfi_state := True,
                  wfi_timer := Some (if nsecs = 0 then wfi_secs * 1000000000 else nsecs)\<rparr>\<rparr>) s, True)
         else (s, False))"

definition irq_wait_pause :: "'rq sched_env \<Rightarrow> nat \<Rightarrow> nat \<Rightarrow> nat \<Rightarrow> bool \<Rightarrow> 'rq system \<Rightarrow> 'rq system result" where
  "irq_wait_pause E ch frame n try_vcpu_pause s =
     (if try_vcpu_pause then bind_result (vmm_manager_vcpu_pause E ch frame (Some n) s) (\<lambda>(s1, _). Done s1) else Done s)"

definition vmm_vcpu_irq_wait_timeout ::
  "u64 \<Rightarrow> 'rq sched_env \<Rightarrow> nat \<Rightarrow> nat \<Rightarrow> nat option \<Rightarrow> u64 \<Rightarrow> 'rq isys \<Rightarrow> ('rq isys \<times> vmm_rc) result" where
  "vmm_vcpu_irq_wait_timeout wfi_secs E ch frame n' nsecs I =
     (case n' of
        None \<Rightarrow> Done (I, VMM_EFAIL)
      | Some n \<Rightarrow>
          if \<not> is_normal (vcpus (irqsys I) n) then Done (I, VMM_EFAIL)
          else case irq_wait_locked wfi_secs (irq_hw E) n nsecs (irqsys I) of
                 (s, try_vcpu_pause) \<Rightarrow>
                   bind_result (irq_wait_pause E ch frame n try_vcpu_pause s) (\<lambda>s1. Done (I\<lparr>irqsys := s1\<rparr>, VMM_OK)))"

text \<open>The result type of the source is \<^verbatim>\<open>bool\<close>, so the error code of its sanity check reads as true.\<close>

definition vmm_vcpu_irq_wait_state :: "nat option \<Rightarrow> 'rq system \<Rightarrow> bool" where
  "vmm_vcpu_irq_wait_state n' s =
     (case n' of
        None \<Rightarrow> True
      | Some n \<Rightarrow> if \<not> is_normal (vcpus s n) then True else wfi_state (irqs (vcpus s n)))"

section \<open>What the operations do to the scheduler\<close>

lemma irqs_ok_tbl: "irqs_ok q \<Longrightarrow> irq_count q = arch_irq_count arch n \<Longrightarrow> irqs_tbl arch n q"
  by (auto simp: irqs_ok_def irqs_tbl_def split: option.splits)

lemma irqs_wfi [simp]:
  "irqs_ok (q\<lparr>wfi_state := b\<rparr>) = irqs_ok q" "irqs_ok (q\<lparr>wfi_timer := t\<rparr>) = irqs_ok q"
  "irqs_tbl arch n (q\<lparr>wfi_state := b\<rparr>) = irqs_tbl arch n q" "irqs_tbl arch n (q\<lparr>wfi_timer := t\<rparr>) = irqs_tbl arch n q"
  by (simp_all add: irqs_ok_def irqs_tbl_def split: option.split)

text \<open>Changing the interrupt table of a VCPU leaves the scheduler alone.\<close>

lemma set_irqs_inv:
  assumes i: "sched_inv qinv members hw N hosts s" and t: "irqs_tbl hw n (irqs (vcpus s n)) \<Longrightarrow> irqs_tbl hw n q"
  shows "sched_inv qinv members hw N hosts (upd_vcpu n (\<lambda>v. v\<lparr>irqs := q\<rparr>) s)"
  using sched_invD(5) [OF i, of n] t
  by (intro sched_inv_vcpu [OF i, where n = n and v' = "(vcpus s n)\<lparr>irqs := q\<rparr>"]) (auto simp: vcpu_ok_def)

lemma upd_irqs_inv:
  assumes "sched_inv qinv members hw N hosts s" and "\<And>q. irqs_tbl hw n (f q) = irqs_tbl hw n q"
  shows "sched_inv qinv members hw N hosts (upd_vcpu n (\<lambda>v. v\<lparr>irqs := f (irqs v)\<rparr>) s)"
  using set_irqs_inv [OF assms(1), of n "f (irqs (vcpus s n))"] assms(2) unfolding upd_vcpu_def by simp

lemma wfi_clear_inv: "sched_inv qinv members hw N hosts s \<Longrightarrow> sched_inv qinv members hw N hosts (wfi_clear n s)"
  unfolding wfi_clear_def using upd_irqs_inv [where f = "\<lambda>q. q\<lparr>wfi_state := False, wfi_timer := None\<rparr>"] by auto

lemma switched_live: "switched h n s s' \<Longrightarrow> is_live (vcpus s m) \<Longrightarrow> is_live (vcpus s' m)"
  using switched_state [of h n s s' m] by (auto simp: is_live_def)

context ready_queue
begin

text \<open>A resume of a VCPU that is paused or awake leaves it awake, whatever the caller is switched to.\<close>

lemma resume_ok:
  assumes i: "sched_inv inv members hw N hosts s" and E: "env_ok A hw E" and ch: "ch \<in> hosts" and st: "can_wake (state (vcpus s n))"
  shows "\<exists>s' rc. vmm_manager_vcpu_resume E ch frame (Some n) s = Done (s', rc) \<and> sched_inv inv members hw N hosts s'
    \<and> is_live (vcpus s' n) \<and> framed s s'"
proof -
  have A: "algo E = A" using E by (simp add: env_ok_def)
  let ?vh = "hcpu (vcpus s n)"
  obtain s1 p v' where l: "change_locked E n VMM_VCPU_STATE_READY s = Done (s1, VMM_OK, p)" "sched_inv inv members hw N hosts s1"
    "vcpus s1 = (vcpus s)(n := v')" "framed s s1" "is_live v'"
    using wake_locked [OF i A st] by blast
  have live: "is_live (vcpus s1 n)" using l(3,5) by simp
  have sw: "sched_inv inv members hw N hosts s2 \<and> is_live (vcpus s2 n) \<and> framed s s2"
    if "vmm_scheduler_switch E ?vh (Some r) s1 = Done s2" "?vh \<in> hosts" for r s2
  proof -
    have "sched_inv inv members hw N hosts s2 \<and> (if preemptible s1 ?vh then \<exists>m. switched ?vh m s1 s2 else s2 = s1)"
      using switch_ok [OF l(2) A that(2), of r] that(1) by auto
    then show ?thesis using live switched_live framed_trans [OF l(4) switch_framed [OF that(1)]] by (auto split: if_splits)
  qed
  obtain s' rc t where r: "vmm_scheduler_state_change E ch frame (Some n) VMM_VCPU_STATE_READY s = Done (s', rc, t)"
    "sched_inv inv members hw N hosts s'"
    using state_change_ok [OF i E _ ch, of n VMM_VCPU_STATE_READY frame] by (auto simp: change_ok_def)
  have "s' = s1 \<or> s' = upd_sched ?vh (\<lambda>c. c\<lparr>yield_on_irq_exit := True\<rparr>) s1 \<or> s' = fst (vmm_scheduler_force_resched E ?vh s1)
      \<or> (\<exists>g. ch = ?vh \<and> vmm_scheduler_switch E ?vh g s1 = Done s')"
    using r(1) l(1) by (auto simp: vmm_scheduler_state_change_def vmm_scheduler_preempt_orphan_def Let_def
        split: option.splits if_splits prod.splits)
  moreover have "framed s (upd_sched ?vh (\<lambda>c. c\<lparr>yield_on_irq_exit := True\<rparr>) s1)" using l(4) by (rule framed_step) (simp add: ckeep_def)
  moreover have "framed s (fst (vmm_scheduler_force_resched E ?vh s1))" using l(4) by (simp add: framed_def)
  moreover have "is_live (vcpus s' n) \<and> framed s s'" if "ch = ?vh" "vmm_scheduler_switch E ?vh g s1 = Done s'" for g
  proof (cases g)
    case (Some r)
    then show ?thesis using sw [of r s'] that ch by simp
  qed (use that in \<open>simp add: vmm_scheduler_switch_def\<close>)
  ultimately have "is_live (vcpus s' n) \<and> framed s s'" using live l(4) by auto
  then show ?thesis using r by (auto simp: vmm_manager_vcpu_resume_def set_state_direct_def)
qed

text \<open>Resuming a normal VCPU that runs marks it, so that the pause that follows is skipped.\<close>

lemma resume_running:
  assumes n: "state (vcpus s n) = VMM_VCPU_STATE_RUNNING" "current_vcpu (scheds s (hcpu (vcpus s n))) = Some n" "is_normal (vcpus s n)"
  shows "\<exists>s' rc. vmm_manager_vcpu_resume E ch frame (Some n) s = Done (s', rc) \<and> vcpus s' = (vcpus s)(n := (vcpus s n)\<lparr>resumed := True\<rparr>)
    \<and> (\<forall>g. current_vcpu (scheds s' g) = current_vcpu (scheds s g))"
proof -
  let ?h = "hcpu (vcpus s n)" let ?s1 = "upd_vcpu n (\<lambda>v. v\<lparr>resumed := True\<rparr>) s"
  have l: "change_locked E n VMM_VCPU_STATE_READY s = Done (?s1, VMM_OK, True)"
    using n by (simp add: change_locked_def change_action_def Let_def)
  show ?thesis
  proof (cases "ch = ?h")
    case True
    then show ?thesis using l n
      by (simp add: vmm_manager_vcpu_resume_def set_state_direct_def vmm_scheduler_state_change_def Let_def del: bind_result_eq_Done)
  next
    case False
    have "vmm_scheduler_state_change E ch frame (Some n) VMM_VCPU_STATE_READY s
        = Done (fst (vmm_scheduler_force_resched E ?h ?s1), snd (vmm_scheduler_force_resched E ?h ?s1), False)"
      using l n False by (simp add: vmm_scheduler_state_change_def Let_def del: bind_result_eq_Done split: prod.split)
    then show ?thesis
      by (cases "vmm_scheduler_force_resched E ?h ?s1")
        (auto simp: vmm_manager_vcpu_resume_def set_state_direct_def vmm_scheduler_force_resched_def split: if_splits)
  qed
qed

end

lemma pause_running:
  assumes n: "state (vcpus s n) = VMM_VCPU_STATE_RUNNING" "current_vcpu (scheds s h) = Some n" "hcpu (vcpus s n) = h" "is_normal (vcpus s n)"
  shows "\<exists>s' v'. vmm_manager_vcpu_pause E h frame (Some n) s = Done (s', VMM_OK) \<and> vcpus s' = (vcpus s)(n := v')
    \<and> irqs v' = irqs (vcpus s n) \<and> hcpu v' = h \<and> is_normal v' \<and> current_vcpu (scheds s' h) = Some n
    \<and> state v' = (if resumed (vcpus s n) then VMM_VCPU_STATE_RUNNING else VMM_VCPU_STATE_PAUSED)"
proof -
  let ?s1 = "upd_vcpu n (\<lambda>v. v\<lparr>resumed := False\<rparr>) s"
  show ?thesis
  proof (cases "resumed (vcpus s n)")
    case True
    then have "change_locked E n VMM_VCPU_STATE_PAUSED s = Done (?s1, VMM_OK, False)"
      using n by (simp add: change_locked_def change_action_def Let_def)
    then show ?thesis using n True
      by (intro exI [of _ ?s1] exI [of _ "(vcpus s n)\<lparr>resumed := False\<rparr>"])
        (simp add: vmm_manager_vcpu_pause_def set_state_direct_def vmm_scheduler_state_change_def Let_def del: bind_result_eq_Done)
  next
    case False
    then have "change_action E n VMM_VCPU_STATE_PAUSED s = Done (?s1, VMM_OK, True, False)"
      using n by (simp add: change_action_def Let_def)
    note c = change_locked_commit [OF this]
    let ?f = "commit_state (now E) (state (vcpus s n)) VMM_VCPU_STATE_PAUSED"
    let ?s2 = "upd_sched h (\<lambda>c. c\<lparr>yield_on_irq_exit := True\<rparr>) (upd_vcpu n ?f ?s1)"
    show ?thesis using n False c
      by (intro exI [of _ ?s2] exI [of _ "?f ((vcpus s n)\<lparr>resumed := False\<rparr>)"])
        (simp add: vmm_manager_vcpu_pause_def set_state_direct_def vmm_scheduler_state_change_def Let_def del: bind_result_eq_Done)
  qed
qed

section \<open>Asserting an interrupt\<close>

text \<open>The interrupt \<open>no\<close> is asserted and its VCPU does not wait.\<close>

definition irq_raised :: "u32 \<Rightarrow> vmm_vcpu_irqs \<Rightarrow> bool" where
  "irq_raised no q \<longleftrightarrow> irqs_ok q \<and> \<not> wfi_state q
     \<and> (case irq q of None \<Rightarrow> False | Some t \<Rightarrow> is_asserted t (unat no)) \<and> 1 \<le> execute_pending q"

definition can_assert :: "irq_arch \<Rightarrow> nat \<Rightarrow> u32 \<Rightarrow> u64 \<Rightarrow> vmm_vcpu_irqs \<Rightarrow> bool" where
  "can_assert arch n no rsn q \<longleftrightarrow> irqs_ok q \<and> no < irq_count q \<and> arch_irq_assert arch n no rsn = VMM_OK
     \<and> (case irq q of None \<Rightarrow> False | Some t \<Rightarrow> assertion (t ! unat no) \<noteq> PENDING)"

lemma can_assert_wfi [simp]:
  "can_assert arch n no rsn (q\<lparr>wfi_state := b\<rparr>) = can_assert arch n no rsn q" "can_assert arch n no rsn (q\<lparr>wfi_timer := t\<rparr>) = can_assert arch n no rsn q"
  by (simp_all add: can_assert_def)

section \<open>No interrupt is lost by a wait\<close>

text \<open>
  A wait of VCPU \<open>n\<close> on its host CPU \<open>h\<close> and an assert for it on host CPU \<open>g\<close>, each as the steps between which the
  other may act: what runs under \<^verbatim>\<open>wfi.lock\<close>, an atomic operation on the entry or its counters, and a state change
  of the scheduler, which holds the lock of the VCPU.  The record holds the local variables of the two calls:
  \<^verbatim>\<open>try_vcpu_pause\<close>, whether the assert passed its checks, won the exchange and was accepted by the architecture, and
  \<^verbatim>\<open>try_vcpu_resume\<close>.
\<close>

datatype wfi_step = WaitLocked u64 | WaitPause
  | AssertGuard u32 | AssertMark u32 | AssertArch u32 u64 | AssertCount | AssertWfi | AssertResume

record wfi_locals =
  loc_pause :: bool
  loc_enter :: bool
  loc_won :: bool
  loc_accepted :: bool
  loc_resume :: bool

definition wfi_locals0 :: wfi_locals where
  "wfi_locals0 = \<lparr>loc_pause = False, loc_enter = False, loc_won = False, loc_accepted = False, loc_resume = False\<rparr>"

definition upd_irqsys :: "('rq system \<Rightarrow> 'rq system) \<Rightarrow> 'rq isys \<Rightarrow> 'rq isys" where
  "upd_irqsys f I = I\<lparr>irqsys := f (irqsys I)\<rparr>"

fun step_wfi ::
  "u64 \<Rightarrow> 'rq sched_env \<Rightarrow> nat \<Rightarrow> nat \<Rightarrow> nat \<Rightarrow> nat \<Rightarrow> wfi_step \<Rightarrow> 'rq isys \<times> wfi_locals \<Rightarrow> ('rq isys \<times> wfi_locals) result" where
  "step_wfi secs E h g frame n (WaitLocked nsecs) (I, L) =
     (case irq_wait_locked secs (irq_hw E) n nsecs (irqsys I) of (s, p) \<Rightarrow> Done (I\<lparr>irqsys := s\<rparr>, L\<lparr>loc_pause := p\<rparr>))"
| "step_wfi secs E h g frame n WaitPause (I, L) =
     bind_result (irq_wait_pause E h frame n (loc_pause L) (irqsys I)) (\<lambda>s. Done (I\<lparr>irqsys := s\<rparr>, L))"
| "step_wfi secs E h g frame n (AssertGuard no) (I, L) = Done (I, L\<lparr>loc_enter := irq_assert_guard n no (irqsys I)\<rparr>)"
| "step_wfi secs E h g frame n (AssertMark no) (I, L) =
     (if loc_enter L
      then bind_result (irq_assert_mark no (vcpus (irqsys I) n)) (\<lambda>(v, won).
             Done (upd_irqsys (upd_vcpu n (\<lambda>_. v)) I, L\<lparr>loc_won := won\<rparr>))
      else Done (I, L))"
| "step_wfi secs E h g frame n (AssertArch no rsn) (I, L) =
     (if loc_won L
      then case irq_assert_arch (irq_hw E) n no rsn (vcpus (irqsys I) n) of
             (v, accepted) \<Rightarrow> Done (upd_irqsys (upd_vcpu n (\<lambda>_. v)) I, L\<lparr>loc_accepted := accepted\<rparr>)
      else Done (I, L))"
| "step_wfi secs E h g frame n AssertCount (I, L) =
     Done (if loc_accepted L then upd_irqsys (upd_vcpu n irq_assert_count) I else I, L)"
| "step_wfi secs E h g frame n AssertWfi (I, L) =
     (if loc_enter L
      then Done (upd_irqsys (wfi_clear n) I, L\<lparr>loc_resume := wfi_state (irqs (vcpus (irqsys I) n))\<rparr>)
      else Done (I, L))"
| "step_wfi secs E h g frame n AssertResume (I, L) =
     (if loc_resume L
      then bind_result (vmm_manager_vcpu_resume E g frame (Some n) (irqsys I)) (\<lambda>(s, _). Done (I\<lparr>irqsys := s\<rparr>, L))
      else Done (I, L))"

fun run_wfi ::
  "u64 \<Rightarrow> 'rq sched_env \<Rightarrow> nat \<Rightarrow> nat \<Rightarrow> nat \<Rightarrow> nat \<Rightarrow> wfi_step list \<Rightarrow> 'rq isys \<times> wfi_locals \<Rightarrow> ('rq isys \<times> wfi_locals) result" where
  "run_wfi secs E h g frame n [] c = Done c"
| "run_wfi secs E h g frame n (st # sts) c = bind_result (step_wfi secs E h g frame n st c) (run_wfi secs E h g frame n sts)"

definition wait_steps :: "u64 \<Rightarrow> wfi_step list" where
  "wait_steps nsecs = [WaitLocked nsecs, WaitPause]"

definition assert_steps :: "u32 \<Rightarrow> u64 \<Rightarrow> wfi_step list" where
  "assert_steps no rsn = [AssertGuard no, AssertMark no, AssertArch no rsn, AssertCount, AssertWfi, AssertResume]"

text \<open>Without the other host CPU the steps of each call are the operation of the source.\<close>

lemma run_wfi_wait:
  assumes "is_normal (vcpus (irqsys I) n)"
  shows "vmm_vcpu_irq_wait_timeout secs E h frame (Some n) nsecs I
    = bind_result (run_wfi secs E h g frame n (wait_steps nsecs) (I, wfi_locals0)) (\<lambda>(I1, _). Done (I1, VMM_OK))"
  using assms by (simp add: vmm_vcpu_irq_wait_timeout_def wait_steps_def bind_result_assoc split: prod.split)

lemma bind_case_Done: "bind_result (case x of (a, b) \<Rightarrow> Done (f a b)) g = (case x of (a, b) \<Rightarrow> g (f a b))"
  by (cases x) simp

lemma run_wfi_assert:
  "vmm_vcpu_irq_assert E g frame (Some n) no rsn I
    = bind_result (run_wfi secs E h g frame n (assert_steps no rsn) (I, wfi_locals0)) (\<lambda>(I1, _). Done I1)"
proof (cases "irq_assert_guard n no (irqsys I)")
  case True
  then show ?thesis
    by (cases "irq_assert_mark no (vcpus (irqsys I) n)")
      (auto simp: vmm_vcpu_irq_assert_def assert_steps_def wfi_locals0_def upd_irqsys_def vcpu_irq_wfi_resume_def Let_def
        upd_vcpu_def irq_assert_count_def bind_result_assoc bind_case_Done simp del: bind_result_eq_Done split: prod.splits)
qed (simp add: vmm_vcpu_irq_assert_def assert_steps_def wfi_locals0_def)

lemma irq_wait_locked_spec:
  assumes "sched_inv qinv members hw N hosts s"
  shows "\<exists>s' p b d. irq_wait_locked secs hw n nsecs s = (s', p) \<and> sched_inv qinv members hw N hosts s'
    \<and> vcpus s' = (vcpus s)(n := (vcpus s n)\<lparr>irqs := (irqs (vcpus s n))\<lparr>wfi_state := b, wfi_timer := d\<rparr>\<rparr>) \<and> scheds s' = scheds s
    \<and> (p \<longrightarrow> b \<and> execute_pending (irqs (vcpus s n)) = 0) \<and> (\<not> p \<longrightarrow> b = wfi_state (irqs (vcpus s n)))"
proof -
  let ?q = "irqs (vcpus s n)" let ?d = "if nsecs = 0 then secs * 1000000000 else nsecs"
  let ?s1 = "upd_vcpu n (\<lambda>v. v\<lparr>irqs := (irqs v)\<lparr>wfi_state := True, wfi_timer := Some ?d\<rparr>\<rparr>) s"
  show ?thesis
  proof (cases "\<not> wfi_state ?q \<and> \<not> (execute_pending ?q \<noteq> 0 \<or> arch_irq_pending hw n)")
    case True
    have "irq_wait_locked secs hw n nsecs s = (?s1, True)" using True by (simp add: irq_wait_locked_def)
    moreover have "sched_inv qinv members hw N hosts ?s1"
      using upd_irqs_inv [OF assms, where f = "\<lambda>q. q\<lparr>wfi_state := True, wfi_timer := Some ?d\<rparr>"] by simp
    ultimately show ?thesis using True by (intro exI [of _ ?s1] exI [of _ True] exI [of _ "Some ?d"]) simp
  next
    case False
    then have "irq_wait_locked secs hw n nsecs s = (s, False)" by (auto simp: irq_wait_locked_def Let_def)
    then show ?thesis using assms by (intro exI [of _ s] exI [of _ False] exI [of _ "wfi_state ?q"] exI [of _ "wfi_timer ?q"]) simp
  qed
qed

context ready_queue
begin

lemma wait_pause_ok:
  assumes i: "sched_inv inv members hw N hosts s" and E: "env_ok A hw E" and h: "h \<in> hosts"
    and n: "state (vcpus s n) = VMM_VCPU_STATE_RUNNING" "hcpu (vcpus s n) = h" "is_normal (vcpus s n)" "\<not> is_idle hosts s n"
  shows "\<exists>s' v'. irq_wait_pause E h frame n p s = Done s' \<and> sched_inv inv members hw N hosts s' \<and> vcpus s' = (vcpus s)(n := v')
    \<and> irqs v' = irqs (vcpus s n) \<and> is_normal v' \<and> state v' = (if p \<and> \<not> resumed (vcpus s n) then VMM_VCPU_STATE_PAUSED else VMM_VCPU_STATE_RUNNING)"
proof (cases p)
  case True
  have "current_vcpu (scheds s h) = Some n" using sched_invD(3) [OF i n(1)] n(2) by simp
  then obtain s' v' where s': "vmm_manager_vcpu_pause E h frame (Some n) s = Done (s', VMM_OK)" "vcpus s' = (vcpus s)(n := v')"
    "irqs v' = irqs (vcpus s n)" "is_normal v'" "state v' = (if resumed (vcpus s n) then VMM_VCPU_STATE_RUNNING else VMM_VCPU_STATE_PAUSED)"
    using pause_running [OF n(1) _ n(2,3)] by metis
  have "change_ok hw N hosts s n VMM_VCPU_STATE_PAUSED" using n by (simp add: change_ok_def)
  then have "sched_inv inv members hw N hosts s'"
    using state_change_ok [OF i E _ h, of n VMM_VCPU_STATE_PAUSED frame] s'(1)
    by (auto simp: vmm_manager_vcpu_pause_def set_state_direct_def)
  then show ?thesis using True s' by (intro exI [of _ s'] exI [of _ v']) (simp add: irq_wait_pause_def del: bind_result_eq_Done)
next
  case False
  then show ?thesis using i n by (intro exI [of _ s] exI [of _ "vcpus s n"]) (simp add: irq_wait_pause_def)
qed

end

text \<open>
  The states between the steps: \<open>a\<close> steps of the assert and \<open>b\<close> steps of the wait are done.  The entry of the
  interrupt is free or asserted at first, then asserted and perhaps not counted, then counted.  While the wait has
  announced itself, either its mark is still there for the assert to find, or the assert has found it and is about
  to resume, or it has resumed the VCPU and the pause will see that.
\<close>

definition assert_at :: "irq_arch \<Rightarrow> nat \<Rightarrow> u32 \<Rightarrow> u64 \<Rightarrow> nat \<Rightarrow> wfi_locals \<Rightarrow> vmm_vcpu_irqs \<Rightarrow> bool" where
  "assert_at hw n no rsn a L q \<longleftrightarrow> (a \<le> 1 \<longrightarrow> can_assert hw n no rsn q) \<and> (1 \<le> a \<longrightarrow> loc_enter L) \<and> (a \<le> 2 \<longrightarrow> \<not> loc_accepted L)
     \<and> (a = 2 \<longrightarrow> irqs_marked (loc_won L) no q) \<and> (a = 3 \<longrightarrow> irqs_marked (loc_accepted L) no q) \<and> (4 \<le> a \<longrightarrow> irqs_marked False no q)
     \<and> (5 \<le> a \<longrightarrow> \<not> wfi_state q)"

definition wait_at :: "nat \<Rightarrow> nat \<Rightarrow> nat set \<Rightarrow> nat \<Rightarrow> nat \<Rightarrow> wfi_locals \<Rightarrow> 'rq system \<Rightarrow> bool" where
  "wait_at h n hosts a b L s \<longleftrightarrow>
     (b < 2 \<longrightarrow> state (vcpus s n) = VMM_VCPU_STATE_RUNNING \<and> hcpu (vcpus s n) = h \<and> \<not> is_idle hosts s n)
     \<and> (b = 1 \<and> loc_pause L \<longrightarrow> a \<le> 4 \<and> wfi_state (irqs (vcpus s n)) \<or> a = 5 \<and> loc_resume L \<or> a = 6 \<and> resumed (vcpus s n))
     \<and> (b = 2 \<longrightarrow> can_wake (state (vcpus s n))
          \<and> (is_live (vcpus s n) \<or> a \<le> 4 \<and> wfi_state (irqs (vcpus s n)) \<or> a = 5 \<and> loc_resume L))"

definition wfi_at ::
  "('rq system \<Rightarrow> bool) \<Rightarrow> irq_arch \<Rightarrow> nat set \<Rightarrow> nat \<Rightarrow> nat \<Rightarrow> u32 \<Rightarrow> u64 \<Rightarrow> nat \<Rightarrow> nat \<Rightarrow> 'rq isys \<times> wfi_locals \<Rightarrow> bool" where
  "wfi_at J hw hosts h n no rsn a b c \<longleftrightarrow> J (irqsys (fst c)) \<and> is_normal (vcpus (irqsys (fst c)) n)
     \<and> arch_irq_assert hw n no rsn = VMM_OK \<and> assert_at hw n no rsn a (snd c) (irqs (vcpus (irqsys (fst c)) n))
     \<and> wait_at h n hosts a b (snd c) (irqsys (fst c))"

lemma marked_pending: "irqs_marked False no q \<Longrightarrow> 1 \<le> execute_pending q"
  using asserted_pending [OF irqs_marked_ok] irqs_markedD by blast

lemma irqs_marked_wfi [simp]:
  "irqs_marked m no (q\<lparr>wfi_state := b\<rparr>) = irqs_marked m no q" "irqs_marked m no (q\<lparr>wfi_timer := t\<rparr>) = irqs_marked m no q"
  by (simp_all add: irqs_marked_def split: option.split)

text \<open>A step of the assert that changes only the table, before the mark of the wait is looked at.\<close>

lemma wfi_at_table:
  assumes c: "wfi_at (sched_inv qinv members hw N hosts) hw hosts h n no rsn a b (I, L)" and a: "a < 4"
    and q: "assert_at hw n no rsn (Suc a) L' q" "wfi_state q = wfi_state (irqs (vcpus (irqsys I) n))" "loc_pause L' = loc_pause L"
      "irqs_tbl hw n (irqs (vcpus (irqsys I) n)) \<Longrightarrow> irqs_tbl hw n q"
  shows "wfi_at (sched_inv qinv members hw N hosts) hw hosts h n no rsn (Suc a) b
    (upd_irqsys (upd_vcpu n (\<lambda>_. (vcpus (irqsys I) n)\<lparr>irqs := q\<rparr>)) I, L')"
proof -
  let ?s = "irqsys I" let ?s1 = "upd_vcpu n (\<lambda>v. v\<lparr>irqs := q\<rparr>) ?s"
  have s1: "upd_vcpu n (\<lambda>_. (vcpus ?s n)\<lparr>irqs := q\<rparr>) ?s = ?s1" by (simp add: upd_vcpu_def)
  have "sched_inv qinv members hw N hosts ?s" using c by (simp add: wfi_at_def)
  then have "sched_inv qinv members hw N hosts ?s1" using set_irqs_inv q(4) by blast
  moreover have "wait_at h n hosts (Suc a) b L' ?s1"
    using c a q(2,3) by (auto simp: wfi_at_def wait_at_def is_idle_def is_live_def)
  ultimately show ?thesis using c q(1) unfolding wfi_at_def upd_irqsys_def by (simp add: s1)
qed

context ready_queue
begin

abbreviation wfi_state_at ::
  "irq_arch \<Rightarrow> nat \<Rightarrow> nat set \<Rightarrow> nat \<Rightarrow> nat \<Rightarrow> u32 \<Rightarrow> u64 \<Rightarrow> nat \<Rightarrow> nat \<Rightarrow> 'rq isys \<times> wfi_locals \<Rightarrow> bool" where
  "wfi_state_at hw N hosts h n no rsn \<equiv> wfi_at (sched_inv inv members hw N hosts) hw hosts h n no rsn"

lemma wait_step:
  assumes c: "wfi_state_at hw N hosts h n no rsn a b c" and b: "b < 2" and a: "a \<le> 6" and E: "env_ok A hw E" and h: "h \<in> hosts"
  shows "\<exists>c'. step_wfi secs E h g frame n (wait_steps nsecs ! b) c = Done c' \<and> wfi_state_at hw N hosts h n no rsn a (Suc b) c'"
proof -
  obtain I L where c0: "c = (I, L)" by (cases c)
  let ?s = "irqsys I" let ?v = "vcpus ?s n"
  have hw: "irq_hw E = hw" using E by (simp add: env_ok_def)
  have i: "sched_inv inv members hw N hosts ?s" and n: "is_normal ?v" and at: "assert_at hw n no rsn a L (irqs ?v)"
    and w: "wait_at h n hosts a b L ?s" and ok: "arch_irq_assert hw n no rsn = VMM_OK" using c by (simp_all add: wfi_at_def c0)
  have r: "state ?v = VMM_VCPU_STATE_RUNNING" "hcpu ?v = h" "\<not> is_idle hosts ?s n" using w b by (simp_all add: wait_at_def)
  show ?thesis
  proof (cases b)
    case 0
    obtain s1 p x d where l: "irq_wait_locked secs hw n nsecs ?s = (s1, p)" "sched_inv inv members hw N hosts s1"
      "vcpus s1 = (vcpus ?s)(n := ?v\<lparr>irqs := (irqs ?v)\<lparr>wfi_state := x, wfi_timer := d\<rparr>\<rparr>)" "scheds s1 = scheds ?s"
      "p \<longrightarrow> x \<and> execute_pending (irqs ?v) = 0" "\<not> p \<longrightarrow> x = wfi_state (irqs ?v)"
      using irq_wait_locked_spec [OF i, of secs n nsecs] by blast
    have p4: "4 \<le> a \<Longrightarrow> \<not> p" using at l(5) marked_pending [of no "irqs ?v"] by (auto simp: assert_at_def)
    have "assert_at hw n no rsn a (L\<lparr>loc_pause := p\<rparr>) ((irqs ?v)\<lparr>wfi_state := x, wfi_timer := d\<rparr>)"
      using at p4 l(6) by (auto simp: assert_at_def)
    moreover have "wait_at h n hosts a 1 (L\<lparr>loc_pause := p\<rparr>) s1" using r l(3-5) p4 by (auto simp: wait_at_def is_idle_def)
    ultimately show ?thesis using 0 l(1-3) n ok hw c0 by (simp add: wait_steps_def wfi_at_def)
  next
    case (Suc k)
    then have b1: "b = 1" using b by simp
    obtain s1 v1 where l: "irq_wait_pause E h frame n (loc_pause L) ?s = Done s1" "sched_inv inv members hw N hosts s1"
      "vcpus s1 = (vcpus ?s)(n := v1)" "irqs v1 = irqs ?v" "is_normal v1"
      "state v1 = (if loc_pause L \<and> \<not> resumed ?v then VMM_VCPU_STATE_PAUSED else VMM_VCPU_STATE_RUNNING)"
      using wait_pause_ok [OF i E h r(1,2) n r(3), of frame "loc_pause L"] by blast
    have "wait_at h n hosts a 2 L s1" using w l(3,4,6) b1 by (auto simp: wait_at_def can_wake_def is_live_def)
    then show ?thesis using b1 l(1-5) at ok c0 by (simp add: wait_steps_def wfi_at_def numeral_2_eq_2)
  qed
qed

lemma assert_table_step:
  assumes c: "wfi_state_at hw N hosts h n no rsn a b c" and a: "a < 4" and E: "env_ok A hw E" and b: "b \<le> 2"
  shows "\<exists>c'. step_wfi secs E h g frame n (assert_steps no rsn ! a) c = Done c' \<and> wfi_state_at hw N hosts h n no rsn (Suc a) b c'"
proof -
  obtain I L where c0: "c = (I, L)" by (cases c)
  let ?s = "irqsys I" let ?v = "vcpus ?s n"
  have hw: "irq_hw E = hw" using E by (simp add: env_ok_def)
  have n: "is_normal ?v" and at: "assert_at hw n no rsn a L (irqs ?v)" and w: "wait_at h n hosts a b L ?s"
    and ok: "arch_irq_assert hw n no rsn = VMM_OK" using c by (simp_all add: wfi_at_def c0)
  note table = wfi_at_table [OF c [unfolded c0] a]
  have same: "upd_irqsys (upd_vcpu n (\<lambda>_. ?v\<lparr>irqs := irqs ?v\<rparr>)) I = I" by (simp add: upd_irqsys_def upd_vcpu_def)
  consider "a = 0" | "a = 1" | "a = 2" | "a = 3" using a by linarith
  then show ?thesis
  proof cases
    case 1
    have "b < 2 \<or> b = 2" using b by linarith
    then have "can_wake (state ?v)" using w by (auto simp: wait_at_def can_wake_def)
    moreover have "can_assert hw n no rsn (irqs ?v)" using at 1 by (simp add: assert_at_def)
    ultimately have "irq_assert_guard n no ?s"
      using n by (auto simp: irq_assert_guard_def vmm_manager_vcpu_get_state_def can_wake_def STATE_INTERRUPTIBLE_def can_assert_def)
    then show ?thesis using table [of "L\<lparr>loc_enter := True\<rparr>" "irqs ?v"] at 1 c0 same by (simp add: assert_steps_def assert_at_def)
  next
    case 2
    have "can_assert hw n no rsn (irqs ?v)" using at 2 by (simp add: assert_at_def)
    then obtain q won where q: "irq_assert_mark no ?v = Done (?v\<lparr>irqs := q\<rparr>, won)" "irqs_marked won no q"
      "wfi_state q = wfi_state (irqs ?v)" "irq_count q = irq_count (irqs ?v)"
      using irq_assert_mark_ok [of ?v no] by (auto simp: can_assert_def split: option.splits)
    have "irqs_tbl hw n (irqs ?v) \<Longrightarrow> irqs_tbl hw n q" using q(4) irqs_markedD [OF q(2)] by (auto simp: irqs_tbl_def)
    then show ?thesis using table [of "L\<lparr>loc_won := won\<rparr>" q] q at 2 c0 by (simp add: assert_steps_def assert_at_def)
  next
    case 3
    have m: "irqs_marked (loc_won L) no (irqs ?v)" and na: "\<not> loc_accepted L" using at 3 by (simp_all add: assert_at_def)
    show ?thesis
    proof (cases "loc_won L")
      case True
      have "irqs_tbl hw n (irqs ?v) \<Longrightarrow> irqs_tbl hw n (set_reason (irqs ?v) no rsn)"
        by (auto simp: irqs_tbl_def set_reason_def split: option.splits)
      moreover have "wfi_state (set_reason (irqs ?v) no rsn) = wfi_state (irqs ?v)" by (simp add: set_reason_def)
      ultimately show ?thesis using table [of "L\<lparr>loc_accepted := True\<rparr>" "set_reason (irqs ?v) no rsn"] irq_assert_arch_ok [OF ok m] at 3 c0 hw True
        by (simp add: assert_steps_def assert_at_def)
    next
      case False
      then show ?thesis using table [of L "irqs ?v"] at m na 3 c0 same by (simp add: assert_steps_def assert_at_def numeral_3_eq_3)
    qed
  next
    case 4
    have m: "irqs_marked (loc_accepted L) no (irqs ?v)" using at 4 by (simp add: assert_at_def)
    show ?thesis
    proof (cases "loc_accepted L")
      case True
      let ?q = "irqs (irq_assert_count ?v)"
      have "irqs_marked False no ?q" using irq_assert_count_ok [of no ?v] m True by simp
      moreover have "irq_assert_count ?v = ?v\<lparr>irqs := ?q\<rparr>" by (simp add: irq_assert_count_def)
      then have "upd_vcpu n irq_assert_count ?s = upd_vcpu n (\<lambda>_. ?v\<lparr>irqs := ?q\<rparr>) ?s" by (simp add: upd_vcpu_def)
      moreover have "wfi_state ?q = wfi_state (irqs ?v)" "irqs_tbl hw n (irqs ?v) \<Longrightarrow> irqs_tbl hw n ?q"
        by (auto simp: irq_assert_count_def irqs_tbl_def split: option.splits)
      ultimately show ?thesis using table [of L ?q] at 4 c0 True by (simp add: assert_steps_def assert_at_def upd_irqsys_def)
    next
      case False
      then show ?thesis using table [of L "irqs ?v"] at m 4 c0 same by (simp add: assert_steps_def assert_at_def)
    qed
  qed
qed

lemma assert_wfi_step:
  assumes c: "wfi_state_at hw N hosts h n no rsn 4 b c" and b: "b \<le> 2"
  shows "\<exists>c'. step_wfi secs E h g frame n AssertWfi c = Done c' \<and> wfi_state_at hw N hosts h n no rsn 5 b c'"
proof -
  obtain I L where c0: "c = (I, L)" by (cases c)
  let ?s = "irqsys I" let ?v = "vcpus ?s n" let ?L = "L\<lparr>loc_resume := wfi_state (irqs ?v)\<rparr>" let ?s1 = "wfi_clear n ?s"
  have i: "sched_inv inv members hw N hosts ?s" and at: "assert_at hw n no rsn 4 L (irqs ?v)" and w: "wait_at h n hosts 4 b L ?s"
    and n: "is_normal ?v" "arch_irq_assert hw n no rsn = VMM_OK" using c by (simp_all add: wfi_at_def c0)
  let ?d = "if wfi_state (irqs ?v) then None else wfi_timer (irqs ?v)"
  have d: "vcpus ?s1 = (vcpus ?s)(n := ?v\<lparr>irqs := (irqs ?v)\<lparr>wfi_state := False, wfi_timer := ?d\<rparr>\<rparr>)" "scheds ?s1 = scheds ?s"
    by (auto simp: wfi_clear_def)
  have "assert_at hw n no rsn 5 ?L ((irqs ?v)\<lparr>wfi_state := False, wfi_timer := ?d\<rparr>)" using at by (simp add: assert_at_def)
  moreover have "wait_at h n hosts 5 b ?L ?s1" using w b d by (auto simp: wait_at_def is_idle_def is_live_def)
  moreover have "loc_enter L" using at by (simp add: assert_at_def)
  ultimately show ?thesis using wfi_clear_inv [OF i, of n] n d by (simp add: c0 wfi_at_def upd_irqsys_def)
qed

lemma assert_resume_step:
  assumes c: "wfi_state_at hw N hosts h n no rsn 5 b c" and b: "b \<le> 2" and E: "env_ok A hw E" and g: "g \<in> hosts"
  shows "\<exists>c'. step_wfi secs E h g frame n AssertResume c = Done c' \<and> wfi_state_at hw N hosts h n no rsn 6 b c'"
proof -
  obtain I L where c0: "c = (I, L)" by (cases c)
  let ?s = "irqsys I" let ?v = "vcpus ?s n"
  have i: "sched_inv inv members hw N hosts ?s" and at: "assert_at hw n no rsn 5 L (irqs ?v)" and w: "wait_at h n hosts 5 b L ?s"
    and n: "is_normal ?v" "arch_irq_assert hw n no rsn = VMM_OK" using c by (simp_all add: wfi_at_def c0)
  have at6: "assert_at hw n no rsn 6 L (irqs ?v)" using at by (simp add: assert_at_def)
  show ?thesis
  proof (cases "loc_resume L")
    case False
    then have "wait_at h n hosts 6 b L ?s" using w b by (auto simp: wait_at_def)
    then show ?thesis using False i n at6 by (simp add: c0 wfi_at_def)
  next
    case True
    have "b < 2 \<or> b = 2" using b by linarith
    then have "can_wake (state ?v)" using w by (auto simp: wait_at_def can_wake_def)
    then obtain s1 rc where r: "vmm_manager_vcpu_resume E g frame (Some n) ?s = Done (s1, rc)" "sched_inv inv members hw N hosts s1"
      "is_live (vcpus s1 n)" "framed ?s s1" using resume_ok [OF i E g] by blast
    have "state (vcpus s1 n) = VMM_VCPU_STATE_RUNNING \<and> hcpu (vcpus s1 n) = h \<and> resumed (vcpus s1 n)" if "b < 2"
      using resume_running [of ?s n E g frame] that w n(1) r(1) sched_invD(3) [OF i, of n] by (auto simp: wait_at_def)
    moreover have "is_idle hosts s1 n = is_idle hosts ?s n" using framedD(7) [OF r(4)] by (simp add: is_idle_def)
    ultimately have "wait_at h n hosts 6 b L s1" using w r(3) b by (auto simp: wait_at_def can_wake_def is_live_def)
    then show ?thesis using True r(1,2) n framedD(3,9) [OF r(4), of n] at6 by (simp add: c0 wfi_at_def)
  qed
qed

lemma assert_step:
  assumes c: "wfi_state_at hw N hosts h n no rsn a b c" and a: "a < 6" and b: "b \<le> 2" and E: "env_ok A hw E" and g: "g \<in> hosts"
  shows "\<exists>c'. step_wfi secs E h g frame n (assert_steps no rsn ! a) c = Done c' \<and> wfi_state_at hw N hosts h n no rsn (Suc a) b c'"
proof -
  consider "a < 4" | "a = 4" | "a = 5" using a by linarith
  then show ?thesis
  proof cases
    case 1
    then show ?thesis using assert_table_step [OF c _ E b] by blast
  next
    case 2
    then show ?thesis using assert_wfi_step [OF c [unfolded 2] b] by (simp add: assert_steps_def numeral_eq_Suc)
  next
    case 3
    then show ?thesis using assert_resume_step [OF c [unfolded 3] b E g] by (simp add: assert_steps_def numeral_eq_Suc)
  qed
qed

lemma run_shuffled:
  assumes E: "env_ok A hw E" and hs: "h \<in> hosts" "g \<in> hosts"
  shows "wfi_state_at hw N hosts h n no rsn a b c \<Longrightarrow> a \<le> 6 \<Longrightarrow> b \<le> 2
    \<Longrightarrow> sts \<in> shuffles (drop b (wait_steps nsecs)) (drop a (assert_steps no rsn))
    \<Longrightarrow> \<exists>c'. run_wfi secs E h g frame n sts c = Done c' \<and> wfi_state_at hw N hosts h n no rsn 6 2 c'"
proof (induction sts arbitrary: a b c)
  case Nil
  then have "2 \<le> b" "6 \<le> a" by (simp_all add: wait_steps_def assert_steps_def)
  then show ?case using Nil by simp
next
  case (Cons st sts)
  have l: "length (wait_steps nsecs) = 2" "length (assert_steps no rsn) = 6" by (simp_all add: wait_steps_def assert_steps_def)
  from Cons.prems(4) consider
      (wait) "b < 2" "st = wait_steps nsecs ! b" "sts \<in> shuffles (drop (Suc b) (wait_steps nsecs)) (drop a (assert_steps no rsn))"
    | (assert) "a < 6" "st = assert_steps no rsn ! a" "sts \<in> shuffles (drop b (wait_steps nsecs)) (drop (Suc a) (assert_steps no rsn))"
    by (auto simp: Cons_in_shuffles_iff l hd_drop_conv_nth tl_drop drop_Suc)
  then show ?case
  proof cases
    case wait
    then obtain c' where "step_wfi secs E h g frame n st c = Done c'" "wfi_state_at hw N hosts h n no rsn a (Suc b) c'"
      using wait_step [OF Cons.prems(1) _ Cons.prems(2) E hs(1)] by blast
    then show ?thesis using Cons.IH [of a "Suc b" c'] Cons.prems(2) wait by simp
  next
    case assert
    then obtain c' where "step_wfi secs E h g frame n st c = Done c'" "wfi_state_at hw N hosts h n no rsn (Suc a) b c'"
      using assert_step [OF Cons.prems(1) _ Cons.prems(3) E hs(2)] by blast
    then show ?thesis using Cons.IH [of "Suc a" b c'] Cons.prems(3) assert by simp
  qed
qed

lemma wait_not_lost:
  assumes i: "sched_inv inv members hw N hosts (irqsys I)" and E: "env_ok A hw E" and hs: "h \<in> hosts" "g \<in> hosts"
    and n: "state (vcpus (irqsys I) n) = VMM_VCPU_STATE_RUNNING" "hcpu (vcpus (irqsys I) n) = h" "is_normal (vcpus (irqsys I) n)"
      "\<not> is_idle hosts (irqsys I) n"
    and c: "can_assert hw n no rsn (irqs (vcpus (irqsys I) n))"
    and sts: "sts \<in> shuffles (wait_steps nsecs) (assert_steps no rsn)"
  shows "\<exists>I' L. run_wfi secs E h g frame n sts (I, wfi_locals0) = Done (I', L) \<and> sched_inv inv members hw N hosts (irqsys I')
    \<and> is_live (vcpus (irqsys I') n) \<and> irq_raised no (irqs (vcpus (irqsys I') n))"
proof -
  have "wfi_state_at hw N hosts h n no rsn 0 0 (I, wfi_locals0)"
    using i n c by (simp add: wfi_at_def assert_at_def wait_at_def can_assert_def wfi_locals0_def)
  then obtain I' L where r: "run_wfi secs E h g frame n sts (I, wfi_locals0) = Done (I', L)" "wfi_state_at hw N hosts h n no rsn 6 2 (I', L)"
    using run_shuffled [OF E hs, of N n no rsn 0 0 "(I, wfi_locals0)" sts nsecs secs frame] sts by auto
  then have "irqs_marked False no (irqs (vcpus (irqsys I') n))" "\<not> wfi_state (irqs (vcpus (irqsys I') n))" "is_live (vcpus (irqsys I') n)"
    by (auto simp: wfi_at_def assert_at_def wait_at_def)
  then have "irq_raised no (irqs (vcpus (irqsys I') n))"
    using marked_pending irqs_marked_ok irqs_markedD by (fastforce simp: irq_raised_def)
  then show ?thesis using r by (auto simp: wfi_at_def assert_at_def wait_at_def)
qed

end

text \<open>
  C14. A wait for interrupts does not lose an interrupt.  A normal VCPU runs on its host CPU and executes a wait,
  while an interrupt that the architecture accepts, and whose entry is not being delivered, is asserted for it on any
  host CPU.  The wait is two steps, the section under the lock and the pause; the assert is six, its checks, the
  exchange on the entry, the call of the architecture, the counters, the section under the lock and the resume.
  Whatever the order in which the steps of the two calls alternate, all of them complete and keep the scheduler
  consistent, the VCPU ends up RUNNING or READY and no longer waits, and the interrupt is asserted and counted as
  pending.  A state change of the scheduler counts as one step.
\<close>

theorem irq_wait_not_lost:
  assumes "sched_inv prr_inv prr_members hw N hosts (irqsys I)" and "env_ok prr_algo hw E" and "h \<in> hosts" and "g \<in> hosts"
    and "state (vcpus (irqsys I) n) = VMM_VCPU_STATE_RUNNING" and "hcpu (vcpus (irqsys I) n) = h" and "is_normal (vcpus (irqsys I) n)"
    and "\<not> is_idle hosts (irqsys I) n" and "can_assert hw n no rsn (irqs (vcpus (irqsys I) n))"
    and "sts \<in> shuffles (wait_steps nsecs) (assert_steps no rsn)"
  shows "\<exists>I' L. run_wfi secs E h g frame n sts (I, wfi_locals0) = Done (I', L) \<and> sched_inv prr_inv prr_members hw N hosts (irqsys I')
    \<and> is_live (vcpus (irqsys I') n) \<and> irq_raised no (irqs (vcpus (irqsys I') n))"
  using assms by (rule prr.wait_not_lost)

definition demo_wfi :: "prr_rq isys" where
  "demo_wfi = \<lparr>irqsys = \<lparr>vcpus = (\<lambda>n. if n = 0 then demo_vcpu VMM_VCPU_STATE_READY 0
       else if n = 1 then irq_demo_vcpu\<lparr>irqs := irq_demo_irqs\<lparr>irq := Some (replicate 3 \<lparr>assertion = DEASSERTED, reason = 0\<rparr>), execute_pending := 0\<rparr>\<rparr>
       else demo_vcpu VMM_VCPU_STATE_UNKNOWN 0),
     scheds = (\<lambda>h. if h = 0 then demo_ctrl ((\<lambda>p. [])(0 := [0])) (Some 1) (Some 0) None else demo_ctrl (\<lambda>p. []) None None None),
     online = (\<lambda>h. h = 0), ipis = [], trace = []\<rparr>, func_calls = []\<rparr>"

lemma demo_wfi_inv: "sched_inv prr_inv prr_members irq_demo_arch 2 {0} (irqsys demo_wfi)"
  unfolding sched_inv_def prr_inv_def prr_members_def vcpu_ok_def idle_ok_def is_live_def
  by (auto simp: demo_wfi_def demo_defs irq_demo_defs irqs_tbl_def prio_of_def ready_on_def VMM_VCPU_MAX_PRIORITY_def split: if_splits)

theorem irq_wait_not_lost_witness:
  "\<exists>I' L. run_wfi 10 (demo_env prr_algo) 0 0 7 1
        [AssertGuard 2, AssertMark 2, WaitLocked 0, AssertArch 2 9, AssertCount, AssertWfi, WaitPause, AssertResume] (demo_wfi, wfi_locals0) = Done (I', L)
    \<and> sched_inv prr_inv prr_members irq_demo_arch 2 {0} (irqsys I') \<and> is_live (vcpus (irqsys I') 1) \<and> irq_raised 2 (irqs (vcpus (irqsys I') 1))"
  by (rule irq_wait_not_lost [OF demo_wfi_inv demo_env_ok, where rsn = 9 and nsecs = 0])
    (simp_all add: demo_wfi_def demo_defs irq_demo_defs is_idle_def can_assert_def irqs_ok_def wait_steps_def assert_steps_def Cons_in_shuffles_iff)

text \<open>The sanity check of \<^verbatim>\<open>vmm_vcpu_irq_wait_state\<close> answers that an orphan VCPU, which never waits, is waiting.\<close>

lemma wait_state_of_orphan: "\<not> is_normal (vcpus s n) \<Longrightarrow> vmm_vcpu_irq_wait_state (Some n) s"
  by (simp add: vmm_vcpu_irq_wait_state_def)

end
