(* ===== verification/Manager.thy ===== *)
theory Manager
  imports SyncProps VcpuWfi
begin

text \<open>
  The manager of VCPUs and guests, \<^verbatim>\<open>core/vmm_manager.c\<close>.

  The state \<open>'rq manager\<close> puts the control structure of the source beside the state of the scheduler, the wait queues
  and the VCPU resources.  A VCPU is named by its index in \<^verbatim>\<open>vcpu_array\<close>, a guest by its index in \<^verbatim>\<open>guest_array\<close>.
  The fields of a VCPU that only the manager uses (sub-identifier, name, start address, stack) are in the record
  \<open>vcpu_info\<close>.  The work structures that wait for execution are the list \<open>guest_work\<close> of guest indices.

  The manager lock is a mutex around the parts of an operation that touch the control structure; every
  operation is one step here.  \<open>'rq manager_env\<close> collects what an operation reads from outside: the environment of
  the scheduler, the calling host CPU with the register frame of a trap, whether the timer runs, whether
  allocations succeed, whether another host CPU answers a synchronous call in time, and the answers of the
  architecture and of the guest address space.  A guest is described by its device tree node, here a record of
  the attributes that the source reads.
\<close>

section \<open>State\<close>

text \<open>A request is one of the two of the source, or another function with its argument.\<close>

datatype guest_request = RebootRequest | ShutdownRequest | OtherRequest nat nat

record vmm_guest =
  guest_name :: string
  guest_node :: "nat option"
  is_big_endian :: bool
  guest_reset_count :: u32
  guest_reset_tstamp :: u64
  req_list :: "guest_request list"
  guest_vcpu_count :: u32
  guest_vcpu_list :: "nat list"
  aspace_initialized :: bool

record vcpu_info =
  subid :: u32
  vcpu_name :: string
  vcpu_node :: "nat option"
  start_pc :: u64
  stack_va :: bool

record 'rq manager =
  msys :: "'rq ssys"
  mngr_vcpu_count :: u32
  mngr_guest_count :: u32
  vcpu_avail_array :: "bool list"
  guest_avail_array :: "bool list"
  vcpu_infos :: "nat \<Rightarrow> vcpu_info"
  guest_array :: "nat \<Rightarrow> vmm_guest"
  orphan_vcpu_list :: "nat list"
  guest_list :: "nat list"
  guest_work :: "nat list"

record 'rq manager_env =
  m_sched :: "'rq sched_env"
  m_smp :: bool
  m_host :: nat
  m_frame :: nat
  timer_started :: bool
  stack_mem :: "nat \<Rightarrow> bool"
  request_mem :: bool
  host_answers :: "nat \<Rightarrow> bool"
  arch_vcpu_deinit :: "nat \<Rightarrow> vmm_rc"
  arch_guest_init :: "nat \<Rightarrow> vmm_rc"
  arch_guest_deinit :: "nat \<Rightarrow> vmm_rc"
  guest_aspace_init :: "nat \<Rightarrow> vmm_rc"
  guest_aspace_reset :: "nat \<Rightarrow> vmm_rc"
  guest_aspace_deinit :: "nat \<Rightarrow> vmm_rc"
  res_cleanup :: "nat \<Rightarrow> vcpu_resource \<Rightarrow> 'rq ssys \<Rightarrow> 'rq ssys result"
  cpu_be :: bool
  tslice_ms :: u64

definition VMM_FIELD_NAME_SIZE :: nat where "VMM_FIELD_NAME_SIZE = 64"
definition VMM_VCPU_DEF_PRIORITY :: nat where "VMM_VCPU_DEF_PRIORITY = 3"
definition VMM_VCPU_DEF_TIME_SLICE :: "u64 \<Rightarrow> u64" where "VMM_VCPU_DEF_TIME_SLICE ms = ms * 1000000"
definition VMM_VCPU_DEF_DEADLINE :: "u64 \<Rightarrow> u64" where "VMM_VCPU_DEF_DEADLINE ms = VMM_VCPU_DEF_TIME_SLICE ms * 10"
definition VMM_VCPU_DEF_PERIODICITY :: "u64 \<Rightarrow> u64" where "VMM_VCPU_DEF_PERIODICITY ms = VMM_VCPU_DEF_DEADLINE ms * 10"

abbreviation mkern :: "'rq manager \<Rightarrow> 'rq system" where
  "mkern M \<equiv> kern (msys M)"

abbreviation vcpu_array :: "'rq manager \<Rightarrow> nat \<Rightarrow> vmm_vcpu" where
  "vcpu_array M \<equiv> vcpus (mkern M)"

definition set_kern :: "'rq system \<Rightarrow> 'rq manager \<Rightarrow> 'rq manager" where
  "set_kern s M = M\<lparr>msys := (msys M)\<lparr>wsys := (wsys (msys M))\<lparr>ksys := s\<rparr>\<rparr>\<rparr>"

definition upd_mvcpu :: "nat \<Rightarrow> (vmm_vcpu \<Rightarrow> vmm_vcpu) \<Rightarrow> 'rq manager \<Rightarrow> 'rq manager" where
  "upd_mvcpu n f M = set_kern (upd_vcpu n f (mkern M)) M"

definition upd_guest :: "nat \<Rightarrow> (vmm_guest \<Rightarrow> vmm_guest) \<Rightarrow> 'rq manager \<Rightarrow> 'rq manager" where
  "upd_guest g f M = M\<lparr>guest_array := (guest_array M)(g := f (guest_array M g))\<rparr>"

section \<open>Looking up VCPUs\<close>

definition vmm_manager_max_vcpu_count :: "'rq manager \<Rightarrow> nat" where
  "vmm_manager_max_vcpu_count M = length (vcpu_avail_array M)"

definition vmm_manager_vcpu_count :: "'rq manager \<Rightarrow> u32" where
  "vmm_manager_vcpu_count M = mngr_vcpu_count M"

definition vmm_manager_vcpu :: "nat \<Rightarrow> 'rq manager \<Rightarrow> nat option" where
  "vmm_manager_vcpu vcpu_id M =
     (if vcpu_id < length (vcpu_avail_array M)
      then if \<not> vcpu_avail_array M ! vcpu_id then Some vcpu_id else None
      else None)"

text \<open>Loops that call \<open>iter\<close> for the elements of a list until it fails.\<close>

fun iterate :: "(nat \<Rightarrow> 's \<Rightarrow> ('s \<times> vmm_rc) result) \<Rightarrow> nat list \<Rightarrow> 's \<Rightarrow> ('s \<times> vmm_rc) result" where
  "iterate iter [] s = Done (s, VMM_OK)"
| "iterate iter (x # xs) s =
     bind_result (iter x s) (\<lambda>(s1, rc). if rc \<noteq> VMM_OK then Done (s1, rc) else iterate iter xs s1)"

definition vmm_manager_vcpu_iterate ::
  "(nat \<Rightarrow> 'rq manager \<Rightarrow> ('rq manager \<times> vmm_rc) result) option \<Rightarrow> 'rq manager \<Rightarrow> ('rq manager \<times> vmm_rc) result" where
  "vmm_manager_vcpu_iterate iter' M =
     (case iter' of
        None \<Rightarrow> Done (M, VMM_EINVALID)
      | Some iter \<Rightarrow>
          iterate (\<lambda>v M1. if vcpu_avail_array M1 ! v then Done (M1, VMM_OK) else iter v M1) [0..<length (vcpu_avail_array M)] M)"

section \<open>Choice of a host CPU\<close>

text \<open>Masks of host CPUs; \<open>k\<close> is \<^verbatim>\<open>CONFIG_CPU_COUNT\<close>.\<close>

definition cpumask_list :: "nat \<Rightarrow> (nat \<Rightarrow> bool) \<Rightarrow> nat list" where
  "cpumask_list k cm = filter cm [0..<k]"

definition vmm_cpumask_weight :: "nat \<Rightarrow> (nat \<Rightarrow> bool) \<Rightarrow> nat" where
  "vmm_cpumask_weight k cm = length (cpumask_list k cm)"

definition vmm_cpumask_first :: "nat \<Rightarrow> (nat \<Rightarrow> bool) \<Rightarrow> nat" where
  "vmm_cpumask_first k cm = (case cpumask_list k cm of [] \<Rightarrow> k | c # _ \<Rightarrow> c)"

fun count_vcpus ::
  "nat \<Rightarrow> (nat \<Rightarrow> bool) \<Rightarrow> bool list \<Rightarrow> (nat \<Rightarrow> vmm_vcpu) \<Rightarrow> nat list \<Rightarrow> (nat \<Rightarrow> u32) \<Rightarrow> nat \<Rightarrow> u32" where
  "count_vcpus prio affinity avail vc [] cnt = cnt"
| "count_vcpus prio affinity avail vc (v # vs) cnt =
     (if avail ! v then count_vcpus prio affinity avail vc vs cnt
      else if priority (vc v) \<noteq> prio \<or> \<not> affinity (hcpu (vc v)) then count_vcpus prio affinity avail vc vs cnt
      else count_vcpus prio affinity avail vc vs (cnt(hcpu (vc v) := cnt (hcpu (vc v)) + 1)))"

fun pick_hcpu :: "(nat \<Rightarrow> bool) \<Rightarrow> (nat \<Rightarrow> u32) \<Rightarrow> nat list \<Rightarrow> u32 \<Rightarrow> nat \<Rightarrow> nat" where
  "pick_hcpu affinity cnt [] mn h = h"
| "pick_hcpu affinity cnt (c # cs) mn h =
     (if \<not> affinity c then pick_hcpu affinity cnt cs mn h
      else if cnt c < mn then pick_hcpu affinity cnt cs (cnt c) c
      else pick_hcpu affinity cnt cs mn h)"

definition good_hcpu :: "'rq manager_env \<Rightarrow> nat \<Rightarrow> (nat \<Rightarrow> bool) \<Rightarrow> 'rq manager \<Rightarrow> nat" where
  "good_hcpu Q prio affinity M =
     (let k = cpu_count (m_sched Q); first = vmm_cpumask_first k affinity
      in if \<not> timer_started Q \<or> vmm_cpumask_weight k affinity < 1 then m_host Q
         else let cnt = count_vcpus prio affinity (vcpu_avail_array M) (vcpu_array M) [0..<length (vcpu_avail_array M)] (\<lambda>_. 0)
              in pick_hcpu affinity cnt [0..<k] (cnt first) first)"

section \<open>Operations on a VCPU\<close>

text \<open>
  A reset is a synchronous call to the host CPU of the VCPU: it runs at once when that is the calling one, is
  skipped without an error when it is not online, and times out when it does not answer.  The return code of the
  state change is lost.
\<close>

definition vmm_manager_vcpu_set_state ::
  "'rq manager_env \<Rightarrow> nat option \<Rightarrow> vcpu_state \<Rightarrow> 'rq manager \<Rightarrow> ('rq manager \<times> vmm_rc) result" where
  "vmm_manager_vcpu_set_state Q n' new M =
     (case n' of
        None \<Rightarrow> Done (M, VMM_EFAIL)
      | Some n \<Rightarrow>
          if new = VMM_VCPU_STATE_RESET
          then let vhcpu = hcpu (vcpu_array M n)
               in if vhcpu \<noteq> m_host Q \<and> \<not> online (mkern M) vhcpu then Done (M, VMM_OK)
                  else if vhcpu \<noteq> m_host Q \<and> \<not> host_answers Q vhcpu then Done (M, VMM_ETIMEDOUT)
                  else bind_result (vmm_scheduler_state_change (m_sched Q) vhcpu (m_frame Q) (Some n) VMM_VCPU_STATE_RESET (mkern M))
                         (\<lambda>(s, _, _). Done (set_kern s M, VMM_OK))
          else bind_result (vmm_scheduler_state_change (m_sched Q) (m_host Q) (m_frame Q) (Some n) new (mkern M))
                 (\<lambda>(s, rc, _). Done (set_kern s M, rc)))"

definition vmm_manager_vcpu_get_hcpu :: "nat option \<Rightarrow> 'rq manager \<Rightarrow> vmm_rc + nat" where
  "vmm_manager_vcpu_get_hcpu n' M = vmm_scheduler_get_hcpu n' (mkern M)"

definition vmm_manager_vcpu_check_current_hcpu :: "'rq manager_env \<Rightarrow> nat option \<Rightarrow> 'rq manager \<Rightarrow> bool" where
  "vmm_manager_vcpu_check_current_hcpu Q n' M = vmm_scheduler_check_current_hcpu (m_host Q) n' (mkern M)"

definition vmm_manager_vcpu_set_hcpu ::
  "'rq manager_env \<Rightarrow> nat option \<Rightarrow> nat \<Rightarrow> 'rq manager \<Rightarrow> ('rq manager \<times> vmm_rc) result" where
  "vmm_manager_vcpu_set_hcpu Q n' h M =
     bind_result (vmm_scheduler_set_hcpu (m_sched Q) (m_host Q) n' h (mkern M)) (\<lambda>(s, rc). Done (set_kern s M, rc))"

definition vmm_manager_vcpu_get_affinity :: "nat option \<Rightarrow> 'rq manager \<Rightarrow> (nat \<Rightarrow> bool) option" where
  "vmm_manager_vcpu_get_affinity n' M = map_option (\<lambda>n. cpu_affinity (vcpu_array M n)) n'"

definition vmm_manager_vcpu_set_affinity ::
  "'rq manager_env \<Rightarrow> nat option \<Rightarrow> (nat \<Rightarrow> bool) option \<Rightarrow> 'rq manager \<Rightarrow> ('rq manager \<times> vmm_rc) result" where
  "vmm_manager_vcpu_set_affinity Q n' cm' M =
     (case (n', cm') of
        (Some n, Some cm) \<Rightarrow>
          let v = vcpu_array M n; and_mask = (\<lambda>c. cpu_affinity v c \<and> cm c)
          in if vmm_cpumask_weight (cpu_count (m_sched Q)) and_mask = 0 then Done (M, VMM_EINVALID)
             else bind_result
                    (if \<not> and_mask (hcpu v)
                     then vmm_manager_vcpu_set_hcpu Q (Some n) (good_hcpu Q (priority v) and_mask M) M
                     else Done (M, VMM_OK))
                    (\<lambda>(M1, rc). if rc \<noteq> VMM_OK then Done (M1, rc)
                                else Done (upd_mvcpu n (\<lambda>v. v\<lparr>cpu_affinity := cm\<rparr>) M1, VMM_OK))
      | _ \<Rightarrow> Done (M, VMM_EFAIL))"

text \<open>
  The loop takes the last resource off the list and cleans it up until the list is empty.  One round more than
  there are resources is enough when the clean-ups add none.
\<close>

fun flush_resources ::
  "nat \<Rightarrow> (vcpu_resource \<Rightarrow> 'rq ssys \<Rightarrow> 'rq ssys result) \<Rightarrow> nat \<Rightarrow> 'rq ssys \<Rightarrow> 'rq ssys result" where
  "flush_resources 0 cleanup n S = Fault"
| "flush_resources (Suc k) cleanup n S =
     (if res_head S n = [] then Done S
      else bind_result (cleanup (last (res_head S n)) (S\<lparr>res_head := (res_head S)(n := butlast (res_head S n))\<rparr>))
             (flush_resources k cleanup n))"

definition vmm_manager_vcpu_resource_flush :: "'rq manager_env \<Rightarrow> nat \<Rightarrow> 'rq manager \<Rightarrow> 'rq manager result" where
  "vmm_manager_vcpu_resource_flush Q n M =
     bind_result (flush_resources (Suc (length (res_head (msys M) n))) (res_cleanup Q n) n (msys M)) (\<lambda>S. Done (M\<lparr>msys := S\<rparr>))"

section \<open>Orphan VCPUs\<close>

text \<open>The slot that a creation takes: the first available one.\<close>

definition first_avail :: "bool list \<Rightarrow> nat option" where
  "first_avail avail = List.find (\<lambda>i. avail ! i) [0..<length avail]"

definition take_vcpu :: "nat \<Rightarrow> nat \<Rightarrow> nat \<Rightarrow> (nat \<Rightarrow> bool) \<Rightarrow> 'rq manager \<Rightarrow> 'rq manager" where
  "take_vcpu n prio h aff M =
     (upd_mvcpu n (\<lambda>v. v\<lparr>priority := prio, hcpu := h, cpu_affinity := aff\<rparr>) M)\<lparr>vcpu_avail_array := (vcpu_avail_array M)[n := False]\<rparr>"

text \<open>The initialisation of the scheduling context that both kinds of VCPU share.\<close>

definition init_sched_context :: "u64 \<Rightarrow> u64 \<Rightarrow> u64 \<Rightarrow> u64 \<Rightarrow> vmm_vcpu \<Rightarrow> vmm_vcpu" where
  "init_sched_context t tslice dline period v =
     (let d = (if dline < tslice then tslice else dline)
      in v\<lparr>state_tstamp := t, state_ready_nsecs := 0, state_running_nsecs := 0, state_paused_nsecs := 0, state_halted_nsecs := 0,
           reset_count := 0, reset_tstamp := 0, preempt_count := 0, resumed := False, sched_priv := False,
           time_slice := tslice, deadline := d, periodicity := (if period < d then d else period)\<rparr>)"

definition init_lists :: "nat \<Rightarrow> 'rq manager \<Rightarrow> 'rq manager" where
  "init_lists n M =
     (let M1 = upd_mvcpu n (\<lambda>v. v\<lparr>wq_priv := None\<rparr>) M
      in M1\<lparr>msys := (msys M1)\<lparr>res_head := (res_head (msys M1))(n := [])\<rparr>\<rparr>)"

text \<open>The labels \<^verbatim>\<open>fail_list_del\<close> and \<^verbatim>\<open>fail_avail\<close>.\<close>

definition free_vcpu :: "nat \<Rightarrow> 'rq manager \<Rightarrow> 'rq manager" where
  "free_vcpu n M = M\<lparr>vcpu_avail_array := (vcpu_avail_array M)[n := True]\<rparr>"

definition unlink_orphan :: "nat \<Rightarrow> 'rq manager \<Rightarrow> 'rq manager" where
  "unlink_orphan n M =
     free_vcpu n (M\<lparr>orphan_vcpu_list := remove1 n (orphan_vcpu_list M), mngr_vcpu_count := mngr_vcpu_count M - 1\<rparr>)"

definition link_orphan :: "nat \<Rightarrow> string \<Rightarrow> 'rq manager \<Rightarrow> 'rq manager" where
  "link_orphan n name M =
     (upd_mvcpu n (\<lambda>v. v\<lparr>is_normal := False, is_poweroff := False, guest := None, state := VMM_VCPU_STATE_UNKNOWN\<rparr>) M)
       \<lparr>vcpu_infos := (vcpu_infos M)(n := (vcpu_infos M n)\<lparr>subid := 0, vcpu_name := name, vcpu_node := None\<rparr>),
        orphan_vcpu_list := orphan_vcpu_list M @ [n], mngr_vcpu_count := mngr_vcpu_count M + 1\<rparr>"

text \<open>The part from the allocation of the stack on.\<close>

definition start_orphan ::
  "'rq manager_env \<Rightarrow> nat \<Rightarrow> u64 \<Rightarrow> u64 \<Rightarrow> u64 \<Rightarrow> u64 \<Rightarrow> 'rq manager \<Rightarrow> ('rq manager \<times> nat option) result" where
  "start_orphan Q n pc tslice dline period M =
     (if \<not> stack_mem Q n then Done (unlink_orphan n M, None)
      else let M1 = upd_mvcpu n (init_sched_context (now (m_sched Q)) tslice dline period)
                 (M\<lparr>vcpu_infos := (vcpu_infos M)(n := (vcpu_infos M n)\<lparr>start_pc := pc, stack_va := True\<rparr>)\<rparr>)
           in if arch_init (m_sched Q) n \<noteq> VMM_OK then Done (unlink_orphan n M1, None)
              else bind_result (vmm_manager_vcpu_set_state Q (Some n) VMM_VCPU_STATE_RESET (init_lists n M1))
                     (\<lambda>(M2, rc). if rc \<noteq> VMM_OK then Done (unlink_orphan n M2, None) else Done (M2, Some n)))"

definition vmm_manager_vcpu_orphan_create ::
  "'rq manager_env \<Rightarrow> string option \<Rightarrow> u64 \<Rightarrow> nat \<Rightarrow> u64 \<Rightarrow> u64 \<Rightarrow> u64 \<Rightarrow> (nat \<Rightarrow> bool) option \<Rightarrow> 'rq manager
     \<Rightarrow> ('rq manager \<times> nat option) result" where
  "vmm_manager_vcpu_orphan_create Q name' pc prio tslice dline period affinity' M =
     (case name' of
        None \<Rightarrow> Done (M, None)
      | Some name \<Rightarrow>
          let aff = (case affinity' of Some a \<Rightarrow> a | None \<Rightarrow> online (mkern M))
          in if pc = 0 \<or> tslice = 0 then Done (M, None)
             else if VMM_VCPU_MAX_PRIORITY < prio \<or> prio < VMM_VCPU_MIN_PRIORITY then Done (M, None)
             else case first_avail (vcpu_avail_array M) of
                    None \<Rightarrow> Done (M, None)
                  | Some n \<Rightarrow>
                      let M1 = take_vcpu n prio (good_hcpu Q prio aff M) aff M
                      in if VMM_FIELD_NAME_SIZE \<le> length name then Done (free_vcpu n M1, None)
                         else start_orphan Q n pc tslice dline period (link_orphan n name M1))"

text \<open>Steps that continue when the return code is good and end the operation with the code otherwise.\<close>

definition then_ok :: "('s \<times> vmm_rc) result \<Rightarrow> ('s \<Rightarrow> ('s \<times> vmm_rc) result) \<Rightarrow> ('s \<times> vmm_rc) result" where
  "then_ok m f = bind_result m (\<lambda>(s, rc). if rc \<noteq> VMM_OK then Done (s, rc) else f s)"

definition vmm_manager_vcpu_orphan_destroy ::
  "'rq manager_env \<Rightarrow> nat option \<Rightarrow> 'rq manager \<Rightarrow> ('rq manager \<times> vmm_rc) result" where
  "vmm_manager_vcpu_orphan_destroy Q n' M =
     (case n' of
        None \<Rightarrow> Done (M, VMM_EFAIL)
      | Some n \<Rightarrow>
          if is_normal (vcpu_array M n) then Done (M, VMM_EFAIL)
          else bind_result (vmm_waitqueue_forced_remove (m_smp Q) (m_host Q) n (wsys (msys M))) (\<lambda>(w, _).
                 then_ok (vmm_manager_vcpu_set_state Q (Some n) VMM_VCPU_STATE_RESET (M\<lparr>msys := (msys M)\<lparr>wsys := w\<rparr>\<rparr>)) (\<lambda>M1.
                   bind_result (vmm_manager_vcpu_resource_flush Q n M1) (\<lambda>M2.
                     then_ok (vmm_manager_vcpu_set_state Q (Some n) VMM_VCPU_STATE_UNKNOWN M2) (\<lambda>M3.
                       let M4 = upd_mvcpu n (\<lambda>v. v\<lparr>sched_priv := False\<rparr>) M3
                       in if arch_vcpu_deinit Q n \<noteq> VMM_OK then Done (M4, arch_vcpu_deinit Q n)
                          else if n \<notin> set (orphan_vcpu_list M4) then Fault
                          else Done (unlink_orphan n M4, VMM_OK))))))"

section \<open>Looking up guests\<close>

definition vmm_manager_max_guest_count :: "'rq manager \<Rightarrow> nat" where
  "vmm_manager_max_guest_count M = length (guest_avail_array M)"

definition vmm_manager_guest_count :: "'rq manager \<Rightarrow> u32" where
  "vmm_manager_guest_count M = mngr_guest_count M"

definition vmm_manager_guest :: "nat \<Rightarrow> 'rq manager \<Rightarrow> nat option" where
  "vmm_manager_guest guest_id M =
     (if guest_id < length (guest_avail_array M)
      then if \<not> guest_avail_array M ! guest_id then Some guest_id else None
      else None)"

definition vmm_manager_guest_find :: "string option \<Rightarrow> 'rq manager \<Rightarrow> nat option" where
  "vmm_manager_guest_find name' M =
     (case name' of
        None \<Rightarrow> None
      | Some name \<Rightarrow>
          List.find (\<lambda>g. \<not> guest_avail_array M ! g \<and> guest_name (guest_array M g) = name) [0..<length (guest_avail_array M)])"

definition vmm_manager_guest_iterate ::
  "(nat \<Rightarrow> 'rq manager \<Rightarrow> ('rq manager \<times> vmm_rc) result) option \<Rightarrow> 'rq manager \<Rightarrow> ('rq manager \<times> vmm_rc) result" where
  "vmm_manager_guest_iterate iter' M =
     (case iter' of
        None \<Rightarrow> Done (M, VMM_EINVALID)
      | Some iter \<Rightarrow>
          iterate (\<lambda>g M1. if guest_avail_array M1 ! g then Done (M1, VMM_OK) else iter g M1) [0..<length (guest_avail_array M)] M)"

definition vmm_manager_guest_vcpu_count :: "nat option \<Rightarrow> 'rq manager \<Rightarrow> u32" where
  "vmm_manager_guest_vcpu_count g' M = (case g' of None \<Rightarrow> 0 | Some g \<Rightarrow> guest_vcpu_count (guest_array M g))"

definition vmm_manager_guest_vcpu :: "nat option \<Rightarrow> u32 \<Rightarrow> 'rq manager \<Rightarrow> nat option" where
  "vmm_manager_guest_vcpu g' sid M =
     (case g' of
        None \<Rightarrow> None
      | Some g \<Rightarrow> List.find (\<lambda>n. subid (vcpu_infos M n) = sid) (guest_vcpu_list (guest_array M g)))"

text \<open>The entry after \<open>n\<close> in a list; \<open>n\<close> is in it.\<close>

fun list_after :: "nat \<Rightarrow> nat list \<Rightarrow> nat option" where
  "list_after n (x # y # xs) = (if x = n then Some y else list_after n (y # xs))"
| "list_after n _ = None"

definition vmm_manager_guest_next_vcpu :: "nat option \<Rightarrow> nat option \<Rightarrow> 'rq manager \<Rightarrow> nat option result" where
  "vmm_manager_guest_next_vcpu g' current' M =
     (case g' of
        None \<Rightarrow> Done None
      | Some g \<Rightarrow>
          let vl = guest_vcpu_list (guest_array M g)
          in case current' of
               None \<Rightarrow> Done (case vl of [] \<Rightarrow> None | n # _ \<Rightarrow> Some n)
             | Some n \<Rightarrow> if n \<in> set vl then Done (list_after n vl) else Fault)"

definition vmm_manager_guest_vcpu_iterate ::
  "nat option \<Rightarrow> (nat \<Rightarrow> 'rq manager \<Rightarrow> ('rq manager \<times> vmm_rc) result) option \<Rightarrow> 'rq manager \<Rightarrow> ('rq manager \<times> vmm_rc) result" where
  "vmm_manager_guest_vcpu_iterate g' iter' M =
     (case (g', iter') of
        (Some g, Some iter) \<Rightarrow> iterate iter (guest_vcpu_list (guest_array M g)) M
      | _ \<Rightarrow> Done (M, VMM_EFAIL))"

section \<open>State of a guest\<close>

definition vmm_manager_guest_reset :: "'rq manager_env \<Rightarrow> nat option \<Rightarrow> 'rq manager \<Rightarrow> ('rq manager \<times> vmm_rc) result" where
  "vmm_manager_guest_reset Q g' M =
     (case g' of
        None \<Rightarrow> Done (M, VMM_EFAIL)
      | Some g \<Rightarrow>
          let M1 = upd_guest g (\<lambda>u. u\<lparr>guest_reset_count := guest_reset_count u + 1, guest_reset_tstamp := now (m_sched Q)\<rparr>) M
          in then_ok (vmm_manager_guest_vcpu_iterate (Some g) (Some (\<lambda>n. vmm_manager_vcpu_set_state Q (Some n) VMM_VCPU_STATE_RESET)) M1)
               (\<lambda>M2. if arch_guest_init Q g \<noteq> VMM_OK then Done (M2, arch_guest_init Q g) else Done (M2, guest_aspace_reset Q g)))"

definition vmm_manager_guest_reset_timestamp :: "nat option \<Rightarrow> 'rq manager \<Rightarrow> u64" where
  "vmm_manager_guest_reset_timestamp g' M = (case g' of None \<Rightarrow> 0 | Some g \<Rightarrow> guest_reset_tstamp (guest_array M g))"

definition vmm_manager_guest_kick :: "'rq manager_env \<Rightarrow> nat option \<Rightarrow> 'rq manager \<Rightarrow> ('rq manager \<times> vmm_rc) result" where
  "vmm_manager_guest_kick Q g' =
     vmm_manager_guest_vcpu_iterate g' (Some (\<lambda>n M. if is_poweroff (vcpu_array M n) then Done (M, VMM_OK)
                                                     else vmm_manager_vcpu_set_state Q (Some n) VMM_VCPU_STATE_READY M))"

definition vmm_manager_guest_pause :: "'rq manager_env \<Rightarrow> nat option \<Rightarrow> 'rq manager \<Rightarrow> ('rq manager \<times> vmm_rc) result" where
  "vmm_manager_guest_pause Q g' =
     vmm_manager_guest_vcpu_iterate g' (Some (\<lambda>n. vmm_manager_vcpu_set_state Q (Some n) VMM_VCPU_STATE_PAUSED))"

definition vmm_manager_guest_resume :: "'rq manager_env \<Rightarrow> nat option \<Rightarrow> 'rq manager \<Rightarrow> ('rq manager \<times> vmm_rc) result" where
  "vmm_manager_guest_resume Q g' =
     vmm_manager_guest_vcpu_iterate g' (Some (\<lambda>n. vmm_manager_vcpu_set_state Q (Some n) VMM_VCPU_STATE_READY))"

definition vmm_manager_guest_halt :: "'rq manager_env \<Rightarrow> nat option \<Rightarrow> 'rq manager \<Rightarrow> ('rq manager \<times> vmm_rc) result" where
  "vmm_manager_guest_halt Q g' =
     vmm_manager_guest_vcpu_iterate g' (Some (\<lambda>n. vmm_manager_vcpu_set_state Q (Some n) VMM_VCPU_STATE_HALTED))"

section \<open>Requests of a guest\<close>

text \<open>\<^verbatim>\<open>vmm_workqueue_schedule_work\<close> refuses a work that is scheduled already.\<close>

definition schedule_guest_work :: "nat \<Rightarrow> 'rq manager \<Rightarrow> 'rq manager" where
  "schedule_guest_work g M = (if g \<in> set (guest_work M) then M else M\<lparr>guest_work := guest_work M @ [g]\<rparr>)"

definition manager_have_req :: "nat \<Rightarrow> 'rq manager \<Rightarrow> bool" where
  "manager_have_req g M \<longleftrightarrow> req_list (guest_array M g) \<noteq> []"

definition manager_enqueue_req :: "nat \<Rightarrow> guest_request \<Rightarrow> 'rq manager \<Rightarrow> 'rq manager" where
  "manager_enqueue_req g r M = schedule_guest_work g (upd_guest g (\<lambda>u. u\<lparr>req_list := req_list u @ [r]\<rparr>) M)"

definition manager_dequeue_req :: "nat \<Rightarrow> 'rq manager \<Rightarrow> 'rq manager \<times> guest_request option" where
  "manager_dequeue_req g M =
     (case req_list (guest_array M g) of
        [] \<Rightarrow> (M, None)
      | r # rs \<Rightarrow> (upd_guest g (\<lambda>u. u\<lparr>req_list := rs\<rparr>) M, Some r))"

definition manager_flush_req :: "nat \<Rightarrow> 'rq manager \<Rightarrow> 'rq manager" where
  "manager_flush_req g M = upd_guest g (\<lambda>u. u\<lparr>req_list := []\<rparr>) M"

definition manager_reboot_request :: "'rq manager_env \<Rightarrow> nat \<Rightarrow> 'rq manager \<Rightarrow> 'rq manager result" where
  "manager_reboot_request Q g M =
     bind_result (vmm_manager_guest_reset Q (Some g) M) (\<lambda>(M1, _).
       bind_result (vmm_manager_guest_kick Q (Some g) M1) (\<lambda>(M2, _). Done M2))"

definition manager_shutdown_request :: "'rq manager_env \<Rightarrow> nat \<Rightarrow> 'rq manager \<Rightarrow> 'rq manager result" where
  "manager_shutdown_request Q g M = bind_result (vmm_manager_guest_reset Q (Some g) M) (\<lambda>(M1, _). Done M1)"

text \<open>\<open>other\<close> runs the functions that are not the manager's own.\<close>

definition run_request ::
  "'rq manager_env \<Rightarrow> (nat \<Rightarrow> nat \<Rightarrow> nat \<Rightarrow> 'rq manager \<Rightarrow> 'rq manager result) \<Rightarrow> nat \<Rightarrow> guest_request \<Rightarrow> 'rq manager \<Rightarrow> 'rq manager result" where
  "run_request Q other g r =
     (case r of
        RebootRequest \<Rightarrow> manager_reboot_request Q g
      | ShutdownRequest \<Rightarrow> manager_shutdown_request Q g
      | OtherRequest f d \<Rightarrow> other f d g)"

text \<open>
  The work function, for the work at index \<open>wid\<close> of the array; \<^verbatim>\<open>end\<close> is the address of the last entry, and the
  source also returns when \<^verbatim>\<open>end <= ptr\<close>.
\<close>

definition manager_req_work ::
  "'rq manager_env \<Rightarrow> (nat \<Rightarrow> nat \<Rightarrow> nat \<Rightarrow> 'rq manager \<Rightarrow> 'rq manager result) \<Rightarrow> nat \<Rightarrow> 'rq manager \<Rightarrow> 'rq manager result" where
  "manager_req_work Q other wid M =
     (if length (guest_avail_array M) - 1 \<le> wid then Done M
      else case vmm_manager_guest wid M of
             None \<Rightarrow> Done M
           | Some g \<Rightarrow>
               (case manager_dequeue_req g M of
                  (M1, None) \<Rightarrow> Done M1
                | (M1, Some r) \<Rightarrow>
                    bind_result (run_request Q other g r M1) (\<lambda>M2.
                      Done (if manager_have_req g M2 then schedule_guest_work g M2 else M2))))"

text \<open>One work of the list is taken and executed.\<close>

definition run_guest_work ::
  "'rq manager_env \<Rightarrow> (nat \<Rightarrow> nat \<Rightarrow> nat \<Rightarrow> 'rq manager \<Rightarrow> 'rq manager result) \<Rightarrow> 'rq manager \<Rightarrow> 'rq manager result" where
  "run_guest_work Q other M =
     (case guest_work M of [] \<Rightarrow> Done M | g # gs \<Rightarrow> manager_req_work Q other g (M\<lparr>guest_work := gs\<rparr>))"

definition vmm_manager_guest_request ::
  "'rq manager_env \<Rightarrow> nat option \<Rightarrow> guest_request option \<Rightarrow> 'rq manager \<Rightarrow> 'rq manager \<times> vmm_rc" where
  "vmm_manager_guest_request Q g' r' M =
     (case (g', r') of
        (Some g, Some r) \<Rightarrow> if \<not> request_mem Q then (M, VMM_ENOMEM) else (manager_enqueue_req g r M, VMM_OK)
      | _ \<Rightarrow> (M, VMM_EINVALID))"

text \<open>A VCPU that asks for a reboot or shutdown of its own guest is paused first.\<close>

definition pause_caller :: "'rq manager_env \<Rightarrow> nat \<Rightarrow> 'rq manager \<Rightarrow> 'rq manager result" where
  "pause_caller Q g M =
     (case vmm_scheduler_current_vcpu (m_host Q) (mkern M) of
        None \<Rightarrow> Done M
      | Some c \<Rightarrow>
          if guest (vcpu_array M c) = Some g \<and> vmm_scheduler_normal_context (m_host Q) (mkern M)
          then bind_result (vmm_manager_vcpu_set_state Q (Some c) VMM_VCPU_STATE_PAUSED M) (\<lambda>(M1, _). Done M1)
          else Done M)"

definition vmm_manager_guest_reboot_request ::
  "'rq manager_env \<Rightarrow> nat option \<Rightarrow> 'rq manager \<Rightarrow> ('rq manager \<times> vmm_rc) result" where
  "vmm_manager_guest_reboot_request Q g' M =
     (case g' of
        None \<Rightarrow> Done (M, VMM_EINVALID)
      | Some g \<Rightarrow> bind_result (pause_caller Q g M) (\<lambda>M1. Done (vmm_manager_guest_request Q (Some g) (Some RebootRequest) M1)))"

definition vmm_manager_guest_shutdown_request ::
  "'rq manager_env \<Rightarrow> nat option \<Rightarrow> 'rq manager \<Rightarrow> ('rq manager \<times> vmm_rc) result" where
  "vmm_manager_guest_shutdown_request Q g' M =
     (case g' of
        None \<Rightarrow> Done (M, VMM_EINVALID)
      | Some g \<Rightarrow> bind_result (pause_caller Q g M) (\<lambda>M1. Done (vmm_manager_guest_request Q (Some g) (Some ShutdownRequest) M1)))"

section \<open>Destruction of a guest\<close>

fun destroy_vcpus :: "'rq manager_env \<Rightarrow> nat \<Rightarrow> nat list \<Rightarrow> 'rq manager \<Rightarrow> ('rq manager \<times> vmm_rc) result" where
  "destroy_vcpus Q g [] M = Done (M, VMM_OK)"
| "destroy_vcpus Q g (n # ns) M =
     (let M1 = upd_guest g (\<lambda>u. u\<lparr>guest_vcpu_count := guest_vcpu_count u - 1, guest_vcpu_list := ns\<rparr>) M
      in bind_result (vmm_manager_vcpu_resource_flush Q n M1) (\<lambda>M2.
           then_ok (vmm_manager_vcpu_set_state Q (Some n) VMM_VCPU_STATE_UNKNOWN M2) (\<lambda>M3.
             let M4 = upd_mvcpu n (\<lambda>v. v\<lparr>sched_priv := False\<rparr>) M3;
                 (v, rc) = vmm_vcpu_irq_deinit (vcpu_array M4 n);
                 M5 = upd_mvcpu n (\<lambda>_. v) M4
             in if rc \<noteq> VMM_OK then Done (M5, rc)
                else if arch_vcpu_deinit Q n \<noteq> VMM_OK then Done (M5, arch_vcpu_deinit Q n)
                else destroy_vcpus Q g ns (free_vcpu n (M5\<lparr>
                       vcpu_infos := (vcpu_infos M5)(n := (vcpu_infos M5 n)\<lparr>vcpu_node := None\<rparr>),
                       mngr_vcpu_count := mngr_vcpu_count M5 - 1\<rparr>)))))"

definition vmm_manager_guest_destroy :: "'rq manager_env \<Rightarrow> nat option \<Rightarrow> 'rq manager \<Rightarrow> ('rq manager \<times> vmm_rc) result" where
  "vmm_manager_guest_destroy Q g' M =
     (case g' of
        None \<Rightarrow> Done (M, VMM_EFAIL)
      | Some g \<Rightarrow>
          bind_result (vmm_manager_guest_reset Q (Some g) M) (\<lambda>(M1, _).
            let M2 = manager_flush_req g M1
            in if guest_aspace_deinit Q g \<noteq> VMM_OK then Done (M2, guest_aspace_deinit Q g)
               else if arch_guest_deinit Q g \<noteq> VMM_OK then Done (M2, arch_guest_deinit Q g)
               else then_ok (destroy_vcpus Q g (guest_vcpu_list (guest_array M2 g)) M2) (\<lambda>M3.
                      let M4 = upd_guest g (\<lambda>u. u\<lparr>guest_node := None, guest_name := [], guest_vcpu_list := []\<rparr>) M3
                      in if g \<notin> set (guest_list M4) then Fault
                         else Done (M4\<lparr>mngr_guest_count := mngr_guest_count M4 - 1, guest_list := remove1 g (guest_list M4),
                                       guest_avail_array := (guest_avail_array M4)[g := True]\<rparr>, VMM_OK))))"

section \<open>Creation of a guest\<close>

text \<open>The attributes of the device tree nodes that the source reads.\<close>

record vcpu_desc =
  vd_node :: nat
  vd_name :: string
  vd_type :: "string option"
  vd_affinity :: "nat list option"
  vd_priority :: "u32 option"
  vd_start_pc :: "u64 option"
  vd_time_slice :: "u64 option"
  vd_deadline :: "u64 option"
  vd_periodicity :: "u64 option"
  vd_poweroff :: bool

record guest_desc =
  gd_node :: nat
  gd_name :: string
  gd_type :: "string option"
  gd_endianness :: "string option"
  gd_vcpus :: "vcpu_desc list option"

fun parse_affinity :: "nat \<Rightarrow> (nat \<Rightarrow> bool) \<Rightarrow> nat list \<Rightarrow> (nat \<Rightarrow> bool) \<Rightarrow> (nat \<Rightarrow> bool) option" where
  "parse_affinity k onl [] cm = Some cm"
| "parse_affinity k onl (c # cs) cm = (if c < k \<and> onl c then parse_affinity k onl cs (cm(c := True)) else None)"

definition vcpu_affinity :: "nat \<Rightarrow> (nat \<Rightarrow> bool) \<Rightarrow> vcpu_desc \<Rightarrow> (nat \<Rightarrow> bool) option" where
  "vcpu_affinity k onl d =
     (case vd_affinity d of
        None \<Rightarrow> Some onl
      | Some cs \<Rightarrow>
          (case parse_affinity k onl cs (\<lambda>_. False) of
             None \<Rightarrow> None
           | Some cm \<Rightarrow> if vmm_cpumask_weight k cm < 1 then None else Some cm))"

text \<open>The priority is stored in eight bits before it is limited.\<close>

definition vcpu_priority :: "vcpu_desc \<Rightarrow> nat" where
  "vcpu_priority d =
     (let p = (case vd_priority d of None \<Rightarrow> VMM_VCPU_DEF_PRIORITY | Some x \<Rightarrow> unat (ucast x :: u8))
      in if VMM_VCPU_MAX_PRIORITY < p then VMM_VCPU_MAX_PRIORITY
         else if p < VMM_VCPU_MIN_PRIORITY then VMM_VCPU_MIN_PRIORITY else p)"

text \<open>The name of the guest and a slash, cut to the size of the field, before the name of the VCPU is appended.\<close>

definition vcpu_name_prefix :: "string \<Rightarrow> string" where
  "vcpu_name_prefix name = take (VMM_FIELD_NAME_SIZE - 1) (take (VMM_FIELD_NAME_SIZE - 1) name @ ''/'')"

definition vcpu_time_slice :: "u64 \<Rightarrow> vcpu_desc \<Rightarrow> u64" where
  "vcpu_time_slice ms d =
     (let ts = (case vd_time_slice d of None \<Rightarrow> VMM_VCPU_DEF_TIME_SLICE ms | Some x \<Rightarrow> x)
      in if ts = 0 then VMM_VCPU_DEF_TIME_SLICE ms else ts)"

definition undo_guest_vcpu :: "nat \<Rightarrow> 'rq manager \<Rightarrow> 'rq manager" where
  "undo_guest_vcpu n M =
     free_vcpu n (M\<lparr>vcpu_infos := (vcpu_infos M)(n := (vcpu_infos M n)\<lparr>vcpu_node := None\<rparr>), mngr_vcpu_count := mngr_vcpu_count M - 1\<rparr>)"

definition link_guest_vcpu :: "nat \<Rightarrow> nat \<Rightarrow> string \<Rightarrow> vcpu_desc \<Rightarrow> 'rq manager \<Rightarrow> 'rq manager" where
  "link_guest_vcpu g n name d M =
     (upd_mvcpu n (\<lambda>v. v\<lparr>is_normal := True, is_poweroff := False, guest := Some g, state := VMM_VCPU_STATE_UNKNOWN\<rparr>) M)
       \<lparr>vcpu_infos := (vcpu_infos M)(n := (vcpu_infos M n)\<lparr>subid := guest_vcpu_count (guest_array M g), vcpu_name := name,
                        vcpu_node := Some (vd_node d)\<rparr>),
        mngr_vcpu_count := mngr_vcpu_count M + 1\<rparr>"

text \<open>The end of the loop body: from the initialisation of the interrupts on.\<close>

definition start_guest_vcpu :: "'rq manager_env \<Rightarrow> nat \<Rightarrow> nat \<Rightarrow> vcpu_desc \<Rightarrow> 'rq manager \<Rightarrow> ('rq manager \<times> bool) result" where
  "start_guest_vcpu Q g n d M =
     bind_result (vmm_vcpu_irq_init (irq_hw (m_sched Q)) (irq_mem (m_sched Q)) n (vcpu_array M n)) (\<lambda>(v, rc).
       let M1 = upd_mvcpu n (\<lambda>_. v) M
       in if rc \<noteq> VMM_OK then Done (undo_guest_vcpu n M1, False)
          else bind_result (vmm_manager_vcpu_set_state Q (Some n) VMM_VCPU_STATE_RESET (init_lists n M1)) (\<lambda>(M2, rc').
                 if rc' \<noteq> VMM_OK
                 then Done (undo_guest_vcpu n (upd_mvcpu n (\<lambda>v. fst (vmm_vcpu_irq_deinit v)) M2), False)
                 else let M3 = (if vd_poweroff d then upd_mvcpu n (\<lambda>v. v\<lparr>is_poweroff := True\<rparr>) M2 else M2)
                      in Done (upd_guest g (\<lambda>u. u\<lparr>guest_vcpu_list := guest_vcpu_list u @ [n],
                                                 guest_vcpu_count := guest_vcpu_count u + 1\<rparr>) M3, True)))"

text \<open>The middle of the loop body: from the allocation of the stack on.\<close>

definition setup_guest_vcpu :: "'rq manager_env \<Rightarrow> nat \<Rightarrow> nat \<Rightarrow> vcpu_desc \<Rightarrow> 'rq manager \<Rightarrow> ('rq manager \<times> bool) result" where
  "setup_guest_vcpu Q g n d M =
     (let M1 = M\<lparr>vcpu_infos := (vcpu_infos M)(n := (vcpu_infos M n)\<lparr>stack_va := stack_mem Q n,
                   start_pc := (case vd_start_pc d of None \<Rightarrow> start_pc (vcpu_infos M n) | Some a \<Rightarrow> a)\<rparr>)\<rparr>
      in if \<not> stack_mem Q n then Done (undo_guest_vcpu n M1, False)
         else let ms = tslice_ms Q;
                  M2 = upd_mvcpu n (init_sched_context (now (m_sched Q)) (vcpu_time_slice ms d)
                         (case vd_deadline d of None \<Rightarrow> VMM_VCPU_DEF_DEADLINE ms | Some x \<Rightarrow> x)
                         (case vd_periodicity d of None \<Rightarrow> VMM_VCPU_DEF_PERIODICITY ms | Some x \<Rightarrow> x)) M1
              in if arch_init (m_sched Q) n \<noteq> VMM_OK then Done (undo_guest_vcpu n M2, False)
                 else start_guest_vcpu Q g n d M2)"

definition create_guest_vcpu ::
  "'rq manager_env \<Rightarrow> nat \<Rightarrow> string \<Rightarrow> vcpu_desc \<Rightarrow> 'rq manager \<Rightarrow> ('rq manager \<times> bool) result" where
  "create_guest_vcpu Q g gname d M =
     (if length (vcpu_avail_array M) \<le> unat (mngr_vcpu_count M) then Done (M, False)
      else if vd_type d \<noteq> Some ''vcpu'' then Done (M, False)
      else case vcpu_affinity (cpu_count (m_sched Q)) (online (mkern M)) d of
             None \<Rightarrow> Done (M, False)
           | Some cm \<Rightarrow>
               (case first_avail (vcpu_avail_array M) of
                  None \<Rightarrow> Done (M, False)
                | Some n \<Rightarrow>
                    let prio = vcpu_priority d;
                        M1 = take_vcpu n prio (good_hcpu Q prio cm M) cm M;
                        name = vcpu_name_prefix gname @ vd_name d
                    in if VMM_FIELD_NAME_SIZE \<le> length name then Done (free_vcpu n M1, False)
                       else setup_guest_vcpu Q g n d (link_guest_vcpu g n name d M1)))"

fun create_guest_vcpus ::
  "'rq manager_env \<Rightarrow> nat \<Rightarrow> string \<Rightarrow> vcpu_desc list \<Rightarrow> 'rq manager \<Rightarrow> ('rq manager \<times> bool) result" where
  "create_guest_vcpus Q g gname [] M = Done (M, True)"
| "create_guest_vcpus Q g gname (d # ds) M =
     bind_result (create_guest_vcpu Q g gname d M) (\<lambda>(M1, ok). if ok then create_guest_vcpus Q g gname ds M1 else Done (M1, False))"

definition init_guest :: "'rq manager_env \<Rightarrow> guest_desc \<Rightarrow> vmm_guest" where
  "init_guest Q d =
     \<lparr>guest_name = take (VMM_FIELD_NAME_SIZE - 1) (gd_name d), guest_node = Some (gd_node d),
      is_big_endian = (if gd_endianness d = Some ''little'' then False
                       else if gd_endianness d = Some ''big'' then True else cpu_be Q),
      guest_reset_count = 0, guest_reset_tstamp = now (m_sched Q), req_list = [], guest_vcpu_count = 0, guest_vcpu_list = [],
      aspace_initialized = False\<rparr>"

definition add_guest :: "nat \<Rightarrow> vmm_guest \<Rightarrow> 'rq manager \<Rightarrow> 'rq manager" where
  "add_guest g u M = M\<lparr>guest_avail_array := (guest_avail_array M)[g := False], guest_list := guest_list M @ [g],
     mngr_guest_count := mngr_guest_count M + 1, guest_array := (guest_array M)(g := u)\<rparr>"

text \<open>The end: the guest is complete, or what there is of it is destroyed again.\<close>

definition finish_guest :: "'rq manager_env \<Rightarrow> nat \<Rightarrow> 'rq manager \<times> bool \<Rightarrow> ('rq manager \<times> nat option) result" where
  "finish_guest Q g = (\<lambda>(M, ok).
     if ok \<and> guest_vcpu_list (guest_array M g) \<noteq> [] \<and> arch_guest_init Q g = VMM_OK
        \<and> guest_aspace_init Q g = VMM_OK \<and> guest_aspace_reset Q g = VMM_OK
     then Done (M, Some g)
     else bind_result (vmm_manager_guest_destroy Q (Some g) M) (\<lambda>(M1, _). Done (M1, None)))"

text \<open>
  After the search for a duplicate the pointer \<^verbatim>\<open>guest\<close> is not null, so the test for a missing free entry does
  not trigger, and the list head is used as a guest: a \<open>Fault\<close>.
\<close>

definition vmm_manager_guest_create ::
  "'rq manager_env \<Rightarrow> guest_desc option \<Rightarrow> 'rq manager \<Rightarrow> ('rq manager \<times> nat option) result" where
  "vmm_manager_guest_create Q gnode' M =
     (case gnode' of
        None \<Rightarrow> Done (M, None)
      | Some d \<Rightarrow>
          if gd_type d \<noteq> Some ''guest'' then Done (M, None)
          else if \<exists>g \<in> set (guest_list M). guest_node (guest_array M g) = Some (gd_node d) \<or> guest_name (guest_array M g) = gd_name d
          then Done (M, None)
          else case first_avail (guest_avail_array M) of
                 None \<Rightarrow> Fault
               | Some g \<Rightarrow>
                   let M1 = add_guest g (init_guest Q d) M
                   in bind_result
                        (case gd_vcpus d of None \<Rightarrow> Done (M1, False) | Some ds \<Rightarrow> create_guest_vcpus Q g (gd_name d) ds M1)
                        (finish_guest Q g))"

section \<open>Initialisation\<close>

definition zero_guest :: vmm_guest where
  "zero_guest = \<lparr>guest_name = [], guest_node = None, is_big_endian = False, guest_reset_count = 0, guest_reset_tstamp = 0,
     req_list = [], guest_vcpu_count = 0, guest_vcpu_list = [], aspace_initialized = False\<rparr>"

definition zero_irqs :: vmm_vcpu_irqs where
  "zero_irqs = \<lparr>irq_count = 0, irq = None, execute_pending = 0, assert_count = 0, execute_count = 0, deassert_count = 0,
     wfi_state = False, wfi_timer = None\<rparr>"

definition zero_vcpu :: "nat \<Rightarrow> vmm_vcpu" where
  "zero_vcpu n = \<lparr>vid = of_nat n, is_normal = False, is_poweroff = False, guest = None, hcpu = 0, cpu_affinity = (\<lambda>_. False),
     state = VMM_VCPU_STATE_UNKNOWN, state_tstamp = 0, state_ready_nsecs = 0, state_running_nsecs = 0, state_paused_nsecs = 0,
     state_halted_nsecs = 0, reset_count = 0, reset_tstamp = 0, preempt_count = 0, resumed = False, sched_priv = False,
     priority = 0, time_slice = 0, deadline = 0, periodicity = 0, irqs = zero_irqs, wq_lock = None, wq_priv = None\<rparr>"

text \<open>\<open>max_vcpus\<close> and \<open>max_guests\<close> are \<^verbatim>\<open>CONFIG_MAX_VCPU_COUNT\<close> and \<^verbatim>\<open>CONFIG_MAX_GUEST_COUNT\<close>.\<close>

definition vmm_manager_init :: "nat \<Rightarrow> nat \<Rightarrow> 'rq ssys \<Rightarrow> 'rq manager \<times> vmm_rc" where
  "vmm_manager_init max_vcpus max_guests S =
     (\<lparr>msys = S\<lparr>wsys := (wsys S)\<lparr>ksys := (kern S)\<lparr>vcpus := zero_vcpu\<rparr>\<rparr>, res_head := (\<lambda>_. [])\<rparr>,
       mngr_vcpu_count = 0, mngr_guest_count = 0, vcpu_avail_array = replicate max_vcpus True,
       guest_avail_array = replicate max_guests True,
       vcpu_infos = (\<lambda>_. \<lparr>subid = 0, vcpu_name = [], vcpu_node = None, start_pc = 0, stack_va = False\<rparr>),
       guest_array = (\<lambda>_. zero_guest), orphan_vcpu_list = [], guest_list = [], guest_work = []\<rparr>, VMM_OK)"

end
