(* ===== verification/ManagerProps.thy ===== *)
theory ManagerProps
  imports Manager
begin

text \<open>
  Properties of the manager: the choice of a host CPU, the bookkeeping of VCPUs and guests over all sequences of
  operations, creation and destruction of orphan VCPUs, and the reboot of a guest.
\<close>

section \<open>A concrete manager\<close>

text \<open>Four entries for VCPUs and two for guests after the initialisation, on host CPU 0 while nothing runs.\<close>

definition demo_menv :: "prr_rq manager_env" where
  "demo_menv = \<lparr>m_sched = demo_env prr_algo, m_smp = True, m_host = 0, m_frame = 9, timer_started = True, stack_mem = (\<lambda>_. True),
     request_mem = True, host_answers = (\<lambda>_. True), arch_vcpu_deinit = (\<lambda>_. VMM_OK), arch_guest_init = (\<lambda>_. VMM_OK),
     arch_guest_deinit = (\<lambda>_. VMM_OK), guest_aspace_init = (\<lambda>_. VMM_OK), guest_aspace_reset = (\<lambda>_. VMM_OK),
     guest_aspace_deinit = (\<lambda>_. VMM_OK), res_cleanup = (\<lambda>_ _ S. Done S), cpu_be = False, tslice_ms = 10\<rparr>"

definition demo_boot :: "prr_rq ssys" where
  "demo_boot = \<lparr>wsys = demo_wsys\<lparr>ksys := demo_thread\<lparr>scheds := (\<lambda>h. demo_ctrl (\<lambda>p. []) None None None)\<rparr>\<rparr>, res_head = (\<lambda>n. [])\<rparr>"

definition demo_mngr :: "prr_rq manager" where
  "demo_mngr = fst (vmm_manager_init 4 2 demo_boot)"

lemmas demo_mngr_defs = demo_mngr_def vmm_manager_init_def demo_boot_def demo_wsys_def demo_thread_def demo_ctrl_def demo_menv_def demo_env_def

section \<open>The least loaded host CPU\<close>

text \<open>The first element of a list at which \<open>f\<close> is least.\<close>

definition min_first :: "('a \<Rightarrow> 'b :: linorder) \<Rightarrow> 'a list \<Rightarrow> 'a" where
  "min_first f xs = hd (filter (\<lambda>x. \<forall>y \<in> set xs. f x \<le> f y) xs)"

lemma min_first_Cons: "min_first f (x # y # xs) = (if f y < f x then min_first f (y # xs) else min_first f (x # xs))"
proof (cases "f y < f x")
  case True
  then have "(\<forall>z \<in> set (x # y # xs). f w \<le> f z) \<longleftrightarrow> w \<noteq> x \<and> (\<forall>z \<in> set (y # xs). f w \<le> f z)" if "w \<in> set (x # y # xs)" for w
    using that by auto
  then have "filter (\<lambda>w. \<forall>z \<in> set (x # y # xs). f w \<le> f z) (x # y # xs) = filter (\<lambda>w. \<forall>z \<in> set (y # xs). f w \<le> f z) (y # xs)"
    using True by (auto intro!: filter_cong)
  then show ?thesis using True by (simp add: min_first_def)
next
  case False
  show ?thesis
  proof (cases "\<forall>z \<in> set xs. f x \<le> f z")
    case True
    then show ?thesis using False by (auto simp: min_first_def not_less)
  next
    case F: False
    then obtain z where z: "z \<in> set xs" "f z < f x" by (auto simp: not_le)
    have "filter (\<lambda>w. \<forall>z \<in> set (x # y # xs). f w \<le> f z) (x # y # xs) = filter (\<lambda>w. \<forall>z \<in> set (x # xs). f w \<le> f z) (x # xs)"
      using z False by (auto intro!: filter_cong)
    then show ?thesis using False by (simp add: min_first_def)
  qed
qed

lemma min_first_single [simp]: "min_first f [x] = x"
  by (simp add: min_first_def)

lemma min_first_cong: "(\<And>x. x \<in> set xs \<Longrightarrow> f x \<le> f x \<and> (\<forall>y \<in> set xs. f x \<le> f y \<longleftrightarrow> g x \<le> g y)) \<Longrightarrow> min_first f xs = min_first g xs"
  unfolding min_first_def by (intro arg_cong [where f = hd] filter_cong) auto

lemma pick_hcpu_min: "pick_hcpu aff cnt cs (cnt h) h = min_first cnt (h # filter aff cs)"
proof (induction cs arbitrary: h)
  case (Cons c cs)
  then show ?case by (auto simp: min_first_Cons)
qed simp

text \<open>The VCPUs in use of priority \<open>prio\<close> on host CPU \<open>h\<close>.\<close>

definition hcpu_load :: "nat \<Rightarrow> 'rq manager \<Rightarrow> nat \<Rightarrow> nat" where
  "hcpu_load prio M h = length (filter (\<lambda>v. \<not> vcpu_avail_array M ! v \<and> priority (vcpu_array M v) = prio \<and> hcpu (vcpu_array M v) = h)
     [0..<length (vcpu_avail_array M)])"

lemma count_vcpus_load:
  assumes "aff h" and "unat (cnt h) + length vs < 2 ^ 32"
  shows "unat (count_vcpus prio aff avail vc vs cnt h)
    = unat (cnt h) + length (filter (\<lambda>v. \<not> avail ! v \<and> priority (vc v) = prio \<and> hcpu (vc v) = h) vs)"
  using assms
proof (induction vs arbitrary: cnt)
  case (Cons v vs)
  have "unat (cnt h + 1) = unat (cnt h) + 1" using Cons.prems unat_add_one [of "cnt h"] by simp
  then show ?case using Cons by auto
qed simp

lemma cpumask_first_Cons: "vmm_cpumask_weight k cm \<noteq> 0 \<Longrightarrow> \<exists>cs. cpumask_list k cm = vmm_cpumask_first k cm # cs"
  by (auto simp: vmm_cpumask_weight_def vmm_cpumask_first_def split: list.split)

text \<open>
  C18. The choice of a host CPU for a new or moved VCPU equals the reference: the first host CPU of the affinity
  mask on which the least number of VCPUs of the same priority live.
\<close>

theorem good_hcpu_least_loaded:
  assumes "timer_started Q" and "vmm_cpumask_weight (cpu_count (m_sched Q)) aff \<noteq> 0" and "length (vcpu_avail_array M) < 2 ^ 32"
  shows "good_hcpu Q prio aff M = min_first (hcpu_load prio M) (cpumask_list (cpu_count (m_sched Q)) aff)"
proof -
  let ?k = "cpu_count (m_sched Q)" let ?first = "vmm_cpumask_first ?k aff"
  let ?cnt = "count_vcpus prio aff (vcpu_avail_array M) (vcpu_array M) [0..<length (vcpu_avail_array M)] (\<lambda>_. 0)"
  obtain cs where cs: "cpumask_list ?k aff = ?first # cs" using cpumask_first_Cons [OF assms(2)] by blast
  have cnt: "unat (?cnt h) = hcpu_load prio M h" if "aff h" for h
    using count_vcpus_load [of aff h "\<lambda>_. 0"] that assms(3) by (simp add: hcpu_load_def)
  have "good_hcpu Q prio aff M = min_first ?cnt (?first # cpumask_list ?k aff)"
    using assms by (simp add: good_hcpu_def Let_def pick_hcpu_min cpumask_list_def)
  also have "\<dots> = min_first ?cnt (cpumask_list ?k aff)" unfolding cs min_first_Cons by simp
  also have "\<dots> = min_first (hcpu_load prio M) (cpumask_list ?k aff)"
    by (rule min_first_cong) (auto simp: cpumask_list_def word_le_nat_alt cnt)
  finally show ?thesis .
qed

text \<open>Two host CPUs; VCPU 0, of priority 0, is in use on the first.\<close>

theorem good_hcpu_least_loaded_witness:
  "good_hcpu (demo_menv\<lparr>m_sched := (demo_env prr_algo)\<lparr>cpu_count := 2\<rparr>\<rparr>) 0 (\<lambda>_. True) (demo_mngr\<lparr>vcpu_avail_array := [False, True]\<rparr>) = 1"
proof -
  let ?Q = "demo_menv\<lparr>m_sched := (demo_env prr_algo)\<lparr>cpu_count := 2\<rparr>\<rparr>" let ?M = "demo_mngr\<lparr>vcpu_avail_array := [False, True]\<rparr>"
  have "timer_started ?Q" "vmm_cpumask_weight (cpu_count (m_sched ?Q)) (\<lambda>_. True) \<noteq> 0" "length (vcpu_avail_array ?M) < 2 ^ 32"
    by (simp_all add: demo_menv_def vmm_cpumask_weight_def cpumask_list_def)
  moreover have "min_first (hcpu_load 0 ?M) (cpumask_list (cpu_count (m_sched ?Q)) (\<lambda>_. True)) = 1"
    by (simp add: min_first_def hcpu_load_def cpumask_list_def demo_mngr_defs zero_vcpu_def upt_rec)
  ultimately show ?thesis using good_hcpu_least_loaded [of ?Q "\<lambda>_. True" ?M 0] by simp
qed

section \<open>Bookkeeping\<close>

definition vcpu_used :: "'rq manager \<Rightarrow> nat \<Rightarrow> bool" where
  "vcpu_used M n \<longleftrightarrow> n < length (vcpu_avail_array M) \<and> \<not> vcpu_avail_array M ! n"

definition guest_used :: "'rq manager \<Rightarrow> nat \<Rightarrow> bool" where
  "guest_used M g \<longleftrightarrow> g < length (guest_avail_array M) \<and> \<not> guest_avail_array M ! g"

definition guest_ok :: "'rq manager \<Rightarrow> nat \<Rightarrow> bool" where
  "guest_ok M g \<longleftrightarrow> distinct (guest_vcpu_list (guest_array M g))
     \<and> guest_vcpu_count (guest_array M g) = of_nat (length (guest_vcpu_list (guest_array M g)))
     \<and> (\<forall>n \<in> set (guest_vcpu_list (guest_array M g)). vcpu_used M n \<and> is_normal (vcpu_array M n) \<and> guest (vcpu_array M n) = Some g)"

text \<open>
  The counters are the numbers of entries in use; the orphan list holds orphan VCPUs in use, each once; the guest
  list holds exactly the guests in use, each once and with nodes of their own; and the VCPU list of a guest holds
  normal VCPUs in use that point back to it, each once and as many as its counter says.
\<close>

definition mngr_inv :: "'rq manager \<Rightarrow> bool" where
  "mngr_inv M \<longleftrightarrow> mngr_vcpu_count M = of_nat (length (filter Not (vcpu_avail_array M)))
     \<and> mngr_guest_count M = of_nat (length (filter Not (guest_avail_array M)))
     \<and> distinct (orphan_vcpu_list M) \<and> (\<forall>n \<in> set (orphan_vcpu_list M). vcpu_used M n \<and> \<not> is_normal (vcpu_array M n))
     \<and> distinct (guest_list M) \<and> (\<forall>g. g \<in> set (guest_list M) \<longleftrightarrow> guest_used M g)
     \<and> (\<forall>g \<in> set (guest_list M). guest_ok M g) \<and> inj_on (\<lambda>g. guest_node (guest_array M g)) (set (guest_list M))"

lemma mngr_invD:
  assumes "mngr_inv M"
  shows "mngr_vcpu_count M = of_nat (length (filter Not (vcpu_avail_array M)))"
    "mngr_guest_count M = of_nat (length (filter Not (guest_avail_array M)))"
    "distinct (orphan_vcpu_list M)" "n \<in> set (orphan_vcpu_list M) \<Longrightarrow> vcpu_used M n \<and> \<not> is_normal (vcpu_array M n)"
    "distinct (guest_list M)" "g \<in> set (guest_list M) \<longleftrightarrow> guest_used M g" "g \<in> set (guest_list M) \<Longrightarrow> guest_ok M g"
    "inj_on (\<lambda>g. guest_node (guest_array M g)) (set (guest_list M))"
  using assms unfolding mngr_inv_def by blast+

text \<open>Operations that change nothing of this.\<close>

definition book :: "'rq manager \<Rightarrow> u32 \<times> u32 \<times> bool list \<times> bool list \<times> nat list \<times> nat list \<times> (nat \<Rightarrow> nat list \<times> u32 \<times> nat option)" where
  "book M = (mngr_vcpu_count M, mngr_guest_count M, vcpu_avail_array M, guest_avail_array M, orphan_vcpu_list M, guest_list M,
     \<lambda>g. (guest_vcpu_list (guest_array M g), guest_vcpu_count (guest_array M g), guest_node (guest_array M g)))"

definition same_book :: "'rq manager \<Rightarrow> 'rq manager \<Rightarrow> bool" where
  "same_book M M' \<longleftrightarrow> book M' = book M
     \<and> (\<forall>n. vcpu_used M n \<longrightarrow> is_normal (vcpu_array M' n) = is_normal (vcpu_array M n) \<and> guest (vcpu_array M' n) = guest (vcpu_array M n))"

lemma bookD:
  assumes "book M' = book M"
  shows "mngr_vcpu_count M' = mngr_vcpu_count M" "mngr_guest_count M' = mngr_guest_count M" "vcpu_avail_array M' = vcpu_avail_array M"
    "guest_avail_array M' = guest_avail_array M" "orphan_vcpu_list M' = orphan_vcpu_list M" "guest_list M' = guest_list M"
    "guest_vcpu_list (guest_array M' g) = guest_vcpu_list (guest_array M g)"
    "guest_vcpu_count (guest_array M' g) = guest_vcpu_count (guest_array M g)" "guest_node (guest_array M' g) = guest_node (guest_array M g)"
    "vcpu_used M' = vcpu_used M" "guest_used M' = guest_used M"
  using assms unfolding book_def vcpu_used_def [abs_def] guest_used_def [abs_def] by (auto dest: fun_cong [of _ _ g])

lemma same_book_refl [simp]: "same_book M M"
  by (simp add: same_book_def)

lemma same_book_trans [trans]: "same_book M M1 \<Longrightarrow> same_book M1 M2 \<Longrightarrow> same_book M M2"
  using bookD(10) [of M1 M] unfolding same_book_def by simp

lemma same_book_inv:
  assumes "same_book M M'" and "mngr_inv M"
  shows "mngr_inv M'"
proof -
  note b = bookD [of M' M] assms(1) [unfolded same_book_def]
  have "guest_ok M' g = guest_ok M g" for g using b by (auto simp: guest_ok_def)
  moreover have "is_normal (vcpu_array M' n) = is_normal (vcpu_array M n)" if "n \<in> set (orphan_vcpu_list M)" for n
    using b mngr_invD(4) [OF assms(2) that] by blast
  ultimately show ?thesis using assms(2) b unfolding mngr_inv_def by auto
qed

lemma set_kern_simps [simp]:
  "mkern (set_kern s M) = s" "mngr_vcpu_count (set_kern s M) = mngr_vcpu_count M" "mngr_guest_count (set_kern s M) = mngr_guest_count M"
  "vcpu_avail_array (set_kern s M) = vcpu_avail_array M" "guest_avail_array (set_kern s M) = guest_avail_array M"
  "vcpu_infos (set_kern s M) = vcpu_infos M" "guest_array (set_kern s M) = guest_array M" "orphan_vcpu_list (set_kern s M) = orphan_vcpu_list M"
  "guest_list (set_kern s M) = guest_list M" "guest_work (set_kern s M) = guest_work M" "res_head (msys (set_kern s M)) = res_head (msys M)"
  "book (set_kern s M) = book M" "set_kern s (set_kern s' M) = set_kern s M"
  by (simp_all add: set_kern_def book_def)

lemma upd_mvcpu_simps [simp]:
  "vcpus (mkern (upd_mvcpu n f M)) = (vcpus (mkern M))(n := f (vcpus (mkern M) n))" "scheds (mkern (upd_mvcpu n f M)) = scheds (mkern M)"
  "online (mkern (upd_mvcpu n f M)) = online (mkern M)" "book (upd_mvcpu n f M) = book M"
  "mngr_vcpu_count (upd_mvcpu n f M) = mngr_vcpu_count M" "mngr_guest_count (upd_mvcpu n f M) = mngr_guest_count M"
  "vcpu_avail_array (upd_mvcpu n f M) = vcpu_avail_array M" "guest_avail_array (upd_mvcpu n f M) = guest_avail_array M"
  "vcpu_infos (upd_mvcpu n f M) = vcpu_infos M" "guest_array (upd_mvcpu n f M) = guest_array M"
  "orphan_vcpu_list (upd_mvcpu n f M) = orphan_vcpu_list M" "guest_list (upd_mvcpu n f M) = guest_list M"
  "guest_work (upd_mvcpu n f M) = guest_work M"
  by (simp_all add: upd_mvcpu_def)

lemma book_upd [simp]:
  "book (M\<lparr>vcpu_infos := x\<rparr>) = book M" "book (M\<lparr>msys := S\<rparr>) = book M" "book (M\<lparr>guest_work := w\<rparr>) = book M" "book (init_lists n M) = book M"
  by (simp_all add: book_def init_lists_def Let_def)

lemma links_book: "wlinks (mkern M) s \<Longrightarrow> same_book M (set_kern s M)"
  by (simp add: same_book_def wlinksD)

lemma set_state_book: "vmm_manager_vcpu_set_state Q n' new M = Done (M', rc) \<Longrightarrow> same_book M M'"
  by (auto simp: vmm_manager_vcpu_set_state_def Let_def split: option.splits if_splits dest!: state_change_links intro: links_book)

lemma iterate_book:
  assumes "\<And>n M M' rc. iter n M = Done (M', rc) \<Longrightarrow> same_book M M'"
  shows "iterate iter ns M = Done (M', rc) \<Longrightarrow> same_book M M'"
proof (induction ns arbitrary: M)
  case (Cons n ns)
  then obtain M1 rc1 where "iter n M = Done (M1, rc1)" "(if rc1 \<noteq> VMM_OK then Done (M1, rc1) else iterate iter ns M1) = Done (M', rc)" by auto
  then show ?case using assms [of n M M1 rc1] Cons.IH [of M1] same_book_trans by (auto split: if_splits)
qed simp

lemma guest_iterate_book:
  assumes "\<And>n M M' rc. iter n M = Done (M', rc) \<Longrightarrow> same_book M M'"
  shows "vmm_manager_guest_vcpu_iterate g' (Some iter) M = Done (M', rc) \<Longrightarrow> same_book M M'"
  using iterate_book [of iter] assms by (cases g') (auto simp: vmm_manager_guest_vcpu_iterate_def)

lemma upd_guest_book:
  assumes "\<And>u. guest_vcpu_list (f u) = guest_vcpu_list u" "\<And>u. guest_vcpu_count (f u) = guest_vcpu_count u" "\<And>u. guest_node (f u) = guest_node u"
  shows "same_book M (upd_guest g f M)"
  using assms by (auto simp: same_book_def book_def upd_guest_def fun_eq_iff)

lemma guest_reset_book: "vmm_manager_guest_reset Q g' M = Done (M', rc) \<Longrightarrow> same_book M M'"
proof (cases g')
  case (Some g)
  let ?f = "\<lambda>u. u\<lparr>guest_reset_count := guest_reset_count u + 1, guest_reset_tstamp := now (m_sched Q)\<rparr>"
  assume "vmm_manager_guest_reset Q g' M = Done (M', rc)"
  then obtain M2 rc2 where "vmm_manager_guest_vcpu_iterate (Some g) (Some (\<lambda>n. vmm_manager_vcpu_set_state Q (Some n) VMM_VCPU_STATE_RESET)) (upd_guest g ?f M)
      = Done (M2, rc2)" "M' = M2"
    using Some by (auto simp: vmm_manager_guest_reset_def then_ok_def Let_def split: if_splits)
  then have "same_book (upd_guest g ?f M) M'" 
    using guest_iterate_book [where iter = "\<lambda>n. vmm_manager_vcpu_set_state Q (Some n) VMM_VCPU_STATE_RESET", OF set_state_book] by simp
  then show ?thesis using same_book_trans [OF upd_guest_book [of ?f M g]] by simp
qed (simp add: vmm_manager_guest_reset_def)

lemma guest_state_book:
  "vmm_manager_guest_kick Q g' M = Done (M', rc) \<Longrightarrow> same_book M M'" "vmm_manager_guest_pause Q g' M = Done (M', rc) \<Longrightarrow> same_book M M'"
  "vmm_manager_guest_resume Q g' M = Done (M', rc) \<Longrightarrow> same_book M M'" "vmm_manager_guest_halt Q g' M = Done (M', rc) \<Longrightarrow> same_book M M'"
  unfolding vmm_manager_guest_kick_def vmm_manager_guest_pause_def vmm_manager_guest_resume_def vmm_manager_guest_halt_def
  by (erule guest_iterate_book [rotated], auto split: if_splits dest: set_state_book)+

section \<open>Creation of orphan VCPUs\<close>

lemma first_avail_Some: "first_avail avail = Some n \<Longrightarrow> n < length avail \<and> avail ! n"
  by (auto simp: first_avail_def find_Some_iff)

lemma first_avail_None: "first_avail avail = None \<longleftrightarrow> True \<notin> set avail"
  by (auto simp: first_avail_def find_None_iff in_set_conv_nth)

text \<open>The state after entry \<open>n\<close>, which was available, has been taken for an orphan VCPU.\<close>

definition orphan_added :: "nat \<Rightarrow> 'rq manager \<Rightarrow> 'rq manager \<Rightarrow> bool" where
  "orphan_added n M M' \<longleftrightarrow> mngr_vcpu_count M' = mngr_vcpu_count M + 1 \<and> mngr_guest_count M' = mngr_guest_count M
     \<and> vcpu_avail_array M' = (vcpu_avail_array M)[n := False] \<and> guest_avail_array M' = guest_avail_array M
     \<and> orphan_vcpu_list M' = orphan_vcpu_list M @ [n] \<and> guest_list M' = guest_list M
     \<and> (\<forall>g. guest_vcpu_list (guest_array M' g) = guest_vcpu_list (guest_array M g)
          \<and> guest_vcpu_count (guest_array M' g) = guest_vcpu_count (guest_array M g) \<and> guest_node (guest_array M' g) = guest_node (guest_array M g))
     \<and> \<not> is_normal (vcpu_array M' n)
     \<and> (\<forall>m. m \<noteq> n \<longrightarrow> is_normal (vcpu_array M' m) = is_normal (vcpu_array M m) \<and> guest (vcpu_array M' m) = guest (vcpu_array M m))"

lemma orphan_added_book:
  assumes "orphan_added n M M1" and "book M2 = book M1"
    and "\<And>m. is_normal (vcpu_array M2 m) = is_normal (vcpu_array M1 m) \<and> guest (vcpu_array M2 m) = guest (vcpu_array M1 m)"
  shows "orphan_added n M M2"
  using assms(1,3) unfolding orphan_added_def bookD [OF assms(2)] by simp

lemma orphan_added_link: "orphan_added n M (link_orphan n name (take_vcpu n prio h aff M))"
  by (simp add: orphan_added_def link_orphan_def take_vcpu_def)

lemma orphan_added_undo:
  assumes "orphan_added n M M'" and "n \<notin> set (orphan_vcpu_list M)" and "n < length (vcpu_avail_array M)" and "vcpu_avail_array M ! n"
  shows "same_book M (unlink_orphan n M')"
proof -
  have "(vcpu_avail_array M)[n := True] = vcpu_avail_array M" using assms(4) by (metis list_update_id)
  moreover have "remove1 n (orphan_vcpu_list M @ [n]) = orphan_vcpu_list M" using assms(2) by (simp add: remove1_append)
  ultimately show ?thesis using assms by (auto simp: same_book_def book_def unlink_orphan_def free_vcpu_def orphan_added_def vcpu_used_def fun_eq_iff)
qed

lemma orphan_added_inv:
  assumes "mngr_inv M" and "orphan_added n M M'" and "n < length (vcpu_avail_array M)" and "vcpu_avail_array M ! n"
  shows "mngr_inv M'"
proof -
  note a = assms(2) [unfolded orphan_added_def]
  have u: "vcpu_used M' m \<longleftrightarrow> m = n \<or> vcpu_used M m" for m using a assms(3) by (auto simp: vcpu_used_def nth_list_update)
  have nu: "\<not> vcpu_used M n" using assms(4) by (simp add: vcpu_used_def)
  have "length (filter Not ((vcpu_avail_array M)[n := False])) = length (filter Not (vcpu_avail_array M)) + 1"
    using filter_update [OF assms(3), of Not False] assms(4) by simp
  then have c: "mngr_vcpu_count M' = of_nat (length (filter Not (vcpu_avail_array M')))" using a mngr_invD(1) [OF assms(1)] by simp
  have g: "guest_ok M' g" if "g \<in> set (guest_list M)" for g
    using mngr_invD(7) [OF assms(1) that] a u nu by (fastforce simp: guest_ok_def)
  have o: "distinct (orphan_vcpu_list M')" "\<forall>m \<in> set (orphan_vcpu_list M'). vcpu_used M' m \<and> \<not> is_normal (vcpu_array M' m)"
    using mngr_invD(3,4) [OF assms(1)] a u nu by (auto, metis)
  have "guest_used M' = guest_used M" using a by (simp add: guest_used_def fun_eq_iff)
  then show ?thesis using c g o a mngr_invD(2,5,6,8) [OF assms(1)] unfolding mngr_inv_def by auto
qed

lemma set_state_ident:
  "vmm_manager_vcpu_set_state Q n' new M = Done (M', rc) \<Longrightarrow>
     is_normal (vcpu_array M' m) = is_normal (vcpu_array M m) \<and> guest (vcpu_array M' m) = guest (vcpu_array M m)"
  by (auto simp: vmm_manager_vcpu_set_state_def Let_def split: option.splits if_splits dest!: state_change_links simp: wlinksD)

lemma init_lists_simps [simp]:
  "vcpus (mkern (init_lists n M)) = (vcpus (mkern M))(n := (vcpus (mkern M) n)\<lparr>wq_priv := None\<rparr>)" "scheds (mkern (init_lists n M)) = scheds (mkern M)"
  "online (mkern (init_lists n M)) = online (mkern M)"
  by (simp_all add: init_lists_def Let_def upd_mvcpu_def set_kern_def)

lemma init_sched_context_simps [simp]:
  "is_normal (init_sched_context t ts d p v) = is_normal v" "guest (init_sched_context t ts d p v) = guest v"
  "state (init_sched_context t ts d p v) = state v" "hcpu (init_sched_context t ts d p v) = hcpu v"
  "priority (init_sched_context t ts d p v) = priority v" "irqs (init_sched_context t ts d p v) = irqs v"
  by (simp_all add: init_sched_context_def Let_def)

lemma start_orphan_cases:
  assumes "orphan_added n M M2" and "start_orphan Q n pc ts dline period M2 = Done (M', r)"
  shows "\<exists>M4. orphan_added n M M4 \<and> (M' = unlink_orphan n M4 \<and> r = None \<or> M' = M4 \<and> r = Some n)"
proof (cases "stack_mem Q n")
  case True
  let ?M3 = "upd_mvcpu n (init_sched_context (now (m_sched Q)) ts dline period)
    (M2\<lparr>vcpu_infos := (vcpu_infos M2)(n := (vcpu_infos M2 n)\<lparr>start_pc := pc, stack_va := True\<rparr>)\<rparr>)"
  have i3: "is_normal (vcpu_array ?M3 m) = is_normal (vcpu_array M2 m) \<and> guest (vcpu_array ?M3 m) = guest (vcpu_array M2 m)" for m by simp
  have a3: "orphan_added n M ?M3" by (rule orphan_added_book [OF assms(1) _ i3]) simp
  show ?thesis
  proof (cases "arch_init (m_sched Q) n = VMM_OK")
    case True
    then obtain M4 rc where s: "vmm_manager_vcpu_set_state Q (Some n) VMM_VCPU_STATE_RESET (init_lists n ?M3) = Done (M4, rc)"
      "M' = unlink_orphan n M4 \<and> r = None \<or> M' = M4 \<and> r = Some n"
      using assms(2) \<open>stack_mem Q n\<close> by (auto simp: start_orphan_def Let_def split: if_splits)
    have "book M4 = book ?M3" using set_state_book [OF s(1)] by (simp add: same_book_def)
    moreover have i4: "is_normal (vcpu_array M4 m) = is_normal (vcpu_array ?M3 m) \<and> guest (vcpu_array M4 m) = guest (vcpu_array ?M3 m)" for m
      using set_state_ident [OF s(1), of m] by simp
    ultimately have "orphan_added n M M4" by (intro orphan_added_book [OF a3])
    then show ?thesis using s(2) by blast
  qed (use a3 assms(2) \<open>stack_mem Q n\<close> in \<open>auto simp: start_orphan_def Let_def\<close>)
qed (use assms in \<open>auto simp: start_orphan_def\<close>)

lemma orphan_create_cases:
  assumes "mngr_inv M" and "vmm_manager_vcpu_orphan_create Q name' pc prio ts dline period aff' M = Done (M', r)"
  shows "mngr_inv M' \<and> (case r of
      None \<Rightarrow> same_book M M'
    | Some n \<Rightarrow> first_avail (vcpu_avail_array M) = Some n \<and> vmm_manager_vcpu n M = None \<and> vmm_manager_vcpu n M' = Some n \<and> orphan_added n M M')"
proof (cases "M' = M \<and> r = None")
  case False
  then obtain name n where n: "name' = Some name" "first_avail (vcpu_avail_array M) = Some n"
    using assms(2) by (auto simp: vmm_manager_vcpu_orphan_create_def Let_def split: option.splits if_splits)
  note fa = first_avail_Some [OF n(2)]
  have fresh: "n \<notin> set (orphan_vcpu_list M)" using mngr_invD(4) [OF assms(1)] fa by (auto simp: vcpu_used_def)
  obtain h aff where "M' = free_vcpu n (take_vcpu n prio h aff M) \<and> r = None
      \<or> start_orphan Q n pc ts dline period (link_orphan n name (take_vcpu n prio h aff M)) = Done (M', r)"
    using assms(2) False n by (auto simp: vmm_manager_vcpu_orphan_create_def Let_def split: if_splits)
  then show ?thesis
  proof (elim disjE conjE)
    assume c: "M' = free_vcpu n (take_vcpu n prio h aff M)" "r = None"
    have "(vcpu_avail_array M)[n := True] = vcpu_avail_array M" using fa by (metis list_update_id)
    then have "same_book M M'" using c by (simp add: same_book_def book_def free_vcpu_def take_vcpu_def)
    then show ?thesis using c same_book_inv [OF _ assms(1)] by simp
  next
    assume "start_orphan Q n pc ts dline period (link_orphan n name (take_vcpu n prio h aff M)) = Done (M', r)"
    then obtain M4 where a: "orphan_added n M M4" and c: "M' = unlink_orphan n M4 \<and> r = None \<or> M' = M4 \<and> r = Some n"
      using start_orphan_cases [OF orphan_added_link] fa by blast
    have "vmm_manager_vcpu n M = None" "vmm_manager_vcpu n M4 = Some n" using fa a by (simp_all add: vmm_manager_vcpu_def orphan_added_def)
    then show ?thesis using c a n(2) fa orphan_added_inv [OF assms(1) a] orphan_added_undo [OF a fresh] same_book_inv [OF _ assms(1)] by auto
  qed
qed (use assms(1) in simp)

lemma orphan_create_inv:
  "mngr_inv M \<Longrightarrow> vmm_manager_vcpu_orphan_create Q name' pc prio ts dline period aff' M = Done (M', r) \<Longrightarrow> mngr_inv M'"
  using orphan_create_cases by blast

text \<open>
  C16. Creating an orphan VCPU.  When it fails, for whatever reason, the counters, the lists and the available
  entries are as before; when it returns a VCPU, that is the first entry that was available, it is now in use, at the
  end of the orphan list, and counted.  In both cases the bookkeeping of the manager stays consistent.
\<close>

theorem orphan_create_outcome:
  assumes "mngr_inv M" and "vmm_manager_vcpu_orphan_create Q name' pc prio ts dline period aff' M = Done (M', r)"
  shows "mngr_inv M' \<and> (case r of
      None \<Rightarrow> same_book M M'
    | Some n \<Rightarrow> first_avail (vcpu_avail_array M) = Some n \<and> vmm_manager_vcpu n M = None \<and> vmm_manager_vcpu n M' = Some n \<and> orphan_added n M M')"
  using assms by (rule orphan_create_cases)

lemma demo_mngr_inv: "mngr_inv demo_mngr"
  by (simp add: mngr_inv_def demo_mngr_def vmm_manager_init_def guest_used_def)

text \<open>When an orphan VCPU is returned, and in which state.\<close>

lemma first_reset:
  assumes "state (vcpu_array M n) = VMM_VCPU_STATE_UNKNOWN"
    and "hcpu (vcpu_array M n) = m_host Q \<or> online (mkern M) (hcpu (vcpu_array M n)) \<and> host_answers Q (hcpu (vcpu_array M n))"
  shows "\<exists>s. vmm_manager_vcpu_set_state Q (Some n) VMM_VCPU_STATE_RESET M = Done (set_kern s M, VMM_OK)
     \<and> state (vcpus s n) = (if entry_mem (m_sched Q) then VMM_VCPU_STATE_RESET else VMM_VCPU_STATE_UNKNOWN)"
proof -
  obtain v rc where v: "vmm_schedalgo_vcpu_setup (entry_mem (m_sched Q)) (vcpu_array M n) = (v, rc)" by fastforce
  have rc: "rc = VMM_OK \<longleftrightarrow> entry_mem (m_sched Q)" "state v = VMM_VCPU_STATE_UNKNOWN"
    using v assms(1) by (auto simp: vmm_schedalgo_vcpu_setup_def split: if_splits)
  have "vmm_manager_vcpu_set_state Q (Some n) VMM_VCPU_STATE_RESET M
      = bind_result (vmm_scheduler_state_change (m_sched Q) (hcpu (vcpu_array M n)) (m_frame Q) (Some n) VMM_VCPU_STATE_RESET (mkern M))
          (\<lambda>(s, _, _). Done (set_kern s M, VMM_OK))"
    using assms(2) by (auto simp: vmm_manager_vcpu_set_state_def Let_def simp del: bind_result_eq_Done)
  then show ?thesis using v rc assms(1)
    by (auto simp: vmm_scheduler_state_change_def change_locked_def change_action_def Let_def commit_state_def account_time_def split: option.split)
qed

lemma orphan_create_returns:
  assumes "pc \<noteq> 0" "ts \<noteq> 0" "VMM_VCPU_MIN_PRIORITY \<le> prio" "prio \<le> VMM_VCPU_MAX_PRIORITY" "first_avail (vcpu_avail_array M) = Some n"
    and "length name < VMM_FIELD_NAME_SIZE" "stack_mem Q n" "arch_init (m_sched Q) n = VMM_OK"
    and "good_hcpu Q prio aff M = m_host Q \<or> online (mkern M) (good_hcpu Q prio aff M) \<and> host_answers Q (good_hcpu Q prio aff M)"
  shows "\<exists>M'. vmm_manager_vcpu_orphan_create Q (Some name) pc prio ts dline period (Some aff) M = Done (M', Some n)
     \<and> state (vcpu_array M' n) = (if entry_mem (m_sched Q) then VMM_VCPU_STATE_RESET else VMM_VCPU_STATE_UNKNOWN)"
proof -
  let ?M2 = "link_orphan n name (take_vcpu n prio (good_hcpu Q prio aff M) aff M)"
  let ?M3 = "init_lists n (upd_mvcpu n (init_sched_context (now (m_sched Q)) ts dline period)
    (?M2\<lparr>vcpu_infos := (vcpu_infos ?M2)(n := (vcpu_infos ?M2 n)\<lparr>start_pc := pc, stack_va := True\<rparr>)\<rparr>))"
  have "vmm_manager_vcpu_orphan_create Q (Some name) pc prio ts dline period (Some aff) M = start_orphan Q n pc ts dline period ?M2"
    using assms(1-6) by (simp add: vmm_manager_vcpu_orphan_create_def Let_def del: bind_result_eq_Done)
  also have "\<dots> = bind_result (vmm_manager_vcpu_set_state Q (Some n) VMM_VCPU_STATE_RESET ?M3)
      (\<lambda>(M4, rc). if rc \<noteq> VMM_OK then Done (unlink_orphan n M4, None) else Done (M4, Some n))"
    using assms(7,8) by (simp add: start_orphan_def Let_def del: bind_result_eq_Done)
  finally have c: "vmm_manager_vcpu_orphan_create Q (Some name) pc prio ts dline period (Some aff) M = \<dots>" .
  have "state (vcpu_array ?M3 n) = VMM_VCPU_STATE_UNKNOWN" "hcpu (vcpu_array ?M3 n) = good_hcpu Q prio aff M" "online (mkern ?M3) = online (mkern M)"
    by (simp_all add: link_orphan_def take_vcpu_def)
  then obtain s where "vmm_manager_vcpu_set_state Q (Some n) VMM_VCPU_STATE_RESET ?M3 = Done (set_kern s ?M3, VMM_OK)"
    "state (vcpus s n) = (if entry_mem (m_sched Q) then VMM_VCPU_STATE_RESET else VMM_VCPU_STATE_UNKNOWN)"
    using first_reset [of ?M3 n Q] assms(9) by auto
  then show ?thesis unfolding c by simp
qed

lemma demo_orphan_create:
  "\<exists>M'. vmm_manager_vcpu_orphan_create demo_menv (Some ''worker'') 64 3 1000 0 0 (Some (\<lambda>_. True)) demo_mngr = Done (M', Some 0)"
proof -
  have "good_hcpu demo_menv 3 (\<lambda>_. True) demo_mngr = 0"
    by (simp add: good_hcpu_def demo_menv_def demo_env_def demo_mngr_def vmm_manager_init_def vmm_cpumask_first_def cpumask_list_def)
  then show ?thesis using orphan_create_returns [of 64 1000 3 demo_mngr 0 "''worker''" demo_menv "\<lambda>_. True" 0 0]
    by (auto simp: VMM_VCPU_MAX_PRIORITY_def VMM_VCPU_MIN_PRIORITY_def VMM_FIELD_NAME_SIZE_def demo_menv_def demo_env_def first_avail_def
        demo_mngr_def vmm_manager_init_def upt_rec)
qed

theorem orphan_create_outcome_witness:
  "\<exists>M'. vmm_manager_vcpu_orphan_create demo_menv (Some ''worker'') 64 3 1000 0 0 (Some (\<lambda>_. True)) demo_mngr = Done (M', Some 0)
     \<and> mngr_inv M' \<and> vmm_manager_vcpu 0 M' = Some 0 \<and> orphan_vcpu_list M' = [0] \<and> mngr_vcpu_count M' = 1"
proof -
  obtain M' where M: "vmm_manager_vcpu_orphan_create demo_menv (Some ''worker'') 64 3 1000 0 0 (Some (\<lambda>_. True)) demo_mngr = Done (M', Some 0)"
    using demo_orphan_create by blast
  have "orphan_vcpu_list demo_mngr = []" "mngr_vcpu_count demo_mngr = 0" by (simp_all add: demo_mngr_def vmm_manager_init_def)
  then show ?thesis using orphan_create_outcome [OF demo_mngr_inv M] M by (simp add: orphan_added_def)
qed

section \<open>Destruction\<close>

text \<open>What a clean-up of a resource has to respect.\<close>

definition cleanup_ok :: "'rq manager_env \<Rightarrow> bool" where
  "cleanup_ok Q \<longleftrightarrow> (\<forall>n r S S'. res_cleanup Q n r S = Done S' \<longrightarrow> wlinks (kern S) (kern S'))"

lemma flush_resources_links:
  assumes "\<And>r S S'. cleanup r S = Done S' \<Longrightarrow> wlinks (kern S) (kern S')"
  shows "flush_resources k cleanup n S = Done S' \<Longrightarrow> wlinks (kern S) (kern S')"
proof (induction k arbitrary: S)
  case (Suc k)
  let ?S = "S\<lparr>res_head := (res_head S)(n := butlast (res_head S n))\<rparr>"
  show ?case
  proof (cases "res_head S n = []")
    case False
    then obtain S1 where 1: "cleanup (last (res_head S n)) ?S = Done S1" "flush_resources k cleanup n S1 = Done S'" using Suc.prems by auto
    have "wlinks (kern S) (kern S1)" using assms [OF 1(1)] by simp
    then show ?thesis using Suc.IH [OF 1(2)] by (rule wlinks_trans)
  qed (use Suc.prems in simp)
qed simp

lemma resource_flush_book: "cleanup_ok Q \<Longrightarrow> vmm_manager_vcpu_resource_flush Q n M = Done M' \<Longrightarrow> same_book M M'"
  unfolding cleanup_ok_def vmm_manager_vcpu_resource_flush_def
  by (auto simp: same_book_def simp del: flush_resources.simps dest!: flush_resources_links [rotated] dest: wlinksD)

lemma forced_remove_ident:
  assumes "vmm_waitqueue_forced_remove smp h n w = Done (w', rc)"
  shows "is_normal (vcpus (ksys w') m) = is_normal (vcpus (ksys w) m) \<and> guest (vcpus (ksys w') m) = guest (vcpus (ksys w) m)"
proof (cases "wq_priv (vcpus (ksys w) n)")
  case (Some wq)
  then obtain s w1 e where s: "vmm_spin_lock smp h wq (ksys w) = Done s"
    "waitqueue_unlink wq n (w\<lparr>ksys := s, wake_event := e\<rparr>) = Done w1" "w' = w1\<lparr>ksys := vmm_spin_unlock h wq (ksys w1)\<rparr>"
    using assms by (auto simp: vmm_waitqueue_forced_remove_def)
  have s': "s = log_event (WqLock h wq) (vmm_scheduler_preempt_disable h (ksys w))" using s(1) by (simp add: vmm_spin_lock_def split: if_splits)
  have "ksys w1 = upd_vcpu n (\<lambda>v. v\<lparr>wq_lock := None, wq_priv := None\<rparr>) s"
    using s(2) by (auto simp: waitqueue_unlink_def Let_def split: if_splits)
  then show ?thesis using s(3) framedD(3,10) [OF spin_framed(1) [where s = "ksys w" and h = h and l = wq], of m] framedD(3,10) [OF spin_framed(2) [where s = "ksys w1" and h = h and l = wq], of m]
    unfolding s' by (cases "m = n") auto
qed (use assms in \<open>simp add: vmm_waitqueue_forced_remove_def\<close>)

text \<open>Giving back an entry that is in no list.\<close>

lemma free_vcpu_inv:
  assumes i: "mngr_inv M" and n: "vcpu_used M n" "n \<notin> set (orphan_vcpu_list M)"
    "\<And>g. g \<in> set (guest_list M) \<Longrightarrow> n \<notin> set (guest_vcpu_list (guest_array M g))"
  shows "mngr_inv (free_vcpu n (M\<lparr>mngr_vcpu_count := mngr_vcpu_count M - 1\<rparr>))"
proof -
  let ?M = "free_vcpu n (M\<lparr>mngr_vcpu_count := mngr_vcpu_count M - 1\<rparr>)"
  have u: "vcpu_used ?M m \<longleftrightarrow> m \<noteq> n \<and> vcpu_used M m" for m using n(1) by (auto simp: vcpu_used_def free_vcpu_def nth_list_update)
  have "length (filter Not (vcpu_avail_array M)) = length (filter Not ((vcpu_avail_array M)[n := True])) + 1"
    using filter_update [of n "vcpu_avail_array M" Not True] n(1) by (simp add: vcpu_used_def)
  then have c: "mngr_vcpu_count ?M = of_nat (length (filter Not (vcpu_avail_array ?M)))" using mngr_invD(1) [OF i] by (simp add: free_vcpu_def)
  have g: "guest_ok ?M g" if "g \<in> set (guest_list M)" for g
    using mngr_invD(7) [OF i that] n(3) [OF that] u by (auto simp: guest_ok_def free_vcpu_def)
  have "vcpu_used ?M m \<and> \<not> is_normal (vcpu_array M m)" if "m \<in> set (orphan_vcpu_list M)" for m
    using mngr_invD(4) [OF i that] n(2) u that by auto
  moreover have "guest_used ?M = guest_used M" by (simp add: guest_used_def free_vcpu_def fun_eq_iff)
  ultimately show ?thesis using c g mngr_invD(2,3,5,6,8) [OF i] unfolding mngr_inv_def by (simp add: free_vcpu_def)
qed

lemma orphan_not_guest:
  "mngr_inv M \<Longrightarrow> n \<in> set (orphan_vcpu_list M) \<Longrightarrow> g \<in> set (guest_list M) \<Longrightarrow> n \<notin> set (guest_vcpu_list (guest_array M g))"
  using mngr_invD(4,7) [of M] by (fastforce simp: guest_ok_def)

lemma unlink_orphan_inv:
  assumes i: "mngr_inv M" and n: "n \<in> set (orphan_vcpu_list M)"
  shows "mngr_inv (unlink_orphan n M)"
proof -
  let ?M = "M\<lparr>orphan_vcpu_list := remove1 n (orphan_vcpu_list M)\<rparr>"
  have "mngr_inv ?M" using i unfolding mngr_inv_def guest_ok_def vcpu_used_def guest_used_def by auto
  then have "mngr_inv (free_vcpu n (?M\<lparr>mngr_vcpu_count := mngr_vcpu_count ?M - 1\<rparr>))"
    using mngr_invD(3,4) [OF i] n orphan_not_guest [OF i n] by (intro free_vcpu_inv) (auto simp: vcpu_used_def)
  then show ?thesis by (simp add: unlink_orphan_def)
qed

lemma orphan_destroy_inv:
  assumes i: "mngr_inv M" and Q: "cleanup_ok Q" and d: "vmm_manager_vcpu_orphan_destroy Q n' M = Done (M', rc)"
  shows "mngr_inv M'"
proof (cases "M' = M")
  case False
  then obtain n where n: "n' = Some n" "\<not> is_normal (vcpu_array M n)"
    using d by (auto simp: vmm_manager_vcpu_orphan_destroy_def split: option.splits if_splits)
  obtain w rcw M1 rc1 where 1: "vmm_waitqueue_forced_remove (m_smp Q) (m_host Q) n (wsys (msys M)) = Done (w, rcw)"
    "vmm_manager_vcpu_set_state Q (Some n) VMM_VCPU_STATE_RESET (M\<lparr>msys := (msys M)\<lparr>wsys := w\<rparr>\<rparr>) = Done (M1, rc1)"
    and r1: "M' = M1 \<or> (\<exists>M2 M3 rc3. vmm_manager_vcpu_resource_flush Q n M1 = Done M2
      \<and> vmm_manager_vcpu_set_state Q (Some n) VMM_VCPU_STATE_UNKNOWN M2 = Done (M3, rc3) \<and> (M' = M3
        \<or> M' = upd_mvcpu n (\<lambda>v. v\<lparr>sched_priv := False\<rparr>) M3
        \<or> n \<in> set (orphan_vcpu_list M3) \<and> M' = unlink_orphan n (upd_mvcpu n (\<lambda>v. v\<lparr>sched_priv := False\<rparr>) M3)))"
    using d n by (auto simp: vmm_manager_vcpu_orphan_destroy_def then_ok_def Let_def split: if_splits)
  have "same_book M (M\<lparr>msys := (msys M)\<lparr>wsys := w\<rparr>\<rparr>)" using forced_remove_ident [OF 1(1)] by (simp add: same_book_def)
  then have b1: "same_book M M1" using set_state_book [OF 1(2)] same_book_trans by blast
  have b3: "same_book M M3" if "vmm_manager_vcpu_resource_flush Q n M1 = Done M2" "vmm_manager_vcpu_set_state Q (Some n) VMM_VCPU_STATE_UNKNOWN M2 = Done (M3, rc3)" for M2 M3 rc3
    using same_book_trans [OF b1 same_book_trans [OF resource_flush_book [OF Q that(1)] set_state_book [OF that(2)]]] .
  have b4: "same_book M3 (upd_mvcpu n (\<lambda>v. v\<lparr>sched_priv := False\<rparr>) M3)" for M3 by (simp add: same_book_def)
  show ?thesis using r1
  proof (elim disjE exE conjE)
    fix M2 M3 rc3
    assume r: "vmm_manager_vcpu_resource_flush Q n M1 = Done M2" "vmm_manager_vcpu_set_state Q (Some n) VMM_VCPU_STATE_UNKNOWN M2 = Done (M3, rc3)"
    have i4: "mngr_inv (upd_mvcpu n (\<lambda>v. v\<lparr>sched_priv := False\<rparr>) M3)" using same_book_inv [OF same_book_trans [OF b3 [OF r] b4] i] .
    { assume "M' = M3" then show ?thesis using same_book_inv [OF b3 [OF r] i] by simp }
    { assume "M' = upd_mvcpu n (\<lambda>v. v\<lparr>sched_priv := False\<rparr>) M3" then show ?thesis using i4 by simp }
    { assume "n \<in> set (orphan_vcpu_list M3)" "M' = unlink_orphan n (upd_mvcpu n (\<lambda>v. v\<lparr>sched_priv := False\<rparr>) M3)"
      then show ?thesis using unlink_orphan_inv [OF i4] by simp }
  qed (use same_book_inv [OF b1 i] in simp)
qed (use i in simp)

end
