(* ===== verification/GuestProps.thy ===== *)
theory GuestProps
  imports ManagerProps
begin

text \<open>
  Guests: creation and destruction keep the bookkeeping of the manager, the invariant over all sequences of
  operations, and the reboot of a guest.
\<close>

section \<open>Destruction of a guest\<close>

text \<open>What destroying VCPUs leaves of the guest table.\<close>

definition same_guests :: "'rq manager \<Rightarrow> 'rq manager \<Rightarrow> bool" where
  "same_guests M M' \<longleftrightarrow> mngr_guest_count M' = mngr_guest_count M \<and> guest_avail_array M' = guest_avail_array M \<and> guest_list M' = guest_list M"

lemma same_guests_refl [simp]: "same_guests M M"
  by (simp add: same_guests_def)

lemma same_guests_trans: "same_guests M M1 \<Longrightarrow> same_guests M1 M2 \<Longrightarrow> same_guests M M2"
  by (simp add: same_guests_def)

lemma same_book_guests: "same_book M M' \<Longrightarrow> same_guests M M'"
  unfolding same_book_def same_guests_def using bookD(2,4,6) by blast

lemma irq_deinit_ident [simp]:
  "is_normal (fst (vmm_vcpu_irq_deinit v)) = is_normal v" "guest (fst (vmm_vcpu_irq_deinit v)) = guest v"
  by (simp_all add: vmm_vcpu_irq_deinit_def)

lemma upd_mvcpu_same_book:
  "is_normal (f (vcpu_array M n)) = is_normal (vcpu_array M n) \<Longrightarrow> guest (f (vcpu_array M n)) = guest (vcpu_array M n) \<Longrightarrow> same_book M (upd_mvcpu n f M)"
  by (simp add: same_book_def)

text \<open>Taking the first VCPU off the list of a guest; the entry is then in no list.\<close>

definition drop_vcpu :: "nat \<Rightarrow> nat list \<Rightarrow> 'rq manager \<Rightarrow> 'rq manager" where
  "drop_vcpu g ns M = upd_guest g (\<lambda>u. u\<lparr>guest_vcpu_count := guest_vcpu_count u - 1, guest_vcpu_list := ns\<rparr>) M"

lemma drop_vcpu_simps [simp]:
  "msys (drop_vcpu g ns M) = msys M" "mngr_vcpu_count (drop_vcpu g ns M) = mngr_vcpu_count M" "same_guests M (drop_vcpu g ns M)"
  "vcpu_avail_array (drop_vcpu g ns M) = vcpu_avail_array M" "orphan_vcpu_list (drop_vcpu g ns M) = orphan_vcpu_list M"
  "guest_vcpu_list (guest_array (drop_vcpu g ns M) g') = (if g' = g then ns else guest_vcpu_list (guest_array M g'))"
  "guest_node (guest_array (drop_vcpu g ns M) g') = guest_node (guest_array M g')" "guest_list (drop_vcpu g ns M) = guest_list M"
  by (simp_all add: drop_vcpu_def upd_guest_def same_guests_def)

lemma drop_vcpu_inv:
  assumes "mngr_inv M" and "g \<in> set (guest_list M)" and "guest_vcpu_list (guest_array M g) = n # ns"
  shows "mngr_inv (drop_vcpu g ns M)" "vcpu_used M n" "n \<notin> set (orphan_vcpu_list M)"
    "g' \<in> set (guest_list M) \<Longrightarrow> n \<notin> set (guest_vcpu_list (guest_array (drop_vcpu g ns M) g'))"
proof -
  note ok = mngr_invD(7) [OF assms(1)]
  let ?M = "drop_vcpu g ns M"
  have u: "vcpu_used ?M = vcpu_used M" "guest_used ?M = guest_used M" by (simp_all add: vcpu_used_def guest_used_def fun_eq_iff drop_vcpu_def upd_guest_def)
  have "guest_ok ?M g'" if "g' \<in> set (guest_list M)" for g'
    using ok [OF that] ok [OF assms(2)] assms(3) u by (cases "g' = g") (simp_all add: guest_ok_def drop_vcpu_def upd_guest_def)
  moreover have "mngr_guest_count ?M = of_nat (length (filter Not (guest_avail_array ?M)))"
    using mngr_invD(2) [OF assms(1)] by (simp add: drop_vcpu_def upd_guest_def)
  ultimately show "mngr_inv ?M" using mngr_invD(1,3-6,8) [OF assms(1)] u unfolding mngr_inv_def by simp
  show "vcpu_used M n" "n \<notin> set (orphan_vcpu_list M)" 
    using ok [OF assms(2)] assms(3) mngr_invD(4) [OF assms(1), of n] by (auto simp: guest_ok_def)
  show "n \<notin> set (guest_vcpu_list (guest_array (drop_vcpu g ns M) g'))" if "g' \<in> set (guest_list M)"
    using ok [OF assms(2)] ok [OF that] assms(3) by (auto simp: guest_ok_def)
qed

lemma then_ok_Done:
  "then_ok m f = Done (s', rc) \<longleftrightarrow> (\<exists>s1 rc1. m = Done (s1, rc1) \<and> (if rc1 = VMM_OK then f s1 = Done (s', rc) else s' = s1 \<and> rc = rc1))"
  by (auto simp: then_ok_def)

lemma free_vcpu_info_inv:
  assumes "mngr_inv M" and "same_book M M5" and "vcpu_used M n" and "n \<notin> set (orphan_vcpu_list M)"
    and "\<And>g. g \<in> set (guest_list M) \<Longrightarrow> n \<notin> set (guest_vcpu_list (guest_array M g))"
  shows "mngr_inv (undo_guest_vcpu n M5)" "same_guests M (undo_guest_vcpu n M5)"
    "guest_array (undo_guest_vcpu n M5) = guest_array M5"
proof -
  note b = bookD [OF conjunct1 [OF assms(2) [unfolded same_book_def]]]
  let ?M = "M5\<lparr>vcpu_infos := (vcpu_infos M5)(n := (vcpu_infos M5 n)\<lparr>vcpu_node := None\<rparr>)\<rparr>"
  have "same_book M5 ?M" by (simp add: same_book_def)
  then have i: "mngr_inv ?M" using same_book_inv [OF same_book_trans [OF assms(2)] assms(1)] by blast
  have "vcpu_used ?M n" "n \<notin> set (orphan_vcpu_list ?M)" using assms(3,4) b(3,5) by (simp_all add: vcpu_used_def)
  moreover have "n \<notin> set (guest_vcpu_list (guest_array ?M g))" if "g \<in> set (guest_list ?M)" for g
    using assms(5) [of g] that b(6,7) by simp
  ultimately have "mngr_inv (free_vcpu n (?M\<lparr>mngr_vcpu_count := mngr_vcpu_count ?M - 1\<rparr>))" by (rule free_vcpu_inv [OF i])
  then show "mngr_inv (undo_guest_vcpu n M5)" by (simp add: undo_guest_vcpu_def)
  show "same_guests M (undo_guest_vcpu n M5)" "guest_array (undo_guest_vcpu n M5) = guest_array M5"
    using b(2,4,6) by (simp_all add: same_guests_def undo_guest_vcpu_def free_vcpu_def)
qed

lemma destroy_vcpus_inv:
  assumes "cleanup_ok Q"
  shows "destroy_vcpus Q g ns M = Done (M', rc) \<Longrightarrow> mngr_inv M \<Longrightarrow> g \<in> set (guest_list M) \<Longrightarrow> guest_vcpu_list (guest_array M g) = ns \<Longrightarrow>
    mngr_inv M' \<and> same_guests M M'"
proof (induction ns arbitrary: M)
  case (Cons n ns)
  let ?M1 = "drop_vcpu g ns M"
  note d = drop_vcpu_inv [OF Cons.prems(2-4)]
  obtain M2 M3 rc3 where f: "vmm_manager_vcpu_resource_flush Q n ?M1 = Done M2"
    "vmm_manager_vcpu_set_state Q (Some n) VMM_VCPU_STATE_UNKNOWN M2 = Done (M3, rc3)"
    using Cons.prems(1) by (auto simp: Let_def then_ok_Done drop_vcpu_def)
  let ?M4 = "upd_mvcpu n (\<lambda>v. v\<lparr>sched_priv := False\<rparr>) M3"
  let ?M5 = "upd_mvcpu n (\<lambda>_. fst (vmm_vcpu_irq_deinit (vcpu_array ?M4 n))) ?M4"
  have b3: "same_book ?M1 M3" using same_book_trans [OF resource_flush_book [OF assms f(1)] set_state_book [OF f(2)]] .
  have "same_book M3 ?M4" "same_book ?M4 ?M5" by (rule upd_mvcpu_same_book; simp)+
  then have b5: "same_book ?M1 ?M5" using same_book_trans [OF b3] same_book_trans by blast
  have i: "mngr_inv M3" "mngr_inv ?M5" using same_book_inv [OF b3 d(1)] same_book_inv [OF b5 d(1)] .
  have g: "same_guests M M3" "same_guests M ?M5" using same_book_guests [OF b3] same_book_guests [OF b5] same_guests_trans [OF drop_vcpu_simps(3)] by blast+
  have u: "mngr_inv (undo_guest_vcpu n ?M5)" "same_guests ?M1 (undo_guest_vcpu n ?M5)" "guest_array (undo_guest_vcpu n ?M5) = guest_array ?M5"
    using d(2-4) by (intro free_vcpu_info_inv [OF d(1) b5]; simp add: vcpu_used_def)+
  have l: "guest_vcpu_list (guest_array (undo_guest_vcpu n ?M5) g) = ns" "g \<in> set (guest_list (undo_guest_vcpu n ?M5))"
    using u(2,3) b5 bookD(7) [of ?M5 ?M1 g] Cons.prems(3) by (simp_all add: same_book_def same_guests_def)
  have g6: "same_guests M (undo_guest_vcpu n ?M5)" using same_guests_trans [OF drop_vcpu_simps(3) u(2)] .
  consider "M' = M3" | "M' = ?M5" | "destroy_vcpus Q g ns (undo_guest_vcpu n ?M5) = Done (M', rc)"
    using Cons.prems(1) f unfolding destroy_vcpus.simps drop_vcpu_def [symmetric]
    by (auto simp: Let_def then_ok_Done undo_guest_vcpu_def split: if_splits prod.splits)
  then show ?case
  proof cases
    case 3
    then show ?thesis using Cons.IH [OF 3 u(1) l(2,1)] same_guests_trans [OF g6] by blast
  qed (use i g in simp_all)
qed simp

lemma flush_req_book: "same_book M (manager_flush_req g M)"
  unfolding manager_flush_req_def by (rule upd_guest_book) simp_all

text \<open>Giving back the entry of a guest.\<close>

definition free_guest :: "nat \<Rightarrow> 'rq manager \<Rightarrow> 'rq manager" where
  "free_guest g M = (upd_guest g (\<lambda>u. u\<lparr>guest_node := None, guest_name := [], guest_vcpu_list := []\<rparr>) M)\<lparr>
     mngr_guest_count := mngr_guest_count M - 1, guest_list := remove1 g (guest_list M), guest_avail_array := (guest_avail_array M)[g := True]\<rparr>"

lemma free_guest_inv:
  assumes "mngr_inv M" and "g \<in> set (guest_list M)"
  shows "mngr_inv (free_guest g M)"
proof -
  let ?M = "free_guest g M"
  have u: "guest_used M g" using mngr_invD(6) [OF assms(1)] assms(2) by blast
  have "length (filter Not (guest_avail_array M)) = length (filter Not ((guest_avail_array M)[g := True])) + 1"
    using filter_update [of g "guest_avail_array M" Not True] u by (simp add: guest_used_def)
  then have c: "mngr_guest_count ?M = of_nat (length (filter Not (guest_avail_array ?M)))" using mngr_invD(2) [OF assms(1)] by (simp add: free_guest_def)
  have gl: "set (guest_list ?M) = set (guest_list M) - {g}" using mngr_invD(5) [OF assms(1)] by (simp add: free_guest_def upd_guest_def)
  have gu: "guest_used ?M g' \<longleftrightarrow> g' \<noteq> g \<and> guest_used M g'" for g' using u by (auto simp: guest_used_def free_guest_def upd_guest_def nth_list_update)
  have ok: "guest_ok ?M g'" if "g' \<in> set (guest_list ?M)" for g'
    using mngr_invD(7) [OF assms(1), of g'] that gl by (auto simp: guest_ok_def free_guest_def upd_guest_def vcpu_used_def)
  have inj: "inj_on (\<lambda>g. guest_node (guest_array ?M g)) (set (guest_list ?M))"
    using mngr_invD(8) [OF assms(1)] unfolding gl inj_on_def by (auto simp: free_guest_def upd_guest_def)
  have "distinct (guest_list ?M)" using mngr_invD(5) [OF assms(1)] by (simp add: free_guest_def)
  moreover have "g' \<in> set (guest_list ?M) \<longleftrightarrow> guest_used ?M g'" for g' using gl gu mngr_invD(6) [OF assms(1)] by blast
  ultimately show ?thesis using c ok inj mngr_invD(1,3,4) [OF assms(1)] unfolding mngr_inv_def by (simp add: free_guest_def upd_guest_def vcpu_used_def)
qed

lemma guest_destroy_inv:
  assumes "mngr_inv M" and "cleanup_ok Q" and "g \<in> set (guest_list M)" and "vmm_manager_guest_destroy Q (Some g) M = Done (M', rc)"
  shows "mngr_inv M'"
proof -
  obtain M1 rc1 where r: "vmm_manager_guest_reset Q (Some g) M = Done (M1, rc1)" using assms(4) by (auto simp: vmm_manager_guest_destroy_def)
  let ?M2 = "manager_flush_req g M1"
  have b: "same_book M ?M2" using same_book_trans [OF guest_reset_book [OF r] flush_req_book] .
  have i2: "mngr_inv ?M2" "g \<in> set (guest_list ?M2)" using same_book_inv [OF b assms(1)] same_book_guests [OF b] assms(3) by (simp_all add: same_guests_def)
  consider "M' = ?M2" | M3 rc3 where "destroy_vcpus Q g (guest_vcpu_list (guest_array ?M2 g)) ?M2 = Done (M3, rc3)" "M' = M3 \<or> M' = free_guest g M3"
    using assms(4) r by (auto simp: vmm_manager_guest_destroy_def then_ok_Done Let_def free_guest_def upd_guest_def split: if_splits)
  then show ?thesis
  proof cases
    case 2
    have "mngr_inv M3 \<and> same_guests ?M2 M3" using destroy_vcpus_inv [OF assms(2) 2(1) i2 refl] .
    then show ?thesis using 2(2) free_guest_inv [of M3 g] i2(2) by (auto simp: same_guests_def)
  qed (use i2 in simp)
qed

section \<open>Creation of a guest\<close>

text \<open>Entry \<open>n\<close>, which was available, has been taken for a VCPU of guest \<open>g\<close> but is not in its list yet.\<close>

definition vcpu_taken :: "nat \<Rightarrow> nat \<Rightarrow> 'rq manager \<Rightarrow> 'rq manager \<Rightarrow> bool" where
  "vcpu_taken g n M M' \<longleftrightarrow> mngr_vcpu_count M' = mngr_vcpu_count M + 1 \<and> mngr_guest_count M' = mngr_guest_count M
     \<and> vcpu_avail_array M' = (vcpu_avail_array M)[n := False] \<and> guest_avail_array M' = guest_avail_array M
     \<and> orphan_vcpu_list M' = orphan_vcpu_list M \<and> guest_list M' = guest_list M
     \<and> (\<forall>g. guest_vcpu_list (guest_array M' g) = guest_vcpu_list (guest_array M g)
          \<and> guest_vcpu_count (guest_array M' g) = guest_vcpu_count (guest_array M g) \<and> guest_node (guest_array M' g) = guest_node (guest_array M g))
     \<and> is_normal (vcpu_array M' n) \<and> guest (vcpu_array M' n) = Some g
     \<and> (\<forall>m. m \<noteq> n \<longrightarrow> is_normal (vcpu_array M' m) = is_normal (vcpu_array M m) \<and> guest (vcpu_array M' m) = guest (vcpu_array M m))"

lemma vcpu_taken_book:
  assumes "vcpu_taken g n M M1" and "book M2 = book M1"
    and "\<And>m. is_normal (vcpu_array M2 m) = is_normal (vcpu_array M1 m) \<and> guest (vcpu_array M2 m) = guest (vcpu_array M1 m)"
  shows "vcpu_taken g n M M2"
  using assms(1,3) unfolding vcpu_taken_def bookD [OF assms(2)] by simp

lemma vcpu_taken_upd:
  "vcpu_taken g n M M1 \<Longrightarrow> (\<And>v. is_normal (f v) = is_normal v) \<Longrightarrow> (\<And>v. guest (f v) = guest v) \<Longrightarrow> vcpu_taken g n M (upd_mvcpu n f M1)"
  by (erule vcpu_taken_book) simp_all

lemma vcpu_taken_link: "vcpu_taken g n M (link_guest_vcpu g n name d (take_vcpu n prio h aff M))"
  by (simp add: vcpu_taken_def link_guest_vcpu_def take_vcpu_def)

lemma avail_restore: "avail ! n \<Longrightarrow> avail[n := True] = avail"
  by (metis (full_types) list_update_id)

lemma vcpu_taken_undo:
  assumes "vcpu_taken g n M M'" and "n < length (vcpu_avail_array M)" and "vcpu_avail_array M ! n"
  shows "same_book M (undo_guest_vcpu n M')"
  using assms avail_restore [OF assms(3)]
  by (auto simp: same_book_def book_def undo_guest_vcpu_def free_vcpu_def vcpu_taken_def vcpu_used_def fun_eq_iff)

text \<open>The VCPU is appended to the list of its guest.\<close>

definition append_vcpu :: "nat \<Rightarrow> nat \<Rightarrow> 'rq manager \<Rightarrow> 'rq manager" where
  "append_vcpu g n M = upd_guest g (\<lambda>u. u\<lparr>guest_vcpu_list := guest_vcpu_list u @ [n], guest_vcpu_count := guest_vcpu_count u + 1\<rparr>) M"

lemma append_vcpu_inv:
  assumes i: "mngr_inv M" and t: "vcpu_taken g n M M'" and n: "n < length (vcpu_avail_array M)" "vcpu_avail_array M ! n" and g: "g \<in> set (guest_list M)"
  shows "mngr_inv (append_vcpu g n M')" "same_guests M (append_vcpu g n M')"
proof -
  let ?M = "append_vcpu g n M'"
  note a = t [unfolded vcpu_taken_def]
  have u: "vcpu_used ?M m \<longleftrightarrow> m = n \<or> vcpu_used M m" for m using a n(1) by (auto simp: vcpu_used_def append_vcpu_def upd_guest_def nth_list_update)
  have nu: "\<not> vcpu_used M n" using n(2) by (simp add: vcpu_used_def)
  have "length (filter Not ((vcpu_avail_array M)[n := False])) = length (filter Not (vcpu_avail_array M)) + 1"
    using filter_update [OF n(1), of Not False] n(2) by simp
  then have c: "mngr_vcpu_count ?M = of_nat (length (filter Not (vcpu_avail_array ?M)))"
    using a mngr_invD(1) [OF i] by (simp add: append_vcpu_def upd_guest_def)
  have keep: "\<forall>m \<in> set (guest_vcpu_list (guest_array M g')). m \<noteq> n \<and> vcpu_used ?M m \<and> is_normal (vcpu_array M' m) \<and> guest (vcpu_array M' m) = Some g'"
    if "g' \<in> set (guest_list M)" for g'
  proof
    fix m assume "m \<in> set (guest_vcpu_list (guest_array M g'))"
    then have m: "vcpu_used M m" "is_normal (vcpu_array M m)" "guest (vcpu_array M m) = Some g'" using mngr_invD(7) [OF i that] by (auto simp: guest_ok_def)
    then have "m \<noteq> n" using nu by blast
    then show "m \<noteq> n \<and> vcpu_used ?M m \<and> is_normal (vcpu_array M' m) \<and> guest (vcpu_array M' m) = Some g'" using m u a by simp
  qed
  have ok: "guest_ok ?M g'" if "g' \<in> set (guest_list M)" for g'
  proof -
    have gu: "guest_array ?M g' = (if g' = g then (guest_array M' g)\<lparr>guest_vcpu_list := guest_vcpu_list (guest_array M g) @ [n],
        guest_vcpu_count := guest_vcpu_count (guest_array M g) + 1\<rparr> else guest_array M' g')" "vcpu_array ?M = vcpu_array M'"
      using a by (simp_all add: append_vcpu_def upd_guest_def)
    show ?thesis using mngr_invD(7) [OF i that] keep [OF that] u a unfolding guest_ok_def gu by auto
  qed
  have o: "\<forall>m \<in> set (orphan_vcpu_list M). vcpu_used ?M m \<and> \<not> is_normal (vcpu_array M' m)"
    using mngr_invD(4) [OF i] u nu a by metis
  have e: "orphan_vcpu_list ?M = orphan_vcpu_list M" "guest_list ?M = guest_list M" "guest_avail_array ?M = guest_avail_array M"
    "mngr_guest_count ?M = mngr_guest_count M" "vcpu_array ?M = vcpu_array M'" "guest_node (guest_array ?M g') = guest_node (guest_array M g')" for g'
    using a by (simp_all add: append_vcpu_def upd_guest_def)
  have "guest_used ?M = guest_used M" using e(3) by (simp add: guest_used_def fun_eq_iff)
  then show "mngr_inv ?M" using c ok o mngr_invD(2,3,5,6,8) [OF i] unfolding mngr_inv_def e by simp
  show "same_guests M ?M" using e by (simp add: same_guests_def)
qed

lemma irq_init_ident:
  "vmm_vcpu_irq_init arch mem n v = Done (v', rc) \<Longrightarrow> is_normal v' = is_normal v \<and> guest v' = guest v"
  using irq_init_links [of arch mem n v v' rc] by (simp add: vlinks_def)

lemma start_guest_vcpu_cases:
  assumes t: "vcpu_taken g n M M4" and s: "start_guest_vcpu Q g n d M4 = Done (M', ok)"
  shows "\<exists>M5. vcpu_taken g n M M5 \<and> (M' = undo_guest_vcpu n M5 \<and> \<not> ok \<or> M' = append_vcpu g n M5 \<and> ok)"
proof -
  obtain v rc where v: "vmm_vcpu_irq_init (irq_hw (m_sched Q)) (irq_mem (m_sched Q)) n (vcpu_array M4 n) = Done (v, rc)"
    using s by (auto simp: start_guest_vcpu_def)
  let ?M1 = "upd_mvcpu n (\<lambda>_. v) M4"
  have t1: "vcpu_taken g n M ?M1" using irq_init_ident [OF v] by (intro vcpu_taken_book [OF t]) simp_all
  show ?thesis
  proof (cases "rc = VMM_OK")
    case True
    then obtain M2 rc' where s2: "vmm_manager_vcpu_set_state Q (Some n) VMM_VCPU_STATE_RESET (init_lists n ?M1) = Done (M2, rc')"
      using s v by (auto simp: start_guest_vcpu_def Let_def)
    have "book M2 = book ?M1" using set_state_book [OF s2] by (simp add: same_book_def)
    moreover have "is_normal (vcpu_array M2 m) = is_normal (vcpu_array ?M1 m) \<and> guest (vcpu_array M2 m) = guest (vcpu_array ?M1 m)" for m
      using set_state_ident [OF s2, of m] by simp
    ultimately have t2: "vcpu_taken g n M M2" by (intro vcpu_taken_book [OF t1])
    have t3: "vcpu_taken g n M (upd_mvcpu n (\<lambda>v. fst (vmm_vcpu_irq_deinit v)) M2)" "vcpu_taken g n M (upd_mvcpu n (\<lambda>v. v\<lparr>is_poweroff := True\<rparr>) M2)"
      by (rule vcpu_taken_upd [OF t2]; simp)+
    show ?thesis using s v s2 True t2 t3 by (auto simp: start_guest_vcpu_def Let_def append_vcpu_def split: if_splits)
  qed (use s v t1 in \<open>auto simp: start_guest_vcpu_def Let_def\<close>)
qed

lemma setup_guest_vcpu_cases:
  assumes t: "vcpu_taken g n M M2" and s: "setup_guest_vcpu Q g n d M2 = Done (M', ok)"
  shows "\<exists>M5. vcpu_taken g n M M5 \<and> (M' = undo_guest_vcpu n M5 \<and> \<not> ok \<or> M' = append_vcpu g n M5 \<and> ok)"
proof -
  let ?M3 = "M2\<lparr>vcpu_infos := (vcpu_infos M2)(n := (vcpu_infos M2 n)\<lparr>stack_va := stack_mem Q n,
     start_pc := (case vd_start_pc d of None \<Rightarrow> start_pc (vcpu_infos M2 n) | Some a \<Rightarrow> a)\<rparr>)\<rparr>"
  let ?M4 = "upd_mvcpu n (init_sched_context (now (m_sched Q)) (vcpu_time_slice (tslice_ms Q) d)
     (case vd_deadline d of None \<Rightarrow> VMM_VCPU_DEF_DEADLINE (tslice_ms Q) | Some x \<Rightarrow> x)
     (case vd_periodicity d of None \<Rightarrow> VMM_VCPU_DEF_PERIODICITY (tslice_ms Q) | Some x \<Rightarrow> x)) ?M3"
  have t3: "vcpu_taken g n M ?M3" by (rule vcpu_taken_book [OF t]) simp_all
  have t4: "vcpu_taken g n M ?M4" by (rule vcpu_taken_upd [OF t3]) simp_all
  consider "M' = undo_guest_vcpu n ?M3" "\<not> ok" | "M' = undo_guest_vcpu n ?M4" "\<not> ok" | "start_guest_vcpu Q g n d ?M4 = Done (M', ok)"
    using s unfolding setup_guest_vcpu_def Let_def by (simp split: if_splits)
  then show ?thesis
  proof cases
    case 3
    then show ?thesis using start_guest_vcpu_cases [OF t4 3] by blast
  qed (use t3 t4 in blast)+
qed

lemma create_guest_vcpu_cases:
  assumes c: "create_guest_vcpu Q g gname d M = Done (M', ok)"
  shows "same_book M M' \<and> \<not> ok \<or> (\<exists>n M5. vcpu_taken g n M M5 \<and> n < length (vcpu_avail_array M) \<and> vcpu_avail_array M ! n \<and> M' = append_vcpu g n M5 \<and> ok)"
proof (cases "M' = M \<and> \<not> ok")
  case False
  then obtain cm n where n: "vcpu_affinity (cpu_count (m_sched Q)) (online (mkern M)) d = Some cm" "first_avail (vcpu_avail_array M) = Some n"
    using c by (auto simp: create_guest_vcpu_def split: if_splits option.splits)
  note fa = first_avail_Some [OF n(2)]
  let ?p = "vcpu_priority d"
  let ?M1 = "take_vcpu n ?p (good_hcpu Q ?p cm M) cm M"
  let ?name = "vcpu_name_prefix gname @ vd_name d"
  have b1: "same_book M (free_vcpu n ?M1)" using avail_restore fa by (simp add: same_book_def book_def free_vcpu_def take_vcpu_def)
  have "\<not> length (vcpu_avail_array M) \<le> unat (mngr_vcpu_count M)" "vd_type d = Some ''vcpu''"
    using c False by (auto simp: create_guest_vcpu_def split: if_splits)
  then have "(if VMM_FIELD_NAME_SIZE \<le> length ?name then Done (free_vcpu n ?M1, False)
      else setup_guest_vcpu Q g n d (link_guest_vcpu g n ?name d ?M1)) = Done (M', ok)"
    using c n by (simp only: create_guest_vcpu_def Let_def if_False option.case simp_thms)
  then consider "M' = free_vcpu n ?M1" "\<not> ok" | "setup_guest_vcpu Q g n d (link_guest_vcpu g n ?name d ?M1) = Done (M', ok)"
    by (cases "VMM_FIELD_NAME_SIZE \<le> length ?name") (simp_all only: if_True if_False result.inject prod.inject, blast)
  then show ?thesis
  proof cases
    case 2
    obtain M5 where 5: "vcpu_taken g n M M5" "M' = undo_guest_vcpu n M5 \<and> \<not> ok \<or> M' = append_vcpu g n M5 \<and> ok"
      using setup_guest_vcpu_cases [OF vcpu_taken_link 2] by blast
    have u: "same_book M (undo_guest_vcpu n M5)" using vcpu_taken_undo [OF 5(1)] fa by simp
    show ?thesis using 5(2)
    proof (elim disjE conjE)
      assume "M' = append_vcpu g n M5" "ok"
      then show ?thesis using 5(1) fa by metis
    qed (use u in simp)
  qed (use b1 in simp)
qed simp

lemma create_guest_vcpus_inv:
  "create_guest_vcpus Q g gname ds M = Done (M', ok) \<Longrightarrow> mngr_inv M \<Longrightarrow> g \<in> set (guest_list M) \<Longrightarrow>
    mngr_inv M' \<and> same_guests M M' \<and> (ok \<longrightarrow> length (guest_vcpu_list (guest_array M' g)) = length (guest_vcpu_list (guest_array M g)) + length ds)"
proof (induction ds arbitrary: M)
  case (Cons d ds)
  obtain M1 ok1 where 1: "create_guest_vcpu Q g gname d M = Done (M1, ok1)"
    "(if ok1 then create_guest_vcpus Q g gname ds M1 else Done (M1, False)) = Done (M', ok)"
    using Cons.prems(1) by auto
  show ?case using create_guest_vcpu_cases [OF 1(1)]
  proof (elim disjE exE conjE)
    assume "same_book M M1" "\<not> ok1"
    then show ?thesis using 1(2) same_book_inv [OF _ Cons.prems(2)] same_book_guests by auto
  next
    fix n M5
    assume n: "vcpu_taken g n M M5" "n < length (vcpu_avail_array M)" "vcpu_avail_array M ! n" "M1 = append_vcpu g n M5" "ok1"
    note a = append_vcpu_inv [OF Cons.prems(2) n(1-3) Cons.prems(3), folded n(4)]
    have "g \<in> set (guest_list M1)" using a(2) Cons.prems(3) by (simp add: same_guests_def)
    then have "mngr_inv M' \<and> same_guests M1 M' \<and> (ok \<longrightarrow> length (guest_vcpu_list (guest_array M' g)) = length (guest_vcpu_list (guest_array M1 g)) + length ds)"
      using Cons.IH [of M1] 1(2) n(5) a(1) by simp
    moreover have "length (guest_vcpu_list (guest_array M1 g)) = Suc (length (guest_vcpu_list (guest_array M g)))"
      using n(1,4) by (simp add: append_vcpu_def upd_guest_def vcpu_taken_def)
    ultimately show ?thesis using same_guests_trans [OF a(2)] by simp
  qed
qed simp

lemma add_guest_inv:
  assumes i: "mngr_inv M" and g: "g < length (guest_avail_array M)" "guest_avail_array M ! g"
    and u: "guest_vcpu_list u = []" "guest_vcpu_count u = 0" "\<And>g'. g' \<in> set (guest_list M) \<Longrightarrow> guest_node (guest_array M g') \<noteq> guest_node u"
  shows "mngr_inv (add_guest g u M)"
proof -
  let ?M = "add_guest g u M"
  have "length (filter Not ((guest_avail_array M)[g := False])) = length (filter Not (guest_avail_array M)) + 1"
    using filter_update [OF g(1), of Not False] g(2) by simp
  then have c: "mngr_guest_count ?M = of_nat (length (filter Not (guest_avail_array ?M)))" using mngr_invD(2) [OF i] by (simp add: add_guest_def)
  have nu: "g \<notin> set (guest_list M)" using mngr_invD(6) [OF i] g by (simp add: guest_used_def)
  have gu: "guest_used ?M g' \<longleftrightarrow> g' = g \<or> guest_used M g'" for g' using g(1) by (auto simp: guest_used_def add_guest_def nth_list_update)
  have ok: "guest_ok ?M g'" if "g' \<in> set (guest_list ?M)" for g'
    using that u mngr_invD(7) [OF i, of g'] by (auto simp: guest_ok_def add_guest_def vcpu_used_def)
  have inj: "inj_on (\<lambda>g. guest_node (guest_array ?M g)) (set (guest_list ?M))"
    using mngr_invD(8) [OF i] u(3) nu unfolding inj_on_def by (auto simp: add_guest_def) metis
  have "g' \<in> set (guest_list ?M) \<longleftrightarrow> guest_used ?M g'" for g' using gu mngr_invD(6) [OF i] by (auto simp: add_guest_def)
  moreover have "distinct (guest_list ?M)" using nu mngr_invD(5) [OF i] by (simp add: add_guest_def)
  ultimately show ?thesis using c ok inj mngr_invD(1,3,4) [OF i] unfolding mngr_inv_def by (simp add: add_guest_def vcpu_used_def)
qed

text \<open>What a creation that does not stop at its first checks does.\<close>

lemma guest_create_cases:
  assumes i: "mngr_inv M" and c: "vmm_manager_guest_create Q gnode' M = Done (M', r)" and r: "\<not> (M' = M \<and> r = None)"
  obtains d g M2 ok where "gnode' = Some d" "first_avail (guest_avail_array M) = Some g" "mngr_inv (add_guest g (init_guest Q d) M)"
    "mngr_inv M2" "same_guests (add_guest g (init_guest Q d) M) M2"
    "ok \<longrightarrow> (\<exists>ds. gd_vcpus d = Some ds \<and> length (guest_vcpu_list (guest_array M2 g)) = length ds)" "finish_guest Q g (M2, ok) = Done (M', r)"
proof -
  obtain d where d: "gnode' = Some d" "gd_type d = Some ''guest''"
    "\<not> (\<exists>g \<in> set (guest_list M). guest_node (guest_array M g) = Some (gd_node d) \<or> guest_name (guest_array M g) = gd_name d)"
    using c r by (auto simp: vmm_manager_guest_create_def split: if_splits option.splits)
  obtain g where g: "first_avail (guest_avail_array M) = Some g"
    using c d by (cases "first_avail (guest_avail_array M)") (auto simp: vmm_manager_guest_create_def)
  note fa = first_avail_Some [OF g]
  let ?M1 = "add_guest g (init_guest Q d) M"
  have a: "mngr_inv ?M1" using fa d(3) by (intro add_guest_inv [OF i]) (auto simp: init_guest_def)
  have gl: "g \<in> set (guest_list ?M1)" "guest_vcpu_list (guest_array ?M1 g) = []" by (simp_all add: add_guest_def init_guest_def)
  have "bind_result (case gd_vcpus d of None \<Rightarrow> Done (?M1, False) | Some ds \<Rightarrow> create_guest_vcpus Q g (gd_name d) ds ?M1) (finish_guest Q g) = Done (M', r)"
    using c d g unfolding vmm_manager_guest_create_def Let_def by (simp only: option.case if_False simp_thms)
  then obtain M2 ok where 2: "(case gd_vcpus d of None \<Rightarrow> Done (?M1, False) | Some ds \<Rightarrow> create_guest_vcpus Q g (gd_name d) ds ?M1) = Done (M2, ok)"
    "finish_guest Q g (M2, ok) = Done (M', r)" unfolding bind_result_eq_Done by auto
  have "mngr_inv M2 \<and> same_guests ?M1 M2 \<and> (ok \<longrightarrow> (\<exists>ds. gd_vcpus d = Some ds \<and> length (guest_vcpu_list (guest_array M2 g)) = length ds))"
  proof (cases "gd_vcpus d")
    case (Some ds)
    then show ?thesis using create_guest_vcpus_inv [of Q g "gd_name d" ds ?M1 M2 ok] 2(1) a gl by simp
  qed (use 2(1) a in auto)
  then show thesis using that [OF d(1) g a] 2(2) by blast
qed

lemma guest_create_inv:
  assumes i: "mngr_inv M" and Q: "cleanup_ok Q" and c: "vmm_manager_guest_create Q gnode' M = Done (M', r)"
  shows "mngr_inv M'"
proof (cases "M' = M \<and> r = None")
  case False
  show ?thesis
  proof (rule guest_create_cases [OF i c False])
    fix d g M2 ok
    assume "mngr_inv M2" "same_guests (add_guest g (init_guest Q d) M) M2" "finish_guest Q g (M2, ok) = Done (M', r)"
    moreover from this have "g \<in> set (guest_list M2)" by (simp add: same_guests_def add_guest_def)
    ultimately show ?thesis using guest_destroy_inv [OF _ Q] by (auto simp: finish_guest_def split: if_splits)
  qed
qed (use i in simp)

section \<open>All sequences of operations\<close>

datatype mngr_op =
    Mop_sched nat sched_op | Mop_set_state "nat option" vcpu_state | Mop_set_hcpu "nat option" nat
  | Mop_set_affinity "nat option" "(nat \<Rightarrow> bool) option" | Mop_flush nat
  | Mop_orphan_create "string option" u64 nat u64 u64 u64 "(nat \<Rightarrow> bool) option" | Mop_orphan_destroy "nat option"
  | Mop_guest_create "guest_desc option" | Mop_guest_destroy nat
  | Mop_guest_reset "nat option" | Mop_guest_kick "nat option" | Mop_guest_pause "nat option" | Mop_guest_resume "nat option"
  | Mop_guest_halt "nat option" | Mop_request "nat option" "guest_request option" | Mop_reboot "nat option" | Mop_shutdown "nat option" | Mop_work

definition fst_result :: "('a \<times> 'b) result \<Rightarrow> 'a result" where
  "fst_result r = bind_result r (\<lambda>(x, _). Done x)"

lemma fst_result_Done: "fst_result r = Done x \<longleftrightarrow> (\<exists>y. r = Done (x, y))"
  by (auto simp: fst_result_def)

fun run_mngr ::
  "'rq manager_env \<Rightarrow> (nat \<Rightarrow> nat \<Rightarrow> nat \<Rightarrow> 'rq manager \<Rightarrow> 'rq manager result) \<Rightarrow> mngr_op \<Rightarrow> 'rq manager \<Rightarrow> 'rq manager result" where
  "run_mngr Q other (Mop_sched h op) M = bind_result (run_op (m_sched Q) h op (mkern M)) (\<lambda>s. Done (set_kern s M))"
| "run_mngr Q other (Mop_set_state n' new) M = fst_result (vmm_manager_vcpu_set_state Q n' new M)"
| "run_mngr Q other (Mop_set_hcpu n' h) M = fst_result (vmm_manager_vcpu_set_hcpu Q n' h M)"
| "run_mngr Q other (Mop_set_affinity n' cm') M = fst_result (vmm_manager_vcpu_set_affinity Q n' cm' M)"
| "run_mngr Q other (Mop_flush n) M = vmm_manager_vcpu_resource_flush Q n M"
| "run_mngr Q other (Mop_orphan_create nm pc pr ts dd pd af) M = fst_result (vmm_manager_vcpu_orphan_create Q nm pc pr ts dd pd af M)"
| "run_mngr Q other (Mop_orphan_destroy n') M = fst_result (vmm_manager_vcpu_orphan_destroy Q n' M)"
| "run_mngr Q other (Mop_guest_create d') M = fst_result (vmm_manager_guest_create Q d' M)"
| "run_mngr Q other (Mop_guest_destroy g) M = fst_result (vmm_manager_guest_destroy Q (Some g) M)"
| "run_mngr Q other (Mop_guest_reset g') M = fst_result (vmm_manager_guest_reset Q g' M)"
| "run_mngr Q other (Mop_guest_kick g') M = fst_result (vmm_manager_guest_kick Q g' M)"
| "run_mngr Q other (Mop_guest_pause g') M = fst_result (vmm_manager_guest_pause Q g' M)"
| "run_mngr Q other (Mop_guest_resume g') M = fst_result (vmm_manager_guest_resume Q g' M)"
| "run_mngr Q other (Mop_guest_halt g') M = fst_result (vmm_manager_guest_halt Q g' M)"
| "run_mngr Q other (Mop_request g' r') M = Done (fst (vmm_manager_guest_request Q g' r' M))"
| "run_mngr Q other (Mop_reboot g') M = fst_result (vmm_manager_guest_reboot_request Q g' M)"
| "run_mngr Q other (Mop_shutdown g') M = fst_result (vmm_manager_guest_shutdown_request Q g' M)"
| "run_mngr Q other Mop_work M = run_guest_work Q other M"

text \<open>
  The callers destroy guests that exist; the requests of other components and the clean-ups of resources leave the
  control structure of the manager alone.
\<close>

definition other_ok :: "(nat \<Rightarrow> nat \<Rightarrow> nat \<Rightarrow> 'rq manager \<Rightarrow> 'rq manager result) \<Rightarrow> bool" where
  "other_ok other \<longleftrightarrow> (\<forall>f d g M M'. other f d g M = Done M' \<longrightarrow> same_book M M')"

definition mngr_pre :: "'rq manager_env \<Rightarrow> (nat \<Rightarrow> nat \<Rightarrow> nat \<Rightarrow> 'rq manager \<Rightarrow> 'rq manager result) \<Rightarrow> mngr_op \<Rightarrow> 'rq manager \<Rightarrow> bool" where
  "mngr_pre Q other op M \<longleftrightarrow> cleanup_ok Q \<and> other_ok other
     \<and> (\<forall>g. op = Mop_guest_destroy g \<longrightarrow> g \<in> set (guest_list M))"

inductive mngr_reach :: "'rq manager \<Rightarrow> 'rq manager \<Rightarrow> bool" for M0 where
  start: "mngr_reach M0 M0"
| step: "mngr_reach M0 M \<Longrightarrow> mngr_pre Q other op M \<Longrightarrow> run_mngr Q other op M = Done M' \<Longrightarrow> mngr_reach M0 M'"

lemma set_hcpu_book: "vmm_manager_vcpu_set_hcpu Q n' h M = Done (M', rc) \<Longrightarrow> same_book M M'"
  by (auto simp: vmm_manager_vcpu_set_hcpu_def vmm_scheduler_set_hcpu_def Let_def split: option.splits if_splits intro!: links_book dest: migrate_links)

lemma set_affinity_book: "vmm_manager_vcpu_set_affinity Q n' cm' M = Done (M', rc) \<Longrightarrow> same_book M M'"
  by (auto simp: vmm_manager_vcpu_set_affinity_def Let_def split: option.splits if_splits dest!: set_hcpu_book
      intro: upd_mvcpu_same_book elim!: same_book_trans)

lemma work_book [simp]: "same_book M (schedule_guest_work g M)" "same_book M (M\<lparr>guest_work := gs\<rparr>)"
  by (simp_all add: schedule_guest_work_def same_book_def)

lemma request_book: "same_book M (fst (vmm_manager_guest_request Q g' r' M))"
proof -
  have "same_book M (manager_enqueue_req g r M)" for g r
    unfolding manager_enqueue_req_def by (rule same_book_trans [OF upd_guest_book work_book(1)]) simp_all
  then show ?thesis by (simp add: vmm_manager_guest_request_def split: option.split)
qed

lemma pause_caller_book: "pause_caller Q g M = Done M' \<Longrightarrow> same_book M M'"
  by (auto simp: pause_caller_def split: option.splits if_splits dest: set_state_book)

lemma own_request_book:
  "vmm_manager_guest_reboot_request Q g' M = Done (M', rc) \<Longrightarrow> same_book M M'"
  "vmm_manager_guest_shutdown_request Q g' M = Done (M', rc) \<Longrightarrow> same_book M M'"
proof -
  have "same_book M M'" if "pause_caller Q g M = Done M1" "vmm_manager_guest_request Q (Some g) (Some r) M1 = (M', rc)" for g M1 r
    using same_book_trans [OF pause_caller_book [OF that(1)] request_book [of M1 Q "Some g" "Some r"]] that(2) by simp
  then show "vmm_manager_guest_reboot_request Q g' M = Done (M', rc) \<Longrightarrow> same_book M M'"
    "vmm_manager_guest_shutdown_request Q g' M = Done (M', rc) \<Longrightarrow> same_book M M'"
    by (auto simp: vmm_manager_guest_reboot_request_def vmm_manager_guest_shutdown_request_def split: option.splits)
qed

lemma run_request_book:
  assumes "other_ok other"
  shows "run_request Q other g r M = Done M' \<Longrightarrow> same_book M M'"
  using assms unfolding other_ok_def
  by (auto simp: run_request_def manager_reboot_request_def manager_shutdown_request_def split: guest_request.splits
      dest!: guest_reset_book guest_state_book(1) intro: same_book_trans)

lemma req_work_book:
  assumes "other_ok other" and "manager_req_work Q other wid M = Done M'"
  shows "same_book M M'"
proof (cases "M' = M")
  case False
  then obtain g r rs M2 where g: "req_list (guest_array M g) = r # rs" "run_request Q other g r (upd_guest g (\<lambda>u. u\<lparr>req_list := rs\<rparr>) M) = Done M2"
    "M' = M2 \<or> M' = schedule_guest_work g M2"
    using assms(2) by (auto simp: manager_req_work_def manager_dequeue_req_def split: option.splits if_splits list.splits)
  have "same_book M (upd_guest g (\<lambda>u. u\<lparr>req_list := rs\<rparr>) M)" by (rule upd_guest_book) simp_all
  then have "same_book M M2" using run_request_book [OF assms(1) g(2)] same_book_trans by blast
  then show ?thesis using g(3) same_book_trans [OF _ work_book(1)] by blast
qed simp

lemma guest_work_book:
  assumes "other_ok other"
  shows "run_guest_work Q other M = Done M' \<Longrightarrow> same_book M M'"
  using same_book_trans [OF work_book(2) req_work_book [OF assms]] by (auto simp: run_guest_work_def split: list.splits)

lemma run_mngr_book:
  assumes "mngr_pre Q other op M" and "run_mngr Q other op M = Done M'"
  shows "same_book M M' \<or> (\<exists>nm pc pr ts dd pd af. op = Mop_orphan_create nm pc pr ts dd pd af) \<or> (\<exists>n'. op = Mop_orphan_destroy n')
    \<or> (\<exists>d'. op = Mop_guest_create d') \<or> (\<exists>g. op = Mop_guest_destroy g)"
proof -
  have Q: "cleanup_ok Q" and o: "other_ok other" using assms(1) by (simp_all add: mngr_pre_def)
  show ?thesis
  proof (cases op)
    case Mop_sched
    then show ?thesis using assms(2) by (auto intro: links_book dest: run_op_links)
  next
    case Mop_work
    then show ?thesis using assms(2) guest_work_book [OF o] by simp
  next
    case Mop_flush
    then show ?thesis using assms(2) resource_flush_book [OF Q] by simp
  next
    case Mop_request
    then show ?thesis using assms(2) request_book by auto
  qed (use assms(2) in \<open>simp; auto simp: fst_result_Done dest: set_state_book set_hcpu_book set_affinity_book
      guest_reset_book guest_state_book own_request_book\<close>)+
qed

lemma run_mngr_inv:
  assumes i: "mngr_inv M" and p: "mngr_pre Q other op M" and r: "run_mngr Q other op M = Done M'"
  shows "mngr_inv M'"
proof -
  have Q: "cleanup_ok Q" using p by (simp add: mngr_pre_def)
  show ?thesis using run_mngr_book [OF p r]
  proof (elim disjE exE)
    fix g assume "op = Mop_guest_destroy g"
    then show ?thesis using r p guest_destroy_inv [OF i Q] by (auto simp: fst_result_Done mngr_pre_def)
  qed (use r same_book_inv [OF _ i] orphan_create_inv [OF i] orphan_destroy_inv [OF i Q] guest_create_inv [OF i Q] in \<open>auto simp: fst_result_Done\<close>)
qed

lemma mngr_reach_inv: "mngr_reach M0 M \<Longrightarrow> mngr_inv M0 \<Longrightarrow> mngr_inv M"
  by (induction rule: mngr_reach.induct) (auto intro: run_mngr_inv)

lemma init_inv: "mngr_inv (fst (vmm_manager_init NV NG S))"
  by (simp add: mngr_inv_def vmm_manager_init_def guest_used_def)

lemma filter_not_card: "length (filter Not xs) = card {n. n < length xs \<and> \<not> xs ! n}"
  by (simp add: length_filter_conv_card)

text \<open>
  C15. The bookkeeping of the manager.  After the initialisation and any sequence of operations of the manager and
  of the scheduler that return, in any environments whose clean-up callbacks leave the bookkeeping alone, with the guests that
  are destroyed being ones that exist.  Operations that do not return are not covered: creating a guest when the
  table of guests is full is one, since the source then takes the head of the list of guests for a guest and writes
  through it (\<open>Fault\<close>).  The counters that
  \<^verbatim>\<open>vmm_manager_vcpu_count\<close> and \<^verbatim>\<open>vmm_manager_guest_count\<close> return are the numbers of entries that the lookups
  find; the orphan list holds orphan VCPUs that exist, each once; the guest list holds exactly the guests that exist,
  each once, with different device tree nodes; every VCPU in the list of such a guest exists, is normal and points back to
  it, so no VCPU belongs to two guests or is an orphan too; and the VCPU counter of the guest is the length of its list.
\<close>

theorem manager_bookkeeping:
  assumes "mngr_reach (fst (vmm_manager_init NV NG S)) M"
  shows "vmm_manager_vcpu_count M = of_nat (card {n. vmm_manager_vcpu n M = Some n})
    \<and> vmm_manager_guest_count M = of_nat (card {g. vmm_manager_guest g M = Some g})
    \<and> distinct (orphan_vcpu_list M) \<and> (\<forall>n \<in> set (orphan_vcpu_list M). vmm_manager_vcpu n M = Some n \<and> \<not> is_normal (vcpu_array M n))
    \<and> distinct (guest_list M) \<and> set (guest_list M) = {g. vmm_manager_guest g M = Some g} \<and> inj_on (\<lambda>g. guest_node (guest_array M g)) (set (guest_list M))
    \<and> (\<forall>g \<in> set (guest_list M). distinct (guest_vcpu_list (guest_array M g))
         \<and> vmm_manager_guest_vcpu_count (Some g) M = of_nat (length (guest_vcpu_list (guest_array M g)))
         \<and> (\<forall>n \<in> set (guest_vcpu_list (guest_array M g)). vmm_manager_vcpu n M = Some n \<and> is_normal (vcpu_array M n)
              \<and> guest (vcpu_array M n) = Some g))"
proof -
  have i: "mngr_inv M" using mngr_reach_inv [OF assms init_inv] .
  have l: "vcpu_used M n \<longleftrightarrow> vmm_manager_vcpu n M = Some n" "guest_used M n \<longleftrightarrow> vmm_manager_guest n M = Some n" for n
    by (simp_all add: vcpu_used_def guest_used_def vmm_manager_vcpu_def vmm_manager_guest_def)
  have "length (filter Not (vcpu_avail_array M)) = card {n. vmm_manager_vcpu n M = Some n}"
    "length (filter Not (guest_avail_array M)) = card {g. vmm_manager_guest g M = Some g}"
    unfolding filter_not_card l [symmetric] by (simp_all add: vcpu_used_def guest_used_def)
  then show ?thesis using i unfolding mngr_inv_def guest_ok_def l
    by (auto simp: vmm_manager_vcpu_count_def vmm_manager_guest_count_def vmm_manager_guest_vcpu_count_def)
qed

theorem manager_bookkeeping_witness:
  "\<exists>M. mngr_reach demo_mngr M \<and> vmm_manager_vcpu 0 M = Some 0 \<and> vmm_manager_vcpu_count M = of_nat (card {n. vmm_manager_vcpu n M = Some n})"
proof -
  obtain M where M: "vmm_manager_vcpu_orphan_create demo_menv (Some ''worker'') 64 3 1000 0 0 (Some (\<lambda>_. True)) demo_mngr = Done (M, Some 0)"
    using demo_orphan_create by blast
  have "mngr_pre demo_menv (\<lambda>_ _ _ M. Done M) (Mop_orphan_create (Some ''worker'') 64 3 1000 0 0 (Some (\<lambda>_. True))) demo_mngr"
    by (simp add: mngr_pre_def cleanup_ok_def other_ok_def demo_menv_def)
  then have r: "mngr_reach demo_mngr M" by (rule mngr_reach.step [OF mngr_reach.start]) (use M in \<open>auto simp: fst_result_Done\<close>)
  then show ?thesis using manager_bookkeeping [of 4 2 demo_boot M] orphan_create_cases [OF demo_mngr_inv M] by (auto simp: demo_mngr_def)
qed

end
