(* ===== verification/GuestReset.thy ===== *)
theory GuestReset
  imports GuestProps
begin

text \<open>
  Resetting and shutting down a guest together with the scheduler, and situations in which requests to the manager
  are lost or end badly.
\<close>

section \<open>Reset of one VCPU\<close>

text \<open>Nothing but VCPUs in \<open>ns\<close> and the flags of the host CPUs changes.\<close>

definition only_vcpus :: "nat set \<Rightarrow> 'rq system \<Rightarrow> 'rq system \<Rightarrow> bool" where
  "only_vcpus ns s s' \<longleftrightarrow> (\<forall>m. m \<notin> ns \<longrightarrow> vcpus s' m = vcpus s m) \<and> online s' = online s
     \<and> (\<forall>m. hcpu (vcpus s' m) = hcpu (vcpus s m) \<and> is_normal (vcpus s' m) = is_normal (vcpus s m))
     \<and> (\<forall>h. current_vcpu (scheds s' h) = current_vcpu (scheds s h) \<and> idle_vcpu (scheds s' h) = idle_vcpu (scheds s h))"

lemma only_vcpusD:
  assumes "only_vcpus ns s s'"
  shows "m \<notin> ns \<Longrightarrow> vcpus s' m = vcpus s m" "online s' = online s" "hcpu (vcpus s' m) = hcpu (vcpus s m)"
    "is_normal (vcpus s' m) = is_normal (vcpus s m)" "current_vcpu (scheds s' h) = current_vcpu (scheds s h)"
    "idle_vcpu (scheds s' h) = idle_vcpu (scheds s h)" "is_idle hosts s' m = is_idle hosts s m"
  using assms by (simp_all add: only_vcpus_def is_idle_def)

lemma only_vcpus_trans: "only_vcpus A s s1 \<Longrightarrow> only_vcpus B s1 s2 \<Longrightarrow> only_vcpus (A \<union> B) s s2"
  by (simp add: only_vcpus_def)

lemma changed_only: "changed n s s' \<Longrightarrow> online s' = online s \<Longrightarrow> only_vcpus {n} s s'"
  unfolding changed_def only_vcpus_def by auto

lemma change_locked_online: "change_locked E n new s = Done (s', rc, p) \<Longrightarrow> online s' = online s"
  by (auto simp: change_locked_def change_action_def reset_vcpu_def rq_detach_def rq_enqueue_def Let_def
      split: vcpu_state.splits if_splits prod.splits)

lemma reset_preempts_itself:
  "change_locked E n VMM_VCPU_STATE_RESET s = Done (s', rc, True) \<Longrightarrow> current_vcpu (scheds s (hcpu (vcpus s n))) = Some n"
  by (auto simp: change_locked_def change_action_def Let_def split: if_splits prod.splits)

text \<open>A VCPU of a guest that the host CPU of the caller can reset.\<close>

definition can_reset :: "'rq manager_env \<Rightarrow> nat set \<Rightarrow> 'rq system \<Rightarrow> nat \<Rightarrow> bool" where
  "can_reset Q hosts s n \<longleftrightarrow> is_normal (vcpus s n) \<and> state (vcpus s n) \<noteq> VMM_VCPU_STATE_UNKNOWN \<and> \<not> is_idle hosts s n
     \<and> (hcpu (vcpus s n) = m_host Q \<or> online s (hcpu (vcpus s n)) \<and> host_answers Q (hcpu (vcpus s n)))
     \<and> \<not> (state (vcpus s n) = VMM_VCPU_STATE_READY \<and> still_current s n)"

lemma can_reset_only: "only_vcpus ns s s' \<Longrightarrow> n \<notin> ns \<Longrightarrow> can_reset Q hosts s' n = can_reset Q hosts s n"
  using only_vcpusD [of ns s s'] by (simp add: can_reset_def still_current_def)

context ready_queue
begin

lemma reset_state_change:
  assumes i: "sched_inv inv members hw N hosts s" and E: "env_ok A hw (m_sched Q)" and c: "can_reset Q hosts s n"
  shows "\<exists>s'. vmm_scheduler_state_change (m_sched Q) (hcpu (vcpus s n)) frame (Some n) VMM_VCPU_STATE_RESET s = Done (s', VMM_OK, False)
     \<and> sched_inv inv members hw N hosts s' \<and> only_vcpus {n} s s' \<and> state (vcpus s' n) = VMM_VCPU_STATE_RESET"
proof -
  let ?h = "hcpu (vcpus s n)"
  have g: "change_ok hw N hosts s n VMM_VCPU_STATE_RESET" using c by (simp add: change_ok_def can_reset_def)
  obtain s1 p where l: "change_locked (m_sched Q) n VMM_VCPU_STATE_RESET s = Done (s1, VMM_OK, p)" "sched_inv inv members hw N hosts s1"
    "changed n s s1" "state (vcpus s1 n) = VMM_VCPU_STATE_RESET"
    using change_locked_ok [OF i E g] c unfolding lock_result_def can_reset_def by auto
  have o: "only_vcpus {n} s s1" using changed_only [OF l(3) change_locked_online [OF l(1)]] .
  show ?thesis
  proof (cases p)
    case True
    let ?s2 = "upd_sched ?h (\<lambda>c. c\<lparr>yield_on_irq_exit := True\<rparr>) s1"
    have cur: "current_vcpu (scheds s1 ?h) = Some n" using reset_preempts_itself l(1) True only_vcpusD(5) [OF o] by simp
    have "is_normal (vcpus s1 n)" using only_vcpusD(4) [OF o] c by (simp add: can_reset_def)
    then have "vmm_scheduler_state_change (m_sched Q) ?h frame (Some n) VMM_VCPU_STATE_RESET s = Done (?s2, VMM_OK, False)"
      using l(1) cur True by (simp add: vmm_scheduler_state_change_def)
    moreover have "sched_inv inv members hw N hosts ?s2"
      by (rule sched_inv_ctrl [OF l(2), where h = ?h and c' = "(scheds s1 ?h)\<lparr>yield_on_irq_exit := True\<rparr>"]) (use sched_invD(6) [OF l(2), of ?h] in auto)
    moreover have "only_vcpus {n} s ?s2" using o by (auto simp: only_vcpus_def)
    ultimately show ?thesis using l(4) by simp
  next
    case False
    then have "vmm_scheduler_state_change (m_sched Q) ?h frame (Some n) VMM_VCPU_STATE_RESET s = Done (s1, VMM_OK, False)"
      using l(1) by (simp add: vmm_scheduler_state_change_def Let_def split: option.split)
    then show ?thesis using l(2,4) o by blast
  qed
qed

lemma reset_vcpu_ok:
  assumes i: "sched_inv inv members hw N hosts (mkern M)" and E: "env_ok A hw (m_sched Q)" and c: "can_reset Q hosts (mkern M) n"
  shows "\<exists>s'. vmm_manager_vcpu_set_state Q (Some n) VMM_VCPU_STATE_RESET M = Done (set_kern s' M, VMM_OK)
     \<and> sched_inv inv members hw N hosts s' \<and> only_vcpus {n} (mkern M) s' \<and> state (vcpus s' n) = VMM_VCPU_STATE_RESET"
proof -
  obtain s' where s': "vmm_scheduler_state_change (m_sched Q) (hcpu (vcpu_array M n)) (m_frame Q) (Some n) VMM_VCPU_STATE_RESET (mkern M) = Done (s', VMM_OK, False)"
    "sched_inv inv members hw N hosts s'" "only_vcpus {n} (mkern M) s'" "state (vcpus s' n) = VMM_VCPU_STATE_RESET"
    using reset_state_change [OF assms] by blast
  then have "vmm_manager_vcpu_set_state Q (Some n) VMM_VCPU_STATE_RESET M = Done (set_kern s' M, VMM_OK)"
    using c by (auto simp: vmm_manager_vcpu_set_state_def Let_def can_reset_def)
  then show ?thesis using s' by blast
qed

lemma iterate_reset_ok:
  assumes "env_ok A hw (m_sched Q)"
  shows "sched_inv inv members hw N hosts (mkern M) \<Longrightarrow> distinct ns \<Longrightarrow> \<forall>n \<in> set ns. can_reset Q hosts (mkern M) n \<Longrightarrow>
    \<exists>s'. iterate (\<lambda>n. vmm_manager_vcpu_set_state Q (Some n) VMM_VCPU_STATE_RESET) ns M = Done (set_kern s' M, VMM_OK)
      \<and> sched_inv inv members hw N hosts s' \<and> only_vcpus (set ns) (mkern M) s' \<and> (\<forall>n \<in> set ns. state (vcpus s' n) = VMM_VCPU_STATE_RESET)"
proof (induction ns arbitrary: M)
  case Nil
  have "set_kern (mkern M) M = M" by (simp add: set_kern_def)
  then show ?case using Nil.prems(1) by (intro exI [of _ "mkern M"]) (simp add: only_vcpus_def)
next
  case (Cons n ns)
  obtain s1 where 1: "vmm_manager_vcpu_set_state Q (Some n) VMM_VCPU_STATE_RESET M = Done (set_kern s1 M, VMM_OK)" "sched_inv inv members hw N hosts s1"
    "only_vcpus {n} (mkern M) s1" "state (vcpus s1 n) = VMM_VCPU_STATE_RESET"
    using reset_vcpu_ok [OF Cons.prems(1) assms] Cons.prems(3) by auto
  have "\<forall>m \<in> set ns. can_reset Q hosts (mkern (set_kern s1 M)) m"
    using Cons.prems(2,3) can_reset_only [OF 1(3), of _ Q hosts] by (metis distinct.simps(2) list.set_intros(2) set_kern_simps(1) singletonD)
  then obtain s2 where 2: "iterate (\<lambda>n. vmm_manager_vcpu_set_state Q (Some n) VMM_VCPU_STATE_RESET) ns (set_kern s1 M) = Done (set_kern s2 M, VMM_OK)"
    "sched_inv inv members hw N hosts s2" "only_vcpus (set ns) s1 s2" "\<forall>n \<in> set ns. state (vcpus s2 n) = VMM_VCPU_STATE_RESET"
    using Cons.IH [of "set_kern s1 M"] Cons.prems(2) 1(2) by auto
  have "state (vcpus s2 n) = VMM_VCPU_STATE_RESET" using only_vcpusD(1) [OF 2(3)] Cons.prems(2) 1(4) by simp
  moreover have "only_vcpus (set (n # ns)) (mkern M) s2" using only_vcpus_trans [OF 1(3) 2(3)] by simp
  ultimately show ?case using 1(1) 2 by (intro exI [of _ s2]) simp
qed

end

section \<open>Reset and shutdown of a guest\<close>

lemma upd_guest_kern [simp]: "msys (upd_guest g f M) = msys M" "set_kern s (upd_guest g f M) = upd_guest g f (set_kern s M)"
  by (simp_all add: upd_guest_def set_kern_def)

lemma guest_reset_Done:
  assumes "iterate (\<lambda>n. vmm_manager_vcpu_set_state Q (Some n) VMM_VCPU_STATE_RESET) (guest_vcpu_list (guest_array M g))
      (upd_guest g (\<lambda>u. u\<lparr>guest_reset_count := guest_reset_count u + 1, guest_reset_tstamp := now (m_sched Q)\<rparr>) M) = Done (M', VMM_OK)"
    and "arch_guest_init Q g = VMM_OK" and "guest_aspace_reset Q g = VMM_OK"
  shows "vmm_manager_guest_reset Q (Some g) M = Done (M', VMM_OK)"
  using assms by (simp add: vmm_manager_guest_reset_def vmm_manager_guest_vcpu_iterate_def then_ok_def Let_def upd_guest_def)

context ready_queue
begin

lemma guest_reset_ok:
  assumes i: "sched_inv inv members hw N hosts (mkern M)" and E: "env_ok A hw (m_sched Q)" and d: "distinct (guest_vcpu_list (guest_array M g))"
    and c: "\<forall>n \<in> set (guest_vcpu_list (guest_array M g)). can_reset Q hosts (mkern M) n"
    and a: "arch_guest_init Q g = VMM_OK" "guest_aspace_reset Q g = VMM_OK"
  shows "\<exists>s'. vmm_manager_guest_reset Q (Some g) M = Done (upd_guest g (\<lambda>u. u\<lparr>guest_reset_count := guest_reset_count u + 1,
        guest_reset_tstamp := now (m_sched Q)\<rparr>) (set_kern s' M), VMM_OK)
    \<and> sched_inv inv members hw N hosts s' \<and> only_vcpus (set (guest_vcpu_list (guest_array M g))) (mkern M) s'
    \<and> (\<forall>n \<in> set (guest_vcpu_list (guest_array M g)). state (vcpus s' n) = VMM_VCPU_STATE_RESET \<and> (\<forall>h. n \<notin> members (rq (scheds s' h))))"
proof -
  let ?M = "upd_guest g (\<lambda>u. u\<lparr>guest_reset_count := guest_reset_count u + 1, guest_reset_tstamp := now (m_sched Q)\<rparr>) M"
  obtain s' where s': "iterate (\<lambda>n. vmm_manager_vcpu_set_state Q (Some n) VMM_VCPU_STATE_RESET) (guest_vcpu_list (guest_array M g)) ?M = Done (set_kern s' ?M, VMM_OK)"
    "sched_inv inv members hw N hosts s'" "only_vcpus (set (guest_vcpu_list (guest_array M g))) (mkern M) s'"
    "\<forall>n \<in> set (guest_vcpu_list (guest_array M g)). state (vcpus s' n) = VMM_VCPU_STATE_RESET"
    using iterate_reset_ok [OF E, of N hosts ?M "guest_vcpu_list (guest_array M g)"] i d c by auto
  have "n \<notin> members (rq (scheds s' h))" if "state (vcpus s' n) = VMM_VCPU_STATE_RESET" for n h
    using sched_invD(2) [OF s'(2), of h] that by (auto simp: ready_on_def)
  then show ?thesis using guest_reset_Done [OF s'(1) a] s' by (intro exI [of _ s']) simp
qed

end

text \<open>
  C17. The shutdown of a guest.  When the work of a guest is executed and its oldest request is a shutdown, every VCPU of the guest
  ends in the RESET state and in no ready queue of any host CPU, whether it ran, waited or was paused, on whatever host CPU; no other
  VCPU changes and no host CPU is switched away from what it runs; the scheduler stays consistent; the request is gone, and the work is
  scheduled again exactly when there are further requests.  The conditions: the host CPU of each VCPU is the one that executes the work or is
  online and answers; no VCPU is READY while it is still the current one of its host CPU (the source leaves such a VCPU in the ready
  queue); the initialisations by the architecture and the reset of the address space succeed; and the guest is not in the last
  entry of the table, whose requests the source does not serve.
\<close>

theorem guest_shutdown_stops:
  assumes "sched_inv prr_inv prr_members hw N hosts (mkern M)" and "env_ok prr_algo hw (m_sched Q)" and "mngr_inv M"
    and "guest_used M g" "g < length (guest_avail_array M) - 1" "g \<notin> set (guest_work M)" "req_list (guest_array M g) = ShutdownRequest # rs"
    and "\<forall>n \<in> set (guest_vcpu_list (guest_array M g)). can_reset Q hosts (mkern M) n"
    and "arch_guest_init Q g = VMM_OK" "guest_aspace_reset Q g = VMM_OK"
  shows "\<exists>M'. manager_req_work Q other g M = Done M' \<and> mngr_inv M' \<and> sched_inv prr_inv prr_members hw N hosts (mkern M')
    \<and> (\<forall>n \<in> set (guest_vcpu_list (guest_array M g)). state (vcpu_array M' n) = VMM_VCPU_STATE_RESET \<and> (\<forall>h. n \<notin> prr_members (rq (scheds (mkern M') h))))
    \<and> only_vcpus (set (guest_vcpu_list (guest_array M g))) (mkern M) (mkern M')
    \<and> req_list (guest_array M' g) = rs \<and> guest_work M' = guest_work M @ (if rs = [] then [] else [g])"
proof -
  let ?M1 = "upd_guest g (\<lambda>u. u\<lparr>req_list := rs\<rparr>) M"
  have g: "g \<in> set (guest_list M)" using mngr_invD(6) [OF assms(3)] assms(4) by blast
  have "distinct (guest_vcpu_list (guest_array ?M1 g))" using mngr_invD(7) [OF assms(3) g] by (simp add: guest_ok_def upd_guest_def)
  then obtain s' where s': "vmm_manager_guest_reset Q (Some g) ?M1 = Done (upd_guest g (\<lambda>u. u\<lparr>guest_reset_count := guest_reset_count u + 1,
        guest_reset_tstamp := now (m_sched Q)\<rparr>) (set_kern s' ?M1), VMM_OK)"
    "sched_inv prr_inv prr_members hw N hosts s'" "only_vcpus (set (guest_vcpu_list (guest_array M g))) (mkern M) s'"
    "\<forall>n \<in> set (guest_vcpu_list (guest_array M g)). state (vcpus s' n) = VMM_VCPU_STATE_RESET \<and> (\<forall>h. n \<notin> prr_members (rq (scheds s' h)))"
    using prr.guest_reset_ok [of hw N hosts ?M1 Q g] assms(1,2,8-10) by (auto simp: upd_guest_def)
  let ?M2 = "upd_guest g (\<lambda>u. u\<lparr>guest_reset_count := guest_reset_count u + 1, guest_reset_tstamp := now (m_sched Q)\<rparr>) (set_kern s' ?M1)"
  let ?M3 = "if rs \<noteq> [] then schedule_guest_work g ?M2 else ?M2"
  have "vmm_manager_guest g M = Some g" using assms(4) by (simp add: guest_used_def vmm_manager_guest_def)
  then have w: "manager_req_work Q other g M = Done ?M3"
    using assms(5,7) s'(1) by (simp add: manager_req_work_def manager_dequeue_req_def run_request_def manager_shutdown_request_def manager_have_req_def
        upd_guest_def)
  have "same_book M ?M1" by (rule upd_guest_book) simp_all
  then have "same_book M ?M2" using guest_reset_book [OF s'(1)] same_book_trans by blast
  then have b: "same_book M ?M3" using same_book_trans [OF _ work_book(1)] by (cases "rs = []") simp_all
  have k: "mkern ?M3 = s'" "guest_array ?M3 = guest_array ?M2" "guest_work ?M3 = guest_work M @ (if rs = [] then [] else [g])"
    using assms(6) by (simp_all add: schedule_guest_work_def upd_guest_def)
  have "req_list (guest_array ?M3 g) = rs" unfolding k(2) by (simp add: upd_guest_def)
  then show ?thesis using w same_book_inv [OF b assms(3)] s'(2-4) k by (intro exI [of _ ?M3]) (simp only: simp_thms)
qed

text \<open>Guest 0 has VCPU 1, which runs on host CPU 0; VCPU 0 is the idle VCPU; a shutdown of the guest has been requested.\<close>

definition demo_kern :: "prr_rq system" where
  "demo_kern = upd_vcpu 1 (\<lambda>v. v\<lparr>guest := Some 0\<rparr>) (irqsys demo_wfi)"

definition demo_guests :: "prr_rq manager" where
  "demo_guests = set_kern demo_kern (demo_mngr\<lparr>mngr_vcpu_count := 2, mngr_guest_count := 1, vcpu_avail_array := [False, False, True, True],
     guest_avail_array := [False, True], orphan_vcpu_list := [0], guest_list := [0],
     guest_array := (guest_array demo_mngr)(0 := zero_guest\<lparr>guest_node := Some 7, req_list := [ShutdownRequest], guest_vcpu_count := 1, guest_vcpu_list := [1]\<rparr>)\<rparr>)"

lemma demo_kern_inv: "sched_inv prr_inv prr_members irq_demo_arch 2 {0} demo_kern"
  unfolding demo_kern_def
  by (rule sched_inv_vcpu [OF demo_wfi_inv, where n = 1 and v' = "(vcpus (irqsys demo_wfi) 1)\<lparr>guest := Some 0\<rparr>"])
    (use sched_invD(5) [OF demo_wfi_inv, of 1] in \<open>simp_all add: vcpu_ok_def\<close>)

lemma demo_guests_inv: "mngr_inv demo_guests"
  by (auto simp: mngr_inv_def guest_ok_def vcpu_used_def guest_used_def demo_guests_def demo_kern_def demo_wfi_def demo_defs irq_demo_defs
      less_Suc_eq numeral_eq_Suc)

theorem guest_shutdown_stops_witness:
  "\<exists>M'. manager_req_work demo_menv (\<lambda>_ _ _ M. Done M) 0 demo_guests = Done M' \<and> state (vcpu_array M' 1) = VMM_VCPU_STATE_RESET
     \<and> 1 \<notin> prr_members (rq (scheds (mkern M') 0)) \<and> guest_work M' = []"
proof -
  have l: "guest_vcpu_list (guest_array demo_guests 0) = [1]" "guest_work demo_guests = []" "mkern demo_guests = demo_kern"
    by (simp_all add: demo_guests_def demo_mngr_def vmm_manager_init_def)
  have "guest_used demo_guests 0" "0 < length (guest_avail_array demo_guests) - 1" "req_list (guest_array demo_guests 0) = [ShutdownRequest]"
    by (simp_all add: guest_used_def demo_guests_def)
  moreover have "can_reset demo_menv {0} demo_kern 1"
    by (simp add: can_reset_def is_idle_def still_current_def demo_menv_def demo_kern_def demo_wfi_def demo_defs irq_demo_defs)
  moreover have "env_ok prr_algo irq_demo_arch (m_sched demo_menv)" "arch_guest_init demo_menv 0 = VMM_OK" "guest_aspace_reset demo_menv 0 = VMM_OK"
    by (simp_all add: demo_menv_def demo_env_ok)
  ultimately show ?thesis
    using guest_shutdown_stops [of irq_demo_arch 2 "{0}" demo_guests demo_menv 0 "[]" "\<lambda>_ _ _ M. Done M"] demo_kern_inv demo_guests_inv l by auto
qed

section \<open>Requests that are lost and calls that end badly\<close>

text \<open>
  The work of the guest in the last entry never does anything: the test compares the address of the work with that of the last
  entry and not with the end of the array.  A reboot request of that guest is accepted and stays in its list.
\<close>

lemma last_guest_request_ignored:
  assumes "request_mem Q" and "g = length (guest_avail_array M) - 1" and "guest_work M = []"
  shows "\<exists>M1. vmm_manager_guest_request Q (Some g) (Some r) M = (M1, VMM_OK) \<and> guest_work M1 = [g]
     \<and> run_guest_work Q other M1 = Done (M1\<lparr>guest_work := []\<rparr>) \<and> r \<in> set (req_list (guest_array M1 g))"
  using assms by (simp add: vmm_manager_guest_request_def manager_enqueue_req_def schedule_guest_work_def run_guest_work_def manager_req_work_def upd_guest_def)

text \<open>With all entries in use, the creation of a guest does not fail but works on the list head as if it were a guest.\<close>

lemma guest_create_full_table:
  assumes "True \<notin> set (guest_avail_array M)" and "gd_type d = Some ''guest''"
    and "\<forall>g \<in> set (guest_list M). guest_node (guest_array M g) \<noteq> Some (gd_node d) \<and> guest_name (guest_array M g) \<noteq> gd_name d"
  shows "vmm_manager_guest_create Q (Some d) M = Fault"
  using assms(2,3) first_avail_None [of "guest_avail_array M"] assms(1) by (auto simp: vmm_manager_guest_create_def)

text \<open>The name is compared in full with names that were cut to 63 characters, so a long name is never found to be a duplicate.\<close>

lemma long_name_no_duplicate: "VMM_FIELD_NAME_SIZE \<le> length (gd_name d) \<Longrightarrow> guest_name (init_guest Q d) \<noteq> gd_name d"
  by (auto simp: init_guest_def VMM_FIELD_NAME_SIZE_def dest: arg_cong [of _ _ length])

text \<open>The priority is cut to eight bits before it is limited, so the value 256 becomes the lowest priority.\<close>

lemma vcpu_priority_wraps: "vd_priority d = Some 256 \<Longrightarrow> vcpu_priority d = VMM_VCPU_MIN_PRIORITY"
  by (simp add: vcpu_priority_def VMM_VCPU_MIN_PRIORITY_def)

text \<open>
  A VCPU that runs and restricts its own affinity to other host CPUs is told that all is well, has the new mask and stays where it is.
\<close>

lemma set_affinity_stays:
  assumes "timer_started Q" and "hcpu (vcpu_array M n) = m_host Q" and "state (vcpu_array M n) = VMM_VCPU_STATE_RUNNING"
    and "\<not> cm (m_host Q)" and "c < cpu_count (m_sched Q)" "cm c" "cpu_affinity (vcpu_array M n) c"
    and "cpu_affinity (vcpu_array M n) (good_hcpu Q (priority (vcpu_array M n)) (\<lambda>c. cpu_affinity (vcpu_array M n) c \<and> cm c) M)"
  shows "\<exists>M'. vmm_manager_vcpu_set_affinity Q (Some n) (Some cm) M = Done (M', VMM_OK) \<and> cpu_affinity (vcpu_array M' n) = cm
     \<and> hcpu (vcpu_array M' n) = m_host Q"
proof -
  let ?m = "\<lambda>c. cpu_affinity (vcpu_array M n) c \<and> cm c"
  have "vmm_cpumask_weight (cpu_count (m_sched Q)) ?m \<noteq> 0" using assms(5-7) by (auto simp: vmm_cpumask_weight_def cpumask_list_def filter_empty_conv)
  then show ?thesis using assms
    by (auto simp: vmm_manager_vcpu_set_affinity_def vmm_manager_vcpu_set_hcpu_def vmm_scheduler_set_hcpu_def scheduler_ipi_migrate_vcpu_def Let_def)
qed

end
