(* ===== verification/Buddy.thy ===== *)
theory Buddy
  imports Prelude
begin

text \<open>
  The buddy allocator, \<^verbatim>\<open>libs/common/buddy.c\<close>.

  Values of type \<^verbatim>\<open>unsigned long\<close> are natural numbers below \<open>2 ^ 64\<close>, and every addition, subtraction and
  multiplication that can leave that range is written with its wrap-around (\<open>add64\<close>, \<open>sub64\<close>, \<open>mul64\<close>).  An area is a
  record; the list of a bin is the sequence of its areas, the tree of allocated areas is given by its in-order sequence, and of the
  free house-keeping structures only the number matters.  Bins are numbered below 32, so \<^verbatim>\<open>0x01UL << bin\<close> is a power of two.
  Pointer arguments are not null: every caller passes the address of an allocator and of a result.
\<close>

section \<open>Arithmetic of unsigned long\<close>

definition add64 :: "nat \<Rightarrow> nat \<Rightarrow> nat" where "add64 x y = (x + y) mod 2 ^ 64"
definition sub64 :: "nat \<Rightarrow> nat \<Rightarrow> nat" where "sub64 x y = (x + 2 ^ 64 - y) mod 2 ^ 64"
definition mul64 :: "nat \<Rightarrow> nat \<Rightarrow> nat" where "mul64 x y = (x * y) mod 2 ^ 64"

lemma add64_eq: "x + y < 2 ^ 64 \<Longrightarrow> add64 x y = x + y"
  by (simp add: add64_def)

lemma sub64_eq: "y \<le> x \<Longrightarrow> x < 2 ^ 64 \<Longrightarrow> sub64 x y = x - y"
proof -
  assume a: "y \<le> x" "x < 2 ^ 64"
  then have "x + 2 ^ 64 - y = (x - y) + 2 ^ 64" by simp
  then show ?thesis unfolding sub64_def using a by (simp only: mod_add_self2) simp
qed

lemma mul64_eq: "x * y < 2 ^ 64 \<Longrightarrow> mul64 x y = x * y"
  by (simp add: mul64_def)

section \<open>State\<close>

definition BLOCK_SIZE :: "nat \<Rightarrow> nat" where "BLOCK_SIZE b = 2 ^ b"
definition BLOCK_COUNT :: "nat \<Rightarrow> nat \<Rightarrow> nat" where "BLOCK_COUNT sz b = sz div 2 ^ b"

text \<open>\<open>off_block x b\<close> is \<^verbatim>\<open>x & BLOCK_MASK(b)\<close>.\<close>

definition off_block :: "nat \<Rightarrow> nat \<Rightarrow> nat" where "off_block x b = x mod BLOCK_SIZE b"

record buddy_area =
  area_map :: nat
  blk_count :: nat
  bin_num :: nat

definition AREA_SIZE :: "buddy_area \<Rightarrow> nat" where "AREA_SIZE a = mul64 (blk_count a) (BLOCK_SIZE (bin_num a))"
definition AREA_START :: "buddy_area \<Rightarrow> nat" where "AREA_START a = area_map a"
definition AREA_END :: "buddy_area \<Rightarrow> nat" where "AREA_END a = add64 (area_map a) (AREA_SIZE a)"

record buddy_allocator =
  hk_total_count :: nat
  hk_free_count :: nat
  mem_start :: nat
  mem_size :: nat
  min_bin :: nat
  max_bin :: nat
  alloc :: "buddy_area list"
  bins :: "nat \<Rightarrow> buddy_area list"

definition BUDDY_MAX_SUPPORTED_BIN :: nat where "BUDDY_MAX_SUPPORTED_BIN = 32"

section \<open>House-keeping and the tree of allocated areas\<close>

definition buddy_estimate_bin :: "buddy_allocator \<Rightarrow> nat \<Rightarrow> nat" where
  "buddy_estimate_bin ba sz =
     (if sz < BLOCK_SIZE (min_bin ba) then min_bin ba
      else case List.find (\<lambda>b. sz \<le> BLOCK_SIZE b) [min_bin ba..<max_bin ba] of Some b \<Rightarrow> b | None \<Rightarrow> max_bin ba)"

definition buddy_hk_free :: "buddy_allocator \<Rightarrow> buddy_allocator" where
  "buddy_hk_free ba = ba\<lparr>hk_free_count := add64 (hk_free_count ba) 1\<rparr>"

definition buddy_hk_alloc :: "nat \<Rightarrow> nat \<Rightarrow> nat \<Rightarrow> buddy_allocator \<Rightarrow> buddy_allocator \<times> buddy_area option" where
  "buddy_hk_alloc am b k ba =
     (if hk_free_count ba = 0 then (ba, None)
      else (ba\<lparr>hk_free_count := hk_free_count ba - 1\<rparr>, Some \<lparr>area_map = am, blk_count = k, bin_num = b\<rparr>))"

definition buddy_hk_area_free :: "buddy_allocator option \<Rightarrow> nat" where
  "buddy_hk_area_free ba' = (case ba' of None \<Rightarrow> 0 | Some ba \<Rightarrow> hk_free_count ba)"

definition buddy_hk_area_total :: "buddy_allocator option \<Rightarrow> nat" where
  "buddy_hk_area_total ba' = (case ba' of None \<Rightarrow> 0 | Some ba \<Rightarrow> hk_total_count ba)"

definition buddy_alloc_find :: "buddy_allocator \<Rightarrow> nat \<Rightarrow> buddy_area option" where
  "buddy_alloc_find ba addr = List.find (\<lambda>a. AREA_START a \<le> addr \<and> addr < AREA_END a) (alloc ba)"

text \<open>Insertion in order; an overlap with an area on the way is a \<^verbatim>\<open>BUG_ON\<close>.\<close>

fun insert_area :: "buddy_area \<Rightarrow> buddy_area list \<Rightarrow> buddy_area list result" where
  "insert_area a [] = Done [a]"
| "insert_area a (p # ps) =
     (if AREA_END a \<le> AREA_START p then Done (a # p # ps)
      else if AREA_END p \<le> AREA_START a then bind_result (insert_area a ps) (\<lambda>qs. Done (p # qs))
      else Panic)"

definition buddy_alloc_add :: "buddy_area \<Rightarrow> buddy_allocator \<Rightarrow> buddy_allocator result" where
  "buddy_alloc_add a ba = bind_result (insert_area a (alloc ba)) (\<lambda>l. Done (ba\<lparr>alloc := l\<rparr>))"

definition buddy_alloc_del :: "buddy_area \<Rightarrow> buddy_allocator \<Rightarrow> buddy_allocator" where
  "buddy_alloc_del a ba = ba\<lparr>alloc := remove1 a (alloc ba)\<rparr>"

section \<open>Putting areas into bins\<close>

text \<open>
  The walk along the list of a bin: the areas before, the area that the new one became part of, the areas after, and how
  many structures were given back.
\<close>

fun put_walk ::
  "buddy_area list \<Rightarrow> buddy_area list \<Rightarrow> buddy_area \<Rightarrow> (buddy_area list \<times> buddy_area \<times> buddy_area list) \<times> nat" where
  "put_walk pre [] a = ((pre, a, []), 0)"
| "put_walk pre (b # bs) a =
     (if AREA_END a = AREA_START b
      then let b1 = b\<lparr>area_map := area_map a, blk_count := add64 (blk_count b) (blk_count a)\<rparr>
           in if pre \<noteq> [] \<and> AREA_END (last pre) = AREA_START b1
              then ((butlast pre, (last pre)\<lparr>blk_count := add64 (blk_count (last pre)) (blk_count b1)\<rparr>, bs), 2)
              else ((pre, b1, bs), 1)
      else if AREA_END b = AREA_START a
      then let b1 = b\<lparr>blk_count := add64 (blk_count b) (blk_count a)\<rparr>
           in (case bs of
                 c # cs \<Rightarrow> if AREA_END b1 = AREA_START c
                            then ((pre, b1\<lparr>blk_count := add64 (blk_count b1) (blk_count c)\<rparr>, cs), 2)
                            else ((pre, b1, bs), 1)
               | [] \<Rightarrow> ((pre, b1, bs), 1))
      else if AREA_END a < AREA_START b then ((pre, a, b # bs), 0)
      else put_walk (pre @ [b]) bs a)"

definition hk_free_n :: "nat \<Rightarrow> buddy_allocator \<Rightarrow> buddy_allocator" where
  "hk_free_n n ba = (buddy_hk_free ^^ n) ba"

definition set_bin :: "nat \<Rightarrow> buddy_area list \<Rightarrow> buddy_allocator \<Rightarrow> buddy_allocator" where
  "set_bin b l ba = ba\<lparr>bins := (bins ba)(b := l)\<rparr>"

text \<open>
  Merging blocks: first a leading block that is not aligned to the next bin is split off, then pairs of blocks become the residue
  for the next bin.  Where no structure is left the source jumps to \<^verbatim>\<open>skip\<close>.
\<close>

definition merge_pairs ::
  "nat \<Rightarrow> buddy_area list \<Rightarrow> buddy_area \<Rightarrow> buddy_area list \<Rightarrow> buddy_allocator \<Rightarrow> buddy_allocator \<times> buddy_area option" where
  "merge_pairs b pre m suf ba =
     (if off_block (AREA_START m) (b + 1) = 0 \<and> 2 \<le> blk_count m
      then case buddy_hk_alloc (area_map m) (b + 1) (blk_count m div 2) ba of
             (ba1, None) \<Rightarrow> (set_bin b (pre @ m # suf) ba1, None)
           | (ba1, Some r) \<Rightarrow>
               let m1 = m\<lparr>area_map := add64 (area_map m) (AREA_SIZE r), blk_count := sub64 (blk_count m) (mul64 (blk_count r) 2)\<rparr>
               in if blk_count m1 = 0 then (buddy_hk_free (set_bin b (pre @ suf) ba1), Some r)
                  else (set_bin b (pre @ m1 # suf) ba1, Some r)
      else (set_bin b (pre @ m # suf) ba, None))"

definition merge_blocks ::
  "nat \<Rightarrow> buddy_area list \<Rightarrow> buddy_area \<Rightarrow> buddy_area list \<Rightarrow> buddy_allocator \<Rightarrow> buddy_allocator \<times> buddy_area option" where
  "merge_blocks b pre m suf ba =
     (if off_block (AREA_START m) (b + 1) \<noteq> 0 \<and> 3 \<le> blk_count m
      then case buddy_hk_alloc (area_map m) b 1 ba of
             (ba1, None) \<Rightarrow> (set_bin b (pre @ m # suf) ba1, None)
           | (ba1, Some a) \<Rightarrow>
               merge_pairs b (pre @ [a]) (m\<lparr>area_map := add64 (area_map m) (BLOCK_SIZE b), blk_count := blk_count m - 1\<rparr>) suf ba1
      else merge_pairs b pre m suf ba)"

definition bins_put_step :: "buddy_area \<Rightarrow> buddy_allocator \<Rightarrow> buddy_allocator \<times> buddy_area option" where
  "bins_put_step a ba =
     (let b = bin_num a
      in if b < min_bin ba \<or> max_bin ba < b then (ba, None)
         else case put_walk [] (bins ba b) a of
                ((pre, m, suf), n) \<Rightarrow>
                  let ba1 = hk_free_n n ba
                  in if b = max_bin ba then (set_bin b (pre @ m # suf) ba1, None) else merge_blocks b pre m suf ba1)"

lemma hk_simps [simp]:
  "max_bin (hk_free_n n ba) = max_bin ba" "min_bin (hk_free_n n ba) = min_bin ba" "bins (hk_free_n n ba) = bins ba"
  "alloc (hk_free_n n ba) = alloc ba" "mem_start (hk_free_n n ba) = mem_start ba" "mem_size (hk_free_n n ba) = mem_size ba"
  "hk_total_count (hk_free_n n ba) = hk_total_count ba"
  by (induction n; simp add: hk_free_n_def buddy_hk_free_def)+

lemma put_step_residue:
  assumes "bins_put_step a ba = (ba', Some r)"
  shows "bin_num r = bin_num a + 1 \<and> bin_num a < max_bin ba \<and> max_bin ba' = max_bin ba"
proof -
  have p: "bin_num r = b + 1 \<and> max_bin ba2 = max_bin ba1" if "merge_pairs b pre m suf ba1 = (ba2, Some r)" for b pre m suf ba1 ba2
    using that by (auto simp: merge_pairs_def buddy_hk_alloc_def set_bin_def buddy_hk_free_def Let_def split: if_splits)
  have "bin_num r = b + 1 \<and> max_bin ba2 = max_bin ba1" if "merge_blocks b pre m suf ba1 = (ba2, Some r)" for b pre m suf ba1 ba2
    using that p by (fastforce simp: merge_blocks_def buddy_hk_alloc_def split: if_splits)
  then show ?thesis using assms by (fastforce simp: bins_put_step_def Let_def split: prod.splits if_splits)
qed

function buddy_bins_put :: "buddy_area \<Rightarrow> buddy_allocator \<Rightarrow> buddy_allocator" where
  "buddy_bins_put a ba = (case bins_put_step a ba of (ba1, None) \<Rightarrow> ba1 | (ba1, Some r) \<Rightarrow> buddy_bins_put r ba1)"
  by pat_completeness auto
termination
  by (relation "measure (\<lambda>(a, ba). Suc (max_bin ba) - bin_num a)") (auto dest!: put_step_residue [OF sym])

declare buddy_bins_put.simps [simp del]

section \<open>Taking areas from bins\<close>

fun split_find :: "('a \<Rightarrow> bool) \<Rightarrow> 'a list \<Rightarrow> ('a list \<times> 'a \<times> 'a list) option" where
  "split_find P [] = None"
| "split_find P (x # xs) = (if P x then Some ([], x, xs) else map_option (\<lambda>(pre, y, suf). (x # pre, y, suf)) (split_find P xs))"

function buddy_bins_get :: "nat \<Rightarrow> nat \<Rightarrow> buddy_allocator \<Rightarrow> buddy_allocator \<times> buddy_area option" where
  "buddy_bins_get b k ba =
     (if k = 0 \<or> b < min_bin ba \<or> max_bin ba < b then (ba, None)
      else case split_find (\<lambda>a. k \<le> blk_count a) (bins ba b) of
             Some (pre, a, suf) \<Rightarrow>
               (case buddy_hk_alloc (area_map a) b k ba of
                  (ba1, None) \<Rightarrow> (ba1, None)
                | (ba1, Some ret) \<Rightarrow>
                    let a1 = a\<lparr>area_map := add64 (area_map a) (mul64 k (BLOCK_SIZE b)), blk_count := blk_count a - k\<rparr>
                    in if blk_count a1 = 0 then (buddy_hk_free (set_bin b (pre @ suf) ba1), Some ret)
                       else (set_bin b (pre @ a1 # suf) ba1, Some ret))
           | None \<Rightarrow>
               (case buddy_bins_get (b + 1) (add64 k 1 div 2) ba of
                  (ba1, None) \<Rightarrow> (ba1, None)
                | (ba1, Some ret) \<Rightarrow>
                    let ret1 = ret\<lparr>bin_num := bin_num ret - 1, blk_count := mul64 (blk_count ret) 2\<rparr>
                    in if blk_count ret1 = k then (ba1, Some ret1)
                       else (case buddy_hk_alloc (add64 (area_map ret1) (mul64 k (BLOCK_SIZE b))) b (sub64 (blk_count ret1) k) ba1 of
                               (ba2, None) \<Rightarrow> (ba2, Some ret1)
                             | (ba2, Some res) \<Rightarrow> (buddy_bins_put res ba2, Some (ret1\<lparr>blk_count := k\<rparr>)))))"
  by pat_completeness auto
termination
  by (relation "measure (\<lambda>(b, k, ba). Suc (max_bin ba) - b)") auto

declare buddy_bins_get.simps [simp del]

text \<open>The number of blocks of bin \<open>b\<close> that cover \<open>sz\<close> bytes.\<close>

definition blocks_for :: "nat \<Rightarrow> nat \<Rightarrow> nat" where
  "blocks_for sz b = (let k = BLOCK_COUNT sz b in if mul64 k (BLOCK_SIZE b) < sz then add64 k 1 else k)"

definition buddy_bins_reserve :: "nat \<Rightarrow> nat \<Rightarrow> nat \<Rightarrow> buddy_allocator \<Rightarrow> buddy_allocator \<times> buddy_area option" where
  "buddy_bins_reserve b addr sz ba =
     (if sz = 0 \<or> b < min_bin ba \<or> max_bin ba < b then (ba, None)
      else let sz1 = add64 sz (off_block addr b); addr1 = addr - off_block addr b;
               k = blocks_for sz1 b; sz2 = mul64 k (BLOCK_SIZE b)
           in case split_find (\<lambda>a. AREA_START a \<le> addr1 \<and> addr1 < AREA_END a \<and> AREA_START a \<le> add64 addr1 sz2
                                   \<and> add64 addr1 sz2 \<le> AREA_END a) (bins ba b) of
                None \<Rightarrow> (ba, None)
              | Some (pre, a, suf) \<Rightarrow>
                  (case buddy_hk_alloc addr1 b k ba of
                     (ba1, None) \<Rightarrow> (ba1, None)
                   | (ba1, Some ret) \<Rightarrow>
                       let t = BLOCK_COUNT (sub64 (AREA_END a) (AREA_END ret)) b;
                           a1 = a\<lparr>blk_count := BLOCK_COUNT (sub64 (AREA_START ret) (AREA_START a)) b\<rparr>;
                           rest = (\<lambda>suf1 ba2. if blk_count a1 = 0 then buddy_hk_free (set_bin b (pre @ suf1) ba2)
                                              else set_bin b (pre @ a1 # suf1) ba2)
                       in if t = 0 then (rest suf ba1, Some ret)
                          else (case buddy_hk_alloc (AREA_END ret) b t ba1 of
                                  (ba2, None) \<Rightarrow> (buddy_hk_free ba2, None)
                                | (ba2, Some c) \<Rightarrow> (rest (c # suf) ba2, Some ret))))"

definition buddy_bins_area_count :: "buddy_allocator \<Rightarrow> nat \<Rightarrow> nat" where
  "buddy_bins_area_count ba b = (if b < min_bin ba \<or> max_bin ba < b then 0 else length (bins ba b))"

definition buddy_bins_block_count :: "buddy_allocator \<Rightarrow> nat \<Rightarrow> nat" where
  "buddy_bins_block_count ba b = (if b < min_bin ba \<or> max_bin ba < b then 0 else foldl (\<lambda>n a. add64 n (blk_count a)) 0 (bins ba b))"

definition buddy_bins_free_space :: "buddy_allocator \<Rightarrow> nat" where
  "buddy_bins_free_space ba =
     foldl (\<lambda>n b. add64 n (mul64 (buddy_bins_block_count ba b) (BLOCK_SIZE b))) 0 [min_bin ba..<Suc (max_bin ba)]"

section \<open>The operations\<close>

text \<open>The area in units of the smallest bin.\<close>

definition downgrade :: "buddy_allocator \<Rightarrow> buddy_area \<Rightarrow> buddy_area" where
  "downgrade ba a = a\<lparr>blk_count := mul64 (blk_count a) (2 ^ (bin_num a - min_bin ba)), bin_num := min_bin ba\<rparr>"

text \<open>What the area has beyond \<open>sz\<close> bytes goes back to the bins; the last component is false when no structure was left for it.\<close>

definition trim_area :: "nat \<Rightarrow> buddy_area \<Rightarrow> buddy_allocator \<Rightarrow> buddy_allocator \<times> buddy_area \<times> bool" where
  "trim_area sz a ba =
     (let b = bin_num a; k = blocks_for sz b
      in if k < blk_count a
         then (case buddy_hk_alloc (add64 (AREA_START a) (mul64 k (BLOCK_SIZE b))) b (blk_count a - k) ba of
                 (ba1, None) \<Rightarrow> (ba1, a, False)
               | (ba1, Some t) \<Rightarrow> (buddy_bins_put t ba1, a\<lparr>blk_count := k\<rparr>, True))
         else (ba, a, True))"

definition add_allocated :: "buddy_area \<Rightarrow> buddy_allocator \<Rightarrow> (buddy_allocator \<times> (vmm_rc + nat)) result" where
  "add_allocated a ba = bind_result (buddy_alloc_add a ba) (\<lambda>ba1. Done (ba1, Inr (area_map a)))"

definition buddy_mem_alloc :: "nat \<Rightarrow> buddy_allocator \<Rightarrow> (buddy_allocator \<times> (vmm_rc + nat)) result" where
  "buddy_mem_alloc sz ba =
     (if sz = 0 then Done (ba, Inl VMM_EINVALID)
      else let b = buddy_estimate_bin ba sz
           in case buddy_bins_get b (blocks_for sz b) ba of
                (ba1, None) \<Rightarrow> Done (ba1, Inl VMM_ENOMEM)
              | (ba1, Some a) \<Rightarrow>
                  (case trim_area sz (downgrade ba1 a) ba1 of (ba2, a2, _) \<Rightarrow> add_allocated a2 ba2))"

definition buddy_mem_aligned_alloc :: "nat \<Rightarrow> nat \<Rightarrow> buddy_allocator \<Rightarrow> (buddy_allocator \<times> (vmm_rc + nat)) result" where
  "buddy_mem_aligned_alloc order sz ba =
     (if sz = 0 \<or> max_bin ba < order then Done (ba, Inl VMM_EINVALID)
      else let b = buddy_estimate_bin ba sz
           in if order \<le> b
              then case buddy_bins_get b (blocks_for sz b) ba of
                     (ba1, None) \<Rightarrow> Done (ba1, Inl VMM_ENOMEM)
                   | (ba1, Some a) \<Rightarrow> (case trim_area sz (downgrade ba1 a) ba1 of (ba2, a2, _) \<Rightarrow> add_allocated a2 ba2)
              else case buddy_bins_get order (blocks_for sz order) ba of
                     (ba1, None) \<Rightarrow> Done (ba1, Inl VMM_ENOMEM)
                   | (ba1, Some a) \<Rightarrow>
                       (case trim_area sz (a\<lparr>blk_count := mul64 (blk_count a) (2 ^ (order - b)), bin_num := b\<rparr>) ba1 of
                          (ba2, a2, False) \<Rightarrow> add_allocated a2 ba2
                        | (ba2, a2, True) \<Rightarrow> (case trim_area sz (downgrade ba2 a2) ba2 of (ba3, a3, _) \<Rightarrow> add_allocated a3 ba3)))"

definition in_memory :: "buddy_allocator \<Rightarrow> nat \<Rightarrow> bool" where
  "in_memory ba addr \<longleftrightarrow> \<not> (addr < mem_start ba \<or> add64 (mem_start ba) (mem_size ba) \<le> addr)"

fun reserve_bins :: "nat list \<Rightarrow> nat \<Rightarrow> nat \<Rightarrow> buddy_allocator \<Rightarrow> buddy_allocator \<times> buddy_area option" where
  "reserve_bins [] addr sz ba = (ba, None)"
| "reserve_bins (b # bs) addr sz ba =
     (case buddy_bins_reserve b addr sz ba of
        (ba1, Some a) \<Rightarrow> (ba1, Some a)
      | (ba1, None) \<Rightarrow> reserve_bins bs addr sz ba1)"

text \<open>The residues at the start and the end of a reserved area; the result of the first is \<open>None\<close> for the jump to \<^verbatim>\<open>skip\<close>.\<close>

definition reserve_head :: "nat \<Rightarrow> buddy_area \<Rightarrow> buddy_allocator \<Rightarrow> buddy_allocator \<times> buddy_area option" where
  "reserve_head addr a ba =
     (let k = BLOCK_COUNT (sub64 addr (AREA_START a)) (bin_num a)
      in if k = 0 then (ba, Some a)
         else case buddy_hk_alloc (AREA_START a) (bin_num a) k ba of
                (ba1, None) \<Rightarrow> (ba1, None)
              | (ba1, Some c) \<Rightarrow>
                  (buddy_bins_put c ba1, Some (a\<lparr>area_map := add64 (area_map a) (AREA_SIZE c), blk_count := sub64 (blk_count a) (blk_count c)\<rparr>)))"

definition reserve_tail :: "nat \<Rightarrow> nat \<Rightarrow> buddy_area \<Rightarrow> buddy_allocator \<Rightarrow> buddy_allocator \<times> buddy_area" where
  "reserve_tail addr sz a ba =
     (let b = bin_num a; o1 = off_block (add64 addr sz) b; tsz = (if o1 \<noteq> 0 then add64 sz (BLOCK_SIZE b - o1) else sz);
          k = BLOCK_COUNT (sub64 (AREA_END a) (add64 addr tsz)) b
      in if k = 0 then (ba, a)
         else case buddy_hk_alloc (add64 addr tsz) b k ba of
                (ba1, None) \<Rightarrow> (ba1, a)
              | (ba1, Some c) \<Rightarrow> (buddy_bins_put c ba1, a\<lparr>blk_count := sub64 (blk_count a) (blk_count c)\<rparr>))"

definition buddy_mem_reserve :: "nat \<Rightarrow> nat \<Rightarrow> buddy_allocator \<Rightarrow> (buddy_allocator \<times> vmm_rc) result" where
  "buddy_mem_reserve addr sz ba =
     (if sz = 0 \<or> \<not> in_memory ba addr then Done (ba, VMM_EINVALID)
      else case reserve_bins [min_bin ba..<Suc (max_bin ba)] addr sz ba of
             (ba1, None) \<Rightarrow> Done (ba1, VMM_ENOTAVAIL)
           | (ba1, Some a) \<Rightarrow>
               let a1 = downgrade ba1 a
               in case (case reserve_head addr a1 ba1 of
                          (ba2, None) \<Rightarrow> (ba2, a1)
                        | (ba2, Some a2) \<Rightarrow> reserve_tail addr sz a2 ba2) of
                    (ba3, a3) \<Rightarrow> bind_result (buddy_alloc_add a3 ba3) (\<lambda>ba4. Done (ba4, VMM_OK)))"

definition buddy_mem_find :: "nat \<Rightarrow> buddy_allocator \<Rightarrow> vmm_rc + (nat \<times> nat \<times> nat)" where
  "buddy_mem_find addr ba =
     (if \<not> in_memory ba addr then Inl VMM_EINVALID
      else case buddy_alloc_find ba addr of
             None \<Rightarrow> Inl VMM_ENOTAVAIL
           | Some a \<Rightarrow> Inr (area_map a, bin_num a, mul64 (BLOCK_SIZE (bin_num a)) (blk_count a)))"

definition buddy_mem_free :: "nat \<Rightarrow> buddy_allocator \<Rightarrow> buddy_allocator \<times> vmm_rc" where
  "buddy_mem_free addr ba =
     (if \<not> in_memory ba addr then (ba, VMM_EINVALID)
      else case buddy_alloc_find ba addr of
             None \<Rightarrow> (ba, VMM_ENOTAVAIL)
           | Some a \<Rightarrow> (buddy_bins_put a (buddy_alloc_del a ba), VMM_OK))"

text \<open>The parts before and after the freed range, which stay allocated.  \<open>None\<close> is again the jump to \<^verbatim>\<open>skip\<close>.\<close>

definition keep_head :: "nat \<Rightarrow> buddy_area \<Rightarrow> buddy_allocator \<Rightarrow> (buddy_allocator \<times> buddy_area \<times> bool) result" where
  "keep_head addr a ba =
     (let b = bin_num a; k = BLOCK_COUNT (sub64 addr (AREA_START a)) b
      in if k \<noteq> 0 \<and> off_block addr b = 0
         then case buddy_hk_alloc (AREA_START a) b k ba of
                (ba1, None) \<Rightarrow> Done (ba1, a, False)
              | (ba1, Some c) \<Rightarrow>
                  bind_result (buddy_alloc_add c ba1) (\<lambda>ba2.
                    Done (ba2, a\<lparr>area_map := add64 (area_map a) (AREA_SIZE c), blk_count := sub64 (blk_count a) (blk_count c)\<rparr>, True))
         else Done (ba, a, True))"

definition keep_tail :: "nat \<Rightarrow> nat \<Rightarrow> buddy_area \<Rightarrow> buddy_allocator \<Rightarrow> (buddy_allocator \<times> buddy_area) result" where
  "keep_tail addr sz a ba =
     (let b = bin_num a; k = BLOCK_COUNT (sub64 (AREA_END a) (add64 addr sz)) b
      in if k \<noteq> 0 \<and> off_block (add64 addr sz) b = 0
         then case buddy_hk_alloc (add64 addr sz) b k ba of
                (ba1, None) \<Rightarrow> Done (ba1, a)
              | (ba1, Some c) \<Rightarrow>
                  bind_result (buddy_alloc_add c ba1) (\<lambda>ba2. Done (ba2, a\<lparr>blk_count := sub64 (blk_count a) (blk_count c)\<rparr>))
         else Done (ba, a))"

definition buddy_mem_partial_free :: "nat \<Rightarrow> nat \<Rightarrow> buddy_allocator \<Rightarrow> (buddy_allocator \<times> vmm_rc) result" where
  "buddy_mem_partial_free addr sz ba =
     (if \<not> in_memory ba addr then Done (ba, VMM_EINVALID)
      else case buddy_alloc_find ba addr of
             None \<Rightarrow> Done (ba, VMM_ENOTAVAIL)
           | Some a0 \<Rightarrow>
               let a = downgrade ba a0; b = min_bin ba
               in if BLOCK_COUNT (sub64 addr (AREA_START a)) b \<noteq> 0 \<and> off_block addr b \<noteq> 0 then Done (ba, VMM_EINVALID)
                  else if BLOCK_COUNT (sub64 (AREA_END a) (add64 addr sz)) b \<noteq> 0 \<and> off_block (add64 addr sz) b \<noteq> 0
                  then Done (ba, VMM_EINVALID)
                  else bind_result (keep_head addr a (buddy_alloc_del a0 ba)) (\<lambda>(ba1, a1, ok).
                         bind_result (if ok then keep_tail addr sz a1 ba1 else Done (ba1, a1)) (\<lambda>(ba2, a2).
                           Done (buddy_bins_put a2 ba2, VMM_OK))))"

section \<open>Initialisation\<close>

text \<open>
  The loop that fills the bins.  Every round but the last takes at least one block of the smallest size off the rest, and at most
  two rounds do.
\<close>

fun fill_bins :: "nat \<Rightarrow> nat \<Rightarrow> nat \<Rightarrow> buddy_allocator \<Rightarrow> (buddy_allocator \<times> vmm_rc) result" where
  "fill_bins 0 st sz ba = Fault"
| "fill_bins (Suc n) st sz ba =
     (if sz = 0 then Done (ba, VMM_OK)
      else let b = buddy_estimate_bin ba sz
           in if sz < BLOCK_SIZE b then Done (ba, VMM_OK)
              else let k = BLOCK_COUNT sz b
                   in case buddy_hk_alloc st b k ba of
                        (ba1, None) \<Rightarrow> Done (ba1, VMM_ENOMEM)
                      | (ba1, Some a) \<Rightarrow>
                          fill_bins n (add64 st (mul64 k (BLOCK_SIZE b))) (sub64 sz (mul64 k (BLOCK_SIZE b))) (buddy_bins_put a ba1))"

text \<open>
  \<open>hk\<close> is the number of house-keeping structures that fit into their memory.  The literal in \<^verbatim>\<open>1 << min_bin\<close> is a signed integer of
  32 bits, which matters for bin 31 only.
\<close>

definition buddy_allocator_init :: "nat \<Rightarrow> nat \<Rightarrow> nat \<Rightarrow> nat \<Rightarrow> nat \<Rightarrow> (buddy_allocator option \<times> vmm_rc) result" where
  "buddy_allocator_init hk st sz mn mx =
     (if mx < mn \<or> BUDDY_MAX_SUPPORTED_BIN \<le> mn \<or> BUDDY_MAX_SUPPORTED_BIN \<le> mx
         \<or> sz < (if mn = 31 then 2 ^ 64 - 2 ^ 31 else 2 ^ mn) \<or> off_block st mn \<noteq> 0
         \<or> add64 st sz \<le> st \<or> hk = 0
      then Done (None, VMM_EINVALID)
      else bind_result (fill_bins 3 st sz \<lparr>hk_total_count = hk, hk_free_count = hk, mem_start = st, mem_size = sz, min_bin = mn, max_bin = mx,
                                          alloc = [], bins = (\<lambda>_. [])\<rparr>)
             (\<lambda>(ba, rc). Done (Some ba, rc)))"

end
