(* ===== verification/BuddyProps.thy ===== *)
theory BuddyProps
  imports Buddy
begin

text \<open>
  Properties of the buddy allocator: the areas in the bins and in the tree of allocated areas always partition the memory, so
  nothing is lost and nothing is given out twice.

  What splitting, merging and regrouping of areas keep is proved once, in the locale \<open>area_measure\<close>, for every
  additive measure of areas; its instances are the cells of an area and its size.
\<close>

section \<open>Measures of areas\<close>

locale area_measure =
  fixes w :: "buddy_area \<Rightarrow> nat"
  assumes split: "w \<lparr>area_map = s, blk_count = j + k, bin_num = b\<rparr> = w \<lparr>area_map = s, blk_count = j, bin_num = b\<rparr>
      + w \<lparr>area_map = s + j * 2 ^ b, blk_count = k, bin_num = b\<rparr>"
    and regroup: "w \<lparr>area_map = s, blk_count = 2 * k, bin_num = b\<rparr> = w \<lparr>area_map = s, blk_count = k, bin_num = Suc b\<rparr>"
begin

lemma empty: "w \<lparr>area_map = s, blk_count = 0, bin_num = b\<rparr> = 0"
  using split [of s 0 0 b] by simp

lemma regroup_pow: "w \<lparr>area_map = s, blk_count = k * 2 ^ d, bin_num = b\<rparr> = w \<lparr>area_map = s, blk_count = k, bin_num = b + d\<rparr>"
proof (induction d arbitrary: b)
  case (Suc d)
  have e: "k * 2 ^ Suc d = 2 * (k * 2 ^ d)" by simp
  show ?case unfolding e regroup Suc.IH by simp
qed simp

end

definition cells :: "buddy_area \<Rightarrow> nat set" where
  "cells a = {area_map a ..< area_map a + blk_count a * 2 ^ bin_num a}"

definition area_bytes :: "buddy_area \<Rightarrow> nat" where
  "area_bytes a = blk_count a * 2 ^ bin_num a"

definition holds :: "nat \<Rightarrow> buddy_area \<Rightarrow> nat" where
  "holds x a = (if x \<in> cells a then 1 else 0)"

interpretation cell: area_measure "holds x" for x
proof
  fix s j k b
  show "holds x \<lparr>area_map = s, blk_count = j + k, bin_num = b\<rparr> = holds x \<lparr>area_map = s, blk_count = j, bin_num = b\<rparr>
      + holds x \<lparr>area_map = s + j * 2 ^ b, blk_count = k, bin_num = b\<rparr>"
    by (auto simp: holds_def cells_def add_mult_distrib)
  show "holds x \<lparr>area_map = s, blk_count = 2 * k, bin_num = b\<rparr> = holds x \<lparr>area_map = s, blk_count = k, bin_num = Suc b\<rparr>"
    by (simp add: holds_def cells_def mult.assoc mult.left_commute)
qed

interpretation bytes: area_measure area_bytes
  by unfold_locales (simp_all add: area_bytes_def add_mult_distrib)

section \<open>Well-formed states\<close>

definition conf :: "buddy_allocator \<Rightarrow> nat \<times> nat \<times> nat \<times> nat \<times> nat" where
  "conf ba = (hk_total_count ba, mem_start ba, mem_size ba, min_bin ba, max_bin ba)"

lemma confD:
  assumes "conf ba' = conf ba"
  shows "hk_total_count ba' = hk_total_count ba" "mem_start ba' = mem_start ba" "mem_size ba' = mem_size ba" "min_bin ba' = min_bin ba"
    "max_bin ba' = max_bin ba"
  using assms by (simp_all add: conf_def)

text \<open>An area that is not empty, lies in the memory and starts at a block of the smallest size.\<close>

definition area_ok :: "buddy_allocator \<Rightarrow> buddy_area \<Rightarrow> bool" where
  "area_ok ba a \<longleftrightarrow> 0 < blk_count a \<and> min_bin ba \<le> bin_num a \<and> bin_num a \<le> max_bin ba \<and> mem_start ba \<le> area_map a
     \<and> area_map a + blk_count a * 2 ^ bin_num a \<le> mem_start ba + mem_size ba \<and> 2 ^ min_bin ba dvd area_map a"

text \<open>In a bin the areas are also aligned to the block size of the bin, when the memory is aligned to the largest block.\<close>

definition bin_area :: "buddy_allocator \<Rightarrow> nat \<Rightarrow> buddy_area \<Rightarrow> bool" where
  "bin_area ba b a \<longleftrightarrow> area_ok ba a \<and> bin_num a = b \<and> (2 ^ max_bin ba dvd mem_start ba \<longrightarrow> 2 ^ b dvd area_map a)"

lemma area_ok_conf: "conf ba' = conf ba \<Longrightarrow> area_ok ba' = area_ok ba" "conf ba' = conf ba \<Longrightarrow> bin_area ba' = bin_area ba"
  using confD [of ba' ba] by (simp_all add: area_ok_def bin_area_def fun_eq_iff)

definition weight :: "(buddy_area \<Rightarrow> nat) \<Rightarrow> buddy_area list \<Rightarrow> nat" where
  "weight w xs = sum_list (map w xs)"

lemma weight_simps [simp]: "weight w [] = 0" "weight w (x # xs) = w x + weight w xs" "weight w (xs @ ys) = weight w xs + weight w ys"
  by (simp_all add: weight_def)

definition bins_weight :: "(buddy_area \<Rightarrow> nat) \<Rightarrow> buddy_allocator \<Rightarrow> nat" where
  "bins_weight w ba = (\<Sum>b < 32. weight w (bins ba b))"

text \<open>The state of the bins; \<open>h\<close> house-keeping structures are in use by areas that are in no list at the moment.\<close>

definition bins_wf :: "nat \<Rightarrow> buddy_allocator \<Rightarrow> bool" where
  "bins_wf h ba \<longleftrightarrow> min_bin ba \<le> max_bin ba \<and> max_bin ba < 32 \<and> mem_start ba + mem_size ba < 2 ^ 64 \<and> hk_total_count ba < 2 ^ 64
     \<and> (\<forall>b. \<forall>a \<in> set (bins ba b). bin_area ba b a)
     \<and> hk_free_count ba + length (alloc ba) + (\<Sum>b < 32. length (bins ba b)) + h = hk_total_count ba"

lemma bins_wfD:
  assumes "bins_wf h ba"
  shows "min_bin ba \<le> max_bin ba" "max_bin ba < 32" "mem_start ba + mem_size ba < 2 ^ 64" "hk_total_count ba < 2 ^ 64"
    "a \<in> set (bins ba b) \<Longrightarrow> bin_area ba b a"
    "hk_free_count ba + length (alloc ba) + (\<Sum>b < 32. length (bins ba b)) + h = hk_total_count ba"
  using assms by (simp_all add: bins_wf_def)

lemma sum_upd:
  fixes f :: "'a \<Rightarrow> nat"
  assumes "b < (32 :: nat)"
  shows "(\<Sum>i < 32. f ((g(b := l)) i)) + f (g b) = (\<Sum>i < 32. f (g i)) + f l"
proof -
  have "(\<Sum>i < 32. f ((g(b := l)) i)) = f l + (\<Sum>i \<in> {..<32} - {b}. f (g i))"
    using assms sum.remove [of "{..<32}" b "\<lambda>i. f ((g(b := l)) i)"] by simp
  moreover have "(\<Sum>i < 32. f (g i)) = f (g b) + (\<Sum>i \<in> {..<32} - {b}. f (g i))"
    using assms sum.remove [of "{..<32}" b "\<lambda>i. f (g i)"] by simp
  ultimately show ?thesis by simp
qed

lemma bin_le_sum: "b < 32 \<Longrightarrow> length (bins ba b) \<le> (\<Sum>b < 32. length (bins ba b))"
  using member_le_sum [of b "{..<32}" "\<lambda>b. length (bins ba b)"] by simp

lemma bins_wf_upd:
  assumes wf: "bins_wf h ba" and eqs: "conf ba' = conf ba" "alloc ba' = alloc ba" "bins ba' = (bins ba)(b := l)" and b: "b < 32"
    and l: "\<forall>a \<in> set l. bin_area ba b a" and hk: "hk_free_count ba' + length l + h' = hk_free_count ba + length (bins ba b) + h"
  shows "bins_wf h' ba'"
proof -
  have "(\<Sum>i < 32. length (bins ba' i)) + length (bins ba b) = (\<Sum>i < 32. length (bins ba i)) + length l"
    using sum_upd [OF b, of length "bins ba" l] eqs(3) by simp
  then show ?thesis using wf l hk confD [OF eqs(1)] eqs(2,3) unfolding bins_wf_def area_ok_conf(2) [OF eqs(1)] by auto
qed

lemma bins_weight_upd:
  "bins ba' = (bins ba)(b := l) \<Longrightarrow> b < 32 \<Longrightarrow> bins_weight w ba' + weight w (bins ba b) = bins_weight w ba + weight w l"
  unfolding bins_weight_def using sum_upd [of b "weight w" "bins ba" l] by simp

lemma area_end:
  assumes "area_ok ba a" and "mem_start ba + mem_size ba < 2 ^ 64"
  shows "AREA_SIZE a = blk_count a * 2 ^ bin_num a" "AREA_END a = area_map a + blk_count a * 2 ^ bin_num a" "blk_count a < 2 ^ 64"
proof -
  have b: "area_map a + blk_count a * 2 ^ bin_num a < 2 ^ 64" using assms by (simp add: area_ok_def)
  then show s: "AREA_SIZE a = blk_count a * 2 ^ bin_num a" by (simp add: AREA_SIZE_def BLOCK_SIZE_def mul64_eq)
  show "AREA_END a = area_map a + blk_count a * 2 ^ bin_num a" unfolding AREA_END_def s using b by (rule add64_eq)
  have "blk_count a \<le> blk_count a * 2 ^ bin_num a" by simp
  then show "blk_count a < 2 ^ 64" using b by linarith
qed

lemma area_eta: "\<lparr>area_map = area_map a, blk_count = blk_count a, bin_num = bin_num a\<rparr> = a"
  by simp

section \<open>Putting areas into bins\<close>

lemma join_area:
  assumes a: "bin_area ba b a" and c: "bin_area ba b c" and e: "AREA_END a = AREA_START c" and m: "mem_start ba + mem_size ba < 2 ^ 64"
  shows "bin_area ba b (a\<lparr>blk_count := blk_count a + blk_count c\<rparr>)" "blk_count a + blk_count c < 2 ^ 64"
    "area_map c = area_map a + blk_count a * 2 ^ b"
proof -
  have ok: "area_ok ba a" "area_ok ba c" "bin_num a = b" "bin_num c = b" using a c by (simp_all add: bin_area_def)
  show s: "area_map c = area_map a + blk_count a * 2 ^ b" using e area_end(2) [OF ok(1) m] ok(3) by (simp add: AREA_START_def)
  have "area_map a + (blk_count a + blk_count c) * 2 ^ b \<le> mem_start ba + mem_size ba" using ok(2,4) s by (simp add: area_ok_def add_mult_distrib)
  then show j: "bin_area ba b (a\<lparr>blk_count := blk_count a + blk_count c\<rparr>)" using a ok(3) by (simp add: bin_area_def area_ok_def)
  show "blk_count a + blk_count c < 2 ^ 64" using area_end(3) [OF _ m, of "a\<lparr>blk_count := blk_count a + blk_count c\<rparr>"] j by (simp add: bin_area_def)
qed

lemma join_left: "bin_num (a :: buddy_area) = bin_num (c :: buddy_area) \<Longrightarrow> c\<lparr>area_map := area_map a, blk_count := k\<rparr> = a\<lparr>blk_count := k\<rparr>"
  by (cases a, cases c) simp

context area_measure
begin

lemma join:
  assumes "bin_area ba b a" and "bin_area ba b c" and "AREA_END a = AREA_START c" and "mem_start ba + mem_size ba < 2 ^ 64"
  shows "w (a\<lparr>blk_count := blk_count a + blk_count c\<rparr>) = w a + w c"
proof -
  have "bin_num a = b" "bin_num c = b" using assms(1,2) by (simp_all add: bin_area_def)
  moreover have "area_map c = area_map a + blk_count a * 2 ^ b" by (rule join_area(3) [OF assms])
  ultimately show ?thesis using split [of "area_map a" "blk_count a" "blk_count c" b] by (cases a, cases c) simp
qed

lemma put_walk_ok:
  assumes "put_walk pre bs a = ((pre', m, suf), n)" and "\<forall>c \<in> set pre \<union> set bs. bin_area ba b c" and "bin_area ba b a"
    and mem: "mem_start ba + mem_size ba < 2 ^ 64"
  shows "(\<forall>c \<in> set pre' \<union> {m} \<union> set suf. bin_area ba b c) \<and> weight w pre' + w m + weight w suf = weight w pre + weight w bs + w a
    \<and> length pre' + length suf + n = length pre + length bs"
  using assms(1-3)
proof (induction pre bs a rule: put_walk.induct)
  case (2 pre c bs a)
  have ac: "bin_area ba b a" "bin_area ba b c" "bin_num a = bin_num c" "\<forall>d \<in> set pre \<union> set bs. bin_area ba b d"
    using "2.prems" by (simp_all add: bin_area_def)
  consider (left) "AREA_END a = AREA_START c" | (right) "AREA_END a \<noteq> AREA_START c" "AREA_END c = AREA_START a"
    | (before) "AREA_END a \<noteq> AREA_START c" "AREA_END c \<noteq> AREA_START a" "AREA_END a < AREA_START c"
    | (later) "AREA_END a \<noteq> AREA_START c" "AREA_END c \<noteq> AREA_START a" "\<not> AREA_END a < AREA_START c" by blast
  then show ?case
  proof cases
    case left
    let ?j = "a\<lparr>blk_count := blk_count a + blk_count c\<rparr>"
    note j = join_area [OF ac(1,2) left mem]
    have j': "c\<lparr>area_map := area_map a, blk_count := add64 (blk_count c) (blk_count a)\<rparr> = ?j"
      using j(2) by (simp add: join_left [OF ac(3)] add64_eq add.commute)
    have w: "w ?j = w a + w c" by (rule join [OF ac(1,2) left mem])
    show ?thesis
    proof (cases "pre \<noteq> [] \<and> AREA_END (last pre) = AREA_START ?j")
      case True
      then have p: "pre = butlast pre @ [last pre]" "bin_area ba b (last pre)" using ac(4) by simp_all
      note k = join_area [OF p(2) j(1) conjunct2 [OF True] mem] join [OF p(2) j(1) conjunct2 [OF True] mem]
      have r: "pre' = butlast pre" "suf = bs" "n = 2" "m = (last pre)\<lparr>blk_count := blk_count (last pre) + blk_count ?j\<rparr>"
        using "2.prems"(1) left True k(2) unfolding put_walk.simps j' Let_def by (auto simp: add64_eq)
      have "weight w pre = weight w (butlast pre) + w (last pre)" by (subst p(1)) (simp only: weight_simps)
      moreover have "length pre = Suc (length (butlast pre))" by (subst p(1)) simp
      moreover have "\<forall>d \<in> set (butlast pre). bin_area ba b d" using ac(4) by (auto dest: in_set_butlastD)
      ultimately show ?thesis using k(1,4) w ac(4) unfolding r by auto
    next
      case False
      then have "pre' = pre" "m = ?j" "suf = bs" "n = 1" using "2.prems"(1) left unfolding put_walk.simps j' Let_def by auto
      then show ?thesis using w j(1) ac(4) by auto
    qed
  next
    case right
    let ?j = "c\<lparr>blk_count := blk_count c + blk_count a\<rparr>"
    note j = join_area [OF ac(2,1) right(2) mem]
    have j': "c\<lparr>blk_count := add64 (blk_count c) (blk_count a)\<rparr> = ?j" using j(2) by (simp add: add64_eq)
    have w: "w ?j = w c + w a" by (rule join [OF ac(2,1) right(2) mem])
    show ?thesis
    proof (cases "\<exists>d ds. bs = d # ds \<and> AREA_END ?j = AREA_START d")
      case True
      then obtain d ds where d: "bs = d # ds" "AREA_END ?j = AREA_START d" by blast
      have dd: "bin_area ba b d" using ac(4) d(1) by simp
      note k = join_area [OF j(1) dd d(2) mem] join [OF j(1) dd d(2) mem]
      have "pre' = pre" "suf = ds" "n = 2" "m = ?j\<lparr>blk_count := blk_count ?j + blk_count d\<rparr>"
        using "2.prems"(1) right d k(2) unfolding put_walk.simps j' Let_def by (auto simp: add64_eq)
      then show ?thesis using k(1,4) w ac(4) d(1) by auto
    next
      case False
      then have "pre' = pre" "m = ?j" "suf = bs" "n = 1" using "2.prems"(1) right unfolding put_walk.simps j' Let_def by (auto split: list.splits)
      then show ?thesis using w j(1) ac(4) by auto
    qed
  next
    case before
    then show ?thesis using "2.prems"(1) ac by auto
  next
    case later
    then show ?thesis using "2.IH" [OF later] "2.prems"(1) ac by auto
  qed
qed auto

text \<open>
  The result of an operation that puts an area of weight \<open>wa\<close> into bin \<open>b\<close> of \<open>ba\<close>: the bins are in order again, and what is left
  over, if anything, is an area for the next bin.
\<close>

definition put_result :: "buddy_allocator \<Rightarrow> nat \<Rightarrow> nat \<Rightarrow> nat \<Rightarrow> buddy_allocator \<times> buddy_area option \<Rightarrow> bool" where
  "put_result ba b wa h res \<longleftrightarrow> (case res of (ba', r) \<Rightarrow>
     conf ba' = conf ba \<and> alloc ba' = alloc ba
     \<and> (case r of None \<Rightarrow> bins_wf h ba' \<and> bins_weight w ba' = bins_weight w ba + wa
        | Some x \<Rightarrow> bins_wf (Suc h) ba' \<and> bins_weight w ba' + w x = bins_weight w ba + wa \<and> b < max_bin ba \<and> bin_area ba (Suc b) x))"

lemma put_resultI:
  assumes wf: "bins_wf (Suc h) ba" and b: "b < 32" and l: "\<forall>a \<in> set l. bin_area ba b a"
    and e: "conf ba' = conf ba" "alloc ba' = alloc ba" "bins ba' = (bins ba)(b := l)"
    and wt: "weight w l + (case r of None \<Rightarrow> 0 | Some x \<Rightarrow> w x) = weight w (bins ba b) + wa"
    and f: "hk_free_count ba' + length l + (case r of None \<Rightarrow> 0 | Some x \<Rightarrow> 1) = hk_free_count ba + length (bins ba b) + 1"
    and r: "\<And>x. r = Some x \<Longrightarrow> b < max_bin ba \<and> bin_area ba (Suc b) x"
  shows "put_result ba b wa h (ba', r)"
proof -
  have "bins_wf (case r of None \<Rightarrow> h | Some _ \<Rightarrow> Suc h) ba'" using f by (intro bins_wf_upd [OF wf e b l]) (simp split: option.splits)
  then show ?thesis using bins_weight_upd [OF e(3) b, of w] wt e(1,2) r by (auto simp: put_result_def split: option.splits)
qed

lemma merge_pairs_ok:
  assumes wf: "bins_wf (Suc h) ba" and b: "b < max_bin ba" and l: "\<forall>a \<in> set (pre @ m # suf). bin_area ba b a"
    and wt: "weight w (pre @ m # suf) = weight w (bins ba b) + wa" and f: "f + length (pre @ m # suf) = hk_free_count ba + length (bins ba b) + 1"
  shows "put_result ba b wa h (merge_pairs b pre m suf (ba\<lparr>hk_free_count := f\<rparr>))"
proof (cases "off_block (AREA_START m) (b + 1) = 0 \<and> 2 \<le> blk_count m \<and> f \<noteq> 0")
  case True
  note D = bins_wfD [OF wf]
  have b32: "b < 32" using b D(2) by simp
  let ?q = "blk_count m div 2" let ?r = "\<lparr>area_map = area_map m, blk_count = ?q, bin_num = b + 1\<rparr>"
  have m: "bin_area ba b m" using l by simp
  then have mb: "bin_num m = b" "area_ok ba m" by (simp_all add: bin_area_def)
  have al: "2 ^ Suc b dvd area_map m" using True by (simp add: off_block_def BLOCK_SIZE_def AREA_START_def mod_eq_0_iff_dvd)
  have sz: "2 * ?q + blk_count m mod 2 = blk_count m" "?q * 2 ^ (b + 1) + blk_count m mod 2 * 2 ^ b = blk_count m * 2 ^ b"
    by (simp, metis (no_types, lifting) add_mult_distrib div_mult_mod_eq mult.assoc power_add power_one_right mult.commute)
  have end_m: "area_map m + blk_count m * 2 ^ b \<le> mem_start ba + mem_size ba" using mb by (simp add: area_ok_def)
  have rok: "bin_area ba (Suc b) ?r" "area_ok ba ?r"
    using mb al b True end_m sz(2) by (simp_all add: bin_area_def area_ok_def)
  have rs: "AREA_SIZE ?r = ?q * 2 ^ (b + 1)" using area_end(1) [OF rok(2) D(3)] by simp
  let ?m1 = "m\<lparr>area_map := area_map m + ?q * 2 ^ (b + 1), blk_count := blk_count m mod 2\<rparr>"
  have "area_map m + ?q * 2 ^ (b + 1) < 2 ^ 64" using end_m sz(2) D(3) by linarith
  then have m1: "add64 (area_map m) (AREA_SIZE ?r) = area_map m + ?q * 2 ^ (b + 1)" unfolding rs by (rule add64_eq)
  have "?q * 2 \<le> blk_count m" "blk_count m < 2 ^ 64" using area_end(3) [OF mb(2) D(3)] by simp_all
  then have m2: "sub64 (blk_count m) (mul64 ?q 2) = blk_count m mod 2" by (simp add: sub64_eq mul64_eq minus_div_mult_eq_mod)
  have "w m = w \<lparr>area_map = area_map m, blk_count = 2 * ?q + blk_count m mod 2, bin_num = b\<rparr>" unfolding sz(1) using mb(1) by (cases m) simp
  also have "\<dots> = w ?r + w \<lparr>area_map = area_map m + ?q * 2 ^ (b + 1), blk_count = blk_count m mod 2, bin_num = b\<rparr>"
    unfolding split regroup by (simp add: mult.assoc mult.left_commute)
  also have "\<dots> = w ?r + w ?m1" using mb(1) by (cases m) simp
  finally have ww: "w m = w ?r + w ?m1" .
  let ?ba1 = "ba\<lparr>hk_free_count := f - 1\<rparr>"
  have "f < 2 ^ 64" using f D(4,6) bin_le_sum [OF b32, of ba] by simp
  then have hk: "add64 (f - Suc 0) (Suc 0) = f" using True by (simp add: add64_eq)
  have run: "merge_pairs b pre m suf (ba\<lparr>hk_free_count := f\<rparr>) = (if blk_count m mod 2 = 0 then (buddy_hk_free (set_bin b (pre @ suf) ?ba1), Some ?r)
      else (set_bin b (pre @ ?m1 # suf) ?ba1, Some ?r))"
    unfolding merge_pairs_def buddy_hk_alloc_def using True m1 m2 by (simp add: Let_def)
  show ?thesis
  proof (cases "blk_count m mod 2 = 0")
    case even: True
    then have "w ?m1 = 0" using empty [of "area_map m + ?q * 2 ^ (b + 1)" b] mb(1) by (cases m) simp
    then show ?thesis using wt l f ww hk rok(1) b True even unfolding run
      by (auto intro!: put_resultI [OF wf b32, where l = "pre @ suf"] simp: set_bin_def buddy_hk_free_def conf_def)
  next
    case odd: False
    have dv: "2 ^ i dvd ?q * 2 ^ (b + 1)" if "i \<le> b + 1" for i using that by (intro dvd_mult le_imp_power_dvd)
    have "area_map m + ?q * 2 ^ (b + 1) + blk_count m mod 2 * 2 ^ b \<le> mem_start ba + mem_size ba" using end_m sz(2) by linarith
    then have "bin_area ba b ?m1" using odd m mb dv [of "min_bin ba"] dv [of b] unfolding bin_area_def area_ok_def
      by (auto intro!: dvd_add simp del: power_Suc)
    then show ?thesis using wt l f ww rok(1) b True odd unfolding run
      by (auto intro!: put_resultI [OF wf b32, where l = "pre @ ?m1 # suf"] simp: set_bin_def conf_def)
  qed
next
  case False
  have "merge_pairs b pre m suf (ba\<lparr>hk_free_count := f\<rparr>) = (set_bin b (pre @ m # suf) (ba\<lparr>hk_free_count := f\<rparr>), None)"
    using False by (auto simp: merge_pairs_def buddy_hk_alloc_def)
  then show ?thesis using wt f l b bins_wfD(2) [OF wf]
    by (auto intro!: put_resultI [OF wf, where l = "pre @ m # suf"] simp: set_bin_def conf_def)
qed

text \<open>The first \<open>j\<close> blocks of an area and the rest.\<close>

lemma cut_area:
  assumes a: "bin_area ba b a" and j: "0 < j" "j < blk_count a"
  shows "bin_area ba b \<lparr>area_map = area_map a, blk_count = j, bin_num = b\<rparr>"
    "bin_area ba b (a\<lparr>area_map := area_map a + j * 2 ^ b, blk_count := blk_count a - j\<rparr>)"
    "w a = w \<lparr>area_map = area_map a, blk_count = j, bin_num = b\<rparr> + w (a\<lparr>area_map := area_map a + j * 2 ^ b, blk_count := blk_count a - j\<rparr>)"
    "area_map a + j * 2 ^ b \<le> mem_start ba + mem_size ba"
proof -
  have ok: "area_ok ba a" "bin_num a = b" using a by (simp_all add: bin_area_def)
  have e: "j * 2 ^ b + (blk_count a - j) * 2 ^ b = blk_count a * 2 ^ b" using j by (simp flip: add_mult_distrib)
  have mb: "2 ^ min_bin ba dvd (j * 2 ^ b)" using ok by (intro dvd_mult) (simp add: area_ok_def le_imp_power_dvd)
  have end_a: "area_map a + blk_count a * 2 ^ b \<le> mem_start ba + mem_size ba" using ok by (simp add: area_ok_def)
  show e1: "area_map a + j * 2 ^ b \<le> mem_start ba + mem_size ba" using end_a e by linarith
  show "bin_area ba b \<lparr>area_map = area_map a, blk_count = j, bin_num = b\<rparr>" using a ok j e1 by (simp add: bin_area_def area_ok_def)
  have "area_map a + j * 2 ^ b + (blk_count a - j) * 2 ^ b \<le> mem_start ba + mem_size ba" using end_a e by linarith
  then show "bin_area ba b (a\<lparr>area_map := area_map a + j * 2 ^ b, blk_count := blk_count a - j\<rparr>)"
    using a ok j mb by (auto simp: bin_area_def area_ok_def)
  show "w a = w \<lparr>area_map = area_map a, blk_count = j, bin_num = b\<rparr> + w (a\<lparr>area_map := area_map a + j * 2 ^ b, blk_count := blk_count a - j\<rparr>)"
    using split [of "area_map a" j "blk_count a - j" b] ok(2) j(2) by (cases a) simp
qed

lemma merge_blocks_ok:
  assumes wf: "bins_wf (Suc h) ba" and b: "b < max_bin ba" and l: "\<forall>a \<in> set (pre @ m # suf). bin_area ba b a"
    and wt: "weight w (pre @ m # suf) = weight w (bins ba b) + wa" and f: "f + length (pre @ m # suf) = hk_free_count ba + length (bins ba b) + 1"
  shows "put_result ba b wa h (merge_blocks b pre m suf (ba\<lparr>hk_free_count := f\<rparr>))"
proof (cases "off_block (AREA_START m) (b + 1) \<noteq> 0 \<and> 3 \<le> blk_count m")
  case True
  note D = bins_wfD [OF wf]
  have m: "bin_area ba b m" using l by simp
  show ?thesis
  proof (cases "f = 0")
    case f0: True
    then have "merge_blocks b pre m suf (ba\<lparr>hk_free_count := f\<rparr>) = (set_bin b (pre @ m # suf) (ba\<lparr>hk_free_count := f\<rparr>), None)"
      using True by (simp add: merge_blocks_def buddy_hk_alloc_def)
    then show ?thesis using wt f l b D(2) by (auto intro!: put_resultI [OF wf, where l = "pre @ m # suf"] simp: set_bin_def conf_def)
  next
    case False
    let ?a = "\<lparr>area_map = area_map m, blk_count = 1, bin_num = b\<rparr>"
    let ?m = "m\<lparr>area_map := area_map m + 1 * 2 ^ b, blk_count := blk_count m - 1\<rparr>"
    note c = cut_area [OF m, of 1]
    have "add64 (area_map m) (BLOCK_SIZE b) = area_map m + 1 * 2 ^ b" using c(4) True D(3) by (simp add: BLOCK_SIZE_def add64_eq)
    then have run: "merge_blocks b pre m suf (ba\<lparr>hk_free_count := f\<rparr>) = merge_pairs b (pre @ [?a]) ?m suf (ba\<lparr>hk_free_count := f - 1\<rparr>)"
      using True False by (simp add: merge_blocks_def buddy_hk_alloc_def)
    show ?thesis unfolding run
      by (rule merge_pairs_ok [OF wf b]) (use c(1-3) l wt f True False in auto)
  qed
next
  case False
  then have "merge_blocks b pre m suf (ba\<lparr>hk_free_count := f\<rparr>) = merge_pairs b pre m suf (ba\<lparr>hk_free_count := f\<rparr>)" by (auto simp: merge_blocks_def)
  then show ?thesis using merge_pairs_ok [OF assms] by simp
qed

lemma hk_free_n_eq: "hk_free_count ba + n < 2 ^ 64 \<Longrightarrow> hk_free_n n ba = ba\<lparr>hk_free_count := hk_free_count ba + n\<rparr>"
proof (induction n)
  case (Suc n)
  then show ?case by (simp add: hk_free_n_def buddy_hk_free_def add64_eq)
qed (simp add: hk_free_n_def)

lemma put_step_ok:
  assumes wf: "bins_wf (Suc h) ba" and a: "bin_area ba b a"
  shows "put_result ba b (w a) h (bins_put_step a ba)"
proof -
  note D = bins_wfD [OF wf]
  have ab: "bin_num a = b" "min_bin ba \<le> b" "b \<le> max_bin ba" using a by (auto simp: bin_area_def area_ok_def)
  obtain pre m suf n where p: "put_walk [] (bins ba b) a = ((pre, m, suf), n)" by (metis prod_cases4 surj_pair)
  note ok = put_walk_ok [OF p _ a D(3)]
  have l: "\<forall>c \<in> set (pre @ m # suf). bin_area ba b c" "weight w (pre @ m # suf) = weight w (bins ba b) + w a"
    "length pre + length suf + n = length (bins ba b)" using ok D(5) by auto
  have n: "hk_free_count ba + n < 2 ^ 64" using D(2,4,6) l(3) ab(3) bin_le_sum [of b ba] by simp
  let ?f = "hk_free_count ba + n"
  have f: "?f + length (pre @ m # suf) = hk_free_count ba + length (bins ba b) + 1" using l(3) by simp
  show ?thesis
  proof (cases "b = max_bin ba")
    case True
    then have "bins_put_step a ba = (set_bin b (pre @ m # suf) (ba\<lparr>hk_free_count := ?f\<rparr>), None)"
      using ab p by (simp add: bins_put_step_def hk_free_n_eq [OF n])
    then show ?thesis using l f D(2) ab(3) by (auto intro!: put_resultI [OF wf, where l = "pre @ m # suf"] simp: set_bin_def conf_def)
  next
    case False
    then have "bins_put_step a ba = merge_blocks b pre m suf (ba\<lparr>hk_free_count := ?f\<rparr>)"
      using ab p by (simp add: bins_put_step_def hk_free_n_eq [OF n])
    then show ?thesis using merge_blocks_ok [OF wf _ l(1,2) f] False ab(3) by simp
  qed
qed

lemma bins_put_ok:
  assumes "bins_wf (Suc h) ba" and "bin_area ba (bin_num a) a"
  shows "bins_wf h (buddy_bins_put a ba)" "conf (buddy_bins_put a ba) = conf ba" "alloc (buddy_bins_put a ba) = alloc ba"
    "bins_weight w (buddy_bins_put a ba) = bins_weight w ba + w a"
proof -
  have "bins_wf h (buddy_bins_put a ba) \<and> conf (buddy_bins_put a ba) = conf ba \<and> alloc (buddy_bins_put a ba) = alloc ba
    \<and> bins_weight w (buddy_bins_put a ba) = bins_weight w ba + w a"
    using assms
  proof (induction a ba rule: buddy_bins_put.induct)
    case (1 a ba)
    obtain ba1 r where s: "bins_put_step a ba = (ba1, r)" by fastforce
    have p: "put_result ba (bin_num a) (w a) h (ba1, r)" using put_step_ok [OF "1.prems"] s by simp
    show ?case
    proof (cases r)
      case None
      then show ?thesis using p s by (subst (1 2 3 4) buddy_bins_put.simps) (simp add: put_result_def)
    next
      case (Some x)
      have x: "bins_wf (Suc h) ba1" "conf ba1 = conf ba" "alloc ba1 = alloc ba" "bins_weight w ba1 + w x = bins_weight w ba + w a"
        "bin_area ba1 (bin_num x) x"
        using p Some area_ok_conf(2) [of ba1 ba] by (auto simp: put_result_def bin_area_def)
      have "buddy_bins_put a ba = buddy_bins_put x ba1" using s Some by (subst buddy_bins_put.simps) simp
      then show ?thesis using "1.IH" [OF s [symmetric] Some x(1,5)] x(2-4) by simp
    qed
  qed
  then show "bins_wf h (buddy_bins_put a ba)" "conf (buddy_bins_put a ba) = conf ba" "alloc (buddy_bins_put a ba) = alloc ba"
    "bins_weight w (buddy_bins_put a ba) = bins_weight w ba + w a" by blast+
qed

end

section \<open>Taking areas from bins\<close>

lemma split_find_Some: "split_find P xs = Some (pre, x, suf) \<Longrightarrow> xs = pre @ x # suf \<and> P x"
  by (induction xs arbitrary: pre) (auto split: if_splits)

lemma hk_alloc_cases:
  assumes "bins_wf h ba" and "buddy_hk_alloc am b k ba = (ba1, r)"
  shows "r = None \<and> ba1 = ba \<or> r = Some \<lparr>area_map = am, blk_count = k, bin_num = b\<rparr> \<and> bins_wf (Suc h) ba1 \<and> conf ba1 = conf ba
    \<and> alloc ba1 = alloc ba \<and> bins ba1 = bins ba"
proof (cases "hk_free_count ba = 0")
  case False
  then have ba1: "r = Some \<lparr>area_map = am, blk_count = k, bin_num = b\<rparr>" "ba1 = ba\<lparr>hk_free_count := hk_free_count ba - 1\<rparr>"
    using assms(2) by (auto simp: buddy_hk_alloc_def)
  then have c: "conf ba1 = conf ba" by (simp add: conf_def)
  have "bins_wf (Suc h) ba1" using assms(1) False ba1(2) confD [OF c] unfolding bins_wf_def area_ok_conf(2) [OF c] by auto
  then show ?thesis using ba1 c by simp
qed (use assms(2) in \<open>simp add: buddy_hk_alloc_def\<close>)

lemma hk_free_ok:
  assumes "bins_wf (Suc h) ba"
  shows "bins_wf h (buddy_hk_free ba)" "conf (buddy_hk_free ba) = conf ba" "bins (buddy_hk_free ba) = bins ba" "alloc (buddy_hk_free ba) = alloc ba"
proof -
  have "hk_free_count ba + 1 < 2 ^ 64" using bins_wfD(4,6) [OF assms] by linarith
  then have e: "hk_free_count (buddy_hk_free ba) = hk_free_count ba + 1" by (simp add: buddy_hk_free_def add64_eq)
  show c: "conf (buddy_hk_free ba) = conf ba" "bins (buddy_hk_free ba) = bins ba" "alloc (buddy_hk_free ba) = alloc ba"
    by (simp_all add: conf_def buddy_hk_free_def)
  show "bins_wf h (buddy_hk_free ba)" using assms e confD [OF c(1)] c(2,3) unfolding bins_wf_def area_ok_conf(2) [OF c(1)] by auto
qed

context area_measure
begin

text \<open>The result of an operation that takes an area of bin \<open>b\<close> out of the bins.\<close>

definition got :: "buddy_allocator \<Rightarrow> nat \<Rightarrow> nat \<Rightarrow> buddy_allocator \<times> buddy_area option \<Rightarrow> bool" where
  "got ba b h res \<longleftrightarrow> (case res of (ba', r) \<Rightarrow> conf ba' = conf ba \<and> alloc ba' = alloc ba
     \<and> (case r of None \<Rightarrow> bins_wf h ba' \<and> bins_weight w ba' = bins_weight w ba
        | Some x \<Rightarrow> bins_wf (Suc h) ba' \<and> bins_weight w ba' + w x = bins_weight w ba \<and> bin_area ba b x))"

text \<open>An area that was in front of \<open>suf\<close> is replaced by \<open>l\<close>, and \<open>x\<close> is taken out.\<close>

lemma take_out:
  assumes wf: "bins_wf h ba" and b: "b < 32" and old: "bins ba b = pre @ a # suf" and new: "\<forall>c \<in> set l. bin_area ba b c"
    and e: "conf ba' = conf ba" "alloc ba' = alloc ba" "bins ba' = (bins ba)(b := pre @ l @ suf)" "hk_free_count ba' + length l + h' = hk_free_count ba + 1 + h"
    and wt: "w a = weight w l + w x"
  shows "bins_wf h' ba'" "bins_weight w ba' + w x = bins_weight w ba"
proof -
  have "\<forall>c \<in> set (pre @ l @ suf). bin_area ba b c" using bins_wfD(5) [OF wf, of _ b] old new by auto
  then show "bins_wf h' ba'" using e old by (intro bins_wf_upd [OF wf e(1-3) b]) simp_all
  show "bins_weight w ba' + w x = bins_weight w ba" using bins_weight_upd [OF e(3) b, of w] old wt by simp
qed

lemma bins_get_found:
  assumes wf: "bins_wf h ba" and k: "0 < k" "b \<le> max_bin ba" "min_bin ba \<le> b" and t: "split_find (\<lambda>a. k \<le> blk_count a) (bins ba b) = Some (pre, a, suf)"
    and g: "buddy_bins_get b k ba = (ba', r)"
  shows "got ba b h (ba', r) \<and> (\<forall>x. r = Some x \<longrightarrow> k \<le> blk_count x)"
proof -
  note D = bins_wfD [OF wf] and sf = split_find_Some [OF t]
  have b32: "b < 32" using D(2) k(2) by simp
  have a: "bin_area ba b a" using D(5) sf by auto
  then have ok: "area_ok ba a" "bin_num a = b" by (simp_all add: bin_area_def)
  obtain ba1 q where h: "buddy_hk_alloc (area_map a) b k ba = (ba1, q)" by fastforce
  let ?x = "\<lparr>area_map = area_map a, blk_count = k, bin_num = b\<rparr>"
  let ?a1 = "a\<lparr>area_map := area_map a + k * 2 ^ b, blk_count := blk_count a - k\<rparr>"
  show ?thesis
  proof (cases q)
    case None
    then have "ba' = ba" "r = None" using g k t h hk_alloc_cases [OF wf h] by (auto simp: buddy_bins_get.simps [of b k ba])
    then show ?thesis using wf by (simp add: got_def)
  next
    case (Some y)
    then have h1: "y = ?x" "bins_wf (Suc h) ba1" "conf ba1 = conf ba" "alloc ba1 = alloc ba" "bins ba1 = bins ba"
      using hk_alloc_cases [OF wf h] by auto
    have hkf: "hk_free_count ba1 = hk_free_count ba - 1" "hk_free_count ba \<noteq> 0" using h Some by (auto simp: buddy_hk_alloc_def split: if_splits)
    have "k * 2 ^ b \<le> blk_count a * 2 ^ b" "area_map a + blk_count a * 2 ^ b \<le> mem_start ba + mem_size ba" using sf ok by (simp_all add: area_ok_def)
    then have "area_map a + k * 2 ^ b < 2 ^ 64" using D(3) by linarith
    then have e: "add64 (area_map a) (mul64 k (BLOCK_SIZE b)) = area_map a + k * 2 ^ b" by (simp add: mul64_eq add64_eq BLOCK_SIZE_def)
    have run: "buddy_bins_get b k ba = (if blk_count a = k then (buddy_hk_free (set_bin b (pre @ suf) ba1), Some ?x)
        else (set_bin b (pre @ ?a1 # suf) ba1, Some ?x))"
      using k t h Some h1(1) e sf by (simp add: buddy_bins_get.simps [of b k ba] Let_def)
    have sb: "conf (set_bin b l ba1) = conf ba" "alloc (set_bin b l ba1) = alloc ba" "bins (set_bin b l ba1) = (bins ba)(b := l)"
      "hk_free_count (set_bin b l ba1) = hk_free_count ba - 1" for l using h1(3-5) hkf by (simp_all add: set_bin_def conf_def)
    show ?thesis
    proof (cases "blk_count a = k")
      case True
      then have xa: "?x = a" using ok(2) by (cases a) simp
      let ?ba = "set_bin b (pre @ suf) ba1"
      have "bins_wf (Suc (Suc h)) ?ba" "bins_weight w ?ba + w ?x = bins_weight w ba"
        using take_out [OF wf b32 conjunct1 [OF sf], where l = "[]" and ba' = ?ba and x = ?x and h' = "Suc (Suc h)"] sb hkf(2) xa by auto
      note w1 = hk_free_ok [OF this(1)] this(2)
      have "ba' = buddy_hk_free ?ba" "r = Some ?x" using run True g by auto
      then show ?thesis using w1 sb(1,2) a xa True by (simp add: got_def bins_weight_def)
    next
      case neq: False
      then have lt: "0 < k" "k < blk_count a" using k sf by auto
      note c = cut_area [OF a lt]
      let ?ba = "set_bin b (pre @ ?a1 # suf) ba1"
      have "bins_wf (Suc h) ?ba" "bins_weight w ?ba + w ?x = bins_weight w ba"
        using take_out [OF wf b32 conjunct1 [OF sf], where l = "[?a1]" and ba' = ?ba and x = ?x and h' = "Suc h"] sb hkf(2) c(2,3) by auto
      moreover have "ba' = ?ba" "r = Some ?x" using run neq g by auto
      ultimately show ?thesis using sb(1,2) c(1) by (simp add: got_def)
    qed
  qed
qed

lemma area_rec:
  "x\<lparr>bin_num := b, blk_count := k\<rparr> = \<lparr>area_map = area_map x, blk_count = k, bin_num = b\<rparr>" for x :: buddy_area
  by (cases x) simp

text \<open>An area of bin \<open>b + 1\<close> as one of bin \<open>b\<close> with twice as many blocks.\<close>

lemma halve_area:
  assumes "bin_area ba (Suc b) x" and "min_bin ba \<le> b" and "mem_start ba + mem_size ba < 2 ^ 64"
  shows "mul64 (blk_count x) 2 = 2 * blk_count x \<and> bin_num x - 1 = b"
    "bin_area ba b \<lparr>area_map = area_map x, blk_count = 2 * blk_count x, bin_num = b\<rparr>"
    "w \<lparr>area_map = area_map x, blk_count = 2 * blk_count x, bin_num = b\<rparr> = w x"
proof -
  have ok: "area_ok ba x" "bin_num x = Suc b" using assms(1) by (simp_all add: bin_area_def)
  have "blk_count x * 2 \<le> blk_count x * 2 ^ Suc b" by simp
  then have "blk_count x * 2 < 2 ^ 64" using ok assms(3) unfolding area_ok_def by (metis (no_types, lifting) add_leD2 le_less_trans)
  then show "mul64 (blk_count x) 2 = 2 * blk_count x \<and> bin_num x - 1 = b" using ok(2) by (simp add: mul64_eq)
  show "bin_area ba b \<lparr>area_map = area_map x, blk_count = 2 * blk_count x, bin_num = b\<rparr>"
    using assms(1,2) ok by (auto simp: bin_area_def area_ok_def mult.assoc mult.left_commute dest: dvd_mult_right)
  show "w \<lparr>area_map = area_map x, blk_count = 2 * blk_count x, bin_num = b\<rparr> = w x" unfolding regroup using ok(2) by (cases x) simp
qed

lemma bins_get_ok: "buddy_bins_get b k ba = (ba', r) \<Longrightarrow> bins_wf h ba \<Longrightarrow> k < 2 ^ 64 \<Longrightarrow>
    got ba b h (ba', r) \<and> (\<forall>x. r = Some x \<longrightarrow> k \<le> blk_count x)"
proof (induction b k ba arbitrary: ba' r rule: buddy_bins_get.induct)
  case (1 b k ba)
  note D = bins_wfD [OF "1.prems"(2)]
  consider (out) "k = 0 \<or> b < min_bin ba \<or> max_bin ba < b" | (none) "\<not> (k = 0 \<or> b < min_bin ba \<or> max_bin ba < b)" "split_find (\<lambda>a. k \<le> blk_count a) (bins ba b) = None"
    | (found) pre a suf where "0 < k" "b \<le> max_bin ba" "min_bin ba \<le> b" "split_find (\<lambda>a. k \<le> blk_count a) (bins ba b) = Some (pre, a, suf)"
    by (metis not_less neq0_conv option.exhaust prod_cases3)
  then show ?case
  proof cases
    case out
    then show ?thesis using "1.prems" by (simp add: buddy_bins_get.simps [of b k ba] got_def)
  next
    case found
    then show ?thesis using bins_get_found "1.prems" by blast
  next
    case none
    obtain ba1 q where g: "buddy_bins_get (b + 1) (add64 k 1 div 2) ba = (ba1, q)" by fastforce
    have kk: "add64 k 1 div 2 < 2 ^ 64" by (simp add: add64_def less_mult_imp_div_less)
    have ih: "got ba (Suc b) h (ba1, q)" "\<And>x. q = Some x \<Longrightarrow> add64 k 1 div 2 \<le> blk_count x" using "1.IH" [OF none g "1.prems"(2) kk] by simp_all
    show ?thesis
    proof (cases q)
      case None
      then have "ba' = ba1" "r = None" using "1.prems"(1) none g by (auto simp: buddy_bins_get.simps [of b k ba])
      then show ?thesis using ih(1) None by (simp add: got_def)
    next
      case (Some x)
      have x: "conf ba1 = conf ba" "alloc ba1 = alloc ba" "bins_wf (Suc h) ba1" "bins_weight w ba1 + w x = bins_weight w ba" "bin_area ba (Suc b) x"
        using ih(1) Some by (simp_all add: got_def)
      let ?y = "\<lparr>area_map = area_map x, blk_count = 2 * blk_count x, bin_num = b\<rparr>"
      note y = halve_area [OF x(5) _ D(3)]
      have mb: "min_bin ba \<le> b" using none by simp
      have ky: "k \<le> 2 * blk_count x"
      proof (cases "k + 1 < 2 ^ 64")
        case True
        then show ?thesis using ih(2) [OF Some] by (simp add: add64_eq)
      next
        case False
        then have "k + 1 = 2 ^ 64" using "1.prems"(3) by simp
        then have "add64 k 1 div 2 = 0" by (simp add: add64_def)
        then show ?thesis using g Some by (simp add: buddy_bins_get.simps [of "Suc b" 0 ba])
      qed
      show ?thesis
      proof (cases "2 * blk_count x = k")
        case True
        then have "ba' = ba1" "r = Some ?y" using "1.prems"(1) none g Some y(1) [OF mb] by (auto simp: buddy_bins_get.simps [of b k ba] Let_def area_rec)
        then show ?thesis using x y(2,3) [OF mb] ky by (simp add: got_def)
      next
        case neq: False
        then have lt: "0 < k" "k < blk_count ?y" using none ky by auto
        note c = cut_area [OF y(2) [OF mb] lt]
        have e: "add64 (area_map x) (mul64 k (BLOCK_SIZE b)) = area_map x + k * 2 ^ b" "sub64 (2 * blk_count x) k = 2 * blk_count x - k"
          using c(4) D(3) lt area_end(3) [OF _ D(3), of ?y] y(2) [OF mb] by (simp_all add: mul64_eq add64_eq sub64_eq BLOCK_SIZE_def bin_area_def)
        let ?x = "\<lparr>area_map = area_map x, blk_count = k, bin_num = b\<rparr>"
        let ?res = "\<lparr>area_map = area_map x + k * 2 ^ b, blk_count = 2 * blk_count x - k, bin_num = b\<rparr>"
        obtain ba2 p where h: "buddy_hk_alloc (area_map x + k * 2 ^ b) b (2 * blk_count x - k) ba1 = (ba2, p)" by fastforce
        have run: "buddy_bins_get b k ba = (case p of None \<Rightarrow> (ba2, Some ?y) | Some res \<Rightarrow> (buddy_bins_put res ba2, Some ?x))"
          using none g Some y(1) [OF mb] neq e h by (simp add: buddy_bins_get.simps [of b k ba] Let_def area_rec split: option.split)
        show ?thesis using hk_alloc_cases [OF x(3) h]
        proof (elim disjE conjE)
          assume "p = None" "ba2 = ba1"
          then have "ba' = ba1" "r = Some ?y" using run "1.prems"(1) by auto
          then show ?thesis using x y(2,3) [OF mb] ky by (simp add: got_def)
        next
          assume p: "p = Some ?res" "bins_wf (Suc (Suc h)) ba2" "conf ba2 = conf ba1" "alloc ba2 = alloc ba1" "bins ba2 = bins ba1"
          have ar: "bin_area ba2 (bin_num ?res) ?res" using c(2) area_ok_conf(2) [of ba2 ba] p(3) x(1) by simp
          note put = bins_put_ok [OF p(2) ar]
          have "w x = w ?x + w ?res" using c(3) y(3) [OF mb] by simp
          moreover have "bins_weight w ba2 = bins_weight w ba1" using p(5) by (simp add: bins_weight_def)
          moreover have "ba' = buddy_bins_put ?res ba2" "r = Some ?x" using run p(1) "1.prems"(1) by auto
          ultimately show ?thesis using put x p c(1) by (simp add: got_def)
        qed
      qed
    qed
  qed
qed

end

end
