(* ===== verification/BuddyOps.thy ===== *)
theory BuddyOps
  imports BuddyProps "HOL-Library.Multiset"
begin

text \<open>
  The operations of the buddy allocator.  While an operation runs it holds areas that are in no list; \<open>hs\<close> is the list of
  these areas.
\<close>

section \<open>The invariant\<close>

definition cover :: "buddy_area list \<Rightarrow> buddy_allocator \<Rightarrow> nat \<Rightarrow> nat" where
  "cover hs ba x = bins_weight (holds x) ba + weight (holds x) (alloc ba) + weight (holds x) hs"

definition in_order :: "buddy_area list \<Rightarrow> bool" where
  "in_order = sorted_wrt (\<lambda>a c. AREA_END a \<le> AREA_START c)"

definition own_area :: "buddy_allocator \<Rightarrow> buddy_area \<Rightarrow> bool" where
  "own_area ba a \<longleftrightarrow> bin_area ba (bin_num a) a"

definition inv_h :: "buddy_area list \<Rightarrow> buddy_allocator \<Rightarrow> bool" where
  "inv_h hs ba \<longleftrightarrow> bins_wf (length hs) ba \<and> (\<forall>a \<in> set (alloc ba) \<union> set hs. own_area ba a) \<and> in_order (alloc ba) \<and> (\<forall>x. cover hs ba x \<le> 1)"

lemma inv_hD:
  assumes "inv_h hs ba"
  shows "bins_wf (length hs) ba" "a \<in> set (alloc ba) \<Longrightarrow> own_area ba a" "a \<in> set hs \<Longrightarrow> own_area ba a" "in_order (alloc ba)" "cover hs ba x \<le> 1"
    "mem_start ba + mem_size ba < 2 ^ 64"
  using assms bins_wfD(3) [of "length hs" ba] by (auto simp: inv_h_def)

lemma own_area_conf: "conf ba' = conf ba \<Longrightarrow> own_area ba' = own_area ba"
  using area_ok_conf(2) [of ba' ba] by (simp add: own_area_def fun_eq_iff)

lemma own_areaD:
  assumes "own_area ba a"
  shows "area_ok ba a" "bin_area ba (bin_num a) a"
  using assms by (simp_all add: own_area_def bin_area_def)

lemma holds_cells: "holds x a = 0 \<longleftrightarrow> x \<notin> cells a" "0 < holds x a \<longleftrightarrow> x \<in> cells a"
  by (simp_all add: holds_def)

lemma weight_ge: "a \<in> set xs \<Longrightarrow> w a \<le> weight w xs"
  by (induction xs) auto

lemma cells_nonempty: "own_area ba a \<Longrightarrow> area_map a \<in> cells a"
  by (auto simp: own_area_def bin_area_def area_ok_def cells_def)

text \<open>Operations that keep what is covered.\<close>

definition kept :: "buddy_area list \<Rightarrow> buddy_allocator \<Rightarrow> buddy_area list \<Rightarrow> buddy_allocator \<Rightarrow> bool" where
  "kept hs ba hs' ba' \<longleftrightarrow> inv_h hs' ba' \<and> conf ba' = conf ba \<and> cover hs' ba' = cover hs ba"

lemma kept_trans: "kept hs ba hs1 ba1 \<Longrightarrow> kept hs1 ba1 hs2 ba2 \<Longrightarrow> kept hs ba hs2 ba2"
  by (simp add: kept_def)

lemma kept_refl: "inv_h hs ba \<Longrightarrow> kept hs ba hs ba"
  by (simp add: kept_def)

lemma keptI:
  assumes i: "inv_h hs ba" and "bins_wf (length hs') ba'" "conf ba' = conf ba" "alloc ba' = alloc ba" "\<And>a. a \<in> set hs' \<Longrightarrow> own_area ba a"
    and "\<And>x. bins_weight (holds x) ba' + weight (holds x) hs' = bins_weight (holds x) ba + weight (holds x) hs"
  shows "kept hs ba hs' ba'"
proof -
  have c: "cover hs' ba' x = cover hs ba x" for x using assms(4) assms(6) [of x] by (simp add: cover_def)
  then show ?thesis using i assms(2-5) own_area_conf [OF assms(3)] unfolding kept_def inv_h_def by (auto simp: fun_eq_iff)
qed

lemma kept_put:
  assumes i: "inv_h (t # hs) ba"
  shows "kept (t # hs) ba hs (buddy_bins_put t ba)" "alloc (buddy_bins_put t ba) = alloc ba"
proof -
  have wf: "bins_wf (Suc (length hs)) ba" using inv_hD(1) [OF i] by simp
  have t: "bin_area ba (bin_num t) t" using inv_hD(3) [OF i, of t] by (simp add: own_area_def)
  note p = cell.bins_put_ok [OF wf t]
  show "alloc (buddy_bins_put t ba) = alloc ba" by (rule p(3))
  show "kept (t # hs) ba hs (buddy_bins_put t ba)" using p inv_hD(3) [OF i] by (intro keptI [OF i]) auto
qed

lemma kept_get:
  assumes i: "inv_h hs ba" and k: "k < 2 ^ 64" and g: "buddy_bins_get b k ba = (ba', r)"
  shows "alloc ba' = alloc ba" "r = None \<Longrightarrow> kept hs ba hs ba'" "r = Some a \<Longrightarrow> kept hs ba (a # hs) ba' \<and> bin_area ba b a \<and> k \<le> blk_count a"
proof -
  note g1 = cell.bins_get_ok [OF g inv_hD(1) [OF i] k, unfolded cell.got_def, simplified]
  show "alloc ba' = alloc ba" using g1 by simp
  show "kept hs ba hs ba'" if "r = None" using g1 that inv_hD(3) [OF i] by (intro keptI [OF i]) auto
  show "kept hs ba (a # hs) ba' \<and> bin_area ba b a \<and> k \<le> blk_count a" if r: "r = Some a"
  proof -
    have a: "bin_area ba b a" "k \<le> blk_count a" using g1 r by auto
    then have "own_area ba a" by (simp add: own_area_def bin_area_def)
    then have "kept hs ba (a # hs) ba'" using g1 r inv_hD(3) [OF i] by (intro keptI [OF i]) (auto simp: add.assoc)
    then show ?thesis using a by simp
  qed
qed

text \<open>An area in hand is replaced by areas with the same cells; each additional one needs a structure.\<close>

lemma kept_swap:
  assumes i: "inv_h (a # hs) ba" and c: "own_area ba c" and w: "\<And>x. holds x c = holds x a"
  shows "kept (a # hs) ba (c # hs) ba"
  using inv_hD(1,3) [OF i] c w by (intro keptI [OF i]) auto

lemma kept_split:
  assumes i: "inv_h (a # hs) ba" and h: "buddy_hk_alloc am b k ba = (ba1, Some t)" and c: "own_area ba c" "own_area ba \<lparr>area_map = am, blk_count = k, bin_num = b\<rparr>"
    and w: "\<And>x. holds x c + holds x \<lparr>area_map = am, blk_count = k, bin_num = b\<rparr> = holds x a"
  shows "kept (a # hs) ba (t # c # hs) ba1" "t = \<lparr>area_map = am, blk_count = k, bin_num = b\<rparr>" "alloc ba1 = alloc ba"
proof -
  note h1 = hk_alloc_cases [OF inv_hD(1) [OF i] h]
  show t: "t = \<lparr>area_map = am, blk_count = k, bin_num = b\<rparr>" "alloc ba1 = alloc ba" using h1 by auto
  show "kept (a # hs) ba (t # c # hs) ba1"
  proof (rule keptI [OF i])
    show "bins_weight (holds x) ba1 + weight (holds x) (t # c # hs) = bins_weight (holds x) ba + weight (holds x) (a # hs)" for x
      using h1 w [of x] t(1) by (simp add: bins_weight_def)
  qed (use h1 c t(1) inv_hD(3) [OF i] in auto)
qed

lemma area_eq: "a\<lparr>blk_count := k\<rparr> = \<lparr>area_map = area_map a, blk_count = k, bin_num = bin_num a\<rparr>" for a :: buddy_area
  by (cases a) simp

text \<open>An area cut into its first \<open>j\<close> blocks and the rest.\<close>

lemma cut_own:
  assumes "own_area ba a" and "0 < j" "j < blk_count a"
  shows "own_area ba \<lparr>area_map = area_map a, blk_count = j, bin_num = bin_num a\<rparr>"
    "own_area ba \<lparr>area_map = area_map a + j * 2 ^ bin_num a, blk_count = blk_count a - j, bin_num = bin_num a\<rparr>"
    "holds x a = holds x \<lparr>area_map = area_map a, blk_count = j, bin_num = bin_num a\<rparr>
       + holds x \<lparr>area_map = area_map a + j * 2 ^ bin_num a, blk_count = blk_count a - j, bin_num = bin_num a\<rparr>"
    "area_map a + j * 2 ^ bin_num a \<le> mem_start ba + mem_size ba"
proof -
  note c = cell.cut_area [OF own_areaD(2) [OF assms(1)] assms(2,3)]
  have e: "a\<lparr>area_map := s, blk_count := k\<rparr> = \<lparr>area_map = s, blk_count = k, bin_num = bin_num a\<rparr>" for s k by (cases a) simp
  show "own_area ba \<lparr>area_map = area_map a, blk_count = j, bin_num = bin_num a\<rparr>" using c(1) by (simp add: own_area_def)
  show "own_area ba \<lparr>area_map = area_map a + j * 2 ^ bin_num a, blk_count = blk_count a - j, bin_num = bin_num a\<rparr>"
    using c(2) unfolding e by (simp add: own_area_def)
  show "holds x a = holds x \<lparr>area_map = area_map a, blk_count = j, bin_num = bin_num a\<rparr>
       + holds x \<lparr>area_map = area_map a + j * 2 ^ bin_num a, blk_count = blk_count a - j, bin_num = bin_num a\<rparr>" using c(3) [of x] unfolding e .
  show "area_map a + j * 2 ^ bin_num a \<le> mem_start ba + mem_size ba" by (rule c(4))
qed

section \<open>The tree of allocated areas\<close>

lemma insert_area_ok:
  assumes "\<forall>c \<in> set xs. own_area ba c \<and> cells a \<inter> cells c = {}" and "own_area ba a" and "in_order xs" and mem: "mem_start ba + mem_size ba < 2 ^ 64"
  shows "\<exists>ys. insert_area a xs = Done ys \<and> in_order ys \<and> mset ys = mset (a # xs) \<and> remove1 a ys = xs"
  using assms(1,3)
proof (induction xs)
  case Nil
  then show ?case by (simp add: in_order_def)
next
  case (Cons p xs)
  have e: "AREA_END c = area_map c + blk_count c * 2 ^ bin_num c" if "own_area ba c" for c using area_end(2) [OF own_areaD(1) [OF that] mem] .
  have p: "own_area ba p" "cells a \<inter> cells p = {}" using Cons.prems(1) by simp_all
  have ap: "p \<noteq> a" using p(2) cells_nonempty [OF assms(2)] by auto
  have pos: "0 < blk_count a" "0 < blk_count p" using assms(2) p(1) by (auto dest!: own_areaD(1) simp: area_ok_def)
  show ?case
  proof (cases "AREA_END a \<le> AREA_START p")
    case True
    have "AREA_START p \<le> AREA_START c" if "c \<in> set xs" for c
      using Cons.prems(2) that e [OF p(1)] by (fastforce simp: in_order_def AREA_START_def)
    then have "in_order (a # p # xs)" using True Cons.prems(2) by (fastforce simp: in_order_def)
    then show ?thesis using True by simp
  next
    case False
    then have pa: "AREA_END p \<le> AREA_START a"
      using p(2) pos e [OF p(1)] e [OF assms(2)] by (force simp: cells_def AREA_START_def disjoint_iff not_le)
    obtain ys where ys: "insert_area a xs = Done ys" "in_order ys" "mset ys = mset (a # xs)" "remove1 a ys = xs"
      using Cons.IH Cons.prems by (auto simp: in_order_def)
    have "set ys = insert a (set xs)" using arg_cong [OF ys(3), of set_mset] by simp
    then have "in_order (p # ys)" using ys(2) pa Cons.prems(2) by (auto simp: in_order_def)
    then show ?thesis using False pa ys ap by simp
  qed
qed

lemma weight_mset: "mset xs = mset ys \<Longrightarrow> weight w xs = weight w ys"
  unfolding weight_def by (metis mset_map sum_mset_sum_list)

lemma alloc_add_ok:
  assumes i: "inv_h (a # hs) ba"
  shows "\<exists>ba'. buddy_alloc_add a ba = Done ba' \<and> kept (a # hs) ba hs ba' \<and> mset (alloc ba') = mset (a # alloc ba) \<and> remove1 a (alloc ba') = alloc ba
    \<and> bins ba' = bins ba"
proof -
  have d: "cells a \<inter> cells c = {}" if "c \<in> set (alloc ba)" for c
  proof -
    have h: "holds x a + holds x c \<le> 1" for x using inv_hD(5) [OF i, of x] weight_ge [OF that, of "holds x"] by (simp add: cover_def)
    have False if "x \<in> cells a" "x \<in> cells c" for x using h [of x] that by (simp add: holds_def)
    then show ?thesis by blast
  qed
  obtain ys where ys: "insert_area a (alloc ba) = Done ys" "in_order ys" "mset ys = mset (a # alloc ba)" "remove1 a ys = alloc ba"
    using insert_area_ok [of "alloc ba" ba a] inv_hD(2,3,4,6) [OF i] d by auto
  let ?ba = "ba\<lparr>alloc := ys\<rparr>"
  have c: "conf ?ba = conf ba" by (simp add: conf_def)
  have l: "length ys = Suc (length (alloc ba))" using arg_cong [OF ys(3), of size] by simp
  have s: "set ys = insert a (set (alloc ba))" using arg_cong [OF ys(3), of set_mset] by simp
  have cv: "cover hs ?ba = cover (a # hs) ba" using weight_mset [OF ys(3)] by (simp add: cover_def bins_weight_def fun_eq_iff)
  have "bins_wf (length hs) ?ba" using inv_hD(1) [OF i] l unfolding bins_wf_def area_ok_conf(2) [OF c] by simp
  then have "inv_h hs ?ba" using inv_hD(2,3,5) [OF i] ys(2) s cv own_area_conf [OF c] unfolding inv_h_def by auto
  then show ?thesis using ys c cv by (simp add: buddy_alloc_add_def kept_def)
qed

section \<open>Allocation\<close>

text \<open>\<open>blocks_for\<close> is the least number of blocks that cover the size.\<close>

lemma blocks_for_spec:
  assumes "sz < 2 ^ 64"
  shows "sz \<le> blocks_for sz b * 2 ^ b" "blocks_for sz b < 2 ^ 64" "sz \<le> k * 2 ^ b \<Longrightarrow> blocks_for sz b \<le> k" "0 < sz \<Longrightarrow> 0 < blocks_for sz b"
proof -
  let ?k = "sz div 2 ^ b"
  have m: "?k * 2 ^ b \<le> sz" "sz = ?k * 2 ^ b + sz mod 2 ^ b" "sz mod 2 ^ b < 2 ^ b"
    by (simp, rule div_mult_mod_eq [symmetric], simp)
  then have mul: "mul64 ?k (2 ^ b) = ?k * 2 ^ b" using assms by (intro mul64_eq) linarith
  have add: "add64 ?k 1 = ?k + 1" if "?k * 2 ^ b < sz"
  proof -
    have "?k \<le> ?k * 2 ^ b" by simp
    then have "?k + 1 < 2 ^ 64" using that assms by linarith
    then show ?thesis by (rule add64_eq)
  qed
  have bf: "blocks_for sz b = (if sz mod 2 ^ b = 0 then ?k else ?k + 1)"
    unfolding blocks_for_def BLOCK_COUNT_def BLOCK_SIZE_def Let_def mul using add m by auto
  have up: "sz \<le> ?k * 2 ^ b + 2 ^ b" "sz mod 2 ^ b = 0 \<Longrightarrow> sz \<le> ?k * 2 ^ b" using m(2,3) by linarith+
  show "sz \<le> blocks_for sz b * 2 ^ b" using up unfolding bf by (cases "sz mod 2 ^ b = 0") (simp_all add: add_mult_distrib add.commute)
  show "blocks_for sz b < 2 ^ 64"
  proof (cases "sz mod 2 ^ b = 0")
    case True
    have "?k \<le> sz" by simp
    then have "?k < 2 ^ 64" using assms by linarith
    then show ?thesis using True unfolding bf by simp
  next
    case False
    have "?k \<le> ?k * 2 ^ b" by simp
    then have "?k + 1 \<le> sz" using m(2) False by linarith
    then show ?thesis using assms False unfolding bf by simp
  qed
  show "blocks_for sz b \<le> k" if "sz \<le> k * 2 ^ b"
  proof (cases "sz mod 2 ^ b = 0")
    case True
    then show ?thesis using that m by (simp add: bf) (metis div_le_mono nonzero_mult_div_cancel_right power_not_zero zero_neq_numeral)
  next
    case False
    then have "?k * 2 ^ b < k * 2 ^ b" using that m by linarith
    then show ?thesis using False by (simp add: bf)
  qed
  show "0 < blocks_for sz b" if "0 < sz"
    using \<open>sz \<le> blocks_for sz b * 2 ^ b\<close> that by (cases "blocks_for sz b") auto
qed

text \<open>The same cells in blocks of a smaller bin.\<close>

lemma regroup_own:
  assumes "bin_area ba (d + c) a" and "min_bin ba \<le> c" and "mem_start ba + mem_size ba < 2 ^ 64"
  shows "mul64 (blk_count a) (2 ^ d) = blk_count a * 2 ^ d" "own_area ba \<lparr>area_map = area_map a, blk_count = blk_count a * 2 ^ d, bin_num = c\<rparr>"
    "holds x \<lparr>area_map = area_map a, blk_count = blk_count a * 2 ^ d, bin_num = c\<rparr> = holds x a"
proof -
  have a: "area_ok ba a" "bin_num a = c + d" using assms(1) by (simp_all add: bin_area_def)
  have e: "blk_count a * 2 ^ d * 2 ^ c = blk_count a * 2 ^ (c + d)" by (simp add: power_add mult.commute mult.left_commute)
  have "blk_count a * 2 ^ d \<le> blk_count a * 2 ^ (c + d)" by (simp add: power_add)
  moreover have "blk_count a * 2 ^ (c + d) < 2 ^ 64" using a assms(3) by (simp add: area_ok_def)
  ultimately show "mul64 (blk_count a) (2 ^ d) = blk_count a * 2 ^ d" by (intro mul64_eq) linarith
  have "2 ^ c dvd area_map a" if "2 ^ (d + c) dvd area_map a" using that by (simp add: power_add) (metis dvd_mult_right)
  moreover have "area_map a + blk_count a * 2 ^ d * 2 ^ c \<le> mem_start ba + mem_size ba" using a unfolding e by (simp add: area_ok_def)
  ultimately show "own_area ba \<lparr>area_map = area_map a, blk_count = blk_count a * 2 ^ d, bin_num = c\<rparr>"
    using assms(1,2) a by (auto simp: own_area_def bin_area_def area_ok_def)
  show "holds x \<lparr>area_map = area_map a, blk_count = blk_count a * 2 ^ d, bin_num = c\<rparr> = holds x a"
    unfolding cell.regroup_pow using a(2) by (cases a) simp
qed

lemma downgrade_ok:
  assumes "own_area ba a" and "conf ba1 = conf ba" and "mem_start ba + mem_size ba < 2 ^ 64"
  shows "own_area ba (downgrade ba1 a)" "holds x (downgrade ba1 a) = holds x a" "area_map (downgrade ba1 a) = area_map a"
    "bin_num (downgrade ba1 a) = min_bin ba" "blk_count (downgrade ba1 a) * 2 ^ min_bin ba = blk_count a * 2 ^ bin_num a"
proof -
  have mb: "min_bin ba \<le> bin_num a" "min_bin ba1 = min_bin ba" using assms(1) confD(4) [OF assms(2)] by (auto dest!: own_areaD(1) simp: area_ok_def)
  have "bin_area ba ((bin_num a - min_bin ba) + min_bin ba) a" using own_areaD(2) [OF assms(1)] mb(1) by simp
  note r = regroup_own [OF this order_refl assms(3)]
  have e: "downgrade ba1 a = \<lparr>area_map = area_map a, blk_count = blk_count a * 2 ^ (bin_num a - min_bin ba), bin_num = min_bin ba\<rparr>"
    unfolding downgrade_def mb(2) r(1) by (cases a) simp
  show "own_area ba (downgrade ba1 a)" "holds x (downgrade ba1 a) = holds x a" "area_map (downgrade ba1 a) = area_map a"
    "bin_num (downgrade ba1 a) = min_bin ba" using r(2,3) unfolding e by simp_all
  show "blk_count (downgrade ba1 a) * 2 ^ min_bin ba = blk_count a * 2 ^ bin_num a" using mb(1) unfolding e by (simp flip: power_add)
qed

lemma trim_area_ok:
  assumes i: "inv_h (a # hs) ba" and sz: "0 < sz" "sz < 2 ^ 64" "sz \<le> blk_count a * 2 ^ bin_num a" and t: "trim_area sz a ba = (ba', a', ok)"
  shows "kept (a # hs) ba (a' # hs) ba' \<and> alloc ba' = alloc ba \<and> area_map a' = area_map a \<and> bin_num a' = bin_num a \<and> sz \<le> blk_count a' * 2 ^ bin_num a'"
proof -
  let ?b = "bin_num a" let ?k = "blocks_for sz ?b"
  note bf = blocks_for_spec [OF sz(2), of ?b]
  have a: "own_area ba a" using inv_hD(3) [OF i] by simp
  show ?thesis
  proof (cases "?k < blk_count a")
    case lt: True
    note c = cut_own [OF a bf(4) [OF sz(1)] lt]
    have "area_map a + ?k * 2 ^ ?b < 2 ^ 64" using c(4) inv_hD(6) [OF i] by linarith
    then have e: "add64 (AREA_START a) (mul64 ?k (BLOCK_SIZE ?b)) = area_map a + ?k * 2 ^ ?b"
      by (simp add: AREA_START_def BLOCK_SIZE_def mul64_eq add64_eq)
    obtain ba1 q where h: "buddy_hk_alloc (area_map a + ?k * 2 ^ ?b) ?b (blk_count a - ?k) ba = (ba1, q)" by fastforce
    show ?thesis
    proof (cases q)
      case None
      then have "ba' = ba" "a' = a" using t h lt e hk_alloc_cases [OF inv_hD(1) [OF i] h] by (auto simp: trim_area_def Let_def)
      then show ?thesis using kept_refl [OF i] sz(3) by simp
    next
      case (Some y)
      note s = kept_split [OF i h [unfolded Some] c(1,2), folded area_eq, OF c(3) [symmetric, folded area_eq]]
      have "inv_h (y # a\<lparr>blk_count := ?k\<rparr> # hs) ba1" using s(1) by (simp add: kept_def)
      note p = kept_put [OF this]
      have "ba' = buddy_bins_put y ba1" "a' = a\<lparr>blk_count := ?k\<rparr>" using t h lt e Some by (auto simp: trim_area_def Let_def)
      then show ?thesis using kept_trans [OF s(1) p(1)] p(2) s(3) bf(1) by simp
    qed
  next
    case False
    then have "ba' = ba" "a' = a" using t by (auto simp: trim_area_def Let_def)
    then show ?thesis using kept_refl [OF i] sz(3) by simp
  qed
qed

text \<open>The tree of \<open>ba'\<close> is that of \<open>ba\<close> with an area added, which has at least \<open>sz\<close> bytes at \<open>addr\<close>.\<close>

definition inserted :: "buddy_area \<Rightarrow> buddy_allocator \<Rightarrow> buddy_allocator \<Rightarrow> bool" where
  "inserted a ba ba' \<longleftrightarrow> mset (alloc ba') = mset (a # alloc ba) \<and> remove1 a (alloc ba') = alloc ba"

definition added :: "nat \<Rightarrow> nat \<Rightarrow> buddy_area \<Rightarrow> buddy_allocator \<Rightarrow> buddy_allocator \<Rightarrow> bool" where
  "added addr sz a ba ba' \<longleftrightarrow> area_map a = addr \<and> sz \<le> area_bytes a \<and> inserted a ba ba'"

lemma trim_add_ok:
  assumes i: "inv_h [a] ba" and sz: "0 < sz" "sz < 2 ^ 64" "sz \<le> area_bytes a"
  shows "\<exists>ba' c. (case trim_area sz (downgrade ba a) ba of (ba2, a2, _) \<Rightarrow> add_allocated a2 ba2) = Done (ba', Inr (area_map a))
    \<and> kept [a] ba [] ba' \<and> added (area_map a) sz c ba ba'"
proof -
  have a: "own_area ba a" using inv_hD(3) [OF i] by simp
  note d = downgrade_ok [OF a refl inv_hD(6) [OF i]]
  have k1: "kept [a] ba [downgrade ba a] ba" by (rule kept_swap [OF i d(1,2)])
  then have i1: "inv_h [downgrade ba a] ba" by (simp add: kept_def)
  obtain ba2 a2 ok where t: "trim_area sz (downgrade ba a) ba = (ba2, a2, ok)" by (metis prod_cases3)
  have t1: "kept [downgrade ba a] ba [a2] ba2" "alloc ba2 = alloc ba" "area_map a2 = area_map a" "sz \<le> area_bytes a2"
    using trim_area_ok [OF i1 sz(1,2) _ t] d(3-5) sz(3) by (auto simp: area_bytes_def)
  then have "inv_h [a2] ba2" by (simp add: kept_def)
  then obtain ba' where f: "buddy_alloc_add a2 ba2 = Done ba'" "kept [a2] ba2 [] ba'" "mset (alloc ba') = mset (a2 # alloc ba2)"
    "remove1 a2 (alloc ba') = alloc ba2" using alloc_add_ok by blast
  have "kept [a] ba [] ba'" using kept_trans [OF kept_trans [OF k1 t1(1)] f(2)] .
  then show ?thesis using t t1 f by (auto simp: add_allocated_def added_def inserted_def simp del: bind_result_eq_Done)
qed

lemma estimate_bin: "min_bin ba \<le> max_bin ba \<Longrightarrow> min_bin ba \<le> buddy_estimate_bin ba sz \<and> buddy_estimate_bin ba sz \<le> max_bin ba"
  by (auto simp: buddy_estimate_bin_def find_Some_iff split: option.splits)

text \<open>The memory that the allocation got from the bins.\<close>

lemma get_size:
  assumes "sz < 2 ^ 64" and "bin_area ba b a" and "blocks_for sz b \<le> blk_count a"
  shows "sz \<le> area_bytes a"
proof -
  have "blocks_for sz b * 2 ^ b \<le> blk_count a * 2 ^ b" using assms(3) by simp
  then have "sz \<le> blk_count a * 2 ^ b" using blocks_for_spec(1) [OF assms(1), of b] by linarith
  then show ?thesis using assms(2) by (simp add: area_bytes_def bin_area_def)
qed

definition alloc_outcome :: "nat \<Rightarrow> nat \<Rightarrow> buddy_allocator \<Rightarrow> (buddy_allocator \<times> (vmm_rc + nat)) result \<Rightarrow> bool" where
  "alloc_outcome order sz ba res \<longleftrightarrow> (\<exists>ba' r. res = Done (ba', r) \<and> kept [] ba [] ba'
     \<and> (case r of Inl e \<Rightarrow> alloc ba' = alloc ba
        | Inr addr \<Rightarrow> (2 ^ max_bin ba dvd mem_start ba \<longrightarrow> 2 ^ order dvd addr) \<and> (\<exists>a. added addr sz a ba ba')))"

lemma get_alloc_ok:
  assumes i: "inv_h [] ba" and sz: "0 < sz" "sz < 2 ^ 64" and o: "order \<le> b"
  shows "alloc_outcome order sz ba (case buddy_bins_get b (blocks_for sz b) ba of
           (ba1, None) \<Rightarrow> Done (ba1, Inl VMM_ENOMEM)
         | (ba1, Some a) \<Rightarrow> (case trim_area sz (downgrade ba1 a) ba1 of (ba2, a2, _) \<Rightarrow> add_allocated a2 ba2))"
proof -
  obtain ba1 r where g: "buddy_bins_get b (blocks_for sz b) ba = (ba1, r)" by fastforce
  note k = kept_get [OF i blocks_for_spec(2) [OF sz(2)] g]
  show ?thesis
  proof (cases r)
    case None
    then show ?thesis using g k(1,2) by (simp add: alloc_outcome_def)
  next
    case (Some a)
    then have a: "kept [] ba [a] ba1" "bin_area ba b a" "sz \<le> area_bytes a" using k(3) get_size [OF sz(2)] by blast+
    then have "inv_h [a] ba1" by (simp add: kept_def)
    from trim_add_ok [OF this sz a(3)] obtain ba' c where
      t: "(case trim_area sz (downgrade ba1 a) ba1 of (ba2, a2, _) \<Rightarrow> add_allocated a2 ba2) = Done (ba', Inr (area_map a))"
        "kept [a] ba1 [] ba'" "added (area_map a) sz c ba1 ba'" by blast
    have "2 ^ order dvd area_map a" if "2 ^ max_bin ba dvd mem_start ba"
      using a(2) that le_imp_power_dvd [OF o, of "2 :: nat"] by (auto simp: bin_area_def intro: dvd_trans)
    moreover have "added (area_map a) sz c ba ba'" using t(3) k(1) by (simp add: added_def inserted_def)
    ultimately show ?thesis using g Some t(1) kept_trans [OF a(1) t(2)] by (auto simp: alloc_outcome_def)
  qed
qed

lemma kept_self_invalid: "inv_h [] ba \<Longrightarrow> alloc_outcome order sz ba (Done (ba, Inl e))"
  by (simp add: alloc_outcome_def kept_refl)

lemma mem_alloc_ok: "inv_h [] ba \<Longrightarrow> sz < 2 ^ 64 \<Longrightarrow> alloc_outcome 0 sz ba (buddy_mem_alloc sz ba)"
  unfolding buddy_mem_alloc_def Let_def using get_alloc_ok [of ba sz 0] kept_self_invalid by auto

lemma aligned_alloc_ok:
  assumes i: "inv_h [] ba" and sz: "sz < 2 ^ 64"
  shows "alloc_outcome order sz ba (buddy_mem_aligned_alloc order sz ba)"
proof -
  let ?b = "buddy_estimate_bin ba sz"
  have b: "min_bin ba \<le> ?b" using estimate_bin bins_wfD(1) [OF inv_hD(1) [OF i]] by blast
  consider (bad) "sz = 0 \<or> max_bin ba < order" | (small) "0 < sz" "order \<le> max_bin ba" "order \<le> ?b" | (big) "0 < sz" "order \<le> max_bin ba" "?b < order" by linarith
  then show ?thesis
  proof cases
    case bad
    then show ?thesis using kept_self_invalid [OF i] by (simp add: buddy_mem_aligned_alloc_def)
  next
    case small
    then show ?thesis unfolding buddy_mem_aligned_alloc_def Let_def using get_alloc_ok [OF i small(1) sz small(3)] by simp
  next
    case big
    obtain ba1 r where g: "buddy_bins_get order (blocks_for sz order) ba = (ba1, r)" by fastforce
    note k = kept_get [OF i blocks_for_spec(2) [OF sz] g]
    note def = buddy_mem_aligned_alloc_def [of order sz ba, unfolded Let_def g]
    show ?thesis
    proof (cases r)
      case None
      then show ?thesis using big k(1,2) by (simp add: def alloc_outcome_def)
    next
      case (Some a)
      then have a: "kept [] ba [a] ba1" "bin_area ba order a" "sz \<le> area_bytes a" using k(3) get_size [OF sz] by blast+
      then have i1: "inv_h [a] ba1" "conf ba1 = conf ba" by (simp_all add: kept_def)
      let ?c = "\<lparr>area_map = area_map a, blk_count = blk_count a * 2 ^ (order - ?b), bin_num = ?b\<rparr>"
      have "bin_area ba1 ((order - ?b) + ?b) a" "min_bin ba1 \<le> ?b" using a(2) big(3) b area_ok_conf(2) [OF i1(2)] confD(4) [OF i1(2)] by simp_all
      note c = regroup_own [OF this inv_hD(6) [OF i1(1)]]
      have ac: "a\<lparr>blk_count := mul64 (blk_count a) (2 ^ (order - ?b)), bin_num := ?b\<rparr> = ?c" unfolding c(1) by (cases a) simp
      have kc: "kept [a] ba1 [?c] ba1" by (rule kept_swap [OF i1(1) c(2,3)])
      then have i2: "inv_h [?c] ba1" by (simp add: kept_def)
      have szc: "sz \<le> blk_count ?c * 2 ^ bin_num ?c" using a(2,3) big(3) by (simp add: area_bytes_def bin_area_def mult.assoc flip: power_add)
      obtain ba2 a2 ok where t: "trim_area sz ?c ba1 = (ba2, a2, ok)" by (metis prod_cases3)
      have t1: "kept [?c] ba1 [a2] ba2" "alloc ba2 = alloc ba1" "area_map a2 = area_map a" "sz \<le> area_bytes a2"
        using trim_area_ok [OF i2 big(1) sz szc t] by (auto simp: area_bytes_def)
      then have i3: "inv_h [a2] ba2" by (simp add: kept_def)
      have "\<exists>ba' d. (if ok then (case trim_area sz (downgrade ba2 a2) ba2 of (ba3, a3, _) \<Rightarrow> add_allocated a3 ba3) else add_allocated a2 ba2)
          = Done (ba', Inr (area_map a)) \<and> kept [a2] ba2 [] ba' \<and> added (area_map a) sz d ba2 ba'"
      proof (cases ok)
        case True
        then show ?thesis using trim_add_ok [OF i3 big(1) sz t1(4)] t1(3) by simp
      next
        case False
        then show ?thesis using alloc_add_ok [OF i3] t1(3,4) by (auto simp: add_allocated_def added_def inserted_def simp del: bind_result_eq_Done)
      qed
      then obtain ba' d where f: "(if ok then (case trim_area sz (downgrade ba2 a2) ba2 of (ba3, a3, _) \<Rightarrow> add_allocated a3 ba3) else add_allocated a2 ba2)
          = Done (ba', Inr (area_map a))" "kept [a2] ba2 [] ba'" "added (area_map a) sz d ba2 ba'" by blast
      have "buddy_mem_aligned_alloc order sz ba = Done (ba', Inr (area_map a))" unfolding def using big Some f(1) by (simp add: ac t split: bool.splits if_splits)
      moreover have "kept [] ba [] ba'" using kept_trans [OF kept_trans [OF kept_trans [OF a(1) kc] t1(1)] f(2)] .
      moreover have "2 ^ max_bin ba dvd mem_start ba \<longrightarrow> 2 ^ order dvd area_map a" using a(2) by (simp add: bin_area_def)
      moreover have "added (area_map a) sz d ba ba'" using f(3) t1(2) k(1) by (simp add: added_def inserted_def)
      ultimately show ?thesis by (auto simp: alloc_outcome_def)
    qed
  qed
qed

section \<open>Release\<close>

lemma find_cells:
  assumes i: "inv_h hs ba"
  shows "buddy_alloc_find ba addr = Some a \<longleftrightarrow> a \<in> set (alloc ba) \<and> addr \<in> cells a"
    "buddy_alloc_find ba addr = None \<longleftrightarrow> (\<forall>a \<in> set (alloc ba). addr \<notin> cells a)"
proof -
  have e: "AREA_START c \<le> addr \<and> addr < AREA_END c \<longleftrightarrow> addr \<in> cells c" if "c \<in> set (alloc ba)" for c
    using area_end(2) [OF own_areaD(1) [OF inv_hD(2) [OF i that]] inv_hD(6) [OF i]] by (simp add: AREA_START_def cells_def)
  then show n: "buddy_alloc_find ba addr = None \<longleftrightarrow> (\<forall>a \<in> set (alloc ba). addr \<notin> cells a)"
    by (auto simp: buddy_alloc_find_def find_None_iff)
  have one: "c = d" if cd: "c \<in> set (alloc ba)" "d \<in> set (alloc ba)" "addr \<in> cells c" "addr \<in> cells d" for c d
  proof (rule ccontr)
    assume "c \<noteq> d"
    obtain xs ys where xy: "alloc ba = xs @ c # ys" using cd(1) by (auto dest: split_list)
    then have "d \<in> set (xs @ ys)" using that(2) \<open>c \<noteq> d\<close> by auto
    then have "holds addr c + holds addr d \<le> weight (holds addr) (alloc ba)" using weight_ge [of d "xs @ ys" "holds addr"] xy by simp
    then show False using that(3,4) inv_hD(5) [OF i, of addr] by (simp add: cover_def holds_def)
  qed
  have f: "c \<in> set (alloc ba) \<and> addr \<in> cells c" if "buddy_alloc_find ba addr = Some c" for c
    using that e [of c] by (auto simp: buddy_alloc_find_def find_Some_iff)
  show "buddy_alloc_find ba addr = Some a \<longleftrightarrow> a \<in> set (alloc ba) \<and> addr \<in> cells a"
    using f n one by (cases "buddy_alloc_find ba addr") auto
qed

lemma in_order_remove: "in_order xs \<Longrightarrow> in_order (remove1 a xs)"
  by (induction xs) (auto simp: in_order_def dest: notin_set_remove1 [rotated])

lemma weight_remove: "a \<in> set xs \<Longrightarrow> weight w (remove1 a xs) + w a = weight w xs"
  by (induction xs) auto

lemma alloc_del_ok:
  assumes i: "inv_h hs ba" and a: "a \<in> set (alloc ba)"
  shows "kept hs ba (a # hs) (buddy_alloc_del a ba)"
proof -
  let ?ba = "buddy_alloc_del a ba"
  have c: "conf ?ba = conf ba" by (simp add: buddy_alloc_del_def conf_def)
  have cv: "cover (a # hs) ?ba x = cover hs ba x" for x
    using weight_remove [OF a, of "holds x"] by (simp add: cover_def buddy_alloc_del_def bins_weight_def)
  have "length (alloc ba) = Suc (length (alloc ?ba))" using a length_pos_if_in_set [OF a] by (simp add: buddy_alloc_del_def length_remove1)
  moreover have "bins ?ba = bins ba" "hk_free_count ?ba = hk_free_count ba" by (simp_all add: buddy_alloc_del_def)
  ultimately have "bins_wf (length (a # hs)) ?ba" using inv_hD(1) [OF i] confD [OF c] unfolding bins_wf_def area_ok_conf(2) [OF c] by simp
  moreover have "own_area ba c" if "c \<in> set (alloc ?ba) \<union> set (a # hs)" for c
    using that a inv_hD(2,3) [OF i] by (auto simp: buddy_alloc_del_def dest: notin_set_remove1 [rotated])
  moreover have "in_order (alloc ?ba)" using inv_hD(4) [OF i] by (simp add: buddy_alloc_del_def in_order_remove)
  ultimately show ?thesis using c cv inv_hD(5) [OF i] own_area_conf [OF c] unfolding kept_def inv_h_def by (auto simp: fun_eq_iff)
qed

lemma mem_free_ok:
  assumes i: "inv_h [] ba" and f: "a \<in> set (alloc ba)" "addr \<in> cells a"
  shows "\<exists>ba'. buddy_mem_free addr ba = (ba', VMM_OK) \<and> kept [] ba [] ba' \<and> alloc ba' = remove1 a (alloc ba)"
proof -
  have "buddy_alloc_find ba addr = Some a" using find_cells(1) [OF i] f by blast
  moreover have "in_memory ba addr"
    using own_areaD(1) [OF inv_hD(2) [OF i f(1)]] f(2) inv_hD(6) [OF i] by (simp add: in_memory_def cells_def area_ok_def add64_eq)
  ultimately have e: "buddy_mem_free addr ba = (buddy_bins_put a (buddy_alloc_del a ba), VMM_OK)" by (simp add: buddy_mem_free_def)
  have d: "kept [] ba [a] (buddy_alloc_del a ba)" by (rule alloc_del_ok [OF i f(1)])
  then have "inv_h [a] (buddy_alloc_del a ba)" by (simp add: kept_def)
  note p = kept_put [OF this]
  show ?thesis using e kept_trans [OF d p(1)] p(2) by (simp add: buddy_alloc_del_def)
qed

lemma mem_free_error:
  assumes i: "inv_h [] ba" and n: "\<forall>a \<in> set (alloc ba). addr \<notin> cells a"
  shows "fst (buddy_mem_free addr ba) = ba \<and> snd (buddy_mem_free addr ba) \<in> {VMM_EINVALID, VMM_ENOTAVAIL}"
  using find_cells(2) [OF i, of addr] n by (simp add: buddy_mem_free_def)

section \<open>Cells of the memory\<close>

definition free_cells :: "buddy_allocator \<Rightarrow> nat set" where
  "free_cells ba = {x. 0 < bins_weight (holds x) ba}"

definition used_cells :: "buddy_allocator \<Rightarrow> nat set" where
  "used_cells ba = (\<Union>a \<in> set (alloc ba). cells a)"

lemma weight_used: "0 < weight (holds x) xs \<longleftrightarrow> x \<in> (\<Union>a \<in> set xs. cells a)"
  by (induction xs) (auto simp: holds_def)

lemma cells_partition:
  assumes "inv_h [] ba"
  shows "free_cells ba \<inter> used_cells ba = {}" "cover [] ba x = 1 \<longleftrightarrow> x \<in> free_cells ba \<union> used_cells ba"
proof -
  have c: "bins_weight (holds x) ba + weight (holds x) (alloc ba) \<le> 1" for x using inv_hD(5) [OF assms, of x] by (simp add: cover_def)
  have f: "(x \<in> free_cells ba \<longleftrightarrow> 0 < bins_weight (holds x) ba) \<and> (x \<in> used_cells ba \<longleftrightarrow> 0 < weight (holds x) (alloc ba))" for x
    unfolding free_cells_def used_cells_def weight_used by simp
  have "\<not> (x \<in> free_cells ba \<and> x \<in> used_cells ba)" for x using c [of x] f [of x] by linarith
  then show "free_cells ba \<inter> used_cells ba = {}" by blast
  show "cover [] ba x = 1 \<longleftrightarrow> x \<in> free_cells ba \<union> used_cells ba" using c [of x] f [of x] by (auto simp: cover_def)
qed

lemma kept_cells:
  assumes "inv_h [] ba" and "kept [] ba [] ba'"
  shows "free_cells ba' \<union> used_cells ba' = free_cells ba \<union> used_cells ba" "free_cells ba' = (free_cells ba \<union> used_cells ba) - used_cells ba'"
proof -
  have i': "inv_h [] ba'" "cover [] ba' = cover [] ba" using assms(2) by (simp_all add: kept_def)
  have "x \<in> free_cells ba' \<union> used_cells ba' \<longleftrightarrow> x \<in> free_cells ba \<union> used_cells ba" for x
    using cells_partition(2) [OF i'(1), of x] cells_partition(2) [OF assms(1), of x] i'(2) by metis
  then show e: "free_cells ba' \<union> used_cells ba' = free_cells ba \<union> used_cells ba" by blast
  show "free_cells ba' = (free_cells ba \<union> used_cells ba) - used_cells ba'" using e cells_partition(1) [OF i'(1)] by blast
qed

lemma inserted_cells:
  assumes i: "inv_h [] ba" and k: "kept [] ba [] ba'" and a: "inserted a ba ba'"
  shows "cells a \<subseteq> free_cells ba" "free_cells ba' = free_cells ba - cells a" "a \<in> set (alloc ba')" "used_cells ba' = used_cells ba \<union> cells a"
proof -
  have m: "mset (alloc ba') = mset (a # alloc ba)" using a by (simp add: inserted_def)
  have s: "set (alloc ba') = insert a (set (alloc ba))" using arg_cong [OF m, of set_mset] by simp
  then show u: "used_cells ba' = used_cells ba \<union> cells a" by (auto simp: used_cells_def)
  show "a \<in> set (alloc ba')" using s by simp
  have i': "inv_h [] ba'" "cover [] ba' = cover [] ba" using k by (simp_all add: kept_def)
  have h: "holds x a + weight (holds x) (alloc ba) \<le> 1" for x
    using inv_hD(5) [OF i'(1), of x] weight_mset [OF m, of "holds x"] by (simp add: cover_def)
  have "\<not> (x \<in> cells a \<and> x \<in> used_cells ba)" for x
    using h [of x] unfolding used_cells_def weight_used [symmetric] by (auto simp: holds_def)
  then have d: "cells a \<inter> used_cells ba = {}" by blast
  then show "cells a \<subseteq> free_cells ba" using kept_cells(1) [OF i k] u by blast
  show "free_cells ba' = free_cells ba - cells a" using kept_cells(2) [OF i k] u d cells_partition(1) [OF i] by blast
qed

lemma added_cells: "added addr sz a ba ba' \<Longrightarrow> {addr ..< addr + sz} \<subseteq> cells a"
  by (auto simp: added_def cells_def area_bytes_def)

end
