(* ===== verification/BuddyReserve.thy ===== *)
theory BuddyReserve
  imports BuddyOps
begin

text \<open>
  Reservation and partial release in the buddy allocator: both cut an area into the part that is asked for and
  what is before and after it.
\<close>

section \<open>Reservation in a bin\<close>

definition mem_aligned :: "buddy_allocator \<Rightarrow> bool" where
  "mem_aligned ba \<longleftrightarrow> 0 < mem_start ba \<and> 2 ^ max_bin ba dvd mem_start ba"

lemma add_mul64: "add64 x (mul64 k y) = (x + k * y) mod 2 ^ 64"
  by (simp add: add64_def mul64_def mod_simps)

lemma pow_dvd_64: "b < 32 \<Longrightarrow> 2 ^ b dvd (2 ^ 64 :: nat)"
  by (rule le_imp_power_dvd) simp

text \<open>The range that a reservation asks a bin for, in whole blocks, does not reach past the end of the address space.\<close>

lemma round_up_bound:
  fixes s k :: nat
  assumes "b < 32" and "2 ^ b dvd s" and "s + k * 2 ^ b < 2 ^ 64 + 2 ^ b"
  shows "s + k * 2 ^ b \<le> 2 ^ 64"
proof -
  obtain q where q: "s + k * 2 ^ b = 2 ^ b * q" using assms(2) by (metis dvd_add dvd_triv_right dvdE)
  obtain e where e: "(2 ^ 64 :: nat) = 2 ^ b * e" using pow_dvd_64 [OF assms(1)] by (metis dvdE)
  have "2 ^ b * q < 2 ^ b * (e + 1)" using assms(3) unfolding q e by (simp add: distrib_left)
  then have "q < e + 1" by (simp only: mult_less_cancel1)
  then show ?thesis unfolding q e by simp
qed

lemma blocks_for_tight: "sz < 2 ^ 64 \<Longrightarrow> blocks_for sz b * 2 ^ b < sz + 2 ^ b"
proof (cases "blocks_for sz b")
  case (Suc k)
  assume sz: "sz < 2 ^ 64"
  have "\<not> sz \<le> k * 2 ^ b" using blocks_for_spec(3) [OF sz, of k b] Suc by auto
  then show ?thesis using Suc by simp
qed simp

text \<open>A part of an area: the \<open>k\<close> blocks from block \<open>j\<close> on.\<close>

definition part :: "nat \<Rightarrow> nat \<Rightarrow> buddy_area \<Rightarrow> buddy_area" where
  "part j k a = \<lparr>area_map = area_map a + j * 2 ^ bin_num a, blk_count = k, bin_num = bin_num a\<rparr>"

lemma part_simps [simp]: "area_map (part j k a) = area_map a + j * 2 ^ bin_num a" "blk_count (part j k a) = k" "bin_num (part j k a) = bin_num a"
  by (simp_all add: part_def)

lemma part_own:
  assumes "bin_area ba b a" and "j + k \<le> blk_count a" and "0 < k"
  shows "bin_area ba b (part j k a)"
proof -
  have a: "area_ok ba a" "bin_num a = b" using assms(1) by (simp_all add: bin_area_def)
  have "(j + k) * 2 ^ b \<le> blk_count a * 2 ^ b" using assms(2) by simp
  then have "area_map a + j * 2 ^ b + k * 2 ^ b \<le> mem_start ba + mem_size ba" using a unfolding area_ok_def by (simp add: add_mult_distrib)
  moreover have "2 ^ min_bin ba dvd area_map a + j * 2 ^ b" using a by (auto simp: area_ok_def intro!: dvd_add dvd_mult le_imp_power_dvd)
  ultimately show ?thesis using assms a by (auto simp: bin_area_def area_ok_def)
qed

lemma part_split:
  assumes "blk_count a = j + k + t"
  shows "holds x a = holds x (part 0 j a) + holds x (part j k a) + holds x (part (j + k) t a)"
proof -
  have "a = \<lparr>area_map = area_map a, blk_count = j + k + t, bin_num = bin_num a\<rparr>" using assms by (cases a) simp
  then show ?thesis using cell.split [of x "area_map a" "j + k" t "bin_num a"] cell.split [of x "area_map a" j k "bin_num a"] by (simp add: part_def)
qed

lemma part_empty [simp]: "holds x (part j 0 a) = 0"
  by (simp add: part_def cell.empty)

lemma part_all: "part 0 (blk_count a) a = a"
  by (cases a) (simp add: part_def)

text \<open>The area that a bin is searched for, as blocks of the found area.\<close>

lemma reserve_blocks:
  assumes a: "bin_area ba b a" "mem_aligned ba" and mem: "mem_start ba + mem_size ba < 2 ^ 64" and s: "area_map a \<le> s" "2 ^ b dvd s"
    and e: "s + k * 2 ^ b \<le> area_map a + blk_count a * 2 ^ b"
  obtains j t where "blk_count a = j + k + t" "s = area_map a + j * 2 ^ b"
proof -
  have "2 ^ b dvd s - area_map a" using a s(2) by (auto simp: bin_area_def mem_aligned_def intro: dvd_diff_nat)
  then obtain j where "s - area_map a = 2 ^ b * j" by (metis dvdE)
  then have j: "s = area_map a + j * 2 ^ b" using s(1) by (simp add: mult.commute)
  then have "(j + k) * 2 ^ b \<le> blk_count a * 2 ^ b" using e by (simp add: add_mult_distrib)
  then have "j + k \<le> blk_count a" by simp
  then show ?thesis using that [of j "blk_count a - (j + k)"] j by simp
qed

lemma head_part: "a\<lparr>blk_count := j\<rparr> = part 0 j a"
  by (cases a) (simp add: part_def)

lemma reserve_range:
  fixes addr sz b k s
  defines "s \<equiv> addr - off_block addr b" and "k \<equiv> blocks_for (add64 sz (off_block addr b)) b"
  assumes b: "b < 32" and sz: "0 < sz" and end64: "addr + sz < 2 ^ 64"
  shows "2 ^ b dvd s" "s \<le> addr" "addr + sz \<le> s + k * 2 ^ b" "s + k * 2 ^ b \<le> 2 ^ 64" "0 < k"
proof -
  have o: "off_block addr b = addr mod 2 ^ b" by (simp add: off_block_def BLOCK_SIZE_def)
  have le: "addr mod 2 ^ b \<le> addr" by (rule mod_less_eq_dividend)
  then have z: "add64 sz (off_block addr b) = sz + addr mod 2 ^ b" using end64 unfolding o by (intro add64_eq) linarith
  show d: "2 ^ b dvd s" unfolding s_def o by (rule dvd_minus_mod)
  show "s \<le> addr" by (simp add: s_def)
  have z64: "sz + addr mod 2 ^ b < 2 ^ 64" using le end64 by linarith
  note bf = blocks_for_spec [OF z64, of b] and bt = blocks_for_tight [OF z64, of b]
  have ks: "k = blocks_for (sz + addr mod 2 ^ b) b" "s = addr - addr mod 2 ^ b" unfolding k_def s_def z by (simp_all add: o)
  show "addr + sz \<le> s + k * 2 ^ b" using bf(1) le unfolding ks by linarith
  have "s + k * 2 ^ b < 2 ^ 64 + 2 ^ b" using bt le end64 unfolding ks by linarith
  then show "s + k * 2 ^ b \<le> 2 ^ 64" by (rule round_up_bound [OF b d])
  show "0 < k" using bf(4) sz unfolding ks by simp
qed

lemma set_bin_simps [simp]:
  "conf (set_bin b l ba) = conf ba" "alloc (set_bin b l ba) = alloc ba" "bins (set_bin b l ba) = (bins ba)(b := l)"
  "hk_free_count (set_bin b l ba) = hk_free_count ba" "conf (buddy_hk_free ba) = conf ba" "alloc (buddy_hk_free ba) = alloc ba"
  "bins (buddy_hk_free ba) = bins ba" "conf (ba\<lparr>hk_free_count := n\<rparr>) = conf ba"
  by (simp_all add: set_bin_def conf_def buddy_hk_free_def)

text \<open>Of an area in a bin the middle part is taken out; what is before and after it stays in the bin.\<close>

lemma reserve_cut:
  assumes i: "inv_h hs ba" and b: "b < 32" and old: "bins ba b = pre @ a # suf" and jt: "blk_count a = j + k + t" "0 < k"
    and e: "conf ba' = conf ba" "alloc ba' = alloc ba" "bins ba' = (bins ba)(b := pre @ l @ suf)"
    and l: "l = (if j = 0 then [] else [part 0 j a]) @ (if t = 0 then [] else [part (j + k) t a])"
    and hk: "hk_free_count ba' + length l = hk_free_count ba"
  shows "kept hs ba (part j k a # hs) ba'"
proof -
  note wf = inv_hD(1) [OF i]
  have a: "bin_area ba b a" using bins_wfD(5) [OF wf] old by simp
  then have pb: "own_area ba (part j k a)" using part_own [OF a, of j k] jt by (simp add: own_area_def bin_area_def)
  have lb: "\<forall>c \<in> set l. bin_area ba b c" using part_own [OF a, of 0 j] part_own [OF a, of "j + k" t] jt unfolding l by auto
  have w: "holds x a = weight (holds x) l + holds x (part j k a)" for x using part_split [OF jt(1), of x] unfolding l by (cases "j = 0"; cases "t = 0") simp_all
  have "hk_free_count ba' + length l + length (part j k a # hs) = hk_free_count ba + 1 + length hs" using hk by simp
  note t = cell.take_out [OF wf b old lb e this w]
  show ?thesis using t e(1,2) pb inv_hD(3) [OF i] by (intro keptI [OF i]) (auto simp: add.assoc)
qed

lemma bins_reserve_ok:
  assumes i: "inv_h hs ba" and al: "mem_aligned ba" and sz: "0 < sz" "addr + sz \<le> mem_start ba + mem_size ba" and r: "buddy_bins_reserve b addr sz ba = (ba', r)"
  shows "r = None \<and> ba' = ba \<or> (\<exists>c. r = Some c \<and> kept hs ba (c # hs) ba' \<and> alloc ba' = alloc ba \<and> {addr ..< addr + sz} \<subseteq> cells c)"
proof (cases "sz = 0 \<or> b < min_bin ba \<or> max_bin ba < b")
  case True
  then show ?thesis using r by (auto simp: buddy_bins_reserve_def)
next
  case ok: False
  note D = bins_wfD [OF inv_hD(1) [OF i]]
  have b: "b < 32" using ok D(2) by simp
  let ?s = "addr - off_block addr b" let ?k = "blocks_for (add64 sz (off_block addr b)) b"
  have "addr + sz < 2 ^ 64" using sz(2) D(3) by linarith
  note R = reserve_range [OF b sz(1) this]
  let ?P = "\<lambda>a. AREA_START a \<le> ?s \<and> ?s < AREA_END a \<and> AREA_START a \<le> add64 ?s (mul64 ?k (BLOCK_SIZE b)) \<and> add64 ?s (mul64 ?k (BLOCK_SIZE b)) \<le> AREA_END a"
  note run = r [unfolded buddy_bins_reserve_def Let_def, simplified ok if_False]
  show ?thesis
  proof (cases "split_find ?P (bins ba b)")
    case None
    then show ?thesis using run by simp
  next
    case (Some z)
    then obtain pre a suf where sf: "split_find ?P (bins ba b) = Some (pre, a, suf)" by (metis prod_cases3)
    note F = split_find_Some [OF sf]
    have a: "bin_area ba b a" using D(5) F by auto
    then have aok: "area_ok ba a" "bin_num a = b" by (simp_all add: bin_area_def)
    note E = area_end(2) [OF aok(1) D(3)]
    have lt: "?s + ?k * 2 ^ b < 2 ^ 64"
    proof (rule ccontr)
      assume "\<not> ?thesis"
      then have "?s + ?k * 2 ^ b = 2 ^ 64" using R(4) by linarith
      then have "add64 ?s (mul64 ?k (BLOCK_SIZE b)) = 0" by (simp add: add_mul64 BLOCK_SIZE_def)
      then show False using F aok al by (simp add: AREA_START_def area_ok_def mem_aligned_def)
    qed
    then have end_s: "add64 ?s (mul64 ?k (BLOCK_SIZE b)) = ?s + ?k * 2 ^ b" by (simp add: add_mul64 BLOCK_SIZE_def)
    have "area_map a \<le> ?s" "?s + ?k * 2 ^ b \<le> area_map a + blk_count a * 2 ^ b" using F end_s E aok(2) by (simp_all add: AREA_START_def)
    then obtain j t where jt: "blk_count a = j + ?k + t" "?s = area_map a + j * 2 ^ b" using reserve_blocks [OF a al D(3) _ R(1)] by metis
    have a_eqs: "AREA_START a = area_map a" "AREA_END a = area_map a + (j + ?k + t) * 2 ^ b" using E aok(2) jt(1) by (simp_all add: AREA_START_def)
    let ?ret = "\<lparr>area_map = ?s, blk_count = ?k, bin_num = b\<rparr>"
    have ret: "?ret = part j ?k a" using jt(2) aok(2) by (simp add: part_def)
    have ret_eqs: "AREA_START ?ret = area_map a + j * 2 ^ b" "AREA_END ?ret = area_map a + (j + ?k) * 2 ^ b"
      using jt(2) end_s by (simp_all add: AREA_START_def AREA_END_def AREA_SIZE_def add_mult_distrib add.assoc)
    have m64: "area_map a + (j + ?k + t) * 2 ^ b < 2 ^ 64" using aok D(3) jt(1) by (simp add: area_ok_def)
    then have cnt: "BLOCK_COUNT (sub64 (AREA_END a) (AREA_END ?ret)) b = t" "BLOCK_COUNT (sub64 (AREA_START ?ret) (AREA_START a)) b = j"
      unfolding a_eqs ret_eqs by (simp_all add: sub64_eq BLOCK_COUNT_def add_mult_distrib)
    have in_ret: "{addr ..< addr + sz} \<subseteq> cells ?ret" using R(2,3) by (auto simp: cells_def)
    let ?l = "(if j = 0 then [] else [part 0 j a]) @ (if t = 0 then [] else [part (j + ?k) t a])"
    let ?n = "hk_free_count ba"
    have n64: "?n < 2 ^ 64" using D(4,6) by linarith
    have tail: "\<lparr>area_map = AREA_END ?ret, blk_count = t, bin_num = b\<rparr> = part (j + ?k) t a" unfolding ret_eqs using aok(2) by (simp add: part_def)
    note run' = run [unfolded sf option.case prod.case, unfolded buddy_hk_alloc_def]
    consider (none) "?n = 0 \<or> t \<noteq> 0 \<and> ?n = 1" | (some) "?n \<noteq> 0" "t = 0 \<or> ?n \<noteq> 1" by argo
    then show ?thesis
    proof cases
      case none
      then have "ba' = ba \<and> r = None" using run' cnt n64 by (auto simp: buddy_hk_free_def add64_eq)
      then show ?thesis by simp
    next
      case some
      then have "conf ba' = conf ba \<and> alloc ba' = alloc ba \<and> bins ba' = (bins ba)(b := pre @ ?l @ suf) \<and> hk_free_count ba' + length ?l = ?n \<and> r = Some ?ret"
        using run' cnt n64 tail by (cases "j = 0"; cases "t = 0") (auto simp: buddy_hk_free_def add64_eq head_part set_bin_def conf_def)
      then show ?thesis using reserve_cut [OF i b _ jt(1) R(5), of pre suf ba' ?l] F in_ret ret by auto
    qed
  qed
qed

lemma reserve_bins_ok:
  assumes i: "inv_h hs ba" and al: "mem_aligned ba" and sz: "0 < sz" "addr + sz \<le> mem_start ba + mem_size ba"
  shows "reserve_bins bs addr sz ba = (ba', r) \<Longrightarrow>
    r = None \<and> ba' = ba \<or> (\<exists>c. r = Some c \<and> kept hs ba (c # hs) ba' \<and> alloc ba' = alloc ba \<and> {addr ..< addr + sz} \<subseteq> cells c)"
proof (induction bs)
  case (Cons b bs)
  obtain ba1 q where q: "buddy_bins_reserve b addr sz ba = (ba1, q)" by fastforce
  show ?case using bins_reserve_ok [OF i al sz q] Cons q by (cases q) auto
qed simp

section \<open>Cutting an area in hand\<close>

lemma div_pow_mult: "2 ^ b dvd (n :: nat) \<Longrightarrow> n div 2 ^ b * 2 ^ b = n"
  by (rule dvd_div_mult_self)

text \<open>An area in hand is cut after its first \<open>j\<close> blocks.\<close>

lemma hand_cut:
  assumes i: "inv_h (a # hs) ba" and j: "0 < j" "j < blk_count a"
  shows "own_area ba (part 0 j a)" "own_area ba (part j (blk_count a - j) a)" "holds x (part 0 j a) + holds x (part j (blk_count a - j) a) = holds x a"
    "part 0 j a = \<lparr>area_map = area_map a, blk_count = j, bin_num = bin_num a\<rparr>"
proof -
  have a: "bin_area ba (bin_num a) a" using inv_hD(3) [OF i, of a] by (simp add: own_area_def)
  show "own_area ba (part 0 j a)" "own_area ba (part j (blk_count a - j) a)"
    using part_own [OF a, of 0 j] part_own [OF a, of j "blk_count a - j"] j by (simp_all add: own_area_def)
  show "holds x (part 0 j a) + holds x (part j (blk_count a - j) a) = holds x a" using part_split [of a j "blk_count a - j" 0 x] j by simp
  show "part 0 j a = \<lparr>area_map = area_map a, blk_count = j, bin_num = bin_num a\<rparr>" by (simp add: part_def)
qed

text \<open>The area from \<open>addr\<close> on that the code keeps after the first cut.\<close>

lemma drop_part:
  assumes a: "area_ok ba a" "mem_start ba + mem_size ba < 2 ^ 64" and j: "0 < j" "j < blk_count a" and c: "c = part 0 j a"
  shows "a\<lparr>area_map := add64 (area_map a) (AREA_SIZE c), blk_count := sub64 (blk_count a) (blk_count c)\<rparr> = part j (blk_count a - j) a"
proof -
  have "j * 2 ^ bin_num a \<le> blk_count a * 2 ^ bin_num a" using j by simp
  then have m: "area_map a + j * 2 ^ bin_num a < 2 ^ 64" using a unfolding area_ok_def by linarith
  then have "AREA_SIZE c = j * 2 ^ bin_num a" using c by (simp add: AREA_SIZE_def BLOCK_SIZE_def mul64_eq)
  moreover have "sub64 (blk_count a) j = blk_count a - j" using j area_end(3) [OF a] by (intro sub64_eq) simp_all
  ultimately show ?thesis using c m by (cases a) (simp add: part_def add64_eq)
qed

definition contains :: "nat \<Rightarrow> nat \<Rightarrow> buddy_area \<Rightarrow> bool" where
  "contains addr sz a \<longleftrightarrow> area_map a \<le> addr \<and> addr + sz \<le> area_map a + area_bytes a"

lemma contains_cells: "0 < sz \<Longrightarrow> {addr ..< addr + sz} \<subseteq> cells a \<longleftrightarrow> contains addr sz a"
  by (auto simp: contains_def cells_def area_bytes_def)

lemma block_index:
  assumes "area_map a \<le> addr" "addr < area_map a + area_bytes a"
  shows "(addr - area_map a) div 2 ^ bin_num a < blk_count a" "area_map a + (addr - area_map a) div 2 ^ bin_num a * 2 ^ bin_num a \<le> addr"
proof -
  have "addr - area_map a < blk_count a * 2 ^ bin_num a" using assms by (simp add: area_bytes_def)
  then show "(addr - area_map a) div 2 ^ bin_num a < blk_count a" by (rule less_mult_imp_div_less)
  have "(addr - area_map a) div 2 ^ bin_num a * 2 ^ bin_num a \<le> addr - area_map a" by simp
  then show "area_map a + (addr - area_map a) div 2 ^ bin_num a * 2 ^ bin_num a \<le> addr" using assms(1) by linarith
qed

lemma part_bytes: "j \<le> blk_count a \<Longrightarrow> area_map (part j (blk_count a - j) a) + area_bytes (part j (blk_count a - j) a) = area_map a + area_bytes a"
proof -
  assume "j \<le> blk_count a"
  then have "blk_count a * 2 ^ bin_num a = j * 2 ^ bin_num a + (blk_count a - j) * 2 ^ bin_num a" by (simp flip: add_mult_distrib)
  then show ?thesis by (simp add: area_bytes_def)
qed

lemma reserve_head_ok:
  assumes i: "inv_h (a # hs) ba" and sz: "0 < sz" "contains addr sz a" and r: "reserve_head addr a ba = (ba', q)"
  shows "q = None \<and> ba' = ba \<or> (\<exists>c. q = Some c \<and> kept (a # hs) ba (c # hs) ba' \<and> alloc ba' = alloc ba \<and> contains addr sz c \<and> bin_num c = bin_num a)"
proof -
  let ?j = "(addr - area_map a) div 2 ^ bin_num a"
  have a: "own_area ba a" "area_ok ba a" using inv_hD(3) [OF i, of a] own_areaD by simp_all
  have in_a: "area_map a \<le> addr" "addr < area_map a + area_bytes a" using sz by (simp_all add: contains_def)
  note B = block_index [OF in_a]
  have "addr < 2 ^ 64" using in_a(2) a(2) inv_hD(6) [OF i] by (simp add: area_ok_def area_bytes_def)
  then have k: "BLOCK_COUNT (sub64 addr (AREA_START a)) (bin_num a) = ?j" using in_a(1) by (simp add: BLOCK_COUNT_def AREA_START_def sub64_eq)
  note run = r [unfolded reserve_head_def Let_def k, unfolded AREA_START_def]
  show ?thesis
  proof (cases "?j = 0")
    case True
    then show ?thesis using run sz kept_refl [OF i] by auto
  next
    case False
    then have j: "0 < ?j" by simp
    note H = hand_cut [OF i j B(1)]
    obtain ba1 p where h: "buddy_hk_alloc (area_map a) (bin_num a) ?j ba = (ba1, p)" by fastforce
    show ?thesis
    proof (cases p)
      case None
      then show ?thesis using run False h hk_alloc_cases [OF inv_hD(1) [OF i] h] by auto
    next
      case (Some c)
      let ?r = "part ?j (blk_count a - ?j) a"
      have w: "holds x ?r + holds x \<lparr>area_map = area_map a, blk_count = ?j, bin_num = bin_num a\<rparr> = holds x a" for x
        using H(3) [of x] unfolding H(4) by simp
      note S = kept_split [OF i h [unfolded Some] H(2) H(1) [unfolded H(4)] w]
      have "inv_h (c # ?r # hs) ba1" using S(1) by (simp add: kept_def)
      note P = kept_put [OF this]
      have c: "c = part 0 ?j a" using S(2) H(4) by simp
      have "ba' = buddy_bins_put c ba1" "q = Some ?r"
        using run False h Some drop_part [OF a(2) inv_hD(6) [OF i] j B(1) c] by auto
      moreover have "contains addr sz ?r" using B(2) part_bytes [of ?j a] B(1) sz by (simp add: contains_def)
      ultimately show ?thesis using kept_trans [OF S(1) P(1)] P(2) S(3) by simp
    qed
  qed
qed

text \<open>An area is cut at an address on a block boundary.\<close>

lemma cut_at:
  assumes a: "area_ok ba a" "mem_start ba + mem_size ba < 2 ^ 64" and e: "area_map a < e" "e \<le> area_map a + area_bytes a" "2 ^ bin_num a dvd e - area_map a"
  obtains j where "0 < j" "j \<le> blk_count a" "e = area_map a + j * 2 ^ bin_num a" "BLOCK_COUNT (sub64 (AREA_END a) e) (bin_num a) = blk_count a - j"
    "sub64 (blk_count a) (blk_count a - j) = j"
proof -
  obtain j where "e - area_map a = 2 ^ bin_num a * j" using e(3) by (metis dvdE)
  then have j: "e = area_map a + j * 2 ^ bin_num a" using e(1) by (simp add: mult.commute)
  then have le: "j * 2 ^ bin_num a \<le> blk_count a * 2 ^ bin_num a" "0 < j" using e by (simp_all add: area_bytes_def)
  then have jb: "j \<le> blk_count a" by simp
  have E: "AREA_END a = area_map a + blk_count a * 2 ^ bin_num a" "AREA_END a < 2 ^ 64"
    using area_end(2) [OF a] a by (simp_all add: area_ok_def)
  have "sub64 (AREA_END a) e = AREA_END a - e" using E e(2) by (intro sub64_eq) (simp_all add: area_bytes_def)
  also have "\<dots> = (blk_count a - j) * 2 ^ bin_num a" unfolding E(1) j by (simp add: diff_mult_distrib)
  finally have "BLOCK_COUNT (sub64 (AREA_END a) e) (bin_num a) = blk_count a - j" by (simp add: BLOCK_COUNT_def)
  moreover have "sub64 (blk_count a) (blk_count a - j) = j" using area_end(3) [OF a] jb by (simp add: sub64_eq)
  ultimately show ?thesis using that [OF le(2) jb j] by simp
qed

lemma round_up:
  fixes x A :: nat
  assumes "2 ^ m dvd A" and "x \<le> A" and "x mod 2 ^ m \<noteq> 0"
  shows "x + (2 ^ m - x mod 2 ^ m) \<le> A" "2 ^ m dvd x + (2 ^ m - x mod 2 ^ m)"
proof -
  let ?q = "x div 2 ^ m"
  have x: "x = ?q * 2 ^ m + x mod 2 ^ m" "x mod 2 ^ m < 2 ^ m" by (rule div_mult_mod_eq [symmetric], simp)
  have e: "x + (2 ^ m - x mod 2 ^ m) = (?q + 1) * 2 ^ m" using x by (simp add: add_mult_distrib)
  show "2 ^ m dvd x + (2 ^ m - x mod 2 ^ m)" unfolding e by simp
  obtain p where p: "A = 2 ^ m * p" using assms(1) by (metis dvdE)
  have "?q * 2 ^ m < x" using x(1) assms(3) by linarith
  also have "x \<le> p * 2 ^ m" using assms(2) p by (simp add: mult.commute)
  finally have "?q < p" by (rule mult_right_less_imp_less) simp
  then have "?q + 1 \<le> p" by simp
  then have "(?q + 1) * 2 ^ m \<le> p * 2 ^ m" by (simp only: mult_le_mono1)
  then show "x + (2 ^ m - x mod 2 ^ m) \<le> A" unfolding e p by (simp add: mult.commute)
qed

text \<open>The part from \<open>e\<close> on is taken off an area in hand.\<close>

lemma split_tail:
  assumes i: "inv_h (a # hs) ba" and e: "area_map a < e" "e \<le> area_map a + area_bytes a" "2 ^ bin_num a dvd e - area_map a"
    and k: "k = BLOCK_COUNT (sub64 (AREA_END a) e) (bin_num a)" "k \<noteq> 0" and h: "buddy_hk_alloc e (bin_num a) k ba = (ba1, Some c)"
  shows "kept (a # hs) ba (c # a\<lparr>blk_count := sub64 (blk_count a) (blk_count c)\<rparr> # hs) ba1" "alloc ba1 = alloc ba"
    "area_map a + area_bytes (a\<lparr>blk_count := sub64 (blk_count a) (blk_count c)\<rparr>) = e" "cells c = {e ..< area_map a + area_bytes a}"
proof -
  have a: "area_ok ba a" using inv_hD(3) [OF i, of a] own_areaD by simp
  obtain j where j: "0 < j" "j \<le> blk_count a" "e = area_map a + j * 2 ^ bin_num a" "k = blk_count a - j" "sub64 (blk_count a) (blk_count a - j) = j"
    using cut_at [OF a inv_hD(6) [OF i] e] k(1) by metis
  have jl: "j < blk_count a" using j k(2) by simp
  note H = hand_cut [OF i j(1) jl]
  have r: "part j (blk_count a - j) a = \<lparr>area_map = e, blk_count = k, bin_num = bin_num a\<rparr>" using j by (simp add: part_def)
  note S = kept_split [OF i h H(1) H(2) [unfolded r] H(3) [unfolded r]]
  have c: "a\<lparr>blk_count := sub64 (blk_count a) (blk_count c)\<rparr> = part 0 j a" using S(2) j(4,5) by (simp add: head_part)
  show "kept (a # hs) ba (c # a\<lparr>blk_count := sub64 (blk_count a) (blk_count c)\<rparr> # hs) ba1" "alloc ba1 = alloc ba" unfolding c by (fact S)+
  show "area_map a + area_bytes (a\<lparr>blk_count := sub64 (blk_count a) (blk_count c)\<rparr>) = e" unfolding c by (simp add: j(3) area_bytes_def)
  have "j * 2 ^ bin_num a + k * 2 ^ bin_num a = blk_count a * 2 ^ bin_num a" using j(2,4) by (simp flip: add_mult_distrib)
  then show "cells c = {e ..< area_map a + area_bytes a}" unfolding S(2) by (simp add: cells_def area_bytes_def j(3) add.assoc)
qed

lemma reserve_tail_ok:
  assumes i: "inv_h (a # hs) ba" and sz: "0 < sz" "contains addr sz a" "bin_num a = min_bin ba" and r: "reserve_tail addr sz a ba = (ba', c)"
  shows "kept (a # hs) ba (c # hs) ba' \<and> alloc ba' = alloc ba \<and> contains addr sz c"
proof -
  let ?b = "bin_num a" let ?A = "area_map a + area_bytes a"
  define o1 where "o1 = (addr + sz) mod 2 ^ ?b"
  define t where "t = (if o1 \<noteq> 0 then sz + (2 ^ ?b - o1) else sz)"
  have a: "area_ok ba a" using inv_hD(3) [OF i, of a] own_areaD by simp
  have A: "?A < 2 ^ 64" "2 ^ ?b dvd area_map a" using a inv_hD(6) [OF i] sz(3) by (simp_all add: area_ok_def area_bytes_def)
  then have dA: "2 ^ ?b dvd ?A" by (simp add: area_bytes_def)
  have c: "area_map a \<le> addr" "addr + sz \<le> ?A" using sz(2) by (simp_all add: contains_def)
  have e: "addr + t \<le> ?A" "2 ^ ?b dvd addr + t"
    using round_up [OF dA c(2)] c(2) unfolding t_def o1_def by (auto simp: add.assoc)
  have e3: "addr + sz \<le> addr + t" by (simp add: t_def)
  have lt: "addr + sz < 2 ^ 64" "addr + t < 2 ^ 64" using c(2) e(1) A(1) by linarith+
  have o1: "off_block (add64 addr sz) ?b = o1" "(if o1 \<noteq> 0 then add64 sz (BLOCK_SIZE ?b - o1) else sz) = t" "add64 addr t = addr + t"
    using lt by (simp_all add: off_block_def o1_def BLOCK_SIZE_def add64_eq t_def split: if_splits)
  have ee: "area_map a < addr + t" "2 ^ ?b dvd addr + t - area_map a" using c(1) sz(1) e e3 A(2) by (auto intro: dvd_diff_nat)
  let ?k = "BLOCK_COUNT (sub64 (AREA_END a) (addr + t)) ?b"
  note run = r [unfolded reserve_tail_def Let_def o1]
  show ?thesis
  proof (cases "?k = 0")
    case True
    then show ?thesis using run kept_refl [OF i] sz(2) by simp
  next
    case False
    obtain ba1 p where h: "buddy_hk_alloc (addr + t) ?b ?k ba = (ba1, p)" by fastforce
    show ?thesis
    proof (cases p)
      case None
      then have "ba' = ba" "c = a" using run False h hk_alloc_cases [OF inv_hD(1) [OF i] h] by auto
      then show ?thesis using kept_refl [OF i] sz(2) by simp
    next
      case (Some d)
      let ?r = "a\<lparr>blk_count := sub64 (blk_count a) (blk_count d)\<rparr>"
      note T = split_tail [OF i ee(1) e(1) ee(2) refl False h [unfolded Some]]
      have "inv_h (d # ?r # hs) ba1" using T(1) by (simp add: kept_def)
      note P = kept_put [OF this]
      have "ba' = buddy_bins_put d ba1" "c = ?r" using run False h Some by auto
      moreover have "contains addr sz ?r" using T(3) e3 c(1) by (simp add: contains_def)
      ultimately show ?thesis using kept_trans [OF T(1) P(1)] P(2) T(2) by simp
    qed
  qed
qed

section \<open>Reservation\<close>

lemma own_bin: "own_area ba a \<Longrightarrow> min_bin ba \<le> bin_num a"
  by (simp add: own_area_def bin_area_def area_ok_def)

lemma kept_min_bin: "kept hs ba hs' ba' \<Longrightarrow> min_bin ba' = min_bin ba"
  using confD(4) [of ba' ba] by (simp add: kept_def)

text \<open>The area that was found is cut down to the range; a cut for which no structure is left is not done.\<close>

lemma reserve_trim_ok:
  assumes i: "inv_h (a # hs) ba" and sz: "0 < sz" "contains addr sz a" "bin_num a = min_bin ba"
    and r: "(case reserve_head addr a ba of (ba2, None) \<Rightarrow> (ba2, a) | (ba2, Some a2) \<Rightarrow> reserve_tail addr sz a2 ba2) = (ba', c)"
  shows "kept (a # hs) ba (c # hs) ba' \<and> alloc ba' = alloc ba \<and> contains addr sz c"
proof -
  obtain ba2 q where h: "reserve_head addr a ba = (ba2, q)" by fastforce
  show ?thesis
  proof (cases q)
    case None
    then have "ba' = ba" "c = a" using h r reserve_head_ok [OF i sz(1,2) h] by auto
    then show ?thesis using kept_refl [OF i] sz(2) by simp
  next
    case (Some d)
    then have d: "kept (a # hs) ba (d # hs) ba2" "alloc ba2 = alloc ba" "contains addr sz d" "bin_num d = bin_num a" using reserve_head_ok [OF i sz(1,2) h] by auto
    have i2: "inv_h (d # hs) ba2" "bin_num d = min_bin ba2" using d(1,4) sz(3) kept_min_bin [OF d(1)] by (simp_all add: kept_def)
    have "reserve_tail addr sz d ba2 = (ba', c)" using r h Some by simp
    then show ?thesis using reserve_tail_ok [OF i2(1) sz(1) d(3) i2(2)] kept_trans [OF d(1)] d(2) by auto
  qed
qed

lemma mem_reserve_ok:
  assumes i: "inv_h [] ba" and al: "mem_aligned ba" and e: "addr + sz \<le> mem_start ba + mem_size ba"
  shows "\<exists>ba' rc. buddy_mem_reserve addr sz ba = Done (ba', rc) \<and> kept [] ba [] ba'
    \<and> (rc = VMM_OK \<and> (\<exists>a. inserted a ba ba' \<and> {addr ..< addr + sz} \<subseteq> cells a) \<or> rc \<in> {VMM_EINVALID, VMM_ENOTAVAIL} \<and> ba' = ba)"
proof (cases "sz = 0 \<or> \<not> in_memory ba addr")
  case True
  then show ?thesis using kept_refl [OF i] by (simp add: buddy_mem_reserve_def)
next
  case False
  then have sz: "0 < sz" by simp
  obtain ba1 r where b: "reserve_bins [min_bin ba..<Suc (max_bin ba)] addr sz ba = (ba1, r)" by fastforce
  note R = reserve_bins_ok [OF i al sz e b]
  show ?thesis
  proof (cases r)
    case None
    then have "buddy_mem_reserve addr sz ba = Done (ba, VMM_ENOTAVAIL)" using False b R by (simp add: buddy_mem_reserve_def)
    then show ?thesis using kept_refl [OF i] by simp
  next
    case (Some a)
    then have a: "kept [] ba [a] ba1" "alloc ba1 = alloc ba" "contains addr sz a" using R contains_cells [OF sz] by auto
    then have i1: "inv_h [a] ba1" by (simp add: kept_def)
    note d = downgrade_ok [OF inv_hD(3) [OF i1, of a, simplified] refl inv_hD(6) [OF i1]]
    have k1: "kept [a] ba1 [downgrade ba1 a] ba1" by (rule kept_swap [OF i1 d(1,2)])
    then have i2: "inv_h [downgrade ba1 a] ba1" by (simp add: kept_def)
    have c: "contains addr sz (downgrade ba1 a)" using a(3) d(3-5) by (simp add: contains_def area_bytes_def)
    obtain ba3 a3 where t: "(case reserve_head addr (downgrade ba1 a) ba1 of (ba2, None) \<Rightarrow> (ba2, downgrade ba1 a) | (ba2, Some a2) \<Rightarrow> reserve_tail addr sz a2 ba2) = (ba3, a3)"
      by fastforce
    have t1: "kept [downgrade ba1 a] ba1 [a3] ba3" "alloc ba3 = alloc ba1" "contains addr sz a3"
      using reserve_trim_ok [OF i2 sz c d(4) t] by simp_all
    then have "inv_h [a3] ba3" by (simp add: kept_def)
    then obtain ba' where f: "buddy_alloc_add a3 ba3 = Done ba'" "kept [a3] ba3 [] ba'" "mset (alloc ba') = mset (a3 # alloc ba3)"
      "remove1 a3 (alloc ba') = alloc ba3" using alloc_add_ok by blast
    have "buddy_mem_reserve addr sz ba = Done (ba', VMM_OK)" using False b Some t f(1) by (simp add: buddy_mem_reserve_def Let_def)
    moreover have "kept [] ba [] ba'" using kept_trans [OF kept_trans [OF kept_trans [OF a(1) k1] t1(1)] f(2)] .
    moreover have "inserted a3 ba ba'" using f(3,4) t1(2) a(2) by (simp add: inserted_def)
    ultimately show ?thesis using t1(3) contains_cells [OF sz] by auto
  qed
qed

end
