(* ===== verification/BuddyFree.thy ===== *)
theory BuddyFree
  imports BuddyReserve
begin

text \<open>
  Partial release, the initialisation, and what holds of the buddy allocator after every sequence of operations.
\<close>

section \<open>Partial release\<close>

lemma hk_alloc_some: "0 < hk_free_count ba \<Longrightarrow> buddy_hk_alloc m b k ba = (ba\<lparr>hk_free_count := hk_free_count ba - 1\<rparr>, Some \<lparr>area_map = m, blk_count = k, bin_num = b\<rparr>)"
  by (simp add: buddy_hk_alloc_def)

lemma hk_alloc_bins: "buddy_hk_alloc m b k ba = (ba1, p) \<Longrightarrow> bins ba1 = bins ba \<and> hk_free_count ba \<le> Suc (hk_free_count ba1)"
  by (auto simp: buddy_hk_alloc_def split: if_splits)

lemma alloc_add_hk: "buddy_alloc_add a ba = Done ba' \<Longrightarrow> hk_free_count ba' = hk_free_count ba"
  by (auto simp: buddy_alloc_add_def)

text \<open>The part before \<open>addr\<close> stays allocated; when no structure is left for it the flag is false and the area is not cut.\<close>

lemma keep_head_ok:
  assumes i: "inv_h (a # hs) ba" and b: "bin_num a = min_bin ba" and in_a: "area_map a \<le> addr" "addr < area_map a + area_bytes a"
    and off: "(addr - area_map a) div 2 ^ bin_num a \<noteq> 0 \<longrightarrow> 2 ^ bin_num a dvd addr"
  shows "\<exists>ba' c ok. keep_head addr a ba = Done (ba', c, ok) \<and> kept (a # hs) ba (c # hs) ba' \<and> bins ba' = bins ba \<and> bin_num c = bin_num a
    \<and> area_map c \<le> addr \<and> area_map c + area_bytes c = area_map a + area_bytes a
    \<and> (0 < hk_free_count ba \<longrightarrow> ok \<and> hk_free_count ba \<le> Suc (hk_free_count ba') \<and> addr < area_map c + 2 ^ bin_num a)"
proof -
  let ?b = "bin_num a" let ?j = "(addr - area_map a) div 2 ^ ?b"
  have a: "own_area ba a" "area_ok ba a" using inv_hD(3) [OF i, of a] own_areaD by simp_all
  note B = block_index [OF in_a]
  have "addr < 2 ^ 64" using in_a(2) a(2) inv_hD(6) [OF i] by (simp add: area_ok_def area_bytes_def)
  then have k: "BLOCK_COUNT (sub64 addr (AREA_START a)) ?b = ?j" using in_a(1) by (simp add: BLOCK_COUNT_def AREA_START_def sub64_eq)
  have def: "keep_head addr a ba = (if ?j \<noteq> 0 \<and> 2 ^ ?b dvd addr
      then case buddy_hk_alloc (area_map a) ?b ?j ba of (ba1, None) \<Rightarrow> Done (ba1, a, False)
         | (ba1, Some c) \<Rightarrow> bind_result (buddy_alloc_add c ba1) (\<lambda>ba2.
             Done (ba2, a\<lparr>area_map := add64 (area_map a) (AREA_SIZE c), blk_count := sub64 (blk_count a) (blk_count c)\<rparr>, True))
      else Done (ba, a, True))"
    unfolding keep_head_def Let_def k by (simp only: off_block_def BLOCK_SIZE_def AREA_START_def dvd_eq_mod_eq_0)
  show ?thesis
  proof (cases "?j = 0")
    case True
    then have "addr - area_map a < 2 ^ ?b" by (simp add: div_eq_0_iff)
    then have "addr < area_map a + 2 ^ ?b" by linarith
    then show ?thesis using True def kept_refl [OF i] in_a(1) by auto
  next
    case False
    then have j: "0 < ?j" "2 ^ ?b dvd addr" using off by simp_all
    note H = hand_cut [OF i j(1) B(1)]
    obtain ba1 p where h: "buddy_hk_alloc (area_map a) ?b ?j ba = (ba1, p)" by fastforce
    show ?thesis
    proof (cases p)
      case None
      then have "ba1 = ba" "hk_free_count ba = 0" using h by (auto simp: buddy_hk_alloc_def split: if_splits)
      then show ?thesis using None h def j kept_refl [OF i] in_a(1) by auto
    next
      case (Some c)
      let ?r = "part ?j (blk_count a - ?j) a"
      have w: "holds x ?r + holds x \<lparr>area_map = area_map a, blk_count = ?j, bin_num = ?b\<rparr> = holds x a" for x
        using H(3) [of x] unfolding H(4) by simp
      note S = kept_split [OF i h [unfolded Some] H(2) H(1) [unfolded H(4)] w]
      have "inv_h (c # ?r # hs) ba1" using S(1) by (simp add: kept_def)
      then obtain ba2 where f: "buddy_alloc_add c ba1 = Done ba2" "kept (c # ?r # hs) ba1 (?r # hs) ba2" "bins ba2 = bins ba1" using alloc_add_ok by blast
      have c: "c = part 0 ?j a" using S(2) H(4) by simp
      have "2 ^ ?b dvd addr - area_map a" using j(2) a(2) b by (simp add: area_ok_def)
      then have m: "area_map ?r = addr" using in_a(1) by (simp add: dvd_div_mult_self)
      have "keep_head addr a ba = Done (ba2, ?r, True)"
        using def j h Some f(1) drop_part [OF a(2) inv_hD(6) [OF i] j(1) B(1) c] by simp
      moreover have "kept (a # hs) ba (?r # hs) ba2" by (rule kept_trans [OF S(1) f(2)])
      moreover have "bins ba2 = bins ba" "hk_free_count ba \<le> Suc (hk_free_count ba2)" using f(3) hk_alloc_bins [OF h] alloc_add_hk [OF f(1)] by simp_all
      ultimately show ?thesis using m part_bytes [of ?j a] B(1) by auto
    qed
  qed
qed

lemma keep_tail_ok:
  assumes i: "inv_h (a # hs) ba" and b: "bin_num a = min_bin ba" and sz: "0 < sz" "area_map a \<le> addr" "addr + sz \<le> area_map a + area_bytes a"
    and off: "(area_map a + area_bytes a - (addr + sz)) div 2 ^ bin_num a \<noteq> 0 \<longrightarrow> 2 ^ bin_num a dvd addr + sz"
  shows "\<exists>ba' c. keep_tail addr sz a ba = Done (ba', c) \<and> kept (a # hs) ba (c # hs) ba' \<and> bins ba' = bins ba
    \<and> area_map c = area_map a \<and> bin_num c = bin_num a \<and> addr + sz \<le> area_map c + area_bytes c \<and> area_bytes c \<le> area_bytes a
    \<and> (0 < hk_free_count ba \<longrightarrow> area_map c + area_bytes c < addr + sz + 2 ^ bin_num a)"
proof -
  let ?b = "bin_num a" let ?e = "addr + sz"
  have a: "area_ok ba a" using inv_hD(3) [OF i, of a] own_areaD by simp
  have E: "AREA_END a = area_map a + area_bytes a" "area_map a + area_bytes a < 2 ^ 64"
    using area_end(2) [OF a inv_hD(6) [OF i]] a inv_hD(6) [OF i] by (simp_all add: area_bytes_def area_ok_def)
  have e64: "add64 addr sz = ?e" using sz(3) E(2) by (intro add64_eq) linarith
  let ?k = "BLOCK_COUNT (sub64 (AREA_END a) ?e) ?b"
  have k: "?k = (area_map a + area_bytes a - ?e) div 2 ^ ?b" using sz(3) E by (simp add: BLOCK_COUNT_def sub64_eq)
  have def: "keep_tail addr sz a ba = (if ?k \<noteq> 0 \<and> 2 ^ ?b dvd ?e
      then case buddy_hk_alloc ?e ?b ?k ba of (ba1, None) \<Rightarrow> Done (ba1, a)
         | (ba1, Some c) \<Rightarrow> bind_result (buddy_alloc_add c ba1) (\<lambda>ba2. Done (ba2, a\<lparr>blk_count := sub64 (blk_count a) (blk_count c)\<rparr>))
      else Done (ba, a))"
    unfolding keep_tail_def Let_def e64 by (simp only: off_block_def BLOCK_SIZE_def dvd_eq_mod_eq_0)
  show ?thesis
  proof (cases "?k = 0")
    case True
    then have "area_map a + area_bytes a - ?e < 2 ^ ?b" using k by (simp add: div_eq_0_iff)
    then have "area_map a + area_bytes a < ?e + 2 ^ ?b" by linarith
    then show ?thesis using True def kept_refl [OF i] sz(3) by simp
  next
    case False
    then have d: "2 ^ ?b dvd ?e" using off k by simp
    obtain ba1 p where h: "buddy_hk_alloc ?e ?b ?k ba = (ba1, p)" by fastforce
    show ?thesis
    proof (cases p)
      case None
      then have "ba1 = ba" "hk_free_count ba = 0" using h by (auto simp: buddy_hk_alloc_def split: if_splits)
      then show ?thesis using None h def False d kept_refl [OF i] sz(3) by simp
    next
      case (Some c)
      let ?r = "a\<lparr>blk_count := sub64 (blk_count a) (blk_count c)\<rparr>"
      have "area_map a < ?e" "2 ^ ?b dvd ?e - area_map a" using sz d a b by (auto simp: area_ok_def)
      note T = split_tail [OF i this(1) sz(3) this(2) refl False h [unfolded Some]]
      have "inv_h (c # ?r # hs) ba1" using T(1) by (simp add: kept_def)
      then obtain ba2 where f: "buddy_alloc_add c ba1 = Done ba2" "kept (c # ?r # hs) ba1 (?r # hs) ba2" "bins ba2 = bins ba1" using alloc_add_ok by blast
      have "keep_tail addr sz a ba = Done (ba2, ?r)" using def False d h Some f(1) by simp
      moreover have "kept (a # hs) ba (?r # hs) ba2" by (rule kept_trans [OF T(1) f(2)])
      moreover have "bins ba2 = bins ba" using f(3) hk_alloc_bins [OF h] by simp
      ultimately show ?thesis using T(3) sz(3) by simp
    qed
  qed
qed

lemma put_free_cells:
  assumes i: "inv_h [a] ba"
  shows "free_cells (buddy_bins_put a ba) = free_cells ba \<union> cells a"
proof -
  note p = kept_put [OF i]
  have "bins_weight (holds x) (buddy_bins_put a ba) = bins_weight (holds x) ba + holds x a" for x
  proof -
    have "cover [] (buddy_bins_put a ba) x = cover [a] ba x" using p(1) by (simp add: kept_def)
    then show ?thesis using p(2) by (simp add: cover_def)
  qed
  then show ?thesis by (auto simp: free_cells_def holds_def)
qed

text \<open>
  The result of a partial release of a range in an allocated area: either nothing changes, because the range is not in whole
  blocks, or an area that contains the range is free, with enough house-keeping structures less than a block more on both sides.
\<close>

definition partial_outcome :: "nat \<Rightarrow> nat \<Rightarrow> buddy_allocator \<Rightarrow> (buddy_allocator \<times> vmm_rc) result \<Rightarrow> bool" where
  "partial_outcome addr sz ba res \<longleftrightarrow> (\<exists>ba' rc. res = Done (ba', rc) \<and> kept [] ba [] ba'
     \<and> (rc = VMM_EINVALID \<and> ba' = ba \<and> \<not> (2 ^ min_bin ba dvd addr \<and> 2 ^ min_bin ba dvd addr + sz)
        \<or> rc = VMM_OK \<and> (\<exists>c. own_area ba c \<and> bin_num c = min_bin ba \<and> contains addr sz c \<and> free_cells ba' = free_cells ba \<union> cells c
            \<and> (2 \<le> hk_free_count ba \<longrightarrow> addr < area_map c + 2 ^ min_bin ba \<and> area_map c + area_bytes c < addr + sz + 2 ^ min_bin ba))))"

lemma partial_free_ok:
  assumes i: "inv_h [] ba" and a: "a \<in> set (alloc ba)" and sz: "0 < sz" "contains addr sz a"
  shows "partial_outcome addr sz ba (buddy_mem_partial_free addr sz ba)"
proof -
  let ?a = "downgrade ba a" let ?b = "min_bin ba" let ?ba = "buddy_alloc_del a ba"
  let ?A = "area_map ?a + area_bytes ?a"
  note d = downgrade_ok [OF inv_hD(2) [OF i a] refl inv_hD(6) [OF i]]
  have c: "contains addr sz ?a" using sz(2) d(3-5) by (simp add: contains_def area_bytes_def)
  then have in_a: "area_map ?a \<le> addr" "addr < ?A" "addr + sz \<le> ?A" using sz(1) by (simp_all add: contains_def)
  have ok: "area_ok ba ?a" by (rule own_areaD(1) [OF d(1)])
  have E: "AREA_END ?a = ?A" "?A < 2 ^ 64" using area_end(2) [OF ok inv_hD(6) [OF i]] ok inv_hD(6) [OF i] by (simp_all add: area_bytes_def area_ok_def)
  have mem: "in_memory ba addr" using ok in_a inv_hD(6) [OF i] by (simp add: in_memory_def area_ok_def area_bytes_def add64_eq)
  have find: "buddy_alloc_find ba addr = Some a" using find_cells(1) [OF i, of addr a] a sz by (simp add: contains_def cells_def area_bytes_def)
  have ar: "add64 addr sz = addr + sz" "sub64 addr (AREA_START ?a) = addr - area_map ?a" "sub64 (AREA_END ?a) (addr + sz) = ?A - (addr + sz)"
    using in_a E by (simp_all add: add64_eq sub64_eq AREA_START_def)
  let ?c1 = "BLOCK_COUNT (addr - area_map ?a) ?b \<noteq> 0 \<and> off_block addr ?b \<noteq> 0"
  let ?c2 = "BLOCK_COUNT (?A - (addr + sz)) ?b \<noteq> 0 \<and> off_block (addr + sz) ?b \<noteq> 0"
  have def: "buddy_mem_partial_free addr sz ba = (if ?c1 then Done (ba, VMM_EINVALID) else if ?c2 then Done (ba, VMM_EINVALID)
      else bind_result (keep_head addr ?a ?ba) (\<lambda>(ba1, a1, ok). bind_result (if ok then keep_tail addr sz a1 ba1 else Done (ba1, a1)) (\<lambda>(ba2, a2).
             Done (buddy_bins_put a2 ba2, VMM_OK))))"
    unfolding buddy_mem_partial_free_def Let_def find ar option.case using mem by (simp only: simp_thms if_False)
  show ?thesis
  proof (cases "?c1 \<or> ?c2")
    case True
    then have "buddy_mem_partial_free addr sz ba = Done (ba, VMM_EINVALID)" unfolding def by (elim disjE) (simp_all only: if_True if_cancel simp_thms)
    moreover have "\<not> (2 ^ ?b dvd addr \<and> 2 ^ ?b dvd addr + sz)" using True by (auto simp: off_block_def BLOCK_SIZE_def)
    ultimately show ?thesis using kept_refl [OF i] by (simp add: partial_outcome_def)
  next
    case False
    then have off: "(addr - area_map ?a) div 2 ^ bin_num ?a \<noteq> 0 \<longrightarrow> 2 ^ bin_num ?a dvd addr" "(?A - (addr + sz)) div 2 ^ bin_num ?a \<noteq> 0 \<longrightarrow> 2 ^ bin_num ?a dvd addr + sz"
      using d(4) by (auto simp: BLOCK_COUNT_def off_block_def BLOCK_SIZE_def)
    have k0: "kept [] ba [?a] ?ba"
    proof -
      have k: "kept [] ba [a] ?ba" by (rule alloc_del_ok [OF i a])
      then have "inv_h [a] ?ba" "conf ?ba = conf ba" by (simp_all add: kept_def)
      then show ?thesis using kept_trans [OF k] kept_swap [of a "[]" ?ba ?a] d(1,2) own_area_conf by metis
    qed
    then have i0: "inv_h [?a] ?ba" "bin_num ?a = min_bin ?ba" using kept_min_bin [OF k0] d(4) by (simp_all add: kept_def)
    have same: "bins ?ba = bins ba" "hk_free_count ?ba = hk_free_count ba" by (simp_all add: buddy_alloc_del_def)
    obtain ba1 a1 good where h: "keep_head addr ?a ?ba = Done (ba1, a1, good)" "kept [?a] ?ba [a1] ba1" "bins ba1 = bins ?ba" "bin_num a1 = bin_num ?a"
      "area_map a1 \<le> addr" "area_map a1 + area_bytes a1 = ?A"
      "0 < hk_free_count ?ba \<longrightarrow> good \<and> hk_free_count ?ba \<le> Suc (hk_free_count ba1) \<and> addr < area_map a1 + 2 ^ bin_num ?a"
      using keep_head_ok [OF i0 in_a(1,2) off(1)] by (elim exE conjE) (rule that; assumption)
    have i1: "inv_h [a1] ba1" "bin_num a1 = min_bin ba1" using h(2,4) kept_min_bin [OF h(2)] i0(2) by (simp_all add: kept_def)
    have e1: "addr + sz \<le> area_map a1 + area_bytes a1" using h(6) in_a(3) by simp
    have "\<exists>ba2 a2. (if good then keep_tail addr sz a1 ba1 else Done (ba1, a1)) = Done (ba2, a2) \<and> kept [a1] ba1 [a2] ba2 \<and> bins ba2 = bins ba1
      \<and> area_map a2 = area_map a1 \<and> bin_num a2 = bin_num a1 \<and> addr + sz \<le> area_map a2 + area_bytes a2
      \<and> (good \<and> 0 < hk_free_count ba1 \<longrightarrow> area_map a2 + area_bytes a2 < addr + sz + 2 ^ bin_num ?a)"
    proof (cases good)
      case True
      then show ?thesis using keep_tail_ok [OF i1 sz(1) h(5) e1] off(2) h(4,6) by auto
    next
      case False
      then show ?thesis using kept_refl [OF i1(1)] e1 by simp
    qed
    then obtain ba2 a2 where t: "(if good then keep_tail addr sz a1 ba1 else Done (ba1, a1)) = Done (ba2, a2)" "kept [a1] ba1 [a2] ba2" "bins ba2 = bins ba1"
      "area_map a2 = area_map a1" "bin_num a2 = bin_num a1" "addr + sz \<le> area_map a2 + area_bytes a2"
      "good \<and> 0 < hk_free_count ba1 \<Longrightarrow> area_map a2 + area_bytes a2 < addr + sz + 2 ^ bin_num ?a" by blast
    have i2: "inv_h [a2] ba2" using t(2) by (simp add: kept_def)
    let ?r = "buddy_bins_put a2 ba2"
    have run: "buddy_mem_partial_free addr sz ba = Done (?r, VMM_OK)" unfolding def using False h(1) t(1) by simp
    have k: "kept [] ba [] ?r" using kept_trans [OF kept_trans [OF kept_trans [OF k0 h(2)] t(2)] kept_put(1) [OF i2]] .
    have "free_cells ba2 = free_cells ba" using t(3) h(3) same(1) by (simp add: free_cells_def bins_weight_def)
    then have fc: "free_cells ?r = free_cells ba \<union> cells a2" using put_free_cells [OF i2] by simp
    have sub: "contains addr sz a2" using t(4,6) h(5) by (simp add: contains_def)
    have own: "own_area ba a2" "bin_num a2 = ?b"
      using inv_hD(3) [OF i2, of a2] own_area_conf [of ba2 ba] kept_trans [OF kept_trans [OF k0 h(2)] t(2)] t(5) h(4) d(4) by (auto simp: kept_def)
    have "addr < area_map a2 + 2 ^ ?b \<and> area_map a2 + area_bytes a2 < addr + sz + 2 ^ ?b" if "2 \<le> hk_free_count ba"
    proof -
      have "good" "0 < hk_free_count ba1" "addr < area_map a1 + 2 ^ ?b" using h(7) that same(2) d(4) by auto
      then show ?thesis using t(4,7) d(4) by auto
    qed
    then show ?thesis using run k fc sub own unfolding partial_outcome_def by blast
  qed
qed

lemma partial_free_error:
  assumes i: "inv_h [] ba" and n: "\<forall>a \<in> set (alloc ba). addr \<notin> cells a"
  shows "buddy_mem_partial_free addr sz ba \<in> {Done (ba, VMM_EINVALID), Done (ba, VMM_ENOTAVAIL)}"
  using find_cells(2) [OF i, of addr] n by (simp add: buddy_mem_partial_free_def)

end
