(* ===== verification/BuddyTop.thy ===== *)
theory BuddyTop
  imports BuddyFree
begin

text \<open>
  The buddy allocator as a whole: its initialisation, the memory after every sequence of operations, the amount of free
  memory that it reports, and the contracts of the operations.
\<close>

section \<open>Initialisation\<close>

lemma estimate_cases: "min_bin ba \<le> max_bin ba \<Longrightarrow> sz \<le> 2 ^ buddy_estimate_bin ba sz \<or> buddy_estimate_bin ba sz = max_bin ba"
  by (auto simp: buddy_estimate_bin_def BLOCK_SIZE_def find_Some_iff split: option.splits)

lemma estimate_le:
  assumes "min_bin ba \<le> b" "b \<le> max_bin ba" "sz \<le> 2 ^ b"
  shows "buddy_estimate_bin ba sz \<le> b"
proof (cases "sz < 2 ^ min_bin ba")
  case True
  then show ?thesis using assms(1) by (simp add: buddy_estimate_bin_def BLOCK_SIZE_def)
next
  case False
  show ?thesis
  proof (cases "List.find (\<lambda>b. sz \<le> 2 ^ b) [min_bin ba..<max_bin ba]")
    case None
    then have "b \<notin> set [min_bin ba..<max_bin ba]" using assms(3) by (auto simp: find_None_iff)
    then show ?thesis using assms False None by (simp add: buddy_estimate_bin_def BLOCK_SIZE_def)
  next
    case (Some c)
    then obtain n where n: "c = min_bin ba + n" "\<forall>j < n. \<not> sz \<le> 2 ^ (min_bin ba + j)" by (auto simp: find_Some_iff)
    have "\<not> b - min_bin ba < n" using n(2) assms(1,3) by auto
    then have "c \<le> b" using n(1) assms(1) by linarith
    then show ?thesis using False Some by (simp add: buddy_estimate_bin_def BLOCK_SIZE_def)
  qed
qed

text \<open>The bins hold exactly the memory up to \<open>st\<close>.\<close>

definition filled :: "nat \<Rightarrow> buddy_allocator \<Rightarrow> bool" where
  "filled st ba \<longleftrightarrow> inv_h [] ba \<and> alloc ba = [] \<and> (\<forall>x. cover [] ba x = (if x \<in> {mem_start ba ..< st} then 1 else 0))"

lemma fill_step:
  assumes f: "filled st ba" and a: "own_area ba \<lparr>area_map = st, blk_count = k, bin_num = b\<rparr>" and h: "buddy_hk_alloc st b k ba = (ba1, Some c)"
  shows "filled (st + k * 2 ^ b) (buddy_bins_put c ba1)" "conf (buddy_bins_put c ba1) = conf ba"
proof -
  let ?c = "\<lparr>area_map = st, blk_count = k, bin_num = b\<rparr>"
  have i: "inv_h [] ba" and al: "alloc ba = []" and cv: "\<And>x. cover [] ba x = (if x \<in> {mem_start ba ..< st} then 1 else 0)" using f by (simp_all add: filled_def)
  note h1 = hk_alloc_cases [OF inv_hD(1) [OF i] h]
  then have c: "c = ?c" "conf ba1 = conf ba" "alloc ba1 = []" "bins ba1 = bins ba" "bins_wf 1 ba1" using al by auto
  have le: "mem_start ba \<le> st" using a by (simp add: own_area_def bin_area_def area_ok_def)
  have cv1: "cover [c] ba1 x = (if x \<in> {mem_start ba ..< st + k * 2 ^ b} then 1 else 0)" for x
    using cv [of x] c al le by (auto simp: cover_def bins_weight_def holds_def cells_def split: if_splits)
  have "inv_h [c] ba1" using c(5) c(3) a c(1) own_area_conf [OF c(2)] cv1 by (simp add: inv_h_def in_order_def)
  note p = kept_put [OF this]
  have ms: "mem_start ba1 = mem_start ba" "mem_start (buddy_bins_put c ba1) = mem_start ba1" using confD(2) [OF c(2)] confD(2) [of "buddy_bins_put c ba1" ba1] p(1) by (simp_all add: kept_def)
  have "cover [] (buddy_bins_put c ba1) = cover [c] ba1" "inv_h [] (buddy_bins_put c ba1)" using p(1) by (simp_all add: kept_def)
  then show "filled (st + k * 2 ^ b) (buddy_bins_put c ba1)" using p(2) c(3) cv1 ms unfolding filled_def by (simp only: simp_thms)
  show "conf (buddy_bins_put c ba1) = conf ba" using p(1) c(2) by (simp add: kept_def)
qed

definition fill_fuel :: "nat \<Rightarrow> nat \<Rightarrow> buddy_allocator \<Rightarrow> bool" where
  "fill_fuel n sz ba \<longleftrightarrow> sz = 0 \<and> 1 \<le> n \<or> sz < 2 ^ max_bin ba \<and> 2 \<le> n \<or> 3 \<le> n"

lemma fill_bins_ok:
  assumes "fill_fuel n sz ba" and "filled st ba" and "st + sz = mem_start ba + mem_size ba" and "mem_start ba \<le> st" and "2 ^ min_bin ba dvd st"
    and "2 ^ max_bin ba dvd mem_start ba \<longrightarrow> 2 ^ buddy_estimate_bin ba sz dvd st"
  shows "\<exists>ba' rc e. fill_bins n st sz ba = Done (ba', rc) \<and> conf ba' = conf ba \<and> filled e ba' \<and> e \<le> mem_start ba + mem_size ba
    \<and> (rc = VMM_OK \<and> mem_start ba + mem_size ba < e + 2 ^ max_bin ba \<or> rc = VMM_ENOMEM)"
  using assms
proof (induction n arbitrary: st sz ba)
  case 0
  then show ?case by (simp add: fill_fuel_def)
next
  case (Suc n)
  let ?b = "buddy_estimate_bin ba sz" let ?E = "mem_start ba + mem_size ba" let ?k = "sz div 2 ^ ?b"
  have i: "inv_h [] ba" using Suc.prems(2) by (simp add: filled_def)
  have mm: "min_bin ba \<le> max_bin ba" "max_bin ba < 32" using bins_wfD(1,2) [OF inv_hD(1) [OF i]] by simp_all
  note b = estimate_bin [OF mm(1), of sz] and E64 = inv_hD(6) [OF i]
  show ?case
  proof (cases "sz < 2 ^ ?b")
    case True
    have "(2 :: nat) ^ ?b \<le> 2 ^ max_bin ba" using b by (intro power_increasing) simp_all
    then have "?E < st + 2 ^ max_bin ba" using True Suc.prems(3) by linarith
    moreover have "fill_bins (Suc n) st sz ba = Done (ba, VMM_OK)" using True by (simp add: BLOCK_SIZE_def Let_def)
    ultimately show ?thesis using Suc.prems(2,3) by (intro exI [of _ ba] exI [of _ VMM_OK] exI [of _ st]) simp
  next
    case False
    have "0 < (2 :: nat) ^ ?b" by simp
    then have nz: "sz \<noteq> 0" "0 < ?k" using False div_greater_zero_iff [of sz "2 ^ ?b"] by linarith+
    have m: "sz = ?k * 2 ^ ?b + sz mod 2 ^ ?b" "sz mod 2 ^ ?b < 2 ^ ?b" by (rule div_mult_mod_eq [symmetric], simp)
    have own: "own_area ba \<lparr>area_map = st, blk_count = ?k, bin_num = ?b\<rparr>"
      using Suc.prems(3-6) b nz m(1) by (simp add: own_area_def bin_area_def area_ok_def)
    have st': "st + ?k * 2 ^ ?b < 2 ^ 64" using m(1) Suc.prems(3) E64 by linarith
    have "sub64 sz (?k * 2 ^ ?b) = sz - ?k * 2 ^ ?b" using Suc.prems(3) E64 by (intro sub64_eq) simp_all
    then have ar: "mul64 ?k (2 ^ ?b) = ?k * 2 ^ ?b" "add64 st (?k * 2 ^ ?b) = st + ?k * 2 ^ ?b" "sub64 sz (?k * 2 ^ ?b) = sz mod 2 ^ ?b"
      using st' by (simp_all add: mul64_eq add64_eq minus_div_mult_eq_mod)
    obtain ba1 p where h: "buddy_hk_alloc st ?b ?k ba = (ba1, p)" by fastforce
    have run: "fill_bins (Suc n) st sz ba = (case p of None \<Rightarrow> Done (ba1, VMM_ENOMEM)
        | Some c \<Rightarrow> fill_bins n (st + ?k * 2 ^ ?b) (sz mod 2 ^ ?b) (buddy_bins_put c ba1))"
      using nz(1) False h ar by (simp add: BLOCK_SIZE_def BLOCK_COUNT_def Let_def split: option.split)
    show ?thesis
    proof (cases p)
      case None
      then have "ba1 = ba" using h by (auto simp: buddy_hk_alloc_def split: if_splits)
      then have "fill_bins (Suc n) st sz ba = Done (ba, VMM_ENOMEM)" using run None by simp
      moreover have "st \<le> ?E" using Suc.prems(3) by simp
      ultimately show ?thesis using Suc.prems(2) by blast
    next
      case (Some c)
      let ?ba = "buddy_bins_put c ba1"
      note s = fill_step [OF Suc.prems(2) own h [unfolded Some]] note C = confD [OF s(2)]
      have est: "buddy_estimate_bin ?ba x = buddy_estimate_bin ba x" for x by (simp only: buddy_estimate_bin_def C)
      have le: "buddy_estimate_bin ba (sz mod 2 ^ ?b) \<le> ?b" by (rule estimate_le) (use m(2) b in simp_all)
      have "(2 :: nat) ^ ?b \<le> 2 ^ max_bin ba" using b by (intro power_increasing) simp_all
      then have "sz mod 2 ^ ?b < 2 ^ max_bin ba" using m(2) by linarith
      moreover have "sz mod 2 ^ ?b = 0" if "sz < 2 ^ max_bin ba"
        using estimate_cases [OF mm(1), of sz] that False by (metis le_antisym linorder_not_le mod_self)
      ultimately have "fill_fuel n (sz mod 2 ^ ?b) ?ba" using Suc.prems(1) m(2) C nz(1) by (auto simp: fill_fuel_def)
      moreover have "st + ?k * 2 ^ ?b + sz mod 2 ^ ?b = ?E" using m(1) Suc.prems(3) by linarith
      moreover have "2 ^ min_bin ba dvd st + ?k * 2 ^ ?b" using Suc.prems(5) b by (auto intro!: dvd_add dvd_mult le_imp_power_dvd)
      moreover have "2 ^ buddy_estimate_bin ba (sz mod 2 ^ ?b) dvd st + ?k * 2 ^ ?b" if "2 ^ max_bin ba dvd mem_start ba"
      proof -
        have "2 ^ ?b dvd st + ?k * 2 ^ ?b" using Suc.prems(6) that by simp
        then show ?thesis using le_imp_power_dvd [OF le, of "2 :: nat"] dvd_trans by blast
      qed
      ultimately show ?thesis using Suc.IH [of "sz mod 2 ^ ?b" ?ba "st + ?k * 2 ^ ?b"] s(1) Suc.prems(4) run Some C s(2) est by simp
    qed
  qed
qed

lemma empty_filled:
  assumes "mn \<le> mx" "mx < 32" "st + sz < 2 ^ 64" "hk < 2 ^ 64"
    and "ba = \<lparr>hk_total_count = hk, hk_free_count = hk, mem_start = st, mem_size = sz, min_bin = mn, max_bin = mx, alloc = [], bins = (\<lambda>_. [])\<rparr>"
  shows "filled st ba"
  using assms by (simp add: filled_def inv_h_def bins_wf_def in_order_def cover_def bins_weight_def)

lemma filled_cells:
  assumes "filled e ba"
  shows "free_cells ba = {mem_start ba ..< e}" "used_cells ba = {}" "inv_h [] ba"
proof -
  have "alloc ba = []" "\<And>x. cover [] ba x = (if x \<in> {mem_start ba ..< e} then 1 else 0)" using assms by (simp_all add: filled_def)
  then show "free_cells ba = {mem_start ba ..< e}" "used_cells ba = {}" by (auto simp: free_cells_def used_cells_def cover_def split: if_splits)
  show "inv_h [] ba" using assms by (simp add: filled_def)
qed

lemma init_ok:
  assumes "hk < 2 ^ 64" "st < 2 ^ 64" "sz < 2 ^ 64"
  shows "buddy_allocator_init hk st sz mn mx = Done (None, VMM_EINVALID) \<or>
    (\<exists>ba rc e. buddy_allocator_init hk st sz mn mx = Done (Some ba, rc) \<and> filled e ba \<and> mem_start ba = st \<and> mem_size ba = sz
       \<and> min_bin ba = mn \<and> max_bin ba = mx \<and> e \<le> st + sz \<and> (rc = VMM_OK \<and> st + sz < e + 2 ^ mx \<or> rc = VMM_ENOMEM))"
proof -
  let ?bad = "mx < mn \<or> BUDDY_MAX_SUPPORTED_BIN \<le> mn \<or> BUDDY_MAX_SUPPORTED_BIN \<le> mx \<or> sz < (if mn = 31 then 2 ^ 64 - 2 ^ 31 else 2 ^ mn)
    \<or> off_block st mn \<noteq> 0 \<or> add64 st sz \<le> st \<or> hk = 0"
  let ?ba = "\<lparr>hk_total_count = hk, hk_free_count = hk, mem_start = st, mem_size = sz, min_bin = mn, max_bin = mx, alloc = [], bins = (\<lambda>_. [])\<rparr>"
  have def: "buddy_allocator_init hk st sz mn mx = (if ?bad then Done (None, VMM_EINVALID) else bind_result (fill_bins 3 st sz ?ba) (\<lambda>(ba, rc). Done (Some ba, rc)))"
    by (simp only: buddy_allocator_init_def)
  show ?thesis
  proof (cases ?bad)
    case True
    show ?thesis unfolding def using True by (simp only: if_True simp_thms)
  next
    case False
    then have g: "mn \<le> mx" "mx < 32" "2 ^ mn dvd st" "st < add64 st sz"
      by (simp_all only: BUDDY_MAX_SUPPORTED_BIN_def off_block_def BLOCK_SIZE_def de_Morgan_disj not_less not_le not_not dvd_eq_mod_eq_0)
    have e: "st + sz < 2 ^ 64"
    proof (rule ccontr)
      assume n: "\<not> ?thesis"
      then have "st + sz = (st + sz - 2 ^ 64) + 2 ^ 64" "st + sz - 2 ^ 64 < 2 ^ 64" using assms by linarith+
      then have "add64 st sz = st + sz - 2 ^ 64" unfolding add64_def by (metis mod_add_self2 mod_less)
      then show False using g(4) assms(3) n by linarith
    qed
    have f: "filled st ?ba" by (rule empty_filled [OF g(1,2) e assms(1) refl])
    have al: "2 ^ max_bin ?ba dvd mem_start ?ba \<longrightarrow> 2 ^ buddy_estimate_bin ?ba sz dvd st"
      using estimate_bin [of ?ba sz] g(1) le_imp_power_dvd [of _ mx "2 :: nat"] by (auto intro: dvd_trans)
    obtain ba rc x where r: "fill_bins 3 st sz ?ba = Done (ba, rc)" "conf ba = conf ?ba" "filled x ba" "x \<le> st + sz"
      "rc = VMM_OK \<and> st + sz < x + 2 ^ mx \<or> rc = VMM_ENOMEM"
      using fill_bins_ok [of 3 sz ?ba st] f g(3) al by (auto simp: fill_fuel_def)
    have "buddy_allocator_init hk st sz mn mx = Done (Some ba, rc)" unfolding def r(1) using False by (simp only: if_False bind_result.simps prod.case)
    then show ?thesis using r(3-5) confD [OF r(2)] by auto
  qed
qed

section \<open>The free memory that is reported\<close>

definition memory :: "buddy_allocator \<Rightarrow> nat set" where
  "memory ba = {mem_start ba ..< mem_start ba + mem_size ba}"

lemma sum_holds: "area_ok ba a \<Longrightarrow> (\<Sum>x \<in> memory ba. holds x a) = area_bytes a"
proof -
  assume a: "area_ok ba a"
  then have "cells a \<subseteq> memory ba" by (auto simp: cells_def memory_def area_ok_def)
  then have "memory ba \<inter> cells a = cells a" by blast
  moreover have "(\<Sum>x \<in> memory ba. holds x a) = card (memory ba \<inter> cells a)"
    unfolding holds_def by (subst sum.inter_restrict [symmetric]) (simp_all add: memory_def)
  ultimately show ?thesis by (simp add: cells_def area_bytes_def)
qed

lemma sum_weight: "\<forall>a \<in> set l. area_ok ba a \<Longrightarrow> (\<Sum>x \<in> memory ba. weight (holds x) l) = weight area_bytes l"
  by (induction l) (simp_all add: sum.distrib sum_holds)

lemma free_bytes:
  assumes i: "inv_h [] ba"
  shows "bins_weight area_bytes ba = card (free_cells ba)" "bins_weight area_bytes ba \<le> mem_size ba"
proof -
  have ok: "\<forall>a \<in> set (bins ba b). area_ok ba a" for b using bins_wfD(5) [OF inv_hD(1) [OF i]] by (auto simp: bin_area_def)
  have out: "bins_weight (holds x) ba = 0" if "x \<notin> memory ba" for x
  proof -
    have "holds x a = 0" if "area_ok ba a" for a using that \<open>x \<notin> memory ba\<close> by (auto simp: holds_def cells_def memory_def area_ok_def)
    then have "weight (holds x) (bins ba b) = 0" for b using ok [of b] by (simp add: weight_def)
    then show ?thesis by (simp add: bins_weight_def)
  qed
  have one: "bins_weight (holds x) ba = (if x \<in> free_cells ba then 1 else 0)" for x
    using inv_hD(5) [OF i, of x] by (auto simp: free_cells_def cover_def)
  have sub: "free_cells ba \<subseteq> memory ba"
  proof
    show "x \<in> memory ba" if "x \<in> free_cells ba" for x using out [of x] that by (cases "x \<in> memory ba") (simp_all add: free_cells_def)
  qed
  have "bins_weight area_bytes ba = (\<Sum>b < 32. \<Sum>x \<in> memory ba. weight (holds x) (bins ba b))" unfolding bins_weight_def using sum_weight [OF ok] by simp
  also have "\<dots> = (\<Sum>x \<in> memory ba. bins_weight (holds x) ba)" unfolding bins_weight_def by (rule sum.swap)
  also have "\<dots> = card (memory ba \<inter> free_cells ba)" unfolding one by (subst sum.inter_restrict [symmetric]) (simp_all add: memory_def)
  also have "memory ba \<inter> free_cells ba = free_cells ba" using sub by blast
  finally show e: "bins_weight area_bytes ba = card (free_cells ba)" .
  have "card (free_cells ba) \<le> card (memory ba)" using sub by (intro card_mono) (simp_all add: memory_def)
  then show "bins_weight area_bytes ba \<le> mem_size ba" unfolding e by (simp add: memory_def)
qed

lemma foldl_add64: "n + sum_list (map f xs) < 2 ^ 64 \<Longrightarrow> foldl (\<lambda>n a. add64 n (f a)) n xs = n + sum_list (map f xs)"
  by (induction xs arbitrary: n) (simp_all add: add64_eq add.assoc)

lemma free_space_ok:
  assumes i: "inv_h [] ba"
  shows "buddy_bins_free_space ba = card (free_cells ba)"
proof -
  note D = bins_wfD [OF inv_hD(1) [OF i]]
  let ?w = "\<lambda>b. weight area_bytes (bins ba b)" let ?r = "[min_bin ba..<Suc (max_bin ba)]"
  have w: "?w b = sum_list (map blk_count (bins ba b)) * 2 ^ b" for b
  proof -
    have "\<forall>a \<in> set (bins ba b). bin_num a = b" using D(5) by (auto simp: bin_area_def)
    then show ?thesis unfolding weight_def by (induction "bins ba b" arbitrary: ba) (auto simp: area_bytes_def sum_list_mult_const [symmetric] cong: map_cong)
  qed
  have empty: "bins ba b = []" if "b \<notin> {min_bin ba..max_bin ba}" for b
  proof (rule ccontr)
    assume "bins ba b \<noteq> []"
    then obtain a where "a \<in> set (bins ba b)" by (meson last_in_set)
    then have "bin_area ba b a" by (rule D(5))
    then show False using that by (auto simp: bin_area_def area_ok_def)
  qed
  have "sum_list (map ?w ?r) = (\<Sum>b \<in> {min_bin ba..max_bin ba}. ?w b)" 
    by (simp add: sum_list_distinct_conv_sum_set atLeastLessThanSuc_atLeastAtMost del: upt_Suc)
  also have "\<dots> = (\<Sum>b < 32. ?w b)" using D(2) empty by (intro sum.mono_neutral_left) (auto simp: weight_def)
  finally have total: "sum_list (map ?w ?r) = card (free_cells ba)" using free_bytes(1) [OF i] by (simp add: bins_weight_def)
  have T64: "card (free_cells ba) < 2 ^ 64" using free_bytes [OF i] D(3) by linarith
  have blk: "mul64 (buddy_bins_block_count ba b) (BLOCK_SIZE b) = ?w b" if "b \<in> set ?r" for b
  proof -
    have "?w b \<in> set (map ?w ?r)" using that by (simp del: upt_Suc)
    then have "?w b \<le> sum_list (map ?w ?r)" by (rule member_le_sum_list) simp
    then have w64: "?w b < 2 ^ 64" using total T64 by linarith
    have "sum_list (map blk_count (bins ba b)) \<le> ?w b" unfolding w by simp
    then have "0 + sum_list (map blk_count (bins ba b)) < 2 ^ 64" using w64 by linarith
    from foldl_add64 [OF this] have "buddy_bins_block_count ba b = sum_list (map blk_count (bins ba b))" using that by (auto simp: buddy_bins_block_count_def)
    then show ?thesis using w64 unfolding w BLOCK_SIZE_def by (simp add: mul64_eq)
  qed
  have "buddy_bins_free_space ba = foldl (\<lambda>n b. add64 n (?w b)) 0 ?r"
    unfolding buddy_bins_free_space_def by (rule foldl_cong) (simp_all add: blk del: upt_Suc)
  also have "\<dots> = sum_list (map ?w ?r)" using foldl_add64 [of 0 ?w ?r] total T64 by simp
  finally show ?thesis using total by simp
qed

section \<open>Sequences of operations\<close>

datatype buddy_op = Buddy_alloc nat | Buddy_aligned nat nat | Buddy_reserve nat nat | Buddy_free nat | Buddy_partial nat nat

fun run_buddy :: "buddy_op \<Rightarrow> buddy_allocator \<Rightarrow> buddy_allocator result" where
  "run_buddy (Buddy_alloc sz) ba = bind_result (buddy_mem_alloc sz ba) (\<lambda>(ba', _). Done ba')"
| "run_buddy (Buddy_aligned order sz) ba = bind_result (buddy_mem_aligned_alloc order sz ba) (\<lambda>(ba', _). Done ba')"
| "run_buddy (Buddy_reserve addr sz) ba = bind_result (buddy_mem_reserve addr sz ba) (\<lambda>(ba', _). Done ba')"
| "run_buddy (Buddy_free addr) ba = Done (fst (buddy_mem_free addr ba))"
| "run_buddy (Buddy_partial addr sz) ba = bind_result (buddy_mem_partial_free addr sz ba) (\<lambda>(ba', _). Done ba')"

text \<open>
  What a caller has to respect: a reserved range ends in the memory, and the range of a partial release is not empty and does not
  leave the allocated area.  The code checks neither.
\<close>

fun buddy_op_ok :: "buddy_allocator \<Rightarrow> buddy_op \<Rightarrow> bool" where
  "buddy_op_ok ba (Buddy_alloc sz) \<longleftrightarrow> sz < 2 ^ 64"
| "buddy_op_ok ba (Buddy_aligned order sz) \<longleftrightarrow> sz < 2 ^ 64"
| "buddy_op_ok ba (Buddy_reserve addr sz) \<longleftrightarrow> mem_aligned ba \<and> addr + sz \<le> mem_start ba + mem_size ba"
| "buddy_op_ok ba (Buddy_free addr) \<longleftrightarrow> True"
| "buddy_op_ok ba (Buddy_partial addr sz) \<longleftrightarrow> 0 < sz \<and> list_all (\<lambda>a. addr \<in> cells a \<longrightarrow> contains addr sz a) (alloc ba)"

text \<open>The states of an allocator that was given the memory \<open>M\<close>.\<close>

inductive buddy_state :: "nat set \<Rightarrow> buddy_allocator \<Rightarrow> bool" where
  buddy_start: "buddy_allocator_init hk st sz mn mx = Done (Some ba, rc) \<Longrightarrow> hk < 2 ^ 64 \<Longrightarrow> st < 2 ^ 64 \<Longrightarrow> sz < 2 ^ 64 \<Longrightarrow> buddy_state (free_cells ba) ba"
| buddy_step: "buddy_state M ba \<Longrightarrow> buddy_op_ok ba op \<Longrightarrow> run_buddy op ba = Done ba' \<Longrightarrow> buddy_state M ba'"

lemma alloc_outcomeD: "alloc_outcome order sz ba (res :: (buddy_allocator \<times> (vmm_rc + nat)) result) \<Longrightarrow> \<exists>ba' r. res = Done (ba', r) \<and> kept [] ba [] ba'"
  by (auto simp: alloc_outcome_def)

lemma run_buddy_ok:
  assumes i: "inv_h [] ba" and o: "buddy_op_ok ba op"
  shows "\<exists>ba'. run_buddy op ba = Done ba' \<and> kept [] ba [] ba'"
proof (cases op)
  case (Buddy_alloc sz)
  then show ?thesis using alloc_outcomeD [OF mem_alloc_ok [OF i, of sz]] o by auto
next
  case (Buddy_aligned order sz)
  then show ?thesis using alloc_outcomeD [OF aligned_alloc_ok [OF i, of sz order]] o by auto
next
  case (Buddy_reserve addr sz)
  then show ?thesis using mem_reserve_ok [OF i, of addr sz] o by auto
next
  case (Buddy_free addr)
  then show ?thesis using mem_free_ok [OF i, of _ addr] mem_free_error [OF i, of addr] kept_refl [OF i] by (cases "\<exists>a \<in> set (alloc ba). addr \<in> cells a") fastforce+
next
  case (Buddy_partial addr sz)
  show ?thesis
  proof (cases "\<exists>a \<in> set (alloc ba). addr \<in> cells a")
    case True
    then obtain a where "a \<in> set (alloc ba)" "0 < sz" "contains addr sz a" using o Buddy_partial by (auto simp: list_all_iff)
    from partial_free_ok [OF i this] show ?thesis using Buddy_partial by (auto simp: partial_outcome_def)
  next
    case False
    then show ?thesis using partial_free_error [OF i, of addr sz] kept_refl [OF i] Buddy_partial by auto
  qed
qed

lemma buddy_state_inv:
  assumes "buddy_state M ba"
  shows "inv_h [] ba" "free_cells ba \<union> used_cells ba = M"
proof -
  have "inv_h [] ba \<and> free_cells ba \<union> used_cells ba = M"
    using assms
  proof (induction rule: buddy_state.induct)
    case (buddy_start hk st sz mn mx ba rc)
    then obtain e where "filled e ba" using init_ok [of hk st sz mn mx] by auto
    then show ?case using filled_cells [of e ba] by simp
  next
    case (buddy_step M ba op ba')
    then have k: "kept [] ba [] ba'" using run_buddy_ok [of ba op] by auto
    then show ?case using buddy_step.IH kept_cells(1) [of ba ba'] by (simp add: kept_def)
  qed
  then show "inv_h [] ba" "free_cells ba \<union> used_cells ba = M" by simp_all
qed

section \<open>A small allocator\<close>

text \<open>Thirty-two bytes from address sixteen on, with blocks of four to sixteen bytes and eight house-keeping structures.\<close>

definition demo_with :: "nat \<Rightarrow> buddy_area list \<Rightarrow> (nat \<Rightarrow> buddy_area list) \<Rightarrow> buddy_allocator" where
  "demo_with k al bs = \<lparr>hk_total_count = 8, hk_free_count = k, mem_start = 16, mem_size = 32, min_bin = 2, max_bin = 4, alloc = al, bins = bs\<rparr>"

definition demo_buddy :: buddy_allocator where
  "demo_buddy = demo_with 7 [] ((\<lambda>_. [])(4 := [\<lparr>area_map = 16, blk_count = 2, bin_num = 4\<rparr>]))"

text \<open>After an allocation of five bytes.\<close>

definition demo_rest :: "nat \<Rightarrow> buddy_area list" where
  "demo_rest = (\<lambda>_. [])(4 := [\<lparr>area_map = 32, blk_count = 1, bin_num = 4\<rparr>])"

definition demo_used :: buddy_allocator where
  "demo_used = demo_with 5 [\<lparr>area_map = 16, blk_count = 2, bin_num = 2\<rparr>] (demo_rest(3 := [\<lparr>area_map = 24, blk_count = 1, bin_num = 3\<rparr>]))"

lemmas buddy_eval = add64_def sub64_def mul64_def BLOCK_SIZE_def BLOCK_COUNT_def off_block_def AREA_SIZE_def AREA_START_def AREA_END_def
  buddy_hk_alloc_def buddy_hk_free_def hk_free_n_def set_bin_def

lemma demo_put: "buddy_bins_put \<lparr>area_map = 16, blk_count = 2, bin_num = 4\<rparr> (demo_with 7 [] (\<lambda>_. [])) = demo_buddy"
  by (subst buddy_bins_put.simps) (simp add: bins_put_step_def set_bin_def hk_free_n_def demo_with_def demo_buddy_def)

lemma demo_fill: "fill_bins 3 16 32 (demo_with 8 [] (\<lambda>_. [])) = Done (demo_buddy, VMM_OK)"
  by (subst numeral_3_eq_3, subst fill_bins.simps)
    (simp add: demo_put [unfolded demo_with_def] buddy_eval buddy_estimate_bin_def upt_conv_Cons demo_with_def)

lemma demo_init: "buddy_allocator_init 8 16 32 2 4 = Done (Some demo_buddy, VMM_OK)"
  using demo_fill by (simp add: buddy_allocator_init_def BUDDY_MAX_SUPPORTED_BIN_def buddy_eval demo_with_def del: bind_result_eq_Done)

lemma demo_state: "buddy_state (free_cells demo_buddy) demo_buddy"
  by (rule buddy_start [OF demo_init]) simp_all

lemma demo_get4: "buddy_bins_get 4 1 demo_buddy = (demo_with 6 [] demo_rest, Some \<lparr>area_map = 16, blk_count = 1, bin_num = 4\<rparr>)"
  by (subst buddy_bins_get.simps) (simp add: demo_buddy_def demo_with_def demo_rest_def buddy_eval)

lemma demo_put_rest:
  "buddy_bins_put \<lparr>area_map = 24, blk_count = 1, bin_num = 3\<rparr> (demo_with 5 [] demo_rest)
     = demo_with 5 [] (demo_rest(3 := [\<lparr>area_map = 24, blk_count = 1, bin_num = 3\<rparr>]))"
  by (subst buddy_bins_put.simps) (simp add: bins_put_step_def buddy_eval merge_blocks_def merge_pairs_def demo_rest_def demo_with_def)

lemma demo_get3:
  "buddy_bins_get 3 1 demo_buddy
     = (demo_with 5 [] (demo_rest(3 := [\<lparr>area_map = 24, blk_count = 1, bin_num = 3\<rparr>])), Some \<lparr>area_map = 16, blk_count = 1, bin_num = 3\<rparr>)"
proof -
  have e: "min_bin demo_buddy = 2" "max_bin demo_buddy = 4" "bins demo_buddy 3 = []" by (simp_all add: demo_buddy_def demo_with_def)
  show ?thesis
    using demo_get4 demo_put_rest by (subst buddy_bins_get.simps) (simp add: e buddy_eval demo_with_def)
qed

lemma demo_alloc: "buddy_mem_alloc 5 demo_buddy = Done (demo_used, Inr 16)"
proof -
  have e: "buddy_estimate_bin demo_buddy 5 = 3" by (simp add: demo_buddy_def demo_with_def buddy_estimate_bin_def BLOCK_SIZE_def upt_conv_Cons)
  have b: "blocks_for 5 3 = 1" "blocks_for 5 2 = 2" by (simp_all add: blocks_for_def buddy_eval)
  show ?thesis
    by (simp add: buddy_mem_alloc_def e b(1) demo_get3 [unfolded One_nat_def] downgrade_def trim_area_def b(2) mul64_def add_allocated_def
        buddy_alloc_add_def demo_with_def demo_used_def del: bind_result_eq_Done)
qed

lemma demo_used_state: "buddy_state (free_cells demo_buddy) demo_used"
  by (rule buddy_step [OF demo_state, of "Buddy_alloc 5"]) (simp_all add: demo_alloc)

section \<open>Contracts\<close>

lemma areas_disjoint:
  assumes i: "inv_h [] ba"
  shows "distinct (alloc ba)" "a \<in> set (alloc ba) \<Longrightarrow> c \<in> set (alloc ba) \<Longrightarrow> a \<noteq> c \<Longrightarrow> cells a \<inter> cells c = {}"
proof -
  have "distinct xs" if "in_order xs" "\<forall>a \<in> set xs. area_map a < AREA_END a" for xs
    using that by (induction xs) (force simp: in_order_def AREA_START_def)+
  moreover have "\<forall>a \<in> set (alloc ba). area_map a < AREA_END a"
    using area_end(2) [OF own_areaD(1) [OF inv_hD(2) [OF i]] inv_hD(6) [OF i]] own_areaD(1) [OF inv_hD(2) [OF i]] by (force simp: area_ok_def)
  ultimately show "distinct (alloc ba)" using inv_hD(4) [OF i] by blast
  show "cells a \<inter> cells c = {}" if "a \<in> set (alloc ba)" "c \<in> set (alloc ba)" "a \<noteq> c"
    using find_cells(1) [OF i, of _ a] find_cells(1) [OF i, of _ c] that by force
qed

text \<open>
  C19.  An initialised allocator has seen any sequence of allocations, aligned allocations, reservations and releases with arguments
  that the allocator can handle: sizes below the address space, reservations inside the memory of an allocator whose memory is aligned to its
  largest blocks, and partial releases that are not empty and do not run past the end of an allocated area (\<open>BuddyBugs\<close> shows what the others
  do).  Then the memory it was given is the disjoint union of the free cells and the allocated areas, no two allocated areas overlap, the free space it
  reports is the number of free cells, and no further operation with such arguments runs into a \<^verbatim>\<open>BUG_ON\<close>.
\<close>

theorem buddy_memory_safe:
  assumes "buddy_state M ba"
  shows "free_cells ba \<union> used_cells ba = M \<and> free_cells ba \<inter> used_cells ba = {}
    \<and> (\<forall>i < length (alloc ba). \<forall>j < i. cells (alloc ba ! i) \<inter> cells (alloc ba ! j) = {})
    \<and> buddy_bins_free_space ba = card (free_cells ba)
    \<and> (\<forall>op. buddy_op_ok ba op \<longrightarrow> (\<exists>ba'. run_buddy op ba = Done ba' \<and> buddy_state M ba'))"
proof (intro conjI allI impI)
  note i = buddy_state_inv(1) [OF assms]
  show "free_cells ba \<union> used_cells ba = M" by (rule buddy_state_inv(2) [OF assms])
  show "free_cells ba \<inter> used_cells ba = {}" by (rule cells_partition(1) [OF i])
  show "cells (alloc ba ! m) \<inter> cells (alloc ba ! n) = {}" if "m < length (alloc ba)" "n < m" for m n
    using areas_disjoint [OF i] that by (simp add: nth_eq_iff_index_eq)
  show "buddy_bins_free_space ba = card (free_cells ba)" by (rule free_space_ok [OF i])
  show "\<exists>ba'. run_buddy op ba = Done ba' \<and> buddy_state M ba'" if "buddy_op_ok ba op" for op
    using run_buddy_ok [OF i that] buddy_step [OF assms that] by blast
qed

theorem buddy_memory_safe_witness:
  "buddy_bins_free_space demo_used = card (free_cells demo_used) \<and> free_cells demo_used \<inter> used_cells demo_used = {}
   \<and> (\<exists>ba'. run_buddy (Buddy_free 18) demo_used = Done ba' \<and> buddy_state (free_cells demo_buddy) ba')"
proof -
  have "buddy_op_ok demo_used (Buddy_free 18)" by simp
  then show ?thesis using buddy_memory_safe [OF demo_used_state] by blast
qed

text \<open>
  C20.  An aligned allocation either fails and leaves the allocated areas and the free cells as they are, or returns the start of an area
  of at least the size that consists of cells that were free, and takes exactly these.  In a memory that starts at a multiple of the
  largest block the address has the alignment that was asked for.
\<close>

theorem buddy_aligned_alloc_spec:
  assumes "buddy_state M ba" and "sz < 2 ^ 64"
  shows "\<exists>ba' r. buddy_mem_aligned_alloc order sz ba = Done (ba', r) \<and>
    (case r of Inl e \<Rightarrow> alloc ba' = alloc ba \<and> free_cells ba' = free_cells ba
     | Inr addr \<Rightarrow> (2 ^ max_bin ba dvd mem_start ba \<longrightarrow> 2 ^ order dvd addr) \<and>
         (\<exists>a. remove1 a (alloc ba') = alloc ba \<and> mset (alloc ba') = mset (a # alloc ba) \<and> area_map a = addr \<and> {addr ..< addr + sz} \<subseteq> cells a
            \<and> cells a \<subseteq> free_cells ba \<and> free_cells ba' = free_cells ba - cells a))"
proof -
  note i = buddy_state_inv(1) [OF assms(1)]
  obtain ba' r where r: "buddy_mem_aligned_alloc order sz ba = Done (ba', r)" "kept [] ba [] ba'"
    "case r of Inl e \<Rightarrow> alloc ba' = alloc ba
        | Inr addr \<Rightarrow> (2 ^ max_bin ba dvd mem_start ba \<longrightarrow> 2 ^ order dvd addr) \<and> (\<exists>a. added addr sz a ba ba')"
    using aligned_alloc_ok [OF i assms(2), of order] by (auto simp: alloc_outcome_def)
  show ?thesis
  proof (cases r)
    case (Inl e)
    then have "alloc ba' = alloc ba" using r(3) by simp
    then have "free_cells ba' = free_cells ba" using kept_cells(2) [OF i r(2)] cells_partition(1) [OF i] by (auto simp: used_cells_def)
    then show ?thesis using r Inl by auto
  next
    case (Inr addr)
    then obtain a where a: "added addr sz a ba ba'" using r(3) by auto
    then have "inserted a ba ba'" "area_map a = addr" by (simp_all add: added_def)
    then show ?thesis using r Inr inserted_cells [OF i r(2)] added_cells [OF a] by (auto simp: inserted_def)
  qed
qed

theorem buddy_aligned_alloc_spec_witness:
  "\<exists>ba' r. buddy_mem_aligned_alloc 4 5 demo_used = Done (ba', r) \<and>
    (case r of Inl e \<Rightarrow> alloc ba' = alloc demo_used \<and> free_cells ba' = free_cells demo_used
     | Inr addr \<Rightarrow> 16 dvd addr \<and> (\<exists>a. remove1 a (alloc ba') = alloc demo_used \<and> mset (alloc ba') = mset (a # alloc demo_used) \<and> area_map a = addr
         \<and> {addr ..< addr + 5} \<subseteq> cells a \<and> cells a \<subseteq> free_cells demo_used \<and> free_cells ba' = free_cells demo_used - cells a))"
proof -
  have "(2 :: nat) ^ max_bin demo_used dvd mem_start demo_used" "(2 :: nat) ^ 4 = 16" by (simp_all add: demo_used_def demo_with_def)
  then show ?thesis using buddy_aligned_alloc_spec [OF demo_used_state, of 5 4] by (simp only: simp_thms numeral_less_iff) simp
qed

text \<open>Releasing an allocation by any address inside it restores the allocated areas, the free cells and the free space.\<close>

theorem buddy_free_undoes_alloc:
  assumes "buddy_state M ba" and "sz < 2 ^ 64" and "buddy_mem_alloc sz ba = Done (ba1, Inr addr)" and "x \<in> {addr ..< addr + sz}"
  shows "\<exists>ba2. buddy_mem_free x ba1 = (ba2, VMM_OK) \<and> alloc ba2 = alloc ba \<and> free_cells ba2 = free_cells ba
    \<and> buddy_bins_free_space ba2 = buddy_bins_free_space ba"
proof -
  note i = buddy_state_inv(1) [OF assms(1)]
  obtain a where a: "kept [] ba [] ba1" "added addr sz a ba ba1" using mem_alloc_ok [OF i assms(2)] assms(3) by (auto simp: alloc_outcome_def)
  then have ins: "inserted a ba ba1" "inv_h [] ba1" by (simp_all add: added_def kept_def)
  have "x \<in> cells a" using added_cells [OF a(2)] assms(4) by blast
  from mem_free_ok [OF ins(2) inserted_cells(3) [OF i a(1) ins(1)] this] obtain ba2 where
    f: "buddy_mem_free x ba1 = (ba2, VMM_OK)" "kept [] ba1 [] ba2" "alloc ba2 = remove1 a (alloc ba1)" by blast
  have al: "alloc ba2 = alloc ba" using f(3) ins(1) by (simp add: inserted_def)
  have k: "kept [] ba [] ba2" "inv_h [] ba2" using kept_trans [OF a(1) f(2)] f(2) by (simp_all add: kept_def)
  have fc: "free_cells ba2 = free_cells ba" using kept_cells(2) [OF i k(1)] cells_partition(1) [OF i] al by (auto simp: used_cells_def)
  then show ?thesis using f(1) al free_space_ok [OF i] free_space_ok [OF k(2)] by simp
qed

theorem buddy_free_undoes_alloc_witness:
  "\<exists>ba2. buddy_mem_free 18 demo_used = (ba2, VMM_OK) \<and> alloc ba2 = [] \<and> free_cells ba2 = free_cells demo_buddy
    \<and> buddy_bins_free_space ba2 = buddy_bins_free_space demo_buddy"
proof -
  have "alloc demo_buddy = []" by (simp add: demo_buddy_def demo_with_def)
  then show ?thesis using buddy_free_undoes_alloc [OF demo_state _ demo_alloc, of 18] by simp
qed

text \<open>
  A reservation of a range that ends in the memory either takes an area that contains the range, all of whose cells were free, or
  changes nothing.
\<close>

theorem buddy_reserve_spec:
  assumes "buddy_state M ba" and "mem_aligned ba" and "addr + sz \<le> mem_start ba + mem_size ba"
  shows "\<exists>ba' rc. buddy_mem_reserve addr sz ba = Done (ba', rc) \<and>
    (rc = VMM_OK \<and> (\<exists>a. remove1 a (alloc ba') = alloc ba \<and> a \<in> set (alloc ba') \<and> {addr ..< addr + sz} \<subseteq> cells a \<and> cells a \<subseteq> free_cells ba
                        \<and> free_cells ba' = free_cells ba - cells a)
     \<or> rc \<in> {VMM_EINVALID, VMM_ENOTAVAIL} \<and> ba' = ba)"
proof -
  note i = buddy_state_inv(1) [OF assms(1)]
  obtain ba' rc where r: "buddy_mem_reserve addr sz ba = Done (ba', rc)" "kept [] ba [] ba'"
    "rc = VMM_OK \<and> (\<exists>a. inserted a ba ba' \<and> {addr ..< addr + sz} \<subseteq> cells a) \<or> rc \<in> {VMM_EINVALID, VMM_ENOTAVAIL} \<and> ba' = ba"
    using mem_reserve_ok [OF i assms(2,3)] by blast
  have "remove1 a (alloc ba') = alloc ba \<and> a \<in> set (alloc ba') \<and> cells a \<subseteq> free_cells ba \<and> free_cells ba' = free_cells ba - cells a" if "inserted a ba ba'" for a
    using inserted_cells [OF i r(2) that] that by (simp add: inserted_def)
  then show ?thesis using r by blast
qed

theorem buddy_reserve_spec_witness:
  "\<exists>ba' rc. buddy_mem_reserve 36 5 demo_used = Done (ba', rc) \<and>
    (rc = VMM_OK \<and> (\<exists>a. remove1 a (alloc ba') = alloc demo_used \<and> a \<in> set (alloc ba') \<and> {36 ..< 41} \<subseteq> cells a \<and> cells a \<subseteq> free_cells demo_used
                        \<and> free_cells ba' = free_cells demo_used - cells a)
     \<or> rc \<in> {VMM_EINVALID, VMM_ENOTAVAIL} \<and> ba' = demo_used)"
proof -
  have "mem_aligned demo_used" "36 + 5 \<le> mem_start demo_used + mem_size demo_used" by (simp_all add: mem_aligned_def demo_used_def demo_with_def)
  from buddy_reserve_spec [OF demo_used_state this] show ?thesis by simp
qed

lemma multiples_eq:
  fixes s x d :: nat
  assumes "d dvd s" "d dvd x" "s \<le> x" "x < s + d"
  shows "s = x"
proof -
  have "d dvd x - s" using assms(1,2) by (rule dvd_diff_nat [rotated])
  moreover have "x - s < d" using assms(3,4) by simp
  ultimately have "x - s = 0" by (auto dest: nat_dvd_not_less)
  then show ?thesis using assms(3) by simp
qed

text \<open>
  C21.  A partial release of whole blocks inside an allocated area frees exactly the range, when two house-keeping structures are
  left for what stays allocated before and after it.
\<close>

theorem buddy_partial_free_exact:
  assumes "buddy_state M ba" and "a \<in> set (alloc ba)" and "0 < sz" and "contains addr sz a" and "2 ^ min_bin ba dvd addr" and "2 ^ min_bin ba dvd sz"
    and "2 \<le> hk_free_count ba"
  shows "\<exists>ba'. buddy_mem_partial_free addr sz ba = Done (ba', VMM_OK) \<and> free_cells ba' = free_cells ba \<union> {addr ..< addr + sz}
    \<and> used_cells ba' = used_cells ba - {addr ..< addr + sz}"
proof -
  let ?d = "2 ^ min_bin ba"
  note i = buddy_state_inv(1) [OF assms(1)]
  have "?d dvd addr + sz" using assms(5,6) by simp
  then obtain ba' c where r: "buddy_mem_partial_free addr sz ba = Done (ba', VMM_OK)" "kept [] ba [] ba'" "own_area ba c" "bin_num c = min_bin ba"
    "contains addr sz c" "free_cells ba' = free_cells ba \<union> cells c" "addr < area_map c + ?d" "area_map c + area_bytes c < addr + sz + ?d"
    using partial_free_ok [OF i assms(2-4)] assms(5,7) by (auto simp: partial_outcome_def)
  have c: "?d dvd area_map c" "?d dvd area_map c + area_bytes c" using own_areaD(1) [OF r(3)] r(4) by (simp_all add: area_ok_def area_bytes_def)
  have "area_map c = addr" using multiples_eq [OF c(1) assms(5)] r(5,7) by (simp add: contains_def)
  moreover have "addr + sz = area_map c + area_bytes c" using multiples_eq [OF \<open>?d dvd addr + sz\<close> c(2)] r(5,8) by (simp add: contains_def)
  ultimately have f: "cells c = {addr ..< addr + sz}" using r(4) by (simp add: cells_def area_bytes_def)
  have i': "inv_h [] ba'" using r(2) by (simp add: kept_def)
  have "{addr ..< addr + sz} \<subseteq> cells a" using contains_cells [OF assms(3)] assms(4) by blast
  then have "{addr ..< addr + sz} \<subseteq> used_cells ba" using assms(2) by (auto simp: used_cells_def)
  then have "used_cells ba' = used_cells ba - {addr ..< addr + sz}"
    using kept_cells(1) [OF i r(2)] cells_partition(1) [OF i] cells_partition(1) [OF i'] r(6) unfolding f by blast
  then show ?thesis using r(1,6) f by auto
qed

theorem buddy_partial_free_exact_witness:
  "\<exists>ba'. buddy_mem_partial_free 20 4 demo_used = Done (ba', VMM_OK) \<and> free_cells ba' = free_cells demo_used \<union> {20 ..< 24}
    \<and> used_cells ba' = used_cells demo_used - {20 ..< 24}"
proof -
  have a: "\<lparr>area_map = 16, blk_count = 2, bin_num = 2\<rparr> \<in> set (alloc demo_used)" "min_bin demo_used = 2" "hk_free_count demo_used = 5"
    by (simp_all add: demo_used_def demo_with_def)
  have "contains 20 4 \<lparr>area_map = 16, blk_count = 2, bin_num = 2\<rparr>" by (simp add: contains_def area_bytes_def)
  from buddy_partial_free_exact [OF demo_used_state a(1) _ this] a(2,3) show ?thesis by simp
qed

end
