(* ===== verification/BuddyBugs.thy ===== *)
theory BuddyBugs
  imports BuddyTop
begin

text \<open>
  What the buddy allocator does outside of its contracts: ranges that the code does not check, a shortage of house-keeping
  structures, and memory that is not aligned to the largest block.
\<close>

lemma put_step_alloc: "alloc (fst (bins_put_step a ba)) = alloc ba"
proof -
  have p: "alloc (fst (merge_pairs b pre m suf ba1)) = alloc ba1" for b pre m suf ba1
    by (auto simp: merge_pairs_def buddy_hk_alloc_def set_bin_def buddy_hk_free_def Let_def)
  have "alloc (fst (merge_blocks b pre m suf ba1)) = alloc ba1" for b pre m suf ba1
    using p by (auto simp: merge_blocks_def buddy_hk_alloc_def set_bin_def)
  then show ?thesis by (auto simp: bins_put_step_def Let_def set_bin_def split: prod.split)
qed

lemma put_alloc: "alloc (buddy_bins_put a ba) = alloc ba"
proof (induction a ba rule: buddy_bins_put.induct)
  case (1 a ba)
  obtain ba1 r where s: "bins_put_step a ba = (ba1, r)" by fastforce
  then show ?case using "1.IH" [of ba1 r] put_step_alloc [of a ba] by (subst buddy_bins_put.simps) (cases r; simp)
qed

text \<open>A partial release of no bytes succeeds and leaves an area without blocks in a bin.\<close>

lemma partial_free_of_nothing:
  "\<exists>ba'. buddy_mem_partial_free 16 0 demo_used = Done (ba', VMM_OK) \<and> bins ba' 2 = [\<lparr>area_map = 16, blk_count = 0, bin_num = 2\<rparr>]"
proof -
  let ?ba = "demo_with 4 [\<lparr>area_map = 16, blk_count = 2, bin_num = 2\<rparr>] (demo_rest(3 := [\<lparr>area_map = 24, blk_count = 1, bin_num = 3\<rparr>]))"
  have "buddy_mem_partial_free 16 0 demo_used = Done (buddy_bins_put \<lparr>area_map = 16, blk_count = 0, bin_num = 2\<rparr> ?ba, VMM_OK)"
    by (simp add: buddy_mem_partial_free_def demo_used_def demo_with_def in_memory_def buddy_alloc_find_def downgrade_def keep_head_def keep_tail_def
        buddy_alloc_add_def buddy_alloc_del_def buddy_eval Let_def del: bind_result_eq_Done)
  moreover have "bins (buddy_bins_put \<lparr>area_map = 16, blk_count = 0, bin_num = 2\<rparr> ?ba) 2 = [\<lparr>area_map = 16, blk_count = 0, bin_num = 2\<rparr>]"
    by (subst buddy_bins_put.simps) (simp add: bins_put_step_def merge_blocks_def merge_pairs_def demo_with_def demo_rest_def buddy_eval)
  ultimately show ?thesis by blast
qed

text \<open>A partial release that reaches past the end of the area succeeds and enters an area of almost the whole address space as allocated.\<close>

lemma partial_free_past_end:
  "\<exists>ba'. buddy_mem_partial_free 20 8 demo_used = Done (ba', VMM_OK) \<and> \<lparr>area_map = 28, blk_count = 2 ^ 62 - 1, bin_num = 2\<rparr> \<in> set (alloc ba')"
  by (simp add: buddy_mem_partial_free_def demo_used_def demo_with_def in_memory_def buddy_alloc_find_def downgrade_def keep_head_def keep_tail_def
      buddy_alloc_add_def buddy_alloc_del_def buddy_eval Let_def put_alloc del: bind_result_eq_Done)

text \<open>A reservation whose size wraps around succeeds and reserves nothing: the memory is still in its bin.\<close>

lemma wrapped_blocks:
  "add64 18446744073709551615 (off_block 16 2) = 18446744073709551615" "blocks_for 18446744073709551615 2 = 4611686018427387904"
  "add64 18446744073709551615 (off_block 16 3) = 18446744073709551615" "blocks_for 18446744073709551615 3 = 2305843009213693952"
  "add64 18446744073709551615 (off_block 16 4) = 18446744073709551615" "blocks_for 18446744073709551615 4 = 1152921504606846976"
  by (simp_all add: blocks_for_def buddy_eval)

lemma wrapped_bins:
  "buddy_bins_reserve 2 16 18446744073709551615 demo_buddy = (demo_buddy, None)"
  "buddy_bins_reserve 3 16 18446744073709551615 demo_buddy = (demo_buddy, None)"
  by (simp_all add: buddy_bins_reserve_def demo_buddy_def demo_with_def Let_def)

lemma wrapped_found:
  "buddy_bins_reserve 4 16 18446744073709551615 demo_buddy
     = (demo_with 6 [] (bins demo_buddy), Some \<lparr>area_map = 16, blk_count = 1152921504606846976, bin_num = 4\<rparr>)"
  unfolding buddy_bins_reserve_def Let_def wrapped_blocks by (simp add: demo_buddy_def demo_with_def buddy_eval)

lemma reserve_wraps:
  "\<exists>ba'. buddy_mem_reserve 16 (2 ^ 64 - 1) demo_buddy = Done (ba', VMM_OK) \<and> bins ba' 4 = [\<lparr>area_map = 16, blk_count = 2, bin_num = 4\<rparr>]"
proof -
  have e: "min_bin demo_buddy = 2" "max_bin demo_buddy = 4" "in_memory demo_buddy 16" "bins demo_buddy 4 = [\<lparr>area_map = 16, blk_count = 2, bin_num = 4\<rparr>]"
    by (simp_all add: demo_buddy_def demo_with_def in_memory_def add64_def)
  have r: "reserve_bins [2..<Suc 4] 16 18446744073709551615 demo_buddy
      = (demo_with 6 [] (bins demo_buddy), Some \<lparr>area_map = 16, blk_count = 1152921504606846976, bin_num = 4\<rparr>)"
    by (simp add: upt_conv_Cons wrapped_bins wrapped_found)
  let ?d = "demo_with 6 [] (bins demo_buddy)" let ?a = "\<lparr>area_map = 16, blk_count = 4611686018427387904, bin_num = 2\<rparr>"
  have d: "downgrade ?d \<lparr>area_map = 16, blk_count = 1152921504606846976, bin_num = 4\<rparr> = ?a" by (simp add: downgrade_def demo_with_def mul64_def)
  have h: "reserve_head 16 ?a ?d = (?d, Some ?a)" by (simp add: reserve_head_def buddy_eval)
  have t: "reserve_tail 16 18446744073709551615 ?a ?d = (?d, ?a)"
  proof -
    have "off_block (add64 16 18446744073709551615) 2 = 3" "add64 18446744073709551615 (BLOCK_SIZE 2 - 3) = 0" "AREA_END ?a = 16"
      "BLOCK_COUNT (sub64 16 (add64 16 0)) 2 = 0" by (simp_all add: buddy_eval)
    then show ?thesis by (simp add: reserve_tail_def Let_def)
  qed
  have a: "buddy_alloc_add ?a ?d = Done (demo_with 6 [?a] (bins demo_buddy))" by (simp add: buddy_alloc_add_def demo_with_def)
  have s: "(2 :: nat) ^ 64 - 1 = 18446744073709551615" by simp
  have "buddy_mem_reserve 16 18446744073709551615 demo_buddy = Done (demo_with 6 [?a] (bins demo_buddy), VMM_OK)"
    unfolding buddy_mem_reserve_def e r Let_def d using e(3) h t a by (simp add: d del: bind_result_eq_Done)
  then show ?thesis unfolding s using e(4) by (simp add: demo_with_def)
qed

text \<open>The end of a memory that is neither a multiple of the largest block nor a power of two is never used.\<close>

definition demo_odd :: buddy_allocator where
  "demo_odd = \<lparr>hk_total_count = 8, hk_free_count = 7, mem_start = 16, mem_size = 44, min_bin = 2, max_bin = 4, alloc = [],
     bins = (\<lambda>_. [])(4 := [\<lparr>area_map = 16, blk_count = 2, bin_num = 4\<rparr>])\<rparr>"

lemma init_drops_rest: "buddy_allocator_init 8 16 44 2 4 = Done (Some demo_odd, VMM_OK)"
proof -
  have put: "buddy_bins_put \<lparr>area_map = 16, blk_count = 2, bin_num = 4\<rparr> (demo_odd\<lparr>bins := (\<lambda>_. [])\<rparr>) = demo_odd"
    by (subst buddy_bins_put.simps) (simp add: bins_put_step_def set_bin_def hk_free_n_def demo_odd_def)
  have rest: "fill_bins (Suc (Suc 0)) 48 12 demo_odd = Done (demo_odd, VMM_OK)"
    by (subst fill_bins.simps) (simp add: buddy_estimate_bin_def demo_odd_def BLOCK_SIZE_def upt_conv_Cons)
  have "fill_bins 3 16 44 (demo_odd\<lparr>hk_free_count := 8, bins := (\<lambda>_. [])\<rparr>) = Done (demo_odd, VMM_OK)"
    by (subst numeral_3_eq_3, subst fill_bins.simps)
      (use put rest in \<open>simp add: buddy_eval buddy_estimate_bin_def upt_conv_Cons demo_odd_def\<close>)
  then show ?thesis by (simp add: buddy_allocator_init_def BUDDY_MAX_SUPPORTED_BIN_def buddy_eval demo_odd_def del: bind_result_eq_Done)
qed

text \<open>In a memory that does not start at a multiple of the largest block an aligned allocation is not aligned.\<close>

definition demo_shifted :: buddy_allocator where
  "demo_shifted = \<lparr>hk_total_count = 8, hk_free_count = 7, mem_start = 4, mem_size = 32, min_bin = 2, max_bin = 4, alloc = [],
     bins = (\<lambda>_. [])(4 := [\<lparr>area_map = 4, blk_count = 2, bin_num = 4\<rparr>])\<rparr>"

lemma shifted_init: "buddy_allocator_init 8 4 32 2 4 = Done (Some demo_shifted, VMM_OK)"
proof -
  have put: "buddy_bins_put \<lparr>area_map = 4, blk_count = 2, bin_num = 4\<rparr> (demo_shifted\<lparr>bins := (\<lambda>_. [])\<rparr>) = demo_shifted"
    by (subst buddy_bins_put.simps) (simp add: bins_put_step_def set_bin_def hk_free_n_def demo_shifted_def)
  have "fill_bins 3 4 32 (demo_shifted\<lparr>hk_free_count := 8, bins := (\<lambda>_. [])\<rparr>) = Done (demo_shifted, VMM_OK)"
    by (subst numeral_3_eq_3, subst fill_bins.simps)
      (use put in \<open>simp add: buddy_eval buddy_estimate_bin_def upt_conv_Cons demo_shifted_def\<close>)
  then show ?thesis by (simp add: buddy_allocator_init_def BUDDY_MAX_SUPPORTED_BIN_def buddy_eval demo_shifted_def del: bind_result_eq_Done)
qed

lemma aligned_alloc_unaligned: "\<exists>ba'. buddy_mem_aligned_alloc 4 16 demo_shifted = Done (ba', Inr 4)"
proof -
  have e: "buddy_estimate_bin demo_shifted 16 = 4" "blocks_for 16 4 = 1" "blocks_for 16 2 = 4"
    by (simp_all add: demo_shifted_def buddy_estimate_bin_def upt_conv_Cons blocks_for_def buddy_eval)
  have f: "min_bin demo_shifted = 2" "max_bin demo_shifted = 4" "alloc demo_shifted = []" by (simp_all add: demo_shifted_def)
  have "\<exists>bs. buddy_bins_get 4 (Suc 0) demo_shifted = (demo_shifted\<lparr>hk_free_count := 6, bins := bs\<rparr>, Some \<lparr>area_map = 4, blk_count = 1, bin_num = 4\<rparr>)"
    by (subst buddy_bins_get.simps) (simp add: demo_shifted_def buddy_eval)
  then obtain bs where "buddy_bins_get 4 (Suc 0) demo_shifted = (demo_shifted\<lparr>hk_free_count := 6, bins := bs\<rparr>, Some \<lparr>area_map = 4, blk_count = 1, bin_num = 4\<rparr>)" by blast
  then show ?thesis
    by (simp add: buddy_mem_aligned_alloc_def e(1,2) downgrade_def trim_area_def e(3) mul64_def add_allocated_def buddy_alloc_add_def f
        del: bind_result_eq_Done)
qed

text \<open>A partial release for which no house-keeping structure is left releases the whole area, with the parts that are still in use.\<close>

definition demo_full :: buddy_allocator where
  "demo_full = \<lparr>hk_total_count = 2, hk_free_count = 0, mem_start = 16, mem_size = 32, min_bin = 2, max_bin = 4,
     alloc = [\<lparr>area_map = 16, blk_count = 4, bin_num = 2\<rparr>], bins = (\<lambda>_. [])(4 := [\<lparr>area_map = 32, blk_count = 1, bin_num = 4\<rparr>])\<rparr>"

lemma partial_free_exhausted: "\<exists>ba'. buddy_mem_partial_free 20 4 demo_full = Done (ba', VMM_OK) \<and> alloc ba' = []"
  by (simp add: buddy_mem_partial_free_def demo_full_def in_memory_def buddy_alloc_find_def downgrade_def keep_head_def
      buddy_alloc_del_def buddy_eval Let_def put_alloc del: bind_result_eq_Done)

text \<open>The state is reached with two structures and one allocation.\<close>

definition demo_two :: buddy_allocator where
  "demo_two = \<lparr>hk_total_count = 2, hk_free_count = 1, mem_start = 16, mem_size = 32, min_bin = 2, max_bin = 4, alloc = [],
     bins = (\<lambda>_. [])(4 := [\<lparr>area_map = 16, blk_count = 2, bin_num = 4\<rparr>])\<rparr>"

lemma full_init: "buddy_allocator_init 2 16 32 2 4 = Done (Some demo_two, VMM_OK)"
proof -
  have put: "buddy_bins_put \<lparr>area_map = 16, blk_count = 2, bin_num = 4\<rparr> (demo_two\<lparr>bins := (\<lambda>_. [])\<rparr>) = demo_two"
    by (subst buddy_bins_put.simps) (simp add: bins_put_step_def set_bin_def hk_free_n_def demo_two_def)
  have "fill_bins 3 16 32 (demo_two\<lparr>hk_free_count := 2, bins := (\<lambda>_. [])\<rparr>) = Done (demo_two, VMM_OK)"
    by (subst numeral_3_eq_3, subst fill_bins.simps)
      (use put in \<open>simp add: buddy_eval buddy_estimate_bin_def upt_conv_Cons demo_two_def\<close>)
  then show ?thesis by (simp add: buddy_allocator_init_def BUDDY_MAX_SUPPORTED_BIN_def buddy_eval demo_two_def del: bind_result_eq_Done)
qed

lemma full_alloc: "buddy_mem_alloc 16 demo_two = Done (demo_full, Inr 16)"
proof -
  have e: "buddy_estimate_bin demo_two 16 = 4" "blocks_for 16 4 = 1" "blocks_for 16 2 = 4"
    by (simp_all add: demo_two_def buddy_estimate_bin_def upt_conv_Cons blocks_for_def buddy_eval)
  have "buddy_bins_get 4 (Suc 0) demo_two = (demo_full\<lparr>alloc := []\<rparr>, Some \<lparr>area_map = 16, blk_count = 1, bin_num = 4\<rparr>)"
    by (subst buddy_bins_get.simps) (simp add: demo_two_def demo_full_def buddy_eval)
  then show ?thesis
    by (simp add: buddy_mem_alloc_def e(1,2) downgrade_def trim_area_def e(3) mul64_def add_allocated_def buddy_alloc_add_def demo_full_def
        del: bind_result_eq_Done)
qed

end
