(* ===== verification/Vapool.thy ===== *)
theory Vapool
  imports BuddyBugs
begin

text \<open>
  The pool of host virtual addresses, \<^verbatim>\<open>core/vmm_host_vapool.c\<close>: pages of virtual addresses from a buddy allocator, whose
  house-keeping structures lie inside the pool.  \<open>align_mb\<close> is \<^verbatim>\<open>CONFIG_VAPOOL_ALIGN_MB\<close>.
\<close>

section \<open>State and operations\<close>

record vapool_ctrl =
  vapool_start :: nat
  vapool_size :: nat
  vapool_page_count :: nat
  vapool_ba :: buddy_allocator

definition VAPOOL_MIN_BIN :: nat where "VAPOOL_MIN_BIN = 12"

text \<open>\<^verbatim>\<open>__builtin_ctz\<close> of an unsigned integer of 32 bits, which is not zero.\<close>

definition ctz :: "nat \<Rightarrow> nat" where
  "ctz n = (case List.find (\<lambda>i. odd (n div 2 ^ i)) [0..<32] of Some i \<Rightarrow> i | None \<Rightarrow> 32)"

definition VAPOOL_MAX_BIN :: "nat \<Rightarrow> nat" where "VAPOOL_MAX_BIN align_mb = ctz align_mb + 20"

text \<open>The size of \<^verbatim>\<open>struct buddy_area\<close>: two links, a tree node of three words, and three numbers.\<close>

definition SIZEOF_BUDDY_AREA :: nat where "SIZEOF_BUDDY_AREA = 64"

definition vmm_host_vapool_alloc :: "nat \<Rightarrow> vapool_ctrl \<Rightarrow> (vapool_ctrl \<times> (vmm_rc + nat)) result" where
  "vmm_host_vapool_alloc sz V = bind_result (buddy_mem_alloc sz (vapool_ba V)) (\<lambda>(b, r). Done (V\<lparr>vapool_ba := b\<rparr>, r))"

text \<open>The test for a range outside of the pool.\<close>

definition vapool_outside :: "vapool_ctrl \<Rightarrow> nat \<Rightarrow> nat \<Rightarrow> bool" where
  "vapool_outside V va sz \<longleftrightarrow> va < vapool_start V \<or> add64 (vapool_start V) (vapool_size V) < add64 va sz"

definition vmm_host_vapool_reserve :: "nat \<Rightarrow> nat \<Rightarrow> vapool_ctrl \<Rightarrow> (vapool_ctrl \<times> vmm_rc) result" where
  "vmm_host_vapool_reserve va sz V =
     (if vapool_outside V va sz then Done (V, VMM_EFAIL)
      else bind_result (buddy_mem_reserve va sz (vapool_ba V)) (\<lambda>(b, rc). Done (V\<lparr>vapool_ba := b\<rparr>, rc)))"

definition vmm_host_vapool_find :: "nat \<Rightarrow> vapool_ctrl \<Rightarrow> vmm_rc + (nat \<times> nat)" where
  "vmm_host_vapool_find va V =
     (case buddy_mem_find va (vapool_ba V) of Inl rc \<Rightarrow> Inl rc | Inr (ava, _, asz) \<Rightarrow> Inr (ava, asz))"

definition vmm_host_vapool_free :: "nat \<Rightarrow> nat \<Rightarrow> vapool_ctrl \<Rightarrow> (vapool_ctrl \<times> vmm_rc) result" where
  "vmm_host_vapool_free va sz V =
     (if vapool_outside V va sz then Done (V, VMM_EFAIL)
      else bind_result (buddy_mem_partial_free va sz (vapool_ba V)) (\<lambda>(b, rc). Done (V\<lparr>vapool_ba := b\<rparr>, rc)))"

definition vmm_host_vapool_page_isfree :: "nat \<Rightarrow> vapool_ctrl \<Rightarrow> bool" where
  "vmm_host_vapool_page_isfree va V =
     (if va < vapool_start V \<or> add64 (vapool_start V) (vapool_size V) \<le> va then False
      else (case buddy_mem_find va (vapool_ba V) of Inl _ \<Rightarrow> True | Inr _ \<Rightarrow> False))"

definition vmm_host_vapool_free_page_count :: "vapool_ctrl \<Rightarrow> nat" where
  "vmm_host_vapool_free_page_count V = (buddy_bins_free_space (vapool_ba V) div 2 ^ 12) mod 2 ^ 32"

definition vmm_host_vapool_total_page_count :: "vapool_ctrl \<Rightarrow> nat" where
  "vmm_host_vapool_total_page_count V = vapool_page_count V"

definition vmm_host_vapool_base :: "vapool_ctrl \<Rightarrow> nat" where "vmm_host_vapool_base V = vapool_start V"

definition vmm_host_vapool_size :: "vapool_ctrl \<Rightarrow> nat" where "vmm_host_vapool_size V = vapool_size V"

definition vmm_host_vapool_isvalid :: "nat \<Rightarrow> vapool_ctrl \<Rightarrow> bool" where
  "vmm_host_vapool_isvalid addr V \<longleftrightarrow> vapool_start V \<le> addr \<and> addr < add64 (vapool_start V) (vapool_size V)"

definition vmm_host_vapool_estimate_hksize :: "nat \<Rightarrow> nat" where "vmm_host_vapool_estimate_hksize sz = sz div 2 ^ 8"

text \<open>The allocator is entered with the address and size as they were given, the control structure has them rounded to pages.\<close>

definition vmm_host_vapool_init :: "nat \<Rightarrow> nat \<Rightarrow> nat \<Rightarrow> nat \<Rightarrow> vapool_ctrl \<Rightarrow> (vapool_ctrl \<times> vmm_rc) result" where
  "vmm_host_vapool_init align_mb base sz hkbase V =
     (if hkbase < base \<or> add64 base sz \<le> hkbase then Done (V, VMM_EFAIL)
      else let V1 = V\<lparr>vapool_start := base - base mod 2 ^ 12, vapool_size := sz - sz mod 2 ^ 12,
                      vapool_page_count := ((sz - sz mod 2 ^ 12) div 2 ^ 12) mod 2 ^ 32\<rparr>
           in if hkbase = 0 then Done (V1, VMM_EFAIL)
              else bind_result (buddy_allocator_init (vmm_host_vapool_estimate_hksize sz div SIZEOF_BUDDY_AREA) base sz VAPOOL_MIN_BIN (VAPOOL_MAX_BIN align_mb))
                     (\<lambda>(b, rc). Done (case b of None \<Rightarrow> V1 | Some ba \<Rightarrow> V1\<lparr>vapool_ba := ba\<rparr>, rc)))"

section \<open>Pools in use\<close>

datatype vapool_op = Va_alloc nat | Va_reserve nat nat | Va_free nat nat

fun run_vapool :: "vapool_op \<Rightarrow> vapool_ctrl \<Rightarrow> vapool_ctrl result" where
  "run_vapool (Va_alloc sz) V = bind_result (vmm_host_vapool_alloc sz V) (\<lambda>(V', _). Done V')"
| "run_vapool (Va_reserve va sz) V = bind_result (vmm_host_vapool_reserve va sz V) (\<lambda>(V', _). Done V')"
| "run_vapool (Va_free va sz) V = bind_result (vmm_host_vapool_free va sz V) (\<lambda>(V', _). Done V')"

text \<open>The operation on the buddy allocator behind an operation, and its guard.\<close>

fun buddy_of :: "vapool_op \<Rightarrow> buddy_op" where
  "buddy_of (Va_alloc sz) = Buddy_alloc sz"
| "buddy_of (Va_reserve va sz) = Buddy_reserve va sz"
| "buddy_of (Va_free va sz) = Buddy_partial va sz"

inductive vapool_state :: "vapool_ctrl \<Rightarrow> bool" where
  vapool_start: "vmm_host_vapool_init align_mb base sz hkbase V = Done (V', VMM_OK) \<Longrightarrow> base < 2 ^ 64 \<Longrightarrow> sz < 2 ^ 64 \<Longrightarrow> vapool_state V'"
| vapool_step: "vapool_state V \<Longrightarrow> buddy_op_ok (vapool_ba V) (buddy_of op) \<Longrightarrow> run_vapool op V = Done V' \<Longrightarrow> vapool_state V'"

definition pool_inv :: "vapool_ctrl \<Rightarrow> bool" where
  "pool_inv V \<longleftrightarrow> (\<exists>M. buddy_state M (vapool_ba V)) \<and> mem_start (vapool_ba V) = vapool_start V \<and> min_bin (vapool_ba V) = 12
     \<and> 2 ^ 12 dvd vapool_start V \<and> vapool_size V = mem_size (vapool_ba V) - mem_size (vapool_ba V) mod 2 ^ 12"

lemma run_vapool_buddy:
  assumes "run_vapool op V = Done V'"
  shows "V' = V \<or> (\<exists>b. run_buddy (buddy_of op) (vapool_ba V) = Done b \<and> V' = V\<lparr>vapool_ba := b\<rparr>)"
  using assms by (cases op) (auto simp: vmm_host_vapool_alloc_def vmm_host_vapool_reserve_def vmm_host_vapool_free_def split: if_splits)

lemma init_aligned: "buddy_allocator_init hk st sz mn mx = Done (Some ba, rc) \<Longrightarrow> 2 ^ mn dvd st"
proof (rule ccontr)
  assume i: "buddy_allocator_init hk st sz mn mx = Done (Some ba, rc)" and n: "\<not> 2 ^ mn dvd st"
  then have "off_block st mn \<noteq> 0" by (simp add: off_block_def BLOCK_SIZE_def dvd_eq_mod_eq_0)
  then show False using i by (simp add: buddy_allocator_init_def)
qed

lemma init_pool_inv:
  assumes "vmm_host_vapool_init align_mb base sz hkbase V = Done (V', VMM_OK)" "base < 2 ^ 64" "sz < 2 ^ 64"
  shows "pool_inv V'"
proof -
  let ?hk = "vmm_host_vapool_estimate_hksize sz div SIZEOF_BUDDY_AREA"
  have hk: "?hk < 2 ^ 64"
  proof -
    have "?hk \<le> sz" unfolding vmm_host_vapool_estimate_hksize_def by (meson div_le_dividend le_trans)
    then show ?thesis using assms(3) by linarith
  qed
  note I = init_ok [OF hk assms(2,3), of VAPOOL_MIN_BIN "VAPOOL_MAX_BIN align_mb"]
  obtain b rc where r: "buddy_allocator_init ?hk base sz VAPOOL_MIN_BIN (VAPOOL_MAX_BIN align_mb) = Done (b, rc)" using I by auto
  then have "rc = VMM_OK" using assms(1) by (auto simp: vmm_host_vapool_init_def Let_def split: if_splits)
  then obtain ba where b: "b = Some ba" "mem_start ba = base" "mem_size ba = sz" "min_bin ba = 12" using I r by (auto simp: VAPOOL_MIN_BIN_def)
  have al: "base mod 2 ^ 12 = 0"
    using init_aligned [OF r [unfolded b(1)]] by (simp add: VAPOOL_MIN_BIN_def dvd_eq_mod_eq_0)
  have "V' = V\<lparr>vapool_start := base, vapool_size := sz - sz mod 2 ^ 12, vapool_page_count := ((sz - sz mod 2 ^ 12) div 2 ^ 12) mod 2 ^ 32, vapool_ba := ba\<rparr>"
    using assms(1) r b(1) al by (auto simp: vmm_host_vapool_init_def Let_def split: if_splits)
  then have f: "vapool_ba V' = ba" "vapool_start V' = base" "vapool_size V' = sz - sz mod 2 ^ 12" by simp_all
  have "buddy_state (free_cells ba) ba" using buddy_start [OF r [unfolded b(1)] hk assms(2,3)] .
  moreover have "2 ^ 12 dvd base" using al by (rule mod_0_imp_dvd)
  ultimately show ?thesis using b(2-4) unfolding pool_inv_def f by blast
qed

lemma vapool_state_inv: "vapool_state V \<Longrightarrow> pool_inv V"
proof (induction rule: vapool_state.induct)
  case (vapool_start align_mb base sz hkbase V V')
  then show ?case by (rule init_pool_inv)
next
  case (vapool_step V op V')
  from run_vapool_buddy [OF vapool_step.hyps(3)] show ?case
  proof (elim disjE exE conjE)
    assume "V' = V" then show ?thesis using vapool_step.IH by simp
  next
    fix b assume b: "run_buddy (buddy_of op) (vapool_ba V) = Done b" "V' = V\<lparr>vapool_ba := b\<rparr>"
    obtain M where M: "buddy_state M (vapool_ba V)" using vapool_step.IH by (auto simp: pool_inv_def)
    have "kept [] (vapool_ba V) [] b" using run_buddy_ok [OF buddy_state_inv(1) [OF M] vapool_step.hyps(2)] b(1) by auto
    then have "conf b = conf (vapool_ba V)" by (simp add: kept_def)
    then show ?thesis using vapool_step.IH b buddy_step [OF M vapool_step.hyps(2) b(1)] confD [of b "vapool_ba V"] by (auto simp: pool_inv_def)
  qed
qed

text \<open>Every block lies below the end of the pool, also when the size that was given is not a multiple of the page size.\<close>

lemma cells_in_pool:
  assumes p: "pool_inv V" and a: "area_ok (vapool_ba V) a"
  shows "cells a \<subseteq> {vapool_start V ..< vapool_start V + vapool_size V}"
proof -
  let ?e = "area_map a + blk_count a * 2 ^ bin_num a" let ?s = "mem_size (vapool_ba V)"
  have V: "mem_start (vapool_ba V) = vapool_start V" "min_bin (vapool_ba V) = 12" "2 ^ 12 dvd vapool_start V" "vapool_size V = ?s - ?s mod 2 ^ 12"
    using p by (simp_all add: pool_inv_def)
  have A: "vapool_start V \<le> area_map a" "?e \<le> vapool_start V + ?s" "2 ^ 12 dvd area_map a" "12 \<le> bin_num a" using a V by (simp_all add: area_ok_def)
  have "2 ^ 12 dvd blk_count a * 2 ^ bin_num a" using le_imp_power_dvd [OF A(4), of "2 :: nat"] by (rule dvd_mult)
  then have "2 ^ 12 dvd ?e - vapool_start V" using A(3) V(3) by (intro dvd_diff_nat dvd_add)
  then obtain q where q: "?e - vapool_start V = 2 ^ 12 * q" by (metis dvdE)
  have "2 ^ 12 * q \<le> ?s" using A(2) q by linarith
  then have "q \<le> ?s div 2 ^ 12" by (metis div_le_mono nonzero_mult_div_cancel_left power_not_zero zero_neq_numeral)
  then have "2 ^ 12 * q \<le> 2 ^ 12 * (?s div 2 ^ 12)" by simp
  then have "?e \<le> vapool_start V + vapool_size V" using q V(4) A(1) by (simp add: minus_mod_eq_mult_div)
  then show ?thesis using A(1) by (auto simp: cells_def)
qed

lemma pool_invD:
  assumes "pool_inv V"
  shows "inv_h [] (vapool_ba V)" "add64 (vapool_start V) (vapool_size V) = vapool_start V + vapool_size V" "mem_start (vapool_ba V) = vapool_start V"
    "vapool_size V \<le> mem_size (vapool_ba V)" "vapool_start V + vapool_size V < 2 ^ 64"
proof -
  obtain M where "buddy_state M (vapool_ba V)" using assms by (auto simp: pool_inv_def)
  then show i: "inv_h [] (vapool_ba V)" by (rule buddy_state_inv(1))
  show m: "mem_start (vapool_ba V) = vapool_start V" "vapool_size V \<le> mem_size (vapool_ba V)" using assms by (simp_all add: pool_inv_def)
  show e: "vapool_start V + vapool_size V < 2 ^ 64" using inv_hD(6) [OF i] m by linarith
  then show "add64 (vapool_start V) (vapool_size V) = vapool_start V + vapool_size V" by (rule add64_eq)
qed

lemma used_in_pool: "pool_inv V \<Longrightarrow> a \<in> set (alloc (vapool_ba V)) \<Longrightarrow> area_ok (vapool_ba V) a \<and> cells a \<subseteq> {vapool_start V ..< vapool_start V + vapool_size V}"
  using cells_in_pool own_areaD(1) [OF inv_hD(2) [OF pool_invD(1)]] by blast

lemma in_pool_memory: "pool_inv V \<Longrightarrow> x \<in> {vapool_start V ..< vapool_start V + vapool_size V} \<Longrightarrow> in_memory (vapool_ba V) x"
  using pool_invD(3,4) [of V] inv_hD(6) [OF pool_invD(1) [of V]] by (simp add: in_memory_def add64_eq)

lemma page_isfree_iff:
  assumes p: "pool_inv V"
  shows "vmm_host_vapool_page_isfree x V \<longleftrightarrow> x \<in> {vapool_start V ..< vapool_start V + vapool_size V} \<and> x \<notin> used_cells (vapool_ba V)"
proof (cases "x \<in> {vapool_start V ..< vapool_start V + vapool_size V}")
  case True
  have "buddy_alloc_find (vapool_ba V) x = None \<longleftrightarrow> x \<notin> used_cells (vapool_ba V)"
    using find_cells(2) [OF pool_invD(1) [OF p], of x] by (auto simp: used_cells_def)
  then show ?thesis using True in_pool_memory [OF p True] pool_invD(2) [OF p]
    by (cases "buddy_alloc_find (vapool_ba V) x") (auto simp: vmm_host_vapool_page_isfree_def buddy_mem_find_def)
next
  case False
  then show ?thesis using pool_invD(2) [OF p] by (auto simp: vmm_host_vapool_page_isfree_def)
qed

lemma vapool_find_area:
  assumes p: "pool_inv V" and a: "a \<in> set (alloc (vapool_ba V))" "x \<in> cells a"
  shows "vmm_host_vapool_find x V = Inr (area_map a, area_bytes a)"
proof -
  have "buddy_alloc_find (vapool_ba V) x = Some a" using find_cells(1) [OF pool_invD(1) [OF p]] a by blast
  moreover have "in_memory (vapool_ba V) x" using in_pool_memory [OF p] used_in_pool [OF p a(1)] a(2) by blast
  moreover have "mul64 (BLOCK_SIZE (bin_num a)) (blk_count a) = area_bytes a"
    using area_end(1) [OF conjunct1 [OF used_in_pool [OF p a(1)]] inv_hD(6) [OF pool_invD(1) [OF p]]]
    by (simp add: AREA_SIZE_def mul64_def area_bytes_def mult.commute)
  ultimately show ?thesis by (simp add: vmm_host_vapool_find_def buddy_mem_find_def)
qed

text \<open>A partial release of a whole area needs no house-keeping structure.\<close>

lemma partial_free_whole:
  assumes i: "inv_h [] ba" and a: "a \<in> set (alloc ba)"
  shows "\<exists>ba'. buddy_mem_partial_free (area_map a) (area_bytes a) ba = Done (ba', VMM_OK) \<and> kept [] ba [] ba' \<and> alloc ba' = remove1 a (alloc ba)"
proof -
  let ?c = "downgrade ba a" let ?ba = "buddy_alloc_del a ba"
  note d = downgrade_ok [OF inv_hD(2) [OF i a] refl inv_hD(6) [OF i]]
  have ok: "area_ok ba ?c" by (rule own_areaD(1) [OF d(1)])
  have b: "area_bytes ?c = area_bytes a" using d(4,5) by (simp add: area_bytes_def)
  have E: "AREA_END ?c = area_map a + area_bytes a" "area_map a + area_bytes a < 2 ^ 64"
    using area_end(2) [OF ok inv_hD(6) [OF i]] ok inv_hD(6) [OF i] d(3) b by (simp_all add: area_bytes_def area_ok_def)
  have ar: "add64 (area_map a) (area_bytes a) = area_map a + area_bytes a" "sub64 (area_map a) (AREA_START ?c) = 0" "sub64 (AREA_END ?c) (area_map a + area_bytes a) = 0"
    using E d(3) by (simp_all add: add64_eq sub64_eq AREA_START_def)
  have "0 < area_bytes a" "mem_start ba \<le> area_map a" "area_map a + area_bytes a \<le> mem_start ba + mem_size ba"
    using ok d(3) unfolding b [symmetric] by (simp_all add: area_ok_def area_bytes_def)
  then have mem: "in_memory ba (area_map a)" using inv_hD(6) [OF i] by (simp add: in_memory_def add64_eq)
  have find: "buddy_alloc_find ba (area_map a) = Some a" using find_cells(1) [OF i] a cells_nonempty [OF inv_hD(2) [OF i a]] by blast
  have z: "BLOCK_COUNT 0 n = 0" for n by (simp add: BLOCK_COUNT_def)
  have k: "keep_head (area_map a) ?c ?ba = Done (?ba, ?c, True)" "keep_tail (area_map a) (area_bytes a) ?c ?ba = Done (?ba, ?c)"
    unfolding keep_head_def keep_tail_def Let_def ar z by simp_all
  have run: "buddy_mem_partial_free (area_map a) (area_bytes a) ba = Done (buddy_bins_put ?c ?ba, VMM_OK)"
    unfolding buddy_mem_partial_free_def Let_def find ar z option.case k using mem by (simp add: k)
  have k0: "kept [] ba [a] ?ba" by (rule alloc_del_ok [OF i a])
  then have "inv_h [a] ?ba" "conf ?ba = conf ba" by (simp_all add: kept_def)
  then have k1: "kept [a] ?ba [?c] ?ba" using kept_swap [of a "[]" ?ba ?c] d(1,2) own_area_conf by metis
  then have "inv_h [?c] ?ba" by (simp add: kept_def)
  note p = kept_put [OF this]
  show ?thesis using run kept_trans [OF kept_trans [OF k0 k1] p(1)] p(2) by (simp add: buddy_alloc_del_def)
qed

lemma kept_pool:
  assumes p: "pool_inv V" and k: "kept [] (vapool_ba V) [] b" and s: "buddy_state M b"
  shows "pool_inv (V\<lparr>vapool_ba := b\<rparr>)"
  using p s confD [of b "vapool_ba V"] k by (auto simp: pool_inv_def kept_def)

text \<open>Allocation and release of a range, for every pool that keeps the invariant.\<close>

lemma pool_round_trip:
  assumes p: "pool_inv V" and "sz < 2 ^ 64" and "vmm_host_vapool_alloc sz V = Done (V1, Inr va)" and "x \<in> {va ..< va + sz}"
  shows "\<exists>asz V2. pool_inv V1 \<and> pool_inv V2 \<and> {va ..< va + asz} \<subseteq> {vapool_start V ..< vapool_start V + vapool_size V} \<and> vapool_start V + vapool_size V < 2 ^ 64
    \<and> vmm_host_vapool_find x V1 = Inr (va, asz) \<and> sz \<le> asz \<and> 2 ^ 12 dvd va
    \<and> (\<forall>y \<in> {va ..< va + asz}. vmm_host_vapool_page_isfree y V \<and> \<not> vmm_host_vapool_page_isfree y V1)
    \<and> (\<forall>y. y \<notin> {va ..< va + asz} \<longrightarrow> vmm_host_vapool_page_isfree y V1 = vmm_host_vapool_page_isfree y V)
    \<and> vmm_host_vapool_free va asz V1 = Done (V2, VMM_OK) \<and> (\<forall>y. vmm_host_vapool_page_isfree y V2 = vmm_host_vapool_page_isfree y V)
    \<and> vmm_host_vapool_free_page_count V2 = vmm_host_vapool_free_page_count V"
proof -
  let ?ba = "vapool_ba V"
  note i = pool_invD(1) [OF p]
  obtain M where M: "buddy_state M ?ba" using p by (auto simp: pool_inv_def)
  obtain b where b: "buddy_mem_alloc sz ?ba = Done (b, Inr va)" "V1 = V\<lparr>vapool_ba := b\<rparr>" using assms(3) by (auto simp: vmm_host_vapool_alloc_def)
  obtain a where a: "kept [] ?ba [] b" "added va sz a ?ba b" using mem_alloc_ok [OF i assms(2)] b(1) by (auto simp: alloc_outcome_def)
  then have ins: "inserted a ?ba b" "area_map a = va" "sz \<le> area_bytes a" "inv_h [] b" by (simp_all add: added_def kept_def)
  note C = inserted_cells [OF i a(1) ins(1)]
  have s1: "buddy_state M b" using buddy_step [OF M, of "Buddy_alloc sz" b] assms(2) b(1) by simp
  have p1: "pool_inv V1" using kept_pool [OF p a(1) s1] b(2) by simp
  have cell: "cells a = {va ..< va + area_bytes a}" using ins(2) by (simp add: cells_def area_bytes_def)
  have a1: "a \<in> set (alloc (vapool_ba V1))" "x \<in> cells a" using C(3) b(2) assms(4) ins(3) unfolding cell by auto
  have pool: "cells a \<subseteq> {vapool_start V ..< vapool_start V + vapool_size V}" "area_ok b a" using used_in_pool [OF p1 a1(1)] b(2) by simp_all
  have free0: "cells a \<inter> used_cells ?ba = {}" using C(1) cells_partition(1) [OF i] by blast
  have same: "vapool_start V1 = vapool_start V" "vapool_size V1 = vapool_size V" "vapool_ba V1 = b" using b(2) by simp_all
  have f1: "\<forall>y \<in> {va ..< va + area_bytes a}. vmm_host_vapool_page_isfree y V \<and> \<not> vmm_host_vapool_page_isfree y V1"
    using pool(1) free0 C(4) unfolding page_isfree_iff [OF p] page_isfree_iff [OF p1] same cell by blast
  have f2: "\<forall>y. y \<notin> {va ..< va + area_bytes a} \<longrightarrow> vmm_host_vapool_page_isfree y V1 = vmm_host_vapool_page_isfree y V"
    using C(4) unfolding page_isfree_iff [OF p] page_isfree_iff [OF p1] same cell by blast
  obtain b2 where b2: "buddy_mem_partial_free va (area_bytes a) b = Done (b2, VMM_OK)" "kept [] b [] b2" "alloc b2 = remove1 a (alloc b)"
    using partial_free_whole [OF ins(4) C(3)] ins(2) by auto
  have "va \<in> cells a" using cells_nonempty [OF inv_hD(2) [OF ins(4) C(3)]] ins(2) by simp
  then have "va + area_bytes a \<le> vapool_start V + vapool_size V" "vapool_start V \<le> va" "0 < area_bytes a" using pool(1) unfolding cell by auto
  then have out: "\<not> vapool_outside V1 va (area_bytes a)" using pool_invD(2,5) [OF p] by (simp add: vapool_outside_def same add64_eq)
  let ?V2 = "V1\<lparr>vapool_ba := b2\<rparr>"
  have free: "vmm_host_vapool_free va (area_bytes a) V1 = Done (?V2, VMM_OK)" using out b2(1) same by (simp add: vmm_host_vapool_free_def)
  have s2: "buddy_state M b2"
    using buddy_step [OF s1, of "Buddy_partial va (area_bytes a)" b2] b2(1) areas_disjoint(2) [OF ins(4) C(3)] \<open>va \<in> cells a\<close> \<open>0 < area_bytes a\<close> ins(2)
    by (force simp: list_all_iff contains_def)
  have k2: "kept [] ?ba [] b2" by (rule kept_trans [OF a(1) b2(2)])
  have p2: "pool_inv ?V2" using kept_pool [OF p k2 s2] b(2) by simp
  have al: "alloc b2 = alloc ?ba" using b2(3) ins(1) by (simp add: inserted_def)
  then have f3: "\<forall>y. vmm_host_vapool_page_isfree y ?V2 = vmm_host_vapool_page_isfree y V"
    unfolding page_isfree_iff [OF p] page_isfree_iff [OF p2] by (simp add: same used_cells_def)
  have "free_cells b2 = free_cells ?ba" using kept_cells(2) [OF i k2] cells_partition(1) [OF i] al by (auto simp: used_cells_def)
  then have f4: "vmm_host_vapool_free_page_count ?V2 = vmm_host_vapool_free_page_count V"
    using free_space_ok [OF i] free_space_ok [OF buddy_state_inv(1) [OF s2]] by (simp add: vmm_host_vapool_free_page_count_def)
  have "2 ^ 12 dvd va" using pool(2) ins(2) p confD(4) [of b ?ba] a(1) by (simp add: area_ok_def pool_inv_def kept_def)
  then show ?thesis using vapool_find_area [OF p1 a1] ins(2,3) f1 f2 free f3 f4 p1 p2 pool(1) pool_invD(5) [OF p] unfolding cell by blast
qed

text \<open>
  C25.  Pages that are allocated from the pool were reported free and are not any more, no other page changes; \<^verbatim>\<open>vmm_host_vapool_find\<close> gives the
  start and the size of the allocation for every address in it, and releasing that range, as \<^verbatim>\<open>vmm_host_memunmap\<close> does, restores the
  pool.
\<close>

theorem vapool_round_trip:
  assumes "vapool_state V" and "sz < 2 ^ 64" and "vmm_host_vapool_alloc sz V = Done (V1, Inr va)" and "x \<in> {va ..< va + sz}"
  shows "\<exists>asz V2. vmm_host_vapool_find x V1 = Inr (va, asz) \<and> sz \<le> asz \<and> 2 ^ 12 dvd va
    \<and> (\<forall>y \<in> {va ..< va + asz}. vmm_host_vapool_page_isfree y V \<and> \<not> vmm_host_vapool_page_isfree y V1)
    \<and> (\<forall>y. y \<notin> {va ..< va + asz} \<longrightarrow> vmm_host_vapool_page_isfree y V1 = vmm_host_vapool_page_isfree y V)
    \<and> vmm_host_vapool_free va asz V1 = Done (V2, VMM_OK) \<and> (\<forall>y. vmm_host_vapool_page_isfree y V2 = vmm_host_vapool_page_isfree y V)
    \<and> vmm_host_vapool_free_page_count V2 = vmm_host_vapool_free_page_count V"
  using pool_round_trip [OF vapool_state_inv [OF assms(1)] assms(2-4)] by (elim exE conjE) (intro exI conjI, assumption+)

text \<open>A pool of one megabyte, of which all is allocated.\<close>

definition pool_buddy :: "nat \<Rightarrow> buddy_area list \<Rightarrow> (nat \<Rightarrow> buddy_area list) \<Rightarrow> buddy_allocator" where
  "pool_buddy k al bs = \<lparr>hk_total_count = 64, hk_free_count = k, mem_start = 1048576, mem_size = 1048576, min_bin = 12, max_bin = 20, alloc = al, bins = bs\<rparr>"

definition pool_with :: "buddy_allocator \<Rightarrow> vapool_ctrl" where
  "pool_with b = \<lparr>vapool_start = 1048576, vapool_size = 1048576, vapool_page_count = 256, vapool_ba = b\<rparr>"

definition pool_bin :: "nat \<Rightarrow> buddy_area list" where "pool_bin = (\<lambda>_. [])(20 := [\<lparr>area_map = 1048576, blk_count = 1, bin_num = 20\<rparr>])"

definition demo_pool :: vapool_ctrl where "demo_pool = pool_with (pool_buddy 63 [] pool_bin)"

definition demo_pool_used :: vapool_ctrl where
  "demo_pool_used = pool_with (pool_buddy 63 [\<lparr>area_map = 1048576, blk_count = 256, bin_num = 12\<rparr>] (\<lambda>_. []))"

lemma pool_upt: "[12..<20] = [12, 13, 14, 15, 16, 17, 18, 19 :: nat]"
  by (simp add: upt_conv_Cons)

lemma pool_estimate: "min_bin ba = 12 \<Longrightarrow> max_bin ba = 20 \<Longrightarrow> buddy_estimate_bin ba 1048576 = 20"
  by (simp add: buddy_estimate_bin_def BLOCK_SIZE_def pool_upt)

lemma demo_pool_init: "vmm_host_vapool_init 1 1048576 1048576 1048576 V = Done (demo_pool, VMM_OK)"
proof -
  have put: "buddy_bins_put \<lparr>area_map = 1048576, blk_count = 1, bin_num = 20\<rparr> (pool_buddy 63 [] (\<lambda>_. [])) = pool_buddy 63 [] pool_bin"
    by (subst buddy_bins_put.simps) (simp add: bins_put_step_def set_bin_def hk_free_n_def pool_buddy_def pool_bin_def)
  have "fill_bins 3 1048576 1048576 (pool_buddy 64 [] (\<lambda>_. [])) = Done (pool_buddy 63 [] pool_bin, VMM_OK)"
    using put by (subst numeral_3_eq_3, subst fill_bins.simps) (simp add: buddy_eval pool_estimate pool_buddy_def)
  then have "buddy_allocator_init 64 1048576 1048576 12 20 = Done (Some (pool_buddy 63 [] pool_bin), VMM_OK)"
    by (simp add: buddy_allocator_init_def BUDDY_MAX_SUPPORTED_BIN_def buddy_eval pool_buddy_def del: bind_result_eq_Done)
  moreover have "VAPOOL_MAX_BIN 1 = 20" by (simp add: VAPOOL_MAX_BIN_def ctz_def upt_conv_Cons)
  ultimately show ?thesis
    by (simp add: vmm_host_vapool_init_def vmm_host_vapool_estimate_hksize_def SIZEOF_BUDDY_AREA_def VAPOOL_MIN_BIN_def add64_def demo_pool_def pool_with_def
        del: bind_result_eq_Done)
qed

lemma demo_pool_alloc: "vmm_host_vapool_alloc 1048576 demo_pool = Done (demo_pool_used, Inr 1048576)"
proof -
  have b: "blocks_for 1048576 20 = 1" "blocks_for 1048576 12 = 256" by (simp_all add: blocks_for_def buddy_eval)
  have "buddy_bins_get 20 (Suc 0) (pool_buddy 63 [] pool_bin) = (pool_buddy 63 [] (\<lambda>_. []), Some \<lparr>area_map = 1048576, blk_count = 1, bin_num = 20\<rparr>)"
    by (subst buddy_bins_get.simps) (simp add: pool_buddy_def pool_bin_def buddy_eval fun_upd_idem)
  moreover have "min_bin (pool_buddy k al bs) = 12" "max_bin (pool_buddy k al bs) = 20" for k al bs by (simp_all add: pool_buddy_def)
  ultimately have "buddy_mem_alloc 1048576 (pool_buddy 63 [] pool_bin)
      = Done (pool_buddy 63 [\<lparr>area_map = 1048576, blk_count = 256, bin_num = 12\<rparr>] (\<lambda>_. []), Inr 1048576)"
    by (simp add: buddy_mem_alloc_def pool_estimate b(1) downgrade_def mul64_def trim_area_def b(2) add_allocated_def buddy_alloc_add_def del: bind_result_eq_Done)
      (simp add: pool_buddy_def)
  then show ?thesis by (simp add: vmm_host_vapool_alloc_def demo_pool_def demo_pool_used_def pool_with_def del: bind_result_eq_Done)
qed

theorem vapool_round_trip_witness:
  "\<exists>asz V2. vmm_host_vapool_find 1048581 demo_pool_used = Inr (1048576, asz) \<and> 1048576 \<le> asz
    \<and> vmm_host_vapool_free 1048576 asz demo_pool_used = Done (V2, VMM_OK) \<and> (\<forall>y. vmm_host_vapool_page_isfree y V2 = vmm_host_vapool_page_isfree y demo_pool)"
proof -
  have "vapool_state demo_pool" by (rule vapool_start [OF demo_pool_init]) simp_all
  from vapool_round_trip [OF this _ demo_pool_alloc, of 1048581] show ?thesis by simp blast
qed

end
