(* ===== verification/Heap.thy ===== *)
theory Heap
  imports Vapool
begin

text \<open>
  The heaps of the hypervisor, \<^verbatim>\<open>core/vmm_heap.c\<close>: a normal heap and one for device memory, each with a buddy allocator.

  Pointers are addresses, zero is the null pointer.  \<open>ram\<close> is the contents of the memory, which \<^verbatim>\<open>vmm_zalloc\<close> clears.  The pages of
  a heap, their physical address and the cache line size come from the host address space and the architecture: they are fields
  of \<open>heap_env\<close>, where the answer of \<^verbatim>\<open>vmm_host_alloc_pages\<close> depends on which of the two heaps asks.  The calls of \<^verbatim>\<open>vmm_host_free_pages\<close> and of the cache operations are recorded.
\<close>

section \<open>State\<close>

record heap_control =
  heap_ba :: buddy_allocator
  hk_start :: nat
  hk_size :: nat
  heap_mem_start :: nat
  heap_mem_size :: nat
  heap_start :: nat
  heap_start_pa :: nat
  heap_size :: nat

record heaps =
  normal_heap :: heap_control
  dma_heap :: heap_control
  ram :: "nat \<Rightarrow> nat"
  freed_pages :: "(nat \<times> nat) list"

record heap_env =
  cache_line_shift :: nat
  host_alloc_pages :: "bool \<Rightarrow> nat \<Rightarrow> nat"
  host_va2pa :: "nat \<Rightarrow> vmm_rc + nat"
  host_pa2va :: "nat \<Rightarrow> vmm_rc + nat"
  heap_size_mb :: nat
  dma_heap_size_kb :: nat
  config_iommu :: bool

definition HEAP_MIN_BIN :: "heap_env \<Rightarrow> nat" where "HEAP_MIN_BIN Q = cache_line_shift Q"
definition HEAP_MAX_BIN :: nat where "HEAP_MAX_BIN = 12"

section \<open>One heap\<close>

definition heap_malloc :: "nat \<Rightarrow> heap_control \<Rightarrow> (heap_control \<times> nat) result" where
  "heap_malloc sz h =
     (if sz = 0 then Done (h, 0)
      else bind_result (buddy_mem_alloc sz (heap_ba h)) (\<lambda>(b, r). Done (h\<lparr>heap_ba := b\<rparr>, case r of Inl _ \<Rightarrow> 0 | Inr addr \<Rightarrow> addr)))"

text \<open>The three assertions on a pointer.\<close>

definition heap_ptr_bad :: "heap_control \<Rightarrow> nat \<Rightarrow> bool" where
  "heap_ptr_bad h ptr \<longleftrightarrow> ptr = 0 \<or> ptr < heap_mem_start h \<or> add64 (heap_mem_start h) (heap_mem_size h) \<le> ptr"

definition heap_alloc_size :: "heap_control \<Rightarrow> nat \<Rightarrow> nat result" where
  "heap_alloc_size h ptr =
     (if heap_ptr_bad h ptr then Panic
      else Done (case buddy_mem_find ptr (heap_ba h) of Inl _ \<Rightarrow> 0 | Inr (aaddr, _, asize) \<Rightarrow> sub64 asize (sub64 ptr aaddr)))"

definition heap_free :: "nat \<Rightarrow> heap_control \<Rightarrow> heap_control result" where
  "heap_free ptr h = (if heap_ptr_bad h ptr then Panic else Done (h\<lparr>heap_ba := fst (buddy_mem_free ptr (heap_ba h))\<rparr>))"

definition heap_pa2va :: "heap_env \<Rightarrow> heap_control \<Rightarrow> nat \<Rightarrow> vmm_rc + nat" where
  "heap_pa2va Q h pa =
     (if heap_start_pa h \<le> pa \<and> pa < add64 (heap_start_pa h) (heap_size h) then Inr (add64 (heap_start h) (sub64 pa (heap_start_pa h)))
      else host_pa2va Q pa)"

definition heap_va2pa :: "heap_env \<Rightarrow> heap_control \<Rightarrow> nat \<Rightarrow> vmm_rc + nat" where
  "heap_va2pa Q h va =
     (if heap_start h \<le> va \<and> va < add64 (heap_start h) (heap_size h) then Inr (add64 (sub64 va (heap_start h)) (heap_start_pa h))
      else host_va2pa Q va)"

section \<open>Initialisation of a heap\<close>

definition zero_heap :: heap_control where
  "zero_heap = \<lparr>heap_ba = \<lparr>hk_total_count = 0, hk_free_count = 0, mem_start = 0, mem_size = 0, min_bin = 0, max_bin = 0, alloc = [], bins = (\<lambda>_. [])\<rparr>,
     hk_start = 0, hk_size = 0, heap_mem_start = 0, heap_mem_size = 0, heap_start = 0, heap_start_pa = 0, heap_size = 0\<rparr>"

text \<open>The number of pages that cover a size.\<close>

definition size_to_page :: "nat \<Rightarrow> nat" where "size_to_page x = x div 2 ^ 12 + (if x mod 2 ^ 12 \<noteq> 0 then 1 else 0)"

definition get_heap :: "bool \<Rightarrow> heaps \<Rightarrow> heap_control" where
  "get_heap is_normal H = (if is_normal then normal_heap H else dma_heap H)"

definition put_heap :: "bool \<Rightarrow> heap_control \<Rightarrow> heaps \<Rightarrow> heaps" where
  "put_heap is_normal h H = (if is_normal then H\<lparr>normal_heap := h\<rparr> else H\<lparr>dma_heap := h\<rparr>)"

definition fail_free_pages :: "bool \<Rightarrow> vmm_rc \<Rightarrow> heaps \<Rightarrow> heaps \<times> vmm_rc" where
  "fail_free_pages is_normal rc H =
     (let h = get_heap is_normal H in (H\<lparr>freed_pages := freed_pages H @ [(heap_start h, size_to_page (heap_size h))]\<rparr>, rc))"

definition vmm_malloc :: "nat \<Rightarrow> heaps \<Rightarrow> (heaps \<times> nat) result" where
  "vmm_malloc sz H = bind_result (heap_malloc sz (normal_heap H)) (\<lambda>(h, p). Done (H\<lparr>normal_heap := h\<rparr>, p))"

text \<open>
  Where the house-keeping structures and the memory of a heap lie; for a heap that is not the normal one the structures are taken
  from the normal heap.  The result is a null pointer when that fails.
\<close>

definition heap_place :: "bool \<Rightarrow> heap_control \<Rightarrow> heaps \<Rightarrow> (heaps \<times> heap_control \<times> nat) result" where
  "heap_place is_normal h H =
     (if is_normal
      then Done (H, h\<lparr>hk_start := heap_start h, heap_mem_start := add64 (heap_start h) (hk_size h), heap_mem_size := sub64 (heap_size h) (hk_size h)\<rparr>, heap_start h)
      else bind_result (vmm_malloc (hk_size h) H) (\<lambda>(H1, p).
             Done (H1, (if p = 0 then h\<lparr>hk_start := 0\<rparr> else h\<lparr>hk_start := p, heap_mem_start := heap_start h, heap_mem_size := heap_size h\<rparr>), p)))"

definition heap_buddy_init :: "heap_env \<Rightarrow> bool \<Rightarrow> heap_control \<Rightarrow> heaps \<Rightarrow> (heaps \<times> vmm_rc) result" where
  "heap_buddy_init Q is_normal h H =
     bind_result (buddy_allocator_init (hk_size h div SIZEOF_BUDDY_AREA) (heap_mem_start h) (heap_mem_size h) (HEAP_MIN_BIN Q) HEAP_MAX_BIN) (\<lambda>(b, rc).
       let H1 = put_heap is_normal (case b of None \<Rightarrow> h | Some ba \<Rightarrow> h\<lparr>heap_ba := ba\<rparr>) H
       in Done (if rc \<noteq> VMM_OK then fail_free_pages is_normal rc H1 else (H1, VMM_OK)))"

text \<open>The product of the size in kilobytes and 1024 is computed in 32 bits.\<close>

definition heap_init :: "heap_env \<Rightarrow> bool \<Rightarrow> nat \<Rightarrow> heaps \<Rightarrow> (heaps \<times> vmm_rc) result" where
  "heap_init Q is_normal size_kb H =
     (let hsz = (size_kb * 1024) mod 2 ^ 32; st = host_alloc_pages Q is_normal (size_to_page hsz);
          h = zero_heap\<lparr>heap_size := hsz, heap_start := st\<rparr>
      in if st = 0 then Done (put_heap is_normal h H, VMM_ENOMEM)
         else case host_va2pa Q st of
                Inl rc \<Rightarrow> Done (fail_free_pages is_normal rc (put_heap is_normal h H))
              | Inr pa \<Rightarrow>
                  let h1 = h\<lparr>heap_start_pa := pa, hk_size := hsz div 8\<rparr>
                  in bind_result (heap_place is_normal h1 (put_heap is_normal h1 H)) (\<lambda>(H1, h2, p).
                       if p = 0 then Done (fail_free_pages is_normal VMM_ENOMEM (put_heap is_normal h2 H1))
                       else heap_buddy_init Q is_normal h2 H1))"

section \<open>The interface\<close>

definition memset0 :: "nat \<Rightarrow> nat \<Rightarrow> heaps \<Rightarrow> heaps" where
  "memset0 p sz H = H\<lparr>ram := (\<lambda>x. if p \<le> x \<and> x < p + sz then 0 else ram H x)\<rparr>"

definition vmm_zalloc :: "nat \<Rightarrow> heaps \<Rightarrow> (heaps \<times> nat) result" where
  "vmm_zalloc sz H = bind_result (vmm_malloc sz H) (\<lambda>(H1, p). Done (if p \<noteq> 0 then memset0 p sz H1 else H1, p))"

definition vmm_alloc_size :: "nat \<Rightarrow> heaps \<Rightarrow> nat result" where "vmm_alloc_size ptr H = heap_alloc_size (normal_heap H) ptr"

definition vmm_free :: "nat \<Rightarrow> heaps \<Rightarrow> heaps result" where
  "vmm_free ptr H = bind_result (heap_free ptr (normal_heap H)) (\<lambda>h. Done (H\<lparr>normal_heap := h\<rparr>))"

definition vmm_normal_heap_start_va :: "heaps \<Rightarrow> nat" where "vmm_normal_heap_start_va H = heap_start (normal_heap H)"
definition vmm_normal_heap_size :: "heaps \<Rightarrow> nat" where "vmm_normal_heap_size H = heap_size (normal_heap H)"
definition vmm_normal_heap_hksize :: "heaps \<Rightarrow> nat" where "vmm_normal_heap_hksize H = hk_size (normal_heap H)"
definition vmm_normal_heap_free_size :: "heaps \<Rightarrow> nat" where "vmm_normal_heap_free_size H = buddy_bins_free_space (heap_ba (normal_heap H))"

definition vmm_dma_malloc :: "nat \<Rightarrow> heaps \<Rightarrow> (heaps \<times> nat) result" where
  "vmm_dma_malloc sz H = bind_result (heap_malloc sz (dma_heap H)) (\<lambda>(h, p). Done (H\<lparr>dma_heap := h\<rparr>, p))"

definition vmm_dma_zalloc :: "nat \<Rightarrow> heaps \<Rightarrow> (heaps \<times> nat) result" where
  "vmm_dma_zalloc sz H = bind_result (vmm_dma_malloc sz H) (\<lambda>(H1, p). Done (if p \<noteq> 0 then memset0 p sz H1 else H1, p))"

text \<open>The second result is what is stored through the pointer to the physical address, if anything is.\<close>

definition vmm_dma_zalloc_phy :: "heap_env \<Rightarrow> nat \<Rightarrow> heaps \<Rightarrow> (heaps \<times> nat \<times> nat option) result" where
  "vmm_dma_zalloc_phy Q sz H =
     (if config_iommu Q then Panic
      else bind_result (vmm_dma_zalloc sz H) (\<lambda>(H1, p).
             Done (H1, p, if p = 0 then None else case host_va2pa Q p of Inl _ \<Rightarrow> None | Inr pa \<Rightarrow> Some pa)))"

definition vmm_dma_pa2va :: "heap_env \<Rightarrow> nat \<Rightarrow> heaps \<Rightarrow> nat result" where
  "vmm_dma_pa2va Q pa H = (case heap_pa2va Q (dma_heap H) pa of Inl _ \<Rightarrow> Panic | Inr va \<Rightarrow> Done va)"

definition vmm_dma_va2pa :: "heap_env \<Rightarrow> nat \<Rightarrow> heaps \<Rightarrow> nat result" where
  "vmm_dma_va2pa Q va H = (case heap_va2pa Q (dma_heap H) va of Inl _ \<Rightarrow> Panic | Inr pa \<Rightarrow> Done pa)"

definition vmm_is_dma :: "nat \<Rightarrow> heaps \<Rightarrow> bool" where
  "vmm_is_dma va H \<longleftrightarrow> heap_start (dma_heap H) < va \<and> va < add64 (heap_start (dma_heap H)) (heap_size (dma_heap H))"

datatype dma_direction = DMA_BIDIRECTIONAL | DMA_TO_DEVICE | DMA_FROM_DEVICE | DMA_NONE

datatype cache_call = Inv_dcache nat nat | Inv_outer nat nat | Clean_dcache nat nat | Clean_outer nat nat

fun vmm_dma_sync_for_device :: "nat \<Rightarrow> nat \<Rightarrow> dma_direction \<Rightarrow> cache_call list" where
  "vmm_dma_sync_for_device st en dir =
     (if dir = DMA_FROM_DEVICE then [Inv_dcache st en, Inv_outer st en] else [Clean_dcache st en, Clean_outer st en])"

fun vmm_dma_sync_for_cpu :: "nat \<Rightarrow> nat \<Rightarrow> dma_direction \<Rightarrow> cache_call list" where
  "vmm_dma_sync_for_cpu st en dir =
     (if dir = DMA_FROM_DEVICE \<or> dir = DMA_BIDIRECTIONAL then [Inv_dcache st en, Inv_outer st en] else [])"

definition vmm_dma_map :: "heap_env \<Rightarrow> nat \<Rightarrow> nat \<Rightarrow> dma_direction \<Rightarrow> heaps \<Rightarrow> (cache_call list \<times> nat) result" where
  "vmm_dma_map Q vaddr sz dir H =
     bind_result (vmm_dma_va2pa Q vaddr H) (\<lambda>pa. Done (vmm_dma_sync_for_device vaddr (add64 vaddr sz) dir, pa))"

definition vmm_dma_unmap :: "heap_env \<Rightarrow> nat \<Rightarrow> nat \<Rightarrow> dma_direction \<Rightarrow> heaps \<Rightarrow> cache_call list result" where
  "vmm_dma_unmap Q dma_addr sz dir H =
     bind_result (vmm_dma_pa2va Q dma_addr H) (\<lambda>vaddr. Done (vmm_dma_sync_for_cpu vaddr (add64 vaddr sz) dir))"

definition vmm_dma_alloc_size :: "nat \<Rightarrow> heaps \<Rightarrow> nat result" where "vmm_dma_alloc_size ptr H = heap_alloc_size (dma_heap H) ptr"

definition vmm_dma_free :: "nat \<Rightarrow> heaps \<Rightarrow> heaps result" where
  "vmm_dma_free ptr H = bind_result (heap_free ptr (dma_heap H)) (\<lambda>h. Done (H\<lparr>dma_heap := h\<rparr>))"

definition vmm_dma_heap_start_va :: "heaps \<Rightarrow> nat" where "vmm_dma_heap_start_va H = heap_start (dma_heap H)"
definition vmm_dma_heap_size :: "heaps \<Rightarrow> nat" where "vmm_dma_heap_size H = heap_size (dma_heap H)"
definition vmm_dma_heap_hksize :: "heaps \<Rightarrow> nat" where "vmm_dma_heap_hksize H = hk_size (dma_heap H)"
definition vmm_dma_heap_free_size :: "heaps \<Rightarrow> nat" where "vmm_dma_heap_free_size H = buddy_bins_free_space (heap_ba (dma_heap H))"

definition vmm_heap_init :: "heap_env \<Rightarrow> heaps \<Rightarrow> (heaps \<times> vmm_rc) result" where
  "vmm_heap_init Q H =
     bind_result (heap_init Q True (heap_size_mb Q * 1024) H) (\<lambda>(H1, rc).
       if rc \<noteq> VMM_OK then Done (H1, rc) else heap_init Q False (dma_heap_size_kb Q) H1)"

end
