(* ===== verification/HeapProps.thy ===== *)
theory HeapProps
  imports Heap
begin

text \<open>
  Properties of the heaps.  What one heap does for its users is proved in the locale \<open>heap_user\<close>, of which the normal heap and
  the heap for device memory are the two instances.
\<close>

section \<open>One heap\<close>

definition heap_ok :: "heap_control \<Rightarrow> bool" where
  "heap_ok h \<longleftrightarrow> (\<exists>M. buddy_state M (heap_ba h)) \<and> mem_start (heap_ba h) = heap_mem_start h \<and> mem_size (heap_ba h) = heap_mem_size h \<and> 0 < heap_mem_start h"

definition heap_used :: "heap_control \<Rightarrow> nat set" where "heap_used h = used_cells (heap_ba h)"

definition heap_mem :: "heap_control \<Rightarrow> nat set" where "heap_mem h = {heap_mem_start h ..< heap_mem_start h + heap_mem_size h}"

lemma heap_okD:
  assumes "heap_ok h"
  shows "inv_h [] (heap_ba h)" "heap_mem_start h + heap_mem_size h < 2 ^ 64" "heap_used h \<subseteq> heap_mem h" "0 \<notin> heap_mem h"
    "ptr \<in> heap_mem h \<Longrightarrow> \<not> heap_ptr_bad h ptr"
proof -
  obtain M where "buddy_state M (heap_ba h)" using assms by (auto simp: heap_ok_def)
  then show i: "inv_h [] (heap_ba h)" by (rule buddy_state_inv(1))
  show e: "heap_mem_start h + heap_mem_size h < 2 ^ 64" using inv_hD(6) [OF i] assms by (simp add: heap_ok_def)
  show "heap_used h \<subseteq> heap_mem h"
    using own_areaD(1) [OF inv_hD(2) [OF i]] assms by (fastforce simp: heap_used_def used_cells_def heap_mem_def cells_def area_ok_def heap_ok_def)
  show "0 \<notin> heap_mem h" using assms by (simp add: heap_ok_def heap_mem_def)
  show "\<not> heap_ptr_bad h ptr" if "ptr \<in> heap_mem h" using that e assms by (auto simp: heap_ptr_bad_def heap_mem_def heap_ok_def add64_eq)
qed

lemma heap_okI:
  assumes "heap_ok h" "buddy_op_ok (heap_ba h) op" "run_buddy op (heap_ba h) = Done b"
  shows "heap_ok (h\<lparr>heap_ba := b\<rparr>)"
proof -
  obtain M where M: "buddy_state M (heap_ba h)" using assms(1) by (auto simp: heap_ok_def)
  have "kept [] (heap_ba h) [] b" using run_buddy_ok [OF buddy_state_inv(1) [OF M] assms(2)] assms(3) by auto
  then show ?thesis using assms(1) buddy_step [OF M assms(2,3)] confD [of b "heap_ba h"] by (auto simp: heap_ok_def kept_def)
qed

text \<open>What the operations on a heap leave alone.\<close>

definition heap_conf :: "heap_control \<Rightarrow> nat \<times> nat \<times> nat \<times> nat \<times> nat" where
  "heap_conf h = (heap_mem_start h, heap_mem_size h, heap_start h, heap_size h, heap_start_pa h)"

lemma heap_malloc_ok:
  assumes o: "heap_ok h" and sz: "sz < 2 ^ 64"
  shows "\<exists>h' p. heap_malloc sz h = Done (h', p) \<and> heap_ok h' \<and> heap_conf h' = heap_conf h
    \<and> (if p = 0 then alloc (heap_ba h') = alloc (heap_ba h)
       else \<exists>a. added p sz a (heap_ba h) (heap_ba h') \<and> kept [] (heap_ba h) [] (heap_ba h'))"
proof (cases "sz = 0")
  case True
  then show ?thesis using o by (simp add: heap_malloc_def)
next
  case False
  note i = heap_okD(1) [OF o]
  obtain b r where r: "buddy_mem_alloc sz (heap_ba h) = Done (b, r)" "kept [] (heap_ba h) [] b"
    "case r of Inl e \<Rightarrow> alloc b = alloc (heap_ba h) | Inr addr \<Rightarrow> (\<exists>a. added addr sz a (heap_ba h) b)"
    using mem_alloc_ok [OF i sz] by (fastforce simp: alloc_outcome_def split: sum.splits)
  let ?h = "h\<lparr>heap_ba := b\<rparr>"
  have ok: "heap_ok ?h" using heap_okI [OF o, of "Buddy_alloc sz" b] sz r(1) by simp
  show ?thesis
  proof (cases r)
    case (Inl e)
    then show ?thesis using False r ok by (simp add: heap_malloc_def heap_conf_def)
  next
    case (Inr addr)
    then obtain a where a: "added addr sz a (heap_ba h) b" using r(3) by auto
    have "a \<in> set (alloc b)" using inserted_cells(3) [OF i r(2)] a by (simp add: added_def)
    then have "addr \<in> heap_used ?h" using cells_nonempty [OF inv_hD(2) [OF heap_okD(1) [OF ok]]] a by (auto simp: heap_used_def used_cells_def added_def)
    then have "addr \<noteq> 0" using heap_okD(3,4) [OF ok] by (metis subsetD)
    then show ?thesis using False r ok Inr a by (auto simp: heap_malloc_def heap_conf_def)
  qed
qed

lemma heap_free_ok:
  assumes o: "heap_ok h" and a: "a \<in> set (alloc (heap_ba h))" "ptr \<in> cells a"
  shows "\<exists>h'. heap_free ptr h = Done h' \<and> heap_ok h' \<and> heap_conf h' = heap_conf h \<and> kept [] (heap_ba h) [] (heap_ba h')
    \<and> alloc (heap_ba h') = remove1 a (alloc (heap_ba h))"
proof -
  obtain b where b: "buddy_mem_free ptr (heap_ba h) = (b, VMM_OK)" "kept [] (heap_ba h) [] b" "alloc b = remove1 a (alloc (heap_ba h))"
    using mem_free_ok [OF heap_okD(1) [OF o] a] by blast
  have "ptr \<in> heap_mem h" using heap_okD(3) [OF o] a by (auto simp: heap_used_def used_cells_def)
  then have "heap_free ptr h = Done (h\<lparr>heap_ba := b\<rparr>)" using heap_okD(5) [OF o] b(1) by (simp add: heap_free_def)
  moreover have "heap_ok (h\<lparr>heap_ba := b\<rparr>)" using heap_okI [OF o, of "Buddy_free ptr" b] b(1) by simp
  ultimately show ?thesis using b by (simp add: heap_conf_def)
qed

lemma heap_free_pres:
  assumes o: "heap_ok h" and f: "heap_free ptr h = Done h'"
  shows "heap_ok h' \<and> heap_conf h' = heap_conf h"
  using f heap_okI [OF o, of "Buddy_free ptr"] by (auto simp: heap_free_def heap_conf_def split: if_splits)

lemma heap_alloc_size_ok:
  assumes o: "heap_ok h" and a: "a \<in> set (alloc (heap_ba h))"
  shows "heap_alloc_size h (area_map a) = Done (area_bytes a)"
proof -
  note i = heap_okD(1) [OF o]
  have ok: "area_ok (heap_ba h) a" by (rule own_areaD(1) [OF inv_hD(2) [OF i a]])
  have c: "area_map a \<in> cells a" by (rule cells_nonempty [OF inv_hD(2) [OF i a]])
  then have m: "area_map a \<in> heap_mem h" using heap_okD(3) [OF o] a by (auto simp: heap_used_def used_cells_def)
  have "in_memory (heap_ba h) (area_map a)" using m o heap_okD(2) [OF o] by (auto simp: in_memory_def heap_mem_def heap_ok_def add64_eq)
  moreover have "buddy_alloc_find (heap_ba h) (area_map a) = Some a" using find_cells(1) [OF i] a c by blast
  moreover have "mul64 (BLOCK_SIZE (bin_num a)) (blk_count a) = area_bytes a"
    using area_end(1) [OF ok inv_hD(6) [OF i]] by (simp add: AREA_SIZE_def mul64_def area_bytes_def mult.commute)
  moreover have "area_map a < 2 ^ 64" "area_bytes a < 2 ^ 64" using ok inv_hD(6) [OF i] by (simp_all add: area_ok_def area_bytes_def)
  ultimately show ?thesis using heap_okD(5) [OF o m] by (simp add: heap_alloc_size_def buddy_mem_find_def sub64_eq)
qed

section \<open>Users of a heap\<close>

text \<open>
  The view of a heap: how it and the other heap lie in the state, and the calls that work on it.
\<close>

locale heap_user =
  fixes get other :: "heaps \<Rightarrow> heap_control" and put :: "heap_control \<Rightarrow> heaps \<Rightarrow> heaps"
    and malloc zalloc :: "nat \<Rightarrow> heaps \<Rightarrow> (heaps \<times> nat) result" and free :: "nat \<Rightarrow> heaps \<Rightarrow> heaps result"
  assumes get_put: "get (put h H) = h" and ram_put: "ram (put h H) = ram H" and get_ram: "get (memset0 p n H) = get H"
    and other_put: "other (put h H) = other H" and other_ram: "other (memset0 p n H) = other H"
    and malloc: "malloc sz H = bind_result (heap_malloc sz (get H)) (\<lambda>(h, p). Done (put h H, p))"
    and zalloc: "zalloc sz H = bind_result (malloc sz H) (\<lambda>(H1, p). Done (if p \<noteq> 0 then memset0 p sz H1 else H1, p))"
    and free: "free ptr H = bind_result (heap_free ptr (get H)) (\<lambda>h. Done (put h H))"
begin

text \<open>A zeroing allocation: the block was not in use, is in use and is zero, and no byte outside of it changes.\<close>

lemma zalloc_block:
  assumes o: "heap_ok (get H)" and sz: "sz < 2 ^ 64"
  shows "\<exists>H' h p. zalloc sz H = Done (H', p) \<and> get H' = h \<and> heap_ok h \<and> heap_conf h = heap_conf (get H) \<and> (\<forall>x. x \<notin> {p ..< p + sz} \<longrightarrow> ram H' x = ram H x)
    \<and> other H' = other H
    \<and> (if p = 0 then ram H' = ram H \<and> heap_used h = heap_used (get H)
       else {p ..< p + sz} \<inter> heap_used (get H) = {} \<and> {p ..< p + sz} \<union> heap_used (get H) \<subseteq> heap_used h \<and> (\<forall>x \<in> {p ..< p + sz}. ram H' x = 0))"
proof -
  obtain h p where m: "heap_malloc sz (get H) = Done (h, p)" "heap_ok h" "heap_conf h = heap_conf (get H)"
    "if p = 0 then alloc (heap_ba h) = alloc (heap_ba (get H)) else \<exists>a. added p sz a (heap_ba (get H)) (heap_ba h) \<and> kept [] (heap_ba (get H)) [] (heap_ba h)"
    using heap_malloc_ok [OF o sz] by blast
  have run: "zalloc sz H = Done (if p \<noteq> 0 then memset0 p sz (put h H) else put h H, p)" by (simp add: zalloc malloc m(1))
  show ?thesis
  proof (cases "p = 0")
    case True
    then show ?thesis using run m(2-4) by (auto simp: get_put ram_put other_put heap_used_def used_cells_def)
  next
    case False
    then obtain a where a: "added p sz a (heap_ba (get H)) (heap_ba h)" "kept [] (heap_ba (get H)) [] (heap_ba h)" using m(4) by auto
    note i = heap_okD(1) [OF o]
    have ins: "inserted a (heap_ba (get H)) (heap_ba h)" using a(1) by (simp add: added_def)
    note C = inserted_cells [OF i a(2) ins] and D = added_cells [OF a(1)] and P = cells_partition(1) [OF i]
    have "{p ..< p + sz} \<inter> heap_used (get H) = {}" using C(1) D P unfolding heap_used_def by blast
    moreover have "{p ..< p + sz} \<union> heap_used (get H) \<subseteq> heap_used h" using C(4) D unfolding heap_used_def by blast
    moreover have "(\<forall>x \<in> {p ..< p + sz}. ram (memset0 p sz (put h H)) x = 0) \<and> (\<forall>x. x \<notin> {p ..< p + sz} \<longrightarrow> ram (memset0 p sz (put h H)) x = ram H x)"
      by (auto simp: memset0_def ram_put)
    ultimately show ?thesis using run False m(2,3) by (intro exI [of _ "memset0 p sz (put h H)"] exI [of _ h] exI [of _ p]) (auto simp: get_ram get_put other_put other_ram)
  qed
qed

lemma malloc_pres:
  assumes o: "heap_ok (get H)" and sz: "sz < 2 ^ 64" and m: "malloc sz H = Done (H', p)"
  shows "heap_ok (get H') \<and> heap_conf (get H') = heap_conf (get H) \<and> other H' = other H"
proof -
  obtain h where h: "heap_malloc sz (get H) = Done (h, p)" "H' = put h H" using m by (auto simp: malloc)
  then have "heap_ok h \<and> heap_conf h = heap_conf (get H)" using heap_malloc_ok [OF o sz] by (elim exE conjE) simp
  then show ?thesis by (simp add: h(2) get_put other_put)
qed

lemma zalloc_pres:
  assumes "heap_ok (get H)" and "sz < 2 ^ 64" and "zalloc sz H = Done (H', p)"
  shows "heap_ok (get H') \<and> heap_conf (get H') = heap_conf (get H) \<and> other H' = other H"
  using zalloc_block [OF assms(1,2)] assms(3) by (elim exE conjE) simp

lemma free_pres:
  assumes o: "heap_ok (get H)" and f: "free ptr H = Done H'"
  shows "heap_ok (get H') \<and> heap_conf (get H') = heap_conf (get H) \<and> other H' = other H"
  using heap_free_pres [OF o] f by (auto simp: free get_put other_put)

text \<open>What an allocation gave can be given back: the pointer is valid, covers the size, and the heap is as before.\<close>

lemma free_undoes_malloc:
  assumes o: "heap_ok (get H)" and sz: "sz < 2 ^ 64" and m: "malloc sz H = Done (H1, p)" and p: "p \<noteq> 0"
  shows "\<exists>n H2. heap_alloc_size (get H1) p = Done n \<and> sz \<le> n \<and> free p H1 = Done H2 \<and> heap_used (get H2) = heap_used (get H)
    \<and> buddy_bins_free_space (heap_ba (get H2)) = buddy_bins_free_space (heap_ba (get H))"
proof -
  obtain h where h: "heap_malloc sz (get H) = Done (h, p)" "H1 = put h H" using m by (auto simp: malloc)
  have "heap_ok h \<and> (\<exists>a. added p sz a (heap_ba (get H)) (heap_ba h) \<and> kept [] (heap_ba (get H)) [] (heap_ba h))"
    using heap_malloc_ok [OF o sz] h(1) p by (elim exE conjE) simp
  then obtain a where ok: "heap_ok h" and a: "added p sz a (heap_ba (get H)) (heap_ba h)" "kept [] (heap_ba (get H)) [] (heap_ba h)" by blast
  note i = heap_okD(1) [OF o] and i1 = heap_okD(1) [OF ok]
  have ins: "inserted a (heap_ba (get H)) (heap_ba h)" and ap: "area_map a = p" "sz \<le> area_bytes a" using a(1) by (simp_all add: added_def)
  have mem: "a \<in> set (alloc (heap_ba h))" by (rule inserted_cells(3) [OF i a(2) ins])
  have "p \<in> cells a" using cells_nonempty [OF inv_hD(2) [OF i1 mem]] ap by simp
  from heap_free_ok [OF ok mem this] obtain h2 where h2: "heap_free p h = Done h2" "heap_ok h2" "kept [] (heap_ba h) [] (heap_ba h2)"
    "alloc (heap_ba h2) = remove1 a (alloc (heap_ba h))" by blast
  have al: "alloc (heap_ba h2) = alloc (heap_ba (get H))" using h2(4) ins by (simp add: inserted_def)
  then have u: "used_cells (heap_ba h2) = used_cells (heap_ba (get H))" by (simp add: used_cells_def)
  have k: "kept [] (heap_ba (get H)) [] (heap_ba h2)" by (rule kept_trans [OF a(2) h2(3)])
  have "free_cells (heap_ba h2) = free_cells (heap_ba (get H))" using kept_cells(2) [OF i k] cells_partition(1) [OF i] u by blast
  then have "buddy_bins_free_space (heap_ba h2) = buddy_bins_free_space (heap_ba (get H))"
    by (simp add: free_space_ok [OF i] free_space_ok [OF heap_okD(1) [OF h2(2)]])
  then show ?thesis using h2(1) heap_alloc_size_ok [OF ok mem] ap u by (simp add: h(2) get_put free heap_used_def)
qed

end

interpretation nheap: heap_user normal_heap dma_heap "\<lambda>h H. H\<lparr>normal_heap := h\<rparr>" vmm_malloc vmm_zalloc vmm_free
  by unfold_locales (simp_all add: memset0_def vmm_malloc_def vmm_zalloc_def vmm_free_def)

interpretation dheap: heap_user dma_heap normal_heap "\<lambda>h H. H\<lparr>dma_heap := h\<rparr>" vmm_dma_malloc vmm_dma_zalloc vmm_dma_free
  by unfold_locales (simp_all add: memset0_def vmm_dma_malloc_def vmm_dma_zalloc_def vmm_dma_free_def)

section \<open>Both heaps\<close>

text \<open>
  The pages the host gives to a heap, and what is needed of them: they are a range of addresses that does not wrap around, and the
  ranges of the two heaps are disjoint.
\<close>

definition heap_bytes :: "heap_env \<Rightarrow> bool \<Rightarrow> nat" where
  "heap_bytes Q is_normal = ((if is_normal then heap_size_mb Q * 1024 else dma_heap_size_kb Q) * 1024) mod 2 ^ 32"

definition heap_base :: "heap_env \<Rightarrow> bool \<Rightarrow> nat" where
  "heap_base Q is_normal = host_alloc_pages Q is_normal (size_to_page (heap_bytes Q is_normal))"

definition heap_range :: "heap_env \<Rightarrow> bool \<Rightarrow> nat set" where
  "heap_range Q is_normal = {heap_base Q is_normal ..< heap_base Q is_normal + heap_bytes Q is_normal}"

definition pages_ok :: "heap_env \<Rightarrow> bool" where
  "pages_ok Q \<longleftrightarrow> heap_range Q True \<inter> heap_range Q False = {} \<and> (\<forall>b. heap_base Q b + heap_bytes Q b < 2 ^ 64) \<and> (\<forall>va. host_va2pa Q va \<noteq> Inl VMM_OK)"

definition heap_inv :: "heap_env \<Rightarrow> bool \<Rightarrow> heap_control \<Rightarrow> bool" where
  "heap_inv Q is_normal h \<longleftrightarrow> heap_ok h \<and> heap_mem h \<subseteq> heap_range Q is_normal \<and> heap_start h = heap_base Q is_normal \<and> heap_size h = heap_bytes Q is_normal
     \<and> host_va2pa Q (heap_base Q is_normal) = Inr (heap_start_pa h)"

lemma heap_inv_conf: "heap_inv Q b h \<Longrightarrow> heap_ok h' \<Longrightarrow> heap_conf h' = heap_conf h \<Longrightarrow> heap_inv Q b h'"
  by (simp add: heap_inv_def heap_conf_def heap_mem_def)

lemma get_put_heap [simp]: "get_heap b (put_heap b h H) = h" "get_heap (\<not> b) (put_heap b h H) = get_heap (\<not> b) H"
  by (simp_all add: get_heap_def put_heap_def)

lemma fail_free_rc [simp]: "snd (fail_free_pages b rc H) = rc"
  by (simp add: fail_free_pages_def Let_def)

lemma heap_buddy_init_ok:
  assumes b: "heap_buddy_init Q n h H = Done (H', VMM_OK)" and st: "0 < heap_mem_start h" "heap_mem_start h + heap_mem_size h < 2 ^ 64" and hk: "hk_size h < 2 ^ 64"
  shows "\<exists>ba. H' = put_heap n (h\<lparr>heap_ba := ba\<rparr>) H \<and> heap_ok (h\<lparr>heap_ba := ba\<rparr>)"
proof -
  let ?k = "hk_size h div SIZEOF_BUDDY_AREA"
  have k: "?k < 2 ^ 64" using hk by (meson div_le_dividend le_less_trans)
  have s: "heap_mem_start h < 2 ^ 64" "heap_mem_size h < 2 ^ 64" using st by linarith+
  note I = init_ok [OF k s, of "HEAP_MIN_BIN Q" HEAP_MAX_BIN]
  obtain o1 rc where r: "buddy_allocator_init ?k (heap_mem_start h) (heap_mem_size h) (HEAP_MIN_BIN Q) HEAP_MAX_BIN = Done (o1, rc)" using I by auto
  have ok: "rc = VMM_OK" using b fail_free_rc by (cases rc) (auto simp: heap_buddy_init_def r Let_def fail_free_pages_def)
  then obtain ba where ba: "o1 = Some ba" "mem_start ba = heap_mem_start h" "mem_size ba = heap_mem_size h" using I r by auto
  have "H' = put_heap n (h\<lparr>heap_ba := ba\<rparr>) H" using b by (simp add: heap_buddy_init_def r ba(1) ok)
  moreover have "buddy_state (free_cells ba) ba" by (rule buddy_start [OF r [unfolded ba(1)] k s])
  ultimately show ?thesis using ba st by (auto simp: heap_ok_def)
qed

lemma heap_bytes_bounds:
  assumes "pages_ok Q"
  shows "heap_bytes Q b < 2 ^ 32" "heap_bytes Q b div 8 \<le> heap_bytes Q b" "heap_base Q b + heap_bytes Q b < 2 ^ 64"
  using assms by (simp_all add: heap_bytes_def pages_ok_def)

definition heap_begin :: "heap_env \<Rightarrow> bool \<Rightarrow> nat \<Rightarrow> heap_control" where
  "heap_begin Q b pa = zero_heap\<lparr>heap_size := heap_bytes Q b, heap_start := heap_base Q b, heap_start_pa := pa, hk_size := heap_bytes Q b div 8\<rparr>"

lemma heap_init_run:
  assumes i: "heap_init Q b kb H0 = Done (H, VMM_OK)" and p: "pages_ok Q" and kb: "kb = (if b then heap_size_mb Q * 1024 else dma_heap_size_kb Q)"
  obtains pa H1 h2 q where "0 < heap_base Q b" "host_va2pa Q (heap_base Q b) = Inr pa" "heap_place b (heap_begin Q b pa) (put_heap b (heap_begin Q b pa) H0) = Done (H1, h2, q)" "q \<noteq> 0"
    "heap_buddy_init Q b h2 H1 = Done (H, VMM_OK)"
proof -
  have n: "(kb * 1024) mod 2 ^ 32 = heap_bytes Q b" by (simp add: heap_bytes_def kb)
  note i2 = i [unfolded heap_init_def n heap_base_def [symmetric] Let_def]
  have nz: "heap_base Q b \<noteq> 0" 
  proof
    assume "heap_base Q b = 0" then show False using i2 by simp
  qed
  obtain pa where pa: "host_va2pa Q (heap_base Q b) = Inr pa"
    using i2 p nz by (cases "host_va2pa Q (heap_base Q b)") (auto simp: fail_free_pages_def pages_ok_def Let_def)
  note i3 = i2 [unfolded pa sum.case heap_begin_def [symmetric]]
  obtain H1 h2 q where q: "heap_place b (heap_begin Q b pa) (put_heap b (heap_begin Q b pa) H0) = Done (H1, h2, q)" using i3 nz by auto
  have "q \<noteq> 0" "heap_buddy_init Q b h2 H1 = Done (H, VMM_OK)" using i3 nz q by (auto simp: fail_free_pages_def Let_def split: if_splits)
  then show thesis using that nz pa q by blast
qed

lemma normal_init_ok:
  assumes i: "heap_init Q True (heap_size_mb Q * 1024) H0 = Done (H, VMM_OK)" and p: "pages_ok Q"
  shows "heap_inv Q True (normal_heap H)"
proof -
  let ?n = "heap_bytes Q True" let ?st = "heap_base Q True"
  note B = heap_bytes_bounds [OF p, of True]
  obtain pa H1 h2 q where r: "0 < ?st" "host_va2pa Q ?st = Inr pa" "heap_place True (heap_begin Q True pa) (put_heap True (heap_begin Q True pa) H0) = Done (H1, h2, q)"
    "heap_buddy_init Q True h2 H1 = Done (H, VMM_OK)" using heap_init_run [OF i p] by (metis (full_types))
  have "add64 ?st (?n div 8) = ?st + ?n div 8" "sub64 ?n (?n div 8) = ?n - ?n div 8" using B by (auto intro!: add64_eq sub64_eq)
  then have h: "heap_mem_start h2 = ?st + ?n div 8" "heap_mem_size h2 = ?n - ?n div 8" "hk_size h2 = ?n div 8" "heap_start h2 = ?st" "heap_size h2 = ?n" "heap_start_pa h2 = pa"
    using r(3) by (auto simp: heap_place_def heap_begin_def)
  have "0 < heap_mem_start h2" "heap_mem_start h2 + heap_mem_size h2 < 2 ^ 64" "hk_size h2 < 2 ^ 64" unfolding h using B r(1) by linarith+
  from heap_buddy_init_ok [OF r(4) this] obtain ba where "H = put_heap True (h2\<lparr>heap_ba := ba\<rparr>) H1" "heap_ok (h2\<lparr>heap_ba := ba\<rparr>)" by blast
  then show ?thesis using B h r(2) by (auto simp: put_heap_def heap_inv_def heap_mem_def heap_range_def)
qed

lemma dma_init_ok:
  assumes i: "heap_init Q False (dma_heap_size_kb Q) H0 = Done (H, VMM_OK)" and p: "pages_ok Q" and n0: "heap_inv Q True (normal_heap H0)"
  shows "heap_inv Q True (normal_heap H) \<and> heap_inv Q False (dma_heap H)"
proof -
  let ?n = "heap_bytes Q False" let ?st = "heap_base Q False"
  note B = heap_bytes_bounds [OF p, of False]
  obtain pa H1 h2 q where r: "0 < ?st" "host_va2pa Q ?st = Inr pa" "heap_place False (heap_begin Q False pa) (put_heap False (heap_begin Q False pa) H0) = Done (H1, h2, q)"
    "q \<noteq> 0" "heap_buddy_init Q False h2 H1 = Done (H, VMM_OK)" using heap_init_run [OF i p] by (metis (full_types))
  let ?H1 = "put_heap False (heap_begin Q False pa) H0"
  have m: "vmm_malloc (?n div 8) ?H1 = Done (H1, q)" and h: "heap_mem_start h2 = ?st" "heap_mem_size h2 = ?n" "hk_size h2 = ?n div 8" "heap_start h2 = ?st" "heap_size h2 = ?n" "heap_start_pa h2 = pa"
    using r(3,4) by (auto simp: heap_place_def heap_begin_def)
  have o1: "heap_ok (normal_heap ?H1)" using n0 by (simp add: put_heap_def heap_inv_def)
  have m64: "?n div 8 < 2 ^ 64" using B by linarith
  have keep: "heap_inv Q True (normal_heap H1)" using nheap.malloc_pres [OF o1 m64 m] heap_inv_conf [OF n0] by (simp add: put_heap_def)
  have "0 < heap_mem_start h2" "heap_mem_start h2 + heap_mem_size h2 < 2 ^ 64" "hk_size h2 < 2 ^ 64" unfolding h using B r(1) m64 by linarith+
  from heap_buddy_init_ok [OF r(5) this] obtain ba where "H = put_heap False (h2\<lparr>heap_ba := ba\<rparr>) H1" "heap_ok (h2\<lparr>heap_ba := ba\<rparr>)" by blast
  then show ?thesis using keep h r(2) by (auto simp: put_heap_def heap_inv_def heap_mem_def heap_range_def)
qed

section \<open>The heaps in use\<close>

datatype heap_op = H_malloc nat | H_zalloc nat | H_free nat | H_dma_malloc nat | H_dma_zalloc nat | H_dma_free nat

fun run_heap :: "heap_op \<Rightarrow> heaps \<Rightarrow> heaps result" where
  "run_heap (H_malloc sz) H = bind_result (vmm_malloc sz H) (\<lambda>(H', _). Done H')"
| "run_heap (H_zalloc sz) H = bind_result (vmm_zalloc sz H) (\<lambda>(H', _). Done H')"
| "run_heap (H_free ptr) H = vmm_free ptr H"
| "run_heap (H_dma_malloc sz) H = bind_result (vmm_dma_malloc sz H) (\<lambda>(H', _). Done H')"
| "run_heap (H_dma_zalloc sz) H = bind_result (vmm_dma_zalloc sz H) (\<lambda>(H', _). Done H')"
| "run_heap (H_dma_free ptr) H = vmm_dma_free ptr H"

text \<open>Sizes are 64 bit numbers.\<close>

fun heap_op_ok :: "heap_op \<Rightarrow> bool" where
  "heap_op_ok (H_malloc sz) = (sz < 2 ^ 64)"
| "heap_op_ok (H_zalloc sz) = (sz < 2 ^ 64)"
| "heap_op_ok (H_dma_malloc sz) = (sz < 2 ^ 64)"
| "heap_op_ok (H_dma_zalloc sz) = (sz < 2 ^ 64)"
| "heap_op_ok _ = True"

text \<open>The users of the heaps write to the memory, which is a step too.\<close>

inductive heaps_state :: "heap_env \<Rightarrow> heaps \<Rightarrow> bool" for Q where
  heaps_start: "vmm_heap_init Q H0 = Done (H, VMM_OK) \<Longrightarrow> heaps_state Q H"
| heaps_step: "heaps_state Q H \<Longrightarrow> heap_op_ok op \<Longrightarrow> run_heap op H = Done H' \<Longrightarrow> heaps_state Q H'"
| heaps_write: "heaps_state Q H \<Longrightarrow> heaps_state Q (H\<lparr>ram := m\<rparr>)"

definition heaps_inv :: "heap_env \<Rightarrow> heaps \<Rightarrow> bool" where
  "heaps_inv Q H \<longleftrightarrow> heap_inv Q True (normal_heap H) \<and> heap_inv Q False (dma_heap H)"

lemma heap_init_inv:
  assumes "vmm_heap_init Q H0 = Done (H, VMM_OK)" "pages_ok Q"
  shows "heaps_inv Q H"
proof -
  obtain H1 where "heap_init Q True (heap_size_mb Q * 1024) H0 = Done (H1, VMM_OK)" "heap_init Q False (dma_heap_size_kb Q) H1 = Done (H, VMM_OK)"
    using assms(1) by (auto simp: vmm_heap_init_def split: if_splits)
  then show ?thesis using normal_init_ok [of Q H0 H1] dma_init_ok [of Q H1 H] assms(2) by (simp add: heaps_inv_def)
qed

lemma run_heap_inv:
  assumes i: "heaps_inv Q H" and g: "heap_op_ok op" and r: "run_heap op H = Done H'"
  shows "heaps_inv Q H'"
proof -
  have ok: "heap_ok (normal_heap H)" "heap_ok (dma_heap H)" using i by (simp_all add: heaps_inv_def heap_inv_def)
  have same: "heap_ok (normal_heap H') \<and> heap_conf (normal_heap H') = heap_conf (normal_heap H) \<and> heap_ok (dma_heap H') \<and> heap_conf (dma_heap H') = heap_conf (dma_heap H)"
  proof (cases op)
    case (H_malloc sz)
    then obtain p where "vmm_malloc sz H = Done (H', p)" using r by auto
    from nheap.malloc_pres [OF ok(1) _ this] show ?thesis using g H_malloc ok(2) by simp
  next
    case (H_zalloc sz)
    then obtain p where "vmm_zalloc sz H = Done (H', p)" using r by auto
    from nheap.zalloc_pres [OF ok(1) _ this] show ?thesis using g H_zalloc ok(2) by simp
  next
    case (H_free ptr)
    then show ?thesis using nheap.free_pres [OF ok(1), of ptr H'] r ok(2) by simp
  next
    case (H_dma_malloc sz)
    then obtain p where "vmm_dma_malloc sz H = Done (H', p)" using r by auto
    from dheap.malloc_pres [OF ok(2) _ this] show ?thesis using g H_dma_malloc ok(1) by simp
  next
    case (H_dma_zalloc sz)
    then obtain p where "vmm_dma_zalloc sz H = Done (H', p)" using r by auto
    from dheap.zalloc_pres [OF ok(2) _ this] show ?thesis using g H_dma_zalloc ok(1) by simp
  next
    case (H_dma_free ptr)
    then show ?thesis using dheap.free_pres [OF ok(2), of ptr H'] r ok(1) by simp
  qed
  then show ?thesis using i heap_inv_conf unfolding heaps_inv_def by blast
qed

lemma heaps_state_inv: "heaps_state Q H \<Longrightarrow> pages_ok Q \<Longrightarrow> heaps_inv Q H"
proof (induction rule: heaps_state.induct)
  case (heaps_start H0 H)
  then show ?case by (rule heap_init_inv)
next
  case (heaps_step H op H')
  then show ?case using run_heap_inv by blast
next
  case (heaps_write H m)
  then show ?case by (simp add: heaps_inv_def)
qed

section \<open>A concrete system\<close>

text \<open>
  One megabyte for the normal heap, 64 kilobytes for device memory, cache lines of 64 bytes; physical addresses are at a distance of
  \<open>2 ^ 28\<close> from the virtual ones.
\<close>

definition demo_env :: heap_env where
  "demo_env = \<lparr>cache_line_shift = 6, host_alloc_pages = (\<lambda>is_normal _. if is_normal then 16777216 else 67108864), host_va2pa = (\<lambda>va. Inr (va + 268435456)),
     host_pa2va = (\<lambda>pa. Inr (pa - 268435456)), heap_size_mb = 1, dma_heap_size_kb = 64, config_iommu = False\<rparr>"

definition demo_ba :: "nat \<Rightarrow> nat \<Rightarrow> nat \<Rightarrow> nat \<Rightarrow> buddy_area list \<Rightarrow> (nat \<Rightarrow> buddy_area list) \<Rightarrow> buddy_allocator" where
  "demo_ba t k st sz al bs = \<lparr>hk_total_count = t, hk_free_count = k, mem_start = st, mem_size = sz, min_bin = 6, max_bin = 12, alloc = al, bins = bs\<rparr>"

definition bin12 :: "nat \<Rightarrow> nat \<Rightarrow> nat \<Rightarrow> buddy_area list" where
  "bin12 m n = (\<lambda>_. [])(12 := [\<lparr>area_map = m, blk_count = n, bin_num = 12\<rparr>])"

lemma demo_ba_fields [simp]: "min_bin (demo_ba t k st sz al bs) = 6" "max_bin (demo_ba t k st sz al bs) = 12" "mem_start (demo_ba t k st sz al bs) = st"
    "mem_size (demo_ba t k st sz al bs) = sz" "alloc (demo_ba t k st sz al bs) = al" "bins (demo_ba t k st sz al bs) = bs"
    "hk_free_count (demo_ba t k st sz al bs) = k"
  by (simp_all add: demo_ba_def)

lemma upt_6_12: "[6..<12] = [6, 7, 8, 9, 10, 11 :: nat]"
  by (simp add: upt_conv_Cons)

lemma demo_ba_estimate: "4096 \<le> sz \<Longrightarrow> buddy_estimate_bin (demo_ba t k st n al bs) sz = 12"
  by (simp add: buddy_estimate_bin_def BLOCK_SIZE_def upt_6_12)

lemma demo_ba_put: "buddy_bins_put \<lparr>area_map = st, blk_count = n, bin_num = 12\<rparr> (demo_ba t k st sz [] (\<lambda>_. [])) = demo_ba t k st sz [] (bin12 st n)"
  by (subst buddy_bins_put.simps) (simp add: bins_put_step_def set_bin_def hk_free_n_def demo_ba_def bin12_def)

text \<open>A memory of whole blocks of the largest size is entered as one area.\<close>

lemma demo_ba_fill:
  assumes "4096 \<le> sz" "sz = n * 4096" "sz < 2 ^ 32" "0 < t"
  shows "fill_bins 3 st sz (demo_ba t t st sz [] (\<lambda>_. [])) = Done (demo_ba t (t - 1) st sz [] (bin12 st n), VMM_OK)"
proof -
  have e: "BLOCK_SIZE 12 = 4096" "BLOCK_COUNT sz 12 = n" "mul64 n 4096 = sz" using assms by (simp_all add: BLOCK_SIZE_def BLOCK_COUNT_def mul64_def)
  have hk: "buddy_hk_alloc st 12 n (demo_ba t t st sz [] (\<lambda>_. [])) = (demo_ba t (t - 1) st sz [] (\<lambda>_. []), Some \<lparr>area_map = st, blk_count = n, bin_num = 12\<rparr>)"
    using assms(4) by (simp add: buddy_hk_alloc_def demo_ba_def)
  show ?thesis
    using assms(1) by (subst numeral_3_eq_3, subst fill_bins.simps) (simp add: demo_ba_estimate e hk demo_ba_put sub64_def)
qed

text \<open>Two blocks of the largest size from the first area.\<close>

lemma demo_ba_alloc:
  assumes "2 < n" "n < 2 ^ 16" "st < 2 ^ 32" "0 < k"
  shows "buddy_mem_alloc 8192 (demo_ba t k st sz [] (bin12 st n))
    = Done (demo_ba t (k - 1) st sz [\<lparr>area_map = st, blk_count = 128, bin_num = 6\<rparr>] (bin12 (st + 8192) (n - 2)), Inr st)"
proof -
  have b: "blocks_for 8192 12 = 2" "blocks_for 8192 6 = 128" by (simp_all add: blocks_for_def buddy_eval)
  have "add64 st 8192 = st + 8192" using assms(3) by (intro add64_eq) simp
  then have g: "buddy_bins_get 12 2 (demo_ba t k st sz [] (bin12 st n))
      = (demo_ba t (k - 1) st sz [] (bin12 (st + 8192) (n - 2)), Some \<lparr>area_map = st, blk_count = 2, bin_num = 12\<rparr>)"
    using assms by (subst buddy_bins_get.simps) (simp add: bin12_def mul64_def BLOCK_SIZE_def buddy_hk_alloc_def set_bin_def demo_ba_def)
  show ?thesis
    by (simp add: buddy_mem_alloc_def demo_ba_estimate b g downgrade_def mul64_def trim_area_def add_allocated_def buddy_alloc_add_def del: bind_result_eq_Done)
      (simp add: demo_ba_def)
qed

definition demo_normal :: "nat \<Rightarrow> buddy_area list \<Rightarrow> (nat \<Rightarrow> buddy_area list) \<Rightarrow> heap_control" where
  "demo_normal k al bs = \<lparr>heap_ba = demo_ba 2048 k 16908288 917504 al bs, hk_start = 16777216, hk_size = 131072, heap_mem_start = 16908288,
     heap_mem_size = 917504, heap_start = 16777216, heap_start_pa = 285212672, heap_size = 1048576\<rparr>"

definition demo_dma :: "nat \<Rightarrow> buddy_area list \<Rightarrow> (nat \<Rightarrow> buddy_area list) \<Rightarrow> heap_control" where
  "demo_dma k al bs = \<lparr>heap_ba = demo_ba 128 k 67108864 65536 al bs, hk_start = 16908288, hk_size = 8192, heap_mem_start = 67108864,
     heap_mem_size = 65536, heap_start = 67108864, heap_start_pa = 335544320, heap_size = 65536\<rparr>"

text \<open>After the initialisation, where the normal heap holds the house-keeping structures of the other, and after an allocation of 8192 bytes.\<close>

definition demo_heaps :: heaps where
  "demo_heaps = \<lparr>normal_heap = demo_normal 2046 [\<lparr>area_map = 16908288, blk_count = 128, bin_num = 6\<rparr>] (bin12 16916480 222),
     dma_heap = demo_dma 127 [] (bin12 67108864 16), ram = (\<lambda>_. 7), freed_pages = []\<rparr>"

definition demo_heaps_used :: heaps where
  "demo_heaps_used = demo_heaps\<lparr>dma_heap := demo_dma 126 [\<lparr>area_map = 67108864, blk_count = 128, bin_num = 6\<rparr>] (bin12 67117056 14)\<rparr>"

definition boot_heaps :: heaps where "boot_heaps = \<lparr>normal_heap = zero_heap, dma_heap = zero_heap, ram = (\<lambda>_. 7), freed_pages = []\<rparr>"

lemma demo_ba_init:
  assumes "fill_bins 3 st sz (demo_ba t t st sz [] (\<lambda>_. [])) = Done (ba, VMM_OK)" "64 \<le> sz" "st mod 64 = 0" "st < add64 st sz" "0 < t"
  shows "buddy_allocator_init t st sz 6 12 = Done (Some ba, VMM_OK)"
  using assms(2-5) by (simp add: buddy_allocator_init_def BUDDY_MAX_SUPPORTED_BIN_def off_block_def BLOCK_SIZE_def assms(1) [unfolded demo_ba_def] del: bind_result_eq_Done)

lemma demo_normal_buddy: "buddy_allocator_init 2048 16908288 917504 6 12 = Done (Some (demo_ba 2048 2047 16908288 917504 [] (bin12 16908288 224)), VMM_OK)"
proof -
  have f: "fill_bins 3 16908288 917504 (demo_ba 2048 2048 16908288 917504 [] (\<lambda>_. [])) = Done (demo_ba 2048 (2048 - 1) 16908288 917504 [] (bin12 16908288 224), VMM_OK)"
    by (rule demo_ba_fill) simp_all
  show ?thesis by (rule demo_ba_init [OF f, simplified]) (simp_all add: add64_def)
qed

lemma demo_dma_buddy: "buddy_allocator_init 128 67108864 65536 6 12 = Done (Some (demo_ba 128 127 67108864 65536 [] (bin12 67108864 16)), VMM_OK)"
proof -
  have f: "fill_bins 3 67108864 65536 (demo_ba 128 128 67108864 65536 [] (\<lambda>_. [])) = Done (demo_ba 128 (128 - 1) 67108864 65536 [] (bin12 67108864 16), VMM_OK)"
    by (rule demo_ba_fill) simp_all
  show ?thesis by (rule demo_ba_init [OF f, simplified]) (simp_all add: add64_def)
qed

lemmas heap_eval = heap_init_def heap_place_def heap_buddy_init_def put_heap_def get_heap_def HEAP_MIN_BIN_def HEAP_MAX_BIN_def SIZEOF_BUDDY_AREA_def
  demo_env_def zero_heap_def add64_def sub64_def Let_def

lemma demo_normal_init: "heap_init demo_env True 1024 boot_heaps = Done (boot_heaps\<lparr>normal_heap := demo_normal 2047 [] (bin12 16908288 224)\<rparr>, VMM_OK)"
  by (simp add: heap_eval demo_normal_buddy boot_heaps_def demo_normal_def del: bind_result_eq_Done)

lemma demo_hk_alloc: "heap_malloc 8192 (demo_normal 2047 [] (bin12 16908288 224)) = Done (normal_heap demo_heaps, 16908288)"
  using demo_ba_alloc [of 224 16908288 2047 2048 917504] by (simp add: heap_malloc_def demo_normal_def demo_heaps_def del: bind_result_eq_Done)

lemma demo_heap_init: "vmm_heap_init demo_env boot_heaps = Done (demo_heaps, VMM_OK)"
proof -
  have "heap_init demo_env False 64 (boot_heaps\<lparr>normal_heap := demo_normal 2047 [] (bin12 16908288 224)\<rparr>) = Done (demo_heaps, VMM_OK)"
    by (simp add: heap_eval demo_dma_buddy boot_heaps_def vmm_malloc_def demo_hk_alloc del: bind_result_eq_Done)
      (simp add: demo_heaps_def demo_dma_def)
  moreover have "heap_size_mb demo_env = 1" "dma_heap_size_kb demo_env = 64" by (simp_all add: demo_env_def)
  ultimately show ?thesis by (simp add: vmm_heap_init_def demo_normal_init del: bind_result_eq_Done)
qed

lemma demo_heaps_state: "heaps_state demo_env demo_heaps"
  by (rule heaps_start [OF demo_heap_init])

lemma demo_pages_ok: "pages_ok demo_env"
  by (auto simp: pages_ok_def heap_range_def heap_base_def heap_bytes_def demo_env_def)

lemma demo_dma_alloc: "vmm_dma_malloc 8192 demo_heaps = Done (demo_heaps_used, 67108864)"
  using demo_ba_alloc [of 16 67108864 127 128 65536]
  by (simp add: vmm_dma_malloc_def heap_malloc_def demo_heaps_def demo_heaps_used_def demo_dma_def del: bind_result_eq_Done)

section \<open>Contracts\<close>

text \<open>The bytes that are in use.\<close>

definition live :: "heaps \<Rightarrow> nat set" where "live H = heap_used (normal_heap H) \<union> heap_used (dma_heap H)"

lemma heaps_apart:
  assumes "heaps_inv Q H" "pages_ok Q"
  shows "heap_used (normal_heap H) \<inter> heap_used (dma_heap H) = {}"
proof -
  have "heap_used (normal_heap H) \<subseteq> heap_range Q True" "heap_used (dma_heap H) \<subseteq> heap_range Q False"
    using assms(1) heap_okD(3) by (auto simp: heaps_inv_def heap_inv_def)
  then show ?thesis using assms(2) unfolding pages_ok_def by blast
qed

definition isolated :: "heaps \<Rightarrow> nat \<Rightarrow> heaps \<Rightarrow> nat \<Rightarrow> bool" where
  "isolated H sz H' p \<longleftrightarrow>
     (if p = 0 then ram H' = ram H \<and> live H' = live H
      else {p ..< p + sz} \<inter> live H = {} \<and> {p ..< p + sz} \<union> live H \<subseteq> live H' \<and> (\<forall>x \<in> {p ..< p + sz}. ram H' x = 0)
           \<and> (\<forall>x \<in> live H. ram H' x = ram H x))"

text \<open>
  C22.  In every state of the heaps \<^verbatim>\<open>vmm_zalloc\<close> and \<^verbatim>\<open>vmm_dma_zalloc\<close> return, and what they return is a null pointer, with the memory and what is
  in use unchanged, or a block that is cleared, that no one was using of either heap, and that is in use from then on; the contents of what
  was in use are as before.
\<close>

theorem heap_zalloc_isolated:
  assumes "pages_ok Q" and "heaps_state Q H" and "sz < 2 ^ 64" and "f \<in> {vmm_zalloc, vmm_dma_zalloc}"
  shows "\<exists>H' p. f sz H = Done (H', p) \<and> isolated H sz H' p \<and> heaps_state Q H'"
proof -
  note i = heaps_state_inv [OF assms(2,1)]
  have ok: "heap_ok (normal_heap H)" "heap_ok (dma_heap H)" using i by (simp_all add: heaps_inv_def heap_inv_def)
  have fin: "isolated H sz H' p" if st: "heaps_state Q H'" and u: "U' \<union> V = live H'" "U \<union> V = live H" "U' \<inter> V = {}"
      and out: "\<forall>x. x \<notin> {p ..< p + sz} \<longrightarrow> ram H' x = ram H x"
      and r: "if p = 0 then ram H' = ram H \<and> U' = U else {p ..< p + sz} \<inter> U = {} \<and> {p ..< p + sz} \<union> U \<subseteq> U' \<and> (\<forall>x \<in> {p ..< p + sz}. ram H' x = 0)" for H' p U U' V
  proof (cases "p = 0")
    case False
    then have "{p ..< p + sz} \<inter> live H = {}" "{p ..< p + sz} \<union> live H \<subseteq> live H'" "\<forall>x \<in> {p ..< p + sz}. ram H' x = 0" using r u(3) unfolding u(1,2) [symmetric] by auto
    moreover from this(1) have "\<forall>x \<in> live H. ram H' x = ram H x" using out by blast
    ultimately show ?thesis using False by (simp add: isolated_def)
  qed (use r u in \<open>simp add: isolated_def\<close>)
  show ?thesis
  proof (cases "f = vmm_zalloc")
    case True
    obtain H' h p where z: "vmm_zalloc sz H = Done (H', p)" "normal_heap H' = h" "\<forall>x. x \<notin> {p ..< p + sz} \<longrightarrow> ram H' x = ram H x" "dma_heap H' = dma_heap H"
      "if p = 0 then ram H' = ram H \<and> heap_used h = heap_used (normal_heap H)
       else {p ..< p + sz} \<inter> heap_used (normal_heap H) = {} \<and> {p ..< p + sz} \<union> heap_used (normal_heap H) \<subseteq> heap_used h \<and> (\<forall>x \<in> {p ..< p + sz}. ram H' x = 0)"
      using nheap.zalloc_block [OF ok(1) assms(3)] by (elim exE conjE) (rule that; assumption)
    have st: "heaps_state Q H'" using heaps_step [OF assms(2), of "H_zalloc sz" H'] z(1) assms(3) by simp
    have "isolated H sz H' p"
      by (rule fin [OF st _ _ _ z(3,5), of "heap_used (dma_heap H)"])
        (use z(2,4) heaps_apart [OF heaps_state_inv [OF st assms(1)] assms(1)] in \<open>simp_all add: live_def\<close>)
    then show ?thesis using True z(1) st by simp
  next
    case False
    obtain H' h p where z: "vmm_dma_zalloc sz H = Done (H', p)" "dma_heap H' = h" "\<forall>x. x \<notin> {p ..< p + sz} \<longrightarrow> ram H' x = ram H x" "normal_heap H' = normal_heap H"
      "if p = 0 then ram H' = ram H \<and> heap_used h = heap_used (dma_heap H)
       else {p ..< p + sz} \<inter> heap_used (dma_heap H) = {} \<and> {p ..< p + sz} \<union> heap_used (dma_heap H) \<subseteq> heap_used h \<and> (\<forall>x \<in> {p ..< p + sz}. ram H' x = 0)"
      using dheap.zalloc_block [OF ok(2) assms(3)] by (elim exE conjE) (rule that; assumption)
    have st: "heaps_state Q H'" using heaps_step [OF assms(2), of "H_dma_zalloc sz" H'] z(1) assms(3) by simp
    have "isolated H sz H' p"
      by (rule fin [OF st _ _ _ z(3,5), of "heap_used (normal_heap H)"])
        (use z(2,4) heaps_apart [OF heaps_state_inv [OF st assms(1)] assms(1)] in \<open>auto simp: live_def\<close>)
    then show ?thesis using False assms(4) z(1) st by simp
  qed
qed

theorem heap_zalloc_isolated_witness: "\<exists>H' p. vmm_zalloc 100 demo_heaps = Done (H', p) \<and> isolated demo_heaps 100 H' p \<and> heaps_state demo_env H'"
  by (rule heap_zalloc_isolated [OF demo_pages_ok demo_heaps_state]) simp_all

text \<open>
  C23.  For a pointer that came from one of the heaps, the size the heap reports is at least the one that was asked for, and releasing the
  pointer does not fail, gives back what was taken and no more, and the free space of both heaps is as before.
\<close>

theorem heap_free_undoes_malloc:
  assumes "pages_ok Q" and "heaps_state Q H" and "sz < 2 ^ 64"
    and "(f, szof, g) \<in> {(vmm_malloc, vmm_alloc_size, vmm_free), (vmm_dma_malloc, vmm_dma_alloc_size, vmm_dma_free)}" and "f sz H = Done (H1, p)" and "p \<noteq> 0"
  shows "\<exists>n H2. szof p H1 = Done n \<and> sz \<le> n \<and> g p H1 = Done H2 \<and> live H2 = live H
    \<and> vmm_normal_heap_free_size H2 = vmm_normal_heap_free_size H \<and> vmm_dma_heap_free_size H2 = vmm_dma_heap_free_size H"
proof -
  note i = heaps_state_inv [OF assms(2,1)]
  have ok: "heap_ok (normal_heap H)" "heap_ok (dma_heap H)" using i by (simp_all add: heaps_inv_def heap_inv_def)
  show ?thesis
  proof (cases "f = vmm_malloc \<and> szof = vmm_alloc_size \<and> g = vmm_free")
    case True
    then have m: "vmm_malloc sz H = Done (H1, p)" using assms(5) by simp
    note P = nheap.malloc_pres [OF ok(1) assms(3) m]
    from nheap.free_undoes_malloc [OF ok(1) assms(3) m assms(6)] obtain n H2 where
      r: "heap_alloc_size (normal_heap H1) p = Done n" "sz \<le> n" "vmm_free p H1 = Done H2" "heap_used (normal_heap H2) = heap_used (normal_heap H)"
      "buddy_bins_free_space (heap_ba (normal_heap H2)) = buddy_bins_free_space (heap_ba (normal_heap H))" by blast
    have "dma_heap H2 = dma_heap H" using nheap.free_pres [OF _ r(3)] P by simp
    then show ?thesis using True r by (simp add: vmm_alloc_size_def live_def vmm_normal_heap_free_size_def vmm_dma_heap_free_size_def)
  next
    case False
    then have fg: "f = vmm_dma_malloc" "szof = vmm_dma_alloc_size" "g = vmm_dma_free" using assms(4) by auto
    then have m: "vmm_dma_malloc sz H = Done (H1, p)" using assms(5) by simp
    note P = dheap.malloc_pres [OF ok(2) assms(3) m]
    from dheap.free_undoes_malloc [OF ok(2) assms(3) m assms(6)] obtain n H2 where
      r: "heap_alloc_size (dma_heap H1) p = Done n" "sz \<le> n" "vmm_dma_free p H1 = Done H2" "heap_used (dma_heap H2) = heap_used (dma_heap H)"
      "buddy_bins_free_space (heap_ba (dma_heap H2)) = buddy_bins_free_space (heap_ba (dma_heap H))" by blast
    have "normal_heap H2 = normal_heap H" using dheap.free_pres [OF _ r(3)] P by simp
    then show ?thesis using fg r by (simp add: vmm_dma_alloc_size_def live_def vmm_normal_heap_free_size_def vmm_dma_heap_free_size_def)
  qed
qed

theorem heap_free_undoes_malloc_witness:
  "\<exists>n H2. vmm_dma_alloc_size 67108864 demo_heaps_used = Done n \<and> 8192 \<le> n \<and> vmm_dma_free 67108864 demo_heaps_used = Done H2 \<and> live H2 = live demo_heaps
    \<and> vmm_normal_heap_free_size H2 = vmm_normal_heap_free_size demo_heaps \<and> vmm_dma_heap_free_size H2 = vmm_dma_heap_free_size demo_heaps"
  by (rule heap_free_undoes_malloc [where f = vmm_dma_malloc, OF demo_pages_ok demo_heaps_state _ _ demo_dma_alloc]) simp_all

text \<open>
  C24.  A buffer from the heap for device memory that is mapped for a device, in any direction, and unmapped again: the physical address is the
  one at the same distance from the start of the heap, and unmapping finds the virtual address again.  The caches are handled for just the
  buffer: before the transfer they are invalidated when the device writes only, and cleaned otherwise; after it they are invalidated when the
  device may have written, and left alone otherwise.
\<close>

theorem dma_map_unmap:
  assumes "pages_ok Q" and "heaps_state Q H" and "vmm_dma_malloc sz H = Done (H1, va)" and "va \<noteq> 0" and "sz < 2 ^ 64"
    and "host_va2pa Q (heap_base Q False) = Inr pa" and "pa + heap_bytes Q False < 2 ^ 64"
  shows "va + sz \<le> heap_base Q False + heap_bytes Q False \<and>
    vmm_dma_map Q va sz dir H1 = Done (case dir of DMA_FROM_DEVICE \<Rightarrow> [Inv_dcache va (va + sz), Inv_outer va (va + sz)]
        | _ \<Rightarrow> [Clean_dcache va (va + sz), Clean_outer va (va + sz)], pa + (va - heap_base Q False)) \<and>
    vmm_dma_unmap Q (pa + (va - heap_base Q False)) sz dir H1 = Done (case dir of DMA_FROM_DEVICE \<Rightarrow> [Inv_dcache va (va + sz), Inv_outer va (va + sz)]
        | DMA_BIDIRECTIONAL \<Rightarrow> [Inv_dcache va (va + sz), Inv_outer va (va + sz)] | _ \<Rightarrow> [])"
proof -
  let ?b = "heap_base Q False" let ?n = "heap_bytes Q False"
  note i = heaps_state_inv [OF assms(2,1)]
  have ok: "heap_ok (dma_heap H)" using i by (simp add: heaps_inv_def heap_inv_def)
  have i1: "heap_inv Q False (dma_heap H1)" using dheap.malloc_pres [OF ok assms(5,3)] heap_inv_conf i unfolding heaps_inv_def by blast
  then have h: "heap_start (dma_heap H1) = ?b" "heap_size (dma_heap H1) = ?n" "heap_start_pa (dma_heap H1) = pa" "heap_mem (dma_heap H1) \<subseteq> heap_range Q False"
    using assms(6) by (simp_all add: heap_inv_def)
  have "\<exists>a. added va sz a (heap_ba (dma_heap H)) (heap_ba (dma_heap H1)) \<and> kept [] (heap_ba (dma_heap H)) [] (heap_ba (dma_heap H1))"
    using heap_malloc_ok [OF ok assms(5)] assms(3,4) by (elim exE conjE) (auto simp: vmm_dma_malloc_def)
  then obtain a where a: "added va sz a (heap_ba (dma_heap H)) (heap_ba (dma_heap H1))" "kept [] (heap_ba (dma_heap H)) [] (heap_ba (dma_heap H1))" by blast
  have ins: "inserted a (heap_ba (dma_heap H)) (heap_ba (dma_heap H1))" "area_map a = va" using a(1) by (simp_all add: added_def)
  note C = inserted_cells [OF heap_okD(1) [OF ok] a(2) ins(1)]
  have ok1: "heap_ok (dma_heap H1)" using i1 by (simp add: heap_inv_def)
  have "va \<in> cells a" using cells_nonempty [OF inv_hD(2) [OF heap_okD(1) [OF ok1] C(3)]] ins(2) by simp
  then have "insert va {va ..< va + sz} \<subseteq> heap_used (dma_heap H1)" using C(4) added_cells [OF a(1)] by (auto simp: heap_used_def)
  then have "insert va {va ..< va + sz} \<subseteq> heap_range Q False" using heap_okD(3) [OF ok1] h(4) by (meson subset_trans)
  then have r: "?b \<le> va" "va < ?b + ?n" "va + sz \<le> ?b + ?n"
    by (auto simp: heap_range_def)
  have n64: "?b + ?n < 2 ^ 64" by (rule heap_bytes_bounds(3) [OF assms(1)])
  obtain d where d: "va = ?b + d" using r(1) by (metis le_add_diff_inverse)
  have e: "add64 ?b ?n = ?b + ?n" "add64 va sz = va + sz" "sub64 va ?b = d" "add64 d pa = pa + d" "add64 pa ?n = pa + ?n" "sub64 (pa + d) pa = d" "add64 ?b d = va"
    "va - ?b = d" "d < ?n"
    using r n64 assms(7) d by (auto simp: add64_eq sub64_eq)
  show ?thesis using r
    by (simp add: vmm_dma_map_def vmm_dma_va2pa_def heap_va2pa_def vmm_dma_unmap_def vmm_dma_pa2va_def heap_pa2va_def h(1-3) e split: dma_direction.split)
qed

theorem dma_map_unmap_witness:
  "vmm_dma_map demo_env 67108864 8192 DMA_BIDIRECTIONAL demo_heaps_used = Done ([Clean_dcache 67108864 67117056, Clean_outer 67108864 67117056], 335544320) \<and>
   vmm_dma_unmap demo_env 335544320 8192 DMA_BIDIRECTIONAL demo_heaps_used = Done [Inv_dcache 67108864 67117056, Inv_outer 67108864 67117056] \<and>
   vmm_dma_unmap demo_env 335544320 8192 DMA_TO_DEVICE demo_heaps_used = Done []"
proof -
  have "heap_base demo_env False = 67108864" "heap_bytes demo_env False = 65536" "host_va2pa demo_env 67108864 = Inr 335544320"
    by (simp_all add: heap_base_def heap_bytes_def demo_env_def)
  then show ?thesis using dma_map_unmap [OF demo_pages_ok demo_heaps_state demo_dma_alloc, of 335544320 DMA_BIDIRECTIONAL]
      dma_map_unmap [OF demo_pages_ok demo_heaps_state demo_dma_alloc, of 335544320 DMA_TO_DEVICE] by simp
qed

section \<open>Where the code departs from its intention\<close>

text \<open>The first block of the heap for device memory is not recognised as device memory, the test is strict at the start.\<close>

lemma is_dma_misses_first: "vmm_dma_malloc 8192 demo_heaps = Done (demo_heaps_used, 67108864) \<and> \<not> vmm_is_dma 67108864 demo_heaps_used \<and> vmm_is_dma 67108865 demo_heaps_used"
  by (simp add: demo_dma_alloc) (simp add: vmm_is_dma_def demo_heaps_used_def demo_dma_def add64_def)

text \<open>A normal heap of four gigabytes is set up with no bytes at all.\<close>

lemma heap_size_wraps: "heap_bytes (demo_env\<lparr>heap_size_mb := 4096\<rparr>) True = 0"
  by (simp add: heap_bytes_def)

text \<open>When the allocator of the second heap cannot be set up, the pages are released, the house-keeping memory from the normal heap is not.\<close>

definition odd_env :: heap_env where "odd_env = demo_env\<lparr>host_alloc_pages := (\<lambda>is_normal _. if is_normal then 16777216 else 67108865)\<rparr>"

lemma dma_init_leaks: "\<exists>H. vmm_heap_init odd_env boot_heaps = Done (H, VMM_EINVALID) \<and> freed_pages H = [(67108865, 16)] \<and> normal_heap H = normal_heap demo_heaps"
proof -
  have n: "heap_init odd_env True 1024 boot_heaps = Done (boot_heaps\<lparr>normal_heap := demo_normal 2047 [] (bin12 16908288 224)\<rparr>, VMM_OK)"
    by (simp add: odd_env_def heap_eval demo_normal_buddy boot_heaps_def demo_normal_def del: bind_result_eq_Done)
  have "buddy_allocator_init 128 67108865 65536 6 12 = Done (None, VMM_EINVALID)" by (simp add: buddy_allocator_init_def off_block_def BLOCK_SIZE_def)
  then have "\<exists>H. heap_init odd_env False 64 (boot_heaps\<lparr>normal_heap := demo_normal 2047 [] (bin12 16908288 224)\<rparr>) = Done (H, VMM_EINVALID)
      \<and> freed_pages H = [(67108865, 16)] \<and> normal_heap H = normal_heap demo_heaps"
    by (simp add: odd_env_def heap_eval boot_heaps_def vmm_malloc_def demo_hk_alloc fail_free_pages_def size_to_page_def del: bind_result_eq_Done)
  moreover have "heap_size_mb odd_env = 1" "dma_heap_size_kb odd_env = 64" by (simp_all add: odd_env_def demo_env_def)
  ultimately show ?thesis by (simp add: vmm_heap_init_def n del: bind_result_eq_Done)
qed

end
