(* ===== verification/HostAspace.thy ===== *)
theory HostAspace
  imports HostRam Vapool
begin

text \<open>
  The address space of the host, \<^verbatim>\<open>core/vmm_host_aspace.c\<close>: mappings of physical to virtual addresses over the pool of virtual
  addresses and the host RAM, the table of mappings with its reference counts, and access to physical memory.

  The page tables are code of the architecture: a record \<open>arch_aspace\<close> of the three functions \<^verbatim>\<open>arch_cpu_aspace_map\<close>,
  \<^verbatim>\<open>arch_cpu_aspace_unmap\<close> and \<^verbatim>\<open>arch_cpu_aspace_va2pa\<close> over a state \<open>'a\<close>; \<open>arch_ok\<close> is what their documentation says.  The variant for
  architectures without \<^verbatim>\<open>ARCH_HAS_MEMORY_READWRITE\<close> is modelled.  The red-black tree of mappings is its in-order sequence.
\<close>

section \<open>The table of mappings\<close>

record mhash_entry =
  me_pa :: nat
  me_va :: nat
  me_sz :: nat
  me_flags :: nat
  me_ref :: nat

text \<open>\<open>mh_entry\<close> is the array, \<open>mh_root\<close> has the indices of the entries in the tree, in order.\<close>

record host_mhash =
  mh_start :: nat
  mh_size :: nat
  mh_count :: nat
  mh_root :: "nat list"
  mh_entry :: "mhash_entry list"

definition zero_entry :: mhash_entry where "zero_entry = \<lparr>me_pa = 0, me_va = 0, me_sz = 0, me_flags = 0, me_ref = 0\<rparr>"

definition put_entry :: "nat \<Rightarrow> mhash_entry \<Rightarrow> host_mhash \<Rightarrow> host_mhash" where "put_entry i e m = m\<lparr>mh_entry := (mh_entry m)[i := e]\<rparr>"

definition host_mhash_alloc :: "host_mhash \<Rightarrow> host_mhash \<times> nat option" where
  "host_mhash_alloc m =
     (case List.find (\<lambda>i. me_ref (mh_entry m ! i) = 0) [0..<mh_count m] of
        None \<Rightarrow> (m, None)
      | Some i \<Rightarrow> (put_entry i ((mh_entry m ! i)\<lparr>me_ref := 1\<rparr>) m, Some i))"

definition me_end :: "mhash_entry \<Rightarrow> nat" where "me_end e = add64 (me_pa e) (me_sz e)"

text \<open>The search; the branch that panics cannot be reached, since an address is below, in or above a range.\<close>

definition host_mhash_find :: "nat \<Rightarrow> host_mhash \<Rightarrow> nat option" where
  "host_mhash_find pa m = List.find (\<lambda>i. me_pa (mh_entry m ! i) \<le> pa \<and> pa < me_end (mh_entry m ! i)) (mh_root m)"

text \<open>The test that a range is not part of an entry.\<close>

definition not_within :: "mhash_entry \<Rightarrow> nat \<Rightarrow> nat \<Rightarrow> nat \<Rightarrow> bool" where
  "not_within e pa va sz \<longleftrightarrow>
     va < me_va e \<or> add64 (me_va e) (me_sz e) \<le> va \<or> add64 va sz < me_va e \<or> add64 (me_va e) (me_sz e) < add64 va sz \<or> me_end e < add64 pa sz"

fun link_entry :: "mhash_entry list \<Rightarrow> nat \<Rightarrow> nat list \<Rightarrow> nat list result" where
  "link_entry es i [] = Done [i]"
| "link_entry es i (p # ps) =
     (if me_end (es ! i) \<le> me_pa (es ! p) then Done (i # p # ps)
      else if me_end (es ! p) \<le> me_pa (es ! i) then bind_result (link_entry es i ps) (\<lambda>qs. Done (p # qs))
      else Panic)"

definition host_mhash_add :: "nat \<Rightarrow> nat \<Rightarrow> nat \<Rightarrow> nat \<Rightarrow> host_mhash \<Rightarrow> (host_mhash \<times> vmm_rc) result" where
  "host_mhash_add pa va sz fl m =
     (case host_mhash_find pa m of
        Some i \<Rightarrow>
          let e = mh_entry m ! i
          in if not_within e pa va sz \<or> me_flags e \<noteq> fl then Done (m, VMM_EINVALID)
             else Done (put_entry i (e\<lparr>me_ref := (me_ref e + 1) mod 2 ^ 32\<rparr>) m, VMM_OK)
      | None \<Rightarrow>
          (case host_mhash_alloc m of
             (m1, None) \<Rightarrow> Done (m1, VMM_ENOMEM)
           | (m1, Some i) \<Rightarrow>
               let m2 = put_entry i ((mh_entry m1 ! i)\<lparr>me_pa := pa, me_va := va, me_sz := sz, me_flags := fl\<rparr>) m1
               in bind_result (link_entry (mh_entry m2) i (mh_root m2)) (\<lambda>r. Done (m2\<lparr>mh_root := r\<rparr>, VMM_OK))))"

text \<open>A part that remains is entered again, and it is an error if that fails.\<close>

definition mhash_residue :: "nat \<Rightarrow> nat \<Rightarrow> nat \<Rightarrow> nat \<Rightarrow> host_mhash \<times> vmm_rc \<Rightarrow> (host_mhash \<times> vmm_rc) result" where
  "mhash_residue pa va sz fl = (\<lambda>(m, rc).
     if sz = 0 then Done (m, rc)
     else bind_result (host_mhash_add pa va sz fl m) (\<lambda>(m1, rc1). if rc1 \<noteq> VMM_OK then Panic else Done (m1, rc1)))"

definition host_mhash_del :: "nat \<Rightarrow> nat \<Rightarrow> nat \<Rightarrow> host_mhash \<Rightarrow> (host_mhash \<times> vmm_rc) result" where
  "host_mhash_del pa va sz m =
     (case host_mhash_find pa m of
        None \<Rightarrow> Done (m, VMM_ENOTAVAIL)
      | Some i \<Rightarrow>
          let e = mh_entry m ! i; r = (me_ref e + 2 ^ 32 - 1) mod 2 ^ 32
          in if not_within e pa va sz then Done (m, VMM_EINVALID)
             else if r \<noteq> 0 then Done (put_entry i (e\<lparr>me_ref := r\<rparr>) m, VMM_EBUSY)
             else bind_result (mhash_residue (me_pa e) (me_va e) (sub64 va (me_va e)) (me_flags e) (put_entry i zero_entry (m\<lparr>mh_root := remove1 i (mh_root m)\<rparr>), VMM_OK))
                    (mhash_residue (add64 pa sz) (add64 va sz) (sub64 (add64 (me_va e) (me_sz e)) (add64 va sz)) (me_flags e)))"

text \<open>The virtual address, the size of what is mapped from there, and the flags.\<close>

definition host_mhash_pa2va :: "nat \<Rightarrow> host_mhash \<Rightarrow> vmm_rc + (nat \<times> nat \<times> nat)" where
  "host_mhash_pa2va pa m =
     (case host_mhash_find pa m of
        None \<Rightarrow> Inl VMM_ENOTAVAIL
      | Some i \<Rightarrow> let e = mh_entry m ! i in Inr (add64 (me_va e) (sub64 (me_pa e) pa), sub64 (me_sz e) (sub64 (me_pa e) pa), me_flags e))"

text \<open>The size of \<^verbatim>\<open>struct host_mhash_entry\<close>: a tree node of three words, three words, and two numbers of 32 bits.\<close>

definition SIZEOF_MHASH_ENTRY :: nat where "SIZEOF_MHASH_ENTRY = 56"

text \<open>\<open>n\<close> is \<^verbatim>\<open>CONFIG_MEMMAP_HASH_SIZE\<close>.\<close>

definition host_mhash_estimate_hksize :: "nat \<Rightarrow> nat" where "host_mhash_estimate_hksize n = SIZEOF_MHASH_ENTRY * n"

definition host_mhash_init :: "nat \<Rightarrow> nat \<Rightarrow> host_mhash \<times> vmm_rc" where
  "host_mhash_init st sz =
     (let n = (sz div SIZEOF_MHASH_ENTRY) mod 2 ^ 32
      in (\<lparr>mh_start = st, mh_size = sz, mh_count = n, mh_root = [], mh_entry = replicate n zero_entry\<rparr>, if n = 0 then VMM_EINVALID else VMM_OK))"

section \<open>State of the host\<close>

record 'a arch_aspace =
  a_map :: "nat \<Rightarrow> nat \<Rightarrow> nat \<Rightarrow> 'a \<Rightarrow> 'a \<times> vmm_rc"
  a_unmap :: "nat \<Rightarrow> 'a \<Rightarrow> 'a \<times> vmm_rc"
  a_va2pa :: "nat \<Rightarrow> 'a \<Rightarrow> vmm_rc + nat"

record 'a host =
  h_mmu :: 'a
  h_pool :: vapool_ctrl
  h_ram :: "unit vmm_host_ram_ctrl"
  h_mhash :: host_mhash
  h_phys :: "nat \<Rightarrow> u8"
  h_rw_va :: "nat \<Rightarrow> nat"
  h_irqs_off :: nat
  h_hostmem :: resource

definition page_floor :: "nat \<Rightarrow> nat" where "page_floor x = x - x mod 2 ^ 12"

definition page_round :: "nat \<Rightarrow> nat" where "page_round x = (if x mod 2 ^ 12 \<noteq> 0 then add64 (page_floor x) (2 ^ 12) else x)"

section \<open>Mapping and unmapping\<close>

text \<open>The loops over the pages.\<close>

fun map_pages :: "'a arch_aspace \<Rightarrow> nat \<Rightarrow> nat \<Rightarrow> nat \<Rightarrow> nat \<Rightarrow> 'a \<Rightarrow> 'a result" where
  "map_pages A va pa fl 0 s = Done s"
| "map_pages A va pa fl (Suc n) s =
     (case a_map A va pa fl s of (s1, rc) \<Rightarrow> if rc \<noteq> VMM_OK then Panic else map_pages A (add64 va (2 ^ 12)) (add64 pa (2 ^ 12)) fl n s1)"

fun unmap_pages :: "'a arch_aspace \<Rightarrow> nat \<Rightarrow> nat \<Rightarrow> 'a \<Rightarrow> 'a \<times> vmm_rc" where
  "unmap_pages A va 0 s = (s, VMM_OK)"
| "unmap_pages A va (Suc n) s =
     (case a_unmap A va s of (s1, rc) \<Rightarrow> if rc \<noteq> VMM_OK then (s1, rc) else unmap_pages A (add64 va (2 ^ 12)) n s1)"

text \<open>A range that is mapped already keeps its address, a new one gets pages of the pool.\<close>

definition memmap_place :: "'a arch_aspace \<Rightarrow> nat \<Rightarrow> nat \<Rightarrow> nat \<Rightarrow> 'a host \<Rightarrow> ('a host \<times> nat) result" where
  "memmap_place A tpa sz fl H =
     (case host_mhash_pa2va tpa (h_mhash H) of
        Inr (va, tsz, tfl) \<Rightarrow> if fl \<noteq> tfl \<or> tsz < sz then Panic else Done (H, page_floor va)
      | Inl rc \<Rightarrow>
          if rc \<noteq> VMM_ENOTAVAIL then Panic
          else bind_result (vmm_host_vapool_alloc sz (h_pool H)) (\<lambda>(V, r).
                 case r of
                   Inl _ \<Rightarrow> Panic
                 | Inr va \<Rightarrow> bind_result (map_pages A va tpa fl (sz div 2 ^ 12) (h_mmu H)) (\<lambda>s. Done (H\<lparr>h_pool := V, h_mmu := s\<rparr>, va))))"

definition host_memmap :: "'a arch_aspace \<Rightarrow> nat \<Rightarrow> nat \<Rightarrow> nat \<Rightarrow> 'a host \<Rightarrow> ('a host \<times> nat) result" where
  "host_memmap A pa sz fl H =
     (let sz1 = page_round sz; tpa = page_floor pa
      in bind_result (memmap_place A tpa sz1 fl H) (\<lambda>(H1, va).
           bind_result (host_mhash_add tpa va sz1 fl (h_mhash H1)) (\<lambda>(m, rc).
             if rc \<noteq> VMM_OK then Panic else Done (H1\<lparr>h_mhash := m\<rparr>, add64 va (pa mod 2 ^ 12)))))"

definition host_memunmap :: "'a arch_aspace \<Rightarrow> nat \<Rightarrow> nat \<Rightarrow> 'a host \<Rightarrow> ('a host \<times> vmm_rc) result" where
  "host_memunmap A va0 sz0 H =
     (let sz = page_round sz0; va = page_floor va0
      in case a_va2pa A va (h_mmu H) of
           Inl rc \<Rightarrow> Done (H, rc)
         | Inr pa \<Rightarrow>
             bind_result (host_mhash_del pa va sz (h_mhash H)) (\<lambda>(m, rc).
               let H1 = H\<lparr>h_mhash := m\<rparr>
               in if rc = VMM_EBUSY then Done (H1, VMM_OK)
                  else if rc \<noteq> VMM_OK then Panic
                  else case unmap_pages A va (sz div 2 ^ 12) (h_mmu H1) of
                         (s, rc1) \<Rightarrow>
                           let H2 = H1\<lparr>h_mmu := s\<rparr>
                           in if rc1 \<noteq> VMM_OK then Done (H2, rc1)
                              else bind_result (vmm_host_vapool_free va sz (h_pool H2)) (\<lambda>(V, rc2).
                                     if rc2 \<noteq> VMM_OK then Panic else Done (H2\<lparr>h_pool := V\<rparr>, VMM_OK))))"

definition vmm_host_memmap :: "'a arch_aspace \<Rightarrow> nat \<Rightarrow> nat \<Rightarrow> nat \<Rightarrow> 'a host \<Rightarrow> ('a host \<times> nat) result" where
  "vmm_host_memmap A pa sz fl H = host_memmap A pa sz fl H"

definition vmm_host_memunmap :: "'a arch_aspace \<Rightarrow> nat \<Rightarrow> 'a host \<Rightarrow> ('a host \<times> vmm_rc) result" where
  "vmm_host_memunmap A va H =
     (case vmm_host_vapool_find va (h_pool H) of Inl rc \<Rightarrow> Done (H, rc) | Inr (ava, asz) \<Rightarrow> host_memunmap A ava asz H)"

text \<open>\<open>None\<close> when the search for frames does not return, see \<open>find_frames\<close>.\<close>

definition vmm_host_alloc_aligned_pages :: "'a arch_aspace \<Rightarrow> nat \<Rightarrow> nat \<Rightarrow> nat \<Rightarrow> 'a host \<Rightarrow> ('a host \<times> nat) result option" where
  "vmm_host_alloc_aligned_pages A page_count align_order fl H =
     (let ord = (if align_order < 12 then 12 else align_order); sz = page_count * 2 ^ 12
      in map_option (\<lambda>r. bind_result r (\<lambda>(c, pa, got).
           let H1 = H\<lparr>h_ram := c\<rparr>
           in if got = 0 then Done (H1, 0)
              else vmm_host_memmap A (case pa of None \<Rightarrow> 0 | Some p \<Rightarrow> unat p) sz fl H1))
         (vmm_host_ram_alloc (h_ram H) (of_nat sz) (of_nat ord)))"

definition vmm_host_alloc_pages :: "'a arch_aspace \<Rightarrow> nat \<Rightarrow> nat \<Rightarrow> 'a host \<Rightarrow> ('a host \<times> nat) result option" where
  "vmm_host_alloc_pages A page_count fl H = vmm_host_alloc_aligned_pages A page_count 12 fl H"

definition vmm_host_free_pages :: "'a arch_aspace \<Rightarrow> nat \<Rightarrow> nat \<Rightarrow> 'a host \<Rightarrow> ('a host \<times> vmm_rc) result" where
  "vmm_host_free_pages A page_va page_count H =
     (let va = page_floor page_va; sz = page_count * 2 ^ 12
      in case a_va2pa A va (h_mmu H) of
           Inl rc \<Rightarrow> Done (H, rc)
         | Inr pa \<Rightarrow>
             bind_result (host_memunmap A va sz H) (\<lambda>(H1, rc).
               if rc \<noteq> VMM_OK then Done (H1, rc)
               else bind_result (vmm_host_ram_free (h_ram H1) (of_nat pa) (of_nat sz)) (\<lambda>(c, rc1). Done (H1\<lparr>h_ram := c\<rparr>, rc1))))"

text \<open>The page address and the offset have no bit in common when the page address is aligned; the source combines them with a bitwise or.\<close>

definition vmm_host_va2pa :: "'a arch_aspace \<Rightarrow> nat \<Rightarrow> 'a host \<Rightarrow> vmm_rc + nat" where
  "vmm_host_va2pa A va H = (case a_va2pa A (page_floor va) (h_mmu H) of Inl rc \<Rightarrow> Inl rc | Inr p \<Rightarrow> Inr (p OR (va mod 2 ^ 12)))"

definition vmm_host_pa2va :: "nat \<Rightarrow> 'a host \<Rightarrow> vmm_rc + nat" where
  "vmm_host_pa2va pa H = (case host_mhash_pa2va (page_floor pa) (h_mhash H) of Inl rc \<Rightarrow> Inl rc | Inr (va, _) \<Rightarrow> Inr (va OR (pa mod 2 ^ 12)))"

section \<open>Access to physical memory\<close>

definition VMM_MEMORY_FLAGS_NORMAL :: nat where "VMM_MEMORY_FLAGS_NORMAL = 0x1F"
definition VMM_MEMORY_FLAGS_NORMAL_NOCACHE :: nat where "VMM_MEMORY_FLAGS_NORMAL_NOCACHE = 0x07"

text \<open>Copies inside a page of virtual memory, which reach the physical memory through the page tables.\<close>

definition copy_from_page :: "'a arch_aspace \<Rightarrow> nat \<Rightarrow> nat \<Rightarrow> nat \<Rightarrow> 'a host \<Rightarrow> u8 list result" where
  "copy_from_page A va off n H = (case a_va2pa A va (h_mmu H) of Inl _ \<Rightarrow> Fault | Inr p \<Rightarrow> Done (map (\<lambda>i. h_phys H (p + off + i)) [0..<n]))"

definition copy_to_page :: "'a arch_aspace \<Rightarrow> nat \<Rightarrow> nat \<Rightarrow> nat \<Rightarrow> (nat \<Rightarrow> u8) \<Rightarrow> 'a host \<Rightarrow> 'a host result" where
  "copy_to_page A va off n src H =
     (case a_va2pa A va (h_mmu H) of
        Inl _ \<Rightarrow> Fault
      | Inr p \<Rightarrow> Done (H\<lparr>h_phys := (\<lambda>x. if p + off \<le> x \<and> x < p + off + n then src (x - (p + off)) else h_phys H x)\<rparr>))"

text \<open>One page with the interrupts off: \<open>body\<close> is the copy, and the second result says whether the loop goes on.\<close>

definition with_page :: "'a arch_aspace \<Rightarrow> nat \<Rightarrow> nat \<Rightarrow> bool \<Rightarrow> ('a host \<Rightarrow> ('a host \<times> 'b) result) \<Rightarrow> 'b \<Rightarrow> 'a host \<Rightarrow> ('a host \<times> 'b \<times> bool) result" where
  "with_page A tmp_va page cacheable body none H =
     (case a_map A tmp_va page (if cacheable then VMM_MEMORY_FLAGS_NORMAL else VMM_MEMORY_FLAGS_NORMAL_NOCACHE) (h_mmu H) of
        (s, rc) \<Rightarrow>
          let H1 = H\<lparr>h_mmu := s, h_irqs_off := h_irqs_off H + 1\<rparr>
          in if rc \<noteq> VMM_OK then Done (H1, none, False)
             else bind_result (body H1) (\<lambda>(H2, x).
                    case a_unmap A tmp_va (h_mmu H2) of
                      (s2, rc2) \<Rightarrow>
                        if rc2 \<noteq> VMM_OK then Done (H2\<lparr>h_mmu := s2\<rparr>, x, False)
                        else Done (H2\<lparr>h_mmu := s2, h_irqs_off := h_irqs_off H2 - 1\<rparr>, x, True)))"

text \<open>The part of a transfer that lies in one page.\<close>

definition page_part :: "nat \<Rightarrow> nat \<Rightarrow> nat" where "page_part hpa left = min (2 ^ 12 - hpa mod 2 ^ 12) left"

lemma page_part_pos: "0 < left \<Longrightarrow> 0 < page_part hpa left"
  by (simp add: page_part_def)

lemma page_part_le: "page_part hpa left \<le> left"
  by (simp add: page_part_def)

text \<open>The bytes that were stored to the destination, and the result of the call.\<close>

function read_loop :: "'a arch_aspace \<Rightarrow> nat \<Rightarrow> bool \<Rightarrow> nat \<Rightarrow> nat \<Rightarrow> nat \<Rightarrow> u8 list \<Rightarrow> 'a host \<Rightarrow> ('a host \<times> u8 list \<times> nat) result" where
  "read_loop A tmp_va cacheable len hpa bytes_read dst H =
     (if bytes_read < len
      then let n = page_part hpa (len - bytes_read)
           in bind_result (with_page A tmp_va (page_floor hpa) cacheable
                             (\<lambda>H1. bind_result (copy_from_page A tmp_va (hpa mod 2 ^ 12) n H1) (\<lambda>d. Done (H1, d))) [] H) (\<lambda>(H2, d, more).
                if more then read_loop A tmp_va cacheable len (add64 hpa n) (bytes_read + n) (dst @ d) H2
                else Done (H2, dst @ d, bytes_read))
      else Done (H, dst, bytes_read))"
  by pat_completeness auto
termination
  by (relation "measure (\<lambda>(A, tmp_va, cacheable, len, hpa, bytes_read, dst, H). len - bytes_read)") (auto dest: page_part_pos intro: diff_less_mono2 simp: page_part_def)

declare read_loop.simps [simp del]

definition vmm_host_memory_read :: "'a arch_aspace \<Rightarrow> nat \<Rightarrow> nat \<Rightarrow> nat \<Rightarrow> bool \<Rightarrow> 'a host \<Rightarrow> ('a host \<times> u8 list \<times> nat) result" where
  "vmm_host_memory_read A cpu hpa len cacheable H = read_loop A (h_rw_va H cpu) cacheable len hpa 0 [] H"

function write_loop :: "'a arch_aspace \<Rightarrow> nat \<Rightarrow> bool \<Rightarrow> nat \<Rightarrow> (nat \<Rightarrow> u8) \<Rightarrow> nat \<Rightarrow> nat \<Rightarrow> 'a host \<Rightarrow> ('a host \<times> nat) result" where
  "write_loop A tmp_va cacheable len src hpa bytes_written H =
     (if bytes_written < len
      then let n = page_part hpa (len - bytes_written)
           in bind_result (with_page A tmp_va (page_floor hpa) cacheable
                             (\<lambda>H1. bind_result (copy_to_page A tmp_va (hpa mod 2 ^ 12) n (\<lambda>i. src (bytes_written + i)) H1) (\<lambda>H2. Done (H2, ()))) () H) (\<lambda>(H2, _, more).
                if more then write_loop A tmp_va cacheable len src (add64 hpa n) (bytes_written + n) H2
                else Done (H2, bytes_written))
      else Done (H, bytes_written))"
  by pat_completeness auto
termination
  by (relation "measure (\<lambda>(A, tmp_va, cacheable, len, src, hpa, bytes_written, H). len - bytes_written)") (auto simp: page_part_def)

declare write_loop.simps [simp del]

definition vmm_host_memory_write :: "'a arch_aspace \<Rightarrow> nat \<Rightarrow> nat \<Rightarrow> (nat \<Rightarrow> u8) \<Rightarrow> nat \<Rightarrow> bool \<Rightarrow> 'a host \<Rightarrow> ('a host \<times> nat) result" where
  "vmm_host_memory_write A cpu hpa src len cacheable H = write_loop A (h_rw_va H cpu) cacheable len src hpa 0 H"

function set_loop :: "'a arch_aspace \<Rightarrow> nat \<Rightarrow> u8 \<Rightarrow> bool \<Rightarrow> nat \<Rightarrow> nat \<Rightarrow> nat \<Rightarrow> 'a host \<Rightarrow> ('a host \<times> nat) result" where
  "set_loop A cpu byte cacheable en pos total_written H =
     (if pos < en
      then let to_wr = min 256 (en - pos)
           in bind_result (vmm_host_memory_write A cpu pos (\<lambda>_. byte) to_wr cacheable H) (\<lambda>(H1, wr).
                if wr < to_wr then Done (H1, total_written + to_wr)
                else set_loop A cpu byte cacheable en (pos + to_wr) (total_written + to_wr) H1)
      else Done (H, total_written))"
  by pat_completeness auto
termination
  by (relation "measure (\<lambda>(A, cpu, byte, cacheable, en, pos, total_written, H). en - pos)") auto

declare set_loop.simps [simp del]

definition vmm_host_memory_set :: "'a arch_aspace \<Rightarrow> nat \<Rightarrow> nat \<Rightarrow> u8 \<Rightarrow> nat \<Rightarrow> bool \<Rightarrow> 'a host \<Rightarrow> ('a host \<times> nat) result" where
  "vmm_host_memory_set A cpu hpa byte len cacheable H = set_loop A cpu byte cacheable (add64 hpa len) hpa 0 H"

section \<open>Initialisation\<close>

text \<open>
  What the architecture, the device tree and the configuration give: addresses and sizes of the code and of the memory that is only needed at
  start, the banks of RAM and the reserved ranges, and the set-up of the page tables, which may move the reserved spaces.
\<close>

record core_resv =
  core_pa :: nat
  core_va :: nat
  core_sz :: nat
  arch_pa :: nat
  arch_va :: nat
  arch_sz :: nat

record 'a boot_env =
  code_vaddr :: nat
  code_paddr :: nat
  code_size :: nat
  init_vaddr :: nat
  init_size :: nat
  vapool_size_mb :: nat
  vapool_align_mb :: nat
  memmap_hash_size :: nat
  max_ram_banks :: u32
  nr_cpus :: nat
  bank_setup :: vmm_rc
  dt_bank_count :: "vmm_rc + u32"
  dt_bank_start :: "u32 \<Rightarrow> vmm_rc + u64"
  dt_bank_size :: "u32 \<Rightarrow> vmm_rc + u64"
  old_bitmap :: "u32 \<Rightarrow> u64 list"
  primary_init :: "core_resv \<Rightarrow> 'a \<Rightarrow> 'a \<times> (vmm_rc + core_resv)"
  secondary_init :: "'a \<Rightarrow> 'a \<times> vmm_rc"
  reserve_count :: "vmm_rc + u32"
  reserve_addr :: "u32 \<Rightarrow> vmm_rc + u64"
  reserve_size :: "u32 \<Rightarrow> vmm_rc + u64"

text \<open>A step that ends the sequence when it returns an error.\<close>

definition ok_then :: "('s \<times> vmm_rc) result \<Rightarrow> ('s \<Rightarrow> ('s \<times> vmm_rc) result) \<Rightarrow> ('s \<times> vmm_rc) result" where
  "ok_then m f = bind_result m (\<lambda>(s, rc). if rc \<noteq> VMM_OK then Done (s, rc) else f s)"

definition vmm_host_free_initmem :: "'a boot_env \<Rightarrow> 'a arch_aspace \<Rightarrow> 'a host \<Rightarrow> ('a host \<times> nat) result" where
  "vmm_host_free_initmem B A H =
     (let n = (page_round (init_size B) div 2 ^ 12) mod 2 ^ 32
      in bind_result (vmm_host_free_pages A (init_vaddr B) n H) (\<lambda>(H1, rc).
           if rc \<noteq> VMM_OK then Panic else Done (H1, (page_round (init_size B) div 2 ^ 12 * 2 ^ 12 div 1024) mod 2 ^ 32)))"

text \<open>The bank of RAM that holds the code.\<close>

fun find_bank :: "'a boot_env \<Rightarrow> nat \<Rightarrow> u32 \<Rightarrow> vmm_rc + (nat \<times> nat)" where
  "find_bank B 0 bank = Inl VMM_ENODEV"
| "find_bank B (Suc n) bank =
     (case dt_bank_start B bank of
        Inl rc \<Rightarrow> Inl rc
      | Inr st \<Rightarrow>
          if st AND VMM_PAGE_MASK \<noteq> 0 then Inl VMM_EINVALID
          else case dt_bank_size B bank of
            Inl rc \<Rightarrow> Inl rc
          | Inr sz \<Rightarrow>
              if sz AND VMM_PAGE_MASK \<noteq> 0 then Inl VMM_EINVALID
              else if unat st \<le> code_paddr B \<and> code_paddr B < unat (st + sz) then Inr (unat st, unat sz)
              else find_bank B n (bank + 1))"

text \<open>The size is an integer of 32 bits that is shifted and then extended with its sign.\<close>

definition vapool_bytes :: "'a boot_env \<Rightarrow> nat" where
  "vapool_bytes B = (let x = (vapool_size_mb B * 2 ^ 20) mod 2 ^ 32 in if 2 ^ 31 \<le> x then 2 ^ 64 - 2 ^ 32 + x else x)"

definition vapool_hk :: "'a boot_env \<Rightarrow> nat" where "vapool_hk B = vmm_host_vapool_estimate_hksize (vapool_bytes B)"

definition ram_hk :: "'a boot_env \<Rightarrow> nat" where "ram_hk B = unat (vmm_host_ram_estimate_hksize (max_ram_banks B) (dt_bank_count B) (dt_bank_size B))"

definition mhash_hk :: "'a boot_env \<Rightarrow> nat" where "mhash_hk B = host_mhash_estimate_hksize (memmap_hash_size B)"

definition hk_total :: "'a boot_env \<Rightarrow> nat" where "hk_total B = page_round (add64 (add64 (vapool_hk B) (ram_hk B)) (mhash_hk B))"

text \<open>The checks on the banks of RAM.\<close>

definition boot_bank :: "'a boot_env \<Rightarrow> vmm_rc + (nat \<times> nat)" where
  "boot_bank B =
     (if bank_setup B \<noteq> VMM_OK then Inl (bank_setup B)
      else case dt_bank_count B of
             Inl rc \<Rightarrow> Inl rc
           | Inr n \<Rightarrow> if n = 0 then Inl VMM_ENOMEM else if max_ram_banks B < n then Inl VMM_EINVALID else find_bank B (unat n) 0)"

text \<open>The range that is reserved: from the lowest of code, core and architecture space, with a size that is enlarged for code and architecture space.\<close>

definition resv_span :: "'a boot_env \<Rightarrow> core_resv \<Rightarrow> nat \<times> nat \<times> nat" where
  "resv_span B r =
     (let va1 = (if code_vaddr B < core_va r then code_vaddr B else core_va r);
          va = (if 0 < arch_sz r \<and> arch_va r < va1 then arch_va r else va1);
          pa1 = (if code_paddr B < core_pa r then code_paddr B else core_pa r);
          pa = (if 0 < arch_sz r \<and> arch_pa r < pa1 then arch_pa r else pa1);
          code_end = add64 (code_vaddr B) (code_size B); arch_end = add64 (arch_va r) (arch_sz r);
          sz1 = (if add64 va (core_sz r) < code_end then sub64 code_end va else core_sz r);
          sz = (if 0 < arch_sz r \<and> add64 va sz1 < arch_end then sub64 arch_end va else sz1)
      in (pa, va, sz))"

definition pool_step :: "(vapool_ctrl \<Rightarrow> (vapool_ctrl \<times> vmm_rc) result) \<Rightarrow> 'a host \<Rightarrow> ('a host \<times> vmm_rc) result" where
  "pool_step f H = bind_result (f (h_pool H)) (\<lambda>(V, rc). Done (H\<lparr>h_pool := V\<rparr>, rc))"

definition ram_step :: "(unit vmm_host_ram_ctrl \<Rightarrow> (unit vmm_host_ram_ctrl \<times> vmm_rc) result) \<Rightarrow> 'a host \<Rightarrow> ('a host \<times> vmm_rc) result" where
  "ram_step f H = bind_result (f (h_ram H)) (\<lambda>(c, rc). Done (H\<lparr>h_ram := c\<rparr>, rc))"

text \<open>Setting up the three tables and reserving the range in each.\<close>

definition init_tables :: "'a boot_env \<Rightarrow> core_resv \<Rightarrow> 'a host \<Rightarrow> ('a host \<times> vmm_rc) result" where
  "init_tables B r H =
     (let hk = core_va r; ramhk = add64 hk (vapool_hk B); mhk = add64 ramhk (ram_hk B)
      in ok_then (pool_step (vmm_host_vapool_init (vapool_align_mb B) (code_vaddr B) (vapool_bytes B) hk) H) (\<lambda>H1.
         ok_then (case vmm_host_ram_init (max_ram_banks B) (dt_bank_count B) (dt_bank_start B) (dt_bank_size B) (old_bitmap B) (h_hostmem H1) of
                    (c, hm, rc) \<Rightarrow> Done (H1\<lparr>h_ram := c, h_hostmem := hm\<rparr>, rc)) (\<lambda>H2.
           case host_mhash_init mhk (mhash_hk B) of (m, rc) \<Rightarrow> Done (H2\<lparr>h_mhash := m\<rparr>, rc))))"

definition reserve_all :: "core_resv \<Rightarrow> 'a boot_env \<Rightarrow> 'a host \<Rightarrow> ('a host \<times> vmm_rc) result" where
  "reserve_all r B H =
     (case resv_span B r of (pa, va, sz) \<Rightarrow>
        ok_then (pool_step (vmm_host_vapool_reserve va sz) H) (\<lambda>H1.
        ok_then (ram_step (\<lambda>c. vmm_host_ram_reserve c (of_nat pa) (of_nat sz)) H1) (\<lambda>H2.
        bind_result (host_mhash_add pa va sz VMM_MEMORY_FLAGS_NORMAL (h_mhash H2)) (\<lambda>(m, rc). Done (H2\<lparr>h_mhash := m\<rparr>, rc)))))"

text \<open>The ranges the device tree reserves.\<close>

fun reserve_dt :: "'a boot_env \<Rightarrow> nat \<Rightarrow> u32 \<Rightarrow> 'a host \<Rightarrow> ('a host \<times> vmm_rc) result" where
  "reserve_dt B 0 i H = Done (H, VMM_OK)"
| "reserve_dt B (Suc n) i H =
     (case reserve_addr B i of
        Inl rc \<Rightarrow> Done (H, rc)
      | Inr st \<Rightarrow>
          (case reserve_size B i of
             Inl rc \<Rightarrow> Done (H, rc)
           | Inr sz \<Rightarrow>
               let off = st AND VMM_PAGE_MASK; sz1 = (sz + off) AND NOT VMM_PAGE_MASK
               in ok_then (ram_step (\<lambda>c. vmm_host_ram_reserve c (st - off) sz1) H) (reserve_dt B n (i + 1))))"

text \<open>One page of virtual addresses per host CPU.\<close>

fun alloc_rw_va :: "nat \<Rightarrow> nat \<Rightarrow> 'a host \<Rightarrow> ('a host \<times> vmm_rc) result" where
  "alloc_rw_va 0 cpu H = Done (H, VMM_OK)"
| "alloc_rw_va (Suc n) cpu H =
     bind_result (vmm_host_vapool_alloc (2 ^ 12) (h_pool H)) (\<lambda>(V, r).
       case r of
         Inl rc \<Rightarrow> Done (H\<lparr>h_pool := V\<rparr>, rc)
       | Inr va \<Rightarrow> alloc_rw_va n (cpu + 1) (H\<lparr>h_pool := V, h_rw_va := (h_rw_va H)(cpu := va)\<rparr>))"

definition vmm_host_aspace_init :: "'a boot_env \<Rightarrow> bool \<Rightarrow> 'a host \<Rightarrow> ('a host \<times> vmm_rc) result" where
  "vmm_host_aspace_init B is_bootcpu H =
     (if \<not> is_bootcpu then (case secondary_init B (h_mmu H) of (s, rc) \<Rightarrow> Done (H\<lparr>h_mmu := s\<rparr>, rc))
      else case boot_bank B of
        Inl rc \<Rightarrow> Done (H, rc)
      | Inr (ram_start, ram_size) \<Rightarrow>
          let r0 = \<lparr>core_pa = ram_start, core_va = add64 (code_vaddr B) (code_size B), core_sz = hk_total B, arch_pa = 0, arch_va = 0, arch_sz = 0\<rparr>
          in case primary_init B r0 (h_mmu H) of
               (s, Inl rc) \<Rightarrow> Done (H\<lparr>h_mmu := s\<rparr>, rc)
             | (s, Inr r) \<Rightarrow>
                 let H1 = H\<lparr>h_mmu := s\<rparr>
                 in if core_sz r < hk_total B \<or> vapool_bytes B \<le> core_sz r \<or> ram_size \<le> core_sz r then Done (H1, VMM_EFAIL)
                    else ok_then (init_tables B r H1) (\<lambda>H2.
                         ok_then (reserve_all r B H2) (\<lambda>H3.
                         ok_then (case reserve_count B of Inl rc \<Rightarrow> Done (H3, rc) | Inr n \<Rightarrow> reserve_dt B (unat n) 0 H3)
                           (alloc_rw_va (nr_cpus B) 0))))"

end
