(* ===== verification/HostAspaceProps.thy ===== *)
theory HostAspaceProps
  imports HostAspace
begin

text \<open>
  Properties of the host address space: the table of mappings implements a partial function from physical addresses to mappings, a
  mapping and its removal restore the host, and access to physical memory through the temporary page reads and writes just the range.
\<close>

section \<open>The table of mappings\<close>

definition entry_ok :: "mhash_entry \<Rightarrow> bool" where
  "entry_ok e \<longleftrightarrow> 0 < me_sz e \<and> me_pa e + me_sz e < 2 ^ 64 \<and> me_va e + me_sz e < 2 ^ 64 \<and> 0 < me_ref e \<and> me_ref e < 2 ^ 32"

definition before :: "mhash_entry list \<Rightarrow> nat \<Rightarrow> nat \<Rightarrow> bool" where
  "before es i j \<longleftrightarrow> me_pa (es ! i) + me_sz (es ! i) \<le> me_pa (es ! j)"

definition mhash_ok :: "host_mhash \<Rightarrow> bool" where
  "mhash_ok m \<longleftrightarrow> length (mh_entry m) = mh_count m \<and> distinct (mh_root m) \<and> set (mh_root m) = {i. i < mh_count m \<and> me_ref (mh_entry m ! i) \<noteq> 0}
     \<and> (\<forall>i \<in> set (mh_root m). entry_ok (mh_entry m ! i)) \<and> sorted_wrt (before (mh_entry m)) (mh_root m)"

text \<open>The physical addresses of an entry, and what is found for an address.\<close>

definition me_range :: "mhash_entry \<Rightarrow> nat set" where "me_range e = {me_pa e ..< me_pa e + me_sz e}"

definition mlookup :: "host_mhash \<Rightarrow> nat \<Rightarrow> mhash_entry option" where
  "mlookup m pa = map_option (\<lambda>i. mh_entry m ! i) (host_mhash_find pa m)"

lemma mhash_okD:
  assumes "mhash_ok m"
  shows "length (mh_entry m) = mh_count m" "distinct (mh_root m)" "i \<in> set (mh_root m) \<longleftrightarrow> i < mh_count m \<and> me_ref (mh_entry m ! i) \<noteq> 0"
    "i \<in> set (mh_root m) \<Longrightarrow> entry_ok (mh_entry m ! i)" "sorted_wrt (before (mh_entry m)) (mh_root m)"
  using assms by (auto simp: mhash_ok_def)

lemma mhash_okI:
  assumes "length (mh_entry m) = mh_count m" "distinct (mh_root m)" "set (mh_root m) = {i. i < mh_count m \<and> me_ref (mh_entry m ! i) \<noteq> 0}"
    "\<forall>i \<in> set (mh_root m). entry_ok (mh_entry m ! i)" "sorted_wrt (before (mh_entry m)) (mh_root m)"
  shows "mhash_ok m"
  using assms unfolding mhash_ok_def by blast

lemma me_end_eq: "entry_ok e \<Longrightarrow> me_end e = me_pa e + me_sz e"
  by (simp add: me_end_def entry_ok_def add64_eq)

lemma ranges_apart:
  assumes "sorted_wrt (before es) is" "i \<in> set is" "j \<in> set is" "x \<in> me_range (es ! i)" "x \<in> me_range (es ! j)"
  shows "i = j"
  using assms by (induction "is") (auto simp: before_def me_range_def)

lemma find_Some:
  assumes m: "mhash_ok m"
  shows "host_mhash_find pa m = Some i \<longleftrightarrow> i \<in> set (mh_root m) \<and> pa \<in> me_range (mh_entry m ! i)"
proof
  let ?P = "\<lambda>i. me_pa (mh_entry m ! i) \<le> pa \<and> pa < me_end (mh_entry m ! i)"
  have P: "?P j \<longleftrightarrow> pa \<in> me_range (mh_entry m ! j)" if "j \<in> set (mh_root m)" for j
    using mhash_okD(4) [OF m that] by (simp add: me_end_eq me_range_def)
  {
    assume "host_mhash_find pa m = Some i"
    then have "i \<in> set (mh_root m)" "?P i" by (auto simp: host_mhash_find_def find_Some_iff)
    then show "i \<in> set (mh_root m) \<and> pa \<in> me_range (mh_entry m ! i)" using P by blast
  }
  assume i: "i \<in> set (mh_root m) \<and> pa \<in> me_range (mh_entry m ! i)"
  then have "host_mhash_find pa m \<noteq> None" using P unfolding host_mhash_find_def find_None_iff by blast
  then obtain j where j: "host_mhash_find pa m = Some j" by blast
  then have "j \<in> set (mh_root m)" "?P j" by (auto simp: host_mhash_find_def find_Some_iff)
  then have "j = i" using ranges_apart [OF mhash_okD(5) [OF m]] P i by blast
  then show "host_mhash_find pa m = Some i" using j by simp
qed

lemma mlookup_Some:
  assumes "mhash_ok m"
  shows "mlookup m pa = Some e \<longleftrightarrow> (\<exists>i \<in> set (mh_root m). mh_entry m ! i = e \<and> pa \<in> me_range e)"
  using find_Some [OF assms] by (auto simp: mlookup_def)

lemma mlookup_None:
  assumes "mhash_ok m"
  shows "mlookup m pa = None \<longleftrightarrow> (\<forall>i \<in> set (mh_root m). pa \<notin> me_range (mh_entry m ! i))"
  using mlookup_Some [OF assms, of pa] by (metis not_None_eq)

text \<open>Two tables with the same entries in the tree look up the same.\<close>

lemma mlookup_eqI:
  assumes "mhash_ok m" "mhash_ok m'" "\<And>e. e \<in> (\<lambda>i. mh_entry m ! i) ` set (mh_root m) \<longleftrightarrow> e \<in> (\<lambda>i. mh_entry m' ! i) ` set (mh_root m')"
  shows "mlookup m = mlookup m'"
proof
  fix x
  have "mlookup m x = Some e \<longleftrightarrow> mlookup m' x = Some e" for e
    unfolding mlookup_Some [OF assms(1)] mlookup_Some [OF assms(2)] using assms(3) [of e] by auto
  then show "mlookup m x = mlookup m' x" by (metis not_None_eq)
qed

subsection \<open>Linking a new entry\<close>

lemma link_entry_ok:
  assumes "sorted_wrt (before es) is" "\<forall>j \<in> set is. entry_ok (es ! j)" "entry_ok (es ! i)" "\<forall>j \<in> set is. me_range (es ! j) \<inter> me_range (es ! i) = {}"
  shows "\<exists>r. link_entry es i is = Done r \<and> mset r = mset (i # is) \<and> sorted_wrt (before es) r"
  using assms
proof (induction "is")
  case (Cons p ps)
  have e: "me_end (es ! i) = me_pa (es ! i) + me_sz (es ! i)" "me_end (es ! p) = me_pa (es ! p) + me_sz (es ! p)" using Cons.prems by (simp_all add: me_end_eq)
  have pos: "0 < me_sz (es ! i)" "0 < me_sz (es ! p)" using Cons.prems by (simp_all add: entry_ok_def)
  have dis: "me_range (es ! p) \<inter> me_range (es ! i) = {}" using Cons.prems(4) by simp
  show ?case
  proof (cases "me_end (es ! i) \<le> me_pa (es ! p)")
    case True
    then have "before es i p" using e by (simp add: before_def)
    moreover have "before es i j" if "j \<in> set ps" for j using Cons.prems(1) True e that by (fastforce simp: before_def)
    ultimately show ?thesis using True Cons.prems(1) by simp
  next
    case False
    have le: "me_end (es ! p) \<le> me_pa (es ! i)"
    proof (rule ccontr)
      assume "\<not> ?thesis"
      then have "max (me_pa (es ! p)) (me_pa (es ! i)) \<in> me_range (es ! p) \<inter> me_range (es ! i)" using False e pos by (auto simp: me_range_def)
      then show False using dis by blast
    qed
    obtain r where r: "link_entry es i ps = Done r" "mset r = mset (i # ps)" "sorted_wrt (before es) r" using Cons.IH Cons.prems by auto
    have "set r = insert i (set ps)" using arg_cong [OF r(2), of set_mset] by simp
    then have "\<forall>j \<in> set r. before es p j" using Cons.prems(1) le e by (simp add: before_def)
    then show ?thesis using False le r by simp
  qed
qed simp

text \<open>Entering a range no part of which is mapped.\<close>

definition new_entry :: "nat \<Rightarrow> nat \<Rightarrow> nat \<Rightarrow> nat \<Rightarrow> mhash_entry" where
  "new_entry pa va sz fl = \<lparr>me_pa = pa, me_va = va, me_sz = sz, me_flags = fl, me_ref = 1\<rparr>"

definition table_full :: "host_mhash \<Rightarrow> bool" where "table_full m \<longleftrightarrow> length (mh_root m) = mh_count m"

lemma mhash_alloc:
  assumes m: "mhash_ok m"
  shows "table_full m \<Longrightarrow> host_mhash_alloc m = (m, None)"
    "\<not> table_full m \<Longrightarrow> \<exists>i < mh_count m. i \<notin> set (mh_root m) \<and> host_mhash_alloc m = (put_entry i ((mh_entry m ! i)\<lparr>me_ref := 1\<rparr>) m, Some i)"
proof -
  let ?f = "List.find (\<lambda>i. me_ref (mh_entry m ! i) = 0) [0..<mh_count m]"
  have card: "card (set (mh_root m)) = length (mh_root m)" by (rule distinct_card [OF mhash_okD(2) [OF m]])
  have sub: "set (mh_root m) \<subseteq> {0..<mh_count m}" using m by (auto simp: mhash_ok_def)
  have full: "table_full m \<longleftrightarrow> set (mh_root m) = {0..<mh_count m}"
  proof
    assume "table_full m" then show "set (mh_root m) = {0..<mh_count m}" using sub card by (intro card_subset_eq) (simp_all add: table_full_def)
  next
    assume "set (mh_root m) = {0..<mh_count m}" then show "table_full m" using card by (simp add: table_full_def)
  qed
  {
    assume "table_full m"
    then have "\<forall>i < mh_count m. i \<in> set (mh_root m)" using full by simp
    then have "?f = None" using m unfolding find_None_iff mhash_ok_def by auto
    then show "host_mhash_alloc m = (m, None)" by (simp add: host_mhash_alloc_def)
  }
  assume "\<not> table_full m"
  then obtain j where "j < mh_count m" "j \<notin> set (mh_root m)" using full sub by (metis atLeastLessThan_iff subset_antisym subsetI zero_le)
  then have "me_ref (mh_entry m ! j) = 0" "j \<in> set [0..<mh_count m]" using mhash_okD(3) [OF m, of j] by simp_all
  then have "?f \<noteq> None" unfolding find_None_iff by blast
  then obtain i where i: "?f = Some i" by blast
  then have r: "i < mh_count m" "me_ref (mh_entry m ! i) = 0" by (auto simp: find_Some_iff)
  then have "i \<notin> set (mh_root m)" using mhash_okD(3) [OF m, of i] by simp
  with r(1) show "\<exists>i < mh_count m. i \<notin> set (mh_root m) \<and> host_mhash_alloc m = (put_entry i ((mh_entry m ! i)\<lparr>me_ref := 1\<rparr>) m, Some i)"
    using i by (intro exI [of _ i]) (simp add: host_mhash_alloc_def)
qed

lemma put_entry_fields [simp]:
  "mh_count (put_entry i e m) = mh_count m" "mh_root (put_entry i e m) = mh_root m" "mh_entry (put_entry i e m) = (mh_entry m)[i := e]"
  by (simp_all add: put_entry_def)

lemma before_update:
  assumes "i \<notin> set js"
  shows "sorted_wrt (before (es[i := e])) js = sorted_wrt (before es) js"
proof -
  have "before (es[i := e]) x y = before es x y" if "x \<in> set js" "y \<in> set js" for x y
    using assms that by (metis before_def nth_list_update_neq)
  then show ?thesis by (metis sorted_wrt_mono_rel)
qed

lemma mhash_add_new:
  assumes m: "mhash_ok m" and sz: "0 < sz" "pa + sz < 2 ^ 64" "va + sz < 2 ^ 64" and free: "\<forall>x \<in> {pa ..< pa + sz}. mlookup m x = None"
  shows "table_full m \<Longrightarrow> host_mhash_add pa va sz fl m = Done (m, VMM_ENOMEM)"
    "\<not> table_full m \<Longrightarrow> \<exists>m'. host_mhash_add pa va sz fl m = Done (m', VMM_OK) \<and> mhash_ok m' \<and> mh_count m' = mh_count m \<and> length (mh_root m') = length (mh_root m) + 1
       \<and> mlookup m' = (\<lambda>x. if x \<in> {pa ..< pa + sz} then Some (new_entry pa va sz fl) else mlookup m x)"
proof -
  have none: "host_mhash_find pa m = None" using free sz(1) by (simp add: mlookup_def)
  show "host_mhash_add pa va sz fl m = Done (m, VMM_ENOMEM)" if "table_full m" using none mhash_alloc(1) [OF m that] by (simp add: host_mhash_add_def)
  assume "\<not> table_full m"
  then obtain i where i: "i < mh_count m" "i \<notin> set (mh_root m)" "host_mhash_alloc m = (put_entry i ((mh_entry m ! i)\<lparr>me_ref := 1\<rparr>) m, Some i)"
    using mhash_alloc(2) [OF m] by blast
  let ?e = "new_entry pa va sz fl" let ?es = "(mh_entry m)[i := ?e]" let ?r = "mh_root m"
  have len: "i < length (mh_entry m)" using i(1) mhash_okD(1) [OF m] by simp
  then have ei: "?es ! i = ?e" by simp
  have ej: "?es ! j = mh_entry m ! j" if "j \<in> set ?r" for j using that i(2) by (metis nth_list_update_neq)
  have ok: "entry_ok ?e" using sz by (simp add: entry_ok_def new_entry_def)
  have dis: "me_range (?es ! j) \<inter> me_range (?es ! i) = {}" if "j \<in> set ?r" for j
  proof -
    have "x \<notin> me_range (mh_entry m ! j)" if "x \<in> {pa ..< pa + sz}" for x
      using free that mlookup_None [OF m, of x] \<open>j \<in> set ?r\<close> by simp
    moreover have "me_range ?e = {pa ..< pa + sz}" by (simp add: me_range_def new_entry_def)
    ultimately show ?thesis unfolding ej [OF that] ei by blast
  qed
  have srt: "sorted_wrt (before ?es) ?r" using mhash_okD(5) [OF m] i(2) by (simp add: before_update)
  have ok0: "\<forall>j \<in> set ?r. entry_ok (?es ! j)" using mhash_okD(4) [OF m] ej by simp
  obtain r where r: "link_entry ?es i ?r = Done r" "mset r = mset (i # ?r)" "sorted_wrt (before ?es) r"
    using link_entry_ok [OF srt ok0, of i] ok dis unfolding ei by blast
  let ?m = "m\<lparr>mh_entry := ?es, mh_root := r\<rparr>"
  have "(mh_entry m ! i)\<lparr>me_ref := 1, me_pa := pa, me_va := va, me_sz := sz, me_flags := fl\<rparr> = ?e" by (simp add: new_entry_def)
  then have run: "host_mhash_add pa va sz fl m = Done (?m, VMM_OK)"
    using len r(1) by (simp add: host_mhash_add_def none i(3) Let_def del: bind_result_eq_Done) (simp add: put_entry_def)
  have set: "set r = insert i (set ?r)" using arg_cong [OF r(2), of set_mset] by simp
  have "distinct r" using r(2) mhash_okD(2) [OF m] i(2) by (metis distinct.simps(2) mset_eq_imp_distinct_iff)
  moreover have "set r = {j. j < mh_count m \<and> me_ref (?es ! j) \<noteq> 0}"
    using m len ei i(1) unfolding set mhash_ok_def by (auto simp: new_entry_def nth_list_update)
  moreover have "\<forall>j \<in> set r. entry_ok (?es ! j)" using ok ok0 ei unfolding set by simp
  ultimately have ok': "mhash_ok ?m" using r(3) mhash_okD(1) [OF m] by (intro mhash_okI) simp_all
  have "mlookup ?m x = (if x \<in> {pa ..< pa + sz} then Some ?e else mlookup m x)" for x
  proof (cases "x \<in> {pa ..< pa + sz}")
    case True
    then have "x \<in> me_range ?e" by (simp add: me_range_def new_entry_def)
    then have "mlookup ?m x = Some ?e" unfolding mlookup_Some [OF ok'] using set ei by auto
    then show ?thesis using True by simp
  next
    case False
    then have "x \<notin> me_range ?e" by (simp add: me_range_def new_entry_def)
    then have "mlookup ?m x = Some e \<longleftrightarrow> mlookup m x = Some e" for e unfolding mlookup_Some [OF ok'] mlookup_Some [OF m] using set ei ej by auto
    then show ?thesis using False by (metis not_None_eq)
  qed
  moreover have "length r = length ?r + 1" using arg_cong [OF r(2), of size] by simp
  ultimately show "\<exists>m'. host_mhash_add pa va sz fl m = Done (m', VMM_OK) \<and> mhash_ok m' \<and> mh_count m' = mh_count m \<and> length (mh_root m') = length (mh_root m) + 1
       \<and> mlookup m' = (\<lambda>x. if x \<in> {pa ..< pa + sz} then Some (new_entry pa va sz fl) else mlookup m x)"
    using run ok' by (intro exI [of _ ?m]) (simp add: fun_eq_iff)
qed

subsection \<open>Counting references\<close>

lemma mhash_ref:
  assumes m: "mhash_ok m" and i: "host_mhash_find pa m = Some i" and r: "0 < r" "r < 2 ^ 32"
  defines "e \<equiv> mh_entry m ! i"
  shows "mhash_ok (put_entry i (e\<lparr>me_ref := r\<rparr>) m)"
    "mlookup (put_entry i (e\<lparr>me_ref := r\<rparr>) m) = (\<lambda>x. if x \<in> me_range e then Some (e\<lparr>me_ref := r\<rparr>) else mlookup m x)"
proof -
  let ?m = "put_entry i (e\<lparr>me_ref := r\<rparr>) m" let ?es = "(mh_entry m)[i := e\<lparr>me_ref := r\<rparr>]" let ?r = "mh_root m"
  have in': "i \<in> set ?r" using find_Some [OF m] i by blast
  then have len: "i < length (mh_entry m)" "i < mh_count m" using m by (auto simp: mhash_ok_def)
  have ei: "?es ! i = e\<lparr>me_ref := r\<rparr>" using len by simp
  have same: "me_pa (?es ! j) = me_pa (mh_entry m ! j)" "me_sz (?es ! j) = me_sz (mh_entry m ! j)" for j
    by (cases "j = i"; use len in \<open>simp add: e_def\<close>)+
  have "before ?es = before (mh_entry m)" by (simp add: before_def same fun_eq_iff)
  then have "sorted_wrt (before ?es) ?r" using mhash_okD(5) [OF m] by simp
  moreover have "\<forall>j \<in> set ?r. entry_ok (?es ! j)"
  proof
    fix j assume j: "j \<in> set ?r"
    show "entry_ok (?es ! j)" using mhash_okD(4) [OF m j] r len by (cases "j = i") (simp_all add: entry_ok_def e_def)
  qed
  moreover have "set ?r = {j. j < mh_count m \<and> me_ref (?es ! j) \<noteq> 0}" using m len r in' by (auto simp: mhash_ok_def nth_list_update)
  ultimately show ok: "mhash_ok ?m" using mhash_okD(1,2) [OF m] by (intro mhash_okI) simp_all
  have rng: "me_range (e\<lparr>me_ref := r\<rparr>) = me_range e" by (simp add: me_range_def)
  show "mlookup ?m = (\<lambda>x. if x \<in> me_range e then Some (e\<lparr>me_ref := r\<rparr>) else mlookup m x)"
  proof
    fix x
    show "mlookup ?m x = (if x \<in> me_range e then Some (e\<lparr>me_ref := r\<rparr>) else mlookup m x)"
    proof (cases "x \<in> me_range e")
      case True
      then have "mlookup ?m x = Some (e\<lparr>me_ref := r\<rparr>)" unfolding mlookup_Some [OF ok] using in' ei rng by auto
      then show ?thesis using True by simp
    next
      case False
      have "?es ! j = mh_entry m ! j" if "j \<noteq> i" for j using that by simp
      then have "mlookup ?m x = Some f \<longleftrightarrow> mlookup m x = Some f" for f
        unfolding mlookup_Some [OF ok] mlookup_Some [OF m] using ei rng False e_def by (metis put_entry_fields(2,3))
      then show ?thesis using False by (metis not_None_eq)
    qed
  qed
qed

subsection \<open>Removing an entry\<close>

lemma mhash_erase:
  assumes m: "mhash_ok m" and i: "host_mhash_find pa m = Some i"
  defines "m' \<equiv> put_entry i zero_entry (m\<lparr>mh_root := remove1 i (mh_root m)\<rparr>)"
  shows "mhash_ok m'" "mlookup m' = (\<lambda>x. if x \<in> me_range (mh_entry m ! i) then None else mlookup m x)"
    "length (mh_root m') + 1 = length (mh_root m)" "mh_count m' = mh_count m"
proof -
  let ?es = "(mh_entry m)[i := zero_entry]" let ?r = "remove1 i (mh_root m)"
  have in': "i \<in> set (mh_root m)" using find_Some [OF m] i by blast
  then have len: "i < length (mh_entry m)" "i < mh_count m" using m by (auto simp: mhash_ok_def)
  have set: "set ?r = set (mh_root m) - {i}" using mhash_okD(2) [OF m] by simp
  have ej: "?es ! j = mh_entry m ! j" if "j \<in> set ?r" for j using that set by auto
  have "?r = filter (\<lambda>j. j \<noteq> i) (mh_root m)" using mhash_okD(2) [OF m] by (simp add: distinct_remove1_removeAll removeAll_filter_not_eq) metis
  then have "sorted_wrt (before (mh_entry m)) ?r" using sorted_wrt_filter [OF mhash_okD(5) [OF m]] by simp
  then have "sorted_wrt (before ?es) ?r" using before_update [of i ?r "mh_entry m"] set by simp
  moreover have "set ?r = {j. j < mh_count m \<and> me_ref (?es ! j) \<noteq> 0}" using m len unfolding set mhash_ok_def by (auto simp: nth_list_update zero_entry_def)
  moreover have "\<forall>j \<in> set ?r. entry_ok (?es ! j)" using ej set mhash_okD(4) [OF m] by simp
  ultimately show ok: "mhash_ok m'" unfolding m'_def using mhash_okD(1,2) [OF m] by (intro mhash_okI) simp_all
  have "mlookup m' x = (if x \<in> me_range (mh_entry m ! i) then None else mlookup m x)" for x
  proof (cases "x \<in> me_range (mh_entry m ! i)")
    case True
    have "x \<notin> me_range (mh_entry m ! j)" if "j \<in> set ?r" for j
      using ranges_apart [OF mhash_okD(5) [OF m] in', of j x] True that set by blast
    then have "mlookup m' x = None" unfolding mlookup_None [OF ok] using ej by (simp add: m'_def)
    then show ?thesis using True by simp
  next
    case False
    then have "mlookup m' x = Some f \<longleftrightarrow> mlookup m x = Some f" for f
      unfolding mlookup_Some [OF ok] mlookup_Some [OF m] using ej set by (auto simp: m'_def)
    then show ?thesis using False by (metis not_None_eq)
  qed
  then show "mlookup m' = (\<lambda>x. if x \<in> me_range (mh_entry m ! i) then None else mlookup m x)" by blast
  show "length (mh_root m') + 1 = length (mh_root m)" using in' by (simp add: m'_def length_remove1) (metis length_pos_if_in_set Suc_pred)
  show "mh_count m' = mh_count m" by (simp add: m'_def)
qed

subsection \<open>What the operations do to the partial function\<close>

text \<open>A range is taken out of a mapping, what is left of it and right of it stays.\<close>

definition carve :: "mhash_entry \<Rightarrow> nat \<Rightarrow> nat \<Rightarrow> (nat \<Rightarrow> mhash_entry option) \<Rightarrow> nat \<Rightarrow> mhash_entry option" where
  "carve e pa sz L = (\<lambda>x.
     if x \<in> {pa ..< pa + sz} then None
     else if x \<in> {me_pa e ..< pa} then Some (new_entry (me_pa e) (me_va e) (pa - me_pa e) (me_flags e))
     else if x \<in> {pa + sz ..< me_pa e + me_sz e}
          then Some (new_entry (pa + sz) (me_va e + (pa - me_pa e) + sz) (me_pa e + me_sz e - (pa + sz)) (me_flags e))
     else L x)"

lemma residue_ok:
  assumes m: "mhash_ok m" and sz: "pa + sz < 2 ^ 64" "va + sz < 2 ^ 64" and free: "\<forall>x \<in> {pa ..< pa + sz}. mlookup m x = None" and room: "sz = 0 \<or> \<not> table_full m"
  shows "\<exists>m'. mhash_residue pa va sz fl (m, VMM_OK) = Done (m', VMM_OK) \<and> mhash_ok m' \<and> mh_count m' = mh_count m
    \<and> length (mh_root m') = length (mh_root m) + (if sz = 0 then 0 else 1)
    \<and> mlookup m' = (\<lambda>x. if x \<in> {pa ..< pa + sz} then Some (new_entry pa va sz fl) else mlookup m x)"
proof (cases "sz = 0")
  case True
  then show ?thesis using m by (simp add: mhash_residue_def)
next
  case False
  then obtain m' where "host_mhash_add pa va sz fl m = Done (m', VMM_OK)" "mhash_ok m'" "mh_count m' = mh_count m" "length (mh_root m') = length (mh_root m) + 1"
    "mlookup m' = (\<lambda>x. if x \<in> {pa ..< pa + sz} then Some (new_entry pa va sz fl) else mlookup m x)"
    using mhash_add_new(2) [OF m _ sz free] room by blast
  then show ?thesis using False by (simp add: mhash_residue_def)
qed

text \<open>A part of a mapped range, with its virtual address.\<close>

lemma part_of_entry:
  assumes m: "mhash_ok m" and e: "mlookup m pa = Some e" and r: "0 < sz" "pa + sz \<le> me_pa e + me_sz e" and va: "va = me_va e + (pa - me_pa e)"
  shows "\<exists>i. host_mhash_find pa m = Some i \<and> e = mh_entry m ! i" "entry_ok e" "me_pa e \<le> pa" "\<not> not_within e pa va sz"
proof -
  show "\<exists>i. host_mhash_find pa m = Some i \<and> e = mh_entry m ! i" using e by (auto simp: mlookup_def)
  then obtain i where i: "host_mhash_find pa m = Some i" "e = mh_entry m ! i" by blast
  have "i \<in> set (mh_root m)" "pa \<in> me_range e" using find_Some [OF m] i by auto
  then show ok: "entry_ok e" and lo: "me_pa e \<le> pa" using mhash_okD(4) [OF m] i(2) by (auto simp: me_range_def)
  have b: "me_pa e + me_sz e < 2 ^ 64" "me_va e + me_sz e < 2 ^ 64" using ok by (simp_all add: entry_ok_def)
  have "add64 (me_va e) (me_sz e) = me_va e + me_sz e" "add64 va sz = va + sz" "me_end e = me_pa e + me_sz e" "add64 pa sz = pa + sz"
    using b r lo va by (auto simp: add64_eq me_end_def)
  then show "\<not> not_within e pa va sz" using r lo va b by (auto simp: not_within_def)
qed

lemma mhash_del_last:
  assumes m: "mhash_ok m" and e: "mlookup m pa = Some e" "me_ref e = 1" and r: "0 < sz" "pa + sz \<le> me_pa e + me_sz e" and va: "va = me_va e + (pa - me_pa e)"
    and room: "pa = me_pa e \<or> pa + sz = me_pa e + me_sz e \<or> \<not> table_full m"
  shows "\<exists>m'. host_mhash_del pa va sz m = Done (m', VMM_OK) \<and> mhash_ok m' \<and> mlookup m' = carve e pa sz (mlookup m)"
proof -
  note P = part_of_entry [OF m e(1) r va]
  obtain i where i: "host_mhash_find pa m = Some i" "e = mh_entry m ! i" using P(1) by blast
  note ok = P(2) and lo = P(3) and nw = P(4)
  let ?l = "pa - me_pa e" let ?n = "me_pa e + me_sz e - (pa + sz)"
  have b: "me_pa e + me_sz e < 2 ^ 64" "me_va e + me_sz e < 2 ^ 64" using ok by (simp_all add: entry_ok_def)
  have ar: "add64 (me_va e) (me_sz e) = me_va e + me_sz e" "add64 va sz = va + sz" "me_end e = me_pa e + me_sz e" "add64 pa sz = pa + sz" "sub64 va (me_va e) = ?l"
    "sub64 (me_va e + me_sz e) (va + sz) = ?n"
    using b r lo va by (auto simp: add64_eq sub64_eq me_end_def)
  let ?m1 = "put_entry i zero_entry (m\<lparr>mh_root := remove1 i (mh_root m)\<rparr>)"
  note E = mhash_erase [OF m i(1), folded i(2)]
  have lm: "length (mh_root m) \<le> mh_count m"
    using distinct_card [OF mhash_okD(2) [OF m]] card_mono [of "{..<mh_count m}" "set (mh_root m)"] m by (auto simp: mhash_ok_def)
  have left: "\<forall>x \<in> {me_pa e ..< me_pa e + ?l}. mlookup ?m1 x = None" using E(2) r lo by (auto simp: me_range_def)
  have "me_pa e + ?l < 2 ^ 64" "me_va e + ?l < 2 ^ 64" "?l = 0 \<or> \<not> table_full ?m1" using b r lo E(3,4) lm by (auto simp: table_full_def)
  from residue_ok [OF E(1) this(1,2) left this(3), of "me_flags e"] obtain m2 where m2: "mhash_residue (me_pa e) (me_va e) ?l (me_flags e) (?m1, VMM_OK) = Done (m2, VMM_OK)"
    "mhash_ok m2" "mh_count m2 = mh_count m" "length (mh_root m2) = length (mh_root ?m1) + (if ?l = 0 then 0 else 1)"
    "mlookup m2 = (\<lambda>x. if x \<in> {me_pa e ..< me_pa e + ?l} then Some (new_entry (me_pa e) (me_va e) ?l (me_flags e)) else mlookup ?m1 x)" using E(4) by auto
  have right: "\<forall>x \<in> {pa + sz ..< pa + sz + ?n}. mlookup m2 x = None" using m2(5) E(2) r lo by (auto simp: me_range_def)
  have "pa + sz + ?n < 2 ^ 64" "va + sz + ?n < 2 ^ 64" using b r lo va by auto
  moreover have "?n = 0 \<or> \<not> table_full m2" using room m2(3,4) E(3) lm lo r(2) by (auto simp: table_full_def)
  ultimately obtain m3 where m3: "mhash_residue (pa + sz) (va + sz) ?n (me_flags e) (m2, VMM_OK) = Done (m3, VMM_OK)" "mhash_ok m3"
    "mlookup m3 = (\<lambda>x. if x \<in> {pa + sz ..< pa + sz + ?n} then Some (new_entry (pa + sz) (va + sz) ?n (me_flags e)) else mlookup m2 x)"
    using residue_ok [OF m2(2) _ _ right, of "va + sz" "me_flags e"] by blast
  have "(me_ref e + 2 ^ 32 - 1) mod 2 ^ 32 = 0" using e(2) by simp
  then have run: "host_mhash_del pa va sz m = Done (m3, VMM_OK)"
    using nw m2(1) m3(1) by (simp add: host_mhash_del_def i(1) i(2) [symmetric] Let_def ar)
  have "mlookup m3 x = carve e pa sz (mlookup m) x" for x
    unfolding m3(3) m2(5) E(2) carve_def va using r lo by (auto simp: me_range_def)
  then show ?thesis using run m3(2) by blast
qed

lemma mhash_del_busy:
  assumes m: "mhash_ok m" and e: "mlookup m pa = Some e" "1 < me_ref e" and r: "0 < sz" "pa + sz \<le> me_pa e + me_sz e" and va: "va = me_va e + (pa - me_pa e)"
  shows "\<exists>m'. host_mhash_del pa va sz m = Done (m', VMM_EBUSY) \<and> mhash_ok m'
    \<and> mlookup m' = (\<lambda>x. if x \<in> me_range e then Some (e\<lparr>me_ref := me_ref e - 1\<rparr>) else mlookup m x)"
proof -
  note P = part_of_entry [OF m e(1) r va]
  obtain i where i: "host_mhash_find pa m = Some i" "e = mh_entry m ! i" using P(1) by blast
  note ok = P(2) and lo = P(3) and nw = P(4)
  have b: "me_ref e < 2 ^ 32" using ok by (simp add: entry_ok_def)
  have "(me_ref e + 2 ^ 32 - 1) mod 2 ^ 32 = me_ref e - 1"
  proof -
    have "me_ref e + 2 ^ 32 - 1 = (me_ref e - 1) + 2 ^ 32" using e(2) by simp
    then show ?thesis using b by (metis less_imp_diff_less mod_add_self2 mod_less)
  qed
  moreover have "me_ref e - 1 \<noteq> 0" "me_ref e - 1 < 2 ^ 32" using e(2) b by linarith+
  ultimately show ?thesis using mhash_ref [OF m i(1), of "me_ref e - 1", folded i(2)] nw by (simp add: host_mhash_del_def i(1) i(2) [symmetric] Let_def)
qed

lemma mhash_add_again:
  assumes m: "mhash_ok m" and e: "mlookup m pa = Some e" "me_flags e = fl" "me_ref e + 1 < 2 ^ 32" and r: "0 < sz" "pa + sz \<le> me_pa e + me_sz e" and va: "va = me_va e + (pa - me_pa e)"
  shows "\<exists>m'. host_mhash_add pa va sz fl m = Done (m', VMM_OK) \<and> mhash_ok m'
    \<and> mlookup m' = (\<lambda>x. if x \<in> me_range e then Some (e\<lparr>me_ref := me_ref e + 1\<rparr>) else mlookup m x)"
proof -
  note P = part_of_entry [OF m e(1) r va]
  obtain i where i: "host_mhash_find pa m = Some i" "e = mh_entry m ! i" using P(1) by blast
  note ok = P(2) and lo = P(3) and nw = P(4)
  have "(me_ref e + 1) mod 2 ^ 32 = me_ref e + 1" using e(3) by (rule mod_less)
  then show ?thesis using mhash_ref [OF m i(1), of "me_ref e + 1", folded i(2)] nw e(2,3) by (simp add: host_mhash_add_def i(1) i(2) [symmetric] Let_def)
qed

section \<open>Page tables\<close>

text \<open>
  What is used of the architecture: a page that was mapped is translated to the frame that was given, one that was unmapped is not translated,
  other pages are left alone; a mapped page can be unmapped.
\<close>

definition arch_ok :: "'a arch_aspace \<Rightarrow> bool" where
  "arch_ok A \<longleftrightarrow>
     (\<forall>va pa fl s s'. 4096 dvd va \<longrightarrow> 4096 dvd pa \<longrightarrow> a_map A va pa fl s = (s', VMM_OK) \<longrightarrow>
        a_va2pa A va s' = Inr pa \<and> (\<forall>v. 4096 dvd v \<longrightarrow> v \<noteq> va \<longrightarrow> a_va2pa A v s' = a_va2pa A v s)) \<and>
     (\<forall>va s s' rc. 4096 dvd va \<longrightarrow> a_unmap A va s = (s', rc) \<longrightarrow>
        (a_va2pa A va s \<in> range Inr \<longrightarrow> rc = VMM_OK) \<and>
        (rc = VMM_OK \<longrightarrow> a_va2pa A va s' \<in> range Inl \<and> (\<forall>v. 4096 dvd v \<longrightarrow> v \<noteq> va \<longrightarrow> a_va2pa A v s' = a_va2pa A v s)))"

lemma arch_map:
  assumes "arch_ok A" "a_map A va pa fl s = (s', VMM_OK)" "4096 dvd va" "4096 dvd pa"
  shows "a_va2pa A va s' = Inr pa" "4096 dvd v \<Longrightarrow> v \<noteq> va \<Longrightarrow> a_va2pa A v s' = a_va2pa A v s"
proof -
  note L = assms(1) [unfolded arch_ok_def, THEN conjunct1, THEN spec, THEN spec, THEN spec, THEN spec, THEN spec, THEN mp, OF assms(3), THEN mp, OF assms(4), THEN mp, OF assms(2)]
  show "a_va2pa A va s' = Inr pa" using L by simp
  show "a_va2pa A v s' = a_va2pa A v s" if "4096 dvd v" "v \<noteq> va" using L that by simp
qed

lemma arch_unmap:
  assumes "arch_ok A" "a_va2pa A va s = Inr pa" "4096 dvd va"
  shows "\<exists>s'. a_unmap A va s = (s', VMM_OK) \<and> a_va2pa A va s' \<in> range Inl \<and> (\<forall>v. 4096 dvd v \<longrightarrow> v \<noteq> va \<longrightarrow> a_va2pa A v s' = a_va2pa A v s)"
proof -
  obtain s' rc where r: "a_unmap A va s = (s', rc)" by (cases "a_unmap A va s") blast
  note L = assms(1) [unfolded arch_ok_def, THEN conjunct2, THEN spec, THEN spec, THEN spec, THEN spec, THEN mp, OF assms(3), THEN mp, OF r]
  have ok: "rc = VMM_OK" using L assms(2) by simp
  then show ?thesis using conjunct2 [OF L] r by simp
qed

lemma map_pages_ok:
  assumes "arch_ok A" "map_pages A va pa fl n s = Done s'" "4096 dvd va" "4096 dvd pa" "va + n * 4096 < 2 ^ 64" "pa + n * 4096 < 2 ^ 64"
  shows "(\<forall>i < n. a_va2pa A (va + i * 4096) s' = Inr (pa + i * 4096)) \<and> (\<forall>v. 4096 dvd v \<longrightarrow> v \<notin> {va ..< va + n * 4096} \<longrightarrow> a_va2pa A v s' = a_va2pa A v s)"
  using assms(2-)
proof (induction n arbitrary: va pa s)
  case (Suc n)
  obtain s1 where m: "a_map A va pa fl s = (s1, VMM_OK)" "map_pages A (add64 va (2 ^ 12)) (add64 pa (2 ^ 12)) fl n s1 = Done s'"
    using Suc.prems(1) by (cases "a_map A va pa fl s") (auto split: if_splits)
  have ar: "add64 va (2 ^ 12) = va + 4096" "add64 pa (2 ^ 12) = pa + 4096" using Suc.prems by (simp_all add: add64_eq)
  note M = arch_map [OF assms(1) m(1) Suc.prems(2,3)]
  have ih: "\<forall>i < n. a_va2pa A (va + 4096 + i * 4096) s' = Inr (pa + 4096 + i * 4096)"
    "\<And>v. 4096 dvd v \<Longrightarrow> v \<notin> {va + 4096 ..< va + 4096 + n * 4096} \<Longrightarrow> a_va2pa A v s' = a_va2pa A v s1"
    using Suc.IH [OF m(2) [unfolded ar]] Suc.prems(2-) by auto
  have "a_va2pa A (va + i * 4096) s' = Inr (pa + i * 4096)" if "i < Suc n" for i
  proof (cases i)
    case 0 then show ?thesis using ih(2) [of va] M(1) Suc.prems(2) by simp
  next
    case (Suc k) then show ?thesis using ih(1) that by (auto simp: algebra_simps)
  qed
  moreover have "a_va2pa A v s' = a_va2pa A v s" if "4096 dvd v" "v \<notin> {va ..< va + Suc n * 4096}" for v
    using ih(2) [of v] M(2) [of v] that by auto
  ultimately show ?case by blast
qed simp

lemma unmap_pages_ok:
  assumes "arch_ok A" "4096 dvd va" "va + n * 4096 < 2 ^ 64" "\<forall>i < n. a_va2pa A (va + i * 4096) s \<in> range Inr"
  shows "\<exists>s'. unmap_pages A va n s = (s', VMM_OK) \<and> (\<forall>i < n. a_va2pa A (va + i * 4096) s' \<in> range Inl)
    \<and> (\<forall>v. 4096 dvd v \<longrightarrow> v \<notin> {va ..< va + n * 4096} \<longrightarrow> a_va2pa A v s' = a_va2pa A v s)"
  using assms(2-)
proof (induction n arbitrary: va s)
  case (Suc n)
  obtain p where "a_va2pa A va s = Inr p" using Suc.prems(3) by force
  then obtain s1 where m: "a_unmap A va s = (s1, VMM_OK)" "a_va2pa A va s1 \<in> range Inl" "\<And>v. 4096 dvd v \<Longrightarrow> v \<noteq> va \<Longrightarrow> a_va2pa A v s1 = a_va2pa A v s"
    using arch_unmap [OF assms(1) _ Suc.prems(1)] by blast
  have ar: "add64 va (2 ^ 12) = va + 4096" using Suc.prems by (simp add: add64_eq)
  have "\<forall>i < n. a_va2pa A (va + 4096 + i * 4096) s1 \<in> range Inr"
  proof (intro allI impI)
    fix i assume "i < n"
    then have "a_va2pa A (va + Suc i * 4096) s \<in> range Inr" using Suc.prems(3) by blast
    then show "a_va2pa A (va + 4096 + i * 4096) s1 \<in> range Inr" using m(3) [of "va + 4096 + i * 4096"] Suc.prems(1) by (simp add: algebra_simps)
  qed
  then obtain s' where s': "unmap_pages A (va + 4096) n s1 = (s', VMM_OK)" "\<forall>i < n. a_va2pa A (va + 4096 + i * 4096) s' \<in> range Inl"
    "\<And>v. 4096 dvd v \<Longrightarrow> v \<notin> {va + 4096 ..< va + 4096 + n * 4096} \<Longrightarrow> a_va2pa A v s' = a_va2pa A v s1"
    using Suc.IH [of "va + 4096" s1] Suc.prems(1,2) by auto
  have "a_va2pa A (va + i * 4096) s' \<in> range Inl" if "i < Suc n" for i
  proof (cases i)
    case 0 then show ?thesis using s'(3) [of va] m(2) Suc.prems(1) by simp
  next
    case (Suc k) then show ?thesis using s'(2) that by (auto simp: algebra_simps)
  qed
  moreover have "a_va2pa A v s' = a_va2pa A v s" if "4096 dvd v" "v \<notin> {va ..< va + Suc n * 4096}" for v
    using s'(3) [of v] m(3) [of v] that by auto
  ultimately show ?case using m(1) s'(1) ar by simp
qed simp

section \<open>Page arithmetic\<close>

lemma page_floor_dvd: "4096 dvd page_floor x"
  by (simp add: page_floor_def minus_mod_eq_mult_div)

lemma page_floor_aligned: "4096 dvd x \<Longrightarrow> page_floor x = x"
  by (simp add: page_floor_def)

lemma page_split: "page_floor x + x mod 4096 = x" "page_floor x \<le> x"
  by (simp_all add: page_floor_def)

lemma page_floor_add:
  assumes "4096 dvd a" "k < 4096"
  shows "(a + k) mod 4096 = k" "page_floor (a + k) = a"
proof -
  show m: "(a + k) mod 4096 = k" using assms by (metis add.commute dvd_imp_mod_0 mod_add_right_eq add.right_neutral mod_less)
  show "page_floor (a + k) = a" using m by (simp add: page_floor_def)
qed

lemma page_round_ok:
  assumes "x + 4096 \<le> 2 ^ 64"
  shows "4096 dvd page_round x" "x \<le> page_round x" "page_round x < x + 4096" "0 < x \<Longrightarrow> 0 < page_round x"
proof -
  have r: "4096 dvd page_round x \<and> x \<le> page_round x \<and> page_round x < x + 4096"
  proof (cases "x mod 4096 = 0")
    case True
    then show ?thesis by (simp add: page_round_def mod_0_imp_dvd)
  next
    case False
    have f: "page_floor x + x mod 4096 = x" "x mod 4096 < 4096" "4096 dvd page_floor x" by (simp_all add: page_split page_floor_dvd)
    then have "page_round x = page_floor x + 4096" using False assms by (simp add: page_round_def add64_def)
    then show ?thesis using f False by simp
  qed
  then show "4096 dvd page_round x" "x \<le> page_round x" "page_round x < x + 4096" by blast+
  then show "0 < x \<Longrightarrow> 0 < page_round x" by linarith
qed

lemma or_offset:
  assumes "4096 dvd p" "k < 4096"
  shows "p OR k = p + (k :: nat)"
proof -
  obtain q where q: "p = push_bit 12 q" using assms(1) by (auto simp: push_bit_eq_mult mult.commute elim!: dvdE)
  have k: "take_bit 12 k = k" using assms(2) by (simp add: take_bit_eq_mod)
  have "p AND k = 0" unfolding q by (subst k [symmetric], rule bit_eqI) (auto simp: bit_simps)
  then show ?thesis by (simp add: disjunctive_add_eq_or)
qed

section \<open>Mapping and unmapping\<close>

text \<open>A mapping of a range no part of which is mapped.\<close>

lemma memmap_fresh:
  assumes run: "host_memmap A pa sz fl H = Done (H1, va)" and none: "mlookup (h_mhash H) (page_floor pa) = None"
  obtains V tva s m where "vmm_host_vapool_alloc (page_round sz) (h_pool H) = Done (V, Inr tva)"
    "map_pages A tva (page_floor pa) fl (page_round sz div 4096) (h_mmu H) = Done s" "host_mhash_add (page_floor pa) tva (page_round sz) fl (h_mhash H) = Done (m, VMM_OK)"
    "H1 = H\<lparr>h_pool := V, h_mmu := s, h_mhash := m\<rparr>" "va = add64 tva (pa mod 4096)"
proof -
  have "host_mhash_pa2va (page_floor pa) (h_mhash H) = Inl VMM_ENOTAVAIL" using none by (simp add: host_mhash_pa2va_def mlookup_def)
  note n = this
  obtain Hp tva where pl: "memmap_place A (page_floor pa) (page_round sz) fl H = Done (Hp, tva)" using run by (auto simp: host_memmap_def Let_def)
  then obtain V r where a: "vmm_host_vapool_alloc (page_round sz) (h_pool H) = Done (V, r)" using n by (auto simp: memmap_place_def)
  have r: "r = Inr tva" using pl n a by (cases r) (auto simp: memmap_place_def)
  obtain s where p: "vmm_host_vapool_alloc (page_round sz) (h_pool H) = Done (V, Inr tva)"
    "map_pages A tva (page_floor pa) fl (page_round sz div 4096) (h_mmu H) = Done s" "Hp = H\<lparr>h_pool := V, h_mmu := s\<rparr>"
    using pl n a r by (auto simp: memmap_place_def)
  with pl obtain m where "host_mhash_add (page_floor pa) tva (page_round sz) fl (h_mhash H) = Done (m, VMM_OK)" "H1 = H\<lparr>h_pool := V, h_mmu := s, h_mhash := m\<rparr>"
    "va = add64 tva (pa mod 4096)"
    using run by (auto simp: host_memmap_def Let_def split: if_splits)
  then show thesis using that p by blast
qed

text \<open>The state a mapping of the frames from \<open>P\<close> to the pages from \<open>T\<close> leaves.\<close>

definition mapped :: "'a arch_aspace \<Rightarrow> nat \<Rightarrow> nat \<Rightarrow> nat \<Rightarrow> nat \<Rightarrow> 'a host \<Rightarrow> 'a host \<Rightarrow> bool" where
  "mapped A P S fl T H H1 \<longleftrightarrow> 4096 dvd P \<and> 4096 dvd T \<and> 4096 dvd S \<and> 0 < S \<and> T + S < 2 ^ 64 \<and> P + S < 2 ^ 64 \<and> pool_inv (h_pool H1) \<and> mhash_ok (h_mhash H1)
     \<and> mlookup (h_mhash H1) = (\<lambda>x. if x \<in> {P ..< P + S} then Some (new_entry P T S fl) else mlookup (h_mhash H) x)
     \<and> (\<forall>i < S div 4096. a_va2pa A (T + i * 4096) (h_mmu H1) = Inr (P + i * 4096))
     \<and> (\<forall>v. 4096 dvd v \<longrightarrow> v \<notin> {T ..< T + S} \<longrightarrow> a_va2pa A v (h_mmu H1) = a_va2pa A v (h_mmu H))
     \<and> H1 = H\<lparr>h_pool := h_pool H1, h_mmu := h_mmu H1, h_mhash := h_mhash H1\<rparr>"

lemma memmap_mapped:
  fixes P S :: nat
  assumes A: "arch_ok A" and V: "pool_inv (h_pool H)" and M: "mhash_ok (h_mhash H)" and sz: "0 < sz" "sz + 4096 \<le> 2 ^ 64" and bnd: "P + S < 2 ^ 64"
    and free: "\<forall>x \<in> {P ..< P + S}. mlookup (h_mhash H) x = None" and P: "P = page_floor pa" and S: "S = page_round sz"
    and run: "host_memmap A pa sz fl H = Done (H1, va)"
  obtains T asz V2 where "mapped A P S fl T H H1" "va = T + pa mod 4096" "page_floor va = T" "va mod 4096 = pa mod 4096"
    "\<forall>y \<in> {T ..< T + S}. vmm_host_vapool_page_isfree y (h_pool H) \<and> \<not> vmm_host_vapool_page_isfree y (h_pool H1)"
    "vmm_host_vapool_find va (h_pool H1) = Inr (T, asz)" "vmm_host_vapool_free T asz (h_pool H1) = Done (V2, VMM_OK)" "pool_inv V2"
    "\<forall>y. vmm_host_vapool_page_isfree y V2 = vmm_host_vapool_page_isfree y (h_pool H)"
proof -
  note R = page_round_ok [OF sz(2), folded S]
  have S0: "0 < S" "S < 2 ^ 64" using R(4) sz(1) bnd by linarith+
  have Pd: "4096 dvd P" using P page_floor_dvd by simp
  obtain V1 T s m where f: "vmm_host_vapool_alloc S (h_pool H) = Done (V1, Inr T)" "map_pages A T P fl (S div 4096) (h_mmu H) = Done s"
    "host_mhash_add P T S fl (h_mhash H) = Done (m, VMM_OK)" "H1 = H\<lparr>h_pool := V1, h_mmu := s, h_mhash := m\<rparr>" "va = add64 T (pa mod 4096)"
    using memmap_fresh [OF run] free S0(1) P S by (metis atLeastLessThan_iff le_refl less_add_same_cancel1)
  have "T \<in> {T ..< T + S}" using S0(1) by simp
  from pool_round_trip [OF V S0(2) f(1) this] obtain bsz where b: "{T ..< T + bsz} \<subseteq> {vapool_start (h_pool H) ..< vapool_start (h_pool H) + vapool_size (h_pool H)}"
    "vapool_start (h_pool H) + vapool_size (h_pool H) < 2 ^ 64" "S \<le> bsz" "2 ^ 12 dvd T" by blast
  have td: "4096 dvd T" using b(4) by simp
  have tb: "T + S < 2 ^ 64" using b(1-3) S0(1) by auto
  obtain q where q: "S = q * 4096" using R(1) by (metis dvdE mult.commute)
  have off: "pa mod 4096 < S" using q S0(1) mod_less_divisor [of 4096 pa] by (cases q) auto
  then have va: "va = T + pa mod 4096" using f(5) tb by (simp add: add64_eq)
  have "va \<in> {T ..< T + S}" using va off by simp
  from pool_round_trip [OF V S0(2) f(1) this] obtain asz V2 where v: "pool_inv V1" "pool_inv V2" "vmm_host_vapool_find va V1 = Inr (T, asz)" "S \<le> asz"
    "\<forall>y \<in> {T ..< T + asz}. vmm_host_vapool_page_isfree y (h_pool H) \<and> \<not> vmm_host_vapool_page_isfree y V1"
    "vmm_host_vapool_free T asz V1 = Done (V2, VMM_OK)" "\<forall>y. vmm_host_vapool_page_isfree y V2 = vmm_host_vapool_page_isfree y (h_pool H)" by blast
  have pf: "page_floor va = T" "va mod 4096 = pa mod 4096" unfolding va by (simp_all add: page_floor_add td)
  have mp: "(\<forall>i < S div 4096. a_va2pa A (T + i * 4096) s = Inr (P + i * 4096)) \<and> (\<forall>v. 4096 dvd v \<longrightarrow> v \<notin> {T ..< T + S} \<longrightarrow> a_va2pa A v s = a_va2pa A v (h_mmu H))"
    using map_pages_ok [OF A f(2) td Pd] tb bnd q by simp
  have "host_mhash_add P T S fl (h_mhash H) \<noteq> Done (h_mhash H, VMM_ENOMEM)" using f(3) by simp
  then have room: "\<not> table_full (h_mhash H)" using mhash_add_new(1) [OF M S0(1) bnd tb free] by blast
  obtain m' where m': "host_mhash_add P T S fl (h_mhash H) = Done (m', VMM_OK)" "mhash_ok m'"
    "mlookup m' = (\<lambda>x. if x \<in> {P ..< P + S} then Some (new_entry P T S fl) else mlookup (h_mhash H) x)"
    using mhash_add_new(2) [OF M S0(1) bnd tb free room, of fl] by (elim exE conjE) (rule that; assumption)
  have "m' = m" using m'(1) f(3) by simp
  then have "mapped A P S fl T H H1" unfolding mapped_def f(4) using Pd td R(1) S0(1) tb bnd v(1) m'(2,3) mp by simp
  moreover have "\<forall>y \<in> {T ..< T + S}. vmm_host_vapool_page_isfree y (h_pool H) \<and> \<not> vmm_host_vapool_page_isfree y (h_pool H1)" using v(4,5) f(4) by simp
  ultimately show thesis using that va pf v(2,3,6,7) f(4) by simp
qed

lemma mapped_va2pa:
  assumes m: "mapped A P S fl T H H1" and "k < S"
  shows "vmm_host_va2pa A (T + k) H1 = Inr (P + k)"
proof -
  let ?i = "k div 4096" let ?o = "k mod 4096"
  have D: "4096 dvd P" "4096 dvd T" "4096 dvd S" "\<forall>i < S div 4096. a_va2pa A (T + i * 4096) (h_mmu H1) = Inr (P + i * 4096)" using m by (simp_all add: mapped_def)
  have i: "?i < S div 4096" using assms(2) D(3) by (auto simp: less_mult_imp_div_less mult.commute elim!: dvdE)
  have k: "x + k = (x + ?i * 4096) + ?o" for x by simp
  have d: "4096 dvd T + ?i * 4096" "4096 dvd P + ?i * 4096" "?o < 4096" using D by simp_all
  have "page_floor (T + k) = T + ?i * 4096" "(T + k) mod 4096 = ?o" unfolding k [of T] by (rule page_floor_add [OF d(1,3)])+
  moreover have "(P + ?i * 4096) OR ?o = P + k" unfolding k [of P] by (rule or_offset [OF d(2,3)])
  ultimately show ?thesis using D(4) i by (simp add: vmm_host_va2pa_def)
qed

lemma mapped_pa2va:
  assumes m: "mapped A P S fl T H H1" and "P = page_floor pa"
  shows "vmm_host_pa2va pa H1 = Inr (T + pa mod 4096)"
proof -
  have D: "4096 dvd T" "0 < S" "T + S < 2 ^ 64" "mlookup (h_mhash H1) P = Some (new_entry P T S fl)" using m by (simp_all add: mapped_def)
  have "host_mhash_pa2va P (h_mhash H1) = Inr (add64 T 0, sub64 S 0, fl)" using D by (auto simp: host_mhash_pa2va_def mlookup_def new_entry_def sub64_def)
  moreover have "add64 T 0 = T" using D(3) by (intro trans [OF add64_eq]) simp_all
  ultimately show ?thesis using assms(2) or_offset [OF D(1), of "pa mod 4096"] by (simp add: vmm_host_pa2va_def)
qed

text \<open>Removing the mapping when the pool gave exactly its pages.\<close>

lemma mapped_unmap:
  assumes A: "arch_ok A" and m: "mapped A P S fl T H H1" and free: "\<forall>x \<in> {P ..< P + S}. mlookup (h_mhash H) x = None"
    and v: "vmm_host_vapool_free T S (h_pool H1) = Done (V2, VMM_OK)"
  shows "\<exists>H2. host_memunmap A T S H1 = Done (H2, VMM_OK) \<and> mlookup (h_mhash H2) = mlookup (h_mhash H) \<and> mhash_ok (h_mhash H2) \<and> h_pool H2 = V2
      \<and> (\<forall>v. 4096 dvd v \<longrightarrow> (if v \<in> {T ..< T + S} then a_va2pa A v (h_mmu H2) \<in> range Inl else a_va2pa A v (h_mmu H2) = a_va2pa A v (h_mmu H)))
      \<and> H2 = H\<lparr>h_pool := h_pool H2, h_mmu := h_mmu H2, h_mhash := h_mhash H2\<rparr>"
proof -
  let ?e = "new_entry P T S fl" let ?s = "h_mmu H1" let ?m = "h_mhash H1"
  have D: "4096 dvd T" "4096 dvd S" "0 < S" "T + S < 2 ^ 64" "mhash_ok ?m" "mlookup ?m = (\<lambda>x. if x \<in> {P ..< P + S} then Some ?e else mlookup (h_mhash H) x)"
    "\<forall>i < S div 4096. a_va2pa A (T + i * 4096) ?s = Inr (P + i * 4096)" "\<And>v. 4096 dvd v \<Longrightarrow> v \<notin> {T ..< T + S} \<Longrightarrow> a_va2pa A v ?s = a_va2pa A v (h_mmu H)"
    and H1: "H1 = H\<lparr>h_pool := h_pool H1, h_mmu := ?s, h_mhash := ?m\<rparr>"
    using m by (simp_all add: mapped_def)
  obtain q where q: "S = q * 4096" using D(2) by (metis dvdE mult.commute)
  have q1: "S div 4096 = q" by (simp add: q)
  have S1: "page_round S = S" "page_floor T = T" using D(1,2) by (simp_all add: page_round_def page_floor_aligned dvd_imp_mod_0)
  have "\<forall>i < q. a_va2pa A (T + i * 4096) ?s \<in> range Inr" "T + q * 4096 < 2 ^ 64" using D(4,7) q by auto
  from unmap_pages_ok [OF A D(1) this(2,1)] obtain s2 where u: "unmap_pages A T q ?s = (s2, VMM_OK)" "\<forall>i < q. a_va2pa A (T + i * 4096) s2 \<in> range Inl"
    "\<And>v. 4096 dvd v \<Longrightarrow> v \<notin> {T ..< T + S} \<Longrightarrow> a_va2pa A v s2 = a_va2pa A v ?s" unfolding q [symmetric] by blast
  have e: "me_pa ?e = P" "me_va ?e = T" "me_sz ?e = S" "me_ref ?e = 1" by (simp_all add: new_entry_def)
  have lk: "mlookup ?m P = Some ?e" using D(3,6) by simp
  obtain m2 where m2: "host_mhash_del P T S ?m = Done (m2, VMM_OK)" "mhash_ok m2" "mlookup m2 = carve ?e P S (mlookup ?m)"
    using mhash_del_last [OF D(5) lk, of S T] e D(3) by auto
  have l2: "mlookup m2 = mlookup (h_mhash H)" using m2(3) D(6) free by (auto simp: carve_def e fun_eq_iff)
  have "a_va2pa A T ?s = Inr P" using D(7) q D(3) by (cases q) auto
  then have "host_memunmap A T S H1 = Done (H1\<lparr>h_pool := V2, h_mmu := s2, h_mhash := m2\<rparr>, VMM_OK)"
    using v m2(1) u(1) by (simp add: host_memunmap_def Let_def S1 q1)
  moreover have "if v \<in> {T ..< T + S} then a_va2pa A v s2 \<in> range Inl else a_va2pa A v s2 = a_va2pa A v (h_mmu H)" if vd: "4096 dvd v" for v
  proof (cases "v \<in> {T ..< T + S}")
    case True
    obtain j where "v - T = 4096 * j" using dvd_diff_nat [OF vd D(1)] by (rule dvdE)
    then have "v = T + j * 4096" using True le_add_diff_inverse [of T v] by simp
    then show ?thesis using True u(2) q by auto
  qed (use u(3) D(8) vd in auto)
  moreover have "H1\<lparr>h_pool := V2, h_mmu := s2, h_mhash := m2\<rparr> = H\<lparr>h_pool := V2, h_mmu := s2, h_mhash := m2\<rparr>" by (subst H1) simp
  ultimately show ?thesis using l2 m2(2) by (intro exI [of _ "H1\<lparr>h_pool := V2, h_mmu := s2, h_mhash := m2\<rparr>"]) simp
qed

section \<open>Access to physical memory\<close>

text \<open>The temporary page of a host CPU is a page of the architecture's tables.  Mapping it may fail.\<close>

definition tmp_ok :: "'a arch_aspace \<Rightarrow> nat \<Rightarrow> bool" where
  "tmp_ok A tmp \<longleftrightarrow> arch_ok A \<and> 4096 dvd tmp"

text \<open>What an access leaves alone.\<close>

definition same_host :: "'a arch_aspace \<Rightarrow> nat \<Rightarrow> 'a host \<Rightarrow> 'a host \<Rightarrow> bool" where
  "same_host A tmp H H' \<longleftrightarrow> h_pool H' = h_pool H \<and> h_ram H' = h_ram H \<and> h_mhash H' = h_mhash H \<and> h_rw_va H' = h_rw_va H \<and> h_irqs_off H' = h_irqs_off H
     \<and> (\<forall>v. 4096 dvd v \<longrightarrow> v \<noteq> tmp \<longrightarrow> a_va2pa A v (h_mmu H') = a_va2pa A v (h_mmu H))"

lemma same_host_trans: "same_host A tmp H H1 \<Longrightarrow> same_host A tmp H1 H2 \<Longrightarrow> same_host A tmp H H2"
  by (simp add: same_host_def)

text \<open>
  The end of an access to \<open>len\<close> bytes from \<open>pos\<close> that has transferred \<open>n\<close> of them: either all, and the host is as before, or the page of the
  next byte could not be mapped, and the access returns with the interrupts off.
\<close>

definition access_ended :: "'a arch_aspace \<Rightarrow> nat \<Rightarrow> nat \<Rightarrow> nat \<Rightarrow> nat \<Rightarrow> 'a host \<Rightarrow> 'a host \<Rightarrow> bool" where
  "access_ended A tmp pos len n H H' \<longleftrightarrow> h_pool H' = h_pool H \<and> h_ram H' = h_ram H \<and> h_mhash H' = h_mhash H \<and> h_rw_va H' = h_rw_va H
     \<and> (if n = len then same_host A tmp H H'
        else n < len \<and> h_irqs_off H' = h_irqs_off H + 1 \<and> (\<exists>fl s. snd (a_map A tmp (page_floor (pos + n)) fl s) \<noteq> VMM_OK))"

lemma access_ended_step:
  assumes "same_host A tmp H H1" and "access_ended A tmp (pos + k) (len - k) n H1 H'" and "k \<le> len"
  shows "access_ended A tmp pos len (k + n) H H'"
proof (cases "n = len - k")
  case True
  then show ?thesis using assms same_host_trans [OF assms(1), of H'] by (simp add: access_ended_def same_host_def)
next
  case False
  then have "n < len - k" and f: "\<exists>fl s. snd (a_map A tmp (page_floor (pos + (k + n))) fl s) \<noteq> VMM_OK"
    using assms(2) by (simp_all add: access_ended_def add.assoc)
  then have "k + n < len" by simp
  then show ?thesis using assms(1,2) False f by (simp add: access_ended_def same_host_def)
qed

lemma with_page_cases:
  assumes t: "tmp_ok A tmp" and pg: "4096 dvd page"
    and body: "\<And>s. a_va2pa A tmp s = Inr page \<Longrightarrow> \<exists>ph. f (H\<lparr>h_mmu := s, h_irqs_off := h_irqs_off H + 1\<rparr>) = Done (H\<lparr>h_mmu := s, h_irqs_off := h_irqs_off H + 1, h_phys := ph\<rparr>, x) \<and> Q ph"
  obtains (mapped) H' where "with_page A tmp page c f d H = Done (H', x, True)" "Q (h_phys H')" "same_host A tmp H H'"
    | (failed) s fl where "snd (a_map A tmp page fl (h_mmu H)) \<noteq> VMM_OK" "with_page A tmp page c f d H = Done (H\<lparr>h_mmu := s, h_irqs_off := h_irqs_off H + 1\<rparr>, d, False)"
proof -
  let ?fl = "if c then VMM_MEMORY_FLAGS_NORMAL else VMM_MEMORY_FLAGS_NORMAL_NOCACHE"
  have A: "arch_ok A" "4096 dvd tmp" using t by (simp_all add: tmp_ok_def)
  obtain s rc where m: "a_map A tmp page ?fl (h_mmu H) = (s, rc)" by (cases "a_map A tmp page ?fl (h_mmu H)")
  show thesis
  proof (cases "rc = VMM_OK")
    case False
    have "snd (a_map A tmp page ?fl (h_mmu H)) \<noteq> VMM_OK" using m False by simp
    moreover have "with_page A tmp page c f d H = Done (H\<lparr>h_mmu := s, h_irqs_off := h_irqs_off H + 1\<rparr>, d, False)"
      unfolding with_page_def m using False by (simp add: Let_def)
    ultimately show thesis by (rule failed)
  next
    case True
    note M = arch_map [OF A(1) m [unfolded True] A(2) pg]
    obtain ph where ph: "f (H\<lparr>h_mmu := s, h_irqs_off := h_irqs_off H + 1\<rparr>) = Done (H\<lparr>h_mmu := s, h_irqs_off := h_irqs_off H + 1, h_phys := ph\<rparr>, x)" "Q ph"
      using body [OF M(1)] by blast
    obtain s2 where u: "a_unmap A tmp s = (s2, VMM_OK)" "\<forall>v. 4096 dvd v \<longrightarrow> v \<noteq> tmp \<longrightarrow> a_va2pa A v s2 = a_va2pa A v s" using arch_unmap [OF A(1) M(1) A(2)] by blast
    let ?H = "H\<lparr>h_mmu := s2, h_phys := ph\<rparr>"
    have "with_page A tmp page c f d H = Done (?H, x, True)" unfolding with_page_def m True using ph(1) u(1) by (simp add: Let_def)
    moreover have "same_host A tmp H ?H" using u(2) M(2) by (simp add: same_host_def)
    ultimately show thesis using ph(2) by (intro mapped [of ?H]) simp_all
  qed
qed

lemma failed_ended:
  "snd (a_map A tmp (page_floor pos) fl s0) \<noteq> VMM_OK \<Longrightarrow> 0 < len \<Longrightarrow> access_ended A tmp pos len 0 H (H\<lparr>h_mmu := s, h_irqs_off := h_irqs_off H + 1\<rparr>)"
  by (auto simp: access_ended_def)

lemma write_loop_ok:
  assumes t: "tmp_ok A tmp" and "bw \<le> len" "hpa + (len - bw) < 2 ^ 64"
  shows "\<exists>H' n. write_loop A tmp c len src hpa bw H = Done (H', bw + n) \<and> access_ended A tmp hpa (len - bw) n H H'
    \<and> h_phys H' = (\<lambda>x. if hpa \<le> x \<and> x < hpa + n then src (bw + (x - hpa)) else h_phys H x)"
  using assms(2,3)
proof (induction "len - bw" arbitrary: hpa bw H rule: less_induct)
  case less
  show ?case
  proof (cases "bw < len")
    case False
    then have "bw = len" using less.prems(1) by simp
    then show ?thesis by (subst write_loop.simps) (auto simp: access_ended_def same_host_def fun_eq_iff)
  next
    case True
    let ?n = "page_part hpa (len - bw)" let ?P = "page_floor hpa" let ?off = "hpa mod 2 ^ 12"
    let ?f = "\<lambda>H1. bind_result (copy_to_page A tmp ?off ?n (\<lambda>i. src (bw + i)) H1) (\<lambda>H2. Done (H2, ()))"
    have n: "0 < ?n" "?n \<le> len - bw" using True page_part_pos [of "len - bw" hpa] page_part_le [of hpa "len - bw"] by simp_all
    have po: "?P + ?off = hpa" using page_split(1) by simp
    let ?Q = "\<lambda>ph. ph = (\<lambda>x. if hpa \<le> x \<and> x < hpa + ?n then src (bw + (x - hpa)) else h_phys H x)"
    have "\<exists>ph. ?f (H\<lparr>h_mmu := s, h_irqs_off := h_irqs_off H + 1\<rparr>) = Done (H\<lparr>h_mmu := s, h_irqs_off := h_irqs_off H + 1, h_phys := ph\<rparr>, ()) \<and> ?Q ph"
      if "a_va2pa A tmp s = Inr ?P" for s using that po by (simp add: copy_to_page_def cong: if_cong)
    then consider (mapped) H1 where "with_page A tmp ?P c ?f () H = Done (H1, (), True)" "?Q (h_phys H1)" "same_host A tmp H H1"
      | (failed) s fl where "snd (a_map A tmp ?P fl (h_mmu H)) \<noteq> VMM_OK" "with_page A tmp ?P c ?f () H = Done (H\<lparr>h_mmu := s, h_irqs_off := h_irqs_off H + 1\<rparr>, (), False)"
      by (rule with_page_cases [OF t page_floor_dvd [of hpa], where f = ?f and Q = ?Q and c = c and d = "()"])
    then show ?thesis
    proof cases
      case failed
      then have "write_loop A tmp c len src hpa bw H = Done (H\<lparr>h_mmu := s, h_irqs_off := h_irqs_off H + 1\<rparr>, bw + 0)"
        using True by (subst write_loop.simps) (simp add: Let_def)
      moreover have "(\<lambda>x. if hpa \<le> x \<and> x < hpa + 0 then src (bw + (x - hpa)) else h_phys H x) = h_phys H" by (auto simp: fun_eq_iff)
      ultimately show ?thesis using failed_ended [OF failed(1), of "len - bw" H s] True
        by (intro exI [of _ "H\<lparr>h_mmu := s, h_irqs_off := h_irqs_off H + 1\<rparr>"] exI [of _ 0]) simp
    next
      case mapped
      have nx: "len - (bw + ?n) < len - bw" "bw + ?n \<le> len" "hpa + ?n + (len - (bw + ?n)) < 2 ^ 64" "add64 hpa ?n = hpa + ?n" "len - (bw + ?n) = len - bw - ?n"
        using n less.prems by (auto intro: add64_eq)
      obtain H' m where H': "write_loop A tmp c len src (hpa + ?n) (bw + ?n) H1 = Done (H', bw + ?n + m)" "access_ended A tmp (hpa + ?n) (len - bw - ?n) m H1 H'"
        "h_phys H' = (\<lambda>x. if hpa + ?n \<le> x \<and> x < hpa + ?n + m then src (bw + ?n + (x - (hpa + ?n))) else h_phys H1 x)"
        using less.hyps [OF nx(1-3), of H1] unfolding nx(5) by blast
      have "write_loop A tmp c len src hpa bw H = Done (H', bw + (?n + m))" using True mapped(1) H'(1) nx(4) by (subst write_loop.simps) (simp add: Let_def add.assoc)
      moreover have "h_phys H' = (\<lambda>x. if hpa \<le> x \<and> x < hpa + (?n + m) then src (bw + (x - hpa)) else h_phys H x)"
        unfolding H'(3) mapped(2) using n by (auto simp: fun_eq_iff)
      ultimately show ?thesis using access_ended_step [OF mapped(3) H'(2) n(2)] by blast
    qed
  qed
qed

lemma read_loop_ok:
  assumes t: "tmp_ok A tmp" and "br \<le> len" "hpa + (len - br) < 2 ^ 64"
  shows "\<exists>H' n. read_loop A tmp c len hpa br dst H = Done (H', dst @ map (h_phys H) [hpa..<hpa + n], br + n)
    \<and> access_ended A tmp hpa (len - br) n H H' \<and> h_phys H' = h_phys H"
  using assms(2,3)
proof (induction "len - br" arbitrary: hpa br dst H rule: less_induct)
  case less
  show ?case
  proof (cases "br < len")
    case False
    then have "br = len" using less.prems(1) by simp
    then show ?thesis by (subst read_loop.simps) (auto simp: access_ended_def same_host_def)
  next
    case True
    let ?n = "page_part hpa (len - br)" let ?P = "page_floor hpa" let ?off = "hpa mod 2 ^ 12"
    let ?f = "\<lambda>H1. bind_result (copy_from_page A tmp ?off ?n H1) (\<lambda>d. Done (H1, d))" let ?d = "map (\<lambda>i. h_phys H (hpa + i)) [0..<?n]"
    have n: "0 < ?n" "?n \<le> len - br" using True page_part_pos [of "len - br" hpa] page_part_le [of hpa "len - br"] by simp_all
    have po: "?P + ?off = hpa" using page_split(1) by simp
    have "\<exists>ph. ?f (H\<lparr>h_mmu := s, h_irqs_off := h_irqs_off H + 1\<rparr>) = Done (H\<lparr>h_mmu := s, h_irqs_off := h_irqs_off H + 1, h_phys := ph\<rparr>, ?d) \<and> ph = h_phys H"
      if "a_va2pa A tmp s = Inr ?P" for s using that po by (simp add: copy_from_page_def)
    then consider (mapped) H1 where "with_page A tmp ?P c ?f [] H = Done (H1, ?d, True)" "h_phys H1 = h_phys H" "same_host A tmp H H1"
      | (failed) s fl where "snd (a_map A tmp ?P fl (h_mmu H)) \<noteq> VMM_OK" "with_page A tmp ?P c ?f [] H = Done (H\<lparr>h_mmu := s, h_irqs_off := h_irqs_off H + 1\<rparr>, [], False)"
      by (rule with_page_cases [OF t page_floor_dvd [of hpa], where f = ?f and Q = "\<lambda>ph. ph = h_phys H" and c = c and d = "[]"])
    then show ?thesis
    proof cases
      case failed
      then have "read_loop A tmp c len hpa br dst H = Done (H\<lparr>h_mmu := s, h_irqs_off := h_irqs_off H + 1\<rparr>, dst, br + 0)"
        using True by (subst read_loop.simps) (simp add: Let_def)
      then show ?thesis using failed_ended [OF failed(1)] True by (intro exI [of _ "H\<lparr>h_mmu := s, h_irqs_off := h_irqs_off H + 1\<rparr>"] exI [of _ 0]) simp
    next
      case mapped
      have nx: "len - (br + ?n) < len - br" "br + ?n \<le> len" "hpa + ?n + (len - (br + ?n)) < 2 ^ 64" "add64 hpa ?n = hpa + ?n" "len - (br + ?n) = len - br - ?n"
        using n less.prems by (auto intro: add64_eq)
      obtain H' m where H': "read_loop A tmp c len (hpa + ?n) (br + ?n) (dst @ ?d) H1 = Done (H', (dst @ ?d) @ map (h_phys H1) [hpa + ?n..<hpa + ?n + m], br + ?n + m)"
        "access_ended A tmp (hpa + ?n) (len - br - ?n) m H1 H'" "h_phys H' = h_phys H1"
        using less.hyps [OF nx(1-3), of "dst @ ?d" H1] unfolding nx(5) by blast
      have "?d = map (h_phys H) [hpa..<hpa + ?n]" by (rule nth_equalityI) simp_all
      moreover have "[hpa..<hpa + (?n + m)] = [hpa..<hpa + ?n] @ [hpa + ?n..<hpa + ?n + m]" using upt_add_eq_append [of hpa "hpa + ?n" m] by (simp add: add.assoc)
      ultimately have "dst @ map (h_phys H) [hpa..<hpa + (?n + m)] = (dst @ ?d) @ map (h_phys H1) [hpa + ?n..<hpa + ?n + m]" by (simp add: mapped(2))
      moreover have "read_loop A tmp c len hpa br dst H = read_loop A tmp c len (hpa + ?n) (br + ?n) (dst @ ?d) H1"
        using True mapped(1) nx(4) by (subst read_loop.simps) (simp add: Let_def)
      ultimately show ?thesis using H' mapped(2) access_ended_step [OF mapped(3) H'(2) n(2)] by (intro exI [of _ H'] exI [of _ "?n + m"]) (simp add: add.assoc)
    qed
  qed
qed

text \<open>Setting memory writes up to 256 bytes at a time, and counts the last of these blocks whole.\<close>

lemma set_loop_ok:
  assumes t: "tmp_ok A (h_rw_va H cpu)" and "pos \<le> en" "en < 2 ^ 64"
  shows "\<exists>H' n m. set_loop A cpu byte c en pos tot H = Done (H', tot + m) \<and> access_ended A (h_rw_va H cpu) pos (en - pos) n H H'
    \<and> n \<le> m \<and> m \<le> en - pos \<and> m \<le> n + 256 \<and> h_phys H' = (\<lambda>x. if pos \<le> x \<and> x < pos + n then byte else h_phys H x)"
  using assms
proof (induction "en - pos" arbitrary: pos tot H rule: less_induct)
  case less
  show ?case
  proof (cases "pos < en")
    case False
    then have "set_loop A cpu byte c en pos tot H = Done (H, tot + 0)" by (subst set_loop.simps) simp
    moreover have "(\<lambda>x. if pos \<le> x \<and> x < pos + 0 then byte else h_phys H x) = h_phys H" by (auto simp: fun_eq_iff)
    ultimately show ?thesis using False by (intro exI [of _ H] exI [of _ 0]) (simp add: access_ended_def same_host_def)
  next
    case True
    let ?n = "min 256 (en - pos)"
    have "pos + ?n < 2 ^ 64" using True less.prems(3) by linarith
    then obtain H1 k where H1: "vmm_host_memory_write A cpu pos (\<lambda>_. byte) ?n c H = Done (H1, k)" "access_ended A (h_rw_va H cpu) pos ?n k H H1"
      "h_phys H1 = (\<lambda>x. if pos \<le> x \<and> x < pos + k then byte else h_phys H x)"
      using write_loop_ok [OF less.prems(1), of 0 ?n pos c "\<lambda>_. byte" H] by (auto simp: vmm_host_memory_write_def)
    show ?thesis
    proof (cases "k = ?n")
      case False
      then have k: "k < ?n" using H1(2) by (simp add: access_ended_def)
      then have "set_loop A cpu byte c en pos tot H = Done (H1, tot + ?n)" using True H1(1) by (subst set_loop.simps) (simp add: Let_def del: min_less_iff_conj)
      moreover have "access_ended A (h_rw_va H cpu) pos (en - pos) k H H1" using H1(2) k by (simp add: access_ended_def)
      ultimately show ?thesis using H1(3) k by (intro exI [of _ H1] exI [of _ k] exI [of _ ?n]) simp
    next
      case k: True
      have sh: "same_host A (h_rw_va H cpu) H H1" using H1(2) k by (simp add: access_ended_def)
      then have rw: "h_rw_va H1 cpu = h_rw_va H cpu" by (simp add: same_host_def)
      have nx: "en - (pos + ?n) < en - pos" "pos + ?n \<le> en" "en - (pos + ?n) = en - pos - ?n" using True by auto
      obtain H' n m where H': "set_loop A cpu byte c en (pos + ?n) (tot + ?n) H1 = Done (H', tot + ?n + m)" "access_ended A (h_rw_va H cpu) (pos + ?n) (en - pos - ?n) n H1 H'"
        "n \<le> m" "m \<le> en - pos - ?n" "m \<le> n + 256" "h_phys H' = (\<lambda>x. if pos + ?n \<le> x \<and> x < pos + ?n + n then byte else h_phys H1 x)"
        using less.hyps [OF nx(1) _ nx(2) less.prems(3), of H1 "tot + ?n"] less.prems(1) unfolding rw nx(3) by blast
      have "set_loop A cpu byte c en pos tot H = Done (H', tot + (?n + m))" using True H1(1) H'(1) k by (subst set_loop.simps) (simp add: Let_def add.assoc del: min_less_iff_conj)
      moreover have "h_phys H' = (\<lambda>x. if pos \<le> x \<and> x < pos + (?n + n) then byte else h_phys H x)" unfolding H'(6) H1(3) k by (auto simp: fun_eq_iff)
      moreover have "?n \<le> en - pos" by simp
      ultimately show ?thesis using access_ended_step [OF sh H'(2)] H'(3-5) by (intro exI [of _ H'] exI [of _ "?n + n"] exI [of _ "?n + m"]) simp
    qed
  qed
qed

section \<open>A concrete host\<close>

text \<open>Page tables as a map from pages to frames.\<close>

definition demo_arch :: "(nat \<Rightarrow> nat option) arch_aspace" where
  "demo_arch = \<lparr>a_map = (\<lambda>va pa fl s. (s(va \<mapsto> pa), VMM_OK)), a_unmap = (\<lambda>va s. if s va = None then (s, VMM_EFAIL) else (s(va := None), VMM_OK)),
     a_va2pa = (\<lambda>va s. case s va of None \<Rightarrow> Inl VMM_EFAIL | Some p \<Rightarrow> Inr p)\<rparr>"

definition demo_mhash :: host_mhash where "demo_mhash = fst (host_mhash_init 0 112)"

definition demo_ram :: "unit vmm_host_ram_ctrl" where "demo_ram = \<lparr>ops = Some default_ops, ops_priv = None, bank_count = 0, banks = []\<rparr>"

definition demo_host :: "(nat \<Rightarrow> nat option) host" where
  "demo_host = \<lparr>h_mmu = Map.empty, h_pool = demo_pool, h_ram = demo_ram, h_mhash = demo_mhash, h_phys = (\<lambda>x. of_nat x), h_rw_va = (\<lambda>cpu. 8192 * cpu), h_irqs_off = 0,
     h_hostmem = Resource 0 0 0 '''' 0 []\<rparr>"

lemma demo_arch_ok: "arch_ok demo_arch"
  by (auto simp: arch_ok_def demo_arch_def split: if_splits)

lemma demo_tmp_ok: "tmp_ok demo_arch (h_rw_va demo_host 1)"
  using demo_arch_ok by (simp add: tmp_ok_def demo_arch_def demo_host_def)

lemma demo_mhash_ok: "mhash_ok demo_mhash" "mlookup demo_mhash x = None" "\<not> table_full demo_mhash"
proof -
  have D: "demo_mhash = \<lparr>mh_start = 0, mh_size = 112, mh_count = 2, mh_root = [], mh_entry = [zero_entry, zero_entry]\<rparr>"
    using replicate_Suc [of 1 zero_entry] by (simp add: demo_mhash_def host_mhash_init_def SIZEOF_MHASH_ENTRY_def Let_def numeral_2_eq_2 [symmetric])
  show "mhash_ok demo_mhash" "mlookup demo_mhash x = None" "\<not> table_full demo_mhash"
    unfolding D by (auto simp: mhash_ok_def mlookup_def host_mhash_find_def table_full_def zero_entry_def less_2_cases_iff nth_Cons split: nat.splits)
qed

lemma demo_map_pages: "\<exists>s'. map_pages demo_arch va pa fl n s = Done s'"
  by (induction n arbitrary: va pa s) (simp_all add: demo_arch_def)

lemma demo_pool_inv: "pool_inv demo_pool"
  by (rule init_pool_inv [OF demo_pool_init]) simp_all

text \<open>One megabyte at an address inside a page is mapped to the pages of the pool.\<close>

lemma demo_memmap:
  "\<exists>H1. vmm_host_memmap demo_arch 1073741829 1048576 31 demo_host = Done (H1, 1048581) \<and> h_pool H1 = demo_pool_used"
proof -
  have P: "page_floor 1073741829 = 1073741824" "page_round 1048576 = 1048576" by (simp_all add: page_floor_def page_round_def)
  obtain s where s: "map_pages demo_arch 1048576 1073741824 31 256 Map.empty = Done s" using demo_map_pages by blast
  have "host_mhash_find 1073741824 demo_mhash = None" using demo_mhash_ok(2) by (simp add: mlookup_def)
  then have "memmap_place demo_arch 1073741824 1048576 31 demo_host = Done (demo_host\<lparr>h_pool := demo_pool_used, h_mmu := s\<rparr>, 1048576)"
    using demo_pool_alloc s by (simp add: memmap_place_def host_mhash_pa2va_def demo_host_def)
  moreover obtain m where "host_mhash_add 1073741824 1048576 1048576 31 demo_mhash = Done (m, VMM_OK)"
    using mhash_add_new(2) [OF demo_mhash_ok(1) _ _ _ _ demo_mhash_ok(3), of 1048576 1073741824 1048576 31] demo_mhash_ok(2) by auto
  moreover have "h_mhash demo_host = demo_mhash" by (simp add: demo_host_def)
  ultimately show ?thesis by (simp add: vmm_host_memmap_def host_memmap_def P Let_def add64_def)
qed

text \<open>An address in a frame that the host RAM has free.\<close>

definition ram_free :: "'p vmm_host_ram_ctrl \<Rightarrow> nat \<Rightarrow> bool" where
  "ram_free c x \<longleftrightarrow> (\<exists>i < unat (bank_count c). \<exists>p < frames (banks c ! i). x div 4096 * 4096 = unat (bank_start (banks c ! i)) + 4096 * p \<and> \<not> bbit (bmap (banks c ! i)) p)"

lemma ram_alloc_shape:
  assumes "vmm_host_ram_alloc c sz ao = Some (Done (c', pa, got))"
  shows "got = 0 \<or> pa \<noteq> None"
  using assms by (auto simp: vmm_host_ram_alloc_def host_ram_alloc_with_def Let_def split: if_splits option.splits)

section \<open>Contracts\<close>



text \<open>
  C27.  Mapping physical memory no part of which is mapped: every byte of the pages is then translated to its physical address, the returned
  address is found for the physical one, and unmapping, when the pool gave exactly the pages, undoes all of it: the table of mappings,
  the pool and the translation of every page are as before, where the pages of the mapping are not translated.
\<close>

theorem host_memmap_round_trip:
  assumes "arch_ok A" and "pool_inv (h_pool H)" and "mhash_ok (h_mhash H)" and "0 < sz" and "sz + 4096 \<le> 2 ^ 64" and "page_floor pa + page_round sz < 2 ^ 64"
    and "\<forall>x \<in> {page_floor pa ..< page_floor pa + page_round sz}. mlookup (h_mhash H) x = None"
    and "vmm_host_memmap A pa sz fl H = Done (H1, va)" and "vmm_host_vapool_find va (h_pool H1) = Inr (page_floor va, page_round sz)"
  shows "va mod 4096 = pa mod 4096 \<and> (\<forall>k < page_round sz. vmm_host_va2pa A (page_floor va + k) H1 = Inr (page_floor pa + k)) \<and> vmm_host_pa2va pa H1 = Inr va
    \<and> (\<exists>H2. vmm_host_memunmap A va H1 = Done (H2, VMM_OK) \<and> mlookup (h_mhash H2) = mlookup (h_mhash H) \<and> mhash_ok (h_mhash H2) \<and> pool_inv (h_pool H2)
      \<and> (\<forall>y. vmm_host_vapool_page_isfree y (h_pool H2) = vmm_host_vapool_page_isfree y (h_pool H))
      \<and> (\<forall>v. 4096 dvd v \<longrightarrow> (if v \<in> {page_floor va ..< page_floor va + page_round sz} then a_va2pa A v (h_mmu H2) \<in> range Inl
                             else a_va2pa A v (h_mmu H2) = a_va2pa A v (h_mmu H)))
      \<and> h_ram H2 = h_ram H \<and> h_phys H2 = h_phys H)"
proof -
  let ?S = "page_round sz"
  obtain T asz V2 where m: "mapped A (page_floor pa) ?S fl T H H1" "va = T + pa mod 4096" "page_floor va = T" "va mod 4096 = pa mod 4096"
    "vmm_host_vapool_find va (h_pool H1) = Inr (T, asz)" "vmm_host_vapool_free T asz (h_pool H1) = Done (V2, VMM_OK)" "pool_inv V2"
    "\<forall>y. vmm_host_vapool_page_isfree y V2 = vmm_host_vapool_page_isfree y (h_pool H)"
    by (rule memmap_mapped [OF assms(1-7) refl refl assms(8) [unfolded vmm_host_memmap_def]]) (rule that; assumption)
  have asz: "asz = ?S" using m(5) assms(9) by simp
  obtain H2 where H2: "host_memunmap A T ?S H1 = Done (H2, VMM_OK)" "mlookup (h_mhash H2) = mlookup (h_mhash H)" "mhash_ok (h_mhash H2)" "h_pool H2 = V2"
    "\<forall>v. 4096 dvd v \<longrightarrow> (if v \<in> {T ..< T + ?S} then a_va2pa A v (h_mmu H2) \<in> range Inl else a_va2pa A v (h_mmu H2) = a_va2pa A v (h_mmu H))"
    "H2 = H\<lparr>h_pool := h_pool H2, h_mmu := h_mmu H2, h_mhash := h_mhash H2\<rparr>"
    using mapped_unmap [OF assms(1) m(1) assms(7) m(6) [unfolded asz]] by (elim exE conjE) (rule that; assumption)
  have "h_ram H2 = h_ram H" "h_phys H2 = h_phys H" by (subst H2(6), simp)+
  then have "\<exists>H2. vmm_host_memunmap A va H1 = Done (H2, VMM_OK) \<and> mlookup (h_mhash H2) = mlookup (h_mhash H) \<and> mhash_ok (h_mhash H2) \<and> pool_inv (h_pool H2)
      \<and> (\<forall>y. vmm_host_vapool_page_isfree y (h_pool H2) = vmm_host_vapool_page_isfree y (h_pool H))
      \<and> (\<forall>v. 4096 dvd v \<longrightarrow> (if v \<in> {page_floor va ..< page_floor va + ?S} then a_va2pa A v (h_mmu H2) \<in> range Inl
                             else a_va2pa A v (h_mmu H2) = a_va2pa A v (h_mmu H)))
      \<and> h_ram H2 = h_ram H \<and> h_phys H2 = h_phys H"
    using H2(1-5) m(3,7,8) assms(9) by (intro exI [of _ H2]) (simp add: vmm_host_memunmap_def)
  then show ?thesis using mapped_va2pa [OF m(1)] mapped_pa2va [OF m(1) refl] m(2-4) by simp
qed

theorem host_memmap_round_trip_witness:
  "\<exists>H1 H2. vmm_host_memmap demo_arch 1073741829 1048576 31 demo_host = Done (H1, 1048581) \<and> vmm_host_va2pa demo_arch 1048581 H1 = Inr 1073741829
     \<and> vmm_host_memunmap demo_arch 1048581 H1 = Done (H2, VMM_OK) \<and> mlookup (h_mhash H2) = mlookup demo_mhash"
proof -
  obtain H1 where H1: "vmm_host_memmap demo_arch 1073741829 1048576 31 demo_host = Done (H1, 1048581)" "h_pool H1 = demo_pool_used" using demo_memmap by blast
  have P: "page_floor 1073741829 = 1073741824" "page_round 1048576 = 1048576" "page_floor 1048581 = 1048576" by (simp_all add: page_floor_def page_round_def)
  have D: "h_pool demo_host = demo_pool" "h_mhash demo_host = demo_mhash" by (simp_all add: demo_host_def)
  have "vmm_host_vapool_find 1048581 (h_pool H1) = Inr (1048576, 1048576)"
    unfolding H1(2) by (simp add: vmm_host_vapool_find_def demo_pool_used_def pool_with_def pool_buddy_def buddy_mem_find_def in_memory_def buddy_alloc_find_def buddy_eval)
  then have T: "(\<forall>k < 1048576. vmm_host_va2pa demo_arch (1048576 + k) H1 = Inr (1073741824 + k))
      \<and> (\<exists>H2. vmm_host_memunmap demo_arch 1048581 H1 = Done (H2, VMM_OK) \<and> mlookup (h_mhash H2) = mlookup demo_mhash)"
    using host_memmap_round_trip [OF demo_arch_ok, of demo_host 1048576 1073741829 31 H1 1048581] H1(1) demo_pool_inv demo_mhash_ok(1,2) by (auto simp: P D)
  have "vmm_host_va2pa demo_arch 1048581 H1 = Inr 1073741829" using T [THEN conjunct1, rule_format, of 5] by simp
  then show ?thesis using T H1(1) by blast
qed

text \<open>
  C29.  Access to physical memory through the temporary page of the host CPU, for a range of any length that may cross pages, whether or not the
  architecture maps the page each time; what it maps it translates, and can unmap (\<open>arch_ok\<close>).  Writing stores the first \<open>n\<close> bytes of the range and no other, and reports \<open>n\<close>; reading returns the first
  \<open>n\<close> bytes and reports \<open>n\<close>; setting stores the byte in the first \<open>n\<close> bytes and no other, and reports at least \<open>n\<close>, at most the length and at most
  256 bytes too many.  Either \<open>n\<close> is the length of the range, and the interrupt state, the translation of all other pages and the rest of the host are as
  before; or the page of the byte after them could not be mapped, and the call returns with the interrupts disabled once more than at its start.
\<close>

theorem host_memory_access:
  assumes "tmp_ok A (h_rw_va H cpu)" and "hpa + len < 2 ^ 64"
  shows "(\<exists>H' n. vmm_host_memory_write A cpu hpa src len c H = Done (H', n) \<and> access_ended A (h_rw_va H cpu) hpa len n H H'
      \<and> h_phys H' = (\<lambda>x. if hpa \<le> x \<and> x < hpa + n then src (x - hpa) else h_phys H x))
    \<and> (\<exists>H' n. vmm_host_memory_read A cpu hpa len c H = Done (H', map (h_phys H) [hpa..<hpa + n], n) \<and> access_ended A (h_rw_va H cpu) hpa len n H H'
      \<and> h_phys H' = h_phys H)
    \<and> (\<exists>H' n m. vmm_host_memory_set A cpu hpa byte len c H = Done (H', m) \<and> access_ended A (h_rw_va H cpu) hpa len n H H'
      \<and> n \<le> m \<and> m \<le> len \<and> m \<le> n + 256 \<and> h_phys H' = (\<lambda>x. if hpa \<le> x \<and> x < hpa + n then byte else h_phys H x))"
proof (intro conjI)
  show "\<exists>H' n. vmm_host_memory_write A cpu hpa src len c H = Done (H', n) \<and> access_ended A (h_rw_va H cpu) hpa len n H H'
      \<and> h_phys H' = (\<lambda>x. if hpa \<le> x \<and> x < hpa + n then src (x - hpa) else h_phys H x)"
    using write_loop_ok [OF assms(1), of 0 len hpa c src H] assms(2) by (simp add: vmm_host_memory_write_def cong: if_cong)
  show "\<exists>H' n. vmm_host_memory_read A cpu hpa len c H = Done (H', map (h_phys H) [hpa..<hpa + n], n) \<and> access_ended A (h_rw_va H cpu) hpa len n H H'
      \<and> h_phys H' = h_phys H"
    using read_loop_ok [OF assms(1), of 0 len hpa c "[]" H] assms(2) by (simp add: vmm_host_memory_read_def)
  have "add64 hpa len = hpa + len" using assms(2) by (rule add64_eq)
  then show "\<exists>H' n m. vmm_host_memory_set A cpu hpa byte len c H = Done (H', m) \<and> access_ended A (h_rw_va H cpu) hpa len n H H'
      \<and> n \<le> m \<and> m \<le> len \<and> m \<le> n + 256 \<and> h_phys H' = (\<lambda>x. if hpa \<le> x \<and> x < hpa + n then byte else h_phys H x)"
    using set_loop_ok [OF assms(1), of hpa "hpa + len" byte c 0] assms(2) by (simp add: vmm_host_memory_set_def)
qed

theorem host_memory_access_witness:
  "(\<exists>H'. vmm_host_memory_write demo_arch 1 4095 (\<lambda>_. 7) 2 True demo_host = Done (H', 2) \<and> h_phys H' 4095 = 7 \<and> h_phys H' 4096 = 7)
   \<and> (\<exists>H'. vmm_host_memory_read demo_arch 1 4095 2 True demo_host = Done (H', [255, 0], 2))"
proof -
  have "[4095..<4097] = [4095, 4096 :: nat]" by (simp add: upt_conv_Cons)
  then have "map (h_phys demo_host) [4095..<4095 + 2] = [255, 0]" by (simp add: demo_host_def)
  moreover have "n = len" if "access_ended demo_arch tmp pos len n H H'" for tmp pos len n H H'
    using that by (auto simp: access_ended_def demo_arch_def split: if_splits)
  ultimately show ?thesis using host_memory_access [OF demo_tmp_ok, of 4095 2 "\<lambda>_. 7" True 0] by fastforce
qed


text \<open>A pool and a bank of eight pages.\<close>

definition small_buddy :: "nat \<Rightarrow> buddy_area list \<Rightarrow> (nat \<Rightarrow> buddy_area list) \<Rightarrow> buddy_allocator" where
  "small_buddy k al bs = \<lparr>hk_total_count = 2, hk_free_count = k, mem_start = 1048576, mem_size = 32768, min_bin = 12, max_bin = 20, alloc = al, bins = bs\<rparr>"

definition small_bin :: "nat \<Rightarrow> buddy_area list" where "small_bin = (\<lambda>_. [])(15 := [\<lparr>area_map = 1048576, blk_count = 1, bin_num = 15\<rparr>])"

definition small_pool :: "buddy_allocator \<Rightarrow> vapool_ctrl" where
  "small_pool b = \<lparr>vapool_start = 1048576, vapool_size = 32768, vapool_page_count = 8, vapool_ba = b\<rparr>"

definition small_ram :: "u64 \<Rightarrow> u32 \<Rightarrow> unit vmm_host_ram_ctrl" where
  "small_ram bm n = \<lparr>ops = Some default_ops, ops_priv = None, bank_count = 1,
     banks = [\<lparr>bank_start = 0x80000000, bank_size = 0x40000, frame_count = 64, bmap = [bm], bmap_sz = 8, bmap_free = n\<rparr>]\<rparr>"

definition small_host :: "(nat \<Rightarrow> nat option) host" where
  "small_host = demo_host\<lparr>h_pool := small_pool (small_buddy 1 [] small_bin), h_ram := small_ram 0 64\<rparr>"

lemma small_estimate: "min_bin ba = 12 \<Longrightarrow> max_bin ba = 20 \<Longrightarrow> buddy_estimate_bin ba 32768 = 15"
  by (simp add: buddy_estimate_bin_def BLOCK_SIZE_def pool_upt)

lemma small_pool_inv: "pool_inv (h_pool small_host)"
proof -
  have put: "buddy_bins_put \<lparr>area_map = 1048576, blk_count = 1, bin_num = 15\<rparr> (small_buddy 1 [] (\<lambda>_. [])) = small_buddy 1 [] small_bin"
    by (subst buddy_bins_put.simps) (simp add: bins_put_step_def set_bin_def hk_free_n_def small_buddy_def small_bin_def merge_blocks_def merge_pairs_def)
  have "fill_bins 3 1048576 32768 (small_buddy 2 [] (\<lambda>_. [])) = Done (small_buddy 1 [] small_bin, VMM_OK)"
    using put by (subst numeral_3_eq_3, subst fill_bins.simps) (simp add: buddy_eval small_estimate small_buddy_def)
  then have "buddy_allocator_init 2 1048576 32768 12 20 = Done (Some (small_buddy 1 [] small_bin), VMM_OK)"
    by (simp add: buddy_allocator_init_def BUDDY_MAX_SUPPORTED_BIN_def buddy_eval small_buddy_def del: bind_result_eq_Done)
  moreover have "VAPOOL_MAX_BIN 1 = 20" by (simp add: VAPOOL_MAX_BIN_def ctz_def upt_conv_Cons)
  ultimately have "vmm_host_vapool_init 1 1048576 32768 1048576 demo_pool = Done (h_pool small_host, VMM_OK)"
    by (simp add: vmm_host_vapool_init_def vmm_host_vapool_estimate_hksize_def SIZEOF_BUDDY_AREA_def VAPOOL_MIN_BIN_def add64_def demo_pool_def pool_with_def small_host_def small_pool_def
        del: bind_result_eq_Done)
  then show ?thesis by (rule init_pool_inv) simp_all
qed

lemma small_alloc: "\<exists>V. vmm_host_vapool_alloc 32768 (h_pool small_host) = Done (V, Inr 1048576)"
proof -
  have b: "blocks_for 32768 15 = 1" "blocks_for 32768 12 = 8" by (simp_all add: blocks_for_def buddy_eval)
  have "buddy_bins_get 15 (Suc 0) (small_buddy 1 [] small_bin) = (small_buddy 1 [] (\<lambda>_. []), Some \<lparr>area_map = 1048576, blk_count = 1, bin_num = 15\<rparr>)"
    by (subst buddy_bins_get.simps) (simp add: small_buddy_def small_bin_def buddy_eval fun_upd_idem)
  moreover have "min_bin (small_buddy k al bs) = 12" "max_bin (small_buddy k al bs) = 20" for k al bs by (simp_all add: small_buddy_def)
  ultimately have "\<exists>b. buddy_mem_alloc 32768 (small_buddy 1 [] small_bin) = Done (b, Inr 1048576)"
    by (simp add: buddy_mem_alloc_def small_estimate b(1) downgrade_def mul64_def trim_area_def b(2) add_allocated_def buddy_alloc_add_def) (simp add: small_buddy_def)
  then show ?thesis by (auto simp: vmm_host_vapool_alloc_def small_host_def small_pool_def)
qed

lemma small_ram_alloc: "vmm_host_ram_alloc (small_ram 0 64) 0x8000 12 = Some (Done (small_ram 0xFF 56, Some 0x80000000, 0x8000))"
proof -
  have "count_free [0] 0 8 = Done 8" by (simp add: ram_eval count_free_step)
  then have "find_frames [0] 0x80000000 0x40000 1 8 (\<lambda>_. True) 0 = Some (Done (Some 0))" by (intro find_frames_step(2)) simp_all
  then show ?thesis unfolding small_ram_def vmm_host_ram_alloc_def host_ram_alloc_with_def by (simp add: ram_eval)
qed

lemma small_pages: "\<exists>H1. vmm_host_alloc_pages demo_arch 8 31 small_host = Some (Done (H1, 1048576))"
proof -
  have P: "page_floor 2147483648 = 2147483648" "page_round 32768 = 32768" by (simp_all add: page_floor_def page_round_def)
  obtain V where V: "vmm_host_vapool_alloc 32768 (h_pool small_host) = Done (V, Inr 1048576)" using small_alloc by blast
  have D: "h_ram small_host = small_ram 0 64" "h_mhash small_host = demo_mhash" by (simp_all add: small_host_def demo_host_def)
  let ?H = "small_host\<lparr>h_ram := small_ram 0xFF 56\<rparr>"
  obtain s where s: "map_pages demo_arch 1048576 2147483648 31 8 (h_mmu small_host) = Done s" using demo_map_pages by blast
  have "host_mhash_find 2147483648 demo_mhash = None" using demo_mhash_ok(2) by (simp add: mlookup_def)
  then have "memmap_place demo_arch 2147483648 32768 31 ?H = Done (?H\<lparr>h_pool := V, h_mmu := s\<rparr>, 1048576)"
    using V s D(2) by (simp add: memmap_place_def host_mhash_pa2va_def)
  moreover obtain m where "host_mhash_add 2147483648 1048576 32768 31 demo_mhash = Done (m, VMM_OK)"
    using mhash_add_new(2) [OF demo_mhash_ok(1) _ _ _ _ demo_mhash_ok(3), of 32768 2147483648 1048576 31] demo_mhash_ok(2) by auto
  ultimately have "host_memmap demo_arch 2147483648 32768 31 ?H = Done (?H\<lparr>h_pool := V, h_mmu := s, h_mhash := m\<rparr>, 1048576)"
    using D(2) by (simp add: host_memmap_def P Let_def add64_def)
  then show ?thesis using small_ram_alloc by (simp add: vmm_host_alloc_pages_def vmm_host_alloc_aligned_pages_def Let_def D(1) vmm_host_memmap_def)
qed


section \<open>Where the code departs from its intention\<close>

definition two_pages :: host_mhash where
  "two_pages = \<lparr>mh_start = 0, mh_size = 56, mh_count = 1, mh_root = [0], mh_entry = [new_entry 4096 65536 8192 31]\<rparr>"

text \<open>Two pages from 4096 are mapped at 65536.  For the second one the distance is taken with the wrong sign, and the address below the mapping is returned.\<close>

lemma pa2va_wrong_sign: "host_mhash_pa2va 4096 two_pages = Inr (65536, 8192, 31) \<and> host_mhash_pa2va 8192 two_pages = Inr (61440, 12288, 31)"
  by (simp add: two_pages_def host_mhash_pa2va_def host_mhash_find_def new_entry_def me_end_def add64_def sub64_def)

text \<open>Therefore mapping the second page once more panics.\<close>

lemma memmap_inner_panics: "host_memmap A 8192 4096 31 (H\<lparr>h_mhash := two_pages\<rparr>) = Panic"
proof -
  have P: "page_floor 8192 = 8192" "page_round 4096 = 4096" "page_floor 61440 = 61440" by (simp_all add: page_floor_def page_round_def)
  have "memmap_place A 8192 4096 31 (H\<lparr>h_mhash := two_pages\<rparr>) = Done (H\<lparr>h_mhash := two_pages\<rparr>, 61440)"
    using pa2va_wrong_sign P(3) by (simp add: memmap_place_def)
  moreover have "host_mhash_add 8192 61440 4096 31 two_pages = Done (two_pages, VMM_EINVALID)"
    by (simp add: two_pages_def host_mhash_add_def host_mhash_find_def new_entry_def me_end_def not_within_def add64_def)
  ultimately show ?thesis by (simp add: host_memmap_def P Let_def)
qed

text \<open>The offset in the page is not part of the size: of two bytes at the end of a page only the first is mapped.\<close>

lemma memmap_short: "page_round 2 = 4096 \<and> page_floor 8191 + page_round 2 \<le> 8191 + 1"
  by (simp add: page_round_def page_floor_def add64_def)

text \<open>When a page cannot be mapped, an access returns with the interrupts off, and setting memory reports bytes that were not written.\<close>

lemma access_leaves_irqs_off:
  assumes "a_map A (h_rw_va H 0) 0 31 (h_mmu H) = (h_mmu H, VMM_EFAIL)"
  shows "\<exists>H'. vmm_host_memory_set A 0 0 b 10 True H = Done (H', 10) \<and> h_irqs_off H' = h_irqs_off H + 1 \<and> h_phys H' = h_phys H"
proof -
  have "write_loop A (h_rw_va H 0) True 10 (\<lambda>_. b) 0 0 H = Done (H\<lparr>h_irqs_off := h_irqs_off H + 1\<rparr>, 0)"
    using assms by (subst write_loop.simps) (simp add: with_page_def page_floor_def VMM_MEMORY_FLAGS_NORMAL_def)
  then show ?thesis by (simp add: vmm_host_memory_set_def add64_def) (subst set_loop.simps, simp add: vmm_host_memory_write_def)
qed

text \<open>Without space of the architecture the reserved range stops before the core space that follows the code.\<close>

lemma core_space_not_reserved:
  assumes "code_vaddr B = 1048576" "code_paddr B = 1048576" "code_size B = 65536"
  shows "resv_span B \<lparr>core_pa = 1114112, core_va = 1114112, core_sz = 65536, arch_pa = 0, arch_va = 0, arch_sz = 0\<rparr> = (1048576, 1048576, 65536)"
  using assms by (simp add: resv_span_def add64_def)

text \<open>A range of the device tree that does not end at a page is cut: of 6144 bytes one page is reserved.\<close>

lemma reserve_dt_short:
  assumes "reserve_addr B 0 = Inr 4096" "reserve_size B 0 = Inr 6144"
  shows "reserve_dt B 1 0 H = ok_then (ram_step (\<lambda>c. vmm_host_ram_reserve c 4096 4096) H) (reserve_dt B 0 1)"
  using assms by (simp add: VMM_PAGE_MASK_def order_mask_def order_size_def VMM_PAGE_SHIFT_def push_bit_eq_mult)

end
