(* ===== verification/Rbtree.thy ===== *)
theory Rbtree
  imports Dlist
begin

text \<open>
  The red-black trees of \<^verbatim>\<open>libs/common/rbtree.c\<close>, \<^verbatim>\<open>libs/include/libs/rbtree.h\<close> and \<^verbatim>\<open>libs/include/libs/rbtree_augmented.h\<close>, as a heap
  of nodes.  The word \<^verbatim>\<open>__rb_parent_color\<close> packs the address of the parent and, in the lowest bit, the colour; here they are two
  fields.  The address 0 is \<^verbatim>\<open>NULL\<close>, and reading or writing there is a \<open>Fault\<close>.  The callbacks of augmented trees are the
  empty ones of \<^verbatim>\<open>rb_insert_color\<close> and \<^verbatim>\<open>rb_erase\<close>.  Loops take the number of rounds as fuel and \<open>Fault\<close> when it runs out;
  the theorems show that the number of nodes of the tree is enough.
\<close>

section \<open>Nodes\<close>

record rbs =
  rb_parent :: "addr \<Rightarrow> addr"
  rb_black :: "addr \<Rightarrow> bool"
  rb_right :: "addr \<Rightarrow> addr"
  rb_left :: "addr \<Rightarrow> addr"
  rb_root :: addr

definition deref :: "addr \<Rightarrow> 'a result \<Rightarrow> 'a result" where "deref p m = (if p = 0 then Fault else m)"

definition set_left :: "addr \<Rightarrow> addr \<Rightarrow> rbs \<Rightarrow> rbs" where "set_left x v h = h\<lparr>rb_left := (rb_left h)(x := v)\<rparr>"

definition set_right :: "addr \<Rightarrow> addr \<Rightarrow> rbs \<Rightarrow> rbs" where "set_right x v h = h\<lparr>rb_right := (rb_right h)(x := v)\<rparr>"

definition set_root :: "addr \<Rightarrow> rbs \<Rightarrow> rbs" where "set_root x h = h\<lparr>rb_root := x\<rparr>"

definition rb_set_black :: "addr \<Rightarrow> rbs \<Rightarrow> rbs" where "rb_set_black x h = h\<lparr>rb_black := (rb_black h)(x := True)\<rparr>"

definition rb_set_parent :: "addr \<Rightarrow> addr \<Rightarrow> rbs \<Rightarrow> rbs" where "rb_set_parent x p h = h\<lparr>rb_parent := (rb_parent h)(x := p)\<rparr>"

text \<open>The colour \<^verbatim>\<open>RB_BLACK\<close> is \<open>True\<close>.\<close>

definition rb_set_parent_color :: "addr \<Rightarrow> addr \<Rightarrow> bool \<Rightarrow> rbs \<Rightarrow> rbs" where
  "rb_set_parent_color x p c h = h\<lparr>rb_parent := (rb_parent h)(x := p), rb_black := (rb_black h)(x := c)\<rparr>"

definition rb_is_red :: "addr \<Rightarrow> rbs \<Rightarrow> bool" where "rb_is_red x h \<longleftrightarrow> \<not> rb_black h x"

definition RB_EMPTY_ROOT :: "rbs \<Rightarrow> bool" where "RB_EMPTY_ROOT h \<longleftrightarrow> rb_root h = 0"

definition RB_EMPTY_NODE :: "addr \<Rightarrow> rbs \<Rightarrow> bool" where "RB_EMPTY_NODE x h \<longleftrightarrow> rb_parent h x = x \<and> \<not> rb_black h x"

definition RB_CLEAR_NODE :: "addr \<Rightarrow> rbs \<Rightarrow> rbs" where "RB_CLEAR_NODE x h = rb_set_parent_color x x False h"

text \<open>The link that \<^verbatim>\<open>rb_link_node\<close> writes through: the root or one of the children of the parent.\<close>

datatype rb_link = Root_link | Left_link | Right_link

definition rb_link_node :: "addr \<Rightarrow> addr \<Rightarrow> rb_link \<Rightarrow> rbs \<Rightarrow> rbs" where
  "rb_link_node node parent lk h =
     (let h1 = set_right node 0 (set_left node 0 (rb_set_parent_color node parent False h))
      in case lk of Root_link \<Rightarrow> set_root node h1 | Left_link \<Rightarrow> set_left parent node h1 | Right_link \<Rightarrow> set_right parent node h1)"

definition rb_change_child :: "addr \<Rightarrow> addr \<Rightarrow> addr \<Rightarrow> rbs \<Rightarrow> rbs" where
  "rb_change_child old new parent h =
     (if parent \<noteq> 0
      then if rb_left h parent = old then set_left parent new h else set_right parent new h
      else set_root new h)"

definition rb_rotate_set_parents :: "addr \<Rightarrow> addr \<Rightarrow> bool \<Rightarrow> rbs \<Rightarrow> rbs" where
  "rb_rotate_set_parents old new color h =
     (let parent = rb_parent h old
      in rb_change_child old new parent
           (rb_set_parent_color old new color (rb_set_parent_color new parent (rb_black h old) h)))"

definition set_if :: "addr \<Rightarrow> addr \<Rightarrow> rbs \<Rightarrow> rbs" where
  "set_if x p h = (if x \<noteq> 0 then rb_set_parent_color x p True h else h)"

section \<open>Insertion\<close>

text \<open>Case 1: the colours of the parent, the uncle and the grandparent are flipped, and the loop goes on at the grandparent.\<close>

definition insert_flip :: "addr \<Rightarrow> addr \<Rightarrow> addr \<Rightarrow> rbs \<Rightarrow> rbs" where
  "insert_flip tmp parent gparent h =
     (let h1 = rb_set_parent_color parent gparent True (rb_set_parent_color tmp gparent True h)
      in rb_set_parent_color gparent (rb_parent h1 gparent) False h1)"

text \<open>Case 2: a rotation at the parent; the results are the new parent and its inner child.\<close>

definition insert_inner_left :: "addr \<Rightarrow> addr \<Rightarrow> rbs \<Rightarrow> rbs \<times> addr \<times> addr" where
  "insert_inner_left node parent h =
     (if node = rb_right h parent
      then let tmp = rb_left h node;
               h1 = set_left node parent (set_right parent tmp h);
               h2 = rb_set_parent_color parent node False (set_if tmp parent h1)
           in (h2, node, rb_right h2 node)
      else (h, parent, rb_right h parent))"

definition insert_inner_right :: "addr \<Rightarrow> addr \<Rightarrow> rbs \<Rightarrow> rbs \<times> addr \<times> addr" where
  "insert_inner_right node parent h =
     (if node = rb_left h parent
      then let tmp = rb_right h node;
               h1 = set_right node parent (set_left parent tmp h);
               h2 = rb_set_parent_color parent node False (set_if tmp parent h1)
           in (h2, node, rb_left h2 node)
      else (h, parent, rb_left h parent))"

text \<open>Case 3: a rotation at the grandparent.\<close>

definition insert_outer_left :: "addr \<Rightarrow> rbs \<times> addr \<times> addr \<Rightarrow> rbs" where
  "insert_outer_left gparent = (\<lambda>(h, parent, tmp).
     rb_rotate_set_parents gparent parent False (set_if tmp gparent (set_right parent gparent (set_left gparent tmp h))))"

definition insert_outer_right :: "addr \<Rightarrow> rbs \<times> addr \<times> addr \<Rightarrow> rbs" where
  "insert_outer_right gparent = (\<lambda>(h, parent, tmp).
     rb_rotate_set_parents gparent parent False (set_if tmp gparent (set_left parent gparent (set_right gparent tmp h))))"

fun rb_insert :: "nat \<Rightarrow> addr \<Rightarrow> addr \<Rightarrow> rbs \<Rightarrow> rbs result" where
  "rb_insert 0 node parent h = Fault"
| "rb_insert (Suc n) node parent h =
     (if parent = 0 then Done (rb_set_parent_color node 0 True h)
      else if rb_black h parent then Done h
      else let gparent = rb_parent h parent
           in deref gparent
                (let tmp = rb_right h gparent
                 in if parent \<noteq> tmp
                    then if tmp \<noteq> 0 \<and> rb_is_red tmp h
                         then let h1 = insert_flip tmp parent gparent h in rb_insert n gparent (rb_parent h1 gparent) h1
                         else Done (insert_outer_left gparent (insert_inner_left node parent h))
                    else let tmp2 = rb_left h gparent
                         in if tmp2 \<noteq> 0 \<and> rb_is_red tmp2 h
                            then let h1 = insert_flip tmp2 parent gparent h in rb_insert n gparent (rb_parent h1 gparent) h1
                            else Done (insert_outer_right gparent (insert_inner_right node parent h))))"

definition rb_insert_color :: "nat \<Rightarrow> addr \<Rightarrow> rbs \<Rightarrow> rbs result" where
  "rb_insert_color n node h = rb_insert n node (rb_parent h node) h"

section \<open>Removal\<close>

text \<open>
  The rebalancing after a removal.  Case 1: the sibling is red, and a rotation at the parent gives a black one.
\<close>

definition erase_red_left :: "addr \<Rightarrow> addr \<Rightarrow> rbs \<Rightarrow> rbs" where
  "erase_red_left parent sibling h =
     (let tmp1 = rb_left h sibling
      in rb_rotate_set_parents parent sibling False
           (rb_set_parent_color tmp1 parent True (set_left sibling parent (set_right parent tmp1 h))))"

definition erase_red_right :: "addr \<Rightarrow> addr \<Rightarrow> rbs \<Rightarrow> rbs" where
  "erase_red_right parent sibling h =
     (let tmp1 = rb_right h sibling
      in rb_rotate_set_parents parent sibling False
           (rb_set_parent_color tmp1 parent True (set_right sibling parent (set_left parent tmp1 h))))"

text \<open>Case 2: a colour flip.  The results are the heap and where the loop goes on, if at all: the next node and its parent, or 0.\<close>

definition erase_flip :: "addr \<Rightarrow> addr \<Rightarrow> rbs \<Rightarrow> rbs \<times> addr \<times> addr" where
  "erase_flip parent sibling h =
     (let h1 = rb_set_parent_color sibling parent False h
      in if rb_is_red parent h1 then (rb_set_black parent h1, 0, 0)
         else (h1, parent, rb_parent h1 parent))"

text \<open>Case 3, a rotation at the sibling, and case 4, a rotation at the parent.\<close>

definition erase_inner_left :: "addr \<Rightarrow> addr \<Rightarrow> addr \<Rightarrow> rbs \<Rightarrow> rbs" where
  "erase_inner_left parent sibling tmp2 h =
     (let tmp1 = rb_right h tmp2
      in set_if tmp1 sibling (set_right parent tmp2 (set_right tmp2 sibling (set_left sibling tmp1 h))))"

definition erase_inner_right :: "addr \<Rightarrow> addr \<Rightarrow> addr \<Rightarrow> rbs \<Rightarrow> rbs" where
  "erase_inner_right parent sibling tmp2 h =
     (let tmp1 = rb_left h tmp2
      in set_if tmp1 sibling (set_left parent tmp2 (set_left tmp2 sibling (set_right sibling tmp1 h))))"

definition erase_outer_left :: "addr \<Rightarrow> addr \<Rightarrow> addr \<Rightarrow> rbs \<Rightarrow> rbs" where
  "erase_outer_left parent sibling tmp1 h =
     (let tmp2 = rb_left h sibling;
          h1 = rb_set_parent_color tmp1 sibling True (set_left sibling parent (set_right parent tmp2 h));
          h2 = (if tmp2 \<noteq> 0 then rb_set_parent tmp2 parent h1 else h1)
      in rb_rotate_set_parents parent sibling True h2)"

definition erase_outer_right :: "addr \<Rightarrow> addr \<Rightarrow> addr \<Rightarrow> rbs \<Rightarrow> rbs" where
  "erase_outer_right parent sibling tmp1 h =
     (let tmp2 = rb_right h sibling;
          h1 = rb_set_parent_color tmp1 sibling True (set_right sibling parent (set_left parent tmp2 h));
          h2 = (if tmp2 \<noteq> 0 then rb_set_parent tmp2 parent h1 else h1)
      in rb_rotate_set_parents parent sibling True h2)"

definition erase_black_left :: "addr \<Rightarrow> addr \<Rightarrow> rbs \<Rightarrow> rbs \<times> addr \<times> addr" where
  "erase_black_left parent sibling h =
     (let tmp1 = rb_right h sibling
      in if tmp1 = 0 \<or> rb_black h tmp1
         then let tmp2 = rb_left h sibling
              in if tmp2 = 0 \<or> rb_black h tmp2 then erase_flip parent sibling h
                 else (erase_outer_left parent tmp2 sibling (erase_inner_left parent sibling tmp2 h), 0, 0)
         else (erase_outer_left parent sibling tmp1 h, 0, 0))"

definition erase_black_right :: "addr \<Rightarrow> addr \<Rightarrow> rbs \<Rightarrow> rbs \<times> addr \<times> addr" where
  "erase_black_right parent sibling h =
     (let tmp1 = rb_left h sibling
      in if tmp1 = 0 \<or> rb_black h tmp1
         then let tmp2 = rb_right h sibling
              in if tmp2 = 0 \<or> rb_black h tmp2 then erase_flip parent sibling h
                 else (erase_outer_right parent tmp2 sibling (erase_inner_right parent sibling tmp2 h), 0, 0)
         else (erase_outer_right parent sibling tmp1 h, 0, 0))"

definition erase_step :: "addr \<Rightarrow> addr \<Rightarrow> rbs \<Rightarrow> (rbs \<times> addr \<times> addr) result" where
  "erase_step node parent h =
     (let sibling = rb_right h parent
      in if node \<noteq> sibling
         then deref sibling
                (if rb_is_red sibling h
                 then let tmp1 = rb_left h sibling
                      in deref tmp1 (Done (erase_black_left parent tmp1 (erase_red_left parent sibling h)))
                 else Done (erase_black_left parent sibling h))
         else let sibling = rb_left h parent
              in deref sibling
                   (if rb_is_red sibling h
                    then let tmp1 = rb_right h sibling
                         in deref tmp1 (Done (erase_black_right parent tmp1 (erase_red_right parent sibling h)))
                    else Done (erase_black_right parent sibling h)))"

fun rb_erase_color :: "nat \<Rightarrow> addr \<Rightarrow> addr \<Rightarrow> rbs \<Rightarrow> rbs result" where
  "rb_erase_color 0 node parent h = Fault"
| "rb_erase_color (Suc n) node parent h =
     bind_result (erase_step node parent h) (\<lambda>(h1, node1, parent1).
       if parent1 = 0 then Done h1 else rb_erase_color n node1 parent1 h1)"

text \<open>The search for the leftmost node below \<open>successor\<close>, whose left child is \<open>tmp\<close>, and for its parent.\<close>

fun erase_successor :: "nat \<Rightarrow> addr \<Rightarrow> addr \<Rightarrow> rbs \<Rightarrow> (addr \<times> addr) result" where
  "erase_successor 0 successor tmp h = Fault"
| "erase_successor (Suc n) successor tmp h =
     (let tmp1 = rb_left h tmp in if tmp1 \<noteq> 0 then erase_successor n tmp tmp1 h else Done (successor, tmp))"

text \<open>The removal of a node with two children, once its successor and the parent of that are known.  The result is where to rebalance.\<close>

definition erase_replace :: "addr \<Rightarrow> addr \<Rightarrow> addr \<Rightarrow> addr \<Rightarrow> rbs \<Rightarrow> rbs \<times> addr" where
  "erase_replace node successor parent child2 h =
     (let tmp = rb_left h node;
          h1 = rb_set_parent tmp successor (set_left successor tmp h);
          pc_parent = rb_parent h1 node; pc_black = rb_black h1 node;
          h2 = rb_change_child node successor pc_parent h1;
          pc2_black = rb_black h2 successor;
          h3 = rb_set_parent_color successor pc_parent pc_black h2
      in if child2 \<noteq> 0 then (rb_set_parent_color child2 parent True h3, 0)
         else (h3, if pc2_black then parent else 0))"

definition rb_erase_augmented :: "nat \<Rightarrow> addr \<Rightarrow> rbs \<Rightarrow> (rbs \<times> addr) result" where
  "rb_erase_augmented n node h =
     (let child = rb_right h node; tmp = rb_left h node; parent = rb_parent h node; pc_black = rb_black h node
      in if tmp = 0
         then let h1 = rb_change_child node child parent h
              in if child \<noteq> 0 then Done (rb_set_parent_color child parent pc_black h1, 0)
                 else Done (h1, if pc_black then parent else 0)
         else if child = 0
         then Done (rb_change_child node tmp parent (rb_set_parent_color tmp parent pc_black h), 0)
         else let tmp1 = rb_left h child
              in if tmp1 = 0 then Done (erase_replace node child child (rb_right h child) h)
                 else bind_result (erase_successor n child tmp1 h) (\<lambda>(parent1, successor).
                        let child2 = rb_right h successor;
                            h1 = rb_set_parent child successor (set_right successor child (set_left parent1 child2 h))
                        in Done (erase_replace node successor parent1 child2 h1)))"

definition rb_erase :: "nat \<Rightarrow> addr \<Rightarrow> rbs \<Rightarrow> rbs result" where
  "rb_erase n node h =
     bind_result (rb_erase_augmented n node h) (\<lambda>(h1, rebalance).
       if rebalance \<noteq> 0 then rb_erase_color n 0 rebalance h1 else Done h1)"

section \<open>Traversal\<close>

fun rb_leftmost :: "nat \<Rightarrow> addr \<Rightarrow> rbs \<Rightarrow> addr result" where
  "rb_leftmost 0 x h = Fault"
| "rb_leftmost (Suc n) x h = (if rb_left h x \<noteq> 0 then rb_leftmost n (rb_left h x) h else Done x)"

fun rb_rightmost :: "nat \<Rightarrow> addr \<Rightarrow> rbs \<Rightarrow> addr result" where
  "rb_rightmost 0 x h = Fault"
| "rb_rightmost (Suc n) x h = (if rb_right h x \<noteq> 0 then rb_rightmost n (rb_right h x) h else Done x)"

definition rb_first :: "nat \<Rightarrow> rbs \<Rightarrow> addr result" where
  "rb_first n h = (if rb_root h = 0 then Done 0 else rb_leftmost n (rb_root h) h)"

definition rb_last :: "nat \<Rightarrow> rbs \<Rightarrow> addr result" where
  "rb_last n h = (if rb_root h = 0 then Done 0 else rb_rightmost n (rb_root h) h)"

fun rb_climb_right :: "nat \<Rightarrow> addr \<Rightarrow> rbs \<Rightarrow> addr result" where
  "rb_climb_right 0 x h = Fault"
| "rb_climb_right (Suc n) x h =
     (let parent = rb_parent h x in if parent \<noteq> 0 \<and> x = rb_right h parent then rb_climb_right n parent h else Done parent)"

fun rb_climb_left :: "nat \<Rightarrow> addr \<Rightarrow> rbs \<Rightarrow> addr result" where
  "rb_climb_left 0 x h = Fault"
| "rb_climb_left (Suc n) x h =
     (let parent = rb_parent h x in if parent \<noteq> 0 \<and> x = rb_left h parent then rb_climb_left n parent h else Done parent)"

definition rb_next :: "nat \<Rightarrow> addr \<Rightarrow> rbs \<Rightarrow> addr result" where
  "rb_next n x h =
     (if RB_EMPTY_NODE x h then Done 0
      else if rb_right h x \<noteq> 0 then rb_leftmost n (rb_right h x) h
      else rb_climb_right n x h)"

definition rb_prev :: "nat \<Rightarrow> addr \<Rightarrow> rbs \<Rightarrow> addr result" where
  "rb_prev n x h =
     (if RB_EMPTY_NODE x h then Done 0
      else if rb_left h x \<noteq> 0 then rb_rightmost n (rb_left h x) h
      else rb_climb_left n x h)"

definition rb_replace_node :: "addr \<Rightarrow> addr \<Rightarrow> rbs \<Rightarrow> rbs" where
  "rb_replace_node victim new h =
     (let h1 = rb_change_child victim new (rb_parent h victim) h;
          h2 = (if rb_left h1 victim \<noteq> 0 then rb_set_parent (rb_left h1 victim) new h1 else h1);
          h3 = (if rb_right h2 victim \<noteq> 0 then rb_set_parent (rb_right h2 victim) new h2 else h2)
      in set_left new (rb_left h3 victim) (set_right new (rb_right h3 victim)
           (rb_set_parent_color new (rb_parent h3 victim) (rb_black h3 victim) h3)))"

fun rb_left_deepest_node :: "nat \<Rightarrow> addr \<Rightarrow> rbs \<Rightarrow> addr result" where
  "rb_left_deepest_node 0 x h = Fault"
| "rb_left_deepest_node (Suc n) x h =
     (if rb_left h x \<noteq> 0 then rb_left_deepest_node n (rb_left h x) h
      else if rb_right h x \<noteq> 0 then rb_left_deepest_node n (rb_right h x) h
      else Done x)"

definition rb_next_postorder :: "nat \<Rightarrow> addr \<Rightarrow> rbs \<Rightarrow> addr result" where
  "rb_next_postorder n x h =
     (if x = 0 then Done 0
      else let parent = rb_parent h x
           in if parent \<noteq> 0 \<and> x = rb_left h parent \<and> rb_right h parent \<noteq> 0
              then rb_left_deepest_node n (rb_right h parent) h
              else Done parent)"

definition rb_first_postorder :: "nat \<Rightarrow> rbs \<Rightarrow> addr result" where
  "rb_first_postorder n h = (if rb_root h = 0 then Done 0 else rb_left_deepest_node n (rb_root h) h)"

text \<open>The walks through a tree with these: in order, and in post-order as \<^verbatim>\<open>rbtree_postorder_for_each_entry_safe\<close> does.\<close>

fun rb_iterate :: "(addr \<Rightarrow> addr result) \<Rightarrow> nat \<Rightarrow> addr \<Rightarrow> addr list result" where
  "rb_iterate follow 0 x = Fault"
| "rb_iterate follow (Suc k) x =
     (if x = 0 then Done [] else bind_result (follow x) (\<lambda>y. bind_result (rb_iterate follow k y) (\<lambda>xs. Done (x # xs))))"

definition rb_walk :: "nat \<Rightarrow> rbs \<Rightarrow> addr list result" where
  "rb_walk n h = bind_result (rb_first n h) (rb_iterate (\<lambda>x. rb_next n x h) (Suc n))"

definition rbtree_postorder_for_each :: "nat \<Rightarrow> rbs \<Rightarrow> addr list result" where
  "rbtree_postorder_for_each n h = bind_result (rb_first_postorder n h) (rb_iterate (\<lambda>x. rb_next_postorder n x h) (Suc n))"

end
