(* ===== verification/RbtreeProps.thy ===== *)
theory RbtreeProps
  imports Rbtree
begin

text \<open>
  Correctness of the red-black trees.  A heap of nodes represents a tree (\<open>shape\<close>), and a node in it is given by its subtree and the
  frames from there to the root (\<open>ctx\<close>).  Insertion refines a function on trees and frames (\<open>ins_fix\<close>), which keeps the
  in-order sequence.
\<close>

section \<open>Trees and frames\<close>

datatype rbtree = Lf | Nd bool rbtree addr rbtree

text \<open>A frame is a node whose left (\<open>FL\<close>) or right (\<open>FR\<close>) child is missing.\<close>

datatype frame = FL bool addr rbtree | FR bool rbtree addr

fun nodes :: "rbtree \<Rightarrow> addr list" where
  "nodes Lf = []"
| "nodes (Nd c l a r) = nodes l @ a # nodes r"

fun fill :: "rbtree \<Rightarrow> frame \<Rightarrow> rbtree" where
  "fill t (FL c a r) = Nd c t a r"
| "fill t (FR c l a) = Nd c l a t"

fun plug :: "rbtree \<Rightarrow> frame list \<Rightarrow> rbtree" where
  "plug t [] = t"
| "plug t (f # fs) = plug (fill t f) fs"

fun before :: "frame list \<Rightarrow> addr list" where
  "before [] = []"
| "before (FL c a r # fs) = before fs"
| "before (FR c l a # fs) = before fs @ nodes l @ [a]"

fun after :: "frame list \<Rightarrow> addr list" where
  "after [] = []"
| "after (FL c a r # fs) = a # nodes r @ after fs"
| "after (FR c l a # fs) = after fs"

lemma nodes_plug [simp]: "nodes (plug t fs) = before fs @ nodes t @ after fs"
proof (induction fs arbitrary: t)
  case (Cons f fs) then show ?case by (cases f) auto
qed simp

fun blacken :: "rbtree \<Rightarrow> rbtree" where
  "blacken Lf = Lf"
| "blacken (Nd c l a r) = Nd True l a r"

fun is_blk :: "rbtree \<Rightarrow> bool" where
  "is_blk Lf = True"
| "is_blk (Nd c l a r) = c"

lemma nodes_blacken [simp]: "nodes (blacken t) = nodes t" by (cases t) auto

fun f_blk :: "frame \<Rightarrow> bool" where
  "f_blk (FL c a r) = c"
| "f_blk (FR c l a) = c"

section \<open>Representation\<close>

fun shape :: "rbs \<Rightarrow> addr \<Rightarrow> addr \<Rightarrow> rbtree \<Rightarrow> bool" where
  "shape h p x Lf \<longleftrightarrow> x = 0"
| "shape h p x (Nd c l a r) \<longleftrightarrow>
     x = a \<and> a \<noteq> 0 \<and> rb_parent h a = p \<and> rb_black h a = c \<and> shape h a (rb_left h a) l \<and> shape h a (rb_right h a) r"

fun ctx :: "rbs \<Rightarrow> addr \<Rightarrow> addr \<Rightarrow> frame list \<Rightarrow> bool" where
  "ctx h x p [] \<longleftrightarrow> p = 0 \<and> rb_root h = x"
| "ctx h x p (FL c a r # fs) \<longleftrightarrow>
     p = a \<and> a \<noteq> 0 \<and> rb_black h a = c \<and> rb_left h a = x \<and> shape h a (rb_right h a) r \<and> ctx h a (rb_parent h a) fs"
| "ctx h x p (FR c l a # fs) \<longleftrightarrow>
     p = a \<and> a \<noteq> 0 \<and> rb_black h a = c \<and> rb_right h a = x \<and> shape h a (rb_left h a) l \<and> ctx h a (rb_parent h a) fs"

definition rb_tree :: "rbs \<Rightarrow> rbtree \<Rightarrow> bool" where "rb_tree h t \<longleftrightarrow> shape h 0 (rb_root h) t \<and> distinct (nodes t)"

subsection \<open>Reading after writing\<close>

lemma rb_set_parent_eq: "rb_set_parent x p h = rb_set_parent_color x p (rb_black h x) h"
  by (simp add: rb_set_parent_def rb_set_parent_color_def)

lemma rb_set_black_eq: "rb_set_black x h = rb_set_parent_color x (rb_parent h x) True h"
  by (simp add: rb_set_black_def rb_set_parent_color_def)

lemma rb_read [simp]:
  "rb_left (set_left x v h) = (rb_left h)(x := v)" "rb_right (set_left x v h) = rb_right h" "rb_parent (set_left x v h) = rb_parent h"
  "rb_black (set_left x v h) = rb_black h" "rb_root (set_left x v h) = rb_root h"
  "rb_right (set_right x v h) = (rb_right h)(x := v)" "rb_left (set_right x v h) = rb_left h" "rb_parent (set_right x v h) = rb_parent h"
  "rb_black (set_right x v h) = rb_black h" "rb_root (set_right x v h) = rb_root h"
  "rb_left (set_root v h) = rb_left h" "rb_right (set_root v h) = rb_right h" "rb_parent (set_root v h) = rb_parent h"
  "rb_black (set_root v h) = rb_black h" "rb_root (set_root v h) = v"
  "rb_left (rb_set_parent_color x p c h) = rb_left h" "rb_right (rb_set_parent_color x p c h) = rb_right h"
  "rb_parent (rb_set_parent_color x p c h) = (rb_parent h)(x := p)" "rb_black (rb_set_parent_color x p c h) = (rb_black h)(x := c)"
  "rb_root (rb_set_parent_color x p c h) = rb_root h"
  by (simp_all add: set_left_def set_right_def set_root_def rb_set_parent_color_def)

text \<open>A part of the tree stays as it is when a node outside it is written.\<close>

lemma shape_frame [simp]:
  "x \<notin> set (nodes t) \<Longrightarrow> shape (set_left x v h) p y t = shape h p y t"
  "x \<notin> set (nodes t) \<Longrightarrow> shape (set_right x v h) p y t = shape h p y t"
  "x \<notin> set (nodes t) \<Longrightarrow> shape (rb_set_parent_color x q c h) p y t = shape h p y t"
  "shape (set_root v h) p y t = shape h p y t"
  by (induction t arbitrary: p y) auto

fun cnodes :: "frame list \<Rightarrow> addr list" where
  "cnodes [] = []"
| "cnodes (FL c a r # fs) = a # nodes r @ cnodes fs"
| "cnodes (FR c l a # fs) = nodes l @ a # cnodes fs"

lemma set_cnodes: "set (before fs) \<union> set (after fs) = set (cnodes fs)"
  by (induction fs rule: cnodes.induct) auto

lemma distinct_plug: "distinct (nodes (plug t fs)) \<longleftrightarrow> distinct (nodes t) \<and> distinct (cnodes fs) \<and> set (nodes t) \<inter> set (cnodes fs) = {}"
proof -
  have "distinct (before fs @ after fs) = distinct (cnodes fs)"
    by (induction fs rule: cnodes.induct) (auto simp flip: set_cnodes)
  then show ?thesis by (auto simp flip: set_cnodes)
qed

lemma ctx_frame [simp]:
  "x \<notin> set (cnodes fs) \<Longrightarrow> ctx (set_left x v h) y p fs = ctx h y p fs"
  "x \<notin> set (cnodes fs) \<Longrightarrow> ctx (set_right x v h) y p fs = ctx h y p fs"
  "x \<notin> set (cnodes fs) \<Longrightarrow> ctx (rb_set_parent_color x q c h) y p fs = ctx h y p fs"
  by (induction fs arbitrary: y p rule: cnodes.induct) auto

lemma shape_plug: "shape h p x t \<Longrightarrow> ctx h x p fs \<Longrightarrow> shape h 0 (rb_root h) (plug t fs)"
proof (induction fs arbitrary: t x p)
  case (Cons f fs) then show ?case by (cases f) auto
qed simp

lemma plug_shape: "shape h 0 (rb_root h) (plug t fs) \<Longrightarrow> \<exists>x p. shape h p x t \<and> ctx h x p fs"
proof (induction fs arbitrary: t)
  case (Cons f fs)
  obtain x p where "shape h p x (fill t f)" "ctx h x p fs" using Cons.IH [of "fill t f"] Cons.prems by auto
  then show ?case by (cases f) auto
qed auto

lemma rb_tree_plug: "shape h p x t \<Longrightarrow> ctx h x p fs \<Longrightarrow> distinct (nodes (plug t fs)) \<Longrightarrow> rb_tree h (plug t fs)"
  using shape_plug by (auto simp: rb_tree_def simp del: nodes_plug)

lemma shape_0: "shape h p 0 t \<longleftrightarrow> t = Lf" by (cases t) auto

lemma shape_nz: "shape h p x t \<Longrightarrow> x \<noteq> 0 \<Longrightarrow> \<exists>l r. t = Nd (rb_black h x) l x r" by (cases t) auto

lemma shape_in: "shape h p x t \<Longrightarrow> x \<noteq> 0 \<Longrightarrow> x \<in> set (nodes t)" by (cases t) auto

lemma shape_notin: "shape h p x t \<Longrightarrow> y \<noteq> 0 \<Longrightarrow> y \<notin> set (nodes t) \<Longrightarrow> x \<noteq> y" by (cases t) auto

lemma shape_nonzero: "shape h p x t \<Longrightarrow> 0 \<notin> set (nodes t)"
  by (induction t arbitrary: p x) auto

subsection \<open>Exchanging a child\<close>

lemma change_child_ctx:
  assumes "ctx h x p fs" "x \<noteq> 0" "x \<notin> set (cnodes fs)" "distinct (cnodes fs)"
  shows "ctx (rb_change_child x y p h) y p fs"
  using assms
proof (cases fs)
  case (Cons f gs)
  then show ?thesis using assms by (cases f) (auto simp: rb_change_child_def dest: shape_notin)
qed (auto simp: rb_change_child_def)

lemma change_child_shape: "p \<notin> set (nodes t) \<Longrightarrow> shape (rb_change_child x y p h) q z t = shape h q z t"
  by (simp add: rb_change_child_def)

lemma ctx_parent_notin: "ctx h x p fs \<Longrightarrow> set ns \<inter> set (cnodes fs) = {} \<Longrightarrow> 0 \<notin> set ns \<Longrightarrow> p \<notin> set ns"
  by (induction fs rule: cnodes.induct) auto

lemma change_child_read [simp]:
  "rb_parent (rb_change_child x y p h) = rb_parent h" "rb_black (rb_change_child x y p h) = rb_black h"
  "z \<noteq> p \<Longrightarrow> rb_left (rb_change_child x y p h) z = rb_left h z" "z \<noteq> p \<Longrightarrow> rb_right (rb_change_child x y p h) z = rb_right h z"
  by (simp_all add: rb_change_child_def)

section \<open>Insertion\<close>

subsection \<open>On trees\<close>

text \<open>A red tree \<open>t\<close> in its frames is made good: the reference for \<open>rb_insert\<close>.\<close>

fun rot_left :: "rbtree \<Rightarrow> frame \<Rightarrow> bool \<Rightarrow> addr \<Rightarrow> rbtree \<Rightarrow> rbtree" where
  "rot_left t (FL _ p s) gc g u = Nd gc t p (Nd False (blacken s) g u)"
| "rot_left (Nd _ l n r) (FR _ s p) gc g u = Nd gc (Nd False s p (blacken l)) n (Nd False (blacken r) g u)"
| "rot_left Lf f gc g u = Lf"

fun rot_right :: "rbtree \<Rightarrow> frame \<Rightarrow> bool \<Rightarrow> rbtree \<Rightarrow> addr \<Rightarrow> rbtree" where
  "rot_right t (FR _ s p) gc u g = Nd gc (Nd False u g (blacken s)) p t"
| "rot_right (Nd _ l n r) (FL _ p s) gc u g = Nd gc (Nd False u g (blacken l)) n (Nd False (blacken r) p s)"
| "rot_right Lf f gc u g = Lf"

fun ins_fix :: "rbtree \<Rightarrow> frame list \<Rightarrow> rbtree" where
  "ins_fix t [] = blacken t"
| "ins_fix t [f] = fill t f"
| "ins_fix t (f # FL gc g u # fs) =
     (if f_blk f then plug t (f # FL gc g u # fs)
      else if is_blk u then plug (rot_left t f gc g u) fs
      else ins_fix (Nd False (blacken (fill t f)) g (blacken u)) fs)"
| "ins_fix t (f # FR gc u g # fs) =
     (if f_blk f then plug t (f # FR gc u g # fs)
      else if is_blk u then plug (rot_right t f gc u g) fs
      else ins_fix (Nd False (blacken u) g (blacken (fill t f))) fs)"

fun is_nd :: "rbtree \<Rightarrow> bool" where
  "is_nd Lf = False"
| "is_nd (Nd c l a r) = True"

lemma rot_left_nodes: "is_nd t \<Longrightarrow> nodes (rot_left t f gc g u) = nodes (fill t f) @ g # nodes u"
  by (cases "(t, f, gc, g, u)" rule: rot_left.cases) auto

lemma rot_right_nodes: "is_nd t \<Longrightarrow> nodes (rot_right t f gc u g) = nodes u @ g # nodes (fill t f)"
  by (cases "(t, f, gc, u, g)" rule: rot_right.cases) auto

lemma nodes_ins_fix: "is_nd t \<Longrightarrow> nodes (ins_fix t fs) = nodes (plug t fs)"
proof (induction t fs rule: ins_fix.induct)
  case (3 t f gc g u fs)
  then show ?case by (cases f) (auto simp: rot_left_nodes)
next
  case (4 t f gc u g fs)
  then show ?case by (cases f) (auto simp: rot_right_nodes)
next
  case (2 t f) then show ?case by (cases f) auto
qed auto

subsection \<open>On the heap\<close>

text \<open>The root is black.\<close>

definition rooted :: "frame list \<Rightarrow> bool" where "rooted fs \<longleftrightarrow> (fs \<noteq> [] \<longrightarrow> f_blk (last fs))"

lemma rooted_tl: "rooted (f # fs) \<Longrightarrow> rooted fs" by (auto simp: rooted_def)

text \<open>A rotation moves the subtree at \<open>old\<close> to \<open>new\<close> and leaves the frames and the other subtrees as they are.\<close>

lemma rotate_ctx:
  assumes "rb_parent h old = q" "ctx h old q fs" "old \<noteq> 0" "old \<notin> set (cnodes fs)" "new \<notin> set (cnodes fs)" "distinct (cnodes fs)"
  shows "ctx (rb_rotate_set_parents old new c h) new q fs"
  using assms by (auto simp: rb_rotate_set_parents_def Let_def intro!: change_child_ctx)

lemma rotate_shape:
  "old \<notin> set (nodes t) \<Longrightarrow> new \<notin> set (nodes t) \<Longrightarrow> rb_parent h old \<notin> set (nodes t)
   \<Longrightarrow> shape (rb_rotate_set_parents old new c h) q z t = shape h q z t"
  by (simp add: rb_rotate_set_parents_def Let_def change_child_shape)

lemma rotate_read:
  "old \<noteq> new \<Longrightarrow> rb_parent (rb_rotate_set_parents old new c h) = (rb_parent h)(new := rb_parent h old, old := new)"
  "old \<noteq> new \<Longrightarrow> rb_black (rb_rotate_set_parents old new c h) = (rb_black h)(new := rb_black h old, old := c)"
  "z \<noteq> rb_parent h old \<Longrightarrow> rb_left (rb_rotate_set_parents old new c h) z = rb_left h z"
  "z \<noteq> rb_parent h old \<Longrightarrow> rb_right (rb_rotate_set_parents old new c h) z = rb_right h z"
  by (simp_all add: rb_rotate_set_parents_def Let_def fun_upd_twist)

text \<open>A subtree with its frames.\<close>

definition at :: "rbs \<Rightarrow> addr \<Rightarrow> addr \<Rightarrow> rbtree \<Rightarrow> frame list \<Rightarrow> bool" where
  "at h q x t fs \<longleftrightarrow> shape h q x t \<and> ctx h x q fs \<and> distinct (nodes t @ cnodes fs)"

lemma at_parent: "at h q x t fs \<Longrightarrow> q \<notin> set (nodes t)"
  using ctx_parent_notin shape_nonzero by (auto simp: at_def)

lemma at_tree: "at h q x t fs \<Longrightarrow> rb_tree h (plug t fs)"
  by (auto simp: at_def rb_tree_def distinct_plug shape_plug simp del: nodes_plug)

lemma tree_at: "rb_tree h (plug t fs) \<Longrightarrow> \<exists>x q. at h q x t fs"
  using plug_shape by (fastforce simp: at_def rb_tree_def distinct_plug simp del: nodes_plug)

lemma at_fill: "at h p x t (f # fs) \<Longrightarrow> at h (rb_parent h p) p (fill t f) fs"
  by (cases f) (auto simp: at_def)

lemma at_unfill: "at h q p (fill t f) fs \<Longrightarrow> \<exists>x. at h p x t (f # fs)"
  by (cases f) (auto simp: at_def)

lemmas at_simps = at_def set_if_def Let_def rotate_shape rotate_read rotate_ctx

lemma insert_left_outer:
  assumes a: "at h q g (Nd gc (Nd False t p s) g u) fs" and t: "is_nd t"
  shows "at (insert_outer_left g (insert_inner_left (rb_left h p) p h)) q p (Nd gc t p (Nd False (blacken s) g u)) fs"
proof -
  have "rb_left h p \<noteq> rb_right h p" using a t by (cases t; cases s) (simp_all add: at_def)
  then show ?thesis using a at_parent [OF a]
    by (cases s; simp add: at_def; elim conjE; simp add: insert_outer_left_def insert_inner_left_def at_simps)
qed

lemma insert_right_outer:
  assumes a: "at h q g (Nd gc u g (Nd False s p t)) fs" and t: "is_nd t"
  shows "at (insert_outer_right g (insert_inner_right (rb_right h p) p h)) q p (Nd gc (Nd False u g (blacken s)) p t) fs"
proof -
  have "rb_right h p \<noteq> rb_left h p" using a t by (cases t; cases s) (simp_all add: at_def)
  then show ?thesis using a at_parent [OF a]
    by (cases s; simp add: at_def; elim conjE; simp add: insert_outer_right_def insert_inner_right_def at_simps)
qed

lemma insert_left_inner:
  assumes a: "at h q g (Nd gc (Nd False s p (Nd False l n r)) g u) fs"
  shows "at (insert_outer_left g (insert_inner_left n p h)) q n (Nd gc (Nd False s p (blacken l)) n (Nd False (blacken r) g u)) fs"
  using a at_parent [OF a]
  by (cases l; cases r; simp add: at_def; elim conjE; simp add: insert_outer_left_def insert_inner_left_def at_simps)

lemma insert_right_inner:
  assumes a: "at h q g (Nd gc u g (Nd False (Nd False l n r) p s)) fs"
  shows "at (insert_outer_right g (insert_inner_right n p h)) q n (Nd gc (Nd False u g (blacken l)) n (Nd False (blacken r) p s)) fs"
  using a at_parent [OF a]
  by (cases l; cases r; simp add: at_def; elim conjE; simp add: insert_outer_right_def insert_inner_right_def at_simps)

lemma insert_flip_left:
  assumes a: "at h q g (Nd gc (Nd pc l p r) g (Nd uc ul u ur)) fs"
  shows "at (insert_flip u p g h) q g (Nd False (Nd True l p r) g (Nd True ul u ur)) fs"
  using a at_parent [OF a] by (simp add: at_def; elim conjE; simp add: insert_flip_def at_simps)

lemma insert_flip_right:
  assumes a: "at h q g (Nd gc (Nd uc ul u ur) g (Nd pc l p r)) fs"
  shows "at (insert_flip u p g h) q g (Nd False (Nd True ul u ur) g (Nd True l p r)) fs"
  using a at_parent [OF a] by (simp add: at_def; elim conjE; simp add: insert_flip_def at_simps)

lemma at_colour: "at h p x t (f # fs) \<Longrightarrow> p \<noteq> 0 \<and> rb_black h p = f_blk f"
  by (cases f) (auto simp: at_def)

lemma shape_blk: "shape h p x t \<Longrightarrow> is_blk t \<longleftrightarrow> x = 0 \<or> rb_black h x"
  by (cases t) auto

lemma at_left_facts:
  assumes "at h p x t (f # FL gc g u # fs)"
  shows "rb_parent h p = g" "g \<noteq> 0" "p \<noteq> rb_right h g" "rb_right h g = 0 \<or> rb_black h (rb_right h g) \<longleftrightarrow> is_blk u"
    "at h (rb_parent h g) g (Nd gc (fill t f) g u) fs"
proof -
  have a: "at h (rb_parent h p) p (fill t f) (FL gc g u # fs)" using at_fill [OF assms] .
  then show g: "rb_parent h p = g" "g \<noteq> 0" by (auto simp: at_def)
  show b: "at h (rb_parent h g) g (Nd gc (fill t f) g u) fs" using at_fill [OF a] g by simp
  have u: "shape h g (rb_right h g) u" using b by (simp add: at_def)
  show "rb_right h g = 0 \<or> rb_black h (rb_right h g) \<longleftrightarrow> is_blk u" using shape_blk [OF u] by simp
  have "p \<noteq> 0" using at_colour [OF assms] by simp
  moreover from this have "p \<in> set (nodes (fill t f))" using a shape_in [of h "rb_parent h p" p "fill t f"] unfolding at_def by blast
  then have "p \<notin> set (nodes u)" using a by (auto simp: at_def)
  ultimately show "p \<noteq> rb_right h g" using shape_notin [OF u] by auto
qed

lemma at_right_facts:
  assumes "at h p x t (f # FR gc u g # fs)"
  shows "rb_parent h p = g" "g \<noteq> 0" "p = rb_right h g" "rb_left h g = 0 \<or> rb_black h (rb_left h g) \<longleftrightarrow> is_blk u"
    "at h (rb_parent h g) g (Nd gc u g (fill t f)) fs"
proof -
  have a: "at h (rb_parent h p) p (fill t f) (FR gc u g # fs)" using at_fill [OF assms] .
  then show g: "rb_parent h p = g" "g \<noteq> 0" "p = rb_right h g" by (auto simp: at_def)
  show b: "at h (rb_parent h g) g (Nd gc u g (fill t f)) fs" using at_fill [OF a] g by simp
  have u: "shape h g (rb_left h g) u" using b by (simp add: at_def)
  show "rb_left h g = 0 \<or> rb_black h (rb_left h g) \<longleftrightarrow> is_blk u" using shape_blk [OF u] by simp
qed

lemma insert_rot_left:
  assumes a: "at h p x (Nd False l x r) (f # FL gc g u # fs)" and f: "\<not> f_blk f"
  shows "\<exists>y. at (insert_outer_left g (insert_inner_left x p h)) (rb_parent h g) y (rot_left (Nd False l x r) f gc g u) fs"
proof (cases f)
  case (FL c q s)
  then have "q = p" "rb_left h p = x" "\<not> c" using a f by (auto simp: at_def)
  then show ?thesis using insert_left_outer [of h "rb_parent h g" g gc "Nd False l x r" p s u fs] at_left_facts(5) [OF a] FL by auto
next
  case (FR c s q)
  then have "q = p" "\<not> c" using a f by (auto simp: at_def)
  then show ?thesis using insert_left_inner [of h "rb_parent h g" g gc s p l x r u fs] at_left_facts(5) [OF a] FR by auto
qed

lemma insert_rot_right:
  assumes a: "at h p x (Nd False l x r) (f # FR gc u g # fs)" and f: "\<not> f_blk f"
  shows "\<exists>y. at (insert_outer_right g (insert_inner_right x p h)) (rb_parent h g) y (rot_right (Nd False l x r) f gc u g) fs"
proof (cases f)
  case (FR c s q)
  then have "q = p" "rb_right h p = x" "\<not> c" using a f by (auto simp: at_def)
  then show ?thesis using insert_right_outer [of h "rb_parent h g" g gc u s p "Nd False l x r" fs] at_right_facts(5) [OF a] FR by auto
next
  case (FL c q s)
  then have "q = p" "\<not> c" using a f by (auto simp: at_def)
  then show ?thesis using insert_right_inner [of h "rb_parent h g" g gc u l x r p s fs] at_right_facts(5) [OF a] FL by auto
qed

lemma fill_nd: "\<exists>l r. fill t f = Nd (f_blk f) l (case f of FL c a r \<Rightarrow> a | FR c l a \<Rightarrow> a) r"
  by (cases f) auto

lemma at_fill_nd: "at h p x t (f # fs) \<Longrightarrow> \<exists>l r. fill t f = Nd (f_blk f) l p r"
  by (cases f) (auto simp: at_def)

lemma at_flip_left:
  assumes a: "at h p x t (f # FL gc g u # fs)" and u: "\<not> is_blk u"
  shows "at (insert_flip (rb_right h g) p g h) (rb_parent h g) g (Nd False (blacken (fill t f)) g (blacken u)) fs"
proof -
  obtain l r where t: "fill t f = Nd (f_blk f) l p r" using at_fill_nd [OF a] by blast
  have b: "at h (rb_parent h g) g (Nd gc (fill t f) g u) fs" using at_left_facts(5) [OF a] .
  then obtain ul ur where "u = Nd False ul (rb_right h g) ur" using u by (cases u) (auto simp: at_def)
  then show ?thesis using insert_flip_left [of h "rb_parent h g" g gc "f_blk f" l p r False ul "rb_right h g" ur fs] b t by simp
qed

lemma at_flip_right:
  assumes a: "at h p x t (f # FR gc u g # fs)" and u: "\<not> is_blk u"
  shows "at (insert_flip (rb_left h g) p g h) (rb_parent h g) g (Nd False (blacken u) g (blacken (fill t f))) fs"
proof -
  obtain l r where t: "fill t f = Nd (f_blk f) l p r" using at_fill_nd [OF a] by blast
  have b: "at h (rb_parent h g) g (Nd gc u g (fill t f)) fs" using at_right_facts(5) [OF a] .
  then obtain ul ur where "u = Nd False ul (rb_left h g) ur" using u by (cases u) (auto simp: at_def)
  then show ?thesis using insert_flip_right [of h "rb_parent h g" g gc False ul "rb_left h g" ur "f_blk f" l p r fs] b t by simp
qed

lemma rb_insert_ok:
  assumes "at h p x t fs" "t = Nd False l x r" "rooted fs" "length fs < 2 * n"
  shows "\<exists>h'. rb_insert n x p h = Done h' \<and> rb_tree h' (ins_fix t fs)"
  using assms
proof (induction t fs arbitrary: h p x l r n rule: ins_fix.induct)
  case (1 t)
  then obtain m where n: "n = Suc m" by (cases n) auto
  have "p = 0" "rb_tree (rb_set_parent_color x 0 True h) (blacken t)" using 1 by (auto simp: at_def rb_tree_def)
  then show ?case by (simp add: n)
next
  case (2 t f)
  then obtain m where n: "n = Suc m" by (cases n) auto
  have "p \<noteq> 0 \<and> rb_black h p" using at_colour [OF 2(1)] 2(3) by (simp add: rooted_def)
  then show ?case using at_tree [OF 2(1)] by (simp add: n)
next
  case (3 t f gc g u fs)
  then obtain m where n: "n = Suc m" by (cases n) auto
  note F = at_left_facts [OF 3(2)] at_colour [OF 3(2)]
  show ?case
  proof (cases "f_blk f")
    case True then show ?thesis using F(6) at_tree [OF 3(2)] by (simp add: n)
  next
    case f: False
    show ?thesis
    proof (cases "is_blk u")
      case True
      have "rb_insert n x p h = Done (insert_outer_left g (insert_inner_left x p h))"
        using F f True by (auto simp: n deref_def rb_is_red_def Let_def)
      then show ?thesis using insert_rot_left [of h p x l r f gc g u fs] 3(2,3) f True at_tree by auto
    next
      case False
      let ?h = "insert_flip (rb_right h g) p g h"
      have a: "at ?h (rb_parent h g) g (Nd False (blacken (fill t f)) g (blacken u)) fs" using at_flip_left [OF 3(2) False] .
      then have "rb_insert n x p h = rb_insert m g (rb_parent h g) ?h"
        using F f False by (auto simp: n deref_def rb_is_red_def Let_def at_def)
      moreover have "\<exists>h'. rb_insert m g (rb_parent h g) ?h = Done h' \<and> rb_tree h' (ins_fix (Nd False (blacken (fill t f)) g (blacken u)) fs)"
        using 3(1) [OF f False a refl rooted_tl [OF rooted_tl [OF 3(4)]], of m] 3(5) n by simp
      ultimately show ?thesis using f False by simp
    qed
  qed
next
  case (4 t f gc u g fs)
  then obtain m where n: "n = Suc m" by (cases n) auto
  note F = at_right_facts [OF 4(2)] at_colour [OF 4(2)]
  show ?case
  proof (cases "f_blk f")
    case True then show ?thesis using F(6) at_tree [OF 4(2)] by (simp add: n)
  next
    case f: False
    show ?thesis
    proof (cases "is_blk u")
      case True
      have "rb_insert n x p h = Done (insert_outer_right g (insert_inner_right x p h))"
        using F f True by (auto simp: n deref_def rb_is_red_def Let_def)
      then show ?thesis using insert_rot_right [of h p x l r f gc u g fs] 4(2,3) f True at_tree by auto
    next
      case False
      let ?h = "insert_flip (rb_left h g) p g h"
      have a: "at ?h (rb_parent h g) g (Nd False (blacken u) g (blacken (fill t f))) fs" using at_flip_right [OF 4(2) False] .
      then have "rb_insert n x p h = rb_insert m g (rb_parent h g) ?h"
        using F f False by (auto simp: n deref_def rb_is_red_def Let_def at_def)
      moreover have "\<exists>h'. rb_insert m g (rb_parent h g) ?h = Done h' \<and> rb_tree h' (ins_fix (Nd False (blacken u) g (blacken (fill t f))) fs)"
        using 4(1) [OF f False a refl rooted_tl [OF rooted_tl [OF 4(4)]], of m] 4(5) n by simp
      ultimately show ?thesis using f False by simp
    qed
  qed
qed

end
