(* ===== verification/RbtreeErase.thy ===== *)
theory RbtreeErase
  imports RbtreeProps
begin

text \<open>
  Removal from a red-black tree: the rebalancing of \<^verbatim>\<open>____rb_erase_color\<close> refines \<open>del_fix\<close>, and \<^verbatim>\<open>rb_erase\<close> takes one node out of the
  in-order sequence.
\<close>

section \<open>Removal\<close>

subsection \<open>On trees\<close>

text \<open>
  A tree \<open>t\<close> that lacks a black node on every path is repaired with its sibling \<open>s\<close> and the parent \<open>p\<close>, whose colour is \<open>c\<close>: the result
  is good (\<open>Inl\<close>) or the same lack one level up (\<open>Inr\<close>).
\<close>

fun sib_left :: "rbtree \<Rightarrow> bool \<Rightarrow> addr \<Rightarrow> rbtree \<Rightarrow> rbtree + rbtree" where
  "sib_left t c p Lf = Inl Lf"
| "sib_left t c p (Nd sc sl s sr) =
     (if is_blk sr
      then case sl of
             Nd False sll y slr \<Rightarrow> Inl (Nd c (Nd True t p sll) y (Nd True (blacken slr) s sr))
           | _ \<Rightarrow> if c then Inr (Nd True t p (Nd False sl s sr)) else Inl (Nd True t p (Nd False sl s sr))
      else Inl (Nd c (Nd True t p sl) s (blacken sr)))"

fun sib_right :: "rbtree \<Rightarrow> bool \<Rightarrow> addr \<Rightarrow> rbtree \<Rightarrow> rbtree + rbtree" where
  "sib_right t c p Lf = Inl Lf"
| "sib_right t c p (Nd sc sl s sr) =
     (if is_blk sl
      then case sr of
             Nd False srl y srr \<Rightarrow> Inl (Nd c (Nd True sl s (blacken srl)) y (Nd True srr p t))
           | _ \<Rightarrow> if c then Inr (Nd True (Nd False sl s sr) p t) else Inl (Nd True (Nd False sl s sr) p t)
      else Inl (Nd c (blacken sl) s (Nd True sr p t)))"

text \<open>A red sibling is first turned into a black one.\<close>

fun del_fix :: "rbtree \<Rightarrow> frame list \<Rightarrow> rbtree" where
  "del_fix t [] = t"
| "del_fix t (FL c p (Nd False sl s sr) # fs) = plug (case sib_left t False p (blacken sl) of Inl u \<Rightarrow> u | Inr u \<Rightarrow> u) (FL c s sr # fs)"
| "del_fix t (FL c p u # fs) = (case sib_left t c p u of Inl v \<Rightarrow> plug v fs | Inr v \<Rightarrow> del_fix v fs)"
| "del_fix t (FR c (Nd False sl s sr) p # fs) = plug (case sib_right t False p (blacken sr) of Inl u \<Rightarrow> u | Inr u \<Rightarrow> u) (FR c sl s # fs)"
| "del_fix t (FR c u p # fs) = (case sib_right t c p u of Inl v \<Rightarrow> plug v fs | Inr v \<Rightarrow> del_fix v fs)"

definition the_tree :: "rbtree + rbtree \<Rightarrow> rbtree" where "the_tree = (\<lambda>s. case s of Inl u \<Rightarrow> u | Inr u \<Rightarrow> u)"

lemma the_tree_simps [simp]: "the_tree (Inl u) = u" "the_tree (Inr u) = u" by (simp_all add: the_tree_def)

lemma nodes_sib_left: "is_nd s \<Longrightarrow> nodes (the_tree (sib_left t c p s)) = nodes t @ p # nodes s"
  by (cases s) (auto split: rbtree.splits bool.splits)

lemma nodes_sib_right: "is_nd s \<Longrightarrow> nodes (the_tree (sib_right t c p s)) = nodes s @ p # nodes t"
  by (cases s) (auto split: rbtree.splits bool.splits)

subsection \<open>On the heap\<close>

lemma at_down:
  "at h q a (fill (Nd c l x r) f) fs \<Longrightarrow> at h a x (Nd c l x r) (f # fs)"
  by (cases f) (auto simp: at_def)

lemma erase_red_left_ok:
  assumes a: "at h q p (Nd c t p (Nd False (Nd yc sl y sr) s u)) fs"
  shows "at (erase_red_left p s h) s p (Nd False t p (Nd True sl y sr)) (FL c s u # fs)"
proof -
  have "at (erase_red_left p s h) q s (Nd c (Nd False t p (Nd True sl y sr)) s u) fs" using a at_parent [OF a]
    by (simp add: at_def; elim conjE; simp add: erase_red_left_def at_simps)
  then show ?thesis by (intro at_down) simp
qed

lemma erase_red_right_ok:
  assumes a: "at h q p (Nd c (Nd False u s (Nd yc sl y sr)) p t) fs"
  shows "at (erase_red_right p s h) s p (Nd False (Nd True sl y sr) p t) (FR c u s # fs)"
proof -
  have "at (erase_red_right p s h) q s (Nd c u s (Nd False (Nd True sl y sr) p t)) fs" using a at_parent [OF a]
    by (simp add: at_def; elim conjE; simp add: erase_red_right_def at_simps)
  then show ?thesis by (intro at_down) simp
qed

lemma erase_flip_left_ok:
  assumes a: "at h q p (Nd c t p (Nd sc sl s sr)) fs"
  shows "at (fst (erase_flip p s h)) q p (Nd True t p (Nd False sl s sr)) fs" "snd (erase_flip p s h) = (if c then (p, q) else (0, 0))"
  using a at_parent [OF a]
  by (simp add: at_def; elim conjE; simp add: erase_flip_def rb_is_red_def rb_set_black_eq at_simps)+

lemma erase_flip_right_ok:
  assumes a: "at h q p (Nd c (Nd sc sl s sr) p t) fs"
  shows "at (fst (erase_flip p s h)) q p (Nd True (Nd False sl s sr) p t) fs" "snd (erase_flip p s h) = (if c then (p, q) else (0, 0))"
  using a at_parent [OF a]
  by (simp add: at_def; elim conjE; simp add: erase_flip_def rb_is_red_def rb_set_black_eq at_simps)+

lemma erase_outer_left_ok:
  assumes a: "at h q p (Nd c t p (Nd sc sl s (Nd rc rl r rr))) fs"
  shows "at (erase_outer_left p s r h) q s (Nd c (Nd True t p sl) s (Nd True rl r rr)) fs"
  using a at_parent [OF a]
  by (cases sl; simp add: at_def; elim conjE; simp add: erase_outer_left_def rb_set_parent_eq at_simps)

lemma erase_outer_right_ok:
  assumes a: "at h q p (Nd c (Nd sc (Nd rc rl r rr) s sr) p t) fs"
  shows "at (erase_outer_right p s r h) q s (Nd c (Nd True rl r rr) s (Nd True sr p t)) fs"
  using a at_parent [OF a]
  by (cases sr; simp add: at_def; elim conjE; simp add: erase_outer_right_def rb_set_parent_eq at_simps)

lemma erase_inner_left_ok:
  assumes a: "at h q p (Nd c t p (Nd sc (Nd yc sl y sr) s u)) fs"
  shows "at (erase_outer_left p y s (erase_inner_left p s y h)) q y (Nd c (Nd True t p sl) y (Nd True (blacken sr) s u)) fs"
  using a at_parent [OF a]
  by (cases sl; cases sr; simp add: at_def; elim conjE; simp add: erase_outer_left_def erase_inner_left_def rb_set_parent_eq at_simps)

lemma erase_inner_right_ok:
  assumes a: "at h q p (Nd c (Nd sc u s (Nd yc sl y sr)) p t) fs"
  shows "at (erase_outer_right p y s (erase_inner_right p s y h)) q y (Nd c (Nd True u s (blacken sl)) y (Nd True sr p t)) fs"
  using a at_parent [OF a]
  by (cases sl; cases sr; simp add: at_def; elim conjE; simp add: erase_outer_right_def erase_inner_right_def rb_set_parent_eq at_simps)

end
