(* ===== verification/RbtreeTop.thy ===== *)
theory RbtreeTop
  imports RbtreeErase
begin

text \<open>
  The rebalancing loop after a removal, and the removal itself.
\<close>

section \<open>The rebalancing loop\<close>

lemma sib_left_flip: "is_blk sr \<Longrightarrow> is_blk sl \<Longrightarrow> sib_left t c p (Nd sc sl s sr) = (if c then Inr else Inl) (Nd True t p (Nd False sl s sr))"
  by (cases sl) auto

lemma sib_right_flip: "is_blk sr \<Longrightarrow> is_blk sl \<Longrightarrow> sib_right t c p (Nd sc sl s sr) = (if c then Inr else Inl) (Nd True (Nd False sl s sr) p t)"
  by (cases sr) auto

text \<open>What a round does when the sibling is black.\<close>

definition round_ok :: "rbtree + rbtree \<Rightarrow> addr \<Rightarrow> addr \<Rightarrow> frame list \<Rightarrow> rbs \<times> addr \<times> addr \<Rightarrow> bool" where
  "round_ok r q p fs = (\<lambda>(h, node, parent).
     case r of Inl u \<Rightarrow> parent = 0 \<and> (\<exists>y. at h q y u fs) | Inr u \<Rightarrow> node = p \<and> parent = q \<and> at h q p u fs)"

lemma erase_black_left_ok:
  assumes a: "at h q p (Nd c t p (Nd sc sl s sr)) fs"
  shows "round_ok (sib_left t c p (Nd sc sl s sr)) q p fs (erase_black_left p s h)"
proof -
  have sh: "shape h s (rb_left h s) sl" "shape h s (rb_right h s) sr" using a by (simp_all add: at_def)
  show ?thesis
  proof (cases "is_blk sr")
    case sr: True
    show ?thesis
    proof (cases "is_blk sl")
      case True
      then have "erase_black_left p s h = erase_flip p s h" using sr shape_blk [OF sh(1)] shape_blk [OF sh(2)] by (auto simp: erase_black_left_def Let_def)
      then show ?thesis using erase_flip_left_ok [OF a] True sr
        by (cases "erase_flip p s h") (auto simp: sib_left_flip round_ok_def simp del: sib_left.simps)
    next
      case False
      then obtain l y r where sl: "sl = Nd False l y r" by (cases sl) auto
      then have "rb_left h s = y" using sh by simp
      then have "erase_black_left p s h = (erase_outer_left p y s (erase_inner_left p s y h), 0, 0)"
        using sr False shape_blk [OF sh(1)] shape_blk [OF sh(2)] by (auto simp: erase_black_left_def Let_def)
      then show ?thesis using erase_inner_left_ok [of h q p c t sc False l y r s sr fs] a sl sr by (auto simp: round_ok_def)
    qed
  next
    case False
    then obtain l y r where sr: "sr = Nd False l y r" by (cases sr) auto
    then have "rb_right h s = y" using sh by simp
    then have "erase_black_left p s h = (erase_outer_left p s y h, 0, 0)"
      using False shape_blk [OF sh(2)] by (auto simp: erase_black_left_def Let_def)
    then show ?thesis using erase_outer_left_ok [of h q p c t sc sl s False l y r fs] a sr by (auto simp: round_ok_def)
  qed
qed

lemma erase_black_right_ok:
  assumes a: "at h q p (Nd c (Nd sc sl s sr) p t) fs"
  shows "round_ok (sib_right t c p (Nd sc sl s sr)) q p fs (erase_black_right p s h)"
proof -
  have sh: "shape h s (rb_left h s) sl" "shape h s (rb_right h s) sr" using a by (simp_all add: at_def)
  show ?thesis
  proof (cases "is_blk sl")
    case sl: True
    show ?thesis
    proof (cases "is_blk sr")
      case True
      then have "erase_black_right p s h = erase_flip p s h" using sl shape_blk [OF sh(1)] shape_blk [OF sh(2)] by (auto simp: erase_black_right_def Let_def)
      then show ?thesis using erase_flip_right_ok [OF a] True sl
        by (cases "erase_flip p s h") (auto simp: sib_right_flip round_ok_def simp del: sib_right.simps)
    next
      case False
      then obtain l y r where sr: "sr = Nd False l y r" by (cases sr) auto
      then have "rb_right h s = y" using sh by simp
      then have "erase_black_right p s h = (erase_outer_right p y s (erase_inner_right p s y h), 0, 0)"
        using sl False shape_blk [OF sh(1)] shape_blk [OF sh(2)] by (auto simp: erase_black_right_def Let_def)
      then show ?thesis using erase_inner_right_ok [of h q p c sc sl s False l y r t fs] a sl sr by (auto simp: round_ok_def)
    qed
  next
    case False
    then obtain l y r where sl: "sl = Nd False l y r" by (cases sl) auto
    then have "rb_left h s = y" using sh by simp
    then have "erase_black_right p s h = (erase_outer_right p s y h, 0, 0)"
      using False shape_blk [OF sh(1)] by (auto simp: erase_black_right_def Let_def)
    then show ?thesis using erase_outer_right_ok [of h q p c sc False l y r s sr t fs] a sl by (auto simp: round_ok_def)
  qed
qed

text \<open>There is a sibling, and a red one has children.\<close>

fun sib_ok :: "frame \<Rightarrow> bool" where
  "sib_ok (FL c p Lf) = False"
| "sib_ok (FL c p (Nd sc sl s sr)) = (sc \<or> is_nd sl)"
| "sib_ok (FR c Lf p) = False"
| "sib_ok (FR c (Nd sc sl s sr) p) = (sc \<or> is_nd sr)"

text \<open>A round, at a subtree \<open>t\<close> that is the left or right child of \<open>p\<close>.\<close>

definition step_result :: "rbtree \<Rightarrow> frame list \<Rightarrow> rbtree + (rbtree \<times> frame list)" where
  "step_result t fs =
     (case fs of
        FL c p (Nd False sl s sr) # gs \<Rightarrow> Inl (plug (the_tree (sib_left t False p (blacken sl))) (FL c s sr # gs))
      | FL c p u # gs \<Rightarrow> (case sib_left t c p u of Inl v \<Rightarrow> Inl (plug v gs) | Inr v \<Rightarrow> Inr (v, gs))
      | FR c (Nd False sl s sr) p # gs \<Rightarrow> Inl (plug (the_tree (sib_right t False p (blacken sr))) (FR c sl s # gs))
      | FR c u p # gs \<Rightarrow> (case sib_right t c p u of Inl v \<Rightarrow> Inl (plug v gs) | Inr v \<Rightarrow> Inr (v, gs))
      | [] \<Rightarrow> Inl t)"

lemma sib_left_red: "sib_left t False p s \<noteq> Inr u" by (cases s) (auto split: rbtree.splits bool.splits)

lemma sib_right_red: "sib_right t False p s \<noteq> Inr u" by (cases s) (auto split: rbtree.splits bool.splits)

lemma round_ok_Inl: "round_ok r q p fs (h, nd, pr) \<Longrightarrow> r = Inl u \<Longrightarrow> pr = 0 \<and> rb_tree h (plug u fs)"
  using at_tree by (auto simp: round_ok_def)

lemma round_ok_red: "round_ok (Inl u) q p fs (h, nd, pr) \<Longrightarrow> pr = 0 \<and> rb_tree h (plug u fs)"
  using round_ok_Inl by blast

lemma erase_step_left:
  assumes a: "at h p x t (FL c p s # fs)" and s: "sib_ok (FL c p s)"
  shows "\<exists>h' nd pr. erase_step x p h = Done (h', nd, pr)
      \<and> (case step_result t (FL c p s # fs) of Inl u \<Rightarrow> pr = 0 \<and> rb_tree h' u | Inr (u, gs) \<Rightarrow> nd = p \<and> pr = rb_parent h p \<and> at h' pr nd u gs)"
proof -
  let ?q = "rb_parent h p"
  have b: "at h ?q p (Nd c t p s) fs" using at_fill [OF a] by simp
  obtain sc sl y sr where sd: "s = Nd sc sl y sr" using s by (cases s) auto
  have y: "rb_right h p = y" "y \<noteq> 0" "shape h y (rb_left h y) sl" "rb_black h y = sc" using b sd by (auto simp: at_def)
  have "x \<noteq> y" using a sd by (cases t) (auto simp: at_def)
  show ?thesis
  proof (cases sc)
    case True
    then have "erase_step x p h = Done (erase_black_left p y h)" using y \<open>x \<noteq> y\<close> by (simp add: erase_step_def deref_def rb_is_red_def Let_def)
    moreover have "round_ok (sib_left t c p s) ?q p fs (erase_black_left p y h)" using erase_black_left_ok b sd by simp
    ultimately show ?thesis using sd True at_tree
      by (cases "erase_black_left p y h"; cases "sib_left t c p s") (auto simp: round_ok_def step_result_def)
  next
    case False
    then obtain zc l z r where sl: "sl = Nd zc l z r" using s sd by (cases sl) auto
    then have z: "rb_left h y = z" "z \<noteq> 0" using y by auto
    have "erase_step x p h = Done (erase_black_left p z (erase_red_left p y h))"
      using y z False \<open>x \<noteq> y\<close> by (simp add: erase_step_def deref_def rb_is_red_def Let_def)
    moreover have "round_ok (sib_left t False p (Nd True l z r)) y p (FL c y sr # fs) (erase_black_left p z (erase_red_left p y h))"
      using erase_black_left_ok [OF erase_red_left_ok] b sd sl False by simp
    moreover obtain u where "sib_left t False p (Nd True l z r) = Inl u" using sib_left_red by (metis sum.exhaust)
    ultimately show ?thesis using sd sl False round_ok_red
      by (cases "erase_black_left p z (erase_red_left p y h)") (auto simp: step_result_def simp del: sib_left.simps plug.simps)
  qed
qed

lemma erase_step_right:
  assumes a: "at h p x t (FR c s p # fs)" and s: "sib_ok (FR c s p)"
  shows "\<exists>h' nd pr. erase_step x p h = Done (h', nd, pr)
      \<and> (case step_result t (FR c s p # fs) of Inl u \<Rightarrow> pr = 0 \<and> rb_tree h' u | Inr (u, gs) \<Rightarrow> nd = p \<and> pr = rb_parent h p \<and> at h' pr nd u gs)"
proof -
  let ?q = "rb_parent h p"
  have b: "at h ?q p (Nd c s p t) fs" using at_fill [OF a] by simp
  have x: "rb_right h p = x" using a by (simp add: at_def)
  obtain sc sl y sr where sd: "s = Nd sc sl y sr" using s by (cases s) auto
  have y: "rb_left h p = y" "y \<noteq> 0" "shape h y (rb_right h y) sr" "rb_black h y = sc" using b sd by (auto simp: at_def)
  show ?thesis
  proof (cases sc)
    case True
    then have "erase_step x p h = Done (erase_black_right p y h)" using x y by (simp add: erase_step_def deref_def rb_is_red_def Let_def)
    moreover have "round_ok (sib_right t c p s) ?q p fs (erase_black_right p y h)" using erase_black_right_ok b sd by simp
    ultimately show ?thesis using sd True at_tree
      by (cases "erase_black_right p y h"; cases "sib_right t c p s") (auto simp: round_ok_def step_result_def)
  next
    case False
    then obtain zc l z r where sr: "sr = Nd zc l z r" using s sd by (cases sr) auto
    then have z: "rb_right h y = z" "z \<noteq> 0" using y by auto
    have "erase_step x p h = Done (erase_black_right p z (erase_red_right p y h))"
      using x y z False by (simp add: erase_step_def deref_def rb_is_red_def Let_def)
    moreover have "round_ok (sib_right t False p (Nd True l z r)) y p (FR c sl y # fs) (erase_black_right p z (erase_red_right p y h))"
      using erase_black_right_ok [OF erase_red_right_ok] b sd sr False by simp
    moreover obtain u where "sib_right t False p (Nd True l z r) = Inl u" using sib_right_red by (metis sum.exhaust)
    ultimately show ?thesis using sd sr False round_ok_red
      by (cases "erase_black_right p z (erase_red_right p y h)") (auto simp: step_result_def simp del: sib_right.simps plug.simps)
  qed
qed

lemma del_fix_step: "fs \<noteq> [] \<Longrightarrow> del_fix t fs = (case step_result t fs of Inl u \<Rightarrow> u | Inr (u, gs) \<Rightarrow> del_fix u gs)"
  by (cases "(t, fs)" rule: del_fix.cases) (auto simp: step_result_def the_tree_def split: sum.splits)

lemma step_result_tl: "step_result t (f # fs) = Inr (u, gs) \<Longrightarrow> gs = fs"
  by (auto simp: step_result_def split: frame.splits rbtree.splits bool.splits sum.splits)

lemma at_root: "at h q x t fs \<Longrightarrow> q = 0 \<longleftrightarrow> fs = []"
  by (cases fs; cases "hd fs") (auto simp: at_def)

lemma erase_step_ok:
  assumes a: "at h p x t (f # fs)" and s: "sib_ok f"
  shows "\<exists>h' nd pr. erase_step x p h = Done (h', nd, pr)
      \<and> (case step_result t (f # fs) of Inl u \<Rightarrow> pr = 0 \<and> rb_tree h' u | Inr (u, gs) \<Rightarrow> nd = p \<and> pr = rb_parent h p \<and> at h' pr nd u gs)"
proof (cases f)
  case (FL c y s)
  then have "y = p" using a by (simp add: at_def)
  then show ?thesis using erase_step_left [of h p x t c s fs] assms FL by simp
next
  case (FR c s y)
  then have "y = p" using a by (simp add: at_def)
  then show ?thesis using erase_step_right [of h p x t c s fs] assms FR by simp
qed

lemma rb_erase_color_ok:
  assumes "at h p x t fs" "fs \<noteq> []" "\<forall>f\<in>set fs. sib_ok f" "length fs \<le> n"
  shows "\<exists>h'. rb_erase_color n x p h = Done h' \<and> rb_tree h' (del_fix t fs)"
  using assms
proof (induction n arbitrary: h p x t fs)
  case (Suc n)
  obtain f gs where fs: "fs = f # gs" using Suc.prems(2) by (cases fs) auto
  obtain h' nd pr where st: "erase_step x p h = Done (h', nd, pr)"
    and r: "case step_result t (f # gs) of Inl u \<Rightarrow> pr = 0 \<and> rb_tree h' u | Inr (u, gs) \<Rightarrow> nd = p \<and> pr = rb_parent h p \<and> at h' pr nd u gs"
    using erase_step_ok [of h p x t f gs] Suc.prems fs by auto
  show ?case
  proof (cases "step_result t (f # gs)")
    case (Inl u)
    then show ?thesis using r st fs del_fix_step [of "f # gs" t] by simp
  next
    case (Inr w)
    then obtain u where w: "step_result t (f # gs) = Inr (u, gs)" using step_result_tl by (cases w) auto
    then have a: "at h' pr nd u gs" using r by auto
    have d: "del_fix t fs = del_fix u gs" using w fs del_fix_step [of "f # gs" t] by simp
    show ?thesis
    proof (cases "gs = []")
      case True
      then show ?thesis using a at_root [OF a] at_tree [OF a] st d by simp
    next
      case False
      then have "\<exists>h''. rb_erase_color n nd pr h' = Done h'' \<and> rb_tree h'' (del_fix u gs)"
        using Suc.IH [OF a False] Suc.prems fs by simp
      then show ?thesis using False at_root [OF a] st d by simp
    qed
  qed
qed simp

section \<open>Taking a node out\<close>

text \<open>The leftmost node of a tree, and the frames that lead to it.\<close>

fun spine :: "rbtree \<Rightarrow> frame list \<Rightarrow> bool \<times> addr \<times> rbtree \<times> frame list" where
  "spine Lf fs = (True, 0, Lf, fs)"
| "spine (Nd c Lf a r) fs = (c, a, r, fs)"
| "spine (Nd c (Nd lc ll la lr) a r) fs = spine (Nd lc ll la lr) (FL c a r # fs)"

lemma spine_plug: "is_nd t \<Longrightarrow> spine t fs = (c, s, r, gs) \<Longrightarrow> plug (Nd c Lf s r) gs = plug t fs"
  by (induction t fs rule: spine.induct) auto

lemma spine_app: "spine t (fs @ gs) = (case spine t fs of (c, s, r, hs) \<Rightarrow> (c, s, r, hs @ gs))"
  by (induction t fs rule: spine.induct) (auto split: prod.splits)

lemma spine_at: "at h p x t fs \<Longrightarrow> is_nd t \<Longrightarrow> spine t fs = (c, s, r, gs) \<Longrightarrow> \<exists>p'. at h p' s (Nd c Lf s r) gs"
proof (induction t fs arbitrary: p x rule: spine.induct)
  case (2 c a r fs)
  then show ?case by (auto simp: at_def)
next
  case (3 d lc ll la lr a r' fs)
  then show ?case using at_down [of h p a lc ll la lr "FL d a r'" fs] by (auto simp: at_def)
qed simp

lemma erase_successor_ok:
  "shape h q x t \<Longrightarrow> is_nd t \<Longrightarrow> spine t fs = (c, s, r, gs) \<Longrightarrow> length gs < n + length fs
   \<Longrightarrow> erase_successor n q x h = Done (rb_parent h s, s)"
proof (induction t fs arbitrary: q x n rule: spine.induct)
  case (2 d a r' fs)
  then show ?case by (cases n) (auto simp: Let_def)
next
  case (3 d lc ll la lr a r' fs)
  have le: "length fs < length gs" if "spine u fs' = (c, s, r, gs)" "length fs < length fs'" for u fs'
    using that by (induction u fs' rule: spine.induct) auto
  from 3 obtain m where n: "n = Suc m" using le [of "Nd lc ll la lr" "FL d a r' # fs"] by (cases n) auto
  have "rb_left h x = la" "la \<noteq> 0" "shape h x la (Nd lc ll la lr)" using 3(2) by auto
  then show ?case using 3(1) [of x la m] 3(4,5) n by (simp add: Let_def)
qed simp

text \<open>The reference for \<^verbatim>\<open>rb_erase\<close> at a node with colour \<open>c\<close> and subtrees \<open>l\<close> and \<open>r\<close>.\<close>

definition drop_at :: "bool \<Rightarrow> rbtree \<Rightarrow> frame list \<Rightarrow> rbtree" where
  "drop_at c t fs = (if is_nd t then plug (blacken t) fs else if c then del_fix Lf fs else plug Lf fs)"

fun paint :: "bool \<Rightarrow> rbtree \<Rightarrow> rbtree" where
  "paint c Lf = Lf"
| "paint c (Nd d l a r) = Nd c l a r"

definition erase_tree :: "bool \<Rightarrow> rbtree \<Rightarrow> rbtree \<Rightarrow> frame list \<Rightarrow> rbtree" where
  "erase_tree c l r fs =
     (if l = Lf then if r = Lf then drop_at c Lf fs else plug (paint c r) fs
      else if r = Lf then plug (paint c l) fs
      else case spine r [] of (sc, s, sr, gs) \<Rightarrow> drop_at sc sr (gs @ FR c l s # fs))"

subsection \<open>On the heap\<close>

lemma change_child_left: "at h q x (Nd c l x r) (FL d p u # fs) \<Longrightarrow> rb_change_child x y q h = set_left q y h"
  by (auto simp: at_def rb_change_child_def)

text \<open>A leaf or a node with one child.\<close>

lemma change_child_at:
  assumes a: "at h q x (Nd c l x r) fs" and y: "y = 0 \<or> y \<in> set (nodes l @ nodes r)"
  shows "ctx (rb_change_child x y q h) y q fs" "shape (rb_change_child x y q h) x (rb_left h x) l" "shape (rb_change_child x y q h) x (rb_right h x) r"
proof -
  have q: "q \<noteq> x" "q \<notin> set (nodes l)" "q \<notin> set (nodes r)" using at_parent [OF a] by auto
  show "ctx (rb_change_child x y q h) y q fs" using a by (intro change_child_ctx) (auto simp: at_def)
  show "shape (rb_change_child x y q h) x (rb_left h x) l" "shape (rb_change_child x y q h) x (rb_right h x) r"
    using a q by (auto simp: at_def change_child_shape)
qed

lemma erase_leaf:
  assumes a: "at h q x (Nd c Lf x Lf) fs"
  shows "at (rb_change_child x 0 q h) q 0 Lf fs"
  using change_child_at(1) [OF a, of 0] a by (simp add: at_def)

lemma erase_one_right:
  assumes a: "at h q x (Nd c Lf x (Nd d l y r)) fs"
  shows "at (rb_set_parent_color y q c (rb_change_child x y q h)) q y (Nd c l y r) fs"
proof -
  have q: "q \<noteq> x" "q \<noteq> y" "q \<notin> set (nodes l)" "q \<notin> set (nodes r)" using at_parent [OF a] by auto
  have n: "y \<notin> set (nodes l)" "y \<notin> set (nodes r)" "y \<notin> set (cnodes fs)" "distinct (nodes (Nd c l y r) @ cnodes fs)" using a by (auto simp: at_def)
  have "shape h x y (Nd d l y r)" using a by (simp add: at_def)
  then show ?thesis using change_child_at [OF a, of y] q n by (simp add: at_def change_child_shape)
qed

lemma erase_one_left:
  assumes a: "at h q x (Nd c (Nd d l y r) x Lf) fs"
  shows "at (rb_change_child x y q (rb_set_parent_color y q c h)) q y (Nd c l y r) fs"
proof -
  have q: "q \<noteq> x" "q \<noteq> y" "q \<notin> set (nodes l)" "q \<notin> set (nodes r)" using at_parent [OF a] by auto
  have n: "y \<notin> set (nodes l)" "y \<notin> set (nodes r)" "y \<notin> set (cnodes fs)" "distinct (nodes (Nd c l y r) @ cnodes fs)" "x \<noteq> 0" "x \<notin> set (cnodes fs)"
    "y \<noteq> 0" "shape h x y (Nd d l y r)" "ctx h x q fs" using a by (auto simp: at_def)
  have "ctx (rb_change_child x y q (rb_set_parent_color y q c h)) y q fs" using n by (intro change_child_ctx) auto
  then show ?thesis using q n by (simp add: at_def change_child_shape)
qed

text \<open>The successor is the right child.\<close>

lemma erase_replace_near:
  assumes a: "at h q x (Nd c (Nd lc ll la lr) x (Nd sc Lf s sr)) fs"
  shows "at (fst (erase_replace x s s (rb_right h s) h)) q s (Nd c (Nd lc ll la lr) s (blacken sr)) fs"
    "snd (erase_replace x s s (rb_right h s) h) = (if sr \<noteq> Lf \<or> \<not> sc then 0 else s)"
proof -
  let ?h2 = "rb_set_parent_color la s (rb_black h la) (set_left s la h)"
  have n: "distinct (nodes (Nd c (Nd lc ll la lr) x (Nd sc Lf s sr)) @ cnodes fs)" "x \<noteq> 0" "s \<noteq> 0" "la \<noteq> 0" "ctx h x q fs" "rb_left h x = la" "rb_right h x = s"
    "rb_parent h x = q" "rb_black h x = c" "shape h s (rb_right h s) sr" "rb_black h la = lc" "rb_black h s = sc" "shape h la (rb_left h la) ll" "shape h la (rb_right h la) lr"
    using a by (simp_all add: at_def)
  have q: "q \<noteq> x" "q \<noteq> s" "q \<noteq> la" "q \<notin> set (nodes ll)" "q \<notin> set (nodes lr)" "q \<notin> set (nodes sr)" using at_parent [OF a] by simp_all
  have f: "x \<noteq> la" "x \<noteq> s" "s \<noteq> la" "s \<notin> set (nodes ll)" "s \<notin> set (nodes lr)" "s \<notin> set (nodes sr)" "la \<notin> set (nodes ll)" "la \<notin> set (nodes lr)" "la \<notin> set (nodes sr)"
    "s \<notin> set (cnodes fs)" "la \<notin> set (cnodes fs)" "x \<notin> set (cnodes fs)" "distinct (cnodes fs)"
    using n(1) by auto
  have "ctx (rb_change_child x s q ?h2) s q fs" using n f by (intro change_child_ctx) simp_all
  then show "at (fst (erase_replace x s s (rb_right h s) h)) q s (Nd c (Nd lc ll la lr) s (blacken sr)) fs"
    using n(2-) q f n(1)
    by (cases sr; simp; (elim conjE)?; simp add: erase_replace_def rb_set_parent_eq Let_def at_def change_child_shape)
  show "snd (erase_replace x s s (rb_right h s) h) = (if sr \<noteq> Lf \<or> \<not> sc then 0 else s)"
    using n(2-) q f
    by (cases sr) (simp_all add: erase_replace_def rb_set_parent_eq Let_def)
qed

text \<open>Parts of the tree in another heap with the same fields.\<close>

definition same_at :: "rbs \<Rightarrow> rbs \<Rightarrow> addr set \<Rightarrow> bool" where
  "same_at h h' A \<longleftrightarrow> (\<forall>z\<in>A. rb_left h' z = rb_left h z \<and> rb_right h' z = rb_right h z \<and> rb_black h' z = rb_black h z \<and> rb_parent h' z = rb_parent h z)"

lemma same_atD: "same_at h h' A \<Longrightarrow> z \<in> A \<Longrightarrow> rb_left h' z = rb_left h z \<and> rb_right h' z = rb_right h z \<and> rb_black h' z = rb_black h z \<and> rb_parent h' z = rb_parent h z"
  by (simp add: same_at_def)

lemma same_at_mono: "same_at h h' A \<Longrightarrow> B \<subseteq> A \<Longrightarrow> same_at h h' B"
  by (auto simp: same_at_def)

lemma shape_same: "same_at h h' (set (nodes t)) \<Longrightarrow> shape h' p x t = shape h p x t"
  by (induction t arbitrary: p x) (auto simp: same_at_def)

text \<open>
  A run of frames that are all left children, the last of them at \<open>d\<close>, is put on other frames: only the parent of \<open>d\<close> changes.
\<close>

fun f_addr :: "frame \<Rightarrow> addr" where
  "f_addr (FL c a r) = a"
| "f_addr (FR c l a) = a"

lemma last_addr_in: "gs \<noteq> [] \<Longrightarrow> f_addr (last gs) \<in> set (cnodes gs)"
proof (induction gs)
  case (Cons f gs) then show ?case by (cases f; cases gs) auto
qed simp

lemma cnodes_append [simp]: "cnodes (fs @ gs) = cnodes fs @ cnodes gs"
  by (induction fs rule: cnodes.induct) auto

lemma plug_append [simp]: "plug t (fs @ gs) = plug (plug t fs) gs"
  by (induction fs arbitrary: t) auto

lemma ctx_rebase:
  assumes "ctx h x p (gs @ bs)" "gs \<noteq> []" "distinct (cnodes gs)" "d = f_addr (last gs)" "same_at h h' (set (cnodes gs) - {d})"
    "rb_left h' d = rb_left h d" "rb_right h' d = rb_right h d" "rb_black h' d = rb_black h d" "ctx h' d (rb_parent h' d) bs'"
  shows "ctx h' x p (gs @ bs')"
  using assms
proof (induction gs arbitrary: x p)
  case (Cons f gs)
  show ?case
  proof (cases "gs = []")
    case True
    show ?thesis
    proof (cases f)
      case (FL c a r)
      then have "same_at h h' (set (nodes r))" using Cons.prems(3,4,5) True by (auto intro: same_at_mono)
      then show ?thesis using Cons.prems True FL by (simp add: shape_same)
    next
      case (FR c l a)
      then have "same_at h h' (set (nodes l))" using Cons.prems(3,4,5) True by (auto intro: same_at_mono)
      then show ?thesis using Cons.prems True FR by (simp add: shape_same)
    qed
  next
    case False
    then have d: "d = f_addr (last gs)" "d \<in> set (cnodes gs)" using Cons.prems(4) last_addr_in [of gs] by auto
    show ?thesis
    proof (cases f)
      case (FL c a r)
      then have "same_at h h' (set (nodes r))" "same_at h h' (set (cnodes gs) - {d})" "a \<in> set (cnodes (f # gs)) - {d}"
        using Cons.prems(3,5) d(2) by (auto intro: same_at_mono)
      then show ?thesis using Cons.prems FL False d(1) same_atD [OF Cons.prems(5), of a] Cons.IH [of a "rb_parent h a"] by (simp add: shape_same)
    next
      case (FR c l a)
      then have "same_at h h' (set (nodes l))" "same_at h h' (set (cnodes gs) - {d})" "a \<in> set (cnodes (f # gs)) - {d}"
        using Cons.prems(3,5) d(2) by (auto intro: same_at_mono)
      then show ?thesis using Cons.prems FR False d(1) same_atD [OF Cons.prems(5), of a] Cons.IH [of a "rb_parent h a"] by (simp add: shape_same)
    qed
  qed
qed simp

lemma at_up: "at h p x t (gs @ fs) \<Longrightarrow> gs \<noteq> [] \<Longrightarrow> at h (rb_parent h (f_addr (last gs))) (f_addr (last gs)) (plug t gs) fs"
proof (induction gs arbitrary: p x t)
  case (Cons f gs)
  have a: "at h (rb_parent h p) p (fill t f) (gs @ fs)" using at_fill Cons.prems(1) by simp
  have p: "f_addr f = p" using Cons.prems(1) by (cases f) (auto simp: at_def)
  show ?case
  proof (cases "gs = []")
    case True then show ?thesis using a p by simp
  next
    case False then show ?thesis using Cons.IH [OF a] by simp
  qed
qed simp

text \<open>The successor is further down.\<close>

lemma erase_replace_far:
  assumes a: "at h p1 s (Nd sc Lf s sr) (gs @ FR c (Nd lc ll la lr) x # fs)" and g: "gs = FL pc p1 pr # gs'"
    and d: "d = f_addr (last gs)"
    and h1: "h1 = rb_set_parent d s (set_right s d (set_left p1 (rb_right h s) h))"
  shows "at (fst (erase_replace x s p1 (rb_right h s) h1)) p1 (rb_right h s) (blacken sr) (gs @ FR c (Nd lc ll la lr) s # fs)"
    "snd (erase_replace x s p1 (rb_right h s) h1) = (if sr \<noteq> Lf \<or> \<not> sc then 0 else p1)"
proof -
  let ?l = "Nd lc ll la lr" and ?S = "Nd sc Lf s sr" and ?q = "rb_parent h x" and ?c2 = "rb_right h s" and ?kz = "set_left p1 (rb_right h s) h"
  have D: "distinct (nodes ?S @ cnodes gs @ nodes ?l @ x # cnodes fs)" using a by (simp add: at_def)
  have X: "at h ?q x (Nd c ?l x (plug ?S gs)) fs" using at_up [of h p1 s ?S "gs @ [FR c ?l x]" fs] a by simp
  then have x: "x \<noteq> 0" "rb_left h x = la" "rb_black h x = c" "la \<noteq> 0" "rb_black h la = lc" "shape h la (rb_left h la) ll" "shape h la (rb_right h la) lr" "ctx h x ?q fs"
    by (simp_all add: at_def)
  have G: "at h (rb_parent h d) d (plug ?S gs) (FR c ?l x # fs)" using at_up [of h p1 s ?S gs] a g d by simp
  then have rd: "rb_right h x = d" "shape h x d (plug ?S gs)" by (auto simp: at_def)
  have d0: "d \<noteq> 0"
  proof
    assume "d = 0"
    then have "plug ?S gs = Lf" using rd(2) shape_0 by simp
    then have "nodes (plug ?S gs) = []" by simp
    then show False by simp
  qed
  have s: "s \<noteq> 0" "rb_black h s = sc" "shape h s ?c2 sr" "ctx h s p1 (gs @ FR c ?l x # fs)" using a by (simp_all add: at_def)
  have dC: "d \<in> set (cnodes gs)" "p1 \<in> set (cnodes gs)" using last_addr_in [of gs] g d by auto
  have "?q \<notin> set (nodes (Nd c ?l x (plug ?S gs)))" using at_parent [OF X] .
  then have q: "?q \<noteq> x" "?q \<noteq> la" "?q \<notin> set (nodes ll)" "?q \<notin> set (nodes lr)" "?q \<noteq> s" "?q \<notin> set (nodes sr)" "?q \<notin> set (cnodes gs)"
    using set_cnodes [of gs] by auto
  have n: "s \<notin> set (nodes sr)" "s \<notin> set (cnodes gs)" "s \<notin> set (nodes ll)" "s \<notin> set (nodes lr)" "s \<noteq> la" "s \<noteq> x" "s \<notin> set (cnodes fs)"
    "la \<notin> set (nodes ll)" "la \<notin> set (nodes lr)" "la \<noteq> x" "la \<notin> set (nodes sr)" "la \<notin> set (cnodes gs)" "la \<notin> set (cnodes fs)"
    "x \<notin> set (cnodes gs)" "x \<notin> set (cnodes fs)" "x \<notin> set (nodes sr)" "distinct (cnodes fs)" "distinct (cnodes gs)"
    and inC: "\<And>z. z \<in> set (cnodes gs) \<Longrightarrow> z \<notin> set (nodes sr) \<and> z \<notin> set (nodes ll) \<and> z \<notin> set (nodes lr) \<and> z \<noteq> la \<and> z \<noteq> x \<and> z \<noteq> s \<and> z \<notin> set (cnodes fs)"
    using D by auto
  have z: "?c2 = 0 \<longleftrightarrow> sr = Lf" using s(3) by (cases sr) auto
  have c2: "?c2 \<noteq> 0 \<Longrightarrow> ?c2 \<in> set (nodes sr)" using shape_in [OF s(3)] by simp
  let ?h2 = "rb_set_parent_color la s lc (set_left s la h1)" and ?k = "\<lambda>h2. rb_set_parent_color s ?q c (rb_change_child x s ?q h2)"
  let ?h' = "if ?c2 \<noteq> 0 then rb_set_parent_color ?c2 p1 True (?k ?h2) else ?k ?h2"
  have r: "rb_left h1 x = la" "rb_parent h1 x = ?q" "rb_black h1 x = c" "rb_black h1 la = lc" "rb_black h1 s = sc"
    using x s n inC [OF dC(1)] inC [OF dC(2)] by (simp_all add: h1 rb_set_parent_eq)
  have out: "erase_replace x s p1 ?c2 h1 = (?h', if sr \<noteq> Lf \<or> \<not> sc then 0 else p1)"
    using r n q z by (auto simp: erase_replace_def rb_set_parent_eq Let_def)
  have kz: "ctx ?kz ?c2 p1 (gs @ FR c ?l x # fs)" using s(4) D g by simp
  have "ctx ?h2 x ?q fs" using x(8) n inC [OF dC(1)] inC [OF dC(2)] by (simp add: h1 rb_set_parent_eq)
  then have "ctx (rb_change_child x s ?q ?h2) s ?q fs" using x(1) n by (intro change_child_ctx)
  moreover have "?c2 \<noteq> 0 \<Longrightarrow> ?c2 \<notin> set (cnodes fs)" using c2 D by auto
  ultimately have cf: "ctx ?h' s ?q fs" using n by simp
  have cn: "?c2 \<noteq> s" "?c2 \<noteq> la" "?c2 \<noteq> d" "?c2 \<notin> set (nodes ll)" "?c2 \<notin> set (nodes lr)" "?c2 \<notin> set (cnodes gs)" "?c2 \<noteq> ?q" if "?c2 \<noteq> 0"
    using c2 [OF that] n q D inC dC by auto
  have f: "rb_parent ?h' s = ?q" "rb_black ?h' s = c" "rb_right ?h' s = d" "rb_left ?h' s = la" "rb_parent ?h' la = s" "rb_black ?h' la = lc"
     "rb_left ?h' la = rb_left h la" "rb_right ?h' la = rb_right h la" "rb_parent ?h' d = s"
    using n q cn d0 inC [OF dC(1)] inC [OF dC(2)] dC q(7) x s by (auto simp: h1 rb_set_parent_eq)
  have "shape ?h' la (rb_left h la) ll" "shape ?h' la (rb_right h la) lr"
    using x n q cn inC [OF dC(1)] inC [OF dC(2)] by (auto simp: h1 rb_set_parent_eq change_child_shape)
  then have base: "ctx ?h' d (rb_parent ?h' d) (FR c ?l s # fs)" using f cf s(1) x(4) by simp
  have eq: "rb_left ?h' z = rb_left ?kz z" "rb_right ?h' z = rb_right ?kz z" "rb_black ?h' z = rb_black ?kz z" "z \<noteq> d \<Longrightarrow> rb_parent ?h' z = rb_parent ?kz z"
    if z: "z \<in> set (cnodes gs)" for z
  proof -
    have "z \<noteq> la" "z \<noteq> x" "z \<noteq> s" "z \<noteq> ?q" "?c2 \<noteq> 0 \<Longrightarrow> z \<noteq> ?c2" using inC [OF z] q(7) cn(6) z by auto
    then show "rb_left ?h' z = rb_left ?kz z" "rb_right ?h' z = rb_right ?kz z" "rb_black ?h' z = rb_black ?kz z" "z \<noteq> d \<Longrightarrow> rb_parent ?h' z = rb_parent ?kz z"
      using inC [OF dC(2)] by (simp_all add: h1 rb_set_parent_eq)
  qed
  have ctx': "ctx ?h' ?c2 p1 (gs @ FR c ?l s # fs)"
  proof (rule ctx_rebase [OF kz _ n(18) d _ _ _ _ base])
    show "gs \<noteq> []" using g by simp
    show "same_at ?kz ?h' (set (cnodes gs) - {d})" unfolding same_at_def using eq by blast
    show "rb_left ?h' d = rb_left ?kz d" "rb_right ?h' d = rb_right ?kz d" "rb_black ?h' d = rb_black ?kz d" using eq [OF dC(1)] by blast+
  qed
  have sh: "shape ?h' p1 ?c2 (blacken sr)"
  proof (cases sr)
    case Lf then show ?thesis using z by simp
  next
    case (Nd e l y r)
    then have y: "y = ?c2" "?c2 \<noteq> 0" "shape h y (rb_left h y) l" "shape h y (rb_right h y) r" "y \<notin> set (nodes l)" "y \<notin> set (nodes r)" using s(3) D by auto
    have "y \<noteq> ?q" "y \<noteq> p1" "y \<noteq> s" using y(1) cn [OF y(2)] dC by auto
    then show ?thesis using y Nd n q cn [OF y(2)] inC [OF dC(1)] inC [OF dC(2)] by (simp add: h1 rb_set_parent_eq change_child_shape)
  qed
  have "distinct (nodes (blacken sr) @ cnodes (gs @ FR c ?l s # fs))" using D by auto
  then show "at (fst (erase_replace x s p1 ?c2 h1)) p1 ?c2 (blacken sr) (gs @ FR c ?l s # fs)" using sh ctx' out by (simp add: at_def)
  show "snd (erase_replace x s p1 (rb_right h s) h1) = (if sr \<noteq> Lf \<or> \<not> sc then 0 else p1)" using out by simp
qed

end
