(* ===== verification/RbtreeInv.thy ===== *)
theory RbtreeInv
  imports RbtreeTop
begin

text \<open>
  The properties at the top of \<^verbatim>\<open>rbtree.c\<close>, that insertion and removal keep them, and the specification of the routines by the
  in-order sequence of the tree.
\<close>

section \<open>Red-black trees\<close>

text \<open>The number of black nodes on the way to a leaf, and properties 4 and 5.\<close>

fun bh :: "rbtree \<Rightarrow> nat" where
  "bh Lf = 0"
| "bh (Nd c l a r) = bh l + (if c then 1 else 0)"

fun rb_ok :: "rbtree \<Rightarrow> bool" where
  "rb_ok Lf = True"
| "rb_ok (Nd c l a r) \<longleftrightarrow> rb_ok l \<and> rb_ok r \<and> bh l = bh r \<and> (c \<or> is_blk l \<and> is_blk r)"

definition red_black :: "rbtree \<Rightarrow> bool" where "red_black t \<longleftrightarrow> rb_ok t \<and> is_blk t"

text \<open>What the frames around a subtree of \<open>n\<close> black nodes have to satisfy, and whether its root may be red.\<close>

fun takes_red :: "frame list \<Rightarrow> bool" where
  "takes_red [] = False"
| "takes_red (f # fs) = f_blk f"

fun ctx_ok :: "frame list \<Rightarrow> nat \<Rightarrow> bool" where
  "ctx_ok [] n = True"
| "ctx_ok (FL c a r # fs) n \<longleftrightarrow> rb_ok r \<and> bh r = n \<and> (c \<or> is_blk r \<and> takes_red fs) \<and> ctx_ok fs (n + (if c then 1 else 0))"
| "ctx_ok (FR c l a # fs) n \<longleftrightarrow> rb_ok l \<and> bh l = n \<and> (c \<or> is_blk l \<and> takes_red fs) \<and> ctx_ok fs (n + (if c then 1 else 0))"

lemma red_black_plug: "red_black (plug t fs) \<longleftrightarrow> rb_ok t \<and> ctx_ok fs (bh t) \<and> (is_blk t \<or> takes_red fs)"
proof (induction fs arbitrary: t)
  case Nil then show ?case by (auto simp: red_black_def)
next
  case (Cons f fs)
  show ?case
  proof (cases f)
    case (FL c a r)
    show ?thesis unfolding FL by (cases c; simp add: Cons.IH) (rule iffI; elim conjE; simp)+
  next
    case (FR c l a)
    show ?thesis unfolding FR by (cases c; simp add: Cons.IH) (rule iffI; elim conjE; simp)+
  qed
qed

lemma blacken_blk: "is_blk t \<Longrightarrow> blacken t = t" by (cases t) auto

lemma blacken_ok: "rb_ok t \<Longrightarrow> rb_ok (blacken t)" by (cases t) auto

lemma bh_blacken: "\<not> is_blk t \<Longrightarrow> bh (blacken t) = Suc (bh t)" by (cases t) auto

lemma is_blk_blacken [simp]: "is_blk (blacken t)" by (cases t) auto

lemma rot_left_ok:
  assumes t: "rb_ok (Nd False l x r)" and c: "ctx_ok (f # FL gc g u # fs) (bh l)" and f: "\<not> f_blk f" and u: "is_blk u"
  shows "red_black (plug (rot_left (Nd False l x r) f gc g u) fs)"
proof (cases f)
  case (FL d p s)
  then have "rb_ok s" "bh s = bh l" "is_blk s" gc "rb_ok u" "bh u = bh l" "ctx_ok fs (Suc (bh l))" using c f by auto
  then show ?thesis using t u by (simp add: FL red_black_plug blacken_blk)
next
  case (FR d s p)
  then have "rb_ok s" "bh s = bh l" "is_blk s" gc "rb_ok u" "bh u = bh l" "ctx_ok fs (Suc (bh l))" using c f by auto
  then show ?thesis using t u by (simp add: FR red_black_plug blacken_blk)
qed

lemma rot_right_ok:
  assumes t: "rb_ok (Nd False l x r)" and c: "ctx_ok (f # FR gc u g # fs) (bh l)" and f: "\<not> f_blk f" and u: "is_blk u"
  shows "red_black (plug (rot_right (Nd False l x r) f gc u g) fs)"
proof (cases f)
  case (FL d p s)
  then have "rb_ok s" "bh s = bh l" "is_blk s" gc "rb_ok u" "bh u = bh l" "ctx_ok fs (Suc (bh l))" using c f by auto
  then show ?thesis using t u by (simp add: FL red_black_plug blacken_blk)
next
  case (FR d s p)
  then have "rb_ok s" "bh s = bh l" "is_blk s" gc "rb_ok u" "bh u = bh l" "ctx_ok fs (Suc (bh l))" using c f by auto
  then show ?thesis using t u by (simp add: FR red_black_plug blacken_blk)
qed

text \<open>After a colour flip the same situation is two levels up.\<close>

lemma flip_ok:
  assumes t: "rb_ok (Nd False l x r)" and f: "\<not> f_blk f" and u: "\<not> is_blk u"
    and c: "ctx_ok (f # FL gc g u # fs) (bh l) \<or> ctx_ok (f # FR gc u g # fs) (bh l)"
  shows "rb_ok (blacken (fill (Nd False l x r) f)) \<and> rb_ok (blacken u) \<and> bh (blacken (fill (Nd False l x r) f)) = Suc (bh l) \<and> bh (blacken u) = Suc (bh l)
     \<and> ctx_ok fs (Suc (bh l))"
proof (cases f)
  case (FL d p s)
  then have "rb_ok s" "bh s = bh l" "is_blk s" gc "rb_ok u" "bh u = bh l" "ctx_ok fs (Suc (bh l))" using c f by auto
  then show ?thesis using t u by (simp add: FL blacken_ok bh_blacken)
next
  case (FR d s p)
  then have "rb_ok s" "bh s = bh l" "is_blk s" gc "rb_ok u" "bh u = bh l" "ctx_ok fs (Suc (bh l))" using c f by auto
  then show ?thesis using t u by (simp add: FR blacken_ok bh_blacken)
qed

lemma ins_fix_ok:
  assumes "t = Nd False l x r" "rb_ok t" "ctx_ok fs (bh t)"
  shows "red_black (ins_fix t fs)"
  using assms
proof (induction t fs arbitrary: l x r rule: ins_fix.induct)
  case (1 t) then show ?case by (auto simp: red_black_def)
next
  case (2 t f) then show ?case by (cases f) (auto simp: red_black_def)
next
  case (3 t f gc g u fs)
  show ?case
  proof (cases "f_blk f")
    case True
    then show ?thesis using 3 red_black_plug [of t "f # FL gc g u # fs"] by simp
  next
    case f: False
    show ?thesis
    proof (cases "is_blk u")
      case True
      then show ?thesis using 3(2-) f rot_left_ok [of l x r f gc g u fs] by simp
    next
      case False
      have "red_black (ins_fix (Nd False (blacken (fill t f)) g (blacken u)) fs)"
        using 3(1) [OF f False refl] 3(2-) flip_ok [of l x r f u gc g fs] f False by simp
      then show ?thesis using f False by simp
    qed
  qed
next
  case (4 t f gc u g fs)
  show ?case
  proof (cases "f_blk f")
    case True
    then show ?thesis using 4 red_black_plug [of t "f # FR gc u g # fs"] by simp
  next
    case f: False
    show ?thesis
    proof (cases "is_blk u")
      case True
      then show ?thesis using 4(2-) f rot_right_ok [of l x r f gc u g fs] by simp
    next
      case False
      have "red_black (ins_fix (Nd False (blacken u) g (blacken (fill t f))) fs)"
        using 4(1) [OF f False refl] 4(2-) flip_ok [of l x r f u gc g fs] f False by simp
      then show ?thesis using f False by simp
    qed
  qed
qed

section \<open>Removal\<close>

lemma sib_ok_ctx: "ctx_ok fs n \<Longrightarrow> 0 < n \<Longrightarrow> f \<in> set fs \<Longrightarrow> sib_ok f"
proof (induction fs arbitrary: n)
  case (Cons g fs)
  have "sib_ok g" if o: "ctx_ok (g # fs) n" "0 < n"
  proof (cases g)
    case (FL c p s)
    then obtain sc sl y sr where s: "s = Nd sc sl y sr" using o FL by (cases s) auto
    then show ?thesis using o FL by (cases sl; cases sc) auto
  next
    case (FR c s p)
    then obtain sc sl y sr where s: "s = Nd sc sl y sr" using o FR by (cases s) auto
    then show ?thesis using o FR by (cases sr; cases sc) auto
  qed
  moreover have "\<exists>m>0. ctx_ok fs m" using Cons.prems(1,2) by (cases g) auto
  ultimately show ?case using Cons by auto
qed simp

lemma sib_left_ok:
  assumes "rb_ok t" "is_blk t" "rb_ok s" "bh s = Suc (bh t)" "is_blk s" "is_nd s"
  shows "case sib_left t c p s of Inl u \<Rightarrow> rb_ok u \<and> bh u = Suc (bh t) + (if c then 1 else 0) \<and> (is_blk u \<or> \<not> c)
                               | Inr u \<Rightarrow> c \<and> rb_ok u \<and> is_blk u \<and> bh u = Suc (bh t)"
proof -
  obtain sl y sr where s: "s = Nd True sl y sr" using assms(5,6) by (cases s) auto
  show ?thesis
  proof (cases "is_blk sr")
    case False
    then obtain l z r where "sr = Nd False l z r" by (cases sr) auto
    then show ?thesis using assms s by simp
  next
    case sr: True
    show ?thesis
    proof (cases "is_blk sl")
      case True
      then show ?thesis using assms s sr sib_left_flip [of sr sl] by simp
    next
      case False
      then obtain l z r where "sl = Nd False l z r" by (cases sl) auto
      then show ?thesis using assms s sr by (simp add: blacken_blk)
    qed
  qed
qed

lemma sib_right_ok:
  assumes "rb_ok t" "is_blk t" "rb_ok s" "bh s = Suc (bh t)" "is_blk s" "is_nd s"
  shows "case sib_right t c p s of Inl u \<Rightarrow> rb_ok u \<and> bh u = Suc (bh t) + (if c then 1 else 0) \<and> (is_blk u \<or> \<not> c)
                                | Inr u \<Rightarrow> c \<and> rb_ok u \<and> is_blk u \<and> bh u = Suc (bh t)"
proof -
  obtain sl y sr where s: "s = Nd True sl y sr" using assms(5,6) by (cases s) auto
  show ?thesis
  proof (cases "is_blk sl")
    case False
    then obtain l z r where "sl = Nd False l z r" by (cases sl) auto
    then show ?thesis using assms s by simp
  next
    case sl: True
    show ?thesis
    proof (cases "is_blk sr")
      case True
      then show ?thesis using assms s sl sib_right_flip [of sr sl] by simp
    next
      case False
      then obtain l z r where "sr = Nd False l z r" by (cases sr) auto
      then show ?thesis using assms s sl by (simp add: blacken_blk)
    qed
  qed
qed

lemma step_result_ok:
  assumes t: "rb_ok t" "is_blk t" and c: "ctx_ok (f # fs) (Suc (bh t))"
  shows "case step_result t (f # fs) of Inl u \<Rightarrow> red_black u | Inr (u, gs) \<Rightarrow> gs = fs \<and> rb_ok u \<and> is_blk u \<and> ctx_ok fs (Suc (bh u))"
proof (cases f)
  case (FL d p s)
  have s: "is_nd s" using c FL by (cases s) auto
  show ?thesis
  proof (cases "is_blk s")
    case True
    then have "step_result t (f # fs) = (case sib_left t d p s of Inl v \<Rightarrow> Inl (plug v fs) | Inr v \<Rightarrow> Inr (v, fs))"
      using s FL by (cases s) (auto simp: step_result_def)
    then show ?thesis using sib_left_ok [OF t, of s d p] True s c FL by (auto simp: red_black_plug split: sum.splits if_splits)
  next
    case False
    then obtain sl y sr where sd: "s = Nd False sl y sr" using s by (cases s) auto
    then have d: d "rb_ok sl" "rb_ok sr" "bh sl = Suc (bh t)" "bh sr = Suc (bh t)" "is_blk sl" "is_blk sr" "ctx_ok fs (Suc (Suc (bh t)))" using c FL by auto
    then have nd: "is_nd sl" by (cases sl) auto
    obtain u where u: "sib_left t False p sl = Inl u" using sib_left_red by (metis sum.exhaust)
    then show ?thesis using sib_left_ok [OF t, of sl False p] d nd sd FL
      by (simp add: step_result_def blacken_blk red_black_plug flip: plug.simps)
  qed
next
  case (FR d s p)
  have s: "is_nd s" using c FR by (cases s) auto
  show ?thesis
  proof (cases "is_blk s")
    case True
    then have "step_result t (f # fs) = (case sib_right t d p s of Inl v \<Rightarrow> Inl (plug v fs) | Inr v \<Rightarrow> Inr (v, fs))"
      using s FR by (cases s) (auto simp: step_result_def)
    then show ?thesis using sib_right_ok [OF t, of s d p] True s c FR by (auto simp: red_black_plug split: sum.splits if_splits)
  next
    case False
    then obtain sl y sr where sd: "s = Nd False sl y sr" using s by (cases s) auto
    then have d: d "rb_ok sl" "rb_ok sr" "bh sl = Suc (bh t)" "bh sr = Suc (bh t)" "is_blk sl" "is_blk sr" "ctx_ok fs (Suc (Suc (bh t)))" using c FR by auto
    then have nd: "is_nd sr" by (cases sr) auto
    obtain u where u: "sib_right t False p sr = Inl u" using sib_right_red by (metis sum.exhaust)
    then show ?thesis using sib_right_ok [OF t, of sr False p] d nd sd FR
      by (simp add: step_result_def blacken_blk red_black_plug flip: plug.simps)
  qed
qed

lemma del_fix_ok: "rb_ok t \<Longrightarrow> is_blk t \<Longrightarrow> ctx_ok fs (Suc (bh t)) \<Longrightarrow> red_black (del_fix t fs)"
proof (induction fs arbitrary: t)
  case Nil then show ?case by (simp add: red_black_def)
next
  case (Cons f fs)
  then show ?case using step_result_ok [of t f fs] del_fix_step [of "f # fs" t] by (auto split: sum.splits)
qed

lemma nodes_step_result:
  assumes "sib_ok f"
  shows "nodes (case step_result t (f # fs) of Inl u \<Rightarrow> u | Inr (u, gs) \<Rightarrow> plug u gs) = before fs @ nodes (fill t f) @ after fs"
proof (cases f)
  case (FL c p s)
  then obtain sc sl y sr where s: "s = Nd sc sl y sr" using assms by (cases s) auto
  show ?thesis
  proof (cases sc)
    case True
    then show ?thesis using FL s nodes_sib_left [of s t c p] by (auto simp: step_result_def split: sum.splits simp del: sib_left.simps)
  next
    case False
    then have "is_nd (blacken sl)" using assms FL s by (cases sl) auto
    then show ?thesis using FL s False nodes_sib_left [of "blacken sl" t False p] by (simp add: step_result_def)
  qed
next
  case (FR c s p)
  then obtain sc sl y sr where s: "s = Nd sc sl y sr" using assms by (cases s) auto
  show ?thesis
  proof (cases sc)
    case True
    then show ?thesis using FR s nodes_sib_right [of s t c p] by (auto simp: step_result_def split: sum.splits simp del: sib_right.simps)
  next
    case False
    then have "is_nd (blacken sr)" using assms FR s by (cases sr) auto
    then show ?thesis using FR s False nodes_sib_right [of "blacken sr" t False p] by (simp add: step_result_def)
  qed
qed

lemma nodes_del_fix: "\<forall>f\<in>set fs. sib_ok f \<Longrightarrow> nodes (del_fix t fs) = nodes (plug t fs)"
proof (induction fs arbitrary: t)
  case (Cons f fs)
  have n: "nodes (case step_result t (f # fs) of Inl u \<Rightarrow> u | Inr (u, gs) \<Rightarrow> plug u gs) = nodes (plug t (f # fs))"
    using nodes_step_result [of f t fs] Cons.prems by simp
  show ?case
  proof (cases "step_result t (f # fs)")
    case (Inl u) then show ?thesis using n del_fix_step [of "f # fs" t] by simp
  next
    case (Inr w)
    then obtain u where w: "step_result t (f # fs) = Inr (u, fs)" using step_result_tl by (cases w) auto
    then show ?thesis using n Cons.IH [of u] Cons.prems del_fix_step [of "f # fs" t] by simp
  qed
qed simp

subsection \<open>The whole removal\<close>

lemma spine_before: "spine t fs = (c, s, r, gs) \<Longrightarrow> before gs = before fs"
  by (induction t fs rule: spine.induct) auto

lemma drop_at_ok:
  assumes "rb_ok (Nd c Lf s t)" "ctx_ok fs (bh (Nd c Lf s t))" "c \<or> takes_red fs"
  shows "red_black (drop_at c t fs)" "nodes (drop_at c t fs) = before fs @ nodes t @ after fs"
proof -
  have "red_black (drop_at c t fs) \<and> nodes (drop_at c t fs) = before fs @ nodes t @ after fs"
  proof (cases t)
    case Lf
    have "\<forall>f\<in>set fs. sib_ok f" if "ctx_ok fs (Suc 0)" using sib_ok_ctx [OF that] by simp
    then show ?thesis using assms Lf del_fix_ok [of Lf fs] nodes_del_fix [of fs Lf] by (auto simp: drop_at_def red_black_plug)
  next
    case (Nd d l a r)
    then have "\<not> d" "c" "bh t = 0" using assms(1) by (auto split: if_splits)
    then show ?thesis using assms Nd by (simp add: drop_at_def red_black_plug)
  qed
  then show "red_black (drop_at c t fs)" "nodes (drop_at c t fs) = before fs @ nodes t @ after fs" by auto
qed

lemma ctx_ok_addr: "ctx_ok (gs @ FR c l s # fs) n = ctx_ok (gs @ FR c l x # fs) n \<and> takes_red (gs @ FR c l s # fs) = takes_red (gs @ FR c l x # fs)"
proof (induction gs arbitrary: n)
  case (Cons f gs) then show ?case by (cases f) auto
qed simp

lemma erase_tree_ok:
  assumes "red_black (plug (Nd c l x r) fs)"
  shows "red_black (erase_tree c l r fs)" "nodes (erase_tree c l r fs) = before fs @ nodes l @ nodes r @ after fs"
proof -
  have a: "rb_ok (Nd c l x r)" "ctx_ok fs (bh (Nd c l x r))" "c \<or> takes_red fs" using assms by (auto simp: red_black_plug)
  have "red_black (erase_tree c l r fs) \<and> nodes (erase_tree c l r fs) = before fs @ nodes l @ nodes r @ after fs"
  proof (cases "l = Lf \<or> r = Lf")
    case True
    show ?thesis
    proof (cases "l = Lf \<and> r = Lf")
      case True then show ?thesis using drop_at_ok [of c x Lf fs] a by (simp add: erase_tree_def)
    next
      case False
      then show ?thesis using True a by (cases l; cases r) (auto simp: erase_tree_def red_black_plug)
    qed
  next
    case False
    obtain sc s sr gs where sp: "spine r [] = (sc, s, sr, gs)" by (cases "spine r []")
    have nd: "is_nd r" using False by (cases r) auto
    then have r: "plug (Nd sc Lf s sr) gs = r" using spine_plug [OF nd sp] by simp
    have "red_black (plug (Nd sc Lf s sr) (gs @ FR c l x # fs))" using assms r by simp
    then have "rb_ok (Nd sc Lf s sr)" "ctx_ok (gs @ FR c l s # fs) (bh (Nd sc Lf s sr))" "sc \<or> takes_red (gs @ FR c l s # fs)"
      using ctx_ok_addr [of gs c l s fs _ x] by (simp_all only: red_black_plug is_blk.simps)
    note d = drop_at_ok [OF this]
    have "nodes r = before gs @ nodes (Nd sc Lf s sr) @ after gs" using r nodes_plug by metis
    moreover have "before gs = []" using spine_before [OF sp] by simp
    moreover have ba: "before (gs @ hs) = before hs @ before gs" "after (gs @ hs) = after gs @ after hs" for gs hs
      by (induction gs rule: before.induct) auto
    ultimately show ?thesis using d False sp by (simp add: erase_tree_def)
  qed
  then show "red_black (erase_tree c l r fs)" "nodes (erase_tree c l r fs) = before fs @ nodes l @ nodes r @ after fs" by auto
qed

end
