(* ===== verification/RbtreeSpec.thy ===== *)
theory RbtreeSpec
  imports RbtreeInv
begin

text \<open>
  The specification of the red-black trees: a heap represents a sequence of nodes (\<open>rb_repr\<close>), \<^verbatim>\<open>rb_link_node\<close> with \<^verbatim>\<open>rb_insert_color\<close> puts
  a node in, \<^verbatim>\<open>rb_erase\<close> takes one out, \<^verbatim>\<open>rb_replace_node\<close> exchanges one, and the walks visit all of them.
\<close>

section \<open>Removal on the heap\<close>

lemma length_cnodes: "length fs \<le> length (cnodes fs)"
  by (induction fs rule: cnodes.induct) auto

lemma length_plug: "length (nodes (plug t fs)) = length (nodes t) + length (cnodes fs)"
proof -
  have "length (before fs) + length (after fs) = length (cnodes fs)" by (induction fs rule: cnodes.induct) auto
  then show ?thesis by simp
qed

text \<open>The end of \<^verbatim>\<open>rb_erase\<close>, when the subtree \<open>sr\<close> has taken the place of a node with colour \<open>sc\<close>.\<close>

lemma erase_finish:
  assumes a: "at h p y (blacken sr) fs" and b: "rb = (if sr \<noteq> Lf \<or> \<not> sc then 0 else p)" and s: "sr = Lf \<Longrightarrow> sc \<Longrightarrow> \<forall>f\<in>set fs. sib_ok f" and n: "length fs \<le> n"
  shows "\<exists>h'. (if rb \<noteq> 0 then rb_erase_color n 0 rb h else Done h) = Done h' \<and> rb_tree h' (drop_at sc sr fs)"
proof (cases "sr = Lf \<and> sc")
  case True
  then have y: "y = 0" and a': "at h p 0 Lf fs" using a by (auto simp: at_def)
  show ?thesis
  proof (cases "fs = []")
    case True then show ?thesis using \<open>sr = Lf \<and> sc\<close> at_root [OF a'] at_tree [OF a'] b by (simp add: drop_at_def)
  next
    case False
    then have "p \<noteq> 0" using at_root [OF a'] by simp
    then show ?thesis using rb_erase_color_ok [OF a' False _ n] True s b by (simp add: drop_at_def)
  qed
next
  case False
  then have "drop_at sc sr fs = plug (blacken sr) fs" by (cases sr) (auto simp: drop_at_def)
  then show ?thesis using False b at_tree [OF a] by auto
qed

lemma spine_frames: "spine t fs = (c, s, r, gs) \<Longrightarrow> \<exists>hs. gs = hs @ fs \<and> (\<forall>f\<in>set hs. \<exists>d a u. f = FL d a u)"
proof (induction t fs rule: spine.induct)
  case (3 d lc ll la lr a r' fs)
  then obtain hs where "gs = (hs @ [FL d a r']) @ fs" "\<forall>f\<in>set (hs @ [FL d a r']). \<exists>d a u. f = FL d a u" by auto
  then show ?case by blast
qed auto

lemma rb_erase_two:
  assumes a: "at h q x (Nd c (Nd lc ll la lr) x r) fs" and r: "is_nd r" and ok: "red_black (plug (Nd c (Nd lc ll la lr) x r) fs)"
    and n: "length (nodes (plug (Nd c (Nd lc ll la lr) x r) fs)) \<le> n"
  shows "\<exists>h'. rb_erase n x h = Done h' \<and> rb_tree h' (erase_tree c (Nd lc ll la lr) r fs)"
proof -
  let ?l = "Nd lc ll la lr"
  obtain sc s sr gs where sp: "spine r [] = (sc, s, sr, gs)" by (cases "spine r []")
  have rp: "plug (Nd sc Lf s sr) gs = r" using spine_plug [OF r sp] by simp
  have et: "erase_tree c ?l r fs = drop_at sc sr (gs @ FR c ?l s # fs)" using r sp by (cases r) (auto simp: erase_tree_def)
  have "red_black (plug (Nd sc Lf s sr) (gs @ FR c ?l x # fs))" using ok rp by simp
  then have "ctx_ok (gs @ FR c ?l s # fs) (bh (Nd sc Lf s sr))" using ctx_ok_addr [of gs c ?l s fs _ x] by (simp only: red_black_plug)
  then have so: "sc \<Longrightarrow> \<forall>f\<in>set (gs @ FR c ?l s # fs). sib_ok f" using sib_ok_ctx [of "gs @ FR c ?l s # fs" "bh (Nd sc Lf s sr)"] by auto
  have "length (nodes r) = length (nodes (Nd sc Lf s sr)) + length (cnodes gs)" using length_plug rp by metis
  then have len: "length (gs @ FR c ?l s # fs) \<le> n" "length gs < n" using n length_cnodes [of gs] length_cnodes [of fs] length_plug [of "Nd c ?l x r" fs] by auto
  have x: "rb_left h x = la" "la \<noteq> 0" "rb_parent h x = q" "rb_black h x = c" using a by (simp_all add: at_def)
  obtain rc rl d rr where rd: "r = Nd rc rl d rr" using r by (cases r) auto
  have d: "rb_right h x = d" "d \<noteq> 0" "shape h d (rb_left h d) rl" using a rd by (simp_all add: at_def)
  show ?thesis
  proof (cases rl)
    case Lf
    then have g: "gs = []" "sc = rc" "s = d" "sr = rr" using sp rd by auto
    have "rb_left h d = 0" using d Lf by simp
    then have run: "rb_erase_augmented n x h = Done (erase_replace x d d (rb_right h d) h)" using x d by (simp add: rb_erase_augmented_def Let_def)
    obtain h1 rb where o: "erase_replace x d d (rb_right h d) h = (h1, rb)" by (cases "erase_replace x d d (rb_right h d) h")
    have "at h q x (Nd c ?l x (Nd sc Lf d rr)) fs" using a rd Lf g by simp
    note e = erase_replace_near [OF this]
    have "at h1 q d (fill (blacken rr) (FR c ?l d)) fs" using e(1) o by simp
    then obtain y where "at h1 d y (blacken rr) (FR c ?l d # fs)" using at_unfill by blast
    from erase_finish [OF this, of rb sc n] show ?thesis using e(2) o run so len g et by (auto simp: rb_erase_def)
  next
    case (Nd rlc rll rla rlr)
    have sp': "spine rl [FL rc d rr] = (sc, s, sr, gs)" using sp rd Nd by simp
    obtain hs where hs: "gs = hs @ [FL rc d rr]" "\<forall>f\<in>set hs. \<exists>d a u. f = FL d a u" using spine_frames [OF sp'] by auto
    have "at h q x (fill r (FR c ?l x)) fs" using a by simp
    then have ar: "at h x d r (FR c ?l x # fs)" using rd at_down by metis
    have "spine r (FR c ?l x # fs) = (sc, s, sr, gs @ FR c ?l x # fs)" using sp spine_app [of r "[]" "FR c ?l x # fs"] by simp
    then obtain p1 where as: "at h p1 s (Nd sc Lf s sr) (gs @ FR c ?l x # fs)" using spine_at [OF ar r] by blast
    then have p1: "rb_parent h s = p1" by (simp add: at_def)
    obtain pc pr gs' where g: "gs = FL pc p1 pr # gs'"
    proof (cases gs)
      case (Cons f gs')
      then obtain e a u where "f = FL e a u" using hs by (cases hs) auto
      then show ?thesis using that as Cons by (auto simp: at_def)
    qed (use hs in simp)
    have dl: "d = f_addr (last gs)" using hs by simp
    have nz: "rb_left h d = rla" "rla \<noteq> 0" using d(3) Nd by auto
    have "erase_successor n d rla h = Done (p1, s)"
      using erase_successor_ok [of h d rla rl "[FL rc d rr]" sc s sr gs n] sp' d(3) Nd len(2) nz p1 by simp
    then have run: "rb_erase_augmented n x h
        = Done (erase_replace x s p1 (rb_right h s) (rb_set_parent d s (set_right s d (set_left p1 (rb_right h s) h))))"
      using x d nz by (simp add: rb_erase_augmented_def Let_def del: bind_result_eq_Done)
    obtain h1 rb where o: "erase_replace x s p1 (rb_right h s) (rb_set_parent d s (set_right s d (set_left p1 (rb_right h s) h))) = (h1, rb)" by fastforce
    note e = erase_replace_far [OF as g dl refl]
    have "at h1 p1 (rb_right h s) (blacken sr) (gs @ FR c ?l s # fs)" using e(1) o by simp
    from erase_finish [OF this, of rb sc n] show ?thesis using e(2) o run so len et by (auto simp: rb_erase_def)
  qed
qed

lemma rb_erase_ok:
  assumes a: "at h q x (Nd c l x r) fs" and ok: "red_black (plug (Nd c l x r) fs)" and n: "length (nodes (plug (Nd c l x r) fs)) \<le> n"
  shows "\<exists>h'. rb_erase n x h = Done h' \<and> rb_tree h' (erase_tree c l r fs)"
proof -
  have len: "length fs \<le> n" using n length_cnodes [of fs] length_plug [of "Nd c l x r" fs] by auto
  have x: "rb_parent h x = q" "rb_black h x = c" "shape h x (rb_left h x) l" "shape h x (rb_right h x) r" using a by (simp_all add: at_def)
  consider "l = Lf" "r = Lf" | d rl y rr where "l = Lf" "r = Nd d rl y rr" | d ll y lr where "l = Nd d ll y lr" "r = Lf"
    | d ll y lr where "l = Nd d ll y lr" "is_nd r" by (cases l; cases r) auto
  then show ?thesis
  proof cases
    case 1
    then have "at (rb_change_child x 0 q h) q 0 (blacken Lf) fs" using erase_leaf a by simp
    moreover have "c \<Longrightarrow> \<forall>f\<in>set fs. sib_ok f" using ok 1 sib_ok_ctx [of fs "Suc 0"] by (auto simp: red_black_plug)
    ultimately show ?thesis using erase_finish [of "rb_change_child x 0 q h" q 0 Lf fs "if c then q else 0" c n] x 1 len
      by (simp add: rb_erase_def rb_erase_augmented_def Let_def erase_tree_def del: bind_result_eq_Done) fastforce
  next
    case 2
    then have "rb_tree (rb_set_parent_color y q c (rb_change_child x y q h)) (plug (Nd c rl y rr) fs)" using at_tree [OF erase_one_right] a by simp
    then show ?thesis using x 2 by (simp add: rb_erase_def rb_erase_augmented_def Let_def erase_tree_def)
  next
    case 3
    then have "rb_tree (rb_change_child x y q (rb_set_parent_color y q c h)) (plug (Nd c ll y lr) fs)" using at_tree [OF erase_one_left] a by simp
    then show ?thesis using x 3 by (simp add: rb_erase_def rb_erase_augmented_def Let_def erase_tree_def)
  next
    case 4
    then show ?thesis using rb_erase_two [of h q x c d ll y lr r fs n] a ok n by simp
  qed
qed

section \<open>Sequences of nodes\<close>

definition rb_repr :: "rbs \<Rightarrow> addr list \<Rightarrow> bool" where
  "rb_repr h xs \<longleftrightarrow> (\<exists>t. rb_tree h t \<and> red_black t \<and> nodes t = xs)"

text \<open>The empty link \<open>lk\<close> of \<open>p\<close>, between the nodes \<open>xs\<close> and \<open>ys\<close>.\<close>

fun link_of :: "frame list \<Rightarrow> rb_link" where
  "link_of [] = Root_link"
| "link_of (FL c a r # fs) = Left_link"
| "link_of (FR c l a # fs) = Right_link"

definition rb_slot :: "rbs \<Rightarrow> addr \<Rightarrow> rb_link \<Rightarrow> addr list \<Rightarrow> addr list \<Rightarrow> bool" where
  "rb_slot h p lk xs ys \<longleftrightarrow> (\<exists>fs. at h p 0 Lf fs \<and> red_black (plug Lf fs) \<and> lk = link_of fs \<and> before fs = xs \<and> after fs = ys)"

lemma rb_link_node_at:
  assumes a: "at h p 0 Lf fs" and x: "x \<noteq> 0" "x \<notin> set (cnodes fs)"
  shows "at (rb_link_node x p (link_of fs) h) p x (Nd False Lf x Lf) fs"
  using assms
proof (cases fs)
  case (Cons f gs)
  then show ?thesis using assms by (cases f; simp add: at_def; elim conjE; simp add: at_def rb_link_node_def Let_def)
qed (simp add: at_def rb_link_node_def Let_def)

lemma ctx_ok_rooted: "ctx_ok fs n \<Longrightarrow> rooted fs"
proof (induction fs arbitrary: n)
  case (Cons f fs) then show ?case by (cases f; cases fs) (auto simp: rooted_def)
qed (simp add: rooted_def)

lemma rb_insert_slot:
  assumes s: "rb_slot h p lk xs ys" and x: "x \<noteq> 0" "x \<notin> set (xs @ ys)" and n: "length (xs @ ys) < n"
  shows "\<exists>h'. rb_insert_color n x (rb_link_node x p lk h) = Done h' \<and> rb_repr h' (xs @ x # ys)"
proof -
  obtain fs where f: "at h p 0 Lf fs" "ctx_ok fs 0" "lk = link_of fs" "before fs = xs" "after fs = ys"
    using s by (auto simp: rb_slot_def red_black_plug)
  let ?h = "rb_link_node x p lk h" and ?t = "Nd False Lf x Lf"
  have a: "at ?h p x ?t fs" using rb_link_node_at f(1,3) x f(4,5) set_cnodes [of fs] by auto
  have "length fs < 2 * n" using n f(4,5) length_cnodes [of fs] length_plug [of Lf fs] by auto
  then obtain h' where h': "rb_insert n x p ?h = Done h'" "rb_tree h' (ins_fix ?t fs)" using rb_insert_ok [OF a refl ctx_ok_rooted [OF f(2)]] by blast
  moreover have "rb_parent ?h x = p" using a by (simp add: at_def)
  moreover have "red_black (ins_fix ?t fs)" using ins_fix_ok [OF refl, of Lf x Lf fs] f(2) by simp
  moreover have "nodes (ins_fix ?t fs) = xs @ x # ys" using nodes_ins_fix [of ?t fs] f(4,5) by simp
  ultimately show ?thesis by (auto simp: rb_repr_def rb_insert_color_def)
qed

text \<open>Every node of the tree has its place.\<close>

lemma locate: "x \<in> set (nodes t) \<Longrightarrow> \<exists>c l r fs. t = plug (Nd c l x r) fs"
proof (induction t)
  case (Nd c l a r)
  show ?case
  proof (cases "x = a")
    case True then show ?thesis using plug.simps(1) by metis
  next
    case False
    then consider "x \<in> set (nodes l)" | "x \<in> set (nodes r)" using Nd.prems by auto
    then show ?thesis
    proof cases
      case 1
      then obtain c' l' r' fs where "l = plug (Nd c' l' x r') fs" using Nd.IH(1) by blast
      then have "Nd c l a r = plug (Nd c' l' x r') (fs @ [FL c a r])" by simp
      then show ?thesis by blast
    next
      case 2
      then obtain c' l' r' fs where "r = plug (Nd c' l' x r') fs" using Nd.IH(2) by blast
      then have "Nd c l a r = plug (Nd c' l' x r') (fs @ [FR c l a])" by simp
      then show ?thesis by blast
    qed
  qed
qed simp

lemma rb_tree_locate:
  assumes t: "rb_tree h t" and x: "x \<in> set (nodes t)"
  obtains c l r fs q where "t = plug (Nd c l x r) fs" "at h q x (Nd c l x r) fs"
proof -
  obtain c l r fs where "t = plug (Nd c l x r) fs" using locate [OF x] by blast
  moreover from this obtain q y where "at h q y (Nd c l x r) fs" using tree_at t by blast
  moreover from this have "y = x" by (simp add: at_def)
  ultimately show ?thesis using that by blast
qed

lemma rb_tree_split:
  assumes t: "rb_tree h t" and n: "nodes t = xs @ x # ys"
  obtains c l r fs q where "t = plug (Nd c l x r) fs" "at h q x (Nd c l x r) fs" "before fs @ nodes l = xs" "nodes r @ after fs = ys"
proof -
  have xin: "x \<in> set (nodes t)" using n by simp
  obtain c l r fs q where f: "t = plug (Nd c l x r) fs" "at h q x (Nd c l x r) fs" using rb_tree_locate [OF t xin] .
  have "distinct (nodes (plug (Nd c l x r) fs))" using t f(1) by (simp add: rb_tree_def)
  then have "x \<notin> set (before fs @ nodes l)" "x \<notin> set (nodes r @ after fs)" by auto
  moreover have "(before fs @ nodes l) @ x # (nodes r @ after fs) = xs @ x # ys" using n f(1) by simp
  ultimately have "before fs @ nodes l = xs" "nodes r @ after fs = ys" using append_Cons_eq_iff by metis+
  then show ?thesis using that f by blast
qed

lemma rb_erase_repr:
  assumes r: "rb_repr h (xs @ x # ys)" and n: "length (xs @ x # ys) \<le> n"
  shows "\<exists>h'. rb_erase n x h = Done h' \<and> rb_repr h' (xs @ ys)"
proof -
  obtain t where t: "rb_tree h t" "red_black t" "nodes t = xs @ x # ys" using r by (auto simp: rb_repr_def)
  obtain c l r fs q where f: "t = plug (Nd c l x r) fs" "at h q x (Nd c l x r) fs" "before fs @ nodes l = xs" "nodes r @ after fs = ys"
    using rb_tree_split [OF t(1,3)] .
  have "length (nodes t) \<le> n" using t(3) n by simp
  then obtain h' where "rb_erase n x h = Done h'" "rb_tree h' (erase_tree c l r fs)" using rb_erase_ok [OF f(2)] t(2) unfolding f(1) by blast
  moreover have "nodes (erase_tree c l r fs) = xs @ ys" using erase_tree_ok(2) [of c l x r fs] t(2) f by simp
  ultimately show ?thesis using erase_tree_ok(1) t(2) f(1) by (auto simp: rb_repr_def)
qed

lemma rb_replace_repr:
  assumes r: "rb_repr h (xs @ x # ys)" and y: "y \<noteq> 0" "y \<notin> set (xs @ x # ys)"
  shows "rb_repr (rb_replace_node x y h) (xs @ y # ys)"
proof -
  obtain t where t: "rb_tree h t" "red_black t" "nodes t = xs @ x # ys" using r by (auto simp: rb_repr_def)
  obtain c l r fs q where f: "t = plug (Nd c l x r) fs" "at h q x (Nd c l x r) fs" "before fs @ nodes l = xs" "nodes r @ after fs = ys"
    using rb_tree_split [OF t(1,3)] .
  have yn: "y \<noteq> x" "y \<notin> set (nodes l)" "y \<notin> set (nodes r)" "y \<notin> set (cnodes fs)" using y(2) f(3,4) set_cnodes [of fs] by auto
  have d: "distinct (nodes l)" "distinct (nodes r)" "x \<notin> set (nodes l)" "x \<notin> set (nodes r)" "x \<noteq> 0" "x \<notin> set (cnodes fs)" "distinct (cnodes fs)"
    "shape h x (rb_left h x) l" "shape h x (rb_right h x) r" "rb_parent h x = q" "rb_black h x = c" "ctx h x q fs"
    "set (nodes l) \<inter> set (nodes r) = {}" "distinct (nodes (Nd c l y r) @ cnodes fs)"
    using f(2) yn by (auto simp: at_def)
  have q: "q \<noteq> x" "q \<notin> set (nodes l)" "q \<notin> set (nodes r)" using at_parent [OF f(2)] by auto
  let ?h = "rb_change_child x y q h"
  have ll: "a \<notin> set (nodes r)" if "l = Nd e l1 a l2" for e l1 a l2 using d(13) that by auto
  have rr: "a \<notin> set (nodes l)" if "r = Nd e l1 a l2" for e l1 a l2 using d(13) that by auto
  have "ctx ?h y q fs" using change_child_ctx [OF d(12,5,6,7)] .
  moreover have "q \<noteq> y" using at_root [OF f(2)] y(1) yn(4) d(12) by (cases fs; cases "hd fs") auto
  ultimately have "at (rb_replace_node x y h) q y (Nd c l y r) fs"
    using d q yn y(1) ll rr
    by (cases l; cases r; simp; (elim conjE)?; simp add: at_def rb_replace_node_def Let_def rb_set_parent_eq change_child_shape)
  then have "rb_tree (rb_replace_node x y h) (plug (Nd c l y r) fs)" using at_tree by blast
  moreover have "red_black (plug (Nd c l y r) fs)" using t(2) f(1) by (auto simp: red_black_plug)
  ultimately show ?thesis using f(3,4) by (auto simp: rb_repr_def)
qed

section \<open>Walks\<close>

lemma rb_leftmost_ok: "shape h p x t \<Longrightarrow> is_nd t \<Longrightarrow> length (nodes t) \<le> n \<Longrightarrow> rb_leftmost n x h = Done (hd (nodes t))"
proof (induction n arbitrary: p x t)
  case (Suc n)
  then obtain c l r where t: "t = Nd c l x r" by (cases t) auto
  show ?case
  proof (cases l)
    case Lf then show ?thesis using Suc.prems t by simp
  next
    case (Nd lc ll la lr)
    then have "rb_left h x = la" "la \<noteq> 0" "shape h x la l" "length (nodes l) \<le> n" using Suc.prems t by auto
    then show ?thesis using Suc.IH [of x la l] Nd t by (simp add: hd_append)
  qed
qed (auto elim: is_nd.elims)

lemma rb_climb_right_ok: "at h q x t fs \<Longrightarrow> t = Nd c l x r \<Longrightarrow> length fs < n \<Longrightarrow> rb_climb_right n x h = Done (hd (after fs @ [0]))"
proof (induction fs arbitrary: q x t c l r n)
  case Nil
  then show ?case by (cases n) (auto simp: at_def Let_def)
next
  case (Cons f fs)
  obtain m where n: "n = Suc m" using Cons.prems(3) by (cases n) auto
  have q: "rb_parent h x = q" "q \<noteq> 0" "x \<noteq> 0" using Cons.prems at_colour [OF Cons.prems(1)] by (auto simp: at_def)
  have up: "at h (rb_parent h q) q (fill t f) fs" using at_fill [OF Cons.prems(1)] .
  show ?case
  proof (cases f)
    case (FL d a u)
    then have "a = q" "shape h q (rb_right h q) u" "x \<notin> set (nodes u)" using Cons.prems(1,2) by (auto simp: at_def)
    then have "x \<noteq> rb_right h q" using q(3) shape_notin by metis
    then show ?thesis using FL q n \<open>a = q\<close> by (simp add: Let_def)
  next
    case (FR d u a)
    then have "rb_right h q = x" "a = q" using Cons.prems(1) by (auto simp: at_def)
    then show ?thesis using Cons.IH [OF up, of d u t m] FR q n Cons.prems(3) by (simp add: Let_def)
  qed
qed

lemma rb_next_ok:
  assumes t: "rb_tree h t" and x: "nodes t = xs @ x # ys" and n: "length (nodes t) \<le> n"
  shows "rb_next n x h = Done (hd (ys @ [0]))"
proof -
  obtain c l r fs q where f: "t = plug (Nd c l x r) fs" "at h q x (Nd c l x r) fs" "before fs @ nodes l = xs" "nodes r @ after fs = ys"
    using rb_tree_split [OF t x] .
  have q: "rb_parent h x = q" "q \<noteq> x" "shape h x (rb_right h x) r" using f(2) at_parent [OF f(2)] by (auto simp: at_def)
  show ?thesis
  proof (cases r)
    case Lf
    have "length fs < n" using n f(1) length_cnodes [of fs] length_plug [of "Nd c l x r" fs] by auto
    then have "rb_climb_right n x h = Done (hd (after fs @ [0]))" using rb_climb_right_ok [OF f(2) refl] by simp
    then show ?thesis using q f(4) Lf by (simp add: rb_next_def RB_EMPTY_NODE_def)
  next
    case (Nd rc rl ra rr)
    then have "rb_leftmost n (rb_right h x) h = Done (hd (nodes r))" using rb_leftmost_ok [OF q(3)] n f(1) by simp
    moreover have "hd (nodes r) = hd (ys @ [0])" using f(4) Nd by (auto simp: hd_append)
    ultimately show ?thesis using q Nd by (simp add: rb_next_def RB_EMPTY_NODE_def)
  qed
qed

lemma rb_first_ok: "rb_tree h t \<Longrightarrow> length (nodes t) \<le> n \<Longrightarrow> rb_first n h = Done (hd (nodes t @ [0]))"
  using rb_leftmost_ok [of h 0 "rb_root h" t n] by (cases t) (auto simp: rb_first_def rb_tree_def hd_append)

text \<open>Post-order.\<close>

fun post :: "rbtree \<Rightarrow> addr list" where
  "post Lf = []"
| "post (Nd c l a r) = post l @ post r @ [a]"

fun pbefore :: "frame list \<Rightarrow> addr list" where
  "pbefore [] = []"
| "pbefore (FL c a r # fs) = pbefore fs"
| "pbefore (FR c l a # fs) = pbefore fs @ post l"

fun pafter :: "frame list \<Rightarrow> addr list" where
  "pafter [] = []"
| "pafter (FL c a r # fs) = post r @ a # pafter fs"
| "pafter (FR c l a # fs) = a # pafter fs"

lemma post_plug [simp]: "post (plug t fs) = pbefore fs @ post t @ pafter fs"
proof (induction fs arbitrary: t)
  case (Cons f fs) then show ?case by (cases f) auto
qed simp

lemma set_post: "set (post t) = set (nodes t)" by (induction t) auto

lemma distinct_post: "distinct (post t) = distinct (nodes t)"
  by (induction t) (auto simp: set_post)

lemma length_post: "length (post t) = length (nodes t)" by (induction t) auto

lemma rb_left_deepest_ok: "shape h p x t \<Longrightarrow> is_nd t \<Longrightarrow> length (nodes t) \<le> n \<Longrightarrow> rb_left_deepest_node n x h = Done (hd (post t))"
proof (induction n arbitrary: p x t)
  case (Suc n)
  then obtain c l r where t: "t = Nd c l x r" by (cases t) auto
  have s: "shape h x (rb_left h x) l" "shape h x (rb_right h x) r" "length (nodes l) \<le> n" "length (nodes r) \<le> n" using Suc.prems t by auto
  have z: "rb_left h x = 0 \<longleftrightarrow> l = Lf" "rb_right h x = 0 \<longleftrightarrow> r = Lf" using s(1,2) by (cases l; cases r; auto)+
  have e: "u \<noteq> Lf \<Longrightarrow> is_nd u" "u \<noteq> Lf \<Longrightarrow> post u \<noteq> []" for u by (cases u; auto)+
  show ?case using Suc.IH [OF s(1)] Suc.IH [OF s(2)] s z e t by (auto simp: hd_append)
qed (auto elim: is_nd.elims)

lemma rb_next_postorder_ok:
  assumes t: "rb_tree h t" and x: "post t = xs @ x # ys" and n: "length (nodes t) \<le> n"
  shows "rb_next_postorder n x h = Done (hd (ys @ [0]))"
proof -
  have xin: "x \<in> set (nodes t)" using x set_post [of t] by auto
  obtain c l r fs q where f: "t = plug (Nd c l x r) fs" "at h q x (Nd c l x r) fs" using rb_tree_locate [OF t xin] .
  have "distinct (post t)" using t by (simp add: rb_tree_def distinct_post)
  then have "distinct (post (plug (Nd c l x r) fs))" unfolding f(1) .
  then have "x \<notin> set (pbefore fs @ post l @ post r)" "x \<notin> set (pafter fs)" by auto
  moreover have "(pbefore fs @ post l @ post r) @ x # pafter fs = xs @ x # ys" using x f(1) by simp
  ultimately have e: "pafter fs = ys" using append_Cons_eq_iff by metis
  have q: "rb_parent h x = q" "x \<noteq> 0" using f(2) by (auto simp: at_def)
  show ?thesis
  proof (cases fs)
    case Nil then show ?thesis using e q at_root [OF f(2)] by (auto simp: rb_next_postorder_def Let_def)
  next
    case (Cons g gs)
    show ?thesis
    proof (cases g)
      case (FL d a u)
      then have a: "a = q" "q \<noteq> 0" "rb_left h q = x" "shape h q (rb_right h q) u" using f(2) Cons by (auto simp: at_def)
      have "rb_right h q = 0 \<longleftrightarrow> u = Lf" using a(4) by (cases u) auto
      moreover have "u \<noteq> Lf \<Longrightarrow> rb_left_deepest_node n (rb_right h q) h = Done (hd (post u))"
        using rb_left_deepest_ok [OF a(4)] n f(1) length_plug [of "Nd c l x r" fs] Cons FL by (cases u) auto
      moreover have "u \<noteq> Lf \<Longrightarrow> post u \<noteq> []" by (cases u) auto
      ultimately show ?thesis using e q a Cons FL by (auto simp: rb_next_postorder_def Let_def hd_append)
    next
      case (FR d u a)
      then have a: "a = q" "q \<noteq> 0" "shape h q (rb_left h q) u" "x \<notin> set (nodes u)" using f(2) Cons by (auto simp: at_def)
      then have "x \<noteq> rb_left h q" using q(2) shape_notin by metis
      then show ?thesis using e q a(1) Cons FR by (auto simp: rb_next_postorder_def Let_def)
    qed
  qed
qed

lemma rb_first_postorder_ok: "rb_tree h t \<Longrightarrow> length (nodes t) \<le> n \<Longrightarrow> rb_first_postorder n h = Done (hd (post t @ [0]))"
  using rb_left_deepest_ok [of h 0 "rb_root h" t n] by (cases t) (auto simp: rb_first_postorder_def rb_tree_def hd_append)

text \<open>A walk visits a sequence when its first and next nodes are those of the sequence.\<close>

locale tree_walk =
  fixes first :: "nat \<Rightarrow> rbs \<Rightarrow> addr result" and follow :: "nat \<Rightarrow> addr \<Rightarrow> rbs \<Rightarrow> addr result" and visit :: "rbtree \<Rightarrow> addr list"
  assumes first_ok: "rb_tree h t \<Longrightarrow> length (nodes t) \<le> n \<Longrightarrow> first n h = Done (hd (visit t @ [0]))"
    and next_ok: "rb_tree h t \<Longrightarrow> visit t = xs @ x # ys \<Longrightarrow> length (nodes t) \<le> n \<Longrightarrow> follow n x h = Done (hd (ys @ [0]))"
    and visit_set: "set (visit t) = set (nodes t)" "length (visit t) = length (nodes t)"
begin

lemma iterate_ok:
  assumes t: "rb_tree h t" "length (nodes t) \<le> n"
  shows "visit t = xs @ ys \<Longrightarrow> length ys < k \<Longrightarrow> rb_iterate (\<lambda>x. follow n x h) k (hd (ys @ [0])) = Done ys"
proof (induction ys arbitrary: xs k)
  case Nil then show ?case by (cases k) auto
next
  case (Cons y ys)
  obtain m where k: "k = Suc m" using Cons.prems by (cases k) auto
  have "0 \<notin> set (nodes t)" using t(1) shape_nonzero unfolding rb_tree_def by blast
  moreover have "y \<in> set (visit t)" using Cons.prems(1) by simp
  ultimately have "y \<noteq> 0" using visit_set(1) by metis
  moreover have "follow n y h = Done (hd (ys @ [0]))" using next_ok [OF t(1) Cons.prems(1) t(2)] .
  moreover have "rb_iterate (\<lambda>x. follow n x h) m (hd (ys @ [0])) = Done ys" using Cons.IH [of "xs @ [y]" m] Cons.prems k by simp
  ultimately show ?case using k by simp
qed

lemma walk_ok: "rb_tree h t \<Longrightarrow> length (nodes t) \<le> n \<Longrightarrow> bind_result (first n h) (rb_iterate (\<lambda>x. follow n x h) (Suc n)) = Done (visit t)"
  using iterate_ok [of h t n "[]" "visit t" "Suc n"] first_ok [of h t n] visit_set(2) [of t] by simp

end

interpretation inorder: tree_walk rb_first rb_next nodes
  by unfold_locales (auto simp: rb_first_ok rb_next_ok)

interpretation postorder: tree_walk rb_first_postorder rb_next_postorder post
  by unfold_locales (auto simp: rb_first_postorder_ok rb_next_postorder_ok set_post length_post)

section \<open>The depth of a tree\<close>

fun ht :: "rbtree \<Rightarrow> nat" where
  "ht Lf = 0"
| "ht (Nd c l a r) = Suc (max (ht l) (ht r))"

lemma bh_size: "rb_ok t \<Longrightarrow> 2 ^ bh t \<le> length (nodes t) + 1"
  by (induction t) auto

lemma ht_bh: "rb_ok t \<Longrightarrow> ht t \<le> 2 * bh t + (if is_blk t then 0 else 1)"
  by (induction t) (auto split: if_splits)

text \<open>The search path in a tree of \<open>n\<close> nodes has at most \<open>2 log (n + 1)\<close> nodes.\<close>

lemma red_black_depth:
  assumes "red_black t"
  shows "2 ^ ht t \<le> (length (nodes t) + 1) ^ 2"
proof -
  have "ht t \<le> 2 * bh t" using ht_bh [of t] assms by (simp add: red_black_def)
  then have "2 ^ ht t \<le> (2::nat) ^ (2 * bh t)" by (intro power_increasing) auto
  also have "\<dots> = (2 ^ bh t) ^ 2" by (simp add: power_mult mult.commute flip: power_mult)
  also have "\<dots> \<le> (length (nodes t) + 1) ^ 2" using bh_size [of t] assms by (intro power_mono) (auto simp: red_black_def)
  finally show ?thesis .
qed

section \<open>Properties\<close>

text \<open>A tree of three nodes: 2 is black, 1 and 3 are its red children.\<close>

definition demo_rb :: rbs where
  "demo_rb = \<lparr>rb_parent = (\<lambda>x. if x = 1 \<or> x = 3 then 2 else 0), rb_black = (\<lambda>x. x = 2), rb_right = (\<lambda>x. if x = 2 then 3 else 0),
              rb_left = (\<lambda>x. if x = 2 then 1 else 0), rb_root = 2\<rparr>"

definition demo_rbt :: rbtree where "demo_rbt = Nd True (Nd False Lf 1 Lf) 2 (Nd False Lf 3 Lf)"

lemma demo_repr: "rb_repr demo_rb [1, 2, 3]"
proof -
  have "rb_tree demo_rb demo_rbt" "red_black demo_rbt" "nodes demo_rbt = [1, 2, 3]"
    by (simp_all add: demo_rb_def demo_rbt_def rb_tree_def red_black_def)
  then show ?thesis unfolding rb_repr_def by blast
qed

lemma demo_slot: "rb_slot demo_rb 3 Right_link [1, 2, 3] []"
proof -
  let ?fs = "[FR False Lf 3, FR True (Nd False Lf 1 Lf) 2]"
  have "at demo_rb 3 0 Lf ?fs" "red_black (plug Lf ?fs)" "Right_link = link_of ?fs" "before ?fs = [1, 2, 3]" "after ?fs = []"
    by (simp_all add: demo_rb_def at_def red_black_def)
  then show ?thesis unfolding rb_slot_def by blast
qed

text \<open>
  C30. Linking a new node at an empty link of a red-black tree and calling \<^verbatim>\<open>rb_insert_color\<close> ends without touching a null pointer, and gives a
  red-black tree again (black root, no red node with a red child, the same number of black nodes on every path, consistent parent
  pointers) whose in-order sequence has the node at the place of the link and is otherwise unchanged.
\<close>

theorem rb_insert_color_spec:
  assumes "rb_slot h p lk xs ys" "x \<noteq> 0" "x \<notin> set (xs @ ys)" "length (xs @ ys) < n"
  shows "\<exists>h'. rb_insert_color n x (rb_link_node x p lk h) = Done h' \<and> rb_repr h' (xs @ x # ys)"
  using rb_insert_slot [OF assms] .

theorem rb_insert_color_spec_witness:
  "\<exists>h'. rb_insert_color 4 4 (rb_link_node 4 3 Right_link demo_rb) = Done h' \<and> rb_repr h' [1, 2, 3, 4]"
  using rb_insert_color_spec [OF demo_slot, of 4 4] by simp

text \<open>
  C31. \<^verbatim>\<open>rb_erase\<close> of a node of a red-black tree ends without touching a null pointer, and gives a red-black tree again, whose in-order sequence
  is the old one without that node.
\<close>

theorem rb_erase_spec:
  assumes "rb_repr h (xs @ x # ys)" "length (xs @ x # ys) \<le> n"
  shows "\<exists>h'. rb_erase n x h = Done h' \<and> rb_repr h' (xs @ ys)"
  using rb_erase_repr [OF assms] .

theorem rb_erase_spec_witness: "\<exists>h'. rb_erase 3 2 demo_rb = Done h' \<and> rb_repr h' [1, 3]"
  using rb_erase_spec [of demo_rb "[1]" 2 "[3]" 3] demo_repr by simp

text \<open>
  C32. Walking with \<^verbatim>\<open>rb_first\<close> and \<^verbatim>\<open>rb_next\<close> visits the nodes in order, and \<^verbatim>\<open>rbtree_postorder_for_each_entry_safe\<close> visits each node exactly once, after
  both its subtrees.
\<close>

theorem rb_walk_spec:
  assumes "rb_tree h t" "length (nodes t) \<le> n"
  shows "rb_walk n h = Done (nodes t) \<and> rbtree_postorder_for_each n h = Done (post t) \<and> distinct (post t) \<and> set (post t) = set (nodes t)"
  using inorder.walk_ok [OF assms] postorder.walk_ok [OF assms] assms(1)
  by (simp add: rb_walk_def rbtree_postorder_for_each_def rb_tree_def distinct_post set_post del: bind_result_eq_Done)

theorem rb_walk_spec_witness: "rb_walk 3 demo_rb = Done [1, 2, 3] \<and> rbtree_postorder_for_each 3 demo_rb = Done [1, 3, 2]"
proof -
  have "rb_tree demo_rb demo_rbt" by (simp add: demo_rb_def demo_rbt_def rb_tree_def)
  from rb_walk_spec [OF this, of 3] show ?thesis by (simp add: demo_rbt_def)
qed

end
