(* ===== verification/Spec2Isabelle.thy ===== *)
theory Spec2Isabelle
  imports Fifo Dlist Bitmap Resource HostRam Timer GuestReset HeapProps HostAspaceProps RbtreeSpec
begin

text \<open>
  \<^bold>\<open>Verification of the core of the Xvisor hypervisor.\<close>

  Xvisor runs guests on virtual CPUs (VCPUs).  A VCPU is \<^emph>\<open>normal\<close> when it runs guest code and \<^emph>\<open>orphan\<close> when it is
  a thread of the hypervisor.  On each host CPU a scheduler chooses the VCPU that runs; timer events end its
  time slice; virtual interrupts are delivered to it when the host CPU returns from an interrupt, and wake it when it
  waits for one.  Orphan VCPUs block in wait queues, on which mutexes, semaphores and completions are built.  The manager
  creates, resets and destroys VCPUs and guests.  Below this lie the memory of the host (frames of physical memory,
  a pool of virtual addresses, two heaps over a buddy allocator, and the mappings between physical and virtual addresses), the tree of
  address ranges, and a library of data structures.

  \<^bold>\<open>Theories and the code they model.\<close>

  \<^item> \<open>Prelude\<close>: machine integers, the return codes of \<^verbatim>\<open>core/include/vmm_error.h\<close>, the type of outcomes (\<open>Done\<close>,
    \<open>Panic\<close>, \<open>Fault\<close>) and lemmas on lists and words.
  \<^item> \<open>Fifo\<close>: \<^verbatim>\<open>libs/common/fifo.c\<close>, a ring buffer of fixed-size elements.
  \<^item> \<open>Dlist\<close>: \<^verbatim>\<open>libs/include/libs/list.h\<close>, doubly linked lists as a heap of links.
  \<^item> \<open>Rbtree\<close>: \<^verbatim>\<open>libs/common/rbtree.c\<close> with \<^verbatim>\<open>libs/include/libs/rbtree.h\<close> and \<^verbatim>\<open>rbtree_augmented.h\<close>, red-black trees as a heap of nodes;
    \<open>RbtreeProps\<close> (trees, frames and insertion), \<open>RbtreeErase\<close> and \<open>RbtreeTop\<close> (removal), \<open>RbtreeInv\<close> (colours and heights) and
    \<open>RbtreeSpec\<close> (the specification by sequences) hold its proofs.
  \<^item> \<open>Bitmap\<close>: \<^verbatim>\<open>libs/common/bitmap.c\<close> and its header, sets of bits in arrays of words.
  \<^item> \<open>Resource\<close>: \<^verbatim>\<open>core/vmm_resource.c\<close>, the tree of address ranges.
  \<^item> \<open>HostRam\<close>: \<^verbatim>\<open>core/vmm_host_ram.c\<close>, the allocator of host memory, over \<open>Bitmap\<close> and \<open>Resource\<close>.
  \<^item> \<open>Buddy\<close>: \<^verbatim>\<open>libs/common/buddy.c\<close>, the buddy allocator with its bins, its housekeeping areas and its sorted tree;
    \<open>BuddyProps\<close>, \<open>BuddyOps\<close>, \<open>BuddyReserve\<close>, \<open>BuddyFree\<close> and \<open>BuddyTop\<close> hold its proofs, \<open>BuddyBugs\<close> its deviations.
  \<^item> \<open>Vapool\<close>: \<^verbatim>\<open>core/vmm_host_vapool.c\<close>, the pool of virtual addresses, over \<open>Buddy\<close>.
  \<^item> \<open>Heap\<close>: \<^verbatim>\<open>core/vmm_heap.c\<close>, the normal and the DMA heap, over \<open>Buddy\<close>; \<open>HeapProps\<close> holds its proofs.
  \<^item> \<open>HostAspace\<close>: \<^verbatim>\<open>core/vmm_host_aspace.c\<close>, the host address space, over \<open>Vapool\<close>, \<open>HostRam\<close> and the page tables of the
    architecture; \<open>HostAspaceProps\<close> holds its proofs.
  \<^item> \<open>Vcpu\<close>: \<^verbatim>\<open>struct vmm_vcpu\<close> and the VCPU states of \<^verbatim>\<open>core/include/vmm_manager.h\<close>.
  \<^item> \<open>SchedAlgo\<close>: \<^verbatim>\<open>core/schedalgo/vmm_schedalgo_prr.c\<close> and \<^verbatim>\<open>vmm_schedalgo_prm.c\<close>, the two ready queues.
  \<^item> \<open>VcpuIrq\<close>: the table of virtual interrupts of \<^verbatim>\<open>core/vmm_vcpu_irq.c\<close>.
  \<^item> \<open>Scheduler\<close>: \<^verbatim>\<open>core/vmm_scheduler.c\<close>; \<open>SchedInv\<close>, \<open>SchedSafe\<close> and \<open>SchedProps\<close> hold its proofs.
  \<^item> \<open>Timer\<close>: \<^verbatim>\<open>core/vmm_timer.c\<close>, lists of timer events and the interrupt of the clock chip.
  \<^item> \<open>Waitqueue\<close>: \<^verbatim>\<open>core/vmm_waitqueue.c\<close>, over the scheduler; \<open>WaitProps\<close> holds its proofs.
  \<^item> \<open>Sync\<close>: \<^verbatim>\<open>core/vmm_mutex.c\<close>, \<^verbatim>\<open>core/vmm_semaphore.c\<close> and \<^verbatim>\<open>core/vmm_completion.c\<close>, over the wait queues; \<open>SyncProps\<close> holds
    their proofs.
  \<^item> \<open>VcpuWfi\<close>: the assertion of interrupts and the wait-for-interrupt state of \<^verbatim>\<open>core/vmm_vcpu_irq.c\<close>, with the part of the
    manager that it calls.
  \<^item> \<open>Manager\<close>: \<^verbatim>\<open>core/vmm_manager.c\<close>, over all of these; \<open>ManagerProps\<close> (choice of host CPUs, bookkeeping, orphan VCPUs),
    \<open>GuestProps\<close> (guests, and all sequences of operations) and \<open>GuestReset\<close> (reset and shutdown with the scheduler) hold its proofs.

  \<^bold>\<open>Modelling.\<close>  Structures are records and keep the names of the fields; enumerations are datatypes; integers
  have the width of the source, and wrap.  Objects are named by their address, a natural number; a pointer that
  may be null is an option.  An operation takes the state and returns the new one with its result; a function
  whose name starts with two underscores in the source has a name that says what it does (\<open>request_resource_unlocked\<close> for
  \<^verbatim>\<open>__request_resource\<close>).  An operation that runs under one lock, or on data of its own host CPU with interrupts off, is one step, and
  interleavings of several host CPUs are sequences of such steps.  Two operations of the source are not like that, and have their parts as
  definitions: \<^verbatim>\<open>__vmm_scheduler_next2\<close> gives up the lock of the ready queue before it takes that of the VCPU it found (\<open>switch_dequeue\<close>,
  \<open>switch_commit\<close>), and the assertion of an interrupt and the wait for one run against each other (\<open>assert_steps\<close>, \<open>wait_steps\<close>).  A call that blocks is cut where the VCPU is switched away,
  and a second definition (\<open>vmm_waitqueue_sleep_resume\<close>, \<open>mutex_lock_resume\<close>) goes on when the VCPU runs again.  The spin locks of
  wait queues are events of the trace, because they are held across a switch.  Code of the architecture and of the hardware
  (register contexts, interrupt controllers, clocks, the device tree) and the success of allocations are
  parameters.

  \<^bold>\<open>Interfaces.\<close>  The locale \<open>bounded_queue\<close> (theory \<open>Fifo\<close>) is the contract of a queue and is interpreted on the
  FIFO; \<open>node_list\<close> (\<open>Dlist\<close>) is the contract of the list operations, interpreted on the heap of links;
  \<open>ready_queue\<close> (\<open>SchedAlgo\<close>) is what the scheduler needs of a ready queue, interpreted on both algorithms, and all
  proofs on the scheduler, on what wait queues and mutexes do to it, and on the reset of guests are done in it; \<open>timer_handlers\<close> (\<open>Timer\<close>) is what the timer needs of
  event handlers to stay in order, and \<open>later_handlers\<close> extends it by what the interrupt needs to end: nothing that a handler starts is due at once.
  \<open>tree_walk\<close> (\<open>RbtreeSpec\<close>) is a walk over a tree by a first and a next node, interpreted on the in-order and the post-order walk.
  \<open>area_measure\<close> (\<open>BuddyProps\<close>) is what the accounting of the buddy allocator needs of a measure of areas, interpreted on their blocks and on their
  sizes; \<open>heap_user\<close> (\<open>HeapProps\<close>) is what a caller of a heap relies on, interpreted on the normal and on the DMA heap.

  \<^bold>\<open>What is shown.\<close>  The FIFO and the list operations refine sequences.  Insertion into a red-black tree puts one node into the in-order sequence, removal takes one out,
  both keep the colours and heights, and the walks visit every node; the ready queue of the rate-monotonic algorithm, the areas of the buddy allocator
  and the mappings of the host use such trees, and are modelled by these sequences.  Bitmap regions and host frames are
  found, marked and released exactly.  Resources under a parent stay sorted and disjoint, and allocation finds a
  slot whenever there is one.  Both ready queues return VCPUs in order of priority, and the link operations of the
  round-robin one implement it.  The scheduler keeps the ready queues, the states and the current VCPUs
  consistent over every sequence of guarded operations, each one step, and never panics or corrupts a queue; in the window of the switch it does
  (\<open>switch_window_faults\<close>).  A switch
  chooses a VCPU of highest priority and loses no time of the statistics; disabled preemption holds; state
  changes follow the transition table.  Interrupt delivery takes the most urgent interrupt and loses none whose priority is above zero.
  Timer events are kept in the stable order of expiry, and the clock interrupt ends and fires those that are due.
  A VCPU is in at most one wait queue; one that sleeps is suspended without losing the lock of the queue, and waking
  makes every sleeper run again.  At most one VCPU holds a mutex, locking ends or suspends, unlocking hands over; a
  semaphore stays within its limit.  A VCPU that waits for an interrupt while one is asserted does not stay asleep, in whatever
  order the steps of the two calls come.
  The buddy allocator keeps its areas disjoint, aligned and complete, and what it gives out is exactly what it takes back; so do the pool
  and the heaps above it.  A heap gives zeroed memory to one owner at a time; mapping for DMA and unmapping give the buffer back.  The table of host mappings
  refines a map of addresses; mapping and unmapping physical memory undo each other, and accesses to physical memory read and write exactly the bytes asked for,
  up to the first page that cannot be mapped.
  The manager keeps its counters, lists and tables consistent over every sequence of completed operations; a failed creation
  changes nothing; VCPUs are placed on the least loaded host CPU; a shut down guest has no VCPU that is scheduled.

  \<^bold>\<open>Fuel and termination.\<close>  The search for frames is a \<open>partial_function\<close>, because with a large alignment the source
  does not advance; completeness is proved for the orders it is used with.  The loop \<open>dequeue_again\<close> gets one
  round more than there are queued VCPUs, and the loop over expired timers one more than there are active events,
  when handlers start nothing that is due at once; the loops over red-black trees get the number of nodes.  The theorems show that this is enough.  List traversals get the length of the
  list.  The loop that fills the bins of a new buddy allocator puts blocks in at most twice, so it gets three rounds.  The loop of a lock call gets two rounds, since a VCPU that is woken goes on in the resume definition; the loop that flushes
  the resources of a VCPU gets one round more than there are resources, as clean-ups add none.

  \<^bold>\<open>Guards.\<close>  The safety of the scheduler has a guard per operation (\<open>op_ok\<close>).  Most say what the callers do; two
  exclude situations that the source does not handle, and the lemmas at the end of \<open>SchedProps\<close> show what
  happens in them.  Waking from an orphan VCPU is guarded by \<open>wake_pre\<close>, with the same purpose.  The sequences of manager operations
  destroy guests that exist, and clean-ups of resources and requests of other components leave the tables of the manager alone
  (\<open>mngr_pre\<close>).  The buddy allocator is called within its bounds (\<open>buddy_op_ok\<close>), heaps
  hold whole pages (\<open>pages_ok\<close>), and the page tables do what their interface says (\<open>arch_ok\<close>); whether they map
  the temporary page of an access is left open.  A frame of host memory is free only inside its bank, and allocations stay inside it when the bank ends at a
  word of its bitmap (\<open>bank_tight\<close>).
  Similar lemmas at the end of \<open>BuddyBugs\<close>, \<open>HeapProps\<close>, \<open>HostAspaceProps\<close>, \<open>WaitProps\<close>, \<open>SyncProps\<close> and \<open>GuestReset\<close> and in \<open>HostRam\<close>, \<open>Bitmap\<close>, \<open>VcpuIrq\<close> and
  \<open>VcpuWfi\<close> record other deviations.

  \<^bold>\<open>Not modelled.\<close>  Input and output, the architecture ports, drivers and device trees, and the file systems and
  network stack that the repository contains.  Register contexts are names in a trace.  The other spin locks and the mutex of the manager
  are not state, since the steps are atomic.  The guest address space with device emulation is seen through its return codes.  Inter-processor
  calls are a list of calls that wait, each delivered by a step of its own; work queues and threads are users of the scheduler and not part of it.
  \<^verbatim>\<open>vmm_scheduler_init\<close> sets up the state that the proofs start from and is left out, as are the containers of \<^verbatim>\<open>libs/common\<close> that none of these
  parts uses.
\<close>

end
